(* ===== verification/Prelude.thy ===== *)
theory Prelude
  imports Main "HOL-Library.Word"
begin

text \<open>
  Shared vocabulary of the development: the machine integer types of the Rust source, byte
  lists, big-endian conversions (the standard library's \<open>to_be_bytes\<close>/\<open>from_be_bytes\<close>),
  overwriting a region of a buffer (\<open>copy_from_slice\<close> on a sub-slice) and decimal printing
  (\<open>format!\<close> of an integer), together with the generic lemmas on lists, numbers and words
  that the component theories use.
\<close>

unbundle bit_operations_syntax

section \<open>Types\<close>

type_synonym u8 = "8 word"
type_synonym u16 = "16 word"
type_synonym u32 = "32 word"
type_synonym u64 = "64 word"

text \<open>
  A signed 64-bit integer is its bit pattern; \<open>sint\<close> reads it. The casts \<open>as u64\<close> and
  \<open>as i64\<close> of the source are then the identity. An IEEE double is its bit pattern too.
\<close>

type_synonym i64 = "64 word"
type_synonym f64 = "64 word"
type_synonym bytes = "8 word list"

named_theorems bytes_simps \<open>lengths and contents of encoded and overwritten byte lists\<close>
named_theorems no_panic \<open>operations that never panic\<close>

section \<open>Lists\<close>

lemma take_eq_nth_upt: "n \<le> length xs \<Longrightarrow> take n xs = map (\<lambda>i. xs ! i) [0..<n]"
  by (rule nth_equalityI) auto

lemma list_eq_4: "length xs = 4 \<Longrightarrow> [xs ! 0, xs ! 1, xs ! 2, xs ! 3] = xs"
  by (rule nth_equalityI) (auto simp: less_Suc_eq numeral_eq_Suc)

lemma take_drop_append_mid:
  "length a = i \<Longrightarrow> length b = n \<Longrightarrow> take n (drop i (a @ b @ c)) = b"
  by simp

section \<open>Overwriting a region of a buffer\<close>

text \<open>
  \<open>buf[at..at + src.len()].copy_from_slice(src)\<close> on a buffer long enough to hold the region.
\<close>

definition overwrite :: "'a list \<Rightarrow> nat \<Rightarrow> 'a list \<Rightarrow> 'a list" where
  "overwrite buf at src = take at buf @ src @ drop (at + length src) buf"

lemma length_overwrite [simp, bytes_simps]:
  "at + length src \<le> length buf \<Longrightarrow> length (overwrite buf at src) = length buf"
  by (simp add: overwrite_def)

lemma overwrite_nil [simp]: "overwrite buf at [] = buf"
  by (simp add: overwrite_def)

lemma nth_overwrite:
  assumes "at + length src \<le> length buf" and "i < length buf"
  shows "overwrite buf at src ! i =
    (if at \<le> i \<and> i < at + length src then src ! (i - at) else buf ! i)"
  using assms by (auto simp: overwrite_def nth_append min_def)

lemma nth_overwrite_in [bytes_simps]:
  "at + length src \<le> length buf \<Longrightarrow> at \<le> i \<Longrightarrow> i < at + length src \<Longrightarrow>
   overwrite buf at src ! i = src ! (i - at)"
  by (simp add: nth_overwrite)

lemma nth_overwrite_out [bytes_simps]:
  "at + length src \<le> length buf \<Longrightarrow> i < length buf \<Longrightarrow> i < at \<or> at + length src \<le> i \<Longrightarrow>
   overwrite buf at src ! i = buf ! i"
  by (auto simp: nth_overwrite)

lemma slice_overwrite_same [simp, bytes_simps]:
  "at + length src \<le> length buf \<Longrightarrow> n = length src \<Longrightarrow>
   take n (drop at (overwrite buf at src)) = src"
  by (simp add: overwrite_def)

lemma slice_overwrite_other [bytes_simps]:
  assumes "at + length src \<le> length buf"
    and "i + n \<le> at \<or> at + length src \<le> i"
  shows "take n (drop i (overwrite buf at src)) = take n (drop i buf)"
proof (rule nth_equalityI)
  show "length (take n (drop i (overwrite buf at src))) = length (take n (drop i buf))"
    using assms by simp
next
  fix j
  assume "j < length (take n (drop i (overwrite buf at src)))"
  with assms show "take n (drop i (overwrite buf at src)) ! j = take n (drop i buf) ! j"
    by (auto simp: nth_overwrite)
qed

lemma take_overwrite_before [bytes_simps]:
  "at + length src \<le> length buf \<Longrightarrow> n \<le> at \<Longrightarrow> take n (overwrite buf at src) = take n buf"
  using slice_overwrite_other [of at src buf 0 n] by simp

lemma drop_overwrite_after [bytes_simps]:
  "at + length src \<le> length buf \<Longrightarrow> at + length src \<le> n \<Longrightarrow>
   drop n (overwrite buf at src) = drop n buf"
  by (simp add: overwrite_def min_def)

lemma overwrite_self:
  "at + n \<le> length buf \<Longrightarrow> overwrite buf at (take n (drop at buf)) = buf"
  by (rule nth_equalityI) (auto simp: nth_overwrite)

lemma overwrite_overwrite_same:
  "at + length a \<le> length buf \<Longrightarrow> length b = length a \<Longrightarrow>
   overwrite (overwrite buf at a) at b = overwrite buf at b"
  by (rule nth_equalityI) (auto simp: nth_overwrite)

lemma overwrite_swap:
  "at + length a \<le> length buf \<Longrightarrow> bt + length b \<le> length buf \<Longrightarrow>
   at + length a \<le> bt \<or> bt + length b \<le> at \<Longrightarrow>
   overwrite (overwrite buf at a) bt b = overwrite (overwrite buf bt b) at a"
  by (rule nth_equalityI) (auto simp: nth_overwrite)

section \<open>Big-endian integers\<close>

fun be_val :: "bytes \<Rightarrow> nat" where
  "be_val [] = 0"
| "be_val (b # bs) = unat b * 256 ^ length bs + be_val bs"

fun be_bytes :: "nat \<Rightarrow> nat \<Rightarrow> bytes" where
  "be_bytes 0 k = []"
| "be_bytes (Suc n) k = of_nat (k div 256 ^ n) # be_bytes n k"

lemma length_be_bytes [simp, bytes_simps]: "length (be_bytes n k) = n"
  by (induction n) auto

lemma unat_less_length: "unat (w :: 'a::len word) < 2 ^ LENGTH('a)"
  by (rule unsigned_less)

lemma unat_u8_less [simp]: "unat (b :: u8) < 256"
  using unat_less_length [of b] by simp

lemma be_val_bound: "be_val bs < 256 ^ length bs"
proof (induction bs)
  case Nil
  then show ?case by simp
next
  case (Cons b bs)
  have "unat b * 256 ^ length bs + be_val bs < Suc (unat b) * 256 ^ length bs"
    using Cons by simp
  also have "\<dots> \<le> 256 * 256 ^ length bs"
    using unat_u8_less [of b] by (intro mult_right_mono) linarith+
  finally show ?case by simp
qed

lemma be_val_append: "be_val (xs @ ys) = be_val xs * 256 ^ length ys + be_val ys"
  by (induction xs) (auto simp: algebra_simps power_add)

lemma be_val_be_bytes: "be_val (be_bytes n k) = k mod 256 ^ n"
proof (induction n)
  case 0
  then show ?case by simp
next
  case (Suc n)
  have "k mod 256 ^ Suc n = (k div 256 ^ n mod 256) * 256 ^ n + k mod 256 ^ n"
    by (metis add.commute mod_mult2_eq mult.commute power_Suc2)
  then show ?case using Suc by (simp add: unat_of_nat)
qed

lemma be_bytes_mod: "be_bytes n (k mod 256 ^ m) = be_bytes n k" if "n \<le> m"
  using that
proof (induction n)
  case 0
  then show ?case by simp
next
  case (Suc n)
  have "(k mod 256 ^ m) div 256 ^ n mod 256 = k div 256 ^ n mod 256"
  proof -
    have "(256 :: nat) ^ m = 256 ^ n * 256 ^ (m - n)"
      using Suc.prems by (simp flip: power_add)
    then have "(k mod 256 ^ m) div 256 ^ n = k div 256 ^ n mod 256 ^ (m - n)"
      by (simp add: mod_mult2_eq)
    moreover have "(256 :: nat) dvd 256 ^ (m - n)"
      using Suc.prems by simp
    ultimately show ?thesis by (simp add: mod_mod_cancel)
  qed
  then have "(of_nat ((k mod 256 ^ m) div 256 ^ n) :: u8) = of_nat (k div 256 ^ n)"
    by (intro word_unat_eq_iff [THEN iffD2]) (simp add: unat_of_nat)
  with Suc show ?case by simp
qed

lemma be_bytes_add_high: "be_bytes n (a * 256 ^ n + b) = be_bytes n b"
  by (metis be_bytes_mod mod_mult_self3 order_refl)

lemma be_bytes_be_val: "be_bytes (length bs) (be_val bs) = bs"
proof (induction bs)
  case Nil
  then show ?case by simp
next
  case (Cons b bs)
  have "(unat b * 256 ^ length bs + be_val bs) div 256 ^ length bs = unat b"
    using be_val_bound [of bs] by simp
  then show ?case using Cons by (simp add: be_bytes_add_high)
qed

text \<open>\<open>u16/u32/u64::from_be_bytes\<close> and \<open>to_be_bytes\<close>.\<close>

definition from_be16 :: "bytes \<Rightarrow> u16" where
  "from_be16 bs = of_nat (be_val bs)"

definition from_be32 :: "bytes \<Rightarrow> u32" where
  "from_be32 bs = of_nat (be_val bs)"

definition from_be64 :: "bytes \<Rightarrow> u64" where
  "from_be64 bs = of_nat (be_val bs)"

definition to_be16 :: "u16 \<Rightarrow> bytes" where
  "to_be16 w = be_bytes 2 (unat w)"

definition to_be32 :: "u32 \<Rightarrow> bytes" where
  "to_be32 w = be_bytes 4 (unat w)"

definition to_be64 :: "u64 \<Rightarrow> bytes" where
  "to_be64 w = be_bytes 8 (unat w)"

lemma length_to_be [simp, bytes_simps]:
  "length (to_be16 a) = 2" "length (to_be32 b) = 4" "length (to_be64 c) = 8"
  by (simp_all add: to_be16_def to_be32_def to_be64_def)

lemma from_be16_to_be16 [simp]: "from_be16 (to_be16 w) = w"
  using unat_less_length [of w] by (simp add: from_be16_def to_be16_def be_val_be_bytes)

lemma from_be32_to_be32 [simp]: "from_be32 (to_be32 w) = w"
  using unat_less_length [of w] by (simp add: from_be32_def to_be32_def be_val_be_bytes)

lemma from_be64_to_be64 [simp]: "from_be64 (to_be64 w) = w"
  using unat_less_length [of w] by (simp add: from_be64_def to_be64_def be_val_be_bytes)

lemma unat_from_be32: "length bs = 4 \<Longrightarrow> unat (from_be32 bs) = be_val bs"
  using be_val_bound [of bs] by (simp add: from_be32_def unat_of_nat)

lemma unat_from_be16: "length bs = 2 \<Longrightarrow> unat (from_be16 bs) = be_val bs"
  using be_val_bound [of bs] by (simp add: from_be16_def unat_of_nat)

lemma unat_from_be64: "length bs = 8 \<Longrightarrow> unat (from_be64 bs) = be_val bs"
  using be_val_bound [of bs] by (simp add: from_be64_def unat_of_nat)

lemma to_be32_from_be32 [simp]: "length bs = 4 \<Longrightarrow> to_be32 (from_be32 bs) = bs"
  by (metis be_bytes_be_val to_be32_def unat_from_be32)

lemma to_be16_from_be16 [simp]: "length bs = 2 \<Longrightarrow> to_be16 (from_be16 bs) = bs"
  by (metis be_bytes_be_val to_be16_def unat_from_be16)

lemma to_be64_from_be64 [simp]: "length bs = 8 \<Longrightarrow> to_be64 (from_be64 bs) = bs"
  by (metis be_bytes_be_val to_be64_def unat_from_be64)

section \<open>Words\<close>

text \<open>Appending \<open>k\<close> low bits below a shifted word is an addition when nothing is lost.\<close>

lemma unat_shift_or:
  fixes r x :: "'a::len word"
  assumes x: "unat x < 2 ^ k" and r: "unat r * 2 ^ k < 2 ^ LENGTH('a)"
  shows "unat (push_bit k r OR x) = unat r * 2 ^ k + unat x"
proof -
  have tx: "take_bit k (unat x) = unat x"
    using x by (simp add: take_bit_nat_eq_self_iff)
  have pr: "unat (push_bit k r) = push_bit k (unat r)"
    using r unfolding unsigned_push_bit_eq
    by (simp add: take_bit_nat_eq_self_iff push_bit_eq_mult)
  have hx: "\<not> bit (unat x) n" if "k \<le> n" for n
    using tx that by (metis bit_take_bit_iff not_le)
  have "push_bit k (unat r) AND unat x = 0"
    by (rule bit_eqI) (use hx in \<open>auto simp: bit_and_iff bit_push_bit_iff\<close>)
  then have "push_bit k (unat r) + unat x = push_bit k (unat r) OR unat x"
    by (rule disjunctive_add_eq_or)
  then show ?thesis
    by (simp only: unsigned_or_eq pr) (simp add: push_bit_eq_mult)
qed

lemma unat_push_bit_mod:
  "unat (push_bit k (r :: 'a::len word)) = unat r * 2 ^ k mod 2 ^ LENGTH('a)"
  unfolding unsigned_push_bit_eq by (simp add: take_bit_eq_mod push_bit_eq_mult)

lemma unat_drop_bit_div: "unat (drop_bit k (r :: 'a::len word)) = unat r div 2 ^ k"
  unfolding unat_drop_bit_eq by (simp add: drop_bit_eq_div)

lemma unat_and_mask: "unat (r AND mask k) = unat (r :: 'a::len word) mod 2 ^ k"
  by (simp only: take_bit_eq_mask [symmetric] unsigned_take_bit_eq) (simp add: take_bit_eq_mod)

lemma unat_ucast_mod: "unat (ucast (w :: 'a::len word) :: 'b::len word) = unat w mod 2 ^ LENGTH('b)"
  by (simp add: unsigned_ucast_eq take_bit_eq_mod)

lemma unat_ucast_up:
  "LENGTH('a) \<le> LENGTH('b) \<Longrightarrow> unat (ucast (w :: 'a::len word) :: 'b::len word) = unat w"
  using less_le_trans [OF unat_less_length [of w] power_increasing, of "LENGTH('b)"]
  by (simp add: unat_ucast_mod)

section \<open>Printing integers\<close>

fun show_nat :: "nat \<Rightarrow> string" where
  "show_nat n =
    (if n < 10 then [char_of (48 + n)] else show_nat (n div 10) @ [char_of (48 + n mod 10)])"

declare show_nat.simps [simp del]

end
