(* ===== verification/Errors.thy ===== *)
theory Errors
  imports Prelude
begin

text \<open>
  The crate's error type (\<open>src/error.rs\<close>) and the result of fallible code. A Rust function
  returning \<open>Result\<close> may return \<open>Ok\<close>, return \<open>Err\<close> or panic (an index out of range, a slice
  whose bounds cross, an arithmetic underflow); the three outcomes are the constructors of
  \<open>res\<close>, and \<open>bindR\<close> is the \<open>?\<close> operator. The checked accesses \<open>idx\<close>, \<open>slice\<close>, \<open>put_slice\<close> and
  \<open>usub\<close> are the indexing, slicing, \<open>copy_from_slice\<close> and unsigned subtraction of the language,
  which panic where HOL's total functions would return some unspecified value.
\<close>

section \<open>The error type\<close>

datatype error =
    Error string
  | ErrorAt string nat
  | Corrupt string
  | Io string
  | Busy
  | CantOpen string
  | Constraint string
  | Parse string
  | ParseAt string nat
  | Unsupported string

definition message_code :: "string \<Rightarrow> int" where
  "message_code m =
    (if m = ''datatype mismatch'' then 20
     else if m = ''string or blob too big'' then 18
     else if m = ''file is not a database'' then 26
     else 1)"

fun error_code :: "error \<Rightarrow> int" where
  "error_code (Error m) = message_code m"
| "error_code (ErrorAt m _) = message_code m"
| "error_code (Parse _) = 1"
| "error_code (ParseAt _ _) = 1"
| "error_code (Unsupported _) = 1"
| "error_code (Corrupt _) = 11"
| "error_code (Io _) = 10"
| "error_code Busy = 5"
| "error_code (CantOpen _) = 14"
| "error_code (Constraint _) = 19"

fun parse_offset :: "error \<Rightarrow> nat option" where
  "parse_offset (ParseAt _ off) = Some off"
| "parse_offset (ErrorAt _ off) = Some off"
| "parse_offset _ = None"

fun error_display :: "error \<Rightarrow> string" where
  "error_display (Error m) = ''error: '' @ m"
| "error_display (ErrorAt m _) = ''error: '' @ m"
| "error_display (Corrupt m) = ''database disk image is malformed: '' @ m"
| "error_display (Io m) = ''disk I/O error: '' @ m"
| "error_display Busy = ''database is locked''"
| "error_display (CantOpen m) = ''unable to open database file: '' @ m"
| "error_display (Constraint m) = m"
| "error_display (Parse m) = ''SQL error: '' @ m"
| "error_display (ParseAt m _) = ''SQL error: '' @ m"
| "error_display (Unsupported m) = ''not yet implemented: '' @ m"

section \<open>Results\<close>

datatype 'a res = Ok 'a | Err error | Panic

primrec bindR :: "'a res \<Rightarrow> ('a \<Rightarrow> 'b res) \<Rightarrow> 'b res" where
  "bindR (Ok x) f = f x"
| "bindR (Err e) f = Err e"
| "bindR Panic f = Panic"

definition ok_or :: "'a option \<Rightarrow> error \<Rightarrow> 'a res" where
  "ok_or opt e = (case opt of None \<Rightarrow> Err e | Some x \<Rightarrow> Ok x)"

primrec is_ok :: "'a res \<Rightarrow> bool" where
  "is_ok (Ok _) = True"
| "is_ok (Err _) = False"
| "is_ok Panic = False"

fun mapR :: "('a \<Rightarrow> 'b res) \<Rightarrow> 'a list \<Rightarrow> 'b list res" where
  "mapR f [] = Ok []"
| "mapR f (x # xs) = bindR (f x) (\<lambda>y. bindR (mapR f xs) (\<lambda>ys. Ok (y # ys)))"

fun foldR :: "('a \<Rightarrow> 's \<Rightarrow> 's res) \<Rightarrow> 'a list \<Rightarrow> 's \<Rightarrow> 's res" where
  "foldR f [] s = Ok s"
| "foldR f (x # xs) s = bindR (f x s) (foldR f xs)"

definition idx :: "'a list \<Rightarrow> nat \<Rightarrow> 'a res" where
  "idx xs i = (if i < length xs then Ok (xs ! i) else Panic)"

definition slice :: "'a list \<Rightarrow> nat \<Rightarrow> nat \<Rightarrow> 'a list res" where
  "slice xs i j = (if i \<le> j \<and> j \<le> length xs then Ok (take (j - i) (drop i xs)) else Panic)"

definition slice_from :: "'a list \<Rightarrow> nat \<Rightarrow> 'a list res" where
  "slice_from xs i = (if i \<le> length xs then Ok (drop i xs) else Panic)"

definition get_slice :: "'a list \<Rightarrow> nat \<Rightarrow> nat \<Rightarrow> 'a list option" where
  "get_slice xs i j = (if i \<le> j \<and> j \<le> length xs then Some (take (j - i) (drop i xs)) else None)"

definition get_from :: "'a list \<Rightarrow> nat \<Rightarrow> 'a list option" where
  "get_from xs i = (if i \<le> length xs then Some (drop i xs) else None)"

definition put_slice :: "'a list \<Rightarrow> nat \<Rightarrow> 'a list \<Rightarrow> 'a list res" where
  "put_slice buf at src =
    (if at + length src \<le> length buf then Ok (overwrite buf at src) else Panic)"

definition put_idx :: "'a list \<Rightarrow> nat \<Rightarrow> 'a \<Rightarrow> 'a list res" where
  "put_idx buf i v = (if i < length buf then Ok (buf[i := v]) else Panic)"

definition usub :: "nat \<Rightarrow> nat \<Rightarrow> nat res" where
  "usub a b = (if b \<le> a then Ok (a - b) else Panic)"

section \<open>Lemmas on results\<close>

lemma bindR_Ok_iff: "bindR m f = Ok y \<longleftrightarrow> (\<exists>x. m = Ok x \<and> f x = Ok y)"
  by (cases m) auto

lemma bindR_Err_iff: "bindR m f = Err e \<longleftrightarrow> m = Err e \<or> (\<exists>x. m = Ok x \<and> f x = Err e)"
  by (cases m) auto

lemma bindR_Panic_iff: "bindR m f = Panic \<longleftrightarrow> m = Panic \<or> (\<exists>x. m = Ok x \<and> f x = Panic)"
  by (cases m) auto

lemma bindR_OkE:
  assumes "bindR m f = Ok y"
  obtains x where "m = Ok x" and "f x = Ok y"
  using assms by (cases m) auto

lemma bindR_no_panic [no_panic]:
  "m \<noteq> Panic \<Longrightarrow> (\<And>x. m = Ok x \<Longrightarrow> f x \<noteq> Panic) \<Longrightarrow> bindR m f \<noteq> Panic"
  by (cases m) auto

lemma bindR_cong [fundef_cong]:
  "m = m' \<Longrightarrow> (\<And>x. m' = Ok x \<Longrightarrow> f x = g x) \<Longrightarrow> bindR m f = bindR m' g"
  by (cases m') auto

lemma bindR_assoc: "bindR (bindR m f) g = bindR m (\<lambda>x. bindR (f x) g)"
  by (cases m) auto

lemma ok_or_simps [simp]: "ok_or (Some x) e = Ok x" "ok_or None e = Err e"
  by (simp_all add: ok_or_def)

lemma ok_or_no_panic [no_panic]: "ok_or opt e \<noteq> Panic"
  by (cases opt) auto

lemma ok_or_Ok_iff: "ok_or opt e = Ok x \<longleftrightarrow> opt = Some x"
  by (cases opt) auto

lemma mapR_Ok_length: "mapR f xs = Ok ys \<Longrightarrow> length ys = length xs"
  by (induction xs arbitrary: ys) (auto simp: bindR_Ok_iff)

lemma mapR_Ok_nth:
  "mapR f xs = Ok ys \<Longrightarrow> i < length xs \<Longrightarrow> f (xs ! i) = Ok (ys ! i)"
  by (induction xs arbitrary: ys i) (auto simp: bindR_Ok_iff nth_Cons split: nat.splits)

lemma mapR_all_Ok: "(\<And>x. x \<in> set xs \<Longrightarrow> f x = Ok (g x)) \<Longrightarrow> mapR f xs = Ok (map g xs)"
  by (induction xs) auto

lemma mapR_no_panic: "(\<And>x. x \<in> set xs \<Longrightarrow> f x \<noteq> Panic) \<Longrightarrow> mapR f xs \<noteq> Panic"
  by (induction xs) (auto simp: bindR_Panic_iff)

lemma mapR_append:
  "mapR f (xs @ ys) = bindR (mapR f xs) (\<lambda>a. bindR (mapR f ys) (\<lambda>b. Ok (a @ b)))"
proof (induction xs)
  case Nil
  then show ?case by (cases "mapR f ys") auto
next
  case (Cons x xs)
  then show ?case by (simp add: bindR_assoc)
qed

lemma foldR_append: "foldR f (xs @ ys) s = bindR (foldR f xs s) (foldR f ys)"
proof (induction xs arbitrary: s)
  case Nil
  then show ?case by simp
next
  case (Cons x xs)
  then show ?case by (cases "f x s") auto
qed

lemma idx_Ok [simp]: "i < length xs \<Longrightarrow> idx xs i = Ok (xs ! i)"
  by (simp add: idx_def)

lemma slice_Ok [simp]:
  "i \<le> j \<Longrightarrow> j \<le> length xs \<Longrightarrow> slice xs i j = Ok (take (j - i) (drop i xs))"
  by (simp add: slice_def)

lemma slice_from_Ok [simp]: "i \<le> length xs \<Longrightarrow> slice_from xs i = Ok (drop i xs)"
  by (simp add: slice_from_def)

lemma get_slice_Some [simp]:
  "i \<le> j \<Longrightarrow> j \<le> length xs \<Longrightarrow> get_slice xs i j = Some (take (j - i) (drop i xs))"
  by (simp add: get_slice_def)

lemma get_from_Some [simp]: "i \<le> length xs \<Longrightarrow> get_from xs i = Some (drop i xs)"
  by (simp add: get_from_def)

lemma put_slice_Ok [simp]:
  "at + length src \<le> length buf \<Longrightarrow> put_slice buf at src = Ok (overwrite buf at src)"
  by (simp add: put_slice_def)

lemma put_idx_Ok [simp]: "i < length buf \<Longrightarrow> put_idx buf i v = Ok (buf[i := v])"
  by (simp add: put_idx_def)

lemma usub_Ok [simp]: "b \<le> a \<Longrightarrow> usub a b = Ok (a - b)"
  by (simp add: usub_def)

lemma list_update_overwrite: "i < length buf \<Longrightarrow> buf[i := v] = overwrite buf i [v]"
  by (simp add: overwrite_def upd_conv_take_nth_drop)

section \<open>Located errors\<close>

text \<open>
  An error that carries a token position has the code and the text of the error without it;
  only the offset differs (the promise of the type's documentation).
\<close>

lemma located_error_transparent:
  "error_code (ErrorAt m off) = error_code (Error m) \<and>
   error_display (ErrorAt m off) = error_display (Error m) \<and>
   error_code (ParseAt m off) = error_code (Parse m) \<and>
   error_display (ParseAt m off) = error_display (Parse m) \<and>
   parse_offset (ErrorAt m off) = Some off \<and> parse_offset (ParseAt m off) = Some off \<and>
   parse_offset (Error m) = None \<and> parse_offset (Parse m) = None"
  by simp

end
