(* ===== verification/StateResult.thy ===== *)
theory StateResult
  imports Errors
begin

text \<open>
  Fallible code that changes state. A Rust method on \<open>&mut self\<close> (or on cells behind \<open>&self\<close>) that
  returns \<open>Result\<close> keeps the changes it made before an early return, so an action gives both the
  result and the state it leaves. \<open>bindA\<close> is the \<open>?\<close> operator. Loops over data that may be cyclic
  give an optional outcome, \<open>None\<close> when the fuel runs out; \<open>bindL\<close> sequences those.
\<close>

section \<open>Actions\<close>

type_synonym ('s, 'a) act = "'s \<Rightarrow> 'a res \<times> 's"

definition retA :: "'a \<Rightarrow> ('s, 'a) act" where
  "retA x = (\<lambda>s. (Ok x, s))"

definition liftA :: "'a res \<Rightarrow> ('s, 'a) act" where
  "liftA r = (\<lambda>s. (r, s))"

definition bindA :: "('s, 'a) act \<Rightarrow> ('a \<Rightarrow> ('s, 'b) act) \<Rightarrow> ('s, 'b) act" where
  "bindA m f = (\<lambda>s. case m s of (Ok x, s') \<Rightarrow> f x s' | (Err e, s') \<Rightarrow> (Err e, s') | (Panic, s') \<Rightarrow> (Panic, s'))"

definition getA :: "('s, 's) act" where
  "getA = (\<lambda>s. (Ok s, s))"

definition modA :: "('s \<Rightarrow> 's) \<Rightarrow> ('s, unit) act" where
  "modA f = (\<lambda>s. (Ok (), f s))"

text \<open>A result that the code inspects instead of propagating.\<close>

definition tryA :: "('s, 'a) act \<Rightarrow> ('a res \<Rightarrow> ('s, 'b) act) \<Rightarrow> ('s, 'b) act" where
  "tryA m f = (\<lambda>s. case m s of (Panic, s') \<Rightarrow> (Panic, s') | (r, s') \<Rightarrow> f r s')"

fun foldA :: "('a \<Rightarrow> ('s, unit) act) \<Rightarrow> 'a list \<Rightarrow> ('s, unit) act" where
  "foldA f [] = retA ()"
| "foldA f (x # xs) = bindA (f x) (\<lambda>_. foldA f xs)"

lemma bindA_ret [simp]: "bindA (retA x) f = f x"
  by (simp add: bindA_def retA_def)

lemma bindA_get [simp]: "bindA getA f s = f s s"
  by (simp add: bindA_def getA_def)

lemma bindA_mod [simp]: "bindA (modA g) f s = f () (g s)"
  by (simp add: bindA_def modA_def)

lemma bindA_lift [simp]:
  "bindA (liftA (Ok x)) f s = f x s" "bindA (liftA (Err e)) f s = (Err e, s)" "bindA (liftA Panic) f s = (Panic, s)"
  by (simp_all add: bindA_def liftA_def)

lemma act_simps [simp]:
  "retA x s = (Ok x, s)" "liftA r s = (r, s)" "modA g s = (Ok (), g s)" "getA s = (Ok s, s)"
  by (simp_all add: retA_def liftA_def modA_def getA_def)

lemma bindA_OkI: "m s = (Ok x, s') \<Longrightarrow> bindA m f s = f x s'"
  by (simp add: bindA_def)

lemma bindA_ErrI: "m s = (Err e, s') \<Longrightarrow> bindA m f s = (Err e, s')"
  by (simp add: bindA_def)

lemma bindA_Ok_iff: "bindA m f s = (Ok y, s'') \<longleftrightarrow> (\<exists>x s'. m s = (Ok x, s') \<and> f x s' = (Ok y, s''))"
  by (auto simp: bindA_def split: prod.splits res.splits)

lemma bindA_OkE:
  assumes "bindA m f s = (Ok y, s'')"
  obtains x s' where "m s = (Ok x, s')" and "f x s' = (Ok y, s'')"
  using assms by (auto simp: bindA_Ok_iff)

lemma bindA_assoc: "bindA (bindA m f) g = bindA m (\<lambda>x. bindA (f x) g)"
  by (auto simp: bindA_def fun_eq_iff split: prod.splits res.splits)

text \<open>An invariant that an action keeps, whatever it returns.\<close>

definition keepsA :: "('s \<Rightarrow> bool) \<Rightarrow> ('s, 'a) act \<Rightarrow> bool" where
  "keepsA I m \<longleftrightarrow> (\<forall>s. I s \<longrightarrow> I (snd (m s)))"

lemma keepsA_D: "keepsA I m \<Longrightarrow> I s \<Longrightarrow> I (snd (m s))"
  by (simp add: keepsA_def)

lemma keepsA_basic [intro]: "keepsA I (retA x)" "keepsA I (liftA r)" "keepsA I getA"
  by (simp_all add: keepsA_def)

lemma keepsA_bind [intro]: "keepsA I m \<Longrightarrow> (\<And>x. keepsA I (f x)) \<Longrightarrow> keepsA I (bindA m f)"
  unfolding keepsA_def bindA_def by (auto split: prod.splits res.splits)

lemma keepsA_mod [intro]: "(\<And>s. I s \<Longrightarrow> I (g s)) \<Longrightarrow> keepsA I (modA g)"
  by (simp add: keepsA_def)

lemma keepsA_try [intro]: "keepsA I m \<Longrightarrow> (\<And>r. keepsA I (f r)) \<Longrightarrow> keepsA I (tryA m f)"
  unfolding keepsA_def tryA_def by (auto split: prod.splits res.splits)

lemma keepsA_fold [intro]: "(\<And>x. x \<in> set xs \<Longrightarrow> keepsA I (f x)) \<Longrightarrow> keepsA I (foldA f xs)"
  by (induction xs) auto

section \<open>Actions that may not return\<close>

type_synonym ('s, 'a) lact = "'s \<Rightarrow> ('a res \<times> 's) option"

definition runL :: "('s, 'a) act \<Rightarrow> ('s, 'a) lact" where
  "runL m = (\<lambda>s. Some (m s))"

definition bindL :: "('s, 'a) lact \<Rightarrow> ('a \<Rightarrow> ('s, 'b) lact) \<Rightarrow> ('s, 'b) lact" where
  "bindL m f = (\<lambda>s. case m s of
     None \<Rightarrow> None
   | Some (Ok x, s') \<Rightarrow> f x s'
   | Some (Err e, s') \<Rightarrow> Some (Err e, s')
   | Some (Panic, s') \<Rightarrow> Some (Panic, s'))"

fun foldL :: "('a \<Rightarrow> 'b \<Rightarrow> ('s, 'b) lact) \<Rightarrow> 'a list \<Rightarrow> 'b \<Rightarrow> ('s, 'b) lact" where
  "foldL f [] acc = runL (retA acc)"
| "foldL f (x # xs) acc = bindL (f x acc) (foldL f xs)"

lemma bindL_run [simp]: "bindL (runL m) f s = (case m s of
    (Ok x, s') \<Rightarrow> f x s' | (Err e, s') \<Rightarrow> Some (Err e, s') | (Panic, s') \<Rightarrow> Some (Panic, s'))"
  by (simp add: bindL_def runL_def)

end
