(* ===== verification/Varint.thy ===== *)
theory Varint
  imports Errors
begin

text \<open>
  The variable-length integers of the file format (\<open>src/util/varint.rs\<close>): decoding,
  the encoded length and encoding, with the round trip in both directions that the
  record and cell layers rely on. The two loops of the source become \<open>varint_decode_loop\<close>
  (the first eight bytes) and \<open>varint_groups\<close> (the seven-bit groups, written from the last
  byte to the first).
\<close>

section \<open>Definitions\<close>

definition MAX_LEN :: nat where
  "MAX_LEN = 9"

text \<open>
  The loop over the first eight bytes: \<open>i\<close> is the next index, \<open>result\<close> the accumulator.
  After eight bytes the ninth contributes all of its bits.
\<close>

function varint_decode_loop :: "bytes \<Rightarrow> nat \<Rightarrow> u64 \<Rightarrow> (u64 \<times> nat) option" where
  "varint_decode_loop buf i result =
    (if i < 8 then
       (if i < length buf then
          (let byte = buf ! i;
               result' = push_bit 7 result OR ucast (byte AND 0x7f)
           in if byte AND 0x80 = 0 then Some (result', i + 1)
              else varint_decode_loop buf (i + 1) result')
        else None)
     else
       (if 8 < length buf then Some (push_bit 8 result OR ucast (buf ! 8), 9) else None))"
  by pat_completeness auto
termination
  by (relation "measure (\<lambda>(buf, i, result). 8 - i)") auto

declare varint_decode_loop.simps [simp del]

definition varint_decode :: "bytes \<Rightarrow> (u64 \<times> nat) option" where
  "varint_decode buf = varint_decode_loop buf 0 0"

text \<open>The signed reading reinterprets the same bits.\<close>

definition varint_decode_i64 :: "bytes \<Rightarrow> (i64 \<times> nat) option" where
  "varint_decode_i64 buf = map_option (\<lambda>(v, n). (v, n)) (varint_decode buf)"

definition varint_len :: "u64 \<Rightarrow> nat" where
  "varint_len value =
    (if value \<le> 0x7f then 1
     else if value \<le> 0x3fff then 2
     else if value \<le> 0x1fffff then 3
     else if value \<le> 0x0fffffff then 4
     else if value \<le> 0x0007ffffffff then 5
     else if value \<le> 0x3ffffffffff then 6
     else if value \<le> 0x1ffffffffffff then 7
     else if value \<le> 0xffffffffffffff then 8
     else 9)"

text \<open>
  The loop \<open>for idx in (0..n).rev()\<close>: the group at the highest index is the low seven bits
  of \<open>v\<close>, then \<open>v >>= 7\<close>. The list is the contents of the slots \<open>0 .. n - 1\<close>; \<open>conts\<close> tells
  whether the slot written first (the last one) carries the continuation bit.
\<close>

fun varint_groups :: "nat \<Rightarrow> u64 \<Rightarrow> bool \<Rightarrow> bytes" where
  "varint_groups 0 v cont = []"
| "varint_groups (Suc i) v cont =
     varint_groups i (drop_bit 7 v) True @
       [(ucast v AND 0x7f) OR (if cont then 0x80 else 0)]"

text \<open>\<open>encode\<close>: the bytes written to the front of \<open>out\<close>; their number is the returned length.\<close>

definition varint_encode :: "u64 \<Rightarrow> bytes" where
  "varint_encode value =
    (let n = varint_len value
     in if n = 9 then varint_groups 8 (drop_bit 8 value) True @ [ucast value]
        else varint_groups n value False)"

definition varint_encode_i64 :: "i64 \<Rightarrow> bytes" where
  "varint_encode_i64 value = varint_encode value"

section \<open>Arithmetic of the groups\<close>

text \<open>The value of a run of seven-bit groups.\<close>

fun group_val :: "bytes \<Rightarrow> nat" where
  "group_val [] = 0"
| "group_val (b # bs) = (unat b mod 128) * 128 ^ length bs + group_val bs"

lemma group_val_append: "group_val (xs @ ys) = group_val xs * 128 ^ length ys + group_val ys"
  by (induction xs) (auto simp: algebra_simps power_add)

lemma group_val_bound: "group_val bs < 128 ^ length bs"
proof (induction bs)
  case Nil
  then show ?case by simp
next
  case (Cons b bs)
  have "unat b mod 128 * 128 ^ length bs + group_val bs < Suc (unat b mod 128) * 128 ^ length bs"
    using Cons by simp
  also have "\<dots> \<le> 128 * 128 ^ length bs"
    by (intro mult_right_mono) (simp_all add: Suc_le_eq)
  finally show ?case by simp
qed

lemma length_varint_groups [simp, bytes_simps]: "length (varint_groups n v c) = n"
  by (induction n arbitrary: v c) auto

lemma and_7f_u8: "unat ((b :: u8) AND 0x7f) = unat b mod 128"
  using unat_and_mask [of b 7] by (simp add: mask_eq_exp_minus_1)

lemma and_80_zero_iff: "(b :: u8) AND 0x80 = 0 \<longleftrightarrow> unat b < 128"
proof -
  have "b AND 0x80 = 0 \<longleftrightarrow> \<not> bit b 7"
    using and_exp_eq_0_iff_not_bit [of b 7] by simp
  also have "\<dots> \<longleftrightarrow> \<not> bit (unat b) 7"
    by (simp add: bit_unsigned_iff)
  also have "\<dots> \<longleftrightarrow> unat b < 128"
  proof -
    have "unat b div 128 = 0 \<or> unat b div 128 = 1" using unat_u8_less [of b] by linarith
    then show ?thesis by (auto simp: bit_iff_odd)
  qed
  finally show ?thesis .
qed

lemma unat_group_byte:
  "unat ((ucast (v :: u64) AND 0x7f) OR (if c then 0x80 else 0) :: u8) =
    unat v mod 128 + (if c then 128 else 0)"
proof -
  let ?x = "(ucast v :: u8) AND 0x7f"
  have x: "unat ?x = unat v mod 128"
    by (simp add: and_7f_u8 unat_ucast_mod mod_mod_cancel)
  have "unat (push_bit 7 (1 :: u8) OR ?x) = unat (1 :: u8) * 2 ^ 7 + unat ?x"
    by (rule unat_shift_or) (simp_all add: x)
  then show ?thesis using x by (simp add: or.commute)
qed

lemma group_val_varint_groups: "group_val (varint_groups n v c) = unat v mod 128 ^ n"
proof (induction n arbitrary: v c)
  case 0
  then show ?case by simp
next
  case (Suc n)
  have "unat v mod 128 ^ Suc n = (unat v div 128 mod 128 ^ n) * 128 + unat v mod 128"
    by (metis add.commute mod_mult2_eq mult.commute power_Suc)
  then show ?case
    using Suc [of "drop_bit 7 v" True] unat_drop_bit_div [of 7 v]
    by (simp add: group_val_append unat_group_byte del: unat_drop_bit_eq)
qed

lemma varint_groups_snoc:
  "varint_groups (Suc n) v c =
    varint_groups n (drop_bit 7 v) True @ [(ucast v AND 0x7f) OR (if c then 0x80 else 0)]"
  by simp

lemma varint_groups_continued: "b \<in> set (varint_groups n v True) \<Longrightarrow> 128 \<le> unat b"
  using unat_group_byte [where c = True] by (induction n arbitrary: v) auto

section \<open>Decoding a run of groups\<close>

lemma decode_step_val:
  assumes "unat r < 2 ^ 56"
  shows "unat (push_bit 7 r OR (ucast (b AND 0x7f) :: u64)) = unat r * 128 + unat (b :: u8) mod 128"
proof -
  have x: "unat (ucast (b AND 0x7f) :: u64) = unat b mod 128"
    using and_7f_u8 [of b] by (simp add: unat_ucast_mod)
  have "unat (push_bit 7 r OR (ucast (b AND 0x7f) :: u64)) = unat r * 2 ^ 7 + unat (ucast (b AND 0x7f) :: u64)"
    using assms by (intro unat_shift_or) (simp_all only: x, simp_all)
  then show ?thesis by (simp only: x) simp
qed

lemma varint_decode_loop_run:
  assumes "\<forall>b \<in> set mid. 128 \<le> unat b" and "length pre + length mid \<le> 8"
    and "unat r < 128 ^ length pre"
  shows "\<exists>r'. unat r' = unat r * 128 ^ length mid + group_val mid \<and>
    varint_decode_loop (pre @ mid @ rest) (length pre) r =
    varint_decode_loop (pre @ mid @ rest) (length pre + length mid) r'"
  using assms
proof (induction mid arbitrary: pre r)
  case Nil
  then show ?case by auto
next
  case (Cons b mid)
  have "(128 :: nat) ^ length pre \<le> 128 ^ 7"
    using Cons.prems(2) by (intro power_increasing) auto
  with Cons.prems(3) have r56: "unat r < 2 ^ 56" by simp
  define r1 where "r1 = push_bit 7 r OR (ucast (b AND 0x7f) :: u64)"
  have r1: "unat r1 = unat r * 128 + unat b mod 128"
    unfolding r1_def using r56 by (rule decode_step_val)
  have "unat r1 < 128 ^ length (pre @ [b])"
  proof -
    have "unat r1 < (unat r + 1) * 128" using r1 by simp
    also have "\<dots> \<le> 128 ^ length pre * 128" using Cons.prems(3) by simp
    finally show ?thesis by (simp add: mult.commute)
  qed
  with Cons.IH [of "pre @ [b]" r1] Cons.prems obtain r' where
    r': "unat r' = unat r1 * 128 ^ length mid + group_val mid"
    and eq: "varint_decode_loop (pre @ b # mid @ rest) (Suc (length pre)) r1 =
      varint_decode_loop (pre @ b # mid @ rest) (Suc (length pre) + length mid) r'"
    by auto
  have "b AND 0x80 \<noteq> 0"
    using Cons.prems(1) by (simp add: and_80_zero_iff)
  then have "varint_decode_loop (pre @ b # mid @ rest) (length pre) r =
      varint_decode_loop (pre @ b # mid @ rest) (Suc (length pre)) r1"
    using Cons.prems(2)
    by (subst varint_decode_loop.simps) (simp add: r1_def Let_def)
  with eq r' r1 show ?case
    by (intro exI [of _ r']) (simp add: algebra_simps)
qed

section \<open>The encoded length\<close>

lemma varint_len_cases:
  "varint_len v \<noteq> 9 \<Longrightarrow> 0 < varint_len v \<and> varint_len v \<le> 8 \<and> unat v < 128 ^ varint_len v"
  "varint_len v = 9 \<longleftrightarrow> 2 ^ 56 \<le> unat v"
  by (auto simp: varint_len_def word_le_nat_alt split: if_splits)

lemma varint_len_bounds: "1 \<le> varint_len v" "varint_len v \<le> MAX_LEN"
  by (auto simp: varint_len_def MAX_LEN_def)

lemma length_varint_encode [simp, bytes_simps]: "length (varint_encode v) = varint_len v"
  by (simp add: varint_encode_def Let_def)

lemma varint_encode_nonempty [simp]: "varint_encode v \<noteq> []"
  using varint_len_bounds(1) [of v] length_varint_encode [of v] by fastforce

text \<open>\<open>varint_len\<close> is the least number of seven-bit groups that hold the value.\<close>

lemma varint_len_least:
  assumes "unat v < 128 ^ k" and "0 < k" and "k \<le> 8"
  shows "varint_len v \<le> k"
proof -
  have "k = 1 \<or> k = 2 \<or> k = 3 \<or> k = 4 \<or> k = 5 \<or> k = 6 \<or> k = 7 \<or> k = 8"
    using assms by auto
  with assms(1) show ?thesis
    by (auto simp: varint_len_def word_le_nat_alt)
qed

section \<open>Round trip\<close>

lemma varint_decode_encode_long:
  assumes "varint_len v = 9"
  shows "varint_decode (varint_encode v @ rest) = Some (v, 9)"
proof -
  let ?g = "varint_groups 8 (drop_bit 8 v) True"
  from varint_decode_loop_run [of ?g "[]" 0 "ucast v # rest"] obtain r' where
    r': "unat r' = group_val ?g"
    and eq: "varint_decode_loop (?g @ ucast v # rest) 0 0 = varint_decode_loop (?g @ ucast v # rest) 8 r'"
    by (auto dest: varint_groups_continued)
  have rv: "unat r' = unat v div 256"
    using r' unat_drop_bit_div [of 8 v] unat_less_length [of v]
    by (simp add: group_val_varint_groups del: unat_drop_bit_eq)
  have x: "unat (ucast (ucast v :: u8) :: u64) = unat v mod 256"
    by (simp add: unat_ucast_mod)
  have "unat (push_bit 8 r' OR (ucast (ucast v :: u8) :: u64)) =
      unat r' * 2 ^ 8 + unat (ucast (ucast v :: u8) :: u64)"
    using unat_less_length [of v]
    by (intro unat_shift_or) (simp_all only: x rv, simp_all)
  then have "push_bit 8 r' OR (ucast (ucast v :: u8) :: u64) = v"
    by (intro word_unat_eq_iff [THEN iffD2]) (simp only: x rv, simp)
  with eq assms show ?thesis
    by (simp add: varint_decode_def varint_encode_def Let_def nth_append
        varint_decode_loop.simps [of _ 8])
qed

lemma varint_decode_encode_short:
  assumes "varint_len v \<noteq> 9"
  shows "varint_decode (varint_encode v @ rest) = Some (v, varint_len v)"
proof -
  from varint_len_cases(1) [OF assms] obtain n where
    n: "varint_len v = Suc n" and n8: "n < 8" and v: "unat v < 128 ^ Suc n"
    by (metis Suc_le_eq gr0_implies_Suc)
  let ?g = "varint_groups n (drop_bit 7 v) True" and ?l = "(ucast v :: u8) AND 0x7f"
  from varint_decode_loop_run [of ?g "[]" 0 "?l # rest"] n8 obtain r' where
    r': "unat r' = group_val ?g"
    and eq: "varint_decode_loop (?g @ ?l # rest) 0 0 = varint_decode_loop (?g @ ?l # rest) n r'"
    by (auto dest: varint_groups_continued)
  have "unat v div 128 < 128 ^ n" using v by (simp add: less_mult_imp_div_less mult.commute)
  then have rv: "unat r' = unat v div 128"
    using r' unat_drop_bit_div [of 7 v]
    by (simp add: group_val_varint_groups del: unat_drop_bit_eq)
  have l: "unat ?l = unat v mod 128"
    using unat_group_byte [of v False] by simp
  then have l0: "?l AND 0x80 = 0" by (simp add: and_80_zero_iff)
  have "(128 :: nat) ^ Suc n \<le> 128 ^ 8" using n8 by (intro power_increasing) auto
  with v rv have "unat r' < 2 ^ 56" by simp
  then have "unat (push_bit 7 r' OR (ucast (?l AND 0x7f) :: u64)) = unat r' * 128 + unat ?l mod 128"
    by (rule decode_step_val)
  then have "push_bit 7 r' OR (ucast (?l AND 0x7f) :: u64) = v"
    by (intro word_unat_eq_iff [THEN iffD2]) (simp only: l rv, simp)
  with eq n n8 l0 show ?thesis
    by (simp add: varint_decode_def varint_encode_def Let_def nth_append
        varint_decode_loop.simps [of _ n])
qed

lemma varint_decode_encode: "varint_decode (varint_encode v @ rest) = Some (v, varint_len v)"
  using varint_decode_encode_long varint_decode_encode_short by (cases "varint_len v = 9") auto

lemma varint_decode_encode_i64:
  "varint_decode_i64 (varint_encode_i64 v @ rest) = Some (v, varint_len v)"
  by (simp add: varint_decode_i64_def varint_encode_i64_def varint_decode_encode)

section \<open>What decoding reads\<close>

lemma varint_decode_loop_bounds:
  "varint_decode_loop buf i r = Some (v, n) \<Longrightarrow> i \<le> 8 \<Longrightarrow> i < n \<and> n \<le> 9 \<and> n \<le> length buf"
proof (induction buf i r rule: varint_decode_loop.induct)
  case (1 buf i r)
  show ?case
  proof (cases "i < 8 \<and> i < length buf \<and> buf ! i AND 0x80 \<noteq> 0")
    case True
    then have "varint_decode_loop buf (i + 1) (push_bit 7 r OR ucast (buf ! i AND 0x7f)) = Some (v, n)"
      using "1.prems"(1) by (simp add: varint_decode_loop.simps [of buf i r] Let_def)
    with "1.IH" [of "buf ! i" "push_bit 7 r OR ucast (buf ! i AND 0x7f)"] True show ?thesis
      by auto
  next
    case False
    with "1.prems" show ?thesis
      by (auto simp: varint_decode_loop.simps [of buf i r] Let_def split: if_splits)
  qed
qed

lemma varint_decode_bounds:
  "varint_decode buf = Some (v, n) \<Longrightarrow> 1 \<le> n \<and> n \<le> MAX_LEN \<and> n \<le> length buf"
  using varint_decode_loop_bounds [of buf 0 0 v n] by (auto simp: varint_decode_def MAX_LEN_def)

lemma varint_decode_i64_bounds:
  "varint_decode_i64 buf = Some (v, n) \<Longrightarrow> 1 \<le> n \<and> n \<le> MAX_LEN \<and> n \<le> length buf"
  by (auto simp: varint_decode_i64_def dest: varint_decode_bounds)

text \<open>No buffer decodes to a value in fewer bytes than the encoding has.\<close>

lemma varint_decode_loop_value:
  "varint_decode_loop buf i r = Some (v, n) \<Longrightarrow> unat r < 128 ^ i \<Longrightarrow> n \<le> 8 \<Longrightarrow> unat v < 128 ^ n"
proof (induction buf i r rule: varint_decode_loop.induct)
  case (1 buf i r)
  show ?case
  proof (cases "i < 8 \<and> i < length buf")
    case True
    let ?r = "push_bit 7 r OR (ucast (buf ! i AND 0x7f) :: u64)"
    have "(128 :: nat) ^ i \<le> 128 ^ 7" using True by (intro power_increasing) auto
    with "1.prems"(2) have "unat r < 2 ^ 56" by simp
    then have r: "unat ?r = unat r * 128 + unat (buf ! i) mod 128" by (rule decode_step_val)
    have "unat ?r < (unat r + 1) * 128" unfolding r by simp
    also have "\<dots> \<le> 128 ^ i * 128" using "1.prems"(2) by simp
    finally have r': "unat ?r < 128 ^ (i + 1)" by (simp add: mult.commute)
    show ?thesis
    proof (cases "buf ! i AND 0x80 = 0")
      case True
      then have "v = ?r" "n = i + 1" using "1.prems"(1) \<open>i < 8 \<and> i < length buf\<close>
        by (simp_all add: varint_decode_loop.simps [of buf i r] Let_def)
      then show ?thesis using r' by (simp only:)
    next
      case False
      then have "varint_decode_loop buf (i + 1) ?r = Some (v, n)" using "1.prems"(1) True
        by (simp add: varint_decode_loop.simps [of buf i r] Let_def)
      then show ?thesis using "1.IH" [OF _ _ refl refl False] True r' "1.prems"(3) by blast
    qed
  next
    case False
    then show ?thesis using "1.prems" by (auto simp: varint_decode_loop.simps [of buf i r] split: if_splits)
  qed
qed

lemma varint_decode_shortest: "varint_decode buf = Some (v, n) \<Longrightarrow> varint_len v \<le> n"
  using varint_decode_loop_value [of buf 0 0 v n] varint_len_least [of v n] varint_len_bounds(2) [of v]
    varint_decode_bounds [of buf v n]
  by (cases "n \<le> 8") (auto simp: varint_decode_def MAX_LEN_def)

lemma varint_decode_loop_None_iff:
  "i \<le> 8 \<Longrightarrow> i \<le> length buf \<Longrightarrow>
   varint_decode_loop buf i r = None \<longleftrightarrow>
   length buf \<le> 8 \<and> (\<forall>j. i \<le> j \<and> j < length buf \<longrightarrow> 128 \<le> unat (buf ! j))"
proof (induction buf i r rule: varint_decode_loop.induct)
  case (1 buf i r)
  show ?case
  proof (cases "i < 8 \<and> i < length buf \<and> 128 \<le> unat (buf ! i)")
    case True
    then have "varint_decode_loop buf i r =
        varint_decode_loop buf (i + 1) (push_bit 7 r OR ucast (buf ! i AND 0x7f))"
      by (simp add: varint_decode_loop.simps [of buf i r] Let_def and_80_zero_iff)
    moreover have "(varint_decode_loop buf (i + 1) (push_bit 7 r OR ucast (buf ! i AND 0x7f)) = None) =
        (length buf \<le> 8 \<and> (\<forall>j. i + 1 \<le> j \<and> j < length buf \<longrightarrow> 128 \<le> unat (buf ! j)))"
      using True by (intro "1.IH") (auto simp: and_80_zero_iff)
    moreover have "(\<forall>j. i \<le> j \<and> j < length buf \<longrightarrow> 128 \<le> unat (buf ! j)) =
        (\<forall>j. i + 1 \<le> j \<and> j < length buf \<longrightarrow> 128 \<le> unat (buf ! j))"
      using True by (metis Suc_eq_plus1 Suc_leD not_less_eq_eq le_antisym)
    ultimately show ?thesis by simp
  next
    case False
    with "1.prems" consider "i = 8" | "i < 8" "i = length buf"
      | "i < 8" "i < length buf" "unat (buf ! i) < 128"
      by linarith
    then show ?thesis
    proof cases
      case 1
      then show ?thesis using "1.prems" by (auto simp: varint_decode_loop.simps [of buf 8 r])
    next
      case 2
      then show ?thesis by (simp add: varint_decode_loop.simps [of buf "length buf" r])
    next
      case 3
      then have "varint_decode_loop buf i r \<noteq> None"
        by (simp add: varint_decode_loop.simps [of buf i r] Let_def and_80_zero_iff)
      moreover have "\<not> (\<forall>j. i \<le> j \<and> j < length buf \<longrightarrow> 128 \<le> unat (buf ! j))"
        using 3 by (auto intro!: exI [of _ i])
      ultimately show ?thesis by blast
    qed
  qed
qed

text \<open>Decoding fails exactly on a buffer that ends inside a varint.\<close>

lemma varint_decode_None_iff:
  "varint_decode buf = None \<longleftrightarrow> length buf \<le> 8 \<and> (\<forall>b \<in> set buf. 128 \<le> unat b)"
  using varint_decode_loop_None_iff [of 0 buf 0] by (auto simp: varint_decode_def all_set_conv_all_nth)

section \<open>Prefix codecs\<close>

text \<open>
  The interface the record and cell formats rely on: an encoded item is decoded from the
  front of a buffer whatever follows it, and the decoder reports how many bytes it read.
\<close>

locale prefix_codec =
  fixes enc :: "'a \<Rightarrow> bytes"
    and dec :: "bytes \<Rightarrow> ('a \<times> nat) option"
  assumes dec_enc: "dec (enc x @ rest) = Some (x, length (enc x))"
begin

lemma enc_cancel: "enc x @ r = enc y @ s \<Longrightarrow> x = y \<and> r = s"
  using dec_enc [of x r] dec_enc [of y s] by auto

lemma enc_inj: "enc x = enc y \<Longrightarrow> x = y"
  using enc_cancel [of x "[]" y "[]"] by simp

lemma enc_seq_cancel:
  "length xs = length ys \<Longrightarrow> concat (map enc xs) @ r = concat (map enc ys) @ s \<Longrightarrow> xs = ys \<and> r = s"
proof (induction xs ys rule: list_induct2)
  case Nil
  then show ?case by simp
next
  case (Cons x xs y ys)
  then have "enc x @ (concat (map enc xs) @ r) = enc y @ (concat (map enc ys) @ s)" by simp
  then have "x = y \<and> concat (map enc xs) @ r = concat (map enc ys) @ s" by (rule enc_cancel)
  with Cons.IH show ?case by auto
qed

lemma dec_at:
  "dec (drop (length (concat (map enc xs))) (concat (map enc (xs @ y # ys)) @ rest)) =
    Some (y, length (enc y))"
  by (simp add: dec_enc)

end

interpretation vint: prefix_codec varint_encode varint_decode
  by unfold_locales (simp add: varint_decode_encode)

end
