(* ===== verification/Header.thy ===== *)
theory Header
  imports Errors
begin

text \<open>
  The 100-byte database header (\<open>src/format/header.rs\<close>): the text encodings, the parsed header
  as a record, its parser and its serializer. The lemmas show that a parsed header is
  well-formed, that serializing and parsing are inverse on well-formed headers and that
  re-serializing a parsed header changes the reserved bytes only.
\<close>

section \<open>Definitions\<close>

definition HEADER_LEN :: nat where
  "HEADER_LEN = 100"

definition MAGIC :: bytes where
  "MAGIC = [0x53, 0x51, 0x4c, 0x69, 0x74, 0x65, 0x20, 0x66,
            0x6f, 0x72, 0x6d, 0x61, 0x74, 0x20, 0x33, 0x00]"

datatype text_encoding = Utf8 | Utf16Le | Utf16Be

definition encoding_from_code :: "u32 \<Rightarrow> text_encoding res" where
  "encoding_from_code code =
    (if code = 1 then Ok Utf8
     else if code = 2 then Ok Utf16Le
     else if code = 3 then Ok Utf16Be
     else Err (Corrupt (''invalid text encoding '' @ show_nat (unat code))))"

fun encoding_code :: "text_encoding \<Rightarrow> u32" where
  "encoding_code Utf8 = 1"
| "encoding_code Utf16Le = 2"
| "encoding_code Utf16Be = 3"

record database_header =
  page_size :: u32
  write_version :: u8
  read_version :: u8
  reserved_space :: u8
  change_counter :: u32
  size_in_pages :: u32
  freelist_trunk :: u32
  freelist_count :: u32
  schema_cookie :: u32
  schema_format :: u32
  default_cache_size :: u32
  largest_root_page :: u32
  header_text_encoding :: text_encoding
  user_version :: u32
  incremental_vacuum :: u32
  application_id :: u32
  version_valid_for :: u32
  sqlite_version_number :: u32

text \<open>\<open>be_u32\<close> indexes four bytes and panics when one of them is out of range.\<close>

definition be_u32 :: "bytes \<Rightarrow> nat \<Rightarrow> u32 res" where
  "be_u32 buf at = bindR (slice buf at (at + 4)) (\<lambda>b. Ok (from_be32 b))"

definition is_power_of_two :: "u32 \<Rightarrow> bool" where
  "is_power_of_two w \<longleftrightarrow> list_ex (\<lambda>k. unat w = 2 ^ k) [0..<32]"

text \<open>The page size as its two header bytes hold it: 1 stands for 65536.\<close>

definition page_size_of_raw :: "u16 \<Rightarrow> u32" where
  "page_size_of_raw raw_page_size = (if raw_page_size = 1 then 65536 else ucast raw_page_size)"

definition raw_of_page_size :: "u32 \<Rightarrow> u16" where
  "raw_of_page_size psz = (if psz = 65536 then 1 else ucast psz)"

definition header_parse :: "bytes \<Rightarrow> database_header res" where
  "header_parse buf =
    (if length buf < HEADER_LEN then
       Err (Corrupt (''header is '' @ show_nat (length buf) @ '' bytes, need '' @ show_nat HEADER_LEN))
     else bindR (slice buf 0 16) (\<lambda>magic.
     if magic \<noteq> MAGIC then Err (Corrupt ''bad magic string'')
     else bindR (slice buf 16 18) (\<lambda>psz.
     let pgsz = page_size_of_raw (from_be16 psz)
     in if pgsz < 512 \<or> \<not> is_power_of_two pgsz then
       Err (Corrupt (''invalid page size '' @ show_nat (unat pgsz)))
     else bindR (idx buf 21) (\<lambda>b21. bindR (idx buf 22) (\<lambda>b22. bindR (idx buf 23) (\<lambda>b23.
     if b21 \<noteq> 64 \<or> b22 \<noteq> 32 \<or> b23 \<noteq> 32 then Err (Corrupt ''invalid payload fractions'')
     else bindR (idx buf 20) (\<lambda>reserved.
     if pgsz \<le> ucast reserved then Err (Corrupt ''reserved space exceeds page size'')
     else bindR (idx buf 18) (\<lambda>wv. bindR (idx buf 19) (\<lambda>rv.
     bindR (be_u32 buf 24) (\<lambda>cc. bindR (be_u32 buf 28) (\<lambda>sip.
     bindR (be_u32 buf 32) (\<lambda>ft. bindR (be_u32 buf 36) (\<lambda>fc.
     bindR (be_u32 buf 40) (\<lambda>sc. bindR (be_u32 buf 44) (\<lambda>sf.
     bindR (be_u32 buf 48) (\<lambda>dcs. bindR (be_u32 buf 52) (\<lambda>lrp.
     bindR (be_u32 buf 56) (\<lambda>ecode. bindR (encoding_from_code ecode) (\<lambda>te.
     bindR (be_u32 buf 60) (\<lambda>uv. bindR (be_u32 buf 64) (\<lambda>iv.
     bindR (be_u32 buf 68) (\<lambda>ai. bindR (be_u32 buf 92) (\<lambda>vvf.
     bindR (be_u32 buf 96) (\<lambda>svn.
     Ok \<lparr>page_size = pgsz, write_version = wv, read_version = rv, reserved_space = reserved,
         change_counter = cc, size_in_pages = sip, freelist_trunk = ft, freelist_count = fc,
         schema_cookie = sc, schema_format = sf, default_cache_size = dcs,
         largest_root_page = lrp, header_text_encoding = te, user_version = uv,
         incremental_vacuum = iv, application_id = ai, version_valid_for = vvf,
         sqlite_version_number = svn\<rparr>))))))))))))))))))))))))"

text \<open>The stores of \<open>write_to\<close>, in its order: an offset and the bytes stored there.\<close>

definition header_stores :: "database_header \<Rightarrow> (nat \<times> bytes) list" where
  "header_stores h =
    (let raw_page_size = raw_of_page_size (page_size h)
     in [(0, MAGIC), (16, to_be16 raw_page_size), (18, [write_version h]), (19, [read_version h]),
         (20, [reserved_space h]), (21, [64]), (22, [32]), (23, [32]),
         (24, to_be32 (change_counter h)), (28, to_be32 (size_in_pages h)),
         (32, to_be32 (freelist_trunk h)), (36, to_be32 (freelist_count h)),
         (40, to_be32 (schema_cookie h)), (44, to_be32 (schema_format h)),
         (48, to_be32 (default_cache_size h)), (52, to_be32 (largest_root_page h)),
         (56, to_be32 (encoding_code (header_text_encoding h))),
         (60, to_be32 (user_version h)), (64, to_be32 (incremental_vacuum h)),
         (68, to_be32 (application_id h)), (72, replicate 20 0),
         (92, to_be32 (version_valid_for h)), (96, to_be32 (sqlite_version_number h))])"

definition header_write_to :: "database_header \<Rightarrow> bytes \<Rightarrow> bytes res" where
  "header_write_to h buf =
    (if length buf < HEADER_LEN then
       Err (Error (''output buffer is '' @ show_nat (length buf) @ '' bytes, need '' @ show_nat HEADER_LEN))
     else foldR (\<lambda>(at, src) b. put_slice b at src) (header_stores h) buf)"

text \<open>\<open>usable_size\<close> subtracts unsigned integers, so it panics on underflow.\<close>

definition usable_size :: "database_header \<Rightarrow> nat res" where
  "usable_size h = usub (unat (page_size h)) (unat (reserved_space h))"

definition size_in_pages_valid :: "database_header \<Rightarrow> bool" where
  "size_in_pages_valid h \<longleftrightarrow> size_in_pages h \<noteq> 0 \<and> version_valid_for h = change_counter h"

section \<open>Well-formed headers\<close>

definition header_wf :: "database_header \<Rightarrow> bool" where
  "header_wf h \<longleftrightarrow> (\<exists>k \<in> {9..16}. unat (page_size h) = 2 ^ k)"

lemma header_wf_page_size:
  assumes "header_wf h"
  shows "512 \<le> unat (page_size h)" and "unat (page_size h) \<le> 65536"
proof -
  obtain k where k: "9 \<le> k" "k \<le> 16" "unat (page_size h) = 2 ^ k"
    using assms by (auto simp: header_wf_def)
  have "(512 :: nat) = 2 ^ 9" "(65536 :: nat) = 2 ^ 16" by simp_all
  with k show "512 \<le> unat (page_size h)" "unat (page_size h) \<le> 65536"
    by (metis one_le_numeral power_increasing)+
qed

lemma usable_size_wf:
  assumes "header_wf h"
  shows "\<exists>n. usable_size h = Ok n \<and> 257 \<le> n \<and> n \<le> 65536"
proof -
  have "unat (reserved_space h) \<le> 255" using unat_u8_less [of "reserved_space h"] by linarith
  with header_wf_page_size [OF assms] show ?thesis
    by (intro exI [of _ "unat (page_size h) - unat (reserved_space h)"])
       (auto simp: usable_size_def usub_def)
qed

lemma encoding_from_code_code [simp]: "encoding_from_code (encoding_code e) = Ok e"
  by (cases e) (auto simp: encoding_from_code_def)

lemma encoding_from_code_no_panic [no_panic]: "encoding_from_code c \<noteq> Panic"
  by (simp add: encoding_from_code_def)

lemma encoding_code_from_code: "encoding_from_code c = Ok e \<Longrightarrow> encoding_code e = c"
  by (auto simp: encoding_from_code_def split: if_splits)

section \<open>Serialization\<close>

text \<open>Stores that follow one another without gaps amount to one store of their concatenation.\<close>

fun contiguous :: "nat \<Rightarrow> (nat \<times> bytes) list \<Rightarrow> bool" where
  "contiguous at [] \<longleftrightarrow> True"
| "contiguous at ((i, src) # rest) \<longleftrightarrow> i = at \<and> contiguous (at + length src) rest"

lemma overwrite_adjacent:
  "at + length a + length b \<le> length buf \<Longrightarrow>
   overwrite (overwrite buf at a) (at + length a) b = overwrite buf at (a @ b)"
  by (rule nth_equalityI) (auto simp: nth_overwrite nth_append)

lemma foldR_contiguous:
  "contiguous at stores \<Longrightarrow> at + length (concat (map snd stores)) \<le> length buf \<Longrightarrow>
   foldR (\<lambda>(at, src) b. put_slice b at src) stores buf =
     Ok (overwrite buf at (concat (map snd stores)))"
  by (induction at stores arbitrary: buf rule: contiguous.induct)
     (auto simp: overwrite_adjacent)

definition header_bytes :: "database_header \<Rightarrow> bytes" where
  "header_bytes h = concat (map snd (header_stores h))"

lemma length_MAGIC [simp]: "length MAGIC = 16"
  by (simp add: MAGIC_def)

lemma length_header_bytes [simp]: "length (header_bytes h) = 100"
  by (simp add: header_bytes_def header_stores_def Let_def)

lemma contiguous_header_stores: "contiguous 0 (header_stores h)"
  by (simp add: header_stores_def Let_def)

lemma header_write_to_Ok:
  "HEADER_LEN \<le> length buf \<Longrightarrow> header_write_to h buf = Ok (header_bytes h @ drop 100 buf)"
  using foldR_contiguous [OF contiguous_header_stores [of h], of buf] length_header_bytes [of h]
  by (simp add: header_write_to_def HEADER_LEN_def header_bytes_def overwrite_def)


section \<open>Round trips\<close>

lemma be_u32_Ok [simp]:
  "at + 4 \<le> length buf \<Longrightarrow> be_u32 buf at = Ok (from_be32 (take 4 (drop at buf)))"
  by (simp add: be_u32_def)

lemma header_wf_raw_page_size:
  assumes "header_wf h"
  shows "page_size_of_raw (raw_of_page_size (page_size h)) = page_size h"
    and "\<not> page_size h < 512" and "is_power_of_two (page_size h)"
    and "\<not> page_size h \<le> ucast (reserved_space h :: u8)"
proof -
  obtain k where k: "9 \<le> k" "k \<le> 16" "unat (page_size h) = 2 ^ k"
    using assms by (auto simp: header_wf_def)
  show "is_power_of_two (page_size h)"
    using k by (auto simp: is_power_of_two_def list_ex_iff intro!: bexI [of _ k])
  note b = header_wf_page_size [OF assms(1)]
  then show "\<not> page_size h < 512" by (simp add: word_less_nat_alt)
  have "unat (reserved_space h) \<le> 255" using unat_u8_less [of "reserved_space h"] by linarith
  with b show "\<not> page_size h \<le> ucast (reserved_space h)"
    by (simp add: word_le_nat_alt unat_ucast_mod)
  show "page_size_of_raw (raw_of_page_size (page_size h)) = page_size h"
  proof (cases "page_size h = 65536")
    case True
    then show ?thesis by (simp add: page_size_of_raw_def raw_of_page_size_def)
  next
    case False
    then have "unat (page_size h) \<noteq> unat (65536 :: u32)" by (simp only: word_unat_eq_iff not_False_eq_True)
    with b have lt: "unat (page_size h) < 65536" by simp
    let ?raw = "ucast (page_size h) :: u16"
    have u: "unat ?raw = unat (page_size h)" using lt by (simp add: unat_ucast_mod)
    then have "?raw \<noteq> 1" using b by auto
    moreover have "ucast ?raw = page_size h"
      using u lt by (intro word_unat_eq_iff [THEN iffD2]) (simp add: unat_ucast_mod)
    ultimately show ?thesis using False by (simp add: page_size_of_raw_def raw_of_page_size_def)
  qed
qed

lemma header_parse_bytes:
  assumes "header_wf h"
  shows "header_parse (header_bytes h @ rest) = Ok h"
  using header_wf_raw_page_size [OF assms]
  by (simp add: header_parse_def HEADER_LEN_def header_bytes_def header_stores_def Let_def nth_append)


lemma header_parse_no_panic: "header_parse buf \<noteq> Panic"
  by (simp add: header_parse_def HEADER_LEN_def Let_def bindR_Panic_iff encoding_from_code_no_panic
      del: neq_Nil_conv)

lemma page_size_of_raw_le: "unat (page_size_of_raw raw) \<le> 65536"
  using unat_less_length [of raw] by (auto simp: page_size_of_raw_def unat_ucast_mod)

lemma raw_of_page_size_of_raw:
  "\<not> page_size_of_raw raw < 512 \<Longrightarrow> raw_of_page_size (page_size_of_raw raw) = raw"
proof -
  assume "\<not> page_size_of_raw raw < 512"
  have "unat raw < 65536" using unat_less_length [of raw] by simp
  then have u: "unat (ucast raw :: u32) = unat raw" by (simp add: unat_ucast_mod)
  then have "(ucast raw :: u32) \<noteq> 65536" using \<open>unat raw < 65536\<close> by auto
  moreover have "ucast (ucast raw :: u32) = raw"
    by (intro word_unat_eq_iff [THEN iffD2]) (use \<open>unat raw < 65536\<close> in \<open>simp add: unat_ucast_mod u\<close>)
  ultimately show ?thesis by (simp add: page_size_of_raw_def raw_of_page_size_def)
qed

lemma contiguous_take:
  "contiguous at stores \<Longrightarrow> (\<And>i src. (i, src) \<in> set stores \<Longrightarrow> take (length src) (drop i buf) = src) \<Longrightarrow>
   concat (map snd stores) = take (length (concat (map snd stores))) (drop at buf)"
proof (induction at stores rule: contiguous.induct)
  case (1 at)
  then show ?case by simp
next
  case (2 at i src rest)
  from 2 have "concat (map snd rest) =
      take (length (concat (map snd rest))) (drop (at + length src) buf)" by simp
  moreover from 2 have "take (length src) (drop at buf) = src" by simp
  ultimately show ?case by (simp add: take_add add.commute)
qed

lemma take1_drop: "i < length xs \<Longrightarrow> take (Suc 0) (drop i xs) = [xs ! i]"
  by (simp add: take_Suc_conv_app_nth)

text \<open>What a successful parse says of the buffer.\<close>

lemma header_parse_OkD:
  assumes "header_parse buf = Ok h"
  shows "100 \<le> length buf" and "header_wf h"
    and "header_bytes h = take 100 (overwrite buf 72 (replicate 20 0))"
proof -
  show len: "100 \<le> length buf"
    using assms by (auto simp: header_parse_def HEADER_LEN_def split: if_splits)
  define raw where "raw = from_be16 (take 2 (drop 16 buf))"
  have psz: "page_size h = page_size_of_raw raw" "\<not> page_size h < 512" "is_power_of_two (page_size h)"
    using assms len by (auto simp: header_parse_def HEADER_LEN_def raw_def Let_def bindR_Ok_iff split: if_splits)
  obtain k where k: "unat (page_size h) = 2 ^ k" using psz(3) by (auto simp: is_power_of_two_def list_ex_iff)
  have "(2 :: nat) ^ k \<le> 2 ^ 16" using page_size_of_raw_le [of raw] k psz(1) by simp
  moreover have "(2 :: nat) ^ 9 \<le> 2 ^ k" using psz(2) k by (simp add: word_less_nat_alt not_less)
  ultimately have "k \<in> {9..16}" by (simp del: power_numeral)
  then show "header_wf h" using k by (auto simp: header_wf_def)
  let ?b = "overwrite buf 72 (replicate 20 0)"
  have "take 16 buf = MAGIC \<and> buf ! 21 = 64 \<and> buf ! 22 = 32 \<and> buf ! 23 = 32 \<and>
      write_version h = buf ! 18 \<and> read_version h = buf ! 19 \<and> reserved_space h = buf ! 20 \<and>
      encoding_code (header_text_encoding h) = from_be32 (take 4 (drop 56 buf)) \<and>
      change_counter h = from_be32 (take 4 (drop 24 buf)) \<and> size_in_pages h = from_be32 (take 4 (drop 28 buf)) \<and>
      freelist_trunk h = from_be32 (take 4 (drop 32 buf)) \<and> freelist_count h = from_be32 (take 4 (drop 36 buf)) \<and>
      schema_cookie h = from_be32 (take 4 (drop 40 buf)) \<and> schema_format h = from_be32 (take 4 (drop 44 buf)) \<and>
      default_cache_size h = from_be32 (take 4 (drop 48 buf)) \<and>
      largest_root_page h = from_be32 (take 4 (drop 52 buf)) \<and> user_version h = from_be32 (take 4 (drop 60 buf)) \<and>
      incremental_vacuum h = from_be32 (take 4 (drop 64 buf)) \<and>
      application_id h = from_be32 (take 4 (drop 68 buf)) \<and>
      version_valid_for h = from_be32 (take 4 (drop 92 buf)) \<and>
      sqlite_version_number h = from_be32 (take 4 (drop 96 buf))"
    using assms len
    by (simp add: header_parse_def HEADER_LEN_def Let_def bindR_Ok_iff split: if_splits)
       (clarsimp simp: encoding_code_from_code)
  with len psz(1) raw_of_page_size_of_raw [of raw] psz(2)
  have "\<forall>(i, src) \<in> set (header_stores h). take (length src) (drop i ?b) = src"
    by (simp add: header_stores_def Let_def take1_drop bytes_simps raw_def)
  then have "take (length src) (drop i ?b) = src" if "(i, src) \<in> set (header_stores h)" for i src
    using that by blast
  from contiguous_take [OF contiguous_header_stores [of h] this]
  show "header_bytes h = take 100 ?b"
    using length_header_bytes [of h] by (simp add: header_bytes_def)
qed

lemma header_write_to_parse:
  assumes "header_parse buf = Ok h"
  shows "header_write_to h buf = Ok (overwrite buf 72 (replicate 20 0))"
proof -
  note d = header_parse_OkD [OF assms]
  have "drop 100 buf = drop 100 (overwrite buf 72 (replicate 20 0))"
    using d(1) by (simp add: bytes_simps)
  then show ?thesis using d(1) header_write_to_Ok [of buf h]
    by (simp add: d(3) HEADER_LEN_def)
qed

end
