(* ===== verification/PageFormat.thy ===== *)
theory PageFormat
  imports Varint Header
begin

text \<open>
  One b-tree page (\<open>src/btree/page.rs\<close>, with the \<open>Page\<close> of \<open>src/pager/mod.rs\<close>): its header, cell
  pointer array and cells, and the rule that splits a payload between the page and its overflow
  chain. Every accessor is modelled with the language's panics, and is shown never to panic on
  any bytes; the payload rule is shown to respect the bounds of the file format.
\<close>

section \<open>Pages\<close>

record page =
  page_number :: u32
  page_data :: bytes

definition page_from_bytes :: "u32 \<Rightarrow> bytes \<Rightarrow> page" where
  "page_from_bytes number dat = \<lparr>page_number = number, page_data = dat\<rparr>"

definition body_offset :: "page \<Rightarrow> nat" where
  "body_offset p = (if page_number p = 1 then HEADER_LEN else 0)"

datatype page_type = InteriorIndex | InteriorTable | LeafIndex | LeafTable

definition page_type_from_byte :: "u8 \<Rightarrow> page_type res" where
  "page_type_from_byte b =
    (if b = 2 then Ok InteriorIndex
     else if b = 5 then Ok InteriorTable
     else if b = 10 then Ok LeafIndex
     else if b = 13 then Ok LeafTable
     else Err (Corrupt (''invalid b-tree page type '' @ show_nat (unat b))))"

fun is_leaf :: "page_type \<Rightarrow> bool" where
  "is_leaf LeafIndex = True"
| "is_leaf LeafTable = True"
| "is_leaf _ = False"

fun is_table :: "page_type \<Rightarrow> bool" where
  "is_table InteriorTable = True"
| "is_table LeafTable = True"
| "is_table _ = False"

definition page_header_len :: "page_type \<Rightarrow> nat" where
  "page_header_len t = (if is_leaf t then 8 else 12)"

definition be_u16 :: "bytes \<Rightarrow> nat \<Rightarrow> u16 res" where
  "be_u16 buf at = bindR (slice buf at (at + 2)) (\<lambda>b. Ok (from_be16 b))"

definition be_u32_checked :: "bytes \<Rightarrow> nat \<Rightarrow> u32 res" where
  "be_u32_checked buf at =
    bindR (ok_or (get_slice buf at (at + 4)) (Corrupt ''4-byte read past end of page''))
      (\<lambda>b. Ok (from_be32 b))"

record payload =
  total_len :: nat
  local_offset :: nat
  local_len :: nat
  overflow :: u32

record table_leaf_cell_t =
  cell_rowid :: i64
  cell_payload :: payload

record index_cell_t =
  left_child :: u32
  index_payload :: payload

record btree_page =
  bt_page :: page
  bt_type :: page_type
  bt_body :: nat
  num_cells :: nat
  right_pointer :: u32

definition btree_page_parse :: "page \<Rightarrow> btree_page res" where
  "btree_page_parse p =
    (let body = body_offset p; dat = page_data p in
     if length dat < body + 8 then Err (Corrupt ''page too small for b-tree header'')
     else bindR (idx dat body) (\<lambda>b. bindR (page_type_from_byte b) (\<lambda>ptype.
       if length dat < body + page_header_len ptype then
         Err (Corrupt ''page too small for interior header'')
       else bindR (be_u16 dat (body + 3)) (\<lambda>n.
         bindR (if is_leaf ptype then Ok 0 else be_u32 dat (body + 8)) (\<lambda>rp.
         Ok \<lparr>bt_page = p, bt_type = ptype, bt_body = body, num_cells = unat n, right_pointer = rp\<rparr>)))))"

abbreviation "bt_data pg \<equiv> page_data (bt_page pg)"

definition cell_offset :: "btree_page \<Rightarrow> nat \<Rightarrow> nat res" where
  "cell_offset pg i =
    (if num_cells pg \<le> i then
       Err (Corrupt (''cell index '' @ show_nat i @ '' out of range (num_cells='' @
         show_nat (num_cells pg) @ '')''))
     else let ptr = bt_body pg + page_header_len (bt_type pg) + 2 * i; dat = bt_data pg in
       if length dat < ptr + 2 then Err (Corrupt ''cell pointer past end of page'')
       else bindR (be_u16 dat ptr) (\<lambda>w. let off = unat w in
         if length dat \<le> off then Err (Corrupt ''cell offset past end of page'') else Ok off))"

definition child_pointer :: "btree_page \<Rightarrow> nat \<Rightarrow> u32 res" where
  "child_pointer pg i =
    (if is_leaf (bt_type pg) then Err (Corrupt ''child pointer requested on a leaf page'')
     else if num_cells pg \<le> i then Ok (right_pointer pg)
     else bindR (cell_offset pg i) (\<lambda>off. be_u32_checked (bt_data pg) off))"

definition table_interior_key :: "btree_page \<Rightarrow> nat \<Rightarrow> i64 res" where
  "table_interior_key pg i =
    (if bt_type pg \<noteq> InteriorTable then Err (Corrupt ''interior-table key on non-interior page'')
     else bindR (cell_offset pg i) (\<lambda>off. let dat = bt_data pg in
       if length dat < off + 4 then Err (Corrupt ''interior cell past end of page'')
       else bindR (slice_from dat (off + 4)) (\<lambda>rest.
         bindR (ok_or (varint_decode_i64 rest) (Corrupt ''truncated interior cell rowid''))
           (\<lambda>(rowid, _). Ok rowid))))"

text \<open>
  The spill rule, in saturating arithmetic (HOL's subtraction on \<open>nat\<close>). The products and sums are
  unbounded here; \<open>payload_split_usize\<close> below computes them in the width of the code. A usable size is at
  most 65536, which is what a header gives, and a page has at most that many bytes.
\<close>

definition payload_max_local :: "page_type \<Rightarrow> nat \<Rightarrow> nat" where
  "payload_max_local ptype usable =
    (if ptype = LeafTable then usable - 35 else (usable - 12) * 64 div 255 - 23)"

definition payload_min_local :: "nat \<Rightarrow> nat" where
  "payload_min_local usable = (usable - 12) * 32 div 255 - 23"

definition payload_split :: "page_type \<Rightarrow> nat \<Rightarrow> nat \<Rightarrow> nat \<times> bool" where
  "payload_split ptype usable p =
    (if ptype = InteriorTable then (0, False)
     else let max_local = payload_max_local ptype usable in
       if p \<le> max_local then (p, False)
       else let min_local = payload_min_local usable;
                span = max (usable - 4) 1;
                k = min_local + (p - min_local) mod span
            in (if k \<le> max_local then k else min_local, True))"

text \<open>
  The same rule with the products and the sum checked in 64-bit \<open>usize\<close>. The two agree on every page
  size a header can give.
\<close>

definition usize_add :: "nat \<Rightarrow> nat \<Rightarrow> nat res" where
  "usize_add a b = (if a + b < 2 ^ 64 then Ok (a + b) else Panic)"

definition usize_mul :: "nat \<Rightarrow> nat \<Rightarrow> nat res" where
  "usize_mul a b = (if a * b < 2 ^ 64 then Ok (a * b) else Panic)"

definition payload_split_usize :: "page_type \<Rightarrow> nat \<Rightarrow> nat \<Rightarrow> (nat \<times> bool) res" where
  "payload_split_usize ptype usable p =
    (if ptype = InteriorTable then Ok (0, False)
     else bindR (if ptype = LeafTable then Ok (usable - 35)
                 else bindR (usize_mul (usable - 12) 64) (\<lambda>m. Ok (m div 255 - 23))) (\<lambda>max_local.
       if p \<le> max_local then Ok (p, False)
       else bindR (usize_mul (usable - 12) 32) (\<lambda>m.
         let min_local = m div 255 - 23; span = max (usable - 4) 1 in
         bindR (usize_add min_local ((p - min_local) mod span)) (\<lambda>k.
         Ok (if k \<le> max_local then k else min_local, True)))))"

definition payload_at :: "btree_page \<Rightarrow> nat \<Rightarrow> nat \<Rightarrow> nat \<Rightarrow> payload res" where
  "payload_at pg start tot usable =
    (let (llen, has_overflow) = payload_split (bt_type pg) usable tot;
         dat = bt_data pg;
         need = start + llen + (if has_overflow then 4 else 0)
     in if length dat < need then Err (Corrupt ''cell payload past end of page'')
        else bindR (if has_overflow then be_u32 dat (start + llen) else Ok 0) (\<lambda>ov.
          Ok \<lparr>total_len = tot, local_offset = start, local_len = llen, overflow = ov\<rparr>))"

definition table_leaf_cell :: "btree_page \<Rightarrow> nat \<Rightarrow> nat \<Rightarrow> table_leaf_cell_t res" where
  "table_leaf_cell pg i usable =
    (if bt_type pg \<noteq> LeafTable then Err (Corrupt ''table-leaf cell on non-table-leaf page'')
     else bindR (cell_offset pg i) (\<lambda>off. let dat = bt_data pg in
       bindR (slice_from dat off) (\<lambda>r1.
       bindR (ok_or (varint_decode r1) (Corrupt ''truncated leaf payload length'')) (\<lambda>(plen, n1).
       bindR (slice_from dat (off + n1)) (\<lambda>r2.
       bindR (ok_or (varint_decode_i64 r2) (Corrupt ''truncated leaf rowid'')) (\<lambda>(rowid, n2).
       bindR (payload_at pg (off + n1 + n2) (unat plen) usable) (\<lambda>pl.
       Ok \<lparr>cell_rowid = rowid, cell_payload = pl\<rparr>)))))))"

definition raw_table_leaf_cell :: "btree_page \<Rightarrow> nat \<Rightarrow> nat \<Rightarrow> bytes res" where
  "raw_table_leaf_cell pg i usable =
    (if bt_type pg \<noteq> LeafTable then Err (Corrupt ''raw table-leaf cell on non-table-leaf page'')
     else bindR (cell_offset pg i) (\<lambda>off. let dat = bt_data pg in
       bindR (slice_from dat off) (\<lambda>r1.
       bindR (ok_or (varint_decode r1) (Corrupt ''truncated leaf payload length'')) (\<lambda>(plen, n1).
       bindR (slice_from dat (off + n1)) (\<lambda>r2.
       bindR (ok_or (varint_decode_i64 r2) (Corrupt ''truncated leaf rowid'')) (\<lambda>(_, n2).
       let (llen, has_overflow) = payload_split (bt_type pg) usable (unat plen);
           len = n1 + n2 + llen + (if has_overflow then 4 else 0)
       in if length dat < off + len then Err (Corrupt ''leaf cell extends past page'')
          else slice dat off (off + len)))))))"

definition raw_index_record_cell :: "btree_page \<Rightarrow> nat \<Rightarrow> nat \<Rightarrow> bytes res" where
  "raw_index_record_cell pg i usable =
    (if is_table (bt_type pg) then Err (Corrupt ''index record cell on a table page'')
     else bindR (cell_offset pg i) (\<lambda>off. let dat = bt_data pg;
         key_off = (if bt_type pg = InteriorIndex then off + 4 else off) in
       bindR (ok_or (get_from dat key_off) (Corrupt ''index cell key past end of page'')) (\<lambda>key_bytes.
       bindR (ok_or (varint_decode key_bytes) (Corrupt ''truncated index payload length'')) (\<lambda>(plen, n1).
       let (llen, has_overflow) = payload_split (bt_type pg) usable (unat plen);
           len = n1 + llen + (if has_overflow then 4 else 0)
       in if length dat < key_off + len then Err (Corrupt ''index cell extends past page'')
          else slice dat key_off (key_off + len)))))"

definition index_cell :: "btree_page \<Rightarrow> nat \<Rightarrow> nat \<Rightarrow> index_cell_t res" where
  "index_cell pg i usable =
    (if is_table (bt_type pg) then Err (Corrupt ''index cell on a table page'')
     else bindR (cell_offset pg i) (\<lambda>off. let dat = bt_data pg in
       bindR (if bt_type pg = InteriorIndex then
                bindR (be_u32_checked dat off) (\<lambda>lc. Ok (lc, off + 4)) else Ok (0, off)) (\<lambda>(lc, key_off).
       bindR (ok_or (get_from dat key_off) (Corrupt ''index cell key past end of page'')) (\<lambda>key_bytes.
       bindR (ok_or (varint_decode key_bytes) (Corrupt ''truncated index payload length'')) (\<lambda>(plen, n1).
       bindR (payload_at pg (key_off + n1) (unat plen) usable) (\<lambda>pl.
       Ok \<lparr>left_child = lc, index_payload = pl\<rparr>))))))"

definition child_pointer_offset :: "btree_page \<Rightarrow> nat \<Rightarrow> nat res" where
  "child_pointer_offset pg i =
    (if is_leaf (bt_type pg) then Err (Corrupt ''child pointer offset requested on a leaf page'')
     else if num_cells pg \<le> i then Ok (bt_body pg + 8)
     else cell_offset pg i)"

definition cell_overflow_offset :: "btree_page \<Rightarrow> nat \<Rightarrow> nat \<Rightarrow> nat option res" where
  "cell_overflow_offset pg i usable =
    (let tail = (\<lambda>pl. Ok (if overflow pl = 0 then None else Some (local_offset pl + local_len pl)))
     in case bt_type pg of
          LeafTable \<Rightarrow> bindR (table_leaf_cell pg i usable) (\<lambda>c. tail (cell_payload c))
        | InteriorTable \<Rightarrow> Ok None
        | _ \<Rightarrow> bindR (index_cell pg i usable) (\<lambda>c. tail (index_payload c)))"

section \<open>No accessor panics\<close>

lemma be_u16_Ok [simp]:
  "at + 2 \<le> length buf \<Longrightarrow> be_u16 buf at = Ok (from_be16 (take 2 (drop at buf)))"
  by (simp add: be_u16_def)

lemma be_u32_checked_no_panic [no_panic]: "be_u32_checked buf at \<noteq> Panic"
  by (simp add: be_u32_checked_def bindR_Panic_iff ok_or_no_panic)

lemma btree_page_parse_no_panic [no_panic]: "btree_page_parse p \<noteq> Panic"
proof (cases "length (page_data p) < body_offset p + 8")
  case True
  then show ?thesis by (simp add: btree_page_parse_def)
next
  case False
  have "page_type_from_byte b \<noteq> Panic" for b by (simp add: page_type_from_byte_def)
  with False show ?thesis
    by (auto simp: btree_page_parse_def Let_def bindR_Panic_iff page_header_len_def split: if_splits)
qed

lemma cell_offset_no_panic [no_panic]: "cell_offset pg i \<noteq> Panic"
  by (simp add: cell_offset_def Let_def)

lemma cell_offset_bound: "cell_offset pg i = Ok off \<Longrightarrow> off < length (bt_data pg)"
  by (auto simp: cell_offset_def Let_def split: if_splits)

lemma child_pointer_no_panic [no_panic]: "child_pointer pg i \<noteq> Panic"
  by (simp add: child_pointer_def bindR_Panic_iff no_panic)

lemma table_interior_key_no_panic [no_panic]: "table_interior_key pg i \<noteq> Panic"
  by (auto simp: table_interior_key_def bindR_Panic_iff no_panic Let_def ok_or_Ok_iff
      dest!: cell_offset_bound)

lemma payload_at_no_panic [no_panic]: "payload_at pg start tot usable \<noteq> Panic"
  by (auto simp: payload_at_def Let_def bindR_Panic_iff split: prod.splits if_splits)

lemma table_leaf_cell_no_panic [no_panic]: "table_leaf_cell pg i usable \<noteq> Panic"
  by (auto simp: table_leaf_cell_def bindR_Panic_iff no_panic Let_def ok_or_Ok_iff
      dest!: cell_offset_bound varint_decode_bounds)

lemma raw_table_leaf_cell_no_panic [no_panic]: "raw_table_leaf_cell pg i usable \<noteq> Panic"
  by (auto simp: raw_table_leaf_cell_def bindR_Panic_iff no_panic Let_def ok_or_Ok_iff
      dest!: cell_offset_bound varint_decode_bounds split: prod.splits if_splits)

lemma raw_index_record_cell_no_panic [no_panic]: "raw_index_record_cell pg i usable \<noteq> Panic"
  by (auto simp: raw_index_record_cell_def bindR_Panic_iff no_panic Let_def ok_or_Ok_iff
      split: prod.splits if_splits)

lemma index_cell_no_panic [no_panic]: "index_cell pg i usable \<noteq> Panic"
  by (auto simp: index_cell_def bindR_Panic_iff no_panic Let_def ok_or_Ok_iff
      split: prod.splits if_splits)

lemma child_pointer_offset_no_panic [no_panic]: "child_pointer_offset pg i \<noteq> Panic"
  by (simp add: child_pointer_offset_def no_panic)

lemma cell_overflow_offset_no_panic [no_panic]: "cell_overflow_offset pg i usable \<noteq> Panic"
  by (auto simp: cell_overflow_offset_def bindR_Panic_iff no_panic Let_def split: page_type.splits)

section \<open>The payload rule\<close>

lemma payload_split_local: "fst (payload_split ptype usable p) \<le> usable"
proof -
  have "payload_max_local ptype usable \<le> usable" "payload_min_local usable \<le> usable"
    by (simp_all add: payload_max_local_def payload_min_local_def) linarith+
  then show ?thesis by (auto simp: payload_split_def Let_def)
qed

lemma payload_split_usize_Ok:
  assumes "usable \<le> 65536"
  shows "payload_split_usize ptype usable p = Ok (payload_split ptype usable p)"
proof -
  have u: "usize_mul (usable - 12) 64 = Ok ((usable - 12) * 64)" "usize_mul (usable - 12) 32 = Ok ((usable - 12) * 32)"
    using assms by (simp_all add: usize_mul_def)
  have "usize_add (payload_min_local usable) (x mod max (usable - 4) 1) = Ok (payload_min_local usable + x mod max (usable - 4) 1)" for x
  proof -
    have "x mod max (usable - 4) 1 < max (usable - 4) 1" by (rule mod_less_divisor) simp
    moreover have "max (usable - 4) 1 \<le> 65536" "payload_min_local usable \<le> 65536" using assms by (simp_all add: payload_min_local_def)
    moreover have "b + a < 2 ^ 64" if "a < m" "m \<le> 65536" "b \<le> 65536" for a b m :: nat using that by simp
    ultimately have "payload_min_local usable + x mod max (usable - 4) 1 < 2 ^ 64" by blast
    then show ?thesis by (simp only: usize_add_def if_True)
  qed
  then show ?thesis
    by (cases ptype) (simp_all add: payload_split_usize_def payload_split_def payload_max_local_def u Let_def flip: payload_min_local_def)
qed

lemma payload_split_bounds:
  assumes "payload_split ptype usable p = (llen, ov)" and "ptype \<noteq> InteriorTable"
  shows "llen \<le> p" and "\<not> ov \<longleftrightarrow> p \<le> payload_max_local ptype usable" and "\<not> ov \<Longrightarrow> llen = p"
    and "35 \<le> usable \<Longrightarrow> llen \<le> payload_max_local ptype usable"
    and "ov \<Longrightarrow> payload_min_local usable \<le> llen"
proof -
  have mm: "payload_min_local usable \<le> payload_max_local ptype usable" if "35 \<le> usable \<or> ptype \<noteq> LeafTable"
  proof -
    have "(usable - 12) * 32 div 255 \<le> (usable - 12) * 64 div 255" by (intro div_le_mono) simp
    moreover have "(usable - 12) * 32 div 255 - 23 \<le> usable - 35" by linarith
    ultimately show ?thesis by (auto simp: payload_min_local_def payload_max_local_def intro: diff_le_mono)
  qed
  have "payload_min_local usable \<le> p" if "payload_max_local ptype usable < p"
    using that mm by (cases "35 \<le> usable \<or> ptype \<noteq> LeafTable")
      (auto simp: payload_min_local_def payload_max_local_def)
  moreover have "(p - payload_min_local usable) mod n \<le> p - payload_min_local usable" for n
    by (rule mod_less_eq_dividend)
  ultimately show "llen \<le> p"
    using assms by (fastforce simp: payload_split_def Let_def split: if_splits)
  show "\<not> ov \<longleftrightarrow> p \<le> payload_max_local ptype usable" "\<not> ov \<Longrightarrow> llen = p"
    "ov \<Longrightarrow> payload_min_local usable \<le> llen"
    using assms by (auto simp: payload_split_def Let_def split: if_splits)
  show "35 \<le> usable \<Longrightarrow> llen \<le> payload_max_local ptype usable"
    using assms mm by (auto simp: payload_split_def Let_def split: if_splits)
qed

text \<open>What spills fills whole overflow pages, except when the minimum is kept on the page.\<close>

lemma payload_split_spill:
  assumes "payload_split ptype usable p = (llen, True)" and "4 < usable"
  shows "llen = payload_min_local usable \<or> (p - llen) mod (usable - 4) = 0"
proof -
  let ?m = "payload_min_local usable" and ?s = "usable - 4"
  have "(p - (?m + (p - ?m) mod ?s)) mod ?s = 0"
    by (metis diff_diff_left minus_mod_eq_mult_div mod_mult_self1_is_0)
  then show ?thesis using assms by (auto simp: payload_split_def Let_def max_def split: if_splits)
qed

end
