(* ===== verification/Cursor.thy ===== *)
theory Cursor
  imports StateResult PageFormat
begin

text \<open>
  Reading b-trees (\<open>src/btree/cursor.rs\<close>): reassembling a payload from its overflow chain, the cursor
  over a table and the cursor over an index. A cursor reads pages through a page source, an action
  on the source's state (\<open>PageSource::page\<close>; the caches of the pagers change under it). The loops
  that follow page pointers take fuel, since a damaged file may hold a cycle. On a well-formed tree
  the table cursor visits every row once, in order, and a seek finds the first row at or above its
  target.
\<close>

type_synonym 's page_source = "u32 \<Rightarrow> ('s, page) act"

section \<open>Payloads\<close>

primrec overflow_loop :: "nat \<Rightarrow> 's page_source \<Rightarrow> nat \<Rightarrow> nat \<Rightarrow> u32 \<Rightarrow> bytes \<Rightarrow> ('s, bytes) lact" where
  "overflow_loop 0 rd usable tot nxt out = (\<lambda>s. None)"
| "overflow_loop (Suc fuel) rd usable tot nxt out =
    (if nxt \<noteq> 0 \<and> length out < tot then
       bindL (runL (rd nxt)) (\<lambda>pg. let dat = page_data pg in
       bindL (runL (liftA (be_u32 dat 0))) (\<lambda>next_ptr.
       let remaining = tot - length out in
       bindL (runL (liftA (usub usable 4))) (\<lambda>cap.
       let tk = min remaining cap in
       if length dat < 4 + tk then runL (liftA (Err (Corrupt ''overflow page too small'')))
       else bindL (runL (liftA (slice dat 4 (4 + tk)))) (\<lambda>part.
         overflow_loop fuel rd usable tot next_ptr (out @ part)))))
     else runL (retA out))"

text \<open>
  Allocation is not modelled: the code reserves the whole payload length up front
  (\<open>Vec::with_capacity\<close>), which aborts on a corrupt length beyond what can be allocated.
\<close>

definition read_payload :: "nat \<Rightarrow> 's page_source \<Rightarrow> nat \<Rightarrow> bytes \<Rightarrow> payload \<Rightarrow> ('s, bytes) lact" where
  "read_payload fuel rd usable page_bytes pl =
    bindL (runL (liftA (slice page_bytes (local_offset pl) (local_offset pl + local_len pl)))) (\<lambda>out0.
    bindL (overflow_loop fuel rd usable (total_len pl) (overflow pl) out0) (\<lambda>out.
    if length out \<noteq> total_len pl then runL (liftA (Err (Corrupt ''overflow chain shorter than payload'')))
    else runL (retA out)))"

section \<open>The table cursor\<close>

text \<open>The stack has its top first. The cursor's state stands beside the state of the source.\<close>

type_synonym frame = "btree_page \<times> nat"

record table_cursor =
  tc_root :: u32
  tc_stack :: "frame list"
  tc_exhausted :: bool

type_synonym 's tstate = "'s \<times> table_cursor"

definition cursor_new :: "u32 \<Rightarrow> table_cursor" where
  "cursor_new root = \<lparr>tc_root = root, tc_stack = [], tc_exhausted = True\<rparr>"

definition load_page :: "'s page_source \<Rightarrow> u32 \<Rightarrow> ('s \<times> 'c, btree_page) act" where
  "load_page rd n = (\<lambda>(s, c). case rd n s of
     (Ok pg, s') \<Rightarrow> (btree_page_parse pg, (s', c))
   | (Err e, s') \<Rightarrow> (Err e, (s', c))
   | (Panic, s') \<Rightarrow> (Panic, (s', c)))"

definition push_frame :: "btree_page \<Rightarrow> nat \<Rightarrow> ('s tstate, unit) act" where
  "push_frame pg i = modA (\<lambda>(s, c). (s, c\<lparr>tc_stack := (pg, i) # tc_stack c\<rparr>))"

definition set_exhausted :: "bool \<Rightarrow> ('s tstate, unit) act" where
  "set_exhausted b = modA (\<lambda>(s, c). (s, c\<lparr>tc_exhausted := b\<rparr>))"

definition start_cursor :: "('s tstate, u32) act" where
  "start_cursor = bindA (modA (\<lambda>(s, c). (s, c\<lparr>tc_stack := [], tc_exhausted := False\<rparr>))) (\<lambda>_.
     bindA getA (\<lambda>(s, c). retA (tc_root c)))"

primrec last_loop :: "nat \<Rightarrow> 's page_source \<Rightarrow> u32 \<Rightarrow> ('s tstate, bool) lact" where
  "last_loop 0 rd page_no = (\<lambda>s. None)"
| "last_loop (Suc fuel) rd page_no =
    bindL (runL (load_page rd page_no)) (\<lambda>pg.
    if is_leaf (bt_type pg) then
      if num_cells pg = 0 then
        bindL (runL (push_frame pg 0)) (\<lambda>_. bindL (runL (set_exhausted True)) (\<lambda>_. runL (retA False)))
      else bindL (runL (push_frame pg (num_cells pg - 1))) (\<lambda>_. runL (retA True))
    else
      bindL (runL (liftA (child_pointer pg (num_cells pg)))) (\<lambda>child.
      bindL (runL (push_frame pg (num_cells pg))) (\<lambda>_. last_loop fuel rd child)))"

definition cursor_last :: "nat \<Rightarrow> 's page_source \<Rightarrow> ('s tstate, bool) lact" where
  "cursor_last fuel rd = bindL (runL start_cursor) (\<lambda>root. last_loop fuel rd root)"

primrec descend_left :: "nat \<Rightarrow> 's page_source \<Rightarrow> u32 \<Rightarrow> ('s tstate, unit) lact" where
  "descend_left 0 rd page_no = (\<lambda>s. None)"
| "descend_left (Suc fuel) rd page_no =
    bindL (runL (load_page rd page_no)) (\<lambda>pg.
    if is_leaf (bt_type pg) then runL (push_frame pg 0)
    else
      bindL (runL (liftA (child_pointer pg 0))) (\<lambda>child.
      bindL (runL (push_frame pg 0)) (\<lambda>_. descend_left fuel rd child)))"

text \<open>
  The inner loop of \<open>settle\<close>: advance the top frame, pop it when it has no further child, and
  descend into the next child; \<open>False\<close> when the stack runs empty.
\<close>

fun ascend :: "nat \<Rightarrow> 's page_source \<Rightarrow> frame list \<Rightarrow> ('s tstate, bool) lact" where
  "ascend fuel rd [] = bindL (runL (modA (\<lambda>(s, c). (s, c\<lparr>tc_stack := []\<rparr>)))) (\<lambda>_. runL (retA False))"
| "ascend fuel rd ((pg, i) # rest) =
    (if i + 1 \<le> num_cells pg then
       bindL (runL (modA (\<lambda>(s, c). (s, c\<lparr>tc_stack := (pg, i + 1) # rest\<rparr>)))) (\<lambda>_.
       bindL (runL (liftA (child_pointer pg (i + 1)))) (\<lambda>child.
       bindL (descend_left fuel rd child) (\<lambda>_. runL (retA True))))
     else ascend fuel rd rest)"

primrec settle :: "nat \<Rightarrow> 's page_source \<Rightarrow> ('s tstate, bool) lact" where
  "settle 0 rd = (\<lambda>s. None)"
| "settle (Suc fuel) rd = (\<lambda>(s, c).
    case tc_stack c of
      [] \<Rightarrow> bindL (runL (set_exhausted True)) (\<lambda>_. runL (retA False)) (s, c)
    | (pg, i) # rest \<Rightarrow>
        if i < num_cells pg then runL (retA True) (s, c)
        else bindL (ascend (Suc fuel) rd rest) (\<lambda>descended.
          if descended then settle fuel rd
          else bindL (runL (set_exhausted True)) (\<lambda>_. runL (retA False))) (s, c))"

definition cursor_first :: "nat \<Rightarrow> 's page_source \<Rightarrow> ('s tstate, bool) lact" where
  "cursor_first fuel rd = bindL (runL start_cursor) (\<lambda>root.
     bindL (descend_left fuel rd root) (\<lambda>_. settle fuel rd))"

definition is_valid :: "table_cursor \<Rightarrow> bool" where
  "is_valid c \<longleftrightarrow> \<not> tc_exhausted c"

definition leaf_frame :: "table_cursor \<Rightarrow> frame res" where
  "leaf_frame c =
    (if tc_exhausted c then Err (Error ''cursor not positioned on a row'')
     else case tc_stack c of [] \<Rightarrow> Err (Error ''cursor has no current frame'') | f # _ \<Rightarrow> Ok f)"

definition cursor_rowid :: "nat \<Rightarrow> table_cursor \<Rightarrow> i64 res" where
  "cursor_rowid usable c =
    bindR (leaf_frame c) (\<lambda>(pg, i). bindR (table_leaf_cell pg i usable) (\<lambda>cell. Ok (cell_rowid cell)))"

definition cursor_payload :: "nat \<Rightarrow> 's page_source \<Rightarrow> nat \<Rightarrow> table_cursor \<Rightarrow> ('s, bytes) lact" where
  "cursor_payload fuel rd usable c =
    bindL (runL (liftA (leaf_frame c))) (\<lambda>(pg, i).
    bindL (runL (liftA (table_leaf_cell pg i usable))) (\<lambda>cell.
    read_payload fuel rd usable (bt_data pg) (cell_payload cell)))"

definition cursor_next :: "nat \<Rightarrow> 's page_source \<Rightarrow> ('s tstate, bool) lact" where
  "cursor_next fuel rd = (\<lambda>(s, c).
    if tc_exhausted c then runL (retA False) (s, c)
    else case tc_stack c of
      [] \<Rightarrow> runL (liftA Panic) (s, c)
    | (pg, i) # rest \<Rightarrow> settle fuel rd (s, c\<lparr>tc_stack := (pg, i + 1) # rest\<rparr>))"

text \<open>The scans of \<open>seek\<close>: the first cell at or above the target; \<open>k\<close> cells are left.\<close>

fun leaf_scan :: "btree_page \<Rightarrow> nat \<Rightarrow> i64 \<Rightarrow> nat \<Rightarrow> nat \<Rightarrow> (nat \<times> bool) res" where
  "leaf_scan pg usable target i 0 = Ok (i, False)"
| "leaf_scan pg usable target i (Suc k) =
    bindR (table_leaf_cell pg i usable) (\<lambda>cell.
    if sint target \<le> sint (cell_rowid cell) then Ok (i, cell_rowid cell = target)
    else leaf_scan pg usable target (i + 1) k)"

fun interior_scan :: "btree_page \<Rightarrow> i64 \<Rightarrow> nat \<Rightarrow> nat \<Rightarrow> nat res" where
  "interior_scan pg target i 0 = Ok i"
| "interior_scan pg target i (Suc k) =
    bindR (table_interior_key pg i) (\<lambda>key.
    if sint target \<le> sint key then Ok i else interior_scan pg target (i + 1) k)"

primrec seek_loop :: "nat \<Rightarrow> 's page_source \<Rightarrow> nat \<Rightarrow> i64 \<Rightarrow> u32 \<Rightarrow> ('s tstate, bool) lact" where
  "seek_loop 0 rd usable target page_no = (\<lambda>s. None)"
| "seek_loop (Suc fuel) rd usable target page_no =
    bindL (runL (load_page rd page_no)) (\<lambda>pg.
    if is_leaf (bt_type pg) then
      bindL (runL (liftA (leaf_scan pg usable target 0 (num_cells pg)))) (\<lambda>(i, exact).
      bindL (runL (push_frame pg i)) (\<lambda>_.
      if num_cells pg \<le> i then bindL (cursor_next (Suc fuel) rd) (\<lambda>_. runL (retA False))
      else runL (retA exact)))
    else
      bindL (runL (liftA (interior_scan pg target 0 (num_cells pg)))) (\<lambda>i.
      bindL (runL (liftA (child_pointer pg i))) (\<lambda>child.
      bindL (runL (push_frame pg i)) (\<lambda>_. seek_loop fuel rd usable target child))))"

definition cursor_seek :: "nat \<Rightarrow> 's page_source \<Rightarrow> nat \<Rightarrow> i64 \<Rightarrow> ('s tstate, bool) lact" where
  "cursor_seek fuel rd usable target =
    bindL (runL start_cursor) (\<lambda>root. seek_loop fuel rd usable target root)"

section \<open>The index cursor\<close>

record index_cursor =
  ic_root :: u32
  ic_stack :: "frame list"
  ic_started :: bool

definition index_cursor_new :: "u32 \<Rightarrow> index_cursor" where
  "index_cursor_new root = \<lparr>ic_root = root, ic_stack = [], ic_started = False\<rparr>"

type_synonym 's istate = "'s \<times> index_cursor"

definition liftC :: "('s, 'a) lact \<Rightarrow> ('s \<times> 'c, 'a) lact" where
  "liftC m = (\<lambda>(s, c). case m s of None \<Rightarrow> None | Some (r, s') \<Rightarrow> Some (r, (s', c)))"

definition set_istack :: "frame list \<Rightarrow> ('s istate, unit) act" where
  "set_istack st = modA (\<lambda>(s, c). (s, c\<lparr>ic_stack := st\<rparr>))"

text \<open>One turn of the loop per unit of fuel.\<close>

primrec index_loop :: "nat \<Rightarrow> nat \<Rightarrow> 's page_source \<Rightarrow> nat \<Rightarrow> ('s istate, bytes option) lact" where
  "index_loop 0 pfuel rd usable = (\<lambda>s. None)"
| "index_loop (Suc fuel) pfuel rd usable = (\<lambda>(s, c).
    case ic_stack c of
      [] \<Rightarrow> runL (retA None) (s, c)
    | (pg, step) # rest \<Rightarrow>
        let yield = (\<lambda>k.
          bindL (runL (liftA (index_cell pg k usable))) (\<lambda>cell.
          bindL (liftC (read_payload pfuel rd usable (bt_data pg) (index_payload cell))) (\<lambda>b.
          runL (retA (Some b))))) in
        if is_leaf (bt_type pg) then
          if step < num_cells pg then
            bindL (runL (set_istack ((pg, step + 1) # rest))) (\<lambda>_. yield step) (s, c)
          else bindL (runL (set_istack rest)) (\<lambda>_. index_loop fuel pfuel rd usable) (s, c)
        else if 2 * num_cells pg < step then
          bindL (runL (set_istack rest)) (\<lambda>_. index_loop fuel pfuel rd usable) (s, c)
        else
          bindL (runL (set_istack ((pg, step + 1) # rest))) (\<lambda>_.
          if step mod 2 = 0 then
            bindL (runL (liftA (child_pointer pg (step div 2)))) (\<lambda>child.
            bindL (runL (load_page rd child)) (\<lambda>child_page.
            bindL (runL (set_istack ((child_page, 0) # (pg, step + 1) # rest))) (\<lambda>_.
            index_loop fuel pfuel rd usable)))
          else yield (step div 2)) (s, c))"

definition index_next :: "nat \<Rightarrow> nat \<Rightarrow> 's page_source \<Rightarrow> nat \<Rightarrow> ('s istate, bytes option) lact" where
  "index_next fuel pfuel rd usable =
    bindL (\<lambda>(s, c).
      (if ic_started c then runL (retA ())
       else bindL (runL (modA (\<lambda>(s, c). (s, c\<lparr>ic_started := True\<rparr>)))) (\<lambda>_.
         bindL (runL (load_page rd (ic_root c))) (\<lambda>root.
         runL (set_istack [(root, 0)])))) (s, c)) (\<lambda>_.
    index_loop fuel pfuel rd usable)"

end
