(* ===== verification/Locks.thy ===== *)
theory Locks
  imports Errors
begin

text \<open>
  The lock states of a file (\<open>src/vfs/mod.rs\<close>): the five levels, the state shared by all handles
  of a path with \<open>acquire\<close> and \<open>release\<close>, and a system of handles that lock and unlock in any
  order. For handles that take \<open>SHARED\<close> before anything stronger and \<open>RESERVED\<close> before \<open>PENDING\<close>
  and step down to \<open>SHARED\<close> or \<open>UNLOCKED\<close> (the discipline of the pagers), every reachable state is consistent: the counters are
  those of the levels held, at most one handle is a writer and an exclusive holder is alone.
\<close>

section \<open>Levels\<close>

datatype lock_level = Unlocked | Shared | Reserved | Pending | Exclusive

fun lock_rank :: "lock_level \<Rightarrow> nat" where
  "lock_rank Unlocked = 0"
| "lock_rank Shared = 1"
| "lock_rank Reserved = 2"
| "lock_rank Pending = 3"
| "lock_rank Exclusive = 4"

lemma lock_rank_inj: "lock_rank a = lock_rank b \<Longrightarrow> a = b"
  by (cases a; cases b) auto

instantiation lock_level :: linorder
begin

definition less_eq_lock_level :: "lock_level \<Rightarrow> lock_level \<Rightarrow> bool" where
  "a \<le> b \<longleftrightarrow> lock_rank a \<le> lock_rank b"

definition less_lock_level :: "lock_level \<Rightarrow> lock_level \<Rightarrow> bool" where
  "a < b \<longleftrightarrow> lock_rank a < lock_rank b"

instance
  by standard (auto simp: less_eq_lock_level_def less_lock_level_def lock_rank_inj)

end

lemmas lock_order = less_eq_lock_level_def less_lock_level_def

section \<open>The shared state\<close>

record lock_state =
  shared :: nat
  reserved :: bool
  pending :: bool
  exclusive :: bool

definition default_locks :: lock_state where
  "default_locks = \<lparr>shared = 0, reserved = False, pending = False, exclusive = False\<rparr>"

definition acquire :: "lock_state \<Rightarrow> lock_level \<Rightarrow> lock_level \<Rightarrow> lock_state res" where
  "acquire s frm to =
    (if to \<le> frm then Ok s
     else case to of
       Unlocked \<Rightarrow> Ok s
     | Shared \<Rightarrow> if pending s \<or> exclusive s then Err Busy else Ok (s\<lparr>shared := shared s + 1\<rparr>)
     | Reserved \<Rightarrow> if reserved s \<or> exclusive s then Err Busy else Ok (s\<lparr>reserved := True\<rparr>)
     | Pending \<Rightarrow> if pending s \<or> exclusive s then Err Busy else Ok (s\<lparr>pending := True\<rparr>)
     | Exclusive \<Rightarrow>
         if exclusive s then Err Busy
         else let own_shared = (if Shared \<le> frm then 1 else 0) in
           if own_shared < shared s then Err Busy
           else Ok (s\<lparr>pending := True, exclusive := True\<rparr>))"

definition has_write_intent :: "lock_state \<Rightarrow> bool" where
  "has_write_intent s \<longleftrightarrow> reserved s \<or> pending s \<or> exclusive s"

definition reader_count :: "lock_state \<Rightarrow> nat" where
  "reader_count s = shared s"

text \<open>\<open>saturating_sub\<close> is HOL's subtraction on \<open>nat\<close>.\<close>

definition release :: "lock_state \<Rightarrow> lock_level \<Rightarrow> lock_level \<Rightarrow> lock_state" where
  "release s frm to =
    (let s1 = (if Exclusive \<le> frm \<and> to < Exclusive then s\<lparr>exclusive := False\<rparr> else s);
         s2 = (if Pending \<le> frm \<and> to < Pending then s1\<lparr>pending := False\<rparr> else s1);
         s3 = (if Reserved \<le> frm \<and> to < Reserved then s2\<lparr>reserved := False\<rparr> else s2)
     in if Shared \<le> frm \<and> to < Shared then s3\<lparr>shared := shared s3 - 1\<rparr> else s3)"

section \<open>Handles\<close>

text \<open>The handles of one path: the shared state and the level each handle believes it holds.\<close>

record lock_sys =
  locks :: lock_state
  levels :: "lock_level list"

definition file_lock :: "lock_sys \<Rightarrow> nat \<Rightarrow> lock_level \<Rightarrow> lock_sys res" where
  "file_lock s h level =
    bindR (idx (levels s) h) (\<lambda>cur.
    bindR (acquire (locks s) cur level) (\<lambda>l.
    Ok (if cur < level then s\<lparr>locks := l, levels := (levels s)[h := level]\<rparr> else s\<lparr>locks := l\<rparr>)))"

definition file_unlock :: "lock_sys \<Rightarrow> nat \<Rightarrow> lock_level \<Rightarrow> lock_sys res" where
  "file_unlock s h level =
    bindR (idx (levels s) h) (\<lambda>cur.
    let l = release (locks s) cur level in
    Ok (if level < cur then s\<lparr>locks := l, levels := (levels s)[h := level]\<rparr> else s\<lparr>locks := l\<rparr>))"

definition check_reserved_lock :: "lock_sys \<Rightarrow> bool" where
  "check_reserved_lock s \<longleftrightarrow> has_write_intent (locks s)"

text \<open>Opening a handle; dropping one releases what it holds.\<close>

definition open_handle :: "lock_sys \<Rightarrow> lock_sys" where
  "open_handle s = s\<lparr>levels := levels s @ [Unlocked]\<rparr>"

definition drop_handle :: "lock_sys \<Rightarrow> nat \<Rightarrow> lock_sys res" where
  "drop_handle s h = file_unlock s h Unlocked"

section \<open>Steps\<close>

text \<open>
  A disciplined request: a read lock comes first, and \<open>PENDING\<close> is asked for from \<open>RESERVED\<close>. The
  pagers go \<open>SHARED\<close>, \<open>RESERVED\<close>, \<open>EXCLUSIVE\<close>; hot-journal recovery goes \<open>SHARED\<close>, \<open>EXCLUSIVE\<close>.
\<close>

fun disciplined :: "lock_level \<Rightarrow> lock_level \<Rightarrow> bool" where
  "disciplined cur Reserved \<longleftrightarrow> Shared \<le> cur"
| "disciplined cur Pending \<longleftrightarrow> Reserved \<le> cur"
| "disciplined cur Exclusive \<longleftrightarrow> Shared \<le> cur"
| "disciplined cur _ \<longleftrightarrow> True"

inductive lock_step :: "lock_sys \<Rightarrow> lock_sys \<Rightarrow> bool" where
  Open: "lock_step s (open_handle s)"
| Lock: "h < length (levels s) \<Longrightarrow> disciplined (levels s ! h) level \<Longrightarrow>
    file_lock s h level = Ok s' \<Longrightarrow> lock_step s s'"
| Unlock: "level \<le> Shared \<Longrightarrow> file_unlock s h level = Ok s' \<Longrightarrow> lock_step s s'"
| Drop: "drop_handle s h = Ok s' \<Longrightarrow> lock_step s s'"

inductive lock_reachable :: "lock_sys \<Rightarrow> bool" where
  Start: "lock_reachable \<lparr>locks = default_locks, levels = []\<rparr>"
| Step: "lock_reachable s \<Longrightarrow> lock_step s s' \<Longrightarrow> lock_reachable s'"

section \<open>The invariant\<close>

text \<open>How many handles hold a level or a stronger one.\<close>

definition held :: "lock_level \<Rightarrow> lock_sys \<Rightarrow> nat" where
  "held l s = length (filter (\<lambda>x. l \<le> x) (levels s))"

definition lock_inv :: "lock_sys \<Rightarrow> bool" where
  "lock_inv s \<longleftrightarrow>
    shared (locks s) = held Shared s \<and>
    (pending (locks s) \<longleftrightarrow> 0 < held Pending s) \<and>
    (exclusive (locks s) \<longleftrightarrow> 0 < held Exclusive s) \<and>
    held Reserved s \<le> 1 \<and>
    (reserved (locks s) \<longrightarrow> 0 < held Reserved s) \<and>
    (held Exclusive s < held Reserved s \<longrightarrow> reserved (locks s)) \<and>
    (0 < held Exclusive s \<longrightarrow> held Shared s = 1)"

lemma length_filter_update:
  "h < length xs \<Longrightarrow> length (filter p (xs[h := v])) + (if p (xs ! h) then 1 else 0) =
    length (filter p xs) + (if p v then 1 else 0)"
proof (induction xs arbitrary: h)
  case Nil
  then show ?case by simp
next
  case (Cons x xs)
  then show ?case by (cases h) auto
qed

lemma held_update:
  "h < length (levels s) \<Longrightarrow>
   held l (s\<lparr>locks := k, levels := (levels s)[h := v]\<rparr>) + (if l \<le> levels s ! h then 1 else 0) =
     held l s + (if l \<le> v then 1 else 0)"
  using length_filter_update [of h "levels s" "\<lambda>x. l \<le> x" v] by (simp add: held_def)

lemma held_locks [simp]: "held l (s\<lparr>locks := k\<rparr>) = held l s"
  by (simp add: held_def)

lemma held_antimono: "a \<le> b \<Longrightarrow> held b s \<le> held a s"
  unfolding held_def length_filter_conv_card by (rule card_mono) auto

lemma held_own: "h < length (levels s) \<Longrightarrow> l \<le> levels s ! h \<Longrightarrow> 0 < held l s"
  by (auto simp: held_def filter_empty_conv)


text \<open>The counts before and after a handle moves from one level to another.\<close>

lemma held_move:
  assumes "h < length (levels s)" and "s' = s\<lparr>locks := k, levels := (levels s)[h := v]\<rparr>"
  shows "held Shared s' + (if Shared \<le> levels s ! h then 1 else 0) = held Shared s + (if Shared \<le> v then 1 else 0)"
    and "held Reserved s' + (if Reserved \<le> levels s ! h then 1 else 0) = held Reserved s + (if Reserved \<le> v then 1 else 0)"
    and "held Pending s' + (if Pending \<le> levels s ! h then 1 else 0) = held Pending s + (if Pending \<le> v then 1 else 0)"
    and "held Exclusive s' + (if Exclusive \<le> levels s ! h then 1 else 0) = held Exclusive s + (if Exclusive \<le> v then 1 else 0)"
    and "Shared \<le> levels s ! h \<Longrightarrow> 0 < held Shared s" and "Reserved \<le> levels s ! h \<Longrightarrow> 0 < held Reserved s"
    and "Pending \<le> levels s ! h \<Longrightarrow> 0 < held Pending s" and "Exclusive \<le> levels s ! h \<Longrightarrow> 0 < held Exclusive s"
    and "locks s' = k"
  using held_update [OF assms(1)] held_own [OF assms(1)] assms(2) by simp_all

lemma held_chain:
  "held Exclusive s \<le> held Pending s" "held Pending s \<le> held Reserved s" "held Reserved s \<le> held Shared s"
  by (auto intro!: held_antimono simp: lock_order)

lemma lock_inv_lock:
  assumes inv: "lock_inv s" and h: "h < length (levels s)" and d: "disciplined (levels s ! h) level"
    and step: "file_lock s h level = Ok s'"
  shows "lock_inv s'"
proof (cases "level \<le> levels s ! h")
  case True
  then have "s' = s" using step h by (auto simp: file_lock_def acquire_def not_less)
  with inv show ?thesis by simp
next
  case False
  obtain l where l: "acquire (locks s) (levels s ! h) level = Ok l"
    and s': "s' = s\<lparr>locks := l, levels := (levels s)[h := level]\<rparr>"
    using step h False by (auto simp: file_lock_def bindR_Ok_iff not_le)
  then have l': "Ok (locks s') = acquire (locks s) (levels s ! h) level" by simp
  note move = held_move(1-8) [OF h s'] held_chain [of s] held_chain [of s']
  show ?thesis
    using inv l' d False move unfolding lock_inv_def
    by (cases level; cases "levels s ! h")
       (auto simp: acquire_def lock_order Let_def split: if_splits)
qed

lemma lock_inv_unlock:
  assumes inv: "lock_inv s" and "level \<le> Shared" and step: "file_unlock s h level = Ok s'"
  shows "lock_inv s'"
proof (cases "levels s ! h \<le> level")
  case True
  then have "s' = s" using step
    by (auto simp: file_unlock_def idx_def release_def Let_def lock_order not_less split: if_splits)
  with inv show ?thesis by simp
next
  case False
  have h: "h < length (levels s)" using step by (auto simp: file_unlock_def idx_def split: if_splits)
  have s': "s' = s\<lparr>locks := release (locks s) (levels s ! h) level, levels := (levels s)[h := level]\<rparr>"
    using step h False by (auto simp: file_unlock_def Let_def not_le)
  note move = held_move [OF h s'] held_chain [of s] held_chain [of s']
  show ?thesis
    using inv assms(2) False move unfolding lock_inv_def
    by (cases level; cases "levels s ! h") (auto simp: release_def lock_order Let_def)
qed

lemma lock_inv_step: "lock_step s s' \<Longrightarrow> lock_inv s \<Longrightarrow> lock_inv s'"
proof (induction rule: lock_step.induct)
  case (Open s)
  have "held l (open_handle s) = held l s" if "l \<noteq> Unlocked" for l
    using that by (cases l) (auto simp: held_def open_handle_def lock_order)
  with Open show ?case by (simp add: lock_inv_def) (simp add: open_handle_def)
next
  case (Drop s h s')
  then show ?case
    using lock_inv_unlock [of s Unlocked h s'] by (simp add: drop_handle_def lock_order)
qed (blast intro: lock_inv_lock lock_inv_unlock)+

lemma lock_inv_reachable: "lock_reachable s \<Longrightarrow> lock_inv s"
proof (induction rule: lock_reachable.induct)
  case Start
  show ?case by (simp add: lock_inv_def held_def default_locks_def)
next
  case (Step s s')
  then show ?case by (blast intro: lock_inv_step)
qed

text \<open>Two handles that both hold a level make the count at least two.\<close>

lemma held_two:
  assumes "i < length (levels s)" and "j < length (levels s)" and "i \<noteq> j"
    and "l \<le> levels s ! i" and "l \<le> levels s ! j"
  shows "2 \<le> held l s"
proof -
  have "card {i, j} \<le> card {k. k < length (levels s) \<and> l \<le> levels s ! k}"
    using assms by (intro card_mono) auto
  then show ?thesis using assms(3) by (simp add: held_def length_filter_conv_card)
qed

lemma lock_mutual_exclusion:
  assumes "lock_reachable s" and "i < length (levels s)" and "j < length (levels s)" and "i \<noteq> j"
  shows "Reserved \<le> levels s ! i \<Longrightarrow> levels s ! j \<le> Shared"
    and "levels s ! i = Exclusive \<Longrightarrow> levels s ! j = Unlocked"
proof -
  have inv: "lock_inv s" using assms(1) by (rule lock_inv_reachable)
  show "levels s ! j \<le> Shared" if "Reserved \<le> levels s ! i"
  proof (rule ccontr)
    assume "\<not> levels s ! j \<le> Shared"
    then have "Reserved \<le> levels s ! j" by (cases "levels s ! j") (auto simp: lock_order)
    then show False using held_two [OF assms(2-4) that] inv by (simp add: lock_inv_def)
  qed
  show "levels s ! j = Unlocked" if "levels s ! i = Exclusive"
  proof (rule ccontr)
    assume "levels s ! j \<noteq> Unlocked"
    then have "Shared \<le> levels s ! j" by (cases "levels s ! j") (auto simp: lock_order)
    moreover have "Shared \<le> levels s ! i" using that by (simp add: lock_order)
    ultimately have "2 \<le> held Shared s" using held_two [OF assms(2-4)] by simp
    moreover have "0 < held Exclusive s" using that held_own [OF assms(2), of Exclusive] by simp
    ultimately show False using inv by (simp add: lock_inv_def)
  qed
qed

end
