(* ===== verification/BTreeMap.thy ===== *)
theory BTreeMap
  imports Errors
begin

text \<open>
  The standard library's \<open>BTreeMap\<close> and \<open>BTreeSet\<close>, which the pagers use for the page cache, the
  dirty-page overlay and the WAL index: an association list in ascending key order, the order
  in which the source iterates. The contract the pagers rely on is the locale \<open>finite_map\<close>, and the
  sorted list satisfies it.
\<close>

type_synonym ('k, 'v) btree_map = "('k \<times> 'v) list"

definition bm_get :: "('k, 'v) btree_map \<Rightarrow> 'k \<Rightarrow> 'v option" where
  "bm_get m k = map_of m k"

fun bm_insert :: "'k::linorder \<Rightarrow> 'v \<Rightarrow> ('k, 'v) btree_map \<Rightarrow> ('k, 'v) btree_map" where
  "bm_insert k v [] = [(k, v)]"
| "bm_insert k v ((k', v') # m) =
    (if k < k' then (k, v) # (k', v') # m
     else if k = k' then (k, v) # m
     else (k', v') # bm_insert k v m)"

definition bm_remove :: "'k \<Rightarrow> ('k, 'v) btree_map \<Rightarrow> ('k, 'v) btree_map" where
  "bm_remove k m = filter (\<lambda>(k', _). k' \<noteq> k) m"

definition bm_contains :: "('k, 'v) btree_map \<Rightarrow> 'k \<Rightarrow> bool" where
  "bm_contains m k \<longleftrightarrow> bm_get m k \<noteq> None"

definition bm_keys :: "('k, 'v) btree_map \<Rightarrow> 'k list" where
  "bm_keys m = map fst m"

definition bm_inv :: "('k::linorder, 'v) btree_map \<Rightarrow> bool" where
  "bm_inv m \<longleftrightarrow> sorted_wrt (<) (bm_keys m)"

section \<open>The contract\<close>

locale finite_map =
  fixes empty :: 'm
    and update :: "'k \<Rightarrow> 'v \<Rightarrow> 'm \<Rightarrow> 'm"
    and delete :: "'k \<Rightarrow> 'm \<Rightarrow> 'm"
    and lookup :: "'m \<Rightarrow> 'k \<Rightarrow> 'v option"
    and entries :: "'m \<Rightarrow> ('k \<times> 'v) list"
    and inv :: "'m \<Rightarrow> bool"
  assumes inv_empty: "inv empty"
    and inv_update: "inv m \<Longrightarrow> inv (update k v m)"
    and inv_delete: "inv m \<Longrightarrow> inv (delete k m)"
    and lookup_empty: "lookup empty = Map.empty"
    and lookup_update: "inv m \<Longrightarrow> lookup (update k v m) = (lookup m)(k \<mapsto> v)"
    and lookup_delete: "inv m \<Longrightarrow> lookup (delete k m) = (lookup m)(k := None)"
    and entries_lookup: "inv m \<Longrightarrow> (k, v) \<in> set (entries m) \<longleftrightarrow> lookup m k = Some v"
    and entries_distinct: "inv m \<Longrightarrow> distinct (map fst (entries m))"
begin

lemma inv_updates: "inv m \<Longrightarrow> inv (fold (\<lambda>(k, v). update k v) kvs m)"
  by (induction kvs arbitrary: m) (auto intro: inv_update)

text \<open>Inserting a list of bindings, as the pagers do when they merge one map into another.\<close>

lemma lookup_updates:
  "inv m \<Longrightarrow> lookup (fold (\<lambda>(k, v). update k v) kvs m) = lookup m ++ map_of (rev kvs)"
  by (induction kvs arbitrary: m) (auto simp: inv_update lookup_update map_add_def fun_eq_iff split: option.splits)

lemma map_of_entries: "inv m \<Longrightarrow> map_of (entries m) = lookup m"
proof
  fix k
  assume m: "inv m"
  show "map_of (entries m) k = lookup m k"
    using m by (cases "lookup m k")
      (auto simp: map_of_eq_None_iff entries_distinct entries_lookup)
qed

lemma lookup_merge:
  assumes "inv m" and "inv n"
  shows "lookup (fold (\<lambda>(k, v). update k v) (entries n) m) = lookup m ++ lookup n"
proof -
  have "map_of (rev (entries n)) = map_of (entries n)"
    using assms(2) by (intro map_of_inject_set [THEN iffD2]) (simp_all add: entries_distinct flip: rev_map)
  then show ?thesis using assms by (simp add: lookup_updates map_of_entries)
qed

end

section \<open>The sorted list is such a map\<close>

lemma keys_insert: "set (bm_keys (bm_insert k v m)) = insert k (set (bm_keys m))"
  by (induction k v m rule: bm_insert.induct) (auto simp: bm_keys_def)

lemma bm_inv_Cons: "bm_inv ((k, v) # m) \<longleftrightarrow> bm_inv m \<and> (\<forall>k' \<in> set (bm_keys m). k < k')"
  by (auto simp: bm_inv_def bm_keys_def)

lemma bm_inv_Nil [simp]: "bm_inv []"
  by (simp add: bm_inv_def bm_keys_def)

lemma bm_keys_simps [simp]: "bm_keys [] = []" "bm_keys ((k, v) # m) = k # bm_keys m"
  by (simp_all add: bm_keys_def)

lemma bm_get_above: "\<forall>k' \<in> set (bm_keys m). k < k' \<Longrightarrow> bm_get m (k :: 'k::linorder) = None"
  by (force simp: bm_get_def bm_keys_def map_of_eq_None_iff)

lemma bm_inv_insert: "bm_inv m \<Longrightarrow> bm_inv (bm_insert k v m)"
  by (induction k v m rule: bm_insert.induct)
     (auto simp: bm_inv_Cons keys_insert dest: less_trans)

lemma bm_get_insert: "bm_inv m \<Longrightarrow> bm_get (bm_insert k v m) = (bm_get m)(k \<mapsto> v)"
  by (induction k v m rule: bm_insert.induct) (auto simp: bm_get_def bm_inv_Cons fun_eq_iff)

lemma bm_inv_remove: "bm_inv m \<Longrightarrow> bm_inv (bm_remove k m)"
  by (simp add: bm_inv_def bm_keys_def bm_remove_def sorted_wrt_map sorted_wrt_filter)

lemma bm_get_remove: "bm_get (bm_remove k m) = (bm_get m)(k := None)"
  by (induction m) (auto simp: bm_get_def bm_remove_def fun_eq_iff)

lemma bm_inv_distinct: "bm_inv m \<Longrightarrow> distinct (map fst m)"
  by (simp add: bm_inv_def bm_keys_def strict_sorted_iff)

interpretation bm: finite_map "[]" bm_insert bm_remove bm_get "\<lambda>m. m" "bm_inv :: ('k::linorder, 'v) btree_map \<Rightarrow> bool"
  by unfold_locales (auto simp: bm_inv_insert bm_get_insert bm_inv_remove bm_get_remove bm_inv_distinct
      bm_get_def fun_eq_iff)

lemma bm_get_Nil [simp]: "bm_get [] = Map.empty"
  by (auto simp: bm_get_def)

lemma length_bm_insert:
  "bm_inv m \<Longrightarrow> length (bm_insert k v m) = (if bm_contains m k then length m else Suc (length m))"
proof (induction k v m rule: bm_insert.induct)
  case (1 k v)
  then show ?case by (simp add: bm_contains_def)
next
  case (2 k v k' v' m)
  have "bm_get m k = None" if "k < k'"
    using that 2(2) by (intro bm_get_above) (auto simp: bm_inv_Cons)
  with 2 show ?case by (auto simp: bm_contains_def bm_get_def bm_inv_Cons)
qed

lemma length_bm_remove: "bm_inv m \<Longrightarrow>
  length (bm_remove k m) = (if bm_contains m k then length m - 1 else length m)"
proof (induction m)
  case Nil
  then show ?case by (simp add: bm_remove_def)
next
  case (Cons kv m)
  obtain k' v' where kv: "kv = (k', v')" by (cases kv)
  show ?case
  proof (cases "k' = k")
    case True
    have "\<forall>x \<in> set m. fst x \<noteq> k" using Cons.prems True kv by (auto simp: bm_inv_Cons bm_keys_def)
    then have "filter (\<lambda>(k', _). k' \<noteq> k) m = m" by (auto simp: filter_id_conv)
    then show ?thesis using True kv by (simp add: bm_remove_def bm_contains_def bm_get_def)
  next
    case False
    have "0 < length m" if "bm_contains m k" using that by (cases m) (auto simp: bm_contains_def)
    then show ?thesis using False Cons kv
      by (auto simp: bm_remove_def bm_contains_def bm_get_def bm_inv_Cons)
  qed
qed

end
