(* ===== verification/MemoryFile.thy ===== *)
theory MemoryFile
  imports Locks BTreeMap
begin

text \<open>
  Files (\<open>src/vfs/mod.rs\<close>, trait \<open>File\<close>) and the in-memory file that implements them
  (\<open>src/vfs/memory.rs\<close>), with the file system that shares entries between handles. What a pager
  relies on is the locale \<open>file_ops\<close>; the in-memory file satisfies it. The theory also holds the view
  of a file as numbered pages.
\<close>

section \<open>Bytes of a file\<close>

text \<open>\<open>Vec::resize(n, 0)\<close>.\<close>

definition resize :: "bytes \<Rightarrow> nat \<Rightarrow> bytes" where
  "resize dat n = (if n \<le> length dat then take n dat else dat @ replicate (n - length dat) 0)"

definition read_exact_at :: "bytes \<Rightarrow> nat \<Rightarrow> nat \<Rightarrow> bytes res" where
  "read_exact_at dat len offset =
    (let end = offset + len in
     if 2 ^ 64 \<le> end then Err (Io ''read offset overflow'')
     else if length dat < end then Err (Io ''read past end of file'')
     else slice dat offset end)"

definition write_all_at :: "bytes \<Rightarrow> bytes \<Rightarrow> nat \<Rightarrow> bytes res" where
  "write_all_at dat buf offset =
    (let end = offset + length buf in
     if 2 ^ 64 \<le> end then Err (Io ''write offset overflow'')
     else put_slice (if length dat < end then resize dat end else dat) offset buf)"

definition file_truncate :: "bytes \<Rightarrow> nat \<Rightarrow> bytes" where
  "file_truncate dat n = resize dat n"

definition file_size :: "bytes \<Rightarrow> nat" where
  "file_size dat = length dat"

section \<open>The contract of a file\<close>

text \<open>What a write leaves in the file: the old bytes, zero-padded, with the region replaced.\<close>

definition write_at :: "bytes \<Rightarrow> nat \<Rightarrow> bytes \<Rightarrow> bytes" where
  "write_at dat offset buf = overwrite (resize dat (max (length dat) (offset + length buf))) offset buf"

lemma length_resize [simp]: "length (resize dat n) = n"
  by (simp add: resize_def)

lemma nth_resize: "i < n \<Longrightarrow> resize dat n ! i = (if i < length dat then dat ! i else 0)"
  by (auto simp: resize_def nth_append)

lemma resize_same [simp]: "resize dat (length dat) = dat"
  by (simp add: resize_def)

lemma resize_take: "n \<le> length dat \<Longrightarrow> resize dat n = take n dat"
  by (simp add: resize_def)

lemma length_write_at [simp]: "length (write_at dat off buf) = max (length dat) (off + length buf)"
  by (simp add: write_at_def)

lemma nth_write_at:
  "i < max (length dat) (off + length buf) \<Longrightarrow>
   write_at dat off buf ! i =
     (if off \<le> i \<and> i < off + length buf then buf ! (i - off) else if i < length dat then dat ! i else 0)"
  by (auto simp: write_at_def nth_overwrite nth_resize)

lemma slice_write_at_other:
  assumes "i + n \<le> length dat" and "i + n \<le> off \<or> off + length buf \<le> i"
  shows "take n (drop i (write_at dat off buf)) = take n (drop i dat)"
  by (rule nth_equalityI) (use assms in \<open>auto simp: nth_write_at\<close>)

locale file_ops =
  fixes contents :: "'f \<Rightarrow> bytes"
    and fread :: "'f \<Rightarrow> nat \<Rightarrow> nat \<Rightarrow> bytes res"
    and fwrite :: "'f \<Rightarrow> bytes \<Rightarrow> nat \<Rightarrow> 'f res"
    and ftrunc :: "'f \<Rightarrow> nat \<Rightarrow> 'f"
  assumes read_ok: "off + len \<le> length (contents f) \<Longrightarrow> length (contents f) < 2 ^ 64 \<Longrightarrow>
      fread f len off = Ok (take len (drop off (contents f)))"
    and read_past: "length (contents f) < off + len \<Longrightarrow> \<exists>m. fread f len off = Err (Io m)"
    and write_ok: "off + length buf < 2 ^ 64 \<Longrightarrow>
      \<exists>f'. fwrite f buf off = Ok f' \<and> contents f' = write_at (contents f) off buf"
    and trunc_contents: "contents (ftrunc f n) = resize (contents f) n"
begin

lemma read_after_write:
  assumes "fwrite f buf off = Ok f'" and "off + length buf < 2 ^ 64" and "length (contents f) < 2 ^ 64"
  shows "fread f' (length buf) off = Ok buf"
proof -
  have "contents f' = write_at (contents f) off buf" using write_ok [OF assms(2), of f] assms(1) by auto
  then show ?thesis using assms(2,3) read_ok [of off "length buf" f'] by (simp add: write_at_def)
qed

lemma read_after_write_elsewhere:
  assumes "fwrite f buf off = Ok f'" and "off + length buf < 2 ^ 64" and "length (contents f) < 2 ^ 64"
    and "o2 + len \<le> length (contents f)" and "o2 + len \<le> off \<or> off + length buf \<le> o2"
  shows "fread f' len o2 = fread f len o2"
proof -
  have c: "contents f' = write_at (contents f) off buf" using write_ok [OF assms(2), of f] assms(1) by auto
  have "take len (drop o2 (write_at (contents f) off buf)) = take len (drop o2 (contents f))"
    using assms(4,5) by (rule slice_write_at_other)
  then show ?thesis using assms(2-4) c read_ok [of o2 len f'] read_ok [of o2 len f] by simp
qed

end

lemma read_exact_at_Ok [simp]:
  "off + len \<le> length dat \<Longrightarrow> length dat < 2 ^ 64 \<Longrightarrow> read_exact_at dat len off = Ok (take len (drop off dat))"
  by (simp add: read_exact_at_def Let_def)

lemma read_exact_at_no_panic [no_panic]: "read_exact_at dat len off \<noteq> Panic"
  by (simp add: read_exact_at_def Let_def)

lemma read_exact_at_OkD:
  "read_exact_at dat len off = Ok b \<Longrightarrow> off + len \<le> length dat \<and> b = take len (drop off dat)"
  by (auto simp: read_exact_at_def Let_def split: if_splits)

lemma write_all_at_Ok [simp]:
  "off + length buf < 2 ^ 64 \<Longrightarrow> write_all_at dat buf off = Ok (write_at dat off buf)"
  by (auto simp: write_all_at_def write_at_def Let_def max_def)

lemma write_all_at_no_panic [no_panic]: "write_all_at dat buf off \<noteq> Panic"
  by (simp add: write_all_at_def Let_def)

lemma write_all_at_OkD: "write_all_at dat buf off = Ok d \<Longrightarrow> d = write_at dat off buf"
  by (cases "off + length buf < 2 ^ 64") (simp, simp add: write_all_at_def Let_def)

interpretation memory_file: file_ops "\<lambda>dat. dat" read_exact_at write_all_at file_truncate
proof unfold_locales
  show "\<exists>m. read_exact_at f len off = Err (Io m)" if "length f < off + len" for f off len
    using that by (simp add: read_exact_at_def Let_def)
qed (simp_all add: file_truncate_def)

section \<open>Pages of a file\<close>

definition file_page :: "nat \<Rightarrow> bytes \<Rightarrow> nat \<Rightarrow> bytes" where
  "file_page ps dat n = take ps (drop ((n - 1) * ps) dat)"

lemma page_offsets_disjoint:
  "m \<noteq> n \<Longrightarrow> 0 < m \<Longrightarrow> 0 < n \<Longrightarrow>
   (n - 1) * ps + ps \<le> (m - 1) * ps \<or> (m - 1) * ps + ps \<le> (n - 1) * (ps :: nat)"
proof -
  assume mn: "m \<noteq> n" "0 < m" "0 < n"
  consider "n \<le> m - 1" | "m \<le> n - 1" using mn by linarith
  then show ?thesis
  proof cases
    case 1
    have "(n - 1) * ps + ps = n * ps" using mn(3) by (cases n) auto
    then show ?thesis using 1 by (metis mult_le_mono1)
  next
    case 2
    have "(m - 1) * ps + ps = m * ps" using mn(2) by (cases m) auto
    then show ?thesis using 2 by (metis mult_le_mono1)
  qed
qed

lemma page_end: "0 < n \<Longrightarrow> (n - 1) * ps + ps = n * (ps :: nat)"
  by (cases n) auto

lemma file_page_write_same:
  "length buf = ps \<Longrightarrow> file_page ps (write_at dat ((n - 1) * ps) buf) n = buf"
  by (simp add: file_page_def write_at_def)

lemma file_page_write_other:
  assumes "length buf = ps" and "0 < m" and "0 < n" and "m \<noteq> n" and "n * ps \<le> length dat"
  shows "file_page ps (write_at dat ((m - 1) * ps) buf) n = file_page ps dat n"
  unfolding file_page_def
proof (rule slice_write_at_other)
  show "(n - 1) * ps + ps \<le> length dat" using page_end [OF assms(3)] assms(5) by simp
  show "(n - 1) * ps + ps \<le> (m - 1) * ps \<or> (m - 1) * ps + length buf \<le> (n - 1) * ps"
    using page_offsets_disjoint [OF assms(4,2,3), of ps] assms(1) by blast
qed

lemma file_page_resize: "0 < n \<Longrightarrow> n * ps \<le> sz \<Longrightarrow> n * ps \<le> length dat \<Longrightarrow>
  file_page ps (resize dat sz) n = file_page ps dat n"
  unfolding file_page_def
  by (rule nth_equalityI) (use page_end [of n ps] in \<open>auto simp: nth_resize\<close>)

text \<open>Two files of whole pages are equal when their pages are.\<close>

lemma file_eq_by_pages:
  assumes "length a = k * ps" and "length b = k * ps" and "0 < ps"
    and "\<And>n. 0 < n \<Longrightarrow> n \<le> k \<Longrightarrow> file_page ps a n = file_page ps b n"
  shows "a = b"
proof (rule nth_equalityI)
  show "length a = length b" using assms by simp
next
  fix i
  assume i: "i < length a"
  define n where "n = i div ps + 1"
  have "i div ps < k" using i assms(1) by (simp add: less_mult_imp_div_less)
  then have "file_page ps a n = file_page ps b n" using assms(4) by (simp add: n_def)
  moreover have "(n - 1) * ps + i mod ps = i" by (simp add: n_def)
  moreover have "i mod ps < ps" using assms(3) by simp
  ultimately show "a ! i = b ! i"
    using i assms(1,2) by (simp add: file_page_def) (metis add_leD1 length_drop nth_drop nth_take order_less_imp_le)
qed

section \<open>Reads after writes\<close>

lemma file_read_after_write:
  assumes "write_all_at dat buf off = Ok dat'" and "off + length buf < 2 ^ 64" and "length dat < 2 ^ 64"
  shows "read_exact_at dat' (length buf) off = Ok buf \<and>
    (p + n \<le> length dat \<and> (p + n \<le> off \<or> off + length buf \<le> p) \<longrightarrow> read_exact_at dat' n p = read_exact_at dat n p) \<and>
    (length dat \<le> i \<and> i < off \<longrightarrow> dat' ! i = 0)"
  using memory_file.read_after_write [OF assms] memory_file.read_after_write_elsewhere [OF assms]
    write_all_at_OkD [OF assms(1)] by (auto simp: nth_write_at)

end
