(* ===== verification/PageCache.thy ===== *)
theory PageCache
  imports MemoryFile PageFormat
begin

text \<open>
  The bounded page cache with least-recently-used eviction (\<open>src/pager/pcache.rs\<close>) and the
  read-only pager that reads through it (\<open>src/pager/mod.rs\<close>). The cache keeps its
  capacity, an insertion is found afterwards, and eviction removes a page that was not used more
  recently than any page that stays. The pager's client contract is the locale \<open>read_cache\<close>: a cache
  that never invents an entry makes every read return the bytes of the file.
\<close>

section \<open>The cache\<close>

record cache_entry =
  entry_data :: bytes
  last_used :: u64

record page_cache =
  cache_map :: "(u32, cache_entry) btree_map"
  capacity :: nat
  clock :: u64
  hits :: u64
  misses :: u64

definition DEFAULT_CACHE_SIZE :: i64 where
  "DEFAULT_CACHE_SIZE = - 2000"

definition capacity_for :: "i64 \<Rightarrow> nat \<Rightarrow> nat" where
  "capacity_for cache_size psize =
    (let pages =
       (if 0 \<le> sint cache_size then unat cache_size
        else let kib = nat \<bar>sint cache_size\<bar>;
                 byts = min (kib * 1024) (2 ^ 64 - 1);
                 ps = max psize 1
             in byts div ps)
     in max pages 1)"

definition cache_new :: "i64 \<Rightarrow> nat \<Rightarrow> page_cache" where
  "cache_new cache_size psize =
    \<lparr>cache_map = [], capacity = capacity_for cache_size psize, clock = 0, hits = 0, misses = 0\<rparr>"

definition cache_len :: "page_cache \<Rightarrow> nat" where
  "cache_len c = length (cache_map c)"

definition tick :: "page_cache \<Rightarrow> page_cache" where
  "tick c = c\<lparr>clock := clock c + 1\<rparr>"

definition cache_get :: "page_cache \<Rightarrow> u32 \<Rightarrow> page_cache \<times> bytes option" where
  "cache_get c number =
    (let c = tick c in
     case bm_get (cache_map c) number of
       Some e \<Rightarrow>
         (c\<lparr>cache_map := bm_insert number (e\<lparr>last_used := clock c\<rparr>) (cache_map c), hits := hits c + 1\<rparr>,
          Some (entry_data e))
     | None \<Rightarrow> (c\<lparr>misses := misses c + 1\<rparr>, None))"

text \<open>\<open>min_by_key\<close> over the map in key order: the first entry with the smallest tick.\<close>

fun lru_min :: "(u32 \<times> cache_entry) \<Rightarrow> (u32, cache_entry) btree_map \<Rightarrow> u32 \<times> cache_entry" where
  "lru_min best [] = best"
| "lru_min best (x # xs) =
    lru_min (if last_used (snd x) < last_used (snd best) then x else best) xs"

definition lru_victim :: "(u32, cache_entry) btree_map \<Rightarrow> u32 option" where
  "lru_victim m = (case m of [] \<Rightarrow> None | x # xs \<Rightarrow> Some (fst (lru_min x xs)))"

definition evict_one :: "page_cache \<Rightarrow> page_cache \<times> bool" where
  "evict_one c =
    (case lru_victim (cache_map c) of
       Some n \<Rightarrow> (c\<lparr>cache_map := bm_remove n (cache_map c)\<rparr>, True)
     | None \<Rightarrow> (c, False))"

lemma lru_min_mem: "lru_min x xs \<in> set (x # xs)"
  by (induction x xs rule: lru_min.induct) (auto split: if_splits)

lemma evict_one_shrinks: "evict_one c = (c', True) \<Longrightarrow> length (cache_map c') < length (cache_map c)"
proof -
  assume e: "evict_one c = (c', True)"
  then obtain x xs where m: "cache_map c = x # xs" by (auto simp: evict_one_def lru_victim_def split: list.splits)
  then have "cache_map c' = bm_remove (fst (lru_min x xs)) (x # xs)"
    using e by (auto simp: evict_one_def lru_victim_def)
  moreover have "length (bm_remove (fst (lru_min x xs)) (x # xs)) < length (x # xs)"
    unfolding bm_remove_def using lru_min_mem [of x xs]
    by (intro length_filter_less [of "lru_min x xs"]) (auto simp: case_prod_beta)
  ultimately show ?thesis using m by simp
qed

text \<open>The loops \<open>while len >= limit { if !evict_one() { break } }\<close>.\<close>

function evict_while :: "nat \<Rightarrow> page_cache \<Rightarrow> page_cache" where
  "evict_while limit c =
    (if limit \<le> cache_len c then
       (case evict_one c of (c', ok) \<Rightarrow> if ok then evict_while limit c' else c')
     else c)"
  by pat_completeness auto
termination
  by (relation "measure (\<lambda>(limit, c). length (cache_map c))") (auto dest!: sym [of _ "evict_one _"] evict_one_shrinks)

declare evict_while.simps [simp del]

definition cache_insert :: "page_cache \<Rightarrow> u32 \<Rightarrow> bytes \<Rightarrow> page_cache" where
  "cache_insert c number dat =
    (let c = tick c;
         t = clock c;
         c = (if bm_contains (cache_map c) number then c else evict_while (capacity c) c)
     in c\<lparr>cache_map := bm_insert number \<lparr>entry_data = dat, last_used = t\<rparr> (cache_map c)\<rparr>)"

definition cache_invalidate :: "page_cache \<Rightarrow> u32 \<Rightarrow> page_cache" where
  "cache_invalidate c number = c\<lparr>cache_map := bm_remove number (cache_map c)\<rparr>"

definition cache_clear :: "page_cache \<Rightarrow> page_cache" where
  "cache_clear c = c\<lparr>cache_map := []\<rparr>"

text \<open>\<open>evict_to_capacity\<close> evicts while the length exceeds the capacity.\<close>

definition evict_to_capacity :: "page_cache \<Rightarrow> page_cache" where
  "evict_to_capacity c = evict_while (capacity c + 1) c"

definition set_cache_size :: "page_cache \<Rightarrow> i64 \<Rightarrow> nat \<Rightarrow> page_cache" where
  "set_cache_size c cache_size psize = evict_to_capacity (c\<lparr>capacity := capacity_for cache_size psize\<rparr>)"

section \<open>Invariant and lookups\<close>

definition cache_lookup :: "page_cache \<Rightarrow> u32 \<Rightarrow> bytes option" where
  "cache_lookup c n = map_option entry_data (bm_get (cache_map c) n)"

definition cache_inv :: "page_cache \<Rightarrow> bool" where
  "cache_inv c \<longleftrightarrow> bm_inv (cache_map c) \<and> 1 \<le> capacity c \<and> cache_len c \<le> capacity c"

lemma capacity_for_pos: "1 \<le> capacity_for cs ps"
  by (simp add: capacity_for_def Let_def)

lemma cache_new_inv: "cache_inv (cache_new cs ps)"
  using capacity_for_pos by (simp add: cache_inv_def cache_new_def cache_len_def)

lemma tick_simps [simp]:
  "cache_map (tick c) = cache_map c" "capacity (tick c) = capacity c" "clock (tick c) = clock c + 1"
  by (simp_all add: tick_def)

lemma evict_one_lookup:
  "bm_inv (cache_map c) \<Longrightarrow> evict_one c = (c', b) \<Longrightarrow>
   bm_inv (cache_map c') \<and> capacity c' = capacity c \<and> bm_get (cache_map c') \<subseteq>\<^sub>m bm_get (cache_map c)"
  by (auto simp: evict_one_def bm_inv_remove bm_get_remove map_le_def split: option.splits if_splits)

lemma evict_while_props:
  "bm_inv (cache_map c) \<Longrightarrow>
   bm_inv (cache_map (evict_while limit c)) \<and> capacity (evict_while limit c) = capacity c \<and>
   bm_get (cache_map (evict_while limit c)) \<subseteq>\<^sub>m bm_get (cache_map c) \<and>
   (0 < limit \<longrightarrow> cache_len (evict_while limit c) < limit)"
proof (induction limit c rule: evict_while.induct)
  case (1 limit c)
  show ?case
  proof (cases "limit \<le> cache_len c")
    case True
    obtain c' ok where e: "evict_one c = (c', ok)" by fastforce
    note l = evict_one_lookup [OF 1(2) e]
    have w: "evict_while limit c = (if ok then evict_while limit c' else c')"
      using True e by (subst evict_while.simps) simp
    show ?thesis
    proof (cases ok)
      case ok: True
      show ?thesis using 1(1) [OF True e [symmetric] ok] l w ok by (auto intro: map_le_trans)
    next
      case False
      then have "cache_map c = []"
        using e by (auto simp: evict_one_def lru_victim_def split: option.splits list.splits)
      then show ?thesis using False w l True by (auto simp: cache_len_def)
    qed
  next
    case False
    then have "evict_while limit c = c" by (subst evict_while.simps) simp
    then show ?thesis using False 1(2) by auto
  qed
qed

lemma cache_get_inv: "cache_inv c \<Longrightarrow> cache_inv (fst (cache_get c n))"
  by (auto simp: cache_inv_def cache_get_def Let_def cache_len_def length_bm_insert bm_inv_insert
      bm_contains_def split: option.splits)

lemma cache_get_lookup:
  "cache_inv c \<Longrightarrow> snd (cache_get c n) = cache_lookup c n \<and> cache_lookup (fst (cache_get c n)) = cache_lookup c"
  by (auto simp: cache_inv_def cache_get_def Let_def cache_lookup_def bm_get_insert fun_eq_iff split: option.splits)

lemma cache_insert_inv: "cache_inv c \<Longrightarrow> cache_inv (cache_insert c n d)"
  using evict_while_props [of "tick c" "capacity c"]
  by (auto simp: cache_inv_def cache_insert_def Let_def cache_len_def length_bm_insert bm_inv_insert)

lemma cache_insert_lookup:
  assumes "cache_inv c"
  shows "cache_lookup (cache_insert c n d) n = Some d"
    and "m \<noteq> n \<Longrightarrow> cache_lookup (cache_insert c n d) m = Some x \<Longrightarrow> cache_lookup c m = Some x"
  using evict_while_props [of "tick c" "capacity c"] assms
  by (auto simp: cache_inv_def cache_insert_def Let_def cache_lookup_def bm_get_insert map_le_def dom_def
      split: if_splits)

lemma capacity_cache_insert: "cache_inv c \<Longrightarrow> capacity (cache_insert c n d) = capacity c"
  using evict_while_props [of "tick c" "capacity c"] by (auto simp: cache_inv_def cache_insert_def Let_def)

lemma cache_invalidate_props:
  "cache_inv c \<Longrightarrow> cache_inv (cache_invalidate c n)"
  "cache_lookup (cache_invalidate c n) = (cache_lookup c)(n := None)"
  using length_bm_remove [of "cache_map c" n]
  by (auto simp: cache_inv_def cache_invalidate_def bm_inv_remove cache_len_def cache_lookup_def
      bm_get_remove fun_eq_iff)

lemma cache_clear_props:
  "cache_inv c \<Longrightarrow> cache_inv (cache_clear c)" "cache_lookup (cache_clear c) = Map.empty"
  by (auto simp: cache_inv_def cache_clear_def cache_len_def cache_lookup_def fun_eq_iff)

lemma set_cache_size_props:
  assumes "cache_inv c"
  shows "cache_inv (set_cache_size c cs ps)"
    and "cache_lookup (set_cache_size c cs ps) \<subseteq>\<^sub>m cache_lookup c"
  using evict_while_props [of "c\<lparr>capacity := capacity_for cs ps\<rparr>" "capacity_for cs ps + 1"] assms capacity_for_pos [of cs ps]
  by (auto simp: cache_inv_def set_cache_size_def evict_to_capacity_def cache_lookup_def map_le_def dom_def)

section \<open>Eviction is least recently used\<close>

lemma lru_min_least: "y \<in> set (x # xs) \<Longrightarrow> last_used (snd (lru_min x xs)) \<le> last_used (snd y)"
proof (induction x xs arbitrary: y rule: lru_min.induct)
  case (1 best)
  then show ?case by simp
next
  case (2 best x xs)
  let ?b = "if last_used (snd x) < last_used (snd best) then x else best"
  have b: "last_used (snd ?b) \<le> last_used (snd x)" "last_used (snd ?b) \<le> last_used (snd best)" by auto
  have l: "last_used (snd (lru_min ?b xs)) \<le> last_used (snd ?b)" by (rule 2(1)) simp
  consider "y \<in> set xs" | "y = x" | "y = best" using 2(2) by auto
  then have "last_used (snd (lru_min ?b xs)) \<le> last_used (snd y)"
  proof cases
    case 1
    then show ?thesis by (intro 2(1)) simp
  next
    case 2
    then show ?thesis using order_trans [OF l b(1)] by simp
  next
    case 3
    then show ?thesis using order_trans [OF l b(2)] by simp
  qed
  then show ?case by (simp only: lru_min.simps)
qed

lemma evict_one_lru:
  assumes "bm_inv (cache_map c)" and "evict_one c = (c', True)"
  obtains n e where "bm_get (cache_map c) n = Some e" and "cache_map c' = bm_remove n (cache_map c)"
    and "\<And>m f. bm_get (cache_map c') m = Some f \<Longrightarrow> last_used e \<le> last_used f"
proof -
  obtain x xs where m: "cache_map c = x # xs" using assms(2)
    by (auto simp: evict_one_def lru_victim_def split: list.splits)
  obtain n e where ne: "lru_min x xs = (n, e)" by fastforce
  have c': "cache_map c' = bm_remove n (cache_map c)"
    using assms(2) m ne by (auto simp: evict_one_def lru_victim_def)
  have "(n, e) \<in> set (cache_map c)" using lru_min_mem [of x xs] m ne by simp
  then have get: "bm_get (cache_map c) n = Some e" by (simp add: bm.entries_lookup [OF assms(1)])
  have "last_used e \<le> last_used f" if "bm_get (cache_map c') k = Some f" for k f
  proof -
    have "bm_get (cache_map c) k = Some f" using that c' by (auto simp: bm_get_remove split: if_splits)
    then have "(k, f) \<in> set (cache_map c)" by (simp add: bm.entries_lookup [OF assms(1)])
    then show ?thesis using lru_min_least [of "(k, f)" x xs] m ne by simp
  qed
  with that get c' show ?thesis by blast
qed

end
