(* ===== verification/Pager.thy ===== *)
theory Pager
  imports PageCache
begin

text \<open>
  The read-only pager (\<open>src/pager/mod.rs\<close>): it turns a file into numbered pages served through the
  bounded cache. Whatever reads and cache resizings came before, a page read returns the bytes of the
  file at that page, so eviction is invisible.
\<close>

section \<open>The contract of a read cache\<close>

locale read_cache =
  fixes get :: "'c \<Rightarrow> 'k \<Rightarrow> 'c \<times> 'v option"
    and ins :: "'c \<Rightarrow> 'k \<Rightarrow> 'v \<Rightarrow> 'c"
    and lookup :: "'c \<Rightarrow> 'k \<Rightarrow> 'v option"
    and inv :: "'c \<Rightarrow> bool"
  assumes get_inv: "inv c \<Longrightarrow> inv (fst (get c k))"
    and get_value: "inv c \<Longrightarrow> snd (get c k) = lookup c k"
    and get_keeps: "inv c \<Longrightarrow> lookup (fst (get c k)) = lookup c"
    and ins_inv: "inv c \<Longrightarrow> inv (ins c k v)"
    and ins_lookup: "inv c \<Longrightarrow> lookup (ins c k v) k = Some v"
    and ins_keeps: "inv c \<Longrightarrow> j \<noteq> k \<Longrightarrow> lookup (ins c k v) j = Some x \<Longrightarrow> lookup c j = Some x"
begin

text \<open>A cache that holds nothing but values of the store behind it.\<close>

definition coherent :: "('k \<Rightarrow> 'v) \<Rightarrow> 'c \<Rightarrow> bool" where
  "coherent store c \<longleftrightarrow> inv c \<and> (\<forall>k v. lookup c k = Some v \<longrightarrow> v = store k)"

lemma coherent_get: "coherent store c \<Longrightarrow> coherent store (fst (get c k))"
  by (simp add: coherent_def get_inv get_keeps)

lemma coherent_hit: "coherent store c \<Longrightarrow> get c k = (c', Some v) \<Longrightarrow> v = store k"
  using get_value [of c k] by (auto simp: coherent_def)

lemma coherent_ins:
  assumes "coherent store c" and "v = store k"
  shows "coherent store (ins c k v)"
  unfolding coherent_def
proof (intro conjI allI impI)
  show "inv (ins c k v)" using assms(1) by (simp add: coherent_def ins_inv)
  show "x = store j" if "lookup (ins c k v) j = Some x" for j x
    using assms that ins_lookup [of c k v] ins_keeps [of c j k v x] by (cases "j = k") (auto simp: coherent_def)
qed

end

interpretation pcache: read_cache cache_get cache_insert cache_lookup cache_inv
proof unfold_locales
  show "cache_lookup c j = Some x"
    if "cache_inv c" "j \<noteq> k" "cache_lookup (cache_insert c k v) j = Some x" for c j k v x
    using that by (rule cache_insert_lookup(2))
qed (simp_all add: cache_get_inv cache_get_lookup cache_insert_inv cache_insert_lookup(1))

section \<open>The pager\<close>

record pager =
  p_file :: bytes
  p_header :: database_header
  p_page_size :: nat
  p_page_count :: u32
  p_cache :: page_cache

definition pager_open :: "bytes \<Rightarrow> pager res" where
  "pager_open file =
    (if file_size file < HEADER_LEN then
       Err (Corrupt (''file is '' @ show_nat (file_size file) @ '' bytes, too small to be a database''))
     else bindR (read_exact_at file HEADER_LEN 0) (\<lambda>head.
     bindR (header_parse head) (\<lambda>header.
     let psize = unat (page_size header) in
     if file_size file mod psize \<noteq> 0 then
       Err (Corrupt (''file size '' @ show_nat (file_size file) @ '' is not a multiple of page size '' @ show_nat psize))
     else Ok \<lparr>p_file = file, p_header = header, p_page_size = psize,
              p_page_count = of_nat (file_size file div psize),
              p_cache = cache_new DEFAULT_CACHE_SIZE psize\<rparr>)))"

definition pager_set_cache_size :: "pager \<Rightarrow> i64 \<Rightarrow> pager" where
  "pager_set_cache_size p cs = p\<lparr>p_cache := set_cache_size (p_cache p) cs (p_page_size p)\<rparr>"

definition resident_pages :: "pager \<Rightarrow> nat" where
  "resident_pages p = cache_len (p_cache p)"

definition pager_usable_size :: "pager \<Rightarrow> nat res" where
  "pager_usable_size p = usable_size (p_header p)"

text \<open>The cache is behind a \<open>RefCell\<close>: a read returns the page and the pager with its new cache.\<close>

definition pager_page :: "pager \<Rightarrow> u32 \<Rightarrow> pager \<times> page res" where
  "pager_page p number =
    (if number = 0 \<or> p_page_count p < number then
       (p, Err (Corrupt (''page '' @ show_nat (unat number) @ '' out of range 1..='' @
          show_nat (unat (p_page_count p)))))
     else case cache_get (p_cache p) number of
       (c, Some dat) \<Rightarrow> (p\<lparr>p_cache := c\<rparr>, Ok (page_from_bytes number dat))
     | (c, None) \<Rightarrow>
         (case read_exact_at (p_file p) (p_page_size p) ((unat number - 1) * p_page_size p) of
            Ok dat \<Rightarrow> (p\<lparr>p_cache := cache_insert c number dat\<rparr>, Ok (page_from_bytes number dat))
          | Err e \<Rightarrow> (p\<lparr>p_cache := c\<rparr>, Err e)
          | Panic \<Rightarrow> (p\<lparr>p_cache := c\<rparr>, Panic)))"

section \<open>Reads return the file\<close>

definition page_store :: "pager \<Rightarrow> u32 \<Rightarrow> bytes" where
  "page_store p n = file_page (p_page_size p) (p_file p) (unat n)"

definition pager_inv :: "pager \<Rightarrow> bool" where
  "pager_inv p \<longleftrightarrow>
    length (p_file p) < 2 ^ 64 \<and> unat (p_page_count p) * p_page_size p \<le> length (p_file p) \<and>
    pcache.coherent (page_store p) (p_cache p)"

lemma pager_open_OkD:
  assumes "pager_open file = Ok p" and "length file < 2 ^ 64"
  shows "pager_inv p" and "p_file p = file" and "header_wf (p_header p)"
    and "header_parse (take HEADER_LEN file) = Ok (p_header p)"
    and "p_page_size p = unat (page_size (p_header p))"
    and "p_page_count p = of_nat (length file div p_page_size p)"
    and "length file mod p_page_size p = 0"
proof -
  have "100 \<le> length file" using assms(1) by (auto simp: pager_open_def file_size_def HEADER_LEN_def split: if_splits)
  then obtain h where h: "header_parse (take HEADER_LEN file) = Ok h"
      "length file mod unat (page_size h) = 0"
    and p: "p = \<lparr>p_file = file, p_header = h, p_page_size = unat (page_size h),
        p_page_count = of_nat (length file div unat (page_size h)),
        p_cache = cache_new DEFAULT_CACHE_SIZE (unat (page_size h))\<rparr>"
    using assms by (auto simp: pager_open_def file_size_def HEADER_LEN_def bindR_Ok_iff Let_def split: if_splits)
  show "header_wf (p_header p)" using header_parse_OkD(2) [OF h(1)] p by simp
  show "p_file p = file" "header_parse (take HEADER_LEN file) = Ok (p_header p)"
    "p_page_size p = unat (page_size (p_header p))"
    "p_page_count p = of_nat (length file div p_page_size p)" "length file mod p_page_size p = 0"
    using h p by simp_all
  have "unat (of_nat n :: u32) \<le> n" for n by (simp add: unat_of_nat)
  then have "unat (p_page_count p) * p_page_size p \<le> length file"
    unfolding p by simp (meson div_times_less_eq_dividend mult_le_mono1 order_trans)
  moreover have "pcache.coherent (page_store p) (p_cache p)"
    using cache_new_inv [of DEFAULT_CACHE_SIZE "unat (page_size h)"]
    by (simp add: pcache.coherent_def p cache_lookup_def) (simp add: cache_new_def)
  ultimately show "pager_inv p" using assms(2) p by (simp add: pager_inv_def)
qed

lemma pager_page_in_range:
  assumes "pager_inv p" and "0 < unat n" and "unat n \<le> unat (p_page_count p)"
  shows "\<exists>c. pager_page p n = (p\<lparr>p_cache := c\<rparr>, Ok (page_from_bytes n (page_store p n))) \<and>
    pcache.coherent (page_store p) c"
proof -
  have rng: "\<not> (n = 0 \<or> p_page_count p < n)" using assms(2,3) by (auto simp: word_less_nat_alt unsigned_eq_0_iff)
  have coh: "pcache.coherent (page_store p) (p_cache p)" using assms(1) by (simp add: pager_inv_def)
  obtain c v where g: "cache_get (p_cache p) n = (c, v)" by fastforce
  have c: "pcache.coherent (page_store p) c" using pcache.coherent_get [OF coh, of n] g by simp
  show ?thesis
  proof (cases v)
    case (Some d)
    then have "d = page_store p n" using pcache.coherent_hit [OF coh, of n c d] g by simp
    then show ?thesis using rng g Some c by (intro exI [of _ c]) (simp add: pager_page_def)
  next
    case None
    have "(unat n - 1) * p_page_size p + p_page_size p = unat n * p_page_size p"
      using assms(2) by (rule page_end)
    also have "\<dots> \<le> length (p_file p)"
      using assms by (auto simp: pager_inv_def intro: order_trans mult_le_mono1)
    finally have "read_exact_at (p_file p) (p_page_size p) ((unat n - 1) * p_page_size p) =
        Ok (page_store p n)"
      using assms(1) by (simp add: pager_inv_def page_store_def file_page_def)
    moreover have "pcache.coherent (page_store p) (cache_insert c n (page_store p n))"
      using c by (rule pcache.coherent_ins) simp
    ultimately show ?thesis using rng g None
      by (intro exI [of _ "cache_insert c n (page_store p n)"]) (simp add: pager_page_def)
  qed
qed

lemma pager_page_out_of_range:
  "n = 0 \<or> p_page_count p < n \<Longrightarrow> \<exists>m. pager_page p n = (p, Err (Corrupt m))"
  by (simp add: pager_page_def)

section \<open>Histories\<close>

datatype pager_op = ReadPage u32 | SetCacheSize i64

fun pager_step :: "pager \<Rightarrow> pager_op \<Rightarrow> pager" where
  "pager_step p (ReadPage n) = fst (pager_page p n)"
| "pager_step p (SetCacheSize cs) = pager_set_cache_size p cs"

lemma coherent_set_cache_size:
  "pcache.coherent store c \<Longrightarrow> pcache.coherent store (set_cache_size c cs ps)"
  using set_cache_size_props [of c cs ps] by (fastforce simp: pcache.coherent_def map_le_def dom_def)

text \<open>Two pagers over the same database, whatever their caches hold.\<close>

definition same_db :: "pager \<Rightarrow> pager \<Rightarrow> bool" where
  "same_db p q \<longleftrightarrow> p_file q = p_file p \<and> p_header q = p_header p \<and>
    p_page_size q = p_page_size p \<and> p_page_count q = p_page_count p"

lemma same_db_page_store: "same_db p q \<Longrightarrow> page_store q = page_store p"
  by (simp add: same_db_def page_store_def fun_eq_iff)

lemma pager_inv_update_cache:
  "pager_inv p \<Longrightarrow> pcache.coherent (page_store p) c \<Longrightarrow> pager_inv (p\<lparr>p_cache := c\<rparr>)"
  using same_db_page_store [of p "p\<lparr>p_cache := c\<rparr>"] by (simp add: pager_inv_def same_db_def)

lemma pager_step_inv:
  assumes "pager_inv p"
  shows "pager_inv (pager_step p op) \<and> same_db p (pager_step p op)"
proof (cases op)
  case (ReadPage n)
  show ?thesis
  proof (cases "n = 0 \<or> p_page_count p < n")
    case True
    then show ?thesis using assms ReadPage by (auto simp: pager_page_def same_db_def)
  next
    case False
    then have "0 < unat n" "unat n \<le> unat (p_page_count p)"
      by (auto simp: word_less_nat_alt unat_gt_0)
    with pager_page_in_range [OF assms this] assms ReadPage show ?thesis
      by (auto simp: same_db_def pager_inv_update_cache)
  qed
next
  case (SetCacheSize cs)
  have "pcache.coherent (page_store p) (set_cache_size (p_cache p) cs (p_page_size p))"
    using assms coherent_set_cache_size by (simp add: pager_inv_def)
  then show ?thesis using assms SetCacheSize
    by (simp add: pager_set_cache_size_def pager_inv_update_cache same_db_def)
qed

lemma pager_history:
  "pager_inv p \<Longrightarrow> pager_inv (foldl pager_step p ops) \<and> same_db p (foldl pager_step p ops)"
proof (induction ops arbitrary: p)
  case Nil
  then show ?case by (simp add: same_db_def)
next
  case (Cons op ops)
  then show ?case using pager_step_inv [OF Cons.prems, of op] Cons.IH [of "pager_step p op"]
    by (simp add: same_db_def)
qed

end
