(* ===== verification/Wal.thy ===== *)
theory Wal
  imports MemoryFile PageFormat
begin

text \<open>
  The write-ahead log on disk (\<open>src/pager/wal.rs\<close> and the WAL half of \<open>src/pager/write.rs\<close>): the
  running checksum, the reader that overlays the committed frames of a log on the main file, and the
  bytes a WAL commit appends. The reader is shown to see exactly the committed transactions of a
  log, whatever torn tail follows them, so that a WAL commit cut anywhere is invisible and a complete
  one is visible.
\<close>

section \<open>The checksum\<close>

definition wal_word :: "bool \<Rightarrow> bytes \<Rightarrow> u32" where
  "wal_word big_endian b = (if big_endian then from_be32 b else from_be32 (rev b))"

fun wal_checksum :: "bool \<Rightarrow> u32 \<Rightarrow> u32 \<Rightarrow> bytes \<Rightarrow> u32 \<times> u32" where
  "wal_checksum be s0 s1 (a # b # c # d # e # f # g # h # rest) =
    (let s0' = s0 + wal_word be [a, b, c, d] + s1;
         s1' = s1 + wal_word be [e, f, g, h] + s0'
     in wal_checksum be s0' s1' rest)"
| "wal_checksum be s0 s1 _ = (s0, s1)"

section \<open>Reading the log\<close>

definition WAL_HEADER_LEN :: nat where
  "WAL_HEADER_LEN = 32"

definition FRAME_HEADER_LEN :: nat where
  "FRAME_HEADER_LEN = 24"

definition WAL_MAGIC_BE :: u32 where
  "WAL_MAGIC_BE = 0x377f0682"

record wal_reader =
  wr_main :: bytes
  wr_header :: database_header
  wr_page_size :: nat
  wr_db_size :: u32
  wr_frames :: "(u32, bytes) btree_map"

text \<open>
  The frame loop: a frame whose salts or checksum fail ends it; frames are pending until a commit
  frame (a non-zero database size) publishes them.
\<close>

function wal_scan ::
    "bool \<Rightarrow> bytes \<Rightarrow> nat \<Rightarrow> bytes \<Rightarrow> nat \<Rightarrow> u32 \<Rightarrow> u32 \<Rightarrow> (u32 \<times> bytes) list \<Rightarrow>
     (u32, bytes) btree_map \<Rightarrow> u32 \<Rightarrow> ((u32, bytes) btree_map \<times> u32) res" where
  "wal_scan be salt psize wal off s0 s1 pend frames csize =
    (if off + (FRAME_HEADER_LEN + psize) \<le> length wal then
       bindR (read_exact_at wal FRAME_HEADER_LEN off) (\<lambda>fhdr.
       bindR (read_exact_at wal psize (off + FRAME_HEADER_LEN)) (\<lambda>pg.
       if take 8 (drop 8 fhdr) \<noteq> salt then Ok (frames, csize)
       else
         let (a0, a1) = wal_checksum be s0 s1 (take 8 fhdr);
             (c0, c1) = wal_checksum be a0 a1 pg in
         bindR (be_u32 fhdr 16) (\<lambda>f0. bindR (be_u32 fhdr 20) (\<lambda>f1.
         if c0 \<noteq> f0 \<or> c1 \<noteq> f1 then Ok (frames, csize)
         else bindR (be_u32 fhdr 0) (\<lambda>page_no. bindR (be_u32 fhdr 4) (\<lambda>db_size.
           let pend' = pend @ [(page_no, pg)] in
           if db_size \<noteq> 0 then
             wal_scan be salt psize wal (off + (FRAME_HEADER_LEN + psize)) c0 c1 []
               (fold (\<lambda>(p, d). bm_insert p d) pend' frames) db_size
           else
             wal_scan be salt psize wal (off + (FRAME_HEADER_LEN + psize)) c0 c1 pend' frames csize))))))
     else Ok (frames, csize))"
  by pat_completeness auto
termination
  by (relation "measure (\<lambda>(be, salt, psize, wal, off, s0, s1, pend, frames, csize). length wal - off)")
     (auto simp: FRAME_HEADER_LEN_def)

declare wal_scan.simps [simp del]

definition wal_power_of_two :: "nat \<Rightarrow> bool" where
  "wal_power_of_two n \<longleftrightarrow> list_ex (\<lambda>k. n = 2 ^ k) [0..<64]"

text \<open>The log part of \<open>WalReader::open\<close>: frames, committed size and page size (0 without a log).\<close>

definition wal_load :: "bytes \<Rightarrow> ((u32, bytes) btree_map \<times> u32 \<times> nat) res" where
  "wal_load wal =
    (if length wal < WAL_HEADER_LEN then Ok ([], 0, 0)
     else bindR (read_exact_at wal WAL_HEADER_LEN 0) (\<lambda>hdr.
       bindR (be_u32 hdr 0) (\<lambda>magic.
       if magic AND 0xFFFFFFFE \<noteq> WAL_MAGIC_BE then Err (Corrupt ''bad WAL magic'')
       else bindR (be_u32 hdr 8) (\<lambda>ps.
         let big_endian = (magic AND 1 = 1); psize = unat ps in
         if psize < 512 \<or> \<not> wal_power_of_two psize then Err (Corrupt ''bad WAL page size'')
         else let salt = take 8 (drop 16 hdr); (h0, h1) = wal_checksum big_endian 0 0 (take 24 hdr) in
           bindR (be_u32 hdr 24) (\<lambda>f0. bindR (be_u32 hdr 28) (\<lambda>f1.
           if h0 \<noteq> f0 \<or> h1 \<noteq> f1 then Err (Corrupt ''WAL header checksum mismatch'')
           else bindR (wal_scan big_endian salt psize wal WAL_HEADER_LEN h0 h1 [] [] 0)
             (\<lambda>(frames, csize). Ok (frames, csize, psize))))))))"

definition wal_reader_open :: "bytes \<Rightarrow> bytes \<Rightarrow> wal_reader res" where
  "wal_reader_open main wal =
    bindR (wal_load wal) (\<lambda>(frames, csize, wal_psize).
    bindR (case bm_get frames 1 of
        Some pg \<Rightarrow> Ok pg
      | None \<Rightarrow> read_exact_at main (min (length main) (max HEADER_LEN 512)) 0) (\<lambda>page1.
    bindR (header_parse page1) (\<lambda>header.
    let psize = (if wal_psize \<noteq> 0 then wal_psize else unat (page_size header));
        db_size = (if csize \<noteq> 0 then csize else of_nat (length main div psize))
    in Ok \<lparr>wr_main = main, wr_header = header, wr_page_size = psize, wr_db_size = db_size,
           wr_frames = frames\<rparr>)))"

definition wal_reader_page :: "wal_reader \<Rightarrow> u32 \<Rightarrow> page res" where
  "wal_reader_page r number =
    (if number = 0 \<or> wr_db_size r < number then
       Err (Corrupt (''page '' @ show_nat (unat number) @ '' out of range 1..='' @ show_nat (unat (wr_db_size r))))
     else case bm_get (wr_frames r) number of
       Some dat \<Rightarrow> Ok (page_from_bytes number dat)
     | None \<Rightarrow>
         bindR (read_exact_at (wr_main r) (wr_page_size r) ((unat number - 1) * wr_page_size r)) (\<lambda>buf.
         Ok (page_from_bytes number buf)))"

section \<open>Writing the log\<close>

text \<open>The 32-byte header that \<open>commit_wal\<close> writes when the log is empty.\<close>

definition wal_header :: "bool \<Rightarrow> nat \<Rightarrow> u32 \<Rightarrow> bytes \<Rightarrow> bytes \<times> u32 \<times> u32" where
  "wal_header big_end psize ckpt_seq salt =
    (let fields = to_be32 (WAL_MAGIC_BE OR (if big_end then 1 else 0)) @ to_be32 3007000 @
           to_be32 (of_nat psize) @ to_be32 ckpt_seq @ salt;
         (h0, h1) = wal_checksum big_end 0 0 fields
     in (fields @ to_be32 h0 @ to_be32 h1, h0, h1))"

definition wal_frame :: "bool \<Rightarrow> bytes \<Rightarrow> u32 \<times> u32 \<Rightarrow> u32 \<Rightarrow> u32 \<Rightarrow> bytes \<Rightarrow> bytes \<times> u32 \<times> u32" where
  "wal_frame big_end salt ck page_no db_size dat =
    (let head = to_be32 page_no @ to_be32 db_size;
         (a0, a1) = wal_checksum big_end (fst ck) (snd ck) head;
         (c0, c1) = wal_checksum big_end a0 a1 dat
     in (head @ salt @ to_be32 c0 @ to_be32 c1 @ dat, c0, c1))"

text \<open>
  The loop over the dirty pages: the last frame carries the new size of the database. The result
  is what the commit publishes: page, commit size, bytes, next offset and running checksum.
\<close>

type_synonym appended_frame = "u32 \<times> u32 \<times> bytes \<times> nat \<times> (u32 \<times> u32)"

fun commit_frames :: "bool \<Rightarrow> bytes \<Rightarrow> nat \<Rightarrow> u32 \<Rightarrow> (u32 \<times> bytes) list \<Rightarrow> nat \<Rightarrow> u32 \<times> u32 \<Rightarrow> bytes \<Rightarrow>
    (bytes \<times> appended_frame list) res" where
  "commit_frames big_end salt psize new_count [] off ck wal = Ok (wal, [])"
| "commit_frames big_end salt psize new_count ((page_no, dat) # rest) off ck wal =
    (let db_size = (if rest = [] then new_count else 0);
         (frame, ck') = wal_frame big_end salt ck page_no db_size dat;
         off' = off + (FRAME_HEADER_LEN + psize) in
     bindR (write_all_at wal frame off) (\<lambda>wal'.
     bindR (commit_frames big_end salt psize new_count rest off' ck' wal') (\<lambda>(wal'', app).
     Ok (wal'', (page_no, db_size, dat, off', ck') # app))))"

section \<open>Checksums of frames\<close>

lemma wal_checksum_append:
  "length xs mod 8 = 0 \<Longrightarrow>
   wal_checksum be s0 s1 (xs @ ys) = (case wal_checksum be s0 s1 xs of (a, b) \<Rightarrow> wal_checksum be a b ys)"
proof (induction be s0 s1 xs rule: wal_checksum.induct)
  case (1 be s0 s1 a b c d e f g h rest)
  have "length rest mod 8 = 0" using 1(2) by simp
  then show ?case using 1(1) [OF refl refl] by (simp add: Let_def)
qed (auto split: prod.splits)

text \<open>A log entry and its bytes, with the checksum threaded through.\<close>

type_synonym log_entry = "u32 \<times> u32 \<times> bytes"

fun encode_log :: "bool \<Rightarrow> bytes \<Rightarrow> u32 \<times> u32 \<Rightarrow> log_entry list \<Rightarrow> bytes" where
  "encode_log be salt ck [] = []"
| "encode_log be salt ck ((p, sz, dat) # rest) =
    (case wal_frame be salt ck p sz dat of (bs, ck') \<Rightarrow> bs @ encode_log be salt ck' rest)"

fun log_ck :: "bool \<Rightarrow> bytes \<Rightarrow> u32 \<times> u32 \<Rightarrow> log_entry list \<Rightarrow> u32 \<times> u32" where
  "log_ck be salt ck [] = ck"
| "log_ck be salt ck ((p, sz, dat) # rest) = log_ck be salt (snd (wal_frame be salt ck p sz dat)) rest"

text \<open>What the reader makes of a log: pending frames are published by a commit frame.\<close>

fun replay :: "log_entry list \<Rightarrow> (u32 \<times> bytes) list \<Rightarrow> (u32, bytes) btree_map \<Rightarrow> u32 \<Rightarrow>
    (u32 \<times> bytes) list \<times> (u32, bytes) btree_map \<times> u32" where
  "replay [] pend frames csize = (pend, frames, csize)"
| "replay ((p, sz, dat) # rest) pend frames csize =
    (if sz \<noteq> 0 then replay rest [] (fold (\<lambda>(p, d). bm_insert p d) (pend @ [(p, dat)]) frames) sz
     else replay rest (pend @ [(p, dat)]) frames csize)"

definition log_ok :: "nat \<Rightarrow> log_entry list \<Rightarrow> bool" where
  "log_ok psize log \<longleftrightarrow> (\<forall>(p, sz, dat) \<in> set log. length dat = psize)"

lemma length_wal_frame: "length salt = 8 \<Longrightarrow> length (fst (wal_frame be salt ck p sz dat)) = 24 + length dat"
  by (simp add: wal_frame_def Let_def split: prod.splits)

lemma encode_log_append:
  "encode_log be salt ck (xs @ ys) = encode_log be salt ck xs @ encode_log be salt (log_ck be salt ck xs) ys"
proof (induction be salt ck xs rule: encode_log.induct)
  case (1 be salt ck)
  then show ?case by simp
next
  case (2 be salt ck p sz dat rest)
  then show ?case by (cases "wal_frame be salt ck p sz dat") simp
qed

lemma log_ck_append: "log_ck be salt ck (xs @ ys) = log_ck be salt (log_ck be salt ck xs) ys"
  by (induction be salt ck xs rule: log_ck.induct) simp_all

lemma length_encode_log:
  "length salt = 8 \<Longrightarrow> log_ok psize log \<Longrightarrow> length (encode_log be salt ck log) = length log * (24 + psize)"
proof (induction be salt ck log rule: encode_log.induct)
  case (1 be salt ck)
  then show ?case by simp
next
  case (2 be salt ck p sz dat rest)
  obtain bs ck' where f: "wal_frame be salt ck p sz dat = (bs, ck')" by (cases "wal_frame be salt ck p sz dat")
  have "length bs = 24 + psize" using length_wal_frame [OF 2(2), of be ck p sz dat] f 2(3) by (simp add: log_ok_def)
  then show ?case using 2 f by (simp add: log_ok_def)
qed

lemma replay_append:
  "replay (xs @ ys) pend frames csize = (case replay xs pend frames csize of (p, f, c) \<Rightarrow> replay ys p f c)"
  by (induction xs pend frames csize rule: replay.induct) simp_all

section \<open>The reader sees the committed log\<close>

lemma wal_scan_frame:
  assumes "length salt = 8" and "length dat = psize" and "length wal < 2 ^ 64"
    and "wal_frame be salt (s0, s1) p sz dat = (bs, c0, c1)"
    and "wal = pre @ bs @ post"
  shows "wal_scan be salt psize wal (length pre) s0 s1 pend frames csize =
    (if sz \<noteq> 0 then
       wal_scan be salt psize wal (length pre + (24 + psize)) c0 c1 []
         (fold (\<lambda>(p, d). bm_insert p d) (pend @ [(p, dat)]) frames) sz
     else wal_scan be salt psize wal (length pre + (24 + psize)) c0 c1 (pend @ [(p, dat)]) frames csize)"
proof -
  obtain a0 a1 where a: "wal_checksum be s0 s1 (to_be32 p @ to_be32 sz) = (a0, a1)" by fastforce
  have c: "wal_checksum be a0 a1 dat = (c0, c1)"
    and bs: "bs = (to_be32 p @ to_be32 sz @ salt @ to_be32 c0 @ to_be32 c1) @ dat"
    using assms(4) a by (auto simp: wal_frame_def Let_def split: prod.splits)
  let ?h = "to_be32 p @ to_be32 sz @ salt @ to_be32 c0 @ to_be32 c1"
  have len: "length pre + (24 + psize) \<le> length wal" "length bs = 24 + psize" using assms(1,2,5) bs by simp_all
  have r: "read_exact_at wal 24 (length pre) = Ok ?h" "read_exact_at wal psize (length pre + 24) = Ok dat"
    using len assms(1-3) by simp_all (simp_all add: assms(5) bs)
  have f: "take 8 (drop 8 ?h) = salt" "take 8 ?h = to_be32 p @ to_be32 sz"
    "be_u32 ?h 16 = Ok c0" "be_u32 ?h 20 = Ok c1" "be_u32 ?h 0 = Ok p" "be_u32 ?h 4 = Ok sz"
    using assms(1) by simp_all
  show ?thesis
    using len r f a c
    by (subst wal_scan.simps) (simp add: FRAME_HEADER_LEN_def Let_def del: take_append drop_append)
qed

lemma wal_scan_log:
  assumes "length salt = 8" and "log_ok psize log" and "length wal < 2 ^ 64"
    and "wal = pre @ encode_log be salt (s0, s1) log @ post"
    and "replay log pend frames csize = (pend', frames', csize')"
  shows "wal_scan be salt psize wal (length pre) s0 s1 pend frames csize =
    (case log_ck be salt (s0, s1) log of (c0, c1) \<Rightarrow>
      wal_scan be salt psize wal (length pre + length log * (24 + psize)) c0 c1 pend' frames' csize')"
  using assms
proof (induction log arbitrary: pre s0 s1 pend frames csize)
  case Nil
  then show ?case by simp
next
  case (Cons e log)
  obtain p sz dat where e: "e = (p, sz, dat)" by (cases e)
  obtain bs c0 c1 where f: "wal_frame be salt (s0, s1) p sz dat = (bs, c0, c1)" by (metis prod_cases3)
  have dat: "length dat = psize" and ok: "log_ok psize log" using Cons.prems(2) e by (simp_all add: log_ok_def)
  have w: "wal = pre @ bs @ encode_log be salt (c0, c1) log @ post" using Cons.prems(4) e f by simp
  have w2: "wal = (pre @ bs) @ encode_log be salt (c0, c1) log @ post" using w by simp
  have bl: "length bs = 24 + psize" using length_wal_frame [OF Cons.prems(1), of be "(s0, s1)" p sz dat] f dat by simp
  note step = wal_scan_frame [OF Cons.prems(1) dat Cons.prems(3) f w]
  let ?fold = "fold (\<lambda>(p, d). bm_insert p d) (pend @ [(p, dat)]) frames"
  show ?case
  proof (cases "sz = 0")
    case True
    have "replay log (pend @ [(p, dat)]) frames csize = (pend', frames', csize')"
      using Cons.prems(5) e True by simp
    from Cons.IH [OF Cons.prems(1) ok Cons.prems(3) w2 this]
    show ?thesis using step True e f bl by (simp add: algebra_simps)
  next
    case False
    have "replay log [] ?fold sz = (pend', frames', csize')"
      using Cons.prems(5) e False by simp
    from Cons.IH [OF Cons.prems(1) ok Cons.prems(3) w2 this]
    show ?thesis using step False e f bl by (simp add: algebra_simps)
  qed
qed

lemma wal_scan_end:
  "length wal < off + (24 + psize) \<Longrightarrow> wal_scan be salt psize wal off s0 s1 pend frames csize = Ok (frames, csize)"
  by (subst wal_scan.simps) (simp add: FRAME_HEADER_LEN_def)

text \<open>A log with a torn tail: the frames of complete commits, nothing of the rest.\<close>

lemma wal_scan_torn:
  assumes "length salt = 8" and "log_ok psize log" and "length wal < 2 ^ 64"
    and "wal = pre @ encode_log be salt (s0, s1) log @ torn" and "length torn < 24 + psize"
    and "replay log [] [] 0 = (pend', frames', csize')"
  shows "wal_scan be salt psize wal (length pre) s0 s1 [] [] 0 = Ok (frames', csize')"
proof -
  have "length wal < length pre + length log * (24 + psize) + (24 + psize)"
    using assms(4,5) length_encode_log [OF assms(1,2), of be "(s0, s1)"] by simp
  then show ?thesis using wal_scan_log [OF assms(1-4,6)]
    by (cases "log_ck be salt (s0, s1) log") (simp add: wal_scan_end)
qed


section \<open>Whole logs\<close>

definition log_bytes :: "bool \<Rightarrow> nat \<Rightarrow> u32 \<Rightarrow> bytes \<Rightarrow> log_entry list \<Rightarrow> bytes" where
  "log_bytes be psize seqno salt log =
    (case wal_header be psize seqno salt of (hdr, h) \<Rightarrow> hdr @ encode_log be salt h log)"

lemma magic_bits:
  "(WAL_MAGIC_BE OR (if be then 1 else 0)) AND 0xFFFFFFFE = WAL_MAGIC_BE"
  "((WAL_MAGIC_BE OR (if be then 1 else 0)) AND 1 = 1) = be"
  by (cases be; simp add: WAL_MAGIC_BE_def)+

lemma wal_load_log:
  assumes "length salt = 8" and "512 \<le> psize" and "psize < 2 ^ 32" and "wal_power_of_two psize" and "log_ok psize log"
    and "length torn < 24 + psize" and "length (log_bytes be psize seqno salt log) + length torn < 2 ^ 64"
    and "replay log [] [] 0 = (pend', frames', csize')"
  shows "wal_load (log_bytes be psize seqno salt log @ torn) = Ok (frames', csize', psize)"
proof -
  let ?f = "to_be32 (WAL_MAGIC_BE OR (if be then 1 else 0)) @ to_be32 3007000 @ to_be32 (of_nat psize) @ to_be32 seqno @ salt"
  obtain h0 h1 where h: "wal_checksum be 0 0 ?f = (h0, h1)" by fastforce
  let ?h = "?f @ to_be32 h0 @ to_be32 h1"
  have hdr: "wal_header be psize seqno salt = (?h, h0, h1)" using h by (simp add: wal_header_def Let_def)
  let ?w = "log_bytes be psize seqno salt log @ torn"
  have w: "?w = ?h @ encode_log be salt (h0, h1) log @ torn" by (simp add: log_bytes_def hdr)
  have lh: "length ?h = 32" using assms(1) by simp
  have lw1: "32 \<le> length ?w" using lh unfolding w by simp
  have lw2: "length ?w < 2 ^ 64" using assms(7) by simp
  note lw = lw1 lw2
  have rd: "read_exact_at ?w 32 0 = Ok ?h"
    using lw lh take_append [of 32 ?h "encode_log be salt (h0, h1) log @ torn"]
    by (subst w) (simp add: w [symmetric] del: append_assoc take_append)
  have fl: "be_u32 ?h 0 = Ok (WAL_MAGIC_BE OR (if be then 1 else 0))" "be_u32 ?h 8 = Ok (of_nat psize)"
    "be_u32 ?h 24 = Ok h0" "be_u32 ?h 28 = Ok h1" "take 8 (drop 16 ?h) = salt" "take 24 ?h = ?f"
    using assms(1) by simp_all
  have u: "unat (of_nat psize :: u32) = psize" using assms(3) by (simp add: unat_of_nat)
  have sc: "wal_scan be salt psize ?w 32 h0 h1 [] [] 0 = Ok (frames', csize')"
    using wal_scan_torn [OF assms(1,5) lw(2) w assms(6,8)] lh by simp
  show ?thesis
    unfolding wal_load_def
    using lw rd fl u sc h assms(2,4)
    by (simp add: WAL_HEADER_LEN_def magic_bits Let_def del: take_append drop_append append_assoc)
qed

section \<open>Commits\<close>

fun commit_entries :: "u32 \<Rightarrow> (u32 \<times> bytes) list \<Rightarrow> log_entry list" where
  "commit_entries cnt [] = []"
| "commit_entries cnt ((p, dat) # rest) = (p, if rest = [] then cnt else 0, dat) # commit_entries cnt rest"

lemma length_commit_entries [simp]: "length (commit_entries cnt pgs) = length pgs"
  by (induction cnt pgs rule: commit_entries.induct) auto

lemma log_ok_commit_entries: "\<forall>(p, dat) \<in> set pgs. length dat = psize \<Longrightarrow> log_ok psize (commit_entries cnt pgs)"
  by (induction cnt pgs rule: commit_entries.induct) (auto simp: log_ok_def)

lemma replay_commit:
  "pgs \<noteq> [] \<Longrightarrow> cnt \<noteq> 0 \<Longrightarrow>
   replay (commit_entries cnt pgs) pend frames csize = ([], fold (\<lambda>(p, d). bm_insert p d) (pend @ pgs) frames, cnt)"
  by (induction cnt pgs arbitrary: pend rule: commit_entries.induct) auto

lemma replay_partial_commit:
  "k < length pgs \<Longrightarrow> replay (take k (commit_entries cnt pgs)) pend frames csize = (pend @ take k pgs, frames, csize)"
proof (induction cnt pgs arbitrary: pend k rule: commit_entries.induct)
  case (1 cnt)
  then show ?case by simp
next
  case (2 cnt p dat rest)
  then show ?case by (cases k) auto
qed

lemma write_at_append: "write_at dat (length dat) buf = dat @ buf"
  by (rule nth_equalityI) (auto simp: nth_write_at nth_append)

lemma commit_frames_log:
  assumes "length salt = 8" and "\<forall>(p, dat) \<in> set pgs. length dat = psize"
    and "length wal + length pgs * (24 + psize) < 2 ^ 64"
  shows "\<exists>app. commit_frames be salt psize cnt pgs (length wal) ck wal =
    Ok (wal @ encode_log be salt ck (commit_entries cnt pgs), app) \<and>
    map (\<lambda>(p, sz, dat, _). (p, sz, dat)) app = commit_entries cnt pgs"
  using assms
proof (induction pgs arbitrary: ck wal)
  case Nil
  then show ?case by simp
next
  case (Cons r pgs)
  obtain p dat where r: "r = (p, dat)" by (cases r)
  let ?sz = "if pgs = [] then cnt else 0"
  obtain bs ck' where f: "wal_frame be salt ck p ?sz dat = (bs, ck')" by (cases "wal_frame be salt ck p ?sz dat")
  have bl: "length bs = 24 + psize"
    using length_wal_frame [OF Cons.prems(1), of be ck p ?sz dat] f Cons.prems(2) r by simp
  have wr: "write_all_at wal bs (length wal) = Ok (wal @ bs)"
    using Cons.prems(3) bl write_at_append by simp
  have "length (wal @ bs) + length pgs * (24 + psize) < 2 ^ 64" using Cons.prems(3) bl by simp
  from Cons.IH [OF Cons.prems(1) _ this, of ck'] Cons.prems(2)
  obtain app where app: "commit_frames be salt psize cnt pgs (length (wal @ bs)) ck' (wal @ bs) =
      Ok ((wal @ bs) @ encode_log be salt ck' (commit_entries cnt pgs), app)"
    "map (\<lambda>(p, sz, dat, _). (p, sz, dat)) app = commit_entries cnt pgs" by auto
  have off: "length wal + (FRAME_HEADER_LEN + psize) = length (wal @ bs)" using bl by (simp add: FRAME_HEADER_LEN_def)
  show ?case using app f wr r off by (auto simp: Let_def)
qed

lemma take_encode_log:
  assumes "length salt = 8" and "log_ok psize log" and "n < length log * (24 + psize)"
  shows "\<exists>torn. take n (encode_log be salt ck log) = encode_log be salt ck (take (n div (24 + psize)) log) @ torn \<and>
    length torn < 24 + psize"
proof -
  let ?k = "n div (24 + psize)"
  have k: "?k < length log" using assms(3) by (simp add: less_mult_imp_div_less)
  have nk: "n = ?k * (24 + psize) + n mod (24 + psize)" by (rule div_mult_mod_eq [symmetric])
  have "log = take ?k log @ drop ?k log" by simp
  then have e: "encode_log be salt ck log = encode_log be salt ck (take ?k log) @
      encode_log be salt (log_ck be salt ck (take ?k log)) (drop ?k log)"
    by (metis encode_log_append)
  have "log_ok psize (take ?k log)" using assms(2) by (auto simp: log_ok_def dest: in_set_takeD)
  then have l: "length (encode_log be salt ck (take ?k log)) = ?k * (24 + psize)"
    using length_encode_log [OF assms(1)] k by simp
  have "take n (encode_log be salt ck log) = encode_log be salt ck (take ?k log) @
      take (n mod (24 + psize)) (encode_log be salt (log_ck be salt ck (take ?k log)) (drop ?k log))"
    unfolding e using l nk by (simp add: take_append) (metis add_diff_cancel_left' nk)
  moreover have "n mod (24 + psize) < 24 + psize" by simp
  ultimately show ?thesis by (metis (no_types, lifting) length_take min.strict_coboundedI2)
qed

text \<open>
  A commit appended to a log and cut after \<open>n\<close> bytes: until the last byte is there the reader sees
  the log as it was, and with it the pages of the commit and its database size.
\<close>

lemma log_ok_take: "log_ok psize log \<Longrightarrow> log_ok psize (take k log)"
  by (auto simp: log_ok_def dest: in_set_takeD)

lemma log_ok_append [simp]: "log_ok psize (xs @ ys) \<longleftrightarrow> log_ok psize xs \<and> log_ok psize ys"
  by (simp add: log_ok_def ball_Un)

lemma log_bytes_append:
  "log_bytes be psize seqno salt (xs @ ys) = log_bytes be psize seqno salt xs @
   encode_log be salt (log_ck be salt (snd (wal_header be psize seqno salt)) xs) ys"
  by (simp add: log_bytes_def encode_log_append split: prod.splits)

lemma wal_commit_cut:
  assumes "length salt = 8" and "512 \<le> psize" and "psize < 2 ^ 32" and "wal_power_of_two psize" and "log_ok psize log"
    and "\<forall>(p, dat) \<in> set pgs. length dat = psize"
    and "length (log_bytes be psize seqno salt log) + length pgs * (24 + psize) < 2 ^ 64"
    and "replay log [] [] 0 = ([], F, C)"
    and "n < length pgs * (24 + psize)"
    and "ck = log_ck be salt (snd (wal_header be psize seqno salt)) log"
  shows "wal_load (log_bytes be psize seqno salt log @ take n (encode_log be salt ck (commit_entries cnt pgs))) =
    Ok (F, C, psize)"
proof -
  let ?es = "commit_entries cnt pgs" and ?k = "n div (24 + psize)"
  have es: "log_ok psize ?es" using log_ok_commit_entries [OF assms(6)] .
  have k: "?k < length pgs" using assms(9) by (simp add: less_mult_imp_div_less)
  from take_encode_log [OF assms(1) es, of n be ck] assms(9) obtain torn
    where t: "take n (encode_log be salt ck ?es) = encode_log be salt ck (take ?k ?es) @ torn"
      and tl: "length torn < 24 + psize" by auto
  have b: "log_bytes be psize seqno salt log @ take n (encode_log be salt ck ?es) =
      log_bytes be psize seqno salt (log @ take ?k ?es) @ torn"
    using t assms(10) by (simp add: log_bytes_append)
  have "length (log_bytes be psize seqno salt (log @ take ?k ?es) @ torn) < 2 ^ 64"
    unfolding b [symmetric] using assms(7,9) length_encode_log [OF assms(1) es, of be ck] by simp
  moreover have "replay (log @ take ?k ?es) [] [] 0 = (take ?k pgs, F, C)"
    using assms(8) replay_partial_commit [OF k] by (simp add: replay_append)
  moreover have "log_ok psize (log @ take ?k ?es)" using assms(5) es log_ok_take by simp
  ultimately show ?thesis unfolding b
    using wal_load_log [OF assms(1-4) _ tl] by (metis length_append)
qed

lemma wal_commit_complete:
  assumes "length salt = 8" and "512 \<le> psize" and "psize < 2 ^ 32" and "wal_power_of_two psize" and "log_ok psize log"
    and "\<forall>(p, dat) \<in> set pgs. length dat = psize"
    and "length (log_bytes be psize seqno salt log) + length pgs * (24 + psize) < 2 ^ 64"
    and "replay log [] [] 0 = ([], F, C)" and "pgs \<noteq> []" and "cnt \<noteq> 0"
    and "ck = log_ck be salt (snd (wal_header be psize seqno salt)) log"
  shows "wal_load (log_bytes be psize seqno salt log @ encode_log be salt ck (commit_entries cnt pgs)) =
    Ok (fold (\<lambda>(p, d). bm_insert p d) pgs F, cnt, psize)"
proof -
  let ?es = "commit_entries cnt pgs"
  have es: "log_ok psize ?es" using log_ok_commit_entries [OF assms(6)] .
  have b: "log_bytes be psize seqno salt log @ encode_log be salt ck ?es = log_bytes be psize seqno salt (log @ ?es) @ []"
    using assms(11) by (simp add: log_bytes_append)
  have "length (log_bytes be psize seqno salt (log @ ?es)) + length ([] :: bytes) < 2 ^ 64"
    using assms(7,11) length_encode_log [OF assms(1) es, of be ck] by (simp add: log_bytes_append)
  moreover have "replay (log @ ?es) [] [] 0 = ([], fold (\<lambda>(p, d). bm_insert p d) pgs F, cnt)"
    using assms(8) replay_commit [OF assms(9,10)] by (simp add: replay_append)
  moreover have "log_ok psize (log @ ?es)" using assms(5) es by simp
  ultimately show ?thesis unfolding b
    using wal_load_log [OF assms(1-4), of "log @ ?es" "[]"] by simp
qed

end
