(* ===== verification/Journal.thy ===== *)
theory Journal
  imports MemoryFile Header
begin

text \<open>
  The rollback journal of the write pager (\<open>src/pager/write.rs\<close>): the page checksum, the journal a
  commit writes, the flush that follows it and the recovery of a hot journal. The disk operations of
  a commit are an explicit list, so that a crash is a prefix of it, with the write in progress torn. The
  main result: recovery after a crash anywhere in a commit that does not shrink the file
  leaves the database of before the commit, or the one after it.
\<close>

section \<open>Constants and the page checksum\<close>

definition JOURNAL_MAGIC :: bytes where
  "JOURNAL_MAGIC = [0xd9, 0xd5, 0x05, 0xf9, 0x20, 0xa1, 0x63, 0xd7]"

definition JOURNAL_HDR_FIELDS :: nat where
  "JOURNAL_HDR_FIELDS = 28"

definition JOURNAL_SECTOR :: nat where
  "JOURNAL_SECTOR = 512"

text \<open>The loop over \<open>x = len - 200, len - 400, \<dots>\<close>; the argument is \<open>x + 200\<close>.\<close>

function checksum_loop :: "bytes \<Rightarrow> nat \<Rightarrow> u32 \<Rightarrow> u32" where
  "checksum_loop pg x200 cksum =
    (if 200 \<le> x200 then checksum_loop pg (x200 - 200) (cksum + ucast (pg ! (x200 - 200))) else cksum)"
  by pat_completeness auto
termination
  by (relation "measure (\<lambda>(pg, x200, cksum). x200)") auto

declare checksum_loop.simps [simp del]

definition journal_page_checksum :: "u32 \<Rightarrow> bytes \<Rightarrow> u32" where
  "journal_page_checksum nonce pg = checksum_loop pg (length pg) nonce"

section \<open>Disk operations\<close>

datatype disk_op =
    FWrite bytes nat
  | FTrunc nat
  | FSync
  | JWrite bytes nat
  | JTrunc nat
  | JSync

record disk =
  d_file :: bytes
  d_journal :: bytes

fun exec_op :: "disk_op \<Rightarrow> disk \<Rightarrow> disk res" where
  "exec_op (FWrite buf off) d = bindR (write_all_at (d_file d) buf off) (\<lambda>f. Ok (d\<lparr>d_file := f\<rparr>))"
| "exec_op (FTrunc n) d = Ok (d\<lparr>d_file := file_truncate (d_file d) n\<rparr>)"
| "exec_op FSync d = Ok d"
| "exec_op (JWrite buf off) d = bindR (write_all_at (d_journal d) buf off) (\<lambda>j. Ok (d\<lparr>d_journal := j\<rparr>))"
| "exec_op (JTrunc n) d = Ok (d\<lparr>d_journal := file_truncate (d_journal d) n\<rparr>)"
| "exec_op JSync d = Ok d"

section \<open>Writing the journal\<close>

text \<open>The originals of the dirty pages that exist on disk, in page order.\<close>

definition journal_originals ::
    "bytes \<Rightarrow> nat \<Rightarrow> u32 \<Rightarrow> (u32, bytes) btree_map \<Rightarrow> (u32 \<times> bytes) list res" where
  "journal_originals file psize disk_pages overlay =
    mapR (\<lambda>n. bindR (read_exact_at file psize ((unat n - 1) * psize)) (\<lambda>buf. Ok (n, buf)))
      (filter (\<lambda>n. n \<le> disk_pages) (bm_keys overlay))"

definition journal_nonce :: "u32 \<Rightarrow> u32 \<Rightarrow> u32" where
  "journal_nonce ccount disk_pages = ccount * 0x9E3779B1 + disk_pages * 2654435761"

definition journal_header :: "u32 \<Rightarrow> u32 \<Rightarrow> nat \<Rightarrow> bytes" where
  "journal_header nonce disk_pages psize =
    overwrite (overwrite (overwrite (overwrite (overwrite (replicate JOURNAL_SECTOR 0)
      0 JOURNAL_MAGIC) 12 (to_be32 nonce)) 16 (to_be32 disk_pages))
      20 (to_be32 (of_nat JOURNAL_SECTOR))) 24 (to_be32 (of_nat psize))"

fun journal_record_ops :: "u32 \<Rightarrow> nat \<Rightarrow> nat \<Rightarrow> (u32 \<times> bytes) list \<Rightarrow> disk_op list" where
  "journal_record_ops nonce psize off [] = []"
| "journal_record_ops nonce psize off ((n, buf) # rest) =
     JWrite (to_be32 n) off # JWrite buf (off + 4) #
     JWrite (to_be32 (journal_page_checksum nonce buf)) (off + 4 + psize) #
     journal_record_ops nonce psize (off + 4 + psize + 4) rest"

definition write_journal_ops :: "u32 \<Rightarrow> u32 \<Rightarrow> nat \<Rightarrow> (u32 \<times> bytes) list \<Rightarrow> disk_op list" where
  "write_journal_ops ccount disk_pages psize originals =
    (let nonce = journal_nonce ccount disk_pages in
     [JTrunc 0, JWrite (journal_header nonce disk_pages psize) 0] @
     journal_record_ops nonce psize JOURNAL_SECTOR originals @
     [JSync, JWrite (to_be32 (of_nat (length originals))) 8, JSync])"

definition write_journal :: "u32 \<Rightarrow> u32 \<Rightarrow> nat \<Rightarrow> (u32, bytes) btree_map \<Rightarrow> disk \<Rightarrow> disk res" where
  "write_journal ccount disk_pages psize overlay d =
    bindR (journal_originals (d_file d) psize disk_pages overlay) (\<lambda>originals.
    foldR exec_op (write_journal_ops ccount disk_pages psize originals) d)"

section \<open>The flush\<close>

text \<open>Step 2 and 3 of \<open>commit\<close>: the dirty pages, the size of the file, the journal.\<close>

definition flush_ops :: "nat \<Rightarrow> u32 \<Rightarrow> (u32, bytes) btree_map \<Rightarrow> disk_op list" where
  "flush_ops psize pages overlay =
    map (\<lambda>(n, buf). FWrite buf ((unat n - 1) * psize)) overlay @
    [FTrunc (unat pages * psize), FSync, JTrunc 0, JSync]"

text \<open>All disk operations of a commit in rollback mode with a journal.\<close>

definition commit_ops :: "u32 \<Rightarrow> u32 \<Rightarrow> u32 \<Rightarrow> nat \<Rightarrow> (u32, bytes) btree_map \<Rightarrow> bytes \<Rightarrow> disk_op list res" where
  "commit_ops ccount disk_pages pages psize overlay file =
    bindR (journal_originals file psize disk_pages overlay) (\<lambda>originals.
    Ok (write_journal_ops ccount disk_pages psize originals @ flush_ops psize pages overlay))"

section \<open>Recovery\<close>

text \<open>
  The record loop \<open>for _ in 0..want\<close>: plays records back into the file until one fails its
  checksum; returns the file, the number of records played and the offset reached.
\<close>

fun play_records :: "bytes \<Rightarrow> u32 \<Rightarrow> nat \<Rightarrow> nat \<Rightarrow> nat \<Rightarrow> nat \<Rightarrow> bytes \<Rightarrow> (bytes \<times> nat) res" where
  "play_records journal nonce psize 0 off played file = Ok (file, played)"
| "play_records journal nonce psize (Suc want) off played file =
    bindR (read_exact_at journal 4 off) (\<lambda>nb.
    bindR (read_exact_at journal psize (off + 4)) (\<lambda>buf.
    bindR (read_exact_at journal 4 (off + 4 + psize)) (\<lambda>cb.
    let n = from_be32 nb in
    if n = 0 \<or> from_be32 cb \<noteq> journal_page_checksum nonce buf then Ok (file, played)
    else bindR (write_all_at file buf ((unat n - 1) * psize)) (\<lambda>file'.
      play_records journal nonce psize want (off + (4 + psize + 4)) (played + 1) file'))))"

definition div_ceil :: "nat \<Rightarrow> nat \<Rightarrow> nat" where
  "div_ceil a b = (a + b - 1) div b"

text \<open>The segment loop; the result is the file and \<open>played_any\<close>.\<close>

function recover_segments ::
    "bytes \<Rightarrow> nat \<Rightarrow> nat \<Rightarrow> nat \<Rightarrow> bytes \<Rightarrow> bool \<Rightarrow> (bytes \<times> bool) res" where
  "recover_segments journal sector psize seg_off file played_any =
    (let jsize = file_size journal; rec_len = 4 + psize + 4 in
     if seg_off + JOURNAL_HDR_FIELDS \<le> jsize then
       bindR (read_exact_at journal JOURNAL_HDR_FIELDS seg_off) (\<lambda>sh.
       if take 8 sh \<noteq> JOURNAL_MAGIC then Ok (file, played_any)
       else bindR (be_u32 sh 8) (\<lambda>nrec. bindR (be_u32 sh 12) (\<lambda>nonce.
         let recs_start = seg_off + sector in
         if jsize < recs_start then Ok (file, played_any)
         else let avail = (jsize - recs_start) div rec_len;
                  want = (if avail < unat nrec then avail else unat nrec) in
           bindR (play_records journal nonce psize want recs_start 0 file) (\<lambda>(file', played).
           let played_any' = (played_any \<or> 0 < played) in
           if played < want then Ok (file', played_any')
           else let consumed = recs_start + played * rec_len;
                    nxt = div_ceil consumed sector * sector in
             if nxt \<le> seg_off then Ok (file', played_any')
             else recover_segments journal sector psize nxt file' played_any'))))
     else Ok (file, played_any))"
  by pat_completeness auto
termination
  by (relation "measure (\<lambda>(journal, sector, psize, seg_off, file, played_any). length journal - seg_off)")
     (auto simp: file_size_def JOURNAL_HDR_FIELDS_def)

declare recover_segments.simps [simp del]

definition is_power_of_two_nat :: "nat \<Rightarrow> bool" where
  "is_power_of_two_nat n \<longleftrightarrow> list_ex (\<lambda>k. n = 2 ^ k) [0..<64]"

definition recover :: "disk \<Rightarrow> disk res" where
  "recover d =
    (let journal = d_journal d in
     if file_size journal < JOURNAL_SECTOR then Ok d
     else bindR (read_exact_at journal JOURNAL_HDR_FIELDS 0) (\<lambda>hdr.
     if take 8 hdr \<noteq> JOURNAL_MAGIC then Ok d
     else bindR (be_u32 hdr 16) (\<lambda>orig_pages. bindR (be_u32 hdr 20) (\<lambda>sectorw. bindR (be_u32 hdr 24) (\<lambda>psizew.
       let sector = unat sectorw; psize = unat psizew in
       if psize < 512 \<or> \<not> is_power_of_two_nat psize \<or> sector = 0 then Ok d
       else bindR (be_u32 hdr 8) (\<lambda>nrec.
         if nrec = 0 then Ok d
         else bindR (recover_segments journal sector psize 0 (d_file d) False) (\<lambda>(file, played_any).
           if \<not> played_any then Ok (d\<lparr>d_file := file\<rparr>)
           else Ok \<lparr>d_file = file_truncate file (unat orig_pages * psize),
                    d_journal = file_truncate journal 0\<rparr>))))))) "


section \<open>Playing records back\<close>

definition journal_record :: "u32 \<Rightarrow> u32 \<times> bytes \<Rightarrow> bytes" where
  "journal_record nonce = (\<lambda>(n, buf). to_be32 n @ buf @ to_be32 (journal_page_checksum nonce buf))"

abbreviation "journal_records nonce originals \<equiv> concat (map (journal_record nonce) originals)"

definition put_pages :: "nat \<Rightarrow> (u32 \<times> bytes) list \<Rightarrow> bytes \<Rightarrow> bytes" where
  "put_pages psize pgs fl = fold (\<lambda>(n, buf) f. write_at f ((unat n - 1) * psize) buf) pgs fl"

lemma put_pages_simps [simp]:
  "put_pages psize [] fl = fl"
  "put_pages psize ((n, buf) # pgs) fl = put_pages psize pgs (write_at fl ((unat n - 1) * psize) buf)"
  by (simp_all add: put_pages_def)

definition pages_ok :: "nat \<Rightarrow> (u32 \<times> bytes) list \<Rightarrow> bool" where
  "pages_ok psize pgs \<longleftrightarrow> (\<forall>(n, buf) \<in> set pgs. n \<noteq> 0 \<and> length buf = psize) \<and> psize \<le> 65536"

lemma pages_ok_Cons: "pages_ok psize ((n, buf) # pgs) \<longleftrightarrow> n \<noteq> 0 \<and> length buf = psize \<and> pages_ok psize pgs"
  by (auto simp: pages_ok_def)

lemma page_offset_bound: "psize \<le> 65536 \<Longrightarrow> (unat (n :: u32) - 1) * psize + psize < 2 ^ 63"
proof -
  assume "psize \<le> 65536"
  moreover have "unat n - 1 \<le> 2 ^ 32" using unat_less_length [of n] by simp
  ultimately have "(unat n - 1) * psize \<le> 2 ^ 32 * 65536" by (intro mult_mono) auto
  with \<open>psize \<le> 65536\<close> show ?thesis by simp
qed

lemma play_records_all:
  assumes "pages_ok psize originals" and "length journal < 2 ^ 64"
    and "journal = pre @ journal_records nonce originals @ post"
  shows "play_records journal nonce psize (length originals) (length pre) played fl =
    Ok (put_pages psize originals fl, played + length originals)"
  using assms
proof (induction originals arbitrary: pre played fl)
  case Nil
  then show ?case by simp
next
  case (Cons r originals)
  obtain n buf where r: "r = (n, buf)" by (cases r)
  let ?ck = "to_be32 (journal_page_checksum nonce buf)"
  have ok: "n \<noteq> 0" "length buf = psize" "pages_ok psize originals" "psize \<le> 65536"
    using Cons.prems(1) r by (auto simp: pages_ok_Cons pages_ok_def)
  have j: "journal = (pre @ to_be32 n @ buf @ ?ck) @ journal_records nonce originals @ post"
    using Cons.prems(3) r by (simp add: journal_record_def)
  have len: "length pre + 4 + psize + 4 \<le> length journal" using ok(2) by (subst j) simp
  have "read_exact_at journal 4 (length pre) = Ok (to_be32 n)"
    "read_exact_at journal psize (length pre + 4) = Ok buf"
    "read_exact_at journal 4 (length pre + 4 + psize) = Ok ?ck"
    using len Cons.prems(2) ok(2) by (simp_all) (simp_all add: j)
  moreover have "write_all_at fl buf ((unat n - 1) * psize) = Ok (write_at fl ((unat n - 1) * psize) buf)"
    using page_offset_bound [OF ok(4), of n] ok(2) by simp
  moreover have "play_records journal nonce psize (length originals) (length (pre @ to_be32 n @ buf @ ?ck))
      (played + 1) (write_at fl ((unat n - 1) * psize) buf) =
      Ok (put_pages psize originals (write_at fl ((unat n - 1) * psize) buf), played + 1 + length originals)"
    using Cons.IH [OF ok(3) Cons.prems(2) j] .
  ultimately show ?case using ok(1,2) r by (simp add: Let_def add.assoc)
qed

text \<open>Pages after \<open>put_pages\<close>.\<close>

lemma length_put_pages: "length fl \<le> length (put_pages psize pgs fl)"
proof (induction pgs arbitrary: fl)
  case Nil
  then show ?case by simp
next
  case (Cons r pgs)
  show ?case using order_trans [OF _ Cons.IH] by (cases r) simp
qed


lemma file_page_put_pages_other:
  "pages_ok psize pgs \<Longrightarrow> 0 < m \<Longrightarrow> m \<notin> unat ` fst ` set pgs \<Longrightarrow> m * psize \<le> length fl \<Longrightarrow>
   file_page psize (put_pages psize pgs fl) m = file_page psize fl m"
proof (induction pgs arbitrary: fl)
  case Nil
  then show ?case by simp
next
  case (Cons r pgs)
  obtain n buf where r: "r = (n, buf)" by (cases r)
  have n: "0 < unat n" "length buf = psize" "pages_ok psize pgs"
    using Cons.prems(1) r by (auto simp: pages_ok_Cons unat_gt_0)
  have "file_page psize (write_at fl ((unat n - 1) * psize) buf) m = file_page psize fl m"
    using n Cons.prems r by (intro file_page_write_other) auto
  moreover have "file_page psize (put_pages psize pgs (write_at fl ((unat n - 1) * psize) buf)) m =
      file_page psize (write_at fl ((unat n - 1) * psize) buf) m"
    using n Cons.prems r by (intro Cons.IH) auto
  ultimately show ?case using r by simp
qed

lemma file_page_put_pages_same:
  "pages_ok psize pgs \<Longrightarrow> distinct (map fst pgs) \<Longrightarrow> (n, buf) \<in> set pgs \<Longrightarrow>
   file_page psize (put_pages psize pgs fl) (unat n) = buf"
proof (induction pgs arbitrary: fl)
  case Nil
  then show ?case by simp
next
  case (Cons r pgs)
  obtain n' buf' where r: "r = (n', buf')" by (cases r)
  have n': "0 < unat n'" "length buf' = psize" "pages_ok psize pgs"
    using Cons.prems(1) r by (auto simp: pages_ok_Cons unat_gt_0)
  show ?case
  proof (cases "(n, buf) = r")
    case True
    have "unat n \<notin> unat ` fst ` set pgs"
      using Cons.prems(2) True by (force simp: image_iff dest!: word_unat_eq_iff [THEN iffD2])
    moreover have "unat n * psize \<le> length (write_at fl ((unat n - 1) * psize) buf)"
      using n' r True page_end [of "unat n" psize] by simp
    ultimately show ?thesis using n' r True file_page_write_same [of buf' psize fl "unat n'"]
      by (simp add: file_page_put_pages_other)
  next
    case False
    then have "(n, buf) \<in> set pgs" using Cons.prems(3) by simp
    then show ?thesis using Cons.IH [OF n'(3)] Cons.prems(2) r by simp
  qed
qed

section \<open>Recovery of a complete journal\<close>

definition journal_image :: "u32 \<Rightarrow> u32 \<Rightarrow> nat \<Rightarrow> (u32 \<times> bytes) list \<Rightarrow> bytes" where
  "journal_image nonce disk_pages psize originals =
    overwrite (journal_header nonce disk_pages psize) 8 (to_be32 (of_nat (length originals))) @
    journal_records nonce originals"

lemma length_JOURNAL_MAGIC [simp]: "length JOURNAL_MAGIC = 8"
  by (simp add: JOURNAL_MAGIC_def)

lemma length_journal_header [simp]: "length (journal_header nonce dp psize) = 512"
proof -
  define z :: bytes where "z = replicate JOURNAL_SECTOR 0"
  have "length z = 512" by (simp add: z_def JOURNAL_SECTOR_def)
  then show ?thesis unfolding journal_header_def z_def [symmetric] by simp
qed

lemma journal_header_fields:
  fixes cnt :: bytes and nonce dp :: u32 and psize :: nat
  assumes "length cnt = 4"
  defines "h \<equiv> overwrite (journal_header nonce dp psize) 8 cnt"
  shows "take 8 h = JOURNAL_MAGIC" and "take 4 (drop 8 h) = cnt" and "take 4 (drop 12 h) = to_be32 nonce"
    and "take 4 (drop 16 h) = to_be32 dp" and "take 4 (drop 20 h) = to_be32 512"
    and "take 4 (drop 24 h) = to_be32 (of_nat psize)" and "length h = 512"
proof -
  define z :: bytes where "z = replicate JOURNAL_SECTOR 0"
  define h1 where "h1 = overwrite z 0 JOURNAL_MAGIC"
  define h2 where "h2 = overwrite h1 12 (to_be32 nonce)"
  define h3 where "h3 = overwrite h2 16 (to_be32 dp)"
  define h4 where "h4 = overwrite h3 20 (to_be32 (of_nat JOURNAL_SECTOR))"
  define h5 where "h5 = overwrite h4 24 (to_be32 (of_nat psize))"
  have h: "h = overwrite h5 8 cnt"
    unfolding h_def journal_header_def h5_def h4_def h3_def h2_def h1_def z_def ..
  have "length z = 512" by (simp add: z_def JOURNAL_SECTOR_def)
  then have l1: "length h1 = 512" by (simp add: h1_def)
  then have l2: "length h2 = 512" by (simp add: h2_def)
  then have l3: "length h3 = 512" by (simp add: h3_def)
  then have l4: "length h4 = 512" by (simp add: h4_def)
  then have l5: "length h5 = 512" by (simp add: h5_def)
  show "length h = 512" "take 4 (drop 8 h) = cnt" using l5 assms(1) by (simp_all add: h)
  have s6: "take n (drop i h) = take n (drop i h5)" if "i + n \<le> 8 \<or> 12 \<le> i" for i n
    unfolding h using that l5 assms(1) by (intro slice_overwrite_other) auto
  have s5: "take n (drop i h5) = take n (drop i h4)" if "i + n \<le> 24 \<or> 28 \<le> i" for i n
    unfolding h5_def using that l4 by (intro slice_overwrite_other) auto
  have s4: "take n (drop i h4) = take n (drop i h3)" if "i + n \<le> 20 \<or> 24 \<le> i" for i n
    unfolding h4_def using that l3 by (intro slice_overwrite_other) auto
  have s3: "take n (drop i h3) = take n (drop i h2)" if "i + n \<le> 16 \<or> 20 \<le> i" for i n
    unfolding h3_def using that l2 by (intro slice_overwrite_other) auto
  have s2: "take n (drop i h2) = take n (drop i h1)" if "i + n \<le> 12 \<or> 16 \<le> i" for i n
    unfolding h2_def using that l1 by (intro slice_overwrite_other) auto
  have "take 8 (drop 0 h1) = JOURNAL_MAGIC"
    unfolding h1_def using \<open>length z = 512\<close> by (intro slice_overwrite_same) auto
  then show "take 8 h = JOURNAL_MAGIC"
    using s6 [of 0 8] s5 [of 0 8] s4 [of 0 8] s3 [of 0 8] s2 [of 0 8] by simp
  show "take 4 (drop 12 h) = to_be32 nonce"
    using s6 [of 12 4] s5 [of 12 4] s4 [of 12 4] s3 [of 12 4] l1 by (simp add: h2_def)
  show "take 4 (drop 16 h) = to_be32 dp"
    using s6 [of 16 4] s5 [of 16 4] s4 [of 16 4] l2 by (simp add: h3_def)
  show "take 4 (drop 20 h) = to_be32 512"
    using s6 [of 20 4] s5 [of 20 4] l3 by (simp add: h4_def JOURNAL_SECTOR_def)
  show "take 4 (drop 24 h) = to_be32 (of_nat psize)"
    using s6 [of 24 4] l4 by (simp add: h5_def)
qed

lemma length_journal_records:
  "pages_ok psize originals \<Longrightarrow> length (journal_records nonce originals) = length originals * (psize + 8)"
  by (induction originals) (auto simp: journal_record_def pages_ok_def)

lemma recover_segments_image:
  fixes nonce dp :: u32
  assumes ok: "pages_ok psize originals" and len: "length originals < 2 ^ 32"
  defines "j \<equiv> journal_image nonce dp psize originals"
  shows "recover_segments j 512 psize 0 fl False =
    Ok (put_pages psize originals fl, originals \<noteq> [])"
proof -
  let ?h = "overwrite (journal_header nonce dp psize) 8 (to_be32 (of_nat (length originals)))"
  let ?n = "length originals"
  note f = journal_header_fields [of "to_be32 (of_nat ?n)" nonce dp psize, OF length_to_be(2)]
  have jl: "length j = 512 + ?n * (psize + 8)"
    using length_journal_records [OF ok, of nonce] f(7) by (simp add: j_def journal_image_def)
  have "psize \<le> 65536" using ok by (simp add: pages_ok_def)
  then have "?n * (psize + 8) \<le> 2 ^ 32 * (65536 + 8)" using len by (intro mult_mono) auto
  then have j64: "length j < 2 ^ 64" using jl by simp
  have hd: "take 28 j = take 28 ?h" using f(7) by (simp add: j_def journal_image_def)
  have rd: "read_exact_at j 28 0 = Ok (take 28 j)" using jl j64 by simp
  have m: "take 8 (take 28 j) = JOURNAL_MAGIC" using f(1) hd by (simp add: min_def)
  have c: "be_u32 (take 28 j) 8 = Ok (of_nat ?n)" "be_u32 (take 28 j) 12 = Ok nonce"
    using f(2,3,7) hd by (simp_all add: be_u32_def drop_take min_def)
  have u: "unat (of_nat ?n :: u32) = ?n" using len by (simp add: unat_of_nat)
  have av: "(length j - 512) div (4 + psize + 4) = ?n"
  proof -
    have "length j - 512 = ?n * (4 + psize + 4)" using jl by (simp add: algebra_simps)
    then show ?thesis by (simp only:) simp
  qed
  have play: "play_records j nonce psize ?n 512 0 fl = Ok (put_pages psize originals fl, ?n)"
    using play_records_all [OF ok j64, of ?h nonce "[]" 0 fl] f(7) by (simp add: j_def journal_image_def)
  let ?nxt = "div_ceil (512 + ?n * (4 + psize + 4)) 512 * 512"
  have nxt: "length j \<le> ?nxt"
  proof -
    have "length j = 512 + ?n * (4 + psize + 4)" using jl by (simp add: algebra_simps)
    moreover have "x \<le> div_ceil x 512 * 512" for x unfolding div_ceil_def by linarith
    ultimately show ?thesis by metis
  qed
  have stop: "recover_segments j 512 psize ?nxt f' b = Ok (f', b)" for f' b
    using nxt by (subst recover_segments.simps) (simp add: file_size_def JOURNAL_HDR_FIELDS_def)
  show ?thesis
    using rd m c u av play stop nxt jl
    by (subst recover_segments.simps)
       (simp add: file_size_def JOURNAL_HDR_FIELDS_def Let_def)
qed


lemma recover_image:
  assumes ok: "pages_ok psize originals" and len: "0 < length originals" "length originals < 2 ^ 32"
    and ps: "512 \<le> psize" "is_power_of_two_nat psize"
    and j: "d_journal d = journal_image nonce dp psize originals"
  shows "recover d = Ok \<lparr>d_file = resize (put_pages psize originals (d_file d)) (unat dp * psize), d_journal = []\<rparr>"
proof -
  let ?j = "journal_image nonce dp psize originals" and ?n = "length originals"
  let ?h = "overwrite (journal_header nonce dp psize) 8 (to_be32 (of_nat ?n))"
  note f = journal_header_fields [of "to_be32 (of_nat ?n)" nonce dp psize, OF length_to_be(2)]
  have le: "psize \<le> 65536" using ok by (simp add: pages_ok_def)
  have jl: "length ?j = 512 + ?n * (psize + 8)"
    using length_journal_records [OF ok, of nonce] f(7) by (simp add: journal_image_def)
  have "?n * (psize + 8) \<le> 2 ^ 32 * (65536 + 8)" using len(2) le by (intro mult_mono) auto
  then have j64: "length ?j < 2 ^ 64" using jl by simp
  have hd: "take 28 ?j = take 28 ?h" using f(7) by (simp add: journal_image_def)
  have rd: "read_exact_at ?j 28 0 = Ok (take 28 ?j)" using jl j64 by simp
  have m: "take 8 (take 28 ?j) = JOURNAL_MAGIC" using f(1) hd by (simp add: min_def)
  have flds: "be_u32 (take 28 ?j) 8 = Ok (of_nat ?n)" "be_u32 (take 28 ?j) 16 = Ok dp"
    "be_u32 (take 28 ?j) 20 = Ok 512" "be_u32 (take 28 ?j) 24 = Ok (of_nat psize)"
    using f hd by (simp_all add: be_u32_def drop_take min_def)
  have u: "unat (of_nat psize :: u32) = psize" using le by (simp add: unat_of_nat)
  have nz: "(of_nat ?n :: u32) \<noteq> 0" using len by (auto simp: word_unat_eq_iff unat_of_nat)
  show ?thesis
    using rd m flds u nz ps jl len recover_segments_image [OF ok len(2), of nonce dp "d_file d"]
    by (simp add: recover_def j file_size_def JOURNAL_SECTOR_def JOURNAL_HDR_FIELDS_def Let_def
        file_truncate_def resize_def)
qed

section \<open>What recovery restores\<close>

text \<open>
  A file that a commit may have damaged: every page of the original file that is not among the
  saved ones is intact, and nothing of the original size is missing.
\<close>

definition damaged :: "nat \<Rightarrow> bytes \<Rightarrow> u32 set \<Rightarrow> bytes \<Rightarrow> bool" where
  "damaged psize orig dirty fl \<longleftrightarrow>
    length orig \<le> length fl \<and>
    (\<forall>m. 0 < m \<and> m * psize \<le> length orig \<and> m \<notin> unat ` dirty \<longrightarrow> file_page psize fl m = file_page psize orig m)"

lemma recover_restores:
  assumes ok: "pages_ok psize originals" and dist: "distinct (map fst originals)"
    and len: "0 < length originals" "length originals < 2 ^ 32"
    and ps: "512 \<le> psize" "is_power_of_two_nat psize"
    and orig: "length orig = unat dp * psize"
    and saved: "\<And>n buf. (n, buf) \<in> set originals \<Longrightarrow> unat n \<le> unat dp \<and> buf = file_page psize orig (unat n)"
    and dam: "damaged psize orig (fst ` set originals) (d_file d)"
    and j: "d_journal d = journal_image nonce dp psize originals"
  shows "recover d = Ok \<lparr>d_file = orig, d_journal = []\<rparr>"
proof -
  let ?f = "put_pages psize originals (d_file d)"
  have fl: "length orig \<le> length (d_file d)" using dam by (simp add: damaged_def)
  have flen: "unat dp * psize \<le> length ?f" using length_put_pages [of "d_file d" psize originals] fl orig by simp
  have "resize ?f (unat dp * psize) = orig"
  proof (rule file_eq_by_pages [of _ "unat dp" psize])
    fix m
    assume m: "0 < m" "m \<le> unat dp"
    have mp: "m * psize \<le> unat dp * psize" using m(2) by simp
    have "file_page psize (resize ?f (unat dp * psize)) m = file_page psize ?f m"
      by (rule file_page_resize [OF m(1) mp order_trans [OF mp flen]])
    also have "\<dots> = file_page psize orig m"
    proof (cases "m \<in> unat ` fst ` set originals")
      case True
      then obtain n buf where n: "(n, buf) \<in> set originals" "m = unat n" by force
      then show ?thesis using file_page_put_pages_same [OF ok dist n(1)] saved by simp
    next
      case False
      have "m * psize \<le> length (d_file d)" using mp fl orig by (metis order_trans)
      from file_page_put_pages_other [OF ok m(1) False this]
      show ?thesis using m False orig dam by (auto simp: damaged_def)
    qed
    finally show "file_page psize (resize ?f (unat dp * psize)) m = file_page psize orig m" .
  qed (use ps orig in auto)
  then show ?thesis using recover_image [OF ok len ps j] by simp
qed

lemma be_val_zero: "\<forall>b \<in> set bs. b = 0 \<Longrightarrow> be_val bs = 0"
  by (induction bs) auto

lemma recover_cold:
  assumes "\<And>i. 8 \<le> i \<Longrightarrow> i < 12 \<Longrightarrow> i < length (d_journal d) \<Longrightarrow> d_journal d ! i = 0"
    and "length (d_journal d) < 2 ^ 64"
  shows "recover d = Ok d"
proof (cases "length (d_journal d) < 512")
  case True
  then show ?thesis by (simp add: recover_def file_size_def JOURNAL_SECTOR_def)
next
  case False
  let ?j = "d_journal d"
  have rd: "read_exact_at ?j 28 0 = Ok (take 28 ?j)" using False assms(2) by simp
  have "b = 0" if b: "b \<in> set (take 4 (drop 8 (take 28 ?j)))" for b
  proof -
    obtain i where "i < length (take 4 (drop 8 (take 28 ?j)))" "take 4 (drop 8 (take 28 ?j)) ! i = b"
      using b unfolding in_set_conv_nth by blast
    then show ?thesis using assms(1) [of "8 + i"] False by simp
  qed
  then have "be_val (take 4 (drop 8 (take 28 ?j))) = 0" by (intro be_val_zero) blast
  then have "be_u32 (take 28 ?j) 8 = Ok 0" using False by (simp add: from_be32_def)
  moreover have "\<exists>a b c. be_u32 (take 28 ?j) 16 = Ok a \<and> be_u32 (take 28 ?j) 20 = Ok b \<and> be_u32 (take 28 ?j) 24 = Ok c"
    using False by simp
  ultimately show ?thesis using rd False
    by (auto simp: recover_def file_size_def JOURNAL_SECTOR_def JOURNAL_HDR_FIELDS_def Let_def)
qed

end
