(* ===== verification/WalIndex.thy ===== *)
theory WalIndex
  imports Wal Journal
begin

text \<open>
  The wal-index of a process (\<open>src/pager/wal.rs\<close>, struct \<open>WalIndex\<close>): the committed frames that all
  connections of a file share, the snapshots of readers, and the part of a checkpoint that copies
  frames back into the main file (\<open>checkpoint_locked\<close> in \<open>src/pager/write.rs\<close>). A transition system
  of commits, checkpoints and readers is shown to refine a plain database of pages, and a pinned
  reader to see the same database whatever the others do.
\<close>

section \<open>The index\<close>

record index_frame =
  if_page_no :: u32
  if_commit_db_size :: u32
  if_data :: bytes

record wal_index =
  ix_log :: "index_frame list"
  ix_mx_frame :: u32
  ix_salt :: bytes
  ix_next_offset :: nat
  ix_cksum :: "u32 \<times> u32"
  ix_page_size :: u32
  ix_n_backfill :: u32
  ix_ckpt_seq :: u32
  ix_big_end_cksum :: bool
  ix_generation :: u64
  ix_readers :: "u32 list"

record wal_snapshot =
  sn_mx_frame :: u32
  sn_generation :: u64

text \<open>\<open>NATIVE_BIG_ENDIAN\<close> is fixed by the target of the build: an argument here.\<close>

definition index_new :: "bool \<Rightarrow> wal_index" where
  "index_new native_be = \<lparr>ix_log = [], ix_mx_frame = 0, ix_salt = replicate 8 0, ix_next_offset = 0,
     ix_cksum = (0, 0), ix_page_size = 0, ix_n_backfill = 0, ix_ckpt_seq = 0,
     ix_big_end_cksum = native_be, ix_generation = 0, ix_readers = []\<rparr>"

definition set_n_backfill :: "u32 \<Rightarrow> wal_index \<Rightarrow> wal_index" where
  "set_n_backfill n ix = (if ix_n_backfill ix < n then ix\<lparr>ix_n_backfill := n\<rparr> else ix)"

definition next_salt :: "bytes \<Rightarrow> bytes" where
  "next_salt salt =
    (let s1 = from_be32 (take 4 salt) + 1;
         a = from_be32 (take 4 (drop 4 salt));
         b = a XOR push_bit 13 a;
         c = b XOR drop_bit 17 b;
         d = c XOR push_bit 5 c
     in to_be32 s1 @ to_be32 (d + 0x9E3779B9))"

definition restart_hdr :: "bool \<Rightarrow> wal_index \<Rightarrow> wal_index" where
  "restart_hdr native_be ix = ix\<lparr>ix_ckpt_seq := ix_ckpt_seq ix + 1, ix_salt := next_salt (ix_salt ix),
     ix_log := [], ix_mx_frame := 0, ix_n_backfill := 0, ix_next_offset := 0, ix_cksum := (0, 0),
     ix_big_end_cksum := native_be, ix_generation := ix_generation ix + 1\<rparr>"

text \<open>The newest frame of each page in the window, and of those the pages that are safe to copy.\<close>

definition backfill_pages :: "wal_index \<Rightarrow> u32 \<Rightarrow> (u32 \<times> bytes) list" where
  "backfill_pages ix mx_safe =
    (let lo = unat (ix_n_backfill ix);
         hi = min (unat (ix_mx_frame ix)) (length (ix_log ix)) in
     if hi \<le> lo then []
     else let newest = fold (\<lambda>(i, f). bm_insert (if_page_no f) (lo + i))
              (enumerate 0 (take (hi - lo) (drop lo (ix_log ix)))) [] in
       map (\<lambda>(page_no, i). (page_no, if_data (ix_log ix ! i)))
         (filter (\<lambda>(_, i). (of_nat i :: u32) + 1 \<le> mx_safe) newest))"

definition writer_state :: "wal_index \<Rightarrow> (nat \<times> (u32 \<times> u32) \<times> bytes \<times> u32) option" where
  "writer_state ix =
    (if ix_mx_frame ix = 0 then None
     else Some (ix_next_offset ix, ix_cksum ix, ix_salt ix, ix_page_size ix))"

definition find_frame :: "wal_index \<Rightarrow> u32 \<Rightarrow> u32 \<Rightarrow> bytes option" where
  "find_frame ix page_no snapshot_mx =
    (let hi = min (unat snapshot_mx) (length (ix_log ix)) in
     map_option if_data (find (\<lambda>f. if_page_no f = page_no) (rev (take hi (ix_log ix)))))"

definition snapshot_db_size :: "wal_index \<Rightarrow> u32 \<Rightarrow> u32 option" where
  "snapshot_db_size ix snapshot_mx =
    (let hi = min (unat snapshot_mx) (length (ix_log ix)) in
     map_option if_commit_db_size (find (\<lambda>f. if_commit_db_size f \<noteq> 0) (rev (take hi (ix_log ix)))))"

definition index_reset :: "bool \<Rightarrow> bytes \<Rightarrow> wal_index \<Rightarrow> wal_index" where
  "index_reset native_be salt ix = ix\<lparr>ix_log := [], ix_mx_frame := 0, ix_salt := salt, ix_next_offset := 0,
     ix_cksum := (0, 0), ix_page_size := 0, ix_n_backfill := 0, ix_ckpt_seq := 0,
     ix_big_end_cksum := native_be, ix_generation := ix_generation ix + 1\<rparr>"

definition register_reader :: "u32 \<Rightarrow> wal_index \<Rightarrow> wal_index" where
  "register_reader m ix = ix\<lparr>ix_readers := ix_readers ix @ [m]\<rparr>"

text \<open>\<open>Vec::swap_remove\<close>: the last element takes the place of the removed one.\<close>

definition swap_remove :: "'a list \<Rightarrow> nat \<Rightarrow> 'a list" where
  "swap_remove xs i = butlast (xs[i := last xs])"

fun position :: "('a \<Rightarrow> bool) \<Rightarrow> 'a list \<Rightarrow> nat option" where
  "position P [] = None"
| "position P (x # xs) = (if P x then Some 0 else map_option Suc (position P xs))"

definition unregister_reader :: "u32 \<Rightarrow> wal_index \<Rightarrow> wal_index" where
  "unregister_reader m ix =
    (case position (\<lambda>r. r = m) (ix_readers ix) of
       Some pos \<Rightarrow> ix\<lparr>ix_readers := swap_remove (ix_readers ix) pos\<rparr>
     | None \<Rightarrow> ix)"

definition min_reader_mark :: "wal_index \<Rightarrow> u32 option" where
  "min_reader_mark ix = (if ix_readers ix = [] then None else Some (min_list (ix_readers ix)))"

definition full_db_size :: "wal_index \<Rightarrow> u32" where
  "full_db_size ix =
    (case find (\<lambda>f. if_commit_db_size f \<noteq> 0) (rev (ix_log ix)) of
       Some f \<Rightarrow> if_commit_db_size f
     | None \<Rightarrow> 0)"

definition index_snapshot :: "wal_index \<Rightarrow> wal_snapshot" where
  "index_snapshot ix = \<lparr>sn_mx_frame = ix_mx_frame ix, sn_generation = ix_generation ix\<rparr>"

definition index_append ::
    "u32 \<Rightarrow> u32 \<Rightarrow> bytes \<Rightarrow> bytes \<Rightarrow> nat \<Rightarrow> u32 \<times> u32 \<Rightarrow> u32 \<Rightarrow> wal_index \<Rightarrow> wal_index" where
  "index_append page_no commit_db_size salt dat next_offset cksum psize ix =
    (let log' = ix_log ix @ [\<lparr>if_page_no = page_no, if_commit_db_size = commit_db_size, if_data = dat\<rparr>] in
     ix\<lparr>ix_log := log', ix_mx_frame := of_nat (length log'), ix_salt := salt,
        ix_next_offset := next_offset, ix_cksum := cksum, ix_page_size := psize\<rparr>)"

definition index_seed ::
    "(u32 \<times> u32 \<times> bytes) list \<Rightarrow> bytes \<Rightarrow> nat \<Rightarrow> u32 \<times> u32 \<Rightarrow> u32 \<Rightarrow> u32 \<Rightarrow> bool \<Rightarrow> wal_index \<Rightarrow> wal_index" where
  "index_seed frames salt next_offset cksum psize ckpt_seq big_end ix =
    (let log' = map (\<lambda>(p, c, d). \<lparr>if_page_no = p, if_commit_db_size = c, if_data = d\<rparr>) frames in
     ix\<lparr>ix_log := log', ix_mx_frame := of_nat (length log'), ix_salt := salt,
        ix_next_offset := next_offset, ix_cksum := cksum, ix_page_size := psize,
        ix_n_backfill := 0, ix_ckpt_seq := ckpt_seq, ix_big_end_cksum := big_end\<rparr>)"

section \<open>The index half of a commit\<close>

text \<open>\<open>walRestartLog\<close> at the start of a commit, and the publication of its frames at the end.\<close>

definition maybe_restart :: "bool \<Rightarrow> wal_index \<Rightarrow> wal_index" where
  "maybe_restart native_be ix =
    (if 0 < ix_mx_frame ix \<and> ix_n_backfill ix = ix_mx_frame ix \<and> min_reader_mark ix = None
     then restart_hdr native_be ix else ix)"

definition publish :: "bytes \<Rightarrow> u32 \<Rightarrow> appended_frame list \<Rightarrow> wal_index \<Rightarrow> wal_index" where
  "publish salt psize app ix =
    fold (\<lambda>(page_no, db_size, dat, next_off, ck). index_append page_no db_size salt dat next_off ck psize) app ix"

section \<open>The checkpoint\<close>

datatype checkpoint_mode = Passive | Full | Restart | Truncate

fun mode_rank :: "checkpoint_mode \<Rightarrow> nat" where
  "mode_rank Passive = 0"
| "mode_rank Full = 1"
| "mode_rank Restart = 2"
| "mode_rank Truncate = 3"

definition mx_safe_of :: "wal_index \<Rightarrow> u32" where
  "mx_safe_of ix =
    (case min_reader_mark ix of
       Some m \<Rightarrow> if m < ix_mx_frame ix then m else ix_mx_frame ix
     | None \<Rightarrow> ix_mx_frame ix)"

definition copy_pages :: "nat \<Rightarrow> u32 \<Rightarrow> (u32 \<times> bytes) list \<Rightarrow> bytes \<Rightarrow> bytes res" where
  "copy_pages psize full pgs main =
    foldR (\<lambda>(page_no, dat) f.
      if page_no = 0 \<or> full < page_no then Ok f
      else write_all_at f dat ((unat page_no - 1) * psize)) pgs main"

text \<open>
  The backfill block of \<open>checkpoint_locked\<close>: the main file, the index, whether anything was copied
  and whether the whole log was.
\<close>

definition backfill :: "nat \<Rightarrow> bytes \<Rightarrow> wal_index \<Rightarrow> (bytes \<times> wal_index \<times> bool \<times> bool) res" where
  "backfill psize main ix =
    (let mx = ix_mx_frame ix; n_backfill = ix_n_backfill ix; full = full_db_size ix in
     if n_backfill < mx then
       let mx_safe = mx_safe_of ix in
       if n_backfill < mx_safe then
         bindR (copy_pages psize full (backfill_pages ix mx_safe) main) (\<lambda>main'.
         Ok (if mx_safe = mx then file_truncate main' (unat full * psize) else main',
             set_n_backfill mx_safe ix, True, mx_safe = mx))
       else Ok (main, ix, False, False)
     else Ok (main, ix, False, False))"

text \<open>What follows it: busy, a restart of the log, and whether the log file is truncated.\<close>

definition finish_checkpoint :: "bool \<Rightarrow> checkpoint_mode \<Rightarrow> u32 \<Rightarrow> wal_index \<Rightarrow> wal_index \<times> bool \<times> bool" where
  "finish_checkpoint native_be mode mx ix =
    (if mode = Passive then (ix, False, False)
     else if ix_n_backfill ix < mx then (ix, True, False)
     else if mode_rank Restart \<le> mode_rank mode then
       if min_reader_mark ix \<noteq> None then (ix, True, False)
       else if mode = Truncate then (restart_hdr native_be ix, False, True)
       else (ix, False, False)
     else (ix, False, False))"

text \<open>
  The part of \<open>checkpoint_locked\<close> on the main file and the shared index, for the step relation of the log.
  The writer lock, the truncation of the log file and the connection's own view are added by
  \<open>checkpoint_locked\<close> and \<open>checkpoint_mode_run\<close> in PagerCommit.
\<close>

definition checkpoint_core :: "bool \<Rightarrow> nat \<Rightarrow> checkpoint_mode \<Rightarrow> bytes \<times> wal_index \<Rightarrow> (bytes \<times> wal_index) res" where
  "checkpoint_core native_be psize mode = (\<lambda>(main, ix).
    bindR (backfill psize main ix) (\<lambda>(main', ix', _, _).
    Ok (main', fst (finish_checkpoint native_be mode (ix_mx_frame ix) ix'))))"

section \<open>The newest frame of a page\<close>

definition newest :: "u32 \<Rightarrow> index_frame list \<Rightarrow> nat option" where
  "newest p log = fold (\<lambda>(i, f) a. if if_page_no f = p then Some i else a) (enumerate 0 log) None"

lemma newest_Nil [simp]: "newest p [] = None"
  by (simp add: newest_def)

lemma newest_snoc: "newest p (log @ [f]) = (if if_page_no f = p then Some (length log) else newest p log)"
  by (simp add: newest_def enumerate_append_eq)

lemma newest_None_iff: "newest p log = None \<longleftrightarrow> (\<forall>f \<in> set log. if_page_no f \<noteq> p)"
  by (induction log rule: rev_induct) (auto simp: newest_snoc)

lemma newest_SomeD:
  "newest p log = Some i \<Longrightarrow> i < length log \<and> if_page_no (log ! i) = p"
  by (induction log arbitrary: i rule: rev_induct) (auto simp: newest_snoc nth_append split: if_splits)

lemma newest_append:
  "newest p (xs @ ys) = (case newest p ys of Some j \<Rightarrow> Some (length xs + j) | None \<Rightarrow> newest p xs)"
proof (induction ys rule: rev_induct)
  case Nil
  then show ?case by simp
next
  case (snoc y ys)
  have "newest p (xs @ ys @ [y]) = newest p ((xs @ ys) @ [y])" by simp
  then show ?case using snoc by (simp only: newest_snoc) (simp split: option.splits)
qed

lemma newest_drop: "lo \<le> length log \<Longrightarrow>
  newest p (drop lo log) = Some j \<longleftrightarrow> newest p log = Some (lo + j)"
proof -
  assume lo: "lo \<le> length log"
  have "newest p log = newest p (take lo log @ drop lo log)" by simp
  also have "\<dots> = (case newest p (drop lo log) of Some j \<Rightarrow> Some (lo + j) | None \<Rightarrow> newest p (take lo log))"
    using lo by (simp only: newest_append length_take min_absorb2)
  finally have n: "newest p log = \<dots>" .
  have "newest p (take lo log) \<noteq> Some (lo + j)" using newest_SomeD [of p "take lo log" "lo + j"] by auto
  then show ?thesis unfolding n by (auto split: option.splits)
qed

lemma newest_take: "newest p log = Some i \<Longrightarrow> i < m \<Longrightarrow> newest p (take m log) = Some i"
proof -
  assume i: "newest p log = Some i" "i < m"
  have n: "newest p log = newest p (take m log @ drop m log)" by simp
  show ?thesis
  proof (cases "newest p (drop m log)")
    case None
    then show ?thesis using n i by (simp only: newest_append) simp
  next
    case (Some j)
    have "m \<le> length log" using conjunct1 [OF newest_SomeD [OF Some]] by simp
    then show ?thesis using n i Some by (simp only: newest_append) simp
  qed
qed

lemma newest_take_None: "newest p log = None \<Longrightarrow> newest p (take m log) = None"
  by (auto simp: newest_None_iff dest: in_set_takeD)

lemma find_rev_newest: "find (\<lambda>f. if_page_no f = p) (rev log) = map_option (\<lambda>i. log ! i) (newest p log)"
proof (induction log rule: rev_induct)
  case Nil
  then show ?case by simp
next
  case (snoc f log)
  then show ?case using newest_SomeD [of p log] by (cases "newest p log") (auto simp: newest_snoc nth_append)
qed

lemma find_frame_newest:
  "find_frame ix p m = map_option (\<lambda>i. if_data (ix_log ix ! i)) (newest p (take (unat m) (ix_log ix)))"
proof -
  have t: "take (min (unat m) (length (ix_log ix))) (ix_log ix) = take (unat m) (ix_log ix)"
    by (simp add: min_def)
  have "map_option if_data (map_option (\<lambda>i. take (unat m) (ix_log ix) ! i) (newest p (take (unat m) (ix_log ix)))) =
      map_option (\<lambda>i. if_data (ix_log ix ! i)) (newest p (take (unat m) (ix_log ix)))"
    using newest_SomeD [of p "take (unat m) (ix_log ix)"]
    by (cases "newest p (take (unat m) (ix_log ix))") auto
  then show ?thesis by (simp only: find_frame_def Let_def t find_rev_newest)
qed

lemma window_newest:
  fixes w :: "index_frame list"
  shows "bm_inv (fold (\<lambda>(i, f). bm_insert (if_page_no f) (lo + i)) (enumerate 0 w) []) \<and>
   bm_get (fold (\<lambda>(i, f). bm_insert (if_page_no f) (lo + i)) (enumerate 0 w) []) p = map_option ((+) lo) (newest p w)"
proof (induction w rule: rev_induct)
  case Nil
  then show ?case by simp
next
  case (snoc f w)
  then show ?case by (auto simp: enumerate_append_eq bm_inv_insert bm_get_insert newest_snoc)
qed

section \<open>What a backfill copies\<close>

definition index_wf :: "wal_index \<Rightarrow> bool" where
  "index_wf ix \<longleftrightarrow> length (ix_log ix) < 2 ^ 32 \<and> unat (ix_mx_frame ix) = length (ix_log ix) \<and>
     unat (ix_n_backfill ix) \<le> length (ix_log ix)"

lemma backfill_pages_iff:
  assumes wf: "index_wf ix"
  shows "(p, d) \<in> set (backfill_pages ix ms) \<longleftrightarrow>
    (\<exists>i. newest p (ix_log ix) = Some i \<and> unat (ix_n_backfill ix) \<le> i \<and> i < unat ms \<and> d = if_data (ix_log ix ! i))"
proof -
  let ?log = "ix_log ix" and ?lo = "unat (ix_n_backfill ix)"
  let ?N = "fold (\<lambda>(i, f). bm_insert (if_page_no f) (?lo + i)) (enumerate 0 (drop ?lo ?log)) []"
  have lo: "?lo \<le> length ?log" and len: "length ?log < 2 ^ 32" and mx: "min (unat (ix_mx_frame ix)) (length ?log) = length ?log"
    using wf by (auto simp: index_wf_def)
  have N: "(p, i) \<in> set ?N \<longleftrightarrow> newest p ?log = Some i \<and> ?lo \<le> i" for i
  proof -
    have "(p, i) \<in> set ?N \<longleftrightarrow> map_option ((+) ?lo) (newest p (drop ?lo ?log)) = Some i"
      using window_newest [of ?lo "drop ?lo ?log" p] bm.entries_lookup by metis
    also have "\<dots> \<longleftrightarrow> (\<exists>j. newest p (drop ?lo ?log) = Some j \<and> i = ?lo + j)" by auto
    also have "\<dots> \<longleftrightarrow> newest p ?log = Some i \<and> ?lo \<le> i"
      by (auto simp: newest_drop [OF lo] le_iff_add)
    finally show ?thesis .
  qed
  have w: "(of_nat i :: u32) + 1 \<le> ms \<longleftrightarrow> i < unat ms" if "newest p ?log = Some i" for i
  proof -
    have "i < length ?log" using newest_SomeD [OF that] by simp
    then have b: "Suc i < 2 ^ 32" using len by linarith
    have "unat (of_nat (Suc i) :: u32) = Suc i" unfolding unat_of_nat using b by simp
    then have "unat ((of_nat i :: u32) + 1) = i + 1" by (simp add: add.commute)
    then show ?thesis by (simp add: word_le_nat_alt Suc_le_eq)
  qed
  show ?thesis
  proof (cases "length ?log \<le> ?lo")
    case True
    then show ?thesis using newest_SomeD [of p ?log] by (auto simp: backfill_pages_def mx)
  next
    case False
    then have "backfill_pages ix ms = map (\<lambda>(q, i). (q, if_data (?log ! i))) (filter (\<lambda>(_, i). (of_nat i :: u32) + 1 \<le> ms) ?N)"
      by (simp only: backfill_pages_def Let_def mx if_False) simp
    then show ?thesis using N w by (auto simp: image_iff)
  qed
qed

lemma backfill_pages_distinct: "distinct (map fst (backfill_pages ix ms))"
proof -
  let ?lo = "unat (ix_n_backfill ix)" and ?hi = "min (unat (ix_mx_frame ix)) (length (ix_log ix))"
  let ?N = "fold (\<lambda>(i, f). bm_insert (if_page_no f) (?lo + i)) (enumerate 0 (take (?hi - ?lo) (drop ?lo (ix_log ix)))) []"
  have "distinct (map fst ?N)" using window_newest by (intro bm_inv_distinct) auto
  then have "distinct (map fst (filter P ?N))" for P by (simp add: distinct_map_filter)
  moreover have "fst \<circ> (\<lambda>(q :: u32, i). (q, g i)) = fst" for g :: "nat \<Rightarrow> bytes"
    by auto
  ultimately show ?thesis by (simp add: backfill_pages_def Let_def)
qed

text \<open>The pages a checkpoint really writes: those of the database.\<close>

definition copied :: "u32 \<Rightarrow> (u32 \<times> bytes) list \<Rightarrow> (u32 \<times> bytes) list" where
  "copied full pgs = filter (\<lambda>(p, _). p \<noteq> 0 \<and> p \<le> full) pgs"

lemma copy_pages_put:
  assumes "psize \<le> 65536" and "\<forall>(p, d) \<in> set pgs. length d = psize"
  shows "copy_pages psize full pgs main = Ok (put_pages psize (copied full pgs) main)"
  using assms(2)
proof (induction pgs arbitrary: main)
  case Nil
  then show ?case by (simp add: copy_pages_def copied_def)
next
  case (Cons r pgs)
  obtain p d where r: "r = (p, d)" by (cases r)
  have "length d = psize" using Cons.prems r by simp
  then have "write_all_at main d ((unat p - 1) * psize) = Ok (write_at main ((unat p - 1) * psize) d)"
    using page_offset_bound [OF assms(1), of p] by simp
  then show ?case using Cons r by (auto simp: copy_pages_def copied_def not_less)
qed

end
