(* ===== verification/Ptrmap.thy ===== *)
theory Ptrmap
  imports Errors
begin

text \<open>
  Pointer-map pages of auto-vacuum databases (\<open>src/btree/ptrmap.rs\<close>): which page holds the entry
  of a page, where in that page, and the five-byte entry itself. Page numbers are \<open>u32\<close> in the
  source; the products stay below the page number they are computed from, so the model uses
  \<open>nat\<close> with the subtractions that can underflow written out.
\<close>

definition ENTRY_SIZE :: nat where
  "ENTRY_SIZE = 5"

datatype ptrmap_type = RootPage | FreePage | Overflow1 | Overflow2 | Btree

fun ptrmap_as_u8 :: "ptrmap_type \<Rightarrow> u8" where
  "ptrmap_as_u8 RootPage = 1"
| "ptrmap_as_u8 FreePage = 2"
| "ptrmap_as_u8 Overflow1 = 3"
| "ptrmap_as_u8 Overflow2 = 4"
| "ptrmap_as_u8 Btree = 5"

definition ptrmap_from_u8 :: "u8 \<Rightarrow> ptrmap_type option" where
  "ptrmap_from_u8 b =
    (if b = 1 then Some RootPage
     else if b = 2 then Some FreePage
     else if b = 3 then Some Overflow1
     else if b = 4 then Some Overflow2
     else if b = 5 then Some Btree
     else None)"

definition entries_per_page :: "nat \<Rightarrow> nat" where
  "entries_per_page usable = usable div ENTRY_SIZE"

definition ptrmap_pageno :: "nat \<Rightarrow> nat \<Rightarrow> nat res" where
  "ptrmap_pageno usable pgno =
    (let cycle = entries_per_page usable + 1
     in bindR (usub pgno 2) (\<lambda>offset. Ok (offset div cycle * cycle + 2)))"

definition is_ptrmap_page :: "nat \<Rightarrow> nat \<Rightarrow> bool" where
  "is_ptrmap_page usable pgno \<longleftrightarrow> \<not> pgno < 2 \<and> ptrmap_pageno usable pgno = Ok pgno"

definition ptrmap_entry_offset :: "nat \<Rightarrow> nat \<Rightarrow> nat res" where
  "ptrmap_entry_offset usable pgno =
    bindR (ptrmap_pageno usable pgno) (\<lambda>m. bindR (usub pgno (m + 1)) (\<lambda>slot. Ok (slot * ENTRY_SIZE)))"

definition encode_entry :: "ptrmap_type \<Rightarrow> u32 \<Rightarrow> bytes" where
  "encode_entry kind parent = ptrmap_as_u8 kind # to_be32 parent"

definition decode_entry :: "bytes \<Rightarrow> (ptrmap_type \<times> u32) option" where
  "decode_entry entry =
    (case entry of
       [] \<Rightarrow> None
     | b # p \<Rightarrow> (case ptrmap_from_u8 b of None \<Rightarrow> None | Some kind \<Rightarrow> Some (kind, from_be32 p)))"

section \<open>Entries\<close>

lemma ptrmap_from_as_u8 [simp]: "ptrmap_from_u8 (ptrmap_as_u8 k) = Some k"
  by (cases k) (simp_all add: ptrmap_from_u8_def)

lemma ptrmap_as_from_u8: "ptrmap_from_u8 b = Some k \<Longrightarrow> ptrmap_as_u8 k = b"
  by (auto simp: ptrmap_from_u8_def split: if_splits)

lemma length_encode_entry [simp]: "length (encode_entry k p) = 5"
  by (simp add: encode_entry_def)

lemma decode_encode_entry [simp]: "decode_entry (encode_entry k p) = Some (k, p)"
  by (simp add: decode_entry_def encode_entry_def)

lemma encode_decode_entry: "length e = 5 \<Longrightarrow> decode_entry e = Some (k, p) \<Longrightarrow> encode_entry k p = e"
  by (auto simp: decode_entry_def encode_entry_def ptrmap_as_from_u8 split: list.splits option.splits)

section \<open>The layout\<close>

text \<open>A tracked page: neither the header page nor a pointer-map page.\<close>

definition tracked :: "nat \<Rightarrow> nat \<Rightarrow> bool" where
  "tracked usable pgno \<longleftrightarrow> 2 < pgno \<and> \<not> is_ptrmap_page usable pgno"

lemma ptrmap_pageno_Ok:
  "2 \<le> pgno \<Longrightarrow> ptrmap_pageno usable pgno = Ok ((pgno - 2) div (entries_per_page usable + 1) * (entries_per_page usable + 1) + 2)"
  by (simp add: ptrmap_pageno_def Let_def)

lemma is_ptrmap_page_iff:
  "is_ptrmap_page usable pgno \<longleftrightarrow> (\<exists>k. pgno = 2 + k * (entries_per_page usable + 1))"
proof
  assume "is_ptrmap_page usable pgno"
  then have "2 \<le> pgno" "ptrmap_pageno usable pgno = Ok pgno" by (simp_all add: is_ptrmap_page_def)
  then have "(pgno - 2) div (entries_per_page usable + 1) * (entries_per_page usable + 1) + 2 = pgno"
    using ptrmap_pageno_Ok [of pgno usable] by (simp only: res.inject)
  then show "\<exists>k. pgno = 2 + k * (entries_per_page usable + 1)" by (metis add.commute)
next
  assume "\<exists>k. pgno = 2 + k * (entries_per_page usable + 1)"
  then obtain k where k: "pgno = 2 + k * (entries_per_page usable + 1)" by blast
  have "(pgno - 2) div (entries_per_page usable + 1) = k" 
    unfolding k add_diff_cancel_left' by (rule nonzero_mult_div_cancel_right) simp
  with k show "is_ptrmap_page usable pgno" by (simp add: is_ptrmap_page_def ptrmap_pageno_Ok)
qed

text \<open>
  The entry of a tracked page lies on a pointer-map page before it, within that page's usable
  bytes.
\<close>

lemma ptrmap_layout:
  assumes "tracked usable pgno"
  obtains m off where "ptrmap_pageno usable pgno = Ok m" and "is_ptrmap_page usable m"
    and "m < pgno" and "pgno \<le> m + entries_per_page usable"
    and "ptrmap_entry_offset usable pgno = Ok off" and "off = (pgno - m - 1) * ENTRY_SIZE"
    and "off + ENTRY_SIZE \<le> usable"
proof -
  let ?c = "entries_per_page usable + 1"
  let ?q = "(pgno - 2) div ?c"
  let ?m = "?q * ?c + 2"
  have ge: "2 \<le> pgno" using assms by (simp add: tracked_def)
  have m: "ptrmap_pageno usable pgno = Ok ?m" using ge by (rule ptrmap_pageno_Ok)
  have mp: "is_ptrmap_page usable ?m" using is_ptrmap_page_iff by (metis add.commute)
  have dm: "pgno - 2 = ?q * ?c + (pgno - 2) mod ?c" by (rule div_mult_mod_eq [symmetric])
  have md: "(pgno - 2) mod ?c < ?c" by simp
  have "?m \<noteq> pgno" using mp assms by (auto simp: tracked_def)
  then have lt: "?m < pgno" using ge dm by linarith
  have le: "pgno \<le> ?m + entries_per_page usable" using dm md ge by linarith
  let ?off = "(pgno - ?m - 1) * ENTRY_SIZE"
  have off: "ptrmap_entry_offset usable pgno = Ok ?off"
    using m lt by (simp add: ptrmap_entry_offset_def)
  have "pgno - ?m \<le> entries_per_page usable" using le by linarith
  then have "pgno - ?m \<le> usable div 5" by (simp only: entries_per_page_def ENTRY_SIZE_def)
  then have "?off + ENTRY_SIZE \<le> usable div 5 * 5" using lt unfolding ENTRY_SIZE_def by linarith
  then have "?off + ENTRY_SIZE \<le> usable" by (meson div_times_less_eq_dividend order_trans)
  with that m mp lt le off show ?thesis by blast
qed

lemma ptrmap_entries_disjoint:
  assumes "tracked usable p" and "tracked usable q" and "p \<noteq> q"
    and "ptrmap_pageno usable p = ptrmap_pageno usable q"
    and "ptrmap_entry_offset usable p = Ok a" and "ptrmap_entry_offset usable q = Ok b"
  shows "a + ENTRY_SIZE \<le> b \<or> b + ENTRY_SIZE \<le> a"
proof -
  obtain m where m: "ptrmap_pageno usable p = Ok m" "m < p" "a = (p - m - 1) * 5"
    using ptrmap_layout [OF assms(1)] assms(5) by (metis ENTRY_SIZE_def res.inject(1))
  obtain m' where m': "ptrmap_pageno usable q = Ok m'" "m' < q" "b = (q - m' - 1) * 5"
    using ptrmap_layout [OF assms(2)] assms(6) by (metis ENTRY_SIZE_def res.inject(1))
  have "m = m'" using m(1) m'(1) assms(4) by simp
  then show ?thesis using m m' assms(3) unfolding ENTRY_SIZE_def by presburger
qed

text \<open>Storing the entry of one page: it reads back, and the entries of the other pages keep.\<close>

lemma ptrmap_store_entry:
  fixes k :: ptrmap_type and parent :: u32
  assumes "tracked usable p" and "usable \<le> length buf"
    and "ptrmap_entry_offset usable p = Ok a"
  defines "buf' \<equiv> overwrite buf a (encode_entry k parent)"
  shows "decode_entry (take 5 (drop a buf')) = Some (k, parent)"
    and "tracked usable q \<Longrightarrow> q \<noteq> p \<Longrightarrow> ptrmap_pageno usable q = ptrmap_pageno usable p \<Longrightarrow>
      ptrmap_entry_offset usable q = Ok b \<Longrightarrow> take 5 (drop b buf') = take 5 (drop b buf)"
proof -
  have "a + 5 \<le> usable"
    using ptrmap_layout [OF assms(1)] assms(3) by (metis ENTRY_SIZE_def res.inject(1))
  then have fit: "a + length (encode_entry k parent) \<le> length buf" using assms(2) by simp
  then show "decode_entry (take 5 (drop a buf')) = Some (k, parent)"
    by (simp add: buf'_def)
  assume "tracked usable q" "q \<noteq> p" "ptrmap_pageno usable q = ptrmap_pageno usable p"
    "ptrmap_entry_offset usable q = Ok b"
  from ptrmap_entries_disjoint [OF assms(1) this(1) this(2) [symmetric] this(3) [symmetric] assms(3) this(4)]
  show "take 5 (drop b buf') = take 5 (drop b buf)"
    using fit by (auto simp: buf'_def ENTRY_SIZE_def intro!: slice_overwrite_other)
qed

end
