(* ===== verification/WritePager.thy ===== *)
theory WritePager
  imports StateResult PageCache WalIndex Ptrmap
begin

text \<open>
  The write pager (\<open>src/pager/write.rs\<close>): staged pages over a database file with an optional journal
  and an optional write-ahead log. The files, the locks and the wal-index are shared by every
  connection of a path (\<open>world\<close>); the rest is private to a connection (\<open>write_pager\<close>). This theory
  holds the state and the operations of a transaction: locks, reads, staged writes, page allocation
  and the free list, savepoints and rollback.
\<close>

section \<open>State\<close>

datatype auto_vacuum = AvNone | AvFull | AvIncremental

text \<open>Shared by the connections of one path: file contents, locks of the main file, wal-index.\<close>

record world =
  w_main :: bytes
  w_journal :: bytes
  w_wal :: bytes
  w_locks :: lock_sys
  w_index :: wal_index

record savepoint =
  sp_name :: string
  sp_overlay :: "(u32, bytes) btree_map"
  sp_header :: database_header
  sp_page_count :: u32

record wal_runtime =
  rt_snapshot :: wal_snapshot
  rt_registered :: "u32 option"
  rt_db_size :: u32
  rt_salt :: bytes

text \<open>
  \<open>wp_handle\<close> is the pager's handle of the main file in the lock registry; the journal and the log
  are optional files.
\<close>

record write_pager =
  wp_handle :: nat
  wp_journal :: bool
  wp_wal_file :: bool
  wp_header :: database_header
  wp_committed_header :: database_header
  wp_page_size :: nat
  wp_disk_pages :: u32
  wp_page_count :: u32
  wp_overlay :: "(u32, bytes) btree_map"
  wp_wal :: "wal_runtime option"
  wp_held :: lock_level
  wp_read_txn :: bool
  wp_transient_read :: bool
  wp_savepoints :: "savepoint list"
  wp_secure_delete :: bool
  wp_read_cache :: page_cache
  wp_read_cache_token :: "u32 option"

type_synonym pst = "world \<times> write_pager"

abbreviation modW :: "(world \<Rightarrow> world) \<Rightarrow> (pst, unit) act" where
  "modW f \<equiv> modA (\<lambda>(w, p). (f w, p))"

abbreviation modP :: "(write_pager \<Rightarrow> write_pager) \<Rightarrow> (pst, unit) act" where
  "modP f \<equiv> modA (\<lambda>(w, p). (w, f p))"

text \<open>Checked arithmetic on \<open>u32\<close>.\<close>

definition inc32 :: "u32 \<Rightarrow> u32 res" where
  "inc32 n = (if n = - 1 then Panic else Ok (n + 1))"

definition dec32 :: "u32 \<Rightarrow> u32 res" where
  "dec32 n = (if n = 0 then Panic else Ok (n - 1))"

section \<open>Locks\<close>

definition lock_main :: "lock_level \<Rightarrow> (pst, unit) act" where
  "lock_main level = (\<lambda>(w, p). case file_lock (w_locks w) (wp_handle p) level of
     Ok l \<Rightarrow> (Ok (), (w\<lparr>w_locks := l\<rparr>, p))
   | Err e \<Rightarrow> (Err e, (w, p))
   | Panic \<Rightarrow> (Panic, (w, p)))"

text \<open>\<open>let _ = self.file.unlock(level)\<close>.\<close>

definition unlock_main :: "lock_level \<Rightarrow> (pst, unit) act" where
  "unlock_main level = (\<lambda>(w, p). case file_unlock (w_locks w) (wp_handle p) level of
     Ok l \<Rightarrow> (Ok (), (w\<lparr>w_locks := l\<rparr>, p))
   | Err e \<Rightarrow> (Ok (), (w, p))
   | Panic \<Rightarrow> (Panic, (w, p)))"

definition set_held :: "lock_level \<Rightarrow> (pst, unit) act" where
  "set_held l = modP (\<lambda>p. p\<lparr>wp_held := l\<rparr>)"

definition drop_cache :: "write_pager \<Rightarrow> write_pager" where
  "drop_cache p = p\<lparr>wp_read_cache := cache_clear (wp_read_cache p), wp_read_cache_token := None\<rparr>"

text \<open>Dropping the reader mark of a connection, shared by \<open>end_read_txn\<close> and \<open>release_locks\<close>.\<close>

definition unpin :: "(pst, unit) act" where
  "unpin = modA (\<lambda>(w, p). case wp_wal p of
     Some rt \<Rightarrow> (case rt_registered rt of
         Some mark \<Rightarrow> (w\<lparr>w_index := unregister_reader mark (w_index w)\<rparr>, p\<lparr>wp_wal := Some (rt\<lparr>rt_registered := None\<rparr>)\<rparr>)
       | None \<Rightarrow> (w, p))
   | None \<Rightarrow> (w, p))"

definition release_locks :: "(pst, unit) act" where
  "release_locks =
    bindA (modP (\<lambda>p. p\<lparr>wp_read_txn := False\<rparr>)) (\<lambda>_.
    bindA unpin (\<lambda>_.
    bindA getA (\<lambda>(w, p).
    if wp_held p \<noteq> Unlocked then
      bindA (unlock_main Unlocked) (\<lambda>_. bindA (set_held Unlocked) (\<lambda>_. modP drop_cache))
    else retA ())))"

section \<open>Reading\<close>

definition main_file_page_count :: "world \<Rightarrow> write_pager \<Rightarrow> u32 option" where
  "main_file_page_count w p =
    (let sz = file_size (w_main w) in
     if wp_page_size p = 0 \<or> sz mod wp_page_size p \<noteq> 0 then None
     else Some (of_nat (sz div wp_page_size p)))"

definition disk_change_counter :: "world \<Rightarrow> write_pager \<Rightarrow> u32 option" where
  "disk_change_counter w p =
    (if wp_disk_pages p = 0 then None
     else case bindR (read_exact_at (w_main w) 28 0) (\<lambda>hdr. be_u32 hdr 24) of
       Ok c \<Rightarrow> Some c
     | _ \<Rightarrow> None)"

definition page_out_of_range :: "u32 \<Rightarrow> error" where
  "page_out_of_range n = Corrupt (''page '' @ show_nat (unat n) @ '' out of range'')"

definition read_main :: "u32 \<Rightarrow> world \<Rightarrow> write_pager \<Rightarrow> bytes res" where
  "read_main n w p = read_exact_at (w_main w) (wp_page_size p) ((unat n - 1) * wp_page_size p)"

definition cacheable :: "write_pager \<Rightarrow> bool" where
  "cacheable p \<longleftrightarrow> Reserved \<le> wp_held p \<or> wp_read_cache_token p \<noteq> None"

definition read_page :: "u32 \<Rightarrow> (pst, bytes) act" where
  "read_page n = (\<lambda>(w, p).
    case bm_get (wp_overlay p) n of
      Some b \<Rightarrow> (Ok b, (w, p))
    | None \<Rightarrow>
      (case wp_wal p of
        Some rt \<Rightarrow>
          (case find_frame (w_index w) n (sn_mx_frame (rt_snapshot rt)) of
             Some b \<Rightarrow> (Ok b, (w, p))
           | None \<Rightarrow>
               if n = 0 \<or> rt_db_size rt < n then (Err (page_out_of_range n), (w, p))
               else (read_main n w p, (w, p)))
      | None \<Rightarrow>
          if n = 0 \<or> wp_disk_pages p < n then (Err (page_out_of_range n), (w, p))
          else if cacheable p then
            (case cache_get (wp_read_cache p) n of
               (c, Some b) \<Rightarrow> (Ok b, (w, p\<lparr>wp_read_cache := c\<rparr>))
             | (c, None) \<Rightarrow>
                 (case read_main n w p of
                    Ok b \<Rightarrow> (Ok b, (w, p\<lparr>wp_read_cache := cache_insert c n b\<rparr>))
                  | r \<Rightarrow> (r, (w, p\<lparr>wp_read_cache := c\<rparr>))))
          else (read_main n w p, (w, p))))"

text \<open>The size of the database at a mark, with the fall-backs of the code.\<close>

definition size_at_mark :: "u32 \<Rightarrow> world \<Rightarrow> write_pager \<Rightarrow> u32" where
  "size_at_mark m w p =
    (case snapshot_db_size (w_index w) m of
       Some n \<Rightarrow> n
     | None \<Rightarrow> (case main_file_page_count w p of Some n \<Rightarrow> n | None \<Rightarrow> wp_disk_pages p))"

definition refresh_snapshot :: "wal_runtime \<Rightarrow> world \<Rightarrow> write_pager \<Rightarrow> wal_runtime" where
  "refresh_snapshot rt w p =
    (let snap = index_snapshot (w_index w) in
     rt\<lparr>rt_snapshot := snap, rt_db_size := size_at_mark (sn_mx_frame snap) w p\<rparr>)"

definition revalidate_read_cache :: "pst \<Rightarrow> pst" where
  "revalidate_read_cache = (\<lambda>(w, p).
    case wp_wal p of
      Some rt \<Rightarrow>
        if wp_held p < Reserved \<and> rt_registered rt = None
        then (w, p\<lparr>wp_wal := Some (refresh_snapshot rt w p)\<rparr>) else (w, p)
    | None \<Rightarrow>
        if Reserved \<le> wp_held p then (w, p)
        else (case disk_change_counter w p of
            None \<Rightarrow> (w, drop_cache p)
          | Some current \<Rightarrow>
              if wp_read_cache_token p \<noteq> Some current then
                let p1 = p\<lparr>wp_read_cache := cache_clear (wp_read_cache p), wp_read_cache_token := Some current\<rparr> in
                (case main_file_page_count w p of
                   Some pages \<Rightarrow> (w, p1\<lparr>wp_disk_pages := pages, wp_page_count := pages\<rparr>)
                 | None \<Rightarrow> (w, p1))
              else (w, p)))"

definition pager_cache_size :: "i64 \<Rightarrow> write_pager \<Rightarrow> write_pager" where
  "pager_cache_size cs p = p\<lparr>wp_read_cache := set_cache_size (wp_read_cache p) cs (wp_page_size p)\<rparr>"

text \<open>The \<open>PageSource\<close> of the pager.\<close>

definition source_page :: "u32 \<Rightarrow> (pst, page) act" where
  "source_page n = bindA (read_page n) (\<lambda>b. retA (page_from_bytes n b))"

definition source_page_count :: "write_pager \<Rightarrow> u32" where
  "source_page_count p =
    (case wp_wal p of
       Some rt \<Rightarrow> if wp_overlay p = [] then rt_db_size rt else wp_page_count p
     | None \<Rightarrow> wp_page_count p)"

definition has_page :: "u32 \<Rightarrow> world \<Rightarrow> write_pager \<Rightarrow> bool" where
  "has_page n w p \<longleftrightarrow>
    bm_contains (wp_overlay p) n \<or>
    (case wp_wal p of Some rt \<Rightarrow> find_frame (w_index w) n (sn_mx_frame (rt_snapshot rt)) \<noteq> None | None \<Rightarrow> False) \<or>
    1 \<le> n \<and> n \<le> wp_disk_pages p"

section \<open>Read transactions\<close>

definition begin_read_txn :: "(pst, unit) act" where
  "begin_read_txn =
    bindA getA (\<lambda>(w0, p0).
    bindA (if wp_held p0 < Shared then bindA (lock_main Shared) (\<lambda>_. set_held Shared) else retA ()) (\<lambda>_.
    bindA (modA (\<lambda>(w, p). case wp_wal p of
        Some rt \<Rightarrow>
          if rt_registered rt = None then
            let snap = index_snapshot (w_index w);
                w' = w\<lparr>w_index := register_reader (sn_mx_frame snap) (w_index w)\<rparr>
            in (w', p\<lparr>wp_wal := Some (rt\<lparr>rt_snapshot := snap, rt_db_size := size_at_mark (sn_mx_frame snap) w' p,
                       rt_registered := Some (sn_mx_frame snap)\<rparr>)\<rparr>)
          else (w, p)
      | None \<Rightarrow> (w, p))) (\<lambda>_.
    modP (\<lambda>p. p\<lparr>wp_read_txn := True\<rparr>))))"

definition end_read_txn :: "(pst, unit) act" where
  "end_read_txn =
    bindA (modP (\<lambda>p. p\<lparr>wp_read_txn := False\<rparr>)) (\<lambda>_.
    bindA unpin (\<lambda>_.
    bindA getA (\<lambda>(w, p).
    if wp_held p = Shared then
      bindA (unlock_main Unlocked) (\<lambda>_. bindA (set_held Unlocked) (\<lambda>_. modP drop_cache))
    else retA ())))"

definition begin_autocommit_read :: "(pst, bool) act" where
  "begin_autocommit_read =
    bindA getA (\<lambda>(w, p).
    if wp_read_txn p \<or> wp_transient_read p \<or> Shared \<le> wp_held p then retA False
    else bindA (lock_main Shared) (\<lambda>_. bindA (set_held Shared) (\<lambda>_.
      bindA (modP (\<lambda>p. p\<lparr>wp_transient_read := True\<rparr>)) (\<lambda>_. retA True))))"

definition end_autocommit_read :: "(pst, unit) act" where
  "end_autocommit_read =
    bindA getA (\<lambda>(w, p).
    if \<not> wp_transient_read p then retA ()
    else bindA (modP (\<lambda>p. p\<lparr>wp_transient_read := False\<rparr>)) (\<lambda>_.
      if wp_held p = Shared then bindA (unlock_main Unlocked) (\<lambda>_. set_held Unlocked) else retA ()))"

section \<open>Entering a write transaction\<close>

definition adopt_committed_header :: "database_header \<Rightarrow> write_pager \<Rightarrow> write_pager" where
  "adopt_committed_header hdr p =
    p\<lparr>wp_header := hdr, wp_committed_header := hdr,
      wp_savepoints := map (\<lambda>sp. if sp_overlay sp = [] then sp\<lparr>sp_header := hdr, sp_page_count := wp_page_count p\<rparr> else sp)
        (wp_savepoints p)\<rparr>"

definition refresh_foreign_state :: "(pst, unit) act" where
  "refresh_foreign_state =
    bindA getA (\<lambda>(w, p).
    if wp_overlay p \<noteq> [] \<or> wp_header p \<noteq> wp_committed_header p then retA ()
    else case wp_wal p of
      Some rt \<Rightarrow>
        if rt_registered rt \<noteq> None then retA ()
        else
          let rt' = refresh_snapshot rt w p;
              disk = (case main_file_page_count w p of Some mf \<Rightarrow> mf | None \<Rightarrow> wp_disk_pages p) in
          bindA (modP (\<lambda>p. p\<lparr>wp_wal := Some rt', wp_disk_pages := disk, wp_page_count := rt_db_size rt'\<rparr>)) (\<lambda>_.
          bindA (read_page 1) (\<lambda>p1.
          bindA (liftA (header_parse p1)) (\<lambda>hdr.
          if change_counter hdr \<noteq> change_counter (wp_header p) then modP (adopt_committed_header hdr) else retA ())))
    | None \<Rightarrow>
        (case disk_change_counter w p of
           None \<Rightarrow> retA ()
         | Some current \<Rightarrow>
             if current = change_counter (wp_header p) then retA ()
             else
               bindA (liftA (read_exact_at (w_main w) HEADER_LEN 0)) (\<lambda>head.
               bindA (liftA (header_parse head)) (\<lambda>hdr.
               let pages = (case main_file_page_count w p of Some n \<Rightarrow> n | None \<Rightarrow> wp_disk_pages p) in
               bindA (modP (\<lambda>p. p\<lparr>wp_disk_pages := pages, wp_page_count := pages\<rparr>)) (\<lambda>_.
               modP (adopt_committed_header hdr))))))"

text \<open>A failed attempt that started unlocked drops the locks it took.\<close>

definition or_release :: "lock_level \<Rightarrow> (pst, unit) act \<Rightarrow> (pst, unit) act" where
  "or_release entry m = tryA m (\<lambda>r. case r of
     Ok _ \<Rightarrow> retA ()
   | _ \<Rightarrow> bindA (if entry = Unlocked then release_locks else retA ()) (\<lambda>_. liftA r))"

definition acquire_write_intent :: "(pst, unit) act" where
  "acquire_write_intent =
    bindA getA (\<lambda>(w0, p0). let entry = wp_held p0 in
    bindA (if entry < Shared then bindA (lock_main Shared) (\<lambda>_. set_held Shared) else retA ()) (\<lambda>_.
    bindA getA (\<lambda>(w, p).
    if wp_held p < Reserved then
      bindA (or_release entry (lock_main Reserved)) (\<lambda>_.
      bindA (set_held Reserved) (\<lambda>_.
      bindA (modP drop_cache) (\<lambda>_.
      or_release entry refresh_foreign_state)))
    else retA ())))"

definition begin_write :: "(pst, unit) act" where
  "begin_write = acquire_write_intent"

definition acquire_exclusive :: "(pst, unit) act" where
  "acquire_exclusive =
    bindA acquire_write_intent (\<lambda>_.
    bindA getA (\<lambda>(w, p).
    if wp_held p < Exclusive then bindA (lock_main Exclusive) (\<lambda>_. set_held Exclusive) else retA ()))"

section \<open>Staging\<close>

definition stage :: "u32 \<Rightarrow> bytes \<Rightarrow> (pst, unit) act" where
  "stage n b = modP (\<lambda>p. p\<lparr>wp_overlay := bm_insert n b (wp_overlay p)\<rparr>)"

definition write_page :: "u32 \<Rightarrow> bytes \<Rightarrow> (pst, unit) act" where
  "write_page n b =
    bindA getA (\<lambda>(w, p).
    if length b \<noteq> wp_page_size p then liftA (Err (Error ''page image has wrong size''))
    else bindA acquire_write_intent (\<lambda>_. stage n b))"

text \<open>Touching the header makes page 1 dirty; a failed read of it is ignored.\<close>

definition header_mut :: "(database_header \<Rightarrow> database_header) \<Rightarrow> (pst, unit) act" where
  "header_mut f =
    bindA getA (\<lambda>(w, p).
    bindA (if bm_contains (wp_overlay p) 1 then retA ()
           else tryA (read_page 1) (\<lambda>r. case r of Ok b \<Rightarrow> stage 1 b | _ \<Rightarrow> retA ())) (\<lambda>_.
    modP (\<lambda>p. p\<lparr>wp_header := f (wp_header p)\<rparr>)))"

definition set_secure_delete :: "bool \<Rightarrow> write_pager \<Rightarrow> write_pager" where
  "set_secure_delete on p = p\<lparr>wp_secure_delete := on\<rparr>"

section \<open>Allocation and the free list\<close>

definition PENDING_BYTE :: nat where
  "PENDING_BYTE = 0x40000000"

definition auto_vacuum_on :: "write_pager \<Rightarrow> bool" where
  "auto_vacuum_on p \<longleftrightarrow> largest_root_page (wp_header p) \<noteq> 0"

definition lock_page :: "write_pager \<Rightarrow> nat" where
  "lock_page p = PENDING_BYTE div wp_page_size p + 1"

definition is_reserved_layout_page :: "u32 \<Rightarrow> nat \<Rightarrow> write_pager \<Rightarrow> bool" where
  "is_reserved_layout_page pgno usable p \<longleftrightarrow>
    is_ptrmap_page usable (unat pgno) \<or> 1 < lock_page p \<and> unat pgno = lock_page p"

definition alloc_from_freelist :: "(pst, u32) act" where
  "alloc_from_freelist =
    bindA getA (\<lambda>(w, p0).
    let trunk = freelist_trunk (wp_header p0) in
    bindA (read_page trunk) (\<lambda>tbytes.
    bindA (liftA (be_u32 tbytes 4)) (\<lambda>leaf_count.
    if 0 < leaf_count then
      bindA (liftA (be_u32 tbytes (8 + 4 * (unat leaf_count - 1)))) (\<lambda>leaf.
      bindA (liftA (put_slice tbytes 4 (to_be32 (leaf_count - 1)))) (\<lambda>tbytes'.
      bindA (write_page trunk tbytes') (\<lambda>_.
      bindA getA (\<lambda>(w, p).
      bindA (liftA (dec32 (freelist_count (wp_header p)))) (\<lambda>cnt.
      bindA (modP (\<lambda>p. p\<lparr>wp_header := (wp_header p)\<lparr>freelist_count := cnt\<rparr>\<rparr>)) (\<lambda>_.
      bindA (stage leaf (replicate (wp_page_size p) 0)) (\<lambda>_. retA leaf)))))))
    else
      bindA (liftA (be_u32 tbytes 0)) (\<lambda>nxt.
      bindA getA (\<lambda>(w, p).
      bindA (liftA (dec32 (freelist_count (wp_header p)))) (\<lambda>cnt.
      bindA (modP (\<lambda>p. p\<lparr>wp_header := (wp_header p)\<lparr>freelist_trunk := nxt, freelist_count := cnt\<rparr>\<rparr>)) (\<lambda>_.
      bindA (stage trunk (replicate (wp_page_size p) 0)) (\<lambda>_. retA trunk))))))))"

text \<open>
  The loop that extends the file: structural pages of an auto-vacuum database are staged zeroed and
  passed over.
\<close>

function extend_file :: "bool \<Rightarrow> nat \<Rightarrow> write_pager \<Rightarrow> u32 res \<times> write_pager" where
  "extend_file av usable p =
    (if wp_page_count p = - 1 then (Panic, p)
     else let n = wp_page_count p + 1;
              p' = p\<lparr>wp_page_count := n, wp_overlay := bm_insert n (replicate (wp_page_size p) 0) (wp_overlay p)\<rparr> in
       if av \<and> is_reserved_layout_page n usable p then extend_file av usable p' else (Ok n, p'))"
  by pat_completeness auto
termination
proof (relation "measure (\<lambda>(av, usable, p). unat (- 1 - wp_page_count p))")
  fix av usable p n p'
  assume a: "wp_page_count p \<noteq> - 1" "n = wp_page_count p + 1"
    "p' = p\<lparr>wp_page_count := n, wp_overlay := bm_insert n (replicate (wp_page_size p) 0) (wp_overlay p)\<rparr>"
  define d where "d = - 1 - wp_page_count p"
  have "d \<noteq> 0" using a(1) by (auto simp: d_def)
  then have "unat (d - 1) < unat d" by (simp add: unat_minus_one unat_gt_0)
  moreover have "- 1 - wp_page_count p' = d - 1" using a by (simp add: d_def)
  ultimately have "unat (- 1 - wp_page_count p') < unat (- 1 - wp_page_count p)" unfolding d_def by metis
  then show "((av, usable, p'), (av, usable, p)) \<in> measure (\<lambda>(av, usable, p). unat (- 1 - wp_page_count p))"
    by (simp only: in_measure prod.case)
qed simp

declare extend_file.simps [simp del]

definition allocate_page :: "(pst, u32) act" where
  "allocate_page =
    bindA acquire_write_intent (\<lambda>_.
    bindA getA (\<lambda>(w, p).
    if 0 < freelist_count (wp_header p) \<and> freelist_trunk (wp_header p) \<noteq> 0 then alloc_from_freelist
    else bindA (liftA (usable_size (wp_header p))) (\<lambda>usable.
      (\<lambda>(w, p). case extend_file (auto_vacuum_on p) usable p of (r, p') \<Rightarrow> (r, (w, p'))))))"

definition free_page :: "u32 \<Rightarrow> (pst, unit) act" where
  "free_page pg =
    bindA acquire_write_intent (\<lambda>_.
    bindA getA (\<lambda>(w, p).
    let trunk = freelist_trunk (wp_header p);
        new_trunk =
          bindA (write_page pg (overwrite (overwrite (replicate (wp_page_size p) 0) 0 (to_be32 trunk)) 4 (to_be32 0))) (\<lambda>_.
          bindA getA (\<lambda>(w, p).
          bindA (modP (\<lambda>p. p\<lparr>wp_header := (wp_header p)\<lparr>freelist_trunk := pg\<rparr>\<rparr>)) (\<lambda>_.
          bindA (liftA (inc32 (freelist_count (wp_header p)))) (\<lambda>cnt.
          modP (\<lambda>p. p\<lparr>wp_header := (wp_header p)\<lparr>freelist_count := cnt\<rparr>\<rparr>))))) in
    bindA (liftA (usable_size (wp_header p))) (\<lambda>usable.
    let max_leaves = usable div 4 - 8 in
    if trunk \<noteq> 0 then
      bindA (read_page trunk) (\<lambda>tbytes.
      bindA (liftA (be_u32 tbytes 4)) (\<lambda>leaf_count.
      if unat leaf_count < max_leaves then
        bindA (liftA (put_slice tbytes (8 + 4 * unat leaf_count) (to_be32 pg))) (\<lambda>t1.
        bindA (liftA (put_slice t1 4 (to_be32 (leaf_count + 1)))) (\<lambda>t2.
        bindA (write_page trunk t2) (\<lambda>_.
        bindA (if wp_secure_delete p then write_page pg (replicate (wp_page_size p) 0) else retA ()) (\<lambda>_.
        bindA getA (\<lambda>(w, p).
        bindA (liftA (inc32 (freelist_count (wp_header p)))) (\<lambda>cnt.
        modP (\<lambda>p. p\<lparr>wp_header := (wp_header p)\<lparr>freelist_count := cnt\<rparr>\<rparr>)))))))
      else new_trunk))
    else new_trunk)))"

section \<open>Savepoints and rollback\<close>

definition savepoint_open :: "string \<Rightarrow> write_pager \<Rightarrow> write_pager" where
  "savepoint_open name p =
    p\<lparr>wp_savepoints := wp_savepoints p @
      [\<lparr>sp_name = name, sp_overlay = wp_overlay p, sp_header = wp_header p, sp_page_count = wp_page_count p\<rparr>]\<rparr>"

definition ascii_lower :: "char \<Rightarrow> char" where
  "ascii_lower c = (if 65 \<le> (of_char c :: nat) \<and> (of_char c :: nat) \<le> 90 then char_of (of_char c + 32 :: nat) else c)"

definition eq_ignore_ascii_case :: "string \<Rightarrow> string \<Rightarrow> bool" where
  "eq_ignore_ascii_case a b \<longleftrightarrow> map ascii_lower a = map ascii_lower b"

text \<open>\<open>rposition\<close>: the last matching savepoint.\<close>

fun rposition :: "('a \<Rightarrow> bool) \<Rightarrow> 'a list \<Rightarrow> nat option" where
  "rposition P [] = None"
| "rposition P (x # xs) = (case rposition P xs of Some i \<Rightarrow> Some (Suc i) | None \<Rightarrow> if P x then Some 0 else None)"

definition find_savepoint :: "string \<Rightarrow> write_pager \<Rightarrow> nat option" where
  "find_savepoint name p = rposition (\<lambda>sp. eq_ignore_ascii_case (sp_name sp) name) (wp_savepoints p)"

definition no_such_savepoint :: "string \<Rightarrow> error" where
  "no_such_savepoint name = Error (''no such savepoint: '' @ name)"

definition release_savepoint :: "string \<Rightarrow> write_pager \<Rightarrow> write_pager res" where
  "release_savepoint name p =
    (case find_savepoint name p of
       Some i \<Rightarrow> Ok (p\<lparr>wp_savepoints := take i (wp_savepoints p)\<rparr>)
     | None \<Rightarrow> Err (no_such_savepoint name))"

definition rollback_to_savepoint :: "string \<Rightarrow> write_pager \<Rightarrow> write_pager res" where
  "rollback_to_savepoint name p =
    (case find_savepoint name p of
       Some i \<Rightarrow>
         let snap = wp_savepoints p ! i in
         Ok (p\<lparr>wp_overlay := sp_overlay snap, wp_header := sp_header snap, wp_page_count := sp_page_count snap,
               wp_savepoints := take (i + 1) (wp_savepoints p)\<rparr>)
     | None \<Rightarrow> Err (no_such_savepoint name))"

definition rollback :: "(pst, unit) act" where
  "rollback =
    bindA (modP (\<lambda>p. p\<lparr>wp_overlay := [], wp_header := wp_committed_header p,
        wp_page_count := (case wp_wal p of Some rt \<Rightarrow> rt_db_size rt | None \<Rightarrow> wp_disk_pages p),
        wp_savepoints := []\<rparr>)) (\<lambda>_.
    release_locks)"

end
