(* ===== verification/Transactions.thy ===== *)
theory Transactions
  imports WritePager Pager
begin

text \<open>
  Write transactions. Inside one (the pager holds \<open>RESERVED\<close> or more) the staging operations change
  neither the files nor the committed state of the pager: only the overlay, the header and the page
  count. Reads see the overlay over the committed database, whatever the cache holds; rolling back,
  to a savepoint or altogether, restores what was there.
\<close>

section \<open>What a transaction leaves alone\<close>

definition in_txn :: "pst \<Rightarrow> bool" where
  "in_txn s \<longleftrightarrow> Reserved \<le> wp_held (snd s)"

definition txn_core :: "pst \<Rightarrow> world \<times> database_header \<times> u32 \<times> wal_runtime option \<times> nat \<times> nat \<times> bool \<times> bool \<times> lock_level" where
  "txn_core = (\<lambda>(w, p). (w, wp_committed_header p, wp_disk_pages p, wp_wal p, wp_page_size p, wp_handle p,
     wp_journal p, wp_secure_delete p, wp_held p))"

text \<open>The clean cache holds nothing but pages of the main file, and the file has the pages it should.\<close>

definition cache_ok :: "pst \<Rightarrow> bool" where
  "cache_ok = (\<lambda>(w, p). length (w_main w) < 2 ^ 64 \<and> unat (wp_disk_pages p) * wp_page_size p \<le> length (w_main w) \<and>
     pcache.coherent (\<lambda>n. file_page (wp_page_size p) (w_main w) (unat n)) (wp_read_cache p))"

definition txn_at :: "pst \<Rightarrow> pst \<Rightarrow> bool" where
  "txn_at s0 s \<longleftrightarrow> in_txn s \<and> txn_core s = txn_core s0 \<and> cache_ok s"

text \<open>What a page reads as: the committed database, and the overlay over it.\<close>

definition committed_page :: "pst \<Rightarrow> u32 \<Rightarrow> bytes res" where
  "committed_page = (\<lambda>(w, p) n. case wp_wal p of
     Some rt \<Rightarrow>
       (case find_frame (w_index w) n (sn_mx_frame (rt_snapshot rt)) of
          Some b \<Rightarrow> Ok b
        | None \<Rightarrow> if n = 0 \<or> rt_db_size rt < n then Err (page_out_of_range n) else read_main n w p)
   | None \<Rightarrow> if n = 0 \<or> wp_disk_pages p < n then Err (page_out_of_range n) else read_main n w p)"

definition logical_page :: "pst \<Rightarrow> u32 \<Rightarrow> bytes res" where
  "logical_page s n = (case bm_get (wp_overlay (snd s)) n of Some b \<Rightarrow> Ok b | None \<Rightarrow> committed_page s n)"

lemma read_main_file_page:
  assumes "cache_ok (w, p)" and "n \<noteq> 0" and "n \<le> wp_disk_pages p"
  shows "read_main n w p = Ok (file_page (wp_page_size p) (w_main w) (unat n))"
proof -
  have n: "0 < unat n" "unat n \<le> unat (wp_disk_pages p)" using assms(2,3) by (auto simp: unat_gt_0 word_le_nat_alt)
  have "unat n * wp_page_size p \<le> unat (wp_disk_pages p) * wp_page_size p" using n(2) by (rule mult_le_mono1)
  also have "\<dots> \<le> length (w_main w)" using assms(1) by (simp add: cache_ok_def)
  finally have "(unat n - 1) * wp_page_size p + wp_page_size p \<le> length (w_main w)" using page_end [OF n(1)] by metis
  moreover have "length (w_main w) < 2 ^ 64" using assms(1) by (simp add: cache_ok_def)
  ultimately show ?thesis unfolding read_main_def file_page_def by (rule read_exact_at_Ok)
qed

text \<open>The cache is invisible: a read gives the page and changes the cache at most.\<close>

lemma read_page_logical:
  assumes ok: "cache_ok (w, p)"
  shows "\<exists>c. read_page n (w, p) = (logical_page (w, p) n, (w, p\<lparr>wp_read_cache := c\<rparr>)) \<and>
    cache_ok (w, p\<lparr>wp_read_cache := c\<rparr>)"
proof (cases "bm_get (wp_overlay p) n = None \<and> wp_wal p = None \<and> n \<noteq> 0 \<and> n \<le> wp_disk_pages p \<and> cacheable p")
  case False
  then have "read_page n (w, p) = (logical_page (w, p) n, (w, p\<lparr>wp_read_cache := wp_read_cache p\<rparr>))"
    by (auto simp: read_page_def logical_page_def committed_page_def split: option.splits)
  then show ?thesis using ok by (intro exI [of _ "wp_read_cache p"]) simp
next
  case True
  let ?store = "\<lambda>n. file_page (wp_page_size p) (w_main w) (unat n)"
  have r: "read_main n w p = Ok (?store n)" using read_main_file_page [OF ok] True by blast
  have co: "pcache.coherent ?store (wp_read_cache p)" using ok by (simp add: cache_ok_def)
  obtain c v where g: "cache_get (wp_read_cache p) n = (c, v)" by fastforce
  have c: "pcache.coherent ?store c" using pcache.coherent_get [OF co, of n] g by simp
  show ?thesis
  proof (cases v)
    case None
    define c' where "c' = cache_insert c n (?store n)"
    have "pcache.coherent ?store c'" unfolding c'_def using pcache.coherent_ins [OF c refl] .
    then have "cache_ok (w, p\<lparr>wp_read_cache := c'\<rparr>)" using ok by (simp add: cache_ok_def)
    moreover have "read_page n (w, p) = (logical_page (w, p) n, (w, p\<lparr>wp_read_cache := c'\<rparr>))"
      using True unfolding read_page_def logical_page_def committed_page_def c'_def
      by (simp only: prod.case snd_conv option.case r g None not_less [symmetric] simp_thms if_True if_False res.case)
    ultimately show ?thesis by blast
  next
    case (Some b)
    have "b = ?store n" using pcache.coherent_hit [OF co] g Some by blast
    then have "read_page n (w, p) = (logical_page (w, p) n, (w, p\<lparr>wp_read_cache := c\<rparr>))"
      using True unfolding read_page_def logical_page_def committed_page_def
      by (simp only: prod.case snd_conv option.case r g Some not_less [symmetric] simp_thms if_True if_False res.case)
    moreover have "cache_ok (w, p\<lparr>wp_read_cache := c\<rparr>)" using ok c by (simp add: cache_ok_def)
    ultimately show ?thesis by blast
  qed
qed

lemma acquire_in_txn [simp]: "in_txn s \<Longrightarrow> acquire_write_intent s = (Ok (), s)"
proof -
  assume "in_txn s"
  moreover obtain w p where "s = (w, p)" by (cases s)
  ultimately have "Reserved \<le> wp_held p" "s = (w, p)" by (simp_all add: in_txn_def)
  moreover have "\<not> wp_held p < Shared" "\<not> wp_held p < Reserved"
    using calculation(1) by (auto simp: lock_order)
  ultimately show ?thesis by (simp add: acquire_write_intent_def Let_def)
qed

named_theorems txn_keeps

lemma keepsA_acquire [txn_keeps]: "keepsA (txn_at s0) acquire_write_intent"
  by (simp add: keepsA_def txn_at_def)

lemma txn_at_same_core:
  assumes "txn_at s0 (w, p)" and "txn_core (w, p') = txn_core (w, p)" and "wp_read_cache p' = wp_read_cache p"
  shows "txn_at s0 (w, p')"
proof -
  have "wp_page_size p' = wp_page_size p" "wp_disk_pages p' = wp_disk_pages p" "wp_held p' = wp_held p"
    using assms(2) by (simp_all add: txn_core_def)
  moreover have "txn_core (w, p') = txn_core s0" using assms(1,2) by (simp add: txn_at_def)
  ultimately show ?thesis using assms(1,3) by (simp add: txn_at_def in_txn_def cache_ok_def)
qed

lemma keepsA_modP:
  assumes "\<And>w p. txn_core (w, g p) = txn_core (w, p)" and "\<And>p. wp_read_cache (g p) = wp_read_cache p"
  shows "keepsA (txn_at s0) (modP g)"
  using txn_at_same_core assms by (auto simp: keepsA_def)

lemma keepsA_stage [txn_keeps]: "keepsA (txn_at s0) (stage n b)"
  unfolding stage_def by (rule keepsA_modP) (simp_all add: txn_core_def)

lemma keepsA_header [txn_keeps]: "keepsA (txn_at s0) (modP (\<lambda>p. p\<lparr>wp_header := f p\<rparr>))"
  by (rule keepsA_modP) (simp_all add: txn_core_def)

lemma keepsA_read [txn_keeps]: "keepsA (txn_at s0) (read_page n)"
  unfolding keepsA_def
proof (intro allI impI)
  fix s
  assume a: "txn_at s0 s"
  obtain w p where s: "s = (w, p)" by (cases s)
  obtain c where c: "snd (read_page n (w, p)) = (w, p\<lparr>wp_read_cache := c\<rparr>)" "cache_ok (w, p\<lparr>wp_read_cache := c\<rparr>)"
    using a s read_page_logical [of w p n] by (auto simp: txn_at_def)
  then show "txn_at s0 (snd (read_page n s))" using a s by (simp add: txn_at_def in_txn_def txn_core_def)
qed

lemma keepsA_let: "(\<And>w p. keepsA I (f (w, p))) \<Longrightarrow> keepsA I (bindA getA f)"
  by (auto intro!: keepsA_bind)

lemmas txn_rules = keepsA_basic keepsA_bind keepsA_let keepsA_try

lemma keepsA_write_page [txn_keeps]: "keepsA (txn_at s0) (write_page n b)"
  unfolding write_page_def by (auto intro!: txn_rules txn_keeps)

lemma keepsA_header_mut [txn_keeps]: "keepsA (txn_at s0) (header_mut f)"
  unfolding header_mut_def by (auto intro!: txn_rules txn_keeps split: res.split)

lemma keepsA_alloc_freelist [txn_keeps]: "keepsA (txn_at s0) alloc_from_freelist"
  unfolding alloc_from_freelist_def by (auto simp: Let_def simp del: bindA_ret bindA_get intro!: txn_rules txn_keeps)

lemma extend_file_core: "txn_core (w, snd (extend_file av usable p)) = txn_core (w, p) \<and>
  wp_read_cache (snd (extend_file av usable p)) = wp_read_cache p"
proof (induction av usable p rule: extend_file.induct)
  case (1 av usable p)
  show ?case
  proof (cases "wp_page_count p = - 1")
    case True
    then show ?thesis by (simp add: extend_file.simps)
  next
    case False
    let ?n = "wp_page_count p + 1"
    let ?p = "p\<lparr>wp_page_count := ?n, wp_overlay := bm_insert ?n (replicate (wp_page_size p) 0) (wp_overlay p)\<rparr>"
    have c: "txn_core (w, ?p) = txn_core (w, p)" "wp_read_cache ?p = wp_read_cache p" by (simp_all add: txn_core_def)
    have e: "extend_file av usable p =
        (if av \<and> is_reserved_layout_page ?n usable p then extend_file av usable ?p else (Ok ?n, ?p))"
      using False by (subst extend_file.simps) (simp add: Let_def)
    show ?thesis
    proof (cases "av \<and> is_reserved_layout_page ?n usable p")
      case True
      have "extend_file av usable p = extend_file av usable ?p" unfolding e by (rule if_P [OF True])
      then show ?thesis using 1 [OF False refl refl True] c by (simp only: simp_thms)
    next
      case f: False
      have "extend_file av usable p = (Ok ?n, ?p)" unfolding e by (rule if_not_P [OF f])
      then show ?thesis using c by (simp only: snd_conv simp_thms)
    qed
  qed
qed

lemma keepsA_allocate [txn_keeps]: "keepsA (txn_at s0) allocate_page"
proof -
  have e: "keepsA (txn_at s0) (\<lambda>(w, p). case extend_file (auto_vacuum_on p) usable p of (r, p') \<Rightarrow> (r, (w, p')))" for usable
    unfolding keepsA_def
  proof (intro allI impI)
    fix s
    assume a: "txn_at s0 s"
    obtain w p where s: "s = (w, p)" by (cases s)
    obtain r p' where x: "extend_file (auto_vacuum_on p) usable p = (r, p')" by fastforce
    have "txn_core (w, p') = txn_core (w, p) \<and> wp_read_cache p' = wp_read_cache p" using extend_file_core [of w "auto_vacuum_on p" usable p] x by simp
    then show "txn_at s0 (snd ((\<lambda>(w, p). case extend_file (auto_vacuum_on p) usable p of (r, p') \<Rightarrow> (r, (w, p'))) s))"
      using a s x txn_at_same_core by auto
  qed
  show ?thesis unfolding allocate_page_def by (auto intro!: txn_rules txn_keeps e)
qed

lemma keepsA_free_page [txn_keeps]: "keepsA (txn_at s0) (free_page pg)"
  unfolding free_page_def by (auto simp: Let_def simp del: bindA_ret bindA_get intro!: txn_rules txn_keeps)

section \<open>Sequences of operations\<close>

datatype txn_op =
    OpWrite u32 bytes
  | OpRead u32
  | OpHeader "database_header \<Rightarrow> database_header"
  | OpAllocate
  | OpFree u32
  | OpSavepoint string
  | OpRelease string
  | OpRollbackTo string

text \<open>An operation of the open transaction; one that fails leaves what it did before failing.\<close>

definition try_mod :: "(write_pager \<Rightarrow> write_pager res) \<Rightarrow> (pst, unit) act" where
  "try_mod f = (\<lambda>(w, p). case f p of Ok p' \<Rightarrow> (Ok (), (w, p')) | Err e \<Rightarrow> (Err e, (w, p)) | Panic \<Rightarrow> (Panic, (w, p)))"

fun run_op :: "txn_op \<Rightarrow> pst \<Rightarrow> pst" where
  "run_op (OpWrite n b) s = snd (write_page n b s)"
| "run_op (OpRead n) s = snd (read_page n s)"
| "run_op (OpHeader f) s = snd (header_mut f s)"
| "run_op OpAllocate s = snd (allocate_page s)"
| "run_op (OpFree n) s = snd (free_page n s)"
| "run_op (OpSavepoint m) s = snd (modP (savepoint_open m) s)"
| "run_op (OpRelease m) s = snd (try_mod (release_savepoint m) s)"
| "run_op (OpRollbackTo m) s = snd (try_mod (rollback_to_savepoint m) s)"

definition run_ops :: "txn_op list \<Rightarrow> pst \<Rightarrow> pst" where
  "run_ops ops s = fold run_op ops s"

lemma keepsA_try_mod:
  assumes "\<And>p p' w. f p = Ok p' \<Longrightarrow> txn_core (w, p') = txn_core (w, p) \<and> wp_read_cache p' = wp_read_cache p"
  shows "keepsA (txn_at s0) (try_mod f)"
  unfolding keepsA_def
proof (intro allI impI)
  fix s
  assume a: "txn_at s0 s"
  obtain w p where s: "s = (w, p)" by (cases s)
  show "txn_at s0 (snd (try_mod f s))"
  proof (cases "f p")
    case (Ok p')
    then show ?thesis using a s txn_at_same_core [of s0 w p p'] assms [of p p' w] by (simp add: try_mod_def)
  qed (use a s in \<open>simp_all add: try_mod_def\<close>)
qed

lemma run_op_keeps: "txn_at s0 s \<Longrightarrow> txn_at s0 (run_op oper s)"
proof (cases oper)
  case (OpSavepoint m)
  have "keepsA (txn_at s0) (modP (savepoint_open m))"
    by (rule keepsA_modP) (simp_all add: savepoint_open_def txn_core_def)
  then show "txn_at s0 s \<Longrightarrow> ?thesis" using OpSavepoint keepsA_D by fastforce
next
  case (OpRelease m)
  have "keepsA (txn_at s0) (try_mod (release_savepoint m))"
    by (rule keepsA_try_mod) (auto simp: release_savepoint_def txn_core_def split: option.splits)
  then show "txn_at s0 s \<Longrightarrow> ?thesis" using OpRelease keepsA_D by fastforce
next
  case (OpRollbackTo m)
  have "keepsA (txn_at s0) (try_mod (rollback_to_savepoint m))"
    by (rule keepsA_try_mod) (auto simp: rollback_to_savepoint_def txn_core_def Let_def split: option.splits)
  then show "txn_at s0 s \<Longrightarrow> ?thesis" using OpRollbackTo keepsA_D by fastforce
qed (simp_all add: keepsA_D txn_keeps)

lemma run_ops_keeps: "txn_at s0 s \<Longrightarrow> txn_at s0 (run_ops ops s)"
  unfolding run_ops_def by (induction ops arbitrary: s) (simp_all add: run_op_keeps)

lemma txn_at_refl: "in_txn s \<Longrightarrow> cache_ok s \<Longrightarrow> txn_at s s"
  by (simp add: txn_at_def)

text \<open>What the committed database reads as depends on what a transaction leaves alone.\<close>

lemma committed_page_core: "txn_core s = txn_core s' \<Longrightarrow> committed_page s = committed_page s'"
  by (cases s; cases s') (auto simp: txn_core_def committed_page_def read_main_def fun_eq_iff split: option.splits)

lemma logical_page_cache [simp]: "logical_page (w, p\<lparr>wp_read_cache := c\<rparr>) = logical_page (w, p)"
  using committed_page_core [of "(w, p\<lparr>wp_read_cache := c\<rparr>)" "(w, p)"]
  by (auto simp: logical_page_def fun_eq_iff txn_core_def split: option.split)

section \<open>Reading what was written\<close>

lemma write_page_stages:
  assumes "in_txn (w, p)" and "length b = wp_page_size p"
  shows "write_page n b (w, p) = (Ok (), (w, p\<lparr>wp_overlay := bm_insert n b (wp_overlay p)\<rparr>))"
  using assms by (simp add: write_page_def bindA_def stage_def)

lemma committed_page_overlay [simp]: "committed_page (w, p\<lparr>wp_overlay := x\<rparr>) = committed_page (w, p)"
  by (rule committed_page_core) (simp add: txn_core_def)

lemma bm_get_insert_any: "bm_get (bm_insert k v m) = (bm_get m)(k \<mapsto> v)"
  by (induction k v m rule: bm_insert.induct) (auto simp: bm_get_def fun_eq_iff)

lemma logical_page_stage:
  "logical_page (w, p\<lparr>wp_overlay := bm_insert n b (wp_overlay p)\<rparr>) = (logical_page (w, p))(n := Ok b)"
  by (auto simp: logical_page_def fun_eq_iff bm_get_insert_any split: option.split)

lemma read_page_value: "cache_ok s \<Longrightarrow> fst (read_page n s) = logical_page s n"
  using read_page_logical [of "fst s" "snd s" n] by force

text \<open>A write is the function update on what the pages read as; no file changes.\<close>

lemma read_your_writes:
  assumes "in_txn s" and "cache_ok s" and "length b = wp_page_size (snd s)"
  shows "fst (write_page n b s) = Ok () \<and> fst (snd (write_page n b s)) = fst s \<and>
    fst (read_page m (snd (write_page n b s))) = (if m = n then Ok b else fst (read_page m s))"
proof -
  obtain w p where s: "s = (w, p)" by (cases s)
  let ?p = "p\<lparr>wp_overlay := bm_insert n b (wp_overlay p)\<rparr>"
  have w: "write_page n b s = (Ok (), (w, ?p))" using write_page_stages assms(1,3) s by simp
  have "cache_ok (w, ?p)" using assms(2) s by (simp add: cache_ok_def)
  then have "fst (read_page m (w, ?p)) = ((logical_page (w, p))(n := Ok b)) m"
    by (simp only: read_page_value logical_page_stage)
  then show ?thesis using w s read_page_value [OF assms(2)] by simp
qed

section \<open>Rolling back\<close>

definition handle_open :: "pst \<Rightarrow> bool" where
  "handle_open = (\<lambda>(w, p). wp_handle p < length (levels (w_locks w)))"

text \<open>What a connection keeps of the files when it drops its locks.\<close>

definition same_files :: "world \<Rightarrow> world \<Rightarrow> bool" where
  "same_files w w' \<longleftrightarrow> w_main w' = w_main w \<and> w_journal w' = w_journal w \<and> w_wal w' = w_wal w \<and>
     ix_log (w_index w') = ix_log (w_index w)"

lemma ix_log_unregister [simp]: "ix_log (unregister_reader m ix) = ix_log ix"
  by (simp add: unregister_reader_def split: option.split)

lemma find_frame_log: "ix_log ix = ix_log ix' \<Longrightarrow> find_frame ix n m = find_frame ix' n m"
  by (simp add: find_frame_newest)

lemma unlock_main_open:
  assumes "handle_open (w, p)"
  shows "\<exists>l. unlock_main level (w, p) = (Ok (), (w\<lparr>w_locks := l\<rparr>, p))"
  using assms by (cases "file_unlock (w_locks w) (wp_handle p) level")
    (auto simp: unlock_main_def handle_open_def file_unlock_def Let_def)

lemma unpin_effect:
  "\<exists>w' x. unpin (w, p) = (Ok (), (w', p\<lparr>wp_wal := x\<rparr>)) \<and> same_files w w' \<and> w_locks w' = w_locks w \<and>
    map_option rt_snapshot x = map_option rt_snapshot (wp_wal p) \<and> map_option rt_db_size x = map_option rt_db_size (wp_wal p)"
proof (cases "wp_wal p")
  case None
  then show ?thesis by (intro exI [of _ w] exI [of _ None]) (simp add: unpin_def same_files_def)
next
  case (Some rt)
  show ?thesis
  proof (cases "rt_registered rt")
    case None
    with Some show ?thesis by (intro exI [of _ w] exI [of _ "wp_wal p"]) (simp add: unpin_def same_files_def)
  next
    case (Some m)
    with \<open>wp_wal p = Some rt\<close> show ?thesis
      by (intro exI [of _ "w\<lparr>w_index := unregister_reader m (w_index w)\<rparr>"] exI [of _ "Some (rt\<lparr>rt_registered := None\<rparr>)"])
         (simp add: unpin_def same_files_def)
  qed
qed

lemma release_locks_effect:
  assumes "handle_open (w, p)" and "wp_held p \<noteq> Unlocked"
  shows "\<exists>w' x. release_locks (w, p) =
      (Ok (), (w', drop_cache (p\<lparr>wp_read_txn := False, wp_wal := x, wp_held := Unlocked\<rparr>))) \<and> same_files w w' \<and>
    map_option rt_snapshot x = map_option rt_snapshot (wp_wal p) \<and> map_option rt_db_size x = map_option rt_db_size (wp_wal p)"
proof -
  obtain w1 x where u: "unpin (w, p\<lparr>wp_read_txn := False\<rparr>) = (Ok (), (w1, p\<lparr>wp_read_txn := False, wp_wal := x\<rparr>))"
    "same_files w w1" "w_locks w1 = w_locks w" "map_option rt_snapshot x = map_option rt_snapshot (wp_wal p)"
    "map_option rt_db_size x = map_option rt_db_size (wp_wal p)"
    using unpin_effect [of w "p\<lparr>wp_read_txn := False\<rparr>"] by auto
  have "handle_open (w1, p\<lparr>wp_read_txn := False, wp_wal := x\<rparr>)" using assms(1) u(3) by (simp add: handle_open_def)
  then obtain l where l: "unlock_main Unlocked (w1, p\<lparr>wp_read_txn := False, wp_wal := x\<rparr>) =
      (Ok (), (w1\<lparr>w_locks := l\<rparr>, p\<lparr>wp_read_txn := False, wp_wal := x\<rparr>))"
    using unlock_main_open by blast
  have "release_locks (w, p) =
      (Ok (), (w1\<lparr>w_locks := l\<rparr>, drop_cache (p\<lparr>wp_read_txn := False, wp_wal := x, wp_held := Unlocked\<rparr>)))"
    using assms(2) u(1) l by (simp add: release_locks_def bindA_def [of unpin] bindA_def [of "unlock_main _"] set_held_def)
  moreover have "same_files w (w1\<lparr>w_locks := l\<rparr>)" using u(2) by (simp add: same_files_def)
  ultimately show ?thesis using u(4,5) by blast
qed

text \<open>The committed pages read the same when the files and the snapshot are the same.\<close>

lemma committed_page_same:
  assumes "same_files w w'" and "wp_disk_pages p' = wp_disk_pages p" and "wp_page_size p' = wp_page_size p"
    and "map_option rt_snapshot (wp_wal p') = map_option rt_snapshot (wp_wal p)"
    and "map_option rt_db_size (wp_wal p') = map_option rt_db_size (wp_wal p)"
  shows "committed_page (w', p') = committed_page (w, p)"
proof -
  have "find_frame (w_index w') n m = find_frame (w_index w) n m" for n m
    by (rule find_frame_log) (use assms(1) in \<open>simp add: same_files_def\<close>)
  moreover have "read_main n w' p' = read_main n w p" for n
    using assms by (simp add: read_main_def same_files_def)
  ultimately show ?thesis
    using assms(2,4,5) by (cases "wp_wal p"; cases "wp_wal p'") (simp_all add: committed_page_def fun_eq_iff cong: option.case_cong)
qed

lemma coherent_clear: "pcache.coherent store c \<Longrightarrow> pcache.coherent store (cache_clear c)"
  by (simp add: pcache.coherent_def cache_lookup_def cache_clear_def bm_get_def cache_inv_def bm_inv_def bm_keys_def cache_len_def)

text \<open>The size of the committed database, as the connection knows it.\<close>

definition committed_pages :: "write_pager \<Rightarrow> u32" where
  "committed_pages p = (case wp_wal p of Some rt \<Rightarrow> rt_db_size rt | None \<Rightarrow> wp_disk_pages p)"

lemma rollback_effect:
  assumes "in_txn (w, p)" and "cache_ok (w, p)" and "handle_open (w, p)"
  shows "\<exists>w' p'. rollback (w, p) = (Ok (), (w', p')) \<and> same_files w w' \<and> wp_header p' = wp_committed_header p \<and>
    wp_page_count p' = committed_pages p \<and> wp_held p' = Unlocked \<and> wp_savepoints p' = [] \<and>
    (\<forall>n. fst (read_page n (w', p')) = committed_page (w, p) n)"
proof -
  let ?p = "p\<lparr>wp_overlay := [], wp_header := wp_committed_header p, wp_page_count := committed_pages p, wp_savepoints := []\<rparr>"
  have "handle_open (w, ?p)" "wp_held ?p \<noteq> Unlocked"
    using assms(1,3) by (auto simp: handle_open_def in_txn_def lock_order)
  then obtain w' x where r: "release_locks (w, ?p) =
      (Ok (), (w', drop_cache (?p\<lparr>wp_read_txn := False, wp_wal := x, wp_held := Unlocked\<rparr>)))" "same_files w w'"
    "map_option rt_snapshot x = map_option rt_snapshot (wp_wal p)" "map_option rt_db_size x = map_option rt_db_size (wp_wal p)"
    using release_locks_effect [of w ?p] by auto
  let ?q = "drop_cache (?p\<lparr>wp_read_txn := False, wp_wal := x, wp_held := Unlocked\<rparr>)"
  have e: "rollback (w, p) = (Ok (), (w', ?q))" using r(1) by (simp add: rollback_def committed_pages_def)
  have "committed_page (w', ?q) = committed_page (w, p)"
    by (rule committed_page_same) (use r in \<open>simp_all add: drop_cache_def\<close>)
  moreover have "cache_ok (w', ?q)" using assms(2) r(2) by (simp add: cache_ok_def drop_cache_def same_files_def coherent_clear)
  ultimately have "fst (read_page n (w', ?q)) = committed_page (w, p) n" for n
    by (simp add: read_page_value logical_page_def drop_cache_def bm_get_def)
  then show ?thesis using e r(2) by (intro exI [of _ w'] exI [of _ ?q]) (simp add: drop_cache_def)
qed

lemma rollback_restores:
  assumes "in_txn s" and "cache_ok s" and "handle_open s"
  shows "\<exists>w' p'. rollback (run_ops ops s) = (Ok (), (w', p')) \<and> same_files (fst s) w' \<and>
    wp_header p' = wp_committed_header (snd s) \<and> wp_page_count p' = committed_pages (snd s) \<and>
    wp_held p' = Unlocked \<and> wp_savepoints p' = [] \<and> (\<forall>n. fst (read_page n (w', p')) = committed_page s n)"
proof -
  obtain w p where s: "s = (w, p)" by (cases s)
  obtain w1 p1 where r: "run_ops ops s = (w1, p1)" by (cases "run_ops ops s")
  have t: "txn_at s (w1, p1)" using run_ops_keeps [OF txn_at_refl [OF assms(1,2)], of ops] r by simp
  then have c: "txn_core (w1, p1) = txn_core (w, p)" using s by (simp add: txn_at_def)
  then have f: "w1 = w" "wp_committed_header p1 = wp_committed_header p" "committed_pages p1 = committed_pages p"
    by (simp_all add: txn_core_def committed_pages_def split: option.split)
  have "wp_handle p1 = wp_handle p" using c by (simp add: txn_core_def)
  then have "handle_open (w1, p1)" using assms(3) s f by (simp add: handle_open_def)
  then show ?thesis
    using rollback_effect [of w1 p1] t r s f committed_page_core [OF c] by (simp add: txn_at_def)
qed

section \<open>Savepoints\<close>

text \<open>
  Operations nested inside a savepoint: they open savepoints of other names, and release or roll back
  to those, or roll back to the savepoint itself. \<open>names\<close> are the savepoints opened since.
\<close>

definition find_name :: "string \<Rightarrow> string list \<Rightarrow> nat option" where
  "find_name m names = rposition (\<lambda>x. eq_ignore_ascii_case x m) names"

fun nested :: "string \<Rightarrow> string list \<Rightarrow> txn_op list \<Rightarrow> bool" where
  "nested name names [] = True"
| "nested name names (OpSavepoint m # ops) = (\<not> eq_ignore_ascii_case m name \<and> nested name (names @ [m]) ops)"
| "nested name names (OpRelease m # ops) =
    (case find_name m names of Some i \<Rightarrow> nested name (take i names) ops | None \<Rightarrow> False)"
| "nested name names (OpRollbackTo m # ops) =
    (case find_name m names of
       Some i \<Rightarrow> nested name (take (i + 1) names) ops
     | None \<Rightarrow> eq_ignore_ascii_case name m \<and> nested name [] ops)"
| "nested name names (_ # ops) = nested name names ops"

lemma rposition_map: "rposition P (map f xs) = rposition (P \<circ> f) xs"
  by (induction xs) (simp_all split: option.split)

lemma rposition_append:
  "rposition P (xs @ ys) = (case rposition P ys of Some i \<Rightarrow> Some (length xs + i) | None \<Rightarrow> rposition P xs)"
  by (induction xs) (simp_all split: option.split)

lemma rposition_Some: "rposition P xs = Some i \<Longrightarrow> i < length xs \<and> P (xs ! i)"
  by (induction xs arbitrary: i) (auto split: option.splits if_splits)

lemma rposition_None: "rposition P xs = None \<longleftrightarrow> list_all (\<lambda>x. \<not> P x) xs"
  by (induction xs) (auto split: option.splits)

text \<open>The staging operations leave the stack of savepoints alone.\<close>

definition stack_is :: "savepoint list \<Rightarrow> pst \<Rightarrow> bool" where
  "stack_is sps s \<longleftrightarrow> in_txn s \<and> wp_savepoints (snd s) = sps"

named_theorems stack_keeps

lemma stack_acquire [stack_keeps]: "keepsA (stack_is sps) acquire_write_intent"
  by (simp add: keepsA_def stack_is_def)

lemma stack_modP:
  assumes "\<And>p. wp_savepoints (g p) = wp_savepoints p" and "\<And>p. wp_held (g p) = wp_held p"
  shows "keepsA (stack_is sps) (modP g)"
  using assms by (auto simp: keepsA_def stack_is_def in_txn_def)

lemma stack_stage [stack_keeps]: "keepsA (stack_is sps) (stage n b)"
  unfolding stage_def by (rule stack_modP) simp_all

lemma stack_header [stack_keeps]: "keepsA (stack_is sps) (modP (\<lambda>p. p\<lparr>wp_header := f p\<rparr>))"
  by (rule stack_modP) simp_all

lemma stack_read [stack_keeps]: "keepsA (stack_is sps) (read_page n)"
  by (auto simp: keepsA_def stack_is_def in_txn_def read_page_def split: option.split res.split prod.split)

lemma stack_write_page [stack_keeps]: "keepsA (stack_is sps) (write_page n b)"
  unfolding write_page_def by (auto intro!: txn_rules stack_keeps)

lemma stack_header_mut [stack_keeps]: "keepsA (stack_is sps) (header_mut f)"
  unfolding header_mut_def by (auto intro!: txn_rules stack_keeps split: res.split)

lemma stack_alloc_freelist [stack_keeps]: "keepsA (stack_is sps) alloc_from_freelist"
  unfolding alloc_from_freelist_def
  by (auto simp: Let_def simp del: bindA_ret bindA_get intro!: txn_rules stack_keeps)

lemma extend_file_stack:
  "wp_savepoints (snd (extend_file av usable p)) = wp_savepoints p \<and> wp_held (snd (extend_file av usable p)) = wp_held p"
proof (induction av usable p rule: extend_file.induct)
  case (1 av usable p)
  show ?case by (subst (1 2) extend_file.simps) (use 1 in \<open>auto simp: Let_def\<close>)
qed

lemma stack_allocate [stack_keeps]: "keepsA (stack_is sps) allocate_page"
proof -
  have e: "keepsA (stack_is sps) (\<lambda>(w, p). case extend_file (auto_vacuum_on p) usable p of (r, p') \<Rightarrow> (r, (w, p')))" for usable
    using extend_file_stack by (auto simp: keepsA_def stack_is_def in_txn_def split: prod.split) (metis snd_conv)+
  show ?thesis unfolding allocate_page_def by (auto intro!: txn_rules stack_keeps e)
qed

lemma stack_free_page [stack_keeps]: "keepsA (stack_is sps) (free_page pg)"
  unfolding free_page_def by (auto simp: Let_def simp del: bindA_ret bindA_get intro!: txn_rules stack_keeps)

definition inside :: "savepoint list \<Rightarrow> savepoint \<Rightarrow> string list \<Rightarrow> pst \<Rightarrow> bool" where
  "inside base sp names s \<longleftrightarrow> in_txn s \<and> list_all (\<lambda>x. \<not> eq_ignore_ascii_case x (sp_name sp)) names \<and>
     (\<exists>inner. wp_savepoints (snd s) = base @ sp # inner \<and> map sp_name inner = names)"

lemma find_savepoint_inside:
  assumes "wp_savepoints p = base @ sp # inner"
  shows "find_savepoint m p = (case find_name m (map sp_name inner) of
      Some i \<Rightarrow> Some (length base + 1 + i)
    | None \<Rightarrow> if eq_ignore_ascii_case (sp_name sp) m then Some (length base)
             else rposition (\<lambda>x. eq_ignore_ascii_case (sp_name x) m) base)"
  using assms unfolding find_savepoint_def find_name_def
  by (auto simp: rposition_append rposition_map comp_def split: option.split)

lemma inside_staging:
  assumes "keepsA (stack_is sps) m" and "inside base sp names s" and "sps = wp_savepoints (snd s)"
  shows "inside base sp names (snd (m s))"
proof -
  have "stack_is sps (snd (m s))" using keepsA_D [OF assms(1)] assms(2,3) by (simp add: stack_is_def inside_def)
  then show ?thesis using assms(2,3) by (simp add: stack_is_def inside_def)
qed

lemma inside_open:
  "inside base sp names s \<Longrightarrow> \<not> eq_ignore_ascii_case m (sp_name sp) \<Longrightarrow>
    inside base sp (names @ [m]) (run_op (OpSavepoint m) s)"
  by (cases s) (auto simp: inside_def savepoint_open_def in_txn_def)

lemma inside_release:
  assumes "inside base sp names s" and "find_name m names = Some i"
  shows "inside base sp (take i names) (run_op (OpRelease m) s)"
proof -
  obtain w p where s: "s = (w, p)" by (cases s)
  obtain inner where p: "wp_savepoints p = base @ sp # inner" "map sp_name inner = names"
    using assms(1) s by (auto simp: inside_def)
  have "release_savepoint m p = Ok (p\<lparr>wp_savepoints := base @ sp # take i inner\<rparr>)"
    using find_savepoint_inside [OF p(1), of m] assms(2) p by (simp add: release_savepoint_def)
  then show ?thesis using assms(1) s p by (auto simp: inside_def try_mod_def in_txn_def take_map list_all_iff dest: in_set_takeD)
qed

lemma inside_rollback_to:
  assumes "inside base sp names s" and "find_name m names = Some i"
  shows "inside base sp (take (i + 1) names) (run_op (OpRollbackTo m) s)"
proof -
  obtain w p where s: "s = (w, p)" by (cases s)
  obtain inner where p: "wp_savepoints p = base @ sp # inner" "map sp_name inner = names"
    using assms(1) s by (auto simp: inside_def)
  obtain p' where "rollback_to_savepoint m p = Ok p'" "wp_savepoints p' = base @ sp # take (i + 1) inner" "wp_held p' = wp_held p"
    using find_savepoint_inside [OF p(1), of m] assms(2) p by (simp add: rollback_to_savepoint_def Let_def)
  then show ?thesis using assms(1) s p
    by (auto simp: inside_def try_mod_def in_txn_def take_map list_all_iff dest: in_set_takeD)
qed

text \<open>Rolling back to the savepoint itself restores what it saved and keeps it open.\<close>

lemma rollback_to_inside:
  assumes "inside base sp names (w, p)" and "eq_ignore_ascii_case (sp_name sp) m" and "find_name m names = None"
  shows "rollback_to_savepoint m p = Ok (p\<lparr>wp_overlay := sp_overlay sp, wp_header := sp_header sp,
      wp_page_count := sp_page_count sp, wp_savepoints := base @ [sp]\<rparr>)"
proof -
  obtain inner where p: "wp_savepoints p = base @ sp # inner" "map sp_name inner = names"
    using assms(1) by (auto simp: inside_def)
  show ?thesis
    using find_savepoint_inside [OF p(1), of m] assms(2,3) p by (simp add: rollback_to_savepoint_def Let_def nth_append)
qed

lemmas inside_ops = inside_staging [OF stack_write_page _ refl] inside_staging [OF stack_read _ refl]
  inside_staging [OF stack_header_mut _ refl] inside_staging [OF stack_allocate _ refl] inside_staging [OF stack_free_page _ refl]

lemma nested_step:
  assumes "nested (sp_name sp) names (oper # ops)" and s: "inside base sp names s"
  shows "\<exists>names'. nested (sp_name sp) names' ops \<and> inside base sp names' (run_op oper s)"
proof (cases oper)
  case (OpRollbackTo m)
  show ?thesis
  proof (cases "find_name m names")
    case None
    obtain w p where p: "s = (w, p)" by (cases s)
    have n: "eq_ignore_ascii_case (sp_name sp) m" "nested (sp_name sp) [] ops" using assms(1) OpRollbackTo None by simp_all
    have "inside base sp [] (run_op oper s)"
      using rollback_to_inside [of base sp names w p m] n(1) s None p OpRollbackTo
      by (auto simp: inside_def try_mod_def in_txn_def)
    then show ?thesis using n(2) by blast
  next
    case (Some i)
    then show ?thesis using assms(1) inside_rollback_to [OF s Some] OpRollbackTo by auto
  qed
next
  case (OpSavepoint m)
  then show ?thesis using assms(1) inside_open [OF s, of m] by auto
next
  case (OpRelease m)
  then show ?thesis using assms(1) inside_release [OF s, of m] by (auto split: option.splits)
qed (use assms(1) inside_ops [OF s] in auto)

lemma nested_run:
  "nested (sp_name sp) names ops \<Longrightarrow> inside base sp names s \<Longrightarrow> \<exists>names'. inside base sp names' (run_ops ops s)"
proof (induction ops arbitrary: names s)
  case (Cons oper ops)
  obtain names' where "nested (sp_name sp) names' ops" "inside base sp names' (run_op oper s)"
    using nested_step [OF Cons.prems] by blast
  then show ?case using Cons.IH [of names' "run_op oper s"] by (simp add: run_ops_def)
qed (auto simp: run_ops_def)

lemma savepoint_restores:
  assumes "in_txn s" and "cache_ok s" and "nested name [] ops"
  shows "\<exists>w' p'. try_mod (rollback_to_savepoint name) (run_ops ops (run_op (OpSavepoint name) s)) = (Ok (), (w', p')) \<and>
    w' = fst s \<and> wp_header p' = wp_header (snd s) \<and> wp_page_count p' = wp_page_count (snd s) \<and>
    wp_savepoints p' = wp_savepoints (savepoint_open name (snd s)) \<and>
    (\<forall>n. fst (read_page n (w', p')) = fst (read_page n s))"
proof -
  obtain w p where s: "s = (w, p)" by (cases s)
  let ?sp = "\<lparr>sp_name = name, sp_overlay = wp_overlay p, sp_header = wp_header p, sp_page_count = wp_page_count p\<rparr>"
  let ?s1 = "run_op (OpSavepoint name) s"
  obtain w2 p2 where r: "run_ops ops ?s1 = (w2, p2)" by (cases "run_ops ops ?s1")
  have "inside (wp_savepoints p) ?sp [] ?s1" using assms(1) s by (simp add: inside_def savepoint_open_def in_txn_def)
  then obtain names where "inside (wp_savepoints p) ?sp names (w2, p2)"
    using nested_run [of ?sp "[]" ops "wp_savepoints p" ?s1] assms(3) r by (auto simp del: run_op.simps)
  moreover from this have "find_name name names = None"
    by (simp add: inside_def find_name_def rposition_None)
  ultimately have b: "rollback_to_savepoint name p2 = Ok (p2\<lparr>wp_overlay := wp_overlay p, wp_header := wp_header p,
      wp_page_count := wp_page_count p, wp_savepoints := wp_savepoints p @ [?sp]\<rparr>)" (is "_ = Ok ?q")
    using rollback_to_inside [of "wp_savepoints p" ?sp names w2 p2 name] by (simp add: eq_ignore_ascii_case_def)
  have t: "txn_at s (w2, p2)"
    using run_ops_keeps [OF run_op_keeps [OF txn_at_refl [OF assms(1,2)]], of ops] r by metis
  then have c: "txn_core (w2, p2) = txn_core s" "cache_ok (w2, p2)" by (simp_all add: txn_at_def)
  have "committed_page (w2, ?q) = committed_page s"
    by (rule committed_page_core) (use c(1) in \<open>simp add: txn_core_def\<close>)
  moreover have "cache_ok (w2, ?q)" using c(2) by (simp add: cache_ok_def)
  ultimately have "fst (read_page n (w2, ?q)) = fst (read_page n s)" for n
    using assms(2) s by (simp add: read_page_value logical_page_def split: option.split)
  moreover have "w2 = w" using c(1) s by (simp add: txn_core_def)
  ultimately show ?thesis using r s b
    by (intro exI [of _ w] exI [of _ ?q]) (simp add: try_mod_def savepoint_open_def del: run_op.simps)
qed

end
