(* ===== verification/CursorScan.thy ===== *)
theory CursorScan
  imports Cursor Pager Transactions
begin

text \<open>
  Scanning and seeking with the table cursor (\<open>TableCursor\<close> of \<open>src/btree/cursor.rs\<close>). The cursor uses a
  page source; what it relies on is the locale \<open>page_reader\<close> (the trait \<open>PageSource\<close>), which both
  pagers provide. Over a tree of pages the cursor visits every cell of every leaf once, from left to
  right, with fuel for as many turns as the tree has leaves and levels; over a search tree a seek
  stops at the first row at or above its target.
\<close>

lemma runL_apply [simp]: "runL m s = Some (m s)"
  by (simp add: runL_def)

section \<open>Trees of pages\<close>

datatype ptree = Leaf btree_page | Node btree_page "ptree list"

fun root_page :: "ptree \<Rightarrow> btree_page" where
  "root_page (Leaf pg) = pg"
| "root_page (Node pg ts) = pg"

text \<open>The tree that starts at a page of a store.\<close>

definition page_is :: "(u32 \<Rightarrow> page option) \<Rightarrow> u32 \<Rightarrow> btree_page \<Rightarrow> bool" where
  "page_is store n pg \<longleftrightarrow> (case store n of Some p \<Rightarrow> btree_page_parse p = Ok pg | None \<Rightarrow> False)"

function tree_at :: "(u32 \<Rightarrow> page option) \<Rightarrow> u32 \<Rightarrow> ptree \<Rightarrow> bool" where
  "tree_at store n (Leaf pg) \<longleftrightarrow> page_is store n pg \<and> is_leaf (bt_type pg)"
| "tree_at store n (Node pg ts) \<longleftrightarrow> page_is store n pg \<and> \<not> is_leaf (bt_type pg) \<and> length ts = num_cells pg + 1 \<and>
    list_all (\<lambda>i. case child_pointer pg i of Ok c \<Rightarrow> tree_at store c (ts ! i) | _ \<Rightarrow> False) [0..<length ts]"
  by pat_completeness auto
termination
proof (relation "measure (\<lambda>(store, n, t). size t)")
  fix store :: "u32 \<Rightarrow> page option" and n c :: u32 and pg and ts :: "ptree list" and i
  assume "i \<in> set [0..<length ts]"
  then have "ts ! i \<in> set ts" by simp
  then have "size (ts ! i) \<le> size_list size ts" by (rule size_list_estimation') simp
  then show "((store, c, ts ! i), store, n, Node pg ts) \<in> measure (\<lambda>(store, n, t). size t)" by simp
qed simp

lemma tree_at_child:
  assumes "tree_at store n (Node pg ts)" and "i \<le> num_cells pg"
  obtains c where "child_pointer pg i = Ok c" and "tree_at store c (ts ! i)" and "ts ! i \<in> set ts"
proof -
  have i: "i < length ts" using assms by simp
  then have "case child_pointer pg i of Ok c \<Rightarrow> tree_at store c (ts ! i) | _ \<Rightarrow> False"
    using assms(1) by (simp add: list_all_iff)
  then show thesis using that i by (auto split: res.splits)
qed

fun slots :: "ptree \<Rightarrow> frame list" where
  "slots (Leaf pg) = map (\<lambda>i. (pg, i)) [0..<num_cells pg]"
| "slots (Node pg ts) = concat (map slots ts)"

fun leaves :: "ptree \<Rightarrow> nat" where
  "leaves (Leaf pg) = 1"
| "leaves (Node pg ts) = sum_list (map leaves ts)"

fun height :: "ptree \<Rightarrow> nat" where
  "height (Leaf pg) = 0"
| "height (Node pg ts) = Suc (fold max (map height ts) 0)"

lemma fold_max_ge: "(x :: nat) \<in> set xs \<or> x \<le> a \<Longrightarrow> x \<le> fold max xs a"
  by (induction xs arbitrary: a) (auto simp: le_max_iff_disj)

lemma height_child: "t \<in> set ts \<Longrightarrow> height t < height (Node pg ts)"
  using fold_max_ge [of "height t" "map height ts" 0] by (simp add: less_Suc_eq_le)

section \<open>Positions\<close>

text \<open>A stack of the cursor as trees: the leaf on top, below it the nodes on the way to the root.\<close>

type_synonym zipper = "(ptree \<times> nat) list"

definition frames :: "zipper \<Rightarrow> frame list" where
  "frames zs = map (\<lambda>(t, i). (root_page t, i)) zs"

fun cells_above :: "zipper \<Rightarrow> frame list" where
  "cells_above [] = []"
| "cells_above ((Node pg ts, i) # zs) = concat (map slots (drop (i + 1) ts)) @ cells_above zs"
| "cells_above ((Leaf pg, i) # zs) = cells_above zs"

fun remaining :: "zipper \<Rightarrow> frame list" where
  "remaining ((Leaf pg, i) # zs) = map (\<lambda>i. (pg, i)) [i..<num_cells pg] @ cells_above zs"
| "remaining zs = cells_above zs"

fun leaves_above :: "zipper \<Rightarrow> nat" where
  "leaves_above [] = 0"
| "leaves_above ((Node pg ts, i) # zs) = sum_list (map leaves (drop (i + 1) ts)) + leaves_above zs"
| "leaves_above ((Leaf pg, i) # zs) = leaves_above zs"

fun left_path :: "ptree \<Rightarrow> zipper" where
  "left_path (Leaf pg) = [(Leaf pg, 0)]"
| "left_path (Node pg []) = [(Node pg [], 0)]"
| "left_path (Node pg (t # ts)) = left_path t @ [(Node pg (t # ts), 0)]"

text \<open>The nodes of a zipper are trees of the store no higher than a bound.\<close>

definition node_ok :: "(u32 \<Rightarrow> page option) \<Rightarrow> nat \<Rightarrow> ptree \<times> nat \<Rightarrow> bool" where
  "node_ok store h = (\<lambda>(t, i). (\<exists>pg ts n. t = Node pg ts \<and> tree_at store n t) \<and> height t \<le> h)"

fun zipper_ok :: "(u32 \<Rightarrow> page option) \<Rightarrow> nat \<Rightarrow> zipper \<Rightarrow> bool" where
  "zipper_ok store h [] \<longleftrightarrow> False"
| "zipper_ok store h ((t, i) # zs) \<longleftrightarrow> (\<exists>pg. t = Leaf pg) \<and> list_all (node_ok store h) zs"

lemma above_append: "cells_above (xs @ ys) = cells_above xs @ cells_above ys"
  by (induction xs rule: cells_above.induct) simp_all

lemma leaves_above_append: "leaves_above (xs @ ys) = leaves_above xs + leaves_above ys"
  by (induction xs rule: leaves_above.induct) simp_all

lemma left_path_props:
  assumes "tree_at store n t" and "height t \<le> h"
  shows "\<exists>pg zs. left_path t = (Leaf pg, 0) # zs \<and> list_all (node_ok store h) zs \<and>
    map (\<lambda>i. (pg, i)) [0..<num_cells pg] @ cells_above zs = slots t \<and> Suc (leaves_above zs) = leaves t"
  using assms
proof (induction t arbitrary: n rule: left_path.induct)
  case (3 pg t ts)
  obtain c where c: "tree_at store c t" using tree_at_child [OF 3(2), of 0] by auto
  have "height t \<le> h" using 3(3) height_child [of t "t # ts" pg] by simp
  with 3(1) [OF c] obtain lp zs where z: "left_path t = (Leaf lp, 0) # zs" "list_all (node_ok store h) zs"
    "map (\<lambda>i. (lp, i)) [0..<num_cells lp] @ cells_above zs = slots t" "Suc (leaves_above zs) = leaves t" by blast
  have "node_ok store h (Node pg (t # ts), 0)" using 3(2,3) unfolding node_ok_def by blast
  then show ?case using z by (intro exI [of _ lp] exI [of _ "zs @ [(Node pg (t # ts), 0)]"])
      (simp add: above_append leaves_above_append)
qed auto

lemma remaining_left_path:
  assumes "tree_at store n t" and "height t \<le> h" and "list_all (node_ok store h) zs"
  shows "zipper_ok store h (left_path t @ zs)" "remaining (left_path t @ zs) = slots t @ cells_above zs"
    "Suc (leaves_above (left_path t @ zs)) = leaves t + leaves_above zs"
proof -
  obtain pg ys where y: "left_path t = (Leaf pg, 0) # ys" "list_all (node_ok store h) ys"
    "map (\<lambda>i. (pg, i)) [0..<num_cells pg] @ cells_above ys = slots t" "Suc (leaves_above ys) = leaves t"
    using left_path_props [OF assms(1,2)] by blast
  show "zipper_ok store h (left_path t @ zs)" using y assms(3) by simp
  show "remaining (left_path t @ zs) = slots t @ cells_above zs" using y(1) y(3) [symmetric] by (simp add: above_append)
  show "Suc (leaves_above (left_path t @ zs)) = leaves t + leaves_above zs" using y(1,4) by (simp add: leaves_above_append)
qed

section \<open>Search trees\<close>

definition row_key :: "nat \<Rightarrow> frame \<Rightarrow> int" where
  "row_key usable x = (case table_leaf_cell (fst x) (snd x) usable of Ok cell \<Rightarrow> sint (cell_rowid cell) | _ \<Rightarrow> 0)"

definition node_key :: "btree_page \<Rightarrow> nat \<Rightarrow> int" where
  "node_key pg i = (case table_interior_key pg i of Ok k \<Rightarrow> sint k | _ \<Rightarrow> 0)"

text \<open>The cells parse, a leaf is sorted, and the keys of a node separate its children.\<close>

fun search_tree :: "nat \<Rightarrow> ptree \<Rightarrow> bool" where
  "search_tree usable (Leaf pg) \<longleftrightarrow> list_all (\<lambda>i. is_ok (table_leaf_cell pg i usable)) [0..<num_cells pg] \<and>
    sorted_wrt (<) (map (row_key usable) (slots (Leaf pg)))"
| "search_tree usable (Node pg ts) \<longleftrightarrow> list_all (search_tree usable) ts \<and>
    list_all (\<lambda>i. is_ok (table_interior_key pg i) \<and>
      list_all (\<lambda>x. row_key usable x \<le> node_key pg i) (slots (ts ! i)) \<and>
      list_all (\<lambda>x. node_key pg i < row_key usable x) (concat (map slots (drop (i + 1) ts)))) [0..<num_cells pg]"

definition from_key :: "nat \<Rightarrow> int \<Rightarrow> frame list \<Rightarrow> frame list" where
  "from_key usable k xs = dropWhile (\<lambda>x. row_key usable x < k) xs"

definition hits_key :: "nat \<Rightarrow> int \<Rightarrow> frame list \<Rightarrow> bool" where
  "hits_key usable k xs \<longleftrightarrow> (case from_key usable k xs of x # _ \<Rightarrow> row_key usable x = k | [] \<Rightarrow> False)"

lemma from_key_above: "list_all (\<lambda>x. k \<le> row_key usable x) ys \<Longrightarrow> from_key usable k (xs @ ys) = from_key usable k xs @ ys"
proof (induction xs)
  case Nil
  then show ?case by (cases ys) (simp_all add: from_key_def)
qed (simp add: from_key_def)

lemma from_key_below: "list_all (\<lambda>x. row_key usable x < k) xs \<Longrightarrow> from_key usable k (xs @ ys) = from_key usable k ys"
  unfolding from_key_def by (induction xs) (auto simp: list_all_iff)

lemma is_ok_iff: "is_ok r \<longleftrightarrow> (\<exists>x. r = Ok x)"
  by (cases r) simp_all

lemma interior_scan_Ok:
  assumes "\<And>j. j < i + k \<Longrightarrow> is_ok (table_interior_key pg j)"
  shows "\<exists>m. interior_scan pg target i k = Ok m \<and> i \<le> m \<and> m \<le> i + k \<and>
    (\<forall>j. i \<le> j \<and> j < m \<longrightarrow> node_key pg j < sint target) \<and> (m < i + k \<longrightarrow> sint target \<le> node_key pg m)"
  using assms
proof (induction k arbitrary: i)
  case (Suc k)
  obtain key where key: "table_interior_key pg i = Ok key" using Suc.prems [of i] by (auto simp: is_ok_iff)
  show ?case
  proof (cases "sint target \<le> sint key")
    case True
    then show ?thesis using key by (intro exI [of _ i]) (simp add: node_key_def)
  next
    case False
    have nk: "node_key pg i = sint key" using key by (simp add: node_key_def)
    obtain m where m: "interior_scan pg target (i + 1) k = Ok m" "i + 1 \<le> m" "m \<le> i + 1 + k"
      "\<forall>j. i + 1 \<le> j \<and> j < m \<longrightarrow> node_key pg j < sint target" "m < i + 1 + k \<longrightarrow> sint target \<le> node_key pg m"
      using Suc.IH [of "i + 1"] Suc.prems by auto
    have "node_key pg j < sint target" if "i \<le> j" "j < m" for j
      using that m(4) False nk by (cases "j = i") auto
    then show ?thesis using m False key by (intro exI [of _ m]) auto
  qed
qed auto

lemma leaf_scan_Ok:
  assumes "\<And>j. j < i + k \<Longrightarrow> is_ok (table_leaf_cell pg j usable)"
  shows "\<exists>m. leaf_scan pg usable target i k = Ok (m, m < i + k \<and> row_key usable (pg, m) = sint target) \<and> i \<le> m \<and> m \<le> i + k \<and>
    from_key usable (sint target) (map (\<lambda>i. (pg, i)) [i..<i + k]) = map (\<lambda>i. (pg, i)) [m..<i + k]"
  using assms
proof (induction k arbitrary: i)
  case 0
  then show ?case by (simp add: from_key_def)
next
  case (Suc k)
  obtain cell where cell: "table_leaf_cell pg i usable = Ok cell" using Suc.prems [of i] by (auto simp: is_ok_iff)
  have nk: "row_key usable (pg, i) = sint (cell_rowid cell)" using cell by (simp add: row_key_def)
  have u: "[i..<i + Suc k] = i # [i + 1..<i + Suc k]" by (simp add: upt_conv_Cons)
  show ?case
  proof (cases "sint target \<le> sint (cell_rowid cell)")
    case True
    have "(cell_rowid cell = target) = (row_key usable (pg, i) = sint target)" using nk by (auto intro: signed_word_eqI)
    then show ?thesis using True cell nk u by (intro exI [of _ i]) (simp add: from_key_def)
  next
    case False
    have k: "i + Suc k = i + 1 + k" by simp
    obtain m where "leaf_scan pg usable target (i + 1) k = Ok (m, m < i + 1 + k \<and> row_key usable (pg, m) = sint target)"
      "i + 1 \<le> m" "m \<le> i + 1 + k"
      "from_key usable (sint target) (map (\<lambda>i. (pg, i)) [i + 1..<i + 1 + k]) = map (\<lambda>i. (pg, i)) [m..<i + 1 + k]"
      using Suc.IH [of "i + 1"] Suc.prems by auto
    moreover have "from_key usable (sint target) (map (\<lambda>i. (pg, i)) (i # L)) = from_key usable (sint target) (map (\<lambda>i. (pg, i)) L)" for L
      using False nk by (simp add: from_key_def)
    ultimately show ?thesis unfolding u unfolding k using False cell by (intro exI [of _ m]) auto
  qed
qed

text \<open>The child that a node's scan picks decides the rows from the target on.\<close>

lemma seek_child:
  assumes st: "search_tree usable (Node pg ts)" and len: "length ts = num_cells pg + 1"
    and m: "m \<le> num_cells pg" "\<And>j. j < m \<Longrightarrow> node_key pg j < k" "m < num_cells pg \<Longrightarrow> k \<le> node_key pg m"
  shows "from_key usable k (slots (Node pg ts)) = from_key usable k (slots (ts ! m)) @ concat (map slots (drop (m + 1) ts))"
    and "hits_key usable k (slots (Node pg ts)) = hits_key usable k (slots (ts ! m))"
proof -
  have sep: "\<And>i x. i < num_cells pg \<Longrightarrow> x \<in> set (slots (ts ! i)) \<Longrightarrow> row_key usable x \<le> node_key pg i"
    "\<And>i x. i < num_cells pg \<Longrightarrow> x \<in> set (concat (map slots (drop (i + 1) ts))) \<Longrightarrow> node_key pg i < row_key usable x"
    using st by (auto simp: list_all_iff)
  have ts: "ts = take m ts @ ts ! m # drop (m + 1) ts" using m(1) len by (simp add: id_take_nth_drop)
  have sl: "slots (Node pg ts) = concat (map slots (take m ts)) @ slots (ts ! m) @ concat (map slots (drop (m + 1) ts))"
    using arg_cong [OF ts, of "\<lambda>l. concat (map slots l)"] by simp
  have below: "list_all (\<lambda>x. row_key usable x < k) (concat (map slots (take m ts)))"
    unfolding list_all_iff
  proof
    fix x
    assume "x \<in> set (concat (map slots (take m ts)))"
    then obtain u where u: "u \<in> set (take m ts)" "x \<in> set (slots u)" by auto
    obtain j where j: "j < m" "ts ! j = u" using u(1) m(1) len by (auto simp: in_set_conv_nth)
    have "row_key usable x \<le> node_key pg j" using sep(1) [of j x] u(2) j m(1) by simp
    then show "row_key usable x < k" using m(2) [OF j(1)] by linarith
  qed
  have abv: "list_all (\<lambda>x. k < row_key usable x) (concat (map slots (drop (m + 1) ts)))"
  proof (cases "m < num_cells pg")
    case True
    then show ?thesis using sep(2) [of m] m(3) by (fastforce simp: list_all_iff)
  next
    case False
    then show ?thesis using len by simp
  qed
  then have "list_all (\<lambda>x. k \<le> row_key usable x) (concat (map slots (drop (m + 1) ts)))"
    unfolding list_all_iff using less_imp_le by blast
  then show e: "from_key usable k (slots (Node pg ts)) = from_key usable k (slots (ts ! m)) @ concat (map slots (drop (m + 1) ts))"
    unfolding sl by (simp add: from_key_below [OF below] from_key_above)
  show "hits_key usable k (slots (Node pg ts)) = hits_key usable k (slots (ts ! m))"
  proof (cases "from_key usable k (slots (ts ! m))")
    case Nil
    then show ?thesis using abv unfolding hits_key_def e Nil append_Nil
      by (auto split: list.split)
  next
    case (Cons x xs)
    then show ?thesis using e by (simp add: hits_key_def)
  qed
qed

section \<open>Payloads end\<close>

text \<open>
  Every page of an overflow chain adds a byte at least, so the loop ends on any pages, cycles
  included, with one turn per missing byte.
\<close>

lemma overflow_loop_ends:
  assumes "4 < usable"
  shows "tot - length out < fuel \<Longrightarrow> overflow_loop fuel rd usable tot nxt out s \<noteq> None"
proof (induction fuel arbitrary: nxt out s)
  case (Suc fuel)
  show ?case
  proof (cases "nxt \<noteq> 0 \<and> length out < tot")
    case True
    let ?tk = "min (tot - length out) (usable - 4)"
    have "0 < ?tk" using True assms by simp
    then have lt: "tot - (length out + ?tk) < fuel" using Suc.prems by linarith
    have ih: "overflow_loop fuel rd usable tot np (out @ part) s' \<noteq> None" if "length part = ?tk" for np part s'
      using Suc.IH [of "out @ part" np s'] lt that by simp
    have "overflow_loop fuel rd usable tot np (out @ take (4 + ?tk - 4) (drop 4 dat)) s' \<noteq> None"
      if "\<not> length dat < 4 + ?tk" for np dat s'
      using ih [of "take (4 + ?tk - 4) (drop 4 dat)"] that by simp
    then show ?thesis
      using True assms by (auto simp: Let_def usub_def slice_def split: prod.split res.split)
  qed auto
qed simp

lemma read_payload_ends:
  assumes "4 < usable" and "total_len pl < fuel"
  shows "read_payload fuel rd usable bs pl s \<noteq> None"
proof -
  have "total_len pl - length out < fuel" for out :: bytes using assms(2) by linarith
  then have "\<exists>r s''. overflow_loop fuel rd usable (total_len pl) (overflow pl) out s' = Some (r, s'')" for out s'
    using overflow_loop_ends [OF assms(1), of "total_len pl" out fuel rd "overflow pl" s'] by simp
  then obtain r s'' where "overflow_loop fuel rd usable (total_len pl) (overflow pl)
      (take (local_offset pl + local_len pl - local_offset pl) (drop (local_offset pl) bs)) s = Some (r, s'')" by blast
  then show ?thesis
    by (auto simp: read_payload_def bindL_def [of "overflow_loop _ _ _ _ _ _"] slice_def split: res.split)
qed

text \<open>The bytes of a chain in a store.\<close>

inductive chain_bytes :: "(u32 \<Rightarrow> page option) \<Rightarrow> nat \<Rightarrow> nat \<Rightarrow> u32 \<Rightarrow> bytes \<Rightarrow> bytes \<Rightarrow> bool" for store usable tot where
  Done: "nxt = 0 \<or> tot \<le> length out \<Longrightarrow> chain_bytes store usable tot nxt out out"
| Step: "nxt \<noteq> 0 \<Longrightarrow> length out < tot \<Longrightarrow> store nxt = Some pg \<Longrightarrow> 4 + min (tot - length out) (usable - 4) \<le> length (page_data pg) \<Longrightarrow>
    be_u32 (page_data pg) 0 = Ok np \<Longrightarrow>
    chain_bytes store usable tot np (out @ take (min (tot - length out) (usable - 4)) (drop 4 (page_data pg))) res \<Longrightarrow>
    chain_bytes store usable tot nxt out res"

section \<open>The cursor over a page source\<close>

text \<open>A source that gives the pages of a store and keeps an invariant of its own.\<close>

locale page_reader =
  fixes rd :: "'s page_source" and inv :: "'s \<Rightarrow> bool" and store :: "u32 \<Rightarrow> page option"
  assumes reads: "inv s \<Longrightarrow> store n = Some pg \<Longrightarrow> \<exists>s'. rd n s = (Ok pg, s') \<and> inv s'"
begin

lemma load_page_Ok:
  assumes "inv s" and "page_is store n pg"
  shows "\<exists>s'. load_page rd n (s, c) = (Ok pg, (s', c)) \<and> inv s'"
proof -
  obtain p where p: "store n = Some p" "btree_page_parse p = Ok pg" using assms(2) by (auto simp: page_is_def split: option.splits)
  obtain s' where "rd n s = (Ok p, s')" "inv s'" using reads [OF assms(1) p(1)] by blast
  then show ?thesis using p(2) by (simp add: load_page_def)
qed

lemma descend_left_Ok:
  assumes "tree_at store n t" and "height t < fuel" and "inv s"
  shows "\<exists>s'. descend_left fuel rd n (s, c) = Some (Ok (), (s', c\<lparr>tc_stack := frames (left_path t) @ tc_stack c\<rparr>)) \<and> inv s'"
  using assms
proof (induction t arbitrary: n fuel s c rule: left_path.induct)
  case (1 pg)
  obtain f where f: "fuel = Suc f" using 1(2) by (cases fuel) auto
  obtain s' where "load_page rd n (s, c) = (Ok pg, (s', c))" "inv s'" using load_page_Ok 1 by fastforce
  then show ?case using 1(1) f by (simp add: push_frame_def frames_def)
next
  case (3 pg t ts)
  obtain f where f: "fuel = Suc f" using 3(3) by (cases fuel) auto
  have pg: "page_is store n pg" "\<not> is_leaf (bt_type pg)" using 3(2) by simp_all
  obtain s' where l: "load_page rd n (s, c) = (Ok pg, (s', c))" "inv s'" using load_page_Ok [OF 3(4) pg(1), of c] by auto
  obtain ch where ch: "child_pointer pg 0 = Ok ch" "tree_at store ch t" using tree_at_child [OF 3(2), of 0] by auto
  have "height t < f" using 3(3) f height_child [of t "t # ts" pg] by simp
  then obtain s'' where d: "descend_left f rd ch (s', c\<lparr>tc_stack := (pg, 0) # tc_stack c\<rparr>) =
      Some (Ok (), (s'', c\<lparr>tc_stack := frames (left_path t) @ (pg, 0) # tc_stack c\<rparr>))" "inv s''"
    using 3(1) [OF ch(2) _ l(2), of f "c\<lparr>tc_stack := (pg, 0) # tc_stack c\<rparr>"] by auto
  have "descend_left fuel rd n (s, c) = descend_left f rd ch (s', c\<lparr>tc_stack := (pg, 0) # tc_stack c\<rparr>)"
    unfolding f descend_left.simps using l(1) pg(2) ch(1) by (simp add: push_frame_def)
  then show ?case using d by (simp add: frames_def)
qed auto

text \<open>Climbing to the next subtree on the right, or to the end.\<close>

lemma ascend_Ok:
  assumes "list_all (node_ok store h) zs" and "h \<le> fuel" and "inv s"
  shows "\<exists>s' c'. ascend fuel rd (frames zs) (s, c) = Some (Ok (tc_stack c' \<noteq> []), (s', c')) \<and> inv s' \<and>
    c'\<lparr>tc_stack := tc_stack c\<rparr> = c \<and> (if tc_stack c' = [] then cells_above zs = [] else
      \<exists>zs'. tc_stack c' = frames zs' \<and> zipper_ok store h zs' \<and> remaining zs' = cells_above zs \<and> Suc (leaves_above zs') = leaves_above zs)"
  using assms
proof (induction zs arbitrary: c)
  case Nil
  then show ?case by (intro exI [of _ s] exI [of _ "c\<lparr>tc_stack := []\<rparr>"]) (simp add: frames_def)
next
  case (Cons z zs)
  obtain pg ts i n where z: "z = (Node pg ts, i)" "tree_at store n (Node pg ts)" "height (Node pg ts) \<le> h"
    using Cons.prems(1) by (cases z) (auto simp: node_ok_def)
  have len: "length ts = num_cells pg + 1" using z(2) by simp
  show ?case
  proof (cases "i + 1 \<le> num_cells pg")
    case False
    then have "drop (i + 1) ts = []" using len by simp
    then have e: "cells_above (z # zs) = cells_above zs" "leaves_above (z # zs) = leaves_above zs"
      "ascend fuel rd (frames (z # zs)) = ascend fuel rd (frames zs)"
      using z(1) False by (simp_all add: frames_def)
    have "list_all (node_ok store h) zs" using Cons.prems(1) by simp
    from Cons.IH [OF this Cons.prems(2,3), of c] show ?thesis unfolding e .
  next
    case True
    let ?zs = "(Node pg ts, i + 1) # zs"
    obtain ch where ch: "child_pointer pg (i + 1) = Ok ch" "tree_at store ch (ts ! (i + 1))" "ts ! (i + 1) \<in> set ts"
      using tree_at_child [OF z(2) True] .
    have ht: "height (ts ! (i + 1)) < height (Node pg ts)" by (rule height_child [OF ch(3)])
    then have "height (ts ! (i + 1)) < fuel" using z(3) Cons.prems(2) by linarith
    from descend_left_Ok [OF ch(2) this Cons.prems(3), of "c\<lparr>tc_stack := frames ?zs\<rparr>"]
    obtain s' where d: "descend_left fuel rd ch (s, c\<lparr>tc_stack := frames ?zs\<rparr>) =
        Some (Ok (), (s', c\<lparr>tc_stack := frames (left_path (ts ! (i + 1)) @ ?zs)\<rparr>))" "inv s'"
      by (auto simp: frames_def)
    have ok: "list_all (node_ok store h) ?zs" using Cons.prems(1) z unfolding node_ok_def by auto
    have hh: "height (ts ! (i + 1)) \<le> h" using ht z(3) by linarith
    note rl = remaining_left_path [OF ch(2) hh ok]
    have ds: "drop (i + 1) ts = ts ! (i + 1) # drop (i + 2) ts" using True len by (simp add: Cons_nth_drop_Suc)
    have ne: "frames (left_path (ts ! (i + 1)) @ ?zs) \<noteq> []" by (simp add: frames_def)
    have a: "ascend fuel rd (frames (z # zs)) (s, c) =
        Some (Ok True, (s', c\<lparr>tc_stack := frames (left_path (ts ! (i + 1)) @ ?zs)\<rparr>))"
      using True z(1) ch(1) d(1) by (simp add: frames_def bindL_def [of "descend_left _ _ _"])
    have r: "remaining (left_path (ts ! (i + 1)) @ ?zs) = cells_above (z # zs)"
      "Suc (leaves_above (left_path (ts ! (i + 1)) @ ?zs)) = leaves_above (z # zs)"
      using rl(2,3) ds z(1) by simp_all
    show ?thesis
      by (rule exI [of _ s'], rule exI [of _ "c\<lparr>tc_stack := frames (left_path (ts ! (i + 1)) @ ?zs)\<rparr>"])
         (use a d(2) ne rl(1) r in auto)
  qed
qed

text \<open>Reading a payload through the source.\<close>

lemma overflow_loop_Ok:
  assumes "chain_bytes store usable tot nxt out res" and "4 < usable" and "tot - length out < fuel" and "inv s"
  shows "\<exists>s'. overflow_loop fuel rd usable tot nxt out s = Some (Ok res, s') \<and> inv s'"
  using assms
proof (induction arbitrary: fuel s rule: chain_bytes.induct)
  case (Done nxt out)
  then show ?case by (cases fuel) auto
next
  case (Step nxt out pg np res)
  let ?tk = "min (tot - length out) (usable - 4)"
  obtain f where f: "fuel = Suc f" using Step.prems(2) by (cases fuel) auto
  obtain s1 where s1: "rd nxt s = (Ok pg, s1)" "inv s1" using reads [OF Step.prems(3) Step.hyps(3)] by blast
  let ?out = "out @ take ?tk (drop 4 (page_data pg))"
  have "tot - length ?out < f" using Step.prems(1,2) Step.hyps(2,4) f by simp
  from Step.IH [OF Step.prems(1) this s1(2)] obtain s' where "overflow_loop f rd usable tot np ?out s1 = Some (Ok res, s')" "inv s'"
    by blast
  then show ?case using Step.hyps(1,2,4,5) Step.prems(1) s1(1) f by (simp add: Let_def usub_def slice_def)
qed

text \<open>The cursor stands before the cells \<open>xs\<close>.\<close>

definition cursor_at :: "nat \<Rightarrow> nat \<Rightarrow> table_cursor \<Rightarrow> frame list \<Rightarrow> bool" where
  "cursor_at h n c xs \<longleftrightarrow>
    (if xs = [] then tc_exhausted c
     else \<not> tc_exhausted c \<and> (\<exists>pg i zs. tc_stack c = frames ((Leaf pg, i) # zs) \<and> i < num_cells pg \<and>
       list_all (node_ok store h) zs \<and> leaves_above zs \<le> n \<and> remaining ((Leaf pg, i) # zs) = xs))"

lemma settle_Ok:
  assumes "list_all (node_ok store h) zs" and "h + leaves_above zs < fuel" and "inv s" and "leaves_above zs \<le> n"
    and "tc_stack c = frames ((Leaf pg, i) # zs)" and "\<not> tc_exhausted c"
  shows "\<exists>s' c'. settle fuel rd (s, c) = Some (Ok (remaining ((Leaf pg, i) # zs) \<noteq> []), (s', c')) \<and> inv s' \<and>
    tc_root c' = tc_root c \<and> cursor_at h n c' (remaining ((Leaf pg, i) # zs))"
  using assms
proof (induction fuel arbitrary: s c pg i zs)
  case (Suc fuel)
  have st: "tc_stack c = (pg, i) # frames zs" using Suc.prems(5) by (simp add: frames_def)
  show ?case
  proof (cases "i < num_cells pg")
    case True
    have "remaining ((Leaf pg, i) # zs) \<noteq> []" using True by simp
    then have "cursor_at h n c (remaining ((Leaf pg, i) # zs))"
      unfolding cursor_at_def using Suc.prems(1,4,5,6) True by auto
    then show ?thesis using st True Suc.prems(3) by (intro exI [of _ s] exI [of _ c]) simp
  next
    case False
    have rem: "remaining ((Leaf pg, i) # zs) = cells_above zs" using False by simp
    obtain s1 c1 where a: "ascend (Suc fuel) rd (frames zs) (s, c) = Some (Ok (tc_stack c1 \<noteq> []), (s1, c1))" "inv s1"
      "c1\<lparr>tc_stack := tc_stack c\<rparr> = c" "if tc_stack c1 = [] then cells_above zs = [] else
        \<exists>zs'. tc_stack c1 = frames zs' \<and> zipper_ok store h zs' \<and> remaining zs' = cells_above zs \<and> Suc (leaves_above zs') = leaves_above zs"
      using ascend_Ok [OF Suc.prems(1), of "Suc fuel" s c] Suc.prems(2,3) by auto
    have ex: "\<not> tc_exhausted c1" "tc_root c1 = tc_root c" using a(3) Suc.prems(6) by (cases c; cases c1; simp)+
    show ?thesis
    proof (cases "tc_stack c1 = []")
      case True
      then show ?thesis using a rem st False ex
        by (intro exI [of _ s1] exI [of _ "c1\<lparr>tc_exhausted := True\<rparr>"])
           (simp add: bindL_def [of "ascend _ _ _"] set_exhausted_def cursor_at_def)
    next
      case False
      then obtain pg' i' zs' where z: "tc_stack c1 = frames ((Leaf pg', i') # zs')" "list_all (node_ok store h) zs'"
        "remaining ((Leaf pg', i') # zs') = cells_above zs" "Suc (leaves_above zs') = leaves_above zs"
        using a(4) by (auto elim!: zipper_ok.elims(2))
      have "h + leaves_above zs' < fuel" using z(4) Suc.prems(2) by simp
      moreover have "leaves_above zs' \<le> n" using z(4) Suc.prems(4) by simp
      ultimately obtain s' c'
        where "settle fuel rd (s1, c1) = Some (Ok (cells_above zs \<noteq> []), (s', c'))" "inv s'" "tc_root c' = tc_root c1" "cursor_at h n c' (cells_above zs)"
        using Suc.IH [OF z(2) _ a(2) _ z(1) ex(1)] unfolding z(3) by blast
      then show ?thesis using a(1) rem st \<open>\<not> i < num_cells pg\<close> False ex
        by (intro exI [of _ s'] exI [of _ c']) (simp add: bindL_def [of "ascend _ _ _"])
    qed
  qed
qed simp

lemma cursor_first_Ok:
  assumes t: "tree_at store (tc_root c) t" and f: "height t + leaves t < fuel" and s: "inv s"
  shows "\<exists>s' c'. cursor_first fuel rd (s, c) = Some (Ok (slots t \<noteq> []), (s', c')) \<and> inv s' \<and>
    tc_root c' = tc_root c \<and> cursor_at (height t) (leaves t) c' (slots t)"
proof -
  let ?c = "c\<lparr>tc_stack := [], tc_exhausted := False\<rparr>"
  obtain s1 where d: "descend_left fuel rd (tc_root c) (s, ?c) = Some (Ok (), (s1, ?c\<lparr>tc_stack := frames (left_path t)\<rparr>))" "inv s1"
    using descend_left_Ok [OF t _ s, of fuel ?c] f by auto
  obtain pg zs where z: "left_path t = (Leaf pg, 0) # zs" "list_all (node_ok store (height t)) zs"
    "map (\<lambda>i. (pg, i)) [0..<num_cells pg] @ cells_above zs = slots t" "Suc (leaves_above zs) = leaves t"
    using left_path_props [OF t order_refl] by blast
  have "height t + leaves_above zs < fuel" using f z(4) by simp
  from settle_Ok [OF z(2) this d(2), of "leaves t" "?c\<lparr>tc_stack := frames (left_path t)\<rparr>" pg 0] z(1,3,4)
  obtain s' c' where "settle fuel rd (s1, ?c\<lparr>tc_stack := frames (left_path t)\<rparr>) = Some (Ok (slots t \<noteq> []), (s', c'))" "inv s'"
    "tc_root c' = tc_root c" "cursor_at (height t) (leaves t) c' (slots t)" by auto
  then show ?thesis using d(1)
    by (intro exI [of _ s'] exI [of _ c'])
       (simp add: cursor_first_def start_cursor_def bindL_def [of "descend_left _ _ _"])
qed

lemma cursor_next_Ok:
  assumes a: "cursor_at h n c (x # xs)" and f: "h + n < fuel" and s: "inv s"
  shows "\<exists>s' c'. cursor_next fuel rd (s, c) = Some (Ok (xs \<noteq> []), (s', c')) \<and> inv s' \<and> cursor_at h n c' xs"
proof -
  obtain pg i zs where c: "\<not> tc_exhausted c" "tc_stack c = frames ((Leaf pg, i) # zs)" "i < num_cells pg"
    "list_all (node_ok store h) zs" "leaves_above zs \<le> n" "remaining ((Leaf pg, i) # zs) = x # xs"
    using a by (auto simp: cursor_at_def)
  have r: "remaining ((Leaf pg, i + 1) # zs) = xs" using c(3,6) by (simp add: upt_conv_Cons)
  let ?c = "c\<lparr>tc_stack := frames ((Leaf pg, i + 1) # zs)\<rparr>"
  have "h + leaves_above zs < fuel" using c(5) f by linarith
  from settle_Ok [OF c(4) this s c(5), of ?c pg "i + 1"] c(1)
  obtain s' c' where "settle fuel rd (s, ?c) = Some (Ok (xs \<noteq> []), (s', c'))" "inv s'" "cursor_at h n c' xs"
    unfolding r by auto
  then show ?thesis using c(1,2) by (intro exI [of _ s'] exI [of _ c']) (simp add: cursor_next_def frames_def)
qed

lemma cursor_frame: "cursor_at h n c (x # xs) \<Longrightarrow> leaf_frame c = Ok x"
  by (auto simp: cursor_at_def leaf_frame_def frames_def upt_conv_Cons)

lemma seek_loop_Ok:
  assumes "tree_at store n t" and "search_tree usable t" and "height t + h + leaves t + leaves_above zs < fuel" and "height t \<le> h"
    and "list_all (node_ok store h) zs" and "inv s" and "tc_stack c = frames zs" and "\<not> tc_exhausted c"
    and "leaves t + leaves_above zs \<le> nl"
  shows "\<exists>s' c'. seek_loop fuel rd usable target n (s, c) = Some (Ok (hits_key usable (sint target) (slots t)), (s', c')) \<and> inv s' \<and>
    cursor_at h nl c' (from_key usable (sint target) (slots t) @ cells_above zs)"
  using assms
proof (induction fuel arbitrary: n t zs s c)
  case (Suc fuel)
  show ?case
  proof (cases t)
    case (Leaf pg)
    have pg: "page_is store n pg" "is_leaf (bt_type pg)" using Suc.prems(1) Leaf by simp_all
    obtain s1 where l: "load_page rd n (s, c) = (Ok pg, (s1, c))" "inv s1" using load_page_Ok [OF Suc.prems(6) pg(1), of c] by auto
    have "is_ok (table_leaf_cell pg j usable)" if "j < num_cells pg" for j
      using Suc.prems(2) Leaf that by (simp add: list_all_iff)
    then obtain m where m: "leaf_scan pg usable target 0 (num_cells pg) = Ok (m, m < num_cells pg \<and> row_key usable (pg, m) = sint target)"
      "m \<le> num_cells pg" "from_key usable (sint target) (slots t) = map (\<lambda>i. (pg, i)) [m..<num_cells pg]"
      using leaf_scan_Ok [of 0 "num_cells pg" pg usable target] Leaf by auto
    let ?c = "c\<lparr>tc_stack := frames ((Leaf pg, m) # zs)\<rparr>"
    have step: "seek_loop (Suc fuel) rd usable target n (s, c) =
        (if num_cells pg \<le> m then bindL (cursor_next (Suc fuel) rd) (\<lambda>_. runL (retA False)) (s1, ?c)
         else Some (Ok (row_key usable (pg, m) = sint target), (s1, ?c)))"
      using l(1) pg(2) m(1) Suc.prems(7) by (simp add: push_frame_def frames_def)
    show ?thesis
    proof (cases "num_cells pg \<le> m")
      case False
      have "from_key usable (sint target) (slots t) = (pg, m) # map (\<lambda>i. (pg, i)) [m + 1..<num_cells pg]"
        using m(3) False by (simp add: upt_conv_Cons)
      then have h: "hits_key usable (sint target) (slots t) = (row_key usable (pg, m) = sint target)" by (simp add: hits_key_def)
      have "cursor_at h nl ?c (from_key usable (sint target) (slots t) @ cells_above zs)"
        unfolding cursor_at_def m(3) using False Suc.prems(5,8,9) Leaf
        by (auto intro!: exI [of _ pg] exI [of _ m] exI [of _ zs])
      then show ?thesis using step h False l(2) by auto
    next
      case True
      have fk: "from_key usable (sint target) (slots t) = []" using m(3) True by simp
      have rem: "remaining ((Leaf pg, m + 1) # zs) = cells_above zs" using True by simp
      have "h + leaves_above zs < Suc fuel" "leaves_above zs \<le> nl" using Suc.prems(3,9) by simp_all
      from settle_Ok [OF Suc.prems(5) this(1) l(2) this(2), of "c\<lparr>tc_stack := frames ((Leaf pg, m + 1) # zs)\<rparr>" pg "m + 1"] Suc.prems(8)
      obtain s' c' where "settle (Suc fuel) rd (s1, c\<lparr>tc_stack := frames ((Leaf pg, m + 1) # zs)\<rparr>) = Some (Ok (cells_above zs \<noteq> []), (s', c'))"
        "inv s'" "cursor_at h nl c' (cells_above zs)" unfolding rem by auto
      moreover from this(1) have "cursor_next (Suc fuel) rd (s1, ?c) = Some (Ok (cells_above zs \<noteq> []), (s', c'))"
        using Suc.prems(8) by (simp add: cursor_next_def frames_def)
      ultimately show ?thesis using step True fk
        by (intro exI [of _ s'] exI [of _ c']) (simp add: bindL_def [of "cursor_next _ _"] hits_key_def)
    qed
  next
    case (Node pg ts)
    have pg: "page_is store n pg" "\<not> is_leaf (bt_type pg)" "length ts = num_cells pg + 1" using Suc.prems(1) Node by simp_all
    obtain s1 where l: "load_page rd n (s, c) = (Ok pg, (s1, c))" "inv s1" using load_page_Ok [OF Suc.prems(6) pg(1), of c] by auto
    have "is_ok (table_interior_key pg j)" if "j < num_cells pg" for j
      using Suc.prems(2) Node that by (auto simp: list_all_iff)
    then obtain m where m: "interior_scan pg target 0 (num_cells pg) = Ok m" "m \<le> num_cells pg"
      "\<And>j. j < m \<Longrightarrow> node_key pg j < sint target" "m < num_cells pg \<Longrightarrow> sint target \<le> node_key pg m"
      using interior_scan_Ok [of 0 "num_cells pg" pg target] by auto
    obtain ch where ch: "child_pointer pg m = Ok ch" "tree_at store ch (ts ! m)" "ts ! m \<in> set ts"
      using tree_at_child [OF Suc.prems(1) [unfolded Node] m(2)] by blast
    let ?zs = "(Node pg ts, m) # zs" and ?c = "c\<lparr>tc_stack := frames ((Node pg ts, m) # zs)\<rparr>"
    have step: "seek_loop (Suc fuel) rd usable target n (s, c) = seek_loop fuel rd usable target ch (s1, ?c)"
      using l(1) pg(2) m(1) ch(1) Suc.prems(7) by (simp add: push_frame_def frames_def)
    have ht: "height (ts ! m) < height t" using height_child [OF ch(3)] Node by simp
    have lv: "leaves (ts ! m) + leaves_above ?zs \<le> leaves t + leaves_above zs"
    proof -
      have "ts = take m ts @ ts ! m # drop (m + 1) ts" using m(2) pg(3) by (simp add: id_take_nth_drop)
      from arg_cong [OF this, of "\<lambda>l. sum_list (map leaves l)"] show ?thesis using Node by simp
    qed
    have fu: "height (ts ! m) + h + leaves (ts ! m) + leaves_above ?zs < fuel" using Suc.prems(3) ht lv by linarith
    have hh: "height (ts ! m) \<le> h" using ht Suc.prems(4) by linarith
    have zo: "list_all (node_ok store h) ?zs" using Suc.prems(1,4,5) Node unfolding node_ok_def by auto
    have sc: "search_tree usable (ts ! m)" using Suc.prems(2) Node ch(3) by (auto simp: list_all_iff)
    have nl: "leaves (ts ! m) + leaves_above ?zs \<le> nl" using lv Suc.prems(9) by linarith
    have sn: "search_tree usable (Node pg ts)" using Suc.prems(2) Node by simp
    note child = seek_child [OF sn pg(3) m(2,3,4)]
    from Suc.IH [OF ch(2) sc fu hh zo l(2) _ _ nl, of ?c] Suc.prems(8)
    obtain s' c' where "seek_loop fuel rd usable target ch (s1, ?c) = Some (Ok (hits_key usable (sint target) (slots (ts ! m))), (s', c'))"
      "inv s'" "cursor_at h nl c' (from_key usable (sint target) (slots (ts ! m)) @ cells_above ?zs)" by auto
    then show ?thesis using step child Node by (intro exI [of _ s'] exI [of _ c']) simp
  qed
qed simp

lemma cursor_seek_Ok:
  assumes t: "tree_at store (tc_root c) t" "search_tree usable t" and f: "2 * height t + leaves t < fuel" and s: "inv s"
  shows "\<exists>s' c'. cursor_seek fuel rd usable target (s, c) = Some (Ok (hits_key usable (sint target) (slots t)), (s', c')) \<and> inv s' \<and>
    cursor_at (height t) (leaves t) c' (from_key usable (sint target) (slots t))"
  using seek_loop_Ok [OF t, of "height t" "[]" fuel s "c\<lparr>tc_stack := [], tc_exhausted := False\<rparr>" "leaves t" target] f s
  by (simp add: cursor_seek_def start_cursor_def frames_def)

end

section \<open>The pagers are page sources\<close>

text \<open>The read-only pager over one file, and the write pager while the pages it shows stay the same.\<close>

definition ro_source :: "pager page_source" where
  "ro_source n p = (case pager_page p n of (p', r) \<Rightarrow> (r, p'))"

definition ro_store :: "pager \<Rightarrow> u32 \<Rightarrow> page option" where
  "ro_store p n = (if 0 < n \<and> n \<le> p_page_count p then Some (page_from_bytes n (page_store p n)) else None)"

definition wp_store :: "pst \<Rightarrow> u32 \<Rightarrow> page option" where
  "wp_store s n = (case logical_page s n of Ok b \<Rightarrow> Some (page_from_bytes n b) | _ \<Rightarrow> None)"

interpretation ro_reader: page_reader ro_source "\<lambda>p. pager_inv p \<and> same_db p0 p" "ro_store p0" for p0
proof
  fix s n pg
  assume a: "pager_inv s \<and> same_db p0 s" "ro_store p0 n = Some pg"
  have e: "page_store s = page_store p0" "p_page_count s = p_page_count p0"
    using a(1) same_db_page_store [of p0 s] by (simp_all add: same_db_def)
  have n: "0 < unat n" "unat n \<le> unat (p_page_count s)" "pg = page_from_bytes n (page_store s n)"
    using a(2) e by (auto simp: ro_store_def unat_gt_0 word_le_nat_alt split: if_splits)
  obtain c where c: "pager_page s n = (s\<lparr>p_cache := c\<rparr>, Ok pg)" "pcache.coherent (page_store s) c"
    using pager_page_in_range [OF _ n(1,2)] a(1) n(3) by auto
  have "pager_inv (s\<lparr>p_cache := c\<rparr>) \<and> same_db p0 (s\<lparr>p_cache := c\<rparr>)"
    using a(1) c(2) pager_inv_update_cache [of s c] by (simp add: same_db_def)
  then show "\<exists>s'. ro_source n s = (Ok pg, s') \<and> pager_inv s' \<and> same_db p0 s'" using c(1) by (simp add: ro_source_def)
qed

interpretation wp_reader: page_reader source_page "\<lambda>s. cache_ok s \<and> logical_page s = logical_page s0" "wp_store s0" for s0
proof
  fix s n pg
  assume a: "cache_ok s \<and> logical_page s = logical_page s0" "wp_store s0 n = Some pg"
  obtain w p where s: "s = (w, p)" by (cases s)
  obtain b where b: "logical_page s n = Ok b" "pg = page_from_bytes n b"
    using a by (auto simp: wp_store_def split: res.splits)
  obtain c where c: "read_page n (w, p) = (Ok b, (w, p\<lparr>wp_read_cache := c\<rparr>))" "cache_ok (w, p\<lparr>wp_read_cache := c\<rparr>)"
    using read_page_logical [of w p n] a(1) b(1) s by auto
  moreover have "logical_page (w, p\<lparr>wp_read_cache := c\<rparr>) = logical_page s0" using a(1) s by (simp add: logical_page_cache)
  ultimately show "\<exists>s'. source_page n s = (Ok pg, s') \<and> cache_ok s' \<and> logical_page s' = logical_page s0"
    using s b(2) by (auto simp: source_page_def bindA_def)
qed

end
