(* ===== verification/Float64.thy ===== *)
theory Float64
  imports Prelude
begin

text \<open>
  What the source uses of IEEE double precision: classification of a bit pattern, comparison
  (\<open>f64::partial_cmp\<close>), the saturating cast \<open>f64 as i64\<close> and the rounding cast \<open>i64 as f64\<close>.
  A value is its bit pattern. Every pattern that is not a NaN denotes an integer multiple of
  the smallest subnormal, \<open>2 ^ -1074\<close>; that integer is \<open>f64_scaled\<close>, and the infinities extend
  it consistently (they are larger than every finite value in magnitude), so comparing doubles
  is comparing integers.
\<close>

section \<open>Definitions\<close>

definition f64_neg :: "f64 \<Rightarrow> bool" where
  "f64_neg w \<longleftrightarrow> unat w div 2 ^ 63 = 1"

definition f64_exp :: "f64 \<Rightarrow> nat" where
  "f64_exp w = unat w div 2 ^ 52 mod 2048"

definition f64_mant :: "f64 \<Rightarrow> nat" where
  "f64_mant w = unat w mod 2 ^ 52"

definition f64_is_nan :: "f64 \<Rightarrow> bool" where
  "f64_is_nan w \<longleftrightarrow> f64_exp w = 2047 \<and> f64_mant w \<noteq> 0"

definition f64_magnitude :: "f64 \<Rightarrow> nat" where
  "f64_magnitude w =
    (if f64_exp w = 0 then f64_mant w
     else (2 ^ 52 + f64_mant w) * 2 ^ (f64_exp w - 1))"

definition f64_scaled :: "f64 \<Rightarrow> int" where
  "f64_scaled w = (if f64_neg w then - int (f64_magnitude w) else int (f64_magnitude w))"

text \<open>The scale of \<open>f64_scaled\<close>: the integer \<open>n\<close> as a double has the scaled value \<open>n * f64_unit\<close>.\<close>

definition f64_unit :: int where
  "f64_unit = 2 ^ 1074"

definition f64_less :: "f64 \<Rightarrow> f64 \<Rightarrow> bool" where
  "f64_less x y \<longleftrightarrow> \<not> f64_is_nan x \<and> \<not> f64_is_nan y \<and> f64_scaled x < f64_scaled y"

text \<open>Truncation toward zero, for a value that is not a NaN.\<close>

definition f64_trunc :: "f64 \<Rightarrow> int" where
  "f64_trunc w = (if f64_neg w then - (int (f64_magnitude w) div f64_unit)
                  else int (f64_magnitude w) div f64_unit)"

definition f64_as_i64 :: "f64 \<Rightarrow> i64" where
  "f64_as_i64 w =
    (if f64_is_nan w then 0
     else if f64_trunc w < - (2 ^ 63) then word_of_int (- (2 ^ 63))
     else if 2 ^ 63 \<le> f64_trunc w then word_of_int (2 ^ 63 - 1)
     else word_of_int (f64_trunc w))"

fun ilog2 :: "nat \<Rightarrow> nat" where
  "ilog2 n = (if n \<le> 1 then 0 else Suc (ilog2 (n div 2)))"

declare ilog2.simps [simp del]

text \<open>
  The magnitude bits of a positive integer below \<open>2 ^ 64\<close>, rounded to nearest with ties to
  even. The mantissa is added, not or-ed, so a carry out of it increments the exponent.
\<close>

definition f64_bits_of_nat :: "nat \<Rightarrow> nat" where
  "f64_bits_of_nat n =
    (let e = ilog2 n in
     if e \<le> 52 then (e + 1023) * 2 ^ 52 + (n * 2 ^ (52 - e) - 2 ^ 52)
     else (let s = e - 52; q = n div 2 ^ s; r = n mod 2 ^ s;
               q' = (if 2 ^ s < 2 * r \<or> (2 ^ s = 2 * r \<and> odd q) then q + 1 else q)
           in (e + 1023) * 2 ^ 52 + (q' - 2 ^ 52)))"

definition i64_as_f64 :: "i64 \<Rightarrow> f64" where
  "i64_as_f64 i =
    (let k = sint i in
     if k = 0 then 0
     else if k < 0 then of_nat (2 ^ 63 + f64_bits_of_nat (nat (- k)))
     else of_nat (f64_bits_of_nat (nat k)))"

section \<open>Lemmas\<close>

lemma ilog2_bounds: "0 < n \<Longrightarrow> 2 ^ ilog2 n \<le> n \<and> n < 2 ^ Suc (ilog2 n)"
proof (induction n rule: ilog2.induct)
  case (1 n)
  show ?case
  proof (cases "n \<le> 1")
    case True
    with 1 show ?thesis by (auto simp: ilog2.simps [of n])
  next
    case False
    with 1 have "2 ^ ilog2 (n div 2) \<le> n div 2 \<and> n div 2 < 2 ^ Suc (ilog2 (n div 2))" by simp
    with False show ?thesis by (auto simp: ilog2.simps [of n])
  qed
qed

lemma f64_unit_pos: "0 < f64_unit"
  by (simp add: f64_unit_def)

lemma f64_scaled_trunc: "f64_trunc w = sgn (f64_scaled w) * (\<bar>f64_scaled w\<bar> div f64_unit)"
  by (auto simp: f64_trunc_def f64_scaled_def sgn_if)

text \<open>Reading back the fields of a bit pattern put together from a sign, an exponent and a mantissa.\<close>

lemma f64_fields:
  assumes "m < 2 ^ 52" and "e < 2048" and "s \<le> 1"
  defines "w \<equiv> (of_nat (s * 2 ^ 63 + e * 2 ^ 52 + m) :: f64)"
  shows "f64_mant w = m" "f64_exp w = e" "f64_neg w \<longleftrightarrow> s = 1"
proof -
  have "s * 2 ^ 63 + e * 2 ^ 52 + m < 2 ^ 64"
    using assms(1-3) by simp
  then have u: "unat w = s * 2 ^ 63 + e * 2 ^ 52 + m"
    unfolding w_def by (subst unat_of_nat) simp
  have split: "s * 2 ^ 63 + e * 2 ^ 52 + m = m + (s * 2 ^ 11 + e) * 2 ^ 52"
    by simp
  have "unat w div 2 ^ 52 = s * 2 ^ 11 + e"
    using assms(1) unfolding u split by (subst div_mult_self1) simp_all
  then show "f64_exp w = e" using assms(2) by (simp add: f64_exp_def)
  show "f64_mant w = m" using assms(1) unfolding f64_mant_def u split
    by (subst mod_mult_self1) simp
  show "f64_neg w \<longleftrightarrow> s = 1" using assms(1-3) by (auto simp: f64_neg_def u)
qed

text \<open>An integer with at most 53 significant bits is converted exactly.\<close>

lemma f64_bits_of_nat_exact:
  assumes "0 < n" and "n = m * 2 ^ k" and "m < 2 ^ 53" and "n < 2 ^ 64"
  obtains q e where "f64_bits_of_nat n = (e + 1023) * 2 ^ 52 + (q - 2 ^ 52)"
    and "e < 64" and "2 ^ 52 \<le> q" and "q < 2 ^ 53" and "q * 2 ^ (e + 1022) = n * 2 ^ 1074"
proof -
  define e where "e = ilog2 n"
  have eb: "2 ^ e \<le> n" "n < 2 ^ Suc e" using ilog2_bounds [OF assms(1)] by (auto simp: e_def)
  have "(2 :: nat) ^ e < 2 ^ 64" using eb assms(4) by linarith
  then have e64: "e < 64" by (rule power_less_imp_less_exp [rotated]) simp
  show ?thesis
  proof (cases "e \<le> 52")
    case True
    let ?q = "n * 2 ^ (52 - e)"
    have "2 ^ e * 2 ^ (52 - e) = (2 :: nat) ^ 52" "2 ^ Suc e * 2 ^ (52 - e) = (2 :: nat) ^ 53"
      using True by (simp_all flip: power_add)
    then have q: "2 ^ 52 \<le> ?q" "?q < 2 ^ 53"
      using eb by (metis mult_le_mono1, metis mult_less_mono1 zero_less_numeral zero_less_power)
    have "2 ^ (52 - e) * 2 ^ (e + 1022) = (2 :: nat) ^ 1074"
      using True by (simp flip: power_add)
    then have "?q * 2 ^ (e + 1022) = n * 2 ^ 1074" by (metis mult.assoc)
    with that [of e ?q] True q e64 show ?thesis
      by (simp add: f64_bits_of_nat_def e_def [symmetric] Let_def)
  next
    case False
    let ?s = "e - 52"
    have "2 ^ e < m * 2 ^ k + 1" using eb assms(2) by linarith
    have "n < 2 ^ (53 + k)" using assms(2,3) by (simp add: power_add)
    then have "(2 :: nat) ^ e < 2 ^ (53 + k)" using eb by linarith
    then have "e < 53 + k" by (rule power_less_imp_less_exp [rotated]) simp
    then have "(2 :: nat) ^ ?s dvd 2 ^ k" by (intro le_imp_power_dvd) simp
    then have "2 ^ ?s dvd n" using assms(2) by simp
    then obtain q where q: "n = 2 ^ ?s * q" ..
    then have div: "n div 2 ^ ?s = q" "n mod 2 ^ ?s = 0" by simp_all
    have "e = ?s + 52" "Suc e = ?s + 53" using False by simp_all
    then have "(2 :: nat) ^ e = 2 ^ ?s * 2 ^ 52" "(2 :: nat) ^ Suc e = 2 ^ ?s * 2 ^ 53"
      by (metis power_add)+
    then have qb: "2 ^ 52 \<le> q" "q < 2 ^ 53"
      using eb q by (metis mult_le_cancel1 zero_less_numeral zero_less_power,
          metis mult_less_cancel1)
    have "e + 1022 = ?s + 1074" using False by simp
    then have "2 ^ (e + 1022) = (2 :: nat) ^ ?s * 2 ^ 1074" by (metis power_add)
    then have "q * 2 ^ (e + 1022) = n * 2 ^ 1074" using q by (simp add: algebra_simps)
    with that [of e q] False qb e64 div show ?thesis
      by (simp add: f64_bits_of_nat_def e_def [symmetric] Let_def)
  qed
qed

lemma f64_scaled_i64_as_f64:
  assumes "nat \<bar>sint i\<bar> = m * 2 ^ k" and "m < 2 ^ 53"
  shows "f64_scaled (i64_as_f64 i) = sint i * f64_unit \<and> \<not> f64_is_nan (i64_as_f64 i)"
proof (cases "sint i = 0")
  case True
  then show ?thesis
    by (simp add: i64_as_f64_def f64_scaled_def f64_magnitude_def f64_is_nan_def f64_neg_def
        f64_exp_def f64_mant_def)
next
  case False
  define n where "n = nat \<bar>sint i\<bar>"
  have "\<bar>sint i\<bar> \<le> 2 ^ 63" using sint_range_size [of i] by (auto simp: word_size)
  then have n: "0 < n" "n < 2 ^ 64" using False by (auto simp: n_def)
  have nmk: "n = m * 2 ^ k" using assms(1) by (simp add: n_def)
  obtain q e where
    bits: "f64_bits_of_nat n = (e + 1023) * 2 ^ 52 + (q - 2 ^ 52)"
    and b: "e < 64" "2 ^ 52 \<le> q" "q < 2 ^ 53" "q * 2 ^ (e + 1022) = n * 2 ^ 1074"
    by (rule f64_bits_of_nat_exact [OF n(1) nmk assms(2) n(2)])
  define s where "s = (if sint i < 0 then 1 else 0 :: nat)"
  have w: "i64_as_f64 i = of_nat (s * 2 ^ 63 + (e + 1023) * 2 ^ 52 + (q - 2 ^ 52))"
    using False bits by (auto simp: i64_as_f64_def s_def n_def Let_def abs_if)
  have "q - 2 ^ 52 < 2 ^ 52" "e + 1023 < 2048" "s \<le> 1" using b by (auto simp: s_def)
  note f = f64_fields [OF this, folded w]
  have "2 ^ 52 + (q - 2 ^ 52) = q" "e + 1023 - 1 = e + 1022" using b(2) by simp_all
  then have "f64_magnitude (i64_as_f64 i) = n * 2 ^ 1074"
    using b(4) by (simp only: f64_magnitude_def f) simp
  then show ?thesis
    using b(1) f by (auto simp: f64_scaled_def f64_is_nan_def s_def n_def f64_unit_def)
qed

end
