(* ===== verification/Values.thy ===== *)
theory Values
  imports Float64 Errors "HOL-Library.List_Lexorder" "HOL-Library.Product_Lexorder"
begin

text \<open>
  The dynamic value model (\<open>src/value.rs\<close>): text as a byte string with its UTF-8 view, the five
  storage classes, collating sequences with the registry of application-defined ones, the
  comparison of values and the serial type codes of the record format. The comparison is
  shown to be the order of a key in a linear order, hence a total preorder, on values
  that hold no NaN; the mixed integer/real comparison is shown to be exact.
\<close>

section \<open>Orderings\<close>

datatype ordering = Less | Equal | Greater

fun reverse_ordering :: "ordering \<Rightarrow> ordering" where
  "reverse_ordering Less = Greater"
| "reverse_ordering Equal = Equal"
| "reverse_ordering Greater = Less"

text \<open>\<open>Ord::cmp\<close> on a type whose order is HOL's.\<close>

definition cmp_lin :: "'a::linorder \<Rightarrow> 'a \<Rightarrow> ordering" where
  "cmp_lin x y = (if x < y then Less else if x = y then Equal else Greater)"

text \<open>\<open>Ord::cmp\<close> on byte slices: lexicographic on unsigned bytes, a proper prefix first.\<close>

fun cmp_bytes :: "bytes \<Rightarrow> bytes \<Rightarrow> ordering" where
  "cmp_bytes [] [] = Equal"
| "cmp_bytes [] (y # ys) = Less"
| "cmp_bytes (x # xs) [] = Greater"
| "cmp_bytes (x # xs) (y # ys) =
     (if unat x < unat y then Less else if unat y < unat x then Greater else cmp_bytes xs ys)"

section \<open>Text\<close>

definition utf8_cont :: "u8 \<Rightarrow> bool" where
  "utf8_cont b \<longleftrightarrow> 0x80 \<le> unat b \<and> unat b \<le> 0xbf"

text \<open>\<open>core::str::from_utf8\<close> succeeds: the well-formed byte sequences of the Unicode standard.\<close>

fun utf8_valid :: "bytes \<Rightarrow> bool" where
  "utf8_valid [] = True"
| "utf8_valid (b # bs) =
    (let n = unat b in
     if n < 0x80 then utf8_valid bs
     else case bs of [] \<Rightarrow> False | c # cs \<Rightarrow>
       if 0xc2 \<le> n \<and> n \<le> 0xdf then utf8_cont c \<and> utf8_valid cs
       else case cs of [] \<Rightarrow> False | d # ds \<Rightarrow>
         if 0xe0 \<le> n \<and> n \<le> 0xef then
           utf8_cont c \<and> utf8_cont d \<and> (n = 0xe0 \<longrightarrow> 0xa0 \<le> unat c) \<and>
           (n = 0xed \<longrightarrow> unat c \<le> 0x9f) \<and> utf8_valid ds
         else case ds of [] \<Rightarrow> False | e # es \<Rightarrow>
           0xf0 \<le> n \<and> n \<le> 0xf4 \<and> utf8_cont c \<and> utf8_cont d \<and> utf8_cont e \<and>
           (n = 0xf0 \<longrightarrow> 0x90 \<le> unat c) \<and> (n = 0xf4 \<longrightarrow> unat c \<le> 0x8f) \<and> utf8_valid es)"

type_synonym sqltext = bytes

definition as_bytes :: "sqltext \<Rightarrow> bytes" where
  "as_bytes t = t"

definition byte_len :: "sqltext \<Rightarrow> nat" where
  "byte_len t = length t"

text \<open>The \<open>&str\<close> view (also \<open>Deref\<close>): the bytes when they are UTF-8, else the empty string.\<close>

definition as_str :: "sqltext \<Rightarrow> bytes" where
  "as_str t = (if utf8_valid t then t else [])"

section \<open>Values\<close>

datatype sqlvalue = Null | Integer i64 | Real f64 | Text sqltext | Blob bytes

fun is_nan_value :: "sqlvalue \<Rightarrow> bool" where
  "is_nan_value (Real r) = f64_is_nan r"
| "is_nan_value _ = False"

section \<open>Collations\<close>

datatype collation = Binary | NoCase | RTrim | Custom nat

definition to_ascii_lowercase :: "u8 \<Rightarrow> u8" where
  "to_ascii_lowercase b = (if 65 \<le> unat b \<and> unat b \<le> 90 then b + 32 else b)"

definition ascii_lower_string :: "string \<Rightarrow> string" where
  "ascii_lower_string s =
    map (\<lambda>c. let n = of_char c :: nat in if 65 \<le> n \<and> n \<le> 90 then char_of (n + 32) else c) s"

definition collation_parse :: "string \<Rightarrow> collation option" where
  "collation_parse name =
    (let l = ascii_lower_string name in
     if l = ''binary'' then Some Binary
     else if l = ''nocase'' then Some NoCase
     else if l = ''rtrim'' then Some RTrim
     else None)"

text \<open>The process-global registry of custom collations.\<close>

record registry =
  by_name :: "string \<rightharpoonup> nat"
  coll_names :: "string list"
  coll_fns :: "(bytes \<Rightarrow> bytes \<Rightarrow> ordering) list"

definition empty_registry :: registry where
  "empty_registry = \<lparr>by_name = Map.empty, coll_names = [], coll_fns = []\<rparr>"

definition register_collation ::
    "registry \<Rightarrow> string \<Rightarrow> (bytes \<Rightarrow> bytes \<Rightarrow> ordering) \<Rightarrow> (registry \<times> nat) res" where
  "register_collation reg name f =
    (let key = ascii_lower_string name in
     case by_name reg key of
       Some cid \<Rightarrow>
         bindR (put_idx (coll_fns reg) cid f) (\<lambda>fns.
         bindR (put_idx (coll_names reg) cid name) (\<lambda>nms.
         Ok (reg\<lparr>coll_fns := fns, coll_names := nms\<rparr>, cid)))
     | None \<Rightarrow>
         (let cid = length (coll_fns reg) in
          Ok (reg\<lparr>coll_fns := coll_fns reg @ [f], coll_names := coll_names reg @ [name],
                  by_name := (by_name reg)(key \<mapsto> cid)\<rparr>, cid)))"

definition registry_resolve_name :: "registry \<Rightarrow> string \<Rightarrow> nat option" where
  "registry_resolve_name reg name = by_name reg (ascii_lower_string name)"

definition registry_name_of :: "registry \<Rightarrow> nat \<Rightarrow> string option" where
  "registry_name_of reg cid = (if cid < length (coll_names reg) then Some (coll_names reg ! cid) else None)"

definition registry_compare :: "registry \<Rightarrow> nat \<Rightarrow> bytes \<Rightarrow> bytes \<Rightarrow> ordering" where
  "registry_compare reg cid x y =
    (if cid < length (coll_fns reg) then (coll_fns reg ! cid) x y else cmp_bytes x y)"

definition resolve_collation_name :: "registry \<Rightarrow> string \<Rightarrow> collation option" where
  "resolve_collation_name reg name =
    (case collation_parse name of
       Some c \<Rightarrow> Some c
     | None \<Rightarrow> map_option Custom (registry_resolve_name reg name))"

definition collation_name :: "registry \<Rightarrow> collation \<Rightarrow> string" where
  "collation_name reg coll =
    (case coll of
       Binary \<Rightarrow> ''BINARY''
     | NoCase \<Rightarrow> ''NOCASE''
     | RTrim \<Rightarrow> ''RTRIM''
     | Custom cid \<Rightarrow> (case registry_name_of reg cid of Some n \<Rightarrow> n | None \<Rightarrow> ''BINARY''))"

text \<open>\<open>trim_end_matches(' ')\<close>.\<close>

definition trim_end_spaces :: "bytes \<Rightarrow> bytes" where
  "trim_end_spaces x = rev (dropWhile (\<lambda>b. b = 32) (rev x))"

definition cmp_text :: "registry \<Rightarrow> bytes \<Rightarrow> bytes \<Rightarrow> collation \<Rightarrow> ordering" where
  "cmp_text reg x y coll =
    (case coll of
       Binary \<Rightarrow> cmp_bytes x y
     | NoCase \<Rightarrow> cmp_bytes (map to_ascii_lowercase x) (map to_ascii_lowercase y)
     | RTrim \<Rightarrow> cmp_bytes (trim_end_spaces x) (trim_end_spaces y)
     | Custom cid \<Rightarrow> registry_compare reg cid x y)"

section \<open>Comparison\<close>

text \<open>\<open>partial_cmp(..).unwrap_or(Equal)\<close>.\<close>

definition f64_cmp_or_equal :: "f64 \<Rightarrow> f64 \<Rightarrow> ordering" where
  "f64_cmp_or_equal x y =
    (if f64_is_nan x \<or> f64_is_nan y then Equal else cmp_lin (f64_scaled x) (f64_scaled y))"

definition int_float_cmp :: "i64 \<Rightarrow> f64 \<Rightarrow> ordering" where
  "int_float_cmp i r =
    (if f64_is_nan r then Equal
     else if f64_less r 0xC3E0000000000000 then Greater
     else if \<not> f64_less r 0x43E0000000000000 then Less
     else (let y = f64_as_i64 r in
           case cmp_lin (sint i) (sint y) of
             Equal \<Rightarrow> f64_cmp_or_equal (i64_as_f64 i) r
           | other \<Rightarrow> other))"

fun value_class :: "sqlvalue \<Rightarrow> nat" where
  "value_class Null = 0"
| "value_class (Integer _) = 1"
| "value_class (Real _) = 1"
| "value_class (Text _) = 2"
| "value_class (Blob _) = 3"

fun cmp_values :: "sqlvalue \<Rightarrow> sqlvalue \<Rightarrow> ordering" where
  "cmp_values Null Null = Equal"
| "cmp_values (Integer x) (Integer y) = cmp_lin (sint x) (sint y)"
| "cmp_values (Real x) (Real y) = f64_cmp_or_equal x y"
| "cmp_values (Integer i) (Real r) = int_float_cmp i r"
| "cmp_values (Real r) (Integer i) = reverse_ordering (int_float_cmp i r)"
| "cmp_values (Text x) (Text y) = cmp_bytes (as_bytes x) (as_bytes y)"
| "cmp_values (Blob x) (Blob y) = cmp_bytes x y"
| "cmp_values a b = cmp_lin (value_class a) (value_class b)"

fun cmp_values_coll :: "registry \<Rightarrow> sqlvalue \<Rightarrow> sqlvalue \<Rightarrow> collation \<Rightarrow> ordering" where
  "cmp_values_coll reg (Text x) (Text y) coll = cmp_text reg (as_str x) (as_str y) coll"
| "cmp_values_coll reg a b coll = cmp_values a b"

section \<open>Serial types\<close>

definition content_len :: "u64 \<Rightarrow> nat option" where
  "content_len s =
    (if s = 0 \<or> s = 8 \<or> s = 9 then Some 0
     else if s = 1 then Some 1
     else if s = 2 then Some 2
     else if s = 3 then Some 3
     else if s = 4 then Some 4
     else if s = 5 then Some 6
     else if s = 6 \<or> s = 7 then Some 8
     else if s = 10 \<or> s = 11 then None
     else if s mod 2 = 0 then Some (unat ((s - 12) div 2))
     else Some (unat ((s - 13) div 2)))"

definition serial_for_int :: "i64 \<Rightarrow> u64" where
  "serial_for_int i =
    (let k = sint i in
     if i = 0 then 8
     else if i = 1 then 9
     else if - 0x80 \<le> k \<and> k \<le> 0x7f then 1
     else if - 0x8000 \<le> k \<and> k \<le> 0x7fff then 2
     else if - 0x800000 \<le> k \<and> k \<le> 0x7fffff then 3
     else if - 0x80000000 \<le> k \<and> k \<le> 0x7fffffff then 4
     else if - 0x800000000000 \<le> k \<and> k \<le> 0x7fffffffffff then 5
     else 6)"

fun for_value :: "sqlvalue \<Rightarrow> u64" where
  "for_value Null = 0"
| "for_value (Integer i) = serial_for_int i"
| "for_value (Real _) = 7"
| "for_value (Blob b) = 12 + 2 * of_nat (length b)"
| "for_value (Text s) = 13 + 2 * of_nat (byte_len s)"

section \<open>Comparators\<close>

text \<open>
  The contract of a comparison function that sorting and searching rely on: it is decided by
  a key in a linear order, for the values satisfying \<open>ok\<close>.
\<close>

locale comparator =
  fixes cmp :: "'a \<Rightarrow> 'a \<Rightarrow> ordering"
    and key :: "'a \<Rightarrow> 'k::linorder"
    and ok :: "'a \<Rightarrow> bool"
  assumes cmp_key: "ok x \<Longrightarrow> ok y \<Longrightarrow> cmp x y = cmp_lin (key x) (key y)"
begin

lemma cmp_refl: "ok x \<Longrightarrow> cmp x x = Equal"
  by (simp add: cmp_key cmp_lin_def)

lemma cmp_reverse: "ok x \<Longrightarrow> ok y \<Longrightarrow> cmp y x = reverse_ordering (cmp x y)"
  by (auto simp: cmp_key cmp_lin_def)

lemma cmp_equal_trans:
  "ok x \<Longrightarrow> ok y \<Longrightarrow> ok z \<Longrightarrow> cmp x y = Equal \<Longrightarrow> cmp y z = c \<Longrightarrow> cmp x z = c"
  by (auto simp: cmp_key cmp_lin_def split: if_splits)

lemma cmp_less_trans:
  "ok x \<Longrightarrow> ok y \<Longrightarrow> ok z \<Longrightarrow> cmp x y = Less \<Longrightarrow> cmp y z = Less \<Longrightarrow> cmp x z = Less"
  by (auto simp: cmp_key cmp_lin_def split: if_splits)

lemma cmp_le_trans:
  "ok x \<Longrightarrow> ok y \<Longrightarrow> ok z \<Longrightarrow> cmp x y \<noteq> Greater \<Longrightarrow> cmp y z \<noteq> Greater \<Longrightarrow> cmp x z \<noteq> Greater"
  by (auto simp: cmp_key cmp_lin_def split: if_splits)

end

section \<open>Byte strings\<close>

lemma cmp_bytes_lin: "cmp_bytes x y = cmp_lin (map unat x) (map unat y)"
  by (induction x y rule: cmp_bytes.induct) (auto simp: cmp_lin_def)

interpretation bytes_order: comparator cmp_bytes "map unat" "\<lambda>_. True"
  by unfold_locales (rule cmp_bytes_lin)

lemma cmp_bytes_Equal_iff: "cmp_bytes x y = Equal \<longleftrightarrow> x = y"
proof -
  have "inj (unat :: u8 \<Rightarrow> nat)" by (auto intro: injI)
  then show ?thesis by (auto simp: cmp_bytes_lin cmp_lin_def inj_map_eq_map)
qed

section \<open>Integers and reals\<close>

lemma f64_magnitude_form: "\<exists>m k. f64_magnitude w = m * 2 ^ k \<and> m < 2 ^ 53"
proof (cases "f64_exp w = 0")
  case True
  have "f64_mant w < 2 ^ 53" by (simp add: f64_mant_def)
  with True show ?thesis
    by (intro exI [of _ "f64_mant w"] exI [of _ 0]) (simp add: f64_magnitude_def)
next
  case False
  have "2 ^ 52 + f64_mant w < 2 ^ 53" by (simp add: f64_mant_def)
  with False show ?thesis
    by (intro exI [of _ "2 ^ 52 + f64_mant w"] exI [of _ "f64_exp w - 1"])
       (simp add: f64_magnitude_def)
qed

lemma f64_trunc_form: "\<exists>m k. nat \<bar>f64_trunc w\<bar> = m * 2 ^ k \<and> m < 2 ^ 53"
proof -
  obtain m k where mk: "f64_magnitude w = m * 2 ^ k" "m < 2 ^ 53"
    using f64_magnitude_form by blast
  have t: "nat \<bar>f64_trunc w\<bar> = f64_magnitude w div 2 ^ 1074"
    by (simp add: f64_trunc_def f64_unit_def nat_div_distrib nat_power_eq)
  show ?thesis
  proof (cases "1074 \<le> k")
    case True
    then have "k = (k - 1074) + 1074" by simp
    then have "(2 :: nat) ^ k = 2 ^ (k - 1074) * 2 ^ 1074" by (metis power_add)
    then have "nat \<bar>f64_trunc w\<bar> = m * 2 ^ (k - 1074)" using t mk by (simp flip: mult.assoc)
    with mk(2) show ?thesis by blast
  next
    case False
    then have "1074 = k + (1074 - k)" by simp
    then have "(2 :: nat) ^ 1074 = 2 ^ k * 2 ^ (1074 - k)" by (metis power_add)
    then have "nat \<bar>f64_trunc w\<bar> = m * 2 ^ k div 2 ^ k div 2 ^ (1074 - k)"
      by (simp only: t mk(1) div_mult2_eq)
    then have "nat \<bar>f64_trunc w\<bar> = m div 2 ^ (1074 - k)" by simp
    then have "nat \<bar>f64_trunc w\<bar> = m div 2 ^ (1074 - k) * 2 ^ 0" by simp
    moreover have "m div 2 ^ (1074 - k) < 2 ^ 53" using mk(2) div_le_dividend le_less_trans by blast
    ultimately show ?thesis by blast
  qed
qed

lemma trunc_compare:
  fixes S U k :: int
  assumes "0 < U"
  defines "t \<equiv> sgn S * (\<bar>S\<bar> div U)"
  shows "k < t \<Longrightarrow> k * U < S" and "t < k \<Longrightarrow> S < k * U"
proof -
  define q where "q = \<bar>S\<bar> div U"
  have "\<bar>S\<bar> = q * U + \<bar>S\<bar> mod U" by (simp add: q_def)
  moreover have "0 \<le> \<bar>S\<bar> mod U" "\<bar>S\<bar> mod U < U" using assms(1) by simp_all
  moreover have "(q + 1) * U = q * U + U" by (simp add: algebra_simps)
  ultimately have q: "q * U \<le> \<bar>S\<bar>" "\<bar>S\<bar> < (q + 1) * U" by linarith+
  have mono: "a \<le> b \<Longrightarrow> a * U \<le> b * U" for a b using assms(1) by simp
  show "k * U < S" if "k < t"
  proof (cases "0 < S")
    case True
    then have "k + 1 \<le> q" using that by (simp add: t_def q_def)
    from mono [OF this] q(1) True assms(1) show ?thesis by (simp add: algebra_simps)
  next
    case False
    then have "k + 1 \<le> - q" using that by (simp add: t_def q_def sgn_if split: if_splits)
    from mono [OF this] q(2) False assms(1) show ?thesis
      by (simp add: algebra_simps)
  qed
  show "S < k * U" if "t < k"
  proof (cases "S < 0")
    case True
    then have "- q + 1 \<le> k" using that by (simp add: t_def q_def)
    from mono [OF this] q(1) True assms(1) show ?thesis by (simp add: algebra_simps)
  next
    case False
    then have "q + 1 \<le> k" using that by (simp add: t_def q_def sgn_if split: if_splits)
    from mono [OF this] q(2) False show ?thesis by (simp add: algebra_simps)
  qed
qed

lemma f64_two_63: "\<not> f64_is_nan 0x43E0000000000000" "f64_scaled 0x43E0000000000000 = 2 ^ 63 * f64_unit"
    "\<not> f64_is_nan 0xC3E0000000000000" "f64_scaled 0xC3E0000000000000 = - (2 ^ 63 * f64_unit)"
  by (simp_all add: f64_is_nan_def f64_scaled_def f64_magnitude_def f64_neg_def f64_exp_def
      f64_mant_def f64_unit_def)

lemma sint_64_range: "- (2 ^ 63) \<le> sint (i :: i64)" "sint (i :: i64) < 2 ^ 63"
  using sint_range_size [of i] by (auto simp: word_size)

lemma f64_cmp_i64_exact:
  assumes "sint i = f64_trunc r" and "\<not> f64_is_nan r"
  shows "f64_cmp_or_equal (i64_as_f64 i) r = cmp_lin (sint i * f64_unit) (f64_scaled r)"
proof -
  obtain m k where "nat \<bar>sint i\<bar> = m * 2 ^ k" "m < 2 ^ 53"
    using f64_trunc_form [of r] assms(1) by auto
  from f64_scaled_i64_as_f64 [OF this] assms(2) show ?thesis
    by (simp add: f64_cmp_or_equal_def)
qed

lemma f64_trunc_in_range:
  assumes "- (2 ^ 63 * f64_unit) \<le> f64_scaled r" and "f64_scaled r < 2 ^ 63 * f64_unit"
  shows "- (2 ^ 63) \<le> f64_trunc r" and "f64_trunc r < 2 ^ 63"
proof -
  show "- (2 ^ 63) \<le> f64_trunc r"
  proof (rule ccontr)
    assume "\<not> - (2 ^ 63) \<le> f64_trunc r"
    then have "f64_scaled r < - (2 ^ 63) * f64_unit"
      using trunc_compare(2) [OF f64_unit_pos, of "f64_scaled r" "- (2 ^ 63)"]
      by (simp only: f64_scaled_trunc [symmetric])
    with assms(1) show False by simp
  qed
  show "f64_trunc r < 2 ^ 63"
  proof (rule ccontr)
    let ?S = "f64_scaled r"
    assume "\<not> f64_trunc r < 2 ^ 63"
    then have "2 ^ 63 \<le> sgn ?S * (\<bar>?S\<bar> div f64_unit)" by (simp only: f64_scaled_trunc)
    then have "0 < ?S" and "2 ^ 63 \<le> ?S div f64_unit"
      using pos_imp_zdiv_nonneg_iff [OF f64_unit_pos, of "\<bar>?S\<bar>"]
      by (auto simp: sgn_if split: if_splits)
    then have "2 ^ 63 * f64_unit \<le> ?S"
      using f64_unit_pos by (metis div_mult_mod_eq le_add_same_cancel1 mult_right_mono
          order_trans pos_mod_sign less_imp_le)
    with assms(2) show False by simp
  qed
qed

lemma int_float_cmp_key:
  assumes "\<not> f64_is_nan r"
  shows "int_float_cmp i r = cmp_lin (sint i * f64_unit) (f64_scaled r)"
proof -
  let ?S = "f64_scaled r"
  have bnd: "- (2 ^ 63) * f64_unit \<le> sint i * f64_unit" "sint i * f64_unit < 2 ^ 63 * f64_unit"
    using mult_right_mono [OF sint_64_range(1) [of i] less_imp_le [OF f64_unit_pos]]
      mult_strict_right_mono [OF sint_64_range(2) [of i] f64_unit_pos] by simp_all
  consider (lo) "?S < - (2 ^ 63 * f64_unit)" | (hi) "2 ^ 63 * f64_unit \<le> ?S"
    | (mid) "- (2 ^ 63 * f64_unit) \<le> ?S" "?S < 2 ^ 63 * f64_unit"
    by linarith
  then show ?thesis
  proof cases
    case lo
    then show ?thesis using assms bnd by (simp add: int_float_cmp_def f64_less_def f64_two_63 cmp_lin_def)
  next
    case hi
    have "0 < 2 ^ 63 * f64_unit" using f64_unit_pos by simp
    with hi have "\<not> ?S < - (2 ^ 63 * f64_unit)" by linarith
    with hi show ?thesis using assms bnd
      by (simp add: int_float_cmp_def f64_less_def f64_two_63 cmp_lin_def)
  next
    case mid
    note range = f64_trunc_in_range [OF mid]
    then have y: "sint (f64_as_i64 r) = f64_trunc r"
      using assms by (simp add: f64_as_i64_def sint_sbintrunc' signed_take_bit_int_eq_self_iff)
    have "int_float_cmp i r = (case cmp_lin (sint i) (f64_trunc r) of
        Equal \<Rightarrow> f64_cmp_or_equal (i64_as_f64 i) r | other \<Rightarrow> other)"
      using assms mid by (simp add: int_float_cmp_def f64_less_def f64_two_63 y)
    moreover consider "sint i < f64_trunc r" | "sint i = f64_trunc r" | "f64_trunc r < sint i"
      by linarith
    then have "(case cmp_lin (sint i) (f64_trunc r) of
        Equal \<Rightarrow> f64_cmp_or_equal (i64_as_f64 i) r | other \<Rightarrow> other) =
        cmp_lin (sint i * f64_unit) ?S"
    proof cases
      case 1
      then have "sint i * f64_unit < ?S"
        using trunc_compare(1) [OF f64_unit_pos, of "sint i" ?S] by (simp only: f64_scaled_trunc)
      with 1 show ?thesis by (simp add: cmp_lin_def)
    next
      case 2
      then show ?thesis using f64_cmp_i64_exact [OF 2 assms] by (simp add: cmp_lin_def)
    next
      case 3
      then have "?S < sint i * f64_unit"
        using trunc_compare(2) [OF f64_unit_pos, of ?S "sint i"] by (simp only: f64_scaled_trunc)
      with 3 show ?thesis by (simp add: cmp_lin_def)
    qed
    ultimately show ?thesis by simp
  qed
qed

section \<open>Values are totally preordered\<close>

text \<open>
  The key that decides the comparison: the storage class, then the number as a multiple of the
  unit of the doubles, then the bytes.
\<close>

fun value_key :: "sqlvalue \<Rightarrow> nat \<times> int \<times> nat list" where
  "value_key Null = (0, 0, [])"
| "value_key (Integer i) = (1, sint i * f64_unit, [])"
| "value_key (Real r) = (1, f64_scaled r, [])"
| "value_key (Text t) = (2, 0, map unat t)"
| "value_key (Blob b) = (3, 0, map unat b)"

lemma reverse_cmp_lin: "reverse_ordering (cmp_lin x y) = cmp_lin y x"
  by (auto simp: cmp_lin_def)

lemma cmp_lin_mult_pos: "(0 :: int) < u \<Longrightarrow> cmp_lin (a * u) (b * u) = cmp_lin a b"
  by (auto simp: cmp_lin_def)

lemma cmp_lin_Pair: "cmp_lin (a, x) (a, y) = cmp_lin x y"
  by (auto simp: cmp_lin_def)

lemma cmp_lin_refl [simp]: "cmp_lin x x = Equal"
  by (simp add: cmp_lin_def)

lemma cmp_lin_same_snd: "cmp_lin (x, z) (y, z) = cmp_lin x y"
  by (auto simp: cmp_lin_def)

lemma cmp_lin_fst: "a \<noteq> b \<Longrightarrow> cmp_lin (a, x) (b, y) = cmp_lin a b"
  by (auto simp: cmp_lin_def)

lemma cmp_values_key:
  "\<not> is_nan_value a \<Longrightarrow> \<not> is_nan_value b \<Longrightarrow>
   cmp_values a b = cmp_lin (value_key a) (value_key b)"
proof (cases a; cases b)
qed (simp_all add: cmp_bytes_lin as_bytes_def int_float_cmp_key reverse_cmp_lin
    f64_cmp_or_equal_def cmp_lin_Pair cmp_lin_same_snd cmp_lin_fst cmp_lin_mult_pos [OF f64_unit_pos])

interpretation value_order: comparator cmp_values value_key "\<lambda>v. \<not> is_nan_value v"
  by unfold_locales (rule cmp_values_key)

text \<open>Under a built-in collation, text is compared by a transformed string.\<close>

fun text_key :: "collation \<Rightarrow> bytes \<Rightarrow> bytes" where
  "text_key NoCase x = map to_ascii_lowercase x"
| "text_key RTrim x = trim_end_spaces x"
| "text_key _ x = x"

fun value_key_coll :: "collation \<Rightarrow> sqlvalue \<Rightarrow> nat \<times> int \<times> nat list" where
  "value_key_coll coll (Text t) = (2, 0, map unat (text_key coll (as_str t)))"
| "value_key_coll coll v = value_key v"

fun builtin_collation :: "collation \<Rightarrow> bool" where
  "builtin_collation (Custom _) = False"
| "builtin_collation _ = True"

lemma cmp_text_key:
  "builtin_collation coll \<Longrightarrow> cmp_text reg x y coll = cmp_bytes (text_key coll x) (text_key coll y)"
  by (cases coll) (auto simp: cmp_text_def)

lemma cmp_values_coll_key:
  assumes "builtin_collation coll" and "\<not> is_nan_value a" and "\<not> is_nan_value b"
  shows "cmp_values_coll reg a b coll = cmp_lin (value_key_coll coll a) (value_key_coll coll b)"
proof (cases "\<exists>x y. a = Text x \<and> b = Text y")
  case True
  with assms(1) show ?thesis by (auto simp: cmp_text_key cmp_bytes_lin cmp_lin_def)
next
  case False
  then have "cmp_values_coll reg a b coll = cmp_values a b" by (cases a; cases b) auto
  also have "\<dots> = cmp_lin (value_key a) (value_key b)" using assms(2,3) by (rule cmp_values_key)
  also have "\<dots> = cmp_lin (value_key_coll coll a) (value_key_coll coll b)"
    using False by (cases a; cases b) (auto simp: cmp_lin_def)
  finally show ?thesis .
qed

interpretation binary_order:
  comparator "\<lambda>a b. cmp_values_coll reg a b Binary" "value_key_coll Binary" "\<lambda>v. \<not> is_nan_value v"
  for reg
  by unfold_locales (simp add: cmp_values_coll_key)

interpretation nocase_order:
  comparator "\<lambda>a b. cmp_values_coll reg a b NoCase" "value_key_coll NoCase" "\<lambda>v. \<not> is_nan_value v"
  for reg
  by unfold_locales (simp add: cmp_values_coll_key)

interpretation rtrim_order:
  comparator "\<lambda>a b. cmp_values_coll reg a b RTrim" "value_key_coll RTrim" "\<lambda>v. \<not> is_nan_value v"
  for reg
  by unfold_locales (simp add: cmp_values_coll_key)

section \<open>The collation registry\<close>

lemma ascii_lower_string_idem: "ascii_lower_string (ascii_lower_string s) = ascii_lower_string s"
proof -
  have "of_char (char_of (n + 32) :: char) = n + 32" if "n \<le> 90" for n :: nat
    using that by (simp add: of_char_of)
  then show ?thesis by (auto simp: ascii_lower_string_def Let_def)
qed

definition registry_wf :: "registry \<Rightarrow> bool" where
  "registry_wf reg \<longleftrightarrow>
    length (coll_names reg) = length (coll_fns reg) \<and>
    (\<forall>k i. by_name reg k = Some i \<longrightarrow>
      i < length (coll_fns reg) \<and> ascii_lower_string (coll_names reg ! i) = k)"

lemma registry_wf_empty: "registry_wf empty_registry"
  by (simp add: registry_wf_def empty_registry_def)

lemma register_collation_Ok:
  assumes "registry_wf reg"
  obtains reg' cid where "register_collation reg name f = Ok (reg', cid)"
    and "registry_wf reg'" and "by_name reg' (ascii_lower_string name) = Some cid"
    and "registry_compare reg' cid = f" and "registry_name_of reg' cid = Some name"
    and "\<And>k i. k \<noteq> ascii_lower_string name \<Longrightarrow> by_name reg k = Some i \<Longrightarrow>
      by_name reg' k = Some i \<and> registry_compare reg' i = registry_compare reg i"
proof (cases "by_name reg (ascii_lower_string name)")
  case None
  let ?n = "length (coll_fns reg)"
  let ?r = "reg\<lparr>coll_fns := coll_fns reg @ [f], coll_names := coll_names reg @ [name],
      by_name := (by_name reg)(ascii_lower_string name \<mapsto> ?n)\<rparr>"
  have len: "length (coll_names reg) = ?n" using assms by (simp add: registry_wf_def)
  have old: "\<And>k i. by_name reg k = Some i \<Longrightarrow> i < ?n \<and> ascii_lower_string (coll_names reg ! i) = k"
    using assms by (auto simp: registry_wf_def)
  show ?thesis
  proof (rule that [of ?r ?n])
    show "register_collation reg name f = Ok (?r, ?n)"
      using None by (simp add: register_collation_def Let_def)
    show "registry_wf ?r"
      using len old by (force simp: registry_wf_def nth_append less_Suc_eq)
    show "by_name ?r k = Some j \<and> registry_compare ?r j = registry_compare reg j"
      if "k \<noteq> ascii_lower_string name" "by_name reg k = Some j" for k j
      using that old [OF that(2)] by (auto simp: registry_compare_def nth_append fun_eq_iff)
  qed (use len old in \<open>auto simp: registry_compare_def registry_name_of_def nth_append fun_eq_iff\<close>)
next
  case (Some i)
  have i: "i < length (coll_fns reg)" "i < length (coll_names reg)"
    and old: "\<And>k i. by_name reg k = Some i \<Longrightarrow>
      i < length (coll_fns reg) \<and> ascii_lower_string (coll_names reg ! i) = k"
    using assms Some by (auto simp: registry_wf_def)
  let ?r = "reg\<lparr>coll_fns := (coll_fns reg)[i := f], coll_names := (coll_names reg)[i := name]\<rparr>"
  show ?thesis
  proof (rule that [of ?r i])
    show "register_collation reg name f = Ok (?r, i)"
      using Some i by (simp add: register_collation_def)
    have "k = ascii_lower_string name" if "by_name reg k = Some i" for k
      using old [OF that] old [OF Some] by simp
    then show "registry_wf ?r"
      using assms i Some old by (auto simp: registry_wf_def nth_list_update)
    show "by_name ?r k = Some j \<and> registry_compare ?r j = registry_compare reg j"
      if "k \<noteq> ascii_lower_string name" "by_name reg k = Some j" for k j
    proof -
      have "j \<noteq> i" using that(1) old [OF that(2)] old [OF Some] by auto
      then show ?thesis using that by (auto simp: registry_compare_def fun_eq_iff)
    qed
  qed (use Some i in \<open>auto simp: registry_compare_def registry_name_of_def fun_eq_iff\<close>)
qed

section \<open>Serial types\<close>

lemma content_len_for_value_int:
  "content_len (serial_for_int i) =
    Some (let k = sint i in
      if i = 0 \<or> i = 1 then 0
      else if - 0x80 \<le> k \<and> k \<le> 0x7f then 1
      else if - 0x8000 \<le> k \<and> k \<le> 0x7fff then 2
      else if - 0x800000 \<le> k \<and> k \<le> 0x7fffff then 3
      else if - 0x80000000 \<le> k \<and> k \<le> 0x7fffffff then 4
      else if - 0x800000000000 \<le> k \<and> k \<le> 0x7fffffffffff then 6
      else 8)"
  by (simp add: serial_for_int_def content_len_def Let_def)

section \<open>Registering a collation\<close>

lemma collation_registration:
  assumes "registry_wf reg"
  shows "\<exists>reg' cid. register_collation reg name f = Ok (reg', cid) \<and> registry_wf reg' \<and>
    registry_resolve_name reg' (ascii_lower_string name) = Some cid \<and> registry_resolve_name reg' name = Some cid \<and>
    registry_compare reg' cid = f \<and> registry_name_of reg' cid = Some name \<and>
    (\<forall>other i. ascii_lower_string other \<noteq> ascii_lower_string name \<and> registry_resolve_name reg other = Some i \<longrightarrow>
      registry_resolve_name reg' other = Some i \<and> registry_compare reg' i = registry_compare reg i)"
  using register_collation_Ok [OF assms, of name f] ascii_lower_string_idem
  by (auto simp: registry_resolve_name_def) metis

end
