(* ===== verification/RecordFormat.thy ===== *)
theory RecordFormat
  imports Varint Values Header
begin

text \<open>
  The record format (\<open>src/format/record.rs\<close>): a row or index key as a header of serial types
  followed by the bodies of the columns. The theory models the encoder, with the fixed-point loop
  that finds the length of the header, and the decoder with its integer and text
  branches, UTF-16 included. It shows that the loop ends, that decoding inverts encoding and that the
  decoder never panics, whatever the bytes. Lengths read as \<open>u64\<close> become \<open>usize\<close> unchanged: 64-bit targets.
\<close>

section \<open>Encoding\<close>

text \<open>
  The loop \<open>header_len = n + serial_bytes.len()\<close> until it is stable; \<open>None\<close> would mean that it runs
  forever. The length of a slice is below \<open>2 ^ 63\<close> in Rust, so its arithmetic does not wrap.
\<close>

partial_function (option) header_len_loop :: "nat \<Rightarrow> nat \<Rightarrow> nat option" where
  "header_len_loop serial_len header_len =
    (let n = varint_len (of_nat header_len)
     in if n + serial_len = header_len then Some header_len
        else header_len_loop serial_len (n + serial_len))"

declare header_len_loop.simps [code]

definition encode_body :: "sqlvalue \<Rightarrow> u64 \<Rightarrow> bytes" where
  "encode_body v s =
    (case v of
       Null \<Rightarrow> []
     | Integer i \<Rightarrow>
         (if i = 0 \<or> i = 1 then []
          else drop (8 - (case content_len s of Some len \<Rightarrow> len | None \<Rightarrow> 0)) (to_be64 i))
     | Real r \<Rightarrow> to_be64 r
     | Text t \<Rightarrow> as_bytes t
     | Blob b \<Rightarrow> b)"

definition encode_record :: "sqlvalue list \<Rightarrow> bytes option" where
  "encode_record values =
    (let serials = map for_value values;
         serial_bytes = concat (map varint_encode serials)
     in case header_len_loop (length serial_bytes) (length serial_bytes + 1) of
          None \<Rightarrow> None
        | Some header_len \<Rightarrow>
            Some (varint_encode (of_nat header_len) @ serial_bytes @
                  concat (map (\<lambda>(v, s). encode_body v s) (zip values serials))))"

section \<open>Decoding\<close>

definition sign_extend :: "bytes \<Rightarrow> nat \<Rightarrow> i64 res" where
  "sign_extend body nbytes =
    bindR (slice body 0 nbytes) (\<lambda>bs.
      let v = foldl (\<lambda>v b. push_bit 8 v OR ucast b) (0 :: u64) bs;
          shift = 64 - nbytes * 8
      in Ok (signed_drop_bit shift (push_bit shift v)))"

text \<open>
  \<open>char::decode_utf16\<close> collected into a \<open>String\<close>: scalar values, or \<open>None\<close> at an unpaired
  surrogate; \<open>utf8_encode\<close> is the encoding of a scalar value in a \<open>String\<close>.
\<close>

fun decode_utf16 :: "nat list \<Rightarrow> nat list option" where
  "decode_utf16 [] = Some []"
| "decode_utf16 (u # us) =
    (if u < 0xd800 \<or> 0xdfff < u then map_option (Cons u) (decode_utf16 us)
     else if 0xdc00 \<le> u then None
     else case us of
       [] \<Rightarrow> None
     | u2 # us' \<Rightarrow>
         if u2 < 0xdc00 \<or> 0xdfff < u2 then None
         else map_option (Cons ((u - 0xd800) * 0x400 + (u2 - 0xdc00) + 0x10000)) (decode_utf16 us'))"

definition utf8_encode :: "nat \<Rightarrow> bytes" where
  "utf8_encode c =
    (if c < 0x80 then [of_nat c]
     else if c < 0x800 then [of_nat (0xc0 + c div 0x40), of_nat (0x80 + c mod 0x40)]
     else if c < 0x10000 then
       [of_nat (0xe0 + c div 0x1000), of_nat (0x80 + c div 0x40 mod 0x40), of_nat (0x80 + c mod 0x40)]
     else
       [of_nat (0xf0 + c div 0x40000), of_nat (0x80 + c div 0x1000 mod 0x40),
        of_nat (0x80 + c div 0x40 mod 0x40), of_nat (0x80 + c mod 0x40)])"

text \<open>The two-byte chunks of the body, in the byte order of the encoding.\<close>

fun utf16_units :: "text_encoding \<Rightarrow> bytes \<Rightarrow> nat list" where
  "utf16_units enc (a # b # rest) =
     unat (case enc of Utf16Be \<Rightarrow> from_be16 [a, b] | _ \<Rightarrow> from_be16 [b, a]) # utf16_units enc rest"
| "utf16_units enc _ = []"

definition decode_text :: "bytes \<Rightarrow> text_encoding \<Rightarrow> bytes res" where
  "decode_text body enc =
    (case enc of
       Utf8 \<Rightarrow> Ok body
     | _ \<Rightarrow>
         if length body mod 2 \<noteq> 0 then Err (Corrupt ''odd-length UTF-16 text'')
         else case decode_utf16 (utf16_units enc body) of
           None \<Rightarrow> Err (Corrupt ''invalid UTF-16 text'')
         | Some cs \<Rightarrow> Ok (concat (map utf8_encode cs)))"

definition decode_value :: "u64 \<Rightarrow> bytes \<Rightarrow> text_encoding \<Rightarrow> sqlvalue res" where
  "decode_value serial body enc =
    (if serial = 0 then Ok Null
     else if serial = 1 then bindR (idx body 0) (\<lambda>b. Ok (Integer (scast b)))
     else if serial = 2 then bindR (slice body 0 2) (\<lambda>b. Ok (Integer (scast (from_be16 b))))
     else if serial = 3 then bindR (sign_extend body 3) (\<lambda>i. Ok (Integer i))
     else if serial = 4 then bindR (slice body 0 4) (\<lambda>b. Ok (Integer (scast (from_be32 b))))
     else if serial = 5 then bindR (sign_extend body 6) (\<lambda>i. Ok (Integer i))
     else if serial = 6 then bindR (slice body 0 8) (\<lambda>b. Ok (Integer (from_be64 b)))
     else if serial = 7 then bindR (slice body 0 8) (\<lambda>b. Ok (Real (from_be64 b)))
     else if serial = 8 then Ok (Integer 0)
     else if serial = 9 then Ok (Integer 1)
     else if 12 \<le> serial \<and> serial mod 2 = 0 then Ok (Blob body)
     else bindR (decode_text body enc) (\<lambda>t. Ok (Text t)))"

text \<open>The \<open>while hdr < header_len\<close> loop; \<open>hdr\<close> grows by the bytes a varint uses.\<close>

function (sequential) decode_columns ::
    "bytes \<Rightarrow> text_encoding \<Rightarrow> nat \<Rightarrow> nat \<Rightarrow> nat \<Rightarrow> sqlvalue list \<Rightarrow> sqlvalue list res" where
  "decode_columns bs enc header_len hdr body values =
    (if hdr < header_len then
       bindR (slice_from bs hdr) (\<lambda>rest.
       case varint_decode rest of
         None \<Rightarrow> Err (Corrupt ''truncated serial type'')
       | Some (raw, used) \<Rightarrow>
           (case content_len raw of
              None \<Rightarrow> Err (Corrupt (''reserved serial type '' @ show_nat (unat raw)))
            | Some len \<Rightarrow>
                if length bs < body + len then
                  Err (Corrupt ''record body shorter than header implies'')
                else
                  bindR (slice bs body (body + len)) (\<lambda>bdy.
                  bindR (decode_value raw bdy enc) (\<lambda>v.
                  decode_columns bs enc header_len (hdr + used) (body + len) (values @ [v])))))
     else Ok values)"
  by pat_completeness auto
termination
  by (relation "measure (\<lambda>(bs, enc, header_len, hdr, body, values). header_len - hdr)")
     (auto dest!: varint_decode_bounds)

declare decode_columns.simps [simp del]

definition decode_record :: "bytes \<Rightarrow> text_encoding \<Rightarrow> sqlvalue list res" where
  "decode_record bs enc =
    (case varint_decode bs of
       None \<Rightarrow> Err (Corrupt ''truncated record header length'')
     | Some (hl, n) \<Rightarrow>
         let header_len = unat hl in
         if length bs < header_len then
           Err (Corrupt (''record header length '' @ show_nat header_len @
             '' exceeds record size '' @ show_nat (length bs)))
         else decode_columns bs enc header_len n header_len [])"

section \<open>The header length\<close>

lemma varint_len_mono: "unat v \<le> unat w \<Longrightarrow> varint_len v \<le> varint_len w"
  by (simp add: varint_len_def word_le_nat_alt)

lemma header_len_loop_returns:
  assumes "h = varint_len (of_nat h0) + n" and "h0 \<le> h" and "n + 9 < 2 ^ 64"
  shows "\<exists>r. header_len_loop n h = Some r \<and> n < r \<and> r \<le> n + 9 \<and> varint_len (of_nat r) + n = r"
  using assms
proof (induction "n + 9 - h" arbitrary: h h0 rule: less_induct)
  case less
  let ?h' = "varint_len (of_nat h :: u64) + n"
  have len9: "varint_len v \<le> 9" for v using varint_len_bounds(2) [of v] by (simp add: MAX_LEN_def)
  have hn: "h \<le> n + 9" using less.prems(1) len9 [of "of_nat h0"] by simp
  then have "h < 2 ^ 64" "h0 < 2 ^ 64" using less.prems by linarith+
  then have "varint_len (of_nat h0 :: u64) \<le> varint_len (of_nat h :: u64)"
    using less.prems(2) by (intro varint_len_mono) (simp add: unat_of_nat)
  then have le: "h \<le> ?h'" using less.prems(1) by simp
  show ?case
  proof (cases "?h' = h")
    case True
    then show ?thesis using varint_len_bounds(1) [of "of_nat h"] hn
      by (subst header_len_loop.simps) (simp add: Let_def)
  next
    case False
    then have "\<exists>r. header_len_loop n ?h' = Some r \<and> n < r \<and> r \<le> n + 9 \<and> varint_len (of_nat r) + n = r"
      using le hn len9 [of "of_nat h"] less.prems(3) by (intro less.hyps [of ?h' h]) auto
    with False show ?thesis by (subst header_len_loop.simps) (simp add: Let_def)
  qed
qed

lemma header_len_loop_start:
  assumes "n + 9 < 2 ^ 64"
  shows "\<exists>r. header_len_loop n (n + 1) = Some r \<and> n < r \<and> r \<le> n + 9 \<and> varint_len (of_nat r) + n = r"
  using header_len_loop_returns [of "n + 1" 0 n] assms by (simp add: varint_len_def)


section \<open>Integers at their width\<close>

lemma drop_be_bytes: "n \<le> m \<Longrightarrow> drop (m - n) (be_bytes m k) = be_bytes n k"
proof (induction m)
  case 0
  then show ?case by simp
next
  case (Suc m)
  then show ?case by (cases "n = Suc m") (auto simp: Suc_diff_le)
qed

lemma be_val_low_bytes: "n \<le> 8 \<Longrightarrow> be_val (drop (8 - n) (to_be64 i)) = unat i mod 256 ^ n"
  by (simp add: to_be64_def drop_be_bytes be_val_be_bytes)

lemma foldl_shift_or:
  "unat v < 256 ^ k \<Longrightarrow> k + length bs \<le> 8 \<Longrightarrow>
   unat (foldl (\<lambda>v b. push_bit 8 v OR ucast b) (v :: u64) bs) = unat v * 256 ^ length bs + be_val bs"
proof (induction bs arbitrary: v k)
  case Nil
  then show ?case by simp
next
  case (Cons b bs)
  have "(256 :: nat) ^ k \<le> 256 ^ 7" using Cons.prems(2) by (intro power_increasing) auto
  then have small: "unat v * 2 ^ 8 < 2 ^ LENGTH(64)" using Cons.prems(1) by simp
  have b: "unat (ucast b :: u64) = unat b" by (simp add: unat_ucast_up)
  have step: "unat (push_bit 8 v OR ucast b) = unat v * 256 + unat b"
    using unat_shift_or [of "ucast b :: u64" 8 v] small b unat_u8_less [of b] by simp
  have "unat (push_bit 8 v OR ucast b) < 256 ^ Suc k"
  proof -
    have "unat v * 256 + unat b < (unat v + 1) * 256" using unat_u8_less [of b] by simp
    also have "\<dots> \<le> 256 ^ k * 256" using Cons.prems(1) by (intro mult_right_mono) auto
    finally show ?thesis using step by simp
  qed
  then show ?case using Cons.IH [of "push_bit 8 v OR ucast b" "Suc k"] Cons.prems(2) step
    by (simp add: algebra_simps)
qed

text \<open>A word whose signed value fits in \<open>n\<close> bits is the sign extension of its low \<open>n\<close> bits.\<close>

lemma sint_fits_bit:
  fixes i :: i64
  assumes "- (2 ^ n) \<le> sint i" and "sint i < 2 ^ n" and "n \<le> m" and "m < 64"
  shows "bit i m \<longleftrightarrow> bit i n"
proof -
  have s: "signed_take_bit n (sint i) = sint i"
    using assms(1,2) by (simp add: signed_take_bit_int_eq_self)
  have w: "bit (sint i) j \<longleftrightarrow> bit i j" if "j < 64" for j
    using that by (simp add: bit_sint_iff min_def not_le) 
  have "bit (sint i) m \<longleftrightarrow> bit (sint i) n"
    using assms(3) by (subst (1) s [symmetric]) (simp add: bit_signed_take_bit_iff min_def)
  then show ?thesis using w [of m] w [of n] assms(3,4) by simp
qed

lemma scast_ucast_fits:
  fixes i :: i64
  assumes "- (2 ^ (LENGTH('a) - 1)) \<le> sint i" and "sint i < 2 ^ (LENGTH('a) - 1)"
    and "LENGTH('a::len) \<le> 64"
  shows "scast (ucast i :: 'a word) = i"
proof (rule bit_word_eqI)
  fix m :: nat
  assume "m < LENGTH(64)"
  then show "bit (scast (ucast i :: 'a word) :: i64) m \<longleftrightarrow> bit i m"
    using sint_fits_bit [OF assms(1,2), of m] assms(3)
    by (auto simp: bit_signed_iff bit_ucast_iff min_def not_le)
qed


lemma sign_extend_fits:
  fixes i :: i64
  assumes "n \<le> 8" and "0 < n" and "- (2 ^ (8 * n - 1)) \<le> sint i" and "sint i < 2 ^ (8 * n - 1)"
  shows "sign_extend (drop (8 - n) (to_be64 i)) n = Ok i"
proof -
  let ?bs = "drop (8 - n) (to_be64 i)" and ?s = "64 - n * 8"
  define v where "v = foldl (\<lambda>v b. push_bit 8 v OR ucast b) (0 :: u64) ?bs"
  have "unat v = unat i mod 256 ^ n"
    using assms(1) foldl_shift_or [of 0 0 ?bs] by (simp add: v_def be_val_low_bytes)
  moreover have "(256 :: nat) ^ n = 2 ^ (8 * n)" by (simp add: power_mult)
  ultimately have v: "v = take_bit (8 * n) i"
    by (simp only: word_unat_eq_iff unsigned_take_bit_eq) (simp add: take_bit_eq_mod)
  have "signed_drop_bit ?s (push_bit ?s v) = i"
  proof (rule bit_word_eqI)
    fix m :: nat
    assume "m < LENGTH(64)"
    then show "bit (signed_drop_bit ?s (push_bit ?s v)) m \<longleftrightarrow> bit i m"
      using sint_fits_bit [OF assms(3,4), of m] assms(1,2)
      by (auto simp: v bit_signed_drop_bit_iff bit_push_bit_iff bit_take_bit_iff mult.commute [of n 8])
  qed
  then show ?thesis using assms(1) by (simp add: sign_extend_def v_def Let_def)
qed

lemma decode_value_int:
  fixes i :: i64
  defines "s \<equiv> serial_for_int i"
  shows "decode_value s (encode_body (Integer i) s) enc = Ok (Integer i) \<and>
    content_len s = Some (length (encode_body (Integer i) s))"
proof -
  have low: "from_be16 (drop 6 (to_be64 i)) = ucast i" "from_be32 (drop 4 (to_be64 i)) = ucast i"
    "drop 7 (to_be64 i) = [ucast i]"
    using be_val_low_bytes [of 2 i] be_val_low_bytes [of 4 i] drop_be_bytes [of 1 8 "unat i"]
    by (auto simp: from_be16_def from_be32_def to_be64_def word_unat_eq_iff unat_ucast_mod unat_of_nat)
  note ext = sign_extend_fits [of 3 i] sign_extend_fits [of 6 i]
  note cast = scast_ucast_fits [where 'a = 8, of i] scast_ucast_fits [where 'a = 16, of i]
    scast_ucast_fits [where 'a = 32, of i]
  show ?thesis
    using low ext cast
    by (auto simp: s_def serial_for_int_def decode_value_def encode_body_def content_len_def Let_def)
qed


section \<open>Decoding inverts encoding\<close>

text \<open>Text and blobs of a length that the serial type can hold.\<close>

fun value_fits :: "sqlvalue \<Rightarrow> bool" where
  "value_fits (Text t) \<longleftrightarrow> length t < 2 ^ 62"
| "value_fits (Blob b) \<longleftrightarrow> length b < 2 ^ 62"
| "value_fits _ \<longleftrightarrow> True"

abbreviation "body_of v \<equiv> encode_body v (for_value v)"

lemma unat_double_plus:
  "n < 2 ^ 62 \<Longrightarrow> k < 16 \<Longrightarrow> unat (of_nat k + 2 * of_nat n :: u64) = k + 2 * n"
proof -
  assume "n < 2 ^ 62" "k < 16"
  moreover have "of_nat k + 2 * of_nat n = (of_nat (k + 2 * n) :: u64)" by simp
  ultimately show ?thesis by (simp only: unat_of_nat) simp
qed

lemma decode_value_blob:
  assumes "n < 2 ^ 62"
  defines "s \<equiv> 12 + 2 * of_nat n :: u64"
  shows "content_len s = Some n" and "length b = n \<Longrightarrow> decode_value s b enc = Ok (Blob b)"
proof -
  have u: "unat s = 12 + 2 * n" using unat_double_plus [OF assms(1), of 12] by (simp add: s_def)
  then have ne: "s \<noteq> 0" "s \<noteq> 1" "s \<noteq> 2" "s \<noteq> 3" "s \<noteq> 4" "s \<noteq> 5" "s \<noteq> 6" "s \<noteq> 7" "s \<noteq> 8" "s \<noteq> 9"
    "s \<noteq> 10" "s \<noteq> 11" and ge: "12 \<le> s"
    by (auto simp: word_le_nat_alt)
  have ev: "s mod 2 = 0"
    using u by (simp add: word_unat_eq_iff unat_mod_distrib)
  have "unat ((s - 12) div 2) = n"
    using u unat_sub [OF ge] by (simp add: unat_div_distrib)
  then show "content_len s = Some n" using ne ev by (simp add: content_len_def)
  show "length b = n \<Longrightarrow> decode_value s b enc = Ok (Blob b)"
    using ne ev ge by (simp add: decode_value_def)
qed


lemma decode_value_text:
  assumes "n < 2 ^ 62"
  defines "s \<equiv> 13 + 2 * of_nat n :: u64"
  shows "content_len s = Some n" and "length b = n \<Longrightarrow> decode_value s b Utf8 = Ok (Text b)"
proof -
  have u: "unat s = 13 + 2 * n" using unat_double_plus [OF assms(1), of 13] by (simp add: s_def)
  then have ne: "s \<noteq> 0" "s \<noteq> 1" "s \<noteq> 2" "s \<noteq> 3" "s \<noteq> 4" "s \<noteq> 5" "s \<noteq> 6" "s \<noteq> 7" "s \<noteq> 8" "s \<noteq> 9"
    "s \<noteq> 10" "s \<noteq> 11" and ge: "13 \<le> s"
    by (auto simp: word_le_nat_alt)
  have "unat s mod 2 = 1" using u by simp
  then have od: "s mod 2 \<noteq> 0"
    by (auto simp: word_unat_eq_iff unat_mod_distrib)
  have "unat ((s - 13) div 2) = n"
    using u unat_sub [OF ge] by (simp add: unat_div_distrib)
  then show "content_len s = Some n" using ne od by (simp add: content_len_def)
  show "length b = n \<Longrightarrow> decode_value s b Utf8 = Ok (Text b)"
    using ne od by (simp add: decode_value_def decode_text_def)
qed

lemma decode_value_encode:
  assumes "value_fits v"
  shows "content_len (for_value v) = Some (length (body_of v))"
    and "decode_value (for_value v) (body_of v) Utf8 = Ok v"
proof -
  have "content_len (for_value v) = Some (length (body_of v)) \<and>
      decode_value (for_value v) (body_of v) Utf8 = Ok v"
  proof (cases v)
    case Null
    then show ?thesis by (simp add: encode_body_def content_len_def decode_value_def)
  next
    case (Integer i)
    then show ?thesis using decode_value_int [of i Utf8] by simp
  next
    case (Real r)
    then show ?thesis by (simp add: encode_body_def content_len_def decode_value_def)
  next
    case (Text t)
    then show ?thesis using assms decode_value_text [of "length t"]
      by (simp add: encode_body_def as_bytes_def byte_len_def)
  next
    case (Blob b)
    then show ?thesis using assms decode_value_blob [of "length b"]
      by (simp add: encode_body_def)
  qed
  then show "content_len (for_value v) = Some (length (body_of v))"
    and "decode_value (for_value v) (body_of v) Utf8 = Ok v" by simp_all
qed

lemma decode_columns_encoded:
  assumes "\<forall>v \<in> set vs. value_fits v"
    and "bs = pre @ concat (map (\<lambda>v. varint_encode (for_value v)) vs) @ mid @ concat (map body_of vs) @ post"
    and "header_len = length pre + length (concat (map (\<lambda>v. varint_encode (for_value v)) vs))"
  shows "decode_columns bs Utf8 header_len (length pre) (header_len + length mid) acc = Ok (acc @ vs)"
  using assms
proof (induction vs arbitrary: pre mid acc)
  case Nil
  then show ?case by (subst decode_columns.simps) simp
next
  case (Cons v vs)
  let ?e = "varint_encode (for_value v)" and ?b = "body_of v"
  let ?es = "concat (map (\<lambda>v. varint_encode (for_value v)) vs)"
  have fit: "value_fits v" using Cons.prems(1) by simp
  have bs: "bs = (pre @ ?e) @ ?es @ (mid @ ?b) @ concat (map body_of vs) @ post"
    using Cons.prems(2) by simp
  have hl: "header_len = length (pre @ ?e) + length ?es" using Cons.prems(3) by simp
  have IH: "decode_columns bs Utf8 header_len (length (pre @ ?e)) (header_len + length (mid @ ?b)) (acc @ [v])
      = Ok ((acc @ [v]) @ vs)"
    using Cons.prems(1) by (intro Cons.IH [OF _ bs hl]) simp
  have "drop (length pre) bs = ?e @ ?es @ mid @ ?b @ concat (map body_of vs) @ post"
    using bs by simp
  then have dec: "varint_decode (drop (length pre) bs) = Some (for_value v, length ?e)"
    using varint_decode_encode by simp
  have body: "take (length ?b) (drop (header_len + length mid) bs) = ?b"
    using bs hl by simp
  have "0 < length ?e" using varint_len_bounds(1) [of "for_value v"] by simp
  then have "length pre < header_len" using hl by simp
  moreover have "length pre \<le> length bs" "header_len + length mid + length ?b \<le> length bs"
    using bs hl by simp_all
  ultimately show ?case
    using IH dec body decode_value_encode [OF fit]
    by (subst decode_columns.simps) (simp add: add.assoc)
qed

lemma zip_map_self: "map (\<lambda>(v, s). f v s) (zip vs (map g vs)) = map (\<lambda>v. f v (g v)) vs"
  by (induction vs) auto

lemma decode_encode_record:
  assumes "\<forall>v \<in> set vs. value_fits v" and "length vs < 2 ^ 60"
  shows "\<exists>bs. encode_record vs = Some bs \<and> decode_record (bs @ post) Utf8 = Ok vs"
proof -
  define sb where "sb = concat (map (\<lambda>v. varint_encode (for_value v)) vs)"
  have "length sb \<le> 9 * length vs" unfolding sb_def
    using varint_len_bounds(2) by (induction vs) (auto simp: MAX_LEN_def intro: add_mono)
  then have lb: "length sb + 9 < 2 ^ 64" using assms(2) by simp
  then obtain hl where hl: "header_len_loop (length sb) (length sb + 1) = Some hl"
      "hl \<le> length sb + 9" "varint_len (of_nat hl) + length sb = hl"
    using header_len_loop_start by blast
  let ?h = "varint_encode (of_nat hl)" and ?bodies = "concat (map body_of vs)"
  have u: "unat (of_nat hl :: u64) = hl" using hl(2) lb by (simp add: unat_of_nat)
  have enc: "encode_record vs = Some (?h @ sb @ ?bodies)"
    using hl(1) by (simp add: encode_record_def sb_def Let_def zip_map_self comp_def)
  have "varint_decode ((?h @ sb @ ?bodies) @ post) = Some (of_nat hl, length ?h)"
    using varint_decode_encode by simp
  moreover have "decode_columns ((?h @ sb @ ?bodies) @ post) Utf8 hl (length ?h) (hl + length ([] :: bytes)) []
      = Ok ([] @ vs)"
    using hl(3) by (intro decode_columns_encoded [OF assms(1), of _ _ "[]" post]) (simp_all add: sb_def)
  moreover have "hl \<le> length ((?h @ sb @ ?bodies) @ post)" using hl(3) by simp
  ultimately show ?thesis using enc u by (auto simp: decode_record_def)
qed


section \<open>Decoding never panics\<close>

lemma content_len_value_body:
  assumes "content_len s = Some n" and "length body = n"
  shows "decode_value s body enc \<noteq> Panic"
proof -
  have "decode_text body enc \<noteq> Panic"
    by (cases enc) (auto simp: decode_text_def split: option.splits)
  then have "(s, length body) \<notin> {(1, 1), (2, 2), (3, 3), (4, 4), (5, 6), (6, 8), (7, 8)} \<Longrightarrow>
      s \<notin> {1, 2, 3, 4, 5, 6, 7} \<Longrightarrow> ?thesis"
    by (simp add: decode_value_def bindR_Panic_iff)
  moreover have "s \<in> {1, 2, 3, 4, 5, 6, 7} \<Longrightarrow>
      (s, length body) \<in> {(1, 1), (2, 2), (3, 3), (4, 4), (5, 6), (6, 8), (7, 8)}"
    using assms by (auto simp: content_len_def)
  moreover have "(s, length body) \<in> {(1, 1), (2, 2), (3, 3), (4, 4), (5, 6), (6, 8), (7, 8)} \<Longrightarrow> ?thesis"
    by (auto simp: decode_value_def sign_extend_def Let_def)
  ultimately show ?thesis by blast
qed

lemma decode_columns_no_panic:
  "header_len \<le> length bs \<Longrightarrow> decode_columns bs enc header_len hdr body vals \<noteq> Panic"
proof (induction bs enc header_len hdr body vals rule: decode_columns.induct)
  case (1 bs enc header_len hdr body vals)
  show ?case
  proof (cases "hdr < header_len")
    case True
    show ?thesis
      using 1(1) [OF True] 1(2) True content_len_value_body
      by (subst decode_columns.simps)
         (auto simp: bindR_Panic_iff split: option.splits prod.splits)
  next
    case False
    then show ?thesis by (subst decode_columns.simps) simp
  qed
qed

lemma decode_record_no_panic: "decode_record bs enc \<noteq> Panic"
  by (auto simp: decode_record_def Let_def decode_columns_no_panic split: option.splits)

section \<open>Text\<close>

text \<open>A Unicode scalar value, and UTF-16 as the standard defines it (the specification of the decoder).\<close>

definition is_scalar :: "nat \<Rightarrow> bool" where
  "is_scalar c \<longleftrightarrow> c < 0xd800 \<or> 0xdfff < c \<and> c < 0x110000"

definition utf16_encode_char :: "nat \<Rightarrow> nat list" where
  "utf16_encode_char c =
    (if c < 0x10000 then [c]
     else [0xd800 + (c - 0x10000) div 0x400, 0xdc00 + (c - 0x10000) mod 0x400])"

lemma decode_utf16_encode:
  "\<forall>c \<in> set cs. is_scalar c \<Longrightarrow> decode_utf16 (concat (map utf16_encode_char cs)) = Some cs"
proof (induction cs)
  case Nil
  then show ?case by simp
next
  case (Cons c cs)
  have "(c - 0x10000) div 0x400 < 0x400" if "0xffff < c" "c < 0x110000"
    using that by (simp add: less_mult_imp_div_less)
  then show ?case using Cons
    by (auto simp: utf16_encode_char_def is_scalar_def)
qed

lemma decode_utf16_scalar: "decode_utf16 us = Some cs \<Longrightarrow> \<forall>u \<in> set us. u < 0x10000 \<Longrightarrow> \<forall>c \<in> set cs. is_scalar c"
proof (induction us arbitrary: cs rule: decode_utf16.induct)
  case 1
  then show ?case by simp
next
  case (2 u us)
  consider (bmp) "u < 0xd800 \<or> 0xdfff < u"
    | (pair) u2 us' where "0xd800 \<le> u" "u < 0xdc00" "us = u2 # us'" "0xdc00 \<le> u2" "u2 \<le> 0xdfff"
    using 2(3) by (fastforce split: if_splits list.splits)
  then show ?case
  proof cases
    case bmp
    then show ?thesis using 2 by (auto simp: is_scalar_def)
  next
    case pair
    then obtain cs' where "decode_utf16 us' = Some cs'"
        "cs = ((u - 0xd800) * 0x400 + (u2 - 0xdc00) + 0x10000) # cs'"
      using 2(3) by (auto split: if_splits)
    moreover have "u - 0xd800 \<le> 0x3ff" "u2 - 0xdc00 \<le> 0x3ff" using pair by auto
    ultimately show ?thesis using 2(2) [of u2 us' cs'] 2(4) pair by (auto simp: is_scalar_def)
  qed
qed

lemma unat_of_nat_u8: "n < 256 \<Longrightarrow> unat (of_nat n :: u8) = n"
  by (simp add: unat_of_nat)

lemma div_group: "(c :: nat) div n = c div (n * 0x40) * 0x40 + c div n mod 0x40"
  by (simp add: div_mult2_eq)

lemma utf8_valid_utf8_encode:
  assumes "is_scalar c"
  shows "utf8_valid (utf8_encode c @ rest) = utf8_valid rest"
proof -
  consider "c < 0x80" | "0x80 \<le> c" "c < 0x800" | "0x800 \<le> c" "c < 0x10000" | "0x10000 \<le> c" by linarith
  then show ?thesis
  proof cases
    case 1
    then show ?thesis by (simp add: utf8_encode_def unat_of_nat_u8 Let_def)
  next
    case 2
    then have "2 \<le> c div 0x40" "c div 0x40 < 0x20" by auto
    moreover have "c mod 0x40 \<le> 0x3f" by presburger
    ultimately show ?thesis using 2
      by (simp add: utf8_encode_def utf8_cont_def unat_of_nat_u8 Let_def del: of_nat_add)
  next
    case 3
    define a b d where "a = c div 0x1000" "b = c div 0x40 mod 0x40" "d = c mod 0x40"
    have c: "c = a * 0x1000 + b * 0x40 + d"
      using div_mult_mod_eq [of c 64] div_group [of c 64, simplified] unfolding a_b_d_def by linarith
    have "a < 0x10" "b < 0x40" "d < 0x40" using 3 by (auto simp: a_b_d_def)
    moreover from this have "a = 0 \<Longrightarrow> 0x20 \<le> b" "a = 0xd \<Longrightarrow> b \<le> 0x1f"
      using 3 assms c by (auto simp: is_scalar_def)
    ultimately show ?thesis using 3
      by (simp add: utf8_encode_def utf8_cont_def unat_of_nat_u8 Let_def del: of_nat_add flip: a_b_d_def)
  next
    case 4
    define a b d e where "a = c div 0x40000" "b = c div 0x1000 mod 0x40"
      "d = c div 0x40 mod 0x40" "e = c mod 0x40"
    have c: "c = a * 0x40000 + b * 0x1000 + d * 0x40 + e"
      using div_mult_mod_eq [of c 64] div_group [of c 64, simplified] div_group [of c 4096, simplified]
      unfolding a_b_d_e_def by linarith
    have "c < 0x110000" using assms 4 by (auto simp: is_scalar_def)
    then have "a < 5" "b < 0x40" "d < 0x40" "e < 0x40" by (auto simp: a_b_d_e_def)
    moreover from this have "a = 0 \<Longrightarrow> 0x10 \<le> b" "a = 4 \<Longrightarrow> b \<le> 0xf"
      using 4 \<open>c < 0x110000\<close> c by auto
    ultimately show ?thesis using 4
      by (simp add: utf8_encode_def utf8_cont_def unat_of_nat_u8 Let_def del: of_nat_add flip: a_b_d_e_def)
  qed
qed

lemma utf8_valid_concat:
  "\<forall>c \<in> set cs. is_scalar c \<Longrightarrow> utf8_valid (concat (map utf8_encode cs))"
  by (induction cs) (auto simp: utf8_valid_utf8_encode)

lemma utf16_units_bound: "u \<in> set (utf16_units enc body) \<Longrightarrow> u < 0x10000"
proof (induction enc body rule: utf16_units.induct)
  case (1 enc a b rest)
  have "unat (w :: u16) < 0x10000" for w using unat_less_length [of w] by simp
  then show ?case using 1 by auto
qed auto

lemma decode_text_utf16_valid:
  "enc \<noteq> Utf8 \<Longrightarrow> decode_text body enc = Ok t \<Longrightarrow> utf8_valid t"
  using utf16_units_bound decode_utf16_scalar
  by (cases enc) (force simp: decode_text_def intro!: utf8_valid_concat split: if_splits option.splits)+


definition utf16_bytes :: "text_encoding \<Rightarrow> nat list \<Rightarrow> bytes" where
  "utf16_bytes enc us =
    concat (map (\<lambda>u. (if enc = Utf16Be then to_be16 (of_nat u) else rev (to_be16 (of_nat u)))) us)"

lemma length_utf16_bytes [simp]: "length (utf16_bytes enc us) = 2 * length us"
  by (induction us) (auto simp: utf16_bytes_def)

lemma utf16_units_bytes:
  "enc \<noteq> Utf8 \<Longrightarrow> \<forall>u \<in> set us. u < 0x10000 \<Longrightarrow> utf16_units enc (utf16_bytes enc us) = us"
proof (induction us)
  case Nil
  then show ?case by (simp add: utf16_bytes_def)
next
  case (Cons u us)
  obtain a b where ab: "to_be16 (of_nat u) = [a, b]"
    by (cases "to_be16 (of_nat u)" rule: list.exhaust; cases "tl (to_be16 (of_nat u))")
       (auto dest: arg_cong [of _ _ length])
  then have "from_be16 [a, b] = of_nat u" by (metis from_be16_to_be16)
  then show ?case using Cons ab by (cases enc) (auto simp: utf16_bytes_def unat_of_nat)
qed

lemma decode_text_utf16:
  assumes "enc \<noteq> Utf8" and "\<forall>c \<in> set cs. is_scalar c"
  shows "decode_text (utf16_bytes enc (concat (map utf16_encode_char cs))) enc =
    Ok (concat (map utf8_encode cs))"
proof -
  have "(c - 0x10000) div 0x400 < 0x400" if "c < 0x110000" for c :: nat
    using that by (simp add: less_mult_imp_div_less)
  then have "\<forall>u \<in> set (concat (map utf16_encode_char cs)). u < 0x10000"
    using assms(2) by (fastforce simp: utf16_encode_char_def is_scalar_def)
  with assms show ?thesis
    by (cases enc) (simp_all add: decode_text_def utf16_units_bytes decode_utf16_encode)
qed

end
