(* ===== verification/SchemaReader.thy ===== *)
theory SchemaReader
  imports CursorScan RecordFormat
begin

text \<open>
  The schema catalog (\<open>src/schema/mod.rs\<close>): the rows of the table rooted at page 1, read with a table
  cursor and decoded. How Rust's \<open>{:?}\<close> renders a string in an error message is an argument
  (\<open>dbg\<close>). Reading the catalog of a tree of readable rows gives one object per row, in tree order.
\<close>

section \<open>Objects\<close>

definition SCHEMA_ROOT_PAGE :: u32 where
  "SCHEMA_ROOT_PAGE = 1"

datatype object_type = ObjTable | ObjIndex | ObjView | ObjTrigger

abbreviation ascii :: "string \<Rightarrow> bytes" where
  "ascii s \<equiv> map of_char s"

definition object_type_parse :: "(bytes \<Rightarrow> string) \<Rightarrow> bytes \<Rightarrow> object_type res" where
  "object_type_parse dbg s =
    (if s = ascii ''table'' then Ok ObjTable
     else if s = ascii ''index'' then Ok ObjIndex
     else if s = ascii ''view'' then Ok ObjView
     else if s = ascii ''trigger'' then Ok ObjTrigger
     else Err (Corrupt (''unknown schema object type '' @ dbg s)))"

record schema_object =
  so_type :: object_type
  so_name :: bytes
  so_tbl_name :: bytes
  so_rootpage :: u32
  so_sql :: "bytes option"

record schema =
  sc_objects :: "schema_object list"

definition schema_text :: "sqlvalue \<Rightarrow> bytes res" where
  "schema_text v = (case v of Text t \<Rightarrow> Ok (as_str t) | _ \<Rightarrow> Err (Corrupt ''expected text in sqlite_schema''))"

definition parse_schema_row :: "(bytes \<Rightarrow> string) \<Rightarrow> sqlvalue list \<Rightarrow> schema_object res" where
  "parse_schema_row dbg cols =
    (if length cols < 5 then
       Err (Corrupt (''sqlite_schema row has '' @ show_nat (length cols) @ '' columns, expected 5''))
     else
       bindR (schema_text (cols ! 0)) (\<lambda>t. bindR (object_type_parse dbg t) (\<lambda>ty.
       bindR (schema_text (cols ! 1)) (\<lambda>nm.
       bindR (schema_text (cols ! 2)) (\<lambda>tbl.
       bindR (case cols ! 3 of
           Integer i \<Rightarrow> Ok (ucast i)
         | Null \<Rightarrow> Ok 0
         | _ \<Rightarrow> Err (Corrupt ''sqlite_schema rootpage not an integer'')) (\<lambda>root.
       bindR (case cols ! 4 of
           Text t \<Rightarrow> Ok (Some (as_str t))
         | Null \<Rightarrow> Ok None
         | _ \<Rightarrow> Err (Corrupt ''sqlite_schema sql not text'')) (\<lambda>sql.
       Ok \<lparr>so_type = ty, so_name = nm, so_tbl_name = tbl, so_rootpage = root, so_sql = sql\<rparr>)))))))"

section \<open>Lookups\<close>

definition schema_find :: "schema \<Rightarrow> object_type \<Rightarrow> bytes \<Rightarrow> schema_object option" where
  "schema_find sc ty name = find (\<lambda>ob. so_type ob = ty \<and> so_name ob = name) (sc_objects sc)"

definition schema_table :: "schema \<Rightarrow> bytes \<Rightarrow> schema_object option" where
  "schema_table sc name = schema_find sc ObjTable name"

definition schema_index :: "schema \<Rightarrow> bytes \<Rightarrow> schema_object option" where
  "schema_index sc name = schema_find sc ObjIndex name"

definition indexes_on :: "schema \<Rightarrow> bytes \<Rightarrow> schema_object list" where
  "indexes_on sc tab = filter (\<lambda>ob. so_type ob = ObjIndex \<and> so_tbl_name ob = tab) (sc_objects sc)"

section \<open>Reading\<close>

definition current_payload :: "nat \<Rightarrow> 's page_source \<Rightarrow> nat \<Rightarrow> ('s tstate, bytes) lact" where
  "current_payload fuel rd usable = (\<lambda>(s, c). liftC (cursor_payload fuel rd usable c) (s, c))"

primrec schema_loop :: "nat \<Rightarrow> nat \<Rightarrow> (bytes \<Rightarrow> string) \<Rightarrow> 's page_source \<Rightarrow> nat \<Rightarrow> text_encoding \<Rightarrow> bool \<Rightarrow>
    schema_object list \<Rightarrow> ('s tstate, schema_object list) lact" where
  "schema_loop 0 fuel dbg rd usable enc ok objs = (\<lambda>s. None)"
| "schema_loop (Suc k) fuel dbg rd usable enc ok objs =
    (if ok then
       bindL (current_payload fuel rd usable) (\<lambda>b.
       bindL (runL (liftA (decode_record b enc))) (\<lambda>cols.
       bindL (runL (liftA (parse_schema_row dbg cols))) (\<lambda>ob.
       bindL (cursor_next fuel rd) (\<lambda>ok'.
       schema_loop k fuel dbg rd usable enc ok' (objs @ [ob])))))
     else runL (retA objs))"

definition schema_read :: "nat \<Rightarrow> (bytes \<Rightarrow> string) \<Rightarrow> 's page_source \<Rightarrow> nat \<Rightarrow> text_encoding \<Rightarrow> 's \<Rightarrow> (schema res \<times> 's) option" where
  "schema_read fuel dbg rd usable enc s =
    (case bindL (cursor_first fuel rd) (\<lambda>ok. schema_loop fuel fuel dbg rd usable enc ok []) (s, cursor_new SCHEMA_ROOT_PAGE) of
       None \<Rightarrow> None
     | Some (Ok objs, (s', c)) \<Rightarrow> Some (Ok \<lparr>sc_objects = objs\<rparr>, s')
     | Some (Err e, (s', c)) \<Rightarrow> Some (Err e, s')
     | Some (Panic, (s', c)) \<Rightarrow> Some (Panic, s'))"

section \<open>Rows of the catalog\<close>

text \<open>The payload of a cell, from its page and its overflow chain.\<close>

definition row_bytes :: "(u32 \<Rightarrow> page option) \<Rightarrow> nat \<Rightarrow> frame \<Rightarrow> bytes \<Rightarrow> bool" where
  "row_bytes store usable = (\<lambda>(pg, i) b. \<exists>cell. table_leaf_cell pg i usable = Ok cell \<and>
     (let pl = cell_payload cell in
      \<exists>b0. slice (bt_data pg) (local_offset pl) (local_offset pl + local_len pl) = Ok b0 \<and>
        chain_bytes store usable (total_len pl) (overflow pl) b0 b \<and> length b = total_len pl))"

definition row_object :: "(bytes \<Rightarrow> string) \<Rightarrow> (u32 \<Rightarrow> page option) \<Rightarrow> nat \<Rightarrow> text_encoding \<Rightarrow> frame \<Rightarrow> schema_object \<Rightarrow> bool" where
  "row_object dbg store usable enc x ob \<longleftrightarrow>
    (\<exists>b cols. row_bytes store usable x b \<and> decode_record b enc = Ok cols \<and> parse_schema_row dbg cols = Ok ob)"

context page_reader
begin

lemma current_payload_Ok:
  assumes "cursor_at h n c (x # xs)" and "row_bytes store usable x b" and "4 < usable" and "length b < fuel" and "inv s"
  shows "\<exists>s'. current_payload fuel rd usable (s, c) = Some (Ok b, (s', c)) \<and> inv s'"
proof -
  obtain pg i where x: "x = (pg, i)" by (cases x)
  obtain cell b0 where cell: "table_leaf_cell pg i usable = Ok cell"
    "slice (bt_data pg) (local_offset (cell_payload cell)) (local_offset (cell_payload cell) + local_len (cell_payload cell)) = Ok b0"
    "chain_bytes store usable (total_len (cell_payload cell)) (overflow (cell_payload cell)) b0 b" "length b = total_len (cell_payload cell)"
    using assms(2) x by (auto simp: row_bytes_def Let_def)
  have "total_len (cell_payload cell) - length b0 < fuel" using assms(4) cell(4) by linarith
  from overflow_loop_Ok [OF cell(3) assms(3) this assms(5)] obtain s' where
    "overflow_loop fuel rd usable (total_len (cell_payload cell)) (overflow (cell_payload cell)) b0 s = Some (Ok b, s')" "inv s'" by blast
  then show ?thesis using cursor_frame [OF assms(1)] x cell
    by (simp add: current_payload_def liftC_def cursor_payload_def read_payload_def bindL_def [of "overflow_loop _ _ _ _ _ _"])
qed

lemma schema_loop_Ok:
  assumes "list_all2 (row_object dbg store usable enc) xs objs" and "cursor_at h n c xs" and "h + n < fuel" and "4 < usable"
    and "\<And>x b. x \<in> set xs \<Longrightarrow> row_bytes store usable x b \<Longrightarrow> length b < fuel" and "length xs < k" and "inv s"
  shows "\<exists>s' c'. schema_loop k fuel dbg rd usable enc (xs \<noteq> []) acc (s, c) = Some (Ok (acc @ objs), (s', c')) \<and> inv s'"
  using assms
proof (induction xs arbitrary: k objs acc s c)
  case Nil
  then show ?case by (cases k) auto
next
  case (Cons x xs)
  obtain k' where k: "k = Suc k'" using Cons.prems(6) by (cases k) auto
  obtain ob objs' where objs: "objs = ob # objs'" "row_object dbg store usable enc x ob" "list_all2 (row_object dbg store usable enc) xs objs'"
    using Cons.prems(1) by (auto simp: list_all2_Cons1)
  obtain b cols where b: "row_bytes store usable x b" "decode_record b enc = Ok cols" "parse_schema_row dbg cols = Ok ob"
    using objs(2) by (auto simp: row_object_def)
  have "length b < fuel" using Cons.prems(5) [OF _ b(1)] by simp
  from current_payload_Ok [OF Cons.prems(2) b(1) Cons.prems(4) this Cons.prems(7)]
  obtain s1 where p: "current_payload fuel rd usable (s, c) = Some (Ok b, (s1, c))" "inv s1" by blast
  obtain s2 c2 where nx: "cursor_next fuel rd (s1, c) = Some (Ok (xs \<noteq> []), (s2, c2))" "inv s2" "cursor_at h n c2 xs"
    using cursor_next_Ok [OF Cons.prems(2,3) p(2)] by blast
  obtain s' c' where "schema_loop k' fuel dbg rd usable enc (xs \<noteq> []) (acc @ [ob]) (s2, c2) = Some (Ok ((acc @ [ob]) @ objs'), (s', c'))" "inv s'"
  proof -
    have "length y < fuel" if "z \<in> set xs" "row_bytes store usable z y" for z y
      using Cons.prems(5) [OF _ that(2)] that(1) by simp
    moreover have "length xs < k'" using Cons.prems(6) k by simp
    ultimately show thesis using Cons.IH [OF objs(3) nx(3) Cons.prems(3,4) _ _ nx(2), of k' "acc @ [ob]"] that by blast
  qed
  then show ?case using p(1) b(2,3) nx(1) k objs(1)
    by (simp add: bindL_def [of "current_payload _ _ _"] bindL_def [of "cursor_next _ _"])
qed

lemma schema_read_Ok:
  assumes "tree_at store SCHEMA_ROOT_PAGE t" and "list_all2 (row_object dbg store usable enc) (slots t) objs" and "4 < usable"
    and "\<And>x b. x \<in> set (slots t) \<Longrightarrow> row_bytes store usable x b \<Longrightarrow> length b < fuel"
    and "height t + leaves t < fuel" and "length (slots t) < fuel" and "inv s"
  shows "\<exists>s'. schema_read fuel dbg rd usable enc s = Some (Ok \<lparr>sc_objects = objs\<rparr>, s') \<and> inv s'"
proof -
  let ?c = "cursor_new SCHEMA_ROOT_PAGE"
  have "tree_at store (tc_root ?c) t" using assms(1) by (simp add: cursor_new_def)
  from cursor_first_Ok [OF this assms(5,7)] obtain s1 c1 where
    f: "cursor_first fuel rd (s, ?c) = Some (Ok (slots t \<noteq> []), (s1, c1))" "inv s1" "cursor_at (height t) (leaves t) c1 (slots t)" by blast
  have "\<exists>s' c'. schema_loop fuel fuel dbg rd usable enc (slots t \<noteq> []) [] (s1, c1) = Some (Ok ([] @ objs), (s', c')) \<and> inv s'"
    by (rule schema_loop_Ok [OF assms(2) f(3) assms(5,3) _ assms(6) f(2)]) (rule assms(4))
  then show ?thesis using f(1) by (auto simp: schema_read_def bindL_def [of "cursor_first _ _"])
qed

end

end
