(* ===== verification/FreeList.thy ===== *)
theory FreeList
  imports Transactions "HOL-Library.Multiset"
begin

text \<open>
  The free list of the write pager (\<open>allocate_page\<close>, \<open>free_page\<close> and \<open>alloc_from_freelist\<close> of
  \<open>src/pager/write.rs\<close>) implements a stack of free pages. On disk it is a chain of trunk pages, each
  with an array of leaves; the specification is a list of trunks with their leaves, freeing pushes and
  allocating pops. A page comes back only after it was freed, and no page of the list is handed out
  twice.
\<close>

section \<open>The specification\<close>

type_synonym free_list = "(u32 \<times> u32 list) list"

definition fl_pages :: "free_list \<Rightarrow> u32 list" where
  "fl_pages fl = concat (map (\<lambda>(t, ls). t # ls) fl)"

fun fl_push :: "nat \<Rightarrow> u32 \<Rightarrow> free_list \<Rightarrow> free_list" where
  "fl_push mx pg [] = [(pg, [])]"
| "fl_push mx pg ((t, ls) # fl) = (if length ls < mx then (t, ls @ [pg]) # fl else (pg, []) # (t, ls) # fl)"

fun fl_pop :: "free_list \<Rightarrow> (u32 \<times> free_list) option" where
  "fl_pop [] = None"
| "fl_pop ((t, ls) # fl) = (if ls = [] then Some (t, fl) else Some (last ls, (t, butlast ls) # fl))"

lemma fl_pop_push: "fl_pop (fl_push mx pg fl) = Some (pg, fl)"
  by (cases "(mx, pg, fl)" rule: fl_push.cases) simp_all

lemma fl_pages_push: "mset (fl_pages (fl_push mx pg fl)) = add_mset pg (mset (fl_pages fl))"
  by (cases "(mx, pg, fl)" rule: fl_push.cases) (simp_all add: fl_pages_def)

lemma fl_pop_None: "fl_pop fl = None \<longleftrightarrow> fl = []"
  by (cases fl rule: fl_pop.cases) simp_all

lemma fl_pages_pop: "fl_pop fl = Some (pg, fl') \<Longrightarrow> mset (fl_pages fl) = add_mset pg (mset (fl_pages fl'))"
proof (cases fl rule: fl_pop.cases)
  case (2 t ls fl2)
  assume "fl_pop fl = Some (pg, fl')"
  then show ?thesis using 2 by (cases ls rule: rev_cases) (auto simp: fl_pages_def)
qed simp

section \<open>Trunk pages\<close>

definition be_at :: "bytes \<Rightarrow> nat \<Rightarrow> u32" where
  "be_at b off = from_be32 (take 4 (drop off b))"

lemma be_u32_at [simp]: "off + 4 \<le> length b \<Longrightarrow> be_u32 b off = Ok (be_at b off)"
  by (simp add: be_u32_def be_at_def slice_def)

lemma be_at_overwrite:
  assumes "a + 4 \<le> length b"
  shows "be_at (overwrite b a (to_be32 v)) a = v"
    and "off + 4 \<le> a \<or> a + 4 \<le> off \<Longrightarrow> off + 4 \<le> length b \<Longrightarrow> be_at (overwrite b a (to_be32 v)) off = be_at b off"
  using assms by (simp_all add: be_at_def slice_overwrite_other)

definition trunk_is :: "bytes \<Rightarrow> u32 \<Rightarrow> u32 list \<Rightarrow> bool" where
  "trunk_is b nxt ls \<longleftrightarrow> be_at b 0 = nxt \<and> be_at b 4 = of_nat (length ls) \<and>
     (\<forall>i < length ls. be_at b (8 + 4 * i) = ls ! i)"

text \<open>The chain of trunks that starts at a page, in pages of \<open>ps\<close> bytes with at most \<open>mx\<close> leaves.\<close>

fun chain :: "(u32 \<Rightarrow> bytes res) \<Rightarrow> nat \<Rightarrow> nat \<Rightarrow> u32 \<Rightarrow> free_list \<Rightarrow> bool" where
  "chain rd ps mx t [] \<longleftrightarrow> t = 0"
| "chain rd ps mx t ((t', ls) # fl) \<longleftrightarrow> t = t' \<and> t \<noteq> 0 \<and> length ls \<le> mx \<and>
    (\<exists>b nxt. rd t = Ok b \<and> length b = ps \<and> trunk_is b nxt ls \<and> chain rd ps mx nxt fl)"

lemma chain_cong: "chain rd ps mx t fl \<Longrightarrow> (\<And>n. n \<in> set (map fst fl) \<Longrightarrow> rd' n = rd n) \<Longrightarrow> chain rd' ps mx t fl"
  by (induction rd ps mx t fl rule: chain.induct) auto

lemma chain_update: "chain rd ps mx t fl \<Longrightarrow> n \<notin> set (fl_pages fl) \<Longrightarrow> chain (rd(n := r)) ps mx t fl"
  by (erule chain_cong) (auto simp: fl_pages_def)

definition max_leaves_of :: "database_header \<Rightarrow> nat" where
  "max_leaves_of h = (unat (page_size h) - unat (reserved_space h)) div 4 - 8"

text \<open>The free list of a state: chain, count and distinct pages, none of them page 0.\<close>

definition free_list_is :: "pst \<Rightarrow> free_list \<Rightarrow> bool" where
  "free_list_is s fl \<longleftrightarrow>
    chain (logical_page s) (wp_page_size (snd s)) (max_leaves_of (wp_header (snd s))) (freelist_trunk (wp_header (snd s))) fl \<and>
    distinct (0 # fl_pages fl) \<and> unat (freelist_count (wp_header (snd s))) = length (fl_pages fl) \<and>
    header_wf (wp_header (snd s)) \<and> wp_page_size (snd s) = unat (page_size (wp_header (snd s)))"

section \<open>Freeing pushes, allocating pops\<close>

lemma usable_wf:
  assumes "header_wf h"
  shows "usable_size h = Ok (unat (page_size h) - unat (reserved_space h))"
    and "12 + 4 * max_leaves_of h \<le> unat (page_size h)" and "12 \<le> unat (page_size h)"
  using header_wf_page_size [OF assms] usable_size_wf [OF assms]
  by (auto simp: usable_size_def usub_def max_leaves_of_def split: if_splits)

lemma logical_page_staged:
  assumes "txn_core (w', p') = txn_core (w, p)" and "wp_overlay p' = bm_insert n b (wp_overlay p)"
  shows "logical_page (w', p') = (logical_page (w, p))(n := Ok b)"
  using assms(2) committed_page_core [OF assms(1)]
  by (auto simp: logical_page_def fun_eq_iff bm_get_insert_any split: option.split)

text \<open>Writing back a trunk.\<close>

lemma trunk_push:
  assumes "trunk_is b nxt ls" and "12 + 4 * length ls \<le> length b" and "length ls < 2 ^ 32 - 1"
  shows "trunk_is (overwrite (overwrite b (8 + 4 * length ls) (to_be32 pg)) 4 (to_be32 (be_at b 4 + 1))) nxt (ls @ [pg])"
  using assms by (auto simp: trunk_is_def be_at_overwrite nth_append less_Suc_eq)

lemma trunk_pop:
  assumes "trunk_is b nxt (ls @ [pg])" and "12 + 4 * length ls \<le> length b"
  shows "trunk_is (overwrite b 4 (to_be32 (be_at b 4 - 1))) nxt ls"
proof -
  have "be_at b (8 + 4 * i) = ls ! i" if "i < length ls" for i
    using assms(1) that unfolding trunk_is_def by (metis length_append_singleton less_SucI nth_append)
  then show ?thesis using assms by (auto simp: trunk_is_def be_at_overwrite)
qed

lemma trunk_new:
  assumes "8 \<le> ps"
  shows "trunk_is (overwrite (overwrite (replicate ps 0) 0 (to_be32 t)) 4 (to_be32 0)) t []"
  using assms by (simp add: trunk_is_def be_at_overwrite)

text \<open>Running an action in an open transaction.\<close>

lemma run_txn [simp]:
  "in_txn (w, p) \<Longrightarrow> bindA acquire_write_intent f (w, p) = f () (w, p)"
  "in_txn (w, p) \<Longrightarrow> length b = wp_page_size p \<Longrightarrow>
    bindA (write_page n b) g (w, p) = g () (w, p\<lparr>wp_overlay := bm_insert n b (wp_overlay p)\<rparr>)"
  "bindA (stage n b) g (w, p) = g () (w, p\<lparr>wp_overlay := bm_insert n b (wp_overlay p)\<rparr>)"
  by (simp_all add: bindA_def write_page_stages stage_def)

lemma in_txn_update [simp]:
  "in_txn (w, p\<lparr>wp_overlay := x\<rparr>) = in_txn (w, p)" "in_txn (w, p\<lparr>wp_read_cache := c\<rparr>) = in_txn (w, p)"
  "in_txn (w, p\<lparr>wp_header := h\<rparr>) = in_txn (w, p)"
  by (simp_all add: in_txn_def)

lemma read_page_Ok:
  assumes "cache_ok (w, p)" and "logical_page (w, p) n = Ok b"
  obtains c where "read_page n (w, p) = (Ok b, (w, p\<lparr>wp_read_cache := c\<rparr>))"
  using read_page_logical [OF assms(1), of n] assms(2) by auto

lemma bind_read: "read_page n s = (Ok b, s') \<Longrightarrow> bindA (read_page n) f s = f b s'"
  by (rule bindA_OkI)

text \<open>What freeing and allocating leave: new staged pages, and the free list fields of the header.\<close>

definition moved :: "u32 \<Rightarrow> u32 \<Rightarrow> (u32 \<times> bytes) list \<Rightarrow> write_pager \<Rightarrow> write_pager \<Rightarrow> bool" where
  "moved t cnt kvs p p' \<longleftrightarrow> (\<forall>w. txn_core (w, p') = txn_core (w, p)) \<and>
     wp_overlay p' = fold (\<lambda>(k, v). bm_insert k v) kvs (wp_overlay p) \<and>
     wp_header p' = (wp_header p)\<lparr>freelist_trunk := t, freelist_count := cnt\<rparr> \<and> wp_page_count p' = wp_page_count p"

lemma moved_rd:
  assumes "moved t cnt kvs p p'"
  shows "logical_page (w, p') = fold (\<lambda>(k, v) rd. rd(k := Ok v)) kvs (logical_page (w, p))"
proof -
  let ?rd = "\<lambda>m n. case bm_get m n of Some b \<Rightarrow> Ok b | None \<Rightarrow> committed_page (w, p) n"
  have "?rd (bm_insert k v m) = (?rd m)(k := Ok v)" for k v m
    by (auto simp: bm_get_insert_any fun_eq_iff split: option.split)
  then have "?rd (fold (\<lambda>(k, v). bm_insert k v) kvs m) = fold (\<lambda>(k, v) rd. rd(k := Ok v)) kvs (?rd m)" for m
  proof (induction kvs arbitrary: m)
    case (Cons kv kvs)
    obtain k v where "kv = (k, v)" by (cases kv)
    then show ?case using Cons.IH [OF Cons.prems, of "bm_insert k v m"] Cons.prems [of k v m] by simp
  qed simp
  moreover have "logical_page (w, p) = ?rd (wp_overlay p)" by (simp add: logical_page_def fun_eq_iff)
  moreover have "committed_page (w, p') = committed_page (w, p)"
    by (rule committed_page_core) (use assms in \<open>simp add: moved_def\<close>)
  then have "logical_page (w, p') = ?rd (wp_overlay p')" by (auto simp: logical_page_def fun_eq_iff split: option.split)
  ultimately show ?thesis using assms by (simp add: moved_def)
qed

text \<open>Pages outside a set are as before.\<close>

definition framed :: "u32 set \<Rightarrow> world \<Rightarrow> write_pager \<Rightarrow> write_pager \<Rightarrow> bool" where
  "framed P w p p' \<longleftrightarrow> (\<forall>n. n \<notin> P \<longrightarrow> logical_page (w, p') n = logical_page (w, p) n) \<and> wp_page_count p' = wp_page_count p \<and>
     (\<exists>t c. wp_header p' = (wp_header p)\<lparr>freelist_trunk := t, freelist_count := c\<rparr>)"

lemma moved_framed:
  assumes "moved t cnt kvs p p'" and "fst ` set kvs \<subseteq> P"
  shows "framed P w p p'"
proof -
  have "n \<notin> fst ` set kvs \<Longrightarrow> fold (\<lambda>(k, v) rd. rd(k := Ok v)) kvs f n = f n" for n f
    by (induction kvs arbitrary: f) auto
  then show ?thesis using assms moved_rd [OF assms(1), of w] by (auto simp: framed_def moved_def)
qed

lemma moved_page_size: "moved t cnt kvs p p' \<Longrightarrow> wp_page_size p' = wp_page_size p"
  by (simp add: moved_def txn_core_def)

text \<open>A moved state has the free list that its new trunk starts.\<close>

lemma moved_free_list:
  assumes "moved t cnt kvs p p'" and "free_list_is (w, p) fl0"
    and "chain (fold (\<lambda>(k, v) rd. rd(k := Ok v)) kvs (logical_page (w, p))) (wp_page_size p) (max_leaves_of (wp_header p)) t fl"
    and "distinct (0 # fl_pages fl)" and "unat cnt = length (fl_pages fl)"
  shows "free_list_is (w, p') fl"
  using assms(2-5) moved_rd [OF assms(1), of w] moved_page_size [OF assms(1)] assms(1)
  by (auto simp: free_list_is_def moved_def max_leaves_of_def header_wf_def)

definition new_trunk_page :: "nat \<Rightarrow> u32 \<Rightarrow> bytes" where
  "new_trunk_page ps t = overwrite (overwrite (replicate ps 0) 0 (to_be32 t)) 4 (to_be32 0)"

lemma length_new_trunk [simp]: "8 \<le> ps \<Longrightarrow> length (new_trunk_page ps t) = ps"
  by (simp add: new_trunk_page_def)

lemma free_page_new_trunk:
  assumes "in_txn (w, p)" and "8 \<le> wp_page_size p" and "freelist_count (wp_header p) \<noteq> - 1"
  shows "\<exists>p'. bindA (write_page pg (new_trunk_page (wp_page_size p) t)) (\<lambda>_.
          bindA getA (\<lambda>(w, p).
          bindA (modP (\<lambda>p. p\<lparr>wp_header := (wp_header p)\<lparr>freelist_trunk := pg\<rparr>\<rparr>)) (\<lambda>_.
          bindA (liftA (inc32 (freelist_count (wp_header p)))) (\<lambda>cnt.
          modP (\<lambda>p. p\<lparr>wp_header := (wp_header p)\<lparr>freelist_count := cnt\<rparr>\<rparr>))))) (w, p) = (Ok (), (w, p')) \<and>
    moved pg (freelist_count (wp_header p) + 1) [(pg, new_trunk_page (wp_page_size p) t)] p p'"
  using assms by (simp add: inc32_def moved_def txn_core_def)

lemma moved_trans_cache: "moved t cnt kvs (p\<lparr>wp_read_cache := c\<rparr>) p' \<Longrightarrow> moved t cnt kvs p p'"
  by (auto simp: moved_def txn_core_def)

lemma trunk_self: "(h :: database_header)\<lparr>freelist_trunk := freelist_trunk h, freelist_count := n\<rparr> = h\<lparr>freelist_count := n\<rparr>"
  by (cases h) simp

text \<open>Freeing without a trunk, with a full one and with room in it.\<close>

lemma free_page_first:
  assumes "in_txn (w, p)" and "header_wf (wp_header p)" and "wp_page_size p = unat (page_size (wp_header p))"
    and "freelist_trunk (wp_header p) = 0" and "freelist_count (wp_header p) \<noteq> - 1"
  shows "\<exists>p'. free_page pg (w, p) = (Ok (), (w, p')) \<and>
    moved pg (freelist_count (wp_header p) + 1) [(pg, new_trunk_page (wp_page_size p) 0)] p p'"
  using free_page_new_trunk [OF assms(1) _ assms(5), of pg 0] usable_wf [OF assms(2)] assms
  by (simp add: free_page_def Let_def new_trunk_page_def)

lemma free_page_full:
  assumes "in_txn (w, p)" and "cache_ok (w, p)" and "header_wf (wp_header p)"
    and "wp_page_size p = unat (page_size (wp_header p))"
    and "freelist_trunk (wp_header p) \<noteq> 0" and "freelist_count (wp_header p) \<noteq> - 1"
    and "logical_page (w, p) (freelist_trunk (wp_header p)) = Ok b" and "length b = wp_page_size p"
    and "\<not> unat (be_at b 4) < max_leaves_of (wp_header p)"
  shows "\<exists>p'. free_page pg (w, p) = (Ok (), (w, p')) \<and>
    moved pg (freelist_count (wp_header p) + 1) [(pg, new_trunk_page (wp_page_size p) (freelist_trunk (wp_header p)))] p p'"
proof -
  obtain c where c: "read_page (freelist_trunk (wp_header p)) (w, p) = (Ok b, (w, p\<lparr>wp_read_cache := c\<rparr>))"
    using read_page_Ok [OF assms(2,7)] by blast
  have "\<exists>p'. free_page pg (w, p) = (Ok (), (w, p')) \<and>
    moved pg (freelist_count (wp_header p) + 1) [(pg, new_trunk_page (wp_page_size p) (freelist_trunk (wp_header p)))]
      (p\<lparr>wp_read_cache := c\<rparr>) p'"
    using free_page_new_trunk [of w "p\<lparr>wp_read_cache := c\<rparr>" pg "freelist_trunk (wp_header p)"] usable_wf [OF assms(3)] assms
    by (simp add: free_page_def Let_def new_trunk_page_def max_leaves_of_def inc32_def be_at_def bind_read [OF c])
  then show ?thesis using moved_trans_cache by blast
qed

lemma free_page_room:
  assumes "in_txn (w, p)" and "cache_ok (w, p)" and "header_wf (wp_header p)"
    and "wp_page_size p = unat (page_size (wp_header p))"
    and "freelist_trunk (wp_header p) \<noteq> 0" and "freelist_count (wp_header p) \<noteq> - 1"
    and "logical_page (w, p) (freelist_trunk (wp_header p)) = Ok b" and "length b = wp_page_size p"
    and "unat (be_at b 4) < max_leaves_of (wp_header p)"
  shows "\<exists>p'. free_page pg (w, p) = (Ok (), (w, p')) \<and>
    moved (freelist_trunk (wp_header p)) (freelist_count (wp_header p) + 1)
      ((freelist_trunk (wp_header p), overwrite (overwrite b (8 + 4 * unat (be_at b 4)) (to_be32 pg)) 4 (to_be32 (be_at b 4 + 1))) #
       (if wp_secure_delete p then [(pg, replicate (wp_page_size p) 0)] else [])) p p'"
proof -
  obtain c where c: "read_page (freelist_trunk (wp_header p)) (w, p) = (Ok b, (w, p\<lparr>wp_read_cache := c\<rparr>))"
    using read_page_Ok [OF assms(2,7)] by blast
  have "8 + 4 * unat (be_at b 4) + 4 \<le> length b" using usable_wf(2) [OF assms(3)] assms(4,8,9) by simp
  then show ?thesis
    using usable_wf [OF assms(3)] assms
    by (simp add: free_page_def Let_def max_leaves_of_def inc32_def moved_def txn_core_def be_at_def trunk_self bind_read [OF c])
qed

lemma distinct_push:
  assumes "distinct (0 # fl_pages fl)" and "pg \<notin> set (0 # fl_pages fl)"
  shows "distinct (0 # fl_pages (fl_push mx pg fl))" and "length (fl_pages (fl_push mx pg fl)) = length (fl_pages fl) + 1"
proof -
  have m: "mset (fl_pages (fl_push mx pg fl)) = add_mset pg (mset (fl_pages fl))" by (rule fl_pages_push)
  then have "mset (0 # fl_pages (fl_push mx pg fl)) = mset (pg # 0 # fl_pages fl)" by simp
  then show "distinct (0 # fl_pages (fl_push mx pg fl))" using assms mset_eq_imp_distinct_iff by fastforce
  show "length (fl_pages (fl_push mx pg fl)) = length (fl_pages fl) + 1" using arg_cong [OF m, of size] by simp
qed

lemma count_room: "unat (c :: u32) < 2 ^ 32 - 1 \<Longrightarrow> c \<noteq> - 1 \<and> unat (c + 1) = unat c + 1"
proof -
  assume a: "unat c < 2 ^ 32 - 1"
  then have "unat (c + 1) = unat c + 1" by (simp add: unat_word_ariths)
  moreover from this have "c \<noteq> - 1" by auto
  ultimately show ?thesis by simp
qed

lemma free_page_refines:
  assumes t: "in_txn (w, p)" "cache_ok (w, p)" and fl: "free_list_is (w, p) fl"
    and pg: "pg \<notin> set (0 # fl_pages fl)" and room: "length (fl_pages fl) < 2 ^ 32 - 1"
  shows "\<exists>p'. free_page pg (w, p) = (Ok (), (w, p')) \<and>
    free_list_is (w, p') (fl_push (max_leaves_of (wp_header p)) pg fl) \<and> framed (insert pg (set (fl_pages fl))) w p p'"
proof -
  let ?h = "wp_header p" let ?rd = "logical_page (w, p)" let ?ps = "wp_page_size p" let ?mx = "max_leaves_of ?h"
  have h: "header_wf ?h" "?ps = unat (page_size ?h)" and d: "distinct (0 # fl_pages fl)"
    and ch: "chain ?rd ?ps ?mx (freelist_trunk ?h) fl" and cn: "unat (freelist_count ?h) = length (fl_pages fl)"
    using fl unfolding free_list_is_def by auto
  have cnt: "freelist_count ?h \<noteq> - 1" "unat (freelist_count ?h + 1) = length (fl_pages fl) + 1"
    using count_room [of "freelist_count ?h"] cn room by simp_all
  note dp = distinct_push [OF d pg, of ?mx]
  have close: "free_list_is (w, p') (fl_push ?mx pg fl)"
    if "moved t (freelist_count ?h + 1) kvs p p'" and
      "chain (fold (\<lambda>(k, v) rd. rd(k := Ok v)) kvs ?rd) ?ps ?mx t (fl_push ?mx pg fl)" for t kvs p'
    using moved_free_list [OF that(1) fl that(2) dp(1)] cnt(2) dp(2) by simp
  have newt: "chain (?rd(pg := Ok (new_trunk_page ?ps (freelist_trunk ?h)))) ?ps ?mx pg ((pg, []) # fl)"
    using chain_update [OF ch, of pg] pg usable_wf(3) [OF h(1)] h(2) trunk_new [of ?ps "freelist_trunk ?h"]
    by (auto simp: new_trunk_page_def [symmetric])
  show ?thesis
  proof (cases fl)
    case Nil
    then have t0: "freelist_trunk ?h = 0" using ch by simp
    obtain p' where p': "free_page pg (w, p) = (Ok (), (w, p'))"
      "moved pg (freelist_count ?h + 1) [(pg, new_trunk_page ?ps 0)] p p'"
      using free_page_first [OF t(1) h t0 cnt(1)] by blast
    show ?thesis using p'(1) close [OF p'(2)] newt t0 Nil moved_framed [OF p'(2)] by simp
  next
    case (Cons tl0 rest)
    obtain tr ls where fl_eq: "fl = (tr, ls) # rest" using Cons by (cases tl0) simp
    obtain b nxt where b: "freelist_trunk ?h = tr" "tr \<noteq> 0" "length ls \<le> ?mx" "?rd tr = Ok b" "length b = ?ps"
      "trunk_is b nxt ls" "chain ?rd ?ps ?mx nxt rest"
      using ch fl_eq by auto
    have len: "length ls \<le> length (fl_pages fl)" using fl_eq by (simp add: fl_pages_def)
    have lc: "be_at b 4 = of_nat (length ls)" "unat (be_at b 4) = length ls"
      using b(6) len room by (simp_all add: trunk_is_def unat_of_nat)
    have rd0: "?rd (freelist_trunk ?h) = Ok b" "freelist_trunk ?h \<noteq> 0" using b by simp_all
    show ?thesis
    proof (cases "length ls < ?mx")
      case False
      obtain p' where p': "free_page pg (w, p) = (Ok (), (w, p'))"
        "moved pg (freelist_count ?h + 1) [(pg, new_trunk_page ?ps (freelist_trunk ?h))] p p'"
        using free_page_full [OF t h rd0(2) cnt(1) rd0(1) b(5), of pg] False lc by auto
      show ?thesis using p'(1) close [OF p'(2)] newt fl_eq False moved_framed [OF p'(2)] by simp
    next
      case True
      let ?t2 = "overwrite (overwrite b (8 + 4 * length ls) (to_be32 pg)) 4 (to_be32 (be_at b 4 + 1))"
      let ?kvs = "(tr, ?t2) # (if wp_secure_delete p then [(pg, replicate ?ps 0)] else [])"
      obtain p' where p': "free_page pg (w, p) = (Ok (), (w, p'))" "moved tr (freelist_count ?h + 1) ?kvs p p'"
        using free_page_room [OF t h rd0(2) cnt(1) rd0(1) b(5), of pg] True lc b(1) by auto
      have fit: "12 + 4 * length ls \<le> length b" using usable_wf(2) [OF h(1)] True b(5) h(2) by simp
      have "trunk_is ?t2 nxt (ls @ [pg])" using trunk_push [OF b(6) fit] len room by simp
      moreover have "length ?t2 = ?ps" using fit b(5) by simp
      moreover have "tr \<notin> set (fl_pages rest)" "pg \<notin> set (fl_pages rest)" "pg \<noteq> tr"
        using d pg fl_eq by (auto simp: fl_pages_def)
      then have "chain (?rd(tr := r)) ?ps ?mx nxt rest" "chain (?rd(tr := r, pg := r')) ?ps ?mx nxt rest" for r r'
        using chain_update b(7) by simp_all
      ultimately have "chain (fold (\<lambda>(k, v) rd. rd(k := Ok v)) ?kvs ?rd) ?ps ?mx tr ((tr, ls @ [pg]) # rest)"
        using b(2) True \<open>pg \<noteq> tr\<close> by auto
      moreover have "framed (insert pg (set (fl_pages fl))) w p p'"
        by (rule moved_framed [OF p'(2)]) (auto simp: fl_eq fl_pages_def)
      ultimately show ?thesis using p'(1) close [OF p'(2)] fl_eq True by simp
    qed
  qed
qed

section \<open>Allocating pops\<close>

lemma alloc_leaf:
  assumes "in_txn (w, p)" and "cache_ok (w, p)" and "freelist_trunk (wp_header p) \<noteq> 0"
    and "freelist_count (wp_header p) \<noteq> 0"
    and "logical_page (w, p) (freelist_trunk (wp_header p)) = Ok b" and "length b = wp_page_size p"
    and "be_at b 4 \<noteq> 0" and "8 + 4 * unat (be_at b 4) \<le> length b"
  shows "\<exists>p'. allocate_page (w, p) = (Ok (be_at b (8 + 4 * (unat (be_at b 4) - 1))), (w, p')) \<and>
    moved (freelist_trunk (wp_header p)) (freelist_count (wp_header p) - 1)
      [(freelist_trunk (wp_header p), overwrite b 4 (to_be32 (be_at b 4 - 1))),
       (be_at b (8 + 4 * (unat (be_at b 4) - 1)), replicate (wp_page_size p) 0)] p p'"
proof -
  obtain c where c: "read_page (freelist_trunk (wp_header p)) (w, p) = (Ok b, (w, p\<lparr>wp_read_cache := c\<rparr>))"
    using read_page_Ok [OF assms(2,5)] by blast
  have "0 < unat (be_at b 4)" using assms(7) by (simp add: unat_gt_0)
  then have f: "8 + 4 * (unat (be_at b 4) - 1) + 4 \<le> length b" using assms(8) by linarith
  have g: "0 < be_at b 4" "0 < freelist_count (wp_header p)" using assms(4,7) by (simp_all add: word_neq_0_conv)
  have b4: "be_u32 b 4 = Ok (be_at b 4)" "be_u32 b (8 + 4 * (unat (be_at b 4) - 1)) = Ok (be_at b (8 + 4 * (unat (be_at b 4) - 1)))"
    using f by (intro be_u32_at; simp)+
  show ?thesis
    using assms(1,3,4,6) f g
    by (simp add: allocate_page_def alloc_from_freelist_def Let_def bind_read [OF c] dec32_def moved_def txn_core_def
        trunk_self b4 del: be_u32_at) (simp add: be_at_def)
qed

lemma alloc_trunk:
  assumes "in_txn (w, p)" and "cache_ok (w, p)" and "freelist_trunk (wp_header p) \<noteq> 0"
    and "freelist_count (wp_header p) \<noteq> 0"
    and "logical_page (w, p) (freelist_trunk (wp_header p)) = Ok b" and "length b = wp_page_size p"
    and "be_at b 4 = 0" and "8 \<le> length b"
  shows "\<exists>p'. allocate_page (w, p) = (Ok (freelist_trunk (wp_header p)), (w, p')) \<and>
    moved (be_at b 0) (freelist_count (wp_header p) - 1)
      [(freelist_trunk (wp_header p), replicate (wp_page_size p) 0)] p p'"
proof -
  obtain c where c: "read_page (freelist_trunk (wp_header p)) (w, p) = (Ok b, (w, p\<lparr>wp_read_cache := c\<rparr>))"
    using read_page_Ok [OF assms(2,5)] by blast
  have g: "0 < freelist_count (wp_header p)" using assms(4) by (simp add: word_neq_0_conv)
  have b4: "be_u32 b 4 = Ok 0" "be_u32 b 0 = Ok (be_at b 0)"
    using assms(7,8) be_u32_at [of 4 b] be_u32_at [of 0 b] by simp_all
  show ?thesis
    using assms(1,3,4) g
    by (simp add: allocate_page_def alloc_from_freelist_def Let_def bind_read [OF c] dec32_def moved_def txn_core_def b4)
qed

lemma distinct_pop:
  assumes "fl_pop fl = Some (pg, fl')" and "distinct (0 # fl_pages fl)"
  shows "distinct (0 # fl_pages fl')" and "length (fl_pages fl) = length (fl_pages fl') + 1" and "pg \<notin> set (0 # fl_pages fl')"
proof -
  have m: "mset (fl_pages fl) = add_mset pg (mset (fl_pages fl'))" using assms(1) by (rule fl_pages_pop)
  then have "mset (0 # fl_pages fl) = mset (pg # 0 # fl_pages fl')" by simp
  then have "distinct (pg # 0 # fl_pages fl')" using assms(2) mset_eq_imp_distinct_iff by blast
  then show "distinct (0 # fl_pages fl')" and "pg \<notin> set (0 # fl_pages fl')" by auto
  show "length (fl_pages fl) = length (fl_pages fl') + 1" using arg_cong [OF m, of size] by simp
qed

lemma count_down: "(c :: u32) \<noteq> 0 \<Longrightarrow> unat (c - 1) = unat c - 1"
  by (simp add: unat_minus_one)

lemma allocate_page_refines:
  assumes t: "in_txn (w, p)" "cache_ok (w, p)" and fl: "free_list_is (w, p) fl" and pop: "fl_pop fl = Some (pg, fl')"
  shows "\<exists>p'. allocate_page (w, p) = (Ok pg, (w, p')) \<and> free_list_is (w, p') fl' \<and>
    logical_page (w, p') pg = Ok (replicate (wp_page_size p) 0) \<and> framed (set (fl_pages fl)) w p p'"
proof -
  let ?h = "wp_header p" let ?rd = "logical_page (w, p)" let ?ps = "wp_page_size p" let ?mx = "max_leaves_of ?h"
  have h: "header_wf ?h" "?ps = unat (page_size ?h)" and d: "distinct (0 # fl_pages fl)"
    and ch: "chain ?rd ?ps ?mx (freelist_trunk ?h) fl" and cn: "unat (freelist_count ?h) = length (fl_pages fl)"
    using fl unfolding free_list_is_def by auto
  note dp = distinct_pop [OF pop d]
  have c0: "freelist_count ?h \<noteq> 0" using cn dp(2) by auto
  have cnt: "unat (freelist_count ?h - 1) = length (fl_pages fl')" using count_down [OF c0] cn dp(2) by simp
  have close: "free_list_is (w, p') fl'"
    if "moved t (freelist_count ?h - 1) kvs p p'" and "chain (fold (\<lambda>(k, v) rd. rd(k := Ok v)) kvs ?rd) ?ps ?mx t fl'" for t kvs p'
    using moved_free_list [OF that(1) fl that(2) dp(1) cnt] .
  obtain tr ls rest where fl_eq: "fl = (tr, ls) # rest" using pop by (cases fl rule: fl_pop.cases) auto
  obtain b nxt where b: "freelist_trunk ?h = tr" "tr \<noteq> 0" "length ls \<le> ?mx" "?rd tr = Ok b" "length b = ?ps"
    "trunk_is b nxt ls" "chain ?rd ?ps ?mx nxt rest"
    using ch fl_eq by auto
  have len: "length ls < length (fl_pages fl)" using fl_eq by (simp add: fl_pages_def)
  have lc: "be_at b 4 = of_nat (length ls)" "unat (be_at b 4) = length ls"
  proof -
    show e: "be_at b 4 = of_nat (length ls)" using b(6) by (simp add: trunk_is_def)
    have "length ls < 2 ^ 32" using len cn unat_less_length [of "freelist_count ?h"] by simp
    then show "unat (be_at b 4) = length ls" by (simp add: e unat_of_nat)
  qed
  have fit: "12 + 4 * length ls \<le> length b" using usable_wf(2) [OF h(1)] b(3,5) h(2) by simp
  have rd0: "?rd (freelist_trunk ?h) = Ok b" "freelist_trunk ?h \<noteq> 0" using b by simp_all
  have tr: "tr \<notin> set (fl_pages rest)" using d fl_eq by (auto simp: fl_pages_def)
  show ?thesis
  proof (cases ls rule: rev_cases)
    case Nil
    have e: "pg = tr" "fl' = rest" using pop fl_eq Nil by simp_all
    obtain p' where p': "allocate_page (w, p) = (Ok tr, (w, p'))"
      "moved (be_at b 0) (freelist_count ?h - 1) [(tr, replicate ?ps 0)] p p'"
      using alloc_trunk [OF t rd0(2) c0 rd0(1) b(5)] lc(1) fit Nil b(1) by auto
    have "be_at b 0 = nxt" using b(6) by (simp add: trunk_is_def)
    then have "free_list_is (w, p') fl'" using close [OF p'(2)] e chain_update [OF b(7) tr] by simp
    then show ?thesis using p' e moved_rd [OF p'(2), of w] moved_framed [OF p'(2)] fl_eq by (simp add: fl_pages_def)
  next
    case (snoc ys y)
    have e: "pg = y" "fl' = (tr, ys) # rest" using pop fl_eq snoc by simp_all
    let ?t2 = "overwrite b 4 (to_be32 (be_at b 4 - 1))"
    have ly: "unat (be_at b 4) - 1 = length ys" "be_at b 4 \<noteq> 0" using lc snoc by auto
    have y: "be_at b (8 + 4 * (unat (be_at b 4) - 1)) = y" using b(6) snoc ly by (simp add: trunk_is_def)
    have "8 + 4 * unat (be_at b 4) \<le> length b" using lc(2) fit by simp
    then obtain p' where p': "allocate_page (w, p) = (Ok y, (w, p'))"
      "moved tr (freelist_count ?h - 1) [(tr, ?t2), (y, replicate ?ps 0)] p p'"
      using alloc_leaf [OF t rd0(2) c0 rd0(1) b(5) ly(2)] y b(1) by auto
    have "trunk_is ?t2 nxt ys" using trunk_pop [of b nxt ys y] b(6) snoc fit by simp
    moreover have "length ?t2 = ?ps" using fit b(5) by simp
    moreover have yt: "y \<notin> set (fl_pages rest)" "y \<noteq> tr" using d fl_eq snoc by (auto simp: fl_pages_def)
    have "chain (?rd(tr := r, y := r')) ?ps ?mx nxt rest" for r r'
      using chain_update b(7) tr yt by simp
    ultimately have "chain (fold (\<lambda>(k, v) rd. rd(k := Ok v)) [(tr, ?t2), (y, replicate ?ps 0)] ?rd) ?ps ?mx tr fl'"
      using b(2,3) snoc e yt by auto
    then show ?thesis using close [OF p'(2)] p' e moved_rd [OF p'(2), of w] moved_framed [OF p'(2)] fl_eq snoc by (simp add: fl_pages_def)
  qed
qed

section \<open>The interface\<close>

text \<open>Several allocations in a row; the first error ends them.\<close>

fun alloc_times :: "('s, u32) act \<Rightarrow> nat \<Rightarrow> ('s, u32 list) act" where
  "alloc_times alloc 0 = retA []"
| "alloc_times alloc (Suc n) = bindA alloc (\<lambda>pg. bindA (alloc_times alloc n) (\<lambda>pgs. retA (pg # pgs)))"

locale page_stack =
  fixes alloc :: "('s, u32) act"
    and free :: "u32 \<Rightarrow> ('s, unit) act"
    and rep :: "'s \<Rightarrow> free_list \<Rightarrow> bool"
    and mx :: "'s \<Rightarrow> nat"
  assumes free_push: "rep s fl \<Longrightarrow> pg \<notin> set (0 # fl_pages fl) \<Longrightarrow> length (fl_pages fl) < 2 ^ 32 - 1 \<Longrightarrow>
      \<exists>s'. free pg s = (Ok (), s') \<and> rep s' (fl_push (mx s) pg fl)"
    and alloc_pop: "rep s fl \<Longrightarrow> fl_pop fl = Some (pg, fl') \<Longrightarrow> \<exists>s'. alloc s = (Ok pg, s') \<and> rep s' fl'"
begin

lemma free_alloc:
  assumes "rep s fl" and "pg \<notin> set (0 # fl_pages fl)" and "length (fl_pages fl) < 2 ^ 32 - 1"
  shows "\<exists>s' s''. free pg s = (Ok (), s') \<and> alloc s' = (Ok pg, s'') \<and> rep s'' fl"
  using free_push [OF assms] alloc_pop fl_pop_push by blast

lemma alloc_many:
  "rep s fl \<Longrightarrow> n \<le> length (fl_pages fl) \<Longrightarrow>
    \<exists>pgs s' fl'. alloc_times alloc n s = (Ok pgs, s') \<and> length pgs = n \<and> rep s' fl' \<and>
      mset (fl_pages fl) = mset pgs + mset (fl_pages fl')"
proof (induction n arbitrary: s fl)
  case (Suc n)
  have "fl \<noteq> []" using Suc.prems(2) by (auto simp: fl_pages_def)
  then obtain pg fl1 where p: "fl_pop fl = Some (pg, fl1)"
    using fl_pop_None by fastforce
  then have m: "mset (fl_pages fl) = add_mset pg (mset (fl_pages fl1))" by (rule fl_pages_pop)
  then have "n \<le> length (fl_pages fl1)" using Suc.prems(2) by (metis Suc_le_mono size_add_mset size_mset)
  moreover obtain s1 where s1: "alloc s = (Ok pg, s1)" "rep s1 fl1" using alloc_pop [OF Suc.prems(1) p] by blast
  ultimately obtain pgs s' fl' where "alloc_times alloc n s1 = (Ok pgs, s')" "length pgs = n" "rep s' fl'"
    "mset (fl_pages fl1) = mset pgs + mset (fl_pages fl')"
    using Suc.IH by blast
  then show ?case using s1 m by (intro exI [of _ "pg # pgs"] exI [of _ s'] exI [of _ fl']) (simp add: bindA_def)
qed auto

end

definition pager_free_list :: "pst \<Rightarrow> free_list \<Rightarrow> bool" where
  "pager_free_list s fl \<longleftrightarrow> in_txn s \<and> cache_ok s \<and> free_list_is s fl"

interpretation pager_stack: page_stack allocate_page free_page pager_free_list "\<lambda>s. max_leaves_of (wp_header (snd s))"
proof
  fix s fl pg
  assume r: "pager_free_list s fl" and a: "pg \<notin> set (0 # fl_pages fl)" "length (fl_pages fl) < 2 ^ 32 - 1"
  have t: "txn_at s (snd (free_page pg s))"
    using keepsA_D [OF keepsA_free_page txn_at_refl] r by (simp add: pager_free_list_def)
  show "\<exists>s'. free_page pg s = (Ok (), s') \<and> pager_free_list s' (fl_push (max_leaves_of (wp_header (snd s))) pg fl)"
    using free_page_refines [of "fst s" "snd s" fl pg] r a t by (auto simp: pager_free_list_def txn_at_def)
next
  fix s fl pg fl'
  assume r: "pager_free_list s fl" and a: "fl_pop fl = Some (pg, fl')"
  have t: "txn_at s (snd (allocate_page s))"
    using keepsA_D [OF keepsA_allocate txn_at_refl] r by (simp add: pager_free_list_def)
  show "\<exists>s'. allocate_page s = (Ok pg, s') \<and> pager_free_list s' fl'"
    using allocate_page_refines [of "fst s" "snd s" fl pg fl'] r a t by (auto simp: pager_free_list_def txn_at_def)
qed

end
