(* ===== verification/AutoVacuum.thy ===== *)
theory AutoVacuum
  imports WritePager Cursor RecordFormat
begin

text \<open>
  Auto-vacuum (\<open>src/pager/write.rs\<close>): the walks over the b-tree forest and the free list that derive
  the pointer map, its rebuilding before a commit, and the relocation of trailing pages that shrinks
  the file. The walks follow pointers of the file and take fuel; relocation counts down from the
  last page and needs none.
\<close>

section \<open>Walks\<close>

type_synonym want_map = "(u32, ptrmap_type \<times> u32) btree_map"

definition load_bt :: "u32 \<Rightarrow> (pst, btree_page) act" where
  "load_bt n = bindA (read_page n) (\<lambda>b. liftA (btree_page_parse (page_from_bytes n b)))"

definition wp_usable :: "(pst, nat) act" where
  "wp_usable = bindA getA (\<lambda>(w, p). liftA (usable_size (wp_header p)))"

definition schema_row :: "nat \<Rightarrow> btree_page \<Rightarrow> nat \<Rightarrow> u32 list \<Rightarrow> (pst, u32 list) lact" where
  "schema_row fuel bt i out =
    bindL (runL wp_usable) (\<lambda>usable.
    bindL (runL (liftA (table_leaf_cell bt i usable))) (\<lambda>cell.
    bindL (read_payload fuel source_page usable (bt_data bt) (cell_payload cell)) (\<lambda>full.
    bindL (runL getA) (\<lambda>(w, p).
    bindL (runL (liftA (decode_record full (header_text_encoding (wp_header p))))) (\<lambda>cols.
    runL (retA (case (if 3 < length cols then Some (cols ! 3) else None) of
        Some (Integer r) \<Rightarrow> if 0 < sint r then out @ [ucast r] else out
      | _ \<Rightarrow> out)))))))"

definition children :: "btree_page \<Rightarrow> u32 list \<Rightarrow> u32 list res" where
  "children bt stack =
    bindR (mapR (child_pointer bt) [0..<num_cells bt]) (\<lambda>cs.
    Ok (right_pointer bt # rev cs @ stack))"

primrec schema_walk :: "nat \<Rightarrow> u32 list \<Rightarrow> u32 list \<Rightarrow> (pst, u32 list) lact" where
  "schema_walk 0 stack out = (\<lambda>s. None)"
| "schema_walk (Suc fuel) stack out =
    (case stack of
       [] \<Rightarrow> runL (retA out)
     | pg # rest \<Rightarrow>
         bindL (runL (load_bt pg)) (\<lambda>bt.
         case bt_type bt of
           LeafTable \<Rightarrow>
             bindL (foldL (schema_row fuel bt) [0..<num_cells bt] out) (\<lambda>out'. schema_walk fuel rest out')
         | InteriorTable \<Rightarrow>
             bindL (runL (liftA (children bt rest))) (\<lambda>stack'. schema_walk fuel stack' out)
         | _ \<Rightarrow> runL (liftA (Err (Corrupt ''sqlite_schema is not a table b-tree'')))))"

definition schema_roots :: "nat \<Rightarrow> (pst, u32 list) lact" where
  "schema_roots fuel = schema_walk fuel [1] []"

text \<open>The overflow chain of a cell: the first page belongs to the b-tree page, the rest to their predecessor.\<close>

primrec chain_walk :: "nat \<Rightarrow> u32 \<Rightarrow> u32 \<Rightarrow> want_map \<Rightarrow> (pst, want_map) lact" where
  "chain_walk 0 prev cur want = (\<lambda>s. None)"
| "chain_walk (Suc fuel) prev cur want =
    (if cur \<noteq> 0 then
       let want' = bm_insert cur (Overflow2, prev) want in
       bindL (runL (read_page cur)) (\<lambda>pg.
       bindL (runL (liftA (be_u32 pg 0))) (\<lambda>nxt. chain_walk fuel cur nxt want'))
     else runL (retA want))"

definition record_overflow_chain :: "nat \<Rightarrow> u32 \<Rightarrow> u32 \<Rightarrow> want_map \<Rightarrow> (pst, want_map) lact" where
  "record_overflow_chain fuel first holder want =
    (if first = 0 then runL (retA want)
     else
       let want' = bm_insert first (Overflow1, holder) want in
       bindL (runL (read_page first)) (\<lambda>pg.
       bindL (runL (liftA (be_u32 pg 0))) (\<lambda>cur. chain_walk fuel first cur want')))"

definition table_cell_chain :: "nat \<Rightarrow> nat \<Rightarrow> u32 \<Rightarrow> btree_page \<Rightarrow> nat \<Rightarrow> want_map \<Rightarrow> (pst, want_map) lact" where
  "table_cell_chain fuel usable pg bt i want =
    bindL (runL (liftA (table_leaf_cell bt i usable))) (\<lambda>cell.
    record_overflow_chain fuel (overflow (cell_payload cell)) pg want)"

definition index_cell_chain :: "nat \<Rightarrow> nat \<Rightarrow> u32 \<Rightarrow> btree_page \<Rightarrow> nat \<Rightarrow> want_map \<Rightarrow> (pst, want_map) lact" where
  "index_cell_chain fuel usable pg bt i want =
    bindL (runL (liftA (index_cell bt i usable))) (\<lambda>cell.
    record_overflow_chain fuel (overflow (index_payload cell)) pg want)"

text \<open>One child of an interior page: its entry and its place on the stack.\<close>

definition note_child :: "u32 \<Rightarrow> btree_page \<Rightarrow> nat \<Rightarrow> want_map \<times> u32 list \<Rightarrow> (pst, want_map \<times> u32 list) lact" where
  "note_child pg bt i = (\<lambda>(want, stack).
    bindL (runL (liftA (child_pointer bt i))) (\<lambda>child.
    runL (retA (bm_insert child (Btree, pg) want, child # stack))))"

definition note_right :: "u32 \<Rightarrow> btree_page \<Rightarrow> want_map \<times> u32 list \<Rightarrow> want_map \<times> u32 list" where
  "note_right pg bt = (\<lambda>(want, stack).
    (bm_insert (right_pointer bt) (Btree, pg) want, right_pointer bt # stack))"

primrec walk_btree :: "nat \<Rightarrow> nat \<Rightarrow> u32 list \<Rightarrow> want_map \<Rightarrow> (pst, want_map) lact" where
  "walk_btree 0 usable stack want = (\<lambda>s. None)"
| "walk_btree (Suc fuel) usable stack want =
    (case stack of
       [] \<Rightarrow> runL (retA want)
     | pg # rest \<Rightarrow>
         bindL (runL (load_bt pg)) (\<lambda>bt.
         case bt_type bt of
           LeafTable \<Rightarrow>
             bindL (foldL (table_cell_chain fuel usable pg bt) [0..<num_cells bt] want) (\<lambda>want'.
             walk_btree fuel usable rest want')
         | LeafIndex \<Rightarrow>
             bindL (foldL (index_cell_chain fuel usable pg bt) [0..<num_cells bt] want) (\<lambda>want'.
             walk_btree fuel usable rest want')
         | InteriorTable \<Rightarrow>
             bindL (foldL (note_child pg bt) [0..<num_cells bt] (want, rest)) (\<lambda>ws.
             let (want', stack') = note_right pg bt ws in walk_btree fuel usable stack' want')
         | InteriorIndex \<Rightarrow>
             bindL (foldL (\<lambda>i (want, stack).
                 bindL (index_cell_chain fuel usable pg bt i want) (\<lambda>want'. note_child pg bt i (want', stack)))
               [0..<num_cells bt] (want, rest)) (\<lambda>ws.
             let (want', stack') = note_right pg bt ws in walk_btree fuel usable stack' want')))"

definition walk_btree_ptrmap :: "nat \<Rightarrow> u32 \<Rightarrow> want_map \<Rightarrow> (pst, want_map) lact" where
  "walk_btree_ptrmap fuel root want =
    bindL (runL wp_usable) (\<lambda>usable. walk_btree fuel usable [root] want)"

text \<open>The free list: its own guard bounds the trunks, so no fuel is needed.\<close>

fun leaf_entries :: "bytes \<Rightarrow> nat \<Rightarrow> nat \<Rightarrow> want_map \<Rightarrow> want_map res" where
  "leaf_entries tb i 0 want = Ok want"
| "leaf_entries tb i (Suc k) want =
    bindR (be_u32 tb (8 + 4 * i)) (\<lambda>leaf. leaf_entries tb (i + 1) k (bm_insert leaf (FreePage, 0) want))"

fun freelist_walk :: "nat \<Rightarrow> u32 \<Rightarrow> want_map \<Rightarrow> (pst, want_map) act" where
  "freelist_walk left trunk want =
    (if trunk = 0 then retA want
     else case left of
       0 \<Rightarrow> liftA (Err (Corrupt ''freelist trunk cycle''))
     | Suc k \<Rightarrow>
         let want1 = bm_insert trunk (FreePage, 0) want in
         bindA (read_page trunk) (\<lambda>tb.
         bindA (liftA (be_u32 tb 0)) (\<lambda>nxt.
         bindA (liftA (be_u32 tb 4)) (\<lambda>leaf_count.
         bindA (liftA (leaf_entries tb 0 (unat leaf_count) want1)) (\<lambda>want2.
         freelist_walk k nxt want2)))))"

text \<open>\<open>freelist_count + 8\<close> is checked \<open>u32\<close> addition.\<close>

definition walk_freelist_ptrmap :: "want_map \<Rightarrow> (pst, want_map) act" where
  "walk_freelist_ptrmap want =
    bindA getA (\<lambda>(w, p).
    let cap = unat (freelist_count (wp_header p)) + 8 in
    if 2 ^ 32 \<le> cap then liftA Panic
    else freelist_walk cap (freelist_trunk (wp_header p)) want)"

definition root_entries :: "u32 list \<Rightarrow> want_map" where
  "root_entries rs = fold (\<lambda>r want. if 2 \<le> r then bm_insert r (RootPage, 0) want else want) rs []"

definition compute_want :: "nat \<Rightarrow> (pst, want_map \<times> u32) lact" where
  "compute_want fuel =
    bindL (schema_roots fuel) (\<lambda>rs.
    bindL (foldL (\<lambda>root want. walk_btree_ptrmap fuel root want) (1 # rs) (root_entries rs)) (\<lambda>want.
    bindL (runL (walk_freelist_ptrmap want)) (\<lambda>want'.
    runL (retA (want', fold max rs 1)))))"

section \<open>Rebuilding the pointer map\<close>

fun group_by_map :: "nat \<Rightarrow> (u32 \<times> ptrmap_type \<times> u32) list \<Rightarrow>
    (u32, (u32 \<times> ptrmap_type \<times> u32) list) btree_map \<Rightarrow> (u32, (u32 \<times> ptrmap_type \<times> u32) list) btree_map res" where
  "group_by_map usable [] m = Ok m"
| "group_by_map usable (e # es) m =
    bindR (ptrmap_pageno usable (unat (fst e))) (\<lambda>mp.
    let k = of_nat mp; old = (case bm_get m k of Some l \<Rightarrow> l | None \<Rightarrow> []) in
    group_by_map usable es (bm_insert k (old @ [e]) m))"

fun put_entries :: "nat \<Rightarrow> (u32 \<times> ptrmap_type \<times> u32) list \<Rightarrow> bytes \<Rightarrow> bytes res" where
  "put_entries usable [] pg = Ok pg"
| "put_entries usable ((pgno, kind, parent) # es) pg =
    bindR (ptrmap_entry_offset usable (unat pgno)) (\<lambda>off.
    bindR (put_slice pg off (encode_entry kind parent)) (\<lambda>pg'. put_entries usable es pg'))"

definition write_map_page :: "nat \<Rightarrow> u32 \<times> (u32 \<times> ptrmap_type \<times> u32) list \<Rightarrow> (pst, unit) act" where
  "write_map_page usable = (\<lambda>(map_pg, es).
    bindA getA (\<lambda>(w, p).
    bindA (if has_page map_pg w p then read_page map_pg else retA (replicate (wp_page_size p) 0)) (\<lambda>pg.
    bindA (liftA (put_entries usable es pg)) (\<lambda>pg'. stage map_pg pg'))))"

definition rebuild_ptrmap :: "nat \<Rightarrow> (pst, unit) lact" where
  "rebuild_ptrmap fuel =
    bindL (runL wp_usable) (\<lambda>usable.
    bindL (compute_want fuel) (\<lambda>(want, max_root).
    bindL (runL (modP (\<lambda>p. p\<lparr>wp_header := (wp_header p)\<lparr>largest_root_page := max_root\<rparr>\<rparr>))) (\<lambda>_.
    bindL (runL (liftA (group_by_map usable want []))) (\<lambda>by_map.
    runL (foldA (write_map_page usable) by_map)))))"

section \<open>Relocation\<close>

fun find_child :: "btree_page \<Rightarrow> u32 \<Rightarrow> nat \<Rightarrow> nat \<Rightarrow> nat option res" where
  "find_child bt old i 0 = Ok None"
| "find_child bt old i (Suc k) =
    bindR (child_pointer bt i) (\<lambda>c.
    if c = old then bindR (child_pointer_offset bt i) (\<lambda>off. Ok (Some off))
    else find_child bt old (i + 1) k)"

fun find_chain_head :: "btree_page \<Rightarrow> nat \<Rightarrow> bytes \<Rightarrow> u32 \<Rightarrow> nat \<Rightarrow> nat \<Rightarrow> nat option res" where
  "find_chain_head bt usable bs old i 0 = Ok None"
| "find_chain_head bt usable bs old i (Suc k) =
    bindR (cell_overflow_offset bt i usable) (\<lambda>ov.
    case ov of
      None \<Rightarrow> find_chain_head bt usable bs old (i + 1) k
    | Some off \<Rightarrow> bindR (be_u32 bs off) (\<lambda>v.
        if v = old then Ok (Some off) else find_chain_head bt usable bs old (i + 1) k))"

definition repoint :: "u32 \<Rightarrow> u32 \<Rightarrow> string \<Rightarrow> bytes \<Rightarrow> nat option \<Rightarrow> (pst, unit) act" where
  "repoint holder new msg bs where_opt =
    (case where_opt of
       None \<Rightarrow> liftA (Err (Corrupt msg))
     | Some off \<Rightarrow> bindA (liftA (put_slice bs off (to_be32 new))) (\<lambda>bs'. stage holder bs'))"

definition fix_reference :: "ptrmap_type \<Rightarrow> u32 \<Rightarrow> u32 \<Rightarrow> u32 \<Rightarrow> nat \<Rightarrow> (pst, unit) act" where
  "fix_reference kind holder old new usable =
    (case kind of
       Btree \<Rightarrow>
         bindA (read_page holder) (\<lambda>bs.
         bindA (liftA (btree_page_parse (page_from_bytes holder bs))) (\<lambda>bt.
         bindA (liftA (find_child bt old 0 (num_cells bt + 1))) (\<lambda>loc.
         repoint holder new ''relocate: child pointer not found'' bs loc)))
     | Overflow1 \<Rightarrow>
         bindA (read_page holder) (\<lambda>bs.
         bindA (liftA (btree_page_parse (page_from_bytes holder bs))) (\<lambda>bt.
         bindA (liftA (find_chain_head bt usable bs old 0 (num_cells bt))) (\<lambda>loc.
         repoint holder new ''relocate: overflow holder not found'' bs loc)))
     | Overflow2 \<Rightarrow>
         bindA (read_page holder) (\<lambda>bs.
         bindA (liftA (be_u32 bs 0)) (\<lambda>v.
         repoint holder new ''relocate: overflow link mismatch'' bs (if v = old then Some 0 else None)))
     | _ \<Rightarrow> liftA (Err (Corrupt ''relocate: unexpected page kind'')))"

definition drop_staged :: "u32 \<Rightarrow> (pst, unit) act" where
  "drop_staged n = modP (\<lambda>p. p\<lparr>wp_overlay := bm_remove n (wp_overlay p)\<rparr>)"

type_synonym page_set = "(u32, unit) btree_map"

definition is_lock_page :: "u32 \<Rightarrow> write_pager \<Rightarrow> bool" where
  "is_lock_page n p \<longleftrightarrow> 1 < lock_page p \<and> unat n = lock_page p"

text \<open>The loop \<open>while last > 1\<close>; the result is the new last page and the pages still free.\<close>

fun relocate :: "nat \<Rightarrow> want_map \<Rightarrow> nat \<Rightarrow> nat \<Rightarrow> nat \<Rightarrow> page_set \<Rightarrow> (u32, u32) btree_map \<Rightarrow> (pst, nat \<times> page_set) act" where
  "relocate usable want limit start 0 free moved = retA (0, free)"
| "relocate usable want limit start (Suc m) free moved =
    (let last = Suc m; lastw = of_nat last :: u32 in
     if last \<le> 1 \<or> limit \<noteq> 0 \<and> limit \<le> start - last then retA (last, free)
     else if is_ptrmap_page usable last then
       bindA (drop_staged lastw) (\<lambda>_. relocate usable want limit start m free moved)
     else bindA getA (\<lambda>(w, p).
       if is_lock_page lastw p then retA (last, free)
       else if bm_contains free lastw then
         bindA (drop_staged lastw) (\<lambda>_. relocate usable want limit start m (bm_remove lastw free) moved)
       else case find (\<lambda>f. f < lastw \<and> \<not> is_ptrmap_page usable (unat f) \<and> \<not> is_lock_page f p) (bm_keys free) of
         None \<Rightarrow> retA (last, free)
       | Some dest \<Rightarrow>
           (case bm_get want lastw of
              None \<Rightarrow> liftA (Err (Corrupt ''relocate: page not in ptrmap''))
            | Some (kind, parent) \<Rightarrow>
                if kind = RootPage then retA (last, free)
                else
                  bindA (read_page lastw) (\<lambda>contents.
                  bindA (stage dest contents) (\<lambda>_.
                  bindA (drop_staged lastw) (\<lambda>_.
                  let free' = bm_remove dest free; moved' = bm_insert lastw dest moved;
                      holder = (case bm_get moved' parent of Some h \<Rightarrow> h | None \<Rightarrow> parent) in
                  bindA (fix_reference kind holder lastw dest usable) (\<lambda>_.
                  relocate usable want limit start m free' moved')))))))"

definition autovacuum_truncate :: "nat \<Rightarrow> nat \<Rightarrow> (pst, unit) lact" where
  "autovacuum_truncate fuel limit =
    bindL (runL wp_usable) (\<lambda>usable.
    bindL (compute_want fuel) (\<lambda>(want, _).
    bindL (runL (walk_freelist_ptrmap [])) (\<lambda>probe.
    let free = map (\<lambda>(pg, _). (pg, ())) (filter (\<lambda>(_, kind, _). kind = FreePage) probe) in
    if free = [] then runL (retA ())
    else runL (
      bindA (modP (\<lambda>p. p\<lparr>wp_header := (wp_header p)\<lparr>freelist_trunk := 0, freelist_count := 0\<rparr>\<rparr>)) (\<lambda>_.
      bindA getA (\<lambda>(w, p). let start = unat (wp_page_count p) in
      bindA (relocate usable want limit start start free []) (\<lambda>(last, free').
      let lastw = of_nat last :: u32 in
      bindA (foldA free_page (filter (\<lambda>pg. pg \<le> lastw) (bm_keys free'))) (\<lambda>_.
      modP (\<lambda>p. p\<lparr>wp_page_count := lastw,
        wp_overlay := filter (\<lambda>(k, _). k \<le> lastw) (wp_overlay p)\<rparr>))))))))) "

definition auto_vacuum_mode :: "write_pager \<Rightarrow> auto_vacuum" where
  "auto_vacuum_mode p =
    (if largest_root_page (wp_header p) = 0 then AvNone
     else if incremental_vacuum (wp_header p) \<noteq> 0 then AvIncremental
     else AvFull)"

text \<open>A failed relocation puts the staged state back.\<close>

definition restore_staged :: "write_pager \<Rightarrow> write_pager \<Rightarrow> write_pager" where
  "restore_staged saved p =
    p\<lparr>wp_overlay := wp_overlay saved, wp_header := wp_header saved, wp_page_count := wp_page_count saved\<rparr>"

definition maybe_autovacuum_truncate :: "nat \<Rightarrow> (pst, unit) lact" where
  "maybe_autovacuum_truncate fuel = (\<lambda>(w, p).
    if auto_vacuum_mode p \<noteq> AvFull then Some (Ok (), (w, p))
    else case autovacuum_truncate fuel 0 (w, p) of
      None \<Rightarrow> None
    | Some (Err e, (w', p')) \<Rightarrow> Some (Ok (), (w', restore_staged p p'))
    | Some (r, s') \<Rightarrow> Some (r, s'))"

definition incremental_vacuum_pages :: "nat \<Rightarrow> i64 \<Rightarrow> (pst, u32) lact" where
  "incremental_vacuum_pages fuel n = (\<lambda>(w, p).
    if auto_vacuum_mode p \<noteq> AvIncremental then Some (Ok 0, (w, p))
    else
      let limit = (if sint n \<le> 0 then 0 else min (nat (sint n)) (2 ^ 32 - 1)) in
      case autovacuum_truncate fuel limit (w, p) of
        None \<Rightarrow> None
      | Some (Err e, (w', p')) \<Rightarrow> Some (Ok 0, (w', restore_staged p p'))
      | Some (Panic, s') \<Rightarrow> Some (Panic, s')
      | Some (Ok _, (w', p')) \<Rightarrow>
          if wp_page_count p < wp_page_count p' then Some (Panic, (w', p'))
          else Some (Ok (wp_page_count p - wp_page_count p'), (w', p')))"

fun vacuum_fields :: "auto_vacuum \<Rightarrow> u32 \<times> u32" where
  "vacuum_fields AvNone = (0, 0)"
| "vacuum_fields AvFull = (1, 0)"
| "vacuum_fields AvIncremental = (1, 1)"

definition set_auto_vacuum_if_empty :: "auto_vacuum \<Rightarrow> (pst, bool) act" where
  "set_auto_vacuum_if_empty mode =
    bindA getA (\<lambda>(w, p).
    if wp_page_count p \<noteq> 1 then retA False
    else bindA (load_bt 1) (\<lambda>bt.
      if bt_type bt \<noteq> LeafTable \<or> num_cells bt \<noteq> 0 then retA False
      else let (lrp, inc) = vacuum_fields mode in
        bindA (header_mut (\<lambda>h. h\<lparr>largest_root_page := lrp, incremental_vacuum := inc\<rparr>)) (\<lambda>_. retA True)))"

end
