(* ===== verification/PagerCommit.thy ===== *)
theory PagerCommit
  imports AutoVacuum
begin

text \<open>
  Committing (\<open>src/pager/write.rs\<close>): the journaled commit, the commit to the write-ahead log, the
  checkpoint modes, switching to WAL mode and replacing the whole image. The native byte order of
  the build is an argument where the code reads \<open>NATIVE_BIG_ENDIAN\<close>. The files are in memory, where
  a write fails only past offset \<open>2 ^ 64\<close>.
\<close>

section \<open>Stamping page 1\<close>

definition bump_header :: "write_pager \<Rightarrow> write_pager" where
  "bump_header p =
    (let cc = change_counter (wp_header p) + 1 in
     p\<lparr>wp_header := (wp_header p)\<lparr>change_counter := cc, size_in_pages := wp_page_count p, version_valid_for := cc\<rparr>\<rparr>)"

definition stamp_page1 :: "(pst, unit) act" where
  "stamp_page1 =
    bindA (modP bump_header) (\<lambda>_.
    bindA (read_page 1) (\<lambda>page1.
    bindA getA (\<lambda>(w, p).
    bindA (liftA (header_write_to (wp_header p) page1)) (\<lambda>page1'. stage 1 page1'))))"

definition prepare_auto_vacuum :: "nat \<Rightarrow> (pst, unit) lact" where
  "prepare_auto_vacuum fuel = (\<lambda>(w, p).
    if auto_vacuum_on p then bindL (maybe_autovacuum_truncate fuel) (\<lambda>_. rebuild_ptrmap fuel) (w, p)
    else runL (retA ()) (w, p))"

section \<open>The journaled commit\<close>

definition exec_main :: "disk_op \<Rightarrow> (pst, unit) act" where
  "exec_main op = (\<lambda>(w, p).
    case exec_op op \<lparr>d_file = w_main w, d_journal = w_journal w\<rparr> of
      Ok d \<Rightarrow> (Ok (), (w\<lparr>w_main := d_file d, w_journal := d_journal d\<rparr>, p))
    | Err e \<Rightarrow> (Err e, (w, p))
    | Panic \<Rightarrow> (Panic, (w, p)))"

definition journal_step :: "(pst, unit) act" where
  "journal_step =
    bindA getA (\<lambda>(w, p).
    if wp_journal p then
      bindA (liftA (journal_originals (w_main w) (wp_page_size p) (wp_disk_pages p) (wp_overlay p))) (\<lambda>originals.
      foldA exec_main (write_journal_ops (change_counter (wp_header p)) (wp_disk_pages p) (wp_page_size p) originals))
    else retA ())"

text \<open>Without a journal file the last two operations of \<open>flush_ops\<close> are left out.\<close>

definition flush_step :: "(pst, unit) act" where
  "flush_step =
    bindA getA (\<lambda>(w, p).
    let ops = flush_ops (wp_page_size p) (wp_page_count p) (wp_overlay p) in
    foldA exec_main (if wp_journal p then ops else filter (\<lambda>op. op \<noteq> JTrunc 0 \<and> op \<noteq> JSync) ops))"

definition settle_commit :: "write_pager \<Rightarrow> write_pager" where
  "settle_commit p =
    p\<lparr>wp_disk_pages := wp_page_count p, wp_committed_header := wp_header p, wp_overlay := [],
      wp_read_cache := cache_clear (wp_read_cache p), wp_savepoints := []\<rparr>"

text \<open>\<open>commit\<close> from the stamping of page 1 on; the exclusive lock and auto-vacuum come before, in \<open>commit\<close>.\<close>

definition commit_journaled :: "(pst, unit) act" where
  "commit_journaled =
    bindA stamp_page1 (\<lambda>_.
    bindA journal_step (\<lambda>_.
    bindA flush_step (\<lambda>_.
    bindA (modP settle_commit) (\<lambda>_. release_locks))))"

section \<open>The commit to the log\<close>

text \<open>Where the next frame goes: offset, checksum, salts and byte order; writes the header of an empty log.\<close>

definition log_position :: "bool \<Rightarrow> (pst, nat \<times> (u32 \<times> u32) \<times> bytes \<times> bool) act" where
  "log_position native_be =
    bindA getA (\<lambda>(w, p).
    let ix = w_index w in
    case writer_state ix of
      Some (off, ck, salt, _) \<Rightarrow> retA (off, ck, salt, ix_big_end_cksum ix)
    | None \<Rightarrow>
        let own = (case wp_wal p of Some rt \<Rightarrow> rt_salt rt | None \<Rightarrow> replicate 8 0);
            salt = (if ix_salt ix = replicate 8 0 then own else ix_salt ix);
            (hdr, h) = wal_header native_be (wp_page_size p) (ix_ckpt_seq ix) salt in
        bindA (liftA (write_all_at (w_wal w) hdr 0)) (\<lambda>wal.
        bindA (modW (\<lambda>w. w\<lparr>w_wal := wal\<rparr>)) (\<lambda>_.
        retA (WAL_HEADER_LEN, h, salt, native_be))))"

text \<open>The log part of \<open>commit_wal\<close>; auto-vacuum and the stamping of page 1 come before, in \<open>commit_wal\<close> and \<open>commit_to_log\<close>.\<close>

definition append_frames :: "bool \<Rightarrow> (pst, unit) act" where
  "append_frames native_be =
    bindA (modW (\<lambda>w. w\<lparr>w_index := maybe_restart native_be (w_index w)\<rparr>)) (\<lambda>_.
    bindA (log_position native_be) (\<lambda>(off, ck, salt, big_end).
    bindA getA (\<lambda>(w, p).
    bindA (liftA (commit_frames big_end salt (wp_page_size p) (wp_page_count p) (wp_overlay p) off ck (w_wal w))) (\<lambda>(wal, app).
    modA (\<lambda>(w, p).
      let ix = publish salt (of_nat (wp_page_size p)) app (w_index w);
          rt = map_option (\<lambda>rt. rt\<lparr>rt_salt := salt, rt_snapshot := index_snapshot ix, rt_db_size := wp_page_count p\<rparr>) (wp_wal p)
      in (w\<lparr>w_wal := wal, w_index := ix\<rparr>, p\<lparr>wp_wal := rt\<rparr>))))))"

definition commit_to_log :: "bool \<Rightarrow> (pst, unit) act" where
  "commit_to_log native_be =
    bindA stamp_page1 (\<lambda>_.
    bindA (append_frames native_be) (\<lambda>_.
    bindA (modP (\<lambda>p. p\<lparr>wp_committed_header := wp_header p, wp_overlay := [], wp_savepoints := []\<rparr>)) (\<lambda>_.
    release_locks)))"

definition commit_wal :: "bool \<Rightarrow> nat \<Rightarrow> (pst, unit) lact" where
  "commit_wal native_be fuel =
    bindL (prepare_auto_vacuum fuel) (\<lambda>_. runL (commit_to_log native_be))"

definition commit :: "bool \<Rightarrow> nat \<Rightarrow> (pst, unit) lact" where
  "commit native_be fuel = (\<lambda>(w, p).
    (if wp_overlay p = [] then runL release_locks
     else if wp_wal p \<noteq> None then commit_wal native_be fuel
     else bindL (runL acquire_exclusive) (\<lambda>_.
       bindL (prepare_auto_vacuum fuel) (\<lambda>_. runL commit_journaled))) (w, p))"

section \<open>Checkpoints\<close>

definition mode_from_name :: "string \<Rightarrow> checkpoint_mode" where
  "mode_from_name name =
    (if eq_ignore_ascii_case name ''full'' then Full
     else if eq_ignore_ascii_case name ''restart'' then Restart
     else if eq_ignore_ascii_case name ''truncate'' then Truncate
     else Passive)"

definition checkpoint_locked :: "bool \<Rightarrow> checkpoint_mode \<Rightarrow> (pst, bool \<times> u32 \<times> u32) act" where
  "checkpoint_locked native_be mode =
    bindA getA (\<lambda>(w0, p0).
    let mx = ix_mx_frame (w_index w0); full = full_db_size (w_index w0) in
    bindA (liftA (backfill (wp_page_size p0) (w_main w0) (w_index w0))) (\<lambda>(main, ix, copied_any, whole).
    let (ix', busy, trunc) = finish_checkpoint native_be mode mx ix in
    bindA (modA (\<lambda>(w, p).
      (w\<lparr>w_main := main, w_index := ix',
         w_wal := (if trunc \<and> wp_wal_file p then file_truncate (w_wal w) 0 else w_wal w)\<rparr>,
       p\<lparr>wp_disk_pages := (if whole then full else wp_disk_pages p),
         wp_read_cache := (if copied_any then cache_clear (wp_read_cache p) else wp_read_cache p),
         wp_wal := map_option (\<lambda>rt.
           let rt1 = (if rt_registered rt = None
                      then rt\<lparr>rt_snapshot := index_snapshot ix', rt_db_size := (if full \<noteq> 0 then full else rt_db_size rt)\<rparr>
                      else rt)
           in if ix_salt ix' \<noteq> replicate 8 0 then rt1\<lparr>rt_salt := ix_salt ix'\<rparr> else rt1) (wp_wal p)\<rparr>))) (\<lambda>_.
    retA (busy, ix_mx_frame ix', ix_n_backfill ix'))))"

text \<open>The mode that runs: any mode but \<open>Passive\<close> wants the writer lock, and is \<open>Passive\<close> when it is busy.\<close>

definition writer_lock_for :: "checkpoint_mode \<Rightarrow> (pst, checkpoint_mode \<times> bool) act" where
  "writer_lock_for mode =
    bindA getA (\<lambda>(w, p).
    if mode \<noteq> Passive \<and> wp_held p < Reserved then
      tryA (lock_main Reserved) (\<lambda>r. case r of
          Ok _ \<Rightarrow> bindA (set_held Reserved) (\<lambda>_. retA (mode, True))
        | Err e \<Rightarrow> if e = Busy then retA (Passive, False) else liftA (Err e)
        | Panic \<Rightarrow> liftA Panic)
    else retA (mode, False))"

definition checkpoint_mode_run :: "bool \<Rightarrow> checkpoint_mode \<Rightarrow> (pst, int \<times> int \<times> int) act" where
  "checkpoint_mode_run native_be mode =
    bindA getA (\<lambda>(w0, p0).
    if wp_wal p0 = None then retA (0, -1, -1)
    else
      bindA (writer_lock_for mode) (\<lambda>(mode2, took).
      tryA (checkpoint_locked native_be mode2) (\<lambda>r.
      bindA (if took then bindA (unlock_main (wp_held p0)) (\<lambda>_. set_held (wp_held p0)) else retA ()) (\<lambda>_.
      bindA (liftA r) (\<lambda>(busy, log, ckpt).
      retA (if busy \<or> mode2 \<noteq> mode then 1 else 0, uint log, uint ckpt))))))"

definition checkpoint :: "bool \<Rightarrow> (pst, unit) act" where
  "checkpoint native_be = bindA (checkpoint_mode_run native_be Truncate) (\<lambda>_. retA ())"

section \<open>Mode switch and image replacement\<close>

definition fresh_salt :: "u32 \<Rightarrow> bytes" where
  "fresh_salt n = to_be64 (ucast n * 0x9E3779B9)"

definition attach_empty_log :: "bool \<Rightarrow> bytes \<Rightarrow> u32 \<Rightarrow> (pst, unit) act" where
  "attach_empty_log native_be salt pages = modA (\<lambda>(w, p).
    let ix = index_reset native_be salt (w_index w) in
    (w\<lparr>w_wal := (if wp_wal_file p then file_truncate (w_wal w) 0 else w_wal w), w_index := ix\<rparr>,
     p\<lparr>wp_wal := Some \<lparr>rt_snapshot = index_snapshot ix, rt_registered = None, rt_db_size = pages, rt_salt = salt\<rparr>\<rparr>))"

definition stamp_wal_version :: "(pst, unit) act" where
  "stamp_wal_version =
    bindA (modP (\<lambda>p. p\<lparr>wp_header := (wp_header p)\<lparr>read_version := 2, write_version := 2\<rparr>\<rparr>)) (\<lambda>_.
    bindA (read_page 1) (\<lambda>page1.
    bindA getA (\<lambda>(w, p).
    bindA (liftA (header_write_to (wp_header p) page1)) (\<lambda>page1'. stage 1 page1'))))"

definition set_wal_mode :: "bool \<Rightarrow> nat \<Rightarrow> (pst, bool) lact" where
  "set_wal_mode native_be fuel = (\<lambda>(w, p).
    (if wp_wal p \<noteq> None then runL (retA True)
     else if \<not> wp_wal_file p then runL (retA False)
     else
       bindL (if read_version (wp_header p) \<noteq> 2 \<or> write_version (wp_header p) \<noteq> 2
              then bindL (runL stamp_wal_version) (\<lambda>_. commit native_be fuel) else runL (retA ())) (\<lambda>_.
       runL (bindA getA (\<lambda>(w, p).
         bindA (attach_empty_log native_be (fresh_salt (change_counter (wp_header p))) (wp_page_count p)) (\<lambda>_.
         retA True))))) (w, p))"

fun write_image :: "nat \<Rightarrow> nat \<Rightarrow> bytes list \<Rightarrow> (pst, unit) act" where
  "write_image psize i [] = retA ()"
| "write_image psize i (b # bs) = bindA (exec_main (FWrite b (i * psize))) (\<lambda>_. write_image psize (i + 1) bs)"

definition replace_image :: "bool \<Rightarrow> bytes list \<Rightarrow> (pst, unit) act" where
  "replace_image native_be img =
    bindA getA (\<lambda>(w, p).
    if img = [] \<or> length (hd img) \<noteq> wp_page_size p then liftA (Err (Error ''invalid VACUUM image''))
    else let ps = wp_page_size p; cnt = of_nat (length img) :: u32 in
      bindA (write_image ps 0 img) (\<lambda>_.
      bindA (foldA exec_main [FTrunc (length img * ps), FSync]) (\<lambda>_.
      bindA (liftA (header_parse (hd img))) (\<lambda>hdr.
      bindA (modP (\<lambda>p. p\<lparr>wp_header := hdr, wp_disk_pages := cnt, wp_page_count := cnt, wp_overlay := [],
          wp_read_cache := cache_clear (wp_read_cache p)\<rparr>)) (\<lambda>_.
      bindA (if wp_wal p \<noteq> None then
               bindA (modP (\<lambda>p. p\<lparr>wp_header := (wp_header p)\<lparr>read_version := 2, write_version := 2\<rparr>\<rparr>)) (\<lambda>_.
               attach_empty_log native_be (fresh_salt cnt) cnt)
             else retA ()) (\<lambda>_.
      modP (\<lambda>p. p\<lparr>wp_committed_header := wp_header p\<rparr>)))))))"

end
