(* ===== verification/PagerOpen.thy ===== *)
theory PagerOpen
  imports PagerCommit
begin

text \<open>
  Opening and creating a database (\<open>src/pager/write.rs\<close>): hot-journal recovery under its locks,
  attaching to the write-ahead log, \<open>open_wal\<close> and the creation of an empty database.
\<close>

section \<open>Hot journals\<close>

definition lock_handle :: "nat \<Rightarrow> lock_level \<Rightarrow> (world, unit) act" where
  "lock_handle h level = (\<lambda>w. case file_lock (w_locks w) h level of
     Ok l \<Rightarrow> (Ok (), w\<lparr>w_locks := l\<rparr>)
   | Err e \<Rightarrow> (Err e, w)
   | Panic \<Rightarrow> (Panic, w))"

definition unlock_handle :: "nat \<Rightarrow> lock_level \<Rightarrow> (world, unit) act" where
  "unlock_handle h level = (\<lambda>w. case file_unlock (w_locks w) h level of
     Ok l \<Rightarrow> (Ok (), w\<lparr>w_locks := l\<rparr>)
   | Err e \<Rightarrow> (Ok (), w)
   | Panic \<Rightarrow> (Panic, w))"

definition play_journal :: "(world, unit) act" where
  "play_journal = (\<lambda>w. case recover \<lparr>d_file = w_main w, d_journal = w_journal w\<rparr> of
     Ok d \<Rightarrow> (Ok (), w\<lparr>w_main := d_file d, w_journal := d_journal d\<rparr>)
   | Err e \<Rightarrow> (Err e, w)
   | Panic \<Rightarrow> (Panic, w))"

definition recover_hot_journal_locked :: "nat \<Rightarrow> (world, unit) act" where
  "recover_hot_journal_locked h =
    bindA getA (\<lambda>w.
    if check_reserved_lock (w_locks w) then retA ()
    else if file_size (w_main w) = 0 then
      tryA (lock_handle h Reserved) (\<lambda>r.
        if is_ok r then modA (\<lambda>w. w\<lparr>w_journal := file_truncate (w_journal w) 0\<rparr>) else retA ())
    else
      bindA (liftA (read_exact_at (w_journal w) 1 0)) (\<lambda>b.
      bindA (liftA (idx b 0)) (\<lambda>b0.
      if b0 = 0 then retA ()
      else bindA (lock_handle h Exclusive) (\<lambda>_. play_journal))))"

definition recover_hot_journal :: "nat \<Rightarrow> (world, unit) act" where
  "recover_hot_journal h =
    bindA getA (\<lambda>w.
    if file_size (w_journal w) = 0 then retA ()
    else
      bindA (lock_handle h Shared) (\<lambda>_.
      tryA (recover_hot_journal_locked h) (\<lambda>r.
      bindA (unlock_handle h Unlocked) (\<lambda>_. liftA r))))"

section \<open>Attaching to the log\<close>

definition attach_from_index_only :: "wal_index \<Rightarrow> wal_runtime option" where
  "attach_from_index_only ix =
    (let snap = index_snapshot ix;
         db = (case snapshot_db_size ix (sn_mx_frame snap) of Some n \<Rightarrow> n | None \<Rightarrow> 0);
         salt = (case writer_state ix of Some (_, _, s, _) \<Rightarrow> s | None \<Rightarrow> replicate 8 0) in
     if db = 0 then None
     else Some \<lparr>rt_snapshot = snap, rt_registered = None, rt_db_size = db, rt_salt = salt\<rparr>)"

text \<open>
  The frame loop of \<open>attach_wal\<close>. The accumulators: every valid frame, and length, offset, checksum
  and size as of the last commit frame.
\<close>

record scan_state =
  sc_log :: "log_entry list"
  sc_len :: nat
  sc_off :: nat
  sc_cksum :: "u32 \<times> u32"
  sc_size :: u32

function attach_scan :: "bool \<Rightarrow> bytes \<Rightarrow> nat \<Rightarrow> bytes \<Rightarrow> nat \<Rightarrow> u32 \<Rightarrow> u32 \<Rightarrow> scan_state \<Rightarrow> scan_state res" where
  "attach_scan be salt psize wal off s0 s1 st =
    (if off + (FRAME_HEADER_LEN + psize) \<le> length wal then
       bindR (read_exact_at wal FRAME_HEADER_LEN off) (\<lambda>fhdr.
       bindR (read_exact_at wal psize (off + FRAME_HEADER_LEN)) (\<lambda>pg.
       if take 8 (drop 8 fhdr) \<noteq> salt then Ok st
       else
         let (a0, a1) = wal_checksum be s0 s1 (take 8 fhdr);
             (c0, c1) = wal_checksum be a0 a1 pg in
         bindR (be_u32 fhdr 16) (\<lambda>f0. bindR (be_u32 fhdr 20) (\<lambda>f1.
         if c0 \<noteq> f0 \<or> c1 \<noteq> f1 then Ok st
         else bindR (be_u32 fhdr 0) (\<lambda>page_no. bindR (be_u32 fhdr 4) (\<lambda>cmt.
           let log = sc_log st @ [(page_no, cmt, pg)];
               off' = off + (FRAME_HEADER_LEN + psize);
               st' = (if cmt \<noteq> 0
                      then \<lparr>sc_log = log, sc_len = length log, sc_off = off', sc_cksum = (c0, c1), sc_size = cmt\<rparr>
                      else st\<lparr>sc_log := log\<rparr>) in
           attach_scan be salt psize wal off' c0 c1 st'))))))
     else Ok st)"
  by pat_completeness auto
termination
  by (relation "measure (\<lambda>(be, salt, psize, wal, off, s0, s1, st). length wal - off)")
     (auto simp: FRAME_HEADER_LEN_def)

declare attach_scan.simps [simp del]

definition attach_wal :: "bytes \<Rightarrow> nat \<Rightarrow> wal_index \<Rightarrow> (wal_runtime option \<times> wal_index) res" where
  "attach_wal wal psize ix =
    (let index_only = Ok (attach_from_index_only ix, ix) in
     if length wal < WAL_HEADER_LEN then index_only
     else bindR (read_exact_at wal WAL_HEADER_LEN 0) (\<lambda>hdr.
       bindR (be_u32 hdr 0) (\<lambda>magic.
       if magic AND 0xFFFFFFFE \<noteq> WAL_MAGIC_BE then index_only
       else bindR (be_u32 hdr 8) (\<lambda>ps.
         let big_endian = (magic AND 1 = 1) in
         if unat ps \<noteq> psize then index_only
         else bindR (be_u32 hdr 12) (\<lambda>ckpt_seq.
           let salt = take 8 (drop 16 hdr); (h0, h1) = wal_checksum big_endian 0 0 (take 24 hdr) in
           bindR (be_u32 hdr 24) (\<lambda>f0. bindR (be_u32 hdr 28) (\<lambda>f1.
           if h0 \<noteq> f0 \<or> h1 \<noteq> f1 then index_only
           else bindR (attach_scan big_endian salt psize wal WAL_HEADER_LEN h0 h1
               \<lparr>sc_log = [], sc_len = 0, sc_off = WAL_HEADER_LEN, sc_cksum = (h0, h1), sc_size = 0\<rparr>) (\<lambda>st.
             if sc_len st = 0 then Ok (None, ix)
             else
               let same = (case writer_state ix of
                     Some (off, _, s, p) \<Rightarrow> off = sc_off st \<and> s = salt \<and> p = of_nat psize
                   | None \<Rightarrow> False);
                   ix' = (if same then ix
                          else index_seed (take (sc_len st) (sc_log st)) salt (sc_off st) (sc_cksum st)
                            (of_nat psize) ckpt_seq big_endian ix)
               in Ok (Some \<lparr>rt_snapshot = index_snapshot ix', rt_registered = None,
                            rt_db_size = sc_size st, rt_salt = salt\<rparr>, ix')))))))))"

section \<open>Opening\<close>

definition new_pager :: "nat \<Rightarrow> bool \<Rightarrow> bool \<Rightarrow> database_header \<Rightarrow> nat \<Rightarrow> u32 \<Rightarrow> u32 \<Rightarrow> wal_runtime option \<Rightarrow> write_pager" where
  "new_pager h has_journal has_wal header psize disk_pages cnt wal =
    \<lparr>wp_handle = h, wp_journal = has_journal, wp_wal_file = has_wal, wp_header = header, wp_committed_header = header,
     wp_page_size = psize, wp_disk_pages = disk_pages, wp_page_count = cnt, wp_overlay = [], wp_wal = wal,
     wp_held = Unlocked, wp_read_txn = False, wp_transient_read = False, wp_savepoints = [],
     wp_secure_delete = False, wp_read_cache = cache_new DEFAULT_CACHE_SIZE psize, wp_read_cache_token = None\<rparr>"

text \<open>Page 1 through the log, when the log has it.\<close>

definition header_through_log :: "wal_runtime option \<Rightarrow> wal_index \<Rightarrow> database_header \<Rightarrow> database_header res" where
  "header_through_log wal ix header =
    (case wal of
       None \<Rightarrow> Ok header
     | Some rt \<Rightarrow> (case find_frame ix 1 (sn_mx_frame (rt_snapshot rt)) of
         None \<Rightarrow> Ok header
       | Some p1 \<Rightarrow> header_parse p1))"

definition open_wal :: "nat \<Rightarrow> bool \<Rightarrow> bool \<Rightarrow> (world, write_pager) act" where
  "open_wal h has_journal has_wal =
    bindA (if has_journal then recover_hot_journal h else retA ()) (\<lambda>_.
    bindA getA (\<lambda>w.
    let sz = file_size (w_main w) in
    if sz < HEADER_LEN then liftA (Err (Corrupt ''file too small to be a database''))
    else
      bindA (liftA (read_exact_at (w_main w) HEADER_LEN 0)) (\<lambda>head.
      bindA (liftA (header_parse head)) (\<lambda>header0.
      let psize = unat (page_size header0) in
      if sz mod psize \<noteq> 0 then liftA (Err (Corrupt ''file size not a multiple of page size''))
      else
        let pages = of_nat (sz div psize) :: u32 in
        bindA (liftA (if read_version header0 = 2 \<and> has_wal then attach_wal (w_wal w) psize (w_index w)
                      else Ok (None, w_index w))) (\<lambda>(wal, ix).
        bindA (modA (\<lambda>w. w\<lparr>w_index := ix\<rparr>)) (\<lambda>_.
        bindA (liftA (header_through_log wal ix header0)) (\<lambda>header.
        let cnt = (case wal of Some rt \<Rightarrow> rt_db_size rt | None \<Rightarrow> pages) in
        retA (new_pager h has_journal has_wal header psize pages cnt wal))))))))"

section \<open>Creation\<close>

definition write_empty_leaf_header :: "bytes \<Rightarrow> nat \<Rightarrow> u32 \<Rightarrow> bytes res" where
  "write_empty_leaf_header pg off psize =
    (let ccs = (if psize = 65536 then 0 else ucast psize :: u16) in
     put_slice pg off ([0x0d, 0, 0, 0, 0] @ to_be16 ccs @ [0]))"

definition empty_header :: "u32 \<Rightarrow> auto_vacuum \<Rightarrow> database_header" where
  "empty_header psize mode =
    \<lparr>page_size = psize, write_version = 1, read_version = 1, reserved_space = 0, change_counter = 1,
     size_in_pages = 1, freelist_trunk = 0, freelist_count = 0, schema_cookie = 0, schema_format = 4,
     default_cache_size = 0, largest_root_page = fst (vacuum_fields mode), header_text_encoding = Utf8,
     user_version = 0, incremental_vacuum = snd (vacuum_fields mode), application_id = 0,
     version_valid_for = 1, sqlite_version_number = 3053002\<rparr>"

definition create_auto_vacuum :: "nat \<Rightarrow> bool \<Rightarrow> bool \<Rightarrow> u32 \<Rightarrow> auto_vacuum \<Rightarrow> write_pager res" where
  "create_auto_vacuum h has_journal has_wal psize mode =
    (if psize < 512 \<or> \<not> is_power_of_two psize then Err (Error (''invalid page size '' @ show_nat (unat psize)))
     else
       let header = empty_header psize mode; n = unat psize in
       bindR (header_write_to header (replicate n 0)) (\<lambda>page1.
       bindR (write_empty_leaf_header page1 HEADER_LEN psize) (\<lambda>page1'.
       Ok ((new_pager h has_journal has_wal header n 0 1 None)\<lparr>wp_overlay := [(1, page1')]\<rparr>))))"

definition create_wal :: "nat \<Rightarrow> bool \<Rightarrow> bool \<Rightarrow> u32 \<Rightarrow> write_pager res" where
  "create_wal h has_journal has_wal psize = create_auto_vacuum h has_journal has_wal psize AvNone"

end
