(* ===== verification/WalSystem.thy ===== *)
theory WalSystem
  imports WalIndex
begin

text \<open>
  Commits, checkpoints and readers over one wal-index and one main file. The state is the main file
  and the shared index; every event is the function of the code. The database a connection sees is
  the newest frame of each page up to its mark, and the main file below it. The system refines a
  database of pages that only commits change, and a pinned reader keeps its database.
\<close>

section \<open>What a reader sees\<close>

type_synonym wal_state = "bytes \<times> wal_index"

definition snap_size :: "nat \<Rightarrow> wal_state \<Rightarrow> u32 \<Rightarrow> u32" where
  "snap_size psize = (\<lambda>(main, ix) m.
    case snapshot_db_size ix m of Some n \<Rightarrow> n | None \<Rightarrow> of_nat (length main div psize))"

definition view :: "nat \<Rightarrow> wal_state \<Rightarrow> u32 \<Rightarrow> u32 \<Rightarrow> bytes option" where
  "view psize = (\<lambda>(main, ix) m p.
    if 0 < p \<and> p \<le> snap_size psize (main, ix) m then
      Some (case find_frame ix p m of Some d \<Rightarrow> d | None \<Rightarrow> file_page psize main (unat p))
    else None)"

text \<open>The committed database: the view at the newest frame.\<close>

definition db_size :: "nat \<Rightarrow> wal_state \<Rightarrow> u32" where
  "db_size psize s = snap_size psize s (ix_mx_frame (snd s))"

definition db_view :: "nat \<Rightarrow> wal_state \<Rightarrow> u32 \<Rightarrow> bytes option" where
  "db_view psize s = view psize s (ix_mx_frame (snd s))"

section \<open>Events\<close>

datatype wal_event =
    Commit "(u32 \<times> bytes) list" u32
  | Pin
  | Unpin u32
  | Checkpoint checkpoint_mode

text \<open>
  A commit publishes the dirty pages in page order; pages that the database grows by are among them,
  because the pager stages every page it allocates.
\<close>

inductive wal_step :: "bool \<Rightarrow> nat \<Rightarrow> wal_event \<Rightarrow> wal_state \<Rightarrow> wal_state \<Rightarrow> bool" for native_be psize where
  Commit: "pgs \<noteq> [] \<Longrightarrow> cnt \<noteq> 0 \<Longrightarrow> pages_ok psize pgs \<Longrightarrow> distinct (map fst pgs) \<Longrightarrow>
    length (ix_log ix) + length pgs < 2 ^ 32 \<Longrightarrow>
    (\<And>p. db_size psize (main, ix) < p \<Longrightarrow> p \<le> cnt \<Longrightarrow> p \<in> fst ` set pgs) \<Longrightarrow>
    map (\<lambda>(p, sz, dat, _). (p, sz, dat)) app = commit_entries cnt pgs \<Longrightarrow>
    wal_step native_be psize (Commit pgs cnt) (main, ix) (main, publish salt ps app (maybe_restart native_be ix))"
| Pin: "wal_step native_be psize Pin (main, ix) (main, register_reader (ix_mx_frame ix) ix)"
| Unpin: "wal_step native_be psize (Unpin m) (main, ix) (main, unregister_reader m ix)"
| Checkpoint: "checkpoint_core native_be psize mode s = Ok s' \<Longrightarrow> wal_step native_be psize (Checkpoint mode) s s'"

inductive wal_reachable :: "bool \<Rightarrow> nat \<Rightarrow> wal_state \<Rightarrow> bool" for native_be psize where
  Start: "wal_reachable native_be psize (main, index_new native_be)"
| Step: "wal_reachable native_be psize s \<Longrightarrow> wal_step native_be psize e s s' \<Longrightarrow> wal_reachable native_be psize s'"

text \<open>The specification: a database of pages that only a commit changes.\<close>

fun db_after :: "wal_event \<Rightarrow> u32 \<times> (u32 \<Rightarrow> bytes option) \<Rightarrow> u32 \<times> (u32 \<Rightarrow> bytes option)" where
  "db_after (Commit pgs cnt) (n, D) =
    (cnt, \<lambda>p. if 0 < p \<and> p \<le> cnt then (case map_of pgs p of Some d \<Rightarrow> Some d | None \<Rightarrow> D p) else None)"
| "db_after _ (n, D) = (n, D)"

section \<open>The invariant\<close>

definition boundary :: "index_frame list \<Rightarrow> nat \<Rightarrow> bool" where
  "boundary log k \<longleftrightarrow> k \<le> length log \<and> (k = 0 \<or> if_commit_db_size (log ! (k - 1)) \<noteq> 0)"

definition covered :: "nat \<Rightarrow> wal_state \<Rightarrow> u32 \<Rightarrow> bool" where
  "covered psize = (\<lambda>(main, ix) m. \<forall>p. 0 < p \<and> p \<le> snap_size psize (main, ix) m \<and>
     newest p (take (unat m) (ix_log ix)) = None \<longrightarrow> unat p * psize \<le> length main)"

definition backed :: "nat \<Rightarrow> wal_state \<Rightarrow> bool" where
  "backed psize = (\<lambda>(main, ix). \<forall>p i. newest p (ix_log ix) = Some i \<and> i < unat (ix_n_backfill ix) \<and>
     p \<le> full_db_size ix \<longrightarrow>
     file_page psize main (unat p) = if_data (ix_log ix ! i) \<and> unat p * psize \<le> length main)"

definition wal_inv :: "nat \<Rightarrow> wal_state \<Rightarrow> bool" where
  "wal_inv psize = (\<lambda>(main, ix). index_wf ix \<and>
     (\<forall>f \<in> set (ix_log ix). if_page_no f \<noteq> 0 \<and> length (if_data f) = psize) \<and>
     boundary (ix_log ix) (length (ix_log ix)) \<and>
     (\<forall>m \<in> set (ix_readers ix). boundary (ix_log ix) (unat m) \<and> ix_n_backfill ix \<le> m) \<and>
     (\<forall>m \<in> insert (ix_mx_frame ix) (set (ix_readers ix)). covered psize (main, ix) m) \<and>
     backed psize (main, ix) \<and>
     (ix_log ix \<noteq> [] \<and> ix_n_backfill ix = ix_mx_frame ix \<longrightarrow> length main = unat (full_db_size ix) * psize))"

lemma snapshot_db_size_boundary:
  assumes "boundary (ix_log ix) (unat m)"
  shows "snapshot_db_size ix m = (if m = 0 then None else Some (if_commit_db_size (ix_log ix ! (unat m - 1))))"
proof (cases "m = 0")
  case True
  then show ?thesis by (simp add: snapshot_db_size_def)
next
  case False
  then have m: "0 < unat m" "unat m \<le> length (ix_log ix)" "if_commit_db_size (ix_log ix ! (unat m - 1)) \<noteq> 0"
    using assms by (auto simp: boundary_def unat_gt_0 unat_eq_0)
  then have "take (unat m) (ix_log ix) = take (unat m - 1) (ix_log ix) @ [ix_log ix ! (unat m - 1)]"
    by (metis Suc_diff_1 Suc_le_lessD take_Suc_conv_app_nth)
  then show ?thesis using m False by (simp add: snapshot_db_size_def)
qed

lemma full_db_size_boundary:
  assumes "boundary (ix_log ix) (length (ix_log ix))"
  shows "full_db_size ix = (if ix_log ix = [] then 0 else if_commit_db_size (last (ix_log ix)))"
  using assms by (cases "ix_log ix" rule: rev_cases) (auto simp: full_db_size_def boundary_def)

lemma wal_invD:
  assumes "wal_inv psize (main, ix)"
  shows "index_wf ix" "\<And>f. f \<in> set (ix_log ix) \<Longrightarrow> if_page_no f \<noteq> 0 \<and> length (if_data f) = psize"
    "boundary (ix_log ix) (length (ix_log ix))" "unat (ix_mx_frame ix) = length (ix_log ix)"
    "\<And>m. m \<in> set (ix_readers ix) \<Longrightarrow> boundary (ix_log ix) (unat m) \<and> ix_n_backfill ix \<le> m"
    "covered psize (main, ix) (ix_mx_frame ix)" "\<And>m. m \<in> set (ix_readers ix) \<Longrightarrow> covered psize (main, ix) m"
    "backed psize (main, ix)"
    "ix_log ix \<noteq> [] \<Longrightarrow> ix_n_backfill ix = ix_mx_frame ix \<Longrightarrow> length main = unat (full_db_size ix) * psize"
  using assms unfolding wal_inv_def index_wf_def by auto

lemma mx_zero_iff: "wal_inv psize (main, ix) \<Longrightarrow> ix_mx_frame ix = 0 \<longleftrightarrow> ix_log ix = []"
  using wal_invD(4) [of psize main ix] by (auto simp: unat_eq_0)

lemma db_size_full:
  assumes "wal_inv psize (main, ix)"
  shows "db_size psize (main, ix) =
    (if ix_log ix = [] then of_nat (length main div psize) else full_db_size ix)"
  using wal_invD(3,4) [OF assms] mx_zero_iff [OF assms]
  by (simp add: db_size_def snap_size_def snapshot_db_size_boundary full_db_size_boundary last_conv_nth)

lemma div_page_bound: "(p :: u32) \<le> of_nat (n div psize) \<Longrightarrow> unat p * psize \<le> n"
proof -
  assume "p \<le> of_nat (n div psize)"
  then have "unat p \<le> unat (of_nat (n div psize) :: u32)" by (simp add: word_le_nat_alt)
  also have "\<dots> \<le> n div psize" by (simp add: unat_of_nat)
  finally have "unat p * psize \<le> n div psize * psize" by (rule mult_le_mono1)
  also have "\<dots> \<le> n" by (rule div_times_less_eq_dividend)
  finally show ?thesis .
qed

lemma wal_inv_start: "wal_inv psize (main, index_new native_be)"
  by (auto simp: wal_inv_def index_new_def index_wf_def boundary_def covered_def backed_def snap_size_def
      snapshot_db_size_def dest: div_page_bound)

section \<open>Restarting the log\<close>

text \<open>A page of the database, in the log or in the file.\<close>

lemma db_view_page:
  assumes inv: "wal_inv psize (main, ix)" and p: "0 < p" "p \<le> db_size psize (main, ix)"
  shows "db_view psize (main, ix) p =
    Some (case newest p (ix_log ix) of Some i \<Rightarrow> if_data (ix_log ix ! i) | None \<Rightarrow> file_page psize main (unat p))"
  using p wal_invD(4) [OF inv]
  by (auto simp: db_view_def view_def db_size_def find_frame_newest split: option.splits)

lemma min_reader_None [simp]: "min_reader_mark ix = None \<longleftrightarrow> ix_readers ix = []"
  by (simp add: min_reader_mark_def)

lemma whole_backed:
  assumes inv: "wal_inv psize (main, ix)" and n: "ix_n_backfill ix = ix_mx_frame ix"
    and p: "0 < p" "p \<le> db_size psize (main, ix)"
  shows "db_view psize (main, ix) p = Some (file_page psize main (unat p)) \<and> unat p * psize \<le> length main"
proof (cases "newest p (ix_log ix)")
  case None
  have "covered psize (main, ix) (ix_mx_frame ix)" using wal_invD(6) [OF inv] .
  then have "unat p * psize \<le> length main"
    using p None wal_invD(4) [OF inv] by (auto simp: covered_def db_size_def)
  then show ?thesis using None db_view_page [OF inv p] by simp
next
  case (Some i)
  have i: "i < length (ix_log ix)" using newest_SomeD [OF Some] by simp
  then have full: "p \<le> full_db_size ix" using p(2) db_size_full [OF inv] by (cases "ix_log ix = []") auto
  have "i < unat (ix_n_backfill ix)" using i n wal_invD(4) [OF inv] by simp
  then have "file_page psize main (unat p) = if_data (ix_log ix ! i) \<and> unat p * psize \<le> length main"
    using wal_invD(8) [OF inv] Some full unfolding backed_def by auto
  then show ?thesis using Some db_view_page [OF inv p] by simp
qed

lemma view_outside: "\<not> (0 < p \<and> p \<le> snap_size psize s m) \<Longrightarrow> view psize s m p = None"
  by (cases s) (auto simp: view_def)

lemma db_view_outside: "\<not> (0 < p \<and> p \<le> db_size psize s) \<Longrightarrow> db_view psize s p = None"
  by (simp add: db_view_def db_size_def view_outside)

lemma restart_keeps:
  assumes inv: "wal_inv psize (main, ix)" and n: "ix_n_backfill ix = ix_mx_frame ix" and r: "ix_readers ix = []"
    and ps: "0 < psize"
  shows "wal_inv psize (main, restart_hdr native_be ix) \<and>
    db_size psize (main, restart_hdr native_be ix) = db_size psize (main, ix) \<and>
    db_view psize (main, restart_hdr native_be ix) = db_view psize (main, ix)"
proof -
  let ?ix = "restart_hdr native_be ix"
  have inv': "wal_inv psize (main, ?ix)"
    using r by (auto simp: wal_inv_def restart_hdr_def index_wf_def boundary_def covered_def backed_def snap_size_def
        snapshot_db_size_def dest: div_page_bound)
  have e: "ix_log ?ix = []" "ix_mx_frame ?ix = 0" by (simp_all add: restart_hdr_def)
  have sz: "db_size psize (main, ?ix) = db_size psize (main, ix)"
    using db_size_full [OF inv] db_size_full [OF inv'] e wal_invD(9) [OF inv _ n] ps by auto
  have "db_view psize (main, ?ix) p = db_view psize (main, ix) p" for p
  proof (cases "0 < p \<and> p \<le> db_size psize (main, ix)")
    case True
    then show ?thesis using whole_backed [OF inv n] db_view_page [OF inv'] sz e by simp
  next
    case False
    then show ?thesis using sz by (simp add: db_view_outside)
  qed
  then show ?thesis using inv' sz by blast
qed

section \<open>Commits\<close>

abbreviation frame_of :: "log_entry \<Rightarrow> index_frame" where
  "frame_of \<equiv> (\<lambda>(p, sz, dat). \<lparr>if_page_no = p, if_commit_db_size = sz, if_data = dat\<rparr>)"

lemma publish_fields:
  "ix_log (publish salt ps app ix) = ix_log ix @ map (\<lambda>(p, sz, dat, _). frame_of (p, sz, dat)) app \<and>
   ix_n_backfill (publish salt ps app ix) = ix_n_backfill ix \<and>
   ix_readers (publish salt ps app ix) = ix_readers ix \<and>
   (app \<noteq> [] \<longrightarrow> ix_mx_frame (publish salt ps app ix) = of_nat (length (ix_log ix) + length app))"
proof (induction app arbitrary: ix)
  case Nil
  then show ?case by (simp add: publish_def)
next
  case (Cons a app)
  obtain p sz dat off ck where a: "a = (p, sz, dat, off, ck)" by (metis prod_cases5)
  have *: "publish salt ps (a # app) ix = publish salt ps app (index_append p sz salt dat off ck ps ix)"
    by (simp add: publish_def a)
  show ?case
    unfolding * using Cons.IH [of "index_append p sz salt dat off ck ps ix"]
    by (cases "app = []") (simp_all add: index_append_def a publish_def)
qed

lemma commit_entries_nth:
  "i < length pgs \<Longrightarrow> if_page_no (frame_of (commit_entries cnt pgs ! i)) = fst (pgs ! i) \<and>
   if_data (frame_of (commit_entries cnt pgs ! i)) = snd (pgs ! i)"
proof (induction cnt pgs arbitrary: i rule: commit_entries.induct)
  case (1 cnt)
  then show ?case by simp
next
  case (2 cnt p dat rest)
  then show ?case by (cases i) auto
qed

lemma last_commit_entries: "pgs \<noteq> [] \<Longrightarrow> if_commit_db_size (frame_of (last (commit_entries cnt pgs))) = cnt"
proof (induction cnt pgs rule: commit_entries.induct)
  case (1 cnt)
  then show ?case by simp
next
  case (2 cnt p dat rest)
  have "rest \<noteq> [] \<Longrightarrow> commit_entries cnt rest \<noteq> []" by (cases rest) auto
  then show ?case using 2 by auto
qed

lemma newest_commit:
  assumes d: "distinct (map fst pgs)"
  shows "(case newest p (map frame_of (commit_entries cnt pgs)) of
      Some i \<Rightarrow> map_of pgs p = Some (if_data (map frame_of (commit_entries cnt pgs) ! i))
    | None \<Rightarrow> map_of pgs p = None)"
proof (cases "newest p (map frame_of (commit_entries cnt pgs))")
  case None
  have "p \<noteq> fst x" if x: "x \<in> set pgs" for x
  proof -
    from x obtain i where i: "i < length pgs" "x = pgs ! i" by (auto simp: in_set_conv_nth)
    have "frame_of (commit_entries cnt pgs ! i) \<in> set (map frame_of (commit_entries cnt pgs))"
      using i by simp
    then have "if_page_no (frame_of (commit_entries cnt pgs ! i)) \<noteq> p"
      using None newest_None_iff [of p "map frame_of (commit_entries cnt pgs)"] by blast
    then show ?thesis using commit_entries_nth [OF i(1), of cnt] i(2) by auto
  qed
  then have "map_of pgs p = None" by (force simp: map_of_eq_None_iff)
  then show ?thesis using None by simp
next
  case (Some i)
  have i: "i < length pgs" "if_page_no (map frame_of (commit_entries cnt pgs) ! i) = p"
    using newest_SomeD [OF Some] by auto
  then have "fst (pgs ! i) = p" "if_data (map frame_of (commit_entries cnt pgs) ! i) = snd (pgs ! i)"
    using commit_entries_nth [OF i(1), of cnt] by auto
  moreover have "map_of pgs (fst (pgs ! i)) = Some (snd (pgs ! i))"
    using d i(1) by (simp add: map_of_eq_Some_iff)
  ultimately show ?thesis using Some by simp
qed

text \<open>A commit that appends to the log.\<close>

lemma take_append_le: "k \<le> length xs \<Longrightarrow> take k (xs @ ys) = take k xs"
  by simp

lemma boundary_append: "boundary log k \<Longrightarrow> boundary (log @ fs) k"
  by (auto simp: boundary_def nth_append)

lemma snap_append:
  assumes b: "boundary (ix_log ix) (unat m)" and l: "ix_log ix' = ix_log ix @ fs"
  shows "snap_size psize (main, ix') m = snap_size psize (main, ix) m"
    "view psize (main, ix') m = view psize (main, ix) m"
    "covered psize (main, ix') m = covered psize (main, ix) m"
proof -
  have k: "unat m \<le> length (ix_log ix)" using b by (simp add: boundary_def)
  have t: "take (unat m) (ix_log ix') = take (unat m) (ix_log ix)" using k l by simp
  have h: "min (unat m) (length (ix_log ix')) = unat m" "min (unat m) (length (ix_log ix)) = unat m"
    using k l by simp_all
  show s: "snap_size psize (main, ix') m = snap_size psize (main, ix) m"
    unfolding snap_size_def prod.case snapshot_db_size_def Let_def h t ..
  have ff: "find_frame ix' p m = find_frame ix p m" for p
    unfolding find_frame_def Let_def h t ..
  show "view psize (main, ix') m = view psize (main, ix) m"
    unfolding view_def s prod.case ff ..
  show "covered psize (main, ix') m = covered psize (main, ix) m"
    unfolding covered_def s prod.case t ..
qed

text \<open>The index after a commit, and what the commit wrote.\<close>

definition commits :: "nat \<Rightarrow> wal_state \<Rightarrow> (u32 \<times> bytes) list \<Rightarrow> u32 \<Rightarrow> wal_index \<Rightarrow> bool" where
  "commits psize s pgs cnt ix' \<longleftrightarrow> wal_inv psize s \<and> pgs \<noteq> [] \<and> cnt \<noteq> 0 \<and> pages_ok psize pgs \<and> distinct (map fst pgs) \<and>
    (\<forall>p. db_size psize s < p \<and> p \<le> cnt \<longrightarrow> p \<in> fst ` set pgs) \<and>
    ix_log ix' = ix_log (snd s) @ map frame_of (commit_entries cnt pgs) \<and> length (ix_log ix') < 2 ^ 32 \<and>
    ix_n_backfill ix' = ix_n_backfill (snd s) \<and> ix_readers ix' = ix_readers (snd s) \<and>
    unat (ix_mx_frame ix') = length (ix_log ix')"

lemma unat_of_nat_u32: "n < 2 ^ 32 \<Longrightarrow> unat (of_nat n :: u32) = n"
  by (simp add: unat_of_nat)

lemma publish_commits:
  assumes "wal_inv psize (main, ix)" and pgs: "pgs \<noteq> []" "cnt \<noteq> 0" "pages_ok psize pgs" "distinct (map fst pgs)"
    and len: "length (ix_log ix) + length pgs < 2 ^ 32"
    and grow: "\<And>p. db_size psize (main, ix) < p \<Longrightarrow> p \<le> cnt \<Longrightarrow> p \<in> fst ` set pgs"
    and app: "map (\<lambda>(p, sz, dat, _). (p, sz, dat)) app = commit_entries cnt pgs"
  shows "commits psize (main, ix) pgs cnt (publish salt ps app ix)"
proof -
  have fs: "map (\<lambda>(p, sz, dat, _). frame_of (p, sz, dat)) app = map frame_of (commit_entries cnt pgs)"
    unfolding app [symmetric] by (simp add: comp_def case_prod_unfold)
  have napp: "length app = length pgs" using arg_cong [OF app, of length] by simp
  then have "app \<noteq> []" using pgs(1) by auto
  then show ?thesis
    using assms publish_fields [of salt ps app ix] fs napp unat_of_nat_u32 [OF len]
    by (simp add: commits_def del: of_nat_add)
qed

lemma commits_boundary:
  assumes "commits psize (main, ix) pgs cnt ix'"
  shows "boundary (ix_log ix') (length (ix_log ix'))" "full_db_size ix' = cnt" "db_size psize (main, ix') = cnt"
proof -
  let ?fs = "map frame_of (commit_entries cnt pgs)"
  have c: "pgs \<noteq> []" "cnt \<noteq> 0" "ix_log ix' = ix_log ix @ ?fs" "unat (ix_mx_frame ix') = length (ix_log ix')"
    using assms by (simp_all add: commits_def)
  have ne: "?fs \<noteq> []" using c(1) by (cases pgs) auto
  have "last (ix_log ix') = frame_of (last (commit_entries cnt pgs))" using ne by (simp add: c(3) last_map)
  then have l: "if_commit_db_size (last (ix_log ix')) = cnt" using last_commit_entries [OF c(1)] by simp
  then show b: "boundary (ix_log ix') (length (ix_log ix'))" using c ne by (simp add: boundary_def last_conv_nth)
  show f: "full_db_size ix' = cnt" using full_db_size_boundary [OF b] l ne c(3) by simp
  have "ix_mx_frame ix' \<noteq> 0" using c(4) ne c(3) by (auto simp: unat_eq_0)
  then show "db_size psize (main, ix') = cnt"
    using snapshot_db_size_boundary [of ix' "ix_mx_frame ix'"] b c l ne
    by (simp add: db_size_def snap_size_def last_conv_nth)
qed

text \<open>The newest frame of a page after a commit: one of the commit, or the one it had.\<close>

lemma commits_newest:
  assumes "commits psize (main, ix) pgs cnt ix'" and "0 < p" and "p \<le> cnt"
  obtains i where "newest p (ix_log ix') = Some i" "length (ix_log ix) \<le> i" "map_of pgs p = Some (if_data (ix_log ix' ! i))"
  | "newest p (ix_log ix') = newest p (ix_log ix)" "map_of pgs p = None" "p \<le> db_size psize (main, ix)"
proof (cases "newest p (map frame_of (commit_entries cnt pgs))")
  case (Some j)
  have "ix_log ix' = ix_log ix @ map frame_of (commit_entries cnt pgs)" "distinct (map fst pgs)"
    using assms(1) by (simp_all add: commits_def)
  then show ?thesis using that(1) [of "length (ix_log ix) + j"] newest_commit [of pgs p cnt] Some
    by (simp add: newest_append nth_append)
next
  case None
  have l: "ix_log ix' = ix_log ix @ map frame_of (commit_entries cnt pgs)" and d: "distinct (map fst pgs)"
    and g: "db_size psize (main, ix) < p \<Longrightarrow> p \<in> fst ` set pgs"
    using assms by (simp_all add: commits_def)
  have m: "map_of pgs p = None" using newest_commit [OF d, of p cnt] None by simp
  then have "p \<le> db_size psize (main, ix)" using g by (metis map_of_eq_None_iff not_less)
  then show ?thesis using that(2) m None l by (simp add: newest_append)
qed

lemma commits_covered:
  assumes c: "commits psize (main, ix) pgs cnt ix'"
  shows "covered psize (main, ix') (ix_mx_frame ix')"
  unfolding covered_def prod.case
proof (intro allI impI, elim conjE)
  fix p
  assume p: "0 < p" "p \<le> snap_size psize (main, ix') (ix_mx_frame ix')"
    "newest p (take (unat (ix_mx_frame ix')) (ix_log ix')) = None"
  have inv: "wal_inv psize (main, ix)" and "unat (ix_mx_frame ix') = length (ix_log ix')"
    using c by (simp_all add: commits_def)
  then have n: "newest p (ix_log ix') = None" using p(3) by simp
  have "p \<le> cnt" using p(2) commits_boundary(3) [OF c] by (simp add: db_size_def)
  from p(1) this have "newest p (ix_log ix) = None \<and> p \<le> db_size psize (main, ix)"
    by (cases rule: commits_newest [OF c, consumes 2]) (simp_all add: n)
  then show "unat p * psize \<le> length main"
    using wal_invD(4,6) [OF inv] p(1) by (auto simp: covered_def db_size_def)
qed

lemma commits_backed:
  assumes c: "commits psize (main, ix) pgs cnt ix'"
  shows "backed psize (main, ix')"
  unfolding backed_def prod.case
proof (intro allI impI, elim conjE)
  fix p i
  assume a: "newest p (ix_log ix') = Some i" "i < unat (ix_n_backfill ix')" "p \<le> full_db_size ix'"
  have inv: "wal_inv psize (main, ix)" and l: "ix_log ix' = ix_log ix @ map frame_of (commit_entries cnt pgs)"
    and n: "ix_n_backfill ix' = ix_n_backfill ix" and ok: "pages_ok psize pgs"
    using c by (simp_all add: commits_def)
  have lo: "unat (ix_n_backfill ix) \<le> length (ix_log ix)" using wal_invD(1) [OF inv] by (simp add: index_wf_def)
  have i: "i < length (ix_log ix)" "if_page_no (ix_log ix ! i) = p"
    using a(1,2) n lo newest_SomeD [OF a(1)] by (simp_all add: l nth_append)
  then have p0: "0 < p" using wal_invD(2) [OF inv nth_mem [OF i(1)]] by (auto simp: word_gt_0)
  have "p \<le> cnt" using a(3) commits_boundary(2) [OF c] by simp
  with p0 have p: "newest p (ix_log ix) = Some i \<and> p \<le> db_size psize (main, ix)"
    by (cases rule: commits_newest [OF c, consumes 2]) (use a(1) i(1) in auto)
  then have "p \<le> full_db_size ix" using db_size_full [OF inv] i(1) by (cases "ix_log ix = []") auto
  then show "file_page psize main (unat p) = if_data (ix_log ix' ! i) \<and> unat p * psize \<le> length main"
    using wal_invD(8) [OF inv] p a(2) n i(1) unfolding backed_def by (auto simp: l nth_append)
qed

lemma commits_frames:
  assumes c: "commits psize (main, ix) pgs cnt ix'" and f: "f \<in> set (ix_log ix')"
  shows "if_page_no f \<noteq> 0 \<and> length (if_data f) = psize"
proof (cases "f \<in> set (ix_log ix)")
  case True
  then show ?thesis using wal_invD(2) [of psize main ix f] c by (simp add: commits_def)
next
  case False
  then have "f \<in> set (map frame_of (commit_entries cnt pgs))" using c f by (auto simp: commits_def)
  then obtain i where i: "i < length pgs" "f = frame_of (commit_entries cnt pgs ! i)"
    by (auto simp: in_set_conv_nth)
  then have "pgs ! i \<in> set pgs" by simp
  moreover have "pages_ok psize pgs" using c by (simp add: commits_def)
  ultimately show ?thesis using commit_entries_nth [OF i(1), of cnt] i(2) by (auto simp: pages_ok_def)
qed

lemma commits_inv:
  assumes c: "commits psize (main, ix) pgs cnt ix'"
  shows "wal_inv psize (main, ix')"
proof -
  have inv: "wal_inv psize (main, ix)" and l: "ix_log ix' = ix_log ix @ map frame_of (commit_entries cnt pgs)"
    and n: "ix_n_backfill ix' = ix_n_backfill ix" "ix_readers ix' = ix_readers ix"
    and mx: "unat (ix_mx_frame ix') = length (ix_log ix')" "length (ix_log ix') < 2 ^ 32" and ne: "pgs \<noteq> []"
    using c unfolding commits_def snd_conv by blast+
  have lo: "unat (ix_n_backfill ix) \<le> length (ix_log ix)" using wal_invD(1) [OF inv] by (simp add: index_wf_def)
  moreover have "0 < length pgs" "unat (ix_mx_frame ix') = length (ix_log ix) + length pgs" using ne mx(1) l by simp_all
  ultimately have "unat (ix_n_backfill ix') \<noteq> unat (ix_mx_frame ix')" unfolding n by linarith
  then have strict: "ix_n_backfill ix' \<noteq> ix_mx_frame ix'" by auto
  have rd: "boundary (ix_log ix') (unat m) \<and> ix_n_backfill ix' \<le> m \<and> covered psize (main, ix') m"
    if "m \<in> set (ix_readers ix')" for m
    using wal_invD(5,7) [OF inv, of m] that n snap_append(3) [OF _ l] boundary_append l by auto
  have "index_wf ix'" using mx lo l n by (simp add: index_wf_def)
  then show ?thesis
    unfolding wal_inv_def prod.case
    using commits_frames [OF c] commits_boundary(1) [OF c] rd commits_covered [OF c] commits_backed [OF c] strict by blast
qed

lemma commits_db_view:
  assumes c: "commits psize (main, ix) pgs cnt ix'"
  shows "db_view psize (main, ix') = snd (db_after (Commit pgs cnt) (db_size psize (main, ix), db_view psize (main, ix)))"
proof
  fix p
  have inv: "wal_inv psize (main, ix)" and l: "ix_log ix' = ix_log ix @ map frame_of (commit_entries cnt pgs)"
    using c by (simp_all add: commits_def)
  note sz = commits_boundary(3) [OF c] and inv' = commits_inv [OF c]
  show "db_view psize (main, ix') p =
      snd (db_after (Commit pgs cnt) (db_size psize (main, ix), db_view psize (main, ix))) p"
  proof (cases "0 < p \<and> p \<le> cnt")
    case True
    then have v: "db_view psize (main, ix') p = Some (case newest p (ix_log ix') of
        Some i \<Rightarrow> if_data (ix_log ix' ! i) | None \<Rightarrow> file_page psize main (unat p))"
      using db_view_page [OF inv', of p] sz by simp
    from True have p: "0 < p" "p \<le> cnt" by simp_all
    from commits_newest [OF c p] show ?thesis
    proof cases
      case (1 i)
      then show ?thesis using v True by simp
    next
      case 2
      then show ?thesis using v True db_view_page [OF inv p(1) 2(3)] newest_SomeD [of p "ix_log ix"]
        by (auto simp: l nth_append split: option.splits)
    qed
  qed (auto simp: db_view_outside sz)
qed

section \<open>Checkpoints\<close>

lemma mx_safe_bounds:
  "mx_safe_of ix \<le> ix_mx_frame ix" "m \<in> set (ix_readers ix) \<Longrightarrow> mx_safe_of ix \<le> m"
proof -
  show "mx_safe_of ix \<le> ix_mx_frame ix" by (auto simp: mx_safe_of_def split: option.splits)
  assume m: "m \<in> set (ix_readers ix)"
  then have "min_reader_mark ix = Some (Min (set (ix_readers ix)))" by (auto simp: min_reader_mark_def min_list_Min)
  moreover have "Min (set (ix_readers ix)) \<le> m" using m by simp
  ultimately show "mx_safe_of ix \<le> m" by (auto simp: mx_safe_of_def)
qed

text \<open>The pages a backfill writes and the file it leaves.\<close>

abbreviation backfilled :: "wal_index \<Rightarrow> (u32 \<times> bytes) list" where
  "backfilled ix \<equiv> copied (full_db_size ix) (backfill_pages ix (mx_safe_of ix))"

definition backfill_file :: "nat \<Rightarrow> bytes \<Rightarrow> wal_index \<Rightarrow> bytes" where
  "backfill_file psize main ix =
    (if mx_safe_of ix = ix_mx_frame ix then resize (put_pages psize (backfilled ix) main) (unat (full_db_size ix) * psize)
     else put_pages psize (backfilled ix) main)"

lemma backfilled_iff:
  assumes "wal_inv psize (main, ix)"
  shows "(p, d) \<in> set (backfilled ix) \<longleftrightarrow> p \<noteq> 0 \<and> p \<le> full_db_size ix \<and>
    (\<exists>i. newest p (ix_log ix) = Some i \<and> unat (ix_n_backfill ix) \<le> i \<and> i < unat (mx_safe_of ix) \<and> d = if_data (ix_log ix ! i))"
  using backfill_pages_iff [OF wal_invD(1) [OF assms]] by (auto simp: copied_def)

lemma backfilled_ok:
  assumes inv: "wal_inv psize (main, ix)" and ps: "psize \<le> 65536"
  shows "pages_ok psize (backfilled ix)" "distinct (map fst (backfilled ix))"
proof -
  show "pages_ok psize (backfilled ix)"
    using backfilled_iff [OF inv] wal_invD(2) [OF inv nth_mem] ps newest_SomeD
    by (fastforce simp: pages_ok_def)
  show "distinct (map fst (backfilled ix))"
    using backfill_pages_distinct by (simp add: copied_def distinct_map_filter)
qed

lemma backfill_eq:
  assumes inv: "wal_inv psize (main, ix)" and ps: "psize \<le> 65536"
  shows "backfill psize main ix =
    (if ix_n_backfill ix < mx_safe_of ix
     then Ok (backfill_file psize main ix, set_n_backfill (mx_safe_of ix) ix, True, mx_safe_of ix = ix_mx_frame ix)
     else Ok (main, ix, False, False))"
proof -
  have "\<forall>(p, d) \<in> set (backfill_pages ix (mx_safe_of ix)). length d = psize"
    using backfill_pages_iff [OF wal_invD(1) [OF inv]] wal_invD(2) [OF inv nth_mem] newest_SomeD by fastforce
  from copy_pages_put [OF ps this]
  have "copy_pages psize full (backfill_pages ix (mx_safe_of ix)) main =
      Ok (put_pages psize (copied full (backfill_pages ix (mx_safe_of ix))) main)" for full by blast
  moreover have "ix_n_backfill ix < mx_safe_of ix \<Longrightarrow> ix_n_backfill ix < ix_mx_frame ix"
    using mx_safe_bounds(1) [of ix] by simp
  ultimately show ?thesis
    by (auto simp: backfill_def backfill_file_def Let_def file_truncate_def)
qed

text \<open>A page a reader takes from the file is not written; a page that is written is at its newest.\<close>

lemma backfill_file_page:
  assumes inv: "wal_inv psize (main, ix)" and ps: "psize \<le> 65536"
    and p: "0 < p" "p \<le> full_db_size ix \<or> mx_safe_of ix \<noteq> ix_mx_frame ix"
    and none: "p \<notin> fst ` set (backfilled ix)" and len: "unat p * psize \<le> length main"
  shows "file_page psize (backfill_file psize main ix) (unat p) = file_page psize main (unat p) \<and>
    unat p * psize \<le> length (backfill_file psize main ix)"
proof -
  let ?f = "put_pages psize (backfilled ix) main"
  have p0: "0 < unat p" using p(1) by (simp add: unat_gt_0 word_gt_0)
  have "unat p \<notin> unat ` fst ` set (backfilled ix)" using none by (force simp: image_iff dest!: word_unat_eq_iff [THEN iffD2])
  from file_page_put_pages_other [OF backfilled_ok(1) [OF inv ps] p0 this len]
  have f: "file_page psize ?f (unat p) = file_page psize main (unat p)" .
  have l: "unat p * psize \<le> length ?f" using len length_put_pages order_trans by blast
  have "unat p \<le> unat (full_db_size ix) \<or> mx_safe_of ix \<noteq> ix_mx_frame ix" using p(2) by (auto simp: word_le_nat_alt)
  then have "unat p * psize \<le> unat (full_db_size ix) * psize \<or> mx_safe_of ix \<noteq> ix_mx_frame ix" by auto
  then show ?thesis using f l file_page_resize [OF p0 _ l] by (auto simp: backfill_file_def)
qed

lemma backfill_file_written:
  assumes inv: "wal_inv psize (main, ix)" and ps: "psize \<le> 65536" and d: "(p, d) \<in> set (backfilled ix)"
  shows "file_page psize (backfill_file psize main ix) (unat p) = d \<and>
    unat p * psize \<le> length (backfill_file psize main ix)"
proof -
  let ?f = "put_pages psize (backfilled ix) main"
  have p: "p \<noteq> 0" "p \<le> full_db_size ix" using d backfilled_iff [OF inv] by auto
  then have p0: "0 < unat p" "unat p * psize \<le> unat (full_db_size ix) * psize"
    by (auto simp: unat_gt_0 word_le_nat_alt)
  have f: "file_page psize ?f (unat p) = d"
    using file_page_put_pages_same [OF backfilled_ok [OF inv ps] d] .
  have "length d = psize" using d backfilled_ok(1) [OF inv ps] by (auto simp: pages_ok_def)
  then have "psize \<le> length ?f - (unat p - 1) * psize"
    using arg_cong [OF f, of length] by (simp add: file_page_def)
  then have l: "unat p * psize \<le> length ?f"
    using page_end [OF p0(1), of psize] by (cases "psize = 0") auto
  show ?thesis using f l p0 file_page_resize [OF p0(1) p0(2) l] by (auto simp: backfill_file_def)
qed

section \<open>A backfill is invisible\<close>

lemma set_n_backfill_fields:
  "ix_n_backfill ix < n \<Longrightarrow> ix_n_backfill (set_n_backfill n ix) = n"
  "ix_log (set_n_backfill n ix) = ix_log ix" "ix_readers (set_n_backfill n ix) = ix_readers ix"
  "ix_mx_frame (set_n_backfill n ix) = ix_mx_frame ix"
  "find_frame (set_n_backfill n ix) = find_frame ix" "snapshot_db_size (set_n_backfill n ix) = snapshot_db_size ix"
  "full_db_size (set_n_backfill n ix) = full_db_size ix"
  by (auto simp: set_n_backfill_def find_frame_def snapshot_db_size_def full_db_size_def fun_eq_iff)

text \<open>The marks at which the file may be read below the log during a backfill.\<close>

definition mark_ok :: "wal_index \<Rightarrow> u32 \<Rightarrow> bool" where
  "mark_ok ix m \<longleftrightarrow> boundary (ix_log ix) (unat m) \<and> mx_safe_of ix \<le> m \<and> m \<le> ix_mx_frame ix \<and>
     ix_n_backfill ix < mx_safe_of ix"

lemma mark_size:
  assumes inv: "wal_inv psize (main, ix)" and m: "mark_ok ix m"
  shows "m \<noteq> 0" "snap_size psize (f, set_n_backfill n ix) m = snap_size psize (main, ix) m"
    "mx_safe_of ix = ix_mx_frame ix \<Longrightarrow> snap_size psize (main, ix) m = full_db_size ix"
proof -
  show m0: "m \<noteq> 0" using m by (auto simp: mark_ok_def)
  then have s: "snapshot_db_size ix m = Some (if_commit_db_size (ix_log ix ! (unat m - 1)))"
    using m snapshot_db_size_boundary [of ix m] by (simp add: mark_ok_def)
  then show "snap_size psize (f, set_n_backfill n ix) m = snap_size psize (main, ix) m"
    by (simp add: snap_size_def set_n_backfill_fields)
  assume "mx_safe_of ix = ix_mx_frame ix"
  then have "m = ix_mx_frame ix" using m by (auto simp: mark_ok_def intro: antisym)
  then have "unat m = length (ix_log ix)" using wal_invD(4) [OF inv] by simp
  moreover have "ix_log ix \<noteq> []" using m0 calculation by (auto simp: unat_eq_0)
  ultimately show "snap_size psize (main, ix) m = full_db_size ix"
    using s full_db_size_boundary [OF wal_invD(3) [OF inv]] by (simp add: snap_size_def last_conv_nth)
qed

lemma backfill_below_mark:
  assumes inv: "wal_inv psize (main, ix)" and ps: "psize \<le> 65536" and m: "mark_ok ix m"
    and cov: "covered psize (main, ix) m" and p: "0 < p" "p \<le> snap_size psize (main, ix) m"
    and none: "newest p (take (unat m) (ix_log ix)) = None"
  shows "file_page psize (backfill_file psize main ix) (unat p) = file_page psize main (unat p) \<and>
    unat p * psize \<le> length (backfill_file psize main ix)"
proof (rule backfill_file_page [OF inv ps p(1)])
  show "p \<le> full_db_size ix \<or> mx_safe_of ix \<noteq> ix_mx_frame ix" using mark_size(3) [OF inv m] p(2) by auto
  show "unat p * psize \<le> length main" using cov p none by (auto simp: covered_def)
  have "newest p (ix_log ix) \<noteq> Some i" if "i < unat (mx_safe_of ix)" for i
  proof -
    have "i < unat m" using that m by (auto simp: mark_ok_def word_le_nat_alt)
    then show ?thesis using none newest_take [of p "ix_log ix" i "unat m"] by auto
  qed
  then show "p \<notin> fst ` set (backfilled ix)" using backfilled_iff [OF inv] by force
qed

lemma backfill_view:
  assumes inv: "wal_inv psize (main, ix)" and ps: "psize \<le> 65536" and m: "mark_ok ix m" and cov: "covered psize (main, ix) m"
  shows "view psize (backfill_file psize main ix, set_n_backfill (mx_safe_of ix) ix) m = view psize (main, ix) m"
    "covered psize (backfill_file psize main ix, set_n_backfill (mx_safe_of ix) ix) m"
proof -
  note sz = mark_size(2) [OF inv m, of "backfill_file psize main ix" "mx_safe_of ix"]
  note below = backfill_below_mark [OF inv ps m cov]
  show "covered psize (backfill_file psize main ix, set_n_backfill (mx_safe_of ix) ix) m"
    using below unfolding covered_def prod.case sz set_n_backfill_fields by blast
  show "view psize (backfill_file psize main ix, set_n_backfill (mx_safe_of ix) ix) m = view psize (main, ix) m"
  proof
    fix p
    show "view psize (backfill_file psize main ix, set_n_backfill (mx_safe_of ix) ix) m p = view psize (main, ix) m p"
      unfolding view_def prod.case sz set_n_backfill_fields
      using below [of p] by (auto simp: find_frame_newest split: option.splits)
  qed
qed

lemma backfill_backed:
  assumes inv: "wal_inv psize (main, ix)" and ps: "psize \<le> 65536" and n: "ix_n_backfill ix < mx_safe_of ix"
  shows "backed psize (backfill_file psize main ix, set_n_backfill (mx_safe_of ix) ix)"
  unfolding backed_def prod.case set_n_backfill_fields set_n_backfill_fields(1) [OF n]
proof (intro allI impI, elim conjE)
  fix p i
  assume a: "newest p (ix_log ix) = Some i" "i < unat (mx_safe_of ix)" "p \<le> full_db_size ix"
  have p0: "p \<noteq> 0" using newest_SomeD [OF a(1)] wal_invD(2) [OF inv nth_mem] by blast
  show "file_page psize (backfill_file psize main ix) (unat p) = if_data (ix_log ix ! i) \<and>
      unat p * psize \<le> length (backfill_file psize main ix)"
  proof (cases "unat (ix_n_backfill ix) \<le> i")
    case True
    then have "(p, if_data (ix_log ix ! i)) \<in> set (backfilled ix)" using backfilled_iff [OF inv] a p0 by auto
    then show ?thesis by (rule backfill_file_written [OF inv ps])
  next
    case False
    then have "p \<notin> fst ` set (backfilled ix)" using backfilled_iff [OF inv] a(1) by force
    moreover have "file_page psize main (unat p) = if_data (ix_log ix ! i) \<and> unat p * psize \<le> length main"
      using wal_invD(8) [OF inv] a False unfolding backed_def prod.case by (meson not_less)
    ultimately show ?thesis using backfill_file_page [OF inv ps, of p] p0 a(3) by (simp add: word_gt_0)
  qed
qed

lemma reader_mark_ok:
  assumes inv: "wal_inv psize (main, ix)" and n: "ix_n_backfill ix < mx_safe_of ix"
    and m: "m = ix_mx_frame ix \<or> m \<in> set (ix_readers ix)"
  shows "mark_ok ix m" "covered psize (main, ix) m"
proof -
  have "boundary (ix_log ix) (unat m)" using m wal_invD(3,4,5) [OF inv] by auto
  moreover have "m \<le> ix_mx_frame ix"
    using m calculation wal_invD(4) [OF inv] by (auto simp: boundary_def word_le_nat_alt)
  ultimately show "mark_ok ix m" using m n mx_safe_bounds by (auto simp: mark_ok_def)
  show "covered psize (main, ix) m" using m wal_invD(6,7) [OF inv] by auto
qed

lemma backfill_inv:
  assumes inv: "wal_inv psize (main, ix)" and ps: "psize \<le> 65536" and n: "ix_n_backfill ix < mx_safe_of ix"
  shows "wal_inv psize (backfill_file psize main ix, set_n_backfill (mx_safe_of ix) ix)"
proof -
  let ?ix = "set_n_backfill (mx_safe_of ix) ix" and ?f = "backfill_file psize main ix"
  have "unat (mx_safe_of ix) \<le> length (ix_log ix)"
    using mx_safe_bounds(1) [of ix] wal_invD(4) [OF inv] by (simp add: word_le_nat_alt)
  then have "index_wf ?ix" using wal_invD(1) [OF inv] n by (simp add: index_wf_def set_n_backfill_fields)
  moreover have "covered psize (?f, ?ix) m" if "m = ix_mx_frame ix \<or> m \<in> set (ix_readers ix)" for m
    using backfill_view(2) [OF inv ps reader_mark_ok [OF inv n that]] .
  moreover have "length ?f = unat (full_db_size ix) * psize" if "mx_safe_of ix = ix_mx_frame ix"
    using that by (simp add: backfill_file_def)
  ultimately show ?thesis
    unfolding wal_inv_def prod.case set_n_backfill_fields set_n_backfill_fields(1) [OF n]
    using wal_invD(2,3,5) [OF inv] mx_safe_bounds(2) backfill_backed [OF inv ps n] by auto
qed

section \<open>Steps\<close>

lemma set_swap_remove: "i < length xs \<Longrightarrow> set (swap_remove xs i) \<subseteq> set xs"
proof -
  assume "i < length xs"
  then have "xs \<noteq> []" by auto
  then show ?thesis
    unfolding swap_remove_def
    using set_update_subset_insert [of xs i "last xs"] in_set_butlastD [of _ "xs[i := last xs]"] last_in_set [of xs] by blast
qed

lemma position_less: "position P xs = Some i \<Longrightarrow> i < length xs"
  by (induction xs arbitrary: i) (auto split: if_splits)

lemma unregister_fields:
  "ix_log (unregister_reader m ix) = ix_log ix" "ix_mx_frame (unregister_reader m ix) = ix_mx_frame ix"
  "ix_n_backfill (unregister_reader m ix) = ix_n_backfill ix" "full_db_size (unregister_reader m ix) = full_db_size ix"
  "snap_size psize (main, unregister_reader m ix) = snap_size psize (main, ix)"
  "view psize (main, unregister_reader m ix) = view psize (main, ix)"
  "covered psize (main, unregister_reader m ix) = covered psize (main, ix)"
  "backed psize (main, unregister_reader m ix) = backed psize (main, ix)"
  "index_wf (unregister_reader m ix) = index_wf ix"
  by (auto simp: unregister_reader_def full_db_size_def snap_size_def snapshot_db_size_def view_def find_frame_def
      covered_def backed_def index_wf_def fun_eq_iff split: option.splits)

lemma unregister_readers: "set (ix_readers (unregister_reader m ix)) \<subseteq> set (ix_readers ix)"
proof (cases "position (\<lambda>r. r = m) (ix_readers ix)")
  case (Some i)
  then show ?thesis using set_swap_remove [OF position_less [OF Some]] by (simp add: unregister_reader_def)
qed (simp add: unregister_reader_def)

lemma register_fields:
  "ix_log (register_reader m ix) = ix_log ix" "ix_mx_frame (register_reader m ix) = ix_mx_frame ix"
  "ix_n_backfill (register_reader m ix) = ix_n_backfill ix" "full_db_size (register_reader m ix) = full_db_size ix"
  "snap_size psize (main, register_reader m ix) = snap_size psize (main, ix)"
  "view psize (main, register_reader m ix) = view psize (main, ix)"
  "covered psize (main, register_reader m ix) = covered psize (main, ix)"
  "backed psize (main, register_reader m ix) = backed psize (main, ix)"
  "index_wf (register_reader m ix) = index_wf ix"
  "set (ix_readers (register_reader m ix)) = insert m (set (ix_readers ix))"
  by (auto simp: register_reader_def full_db_size_def snap_size_def snapshot_db_size_def view_def find_frame_def
      covered_def backed_def index_wf_def fun_eq_iff)

lemma n_backfill_le: "wal_inv psize (main, ix) \<Longrightarrow> ix_n_backfill ix \<le> ix_mx_frame ix"
  using wal_invD(1,4) [of psize main ix] by (simp add: index_wf_def word_le_nat_alt)

lemma register_inv: "wal_inv psize (main, ix) \<Longrightarrow> wal_inv psize (main, register_reader (ix_mx_frame ix) ix)"
  using n_backfill_le [of psize main ix] wal_invD(4) [of psize main ix]
  unfolding wal_inv_def prod.case register_fields by auto

lemma unregister_inv: "wal_inv psize (main, ix) \<Longrightarrow> wal_inv psize (main, unregister_reader m ix)"
  using subsetD [OF unregister_readers [of m ix]] unfolding wal_inv_def prod.case unregister_fields by auto

text \<open>What a step does to the database and to a pinned reader.\<close>

definition step_ok :: "nat \<Rightarrow> wal_event \<Rightarrow> wal_state \<Rightarrow> wal_state \<Rightarrow> bool" where
  "step_ok psize e s s' \<longleftrightarrow> wal_inv psize s' \<and>
    (db_size psize s', db_view psize s') = db_after e (db_size psize s, db_view psize s) \<and>
    (\<forall>m \<in> set (ix_readers (snd s)). snap_size psize s' m = snap_size psize s m \<and> view psize s' m = view psize s m)"

lemma backfill_step:
  assumes inv: "wal_inv psize (main, ix)" and ps: "psize \<le> 65536"
    and b: "backfill psize main ix = Ok (main', ix', w, t)"
  shows "step_ok psize (Checkpoint mode) (main, ix) (main', ix') \<and> ix_readers ix' = ix_readers ix \<and>
    ix_mx_frame ix' = ix_mx_frame ix"
proof (cases "ix_n_backfill ix < mx_safe_of ix")
  case True
  then have e: "main' = backfill_file psize main ix" "ix' = set_n_backfill (mx_safe_of ix) ix"
    using b backfill_eq [OF inv ps] by auto
  have v: "view psize (main', ix') m = view psize (main, ix) m" "snap_size psize (main', ix') m = snap_size psize (main, ix) m"
    if "m = ix_mx_frame ix \<or> m \<in> set (ix_readers ix)" for m
    using backfill_view(1) [OF inv ps reader_mark_ok [OF inv True that]] mark_size(2) [OF inv reader_mark_ok(1) [OF inv True that]]
    by (simp_all add: e)
  then show ?thesis
    using backfill_inv [OF inv ps True]
    by (simp add: step_ok_def e set_n_backfill_fields db_view_def db_size_def)
next
  case False
  then show ?thesis using inv b backfill_eq [OF inv ps] by (simp add: step_ok_def)
qed

lemma finish_cases:
  assumes "ix_n_backfill ix \<le> ix_mx_frame ix"
  obtains "fst (finish_checkpoint native_be mode (ix_mx_frame ix) ix) = ix"
  | "fst (finish_checkpoint native_be mode (ix_mx_frame ix) ix) = restart_hdr native_be ix"
    "ix_readers ix = []" "ix_n_backfill ix = ix_mx_frame ix"
proof (cases "ix_n_backfill ix = ix_mx_frame ix \<and> mode = Truncate \<and> ix_readers ix = []")
  case True
  then show ?thesis using that(2) by (simp add: finish_checkpoint_def)
next
  case False
  then show ?thesis using that(1) assms by (auto simp: finish_checkpoint_def split: if_splits)
qed

lemma checkpoint_step:
  assumes inv: "wal_inv psize s" and ps: "0 < psize" "psize \<le> 65536"
    and c: "checkpoint_core native_be psize mode s = Ok s'"
  shows "step_ok psize (Checkpoint mode) s s'"
proof -
  obtain main ix where s: "s = (main, ix)" by (cases s)
  obtain main' ix' w t where b: "backfill psize main ix = Ok (main', ix', w, t)"
    and s': "s' = (main', fst (finish_checkpoint native_be mode (ix_mx_frame ix) ix'))"
    using c by (auto simp: checkpoint_core_def s bindR_Ok_iff)
  note bs = backfill_step [OF inv [unfolded s] ps(2) b, of mode]
  have inv': "wal_inv psize (main', ix')" using bs by (simp add: step_ok_def)
  have mx: "ix_mx_frame ix = ix_mx_frame ix'" using bs by simp
  show ?thesis
  proof (rule finish_cases [OF n_backfill_le [OF inv'], of native_be mode])
    assume "fst (finish_checkpoint native_be mode (ix_mx_frame ix') ix') = ix'"
    then show ?thesis using conjunct1 [OF bs] by (simp add: s s' mx)
  next
    assume 2: "fst (finish_checkpoint native_be mode (ix_mx_frame ix') ix') = restart_hdr native_be ix'"
      "ix_readers ix' = []" "ix_n_backfill ix' = ix_mx_frame ix'"
    have "ix_readers ix = []" using bs 2(2) by simp
    then show ?thesis using restart_keeps [OF inv' 2(3,2) ps(1), of native_be] conjunct1 [OF bs] 2(1)
      by (simp add: step_ok_def s s' mx)
  qed
qed

lemma commit_step:
  assumes inv: "wal_inv psize (main, ix)" and ps: "0 < psize" and pgs: "pgs \<noteq> []" "cnt \<noteq> 0" "pages_ok psize pgs" "distinct (map fst pgs)"
    and len: "length (ix_log ix) + length pgs < 2 ^ 32"
    and grow: "\<And>p. db_size psize (main, ix) < p \<Longrightarrow> p \<le> cnt \<Longrightarrow> p \<in> fst ` set pgs"
    and app: "map (\<lambda>(p, sz, dat, _). (p, sz, dat)) app = commit_entries cnt pgs"
  shows "step_ok psize (Commit pgs cnt) (main, ix) (main, publish salt pw app (maybe_restart native_be ix))"
proof -
  let ?ix = "maybe_restart native_be ix"
  have r: "wal_inv psize (main, ?ix) \<and> db_size psize (main, ?ix) = db_size psize (main, ix) \<and>
      db_view psize (main, ?ix) = db_view psize (main, ix) \<and> length (ix_log ?ix) \<le> length (ix_log ix) \<and>
      (ix_readers ix = [] \<or> ?ix = ix)"
  proof (cases "0 < ix_mx_frame ix \<and> ix_n_backfill ix = ix_mx_frame ix \<and> ix_readers ix = []")
    case True
    then show ?thesis using restart_keeps [OF inv _ _ ps, of native_be] by (simp add: maybe_restart_def restart_hdr_def)
  next
    case False
    then show ?thesis using inv by (auto simp: maybe_restart_def)
  qed
  have len': "length (ix_log ?ix) + length pgs < 2 ^ 32" using r len by linarith
  have c: "commits psize (main, ?ix) pgs cnt (publish salt pw app ?ix)"
    by (rule publish_commits [OF _ pgs len' _ app]) (use r grow in simp_all)
  have "snap_size psize (main, publish salt pw app ?ix) m = snap_size psize (main, ix) m \<and>
      view psize (main, publish salt pw app ?ix) m = view psize (main, ix) m" if "m \<in> set (ix_readers ix)" for m
  proof -
    have "ix_readers ix \<noteq> []" using that by (cases "ix_readers ix") simp_all
    then have e: "?ix = ix" using r by blast
    have l: "ix_log (publish salt pw app ix) = ix_log ix @ map frame_of (commit_entries cnt pgs)"
      using c e by (simp add: commits_def)
    have b: "boundary (ix_log ix) (unat m)" using wal_invD(5) [OF inv that] by blast
    show ?thesis unfolding e using snap_append(1,2) [OF b l] by blast
  qed
  then show ?thesis
    using commits_inv [OF c] commits_boundary(3) [OF c] commits_db_view [OF c] r by (simp add: step_ok_def)
qed

lemma wal_step_ok:
  assumes "wal_step native_be psize e s s'" and "wal_inv psize s" and "0 < psize" "psize \<le> 65536"
  shows "step_ok psize e s s'"
  using assms
proof cases
  case (Commit pgs cnt ix main app salt ps)
  then show ?thesis using commit_step [of psize main ix pgs cnt app] assms by simp
next
  case (Pin main ix)
  then show ?thesis using register_inv assms by (simp add: step_ok_def db_size_def db_view_def register_fields)
next
  case (Unpin m main ix)
  then show ?thesis using unregister_inv assms by (simp add: step_ok_def db_size_def db_view_def unregister_fields)
next
  case (Checkpoint mode)
  then show ?thesis using checkpoint_step assms by simp
qed

lemma wal_reachable_inv:
  assumes "wal_reachable native_be psize s" and "0 < psize" "psize \<le> 65536"
  shows "wal_inv psize s"
  using assms(1)
proof induction
  case (Start main)
  then show ?case by (rule wal_inv_start)
next
  case (Step s e s')
  then show ?case using wal_step_ok [OF Step(2)] assms by (simp add: step_ok_def)
qed

end
