(* ===== verification/WalRecovery.thy ===== *)
theory WalRecovery
  imports PagerOpen WalSystem Transactions
begin

text \<open>
  The log file and the wal-index say the same. The file of the log is the encoding of the frames of
  the index, and what follows it are frames of earlier generations of the log, which carry other
  salts: commits (\<open>append_frames\<close>) and checkpoints keep this. Reading the file back, as a process that
  opens the database does (\<open>attach_wal\<close>), gives the index again, and the read-only reader
  (\<open>WalReader::open\<close>) sees the same pages.
\<close>

section \<open>Frames of earlier generations\<close>

abbreviation frame_len :: "nat \<Rightarrow> nat" where
  "frame_len psize \<equiv> 24 + psize"

definition salt1 :: "bytes \<Rightarrow> u32" where
  "salt1 salt = from_be32 (take 4 salt)"

text \<open>The first salt word of the frame in slot \<open>k\<close>.\<close>

definition slot_salt1 :: "nat \<Rightarrow> bytes \<Rightarrow> nat \<Rightarrow> u32" where
  "slot_salt1 psize b k = from_be32 (take 4 (drop (k * frame_len psize + 8) b))"

definition stale_ok :: "nat \<Rightarrow> nat \<Rightarrow> u32 \<Rightarrow> bytes \<Rightarrow> bool" where
  "stale_ok psize gens s1 b \<longleftrightarrow> (\<forall>k. (k + 1) * frame_len psize \<le> length b \<longrightarrow>
     (\<exists>j. 0 < j \<and> j \<le> gens \<and> slot_salt1 psize b k = s1 - of_nat j))"

lemma stale_ok_short: "length b < frame_len psize \<Longrightarrow> stale_ok psize gens s1 b"
  by (auto simp: stale_ok_def)

lemma stale_ok_drop:
  assumes "stale_ok psize gens s1 b"
  shows "stale_ok psize gens s1 (drop (n * frame_len psize) b)"
  unfolding stale_ok_def
proof (intro allI impI)
  fix k
  assume "(k + 1) * frame_len psize \<le> length (drop (n * frame_len psize) b)"
  then have "(n + k + 1) * frame_len psize \<le> length b" by (simp add: algebra_simps)
  then obtain j where "0 < j" "j \<le> gens" "slot_salt1 psize b (n + k) = s1 - of_nat j"
    using assms unfolding stale_ok_def by blast
  moreover have "slot_salt1 psize (drop (n * frame_len psize) b) k = slot_salt1 psize b (n + k)"
    by (simp add: slot_salt1_def algebra_simps)
  ultimately show "\<exists>j. 0 < j \<and> j \<le> gens \<and> slot_salt1 psize (drop (n * frame_len psize) b) k = s1 - of_nat j"
    by auto
qed

text \<open>A stale frame fails the salt test of the scanners.\<close>

lemma stale_slot_salt:
  assumes "stale_ok psize gens (salt1 salt) b" and "gens < 2 ^ 32" and "frame_len psize \<le> length b"
  shows "take 8 (drop 8 b) \<noteq> salt"
proof
  assume e: "take 8 (drop 8 b) = salt"
  obtain j where j: "0 < j" "j \<le> gens" "slot_salt1 psize b 0 = salt1 salt - of_nat j"
    using assms(1,3) unfolding stale_ok_def by (metis One_nat_def add_0 mult_1)
  have "slot_salt1 psize b 0 = salt1 salt" unfolding salt1_def slot_salt1_def e [symmetric] by simp
  then have "(of_nat j :: u32) = 0" using j(3) by simp
  then have "unat (of_nat j :: u32) = 0" by simp
  then show False using j(1,2) assms(2) by (simp add: unat_of_nat)
qed

section \<open>Scanning a log with a stale tail\<close>

lemma wal_scan_stale:
  assumes "length wal < 2 ^ 64" and "wal = pre @ stale" and "stale_ok psize gens (salt1 salt) stale" and "gens < 2 ^ 32"
  shows "wal_scan be salt psize wal (length pre) s0 s1 pend frames csize = Ok (frames, csize)"
proof (cases "length stale < frame_len psize")
  case True
  then show ?thesis using assms(2) by (intro wal_scan_end) simp
next
  case False
  have "take 8 (drop 8 (take 24 stale)) = take 8 (drop 8 stale)" using False by (simp add: drop_take)
  then have ne: "take 8 (drop 8 (take 24 stale)) \<noteq> salt" using stale_slot_salt [OF assms(3,4)] False by simp
  have r: "read_exact_at wal 24 (length pre) = Ok (take 24 stale)"
    "read_exact_at wal psize (length pre + 24) = Ok (take psize (drop 24 stale))"
    using False assms(1,2) by simp_all
  show ?thesis using False assms(2) ne r by (subst wal_scan.simps) (simp add: FRAME_HEADER_LEN_def)
qed

lemma attach_scan_stale:
  assumes "length wal < 2 ^ 64" and "wal = pre @ stale" and "stale_ok psize gens (salt1 salt) stale" and "gens < 2 ^ 32"
  shows "attach_scan be salt psize wal (length pre) s0 s1 st = Ok st"
proof (cases "length stale < frame_len psize")
  case True
  then show ?thesis using assms(2) by (subst attach_scan.simps) (simp add: FRAME_HEADER_LEN_def)
next
  case False
  have "take 8 (drop 8 (take 24 stale)) = take 8 (drop 8 stale)" using False by (simp add: drop_take)
  then have ne: "take 8 (drop 8 (take 24 stale)) \<noteq> salt" using stale_slot_salt [OF assms(3,4)] False by simp
  have r: "read_exact_at wal 24 (length pre) = Ok (take 24 stale)"
    "read_exact_at wal psize (length pre + 24) = Ok (take psize (drop 24 stale))"
    using False assms(1,2) by simp_all
  show ?thesis using False assms(2) ne r by (subst attach_scan.simps) (simp add: FRAME_HEADER_LEN_def)
qed

text \<open>What \<open>attach_wal\<close> makes of a log: every frame, and what held at the last commit frame.\<close>

definition scan_frame :: "nat \<Rightarrow> nat \<Rightarrow> (u32 \<times> u32) \<Rightarrow> log_entry \<Rightarrow> scan_state \<Rightarrow> scan_state" where
  "scan_frame psize off ck e st =
    (let log = sc_log st @ [e] in
     if fst (snd e) \<noteq> 0
     then \<lparr>sc_log = log, sc_len = length log, sc_off = off + frame_len psize, sc_cksum = ck, sc_size = fst (snd e)\<rparr>
     else st\<lparr>sc_log := log\<rparr>)"

fun scan_log :: "bool \<Rightarrow> bytes \<Rightarrow> nat \<Rightarrow> nat \<Rightarrow> u32 \<times> u32 \<Rightarrow> log_entry list \<Rightarrow> scan_state \<Rightarrow> scan_state" where
  "scan_log be salt psize off ck [] st = st"
| "scan_log be salt psize off ck ((p, sz, dat) # rest) st =
    (let ck' = snd (wal_frame be salt ck p sz dat) in
     scan_log be salt psize (off + frame_len psize) ck' rest (scan_frame psize off ck' (p, sz, dat) st))"

lemma attach_scan_frame:
  assumes "length salt = 8" and "length dat = psize" and "length wal < 2 ^ 64"
    and "wal_frame be salt (s0, s1) p sz dat = (bs, c0, c1)" and "wal = pre @ bs @ post"
  shows "attach_scan be salt psize wal (length pre) s0 s1 st =
    attach_scan be salt psize wal (length pre + frame_len psize) c0 c1 (scan_frame psize (length pre) (c0, c1) (p, sz, dat) st)"
proof -
  obtain a0 a1 where a: "wal_checksum be s0 s1 (to_be32 p @ to_be32 sz) = (a0, a1)" by fastforce
  have c: "wal_checksum be a0 a1 dat = (c0, c1)"
    and bs: "bs = (to_be32 p @ to_be32 sz @ salt @ to_be32 c0 @ to_be32 c1) @ dat"
    using assms(4) a by (auto simp: wal_frame_def Let_def split: prod.splits)
  let ?h = "to_be32 p @ to_be32 sz @ salt @ to_be32 c0 @ to_be32 c1"
  have len: "length pre + frame_len psize \<le> length wal" "length bs = frame_len psize" using assms(1,2,5) bs by simp_all
  have r: "read_exact_at wal 24 (length pre) = Ok ?h" "read_exact_at wal psize (length pre + 24) = Ok dat"
    using len assms(1-3) by simp_all (simp_all add: assms(5) bs)
  have f: "take 8 (drop 8 ?h) = salt" "take 8 ?h = to_be32 p @ to_be32 sz"
    "be_u32 ?h 16 = Ok c0" "be_u32 ?h 20 = Ok c1" "be_u32 ?h 0 = Ok p" "be_u32 ?h 4 = Ok sz"
    using assms(1) by simp_all
  show ?thesis
    using len r f a c
    by (subst attach_scan.simps) (simp add: FRAME_HEADER_LEN_def Let_def scan_frame_def del: take_append drop_append)
qed

lemma attach_scan_log:
  assumes "length salt = 8" and "log_ok psize log" and "length wal < 2 ^ 64"
    and "wal = pre @ encode_log be salt (s0, s1) log @ stale"
    and "stale_ok psize gens (salt1 salt) stale" and "gens < 2 ^ 32"
  shows "attach_scan be salt psize wal (length pre) s0 s1 st = Ok (scan_log be salt psize (length pre) (s0, s1) log st)"
  using assms
proof (induction log arbitrary: pre s0 s1 st)
  case Nil
  then show ?case using attach_scan_stale [OF Nil(3) _ Nil(5,6)] by simp
next
  case (Cons e log)
  obtain p sz dat where e: "e = (p, sz, dat)" by (cases e)
  obtain bs c0 c1 where f: "wal_frame be salt (s0, s1) p sz dat = (bs, c0, c1)" by (metis prod_cases3)
  have dat: "length dat = psize" and ok: "log_ok psize log" using Cons.prems(2) e by (simp_all add: log_ok_def)
  have w: "wal = pre @ bs @ encode_log be salt (c0, c1) log @ stale" using Cons.prems(4) e f by simp
  have w2: "wal = (pre @ bs) @ encode_log be salt (c0, c1) log @ stale" using w by simp
  have bl: "length bs = frame_len psize" using length_wal_frame [OF Cons.prems(1), of be "(s0, s1)" p sz dat] f dat by simp
  show ?case
    using attach_scan_frame [OF Cons.prems(1) dat Cons.prems(3) f w]
      Cons.IH [OF Cons.prems(1) ok Cons.prems(3) w2 Cons.prems(5,6)] e f bl by (simp add: Let_def)
qed

lemma scan_log_append:
  "scan_log be salt psize off ck (xs @ ys) st =
    scan_log be salt psize (off + length xs * frame_len psize) (log_ck be salt ck xs) ys (scan_log be salt psize off ck xs st)"
proof (induction xs arbitrary: off ck st)
  case (Cons e xs)
  then show ?case by (cases e) (simp add: Let_def algebra_simps)
qed simp

lemma sc_log_scan: "sc_log (scan_log be salt psize off ck log st) = sc_log st @ log"
proof (induction log arbitrary: off ck st)
  case (Cons e log)
  then show ?case by (cases e) (simp add: Let_def scan_frame_def)
qed simp

lemma scan_log_committed:
  assumes "log \<noteq> []" and "fst (snd (last log)) \<noteq> 0" and "sc_log st = []"
  shows "scan_log be salt psize off ck log st =
    \<lparr>sc_log = log, sc_len = length log, sc_off = off + length log * frame_len psize, sc_cksum = log_ck be salt ck log,
     sc_size = fst (snd (last log))\<rparr>"
proof -
  obtain xs e where l: "log = xs @ [e]" using assms(1) by (cases log rule: rev_cases) auto
  obtain p sz dat where e: "e = (p, sz, dat)" by (cases e)
  have "sz \<noteq> 0" using assms(2) l e by simp
  then show ?thesis unfolding l e scan_log_append
    using assms(3) by (simp add: Let_def scan_frame_def sc_log_scan log_ck_append algebra_simps)
qed

section \<open>The file and the index\<close>

definition entries_of :: "wal_index \<Rightarrow> log_entry list" where
  "entries_of ix = map (\<lambda>f. (if_page_no f, if_commit_db_size f, if_data f)) (ix_log ix)"

lemma frames_entries: "map (\<lambda>(p, c, d). \<lparr>if_page_no = p, if_commit_db_size = c, if_data = d\<rparr>) (entries_of ix) = ix_log ix"
  by (auto simp: entries_of_def comp_def intro!: map_idI)

definition encodes :: "nat \<Rightarrow> bytes \<Rightarrow> wal_index \<Rightarrow> bytes \<Rightarrow> bool" where
  "encodes psize wal ix stale \<longleftrightarrow>
    wal = log_bytes (ix_big_end_cksum ix) psize (ix_ckpt_seq ix) (ix_salt ix) (entries_of ix) @ stale \<and>
    log_ok psize (entries_of ix) \<and> ix_page_size ix = of_nat psize \<and>
    ix_next_offset ix = WAL_HEADER_LEN + length (ix_log ix) * frame_len psize \<and>
    ix_cksum ix = log_ck (ix_big_end_cksum ix) (ix_salt ix)
      (snd (wal_header (ix_big_end_cksum ix) psize (ix_ckpt_seq ix) (ix_salt ix))) (entries_of ix)"

definition file_inv :: "nat \<Rightarrow> bytes \<Rightarrow> wal_index \<Rightarrow> bool" where
  "file_inv psize wal ix \<longleftrightarrow> length (ix_salt ix) = 8 \<and>
    (if ix_log ix = [] then ix_mx_frame ix = 0 \<and> stale_ok psize (unat (ix_ckpt_seq ix)) (salt1 (ix_salt ix)) (drop WAL_HEADER_LEN wal)
     else ix_mx_frame ix = of_nat (length (ix_log ix)) \<and> length (ix_log ix) < 2 ^ 32 \<and>
       (\<exists>stale. encodes psize wal ix stale \<and> stale_ok psize (unat (ix_ckpt_seq ix)) (salt1 (ix_salt ix)) stale))"

text \<open>The log as a whole: header, frames, stale frames of earlier generations.\<close>

lemma wal_header_length: "length salt = 8 \<Longrightarrow> length (fst (wal_header be psize seqno salt)) = WAL_HEADER_LEN"
  by (simp add: wal_header_def Let_def WAL_HEADER_LEN_def split: prod.splits)

lemma length_log_bytes:
  "length salt = 8 \<Longrightarrow> log_ok psize log \<Longrightarrow>
    length (log_bytes be psize seqno salt log) = WAL_HEADER_LEN + length log * frame_len psize"
  using wal_header_length [of salt be psize seqno]
  by (auto simp: log_bytes_def length_encode_log split: prod.splits)

lemma header_fields:
  assumes "length salt = 8" and "wal_header be psize seqno salt = (hdr, h0, h1)"
  shows "length hdr = 32" "be_u32 hdr 0 = Ok (WAL_MAGIC_BE OR (if be then 1 else 0))" "be_u32 hdr 8 = Ok (of_nat psize)"
    "be_u32 hdr 12 = Ok seqno" "be_u32 hdr 24 = Ok h0" "be_u32 hdr 28 = Ok h1" "take 8 (drop 16 hdr) = salt"
    "wal_checksum be 0 0 (take 24 hdr) = (h0, h1)"
  using assms by (auto simp: wal_header_def Let_def split: prod.splits)

lemma read_header:
  assumes "length salt = 8" and "wal_header be psize seqno salt = (hdr, h0, h1)"
    and "wal = log_bytes be psize seqno salt log @ stale" and "length wal < 2 ^ 64"
  shows "read_exact_at wal WAL_HEADER_LEN 0 = Ok hdr" "\<not> length wal < WAL_HEADER_LEN"
    "wal = hdr @ encode_log be salt (h0, h1) log @ stale"
proof -
  have l: "length hdr = WAL_HEADER_LEN" using wal_header_length [OF assms(1), of be psize seqno] assms(2) by simp
  show w: "wal = hdr @ encode_log be salt (h0, h1) log @ stale" using assms(2,3) by (simp add: log_bytes_def)
  then show "\<not> length wal < WAL_HEADER_LEN" using l by simp
  moreover have "take WAL_HEADER_LEN wal = hdr" unfolding w using l by simp
  ultimately show "read_exact_at wal WAL_HEADER_LEN 0 = Ok hdr" using assms(4) by simp
qed

text \<open>A process that opens the file gets the index back, apart from readers, backfill and generation.\<close>

definition reopened :: "wal_index \<Rightarrow> wal_index" where
  "reopened ix = ix\<lparr>ix_n_backfill := 0, ix_generation := 0, ix_readers := []\<rparr>"

definition reopened_runtime :: "wal_index \<Rightarrow> wal_runtime" where
  "reopened_runtime ix = \<lparr>rt_snapshot = \<lparr>sn_mx_frame = ix_mx_frame ix, sn_generation = 0\<rparr>, rt_registered = None,
     rt_db_size = if_commit_db_size (last (ix_log ix)), rt_salt = ix_salt ix\<rparr>"

lemma attach_wal_reopens:
  assumes inv: "file_inv psize wal ix" and log: "ix_log ix \<noteq> []" "if_commit_db_size (last (ix_log ix)) \<noteq> 0"
    and sz: "psize < 2 ^ 32" "length wal < 2 ^ 64"
  shows "attach_wal wal psize (index_new native_be) = Ok (Some (reopened_runtime ix), reopened ix)"
proof -
  let ?be = "ix_big_end_cksum ix" and ?seq = "ix_ckpt_seq ix" and ?salt = "ix_salt ix" and ?log = "entries_of ix"
  obtain stale where e: "encodes psize wal ix stale" and st: "stale_ok psize (unat ?seq) (salt1 ?salt) stale"
    and mx: "ix_mx_frame ix = of_nat (length (ix_log ix))" and salt: "length ?salt = 8"
    using inv log by (auto simp: file_inv_def)
  obtain hdr h0 h1 where h: "wal_header ?be psize ?seq ?salt = (hdr, h0, h1)" by (metis prod_cases3)
  have w: "wal = log_bytes ?be psize ?seq ?salt ?log @ stale" and ok: "log_ok psize ?log"
    using e by (simp_all add: encodes_def)
  note rh = read_header [OF salt h w sz(2)] and hf = header_fields [OF salt h]
  let ?st0 = "\<lparr>sc_log = [], sc_len = 0, sc_off = WAL_HEADER_LEN, sc_cksum = (h0, h1), sc_size = 0\<rparr>"
  have gens: "unat ?seq < 2 ^ 32" using unat_less_length [of ?seq] by simp
  have hl: "WAL_HEADER_LEN = length hdr" using hf(1) by (simp add: WAL_HEADER_LEN_def)
  have lg: "?log \<noteq> []" "fst (snd (last ?log)) = if_commit_db_size (last (ix_log ix))" "length ?log = length (ix_log ix)"
    using log by (simp_all add: entries_of_def last_map)
  have "attach_scan ?be ?salt psize wal WAL_HEADER_LEN h0 h1 ?st0 =
      Ok (scan_log ?be ?salt psize WAL_HEADER_LEN (h0, h1) ?log ?st0)"
    unfolding hl by (rule attach_scan_log [OF salt ok sz(2) rh(3) st gens])
  also have "scan_log ?be ?salt psize WAL_HEADER_LEN (h0, h1) ?log ?st0 =
      \<lparr>sc_log = ?log, sc_len = length ?log, sc_off = ix_next_offset ix, sc_cksum = ix_cksum ix,
       sc_size = if_commit_db_size (last (ix_log ix))\<rparr>"
    using scan_log_committed [OF lg(1), of ?st0] log(2) lg e h by (simp add: encodes_def)
  finally have sc: "attach_scan ?be ?salt psize wal WAL_HEADER_LEN h0 h1 ?st0 =
      Ok \<lparr>sc_log = ?log, sc_len = length ?log, sc_off = ix_next_offset ix, sc_cksum = ix_cksum ix,
          sc_size = if_commit_db_size (last (ix_log ix))\<rparr>" .
  have "unat (of_nat psize :: u32) = psize" using sz(1) by (simp add: unat_of_nat)
  then show ?thesis
    unfolding attach_wal_def
    using rh(1,2) hf sc lg(1,3) log(1) e mx frames_entries [of ix]
    by (simp add: magic_bits Let_def writer_state_def index_new_def reopened_def reopened_runtime_def index_snapshot_def
        index_seed_def encodes_def)
qed

section \<open>The read-only reader agrees\<close>

definition pages_of :: "log_entry list \<Rightarrow> (u32 \<times> bytes) list" where
  "pages_of log = map (\<lambda>(p, sz, dat). (p, dat)) log"

lemma replay_committed:
  "log \<noteq> [] \<Longrightarrow> fst (snd (last log)) \<noteq> 0 \<Longrightarrow>
    replay log pend frames csize = ([], fold (\<lambda>(p, d). bm_insert p d) (pend @ pages_of log) frames, fst (snd (last log)))"
proof (induction log arbitrary: pend frames csize)
  case (Cons e log)
  obtain p sz dat where e: "e = (p, sz, dat)" by (cases e)
  show ?case
  proof (cases "log = []")
    case True
    then show ?thesis using Cons.prems e by (simp add: pages_of_def)
  next
    case False
    then show ?thesis using Cons e by (cases "sz = 0") (simp_all add: pages_of_def)
  qed
qed simp

lemma bm_get_pages:
  "bm_get (fold (\<lambda>(p, d). bm_insert p d) (map (\<lambda>f. (if_page_no f, if_data f)) log) []) p =
    map_option (\<lambda>i. if_data (log ! i)) (newest p log)"
proof (induction log rule: rev_induct)
  case (snoc f log)
  then show ?case
    by (cases "newest p log") (auto simp: bm_get_insert_any newest_snoc nth_append dest: newest_SomeD)
qed (simp add: bm_get_def)

lemma wal_load_stale:
  assumes "length salt = 8" and "512 \<le> psize" and "psize < 2 ^ 32" and "wal_power_of_two psize" and "log_ok psize log"
    and "wal = log_bytes be psize seqno salt log @ stale" and "length wal < 2 ^ 64"
    and "stale_ok psize gens (salt1 salt) stale" and "gens < 2 ^ 32"
    and "replay log [] [] 0 = (pend', frames', csize')"
  shows "wal_load wal = Ok (frames', csize', psize)"
proof -
  obtain hdr h0 h1 where h: "wal_header be psize seqno salt = (hdr, h0, h1)" by (metis prod_cases3)
  note rh = read_header [OF assms(1) h assms(6,7)] and hf = header_fields [OF assms(1) h]
  obtain c0 c1 where c: "log_ck be salt (h0, h1) log = (c0, c1)" by fastforce
  have "wal = (hdr @ encode_log be salt (h0, h1) log) @ stale" using rh(3) by simp
  from wal_scan_stale [OF assms(7) this assms(8,9)]
  have "wal_scan be salt psize wal (length hdr + length log * frame_len psize) c0 c1 pend' frames' csize' = Ok (frames', csize')"
    by (simp add: length_encode_log [OF assms(1,5)])
  then have sc: "wal_scan be salt psize wal WAL_HEADER_LEN h0 h1 [] [] 0 = Ok (frames', csize')"
    using wal_scan_log [OF assms(1,5,7) rh(3) assms(10)] c hf(1) by (simp add: WAL_HEADER_LEN_def)
  have u: "unat (of_nat psize :: u32) = psize" using assms(3) by (simp add: unat_of_nat)
  show ?thesis
    unfolding wal_load_def using rh(1,2) hf u sc assms(2,4) by (simp add: magic_bits Let_def)
qed

lemma readers_agree:
  assumes inv: "file_inv psize wal ix" and log: "ix_log ix \<noteq> []" "if_commit_db_size (last (ix_log ix)) \<noteq> 0"
    and sz: "512 \<le> psize" "psize < 2 ^ 32" "wal_power_of_two psize" "length wal < 2 ^ 64"
  shows "\<exists>frames. wal_load wal = Ok (frames, if_commit_db_size (last (ix_log ix)), psize) \<and>
    (\<forall>p. bm_get frames p = find_frame ix p (ix_mx_frame ix))"
proof -
  obtain stale where e: "encodes psize wal ix stale" and st: "stale_ok psize (unat (ix_ckpt_seq ix)) (salt1 (ix_salt ix)) stale"
    and mx: "ix_mx_frame ix = of_nat (length (ix_log ix))" "length (ix_log ix) < 2 ^ 32" and salt: "length (ix_salt ix) = 8"
    using inv log by (auto simp: file_inv_def)
  have w: "wal = log_bytes (ix_big_end_cksum ix) psize (ix_ckpt_seq ix) (ix_salt ix) (entries_of ix) @ stale"
    and ok: "log_ok psize (entries_of ix)" using e by (simp_all add: encodes_def)
  have lg: "entries_of ix \<noteq> []" "fst (snd (last (entries_of ix))) = if_commit_db_size (last (ix_log ix))"
    using log by (simp_all add: entries_of_def last_map)
  have pg: "pages_of (entries_of ix) = map (\<lambda>f. (if_page_no f, if_data f)) (ix_log ix)"
    by (simp add: pages_of_def entries_of_def)
  have gens: "unat (ix_ckpt_seq ix) < 2 ^ 32" using unat_less_length [of "ix_ckpt_seq ix"] by simp
  have m: "unat (ix_mx_frame ix) = length (ix_log ix)" using mx by (simp add: unat_of_nat)
  have "find_frame ix p (ix_mx_frame ix) = map_option (\<lambda>i. if_data (ix_log ix ! i)) (newest p (ix_log ix))" for p
    using m by (simp add: find_frame_newest)
  moreover have "replay (entries_of ix) [] [] 0 = ([], fold (\<lambda>(p, d). bm_insert p d) (pages_of (entries_of ix)) [],
      if_commit_db_size (last (ix_log ix)))"
    using replay_committed [OF lg(1)] lg(2) log(2) by simp
  from wal_load_stale [OF salt sz(1-3) ok w sz(4) st gens this]
  have "wal_load wal = Ok (fold (\<lambda>(p, d). bm_insert p d) (pages_of (entries_of ix)) [], if_commit_db_size (last (ix_log ix)), psize)" .
  ultimately show ?thesis using bm_get_pages [of "ix_log ix"] pg by auto
qed

section \<open>Commits keep the file and the index together\<close>

lemma write_at_over: "write_at (pre @ old) (length pre) buf = pre @ buf @ drop (length buf) old"
  by (rule nth_equalityI) (auto simp: nth_write_at nth_append max_def split: if_splits)

text \<open>The frames a commit publishes, with the offset and the checksum after each.\<close>

fun published :: "bool \<Rightarrow> bytes \<Rightarrow> nat \<Rightarrow> nat \<Rightarrow> u32 \<times> u32 \<Rightarrow> log_entry list \<Rightarrow> appended_frame list" where
  "published be salt psize off ck [] = []"
| "published be salt psize off ck ((p, sz, dat) # rest) =
    (let ck' = snd (wal_frame be salt ck p sz dat) in
     (p, sz, dat, off + frame_len psize, ck') # published be salt psize (off + frame_len psize) ck' rest)"

lemma commit_frames_over:
  assumes "length salt = 8" and "list_all (\<lambda>(p, dat). length dat = psize) pgs"
    and "length pre + length pgs * frame_len psize < 2 ^ 64"
  shows "commit_frames be salt psize cnt pgs (length pre) ck (pre @ old) =
    Ok (pre @ encode_log be salt ck (commit_entries cnt pgs) @ drop (length pgs * frame_len psize) old,
        published be salt psize (length pre) ck (commit_entries cnt pgs))"
  using assms
proof (induction pgs arbitrary: ck pre old)
  case (Cons r pgs)
  obtain p dat where r: "r = (p, dat)" by (cases r)
  let ?sz = "if pgs = [] then cnt else 0"
  obtain bs ck' where f: "wal_frame be salt ck p ?sz dat = (bs, ck')" by (cases "wal_frame be salt ck p ?sz dat")
  have bl: "length bs = frame_len psize"
    using length_wal_frame [OF Cons.prems(1), of be ck p ?sz dat] f Cons.prems(2) r by simp
  have wr: "write_all_at (pre @ old) bs (length pre) = Ok ((pre @ bs) @ drop (frame_len psize) old)"
    using Cons.prems(3) bl write_at_over by simp
  have off: "length pre + (FRAME_HEADER_LEN + psize) = length (pre @ bs)" using bl by (simp add: FRAME_HEADER_LEN_def)
  have "length (pre @ bs) + length pgs * frame_len psize < 2 ^ 64" using Cons.prems(3) bl by simp
  from Cons.IH [OF Cons.prems(1) _ this, of ck' "drop (frame_len psize) old"] Cons.prems(2)
  have ih: "commit_frames be salt psize cnt pgs (length (pre @ bs)) ck' ((pre @ bs) @ drop (frame_len psize) old) =
      Ok ((pre @ bs) @ encode_log be salt ck' (commit_entries cnt pgs) @ drop (length pgs * frame_len psize) (drop (frame_len psize) old),
          published be salt psize (length (pre @ bs)) ck' (commit_entries cnt pgs))" by simp
  have dr: "drop (length pgs * frame_len psize) (drop (frame_len psize) old) = drop (length (r # pgs) * frame_len psize) old"
    by (simp add: algebra_simps)
  show ?case
    unfolding r commit_frames.simps
    using ih wr f bl by (simp add: Let_def off dr r add.commute)
qed simp

lemma published_entries: "map (\<lambda>(p, sz, dat, _). (p, sz, dat)) (published be salt psize off ck log) = log"
proof (induction log arbitrary: off ck)
  case (Cons e log)
  then show ?case by (cases e) (simp add: Let_def)
qed simp

lemma published_last:
  "log \<noteq> [] \<Longrightarrow> snd (snd (snd (last (published be salt psize off ck log)))) = (off + length log * frame_len psize, log_ck be salt ck log)"
proof (induction log arbitrary: off ck)
  case (Cons e log)
  obtain p sz dat where e: "e = (p, sz, dat)" by (cases e)
  show ?case
  proof (cases log)
    case (Cons e' log')
    then have "published be salt psize o2 c2 log \<noteq> []" for o2 c2 by (cases e') (simp add: Let_def)
    then show ?thesis using Cons.IH Cons e by (simp add: Let_def algebra_simps)
  qed (simp add: e Let_def)
qed simp

lemma publish_rest:
  "ix_ckpt_seq (publish salt ps app ix) = ix_ckpt_seq ix \<and> ix_big_end_cksum (publish salt ps app ix) = ix_big_end_cksum ix \<and>
   (app \<noteq> [] \<longrightarrow> ix_salt (publish salt ps app ix) = salt \<and> ix_page_size (publish salt ps app ix) = ps \<and>
     (ix_next_offset (publish salt ps app ix), ix_cksum (publish salt ps app ix)) = snd (snd (snd (last app))))"
proof (induction app arbitrary: ix)
  case Nil
  then show ?case by (simp add: publish_def)
next
  case (Cons a app)
  obtain p sz dat off ck where a: "a = (p, sz, dat, off, ck)" by (metis prod_cases5)
  have *: "publish salt ps (a # app) ix = publish salt ps app (index_append p sz salt dat off ck ps ix)"
    by (simp add: publish_def a)
  show ?case
    unfolding * using Cons.IH [of "index_append p sz salt dat off ck ps ix"]
    by (cases "app = []") (simp_all add: index_append_def a publish_def)
qed

lemma entries_publish:
  "entries_of (publish salt ps app ix) = entries_of ix @ map (\<lambda>(p, sz, dat, _). (p, sz, dat)) app"
  using publish_fields [of salt ps app ix] by (auto simp: entries_of_def)

text \<open>Where a commit starts to write: after the log, or after a header of its own.\<close>

definition log_start :: "bool \<Rightarrow> nat \<Rightarrow> wal_index \<Rightarrow> bytes \<Rightarrow> nat \<times> (u32 \<times> u32) \<times> bool \<times> bytes" where
  "log_start native_be psize ix wal =
    (if ix_log ix = []
     then (WAL_HEADER_LEN, snd (wal_header native_be psize (ix_ckpt_seq ix) (ix_salt ix)), native_be,
           write_at wal 0 (fst (wal_header native_be psize (ix_ckpt_seq ix) (ix_salt ix))))
     else (ix_next_offset ix, ix_cksum ix, ix_big_end_cksum ix, wal))"

lemma log_start_file:
  assumes inv: "file_inv psize wal ix" and be: "ix_log ix = [] \<Longrightarrow> ix_big_end_cksum ix = native_be"
    and st: "log_start native_be psize ix wal = (off, ck, be, wal')"
  shows "\<exists>stale. wal' = log_bytes be psize (ix_ckpt_seq ix) (ix_salt ix) (entries_of ix) @ stale \<and>
    stale_ok psize (unat (ix_ckpt_seq ix)) (salt1 (ix_salt ix)) stale \<and> log_ok psize (entries_of ix) \<and> be = ix_big_end_cksum ix \<and>
    off = WAL_HEADER_LEN + length (ix_log ix) * frame_len psize \<and>
    ck = log_ck be (ix_salt ix) (snd (wal_header be psize (ix_ckpt_seq ix) (ix_salt ix))) (entries_of ix)"
proof (cases "ix_log ix = []")
  case True
  obtain hdr h where h: "wal_header native_be psize (ix_ckpt_seq ix) (ix_salt ix) = (hdr, h)"
    by (cases "wal_header native_be psize (ix_ckpt_seq ix) (ix_salt ix)")
  have "length (ix_salt ix) = 8" using inv by (simp add: file_inv_def)
  then have "length hdr = WAL_HEADER_LEN" using wal_header_length [of "ix_salt ix" native_be psize "ix_ckpt_seq ix"] h by simp
  then have "write_at wal 0 hdr = hdr @ drop WAL_HEADER_LEN wal" using write_at_over [of "[]" wal hdr] by simp
  then show ?thesis using True inv st be h
    by (intro exI [of _ "drop WAL_HEADER_LEN wal"])
       (auto simp: log_start_def file_inv_def log_bytes_def entries_of_def log_ok_def)
next
  case False
  then obtain stale where s: "encodes psize wal ix stale" "stale_ok psize (unat (ix_ckpt_seq ix)) (salt1 (ix_salt ix)) stale"
    using inv by (auto simp: file_inv_def)
  then show ?thesis using False st by (intro exI [of _ stale]) (auto simp: log_start_def encodes_def)
qed

lemma commit_file_inv:
  assumes inv: "file_inv psize wal ix" and be: "ix_log ix = [] \<Longrightarrow> ix_big_end_cksum ix = native_be"
    and st: "log_start native_be psize ix wal = (off, ck, be, wal')"
    and pgs: "pgs \<noteq> []" "list_all (\<lambda>(p, dat). length dat = psize) pgs"
    and room: "length (ix_log ix) + length pgs < 2 ^ 32" "off + length pgs * frame_len psize < 2 ^ 64"
  shows "\<exists>wal'' app. commit_frames be (ix_salt ix) psize cnt pgs off ck wal' = Ok (wal'', app) \<and>
    map (\<lambda>(p, sz, dat, _). (p, sz, dat)) app = commit_entries cnt pgs \<and>
    file_inv psize wal'' (publish (ix_salt ix) (of_nat psize) app ix) \<and>
    length wal'' \<le> max (length wal') (off + length pgs * frame_len psize)"
proof -
  let ?salt = "ix_salt ix" and ?es = "commit_entries cnt pgs" and ?seq = "ix_ckpt_seq ix"
  obtain stale where w: "wal' = log_bytes be psize ?seq ?salt (entries_of ix) @ stale"
    "stale_ok psize (unat ?seq) (salt1 ?salt) stale" "log_ok psize (entries_of ix)" "be = ix_big_end_cksum ix"
    "off = WAL_HEADER_LEN + length (ix_log ix) * frame_len psize"
    "ck = log_ck be ?salt (snd (wal_header be psize ?seq ?salt)) (entries_of ix)"
    using log_start_file [OF inv be st] by blast
  have salt: "length ?salt = 8" using inv by (simp add: file_inv_def)
  have off: "off = length (log_bytes be psize ?seq ?salt (entries_of ix))"
    using length_log_bytes [OF salt w(3)] w(5) by (simp add: entries_of_def)
  let ?app = "published be ?salt psize off ck ?es"
  let ?ix = "publish ?salt (of_nat psize) ?app ix"
  let ?stale = "drop (length pgs * frame_len psize) stale"
  have ap: "map (\<lambda>(p, sz, dat, _). (p, sz, dat)) ?app = ?es" by (rule published_entries)
  have ne: "?es \<noteq> []" "?app \<noteq> []" using pgs(1) ap by (cases pgs; force)+
  have ok: "log_ok psize (entries_of ?ix)"
    using w(3) pgs(2) ap log_ok_commit_entries [of pgs psize cnt] by (auto simp: entries_publish list_all_iff)
  have cf: "commit_frames be ?salt psize cnt pgs off ck wal' =
      Ok (log_bytes be psize ?seq ?salt (entries_of ?ix) @ ?stale, ?app)"
    using commit_frames_over [OF salt pgs(2), of "log_bytes be psize ?seq ?salt (entries_of ix)" be cnt ck stale] room(2) off w
    by (simp add: entries_publish published_entries log_bytes_append)
  have lp: "(ix_next_offset ?ix, ix_cksum ?ix) = (off + length ?es * frame_len psize, log_ck be ?salt ck ?es)"
    using publish_rest [of ?salt "of_nat psize" ?app ix] published_last [OF ne(1), of be ?salt psize off ck] ne(2) by simp
  have len: "length (ix_log ?ix) = length (ix_log ix) + length pgs" "ix_log ?ix \<noteq> []" "length ?app = length pgs"
    using publish_fields [of ?salt "of_nat psize" ?app ix] arg_cong [OF ap, of length] ne(2) by simp_all
  have "encodes psize (log_bytes be psize ?seq ?salt (entries_of ?ix) @ ?stale) ?ix ?stale"
    using publish_rest [of ?salt "of_nat psize" ?app ix] ne(2) lp ok w len
    by (simp add: encodes_def entries_publish published_entries log_ck_append algebra_simps)
  moreover have "stale_ok psize (unat (ix_ckpt_seq ?ix)) (salt1 (ix_salt ?ix)) ?stale"
    using publish_rest [of ?salt "of_nat psize" ?app ix] ne(2) stale_ok_drop [OF w(2)] by simp
  ultimately have "file_inv psize (log_bytes be psize ?seq ?salt (entries_of ?ix) @ ?stale) ?ix"
    unfolding file_inv_def
    using publish_rest [of ?salt "of_nat psize" ?app ix] publish_fields [of ?salt "of_nat psize" ?app ix] ne(2) salt len room(1)
    by auto
  moreover have "length (log_bytes be psize ?seq ?salt (entries_of ?ix) @ ?stale) \<le> max (length wal') (off + length pgs * frame_len psize)"
    using length_log_bytes [OF salt ok] len(1) w(1,5) off by (auto simp: entries_of_def algebra_simps max_def)
  ultimately show ?thesis using cf ap by blast
qed

section \<open>Restarting keeps the file readable\<close>

lemma next_salt_props: "length (next_salt salt) = 8" "salt1 (next_salt salt) = salt1 salt + 1"
  by (simp_all add: next_salt_def salt1_def Let_def)

lemma take4_salt: "length salt = 8 \<Longrightarrow> take 4 (drop 8 (fst (wal_frame be salt ck p sz dat))) = take 4 salt"
  by (simp add: wal_frame_def Let_def split: prod.splits)

lemma slot_in_log:
  assumes "length salt = 8"
  shows "log_ok psize log \<Longrightarrow> k < length log \<Longrightarrow> slot_salt1 psize (encode_log be salt ck log @ rest) k = salt1 salt"
proof (induction log arbitrary: ck k)
  case (Cons e log)
  obtain p sz dat where e: "e = (p, sz, dat)" by (cases e)
  obtain bs ck' where f: "wal_frame be salt ck p sz dat = (bs, ck')" by (cases "wal_frame be salt ck p sz dat")
  have bl: "length bs = frame_len psize"
    using length_wal_frame [OF assms, of be ck p sz dat] f Cons.prems(1) e by (simp add: log_ok_def)
  show ?case
  proof (cases k)
    case 0
    then show ?thesis using take4_salt [OF assms, of be ck p sz dat] f e bl by (simp add: slot_salt1_def salt1_def)
  next
    case (Suc k')
    have "slot_salt1 psize (encode_log be salt ck' log @ rest) k' = salt1 salt"
      using Cons.IH [of k' ck'] Cons.prems Suc by (simp add: log_ok_def)
    then show ?thesis using Suc f e bl by (simp add: slot_salt1_def add.assoc add.commute [of 8])
  qed
qed simp

lemma stale_ok_next:
  assumes "length salt = 8" and "log_ok psize log" and "stale_ok psize gens (salt1 salt) stale"
  shows "stale_ok psize (gens + 1) (salt1 salt + 1) (encode_log be salt ck log @ stale)"
  unfolding stale_ok_def
proof (intro allI impI)
  fix k
  let ?b = "encode_log be salt ck log @ stale"
  assume k: "(k + 1) * frame_len psize \<le> length ?b"
  show "\<exists>j. 0 < j \<and> j \<le> gens + 1 \<and> slot_salt1 psize ?b k = salt1 salt + 1 - of_nat j"
  proof (cases "k < length log")
    case True
    then show ?thesis using slot_in_log [OF assms(1,2) True] by (intro exI [of _ 1]) simp
  next
    case False
    then obtain d where d: "k = length log + d" by (metis le_add_diff_inverse not_less)
    have l: "length (encode_log be salt ck log) = length log * frame_len psize" by (rule length_encode_log [OF assms(1,2)])
    have "(d + 1) * frame_len psize \<le> length stale" using k l d by (simp add: algebra_simps)
    then obtain j where j: "0 < j" "j \<le> gens" "slot_salt1 psize stale d = salt1 salt - of_nat j"
      using assms(3) unfolding stale_ok_def by blast
    have "slot_salt1 psize ?b k = slot_salt1 psize stale d"
      using l d by (simp add: slot_salt1_def algebra_simps)
    then show ?thesis using j by (intro exI [of _ "j + 1"]) simp
  qed
qed

lemma stale_ok_mono: "stale_ok psize gens s1 b \<Longrightarrow> stale_ok psize (gens + 1) (s1 + 1) b"
  unfolding stale_ok_def
proof (intro allI impI)
  fix k
  assume a: "\<forall>k. (k + 1) * frame_len psize \<le> length b \<longrightarrow> (\<exists>j>0. j \<le> gens \<and> slot_salt1 psize b k = s1 - of_nat j)"
    and k: "(k + 1) * frame_len psize \<le> length b"
  obtain j where "0 < j" "j \<le> gens" "slot_salt1 psize b k = s1 - of_nat j" using a k by blast
  then show "\<exists>j>0. j \<le> gens + 1 \<and> slot_salt1 psize b k = s1 + 1 - of_nat j" by (intro exI [of _ "j + 1"]) simp
qed

lemma file_inv_restart:
  assumes inv: "file_inv psize wal ix" and seq: "ix_ckpt_seq ix \<noteq> - 1"
  shows "file_inv psize wal (restart_hdr native_be ix)"
proof -
  have u: "unat (ix_ckpt_seq ix + 1) = unat (ix_ckpt_seq ix) + 1"
    using seq unatSuc [of "ix_ckpt_seq ix"] by (metis Suc_eq_plus1 add.commute add_eq_0_iff2)
  have salt: "length (ix_salt ix) = 8" using inv by (simp add: file_inv_def)
  have "stale_ok psize (unat (ix_ckpt_seq ix) + 1) (salt1 (ix_salt ix) + 1) (drop WAL_HEADER_LEN wal)"
  proof (cases "ix_log ix = []")
    case True
    then show ?thesis using inv stale_ok_mono by (simp add: file_inv_def)
  next
    case False
    then obtain stale where s: "encodes psize wal ix stale" "stale_ok psize (unat (ix_ckpt_seq ix)) (salt1 (ix_salt ix)) stale"
      using inv by (auto simp: file_inv_def)
    obtain hdr h where h: "wal_header (ix_big_end_cksum ix) psize (ix_ckpt_seq ix) (ix_salt ix) = (hdr, h)"
      by (cases "wal_header (ix_big_end_cksum ix) psize (ix_ckpt_seq ix) (ix_salt ix)")
    have "length hdr = WAL_HEADER_LEN"
      using wal_header_length [OF salt, of "ix_big_end_cksum ix" psize "ix_ckpt_seq ix"] h by simp
    then have "drop WAL_HEADER_LEN wal = encode_log (ix_big_end_cksum ix) (ix_salt ix) h (entries_of ix) @ stale"
      using s(1) h by (simp add: encodes_def log_bytes_def)
    then show ?thesis using stale_ok_next [OF salt _ s(2)] s(1) by (simp add: encodes_def)
  qed
  then show ?thesis using salt u next_salt_props by (simp add: file_inv_def restart_hdr_def)
qed

section \<open>The pager's commit and checkpoint\<close>

text \<open>Files and index of one database in WAL mode.\<close>

definition wal_world :: "bool \<Rightarrow> nat \<Rightarrow> world \<Rightarrow> bool" where
  "wal_world native_be psize w \<longleftrightarrow> file_inv psize (w_wal w) (w_index w) \<and> wal_inv psize (w_main w, w_index w) \<and>
     (ix_log (w_index w) = [] \<longrightarrow> ix_big_end_cksum (w_index w) = native_be)"

text \<open>
  What a commit needs: dirty pages of the right size, every page the database grows by among them,
  room in the log, a log whose salt and sequence number are not used up.
\<close>

definition commit_ready :: "bool \<Rightarrow> world \<Rightarrow> write_pager \<Rightarrow> bool" where
  "commit_ready native_be w p \<longleftrightarrow> (let psize = wp_page_size p; ix = maybe_restart native_be (w_index w) in
     wp_overlay p \<noteq> [] \<and> wp_page_count p \<noteq> 0 \<and> bm_inv (wp_overlay p) \<and> pages_ok psize (wp_overlay p) \<and>
     (\<forall>n. db_size psize (w_main w, w_index w) < n \<longrightarrow> n \<le> wp_page_count p \<longrightarrow> n \<in> fst ` set (wp_overlay p)) \<and>
     length (ix_log (w_index w)) + length (wp_overlay p) < 2 ^ 32 \<and>
     length (w_wal w) + WAL_HEADER_LEN + length (wp_overlay p) * frame_len psize < 2 ^ 64 \<and>
     ix_salt ix \<noteq> replicate 8 0 \<and> ix_ckpt_seq (w_index w) \<noteq> - 1)"

lemma maybe_restart_file:
  assumes "wal_world native_be psize w" and "ix_ckpt_seq (w_index w) \<noteq> - 1"
  shows "file_inv psize (w_wal w) (maybe_restart native_be (w_index w))"
    and "ix_log (maybe_restart native_be (w_index w)) = [] \<Longrightarrow> ix_big_end_cksum (maybe_restart native_be (w_index w)) = native_be"
    and "length (ix_log (maybe_restart native_be (w_index w))) \<le> length (ix_log (w_index w))"
  using assms file_inv_restart by (auto simp: maybe_restart_def wal_world_def restart_hdr_def)

lemma log_position_start:
  assumes inv: "file_inv psize (w_wal w) (w_index w)" and salt: "ix_salt (w_index w) \<noteq> replicate 8 0"
    and ps: "wp_page_size p = psize" and len: "length (w_wal w) + WAL_HEADER_LEN < 2 ^ 64"
    and st: "log_start native_be psize (w_index w) (w_wal w) = (off, ck, be, wal')"
  shows "log_position native_be (w, p) = (Ok (off, ck, ix_salt (w_index w), be), (w\<lparr>w_wal := wal'\<rparr>, p))"
proof (cases "ix_log (w_index w) = []")
  case True
  obtain hdr h where h: "wal_header native_be psize (ix_ckpt_seq (w_index w)) (ix_salt (w_index w)) = (hdr, h)"
    by (cases "wal_header native_be psize (ix_ckpt_seq (w_index w)) (ix_salt (w_index w))")
  have hl: "length hdr = WAL_HEADER_LEN"
    using inv wal_header_length [of "ix_salt (w_index w)" native_be psize "ix_ckpt_seq (w_index w)"] h by (simp add: file_inv_def)
  have "write_all_at (w_wal w) hdr 0 = Ok (write_at (w_wal w) 0 hdr)" using len hl by (simp add: WAL_HEADER_LEN_def)
  moreover have "writer_state (w_index w) = None" using inv True by (simp add: file_inv_def writer_state_def)
  ultimately show ?thesis using True salt st h ps by (simp add: log_position_def log_start_def Let_def)
next
  case False
  then have "ix_mx_frame (w_index w) \<noteq> 0" using inv
    by (auto simp: file_inv_def dest!: arg_cong [of _ 0 unat] simp: unat_of_nat)
  then show ?thesis using False st by (auto simp: log_position_def log_start_def Let_def writer_state_def)
qed

lemma log_start_off:
  assumes inv: "file_inv psize wal ix" and st: "log_start native_be psize ix wal = (off, ck, be, wal')"
  shows "off \<le> length wal + WAL_HEADER_LEN \<and> length wal' \<le> length wal + WAL_HEADER_LEN"
proof (cases "ix_log ix = []")
  case True
  have "length (fst (wal_header native_be psize (ix_ckpt_seq ix) (ix_salt ix))) = WAL_HEADER_LEN"
    by (rule wal_header_length) (use inv in \<open>simp add: file_inv_def\<close>)
  then show ?thesis using True st by (auto simp: log_start_def)
next
  case False
  then obtain stale where e: "encodes psize wal ix stale" using inv by (auto simp: file_inv_def)
  have "length (ix_salt ix) = 8" using inv by (simp add: file_inv_def)
  then have "length wal = ix_next_offset ix + length stale"
    using e length_log_bytes [of "ix_salt ix" psize "entries_of ix"] by (simp add: encodes_def entries_of_def)
  then show ?thesis using False st by (simp add: log_start_def)
qed

lemma commit_readyD:
  assumes "commit_ready native_be w p"
  shows "wp_overlay p \<noteq> []" "wp_page_count p \<noteq> 0" "distinct (map fst (wp_overlay p))"
    "pages_ok (wp_page_size p) (wp_overlay p)" "list_all (\<lambda>(n, dat). length dat = wp_page_size p) (wp_overlay p)"
    "\<And>n. db_size (wp_page_size p) (w_main w, w_index w) < n \<Longrightarrow> n \<le> wp_page_count p \<Longrightarrow> n \<in> fst ` set (wp_overlay p)"
    "length (ix_log (w_index w)) + length (wp_overlay p) < 2 ^ 32"
    "length (w_wal w) + WAL_HEADER_LEN + length (wp_overlay p) * frame_len (wp_page_size p) < 2 ^ 64"
    "ix_salt (maybe_restart native_be (w_index w)) \<noteq> replicate 8 0" "ix_ckpt_seq (w_index w) \<noteq> - 1"
  using assms
  by (auto simp: commit_ready_def Let_def pages_ok_def list_all_iff bm_inv_def bm_keys_def strict_sorted_iff)

lemma append_frames_commits:
  assumes w: "wal_world native_be (wp_page_size p) w" and ps: "0 < wp_page_size p" "wp_page_size p \<le> 65536"
    and ready: "commit_ready native_be w p"
  shows "\<exists>w' p'. append_frames native_be (w, p) = (Ok (), (w', p')) \<and> wal_world native_be (wp_page_size p) w' \<and>
    wal_step native_be (wp_page_size p) (Commit (wp_overlay p) (wp_page_count p)) (w_main w, w_index w) (w_main w', w_index w') \<and>
    ix_log (w_index w') \<noteq> [] \<and> length (w_wal w') < 2 ^ 64"
proof -
  let ?ps = "wp_page_size p" and ?ix = "maybe_restart native_be (w_index w)" and ?pgs = "wp_overlay p"
  note r = commit_readyD [OF ready]
  note mr = maybe_restart_file [OF w r(10)]
  obtain off ck be wal' where st: "log_start native_be ?ps ?ix (w_wal w) = (off, ck, be, wal')" by (metis prod_cases4)
  have room: "length (ix_log ?ix) + length ?pgs < 2 ^ 32" using mr(3) r(7) by linarith
  have "off + length ?pgs * frame_len ?ps < 2 ^ 64" using log_start_off [OF mr(1) st] r(8) by linarith
  from commit_file_inv [OF mr(1,2) st r(1,5) room this]
  obtain wal'' app where cf: "commit_frames be (ix_salt ?ix) ?ps (wp_page_count p) ?pgs off ck wal' = Ok (wal'', app)"
    "map (\<lambda>(p, sz, dat, _). (p, sz, dat)) app = commit_entries (wp_page_count p) ?pgs"
    "file_inv ?ps wal'' (publish (ix_salt ?ix) (of_nat ?ps) app ?ix)"
    "length wal'' \<le> max (length wal') (off + length ?pgs * frame_len ?ps)" by blast
  have len: "length wal'' < 2 ^ 64" using cf(4) log_start_off [OF mr(1) st] r(8) by linarith
  let ?w1 = "w\<lparr>w_index := ?ix\<rparr>" and ?ix2 = "publish (ix_salt ?ix) (of_nat ?ps) app ?ix"
  have "log_position native_be (?w1, p) = (Ok (off, ck, ix_salt ?ix, be), (?w1\<lparr>w_wal := wal'\<rparr>, p))"
    using log_position_start [of ?ps ?w1 p native_be off ck be wal'] mr(1) r(8,9) st by simp
  then obtain p' where af: "append_frames native_be (w, p) = (Ok (), (w\<lparr>w_index := ?ix2, w_wal := wal''\<rparr>, p'))"
    using cf(1) by (simp add: append_frames_def bindA_def [of "log_position _"] Let_def)
  have ws: "wal_step native_be ?ps (Commit ?pgs (wp_page_count p)) (w_main w, w_index w) (w_main w, ?ix2)"
    using wal_step.Commit [OF r(1,2,4,3,7,6) cf(2)] by simp
  then have "wal_inv ?ps (w_main w, ?ix2)" using wal_step_ok [OF ws _ ps] w by (simp add: wal_world_def step_ok_def)
  moreover have ne: "ix_log ?ix2 \<noteq> []"
    using publish_fields [of "ix_salt ?ix" "of_nat ?ps" app ?ix] arg_cong [OF cf(2), of length] r(1) by auto
  ultimately have "wal_world native_be ?ps (w\<lparr>w_index := ?ix2, w_wal := wal''\<rparr>)" using cf(3) by (simp add: wal_world_def)
  then show ?thesis using af ws ne len by (intro exI [of _ "w\<lparr>w_index := ?ix2, w_wal := wal''\<rparr>"] exI [of _ p']) simp
qed

lemma file_inv_backfill: "file_inv psize wal (ix\<lparr>ix_n_backfill := n\<rparr>) = file_inv psize wal ix"
  by (simp add: file_inv_def encodes_def entries_of_def)

lemma checkpoint_locked_step:
  assumes w: "wal_world native_be (wp_page_size p) w" and ps: "0 < wp_page_size p" "wp_page_size p \<le> 65536"
    and c: "checkpoint_locked native_be mode (w, p) = (Ok r, (w', p'))"
    and f: "wp_wal_file p" "ix_ckpt_seq (w_index w) \<noteq> - 1"
  shows "wal_step native_be (wp_page_size p) (Checkpoint mode) (w_main w, w_index w) (w_main w', w_index w') \<and>
    wal_world native_be (wp_page_size p) w'"
proof -
  let ?ps = "wp_page_size p" and ?mx = "ix_mx_frame (w_index w)"
  have inv: "wal_inv ?ps (w_main w, w_index w)" and fi: "file_inv ?ps (w_wal w) (w_index w)" using w by (simp_all add: wal_world_def)
  obtain main ix copied whole where b: "backfill ?ps (w_main w) (w_index w) = Ok (main, ix, copied, whole)"
    using c by (cases "backfill ?ps (w_main w) (w_index w)") (auto simp: checkpoint_locked_def Let_def)
  obtain ix' busy trunc where fc: "finish_checkpoint native_be mode ?mx ix = (ix', busy, trunc)" by (metis prod_cases3)
  have w': "w_main w' = main" "w_index w' = ix'" "w_wal w' = (if trunc then [] else w_wal w)"
    using c b fc f(1) by (auto simp: checkpoint_locked_def Let_def file_truncate_def resize_def)
  have st: "wal_step native_be ?ps (Checkpoint mode) (w_main w, w_index w) (main, ix')"
    by (rule wal_step.Checkpoint) (simp add: checkpoint_core_def b fc)
  have inv': "wal_inv ?ps (main, ix')" using wal_step_ok [OF st inv ps] by (simp add: step_ok_def)
  have "ix = w_index w \<or> ix = set_n_backfill (mx_safe_of (w_index w)) (w_index w)"
    using b by (auto simp: backfill_def Let_def bindR_Ok_iff split: if_splits)
  then obtain n where n: "ix = (w_index w)\<lparr>ix_n_backfill := n\<rparr>"
    using that [of "ix_n_backfill (w_index w)"] by (auto simp: set_n_backfill_def split: if_splits)
  then have fi1: "file_inv ?ps (w_wal w) ix" "ix_ckpt_seq ix = ix_ckpt_seq (w_index w)" "ix_log ix = ix_log (w_index w)"
    "ix_big_end_cksum ix = ix_big_end_cksum (w_index w)"
    using fi by (simp_all add: file_inv_backfill)
  have "ix' = ix \<and> \<not> trunc \<or> ix' = restart_hdr native_be ix \<and> trunc"
    using fc by (auto simp: finish_checkpoint_def split: if_splits)
  then have "file_inv ?ps (w_wal w') ix' \<and> (ix_log ix' = [] \<longrightarrow> ix_big_end_cksum ix' = native_be)"
  proof
    assume "ix' = ix \<and> \<not> trunc"
    then show ?thesis using fi1 w'(3) w by (simp add: wal_world_def)
  next
    assume t: "ix' = restart_hdr native_be ix \<and> trunc"
    then show ?thesis using next_salt_props w'(3)
      by (simp add: file_inv_def restart_hdr_def stale_ok_short)
  qed
  then show ?thesis using st inv' w' by (simp add: wal_world_def)
qed

section \<open>Durability\<close>

lemma db_view_reopened: "db_view psize (main, reopened ix) = db_view psize (main, ix)"
  by (simp add: fun_eq_iff db_view_def view_def snap_size_def snapshot_db_size_def find_frame_def reopened_def cong: option.case_cong)

lemma commit_then_reopen:
  assumes w: "wal_world native_be (wp_page_size p) w" and ps: "0 < wp_page_size p" "wp_page_size p \<le> 65536"
    and ready: "commit_ready native_be w p" and a: "append_frames native_be (w, p) = (Ok (), (w', p'))"
  shows "\<exists>rt ix. attach_wal (w_wal w') (wp_page_size p) (index_new native_be) = Ok (Some rt, ix) \<and> rt_db_size rt = wp_page_count p \<and>
    (wp_page_count p, db_view (wp_page_size p) (w_main w', ix)) =
      db_after (Commit (wp_overlay p) (wp_page_count p))
        (db_size (wp_page_size p) (w_main w, w_index w), db_view (wp_page_size p) (w_main w, w_index w))"
proof -
  let ?ps = "wp_page_size p" and ?e = "Commit (wp_overlay p) (wp_page_count p)"
  have c: "wal_world native_be ?ps w'" "wal_step native_be ?ps ?e (w_main w, w_index w) (w_main w', w_index w')"
    "ix_log (w_index w') \<noteq> []" "length (w_wal w') < 2 ^ 64"
    using append_frames_commits [OF w ps ready] a by auto
  have ok: "step_ok ?ps ?e (w_main w, w_index w) (w_main w', w_index w')"
    using wal_step_ok [OF c(2) _ ps] w by (simp add: wal_world_def)
  have inv: "wal_inv ?ps (w_main w', w_index w')" using c(1) by (simp add: wal_world_def)
  have "if_commit_db_size (last (ix_log (w_index w'))) = full_db_size (w_index w')"
    using full_db_size_boundary [OF wal_invD(3) [OF inv]] c(3) by simp
  also have "\<dots> = db_size ?ps (w_main w', w_index w')" using db_size_full [OF inv] c(3) by simp
  also have "\<dots> = wp_page_count p" using ok by (simp add: step_ok_def)
  finally have sz: "if_commit_db_size (last (ix_log (w_index w'))) = wp_page_count p" .
  then have "attach_wal (w_wal w') ?ps (index_new native_be) = Ok (Some (reopened_runtime (w_index w')), reopened (w_index w'))"
    using attach_wal_reopens [of ?ps "w_wal w'" "w_index w'" native_be] c ps(2) commit_readyD(2) [OF ready]
    by (simp add: wal_world_def)
  moreover have "rt_db_size (reopened_runtime (w_index w')) = wp_page_count p" using sz by (simp add: reopened_runtime_def)
  moreover have "(wp_page_count p, db_view ?ps (w_main w', reopened (w_index w'))) =
      db_after ?e (db_size ?ps (w_main w, w_index w), db_view ?ps (w_main w, w_index w))"
    using ok by (simp add: db_view_reopened step_ok_def)
  ultimately show ?thesis by blast
qed

end
