(* ===== verification/WalReaders.thy ===== *)
theory WalReaders
  imports WalSystem
begin

text \<open>
  What the events of the WAL system mean for readers: a pinned reader sees the same database for as
  long as it stays pinned.
\<close>

section \<open>Repeatable reads\<close>

text \<open>A run of events during which a reader stays pinned at a mark.\<close>

inductive pinned_run :: "bool \<Rightarrow> nat \<Rightarrow> u32 \<Rightarrow> wal_state \<Rightarrow> wal_state \<Rightarrow> bool" for native_be psize m where
  Stay: "pinned_run native_be psize m s s"
| Move: "pinned_run native_be psize m s s1 \<Longrightarrow> m \<in> set (ix_readers (snd s1)) \<Longrightarrow> wal_step native_be psize e s1 s2 \<Longrightarrow>
    pinned_run native_be psize m s s2"

lemma pinned_run_view:
  assumes "pinned_run native_be psize m s s'" and "wal_inv psize s" and "0 < psize" "psize \<le> 65536"
  shows "wal_inv psize s' \<and> snap_size psize s' m = snap_size psize s m \<and> view psize s' m = view psize s m"
  using assms(1,2)
proof (induction rule: pinned_run.induct)
  case (Move s s1 e s2)
  then have "step_ok psize e s1 s2" using wal_step_ok [OF Move.hyps(3) _ assms(3,4)] by blast
  then show ?case using Move by (simp add: step_ok_def)
qed simp

end
