(* ===== verification/CrashRecovery.thy ===== *)
theory CrashRecovery
  imports Journal
begin

text \<open>
  Crashes during a commit: the disk operations of the commit are run up to a point, the operation in
  progress is torn, and the next open recovers. The journal's record count is four bytes inside one
  sector and is written atomically, as a truncation is. A commit is split into the operations
  before the count (the journal is cold), those up to the end of the file's update (the journal is
  complete, the file damaged) and the deletion of the journal.
\<close>

section \<open>Crashes\<close>

fun torn :: "nat \<Rightarrow> disk_op \<Rightarrow> disk_op" where
  "torn k (FWrite buf off) = FWrite (take k buf) off"
| "torn k (JWrite buf off) = (if off = 8 then JSync else JWrite (take k buf) off)"
| "torn k _ = JSync"

definition crash_disk :: "disk_op list \<Rightarrow> nat \<Rightarrow> nat \<Rightarrow> disk \<Rightarrow> disk res" where
  "crash_disk ops i k d =
    foldR exec_op (take i ops @ (if i < length ops then [torn k (ops ! i)] else [])) d"

lemma crash_disk_append:
  "crash_disk (xs @ ys) i k d =
    (if i < length xs then crash_disk xs i k d
     else bindR (foldR exec_op xs d) (crash_disk ys (i - length xs) k))"
proof (cases "i < length xs")
  case True
  then show ?thesis by (simp add: crash_disk_def nth_append)
next
  case False
  then have "crash_disk (xs @ ys) i k d = foldR exec_op (xs @ (take (i - length xs) ys @
      (if i - length xs < length ys then [torn k (ys ! (i - length xs))] else []))) d"
    by (simp add: crash_disk_def nth_append) (auto intro!: arg_cong [where f = "\<lambda>l. foldR exec_op l d"])
  also have "\<dots> = bindR (foldR exec_op xs d) (crash_disk ys (i - length xs) k)"
    unfolding foldR_append crash_disk_def by (rule bindR_cong) auto
  finally show ?thesis using False by simp
qed

text \<open>A property of the disk kept by every operation, whole or torn, holds after a crash.\<close>

definition keeps :: "(disk \<Rightarrow> bool) \<Rightarrow> disk_op \<Rightarrow> bool" where
  "keeps P op \<longleftrightarrow> (\<forall>d. P d \<longrightarrow> (\<exists>d'. exec_op op d = Ok d' \<and> P d'))"

lemma foldR_keeps:
  "\<forall>op \<in> set ops. keeps P op \<Longrightarrow> P d \<Longrightarrow> \<exists>d'. foldR exec_op ops d = Ok d' \<and> P d'"
proof (induction ops arbitrary: d)
  case Nil
  then show ?case by simp
next
  case (Cons op ops)
  then obtain d1 where "exec_op op d = Ok d1" "P d1" by (auto simp: keeps_def)
  with Cons show ?case by simp
qed

lemma crash_keeps:
  assumes "\<forall>op \<in> set ops. keeps P op \<and> keeps P (torn k op)" and "P d"
  shows "\<exists>d'. crash_disk ops i k d = Ok d' \<and> P d'"
  unfolding crash_disk_def
  by (rule foldR_keeps [where P = P]) (use assms in \<open>auto dest: in_set_takeD\<close>)

section \<open>Before the record count\<close>

definition cold :: "bytes \<Rightarrow> disk \<Rightarrow> bool" where
  "cold orig d \<longleftrightarrow> d_file d = orig \<and> length (d_journal d) < 2 ^ 63 \<and>
    (\<forall>i. 8 \<le> i \<and> i < 12 \<and> i < length (d_journal d) \<longrightarrow> d_journal d ! i = 0)"

lemma cold_recover: "cold orig d \<Longrightarrow> recover d = Ok d"
  by (rule recover_cold) (auto simp: cold_def)

lemma keeps_cold_sync [simp]: "keeps (cold orig) JSync" "keeps (cold orig) FSync"
  by (simp_all add: keeps_def)

lemma keeps_cold_trunc [simp]: "keeps (cold orig) (JTrunc 0)"
  by (simp add: keeps_def cold_def file_truncate_def resize_def)

lemma keeps_cold_write:
  assumes "off + length buf < 2 ^ 63" and "512 \<le> off \<or> off = 0 \<and> (\<forall>i. 8 \<le> i \<and> i < 12 \<and> i < length buf \<longrightarrow> buf ! i = 0)"
  shows "keeps (cold orig) (JWrite buf off)"
  unfolding keeps_def cold_def using assms by (auto simp: nth_write_at)

lemma journal_header_count: "8 \<le> i \<Longrightarrow> i < 12 \<Longrightarrow> journal_header nonce dp psize ! i = 0"
proof -
  assume i: "8 \<le> i" "i < 12"
  define z :: bytes where "z = replicate JOURNAL_SECTOR 0"
  define h1 where "h1 = overwrite z 0 JOURNAL_MAGIC"
  define h2 where "h2 = overwrite h1 12 (to_be32 nonce)"
  define h3 where "h3 = overwrite h2 16 (to_be32 dp)"
  define h4 where "h4 = overwrite h3 20 (to_be32 (of_nat JOURNAL_SECTOR))"
  have h: "journal_header nonce dp psize = overwrite h4 24 (to_be32 (of_nat psize))"
    unfolding journal_header_def h4_def h3_def h2_def h1_def z_def ..
  have lz: "length z = 512" by (simp add: z_def JOURNAL_SECTOR_def)
  then have l1: "length h1 = 512" by (simp add: h1_def)
  then have l2: "length h2 = 512" by (simp add: h2_def)
  then have l3: "length h3 = 512" by (simp add: h3_def)
  then have l4: "length h4 = 512" by (simp add: h4_def)
  have "z ! i = 0" using i unfolding z_def by (simp add: JOURNAL_SECTOR_def)
  then have "h1 ! i = 0" using i lz by (simp add: h1_def nth_overwrite)
  then have "h2 ! i = 0" using i l1 by (simp add: h2_def nth_overwrite)
  then have "h3 ! i = 0" using i l2 by (simp add: h3_def nth_overwrite)
  then have "h4 ! i = 0" using i l3 by (simp add: h4_def nth_overwrite)
  then show ?thesis using i l4 by (simp add: h nth_overwrite)
qed

lemma record_ops_shape:
  "pages_ok psize originals \<Longrightarrow> op \<in> set (journal_record_ops nonce psize off originals) \<Longrightarrow>
   \<exists>buf o2. op = JWrite buf o2 \<and> off \<le> o2 \<and> o2 + length buf \<le> off + length originals * (psize + 8)"
proof (induction originals arbitrary: off)
  case Nil
  then show ?case by simp
next
  case (Cons r rest)
  obtain n buf where r: "r = (n, buf)" by (cases r)
  have ok: "length buf = psize" "pages_ok psize rest" using Cons.prems(1) r by (auto simp: pages_ok_Cons)
  show ?case
  proof (cases "op \<in> set (journal_record_ops nonce psize (off + 4 + psize + 4) rest)")
    case True
    from Cons.IH [OF ok(2) this] show ?thesis by (auto simp: algebra_simps)
  next
    case False
    then show ?thesis using Cons.prems(2) r ok by (auto simp: algebra_simps)
  qed
qed

text \<open>The journal after all its records are written: the header and the records.\<close>

lemma write_at_end: "write_at dat (length dat) buf = dat @ buf"
  by (rule nth_equalityI) (auto simp: nth_write_at nth_append)

lemma exec_record_ops:
  assumes "pages_ok psize originals" and "length (d_journal d) + length originals * (psize + 8) < 2 ^ 63"
  shows "foldR exec_op (journal_record_ops nonce psize (length (d_journal d)) originals) d =
    Ok (d\<lparr>d_journal := d_journal d @ journal_records nonce originals\<rparr>)"
  using assms
proof (induction originals arbitrary: d)
  case Nil
  then show ?case by simp
next
  case (Cons r rest)
  obtain n buf where r: "r = (n, buf)" by (cases r)
  have ok: "length buf = psize" "pages_ok psize rest" using Cons.prems(1) r by (auto simp: pages_ok_Cons)
  let ?j = "d_journal d" and ?ck = "to_be32 (journal_page_checksum nonce buf)"
  let ?j' = "?j @ to_be32 n @ buf @ ?ck"
  have step: "write_all_at ?j (to_be32 n) (length ?j) = Ok (?j @ to_be32 n)"
    "write_all_at (?j @ to_be32 n) buf (length ?j + 4) = Ok (?j @ to_be32 n @ buf)"
    "write_all_at (?j @ to_be32 n @ buf) ?ck (length ?j + 4 + psize) = Ok ?j'"
    using Cons.prems(2) ok(1) write_at_end [of ?j "to_be32 n"] write_at_end [of "?j @ to_be32 n" buf]
      write_at_end [of "?j @ to_be32 n @ buf" ?ck]
    by (simp_all add: add.assoc)
  have "length (d_journal (d\<lparr>d_journal := ?j'\<rparr>)) + length rest * (psize + 8) < 2 ^ 63"
    using Cons.prems(2) ok(1) by (simp add: algebra_simps)
  from Cons.IH [OF ok(2) this]
  have "foldR exec_op (journal_record_ops nonce psize (length ?j') rest) (d\<lparr>d_journal := ?j'\<rparr>) =
      Ok (d\<lparr>d_journal := ?j' @ journal_records nonce rest\<rparr>)" by simp
  then show ?case using step r ok(1) by (simp add: journal_record_def add.assoc)
qed


section \<open>After the record count\<close>

text \<open>The parameters of a commit that does not shrink the file.\<close>

record commit_ctx =
  cx_counter :: u32
  cx_disk_pages :: u32
  cx_pages :: u32
  cx_psize :: nat
  cx_overlay :: "(u32, bytes) btree_map"
  cx_file :: bytes

definition commit_ok :: "commit_ctx \<Rightarrow> bool" where
  "commit_ok c \<longleftrightarrow>
    bm_inv (cx_overlay c) \<and> pages_ok (cx_psize c) (cx_overlay c) \<and>
    512 \<le> cx_psize c \<and> is_power_of_two_nat (cx_psize c) \<and>
    length (cx_file c) = unat (cx_disk_pages c) * cx_psize c \<and>
    bm_contains (cx_overlay c) 1 \<and> 1 \<le> unat (cx_disk_pages c) \<and>
    unat (cx_disk_pages c) \<le> unat (cx_pages c)"

definition saved :: "commit_ctx \<Rightarrow> (u32 \<times> bytes) list" where
  "saved c = map (\<lambda>n. (n, file_page (cx_psize c) (cx_file c) (unat n)))
    (filter (\<lambda>n. n \<le> cx_disk_pages c) (bm_keys (cx_overlay c)))"

lemma file_len_bound:
  assumes "commit_ok c"
  shows "length (cx_file c) < 2 ^ 63"
proof -
  have "unat (cx_disk_pages c) * cx_psize c \<le> 2 ^ 32 * 65536"
    using assms unat_less_length [of "cx_disk_pages c"]
    by (intro mult_mono) (auto simp: commit_ok_def pages_ok_def)
  then show ?thesis using assms by (simp add: commit_ok_def)
qed

lemma overlay_key: "pages_ok psize m \<Longrightarrow> n \<in> set (bm_keys m) \<Longrightarrow> 0 < unat n"
  by (auto simp: pages_ok_def bm_keys_def unat_gt_0)

lemma journal_originals_saved:
  assumes "commit_ok c"
  shows "journal_originals (cx_file c) (cx_psize c) (cx_disk_pages c) (cx_overlay c) = Ok (saved c)"
  unfolding journal_originals_def saved_def
proof (rule mapR_all_Ok)
  fix n
  assume n: "n \<in> set (filter (\<lambda>n. n \<le> cx_disk_pages c) (bm_keys (cx_overlay c)))"
  then have "0 < unat n" "unat n \<le> unat (cx_disk_pages c)"
    using assms overlay_key by (auto simp: commit_ok_def word_le_nat_alt)
  then have "(unat n - 1) * cx_psize c + cx_psize c \<le> length (cx_file c)"
    using assms page_end [of "unat n" "cx_psize c"] by (simp add: commit_ok_def)
  then show "bindR (read_exact_at (cx_file c) (cx_psize c) ((unat n - 1) * cx_psize c)) (\<lambda>buf. Ok (n, buf)) =
      Ok (n, file_page (cx_psize c) (cx_file c) (unat n))"
    using file_len_bound [OF assms] by (simp add: file_page_def)
qed

lemma saved_props:
  assumes "commit_ok c"
  shows "pages_ok (cx_psize c) (saved c)" and "distinct (map fst (saved c))"
    and "0 < length (saved c)" and "length (saved c) < 2 ^ 32"
    and "(n, buf) \<in> set (saved c) \<Longrightarrow>
      unat n \<le> unat (cx_disk_pages c) \<and> buf = file_page (cx_psize c) (cx_file c) (unat n)"
    and "fst ` set (saved c) = {n \<in> set (bm_keys (cx_overlay c)). n \<le> cx_disk_pages c}"
proof -
  let ?keys = "filter (\<lambda>n. n \<le> cx_disk_pages c) (bm_keys (cx_overlay c))"
  have f: "map fst (saved c) = ?keys" by (simp add: saved_def comp_def)
  show d: "distinct (map fst (saved c))"
    using assms bm_inv_distinct [of "cx_overlay c"] unfolding f by (simp add: commit_ok_def bm_keys_def)
  show "fst ` set (saved c) = {n \<in> set (bm_keys (cx_overlay c)). n \<le> cx_disk_pages c}"
    using f by (metis list.set_map set_filter)
  show r: "unat n \<le> unat (cx_disk_pages c) \<and> buf = file_page (cx_psize c) (cx_file c) (unat n)"
    if "(n, buf) \<in> set (saved c)" for n buf using that by (auto simp: saved_def word_le_nat_alt)
  show "pages_ok (cx_psize c) (saved c)"
  proof -
    have "n \<noteq> 0 \<and> length buf = cx_psize c" if nb: "(n, buf) \<in> set (saved c)" for n buf
    proof -
      have n: "0 < unat n" using nb assms overlay_key by (force simp: saved_def commit_ok_def)
      have "unat n * cx_psize c \<le> length (cx_file c)" using r [OF nb] assms by (simp add: commit_ok_def)
      then show ?thesis using r [OF nb] n page_end [of "unat n" "cx_psize c"]
        by (auto simp: file_page_def unat_gt_0)
    qed
    then show ?thesis using assms by (auto simp: pages_ok_def commit_ok_def)
  qed
  have "1 \<in> set ?keys"
    using assms by (force simp: commit_ok_def bm_contains_def bm_get_def bm_keys_def word_le_nat_alt dest: map_of_SomeD)
  then have "?keys \<noteq> []" by fastforce
  then show "0 < length (saved c)" by (simp add: saved_def)
  show "length (saved c) < 2 ^ 32"
  proof -
    have sub: "unat ` set (map fst (saved c)) \<subseteq> {1..<2 ^ 32}"
    proof
      fix x
      assume "x \<in> unat ` set (map fst (saved c))"
      then obtain n where "x = unat n" "n \<in> set (bm_keys (cx_overlay c))" unfolding f by auto
      then show "x \<in> {1..<2 ^ 32}"
        using overlay_key [of "cx_psize c" "cx_overlay c" n] assms unat_less_length [of n]
        by (simp add: commit_ok_def)
    qed
    have "card (unat ` set (map fst (saved c))) \<le> 2 ^ 32 - 1"
      using card_mono [OF finite_atLeastLessThan sub] by (simp only: card_atLeastLessThan)
    moreover have "card (unat ` set (map fst (saved c))) = length (saved c)"
      using distinct_card [OF d] card_image [of unat "set (map fst (saved c))"]
      by (simp add: inj_on_def word_unat_eq_iff)
    ultimately have "length (saved c) \<le> 2 ^ 32 - 1" by (simp only:)
    then show ?thesis by simp
  qed
qed


abbreviation "cx_nonce c \<equiv> journal_nonce (cx_counter c) (cx_disk_pages c)"

text \<open>The operations before the record count, those up to the deletion of the journal, and it.\<close>

definition before_count :: "commit_ctx \<Rightarrow> disk_op list" where
  "before_count c =
    [JTrunc 0, JWrite (journal_header (cx_nonce c) (cx_disk_pages c) (cx_psize c)) 0] @
    journal_record_ops (cx_nonce c) (cx_psize c) JOURNAL_SECTOR (saved c) @ [JSync]"

definition after_count :: "commit_ctx \<Rightarrow> disk_op list" where
  "after_count c =
    JSync # map (\<lambda>(n, buf). FWrite buf ((unat n - 1) * cx_psize c)) (cx_overlay c) @
    [FTrunc (unat (cx_pages c) * cx_psize c), FSync]"

abbreviation "count_op c \<equiv> JWrite (to_be32 (of_nat (length (saved c)))) 8"

definition the_commit_ops :: "commit_ctx \<Rightarrow> disk_op list res" where
  "the_commit_ops c =
    commit_ops (cx_counter c) (cx_disk_pages c) (cx_pages c) (cx_psize c) (cx_overlay c) (cx_file c)"

lemma the_commit_ops_split:
  "commit_ok c \<Longrightarrow>
   the_commit_ops c = Ok ((before_count c @ [count_op c]) @ after_count c @ [JTrunc 0, JSync])"
  by (simp add: the_commit_ops_def commit_ops_def journal_originals_saved write_journal_ops_def
      flush_ops_def before_count_def after_count_def Let_def)

lemma records_bound:
  assumes "commit_ok c"
  shows "512 + length (saved c) * (cx_psize c + 8) < 2 ^ 63"
proof -
  have "length (saved c) * (cx_psize c + 8) \<le> 2 ^ 32 * (65536 + 8)"
    using saved_props(4) [OF assms] assms by (intro mult_mono) (auto simp: commit_ok_def pages_ok_def)
  then show ?thesis by simp
qed

lemma before_count_cold:
  assumes "commit_ok c" and "op \<in> set (before_count c)"
  shows "keeps (cold orig) op \<and> keeps (cold orig) (torn k op)"
proof -
  let ?h = "journal_header (cx_nonce c) (cx_disk_pages c) (cx_psize c)"
  consider "op = JTrunc 0" | "op = JSync" | "op = JWrite ?h 0"
    | "op \<in> set (journal_record_ops (cx_nonce c) (cx_psize c) 512 (saved c))"
    using assms(2) by (auto simp: before_count_def JOURNAL_SECTOR_def)
  then show ?thesis
  proof cases
    case 3
    then show ?thesis using journal_header_count
      by (auto intro!: keeps_cold_write)
  next
    case 4
    from record_ops_shape [OF saved_props(1) [OF assms(1)] this]
    obtain buf o2 where o2: "op = JWrite buf o2" "512 \<le> o2" "o2 + length buf < 2 ^ 63"
      using records_bound [OF assms(1)] by auto
    then show ?thesis by (auto intro!: keeps_cold_write)
  qed simp_all
qed

lemma exec_before_count:
  assumes "commit_ok c"
  shows "foldR exec_op (before_count c @ [count_op c]) d =
    Ok (d\<lparr>d_journal := journal_image (cx_nonce c) (cx_disk_pages c) (cx_psize c) (saved c)\<rparr>)"
proof -
  let ?h = "journal_header (cx_nonce c) (cx_disk_pages c) (cx_psize c)"
  let ?recs = "journal_records (cx_nonce c) (saved c)" and ?n = "to_be32 (of_nat (length (saved c)))"
  have h: "write_at [] 0 ?h = ?h" using write_at_end [of "[]" ?h] by simp
  have r: "foldR exec_op (journal_record_ops (cx_nonce c) (cx_psize c) 512 (saved c)) (d\<lparr>d_journal := ?h\<rparr>) =
      Ok (d\<lparr>d_journal := ?h @ ?recs\<rparr>)"
    using exec_record_ops [OF saved_props(1) [OF assms], of "d\<lparr>d_journal := ?h\<rparr>" "cx_nonce c"]
      records_bound [OF assms] by simp
  have w: "write_at (?h @ ?recs) 8 ?n = overwrite ?h 8 ?n @ ?recs"
    by (rule nth_equalityI) (auto simp: nth_write_at nth_append nth_overwrite)
  show ?thesis
    using h r w by (simp add: before_count_def JOURNAL_SECTOR_def foldR_append bindR_assoc
        file_truncate_def resize_def journal_image_def)
qed

text \<open>While the file is updated the journal is complete and the unsaved pages are intact.\<close>

definition hot :: "commit_ctx \<Rightarrow> disk \<Rightarrow> bool" where
  "hot c d \<longleftrightarrow>
    d_journal d = journal_image (cx_nonce c) (cx_disk_pages c) (cx_psize c) (saved c) \<and>
    damaged (cx_psize c) (cx_file c) (fst ` set (saved c)) (d_file d)"

lemma hot_recover: "commit_ok c \<Longrightarrow> hot c d \<Longrightarrow> recover d = Ok \<lparr>d_file = cx_file c, d_journal = []\<rparr>"
  using saved_props [of c]
  by (intro recover_restores [of "cx_psize c" "saved c"]) (auto simp: hot_def commit_ok_def)

lemma keeps_hot_sync [simp]: "keeps (hot c) JSync" "keeps (hot c) FSync"
  by (simp_all add: keeps_def)

lemma keeps_hot_trunc: "commit_ok c \<Longrightarrow> keeps (hot c) (FTrunc (unat (cx_pages c) * cx_psize c))"
proof -
  assume c: "commit_ok c"
  have len: "length (cx_file c) \<le> unat (cx_pages c) * cx_psize c"
    using c by (auto simp: commit_ok_def)
  have "file_page (cx_psize c) (resize fl (unat (cx_pages c) * cx_psize c)) m = file_page (cx_psize c) fl m"
    if "0 < m" "m * cx_psize c \<le> length (cx_file c)" "length (cx_file c) \<le> length fl" for m fl
    using that len by (intro file_page_resize) linarith+
  then show ?thesis using len
    by (auto simp: keeps_def hot_def damaged_def file_truncate_def)
qed

lemma damaged_write:
  assumes "damaged psize orig dirty fl" and "length buf \<le> psize" and "0 < n"
    and "\<And>m. m * psize \<le> length orig \<Longrightarrow> m \<notin> unat ` dirty \<Longrightarrow> m \<noteq> n"
  shows "damaged psize orig dirty (write_at fl ((n - 1) * psize) buf)"
proof -
  have len: "length orig \<le> length fl" using assms(1) by (simp add: damaged_def)
  have "file_page psize (write_at fl ((n - 1) * psize) buf) m = file_page psize fl m"
    if m: "0 < m" "m * psize \<le> length orig" "m \<notin> unat ` dirty" for m
    unfolding file_page_def
  proof (rule slice_write_at_other)
    show "(m - 1) * psize + psize \<le> length fl" using page_end [OF m(1), of psize] m(2) len by simp
    have "n \<noteq> m" using assms(4) [OF m(2,3)] by simp
    then show "(m - 1) * psize + psize \<le> (n - 1) * psize \<or> (n - 1) * psize + length buf \<le> (m - 1) * psize"
      using page_offsets_disjoint [of n m psize] assms(2,3) m(1) by linarith
  qed
  then show ?thesis using assms(1) by (auto simp: damaged_def)
qed

lemma keeps_hot_write:
  assumes c: "commit_ok c" and n: "n \<in> set (bm_keys (cx_overlay c))" and buf: "length buf \<le> cx_psize c"
  shows "keeps (hot c) (FWrite buf ((unat n - 1) * cx_psize c))"
proof -
  have n0: "0 < unat n" using c n overlay_key by (auto simp: commit_ok_def)
  have "m \<noteq> unat n" if m: "m * cx_psize c \<le> length (cx_file c)" "m \<notin> unat ` fst ` set (saved c)" for m
  proof
    assume mn: "m = unat n"
    have "m \<le> unat (cx_disk_pages c)" using m(1) c by (simp add: commit_ok_def)
    then have "n \<in> fst ` set (saved c)" using n mn unfolding saved_props(6) [OF c] by (simp add: word_le_nat_alt)
    with m(2) mn show False by blast
  qed
  then have "damaged (cx_psize c) (cx_file c) (fst ` set (saved c)) (write_at fl ((unat n - 1) * cx_psize c) buf)"
    if "damaged (cx_psize c) (cx_file c) (fst ` set (saved c)) fl" for fl
    using damaged_write [OF that buf n0] by blast
  moreover have "(unat n - 1) * cx_psize c + length buf < 2 ^ 64"
    using page_offset_bound [of "cx_psize c" n] buf c by (simp add: commit_ok_def pages_ok_def)
  ultimately show ?thesis by (simp add: keeps_def hot_def)
qed

lemma after_count_hot:
  assumes "commit_ok c" and "op \<in> set (after_count c)"
  shows "keeps (hot c) op \<and> keeps (hot c) (torn k op)"
proof -
  consider "op = JSync" | "op = FSync" | "op = FTrunc (unat (cx_pages c) * cx_psize c)"
    | n buf where "op = FWrite buf ((unat n - 1) * cx_psize c)" "(n, buf) \<in> set (cx_overlay c)"
    using assms(2) by (auto simp: after_count_def)
  then show ?thesis
  proof cases
    case 3
    then show ?thesis using keeps_hot_trunc [OF assms(1)] by simp
  next
    case 4
    have "length buf \<le> cx_psize c" "n \<in> set (bm_keys (cx_overlay c))"
      using 4(2) assms(1) by (auto simp: commit_ok_def pages_ok_def bm_keys_def intro: rev_image_eqI)
    then show ?thesis using 4(1) keeps_hot_write [OF assms(1)] by simp
  qed simp_all
qed

section \<open>Atomic commit\<close>

lemma exec_after_count:
  assumes "commit_ok c" and "d_file d = cx_file c"
  shows "foldR exec_op (after_count c) d =
    Ok (d\<lparr>d_file := resize (put_pages (cx_psize c) (cx_overlay c) (cx_file c)) (unat (cx_pages c) * cx_psize c)\<rparr>)"
proof -
  have w: "pages_ok psize pgs \<Longrightarrow>
      foldR exec_op (map (\<lambda>(n, buf). FWrite buf ((unat n - 1) * psize)) pgs) d =
        Ok (d\<lparr>d_file := put_pages psize pgs (d_file d)\<rparr>)" for psize pgs and d :: disk
  proof (induction pgs arbitrary: d)
    case Nil
    then show ?case by simp
  next
    case (Cons r pgs)
    obtain n buf where r: "r = (n, buf)" by (cases r)
    have "psize \<le> 65536" "length buf = psize" "pages_ok psize pgs"
      using Cons.prems r by (auto simp: pages_ok_def)
    then show ?case using Cons.IH [of "d\<lparr>d_file := write_at (d_file d) ((unat n - 1) * psize) buf\<rparr>"]
        page_offset_bound [of psize n] r by simp
  qed
  show ?thesis
    using w [of "cx_psize c" "cx_overlay c" d] assms
    by (simp add: after_count_def foldR_append file_truncate_def commit_ok_def)
qed

text \<open>The file after the commit.\<close>

definition committed_file :: "commit_ctx \<Rightarrow> bytes" where
  "committed_file c = resize (put_pages (cx_psize c) (cx_overlay c) (cx_file c)) (unat (cx_pages c) * cx_psize c)"

lemma crash_recovery:
  assumes c: "commit_ok c" and d: "d_file d = cx_file c" "d_journal d = []"
    and ops: "the_commit_ops c = Ok ops"
  shows "\<exists>d1 d2. crash_disk ops i k d = Ok d1 \<and> recover d1 = Ok d2 \<and>
    (d_file d2 = cx_file c \<or> d_file d2 = committed_file c)"
proof -
  let ?A = "before_count c" and ?B = "after_count c"
  have ops': "ops = ?A @ [count_op c] @ ?B @ [JTrunc 0, JSync]" using ops the_commit_ops_split [OF c] by simp
  have cold: "cold (cx_file c) d" using d by (simp add: cold_def)
  let ?J = "d\<lparr>d_journal := journal_image (cx_nonce c) (cx_disk_pages c) (cx_psize c) (saved c)\<rparr>"
  have hotJ: "hot c ?J" using d by (simp add: hot_def damaged_def)
  consider (a) "i < length ?A" | (n) "i = length ?A" | (b) "length ?A < i" "i \<le> length ?A + length ?B"
    | (e) "length ?A + length ?B < i" by linarith
  then show ?thesis
  proof cases
    case a
    then have "crash_disk ops i k d = crash_disk ?A i k d" unfolding ops' crash_disk_append by simp
    with crash_keeps [of ?A "cold (cx_file c)" k d i] before_count_cold [OF c] cold
    obtain d1 where "crash_disk ops i k d = Ok d1" "cold (cx_file c) d1" by metis
    then show ?thesis using cold_recover by (auto simp: cold_def)
  next
    case n
    have "\<exists>d1. foldR exec_op ?A d = Ok d1 \<and> cold (cx_file c) d1"
      using foldR_keeps [of ?A "cold (cx_file c)" d] before_count_cold [OF c] cold by blast
    then obtain d1 where "foldR exec_op ?A d = Ok d1" "cold (cx_file c) d1" by blast
    moreover from this have "crash_disk ops i k d = Ok d1"
      using n unfolding ops' crash_disk_append by (simp add: crash_disk_def)
    ultimately show ?thesis using cold_recover by (auto simp: cold_def)
  next
    case b
    have "crash_disk ops i k d = crash_disk (?B @ [JTrunc 0, JSync]) (i - length ?A - 1) k ?J"
      using b exec_before_count [OF c, of d]
      by (simp add: ops' crash_disk_append [of "?A @ [count_op c]", simplified])
    also have "\<dots> = crash_disk ?B (i - length ?A - 1) k ?J"
    proof -
      have "i - length ?A - 1 < length ?B" using b by linarith
      then show ?thesis unfolding crash_disk_append by simp
    qed
    finally obtain d1 where "crash_disk ops i k d = Ok d1" "hot c d1"
      using crash_keeps [of ?B "hot c" k ?J "i - length ?A - 1"] after_count_hot [OF c] hotJ by metis
    then show ?thesis using hot_recover [OF c] by auto
  next
    case e
    let ?q = "i - length ?A - 1 - length ?B"
    let ?K = "?J\<lparr>d_file := committed_file c\<rparr>"
    have B: "foldR exec_op ?B ?J = Ok ?K"
      using exec_after_count [OF c, of ?J] d by (simp add: committed_file_def)
    have "\<exists>d'. foldR exec_op ?B ?J = Ok d' \<and> hot c d'"
      using foldR_keeps [of ?B "hot c" ?J] after_count_hot [OF c] hotJ by blast
    then have hotK: "hot c ?K" using B by simp
    have crash: "crash_disk ops i k d = crash_disk [JTrunc 0, JSync] ?q k ?K"
    proof -
      have "\<not> i - length ?A - 1 < length ?B" "\<not> i < Suc (length ?A)" using e by linarith+
      then show ?thesis using B exec_before_count [OF c, of d]
        by (simp add: ops' crash_disk_append [of "?A @ [count_op c]", simplified] crash_disk_append [of ?B])
    qed
    show ?thesis
    proof (cases "?q = 0")
      case True
      then have "crash_disk ops i k d = Ok ?K" using crash by (simp add: crash_disk_def)
      then show ?thesis using hot_recover [OF c hotK] by auto
    next
      case False
      then obtain q where q: "?q = Suc q" using not0_implies_Suc by blast
      have "crash_disk [JTrunc 0, JSync] (Suc q) k ?K = Ok (?K\<lparr>d_journal := []\<rparr>)"
        by (cases q) (simp_all add: crash_disk_def file_truncate_def resize_def)
      then have "crash_disk ops i k d = Ok (?K\<lparr>d_journal := []\<rparr>)" using crash q by simp
      moreover have "recover (?K\<lparr>d_journal := []\<rparr>) = Ok (?K\<lparr>d_journal := []\<rparr>)"
        by (rule recover_cold) simp_all
      ultimately show ?thesis by auto
    qed
  qed
qed

end
