(* ===== verification/CommitEffect.thy ===== *)
theory CommitEffect
  imports CrashRecovery PagerCommit Transactions
begin

text \<open>
  The commit of the write pager in rollback mode. The disk operations it runs are those of the crash
  theorem (\<open>commit_ops\<close>); when all of them have run, the database file holds the pages that the
  transaction read, with page 1 stamped by the new header, and the journal is empty.
\<close>

section \<open>Running disk operations\<close>

definition disk_of :: "world \<Rightarrow> disk" where
  "disk_of w = \<lparr>d_file = w_main w, d_journal = w_journal w\<rparr>"

definition with_disk :: "disk \<Rightarrow> world \<Rightarrow> world" where
  "with_disk d w = w\<lparr>w_main := d_file d, w_journal := d_journal d\<rparr>"

lemma disk_of_with [simp]: "disk_of (with_disk d w) = d"
  by (simp add: disk_of_def with_disk_def)

lemma exec_main_Ok: "exec_op op (disk_of w) = Ok d \<Longrightarrow> exec_main op (w, p) = (Ok (), (with_disk d w, p))"
  by (simp add: exec_main_def disk_of_def with_disk_def)

lemma fold_exec_main:
  "foldR exec_op ops (disk_of w) = Ok d \<Longrightarrow> foldA exec_main ops (w, p) = (Ok (), (with_disk d w, p))"
proof (induction ops arbitrary: w)
  case Nil
  then show ?case by (auto simp: disk_of_def with_disk_def)
next
  case (Cons op ops)
  from Cons.prems obtain d1 where d1: "exec_op op (disk_of w) = Ok d1" "foldR exec_op ops d1 = Ok d"
    by (auto simp: bindR_Ok_iff)
  have "foldA exec_main ops (with_disk d1 w, p) = (Ok (), (with_disk d (with_disk d1 w), p))"
    using Cons.IH [of "with_disk d1 w"] d1(2) by simp
  then show ?case using exec_main_Ok [OF d1(1), of p] by (simp add: bindA_def with_disk_def)
qed

section \<open>The context of a commit\<close>

definition ctx_of :: "world \<Rightarrow> write_pager \<Rightarrow> commit_ctx" where
  "ctx_of w p = \<lparr>cx_counter = change_counter (wp_header p), cx_disk_pages = wp_disk_pages p, cx_pages = wp_page_count p,
     cx_psize = wp_page_size p, cx_overlay = wp_overlay p, cx_file = w_main w\<rparr>"

text \<open>The operations that journal and flush run, in order.\<close>

lemma journal_flush_ops:
  assumes "wp_journal p" and "journal_originals (w_main w) (wp_page_size p) (wp_disk_pages p) (wp_overlay p) = Ok originals"
    and "foldR exec_op (write_journal_ops (change_counter (wp_header p)) (wp_disk_pages p) (wp_page_size p) originals @
           flush_ops (wp_page_size p) (wp_page_count p) (wp_overlay p)) (disk_of w) = Ok d"
  shows "bindA journal_step (\<lambda>_. bindA flush_step f) (w, p) = f () (with_disk d w, p)"
proof -
  obtain d1 where d1: "foldR exec_op (write_journal_ops (change_counter (wp_header p)) (wp_disk_pages p) (wp_page_size p) originals)
      (disk_of w) = Ok d1" "foldR exec_op (flush_ops (wp_page_size p) (wp_page_count p) (wp_overlay p)) d1 = Ok d"
    using assms(3) by (auto simp: foldR_append bindR_Ok_iff)
  have "journal_step (w, p) = (Ok (), (with_disk d1 w, p))"
    using assms(1,2) fold_exec_main [OF d1(1), of p] by (simp add: journal_step_def)
  moreover have "flush_step (with_disk d1 w, p) = (Ok (), (with_disk d (with_disk d1 w), p))"
    using assms(1) fold_exec_main [of "flush_ops (wp_page_size p) (wp_page_count p) (wp_overlay p)" "with_disk d1 w" d p] d1(2)
    by (simp add: flush_step_def Let_def)
  ultimately show ?thesis by (simp add: bindA_def [of journal_step] bindA_def [of flush_step] with_disk_def)
qed

lemma exec_all:
  assumes "commit_ok c" and "d_file d = cx_file c"
    and "the_commit_ops c = Ok ops"
  shows "foldR exec_op ops d = Ok \<lparr>d_file = committed_file c, d_journal = []\<rparr>"
proof -
  let ?J = "d\<lparr>d_journal := journal_image (cx_nonce c) (cx_disk_pages c) (cx_psize c) (saved c)\<rparr>"
  have "ops = (before_count c @ [count_op c]) @ after_count c @ [JTrunc 0, JSync]"
    using the_commit_ops_split [OF assms(1)] assms(3) by simp
  then have "foldR exec_op ops d = bindR (foldR exec_op (after_count c) ?J) (foldR exec_op [JTrunc 0, JSync])"
    using exec_before_count [OF assms(1), of d] foldR_append [of exec_op "before_count c @ [count_op c]"]
      foldR_append [of exec_op "after_count c"] by (metis bindR.simps(1))
  then show ?thesis
    using exec_after_count [OF assms(1), of ?J] assms(2)
    by (simp add: file_truncate_def committed_file_def) (simp add: resize_def)
qed

lemma put_pages_reach:
  "pages_ok psize pgs \<Longrightarrow> (n, b) \<in> set pgs \<Longrightarrow> unat n * psize \<le> length (put_pages psize pgs fl)"
proof (induction pgs arbitrary: fl)
  case (Cons r pgs)
  obtain n' b' where r: "r = (n', b')" by (cases r)
  have ok: "n' \<noteq> 0" "length b' = psize" "pages_ok psize pgs" using Cons.prems(1) r by (auto simp: pages_ok_Cons)
  show ?case
  proof (cases "(n, b) = r")
    case True
    have "unat n * psize \<le> length (write_at fl ((unat n - 1) * psize) b)"
      using True r ok page_end [of "unat n" psize] by (simp add: unat_gt_0)
    from order_trans [OF this length_put_pages] show ?thesis using True r by auto
  next
    case False
    then have "(n, b) \<in> set pgs" using Cons.prems(2) by auto
    then show ?thesis using Cons.IH [OF ok(3)] r by simp
  qed
qed simp

section \<open>What the committed file holds\<close>

lemma committed_file_page:
  assumes c: "commit_ok c" and n: "0 < unat n" "unat n \<le> unat (cx_pages c)"
    and grow: "\<And>n. cx_disk_pages c < n \<Longrightarrow> n \<le> cx_pages c \<Longrightarrow> n \<in> set (bm_keys (cx_overlay c))"
  shows "file_page (cx_psize c) (committed_file c) (unat n) =
    (case bm_get (cx_overlay c) n of Some b \<Rightarrow> b | None \<Rightarrow> file_page (cx_psize c) (cx_file c) (unat n))"
    and "length (committed_file c) = unat (cx_pages c) * cx_psize c"
proof -
  let ?ps = "cx_psize c" and ?put = "put_pages (cx_psize c) (cx_overlay c) (cx_file c)"
  note ok = c [unfolded commit_ok_def]
  have pk: "pages_ok ?ps (cx_overlay c)" "distinct (map fst (cx_overlay c))" using ok bm_inv_distinct by blast+
  show "length (committed_file c) = unat (cx_pages c) * ?ps" by (simp add: committed_file_def resize_def)
  have inpages: "unat n * ?ps \<le> unat (cx_pages c) * ?ps" using n(2) by simp
  show "file_page ?ps (committed_file c) (unat n) =
    (case bm_get (cx_overlay c) n of Some b \<Rightarrow> b | None \<Rightarrow> file_page ?ps (cx_file c) (unat n))"
  proof (cases "bm_get (cx_overlay c) n")
    case (Some b)
    then have m: "(n, b) \<in> set (cx_overlay c)" by (simp add: bm_get_def map_of_SomeD)
    have put: "file_page ?ps ?put (unat n) = b" using file_page_put_pages_same [OF pk m] .
    have "unat n * ?ps \<le> length ?put" using put_pages_reach [OF pk(1) m] .
    then show ?thesis using put Some n inpages by (simp add: committed_file_def file_page_resize)
  next
    case None
    then have nk: "n \<notin> set (bm_keys (cx_overlay c))" by (simp add: bm_get_def bm_keys_def map_of_eq_None_iff)
    then have "unat n \<le> unat (cx_disk_pages c)" using grow [of n] n(2) by (force simp: word_le_nat_alt word_less_nat_alt)
    then have len: "unat n * ?ps \<le> length (cx_file c)" using ok by simp
    have "unat n \<notin> unat ` fst ` set (cx_overlay c)" using nk by (force simp: bm_keys_def word_unat_eq_iff)
    then have "file_page ?ps ?put (unat n) = file_page ?ps (cx_file c) (unat n)"
      using file_page_put_pages_other [OF pk(1) n(1) _ len] by simp
    then show ?thesis using None n inpages len length_put_pages [of "cx_file c" ?ps "cx_overlay c"]
      by (simp add: committed_file_def file_page_resize)
  qed
qed

section \<open>The commit\<close>

definition new_header :: "write_pager \<Rightarrow> database_header" where
  "new_header p = wp_header (bump_header p)"

definition stamped_page1 :: "write_pager \<Rightarrow> bytes \<Rightarrow> bytes" where
  "stamped_page1 p b = header_bytes (new_header p) @ drop 100 b"

text \<open>The state after page 1 is stamped.\<close>

definition stamped :: "write_pager \<Rightarrow> bytes \<Rightarrow> write_pager \<Rightarrow> bool" where
  "stamped p b p' \<longleftrightarrow> (\<exists>c. cache_inv c \<and> p' = p\<lparr>wp_header := new_header p, wp_read_cache := c,
     wp_overlay := bm_insert 1 (stamped_page1 p b) (wp_overlay p)\<rparr>)"

lemma stamp_page1_effect:
  assumes "cache_ok (w, p)" and "logical_page (w, p) 1 = Ok b" and "100 \<le> length b"
  obtains p' where "stamp_page1 (w, p) = (Ok (), (w, p'))" and "stamped p b p'"
proof -
  let ?p = "bump_header p"
  have q: "?p = p\<lparr>wp_header := new_header p\<rparr>" by (simp add: bump_header_def new_header_def Let_def)
  have "cache_ok (w, ?p)" using assms(1) by (simp add: q cache_ok_def)
  moreover have "logical_page (w, ?p) 1 = Ok b"
    using assms(2) committed_page_core [of "(w, ?p)" "(w, p)"] by (simp add: q logical_page_def txn_core_def split: option.splits)
  ultimately obtain c where c: "read_page 1 (w, ?p) = (Ok b, (w, ?p\<lparr>wp_read_cache := c\<rparr>))" "cache_inv c"
    using read_page_logical [of w ?p 1] by (auto simp: cache_ok_def pcache.coherent_def)
  have "header_write_to (new_header p) b = Ok (stamped_page1 p b)"
    using assms(3) header_write_to_Ok [of b] by (simp add: HEADER_LEN_def stamped_page1_def)
  then have "stamp_page1 (w, p) = (Ok (), (w, p\<lparr>wp_header := new_header p, wp_read_cache := c,
      wp_overlay := bm_insert 1 (stamped_page1 p b) (wp_overlay p)\<rparr>))"
    using c(1) by (simp add: stamp_page1_def bindA_def [of "read_page _"] q stage_def)
  then show thesis using that c(2) by (auto simp: stamped_def)
qed

text \<open>What a commit in rollback mode starts from.\<close>

definition rollback_commit_ready :: "world \<Rightarrow> write_pager \<Rightarrow> bool" where
  "rollback_commit_ready w p \<longleftrightarrow> in_txn (w, p) \<and> cache_ok (w, p) \<and> handle_open (w, p) \<and> wp_wal p = None \<and> wp_journal p \<and>
     bm_inv (wp_overlay p) \<and> pages_ok (wp_page_size p) (wp_overlay p) \<and>
     header_wf (wp_header p) \<and> wp_page_size p = unat (page_size (wp_header p)) \<and>
     length (w_main w) = unat (wp_disk_pages p) * wp_page_size p \<and> 1 \<le> wp_disk_pages p \<and> wp_disk_pages p \<le> wp_page_count p \<and>
     (\<forall>n. wp_disk_pages p < n \<and> n \<le> wp_page_count p \<longrightarrow> bm_contains (wp_overlay p) n)"

lemma header_wf_power: "header_wf h \<Longrightarrow> is_power_of_two_nat (unat (page_size h))"
  by (auto simp: header_wf_def is_power_of_two_nat_def list_ex_iff)

lemma ready_page1:
  assumes "rollback_commit_ready w p"
  obtains b where "logical_page (w, p) 1 = Ok b" and "length b = wp_page_size p" and "512 \<le> wp_page_size p"
proof -
  have ps: "512 \<le> wp_page_size p" using assms header_wf_page_size by (auto simp: rollback_commit_ready_def)
  show thesis
  proof (cases "bm_get (wp_overlay p) 1")
    case (Some b)
    then have "(1, b) \<in> set (wp_overlay p)" by (simp add: bm_get_def map_of_SomeD)
    then have "length b = wp_page_size p" using assms by (auto simp: rollback_commit_ready_def pages_ok_def)
    then show thesis using that [of b] Some ps by (simp add: logical_page_def)
  next
    case None
    have d: "1 \<le> wp_disk_pages p" "wp_wal p = None" "cache_ok (w, p)" using assms by (simp_all add: rollback_commit_ready_def)
    then have l: "logical_page (w, p) 1 = Ok (file_page (wp_page_size p) (w_main w) 1)"
      using None read_main_file_page [of w p 1] by (auto simp: logical_page_def committed_page_def not_less)
    have "unat (1 :: u32) \<le> unat (wp_disk_pages p)" using d(1) by (simp only: word_le_nat_alt)
    then have "wp_page_size p \<le> length (w_main w)" using assms by (auto simp: rollback_commit_ready_def)
    then show thesis using that l ps by (simp add: file_page_def)
  qed
qed

lemma pages_ok_insert: "pages_ok psize m \<Longrightarrow> n \<noteq> 0 \<Longrightarrow> length b = psize \<Longrightarrow> pages_ok psize (bm_insert n b m)"
  by (induction n b m rule: bm_insert.induct) (auto simp: pages_ok_def)

lemma coherent_cleared: "cache_inv c \<Longrightarrow> pcache.coherent store (cache_clear c)"
  using cache_clear_props by (simp add: pcache.coherent_def)

lemma stamped_commit_ok:
  assumes r: "rollback_commit_ready w p" and s: "stamped p b p'" and b: "length b = wp_page_size p" "512 \<le> wp_page_size p"
  shows "commit_ok (ctx_of w p')"
proof -
  have l: "length (stamped_page1 p b) = wp_page_size p" using b by (simp add: stamped_page1_def length_header_bytes)
  have p': "wp_overlay p' = bm_insert 1 (stamped_page1 p b) (wp_overlay p)" "wp_page_size p' = wp_page_size p"
    "wp_disk_pages p' = wp_disk_pages p" "wp_page_count p' = wp_page_count p"
    using s by (auto simp: stamped_def)
  have "pages_ok (wp_page_size p) (bm_insert 1 (stamped_page1 p b) (wp_overlay p))"
    using r l by (auto simp: rollback_commit_ready_def intro!: pages_ok_insert)
  moreover have "bm_inv (bm_insert 1 (stamped_page1 p b) (wp_overlay p))"
    using r bm_inv_insert by (auto simp: rollback_commit_ready_def)
  moreover have "bm_contains (bm_insert 1 (stamped_page1 p b) (wp_overlay p)) 1" by (simp add: bm_contains_def bm_get_insert_any)
  moreover have "is_power_of_two_nat (wp_page_size p)" using r header_wf_power by (auto simp: rollback_commit_ready_def)
  ultimately show ?thesis using r b(2) p' by (auto simp: commit_ok_def ctx_of_def rollback_commit_ready_def word_le_nat_alt)
qed

lemma commit_journaled_effect:
  assumes r: "rollback_commit_ready w p" and j: "w_journal w = []"
  shows "\<exists>w' p' b. commit_journaled (w, p) = (Ok (), (w', p')) \<and> logical_page (w, p) 1 = Ok b \<and>
    w_journal w' = [] \<and> wp_held p' = Unlocked \<and> wp_overlay p' = [] \<and> wp_committed_header p' = new_header p \<and>
    length (w_main w') = unat (wp_page_count p) * wp_page_size p \<and>
    (\<forall>n. 0 < n \<and> n \<le> wp_page_count p \<longrightarrow>
      fst (read_page n (w', p')) = (if n = 1 then Ok (stamped_page1 p b) else logical_page (w, p) n))"
proof -
  obtain b where b: "logical_page (w, p) 1 = Ok b" "length b = wp_page_size p" "512 \<le> wp_page_size p" using ready_page1 [OF r] .
  have ok: "cache_ok (w, p)" using r by (simp add: rollback_commit_ready_def)
  obtain p1 where p1: "stamp_page1 (w, p) = (Ok (), (w, p1))" "stamped p b p1"
    using stamp_page1_effect [OF ok b(1)] b(2,3) by auto
  let ?c = "ctx_of w p1"
  have cok: "commit_ok ?c" by (rule stamped_commit_ok [OF r p1(2) b(2,3)])
  obtain ops originals where ops: "the_commit_ops ?c = Ok ops"
    "journal_originals (w_main w) (wp_page_size p1) (wp_disk_pages p1) (wp_overlay p1) = Ok originals"
    "ops = write_journal_ops (change_counter (wp_header p1)) (wp_disk_pages p1) (wp_page_size p1) originals @
       flush_ops (wp_page_size p1) (wp_page_count p1) (wp_overlay p1)"
    using journal_originals_saved [OF cok] by (simp add: the_commit_ops_def commit_ops_def ctx_of_def)
  let ?d = "\<lparr>d_file = committed_file ?c, d_journal = []\<rparr>" and ?w = "with_disk \<lparr>d_file = committed_file (ctx_of w p1), d_journal = []\<rparr> w"
  have "foldR exec_op ops (disk_of w) = Ok ?d" using exec_all [OF cok _ ops(1)] by (simp add: disk_of_def ctx_of_def)
  then have ex: "foldR exec_op (write_journal_ops (change_counter (wp_header p1)) (wp_disk_pages p1) (wp_page_size p1) originals @
      flush_ops (wp_page_size p1) (wp_page_count p1) (wp_overlay p1)) (disk_of w) = Ok ?d" using ops(3) by metis
  have jn: "wp_journal p1" using r p1(2) by (auto simp: stamped_def rollback_commit_ready_def)
  note jf = journal_flush_ops [OF jn ops(2) ex]
  let ?q = "settle_commit p1"
  have "handle_open (?w, ?q)" "wp_held ?q \<noteq> Unlocked" "wp_wal ?q = None"
    using r p1(2) by (auto simp: stamped_def rollback_commit_ready_def handle_open_def settle_commit_def with_disk_def in_txn_def lock_order)
  then obtain w' x where rel: "release_locks (?w, ?q) = (Ok (), (w', drop_cache (?q\<lparr>wp_read_txn := False, wp_wal := x, wp_held := Unlocked\<rparr>)))"
    "same_files ?w w'" "x = None" using release_locks_effect [of ?w ?q] by auto
  let ?p' = "drop_cache (?q\<lparr>wp_read_txn := False, wp_wal := x, wp_held := Unlocked\<rparr>)"
  have cj: "commit_journaled (w, p) = (Ok (), (w', ?p'))"
    using p1(1) rel(1) by (simp add: commit_journaled_def bindA_def [of stamp_page1] jf)
  have main: "w_main w' = committed_file ?c" "w_journal w' = []" using rel(2) by (simp_all add: same_files_def with_disk_def)
  have p': "wp_disk_pages ?p' = wp_page_count p" "wp_page_size ?p' = wp_page_size p" "wp_overlay ?p' = []" "wp_wal ?p' = None"
    "wp_held ?p' = Unlocked" "wp_committed_header ?p' = new_header p"
    using p1(2) rel(3) by (auto simp: stamped_def drop_cache_def settle_commit_def)
  have c: "cx_psize ?c = wp_page_size p" "cx_pages ?c = wp_page_count p" "cx_disk_pages ?c = wp_disk_pages p" "cx_file ?c = w_main w"
    "cx_overlay ?c = bm_insert 1 (stamped_page1 p b) (wp_overlay p)"
    using p1(2) by (auto simp: stamped_def ctx_of_def)
  have grow: "n \<in> set (bm_keys (cx_overlay ?c))" if "cx_disk_pages ?c < n" "n \<le> cx_pages ?c" for n
  proof -
    have "bm_contains (wp_overlay p) n" using that r c by (simp add: rollback_commit_ready_def)
    then have "n \<in> set (bm_keys (wp_overlay p))" by (force simp: bm_contains_def bm_get_def bm_keys_def dest: map_of_SomeD)
    then show ?thesis using c(5) by (simp add: keys_insert)
  qed
  have "pcache.coherent store (wp_read_cache ?p')" for store
    using p1(2) by (auto simp: stamped_def drop_cache_def settle_commit_def intro!: coherent_cleared cache_clear_props)
  moreover have len: "length (w_main w') = unat (wp_page_count p) * wp_page_size p"
    using main(1) c by (simp add: committed_file_def resize_def)
  moreover have "unat (wp_page_count p) * wp_page_size p < 2 ^ 64"
  proof -
    have "unat (wp_page_count p) * wp_page_size p \<le> 2 ^ 32 * 65536"
      using unat_less_length [of "wp_page_count p"] cok c by (intro mult_mono) (auto simp: commit_ok_def pages_ok_def)
    then show ?thesis by simp
  qed
  ultimately have "cache_ok (w', ?p')" using p' by (simp add: cache_ok_def)
  have "fst (read_page n (w', ?p')) = (if n = 1 then Ok (stamped_page1 p b) else logical_page (w, p) n)"
    if n: "0 < n" "n \<le> wp_page_count p" for n
  proof -
    have "fst (read_page n (w', ?p')) = Ok (file_page (wp_page_size p) (committed_file ?c) (unat n))"
      using read_page_value [OF \<open>cache_ok (w', ?p')\<close>, of n] read_main_file_page [OF \<open>cache_ok (w', ?p')\<close>, of n] n p' main
      by (simp add: logical_page_def committed_page_def bm_get_def not_less)
    also have "file_page (wp_page_size p) (committed_file ?c) (unat n) =
        (case bm_get (cx_overlay ?c) n of Some b \<Rightarrow> b | None \<Rightarrow> file_page (wp_page_size p) (w_main w) (unat n))"
      using committed_file_page(1) [OF cok _ _ grow, of n] n c by (simp add: unat_gt_0 word_le_nat_alt cong: option.case_cong)
    also have "Ok \<dots> = (if n = 1 then Ok (stamped_page1 p b) else logical_page (w, p) n)"
    proof (cases "n = 1 \<or> bm_get (wp_overlay p) n \<noteq> None")
      case True
      then show ?thesis using c(5) by (auto simp: bm_get_insert_any logical_page_def)
    next
      case False
      then have "\<not> wp_disk_pages p < n" using r n(2) by (auto simp: rollback_commit_ready_def bm_contains_def)
      then have "logical_page (w, p) n = Ok (file_page (wp_page_size p) (w_main w) (unat n))"
        using False n r read_main_file_page [OF ok, of n]
        by (auto simp: logical_page_def committed_page_def rollback_commit_ready_def not_less)
      then show ?thesis using False c(5) by (auto simp: bm_get_insert_any)
    qed
    finally show ?thesis .
  qed
  then show ?thesis using cj b(1) main(2) p' len by (intro exI [of _ w'] exI [of _ ?p'] exI [of _ b]) simp
qed

end
