(* ===== verification/CrashLimits.thy ===== *)
theory CrashLimits
  imports CrashRecovery PagerOpen
begin

text \<open>
  Where the rollback journal does not protect a commit: a commit that shrinks the file, as an
  auto-vacuum commit does, and the first commit of a new database.
\<close>

section \<open>A commit that shrinks the file\<close>

text \<open>Two pages of 512 bytes, of which the commit rewrites the first and drops the second.\<close>

definition shrink_ctx :: "u32 \<Rightarrow> bytes \<Rightarrow> bytes \<Rightarrow> bytes \<Rightarrow> commit_ctx" where
  "shrink_ctx cc b p1 p2 = \<lparr>cx_counter = cc, cx_disk_pages = 2, cx_pages = 2, cx_psize = 512, cx_overlay = [(1, b)],
     cx_file = p1 @ p2\<rparr>"

lemma shrink_ctx_ok:
  assumes "length b = 512" "length p1 = 512" "length p2 = 512"
  shows "commit_ok (shrink_ctx cc b p1 p2)" and "saved (shrink_ctx cc b p1 p2) = [(1, p1)]"
proof -
  have "is_power_of_two_nat 512" unfolding is_power_of_two_nat_def list_ex_iff by (rule bexI [of _ 9]) simp_all
  then show "commit_ok (shrink_ctx cc b p1 p2)"
    using assms by (simp add: commit_ok_def shrink_ctx_def bm_inv_def bm_keys_def pages_ok_def bm_contains_def bm_get_def)
  have "unat (1 :: u32) \<le> unat (2 :: u32)" by simp
  then have "(1 :: u32) \<le> 2" by (simp only: word_le_nat_alt)
  then show "saved (shrink_ctx cc b p1 p2) = [(1, p1)]"
    using assms by (simp add: saved_def shrink_ctx_def bm_keys_def file_page_def)
qed

lemma shrink_crash:
  assumes len: "length b = 512" "length p1 = 512" "length p2 = 512"
    and ops: "commit_ops cc 2 1 512 [(1, b)] (p1 @ p2) = Ok ops"
  shows "\<exists>d1. crash_disk ops (length ops - 3) 0 \<lparr>d_file = p1 @ p2, d_journal = []\<rparr> = Ok d1 \<and>
    recover d1 = Ok \<lparr>d_file = p1 @ replicate 512 0, d_journal = []\<rparr>"
proof -
  let ?c = "shrink_ctx cc b p1 p2" and ?d = "\<lparr>d_file = p1 @ p2, d_journal = []\<rparr>"
  note ok = shrink_ctx_ok [OF len, of cc]
  let ?A = "before_count ?c @ [count_op ?c]"
  let ?B = "[JSync, FWrite b 0, FTrunc 512]"
  have "journal_originals (p1 @ p2) 512 2 [(1, b)] = Ok (saved ?c)"
    using journal_originals_saved [OF ok(1)] by (simp add: shrink_ctx_def)
  then have o: "ops = ?A @ ?B @ [FSync, JTrunc 0, JSync]"
    using ops by (auto simp: commit_ops_def write_journal_ops_def flush_ops_def before_count_def shrink_ctx_def Let_def)
  let ?J = "?d\<lparr>d_journal := journal_image (cx_nonce ?c) 2 512 [(1, p1)]\<rparr>"
  have A: "foldR exec_op ?A ?d = Ok ?J" using exec_before_count [OF ok(1), of ?d] ok(2) by (simp add: shrink_ctx_def)
  have B: "foldR exec_op ?B ?J = Ok (?J\<lparr>d_file := b\<rparr>)"
    using len by (simp add: write_at_def overwrite_def file_truncate_def resize_def)
  have t: "take (length ops - 3) ops = ?A @ ?B" "ops ! (length ops - 3) = FSync" "length ops - 3 < length ops"
    unfolding o by (simp_all add: nth_append)
  then have "crash_disk ops (length ops - 3) 0 ?d = foldR exec_op ((?A @ ?B) @ [JSync]) ?d"
    unfolding crash_disk_def t(1,2) using t(3) by (simp only: if_True torn.simps)
  also have "\<dots> = Ok (?J\<lparr>d_file := b\<rparr>)" using A B by (simp only: foldR_append bindR.simps) simp
  finally have c: "crash_disk ops (length ops - 3) 0 ?d = Ok (?J\<lparr>d_file := b\<rparr>)" .
  have "recover (?J\<lparr>d_file := b\<rparr>) = Ok \<lparr>d_file = resize (put_pages 512 [(1, p1)] b) (unat (2 :: u32) * 512), d_journal = []\<rparr>"
    using recover_image [of 512 "[(1, p1)]" "?J\<lparr>d_file := b\<rparr>" "cx_nonce ?c" 2] ok(1) len
    by (simp add: commit_ok_def shrink_ctx_def pages_ok_def)
  moreover have "resize (put_pages 512 [(1, p1)] b) (unat (2 :: u32) * 512) = p1 @ replicate 512 0"
    using len by (simp add: write_at_def overwrite_def resize_def)
  ultimately show ?thesis using c by auto
qed

section \<open>The first commit of a database\<close>

text \<open>With no page on disk the journal has no record, and a journal without records is never played back.\<close>

lemma first_commit_journal:
  assumes "list_all (\<lambda>(n, b). n \<noteq> 0) overlay"
  shows "journal_originals [] psize 0 overlay = Ok []"
proof -
  have "filter (\<lambda>n. n \<le> 0) (bm_keys overlay) = []"
    using assms by (auto simp: filter_empty_conv bm_keys_def list_all_iff)
  then show ?thesis by (simp add: journal_originals_def)
qed

definition no_records :: "disk \<Rightarrow> bool" where
  "no_records d \<longleftrightarrow> length (d_journal d) < 2 ^ 63 \<and> (\<forall>i. 8 \<le> i \<and> i < 12 \<and> i < length (d_journal d) \<longrightarrow> d_journal d ! i = 0)"

lemma no_records_recover: "no_records d \<Longrightarrow> recover d = Ok d"
  by (rule recover_cold) (auto simp: no_records_def)

lemma keeps_no_records:
  "keeps no_records FSync" "keeps no_records JSync" "keeps no_records (FTrunc n)" "keeps no_records (JTrunc 0)"
  "off + length buf < 2 ^ 63 \<Longrightarrow> keeps no_records (FWrite buf off)"
  by (simp_all add: keeps_def no_records_def file_truncate_def resize_def)

lemma keeps_no_records_write:
  assumes "off + length buf < 2 ^ 63" and "\<And>i. i < length buf \<Longrightarrow> 8 \<le> off + i \<Longrightarrow> off + i < 12 \<Longrightarrow> buf ! i = 0"
  shows "keeps no_records (JWrite buf off)"
proof -
  have "write_at dat off buf ! i = 0"
    if "8 \<le> i" "i < 12" "i < max (length dat) (off + length buf)" and d: "\<forall>i. 8 \<le> i \<and> i < 12 \<and> i < length dat \<longrightarrow> dat ! i = 0" for dat i
    using that assms(2) [of "i - off"] by (auto simp: nth_write_at)
  then show ?thesis using assms(1) by (auto simp: keeps_def no_records_def)
qed

lemma be_bytes_zero: "be_bytes n 0 = replicate n 0"
  by (induction n) (simp_all add: replicate_append_same)

lemma first_commit_crash:
  assumes ok: "pages_ok psize overlay" and ops: "commit_ops cc 0 pages psize overlay [] = Ok ops"
  shows "\<exists>d1. crash_disk ops i k \<lparr>d_file = [], d_journal = []\<rparr> = Ok d1 \<and> no_records d1"
proof -
  let ?h = "journal_header (journal_nonce cc 0) 0 psize"
  have "journal_originals [] psize 0 overlay = Ok []"
    using ok by (intro first_commit_journal) (auto simp: pages_ok_def list_all_iff)
  then have o: "ops = [JTrunc 0, JWrite ?h 0, JSync, JWrite (to_be32 0) 8, JSync] @ flush_ops psize pages overlay"
    using ops by (auto simp: commit_ops_def write_journal_ops_def Let_def)
  have w: "keeps no_records (FWrite buf ((unat n - 1) * psize)) \<and> keeps no_records (FWrite (take k buf) ((unat n - 1) * psize))"
    if "(n, buf) \<in> set overlay" for n buf
    using that ok page_offset_bound [of psize n] by (auto simp: pages_ok_def intro!: keeps_no_records(5))
  have "to_be32 0 = replicate 4 0" by (simp add: to_be32_def be_bytes_zero)
  then have z: "to_be32 0 ! i = 0" if "i < 4" for i using that by simp
  have "keeps no_records (JWrite ?h 0) \<and> keeps no_records (JWrite (take k ?h) 0)"
    using journal_header_count by (auto intro!: keeps_no_records_write)
  moreover have "keeps no_records (JWrite (to_be32 0) 8)" using z by (auto intro!: keeps_no_records_write)
  ultimately have "\<forall>op \<in> set ops. keeps no_records op \<and> keeps no_records (torn k op)"
    using w unfolding o by (auto simp: flush_ops_def keeps_no_records)
  moreover have "no_records \<lparr>d_file = [], d_journal = []\<rparr>" by (simp add: no_records_def)
  ultimately show ?thesis using crash_keeps [of ops no_records k] by blast
qed

text \<open>Opening the database that such a crash leaves, once it has bytes in its file, changes neither file.\<close>

lemma open_no_records:
  assumes d: "no_records \<lparr>d_file = w_main w, d_journal = w_journal w\<rparr>" and f: "w_main w \<noteq> []"
    and l: "w_locks w = \<lparr>locks = default_locks, levels = [Unlocked]\<rparr>"
  shows "\<exists>w'. recover_hot_journal 0 w = (Ok (), w') \<and> w_main w' = w_main w \<and> w_journal w' = w_journal w"
proof (cases "w_journal w = []")
  case True
  then show ?thesis by (simp add: recover_hot_journal_def file_size_def)
next
  case False
  let ?L = "\<lambda>s lv e. \<lparr>locks = \<lparr>shared = s, reserved = False, pending = e, exclusive = e\<rparr>, levels = [lv]\<rparr>"
  let ?w1 = "w\<lparr>w_locks := ?L 1 Shared False\<rparr>" and ?w2 = "w\<lparr>w_locks := ?L 1 Exclusive True\<rparr>"
  have len: "length (w_journal w) < 2 ^ 64" using d by (simp add: no_records_def)
  obtain b0 bs where j: "w_journal w = b0 # bs" using False by (cases "w_journal w") auto
  have l1: "lock_handle 0 Shared w = (Ok (), ?w1)" unfolding lock_handle_def l by (simp add: file_lock_def acquire_def default_locks_def lock_order)
  have l2: "lock_handle 0 Exclusive ?w1 = (Ok (), ?w2)" by (simp add: lock_handle_def file_lock_def acquire_def lock_order)
  have rec: "play_journal ?w2 = (Ok (), ?w2)" using no_records_recover [OF d] by (simp add: play_journal_def)
  have "\<exists>x. recover_hot_journal_locked 0 ?w1 = (Ok (), w\<lparr>w_locks := x\<rparr>) \<and> length (levels x) = 1"
  proof (cases "b0 = 0")
    case True
    then show ?thesis using f len j by (auto simp: recover_hot_journal_locked_def check_reserved_lock_def has_write_intent_def file_size_def)
  next
    case nz: False
    then have "recover_hot_journal_locked 0 ?w1 = (Ok (), ?w2)" using f len j rec l2
      by (simp add: recover_hot_journal_locked_def check_reserved_lock_def has_write_intent_def file_size_def bindA_def [of "lock_handle _ _"])
    then show ?thesis by auto
  qed
  then obtain x where x: "recover_hot_journal_locked 0 ?w1 = (Ok (), w\<lparr>w_locks := x\<rparr>)" "length (levels x) = 1" by blast
  then show ?thesis using False l1
    by (auto simp: recover_hot_journal_def file_size_def tryA_def unlock_handle_def file_unlock_def Let_def bindA_def split: res.splits)
qed

end
