(* ===== verification/Balance.thy ===== *)
theory Balance
  imports Errors
begin

text \<open>
  The redistribution of cells over sibling pages (\<open>src/btree/balance.rs\<close>). \<open>distribute\<close> keeps two
  arrays, the bytes and the end boundary of each new page, seeds them from the old pages, packs greedily
  from the left (\<open>shed_loop\<close>, \<open>fill_loop\<close>, \<open>pack_loop\<close>) and then evens out adjacent pages from the
  right (\<open>shift_loop\<close>, \<open>even_out\<close>). The theorem \<open>distribute_Ok\<close> covers both uses: table leaves, where
  every pooled cell stays on a page, and index leaves, where the cell at a boundary is promoted. Debug
  assertions and arithmetic underflow are panics.
\<close>

section \<open>The algorithm\<close>

definition cell_sz :: "nat list \<Rightarrow> nat \<Rightarrow> int res" where
  "cell_sz sz i = bindR (idx sz i) (\<lambda>c. Ok (int c))"

definition usable_space :: "bool \<Rightarrow> nat \<Rightarrow> int" where
  "usable_space leaf usable = int (usable + (if leaf then 4 else 0)) - 12"

definition seed_page :: "nat list \<Rightarrow> nat list \<Rightarrow> nat \<Rightarrow> nat \<Rightarrow> int list \<times> nat list \<Rightarrow> (int list \<times> nat list) res" where
  "seed_page sz cnt_old ld i = (\<lambda>(szn, cntn).
    bindR (idx cnt_old i) (\<lambda>e.
    bindR (if i = 0 then Ok 0 else bindR (idx cnt_old (i - 1)) (\<lambda>c. Ok (c + (1 - ld)))) (\<lambda>start.
    bindR (mapR (\<lambda>j. bindR (cell_sz sz j) (\<lambda>c. Ok (c + 2))) [start..<e]) (\<lambda>cs.
    bindR (put_idx szn i (sum_list cs)) (\<lambda>szn.
    bindR (put_idx cntn i e) (\<lambda>cntn. Ok (szn, cntn)))))))"

text \<open>The bytes a boundary at \<open>c\<close> adds to the page on its right.\<close>

definition right_delta :: "nat list \<Rightarrow> nat \<Rightarrow> int \<Rightarrow> nat \<Rightarrow> int res" where
  "right_delta sz ld s c =
    (if ld = 0 then if c < length sz then bindR (cell_sz sz c) (\<lambda>x. Ok (2 + x)) else Ok 0 else Ok s)"

definition new_page :: "nat \<Rightarrow> nat \<Rightarrow> nat \<times> int list \<times> nat list \<Rightarrow> (nat \<times> int list \<times> nat list) res" where
  "new_page n i = (\<lambda>(k, szn, cntn).
    if k \<le> i + 1 then
      bindR (put_idx szn (i + 1) 0) (\<lambda>szn. bindR (put_idx cntn (i + 1) n) (\<lambda>cntn. Ok (i + 2, szn, cntn)))
    else Ok (k, szn, cntn))"

lemma new_page_Ok:
  "new_page n i (k, szn, cntn) = Ok (k', szn', cntn') \<Longrightarrow>
    length szn' = length szn \<and> length cntn' = length cntn \<and> cntn' ! i = cntn ! i \<and> szn' ! i = szn ! i"
  by (auto simp: new_page_def put_idx_def split: if_splits)

function shed_loop :: "nat list \<Rightarrow> nat \<Rightarrow> int \<Rightarrow> nat \<Rightarrow> nat \<times> int list \<times> nat list \<Rightarrow> (nat \<times> int list \<times> nat list) res" where
  "shed_loop sz ld space i (k, szn, cntn) =
    bindR (idx szn i) (\<lambda>si.
    if space < si then
      bindR (new_page (length sz) i (k, szn, cntn)) (\<lambda>(k, szn, cntn).
      bindR (idx cntn i) (\<lambda>c.
      bindR (usub c 1) (\<lambda>c1.
      bindR (cell_sz sz c1) (\<lambda>x.
      bindR (right_delta sz ld (2 + x) c) (\<lambda>s.
      bindR (idx szn (i + 1)) (\<lambda>sr.
      shed_loop sz ld space i (k, szn[i := si - (2 + x), i + 1 := sr + s], cntn[i := c1])))))))
    else Ok (k, szn, cntn))"
  by pat_completeness auto
termination
proof (relation "measure (\<lambda>(sz, ld, space, i, k, szn, cntn). cntn ! i)")
  fix sz ld space i k szn cntn x xa y xb ya c c1 xc s sr
  assume *: "new_page (length sz) i (k, szn, cntn) = Ok x" "(xa, y) = x" "(xb, ya) = y" "idx ya i = Ok c" "usub c 1 = Ok c1"
  then have "ya ! i = cntn ! i" using new_page_Ok by (metis prod.collapse)
  then show "((sz, ld, space, i, xa, xb[i := si - (2 + xc), i + 1 := sr + s], ya[i := c1]), sz, ld, space, i, k, szn, cntn)
    \<in> measure (\<lambda>(sz, ld, space, i, k, szn, cntn). cntn ! i)" for si
    using * by (auto simp: idx_def usub_def split: if_splits)
qed simp

function fill_loop :: "nat list \<Rightarrow> nat \<Rightarrow> int \<Rightarrow> nat \<Rightarrow> int list \<times> nat list \<Rightarrow> (int list \<times> nat list) res" where
  "fill_loop sz ld space i (szn, cntn) =
    bindR (idx cntn i) (\<lambda>c.
    if c < length sz then
      bindR (cell_sz sz c) (\<lambda>x.
      bindR (idx szn i) (\<lambda>si.
      if space < si + (2 + x) then Ok (szn, cntn)
      else
        bindR (right_delta sz ld (2 + x) (c + 1)) (\<lambda>s.
        bindR (idx szn (i + 1)) (\<lambda>sr.
        fill_loop sz ld space i (szn[i := si + (2 + x), i + 1 := sr - s], cntn[i := c + 1])))))
    else Ok (szn, cntn))"
  by pat_completeness auto
termination
  by (relation "measure (\<lambda>(sz, ld, space, i, szn, cntn). length sz - cntn ! i)") (auto simp: idx_def split: if_splits)

declare shed_loop.simps [simp del] fill_loop.simps [simp del]

lemma shed_loop_length:
  "shed_loop sz ld space i (k, szn, cntn) = Ok (k', szn', cntn') \<Longrightarrow>
    i < length szn \<and> length szn' = length szn \<and> length cntn' = length cntn"
proof (induction sz ld space i "(k, szn, cntn)" arbitrary: k szn cntn rule: shed_loop.induct)
  case (1 sz ld space i k szn cntn)
  show ?case
  proof (cases "i < length szn \<and> space < szn ! i")
    case True
    with "1.prems" obtain k1 szn1 cntn1 c x s where n: "new_page (length sz) i (k, szn, cntn) = Ok (k1, szn1, cntn1)"
      and r: "idx cntn1 i = Ok c" "usub c 1 = Ok (c - 1)" "cell_sz sz (c - 1) = Ok x" "right_delta sz ld (2 + x) c = Ok s"
        "idx szn1 (i + 1) = Ok (szn1 ! (i + 1))"
      and l: "shed_loop sz ld space i (k1, szn1[i := szn ! i - (2 + x), i + 1 := szn1 ! (i + 1) + s], cntn1[i := c - 1]) =
        Ok (k', szn', cntn')"
      by (subst (asm) shed_loop.simps) (auto simp: bindR_Ok_iff idx_def usub_def split: if_splits)
    from "1.hyps" [OF _ _ n refl refl r(1,2,3,4,5) l] True new_page_Ok [OF n] show ?thesis by (simp add: idx_def)
  qed (use "1.prems" in \<open>subst (asm) shed_loop.simps, auto simp: idx_def split: if_splits\<close>)
qed

lemma fill_loop_length:
  "fill_loop sz ld space i (szn, cntn) = Ok (szn', cntn') \<Longrightarrow> length szn' = length szn \<and> length cntn' = length cntn"
proof (induction sz ld space i "(szn, cntn)" arbitrary: szn cntn rule: fill_loop.induct)
  case (1 sz ld space i szn cntn)
  show ?case
  proof (cases "i < length cntn \<and> cntn ! i < length sz \<and> i < length szn \<and> szn ! i + (2 + int (sz ! (cntn ! i))) \<le> space")
    case True
    with "1.prems" obtain s where r: "right_delta sz ld (2 + int (sz ! (cntn ! i))) (cntn ! i + 1) = Ok s"
        "idx szn (i + 1) = Ok (szn ! (i + 1))"
      and l: "fill_loop sz ld space i (szn[i := szn ! i + (2 + int (sz ! (cntn ! i))), i + 1 := szn ! (i + 1) - s],
        cntn[i := cntn ! i + 1]) = Ok (szn', cntn')"
      by (subst (asm) fill_loop.simps) (auto simp: bindR_Ok_iff idx_def cell_sz_def split: if_splits)
    from "1.hyps" [OF _ _ _ _ _ r l] True show ?thesis
      by (simp add: idx_def cell_sz_def)
  qed (use "1.prems" in \<open>subst (asm) fill_loop.simps, auto simp: bindR_Ok_iff idx_def cell_sz_def split: if_splits\<close>)
qed

function pack_loop :: "nat list \<Rightarrow> nat \<Rightarrow> int \<Rightarrow> nat \<Rightarrow> nat \<times> int list \<times> nat list \<Rightarrow> (nat \<times> int list \<times> nat list) res" where
  "pack_loop sz ld space i (k, szn, cntn) =
    (if i < k then
       bindR (shed_loop sz ld space i (k, szn, cntn)) (\<lambda>(k, szn, cntn).
       bindR (fill_loop sz ld space i (szn, cntn)) (\<lambda>(szn, cntn).
       bindR (idx cntn i) (\<lambda>c.
       pack_loop sz ld space (i + 1) (if length sz \<le> c then i + 1 else k, szn, cntn))))
     else Ok (k, szn, cntn))"
  by pat_completeness auto
termination
  by (relation "measure (\<lambda>(sz, ld, space, i, k, szn, cntn). length szn - i)")
    (auto dest!: shed_loop_length fill_loop_length)

declare pack_loop.simps [simp del]

function shift_loop :: "nat list \<Rightarrow> int \<Rightarrow> nat \<Rightarrow> int \<Rightarrow> int \<Rightarrow> int \<Rightarrow> int \<Rightarrow> nat list \<Rightarrow> (int \<times> int \<times> nat list) res" where
  "shift_loop sz slack i r d right left cntn =
    (if r < 0 then Ok (right, left, cntn)
     else
       bindR (cell_sz sz (nat r)) (\<lambda>sz_r.
       bindR (if d < 0 then Panic else cell_sz sz (nat d)) (\<lambda>sz_d.
       if right \<noteq> 0 \<and> left - (sz_r + slack) < right + sz_d + 2 then Ok (right, left, cntn)
       else
         bindR (put_idx cntn (i - 1) (nat r)) (\<lambda>cntn.
         shift_loop sz slack i (r - 1) (d - 1) (right + (sz_d + 2)) (left - (sz_r + 2)) cntn))))"
  by pat_completeness auto
termination
  by (relation "measure (\<lambda>(sz, slack, i, r, d, right, left, cntn). nat (r + 1))") auto

declare shift_loop.simps [simp del]

fun even_out :: "nat list \<Rightarrow> nat \<Rightarrow> nat \<Rightarrow> nat \<Rightarrow> int list \<times> nat list \<Rightarrow> (int list \<times> nat list) res" where
  "even_out sz ld k 0 (szn, cntn) = Ok (szn, cntn)"
| "even_out sz ld k (Suc j) (szn, cntn) =
    bindR (idx szn (j + 1)) (\<lambda>right.
    bindR (idx szn j) (\<lambda>left.
    bindR (idx cntn j) (\<lambda>c.
    let r = int c - 1; d = r + 1 - int ld in
    bindR (shift_loop sz (if j + 1 = k - 1 then 0 else 2) (j + 1) r d right left cntn) (\<lambda>(right, left, cntn).
    even_out sz ld k j (szn[j + 1 := right, j := left], cntn)))))"

definition distribute :: "nat list \<Rightarrow> nat list \<Rightarrow> bool \<Rightarrow> bool \<Rightarrow> nat \<Rightarrow> nat list res" where
  "distribute sz cnt_old leaf leaf_data usable =
    (if sz = [] \<or> cnt_old = [] then Panic
     else
       let space = usable_space leaf usable; ld = (if leaf_data then 1 else 0); cap = length sz + 2 in
       bindR (foldR (seed_page sz cnt_old ld) [0..<length cnt_old] (replicate cap 0, replicate cap 0)) (\<lambda>(szn, cntn).
       bindR (pack_loop sz ld space 0 (length cnt_old, szn, cntn)) (\<lambda>(k, szn, cntn).
       bindR (usub k 1) (\<lambda>i.
       bindR (even_out sz ld k i (szn, cntn)) (\<lambda>(szn, cntn). Ok (take k cntn))))))"

definition sibling_window :: "nat \<Rightarrow> nat \<Rightarrow> (nat \<times> nat) res" where
  "sibling_window p n_children =
    bindR (usub n_children 1) (\<lambda>i.
    if i < 2 then Ok (0, n_children)
    else if p = 0 then Ok (0, 3)
    else if p = i then Ok (i - 2, 3)
    else bindR (usub p 1) (\<lambda>w. Ok (w, 3)))"

section \<open>Sizes and boundaries\<close>

definition psum :: "nat list \<Rightarrow> nat \<Rightarrow> int" where
  "psum sz m = sum_list (map (\<lambda>c. int c + 2) (take m sz))"

definition start_of :: "nat \<Rightarrow> nat list \<Rightarrow> nat \<Rightarrow> nat" where
  "start_of ld cntn j = (if j = 0 then 0 else cntn ! (j - 1) + (1 - ld))"

definition page_sum :: "nat list \<Rightarrow> nat \<Rightarrow> nat list \<Rightarrow> nat \<Rightarrow> int" where
  "page_sum sz ld cntn j = psum sz (cntn ! j) - psum sz (start_of ld cntn j)"

lemma psum_0 [simp]: "psum sz 0 = 0"
  by (simp add: psum_def)

lemma psum_Suc: "m < length sz \<Longrightarrow> psum sz (Suc m) = psum sz m + (int (sz ! m) + 2)"
  by (simp add: psum_def take_Suc_conv_app_nth)

lemma psum_past: "length sz \<le> m \<Longrightarrow> psum sz (Suc m) = psum sz m"
  by (simp add: psum_def)

lemma psum_le_Suc: "psum sz m \<le> psum sz (Suc m)"
  by (cases "m < length sz") (simp_all add: psum_Suc psum_past)

lemma psum_mono: "a \<le> b \<Longrightarrow> psum sz a \<le> psum sz b"
  by (rule lift_Suc_mono_le [of "psum sz"]) (simp_all add: psum_le_Suc)

lemma psum_strict:
  assumes "a < b" "b \<le> length sz"
  shows "psum sz a < psum sz b"
proof -
  have "psum sz a < psum sz (Suc a)" using assms by (simp add: psum_Suc)
  also have "\<dots> \<le> psum sz b" using assms by (intro psum_mono) simp
  finally show ?thesis .
qed

lemma psum_less_imp: "psum sz a < psum sz b \<Longrightarrow> a < b"
  using psum_mono [of b a sz] by (meson leD leI)

lemma psum_span: "a \<le> b \<Longrightarrow> b \<le> length sz \<Longrightarrow> mapR (\<lambda>j. bindR (cell_sz sz j) (\<lambda>c. Ok (c + 2))) [a..<b] = Ok (map (\<lambda>j. int (sz ! j) + 2) [a..<b])
    \<and> (\<Sum>j\<leftarrow>[a..<b]. int (sz ! j) + 2) = psum sz b - psum sz a"
proof (induction "b - a" arbitrary: a)
  case (Suc d)
  then have IH: "mapR (\<lambda>j. bindR (cell_sz sz j) (\<lambda>c. Ok (c + 2))) [Suc a..<b] = Ok (map (\<lambda>j. int (sz ! j) + 2) [Suc a..<b])"
    "(\<Sum>j\<leftarrow>[Suc a..<b]. int (sz ! j) + 2) = psum sz b - psum sz (Suc a)" by auto
  have "a < b" using Suc.hyps by simp
  then show ?case using IH Suc.prems by (simp add: upt_conv_Cons cell_sz_def idx_def psum_Suc)
qed simp

text \<open>The array of sizes tracks the boundaries, and the last page ends at the last cell.\<close>

definition in_step :: "nat list \<Rightarrow> nat \<Rightarrow> nat \<times> int list \<times> nat list \<Rightarrow> bool" where
  "in_step sz ld = (\<lambda>(k, szn, cntn). 0 < k \<and> k \<le> length szn \<and> length szn = length cntn \<and> cntn ! (k - 1) = length sz \<and>
    (\<forall>j < k. szn ! j = page_sum sz ld cntn j \<and> cntn ! j \<le> length sz))"

definition agree :: "nat \<Rightarrow> nat list \<Rightarrow> nat list \<Rightarrow> bool" where
  "agree i cntn cntn' \<longleftrightarrow> length cntn' = length cntn \<and> (\<forall>j < i. cntn' ! j = cntn ! j)"

lemma agree_start: "agree i cntn cntn' \<Longrightarrow> j \<le> i \<Longrightarrow> start_of ld cntn' j = start_of ld cntn j"
  by (auto simp: agree_def start_of_def)

lemma agree_page_sum: "agree i cntn cntn' \<Longrightarrow> j < i \<Longrightarrow> page_sum sz ld cntn' j = page_sum sz ld cntn j"
  by (simp add: page_sum_def agree_start) (simp add: agree_def)

lemma page_sum_update:
  "i < length cntn \<Longrightarrow> page_sum sz ld (cntn[i := c]) j =
    (if j = i then psum sz c - psum sz (start_of ld cntn i)
     else if j = i + 1 then psum sz (cntn ! (i + 1)) - psum sz (c + (1 - ld))
     else page_sum sz ld cntn j)"
  by (auto simp: page_sum_def start_of_def nth_list_update)

lemma right_delta_Ok:
  assumes "ld \<le> 1" and "s = psum sz (Suc b) - psum sz b"
  shows "right_delta sz ld s (Suc b) = Ok (psum sz (Suc (b + (1 - ld))) - psum sz (b + (1 - ld)))"
proof (cases "ld = 0")
  case True
  then show ?thesis
    by (cases "Suc b < length sz") (simp_all add: right_delta_def cell_sz_def idx_def psum_Suc psum_past)
next
  case False
  then show ?thesis using assms by (simp add: right_delta_def)
qed

lemma new_page_in_step:
  assumes t: "in_step sz ld (k, szn, cntn)" and i: "i < k" "i + 1 < length szn" and ld: "ld \<le> 1"
  shows "\<exists>k' szn' cntn'. new_page (length sz) i (k, szn, cntn) = Ok (k', szn', cntn') \<and> in_step sz ld (k', szn', cntn') \<and>
    i + 1 < k' \<and> agree (i + 1) cntn cntn' \<and> length szn' = length szn"
proof (cases "k \<le> i + 1")
  case True
  then have k: "k = i + 1" using i by simp
  let ?c = "cntn[i + 1 := length sz]" let ?s = "szn[i + 1 := 0]"
  have len: "i + 1 < length cntn" using t i(2) by (simp add: in_step_def)
  have n: "new_page (length sz) i (k, szn, cntn) = Ok (i + 2, ?s, ?c)" using True i(2) len by (simp add: new_page_def put_idx_def)
  have last: "cntn ! i = length sz" using t k by (simp add: in_step_def)
  have "psum sz (length sz + (1 - ld)) = psum sz (length sz)" using ld by (cases "ld = 0") (simp_all add: psum_past)
  moreover have "szn ! j = page_sum sz ld cntn j \<and> cntn ! j \<le> length sz" if "j \<le> i" for j
    using t k that by (simp add: in_step_def)
  moreover have "page_sum sz ld ?c j = page_sum sz ld cntn j" if "j \<le> i" for j
    using that by (auto simp: page_sum_def start_of_def nth_list_update)
  moreover have "page_sum sz ld ?c (i + 1) = psum sz (length sz) - psum sz (length sz + (1 - ld))"
    using last len by (simp add: page_sum_def start_of_def)
  ultimately have "in_step sz ld (i + 2, ?s, ?c)"
    using t i(2) len last by (auto simp: in_step_def nth_list_update less_Suc_eq)
  then show ?thesis using n by (auto simp: agree_def)
qed (use t in \<open>auto simp: new_page_def agree_def\<close>)

lemma move_boundary:
  assumes t: "in_step sz ld (k, szn, cntn)" and i: "i + 1 < k" and c: "c \<le> length sz"
    and a: "a = szn ! i - (psum sz (cntn ! i) - psum sz c)"
    and b: "b = szn ! (i + 1) + (psum sz (cntn ! i + (1 - ld)) - psum sz (c + (1 - ld)))"
  shows "in_step sz ld (k, szn[i := a, i + 1 := b], cntn[i := c])"
proof -
  have len: "i < length cntn" "k - 1 \<noteq> i" using t i by (auto simp: in_step_def)
  have "szn[i := a, i + 1 := b] ! j = page_sum sz ld (cntn[i := c]) j" if "j < k" for j
  proof -
    have "szn ! j = page_sum sz ld cntn j" "j < length szn" using t that by (auto simp: in_step_def)
    moreover have "szn ! i = page_sum sz ld cntn i" "szn ! (i + 1) = page_sum sz ld cntn (i + 1)" using t i by (auto simp: in_step_def)
    ultimately show ?thesis
      using a b by (simp add: page_sum_update [OF len(1)] nth_list_update) (auto simp: page_sum_def start_of_def)
  qed
  then show ?thesis using t c len i by (auto simp: in_step_def nth_list_update)
qed

lemma shed_loop_Ok:
  assumes "in_step sz ld (k, szn, cntn)" and "i < k" and "i + 1 < length szn" and "ld \<le> 1" and "0 \<le> space"
  shows "\<exists>k' szn' cntn'. shed_loop sz ld space i (k, szn, cntn) = Ok (k', szn', cntn') \<and> in_step sz ld (k', szn', cntn') \<and>
    i < k' \<and> agree i cntn cntn' \<and> length szn' = length szn \<and> szn' ! i \<le> space"
  using assms(1-3)
proof (induction "cntn ! i" arbitrary: k szn cntn rule: less_induct)
  case less
  have idx: "idx szn i = Ok (szn ! i)" using less.prems by (simp add: idx_def)
  show ?case
  proof (cases "space < szn ! i")
    case True
    obtain k1 szn1 cntn1 where n: "new_page (length sz) i (k, szn, cntn) = Ok (k1, szn1, cntn1)" "in_step sz ld (k1, szn1, cntn1)"
      "i + 1 < k1" "agree (i + 1) cntn cntn1" "length szn1 = length szn"
      using new_page_in_step [OF less.prems assms(4)] by blast
    define c where "c = cntn1 ! i"
    have c: "c = cntn ! i" "szn1 ! i = szn ! i" using new_page_Ok [OF n(1)] by (simp_all add: c_def)
    have "c \<le> length sz" "i + 1 < length szn1" "length cntn1 = length szn1" using n(2,3) by (auto simp: c_def in_step_def)
    note c = c this
    have "psum sz (start_of ld cntn1 i) < psum sz c"
      using True n(2,3) c assms(5) by (auto simp: in_step_def page_sum_def c_def)
    then have pos: "0 < c" using psum_less_imp by fastforce
    then obtain b where b: "c = Suc b" by (cases c) auto
    have s: "2 + int (sz ! b) = psum sz (Suc b) - psum sz b" using b c(3) by (simp add: psum_Suc)
    let ?d = "psum sz (Suc (b + (1 - ld))) - psum sz (b + (1 - ld))"
    let ?szn = "szn1[i := szn1 ! i - (2 + int (sz ! b)), i + 1 := szn1 ! (i + 1) + ?d]" let ?cntn = "cntn1[i := b]"
    have step: "shed_loop sz ld space i (k, szn, cntn) = shed_loop sz ld space i (k1, ?szn, ?cntn)"
    proof -
      have "cntn1 ! i = Suc b" "b < length sz" using b c(3) by (simp_all add: c_def)
      then show ?thesis using idx True n(1) c(2,4,5) right_delta_Ok [OF assms(4) s]
        by (subst shed_loop.simps) (simp add: idx_def usub_def cell_sz_def)
    qed
    have t: "in_step sz ld (k1, ?szn, ?cntn)"
    proof -
      have "cntn1 ! i = Suc b" "b \<le> length sz" using b c(3) by (simp_all add: c_def)
      then show ?thesis using n(2,3) s by (intro move_boundary) simp_all
    qed
    have "?cntn ! i < cntn ! i" using c b by simp
    from less.hyps [OF this t] obtain k' szn' cntn' where
      r: "shed_loop sz ld space i (k1, ?szn, ?cntn) = Ok (k', szn', cntn')" "in_step sz ld (k', szn', cntn')" "i < k'"
      "agree i ?cntn cntn'" "length szn' = length ?szn" "szn' ! i \<le> space" using n(3) c by auto
    then show ?thesis using step n(4,5) by (auto simp: agree_def)
  next
    case False
    then show ?thesis using less.prems idx by (subst shed_loop.simps) (simp add: agree_def)
  qed
qed

lemma fill_loop_Ok:
  assumes "in_step sz ld (k, szn, cntn)" and "i < k" and "szn ! i \<le> space" and "ld \<le> 1"
  shows "\<exists>szn' cntn'. fill_loop sz ld space i (szn, cntn) = Ok (szn', cntn') \<and> in_step sz ld (k, szn', cntn') \<and>
    agree i cntn cntn' \<and> length szn' = length szn \<and> szn' ! i \<le> space \<and>
    (cntn' ! i = length sz \<or> space < psum sz (Suc (cntn' ! i)) - psum sz (start_of ld cntn i))"
  using assms(1-3)
proof (induction "length sz - cntn ! i" arbitrary: szn cntn rule: less_induct)
  case less
  let ?c = "cntn ! i" let ?x = "int (sz ! ?c)"
  have len: "i < length szn" "i < length cntn" "?c \<le> length sz" "szn ! i = psum sz ?c - psum sz (start_of ld cntn i)"
    using less.prems by (auto simp: in_step_def page_sum_def)
  show ?case
  proof (cases "?c < length sz")
    case True
    then have i1: "i + 1 < k" using less.prems(1,2) by (cases "i + 1 = k") (auto simp: in_step_def)
    have s: "2 + ?x = psum sz (Suc ?c) - psum sz ?c" using True by (simp add: psum_Suc)
    show ?thesis
    proof (cases "space < szn ! i + (2 + ?x)")
      case True
      then have "fill_loop sz ld space i (szn, cntn) = Ok (szn, cntn)"
        using len \<open>?c < length sz\<close> by (subst fill_loop.simps) (simp add: idx_def cell_sz_def)
      then show ?thesis using less.prems True s len by (auto simp: agree_def)
    next
      case False
      let ?d = "psum sz (Suc (?c + (1 - ld))) - psum sz (?c + (1 - ld))"
      let ?szn = "szn[i := szn ! i + (2 + ?x), i + 1 := szn ! (i + 1) - ?d]" let ?cntn = "cntn[i := ?c + 1]"
      have "i + 1 < length szn" using i1 less.prems(1) by (simp add: in_step_def)
      then have step: "fill_loop sz ld space i (szn, cntn) = fill_loop sz ld space i (?szn, ?cntn)"
        using len True False right_delta_Ok [OF assms(4) s] by (subst fill_loop.simps) (simp add: idx_def cell_sz_def)
      have t: "in_step sz ld (k, ?szn, ?cntn)"
        using less.prems(1) i1 True s by (intro move_boundary) simp_all
      have "length sz - ?cntn ! i < length sz - ?c" "?szn ! i \<le> space" using True False len by simp_all
      from less.hyps [OF this(1) t less.prems(2) this(2)] obtain szn' cntn' where
        r: "fill_loop sz ld space i (?szn, ?cntn) = Ok (szn', cntn')" "in_step sz ld (k, szn', cntn')" "agree i ?cntn cntn'"
          "length szn' = length ?szn" "szn' ! i \<le> space"
          "cntn' ! i = length sz \<or> space < psum sz (Suc (cntn' ! i)) - psum sz (start_of ld ?cntn i)" by auto
      moreover have "start_of ld ?cntn i = start_of ld cntn i" by (simp add: start_of_def)
      ultimately show ?thesis using step by (auto simp: agree_def)
    qed
  next
    case False
    then have "fill_loop sz ld space i (szn, cntn) = Ok (szn, cntn)" using len by (subst fill_loop.simps) (simp add: idx_def)
    then show ?thesis using less.prems False len by (auto simp: agree_def)
  qed
qed

section \<open>The greedy pass\<close>

definition full_pages :: "nat list \<Rightarrow> nat \<Rightarrow> int \<Rightarrow> nat \<Rightarrow> nat list \<Rightarrow> bool" where
  "full_pages sz ld space i cntn \<longleftrightarrow> (\<forall>j < i. cntn ! j < length sz \<and> page_sum sz ld cntn j \<le> space \<and>
     space < psum sz (Suc (cntn ! j)) - psum sz (start_of ld cntn j))"

definition cells_fit :: "nat list \<Rightarrow> nat \<Rightarrow> int \<Rightarrow> bool" where
  "cells_fit sz ld space \<longleftrightarrow> list_all (\<lambda>c. (2 - int ld) * (int c + 2) \<le> space) sz"

lemma cells_fitD: "cells_fit sz ld space \<Longrightarrow> ld \<le> 1 \<Longrightarrow> m < length sz \<Longrightarrow> (2 - int ld) * (psum sz (Suc m) - psum sz m) \<le> space"
  by (simp add: psum_Suc cells_fit_def list_all_length)

lemma cells_fit_le: "cells_fit sz ld space \<Longrightarrow> ld \<le> 1 \<Longrightarrow> m < length sz \<Longrightarrow> psum sz (Suc m) - psum sz m \<le> space"
  using cells_fitD [of sz ld space m] psum_le_Suc [of sz m] by (cases "ld = 0"; cases "ld = 1") auto

lemma full_dealt_cells:
  assumes "full_pages sz ld space i cntn" "cells_fit sz ld space" "ld \<le> 1" "j < i"
  shows "start_of ld cntn j + 2 - ld \<le> cntn ! j"
proof -
  let ?a = "start_of ld cntn j" let ?c = "cntn ! j"
  have c: "?c < length sz" "space < psum sz (Suc ?c) - psum sz ?a" using assms(1,4) by (auto simp: full_pages_def)
  have fit: "(2 - int ld) * (psum sz (Suc m) - psum sz m) \<le> space" if "m < length sz" for m
    using cells_fitD [OF assms(2,3) that] .
  have "psum sz ?a < psum sz ?c" using c fit [OF c(1)] cells_fit_le [OF assms(2,3) c(1)] by linarith
  then have ac: "?a < ?c" by (rule psum_less_imp)
  moreover have "?a + 1 < ?c" if "ld = 0"
  proof (rule ccontr)
    assume "\<not> ?a + 1 < ?c"
    then have "?c = Suc ?a" using ac by simp
    then show False using c fit [of ?a] fit [OF c(1)] that by simp
  qed
  ultimately show ?thesis using assms(3) by (cases "ld = 0") auto
qed

lemma full_page_index:
  assumes "full_pages sz ld space i cntn" "cells_fit sz ld space" "ld \<le> 1" "j < i"
  shows "j < cntn ! j"
  using assms(4)
proof (induction j)
  case 0
  then show ?case using full_dealt_cells [OF assms(1-3), of 0] assms(3) by (simp add: start_of_def)
next
  case (Suc j)
  then show ?case using full_dealt_cells [OF assms(1-3), of "Suc j"] assms(3) by (simp add: start_of_def)
qed

lemma agree_full: "agree i cntn cntn' \<Longrightarrow> j \<le> i \<Longrightarrow> full_pages sz ld space j cntn' = full_pages sz ld space j cntn"
  by (auto simp: full_pages_def agree_page_sum agree_start) (auto simp: agree_def agree_page_sum agree_start)

lemma pack_loop_Ok:
  assumes "in_step sz ld (k, szn, cntn)" and "i < k" and "full_pages sz ld space i cntn" and "length szn = length sz + 2"
    and ld: "ld \<le> 1" and fit: "cells_fit sz ld space" and space: "0 \<le> space"
  shows "\<exists>k' szn' cntn'. pack_loop sz ld space i (k, szn, cntn) = Ok (k', szn', cntn') \<and> in_step sz ld (k', szn', cntn') \<and>
    full_pages sz ld space (k' - 1) cntn' \<and> szn' ! (k' - 1) \<le> space"
  using assms(1-4)
proof (induction "length szn - i" arbitrary: i k szn cntn rule: less_induct)
  case less
  have i: "i + 1 < length szn"
  proof (cases i)
    case (Suc j)
    then have "j < cntn ! j" "cntn ! j < length sz"
      using full_page_index [OF less.prems(3) fit ld, of j] less.prems(3) by (auto simp: full_pages_def)
    then show ?thesis using Suc less.prems(4) by simp
  qed (use less.prems(4) in simp)
  obtain k1 szn1 cntn1 where s: "shed_loop sz ld space i (k, szn, cntn) = Ok (k1, szn1, cntn1)" "in_step sz ld (k1, szn1, cntn1)"
    "i < k1" "agree i cntn cntn1" "length szn1 = length szn" "szn1 ! i \<le> space"
    using shed_loop_Ok [OF less.prems(1,2) i ld space] by blast
  obtain szn2 cntn2 where f: "fill_loop sz ld space i (szn1, cntn1) = Ok (szn2, cntn2)" "in_step sz ld (k1, szn2, cntn2)"
    "agree i cntn1 cntn2" "length szn2 = length szn1" "szn2 ! i \<le> space"
    "cntn2 ! i = length sz \<or> space < psum sz (Suc (cntn2 ! i)) - psum sz (start_of ld cntn1 i)"
    using fill_loop_Ok [OF s(2,3,6) ld] by blast
  have a: "agree i cntn cntn2" using s(4) f(3) by (simp add: agree_def)
  have full: "full_pages sz ld space i cntn2" using less.prems(3) agree_full [OF a] by simp
  have c: "cntn2 ! i \<le> length sz" "i < length cntn2" "szn2 ! i = page_sum sz ld cntn2 i" using f(2) s(3) by (auto simp: in_step_def)
  have step: "pack_loop sz ld space i (k, szn, cntn) =
      pack_loop sz ld space (i + 1) (if length sz \<le> cntn2 ! i then i + 1 else k1, szn2, cntn2)"
    using less.prems(2) s(1) f(1) c by (subst pack_loop.simps) (simp add: idx_def)
  show ?case
  proof (cases "cntn2 ! i = length sz")
    case True
    then have "in_step sz ld (i + 1, szn2, cntn2)" using f(2) s(3) by (auto simp: in_step_def)
    then show ?thesis using step True full f(5) by (subst step, subst pack_loop.simps) simp
  next
    case False
    then have i1: "i + 1 < k1" using f(2) s(3) by (cases "i + 1 = k1") (auto simp: in_step_def)
    have "full_pages sz ld space (i + 1) cntn2"
      using full False f(5,6) c agree_start [OF f(3), of i] by (auto simp: full_pages_def less_Suc_eq)
    from less.hyps [OF _ f(2) i1 this] show ?thesis
      using False c step f(4) s(5) less.prems(4) i by simp
  qed
qed

section \<open>Evening out\<close>

lemma shift_loop_Ok:
  assumes "j < length cntn" and "ld \<le> 1" and "start < c" and "c + (1 - ld) \<le> e" and "e \<le> length sz" and "0 \<le> slack"
    and "cells_fit sz ld space"
    and "right = psum sz e - psum sz (c + (1 - ld))" and "left = psum sz c - psum sz start" and "left \<le> space" and "right \<le> space"
    and "right \<noteq> 0 \<or> start + 1 < c" and "cntn ! j = c"
  shows "\<exists>c'. shift_loop sz slack (j + 1) (int c - 1) (int c - int ld) right left cntn =
      Ok (psum sz e - psum sz (c' + (1 - ld)), psum sz c' - psum sz start, cntn[j := c']) \<and>
    start < c' \<and> c' + (1 - ld) < e \<and> psum sz e - psum sz (c' + (1 - ld)) \<le> space \<and> psum sz c' - psum sz start \<le> space"
  using assms
proof (induction c arbitrary: right left cntn)
  case (Suc b)
  let ?d = "b + (1 - ld)"
  have d: "?d < length sz" "b < length sz" "nat (int (Suc b) - int ld) = ?d" "\<not> int (Suc b) - int ld < 0"
    using Suc.prems(2,4,5) by (cases "ld = 0"; simp)+
  have sr: "int (sz ! b) = psum sz (Suc b) - psum sz b - 2" "int (sz ! ?d) = psum sz (Suc ?d) - psum sz ?d - 2"
    using d by (simp_all add: psum_Suc)
  have right0: "0 \<le> right" using psum_mono [OF Suc.prems(4), of sz] Suc.prems(8) by simp
  let ?r' = "right + (int (sz ! ?d) + 2)" let ?l' = "left - (int (sz ! b) + 2)"
  have eqs: "?r' = psum sz e - psum sz (b + (1 - ld))" "?l' = psum sz b - psum sz start"
    using sr Suc.prems(8,9) by simp_all
  show ?case
  proof (cases "right \<noteq> 0 \<and> left - (int (sz ! b) + slack) < right + int (sz ! ?d) + 2")
    case True
    then have "shift_loop sz slack (j + 1) (int (Suc b) - 1) (int (Suc b) - int ld) right left cntn = Ok (right, left, cntn)"
      using d by (subst shift_loop.simps) (simp add: cell_sz_def idx_def)
    moreover have "Suc b + (1 - ld) < e" using True Suc.prems(4,8) by (cases "Suc b + (1 - ld) = e") auto
    moreover have "cntn[j := Suc b] = cntn" using Suc.prems(13) by (metis list_update_id)
    ultimately show ?thesis using Suc.prems by (intro exI [of _ "Suc b"]) simp
  next
    case False
    have step: "shift_loop sz slack (j + 1) (int (Suc b) - 1) (int (Suc b) - int ld) right left cntn =
        shift_loop sz slack (j + 1) (int b - 1) (int b - int ld) ?r' ?l' (cntn[j := b])"
      using False d Suc.prems(1) by (subst shift_loop.simps) (auto simp: cell_sz_def idx_def put_idx_def)
    have le: "?r' \<le> space"
      using False cells_fit_le [OF Suc.prems(7,2) d(1)] sr(2) Suc.prems(6,10) by (cases "right = 0") auto
    have lt: "start < b"
    proof (cases "right = 0")
      case True
      then show ?thesis using Suc.prems(12) by simp
    next
      case False
      then have "0 < ?l'" using \<open>\<not> (right \<noteq> 0 \<and> _)\<close> right0 Suc.prems(6) by simp
      then show ?thesis using eqs(2) psum_less_imp by simp
    qed
    have "?r' \<noteq> 0" "b + (1 - ld) \<le> e" "?l' \<le> space" using right0 Suc.prems(4,10) by auto
    then obtain c' where "shift_loop sz slack (j + 1) (int b - 1) (int b - int ld) ?r' ?l' (cntn[j := b]) =
        Ok (psum sz e - psum sz (c' + (1 - ld)), psum sz c' - psum sz start, (cntn[j := b])[j := c'])"
      "start < c'" "c' + (1 - ld) < e" "psum sz e - psum sz (c' + (1 - ld)) \<le> space" "psum sz c' - psum sz start \<le> space"
      using Suc.IH [of "cntn[j := b]" ?r' ?l'] Suc.prems(1,2,5-7) le lt eqs by auto
    then show ?thesis using step by (intro exI [of _ c']) simp
  qed
qed simp

text \<open>Pages from \<open>j\<close> on are final; those before are still as the greedy pass left them.\<close>

definition good_page :: "nat list \<Rightarrow> nat \<Rightarrow> int \<Rightarrow> nat list \<Rightarrow> nat \<Rightarrow> bool" where
  "good_page sz ld space cntn j \<longleftrightarrow> start_of ld cntn j < cntn ! j \<and> page_sum sz ld cntn j \<le> space"

lemma even_out_Ok:
  assumes "in_step sz ld (k, szn, cntn)" and "j < k" and "ld \<le> 1" and "cells_fit sz ld space"
    and "full_pages sz ld space j cntn" and "\<forall>m. j < m \<and> m < k \<longrightarrow> good_page sz ld space cntn m"
    and "start_of ld cntn j \<le> cntn ! j" and "page_sum sz ld cntn j \<le> space"
    and "start_of ld cntn j < cntn ! j \<or> 0 < j \<and> j = k - 1 \<and> ld = 0"
  shows "\<exists>szn' cntn'. even_out sz ld k j (szn, cntn) = Ok (szn', cntn') \<and> in_step sz ld (k, szn', cntn') \<and>
    (\<forall>m < k. good_page sz ld space cntn' m)"
  using assms
proof (induction j arbitrary: szn cntn)
  case 0
  then have "good_page sz ld space cntn m" if "m < k" for m
    using that by (cases "m = 0") (auto simp: good_page_def)
  then show ?case using 0 by simp
next
  case (Suc j)
  let ?c = "cntn ! j" let ?e = "cntn ! (j + 1)" let ?slack = "if j + 1 = k - 1 then 0 else 2 :: int"
  have len: "j + 1 < length szn" "j < length cntn" "length szn = length cntn" using Suc.prems(1,2) by (auto simp: in_step_def)
  have szn: "szn ! j = psum sz ?c - psum sz (start_of ld cntn j)" "szn ! (j + 1) = psum sz ?e - psum sz (?c + (1 - ld))"
    "?e \<le> length sz" using Suc.prems(1,2) by (auto simp: in_step_def page_sum_def start_of_def)
  have st: "start_of ld cntn (Suc j) = ?c + (1 - ld)" by (simp add: start_of_def)
  have cells: "start_of ld cntn j + 2 - ld \<le> ?c" "page_sum sz ld cntn j \<le> space"
    using full_dealt_cells [OF Suc.prems(5,4,3), of j] Suc.prems(5) by (auto simp: full_pages_def)
  have nz: "szn ! (j + 1) \<noteq> 0 \<or> start_of ld cntn j + 1 < ?c"
    using Suc.prems(9) szn(2,3) psum_strict [of "?c + (1 - ld)" ?e sz] cells(1) st by auto
  have start: "start_of ld cntn j < ?c" using cells(1) Suc.prems(3) by linarith
  have le: "?c + (1 - ld) \<le> ?e" using Suc.prems(7) st by simp
  have slack: "0 \<le> ?slack" by simp
  have fits: "szn ! j \<le> space" "szn ! (j + 1) \<le> space"
    using cells(2) Suc.prems(8) szn(1,2) st by (simp_all add: page_sum_def)
  obtain c' where r: "shift_loop sz ?slack (j + 1) (int ?c - 1) (int ?c - int ld) (szn ! (j + 1)) (szn ! j) cntn =
      Ok (psum sz ?e - psum sz (c' + (1 - ld)), psum sz c' - psum sz (start_of ld cntn j), cntn[j := c'])"
    "start_of ld cntn j < c'" "c' + (1 - ld) < ?e" "psum sz ?e - psum sz (c' + (1 - ld)) \<le> space"
    "psum sz c' - psum sz (start_of ld cntn j) \<le> space"
    using shift_loop_Ok [OF len(2) Suc.prems(3) start le szn(3) slack Suc.prems(4) szn(2,1) fits nz refl] by blast
  let ?szn = "szn[j + 1 := psum sz ?e - psum sz (c' + (1 - ld)), j := psum sz c' - psum sz (start_of ld cntn j)]"
  let ?cntn = "cntn[j := c']"
  have step: "even_out sz ld k (Suc j) (szn, cntn) = even_out sz ld k j (?szn, ?cntn)"
    using len r(1) by (simp add: idx_def Let_def)
  have "in_step sz ld (k, szn[j := psum sz c' - psum sz (start_of ld cntn j), j + 1 := psum sz ?e - psum sz (c' + (1 - ld))], ?cntn)"
    using Suc.prems(1,2) r(3) szn by (intro move_boundary) simp_all
  then have t: "in_step sz ld (k, ?szn, ?cntn)" by (simp add: list_update_swap)
  have a: "agree j cntn ?cntn" by (simp add: agree_def)
  have full: "full_pages sz ld space j ?cntn"
  proof -
    have "full_pages sz ld space j cntn" using Suc.prems(5) by (simp add: full_pages_def)
    then show ?thesis using agree_full [OF a, of j] by blast
  qed
  have good: "good_page sz ld space ?cntn m" if "j < m" "m < k" for m
  proof (cases "m = j + 1")
    case True
    then show ?thesis using r len by (simp add: good_page_def page_sum_update start_of_def)
  next
    case False
    then have "start_of ld ?cntn m = start_of ld cntn m" "?cntn ! m = cntn ! m" using that by (auto simp: start_of_def nth_list_update)
    then show ?thesis using Suc.prems(6) that False by (auto simp: good_page_def page_sum_def)
  qed
  have j: "start_of ld ?cntn j < ?cntn ! j" "page_sum sz ld ?cntn j \<le> space"
    using r len agree_start [OF a, of j ld] by (simp_all add: page_sum_def)
  show ?case using Suc.IH [OF t _ Suc.prems(3,4) full] good j Suc.prems(2) step by auto
qed

section \<open>The whole redistribution\<close>

definition seeds_ok :: "nat list \<Rightarrow> nat \<Rightarrow> nat list \<Rightarrow> bool" where
  "seeds_ok sz ld cnt_old \<longleftrightarrow> cnt_old \<noteq> [] \<and> length cnt_old \<le> length sz + 2 \<and> last cnt_old = length sz \<and>
    (\<forall>i < length cnt_old. start_of ld cnt_old i \<le> cnt_old ! i \<and> cnt_old ! i \<le> length sz)"

lemma seed_pages_Ok:
  assumes "seeds_ok sz ld cnt_old" and "i \<le> length cnt_old"
  shows "\<exists>szn cntn. foldR (seed_page sz cnt_old ld) [0..<i] (replicate (length sz + 2) 0, replicate (length sz + 2) 0) = Ok (szn, cntn) \<and>
    length szn = length sz + 2 \<and> length cntn = length sz + 2 \<and>
    (\<forall>j < i. cntn ! j = cnt_old ! j \<and> szn ! j = page_sum sz ld cnt_old j)"
  using assms(2)
proof (induction i)
  case (Suc i)
  obtain szn cntn where IH: "foldR (seed_page sz cnt_old ld) [0..<i] (replicate (length sz + 2) 0, replicate (length sz + 2) 0) = Ok (szn, cntn)"
    "length szn = length sz + 2" "length cntn = length sz + 2" "\<forall>j < i. cntn ! j = cnt_old ! j \<and> szn ! j = page_sum sz ld cnt_old j"
    using Suc by auto
  have i: "i < length cnt_old" "i < length sz + 2" "start_of ld cnt_old i \<le> cnt_old ! i" "cnt_old ! i \<le> length sz"
    using assms(1) Suc.prems by (auto simp: seeds_ok_def)
  have "(if i = 0 then Ok 0 else bindR (idx cnt_old (i - 1)) (\<lambda>c. Ok (c + (1 - ld)))) = Ok (start_of ld cnt_old i)"
    using i(1) by (cases "i = 0") (simp_all add: start_of_def idx_def)
  then have "seed_page sz cnt_old ld i (szn, cntn) = Ok (szn[i := page_sum sz ld cnt_old i], cntn[i := cnt_old ! i])"
    using i IH(2,3) psum_span [OF i(3,4)] by (simp add: seed_page_def idx_def put_idx_def page_sum_def)
  then show ?case using IH i(2) by (auto simp: foldR_append nth_list_update less_Suc_eq)
qed simp

text \<open>Two adjacent pages hold more than one page's worth, so few pages come of few bytes.\<close>

lemma page_count_bound:
  assumes t: "in_step sz ld (k, szn, cntn)" and full: "full_pages sz ld space (k - 1) cntn" and fit: "cells_fit sz ld space" and ld: "ld \<le> 1"
  shows "int (k div 2) * space \<le> psum sz (length sz)"
proof -
  have "2 * m \<le> k \<Longrightarrow> int m * space \<le> psum sz (start_of ld cntn (2 * m))" for m
  proof (induction m)
    case (Suc m)
    let ?j = "2 * m"
    have j: "?j < k - 1" using Suc.prems by simp
    then have f: "cntn ! ?j < length sz" "space < psum sz (Suc (cntn ! ?j)) - psum sz (start_of ld cntn ?j)"
      using full by (auto simp: full_pages_def)
    have "Suc (cntn ! ?j) \<le> cntn ! (?j + 1) + (1 - ld)"
    proof (cases "?j + 1 < k - 1")
      case True
      from full_dealt_cells [OF full fit ld True] ld show ?thesis by (cases "ld = 0") (auto simp: start_of_def)
    next
      case False
      then have "?j + 1 = k - 1" using j by simp
      then have "cntn ! (?j + 1) = length sz" using t by (simp add: in_step_def)
      then show ?thesis using f(1) by simp
    qed
    then have "psum sz (Suc (cntn ! ?j)) \<le> psum sz (start_of ld cntn (2 * Suc m))"
      using psum_mono [of "Suc (cntn ! ?j)" "cntn ! (?j + 1) + (1 - ld)" sz] by (simp add: start_of_def)
    then show ?case using f Suc by (simp add: algebra_simps)
  qed (simp add: start_of_def)
  from this [of "k div 2"] have "int (k div 2) * space \<le> psum sz (start_of ld cntn (2 * (k div 2)))" by simp
  also have "\<dots> \<le> psum sz (length sz)"
  proof -
    have "start_of ld cntn (2 * (k div 2)) \<le> Suc (length sz)"
      using t by (auto simp: start_of_def in_step_def intro!: add_mono [of _ "length sz" _ 1, simplified])
    then have "psum sz (start_of ld cntn (2 * (k div 2))) \<le> psum sz (Suc (length sz))" by (rule psum_mono)
    then show ?thesis by (simp add: psum_past)
  qed
  finally show ?thesis .
qed

theorem distribute_Ok:
  assumes sz: "sz \<noteq> []" and old: "seeds_ok sz (if leaf_data then 1 else 0) cnt_old"
    and fit: "cells_fit sz (if leaf_data then 1 else 0) (usable_space leaf usable)"
  shows "\<exists>cs. distribute sz cnt_old leaf leaf_data usable = Ok cs \<and> cs \<noteq> [] \<and> last cs = length sz \<and>
    (\<forall>j < length cs. good_page sz (if leaf_data then 1 else 0) (usable_space leaf usable) cs j \<and> cs ! j \<le> length sz) \<and>
    int (length cs div 2) * usable_space leaf usable \<le> psum sz (length sz)"
proof -
  define ld space where "ld = (if leaf_data then 1 else (0 :: nat))" and "space = usable_space leaf usable"
  have ld: "ld \<le> 1" by (simp add: ld_def)
  have f: "cells_fit sz ld space" using fit by (simp add: ld_def space_def)
  then have space: "0 \<le> space" using cells_fit_le [OF f ld, of 0] psum_le_Suc [of sz 0] sz by simp
  obtain szn cntn where s: "foldR (seed_page sz cnt_old ld) [0..<length cnt_old] (replicate (length sz + 2) 0, replicate (length sz + 2) 0) = Ok (szn, cntn)"
    "length szn = length sz + 2" "length cntn = length sz + 2"
    "\<forall>j < length cnt_old. cntn ! j = cnt_old ! j \<and> szn ! j = page_sum sz ld cnt_old j"
    using seed_pages_Ok [of sz ld cnt_old "length cnt_old"] old by (fold ld_def) blast
  have "page_sum sz ld cntn j = page_sum sz ld cnt_old j" if "j < length cnt_old" for j
    using s(4) that by (simp add: page_sum_def start_of_def)
  moreover have "cntn ! (length cnt_old - 1) = length sz"
    using s(4) old last_conv_nth [of cnt_old] by (simp add: seeds_ok_def)
  ultimately have "in_step sz ld (length cnt_old, szn, cntn)"
    using s old by (auto simp: in_step_def seeds_ok_def ld_def)
  from pack_loop_Ok [OF this _ _ s(2) ld f space, of 0] obtain k szn1 cntn1 where
    p: "pack_loop sz ld space 0 (length cnt_old, szn, cntn) = Ok (k, szn1, cntn1)" "in_step sz ld (k, szn1, cntn1)"
    "full_pages sz ld space (k - 1) cntn1" "szn1 ! (k - 1) \<le> space"
    using old by (auto simp: seeds_ok_def full_pages_def)
  have k: "0 < k" "cntn1 ! (k - 1) = length sz" "k \<le> length cntn1" "szn1 ! (k - 1) = page_sum sz ld cntn1 (k - 1)"
    using p(2) by (auto simp: in_step_def)
  have st: "k = 1 \<and> start_of ld cntn1 (k - 1) = 0 \<or> k \<noteq> 1 \<and> start_of ld cntn1 (k - 1) + ld \<le> length sz"
  proof (cases "k = 1")
    case False
    then have "cntn1 ! (k - 2) < length sz" using p(3) k(1) by (auto simp: full_pages_def)
    then show ?thesis using False k(1) ld by (simp add: start_of_def numeral_2_eq_2)
  qed (simp add: start_of_def)
  have last: "start_of ld cntn1 (k - 1) < cntn1 ! (k - 1) \<or> 0 < k - 1 \<and> k - 1 = k - 1 \<and> ld = 0"
    using st k sz by (cases "ld = 0"; cases "k = 1") auto
  have le: "start_of ld cntn1 (k - 1) \<le> cntn1 ! (k - 1)" using st k by auto
  obtain szn2 cntn2 where e: "even_out sz ld k (k - 1) (szn1, cntn1) = Ok (szn2, cntn2)" "in_step sz ld (k, szn2, cntn2)"
    "\<forall>m < k. good_page sz ld space cntn2 m"
  proof -
    have "\<forall>m. k - 1 < m \<and> m < k \<longrightarrow> good_page sz ld space cntn1 m" by auto
    with even_out_Ok [OF p(2) _ ld f p(3) _ le _ last] that k p(4) show thesis by auto
  qed
  have d: "distribute sz cnt_old leaf leaf_data usable = Ok (take k cntn2)"
    using sz old s(1) p(1) k(1) e(1) by (simp add: distribute_def seeds_ok_def Let_def ld_def [symmetric] space_def [symmetric] usub_def)
  have len: "length (take k cntn2) = k" using e(2) by (simp add: in_step_def)
  have "good_page sz ld space (take k cntn2) j \<and> take k cntn2 ! j \<le> length sz" if "j < k" for j
    using e(2,3) that by (auto simp: in_step_def good_page_def page_sum_def start_of_def)
  moreover have "last (take k cntn2) = length sz"
    using e(2) len k(1) by (subst last_conv_nth) (auto simp: in_step_def)
  moreover have "take k cntn2 \<noteq> []" using len k(1) by force
  moreover have "int (length (take k cntn2) div 2) * space \<le> psum sz (length sz)"
    using page_count_bound [OF p(2,3) f ld] len by simp
  ultimately show ?thesis using d len by (auto simp: ld_def space_def)
qed

lemma sibling_window_Ok:
  assumes "0 < n" and "p < n"
  shows "\<exists>w0 n_old. sibling_window p n = Ok (w0, n_old) \<and> w0 \<le> p \<and> p < w0 + n_old \<and> w0 + n_old \<le> n \<and> n_old = min n 3"
  using assms by (auto simp: sibling_window_def usub_def)

section \<open>The cells of each page\<close>

text \<open>
  The sizes of the cells that a boundary list puts on page \<open>j\<close>, and the cell between page \<open>j\<close> and the
  next one, which an index promotes to the parent.
\<close>

definition dealt_cells :: "nat list \<Rightarrow> bool \<Rightarrow> nat list \<Rightarrow> nat \<Rightarrow> nat list" where
  "dealt_cells sz leaf_data cs j = drop (start_of (if leaf_data then 1 else 0) cs j) (take (cs ! j) sz)"

definition divider_cells :: "nat list \<Rightarrow> bool \<Rightarrow> nat list \<Rightarrow> nat \<Rightarrow> nat list" where
  "divider_cells sz leaf_data cs j = (if leaf_data \<or> length cs \<le> Suc j then [] else [sz ! (cs ! j)])"

lemma page_sum_cells:
  assumes "start_of (if leaf_data then 1 else 0) cs j \<le> cs ! j"
  shows "page_sum sz (if leaf_data then 1 else 0) cs j = int (sum_list (map (\<lambda>c. c + 2) (dealt_cells sz leaf_data cs j)))"
proof -
  have "psum sz m = int (sum_list (map (\<lambda>c. c + 2) (take m sz)))" for m
    unfolding psum_def by (induction sz arbitrary: m) (simp, case_tac m, simp_all)
  moreover have "take (cs ! j) sz = take (start_of (if leaf_data then 1 else 0) cs j) sz @ dealt_cells sz leaf_data cs j"
    using assms unfolding dealt_cells_def by (metis append_take_drop_id min.absorb1 take_take)
  ultimately show ?thesis by (simp add: page_sum_def)
qed

lemma pages_cover:
  assumes cs: "cs \<noteq> []" "last cs = length sz"
    and g: "\<And>j. j < length cs \<Longrightarrow> start_of (if leaf_data then 1 else 0) cs j < cs ! j \<and> cs ! j \<le> length sz"
  shows "concat (map (\<lambda>j. dealt_cells sz leaf_data cs j @ divider_cells sz leaf_data cs j) [0..<length cs]) = sz"
proof -
  let ?ld = "if leaf_data then 1 else 0 :: nat" and ?f = "\<lambda>j. dealt_cells sz leaf_data cs j @ divider_cells sz leaf_data cs j"
  have p: "take (start_of ?ld cs j) sz @ dealt_cells sz leaf_data cs j = take (cs ! j) sz" if "j < length cs" for j
    using g [OF that] unfolding dealt_cells_def by (metis append_take_drop_id less_imp_le min.absorb1 take_take)
  have pre: "concat (map ?f [0..<i]) = take (start_of ?ld cs i) sz" if "i < length cs" for i
    using that
  proof (induction i)
    case 0
    then show ?case by (simp add: start_of_def)
  next
    case (Suc i)
    have b: "cs ! i < length sz \<or> leaf_data" using g [OF Suc.prems] by (auto simp: start_of_def split: if_splits)
    have "concat (map ?f [0..<Suc i]) = take (cs ! i) sz @ divider_cells sz leaf_data cs i"
      using Suc p [of i] by (simp flip: append_assoc)
    then show ?case using Suc.prems b by (auto simp: divider_cells_def start_of_def take_Suc_conv_app_nth)
  qed
  obtain n where n: "length cs = Suc n" using cs(1) by (cases cs) auto
  have "cs ! n = length sz" using cs n by (simp add: last_conv_nth)
  then show ?thesis using pre [of n] p [of n] n by (simp add: divider_cells_def flip: append_assoc)
qed

end
