(* ===== verification/TableWriter.thy ===== *)
theory TableWriter
  imports AutoVacuum Balance
begin

text \<open>
  Writing to table b-trees (\<open>src/btree/writer.rs\<close>) and freeing whole trees (\<open>free_tree\<close> of
  \<open>src/btree/index_writer.rs\<close>). A page is changed by reading its cells into a list, changing the
  list and writing the page anew. An insertion descends to a leaf; a leaf that overflows is handed up
  and redistributed with its siblings, an interior page that overflows is split and the split is
  handed up. \<open>insert_rec\<close> takes the levels that are left of the limit of 20; the loops that follow
  pointers without a limit take fuel. \<open>binary_search\<close> is the search of the standard library's slices.
\<close>

section \<open>Library operations\<close>

fun mapA :: "('a \<Rightarrow> ('s, 'b) act) \<Rightarrow> 'a list \<Rightarrow> ('s, 'b list) act" where
  "mapA f [] = retA []"
| "mapA f (x # xs) = bindA (f x) (\<lambda>y. bindA (mapA f xs) (\<lambda>ys. retA (y # ys)))"

function search_loop :: "('a \<Rightarrow> ordering) \<Rightarrow> 'a list \<Rightarrow> nat \<Rightarrow> nat \<Rightarrow> nat" where
  "search_loop f xs base n =
    (if 1 < n then
       let half = n div 2; mid = base + half in
       search_loop f xs (if f (xs ! mid) = Greater then base else mid) (n - half)
     else base)"
  by pat_completeness auto
termination
  by (relation "measure (\<lambda>(f, xs, base, n). n)") auto

declare search_loop.simps [simp del]

datatype search_result = Found nat | Missing nat

definition binary_search :: "('a \<Rightarrow> ordering) \<Rightarrow> 'a list \<Rightarrow> search_result" where
  "binary_search f xs =
    (if xs = [] then Missing 0
     else let base = search_loop f xs 0 (length xs) in
       case f (xs ! base) of Equal \<Rightarrow> Found base | Less \<Rightarrow> Missing (base + 1) | Greater \<Rightarrow> Missing base)"

definition splice :: "'a list \<Rightarrow> nat \<Rightarrow> nat \<Rightarrow> 'a list \<Rightarrow> 'a list res" where
  "splice xs a b new = (if a \<le> b \<and> b \<le> length xs then Ok (take a xs @ new @ drop b xs) else Panic)"

definition insert_at :: "'a list \<Rightarrow> nat \<Rightarrow> 'a \<Rightarrow> 'a list res" where
  "insert_at xs pos x = (if pos \<le> length xs then Ok (take pos xs @ x # drop pos xs) else Panic)"

definition last_of :: "'a list \<Rightarrow> 'a res" where
  "last_of xs = (if xs = [] then Panic else Ok (last xs))"

section \<open>Page images\<close>

type_synonym leaf_cell = "i64 \<times> bytes"
type_synonym interior_cell = "u32 \<times> i64"
type_synonym 'k part = "(u32 \<times> 'k) list \<times> u32"
type_synonym interior_part = "i64 part"

definition write_u16 :: "bytes \<Rightarrow> nat \<Rightarrow> u16 \<Rightarrow> bytes res" where
  "write_u16 buf at v =
    bindR (put_idx buf at (ucast (drop_bit 8 v))) (\<lambda>buf. put_idx buf (at + 1) (ucast v))"

definition write_cell_content_start :: "bytes \<Rightarrow> nat \<Rightarrow> nat \<Rightarrow> bytes res" where
  "write_cell_content_start buf at content = write_u16 buf at (if 65536 \<le> content then 0 else of_nat content)"

fun place_cells :: "string \<Rightarrow> nat \<Rightarrow> nat \<Rightarrow> nat \<Rightarrow> bytes list \<Rightarrow> nat \<Rightarrow> bytes \<Rightarrow> (nat \<times> bytes) res" where
  "place_cells msg ptr_base ptr_end i [] content buf = Ok (content, buf)"
| "place_cells msg ptr_base ptr_end i (cell # cells) content buf =
    (if content < length cell \<or> content - length cell < ptr_end then Err (Corrupt msg)
     else
       let content = content - length cell; p = ptr_base + 2 * i in
       bindR (put_slice buf content cell) (\<lambda>buf.
       bindR (put_idx buf p (of_nat (drop_bit 8 content))) (\<lambda>buf.
       bindR (put_idx buf (p + 1) (of_nat content)) (\<lambda>buf.
       place_cells msg ptr_base ptr_end (i + 1) cells content buf))))"

definition blank_page :: "nat \<Rightarrow> bytes option \<Rightarrow> bytes res" where
  "blank_page psize prefix =
    (case prefix of Some h \<Rightarrow> put_slice (replicate psize 0) 0 h | None \<Rightarrow> Ok (replicate psize 0))"

definition serialize_leaf :: "nat \<Rightarrow> nat \<Rightarrow> nat \<Rightarrow> leaf_cell list \<Rightarrow> bytes option \<Rightarrow> bytes res" where
  "serialize_leaf psize usable body cells prefix =
    bindR (blank_page psize prefix) (\<lambda>buf.
    let ptr_base = body + 8; ptr_end = ptr_base + 2 * length cells in
    bindR (place_cells ''leaf page overflow while serializing'' ptr_base ptr_end 0 (map snd cells) usable buf) (\<lambda>(content, buf).
    bindR (put_idx buf body 0x0d) (\<lambda>buf.
    bindR (write_u16 buf (body + 3) (of_nat (length cells))) (\<lambda>buf.
    write_cell_content_start buf (body + 5) content))))"

definition interior_cell_bytes :: "interior_cell \<Rightarrow> bytes" where
  "interior_cell_bytes = (\<lambda>(child, key). to_be32 child @ varint_encode_i64 key)"

definition serialize_interior :: "nat \<Rightarrow> nat \<Rightarrow> nat \<Rightarrow> interior_cell list \<Rightarrow> u32 \<Rightarrow> bytes option \<Rightarrow> bytes res" where
  "serialize_interior psize usable body cells right prefix =
    bindR (blank_page psize prefix) (\<lambda>buf.
    let ptr_base = body + 12; ptr_end = ptr_base + 2 * length cells in
    bindR (place_cells ''interior page overflow while serializing'' ptr_base ptr_end 0 (map interior_cell_bytes cells) usable buf)
      (\<lambda>(content, buf).
    bindR (put_idx buf body 0x05) (\<lambda>buf.
    bindR (write_u16 buf (body + 3) (of_nat (length cells))) (\<lambda>buf.
    bindR (write_cell_content_start buf (body + 5) content) (\<lambda>buf.
    put_slice buf (body + 8) (to_be32 right))))))"

definition read_leaf_cells :: "btree_page \<Rightarrow> nat \<Rightarrow> leaf_cell list res" where
  "read_leaf_cells bt usable =
    mapR (\<lambda>i. bindR (table_leaf_cell bt i usable) (\<lambda>cell.
      bindR (raw_table_leaf_cell bt i usable) (\<lambda>raw. Ok (cell_rowid cell, raw)))) [0..<num_cells bt]"

definition page_one_prefix :: "u32 \<Rightarrow> btree_page \<Rightarrow> bytes option res" where
  "page_one_prefix page_no bt =
    (if page_no = 1 then bindR (slice (bt_data bt) 0 HEADER_LEN) (\<lambda>h. Ok (Some h)) else Ok None)"

definition leaf_fits :: "leaf_cell list \<Rightarrow> nat \<Rightarrow> nat \<Rightarrow> bool res" where
  "leaf_fits cells body usable =
    bindR (usub usable body) (\<lambda>a. bindR (usub a 8) (\<lambda>cap. Ok (sum_list (map (\<lambda>(_, c). length c + 2) cells) \<le> cap)))"

definition interior_cell_len :: "i64 \<Rightarrow> nat" where
  "interior_cell_len key = 4 + varint_len key"

definition interior_fits :: "interior_cell list \<Rightarrow> nat \<Rightarrow> nat \<Rightarrow> bool res" where
  "interior_fits cells body usable =
    bindR (usub usable body) (\<lambda>a. bindR (usub a 12) (\<lambda>cap.
    Ok (sum_list (map (\<lambda>(_, k). interior_cell_len k + 2) cells) \<le> cap)))"

section \<open>Splitting an interior page\<close>

text \<open>The greedy loop of \<open>pack_interior\<close>, for keys of any type with their cell length.\<close>

function pack_scan :: "('k \<Rightarrow> nat) \<Rightarrow> (u32 \<times> 'k) list \<Rightarrow> nat \<Rightarrow> nat \<Rightarrow> nat \<Rightarrow> nat \<Rightarrow> nat" where
  "pack_scan len cells cap i b used =
    (if b < length cells then
       let need = len (snd (cells ! b)) + 2 in
       if b = i \<or> used + need \<le> cap then pack_scan len cells cap i (b + 1) (used + need) else b
     else b)"
  by pat_completeness auto
termination
  by (relation "measure (\<lambda>(len, cells, cap, i, b, used). length cells - b)") auto

declare pack_scan.simps [simp del]

lemma pack_scan_ge: "b \<le> pack_scan len cells cap i b used"
proof (induction len cells cap i b used rule: pack_scan.induct)
  case (1 len cells cap i b used)
  then show ?case by (subst pack_scan.simps) (auto simp: Let_def intro: Suc_leD)
qed

lemma pack_scan_progress: "i < length cells \<Longrightarrow> i < pack_scan len cells cap i i used"
  using pack_scan_ge [of "i + 1" len cells cap i "used + (len (snd (cells ! i)) + 2)"]
  by (subst pack_scan.simps) (simp add: Let_def)

definition cut_at :: "nat \<Rightarrow> nat \<Rightarrow> nat \<Rightarrow> nat" where
  "cut_at n i b = (if b = n - 1 \<and> i + 1 < b then b - 1 else b)"

function pack_parts :: "('k \<Rightarrow> nat) \<Rightarrow> (u32 \<times> 'k) list \<Rightarrow> u32 \<Rightarrow> nat \<Rightarrow> nat \<Rightarrow> nat \<Rightarrow> 'k part list \<Rightarrow> 'k list \<Rightarrow>
    'k part list \<times> 'k list" where
  "pack_parts len cells right body0 usable i parts seps =
    (let body = (if parts = [] then body0 else 0);
         cap = usable - (body + 12);
         b = pack_scan len cells cap i i 0 in
     if length cells \<le> b then (parts @ [(drop i cells, right)], seps)
     else
       let bb = cut_at (length cells) i b in
       pack_parts len cells right body0 usable (bb + 1) (parts @ [(take (bb - i) (drop i cells), fst (cells ! bb))])
         (seps @ [snd (cells ! bb)]))"
  by pat_completeness auto
termination
proof (relation "measure (\<lambda>(len, cells, right, body0, usable, i, parts, seps). length cells - i)")
  fix len :: "'k \<Rightarrow> nat" and cells :: "(u32 \<times> 'k) list" and right :: u32 and body0 usable i and parts :: "'k part list" and seps :: "'k list"
    and body cap b bb
  assume "b = pack_scan len cells cap i i 0" "\<not> length cells \<le> b" "bb = cut_at (length cells) i b"
  moreover have "i \<le> b" using calculation(1) pack_scan_ge [of i len cells cap i 0] by simp
  ultimately show "((len, cells, right, body0, usable, bb + 1, parts @ [(take (bb - i) (drop i cells), fst (cells ! bb))],
      seps @ [snd (cells ! bb)]), len, cells, right, body0, usable, i, parts, seps)
    \<in> measure (\<lambda>(len, cells, right, body0, usable, i, parts, seps). length cells - i)"
    by (auto simp: cut_at_def)
qed simp

declare pack_parts.simps [simp del]

definition pack_interior :: "interior_cell list \<Rightarrow> u32 \<Rightarrow> nat \<Rightarrow> nat \<Rightarrow> interior_part list \<times> i64 list" where
  "pack_interior cells right body0 usable = pack_parts interior_cell_len cells right body0 usable 0 [] []"

section \<open>Overflow chains and cells\<close>

definition wp_page_sizes :: "(pst, nat \<times> nat) act" where
  "wp_page_sizes =
    bindA wp_usable (\<lambda>usable. bindA getA (\<lambda>(w, p). retA (usable, usable + unat (reserved_space (wp_header p)))))"

definition write_chain_page :: "nat \<Rightarrow> nat \<Rightarrow> bytes \<Rightarrow> u32 list \<Rightarrow> nat \<Rightarrow> (pst, unit) act" where
  "write_chain_page psize cap dat pages i =
    bindA (liftA (idx pages i)) (\<lambda>pno.
    bindA (liftA (if i + 1 < length pages then idx pages (i + 1) else Ok 0)) (\<lambda>nxt.
    let start = i * cap; end' = min (start + cap) (length dat) in
    bindA (liftA (put_slice (replicate psize 0) 0 (to_be32 nxt))) (\<lambda>buf.
    bindA (liftA (slice dat start end')) (\<lambda>chunk.
    bindA (liftA (put_slice buf 4 chunk)) (\<lambda>buf. write_page pno buf)))))"

definition write_overflow_chain :: "bytes \<Rightarrow> (pst, u32) act" where
  "write_overflow_chain dat =
    bindA wp_usable (\<lambda>usable.
    bindA (liftA (usub usable 4)) (\<lambda>cap.
    bindA (liftA (if cap = 0 then Panic else Ok ((length dat + cap - 1) div cap))) (\<lambda>n_pages.
    bindA (mapA (\<lambda>_. allocate_page) [0..<n_pages]) (\<lambda>pages.
    bindA wp_page_sizes (\<lambda>(_, psize).
    bindA (foldA (write_chain_page psize cap dat pages) [0..<length pages]) (\<lambda>_.
    liftA (idx pages 0)))))))"

definition build_leaf_cell :: "i64 \<Rightarrow> bytes \<Rightarrow> (pst, bytes) act" where
  "build_leaf_cell rowid payload =
    bindA wp_usable (\<lambda>usable.
    let (llen, has_overflow) = payload_split LeafTable usable (length payload) in
    bindA (liftA (slice payload 0 llen)) (\<lambda>loc.
    let cell = varint_encode (of_nat (length payload)) @ varint_encode_i64 rowid @ loc in
    if has_overflow then
      bindA (liftA (slice_from payload llen)) (\<lambda>rest.
      bindA (write_overflow_chain rest) (\<lambda>first. retA (cell @ to_be32 first)))
    else retA cell))"

primrec free_overflow_chain :: "nat \<Rightarrow> u32 \<Rightarrow> (pst, unit) lact" where
  "free_overflow_chain 0 first = (\<lambda>s. None)"
| "free_overflow_chain (Suc fuel) first =
    (if first \<noteq> 0 then
       bindL (runL (read_page first)) (\<lambda>b.
       bindL (runL (liftA (be_u32 b 0))) (\<lambda>nxt.
       bindL (runL (free_page first)) (\<lambda>_.
       free_overflow_chain fuel nxt)))
     else runL (retA ()))"

section \<open>Redistribution\<close>

datatype 'k split_up = Split (first_key: 'k) (siblings: "('k \<times> u32) list")

datatype ('c, 'k) up = Fit | LeafOverfull "'c list" | SplitUp "'k split_up"

type_synonym table_up = "(leaf_cell, i64) up"

definition write_leaf_slice :: "nat \<Rightarrow> nat \<Rightarrow> leaf_cell list \<Rightarrow> nat list \<Rightarrow> u32 list \<Rightarrow> nat \<Rightarrow> (pst, i64 list) act" where
  "write_leaf_slice psize usable pooled cnt_new kept i =
    bindA (liftA (if i = 0 then Ok 0 else idx cnt_new (i - 1))) (\<lambda>start.
    bindA (liftA (idx cnt_new i)) (\<lambda>end'.
    bindA (liftA (slice pooled start end')) (\<lambda>cells.
    bindA (liftA (serialize_leaf psize usable 0 cells None)) (\<lambda>buf.
    bindA (liftA (idx kept i)) (\<lambda>pg.
    bindA (write_page pg buf) (\<lambda>_.
    if i < length cnt_new - 1 then bindA (liftA (last_of cells)) (\<lambda>c. retA [fst c]) else retA []))))))"

definition balance_leaf_pooled :: "u32 list \<Rightarrow> leaf_cell list \<Rightarrow> nat list \<Rightarrow> (pst, u32 list \<times> i64 list) act" where
  "balance_leaf_pooled old_pages pooled cnt_old =
    bindA wp_page_sizes (\<lambda>(usable, psize).
    bindA (liftA (distribute (map (\<lambda>(_, c). length c) pooled) cnt_old True True usable)) (\<lambda>cnt_new.
    let n_new = length cnt_new; n_old = length old_pages in
    bindA (mapA (\<lambda>_. allocate_page) [n_old..<n_new]) (\<lambda>fresh.
    bindA (foldA free_page (drop (min n_new n_old) old_pages)) (\<lambda>_.
    let kept = sort (take n_new old_pages @ fresh) in
    bindA (mapA (write_leaf_slice psize usable pooled cnt_new kept) [0..<n_new]) (\<lambda>divs.
    retA (kept, concat divs))))))"

definition sibling_cells :: "nat \<Rightarrow> nat \<Rightarrow> nat \<Rightarrow> leaf_cell list \<Rightarrow> u32 list \<Rightarrow> nat \<Rightarrow> (pst, leaf_cell list) act" where
  "sibling_cells usable w0 p child_cells old_pages offset =
    (if w0 + offset = p then retA child_cells
     else
       bindA (liftA (idx old_pages offset)) (\<lambda>pg.
       bindA (load_bt pg) (\<lambda>bt. liftA (read_leaf_cells bt usable))))"

definition running_counts :: "'a list list \<Rightarrow> nat list" where
  "running_counts xss = map (\<lambda>i. length (concat (take (i + 1) xss))) [0..<length xss]"

definition balance_leaf_into :: "u32 list \<Rightarrow> i64 list \<Rightarrow> nat \<Rightarrow> leaf_cell list \<Rightarrow> (pst, u32 list \<times> i64 list) act" where
  "balance_leaf_into kids dividers p child_cells =
    bindA (liftA (sibling_window p (length kids))) (\<lambda>(w0, n_old).
    bindA wp_usable (\<lambda>usable.
    bindA (liftA (slice kids w0 (w0 + n_old))) (\<lambda>old_pages.
    bindA (mapA (sibling_cells usable w0 p child_cells old_pages) [0..<n_old]) (\<lambda>groups.
    bindA (balance_leaf_pooled old_pages (concat groups) (running_counts groups)) (\<lambda>(pages, new_dividers).
    bindA (liftA (splice kids w0 (w0 + n_old) pages)) (\<lambda>kids.
    bindA (liftA (splice dividers w0 (w0 + n_old - 1) new_dividers)) (\<lambda>dividers.
    retA (kids, dividers))))))))"

definition adopt_split :: "u32 list \<Rightarrow> 'k list \<Rightarrow> nat \<Rightarrow> 'k split_up \<Rightarrow> (u32 list \<times> 'k list) res" where
  "adopt_split kids dividers p s =
    (let sibs = siblings s in
     if sibs = [] then Panic
     else if p < length dividers then
       bindR (splice kids (p + 1) (p + 1) (map snd sibs)) (\<lambda>kids.
       bindR (splice dividers p (p + 1) (first_key s # map fst (butlast sibs) @ [dividers ! p])) (\<lambda>dividers.
       Ok (kids, dividers)))
     else Ok (kids @ map snd sibs, dividers @ first_key s # map fst (butlast sibs)))"

definition write_sibling :: "nat \<Rightarrow> nat \<Rightarrow> interior_part list \<Rightarrow> i64 list \<Rightarrow> nat \<Rightarrow> (pst, i64 \<times> u32) act" where
  "write_sibling psize usable parts seps k =
    bindA (liftA (idx parts k)) (\<lambda>(pc, pr).
    bindA allocate_page (\<lambda>pg.
    bindA (liftA (serialize_interior psize usable 0 pc pr None)) (\<lambda>buf.
    bindA (write_page pg buf) (\<lambda>_.
    retA (if k < length seps then seps ! k else 0x7FFFFFFFFFFFFFFF, pg)))))"

definition finish_interior :: "u32 \<Rightarrow> nat \<Rightarrow> nat \<Rightarrow> nat \<Rightarrow> u32 list \<Rightarrow> i64 list \<Rightarrow> bytes option \<Rightarrow> (pst, table_up) act" where
  "finish_interior page_no body psize usable kids dividers prefix =
    bindA (liftA (mapR (\<lambda>i. bindR (idx kids i) (\<lambda>c. bindR (idx dividers i) (\<lambda>k. Ok (c, k)))) [0..<length dividers])) (\<lambda>cells.
    bindA (liftA (last_of kids)) (\<lambda>right.
    bindA (liftA (interior_fits cells body usable)) (\<lambda>fits.
    if fits then
      bindA (liftA (serialize_interior psize usable body cells right prefix)) (\<lambda>buf.
      bindA (write_page page_no buf) (\<lambda>_. retA Fit))
    else
      let (parts, seps) = pack_interior cells right body usable in
      bindA (liftA (idx parts 0)) (\<lambda>(pc, pr).
      bindA (if length parts = 1 then retA 0 else liftA (idx seps 0)) (\<lambda>first.
      bindA (liftA (serialize_interior psize usable body pc pr prefix)) (\<lambda>buf.
      bindA (write_page page_no buf) (\<lambda>_.
      if length parts = 1 then retA Fit
      else
        bindA (mapA (write_sibling psize usable parts seps) [1..<length parts]) (\<lambda>sibs.
        retA (SplitUp (Split first sibs))))))))))"

section \<open>Insertion\<close>

definition rowid_cmp :: "i64 \<Rightarrow> leaf_cell \<Rightarrow> ordering" where
  "rowid_cmp rowid c = cmp_lin (sint (fst c)) (sint rowid)"

definition put_cell :: "leaf_cell list \<Rightarrow> i64 \<Rightarrow> bytes \<Rightarrow> leaf_cell list res" where
  "put_cell cells rowid cell =
    (case binary_search (rowid_cmp rowid) cells of
       Found pos \<Rightarrow> put_idx cells pos (rowid, cell)
     | Missing pos \<Rightarrow> insert_at cells pos (rowid, cell))"

definition child_slot :: "i64 \<Rightarrow> i64 list \<Rightarrow> nat" where
  "child_slot rowid dividers = length (takeWhile (\<lambda>d. \<not> sint rowid \<le> sint d) dividers)"

definition read_node :: "btree_page \<Rightarrow> (u32 list \<times> i64 list) res" where
  "read_node bt =
    bindR (mapR (\<lambda>i. bindR (child_pointer bt i) (\<lambda>c. bindR (table_interior_key bt i) (\<lambda>k. Ok (c, k)))) [0..<num_cells bt]) (\<lambda>cells.
    Ok (map fst cells @ [right_pointer bt], map snd cells))"

primrec insert_rec :: "nat \<Rightarrow> u32 \<Rightarrow> i64 \<Rightarrow> bytes \<Rightarrow> (pst, table_up) act" where
  "insert_rec 0 page_no rowid cell = liftA (Err (Corrupt ''b-tree depth limit exceeded''))"
| "insert_rec (Suc d) page_no rowid cell =
    bindA (load_bt page_no) (\<lambda>bt.
    let body = body_offset (bt_page bt) in
    bindA wp_page_sizes (\<lambda>(usable, psize).
    if bt_type bt = LeafTable then
      bindA (liftA (read_leaf_cells bt usable)) (\<lambda>cells.
      bindA (liftA (put_cell cells rowid cell)) (\<lambda>cells.
      bindA (liftA (leaf_fits cells body usable)) (\<lambda>fits.
      if fits then
        bindA (liftA (page_one_prefix page_no bt)) (\<lambda>prefix.
        bindA (liftA (serialize_leaf psize usable body cells prefix)) (\<lambda>buf.
        bindA (write_page page_no buf) (\<lambda>_. retA Fit)))
      else retA (LeafOverfull cells))))
    else if bt_type bt = InteriorTable then
      bindA (liftA (read_node bt)) (\<lambda>(kids, dividers).
      bindA (liftA (page_one_prefix page_no bt)) (\<lambda>prefix.
      let p = child_slot rowid dividers in
      bindA (liftA (idx kids p)) (\<lambda>child.
      bindA (insert_rec d child rowid cell) (\<lambda>up.
      case up of
        Fit \<Rightarrow> retA Fit
      | LeafOverfull child_cells \<Rightarrow>
          bindA (balance_leaf_into kids dividers p child_cells) (\<lambda>(kids, dividers).
          finish_interior page_no body psize usable kids dividers prefix)
      | SplitUp s \<Rightarrow>
          bindA (liftA (adopt_split kids dividers p s)) (\<lambda>(kids, dividers).
          finish_interior page_no body psize usable kids dividers prefix)))))
    else liftA (Err (Corrupt ''insert into a non-table b-tree''))))"

definition root_body :: "u32 \<Rightarrow> nat" where
  "root_body root = (if root = 1 then HEADER_LEN else 0)"

definition deepen_leaf_root :: "u32 \<Rightarrow> leaf_cell list \<Rightarrow> (pst, unit) act" where
  "deepen_leaf_root root cells =
    bindA wp_page_sizes (\<lambda>(usable, psize).
    bindA (load_bt root) (\<lambda>bt.
    bindA (liftA (page_one_prefix root bt)) (\<lambda>prefix.
    bindA allocate_page (\<lambda>child0.
    bindA (balance_leaf_pooled [child0] cells [length cells]) (\<lambda>(pages, dividers).
    bindA (liftA (mapR (\<lambda>i. bindR (idx pages i) (\<lambda>c. bindR (idx dividers i) (\<lambda>k. Ok (c, k)))) [0..<length dividers])) (\<lambda>icells.
    bindA (liftA (last_of pages)) (\<lambda>right.
    bindA (liftA (serialize_interior psize usable (root_body root) icells right prefix)) (\<lambda>buf.
    write_page root buf))))))))"

definition reserialize :: "btree_page \<Rightarrow> nat \<Rightarrow> nat \<Rightarrow> bytes res" where
  "reserialize bt usable psize =
    (case bt_type bt of
       LeafTable \<Rightarrow> bindR (read_leaf_cells bt usable) (\<lambda>cells. serialize_leaf psize usable 0 cells None)
     | InteriorTable \<Rightarrow>
         bindR (mapR (\<lambda>i. bindR (child_pointer bt i) (\<lambda>c. bindR (table_interior_key bt i) (\<lambda>k. Ok (c, k)))) [0..<num_cells bt])
           (\<lambda>cells. serialize_interior psize usable 0 cells (right_pointer bt) None)
     | _ \<Rightarrow> Err (Corrupt ''relocate of non-table page''))"

definition grow_root :: "u32 \<Rightarrow> i64 split_up \<Rightarrow> (pst, unit) act" where
  "grow_root root s =
    bindA wp_page_sizes (\<lambda>(usable, psize).
    bindA (load_bt root) (\<lambda>bt.
    bindA (liftA (page_one_prefix root bt)) (\<lambda>prefix.
    bindA allocate_page (\<lambda>new_left.
    bindA (liftA (reserialize bt usable psize)) (\<lambda>relocated.
    bindA (write_page new_left relocated) (\<lambda>_.
    bindA (liftA (last_of (siblings s))) (\<lambda>last.
    let cells = (new_left, first_key s) # map (\<lambda>(k, pg). (pg, k)) (butlast (siblings s)) in
    bindA (liftA (serialize_interior psize usable (body_offset (bt_page bt)) cells (snd last) prefix)) (\<lambda>buf.
    write_page root buf))))))))"

definition MAX_DEPTH :: nat where
  "MAX_DEPTH = 20"

definition insert_table :: "u32 \<Rightarrow> i64 \<Rightarrow> bytes \<Rightarrow> (pst, unit) act" where
  "insert_table root rowid payload =
    bindA (build_leaf_cell rowid payload) (\<lambda>cell.
    bindA (insert_rec MAX_DEPTH root rowid cell) (\<lambda>up.
    case up of
      Fit \<Rightarrow> retA ()
    | SplitUp s \<Rightarrow> grow_root root s
    | LeafOverfull cells \<Rightarrow> deepen_leaf_root root cells))"

definition create_table_root :: "(pst, u32) act" where
  "create_table_root =
    bindA wp_page_sizes (\<lambda>(usable, psize).
    bindA allocate_page (\<lambda>root.
    bindA (liftA (serialize_leaf psize usable 0 [] None)) (\<lambda>buf.
    bindA (write_page root buf) (\<lambda>_. retA root))))"

section \<open>Deletion\<close>

definition position_of :: "i64 \<Rightarrow> leaf_cell list \<Rightarrow> nat option" where
  "position_of rowid cells =
    (let i = length (takeWhile (\<lambda>c. fst c \<noteq> rowid) cells) in if i < length cells then Some i else None)"

fun chain_of_row :: "btree_page \<Rightarrow> nat \<Rightarrow> i64 \<Rightarrow> nat list \<Rightarrow> u32 res" where
  "chain_of_row bt usable rowid [] = Ok 0"
| "chain_of_row bt usable rowid (i # is) =
    bindR (table_leaf_cell bt i usable) (\<lambda>cell.
    if cell_rowid cell = rowid then Ok (overflow (cell_payload cell)) else chain_of_row bt usable rowid is)"

fun next_child :: "btree_page \<Rightarrow> i64 \<Rightarrow> nat list \<Rightarrow> u32 res" where
  "next_child bt rowid [] = Ok (right_pointer bt)"
| "next_child bt rowid (i # is) =
    bindR (table_interior_key bt i) (\<lambda>k. if sint rowid \<le> sint k then child_pointer bt i else next_child bt rowid is)"

primrec delete_table :: "nat \<Rightarrow> u32 \<Rightarrow> i64 \<Rightarrow> (pst, bool) lact" where
  "delete_table 0 page_no rowid = (\<lambda>s. None)"
| "delete_table (Suc fuel) page_no rowid =
    bindL (runL (load_bt page_no)) (\<lambda>bt.
    bindL (runL wp_page_sizes) (\<lambda>(usable, psize).
    if bt_type bt = LeafTable then
      bindL (runL (liftA (read_leaf_cells bt usable))) (\<lambda>cells.
      case position_of rowid cells of
        None \<Rightarrow> runL (retA False)
      | Some pos \<Rightarrow>
          bindL (runL (liftA (chain_of_row bt usable rowid [0..<num_cells bt]))) (\<lambda>ov.
          bindL (runL (liftA (page_one_prefix page_no bt))) (\<lambda>prefix.
          bindL (runL (liftA (serialize_leaf psize usable (body_offset (bt_page bt)) (take pos cells @ drop (pos + 1) cells) prefix))) (\<lambda>buf.
          bindL (runL (write_page page_no buf)) (\<lambda>_.
          bindL (free_overflow_chain fuel ov) (\<lambda>_. runL (retA True)))))))
    else if bt_type bt = InteriorTable then
      bindL (runL (liftA (next_child bt rowid [0..<num_cells bt]))) (\<lambda>nxt. delete_table fuel nxt rowid)
    else runL (liftA (Err (Corrupt ''delete from a non-table b-tree'')))))"

primrec free_tree :: "nat \<Rightarrow> u32 \<Rightarrow> (pst, unit) lact" where
  "free_tree 0 root = (\<lambda>s. None)"
| "free_tree (Suc fuel) root =
    bindL (runL wp_usable) (\<lambda>usable.
    bindL (runL (load_bt root)) (\<lambda>bt.
    bindL
      (if bt_type bt = LeafTable then
         foldL (\<lambda>i _. bindL (runL (liftA (table_leaf_cell bt i usable))) (\<lambda>cell.
           free_overflow_chain fuel (overflow (cell_payload cell)))) [0..<num_cells bt] ()
       else if bt_type bt = LeafIndex then
         foldL (\<lambda>i _. bindL (runL (liftA (index_cell bt i usable))) (\<lambda>cell.
           free_overflow_chain fuel (overflow (index_payload cell)))) [0..<num_cells bt] ()
       else
         bindL (foldL (\<lambda>i _.
           bindL (if bt_type bt = InteriorIndex then
                    bindL (runL (liftA (index_cell bt i usable))) (\<lambda>cell.
                    free_overflow_chain fuel (overflow (index_payload cell)))
                  else runL (retA ())) (\<lambda>_.
           bindL (runL (liftA (child_pointer bt i))) (\<lambda>c. free_tree fuel c))) [0..<num_cells bt] ()) (\<lambda>_.
         free_tree fuel (right_pointer bt))) (\<lambda>_.
    runL (free_page root))))"

definition clear_table :: "nat \<Rightarrow> u32 \<Rightarrow> (pst, unit) lact" where
  "clear_table fuel root =
    bindL (runL wp_page_sizes) (\<lambda>(usable, psize).
    bindL (runL (load_bt root)) (\<lambda>bt.
    bindL (runL (liftA (page_one_prefix root bt))) (\<lambda>prefix.
    bindL
      (if bt_type bt = LeafTable then
         foldL (\<lambda>i _. bindL (runL (liftA (table_leaf_cell bt i usable))) (\<lambda>cell.
           free_overflow_chain fuel (overflow (cell_payload cell)))) [0..<num_cells bt] ()
       else if bt_type bt = InteriorTable then
         bindL (foldL (\<lambda>i _. bindL (runL (liftA (child_pointer bt i))) (\<lambda>c. free_tree fuel c)) [0..<num_cells bt] ()) (\<lambda>_.
         free_tree fuel (right_pointer bt))
       else runL (liftA (Err (Corrupt ''clear of a non-table b-tree'')))) (\<lambda>_.
    bindL (runL (liftA (serialize_leaf psize usable (root_body root) [] prefix))) (\<lambda>empty.
    runL (write_page root empty))))))"

primrec empty_leaf_walk :: "nat \<Rightarrow> 's page_source \<Rightarrow> u32 \<Rightarrow> ('s, bool) lact" where
  "empty_leaf_walk 0 rd page_no = (\<lambda>s. None)"
| "empty_leaf_walk (Suc fuel) rd page_no =
    bindL (runL (bindA (rd page_no) (\<lambda>pg. liftA (btree_page_parse pg)))) (\<lambda>bt.
    if bt_type bt = LeafTable then runL (retA (num_cells bt = 0))
    else if bt_type bt = InteriorTable then
      bindL (foldL (\<lambda>i found. if found then runL (retA True)
          else bindL (runL (liftA (child_pointer bt i))) (\<lambda>c. empty_leaf_walk fuel rd c)) [0..<num_cells bt] False) (\<lambda>found.
      if found then runL (retA True) else empty_leaf_walk fuel rd (right_pointer bt))
    else runL (retA False))"

definition table_has_empty_leaf :: "nat \<Rightarrow> 's page_source \<Rightarrow> u32 \<Rightarrow> ('s, bool) lact" where
  "table_has_empty_leaf fuel rd root =
    bindL (runL (bindA (rd root) (\<lambda>pg. liftA (btree_page_parse pg)))) (\<lambda>bt.
    if bt_type bt = LeafTable then runL (retA False) else empty_leaf_walk fuel rd root)"

end
