(* ===== verification/PageImages.thy ===== *)
theory PageImages
  imports TableWriter
begin

text \<open>
  Page images: what \<open>serialize_leaf\<close> and \<open>serialize_interior\<close> write, the page accessors read back.
  A page image of a list of cells (\<open>page_image\<close>) has in its pointer array the offsets at which the
  cells lie; both serializers produce one, and the accessors of \<open>PageFormat\<close> find the cells in any.
\<close>

section \<open>Bytes\<close>

lemma varint_decode_append: "varint_decode buf = Some (v, n) \<Longrightarrow> varint_decode (buf @ rest) = Some (v, n)"
proof -
  have "varint_decode_loop buf i r = Some (v, n) \<Longrightarrow> varint_decode_loop (buf @ rest) i r = Some (v, n)" for i r
  proof (induction buf i r rule: varint_decode_loop.induct)
    case (1 buf i r)
    from "1.prems" "1.IH" show ?case
      by (simp add: varint_decode_loop.simps [of buf i r] varint_decode_loop.simps [of "buf @ rest" i r] nth_append Let_def
          split: if_splits)
  qed
  then show "varint_decode buf = Some (v, n) \<Longrightarrow> ?thesis" by (simp add: varint_decode_def)
qed

lemma varint_decode_i64_append: "varint_decode_i64 buf = Some (v, n) \<Longrightarrow> varint_decode_i64 (buf @ rest) = Some (v, n)"
  by (auto simp: varint_decode_i64_def dest: varint_decode_append)

lemma put_two: "p + 2 \<le> length buf \<Longrightarrow>
    bindR (put_idx buf p a) (\<lambda>buf. bindR (put_idx buf (p + 1) b) f) = f (overwrite buf p [a, b])"
proof -
  assume p: "p + 2 \<le> length buf"
  have "buf[p := a, p + 1 := b] = overwrite buf p [a, b]"
    using p by (intro nth_equalityI) (auto simp: nth_list_update nth_overwrite)
  then show ?thesis using p by (simp add: put_idx_def)
qed

lemma to_be16_conv: "to_be16 w = [of_nat (unat w div 256), of_nat (unat w)]"
  by (simp add: to_be16_def numeral_2_eq_2)

lemma be16_bytes: "[ucast (drop_bit 8 w), ucast w] = to_be16 w" for w :: u16
proof -
  have u: "(ucast v :: u8) = of_nat (unat v)" for v :: u16 by simp
  have "unat (drop_bit 8 w) = unat w div 2 ^ 8"
    using unat_drop_bit_eq [of 8 w] drop_bit_eq_div [of 8 "unat w"] by simp
  then show ?thesis unfolding to_be16_conv u by simp
qed

lemma be16_nat: "c < 65536 \<Longrightarrow> [of_nat (drop_bit 8 c), of_nat c] = to_be16 (of_nat c)"
  by (simp add: to_be16_conv unat_of_nat drop_bit_eq_div)

lemma write_u16_Ok: "at + 2 \<le> length buf \<Longrightarrow> write_u16 buf at v = Ok (overwrite buf at (to_be16 v))"
  using put_two [of at buf "ucast (drop_bit 8 v)" "ucast v" Ok] by (simp add: write_u16_def be16_bytes)

lemma slice_one: "i < length xs \<Longrightarrow> take 1 (drop i xs) = [xs ! i]"
  by (simp add: take_Suc hd_drop_conv_nth)

section \<open>Cells on a page\<close>

text \<open>The pointer at \<open>p\<close> leads to the bytes \<open>c\<close>.\<close>

definition cell_at :: "bytes \<Rightarrow> nat \<Rightarrow> bytes \<Rightarrow> bool" where
  "cell_at buf p c \<longleftrightarrow> (\<exists>off. off < 65536 \<and> off + length c \<le> length buf \<and> take 2 (drop p buf) = to_be16 (of_nat off) \<and>
     take (length c) (drop off buf) = c)"

lemma place_cells_Ok:
  assumes "pb + 2 * (i + length cells) \<le> pe" and "pe + sum_list (map length cells) \<le> content" and "content \<le> length buf"
    and "content \<le> 65536" and "list_all (\<lambda>c. c \<noteq> []) cells"
  shows "\<exists>buf'. place_cells msg pb pe i cells content buf = Ok (content - sum_list (map length cells), buf') \<and> length buf' = length buf \<and>
    (\<forall>k < length cells. \<exists>off. pe \<le> off \<and> off + length (cells ! k) \<le> content \<and> take 2 (drop (pb + 2 * (i + k)) buf') = to_be16 (of_nat off) \<and>
      take (length (cells ! k)) (drop off buf') = cells ! k) \<and>
    (\<forall>a n. a + n \<le> pb + 2 * i \<or> content \<le> a \<longrightarrow> take n (drop a buf') = take n (drop a buf))"
  using assms
proof (induction cells arbitrary: i content buf)
  case (Cons cell cells)
  define c where "c = content - length cell"
  define p where "p = pb + 2 * i"
  let ?b1 = "overwrite buf c cell" let ?b2 = "overwrite ?b1 p (to_be16 (of_nat c))"
  have c: "c + length cell = content" "c < 65536" "pe + sum_list (map length cells) \<le> c" "p + 2 \<le> pe" "0 < length cell"
  proof -
    show pos: "0 < length cell" using Cons.prems(5) by simp
    show le: "c + length cell = content" "pe + sum_list (map length cells) \<le> c" "p + 2 \<le> pe"
      using Cons.prems(1-4) by (auto simp: c_def p_def)
    show "c < 65536" using pos le(1) Cons.prems(4) by linarith
  qed
  have len: "length ?b1 = length buf" "length ?b2 = length buf" "p + 2 \<le> length ?b1" using c Cons.prems(3) by simp_all
  have step: "place_cells msg pb pe i (cell # cells) content buf = place_cells msg pb pe (i + 1) cells c ?b2"
    using c Cons.prems(3) put_two [OF len(3), of "of_nat (drop_bit 8 c)" "of_nat c" "place_cells msg pb pe (i + 1) cells c"]
    by (simp add: Let_def c_def [symmetric] p_def [symmetric] be16_nat put_slice_def)
  from Cons.IH [of "i + 1" c ?b2] Cons.prems c len obtain buf' where
    r: "place_cells msg pb pe (i + 1) cells c ?b2 = Ok (c - sum_list (map length cells), buf')" "length buf' = length buf"
    "\<forall>k < length cells. \<exists>off. pe \<le> off \<and> off + length (cells ! k) \<le> c \<and> take 2 (drop (pb + 2 * (i + 1 + k)) buf') = to_be16 (of_nat off) \<and>
      take (length (cells ! k)) (drop off buf') = cells ! k"
    "\<forall>a n. a + n \<le> pb + 2 * (i + 1) \<or> c \<le> a \<longrightarrow> take n (drop a buf') = take n (drop a ?b2)"
    by auto
  have first: "take 2 (drop p buf') = to_be16 (of_nat c)" "take (length cell) (drop c buf') = cell"
  proof -
    have "take 2 (drop p buf') = take 2 (drop p ?b2)" using r(4) [rule_format, of p 2] by (simp add: p_def)
    then show "take 2 (drop p buf') = to_be16 (of_nat c)" using len(3) by simp
    have "take (length cell) (drop c buf') = take (length cell) (drop c ?b2)" using r(4) [rule_format, of c "length cell"] by simp
    also have "\<dots> = take (length cell) (drop c ?b1)" using len(3) c by (intro slice_overwrite_other) simp_all
    finally show "take (length cell) (drop c buf') = cell" using c Cons.prems(3) by simp
  qed
  have cells: "\<exists>off. pe \<le> off \<and> off + length ((cell # cells) ! k) \<le> content \<and>
      take 2 (drop (pb + 2 * (i + k)) buf') = to_be16 (of_nat off) \<and>
      take (length ((cell # cells) ! k)) (drop off buf') = (cell # cells) ! k" if "k < length (cell # cells)" for k
  proof (cases k)
    case 0
    then show ?thesis using first c by (intro exI [of _ c]) (simp add: p_def)
  next
    case (Suc j)
    then obtain off where "pe \<le> off" "off + length (cells ! j) \<le> c" "take 2 (drop (pb + 2 * (i + 1 + j)) buf') = to_be16 (of_nat off)"
      "take (length (cells ! j)) (drop off buf') = cells ! j" using r(3) \<open>k < _\<close> by auto
    then show ?thesis using Suc c by (intro exI [of _ off]) (simp add: algebra_simps)
  qed
  have rest: "take n (drop a buf') = take n (drop a buf)" if "a + n \<le> pb + 2 * i \<or> content \<le> a" for a n
  proof -
    have "take n (drop a buf') = take n (drop a ?b2)" using r(4) that c by auto
    also have "\<dots> = take n (drop a ?b1)" using that len(3) c by (intro slice_overwrite_other) (auto simp: p_def)
    also have "\<dots> = take n (drop a buf)" using that len(3) c Cons.prems(3) by (intro slice_overwrite_other) (auto simp: p_def)
    finally show ?thesis .
  qed
  show ?case using step r(1,2) cells rest by (intro exI [of _ buf']) (auto simp: c_def)
qed simp

definition page_image :: "bytes \<Rightarrow> nat \<Rightarrow> page_type \<Rightarrow> bytes list \<Rightarrow> bool" where
  "page_image buf body t cells \<longleftrightarrow> body + page_header_len t + 2 * length cells \<le> length buf \<and> length cells < 65536 \<and>
    page_type_from_byte (buf ! body) = Ok t \<and> take 2 (drop (body + 3) buf) = to_be16 (of_nat (length cells)) \<and>
    (\<forall>k < length cells. cell_at buf (body + page_header_len t + 2 * k) (cells ! k))"

text \<open>The header bytes that the serializers write last leave the cells alone.\<close>

lemma page_image_header:
  assumes t: "page_type_from_byte b = Ok t" and pb: "pb = body + page_header_len t"
    and p: "length cells < 65536" "pb + 2 * length cells \<le> pe" "pe \<le> length buf"
      "\<forall>k < length cells. \<exists>off. pe \<le> off \<and> off < 65536 \<and> off + length (cells ! k) \<le> length buf \<and>
        take 2 (drop (pb + 2 * k) buf) = to_be16 (of_nat off) \<and> take (length (cells ! k)) (drop off buf) = cells ! k"
    and r: "length r = page_header_len t - 8"
    and b1: "b1 = overwrite buf body [b]" and b2: "b2 = overwrite b1 (body + 3) (to_be16 (of_nat (length cells)))"
    and b3: "b3 = overwrite b2 (body + 5) (to_be16 c)" and b4: "b4 = overwrite b3 (body + 8) r"
  shows "page_image b4 body t cells \<and> take (length r) (drop (body + 8) b4) = r \<and> take body b4 = take body buf \<and> length b4 = length buf"
proof -
  have hl: "page_header_len t \<in> {8, 12}" by (cases t) (simp_all add: page_header_len_def)
  have le: "body + 8 + length r \<le> length buf" "body + 8 + length r = pb" using p(2,3) pb r hl by auto
  have len: "length b1 = length buf" "length b2 = length buf" "length b3 = length buf" "length b4 = length buf"
    using le by (simp_all add: b1 b2 b3 b4)
  have s4: "take n (drop a b4) = take n (drop a b3)" if "body + 8 + length r \<le> a \<or> a + n \<le> body + 8" for a n
    unfolding b4 using that le len by (intro slice_overwrite_other) auto
  have s3: "take n (drop a b3) = take n (drop a b2)" if "body + 7 \<le> a \<or> a + n \<le> body + 5" for a n
    unfolding b3 using that le len by (intro slice_overwrite_other) auto
  have s2: "take n (drop a b2) = take n (drop a b1)" if "body + 5 \<le> a \<or> a + n \<le> body + 3" for a n
    unfolding b2 using that le len by (intro slice_overwrite_other) auto
  have s1: "take n (drop a b1) = take n (drop a buf)" if "body + 1 \<le> a \<or> a + n \<le> body" for a n
    unfolding b1 using that le len by (intro slice_overwrite_other) auto
  have keep: "take n (drop a b4) = take n (drop a buf)" if "pb \<le> a \<or> a + n \<le> body" for a n
    using that s4 [of a n] s3 [of a n] s2 [of a n] s1 [of a n] le by auto
  have "take 1 (drop body b4) = take 1 (drop body b1)" using s4 [of body 1] s3 [of body 1] s2 [of body 1] by simp
  then have "b4 ! body = b1 ! body" using le len slice_one [of body b4] slice_one [of body b1] by simp
  also have "b1 ! body = b" using le by (simp add: b1 nth_overwrite)
  finally have "b4 ! body = b" .
  moreover have "take 2 (drop (body + 3) b4) = to_be16 (of_nat (length cells))"
  proof -
    have "take 2 (drop (body + 3) b4) = take 2 (drop (body + 3) b2)" using s4 [of "body + 3" 2] s3 [of "body + 3" 2] by simp
    also have "\<dots> = to_be16 (of_nat (length cells))" unfolding b2 using le len(1) by (intro slice_overwrite_same) simp_all
    finally show ?thesis .
  qed
  moreover have "cell_at b4 (pb + 2 * k) (cells ! k)" if "k < length cells" for k
  proof -
    from p(4) [rule_format, OF that] obtain off where off: "pe \<le> off" "off < 65536" "off + length (cells ! k) \<le> length buf"
      "take 2 (drop (pb + 2 * k) buf) = to_be16 (of_nat off)" "take (length (cells ! k)) (drop off buf) = cells ! k"
      by (elim exE conjE)
    have "pb \<le> off" using off(1) p(2) by simp
    then show ?thesis unfolding cell_at_def using off len keep [of "pb + 2 * k" 2] keep [of off "length (cells ! k)"]
      by (intro exI [of _ off]) simp
  qed
  moreover have "take (length r) (drop (body + 8) b4) = r" unfolding b4 using le len(3) by (intro slice_overwrite_same) simp_all
  ultimately show ?thesis using t pb p(1,2,3) len keep [of 0 body] by (simp add: page_image_def)
qed

text \<open>What both serializers share: a blank page with the cells placed.\<close>

lemma placed_cells:
  assumes fits: "pb + 2 * length cs + sum_list (map length cs) \<le> usable" and sz: "usable \<le> length b0" "length b0 \<le> 65536"
    and ne: "list_all (\<lambda>c. c \<noteq> []) cs"
  shows "\<exists>b1. place_cells msg pb (pb + 2 * length cs) 0 cs usable b0 = Ok (usable - sum_list (map length cs), b1) \<and> length b1 = length b0 \<and>
    length cs < 65536 \<and> take pb b1 = take pb b0 \<and>
    (\<forall>k < length cs. \<exists>off. pb + 2 * length cs \<le> off \<and> off < 65536 \<and> off + length (cs ! k) \<le> length b1 \<and>
      take 2 (drop (pb + 2 * k) b1) = to_be16 (of_nat off) \<and> take (length (cs ! k)) (drop off b1) = cs ! k)"
proof -
  let ?pe = "pb + 2 * length cs"
  obtain b1 where b1: "place_cells msg pb ?pe 0 cs usable b0 = Ok (usable - sum_list (map length cs), b1)" "length b1 = length b0"
    "\<forall>k < length cs. \<exists>off. ?pe \<le> off \<and> off + length (cs ! k) \<le> usable \<and> take 2 (drop (pb + 2 * (0 + k)) b1) = to_be16 (of_nat off) \<and>
      take (length (cs ! k)) (drop off b1) = cs ! k"
    "\<forall>a n. a + n \<le> pb + 2 * 0 \<or> usable \<le> a \<longrightarrow> take n (drop a b1) = take n (drop a b0)"
    using place_cells_Ok [of pb 0 cs ?pe usable b0 msg] ne fits sz by auto
  have "length cs \<le> sum_list (map length cs)" using ne 
  proof (induction cs)
    case (Cons c cs)
    then show ?case by (cases c) auto
  qed simp
  then have small: "length cs < 65536" using fits sz by (cases "length cs") auto
  have "\<exists>off. ?pe \<le> off \<and> off < 65536 \<and> off + length (cs ! k) \<le> length b1 \<and>
      take 2 (drop (pb + 2 * k) b1) = to_be16 (of_nat off) \<and> take (length (cs ! k)) (drop off b1) = cs ! k" if k: "k < length cs" for k
  proof -
    have "cs ! k \<noteq> []" using ne k by (simp add: list_all_length)
    then have "0 < length (cs ! k)" by simp
    moreover from b1(3) [rule_format, OF k] obtain off where "?pe \<le> off" "off + length (cs ! k) \<le> usable"
      "take 2 (drop (pb + 2 * (0 + k)) b1) = to_be16 (of_nat off)" "take (length (cs ! k)) (drop off b1) = cs ! k" by (elim exE conjE)
    ultimately show ?thesis using sz b1(2) by (intro exI [of _ off] conjI) (linarith | simp)+
  qed
  moreover have "take pb b1 = take pb b0" using b1(4) [rule_format, of 0 pb] by simp
  ultimately show ?thesis using b1(1,2) small by blast
qed

lemma update_one: "i < length buf \<Longrightarrow> buf[i := v] = overwrite buf i [v]"
  by (simp add: overwrite_def upd_conv_take_nth_drop)

definition prefix_bytes :: "bytes option \<Rightarrow> bytes" where
  "prefix_bytes prefix = (case prefix of None \<Rightarrow> [] | Some h \<Rightarrow> h)"

lemma blank_page_Ok:
  "length (prefix_bytes prefix) \<le> psize \<Longrightarrow>
    \<exists>buf. blank_page psize prefix = Ok buf \<and> length buf = psize \<and> take (length (prefix_bytes prefix)) buf = prefix_bytes prefix"
  by (auto simp: blank_page_def put_slice_def overwrite_def prefix_bytes_def split: option.splits)

text \<open>
  What the four serializers share: a blank page with the cells placed, then the type byte, the number of
  cells, the content start and, for interior pages, the right pointer.
\<close>

lemma image_written:
  assumes t: "page_type_from_byte byte = Ok t" and hl: "hl = page_header_len t" and fits: "body + hl + 2 * length cs + sum_list (map length cs) \<le> usable"
    and sz: "usable \<le> psize" "psize \<le> 65536" and prefix: "length (prefix_bytes prefix) = body" and ne: "list_all (\<lambda>c. c \<noteq> []) cs"
    and r: "length r = hl - 8"
  shows "\<exists>b0 b1 content buf. blank_page psize prefix = Ok b0 \<and>
    place_cells msg (body + hl) (body + hl + 2 * length cs) 0 cs usable b0 = Ok (content, b1) \<and> length b1 = psize \<and>
    buf = overwrite (overwrite (overwrite (overwrite b1 body [byte]) (body + 3) (to_be16 (of_nat (length cs)))) (body + 5)
      (to_be16 (if 65536 \<le> content then 0 else of_nat content))) (body + 8) r \<and>
    length buf = psize \<and> page_image buf body t cs \<and> take (length r) (drop (body + 8) buf) = r \<and> take body buf = prefix_bytes prefix"
proof -
  let ?pb = "body + hl"
  obtain b0 where b0: "blank_page psize prefix = Ok b0" "length b0 = psize" "take body b0 = prefix_bytes prefix"
    using blank_page_Ok [of prefix psize] fits sz prefix by auto
  note placed = placed_cells [OF _ _ _ ne, of ?pb usable b0 msg]
  have "?pb + 2 * length cs + sum_list (map length cs) \<le> usable" "usable \<le> length b0" "length b0 \<le> 65536"
    using fits sz b0(2) by simp_all
  from placed [OF this] obtain b1 where
    b1: "place_cells msg ?pb (?pb + 2 * length cs) 0 cs usable b0 = Ok (usable - sum_list (map length cs), b1)"
    "length b1 = length b0" and small: "length cs < 65536" and pre: "take ?pb b1 = take ?pb b0"
    and offs: "\<forall>k < length cs. \<exists>off. ?pb + 2 * length cs \<le> off \<and> off < 65536 \<and> off + length (cs ! k) \<le> length b1 \<and>
      take 2 (drop (?pb + 2 * k) b1) = to_be16 (of_nat off) \<and> take (length (cs ! k)) (drop off b1) = cs ! k"
    by (elim exE conjE)
  define v :: u16 where "v = (if 65536 \<le> usable - sum_list (map length cs) then 0 else of_nat (usable - sum_list (map length cs)))"
  let ?b = "overwrite (overwrite (overwrite (overwrite b1 body [byte]) (body + 3) (to_be16 (of_nat (length cs)))) (body + 5) (to_be16 v)) (body + 8) r"
  have "page_image ?b body t cs \<and> take (length r) (drop (body + 8) ?b) = r \<and> take body ?b = take body b1 \<and> length ?b = length b1"
    using page_image_header [OF t _ small order.refl _ offs _ refl refl refl refl, where body = body and r = r and c = v] hl r
      fits sz b1(2) b0(2) by simp
  moreover have "take body b1 = take body b0" using arg_cong [OF pre, of "take body"] by (simp add: min_def)
  ultimately show ?thesis unfolding v_def using b0 b1
    by (intro exI [of _ b0] exI [of _ b1] exI [of _ "usable - sum_list (map length cs)"] exI [of _ ?b]) (simp add: v_def)
qed

lemma serialize_leaf_Ok:
  assumes fits: "body + 8 + sum_list (map (\<lambda>(_, c). length c + 2) cells) \<le> usable" and sz: "usable \<le> psize" "psize \<le> 65536"
    and prefix: "length (prefix_bytes prefix) = body" and ne: "list_all (\<lambda>(_, c). c \<noteq> []) cells"
  shows "\<exists>buf. serialize_leaf psize usable body cells prefix = Ok buf \<and> length buf = psize \<and> page_image buf body LeafTable (map snd cells) \<and>
    take body buf = prefix_bytes prefix"
proof -
  have sum: "sum_list (map (\<lambda>(_, c). length c + 2) cells) = sum_list (map length (map snd cells)) + 2 * length (map snd cells)" by (induction cells) auto
  have n: "list_all (\<lambda>c. c \<noteq> []) (map snd cells)" using ne by (auto simp: list_all_iff)
  have t: "page_type_from_byte 0x0d = Ok LeafTable" "8 = page_header_len LeafTable" "length ([] :: bytes) = 8 - 8"
    by (simp_all add: page_type_from_byte_def page_header_len_def)
  have f: "body + 8 + 2 * length (map snd cells) + sum_list (map length (map snd cells)) \<le> usable" using fits sum by linarith
  from image_written [OF t(1,2) f sz prefix n t(3), of "''leaf page overflow while serializing''", unfolded length_map]
  obtain b0 b1 content buf where b: "blank_page psize prefix = Ok b0" "length b1 = psize"
    "place_cells ''leaf page overflow while serializing'' (body + 8) (body + 8 + 2 * length cells) 0 (map snd cells) usable b0 = Ok (content, b1)"
    "buf = overwrite (overwrite (overwrite (overwrite b1 body [0x0d]) (body + 3) (to_be16 (of_nat (length cells)))) (body + 5)
      (to_be16 (if 65536 \<le> content then 0 else of_nat content))) (body + 8) []"
    "length buf = psize" "page_image buf body LeafTable (map snd cells)" "take body buf = prefix_bytes prefix"
    by (elim exE conjE)
  have "body + 8 \<le> length b1" using fits sz b(2) by simp
  then have "serialize_leaf psize usable body cells prefix = Ok buf"
    using b(1,3,4) by (simp add: serialize_leaf_def Let_def write_u16_Ok write_cell_content_start_def put_idx_def update_one)
  then show ?thesis using b(5-7) by blast
qed

lemma length_interior_cell: "length (interior_cell_bytes c) = interior_cell_len (snd c)"
  by (cases c) (simp add: interior_cell_bytes_def interior_cell_len_def varint_encode_i64_def)

lemma interior_cell_nonempty: "interior_cell_bytes c \<noteq> []"
  using length_interior_cell [of c] by (auto simp: interior_cell_len_def)

lemma serialize_interior_Ok:
  assumes fits: "body + 12 + sum_list (map (\<lambda>(_, k). interior_cell_len k + 2) cells) \<le> usable" and sz: "usable \<le> psize" "psize \<le> 65536"
    and prefix: "length (prefix_bytes prefix) = body"
  shows "\<exists>buf. serialize_interior psize usable body cells right prefix = Ok buf \<and> length buf = psize \<and>
    page_image buf body InteriorTable (map interior_cell_bytes cells) \<and> take 4 (drop (body + 8) buf) = to_be32 right \<and>
    take body buf = prefix_bytes prefix"
proof -
  let ?cs = "map interior_cell_bytes cells" let ?msg = "''interior page overflow while serializing''"
  have sum: "sum_list (map (\<lambda>(_, k). interior_cell_len k + 2) cells) = sum_list (map length ?cs) + 2 * length ?cs"
    by (induction cells) (auto simp: length_interior_cell)
  have n: "list_all (\<lambda>c. c \<noteq> []) ?cs" using interior_cell_nonempty by (simp add: list_all_iff)
  have t: "page_type_from_byte 0x05 = Ok InteriorTable" "12 = page_header_len InteriorTable" "length (to_be32 right) = 12 - 8"
    by (simp_all add: page_type_from_byte_def page_header_len_def)
  have f: "body + 12 + 2 * length ?cs + sum_list (map length ?cs) \<le> usable" using fits sum by linarith
  from image_written [OF t(1,2) f sz prefix n t(3), of ?msg, unfolded length_map length_to_be]
  obtain b0 b1 content buf where b: "blank_page psize prefix = Ok b0" "length b1 = psize"
    "place_cells ?msg (body + 12) (body + 12 + 2 * length cells) 0 ?cs usable b0 = Ok (content, b1)"
    "buf = overwrite (overwrite (overwrite (overwrite b1 body [0x05]) (body + 3) (to_be16 (of_nat (length cells)))) (body + 5)
      (to_be16 (if 65536 \<le> content then 0 else of_nat content))) (body + 8) (to_be32 right)"
    "length buf = psize" "page_image buf body InteriorTable ?cs" "take 4 (drop (body + 8) buf) = to_be32 right" "take body buf = prefix_bytes prefix"
    by (elim exE conjE)
  have "body + 12 \<le> length b1" using fits sz b(2) by simp
  then have "serialize_interior psize usable body cells right prefix = Ok buf"
    using b(1,3,4) by (simp add: serialize_interior_def Let_def write_u16_Ok write_cell_content_start_def put_idx_def update_one put_slice_def)
  then show ?thesis using b(5-8) by blast
qed

section \<open>Reading a page image\<close>

lemma page_image_parse:
  assumes img: "page_image buf body t cells" and body: "body_offset (page_from_bytes n buf) = body"
  shows "\<exists>rp. btree_page_parse (page_from_bytes n buf) = Ok \<lparr>bt_page = page_from_bytes n buf, bt_type = t, bt_body = body,
      num_cells = length cells, right_pointer = rp\<rparr> \<and> (\<not> is_leaf t \<longrightarrow> rp = from_be32 (take 4 (drop (body + 8) buf)))"
proof -
  have hl: "page_header_len t \<in> {8, 12}" by (cases t) (simp_all add: page_header_len_def)
  have le: "body + page_header_len t \<le> length buf" using img by (simp add: page_image_def)
  have "be_u16 buf (body + 3) = Ok (of_nat (length cells))"
    using img le hl by (auto simp: be_u16_def slice_def page_image_def)
  moreover have "unat (of_nat (length cells) :: u16) = length cells" using img by (simp add: page_image_def unat_of_nat)
  moreover have "be_u32 buf (body + 8) = Ok (from_be32 (take 4 (drop (body + 8) buf)))" if "\<not> is_leaf t"
    using that le by (cases t) (auto simp: be_u32_def slice_def page_header_len_def)
  ultimately show ?thesis using img body le hl
    by (auto simp: btree_page_parse_def Let_def page_from_bytes_def idx_def page_image_def split: if_splits)
qed

lemma page_image_cell:
  assumes img: "page_image (bt_data bt) (bt_body bt) (bt_type bt) cells" and n: "num_cells bt = length cells" and k: "k < length cells"
    and ne: "cells ! k \<noteq> []"
  shows "\<exists>off. cell_offset bt k = Ok off \<and> off + length (cells ! k) \<le> length (bt_data bt) \<and>
    drop off (bt_data bt) = cells ! k @ drop (off + length (cells ! k)) (bt_data bt)"
proof -
  let ?p = "bt_body bt + page_header_len (bt_type bt) + 2 * k"
  obtain off where off: "off < 65536" "off + length (cells ! k) \<le> length (bt_data bt)" "take 2 (drop ?p (bt_data bt)) = to_be16 (of_nat off)"
    "take (length (cells ! k)) (drop off (bt_data bt)) = cells ! k" using img k by (auto simp: page_image_def cell_at_def)
  have "?p + 2 \<le> length (bt_data bt)" using img k by (simp add: page_image_def)
  then have "be_u16 (bt_data bt) ?p = Ok (of_nat off)" using off(3) by (simp add: be_u16_def slice_def)
  moreover have "unat (of_nat off :: u16) = off" using off(1) by (simp add: unat_of_nat)
  moreover have "off < length (bt_data bt)" using off(2) ne by (cases "cells ! k") auto
  ultimately have "cell_offset bt k = Ok off" using \<open>?p + 2 \<le> _\<close> n k by (simp add: cell_offset_def Let_def)
  moreover have "drop off (bt_data bt) = cells ! k @ drop (off + length (cells ! k)) (bt_data bt)"
    using off(4) append_take_drop_id [of "length (cells ! k)" "drop off (bt_data bt)"] by (simp add: add.commute)
  ultimately show ?thesis using off(2) by blast
qed

section \<open>Table leaves and interior pages\<close>

text \<open>The bytes of a table-leaf cell: its rowid, payload length, local payload and overflow pointer.\<close>

definition leaf_parts :: "nat \<Rightarrow> bytes \<Rightarrow> (i64 \<times> nat \<times> bytes \<times> u32) option" where
  "leaf_parts usable raw =
    (case varint_decode raw of
       None \<Rightarrow> None
     | Some (plen, n1) \<Rightarrow>
         (case varint_decode_i64 (drop n1 raw) of
            None \<Rightarrow> None
          | Some (rowid, n2) \<Rightarrow>
              (case payload_split LeafTable usable (unat plen) of
                 (llen, ov) \<Rightarrow>
                   if length raw = n1 + n2 + llen + (if ov then 4 else 0)
                   then Some (rowid, unat plen, take llen (drop (n1 + n2) raw),
                     if ov then from_be32 (drop (n1 + n2 + llen) raw) else 0)
                   else None)))"

definition leaf_cell_ok :: "nat \<Rightarrow> leaf_cell \<Rightarrow> bool" where
  "leaf_cell_ok usable c = (case leaf_parts usable (snd c) of Some (rowid, _) \<Rightarrow> rowid = fst c | None \<Rightarrow> False)"

lemma leaf_parts_nonempty: "leaf_parts usable [] = None"
  by (simp add: leaf_parts_def varint_decode_def varint_decode_loop.simps)

lemma leaf_cell_ok_nonempty: "leaf_cell_ok usable c \<Longrightarrow> snd c \<noteq> []"
  using leaf_parts_nonempty by (auto simp: leaf_cell_ok_def)

lemma leaf_image_cell:
  assumes img: "page_image (bt_data bt) (bt_body bt) (bt_type bt) cells" and t: "bt_type bt = LeafTable"
    and n: "num_cells bt = length cells" "k < length cells" and parts: "leaf_parts usable (cells ! k) = Some (rowid, tot, loc, ov)"
  shows "\<exists>cell. table_leaf_cell bt k usable = Ok cell \<and> cell_rowid cell = rowid \<and> total_len (cell_payload cell) = tot \<and>
    overflow (cell_payload cell) = ov \<and>
    slice (bt_data bt) (local_offset (cell_payload cell)) (local_offset (cell_payload cell) + local_len (cell_payload cell)) = Ok loc \<and>
    raw_table_leaf_cell bt k usable = Ok (cells ! k)"
proof -
  let ?c = "cells ! k" let ?d = "bt_data bt"
  have ne: "?c \<noteq> []" using parts leaf_parts_nonempty by auto
  obtain off where off: "cell_offset bt k = Ok off" "off + length ?c \<le> length ?d" "drop off ?d = ?c @ drop (off + length ?c) ?d"
    using page_image_cell [OF img n ne] by blast
  obtain plen n1 n2 llen b where p: "varint_decode ?c = Some (plen, n1)" "varint_decode_i64 (drop n1 ?c) = Some (rowid, n2)"
    "payload_split LeafTable usable (unat plen) = (llen, b)" "length ?c = n1 + n2 + llen + (if b then 4 else 0)"
    "tot = unat plen" "loc = take llen (drop (n1 + n2) ?c)" "ov = (if b then from_be32 (drop (n1 + n2 + llen) ?c) else 0)"
    using parts by (auto simp: leaf_parts_def split: option.splits prod.splits if_splits)
  have n1: "n1 \<le> length ?c" using p(4) by simp
  have d1: "varint_decode (drop off ?d) = Some (plen, n1)" unfolding off(3) by (rule varint_decode_append [OF p(1)])
  have "drop (off + n1) ?d = drop n1 (drop off ?d)" by (simp add: add.commute)
  also have "\<dots> = drop n1 ?c @ drop (off + length ?c) ?d" unfolding off(3) using n1 by simp
  finally have d2: "varint_decode_i64 (drop (off + n1) ?d) = Some (rowid, n2)" using varint_decode_i64_append [OF p(2)] by simp
  have sub: "take m (drop (off + j) ?d) = take m (drop j ?c)" if "j + m \<le> length ?c" for j m
  proof -
    have "drop (off + j) ?d = drop j (drop off ?d)" by (simp add: add.commute)
    also have "\<dots> = drop j ?c @ drop (off + length ?c) ?d" unfolding off(3) using that by simp
    finally show ?thesis using that by simp
  qed
  have at: "payload_at bt (off + n1 + n2) (unat plen) usable =
      Ok \<lparr>total_len = tot, local_offset = off + n1 + n2, local_len = llen, overflow = ov\<rparr>"
  proof -
    have "off + (n1 + n2 + llen) + 4 \<le> length ?d" "be_u32 ?d (off + n1 + n2 + llen) = Ok ov" if b
    proof -
      show le: "off + (n1 + n2 + llen) + 4 \<le> length ?d" using off(2) p(4) that by simp
      have "take 4 (drop (off + (n1 + n2 + llen)) ?d) = drop (n1 + n2 + llen) ?c"
        using sub [of "n1 + n2 + llen" 4] p(4) that by simp
      then show "be_u32 ?d (off + n1 + n2 + llen) = Ok ov"
        using le p(7) that by (simp add: be_u32_def slice_def add.assoc)
    qed
    then show ?thesis using p off(2) t by (auto simp: payload_at_def Let_def add.assoc)
  qed
  have loc: "slice ?d (off + n1 + n2) (off + n1 + n2 + llen) = Ok loc"
    using sub [of "n1 + n2" llen] off(2) p(4,6) by (simp add: slice_def add.assoc)
  have raw: "raw_table_leaf_cell bt k usable = Ok ?c"
  proof -
    have "slice ?d off (off + length ?c) = Ok ?c" using off(2,3) by (simp add: slice_def)
    then show ?thesis using t off(1,2) d1 d2 p(3,4) n1
      by (simp add: raw_table_leaf_cell_def Let_def slice_from_def ok_or_def add.assoc split: if_splits)
  qed
  have "table_leaf_cell bt k usable = Ok \<lparr>cell_rowid = rowid,
      cell_payload = \<lparr>total_len = tot, local_offset = off + n1 + n2, local_len = llen, overflow = ov\<rparr>\<rparr>"
    using t off(1,2) d1 d2 at n1 by (simp add: table_leaf_cell_def Let_def slice_from_def ok_or_def)
  then show ?thesis using loc raw by simp
qed

lemma mapR_nth: "(\<And>i. i < length xs \<Longrightarrow> f i = Ok (xs ! i)) \<Longrightarrow> mapR f [0..<length xs] = Ok xs"
  using mapR_all_Ok [of "[0..<length xs]" f "(!) xs"] by (simp add: map_nth)

lemma read_leaf_cells_Ok:
  assumes img: "page_image (bt_data bt) (bt_body bt) (bt_type bt) (map snd cells)" and t: "bt_type bt = LeafTable"
    and n: "num_cells bt = length cells" and ok: "list_all (leaf_cell_ok usable) cells"
  shows "read_leaf_cells bt usable = Ok cells"
proof -
  have "bindR (table_leaf_cell bt i usable) (\<lambda>cell. bindR (raw_table_leaf_cell bt i usable) (\<lambda>raw. Ok (cell_rowid cell, raw))) = Ok (cells ! i)"
    if i: "i < length cells" for i
  proof -
    have "leaf_cell_ok usable (cells ! i)" using ok i by (simp add: list_all_length)
    then obtain tot loc ov where "leaf_parts usable (map snd cells ! i) = Some (fst (cells ! i), tot, loc, ov)"
      using i by (auto simp: leaf_cell_ok_def split: option.splits prod.splits)
    from leaf_image_cell [OF img t _ _ this] n i show ?thesis by auto
  qed
  then show ?thesis unfolding read_leaf_cells_def n by (rule mapR_nth)
qed

lemma interior_image_cell:
  assumes img: "page_image (bt_data bt) (bt_body bt) (bt_type bt) (map interior_cell_bytes cells)" and t: "bt_type bt = InteriorTable"
    and n: "num_cells bt = length cells" "k < length cells"
  shows "child_pointer bt k = Ok (fst (cells ! k)) \<and> table_interior_key bt k = Ok (snd (cells ! k))"
proof -
  let ?c = "map interior_cell_bytes cells ! k" let ?d = "bt_data bt"
  obtain child key where ck: "cells ! k = (child, key)" by (cases "cells ! k")
  have c: "?c = to_be32 child @ varint_encode_i64 key" using n ck by (simp add: interior_cell_bytes_def)
  have "?c \<noteq> []" using n interior_cell_nonempty by simp
  then obtain off where off: "cell_offset bt k = Ok off" "off + length ?c \<le> length ?d" "drop off ?d = ?c @ drop (off + length ?c) ?d"
    using page_image_cell [OF img] n by auto
  have len: "off + 4 \<le> length ?d" using off(2) c by simp
  have "take 4 (drop off ?d) = to_be32 child" unfolding off(3) c by simp
  then have "be_u32_checked ?d off = Ok child" using len by (simp add: be_u32_checked_def get_slice_def ok_or_def)
  moreover have "drop (off + 4) ?d = drop 4 (drop off ?d)" by (simp add: add.commute)
  then have "drop (off + 4) ?d = varint_encode_i64 key @ drop (off + length ?c) ?d" unfolding off(3) c by simp
  then have "varint_decode_i64 (drop (off + 4) ?d) = Some (key, varint_len key)" by (simp add: varint_decode_encode_i64)
  ultimately show ?thesis using t n off(1) len ck
    by (simp add: child_pointer_def table_interior_key_def Let_def slice_from_def ok_or_def)
qed

lemma read_node_Ok:
  assumes img: "page_image (bt_data bt) (bt_body bt) (bt_type bt) (map interior_cell_bytes cells)" and t: "bt_type bt = InteriorTable"
    and n: "num_cells bt = length cells"
  shows "read_node bt = Ok (map fst cells @ [right_pointer bt], map snd cells)"
    and "mapR (\<lambda>i. bindR (child_pointer bt i) (\<lambda>c. bindR (table_interior_key bt i) (\<lambda>k. Ok (c, k)))) [0..<num_cells bt] = Ok cells"
proof -
  show m: "mapR (\<lambda>i. bindR (child_pointer bt i) (\<lambda>c. bindR (table_interior_key bt i) (\<lambda>k. Ok (c, k)))) [0..<num_cells bt] = Ok cells"
    unfolding n using interior_image_cell [OF img t n] by (intro mapR_nth) simp
  then show "read_node bt = Ok (map fst cells @ [right_pointer bt], map snd cells)" by (simp add: read_node_def)
qed

end
