(* ===== verification/PagerHeap.thy ===== *)
theory PagerHeap
  imports FreeList TableWriter
begin

text \<open>
  The write pager as a heap of pages. Inside a transaction the pages that a client owns are a partial
  map from page numbers to bytes: reading looks a page up, writing updates it, allocating adds a zeroed
  page that was not owned before and freeing removes one (locale \<open>page_heap\<close>, interpreted for
  \<open>read_page\<close>, \<open>write_page\<close>, \<open>allocate_page\<close> and \<open>free_page\<close> of \<open>src/pager/write.rs\<close>). The
  free list, the pages that an auto-vacuum database passes over, the overlay and the cache stay behind
  the invariant. Statements about actions are total: \<open>runs m s Q\<close> says that \<open>m\<close> succeeds and that its result
  and state satisfy \<open>Q\<close>.
\<close>

section \<open>Actions that succeed\<close>

definition runs :: "('s, 'a) act \<Rightarrow> 's \<Rightarrow> ('a \<Rightarrow> 's \<Rightarrow> bool) \<Rightarrow> bool" where
  "runs m s Q \<longleftrightarrow> (\<exists>x s'. m s = (Ok x, s') \<and> Q x s')"

named_theorems runs_rules

lemma runs_ret [runs_rules]: "Q x s \<Longrightarrow> runs (retA x) s Q"
  by (simp add: runs_def)

lemma runs_lift [runs_rules]: "r = Ok x \<Longrightarrow> Q x s \<Longrightarrow> runs (liftA r) s Q"
  by (simp add: runs_def)

lemma runs_bind [runs_rules]: "runs m s (\<lambda>x s'. runs (f x) s' Q) \<Longrightarrow> runs (bindA m f) s Q"
  by (auto simp: runs_def bindA_def)

lemma runs_conseq: "runs m s Q \<Longrightarrow> (\<And>x s'. Q x s' \<Longrightarrow> R x s') \<Longrightarrow> runs m s R"
  by (auto simp: runs_def)

lemma runs_seq: "runs m s Q \<Longrightarrow> (\<And>x s'. Q x s' \<Longrightarrow> runs (f x) s' R) \<Longrightarrow> runs (bindA m f) s R"
  by (rule runs_bind) (rule runs_conseq)

lemma runs_eq: "m s = m' s' \<Longrightarrow> runs m' s' Q \<Longrightarrow> runs m s Q"
  by (simp add: runs_def)

lemma runsI: "m s = (Ok x, s') \<Longrightarrow> Q x s' \<Longrightarrow> runs m s Q"
  by (auto simp: runs_def)

lemma bindA_lift_Ok [simp]: "bindA (liftA (Ok x)) f = f x"
  by (rule ext) simp

lemma runs_simps [simp]:
  "runs (retA x) s Q \<longleftrightarrow> Q x s" "runs (Pair (Ok x)) s Q \<longleftrightarrow> Q x s" "runs (liftA (Ok x)) s Q \<longleftrightarrow> Q x s"
  by (simp_all add: runs_def)

text \<open>A loop whose turns keep an invariant and give known results.\<close>

lemma runs_mapA:
  assumes "\<And>i s. i \<in> set is \<Longrightarrow> I s \<Longrightarrow> runs (f i) s (\<lambda>x s'. x = g i \<and> I s')" and "I s"
  shows "runs (mapA f is) s (\<lambda>xs s'. xs = map g is \<and> I s')"
  using assms
proof (induction "is" arbitrary: s)
  case (Cons i "is")
  have IH: "runs (mapA f is) s' (\<lambda>xs s''. xs = map g is \<and> I s'')" if "I s'" for s' using Cons that by simp
  have "runs (f i) s (\<lambda>x s'. x = g i \<and> I s')" using Cons.prems by simp
  then show ?case unfolding mapA.simps by (rule runs_seq) (rule runs_seq [OF IH]; simp)
qed simp

section \<open>The interface\<close>

type_synonym pages = "u32 \<rightharpoonup> bytes"

text \<open>
  A change of the pages \<open>P\<close> to the pages \<open>P'\<close>: what else the client owns stays, and page 1 keeps the
  bytes of the database header.
\<close>

definition header_kept :: "pages \<Rightarrow> pages \<Rightarrow> bool" where
  "header_kept h h' \<longleftrightarrow> (\<forall>b. h 1 = Some b \<longrightarrow> (\<exists>b'. h' 1 = Some b' \<and> take HEADER_LEN b' = take HEADER_LEN b))"

definition replaces :: "pages \<Rightarrow> u32 set \<Rightarrow> pages \<Rightarrow> u32 set \<Rightarrow> bool" where
  "replaces h P h' P' \<longleftrightarrow> P \<subseteq> dom h \<and> dom h' = (dom h - P) \<union> P' \<and> P' \<inter> (dom h - P) = {} \<and> (\<forall>m \<in> dom h - P. h' m = h m) \<and>
    header_kept h h'"

lemma replaces_refl: "P \<subseteq> dom h \<Longrightarrow> replaces h P h P"
  by (auto simp: replaces_def header_kept_def)

lemma replaces_trans: "replaces h P h' P' \<Longrightarrow> replaces h' P' h'' P'' \<Longrightarrow> replaces h P h'' P''"
proof -
  assume a: "replaces h P h' P'" and b: "replaces h' P' h'' P''"
  have d: "dom h' - P' = dom h - P" using a by (auto simp: replaces_def)
  have "header_kept h h''" using a b by (fastforce simp: replaces_def header_kept_def)
  then show ?thesis using a b d by (simp add: replaces_def)
qed

lemma replaces_frame:
  assumes "replaces h P h' P'" and "R \<subseteq> dom h" and "R \<inter> P = {}"
  shows "replaces h (P \<union> R) h' (P' \<union> R)" and "\<And>m. m \<in> R \<Longrightarrow> h' m = h m" and "P' \<inter> R = {}"
  using assms by (auto simp: replaces_def)

lemma replaces_new: "n \<notin> dom h \<Longrightarrow> n \<noteq> 1 \<Longrightarrow> replaces h {} (h(n \<mapsto> b)) {n}"
  by (auto simp: replaces_def header_kept_def)

lemma replaces_gone: "n \<in> dom h \<Longrightarrow> n \<noteq> 1 \<Longrightarrow> replaces h {n} (h(n := None)) {}"
  by (auto simp: replaces_def header_kept_def)

lemma replaces_write: "h n = Some b \<Longrightarrow> n = 1 \<Longrightarrow> take HEADER_LEN b' = take HEADER_LEN b \<Longrightarrow> replaces h {n} (h(n \<mapsto> b')) {n}"
  "n \<in> dom h \<Longrightarrow> n \<noteq> 1 \<Longrightarrow> replaces h {n} (h(n \<mapsto> b')) {n}"
  by (auto simp: replaces_def header_kept_def)

locale page_heap =
  fixes rd :: "u32 \<Rightarrow> ('s, bytes) act" and wr :: "u32 \<Rightarrow> bytes \<Rightarrow> ('s, unit) act"
    and alloc :: "('s, u32) act" and free :: "u32 \<Rightarrow> ('s, unit) act"
    and heap :: "nat \<Rightarrow> pages \<Rightarrow> 's \<Rightarrow> bool" and ps :: nat
  assumes heap_rd: "heap k h s \<Longrightarrow> h n = Some b \<Longrightarrow> runs (rd n) s (\<lambda>x s'. x = b \<and> heap k h s')"
    and heap_wr: "heap k h s \<Longrightarrow> n \<in> dom h \<Longrightarrow> length b = ps \<Longrightarrow> runs (wr n b) s (\<lambda>_ s'. heap k (h(n \<mapsto> b)) s')"
    and heap_alloc: "heap (Suc k) h s \<Longrightarrow>
      runs alloc s (\<lambda>n s'. n \<notin> dom h \<and> 1 < n \<and> heap k (h(n \<mapsto> replicate ps 0)) s')"
    and heap_free: "heap k h s \<Longrightarrow> n \<in> dom h \<Longrightarrow> n \<noteq> 1 \<Longrightarrow> runs (free n) s (\<lambda>_ s'. heap k (h(n := None)) s')"
begin

text \<open>Allocating and freeing several pages.\<close>

lemma alloc_many:
  assumes "heap (k + length ns) h s"
  shows "runs (mapA (\<lambda>_. alloc) ns) s (\<lambda>pgs s'. length pgs = length ns \<and> distinct pgs \<and> 1 \<notin> set pgs \<and>
    (\<exists>h'. heap k h' s' \<and> replaces h {} h' (set pgs)))"
  using assms
proof (induction ns arbitrary: h s)
  case Nil
  then show ?case by (auto simp: runs_def intro!: exI [of _ h] replaces_refl)
next
  case (Cons i ns)
  have "runs alloc s (\<lambda>n s'. n \<notin> dom h \<and> 1 < n \<and> heap (k + length ns) (h(n \<mapsto> replicate ps 0)) s')" using heap_alloc Cons.prems by simp
  moreover have "runs (bindA (mapA (\<lambda>_. alloc) ns) (\<lambda>ys. retA (n # ys))) s' (\<lambda>pgs s'. length pgs = length (i # ns) \<and> distinct pgs \<and> 1 \<notin> set pgs \<and>
      (\<exists>h'. heap k h' s' \<and> replaces h {} h' (set pgs)))"
    if n: "n \<notin> dom h \<and> 1 < n \<and> heap (k + length ns) (h(n \<mapsto> replicate ps 0)) s'" for n s'
  proof (rule runs_seq [OF Cons.IH])
    show "heap (k + length ns) (h(n \<mapsto> replicate ps 0)) s'" using n by simp
    fix pgs s''
    assume "length pgs = length ns \<and> distinct pgs \<and> 1 \<notin> set pgs \<and> (\<exists>h'. heap k h' s'' \<and> replaces (h(n \<mapsto> replicate ps 0)) {} h' (set pgs))"
    then obtain h' where p: "length pgs = length ns" "distinct pgs" "1 \<notin> set pgs" "heap k h' s''" "replaces (h(n \<mapsto> replicate ps 0)) {} h' (set pgs)"
      by blast
    note fr = replaces_frame [OF p(5), of "{n}"]
    have "replaces h {} h' (set (n # pgs))"
      using replaces_trans [OF replaces_new, of n h "replicate ps 0" h' "set (n # pgs)"] fr(1) n by auto
    then show "runs (retA (n # pgs)) s'' (\<lambda>pgs s'. length pgs = length (i # ns) \<and> distinct pgs \<and> 1 \<notin> set pgs \<and>
        (\<exists>h'. heap k h' s' \<and> replaces h {} h' (set pgs)))"
      using p(1-4) fr(3) n by (intro runs_ret) auto
  qed
  ultimately show ?case by (simp add: runs_seq)
qed

lemma free_many:
  assumes "heap k h s" and "set ns \<subseteq> dom h" and "distinct ns" and "1 \<notin> set ns"
  shows "runs (foldA free ns) s (\<lambda>_ s'. \<exists>h'. heap k h' s' \<and> replaces h (set ns) h' {})"
  using assms
proof (induction ns arbitrary: h s)
  case Nil
  then show ?case by (auto simp: runs_def intro!: exI [of _ h] replaces_refl)
next
  case (Cons n ns)
  have "runs (free n) s (\<lambda>_ s'. heap k (h(n := None)) s')" using heap_free Cons.prems by simp
  moreover have "runs (foldA free ns) s' (\<lambda>_ s'. \<exists>h'. heap k h' s' \<and> replaces h (set (n # ns)) h' {})" if "heap k (h(n := None)) s'" for s'
  proof (rule runs_conseq [OF Cons.IH [OF that]])
    show "set ns \<subseteq> dom (h(n := None))" "distinct ns" "1 \<notin> set ns" using Cons.prems by auto
    fix x s''
    assume "\<exists>h'. heap k h' s'' \<and> replaces (h(n := None)) (set ns) h' {}"
    then obtain h' where h': "heap k h' s''" "replaces (h(n := None)) (set ns) h' {}" by blast
    have "replaces h ({n} \<union> set ns) (h(n := None)) ({} \<union> set ns)"
      by (rule replaces_frame(1) [OF replaces_gone]) (use Cons.prems in auto)
    then have "replaces h (set (n # ns)) h' {}" using replaces_trans [OF _ h'(2)] by simp
    then show "\<exists>h'. heap k h' s'' \<and> replaces h (set (n # ns)) h' {}" using h'(1) by blast
  qed
  ultimately show ?case by (simp add: runs_seq)
qed

end

section \<open>Extending the file\<close>

text \<open>Of three page numbers in a row one at least is not reserved.\<close>

lemma free_layout_page:
  assumes "10 \<le> usable" and "n + 3 < 2 ^ 32"
  shows "\<exists>j. 1 \<le> j \<and> j \<le> 3 \<and> \<not> is_reserved_layout_page (of_nat (n + j)) usable p"
proof (rule ccontr)
  assume a: "\<not> (\<exists>j. 1 \<le> j \<and> j \<le> 3 \<and> \<not> is_reserved_layout_page (of_nat (n + j)) usable p)"
  let ?c = "entries_per_page usable + 1"
  have c: "3 \<le> ?c" using assms(1) by (simp add: entries_per_page_def ENTRY_SIZE_def)
  have u: "unat (of_nat (n + j) :: u32) = n + j" if "j \<le> 3" for j
    using that assms(2) unat_of_nat [where 'a = 32, of "n + j"] by (simp del: of_nat_add)
  have r: "is_ptrmap_page usable (n + j) \<or> n + j = lock_page p" if "1 \<le> j" "j \<le> 3" for j
    using a that u by (auto simp: is_reserved_layout_page_def)
  have apart: "\<not> (is_ptrmap_page usable (n + i) \<and> is_ptrmap_page usable (n + j))" if "i < j" "j \<le> i + 2" for i j
  proof
    assume "is_ptrmap_page usable (n + i) \<and> is_ptrmap_page usable (n + j)"
    then obtain k l where kl: "n + i = 2 + k * ?c" "n + j = 2 + l * ?c" unfolding is_ptrmap_page_iff by blast
    then have "k * ?c < l * ?c" using that by linarith
    then have "Suc k \<le> l" using mult_less_cancel2 by (metis Suc_leI)
    then have "Suc k * ?c \<le> l * ?c" by (rule mult_le_mono1)
    then show False using kl that c by simp
  qed
  show False using r [of 1] r [of 2] r [of 3] apart [of 1 2] apart [of 2 3] apart [of 1 3] by auto
qed

text \<open>Extending gives a page above all others and stages nothing below it.\<close>

definition extended :: "write_pager \<Rightarrow> u32 \<Rightarrow> write_pager \<Rightarrow> bool" where
  "extended p n p' \<longleftrightarrow> wp_page_count p' = n \<and> unat (wp_page_count p) < unat n \<and> wp_header p' = wp_header p \<and>
    bm_get (wp_overlay p') n = Some (replicate (wp_page_size p) 0) \<and>
    (\<forall>m. unat m \<le> unat (wp_page_count p) \<longrightarrow> bm_get (wp_overlay p') m = bm_get (wp_overlay p) m)"

lemma count_next: "(c :: u32) \<noteq> - 1 \<Longrightarrow> unat (c + 1) = unat c + 1"
  by (metis add.commute add_left_cancel eq_neg_iff_add_eq_0 unatSuc Suc_eq_plus1)

lemma extend_file_Ok:
  assumes "unat (wp_page_count p) + j < 2 ^ 32" and "1 \<le> j"
    and "\<not> is_reserved_layout_page (wp_page_count p + of_nat j) usable p"
  shows "\<exists>n p'. extend_file av usable p = (Ok n, p') \<and> extended p n p' \<and> unat n \<le> unat (wp_page_count p) + j"
  using assms
proof (induction j arbitrary: p)
  case (Suc j)
  let ?n = "wp_page_count p + 1"
  let ?p = "p\<lparr>wp_page_count := ?n, wp_overlay := bm_insert ?n (replicate (wp_page_size p) 0) (wp_overlay p)\<rparr>"
  have m1: "wp_page_count p \<noteq> - 1" using Suc.prems(1) by (auto simp: unsigned_minus_1_eq_mask mask_eq_exp_minus_1)
  note cn = count_next [OF m1]
  have here: "extended p ?n ?p" using cn by (auto simp: extended_def bm_get_insert_any)
  have e: "extend_file av usable p = (if av \<and> is_reserved_layout_page ?n usable p then extend_file av usable ?p else (Ok ?n, ?p))"
    using m1 by (subst extend_file.simps) (simp add: Let_def)
  show ?case
  proof (cases "av \<and> is_reserved_layout_page ?n usable p")
    case False
    then show ?thesis using e here cn by (intro exI [of _ ?n] exI [of _ ?p]) (simp only: if_False simp_thms; simp)
  next
    case True
    then have "j \<noteq> 0" using Suc.prems(3) by (cases "j = 0") auto
    moreover have "\<not> is_reserved_layout_page (wp_page_count ?p + of_nat j) usable ?p"
      using Suc.prems(3) by (simp add: is_reserved_layout_page_def lock_page_def algebra_simps)
    ultimately obtain n p' where n: "extend_file av usable ?p = (Ok n, p')" "extended ?p n p'" "unat n \<le> unat ?n + j"
      using Suc.IH [of ?p] Suc.prems(1) cn by auto
    have "bm_get (wp_overlay p') m = bm_get (wp_overlay p) m" if "unat m \<le> unat (wp_page_count p)" for m
      using n(2) that cn by (auto simp: extended_def bm_get_insert_any)
    then have "extended p n p'" using n(2) cn by (simp add: extended_def)
    then show ?thesis using e True n cn by (intro exI [of _ n] exI [of _ p']) (simp only: if_True simp_thms; simp)
  qed
qed simp

section \<open>The pager is a page heap\<close>

text \<open>
  A client owns the pages of \<open>h\<close>; \<open>k\<close> more can be allocated before the page numbers run out (a page of an
  auto-vacuum database may take two more numbers with it).
\<close>

definition pager_heap :: "nat \<Rightarrow> nat \<Rightarrow> nat \<Rightarrow> pages \<Rightarrow> pst \<Rightarrow> bool" where
  "pager_heap usable ps k h s \<longleftrightarrow> in_txn s \<and> cache_ok s \<and>
    ps = wp_page_size (snd s) \<and> usable = ps - unat (reserved_space (wp_header (snd s))) \<and>
    0 < wp_page_count (snd s) \<and> unat (wp_page_count (snd s)) + 3 * k < 2 ^ 32 - 1 \<and>
    (\<forall>n b. h n = Some b \<longrightarrow> logical_page s n = Ok b \<and> length b = ps \<and> n \<noteq> 0 \<and> n \<le> wp_page_count (snd s)) \<and>
    (\<exists>fl. free_list_is s fl \<and> set (fl_pages fl) \<inter> insert 1 (dom h) = {} \<and> list_all (\<lambda>n. n \<le> wp_page_count (snd s)) (fl_pages fl))"

lemma word_above_one: "(n :: u32) \<noteq> 0 \<Longrightarrow> n \<noteq> 1 \<Longrightarrow> 1 < n"
  by (simp add: word_less_nat_alt word_unat_eq_iff)

lemma pager_heap_less: "pager_heap usable ps k h s \<Longrightarrow> j \<le> k \<Longrightarrow> pager_heap usable ps j h s"
  by (auto simp: pager_heap_def)

lemma pager_heap_sizes:
  assumes "pager_heap usable ps k h s"
  shows "wp_usable s = (Ok usable, s)" and "257 \<le> usable" and "usable \<le> ps" and "512 \<le> ps" and "ps \<le> 65536"
    and "ps = usable + unat (reserved_space (wp_header (snd s)))" and "wp_page_sizes s = (Ok (usable, ps), s)"
proof -
  obtain w p where s: "s = (w, p)" by (cases s)
  have h: "header_wf (wp_header p)" "ps = unat (page_size (wp_header p))" "usable = ps - unat (reserved_space (wp_header p))"
    using assms s by (auto simp: pager_heap_def free_list_is_def)
  note sz = header_wf_page_size [OF h(1)] and us = usable_wf(1) [OF h(1)]
  have "unat (reserved_space (wp_header p)) \<le> 255" using unat_u8_less [of "reserved_space (wp_header p)"] by linarith
  then show le: "257 \<le> usable" "usable \<le> ps" "512 \<le> ps" "ps \<le> 65536" "ps = usable + unat (reserved_space (wp_header (snd s)))"
    using sz h s by auto
  show u: "wp_usable s = (Ok usable, s)" using us h s by (simp add: wp_usable_def)
  show "wp_page_sizes s = (Ok (usable, ps), s)" unfolding wp_page_sizes_def bindA_OkI [of wp_usable, OF u] using le(5) s by simp
qed

lemma runs_sizes:
  assumes "pager_heap usable ps k h s"
  shows "runs (bindA wp_usable f) s Q \<longleftrightarrow> runs (f usable) s Q" and "runs (bindA wp_page_sizes g) s Q \<longleftrightarrow> runs (g (usable, ps)) s Q"
  using pager_heap_sizes(1,7) [OF assms] by (simp_all add: runs_def bindA_def)

lemma pager_heap_room:
  assumes "pager_heap usable ps k h (w, p)" and "free_list_is (w, p) fl" and "list_all (\<lambda>n. n \<le> wp_page_count p) (fl_pages fl)"
  shows "length (fl_pages fl) < 2 ^ 32 - 1"
proof -
  have d: "distinct (0 # fl_pages fl)" using assms(2) by (simp add: free_list_is_def)
  have "unat ` set (0 # fl_pages fl) \<subseteq> {0..unat (wp_page_count p)}" using assms(3) by (auto simp: list_all_iff word_le_nat_alt)
  then have "card (unat ` set (0 # fl_pages fl)) \<le> unat (wp_page_count p) + 1" using card_mono [of "{0..unat (wp_page_count p)}"] by fastforce
  moreover have "card (unat ` set (0 # fl_pages fl)) = length (0 # fl_pages fl)"
    unfolding distinct_card [OF d, symmetric] by (rule card_image) (auto intro!: inj_onI simp: word_unat_eq_iff)
  ultimately show ?thesis using assms(1) by (simp add: pager_heap_def)
qed

lemma pager_heap_read:
  assumes "pager_heap usable ps k h s" and "h n = Some b"
  shows "runs (read_page n) s (\<lambda>x s'. x = b \<and> pager_heap usable ps k h s')"
proof -
  obtain w p where s: "s = (w, p)" by (cases s)
  have "logical_page (w, p) n = Ok b" using assms s by (auto simp: pager_heap_def)
  moreover have "cache_ok (w, p)" using assms s by (simp add: pager_heap_def)
  ultimately obtain c where c: "read_page n (w, p) = (Ok b, (w, p\<lparr>wp_read_cache := c\<rparr>))" "cache_ok (w, p\<lparr>wp_read_cache := c\<rparr>)"
    using read_page_logical [of w p n] by auto
  have "free_list_is (w, p\<lparr>wp_read_cache := c\<rparr>) fl = free_list_is (w, p) fl" for fl by (simp add: free_list_is_def)
  then have "pager_heap usable ps k h (w, p\<lparr>wp_read_cache := c\<rparr>)" using assms(1) c(2) s by (simp add: pager_heap_def)
  then show ?thesis using c(1) s by (auto intro: runsI)
qed

lemma pager_heap_write:
  assumes "pager_heap usable ps k h s" and "n \<in> dom h" and "length b = ps"
  shows "runs (write_page n b) s (\<lambda>_ s'. pager_heap usable ps k (h(n \<mapsto> b)) s')"
proof -
  obtain w p where s: "s = (w, p)" by (cases s)
  let ?p = "p\<lparr>wp_overlay := bm_insert n b (wp_overlay p)\<rparr>"
  note hp = assms(1) [unfolded s pager_heap_def]
  obtain fl where fl: "free_list_is (w, p) fl" "set (fl_pages fl) \<inter> insert 1 (dom h) = {}" "list_all (\<lambda>n. n \<le> wp_page_count p) (fl_pages fl)"
    using hp by auto
  have lp: "logical_page (w, ?p) = (logical_page (w, p))(n := Ok b)"
    by (rule logical_page_staged) (simp_all add: txn_core_def)
  have "n \<notin> set (fl_pages fl)" using fl(2) assms(2) by auto
  then have "free_list_is (w, ?p) fl" using fl(1) chain_update lp by (auto simp: free_list_is_def)
  moreover have "cache_ok (w, ?p)" using hp by (simp add: cache_ok_def)
  ultimately have "pager_heap usable ps k (h(n \<mapsto> b)) (w, ?p)"
    using hp fl assms(2,3) lp by (auto simp: pager_heap_def)
  moreover have "write_page n b (w, p) = (Ok (), (w, ?p))" using hp assms(3) by (intro write_page_stages) auto
  ultimately show ?thesis using s by (auto intro: runsI)
qed

text \<open>What both ways of moving a page leave to show.\<close>

lemma pager_heap_framed:
  assumes hp: "pager_heap usable ps k h (w, p)" and fr: "framed P w p p'" and t: "in_txn (w, p')" "cache_ok (w, p')"
    and ps: "wp_page_size p' = wp_page_size p" and fl: "free_list_is (w, p') fl" "set (fl_pages fl) \<inter> insert 1 (dom h') = {}" "set (fl_pages fl) \<subseteq> P \<union> Q"
    and le: "\<And>n. n \<in> P \<union> Q \<Longrightarrow> n \<le> wp_page_count p" and j: "j \<le> k"
    and h': "\<And>n b. h' n = Some b \<Longrightarrow> n \<notin> P \<and> h n = Some b \<or> logical_page (w, p') n = Ok b \<and> length b = ps \<and> n \<noteq> 0 \<and> n \<in> P"
  shows "pager_heap usable ps j h' (w, p')"
proof -
  have pc: "wp_page_count p' = wp_page_count p" and rs: "reserved_space (wp_header p') = reserved_space (wp_header p)"
    and lp: "\<And>n. n \<notin> P \<Longrightarrow> logical_page (w, p') n = logical_page (w, p) n" using fr by (auto simp: framed_def)
  have "logical_page (w, p') n = Ok b \<and> length b = ps \<and> n \<noteq> 0 \<and> n \<le> wp_page_count p'" if "h' n = Some b" for n b
    using h' [OF that] lp [of n] hp le [of n] pc by (auto simp: pager_heap_def)
  moreover have "list_all (\<lambda>n. n \<le> wp_page_count p') (fl_pages fl)" using fl(3) le pc by (auto simp: list_all_iff)
  ultimately show ?thesis using hp t ps fl(1,2) pc rs j by (auto simp: pager_heap_def)
qed

lemma pager_heap_free:
  assumes hp: "pager_heap usable ps k h s" and n: "n \<in> dom h" "n \<noteq> 1"
  shows "runs (free_page n) s (\<lambda>_ s'. pager_heap usable ps k (h(n := None)) s')"
proof -
  obtain w p where s: "s = (w, p)" by (cases s)
  note hp' = hp [unfolded s]
  obtain fl where fl: "free_list_is (w, p) fl" "set (fl_pages fl) \<inter> insert 1 (dom h) = {}" "list_all (\<lambda>n. n \<le> wp_page_count p) (fl_pages fl)"
    using hp' by (auto simp: pager_heap_def)
  have t: "in_txn (w, p)" "cache_ok (w, p)" using hp' by (auto simp: pager_heap_def)
  have n0: "n \<notin> set (0 # fl_pages fl)" "n \<le> wp_page_count p" using hp' n fl(2) by (auto simp: pager_heap_def)
  obtain p' where p': "free_page n (w, p) = (Ok (), (w, p'))" "free_list_is (w, p') (fl_push (max_leaves_of (wp_header p)) n fl)"
    "framed (insert n (set (fl_pages fl))) w p p'"
    using free_page_refines [OF t fl(1) n0(1) pager_heap_room [OF hp' fl(1,3)]] by blast
  have ta: "txn_at (w, p) (w, p')" using keepsA_D [OF keepsA_free_page txn_at_refl [OF t], of n] p'(1) by simp
  then have ps: "wp_page_size p' = wp_page_size p" by (simp add: txn_at_def txn_core_def)
  have st: "set (fl_pages (fl_push (max_leaves_of (wp_header p)) n fl)) = insert n (set (fl_pages fl))"
    using arg_cong [OF fl_pages_push [of "max_leaves_of (wp_header p)" n fl], of set_mset] by simp
  have "pager_heap usable ps k (h(n := None)) (w, p')"
    by (rule pager_heap_framed [OF hp' p'(3) _ _ ps p'(2), where Q = "{}"])
       (use ta st fl(2,3) n0 n(2) in \<open>auto simp: txn_at_def list_all_iff split: if_splits\<close>)
  then show ?thesis using p'(1) s by (auto intro: runsI)
qed

lemma pager_heap_pop:
  assumes hp: "pager_heap usable ps (Suc k) h (w, p)" and fl: "free_list_is (w, p) fl" "set (fl_pages fl) \<inter> insert 1 (dom h) = {}"
      "list_all (\<lambda>n. n \<le> wp_page_count p) (fl_pages fl)"
    and pop: "fl_pop fl = Some (n, fl')"
  shows "runs allocate_page (w, p) (\<lambda>n s'. n \<notin> dom h \<and> 1 < n \<and> pager_heap usable ps k (h(n \<mapsto> replicate ps 0)) s')"
proof -
  have t: "in_txn (w, p)" "cache_ok (w, p)" and psz: "ps = wp_page_size p" using hp by (auto simp: pager_heap_def)
  obtain p' where p': "allocate_page (w, p) = (Ok n, (w, p'))" "free_list_is (w, p') fl'"
    "logical_page (w, p') n = Ok (replicate ps 0)" "framed (set (fl_pages fl)) w p p'"
    using allocate_page_refines [OF t fl(1) pop] psz by blast
  have ta: "txn_at (w, p) (w, p')" using keepsA_D [OF keepsA_allocate txn_at_refl [OF t]] p'(1) by simp
  then have ps: "wp_page_size p' = wp_page_size p" by (simp add: txn_at_def txn_core_def)
  have d: "distinct (0 # fl_pages fl)" using fl(1) by (simp add: free_list_is_def)
  note dp = distinct_pop [OF pop d]
  have st: "set (fl_pages fl) = insert n (set (fl_pages fl'))" using arg_cong [OF fl_pages_pop [OF pop], of set_mset] by simp
  have n: "n \<notin> dom h" "1 < n" using st fl(2) d by (auto intro: word_above_one)
  have "pager_heap usable ps k (h(n \<mapsto> replicate ps 0)) (w, p')"
    by (rule pager_heap_framed [OF hp p'(4) _ _ ps p'(2), where Q = "{}"])
       (use ta st fl(2,3) n dp(3) p'(3) in \<open>auto simp: txn_at_def list_all_iff split: if_splits\<close>)
  then show ?thesis using p'(1) n by (auto intro: runsI)
qed

lemma pager_heap_extend:
  assumes hp: "pager_heap usable ps (Suc k) h (w, p)" and fl: "free_list_is (w, p) []"
  shows "runs allocate_page (w, p) (\<lambda>n s'. n \<notin> dom h \<and> 1 < n \<and> pager_heap usable ps k (h(n \<mapsto> replicate ps 0)) s')"
proof -
  have t: "in_txn (w, p)" "cache_ok (w, p)" and psz: "ps = wp_page_size p"
    and room: "unat (wp_page_count p) + 3 * Suc k < 2 ^ 32 - 1"
    and own: "\<And>n b. h n = Some b \<Longrightarrow> logical_page (w, p) n = Ok b \<and> length b = ps \<and> n \<noteq> 0 \<and> n \<le> wp_page_count p"
    using hp by (auto simp: pager_heap_def)
  note sz = pager_heap_sizes [OF hp]
  have u: "usable_size (wp_header p) = Ok usable" using sz(1) by (simp add: wp_usable_def)
  obtain j where j: "1 \<le> j" "j \<le> 3" "\<not> is_reserved_layout_page (of_nat (unat (wp_page_count p) + j)) usable p"
    using free_layout_page [of usable "unat (wp_page_count p)" p] sz(2) room by auto
  obtain n p' where e: "extend_file (auto_vacuum_on p) usable p = (Ok n, p')" "extended p n p'" "unat n \<le> unat (wp_page_count p) + j"
    using extend_file_Ok [of p j usable "auto_vacuum_on p"] j room by auto
  have core: "txn_core (w, p') = txn_core (w, p)" "wp_read_cache p' = wp_read_cache p"
    using extend_file_core [of w "auto_vacuum_on p" usable p] e(1) by simp_all
  have f0: "unat (freelist_count (wp_header p)) = 0" using fl by (simp add: free_list_is_def fl_pages_def)
  then have "\<not> 0 < freelist_count (wp_header p)" by (simp add: word_less_nat_alt)
  then have a: "allocate_page (w, p) = (Ok n, (w, p'))" using t u e(1) by (simp add: allocate_page_def)
  have cp: "committed_page (w, p') = committed_page (w, p)" by (rule committed_page_core [OF core(1)])
  have lp: "logical_page (w, p') m = logical_page (w, p) m" if "m \<le> wp_page_count p" for m
    using e(2) that cp by (simp add: logical_page_def extended_def word_le_nat_alt split: option.split)
  have new: "logical_page (w, p') n = Ok (replicate ps 0)" using e(2) psz by (simp add: logical_page_def extended_def)
  have gt: "wp_page_count p < n" using e(2) by (simp add: extended_def word_less_nat_alt)
  have n0: "0 < wp_page_count p" using hp by (simp add: pager_heap_def)
  have n: "n \<notin> dom h" "1 < n"
  proof -
    show "n \<notin> dom h" using own gt by force
    show "1 < n" using n0 gt by (simp add: word_less_nat_alt)
  qed
  have ps: "wp_page_size p' = wp_page_size p" using core by (simp add: txn_core_def)
  have ta: "in_txn (w, p')" "cache_ok (w, p')"
    using txn_at_same_core [OF txn_at_refl [OF t] core] by (simp_all add: txn_at_def)
  have h: "wp_header p' = wp_header p" "wp_page_count p' = n" using e(2) by (simp_all add: extended_def)
  have "free_list_is (w, p') []" using fl h ps by (simp add: free_list_is_def)
  moreover have "unat n + 3 * k < 2 ^ 32 - 1" using e(3) j(2) room by simp
  moreover have "logical_page (w, p') m = Ok b \<and> length b = ps \<and> m \<noteq> 0 \<and> m \<le> n" if "(h(n \<mapsto> replicate ps 0)) m = Some b" for m b
    using that own [of m b] new n lp [of m] gt by (auto split: if_splits)
  ultimately have "pager_heap usable ps k (h(n \<mapsto> replicate ps 0)) (w, p')"
    using ta h ps psz hp gt by (auto simp: pager_heap_def fl_pages_def intro!: exI [of _ "[]"])
  then show ?thesis using a n by (auto intro: runsI)
qed

lemma pager_heap_alloc:
  assumes hp: "pager_heap usable ps (Suc k) h s"
  shows "runs allocate_page s (\<lambda>n s'. n \<notin> dom h \<and> 1 < n \<and> pager_heap usable ps k (h(n \<mapsto> replicate ps 0)) s')"
proof -
  obtain w p where s: "s = (w, p)" by (cases s)
  obtain fl where fl: "free_list_is (w, p) fl" "set (fl_pages fl) \<inter> insert 1 (dom h) = {}" "list_all (\<lambda>n. n \<le> wp_page_count p) (fl_pages fl)"
    using hp s by (auto simp: pager_heap_def)
  show ?thesis
  proof (cases "fl_pop fl")
    case None
    then show ?thesis using pager_heap_extend hp fl(1) s by (simp add: fl_pop_None)
  next
    case (Some x)
    then show ?thesis using pager_heap_pop [OF hp [unfolded s] fl] s by (cases x) simp
  qed
qed

interpretation ph: page_heap read_page write_page allocate_page free_page "pager_heap usable ps" ps for usable ps
  by unfold_locales (auto intro: pager_heap_read pager_heap_write pager_heap_alloc pager_heap_free)

end
