(* ===== verification/TableTree.thy ===== *)
theory TableTree
  imports PageImages PagerHeap
begin

text \<open>
  Table b-trees on owned pages. \<open>table_tree\<close> says that a page is the root of a tree of a given depth
  whose leaves hold, from left to right, the cells \<open>xs\<close>, that its pages are the set \<open>P\<close>, and that the keys of the
  interior pages separate the subtrees: every rowid below lies in the half-open interval of its
  place. A list of trees between separators is a \<open>forest\<close>, which is what splitting and
  redistributing work on. The specification of insertion on the cells is \<open>upd_row\<close>; the search of the
  standard library computes it on a sorted leaf.
\<close>

section \<open>Sorted cells\<close>

definition ckey :: "leaf_cell \<Rightarrow> int" where
  "ckey c = sint (fst c)"

definition between :: "int \<Rightarrow> int \<Rightarrow> leaf_cell list \<Rightarrow> bool" where
  "between lo hi xs \<longleftrightarrow> sorted_wrt (<) (map ckey xs) \<and> (\<forall>c \<in> set xs. lo < ckey c \<and> ckey c \<le> hi)"

lemma between_Nil [simp]: "between lo hi []"
  by (simp add: between_def)

lemma between_append: "between lo v xs \<Longrightarrow> between v hi ys \<Longrightarrow> lo \<le> v \<Longrightarrow> v \<le> hi \<Longrightarrow> between lo hi (xs @ ys)"
  by (fastforce simp: between_def sorted_wrt_append)

lemma between_weaken: "between lo hi xs \<Longrightarrow> lo' \<le> lo \<Longrightarrow> hi \<le> hi' \<Longrightarrow> between lo' hi' xs"
  by (force simp: between_def)

text \<open>A cut of a sorted list after its first part.\<close>

lemma between_cut:
  assumes "between lo hi (xs @ ys)" and "xs \<noteq> []"
  shows "between lo (ckey (last xs)) xs" and "between (ckey (last xs)) hi ys" and "lo < ckey (last xs)"
    and "ys \<noteq> [] \<Longrightarrow> ckey (last xs) < hi"
proof -
  have s: "sorted_wrt (<) (map ckey xs)" "sorted_wrt (<) (map ckey ys)" "\<And>x y. x \<in> set xs \<Longrightarrow> y \<in> set ys \<Longrightarrow> ckey x < ckey y"
    and b: "\<And>c. c \<in> set (xs @ ys) \<Longrightarrow> lo < ckey c \<and> ckey c \<le> hi"
    using assms(1) by (auto simp: between_def sorted_wrt_append)
  have l: "last xs \<in> set xs" using assms(2) by simp
  obtain zs z where xs: "xs = zs @ [z]" using assms(2) by (cases xs rule: rev_cases) auto
  have "ckey x \<le> ckey (last xs)" if "x \<in> set xs" for x using that s(1) xs by (auto simp: sorted_wrt_append)
  then show "between lo (ckey (last xs)) xs" using s(1) b by (simp add: between_def)
  show "between (ckey (last xs)) hi ys" using s(2,3) l b by (simp add: between_def)
  show "lo < ckey (last xs)" using b l by simp
  show "ys \<noteq> [] \<Longrightarrow> ckey (last xs) < hi" using s(3) [OF l] b by (cases ys) fastforce+
qed

text \<open>Insertion, on the cells of a table.\<close>

definition upd_row :: "i64 \<Rightarrow> bytes \<Rightarrow> leaf_cell list \<Rightarrow> leaf_cell list" where
  "upd_row r c xs = filter (\<lambda>x. ckey x < sint r) xs @ (r, c) # filter (\<lambda>x. sint r < ckey x) xs"

lemma upd_row_right: "between lo hi xs \<Longrightarrow> hi < sint r \<Longrightarrow> upd_row r c (xs @ ys) = xs @ upd_row r c ys"
proof -
  assume a: "between lo hi xs" "hi < sint r"
  then have "\<And>x. x \<in> set xs \<Longrightarrow> ckey x < sint r" by (force simp: between_def)
  then have "filter (\<lambda>x. ckey x < sint r) xs = xs" "filter (\<lambda>x. sint r < ckey x) xs = []"
    by (auto simp: filter_empty_conv filter_id_conv dest: less_not_sym)
  then show ?thesis by (simp add: upd_row_def)
qed

lemma upd_row_left: "between lo hi ys \<Longrightarrow> sint r \<le> lo \<Longrightarrow> upd_row r c (xs @ ys) = upd_row r c xs @ ys"
proof -
  assume a: "between lo hi ys" "sint r \<le> lo"
  then have "\<And>y. y \<in> set ys \<Longrightarrow> sint r < ckey y" by (force simp: between_def)
  then have "filter (\<lambda>x. ckey x < sint r) ys = []" "filter (\<lambda>x. sint r < ckey x) ys = ys"
    by (auto simp: filter_empty_conv filter_id_conv dest: less_not_sym)
  then show ?thesis by (simp add: upd_row_def)
qed

lemma between_upd: "between lo hi xs \<Longrightarrow> lo < sint r \<Longrightarrow> sint r \<le> hi \<Longrightarrow> between lo hi (upd_row r c xs)"
  by (auto simp: between_def upd_row_def sorted_wrt_append sorted_wrt_filter sorted_wrt_map ckey_def)

lemma upd_row_cells: "set (upd_row r c xs) \<subseteq> insert (r, c) (set xs)" "upd_row r c xs \<noteq> []"
  by (auto simp: upd_row_def)

section \<open>The binary search of slices\<close>

lemma search_loop_inv:
  assumes "1 \<le> n" and "base + n \<le> length xs" and "base = 0 \<or> f (xs ! base) \<noteq> Greater"
    and "\<And>j. base + n \<le> j \<Longrightarrow> j < length xs \<Longrightarrow> f (xs ! j) = Greater"
    and "\<And>i j. i < j \<Longrightarrow> j < length xs \<Longrightarrow> f (xs ! i) = Greater \<Longrightarrow> f (xs ! j) = Greater"
  shows "let b = search_loop f xs base n in b < length xs \<and> (b = 0 \<or> f (xs ! b) \<noteq> Greater) \<and> (\<forall>j. b < j \<and> j < length xs \<longrightarrow> f (xs ! j) = Greater)"
  using assms
proof (induction f xs base n rule: search_loop.induct)
  case (1 f xs base n)
  show ?case
  proof (cases "1 < n")
    case False
    then show ?thesis using "1.prems" by (subst search_loop.simps) auto
  next
    case True
    let ?half = "n div 2" let ?mid = "base + n div 2"
    let ?base = "if f (xs ! ?mid) = Greater then base else ?mid"
    have h: "1 \<le> ?half" "?half < n" using True by auto
    have e: "search_loop f xs base n = search_loop f xs ?base (n - ?half)"
      using True by (subst search_loop.simps) (simp add: Let_def)
    show ?thesis unfolding e
    proof (rule "1.IH" [OF True refl refl])
      show "1 \<le> n - ?half" "?base + (n - ?half) \<le> length xs" using h "1.prems"(2) by auto
      show "?base = 0 \<or> f (xs ! ?base) \<noteq> Greater" using "1.prems"(3) by auto
      show "f (xs ! j) = Greater" if "i < j" "j < length xs" "f (xs ! i) = Greater" for i j using "1.prems"(5) that .
      fix j
      assume j: "?base + (n - ?half) \<le> j" "j < length xs"
      show "f (xs ! j) = Greater"
      proof (cases "f (xs ! ?mid) = Greater")
        case True
        then have "?mid \<le> j" using j(1) by auto
        then show ?thesis using True "1.prems"(5) [of ?mid j] j(2) by (cases "j = ?mid") auto
      next
        case False
        then show ?thesis using j "1.prems"(4) [of j] h by auto
      qed
    qed
  qed
qed

lemma put_cell_Ok:
  assumes "between lo hi xs"
  shows "put_cell xs r c = Ok (upd_row r c xs)"
proof (cases "xs = []")
  case True
  then show ?thesis by (simp add: put_cell_def binary_search_def insert_at_def upd_row_def)
next
  case False
  let ?f = "rowid_cmp r"
  have cmp: "?f x = (if ckey x < sint r then Less else if ckey x = sint r then Equal else Greater)" for x
    by (simp add: rowid_cmp_def cmp_lin_def ckey_def)
  have sorted: "ckey (xs ! i) < ckey (xs ! j)" if "i < j" "j < length xs" for i j
    using assms that by (auto simp: between_def sorted_wrt_iff_nth_less)
  define b where "b = search_loop ?f xs 0 (length xs)"
  have "let b = search_loop ?f xs 0 (length xs) in b < length xs \<and> (b = 0 \<or> ?f (xs ! b) \<noteq> Greater) \<and> (\<forall>j. b < j \<and> j < length xs \<longrightarrow> ?f (xs ! j) = Greater)"
    by (rule search_loop_inv) (use False sorted in \<open>auto simp: cmp Suc_le_eq split: if_splits dest: sorted\<close>)
  then have b: "b < length xs" "b = 0 \<or> ?f (xs ! b) \<noteq> Greater" "\<And>j. b < j \<Longrightarrow> j < length xs \<Longrightarrow> ?f (xs ! j) = Greater"
    by (auto simp: b_def Let_def)
  have gr: "?f x = Greater \<longleftrightarrow> sint r < ckey x" for x by (auto simp: cmp)
  have xs: "xs = take b xs @ xs ! b # drop (Suc b) xs" using b(1) by (rule id_take_nth_drop)
  have below: "ckey x < ckey (xs ! b)" if "x \<in> set (take b xs)" for x
    using that b(1) sorted by (auto simp: in_set_conv_nth)
  have above: "sint r < ckey x" if "x \<in> set (drop (Suc b) xs)" for x
    using that b(3) by (auto simp: in_set_conv_nth gr)
  have f: "filter (\<lambda>x. ckey x < sint r) (drop (Suc b) xs) = []" "filter (\<lambda>x. sint r < ckey x) (drop (Suc b) xs) = drop (Suc b) xs"
    using above by (auto simp: filter_empty_conv filter_id_conv dest: less_not_sym)
  consider "?f (xs ! b) = Equal" | "?f (xs ! b) = Less" | "?f (xs ! b) = Greater" "b = 0" using b(2) by (cases "?f (xs ! b)") auto
  then show ?thesis
  proof cases
    case 1
    then have e: "ckey (xs ! b) = sint r" by (simp add: cmp split: if_splits)
    have "filter (\<lambda>x. ckey x < sint r) (take b xs) = take b xs" "filter (\<lambda>x. sint r < ckey x) (take b xs) = []"
      using below e by (auto simp: filter_empty_conv filter_id_conv dest: less_not_sym)
    then have "upd_row r c xs = take b xs @ (r, c) # drop (Suc b) xs" using f e by (subst xs) (simp add: upd_row_def)
    moreover have "put_cell xs r c = Ok (xs[b := (r, c)])"
      using 1 False b(1) by (simp add: put_cell_def binary_search_def Let_def b_def put_idx_def)
    ultimately show ?thesis using b(1) by (simp add: upd_conv_take_nth_drop)
  next
    case 2
    then have e: "ckey (xs ! b) < sint r" by (simp add: cmp split: if_splits)
    have "filter (\<lambda>x. ckey x < sint r) (take b xs) = take b xs" "filter (\<lambda>x. sint r < ckey x) (take b xs) = []"
      using below e by (fastforce simp: filter_empty_conv filter_id_conv)+
    then have "upd_row r c xs = take b xs @ xs ! b # (r, c) # drop (Suc b) xs" using f e by (subst xs) (simp add: upd_row_def)
    moreover have "put_cell xs r c = Ok (take (Suc b) xs @ (r, c) # drop (Suc b) xs)"
      using 2 False b(1) by (simp add: put_cell_def binary_search_def Let_def b_def insert_at_def)
    ultimately show ?thesis using b(1) by (simp add: take_Suc_conv_app_nth)
  next
    case 3
    then have "upd_row r c xs = (r, c) # xs ! b # drop (Suc b) xs" using f by (subst xs) (simp add: upd_row_def gr)
    moreover have "put_cell xs r c = Ok ((r, c) # xs)"
      using 3 False b(1) by (simp add: put_cell_def binary_search_def Let_def b_def insert_at_def)
    ultimately show ?thesis using xs 3 by simp
  qed
qed

section \<open>Trees\<close>

text \<open>The bytes that cells and their pointers take, and what a page has for them.\<close>

abbreviation cell_sum :: "leaf_cell list \<Rightarrow> nat" where
  "cell_sum cells \<equiv> sum_list (map (\<lambda>(_, c). length c + 2) cells)"

definition key_sum :: "i64 list \<Rightarrow> nat" where
  "key_sum divs = sum_list (map (\<lambda>k. interior_cell_len k + 2) divs)"

definition leaf_page :: "nat \<Rightarrow> pages \<Rightarrow> u32 \<Rightarrow> leaf_cell list \<Rightarrow> bool" where
  "leaf_page usable h n cells \<longleftrightarrow>
    (\<exists>b. h n = Some b \<and> page_image b (root_body n) LeafTable (map snd cells)) \<and> list_all (leaf_cell_ok usable) cells \<and>
    root_body n + 8 + cell_sum cells \<le> usable"

definition node_page :: "nat \<Rightarrow> pages \<Rightarrow> u32 \<Rightarrow> u32 list \<Rightarrow> i64 list \<Rightarrow> bool" where
  "node_page usable h n kids divs \<longleftrightarrow> length kids = length divs + 1 \<and> root_body n + 12 + key_sum divs \<le> usable \<and>
    (\<exists>b. h n = Some b \<and> page_image b (root_body n) InteriorTable (map interior_cell_bytes (zip kids divs)) \<and>
      take 4 (drop (root_body n + 8) b) = to_be32 (last kids))"

type_synonym tree_pred = "int \<Rightarrow> int \<Rightarrow> u32 \<Rightarrow> leaf_cell list \<Rightarrow> u32 set \<Rightarrow> bool"

fun forest :: "tree_pred \<Rightarrow> int \<Rightarrow> int \<Rightarrow> u32 list \<Rightarrow> i64 list \<Rightarrow> leaf_cell list \<Rightarrow> u32 set \<Rightarrow> bool" where
  "forest Q lo hi [k] [] xs P \<longleftrightarrow> Q lo hi k xs P"
| "forest Q lo hi (k # ks) (v # vs) xs P \<longleftrightarrow>
    (\<exists>xs1 xs2 P1 P2. Q lo (sint v) k xs1 P1 \<and> forest Q (sint v) hi ks vs xs2 P2 \<and> lo < sint v \<and> sint v < hi \<and>
      xs = xs1 @ xs2 \<and> P = P1 \<union> P2 \<and> P1 \<inter> P2 = {})"
| "forest Q lo hi ks vs xs P \<longleftrightarrow> False"

primrec table_tree :: "nat \<Rightarrow> pages \<Rightarrow> nat \<Rightarrow> tree_pred" where
  "table_tree usable h 0 = (\<lambda>lo hi n xs P. leaf_page usable h n xs \<and> between lo hi xs \<and> P = {n})"
| "table_tree usable h (Suc d) = (\<lambda>lo hi n xs P.
    \<exists>kids divs P'. node_page usable h n kids divs \<and> forest (table_tree usable h d) lo hi kids divs xs P' \<and> n \<notin> P' \<and> 1 \<notin> P' \<and> P = insert n P')"

lemma forest_ConsI:
  "Q lo (sint v) k xs1 P1 \<Longrightarrow> forest Q (sint v) hi ks vs xs2 P2 \<Longrightarrow> lo < sint v \<Longrightarrow> sint v < hi \<Longrightarrow> P1 \<inter> P2 = {} \<Longrightarrow>
    forest Q lo hi (k # ks) (v # vs) (xs1 @ xs2) (P1 \<union> P2)"
  by auto

lemma forest_length: "forest Q lo hi ks vs xs P \<Longrightarrow> length ks = length vs + 1"
  by (induction Q lo hi ks vs xs P rule: forest.induct) auto

lemma forest_mono:
  "forest Q lo hi ks vs xs P \<Longrightarrow> (\<And>lo hi k xs P'. k \<in> set ks \<Longrightarrow> P' \<subseteq> P \<Longrightarrow> Q lo hi k xs P' \<Longrightarrow> Q' lo hi k xs P') \<Longrightarrow> forest Q' lo hi ks vs xs P"
proof (induction Q lo hi ks vs xs P rule: forest.induct)
  case (2 Q lo hi k ks v vs xs P)
  obtain xs1 xs2 P1 P2 where p: "Q lo (sint v) k xs1 P1" "forest Q (sint v) hi ks vs xs2 P2" "lo < sint v" "sint v < hi"
    "xs = xs1 @ xs2" "P = P1 \<union> P2" "P1 \<inter> P2 = {}" using "2.prems"(1) by auto
  have "forest Q' (sint v) hi ks vs xs2 P2" 
  proof (rule "2.IH" [OF p(2)])
    show "Q' lo hi c xs P'" if "c \<in> set ks" "P' \<subseteq> P2" "Q lo hi c xs P'" for lo hi c xs P'
      using "2.prems"(2) [of c P' lo hi xs] that p(6) by auto
  qed
  moreover have "Q' lo (sint v) k xs1 P1" using "2.prems"(2) [of k P1] p(1,6) by auto
  ultimately show ?case using p by auto
qed auto

lemma table_tree_cong:
  "table_tree usable h d lo hi n xs P \<Longrightarrow> (\<And>m. m \<in> P \<Longrightarrow> h' m = h m) \<Longrightarrow> table_tree usable h' d lo hi n xs P"
proof (induction d arbitrary: lo hi n xs P)
  case 0
  then show ?case by (simp add: leaf_page_def)
next
  case (Suc d)
  obtain kids divs P' where k: "node_page usable h n kids divs" "forest (table_tree usable h d) lo hi kids divs xs P'" "n \<notin> P'" "P = insert n P'" "1 \<notin> P'"
    using Suc.prems(1) by auto
  have "forest (table_tree usable h' d) lo hi kids divs xs P'"
    
  proof (rule forest_mono [OF k(2)])
    fix lo hi c xs R
    assume r: "R \<subseteq> P'" "table_tree usable h d lo hi c xs R"
    from r(2) show "table_tree usable h' d lo hi c xs R" by (rule Suc.IH) (use r(1) Suc.prems(2) k(4) in blast)
  qed
  moreover have "node_page usable h' n kids divs" using k(1) Suc.prems(2) [of n] k(4) by (simp add: node_page_def)
  ultimately show ?case using k by auto
qed

lemma forest_cong:
  assumes "forest (table_tree usable h d) lo hi ks vs xs P" and "\<And>m. m \<in> P \<Longrightarrow> h' m = h m"
  shows "forest (table_tree usable h' d) lo hi ks vs xs P"
proof (rule forest_mono [OF assms(1)])
  fix lo hi c xs R
  assume "R \<subseteq> P" "table_tree usable h d lo hi c xs R"
  then show "table_tree usable h' d lo hi c xs R" using table_tree_cong assms(2) by blast
qed

lemma forest_between:
  "forest Q lo hi ks vs xs P \<Longrightarrow> (\<And>lo hi k xs P. Q lo hi k xs P \<Longrightarrow> between lo hi xs) \<Longrightarrow> between lo hi xs"
proof (induction Q lo hi ks vs xs P rule: forest.induct)
  case (2 Q lo hi k ks v vs xs P)
  then show ?case by (fastforce intro: between_append)
qed auto

lemma table_tree_between: "table_tree usable h d lo hi n xs P \<Longrightarrow> between lo hi xs"
  by (induction d arbitrary: lo hi n xs P) (auto intro: forest_between)

lemma forest_pages:
  "forest Q lo hi ks vs xs P \<Longrightarrow> (\<And>lo hi k xs P. Q lo hi k xs P \<Longrightarrow> k \<in> P \<and> P \<subseteq> U) \<Longrightarrow> set ks \<subseteq> P \<and> P \<subseteq> U \<and> distinct ks"
proof (induction Q lo hi ks vs xs P rule: forest.induct)
  case (2 Q lo hi k ks v vs xs P)
  then show ?case by (fastforce simp: disjoint_iff)
qed auto

lemma table_tree_pages: "table_tree usable h d lo hi n xs P \<Longrightarrow> n \<in> P \<and> P \<subseteq> dom h"
proof (induction d arbitrary: lo hi n xs P)
  case (Suc d)
  then obtain kids divs P' where k: "node_page usable h n kids divs" "forest (table_tree usable h d) lo hi kids divs xs P'" "P = insert n P'" by auto
  have "P' \<subseteq> dom h" using forest_pages [OF k(2), of "dom h"] Suc.IH by auto
  then show ?case using k by (auto simp: node_page_def)
qed (auto simp: leaf_page_def)

lemma forest_divs: "forest Q lo hi ks vs xs P \<Longrightarrow> sorted_wrt (<) (map sint vs) \<and> (\<forall>v \<in> set vs. lo < sint v \<and> sint v < hi)"
proof (induction Q lo hi ks vs xs P rule: forest.induct)
  case (2 Q lo hi k ks v vs xs P)
  then show ?case by (fastforce dest: order_less_trans)
qed auto

lemma forest_owned: "forest (table_tree usable h d) lo hi ks vs xs P \<Longrightarrow> set ks \<subseteq> P \<and> P \<subseteq> dom h \<and> distinct ks"
  by (erule forest_pages) (rule table_tree_pages)

text \<open>A forest splits at any of its separators.\<close>

lemma forest_append:
  assumes "length vs + 1 = length ks"
  shows "forest Q lo hi (ks @ ks') (vs @ v # vs') xs P \<longleftrightarrow>
    (\<exists>xs1 xs2 P1 P2. forest Q lo (sint v) ks vs xs1 P1 \<and> forest Q (sint v) hi ks' vs' xs2 P2 \<and> lo < sint v \<and> sint v < hi \<and>
      xs = xs1 @ xs2 \<and> P = P1 \<union> P2 \<and> P1 \<inter> P2 = {})"
  using assms
proof (induction vs arbitrary: ks lo xs P)
  case Nil
  then obtain k where "ks = [k]" by (cases ks) auto
  then show ?case by simp
next
  case (Cons u vs)
  then obtain k ks1 where ks: "ks = k # ks1" by (cases ks) auto
  have len: "length vs + 1 = length ks1" using Cons.prems ks by simp
  have "forest Q lo hi (ks @ ks') ((u # vs) @ v # vs') xs P \<longleftrightarrow>
    (\<exists>xs1 P1 xs2 P2 xs3 P3. Q lo (sint u) k xs1 P1 \<and> forest Q (sint u) (sint v) ks1 vs xs2 P2 \<and> forest Q (sint v) hi ks' vs' xs3 P3 \<and>
      lo < sint u \<and> sint u < sint v \<and> sint v < hi \<and> xs = xs1 @ xs2 @ xs3 \<and> P = P1 \<union> P2 \<union> P3 \<and>
      P1 \<inter> P2 = {} \<and> P1 \<inter> P3 = {} \<and> P2 \<inter> P3 = {})" (is "?l = ?m")
  proof
    assume ?l
    then obtain xs1 P1 xs2 P2 where a: "Q lo (sint u) k xs1 P1" "forest Q (sint u) hi (ks1 @ ks') (vs @ v # vs') xs2 P2" "lo < sint u" "sint u < hi"
      "xs = xs1 @ xs2" "P = P1 \<union> P2" "P1 \<inter> P2 = {}" by (auto simp: ks)
    from a(2) obtain ys1 ys2 R1 R2 where b: "forest Q (sint u) (sint v) ks1 vs ys1 R1" "forest Q (sint v) hi ks' vs' ys2 R2" "sint u < sint v" "sint v < hi"
      "xs2 = ys1 @ ys2" "P2 = R1 \<union> R2" "R1 \<inter> R2 = {}" using Cons.IH [OF len, of "sint u" xs2 P2] by auto
    show ?m by (rule exI [of _ xs1], rule exI [of _ P1], rule exI [of _ ys1], rule exI [of _ R1], rule exI [of _ ys2], rule exI [of _ R2])
      (use a b in auto)
  next
    assume ?m
    then obtain xs1 P1 xs2 P2 xs3 P3 where a: "Q lo (sint u) k xs1 P1" "forest Q (sint u) (sint v) ks1 vs xs2 P2" "forest Q (sint v) hi ks' vs' xs3 P3"
      "lo < sint u" "sint u < sint v" "sint v < hi" "xs = xs1 @ xs2 @ xs3" "P = P1 \<union> P2 \<union> P3"
      "P1 \<inter> P2 = {}" "P1 \<inter> P3 = {}" "P2 \<inter> P3 = {}" by (elim exE conjE)
    have "forest Q (sint u) hi (ks1 @ ks') (vs @ v # vs') (xs2 @ xs3) (P2 \<union> P3)"
      using Cons.IH [OF len, of "sint u" "xs2 @ xs3" "P2 \<union> P3"] a by blast
    then show ?l unfolding ks using a
      by (simp, intro exI [of _ xs1] exI [of _ "xs2 @ xs3"], intro exI [of _ P1] exI [of _ "P2 \<union> P3"]) auto
  qed
  also have "?m \<longleftrightarrow> (\<exists>xs1 xs2 P1 P2. forest Q lo (sint v) ks (u # vs) xs1 P1 \<and> forest Q (sint v) hi ks' vs' xs2 P2 \<and> lo < sint v \<and> sint v < hi \<and>
      xs = xs1 @ xs2 \<and> P = P1 \<union> P2 \<and> P1 \<inter> P2 = {})" (is "_ = ?r")
  proof
    assume ?m
    then obtain xs1 P1 xs2 P2 xs3 P3 where a: "Q lo (sint u) k xs1 P1" "forest Q (sint u) (sint v) ks1 vs xs2 P2" "forest Q (sint v) hi ks' vs' xs3 P3"
      "lo < sint u" "sint u < sint v" "sint v < hi" "xs = xs1 @ xs2 @ xs3" "P = P1 \<union> P2 \<union> P3"
      "P1 \<inter> P2 = {}" "P1 \<inter> P3 = {}" "P2 \<inter> P3 = {}" by (elim exE conjE)
    then have "forest Q lo (sint v) ks (u # vs) (xs1 @ xs2) (P1 \<union> P2)" unfolding ks by auto
    then show ?r using a by (intro exI [of _ "xs1 @ xs2"] exI [of _ xs3] exI [of _ "P1 \<union> P2"] exI [of _ P3]) auto
  next
    assume ?r
    then obtain xs1 xs2 P1 P2 where a: "forest Q lo (sint v) ks (u # vs) xs1 P1" "forest Q (sint v) hi ks' vs' xs2 P2" "lo < sint v" "sint v < hi"
      "xs = xs1 @ xs2" "P = P1 \<union> P2" "P1 \<inter> P2 = {}" by (elim exE conjE)
    from a(1) obtain ys1 ys2 R1 R2 where b: "Q lo (sint u) k ys1 R1" "forest Q (sint u) (sint v) ks1 vs ys2 R2" "lo < sint u" "sint u < sint v"
      "xs1 = ys1 @ ys2" "P1 = R1 \<union> R2" "R1 \<inter> R2 = {}" unfolding ks by auto
    show ?m by (rule exI [of _ ys1], rule exI [of _ R1], rule exI [of _ ys2], rule exI [of _ R2], rule exI [of _ xs2], rule exI [of _ P2])
      (use a b in auto)
  qed
  finally show ?case .
qed

text \<open>A window of a forest, and what is around it.\<close>

lemma forest_drop:
  assumes f: "forest (table_tree usable h d) lo hi kids divs xs P" and w: "w < length kids"
    and lo': "lo' = (if w = 0 then lo else sint (divs ! (w - 1)))"
  obtains xsA xsB PA PB where "forest (table_tree usable h d) lo' hi (drop w kids) (drop w divs) xsB PB"
    and "xs = xsA @ xsB" and "P = PA \<union> PB" and "PA \<inter> PB = {}" and "between lo lo' xsA" and "lo \<le> lo'"
    and "\<And>h' ks' vs' xs' P'. forest (table_tree usable h' d) lo' hi ks' vs' xs' P' \<Longrightarrow> PA \<inter> P' = {} \<Longrightarrow> (\<And>m. m \<in> PA \<Longrightarrow> h' m = h m) \<Longrightarrow>
      forest (table_tree usable h' d) lo hi (take w kids @ ks') (take w divs @ vs') (xsA @ xs') (PA \<union> P')"
proof (cases w)
  case 0
  show thesis by (rule that [of xs P "[]" "{}"]) (use f 0 lo' in simp_all)
next
  case (Suc v)
  have len: "length kids = length divs + 1" using f by (rule forest_length)
  have lo2: "lo' = sint (divs ! v)" using lo' Suc by simp
  have dv: "divs = take v divs @ divs ! v # drop w divs" using Suc w len by (simp add: id_take_nth_drop)
  have lv: "length (take v divs) + 1 = length (take w kids)" using Suc w len by simp
  have tw: "take w divs = take v divs @ [divs ! v]" using Suc w len by (simp add: take_Suc_conv_app_nth)
  have "forest (table_tree usable h d) lo hi (take w kids @ drop w kids) (take v divs @ divs ! v # drop w divs) xs P" using f dv by simp
  then obtain xsA xsB PA PB where p: "forest (table_tree usable h d) lo (sint (divs ! v)) (take w kids) (take v divs) xsA PA"
    "forest (table_tree usable h d) (sint (divs ! v)) hi (drop w kids) (drop w divs) xsB PB" "lo < sint (divs ! v)" "sint (divs ! v) < hi"
    "xs = xsA @ xsB" "P = PA \<union> PB" "PA \<inter> PB = {}" unfolding forest_append [OF lv] by blast
  show thesis
  proof (rule that [of xsB PB xsA PA])
    show "between lo lo' xsA" unfolding lo2 by (rule forest_between [OF p(1)]) (rule table_tree_between)
    show "forest (table_tree usable h' d) lo hi (take w kids @ ks') (take w divs @ vs') (xsA @ xs') (PA \<union> P')"
      if "forest (table_tree usable h' d) lo' hi ks' vs' xs' P'" "PA \<inter> P' = {}" "\<And>m. m \<in> PA \<Longrightarrow> h' m = h m" for h' ks' vs' xs' P'
    proof -
      have "forest (table_tree usable h' d) lo (sint (divs ! v)) (take w kids) (take v divs) xsA PA" by (rule forest_cong [OF p(1)]) (rule that(3))
      then have "forest (table_tree usable h' d) lo hi (take w kids @ ks') (take v divs @ divs ! v # vs') (xsA @ xs') (PA \<union> P')"
        unfolding forest_append [OF lv] using that(1,2) p(3,4) lo2 by blast
      then show ?thesis by (simp add: tw)
    qed
  qed (use p lo2 in simp_all)
qed

lemma forest_take:
  assumes f: "forest (table_tree usable h d) lo hi kids divs xs P" and m: "0 < m" "m \<le> length kids"
    and hi': "hi' = (if m = length kids then hi else sint (divs ! (m - 1)))"
  obtains xsB xsC PB PC where "forest (table_tree usable h d) lo hi' (take m kids) (take (m - 1) divs) xsB PB"
    and "xs = xsB @ xsC" and "P = PB \<union> PC" and "PB \<inter> PC = {}" and "between hi' hi xsC" and "hi' \<le> hi"
    and "\<And>h' ks' vs' xs' P'. forest (table_tree usable h' d) lo hi' ks' vs' xs' P' \<Longrightarrow> PC \<inter> P' = {} \<Longrightarrow> (\<And>m. m \<in> PC \<Longrightarrow> h' m = h m) \<Longrightarrow>
      forest (table_tree usable h' d) lo hi (ks' @ drop m kids) (vs' @ drop (m - 1) divs) (xs' @ xsC) (PC \<union> P')"
proof (cases "m = length kids")
  case True
  have len: "length kids = length divs + 1" using f by (rule forest_length)
  show thesis by (rule that [of xs P "[]" "{}"]) (use f True hi' len in simp_all)
next
  case False
  define v where "v = m - 1"
  have len: "length kids = length divs + 1" using f by (rule forest_length)
  have hi2: "hi' = sint (divs ! v)" using hi' False by (simp add: v_def)
  have vl: "v < length divs" "m = Suc v" using m False len by (auto simp: v_def)
  have dv: "divs = take v divs @ divs ! v # drop m divs" "drop v divs = divs ! v # drop m divs"
    using vl by (simp_all add: id_take_nth_drop Cons_nth_drop_Suc)
  have lv: "length (take v divs) + 1 = length (take m kids)" using vl len by simp
  have "forest (table_tree usable h d) lo hi (take m kids @ drop m kids) (take v divs @ divs ! v # drop m divs) xs P" using f dv by simp
  then obtain xsB xsC PB PC where p: "forest (table_tree usable h d) lo (sint (divs ! v)) (take m kids) (take v divs) xsB PB"
    "forest (table_tree usable h d) (sint (divs ! v)) hi (drop m kids) (drop m divs) xsC PC" "lo < sint (divs ! v)" "sint (divs ! v) < hi"
    "xs = xsB @ xsC" "P = PB \<union> PC" "PB \<inter> PC = {}" unfolding forest_append [OF lv] by blast
  show thesis
  proof (rule that [of xsB PB xsC PC])
    show "between hi' hi xsC" unfolding hi2 by (rule forest_between [OF p(2)]) (rule table_tree_between)
    show "forest (table_tree usable h' d) lo hi (ks' @ drop m kids) (vs' @ drop (m - 1) divs) (xs' @ xsC) (PC \<union> P')"
      if a: "forest (table_tree usable h' d) lo hi' ks' vs' xs' P'" "PC \<inter> P' = {}" "\<And>m. m \<in> PC \<Longrightarrow> h' m = h m" for h' ks' vs' xs' P'
    proof -
      have l2: "length vs' + 1 = length ks'" using forest_length [OF a(1)] by simp
      have "forest (table_tree usable h' d) (sint (divs ! v)) hi (drop m kids) (drop m divs) xsC PC" by (rule forest_cong [OF p(2)]) (rule a(3))
      then have "forest (table_tree usable h' d) lo hi (ks' @ drop m kids) (vs' @ divs ! v # drop m divs) (xs' @ xsC) (P' \<union> PC)"
        unfolding forest_append [OF l2] using a(1,2) p(3,4) hi2 by blast
      moreover have "drop (m - 1) divs = divs ! v # drop m divs" using dv(2) by (simp add: v_def)
      ultimately show ?thesis by (simp only: Un_commute [of PC])
    qed
  qed (use p hi2 v_def in simp_all)
qed

definition window_lo :: "int \<Rightarrow> i64 list \<Rightarrow> nat \<Rightarrow> int" where
  "window_lo lo divs w = (if w = 0 then lo else sint (divs ! (w - 1)))"

definition window_hi :: "int \<Rightarrow> i64 list \<Rightarrow> nat \<Rightarrow> int" where
  "window_hi hi divs e = (if e = length divs + 1 then hi else sint (divs ! (e - 1)))"

lemma forest_window:
  assumes f: "forest (table_tree usable h d) lo hi kids divs xs P" and m: "0 < m" "w + m \<le> length kids"
  obtains xsA xsW xsC R PW where
    "forest (table_tree usable h d) (window_lo lo divs w) (window_hi hi divs (w + m)) (take m (drop w kids)) (take (m - 1) (drop w divs)) xsW PW"
    and "xs = xsA @ xsW @ xsC" and "P = R \<union> PW" and "R \<inter> PW = {}" and "between lo (window_lo lo divs w) xsA" and "between (window_hi hi divs (w + m)) hi xsC"
    and "\<And>h' ks' vs' xs' P'. forest (table_tree usable h' d) (window_lo lo divs w) (window_hi hi divs (w + m)) ks' vs' xs' P' \<Longrightarrow> R \<inter> P' = {} \<Longrightarrow>
      (\<And>m. m \<in> R \<Longrightarrow> h' m = h m) \<Longrightarrow>
      forest (table_tree usable h' d) lo hi (take w kids @ ks' @ drop (w + m) kids) (take w divs @ vs' @ drop (w + m - 1) divs) (xsA @ xs' @ xsC) (R \<union> P')"
proof -
  have w: "w < length kids" using m by simp
  have len: "length kids = length divs + 1" using f by (rule forest_length)
  obtain xsA xsB PA PB where a: "forest (table_tree usable h d) (window_lo lo divs w) hi (drop w kids) (drop w divs) xsB PB"
    "xs = xsA @ xsB" "P = PA \<union> PB" "PA \<inter> PB = {}" "between lo (window_lo lo divs w) xsA"
    and ja: "\<And>h' ks' vs' xs' P'. forest (table_tree usable h' d) (window_lo lo divs w) hi ks' vs' xs' P' \<Longrightarrow> PA \<inter> P' = {} \<Longrightarrow> (\<And>m. m \<in> PA \<Longrightarrow> h' m = h m) \<Longrightarrow>
      forest (table_tree usable h' d) lo hi (take w kids @ ks') (take w divs @ vs') (xsA @ xs') (PA \<union> P')"
    using forest_drop [OF f w window_lo_def] by metis
  have hi: "window_hi hi divs (w + m) = (if m = length (drop w kids) then hi else sint (drop w divs ! (m - 1)))"
    using m len by (auto simp: window_hi_def)
  have m2: "m \<le> length (drop w kids)" using m by simp
  obtain xsW xsC PW PC where c: "forest (table_tree usable h d) (window_lo lo divs w) (window_hi hi divs (w + m)) (take m (drop w kids)) (take (m - 1) (drop w divs)) xsW PW"
    "xsB = xsW @ xsC" "PB = PW \<union> PC" "PW \<inter> PC = {}" "between (window_hi hi divs (w + m)) hi xsC"
    and jc: "\<And>h' ks' vs' xs' P'. forest (table_tree usable h' d) (window_lo lo divs w) (window_hi hi divs (w + m)) ks' vs' xs' P' \<Longrightarrow> PC \<inter> P' = {} \<Longrightarrow> (\<And>m. m \<in> PC \<Longrightarrow> h' m = h m) \<Longrightarrow>
      forest (table_tree usable h' d) (window_lo lo divs w) hi (ks' @ drop m (drop w kids)) (vs' @ drop (m - 1) (drop w divs)) (xs' @ xsC) (PC \<union> P')"
    using forest_take [OF a(1) m(1) m2 hi] by metis
  have dd: "drop m (drop w kids) = drop (w + m) kids" "drop (m - 1) (drop w divs) = drop (w + m - 1) divs" using m(1) by (simp_all add: add.commute)
  show thesis
  proof (rule that [OF c(1), of xsA xsC "PA \<union> PC"])
    show "forest (table_tree usable h' d) lo hi (take w kids @ ks' @ drop (w + m) kids) (take w divs @ vs' @ drop (w + m - 1) divs) (xsA @ xs' @ xsC) (PA \<union> PC \<union> P')"
      if r: "forest (table_tree usable h' d) (window_lo lo divs w) (window_hi hi divs (w + m)) ks' vs' xs' P'" "(PA \<union> PC) \<inter> P' = {}" "\<And>m. m \<in> PA \<union> PC \<Longrightarrow> h' m = h m"
      for h' ks' vs' xs' P'
    proof -
      have "forest (table_tree usable h' d) (window_lo lo divs w) hi (ks' @ drop (w + m) kids) (vs' @ drop (w + m - 1) divs) (xs' @ xsC) (PC \<union> P')"
        using jc [OF r(1)] r(2,3) dd by auto
      from ja [OF this] show ?thesis using r(2,3) a(4) c(3) by (auto simp: Un_assoc)
    qed
  qed (use a c in auto)
qed

section \<open>The child of a key\<close>

definition slot_of :: "i64 \<Rightarrow> i64 list \<Rightarrow> nat \<Rightarrow> bool" where
  "slot_of r divs p \<longleftrightarrow> p \<le> length divs \<and> (\<forall>i < p. sint (divs ! i) < sint r) \<and> (p < length divs \<longrightarrow> sint r \<le> sint (divs ! p))"

lemma child_slot_of: "slot_of r divs (child_slot r divs)"
proof -
  have "\<forall>i < child_slot r divs. sint (divs ! i) < sint r"
    unfolding child_slot_def using nth_length_takeWhile by (metis (mono_tags, lifting) not_le nth_mem set_takeWhileD takeWhile_nth)
  moreover have "child_slot r divs < length divs \<longrightarrow> sint r \<le> sint (divs ! child_slot r divs)"
    unfolding child_slot_def using nth_length_takeWhile [of "\<lambda>d. \<not> sint r \<le> sint d" divs] by auto
  ultimately show ?thesis by (simp add: slot_of_def child_slot_def length_takeWhile_le)
qed

lemma slot_bounds:
  "slot_of r divs p \<Longrightarrow> lo < sint r \<Longrightarrow> window_lo lo divs p < sint r"
  "slot_of r divs p \<Longrightarrow> sint r \<le> hi \<Longrightarrow> sint r \<le> window_hi hi divs (p + 1)"
  by (auto simp: slot_of_def window_lo_def window_hi_def)

lemma slot_window_bounds:
  assumes "slot_of r divs p" and "sorted_wrt (<) (map sint divs)" and "w \<le> p" and "p < e" and "e \<le> length divs + 1" and "lo < sint r" and "sint r \<le> hi"
  shows "window_lo lo divs w < sint r" and "sint r \<le> window_hi hi divs e"
proof -
  show "window_lo lo divs w < sint r" using assms(1,3,6) by (auto simp: window_lo_def slot_of_def)
  show "sint r \<le> window_hi hi divs e"
  proof (cases "e = length divs + 1")
    case False
    then have p: "p < length divs" "e - 1 < length divs" using assms(4,5) by auto
    then have "sint r \<le> sint (divs ! p)" using assms(1) by (simp add: slot_of_def)
    also have "\<dots> \<le> sint (divs ! (e - 1))"
    proof (cases "p = e - 1")
      case False
      then have "p < e - 1" using assms(4) by simp
      then show ?thesis using assms(2) p sorted_wrt_nth_less [of "(<)" "map sint divs" p "e - 1"] by simp
    qed simp
    finally show ?thesis using False by (simp add: window_hi_def)
  qed (use assms(7) in \<open>simp add: window_hi_def\<close>)
qed

lemma slot_window:
  "slot_of r divs p \<Longrightarrow> w \<le> p \<Longrightarrow> p < w + m \<Longrightarrow> w + m \<le> length divs + 1 \<Longrightarrow> slot_of r (take (m - 1) (drop w divs)) (p - w)"
  by (auto simp: slot_of_def)

lemma forest_child:
  "forest Q lo hi ks vs xs P \<Longrightarrow> p < length ks \<Longrightarrow> \<exists>lo hi xs P. Q lo hi (ks ! p) xs P"
proof (induction Q lo hi ks vs xs P arbitrary: p rule: forest.induct)
  case (2 Q lo hi k ks v vs xs P)
  then show ?case by (cases p) auto
qed auto

text \<open>The leaves of a forest of depth 0, and an update in one of them.\<close>

lemma forest_leaves:
  assumes "forest (table_tree usable h 0) lo hi ns vs xs P"
  shows "P = set ns \<and> distinct ns \<and> (\<exists>gs. list_all2 (leaf_page usable h) ns gs \<and> concat gs = xs \<and>
    (\<forall>r p c. slot_of r vs p \<longrightarrow> concat (gs[p := upd_row r c (gs ! p)]) = upd_row r c xs))"
  using assms
proof (induction "table_tree usable h 0" lo hi ns vs xs P rule: forest.induct)
  case (1 lo hi k xs P)
  then show ?case by (auto simp: slot_of_def intro!: exI [of _ "[xs]"])
next
  case (2 lo hi k ks v vs xs P)
  obtain xs1 xs2 P1 P2 where p: "table_tree usable h 0 lo (sint v) k xs1 P1" "forest (table_tree usable h 0) (sint v) hi ks vs xs2 P2"
    "xs = xs1 @ xs2" "P = P1 \<union> P2" "P1 \<inter> P2 = {}" using "2.prems" unfolding forest.simps by blast
  obtain gs where gs: "P2 = set ks" "distinct ks" "list_all2 (leaf_page usable h) ks gs" "concat gs = xs2"
    "\<And>r p c. slot_of r vs p \<Longrightarrow> concat (gs[p := upd_row r c (gs ! p)]) = upd_row r c xs2" using "2.hyps" [OF p(2)] by blast
  have b: "between lo (sint v) xs1" "between (sint v) hi xs2"
    using table_tree_between [OF p(1)] forest_between [OF p(2) table_tree_between] .
  have up: "concat ((xs1 # gs)[p := upd_row r c ((xs1 # gs) ! p)]) = upd_row r c xs" if s: "slot_of r (v # vs) p" for r p c
  proof (cases p)
    case 0
    then have "sint r \<le> sint v" using s by (simp add: slot_of_def)
    then show ?thesis using upd_row_left [OF b(2)] 0 gs(4) p(3) by simp
  next
    case (Suc q)
    then have "sint v < sint r" "slot_of r vs q" using s by (force simp: slot_of_def)+
    then show ?thesis using upd_row_right [OF b(1)] Suc gs(5) p(3) by simp
  qed
  have "list_all2 (leaf_page usable h) (k # ks) (xs1 # gs)" "P1 = {k}" using p(1) gs(3) by simp_all
  then show ?case using gs p(3,4,5) up by (intro conjI exI [of _ "xs1 # gs"]) auto
qed auto

end
