(* ===== verification/TableInsert.thy ===== *)
theory TableInsert
  imports TableTree
begin

text \<open>
  Insertion into a table b-tree (\<open>insert_table\<close> of \<open>src/btree/writer.rs\<close>) implements the update of
  its sorted list of cells. Each step of the code is shown to turn the pages it owns into pages that
  represent the new cells: rewriting a leaf, redistributing a leaf with its siblings, adopting the
  split of a child, rewriting or splitting an interior page, deepening the root.
\<close>

section \<open>Loading and storing pages\<close>

lemma body_offset_root [simp]: "body_offset (page_from_bytes n b) = root_body n"
  by (simp add: body_offset_def page_from_bytes_def root_body_def)

lemma prefix_Ok:
  assumes "root_body n \<le> length (bt_data bt)"
  shows "\<exists>pre. page_one_prefix n bt = Ok pre \<and> prefix_bytes pre = take (root_body n) (bt_data bt) \<and> length (prefix_bytes pre) = root_body n"
  using assms by (auto simp: page_one_prefix_def root_body_def prefix_bytes_def slice_def)

definition loaded :: "pages \<Rightarrow> u32 \<Rightarrow> btree_page \<Rightarrow> bool" where
  "loaded h n bt \<longleftrightarrow> body_offset (bt_page bt) = root_body n \<and> h n = Some (bt_data bt) \<and>
    (\<exists>pre. page_one_prefix n bt = Ok pre \<and> prefix_bytes pre = take (root_body n) (bt_data bt) \<and> length (prefix_bytes pre) = root_body n)"

lemma load_image:
  assumes hp: "pager_heap usable ps k h s" and b: "h n = Some b" and img: "page_image b (root_body n) t cells"
  shows "runs (load_bt n) s (\<lambda>bt s'. pager_heap usable ps k h s' \<and> loaded h n bt \<and> bt_type bt = t \<and> num_cells bt = length cells \<and>
    page_image (bt_data bt) (bt_body bt) (bt_type bt) cells \<and> bt_data bt = b \<and>
    (\<not> is_leaf t \<longrightarrow> right_pointer bt = from_be32 (take 4 (drop (root_body n + 8) b))))"
proof -
  obtain rp where rp: "btree_page_parse (page_from_bytes n b) = Ok \<lparr>bt_page = page_from_bytes n b, bt_type = t, bt_body = root_body n,
      num_cells = length cells, right_pointer = rp\<rparr>" "\<not> is_leaf t \<longrightarrow> rp = from_be32 (take 4 (drop (root_body n + 8) b))"
    using page_image_parse [OF img body_offset_root] by blast
  let ?bt = "\<lparr>bt_page = page_from_bytes n b, bt_type = t, bt_body = root_body n, num_cells = length cells, right_pointer = rp\<rparr>"
  have d: "bt_data ?bt = b" by (simp add: page_from_bytes_def)
  have "root_body n \<le> length (bt_data ?bt)" unfolding d using img by (simp add: page_image_def)
  from prefix_Ok [OF this] have "loaded h n ?bt" unfolding loaded_def using b d by simp
  then have "runs (liftA (btree_page_parse (page_from_bytes n x))) s' (\<lambda>bt s'. pager_heap usable ps k h s' \<and> loaded h n bt \<and> bt_type bt = t \<and>
      num_cells bt = length cells \<and> page_image (bt_data bt) (bt_body bt) (bt_type bt) cells \<and> bt_data bt = b \<and>
      (\<not> is_leaf t \<longrightarrow> right_pointer bt = from_be32 (take 4 (drop (root_body n + 8) b))))"
    if "x = b \<and> pager_heap usable ps k h s'" for x s'
    using that rp img d by (intro runs_lift [where x = ?bt]) auto
  then show ?thesis unfolding load_bt_def by (rule runs_seq [OF ph.heap_rd [OF hp b]])
qed

lemma load_leaf:
  assumes hp: "pager_heap usable ps k h s" and l: "leaf_page usable h n cells"
  shows "runs (load_bt n) s (\<lambda>bt s'. pager_heap usable ps k h s' \<and> loaded h n bt \<and> bt_type bt = LeafTable \<and> read_leaf_cells bt usable = Ok cells)"
proof -
  obtain b where b: "h n = Some b" "page_image b (root_body n) LeafTable (map snd cells)" "list_all (leaf_cell_ok usable) cells"
    using l by (auto simp: leaf_page_def)
  show ?thesis by (rule runs_conseq [OF load_image [OF hp b(1,2)]]) (use b(3) read_leaf_cells_Ok in auto)
qed

lemma zip_last:
  assumes "length kids = length divs + 1"
  shows "map fst (zip kids divs) @ [last kids] = kids" and "map snd (zip kids divs) = divs"
proof -
  have "kids \<noteq> []" using assms by auto
  moreover have "map fst (zip kids divs) = butlast kids" using assms by (simp add: map_fst_zip_take butlast_conv_take)
  ultimately show "map fst (zip kids divs) @ [last kids] = kids" by simp
  show "map snd (zip kids divs) = divs" using assms by (simp add: map_snd_zip_take)
qed

lemma load_node:
  assumes hp: "pager_heap usable ps k h s" and l: "node_page usable h n kids divs"
  shows "runs (load_bt n) s (\<lambda>bt s'. pager_heap usable ps k h s' \<and> loaded h n bt \<and> bt_type bt = InteriorTable \<and> read_node bt = Ok (kids, divs) \<and>
    right_pointer bt = last kids \<and>
    mapR (\<lambda>i. bindR (child_pointer bt i) (\<lambda>c. bindR (table_interior_key bt i) (\<lambda>k. Ok (c, k)))) [0..<num_cells bt] = Ok (zip kids divs))"
proof -
  obtain b where b: "h n = Some b" "page_image b (root_body n) InteriorTable (map interior_cell_bytes (zip kids divs))"
    "take 4 (drop (root_body n + 8) b) = to_be32 (last kids)" "length kids = length divs + 1"
    using l by (auto simp: node_page_def)
  have z: "map fst (zip kids divs) @ [last kids] = kids" "map snd (zip kids divs) = divs"
    using zip_last [OF b(4)] by simp_all
  show ?thesis
  proof (rule runs_conseq [OF load_image [OF hp b(1,2)]])
    fix bt s'
    assume a: "pager_heap usable ps k h s' \<and> loaded h n bt \<and> bt_type bt = InteriorTable \<and> num_cells bt = length (map interior_cell_bytes (zip kids divs)) \<and>
      page_image (bt_data bt) (bt_body bt) (bt_type bt) (map interior_cell_bytes (zip kids divs)) \<and> bt_data bt = b \<and>
      (\<not> is_leaf InteriorTable \<longrightarrow> right_pointer bt = from_be32 (take 4 (drop (root_body n + 8) b)))"
    then have rp: "right_pointer bt = last kids" using b(3) by simp
    have img: "page_image (bt_data bt) (bt_body bt) (bt_type bt) (map interior_cell_bytes (zip kids divs))" using a by blast
    have "bt_type bt = InteriorTable" "num_cells bt = length (zip kids divs)" using a by simp_all
    from read_node_Ok [OF img this] show "pager_heap usable ps k h s' \<and> loaded h n bt \<and> bt_type bt = InteriorTable \<and> read_node bt = Ok (kids, divs) \<and>
      right_pointer bt = last kids \<and>
      mapR (\<lambda>i. bindR (child_pointer bt i) (\<lambda>c. bindR (table_interior_key bt i) (\<lambda>k. Ok (c, k)))) [0..<num_cells bt] = Ok (zip kids divs)"
      using a rp z by simp
  qed
qed

lemma root_body_other [simp]: "n \<noteq> 1 \<Longrightarrow> root_body n = 0"
  by (simp add: root_body_def)

lemma image_replaces:
  assumes "h n = Some b" and "prefix_bytes pre = take (root_body n) b" and "take (root_body n) buf = prefix_bytes pre"
  shows "replaces h {n} (h(n \<mapsto> buf)) {n}"
proof (cases "n = 1")
  case True
  then show ?thesis using assms by (intro replaces_write(1)) (auto simp: root_body_def)
next
  case False
  then show ?thesis using assms(1) by (intro replaces_write(2)) auto
qed

abbreviation need_of :: "('k \<Rightarrow> nat) \<Rightarrow> (u32 \<times> 'k) list \<Rightarrow> nat" where
  "need_of len cells \<equiv> sum_list (map (\<lambda>(_, k). len k + 2) cells)"

abbreviation need_sum :: "interior_cell list \<Rightarrow> nat" where
  "need_sum \<equiv> need_of interior_cell_len"

lemma need_sum_keys: "need_sum cells = key_sum (map snd cells)"
  by (induction cells) (auto simp: key_sum_def)

lemma store_leaf:
  assumes hp: "pager_heap usable ps k h s" and n: "h n = Some b" and pre: "prefix_bytes pre = take (root_body n) b" "length (prefix_bytes pre) = root_body n"
    and ok: "list_all (leaf_cell_ok usable) cells" and fits: "root_body n + 8 + sum_list (map (\<lambda>(_, c). length c + 2) cells) \<le> usable"
  obtains buf where "serialize_leaf ps usable (root_body n) cells pre = Ok buf" and "length buf = ps"
    and "leaf_page usable (h(n \<mapsto> buf)) n cells" and "replaces h {n} (h(n \<mapsto> buf)) {n}"
proof -
  have "list_all (\<lambda>(_, c). c \<noteq> []) cells" using ok leaf_cell_ok_nonempty by (fastforce simp: list_all_iff)
  from serialize_leaf_Ok [OF fits pager_heap_sizes(3,5) [OF hp] pre(2) this]
  obtain buf where b: "serialize_leaf ps usable (root_body n) cells pre = Ok buf" "length buf = ps" "page_image buf (root_body n) LeafTable (map snd cells)"
    "take (root_body n) buf = prefix_bytes pre" by blast
  show thesis by (rule that [OF b(1,2)]) (use b(3) ok fits image_replaces [where h = h, OF n pre(1) b(4)] in \<open>simp_all add: leaf_page_def\<close>)
qed

lemma store_node:
  assumes hp: "pager_heap usable ps k h s" and n: "h n = Some b" and pre: "prefix_bytes pre = take (root_body n) b" "length (prefix_bytes pre) = root_body n"
    and fits: "root_body n + 12 + need_sum cells \<le> usable"
  obtains buf where "serialize_interior ps usable (root_body n) cells right pre = Ok buf" and "length buf = ps"
    and "node_page usable (h(n \<mapsto> buf)) n (map fst cells @ [right]) (map snd cells)" and "replaces h {n} (h(n \<mapsto> buf)) {n}"
proof -
  from serialize_interior_Ok [OF fits pager_heap_sizes(3,5) [OF hp] pre(2)]
  obtain buf where b: "serialize_interior ps usable (root_body n) cells right pre = Ok buf" "length buf = ps"
    "page_image buf (root_body n) InteriorTable (map interior_cell_bytes cells)"
    "take 4 (drop (root_body n + 8) buf) = to_be32 right" "take (root_body n) buf = prefix_bytes pre" by blast
  have "zip (map fst cells @ [right]) (map snd cells) = cells" by (simp add: zip_append1 zip_map_fst_snd)
  then show thesis by (intro that [OF b(1,2)]) (use b(3,4) fits need_sum_keys [of cells] image_replaces [where h = h, OF n pre(1) b(5)] in \<open>simp_all add: node_page_def\<close>)
qed

section \<open>Cells\<close>

text \<open>Every cell fits on an empty page.\<close>

lemma leaf_cell_len:
  assumes "leaf_cell_ok usable c" and "35 \<le> usable"
  shows "length (snd c) + 2 \<le> usable - 8"
proof -
  obtain plen n1 n2 llen ov rid where p: "varint_decode (snd c) = Some (plen, n1)" "varint_decode_i64 (drop n1 (snd c)) = Some (rid, n2)"
    "payload_split LeafTable usable (unat plen) = (llen, ov)" "length (snd c) = n1 + n2 + llen + (if ov then 4 else 0)"
    using assms(1) by (auto simp: leaf_cell_ok_def leaf_parts_def split: option.splits prod.splits if_splits)
  have "llen \<le> usable - 35" using payload_split_bounds(4) [OF p(3)] assms(2) by (simp add: payload_max_local_def)
  moreover have "n1 \<le> 9" "n2 \<le> 9" using varint_decode_bounds [OF p(1)] varint_decode_i64_bounds [OF p(2)] by (simp_all add: MAX_LEN_def)
  ultimately show ?thesis using p(4) assms(2) by (auto split: if_splits)
qed

lemma interior_need: "interior_cell_len k + 2 \<le> 15"
  using varint_len_bounds [of k] by (simp add: interior_cell_len_def MAX_LEN_def)

lemma key_sum_append [simp]: "key_sum (xs @ ys) = key_sum xs + key_sum ys"
  by (simp add: key_sum_def)

lemma key_sum_Cons [simp]: "key_sum (k # ks) = interior_cell_len k + 2 + key_sum ks" and key_sum_Nil [simp]: "key_sum [] = 0"
  by (simp_all add: key_sum_def)

lemma key_sum_le: "key_sum ks \<le> 15 * length ks"
proof (induction ks)
  case (Cons k ks)
  then show ?case using interior_need [of k] by simp
qed simp

lemma key_sum_splice: "i \<le> j \<Longrightarrow> key_sum (take i ks @ ys @ drop j ks) \<le> key_sum ks + key_sum ys"
proof -
  assume "i \<le> j"
  then have "ks = take i ks @ take (j - i) (drop i ks) @ drop j ks" by (metis append_take_drop_id drop_drop le_add_diff_inverse2)
  from arg_cong [OF this, of key_sum] show ?thesis by simp
qed

lemma cell_sum_upd: "cell_sum (upd_row r c xs) \<le> cell_sum xs + length c + 2"
proof -
  have "cell_sum (filter (\<lambda>x. ckey x < sint r) xs) + cell_sum (filter (\<lambda>x. sint r < ckey x) xs) \<le> cell_sum xs" by (induction xs) auto
  then show ?thesis by (simp add: upd_row_def)
qed

section \<open>Redistribution of leaves\<close>

text \<open>The cells between two boundaries of a distribution.\<close>

definition page_cells :: "'a list \<Rightarrow> nat list \<Rightarrow> nat \<Rightarrow> 'a list" where
  "page_cells xs cs i = take (cs ! i - start_of 1 cs i) (drop (start_of 1 cs i) xs)"

definition cuts :: "'a list \<Rightarrow> nat list \<Rightarrow> bool" where
  "cuts xs cs \<longleftrightarrow> cs \<noteq> [] \<and> last cs = length xs \<and> (\<forall>j < length cs. start_of 1 cs j < cs ! j \<and> cs ! j \<le> length xs)"

lemma page_cells_nonempty: "cuts xs cs \<Longrightarrow> j < length cs \<Longrightarrow> page_cells xs cs j \<noteq> []"
  by (auto simp: cuts_def page_cells_def)

lemma page_cells_subset: "set (page_cells xs cs j) \<subseteq> set xs"
  unfolding page_cells_def by (meson order_trans set_take_subset set_drop_subset)

lemma concat_page_cells:
  assumes "cuts xs cs"
  shows "concat (map (page_cells xs cs) [0..<length cs]) = xs"
proof -
  have "concat (map (page_cells xs cs) [0..<j]) = take (start_of 1 cs j) xs" if "j \<le> length cs" for j
    using that
  proof (induction j)
    case (Suc j)
    have j: "start_of 1 cs j < cs ! j" "cs ! j \<le> length xs" using assms Suc.prems by (auto simp: cuts_def)
    have "concat (map (page_cells xs cs) [0..<Suc j]) = take (start_of 1 cs j) xs @ page_cells xs cs j" using Suc by simp
    also have "\<dots> = take (start_of 1 cs j + (cs ! j - start_of 1 cs j)) xs" unfolding page_cells_def by (rule take_add [symmetric])
    also have "\<dots> = take (start_of 1 cs (Suc j)) xs" using j by (simp add: start_of_def)
    finally show ?case .
  qed (simp add: start_of_def)
  moreover have "start_of 1 cs (length cs) = length xs" using assms by (auto simp: cuts_def start_of_def last_conv_nth)
  ultimately show ?thesis by simp
qed

lemma cuts_length: "cuts xs cs \<Longrightarrow> length cs \<le> length xs"
proof -
  assume c: "cuts xs cs"
  have "j < length cs \<Longrightarrow> j < cs ! j" for j
  proof (induction j)
    case 0
    have "start_of 1 cs 0 < cs ! 0" using c 0 by (simp add: cuts_def)
    then show ?case by simp
  next
    case (Suc j)
    have "start_of 1 cs (Suc j) < cs ! Suc j" using c Suc.prems by (simp add: cuts_def)
    then show ?case using Suc by (simp add: start_of_def)
  qed
  from this [of "length cs - 1"] show ?thesis using c by (auto simp: cuts_def last_conv_nth)
qed

lemma page_cells_sum:
  fixes xs :: "leaf_cell list"
  assumes "start_of 1 cs j \<le> cs ! j"
  shows "int (sum_list (map (\<lambda>(_, c). length c + 2) (page_cells xs cs j))) = page_sum (map (\<lambda>(_, c). length c) xs) 1 cs j"
proof -
  let ?sz = "map (\<lambda>(_, c). length c) xs" let ?a = "start_of 1 cs j"
  have s: "int (sum_list (map (\<lambda>(_, c). length c + 2) ys)) = sum_list (map (\<lambda>c. int c + 2) (map (\<lambda>(_, c). length c) ys))" for ys :: "leaf_cell list"
    by (induction ys) auto
  have "take (cs ! j) xs = take ?a xs @ page_cells xs cs j"
    using assms take_add [of ?a "cs ! j - ?a" xs] by (simp add: page_cells_def)
  from arg_cong [OF this, of "\<lambda>l. sum_list (map (\<lambda>c. int c + 2) (map (\<lambda>(_, c). length c) l))"]
  have "psum ?sz (cs ! j) = psum ?sz ?a + int (sum_list (map (\<lambda>(_, c). length c + 2) (page_cells xs cs j)))"
    unfolding psum_def s take_map map_append sum_list_append .
  then show ?thesis by (simp add: page_sum_def)
qed

text \<open>Leaves side by side are a forest.\<close>

lemma forest_of_leaves:
  assumes "list_all2 (\<lambda>n g. leaf_page usable h n g \<and> g \<noteq> []) ns gs" and "distinct ns" and "ns \<noteq> []" and "between lo hi (concat gs)"
  shows "forest (table_tree usable h 0) lo hi ns (map (\<lambda>g. fst (last g)) (butlast gs)) (concat gs) (set ns)"
  using assms
proof (induction ns gs arbitrary: lo rule: list_all2_induct)
  case (Cons n ns g gs)
  show ?case
  proof (cases "ns = []")
    case True
    then have "gs = []" using Cons.hyps by simp
    then show ?thesis using True Cons.hyps Cons.prems by simp
  next
    case False
    then have gs: "gs \<noteq> []" "concat gs \<noteq> []" using Cons.hyps(2) by (cases ns; cases gs; auto)+
    have b: "between lo hi (g @ concat gs)" "g \<noteq> []" using Cons.prems(3) Cons.hyps(1) by simp_all
    note c = between_cut [OF b]
    have "forest (table_tree usable h 0) (ckey (last g)) hi ns (map (\<lambda>g. fst (last g)) (butlast gs)) (concat gs) (set ns)"
      using Cons.IH False Cons.prems(1) c(2) by simp
    moreover have "table_tree usable h 0 lo (ckey (last g)) n g {n}" using Cons.hyps(1) c(1) by simp
    ultimately have "forest (table_tree usable h 0) lo hi (n # ns) (fst (last g) # map (\<lambda>g. fst (last g)) (butlast gs)) (g @ concat gs) ({n} \<union> set ns)"
      using c(3) c(4) [OF gs(2)] Cons.prems(1) by (intro forest_ConsI) (simp_all add: ckey_def)
    then show ?thesis using gs(1) by simp
  qed
qed simp

text \<open>Writing the pages of a distribution.\<close>

lemma write_leaf_slice_runs:
  assumes hp: "pager_heap usable ps k h s" and c: "cuts xs cs" and i: "i < length cs" "length ns = length cs" and own: "ns ! i \<in> dom h" "ns ! i \<noteq> 1"
    and ok: "list_all (leaf_cell_ok usable) xs" and fit: "page_sum (map (\<lambda>(_, c). length c) xs) 1 cs i \<le> usable_space True usable"
  shows "runs (write_leaf_slice ps usable xs cs ns i) s (\<lambda>ds s'. ds = (if i < length cs - 1 then [fst (last (page_cells xs cs i))] else []) \<and>
    (\<exists>b. pager_heap usable ps k (h(ns ! i \<mapsto> b)) s' \<and> leaf_page usable (h(ns ! i \<mapsto> b)) (ns ! i) (page_cells xs cs i)))"
proof -
  let ?g = "page_cells xs cs i"
  have st: "(if i = 0 then Ok 0 else idx cs (i - 1)) = Ok (start_of 1 cs i)" using i by (auto simp: idx_def start_of_def)
  have le: "start_of 1 cs i < cs ! i" "cs ! i \<le> length xs" using c i by (auto simp: cuts_def)
  have sl: "slice xs (start_of 1 cs i) (cs ! i) = Ok ?g" using le by (simp add: slice_def page_cells_def)
  obtain b0 where b0: "h (ns ! i) = Some b0" using own(1) by auto
  have "usable_space True usable = int (usable - 8)" using pager_heap_sizes(2) [OF hp] by (simp add: usable_space_def)
  then have "sum_list (map (\<lambda>(_, c). length c + 2) ?g) \<le> usable - 8" using fit page_cells_sum [of cs i xs] le(1) by simp
  then have fits: "root_body (ns ! i) + 8 + sum_list (map (\<lambda>(_, c). length c + 2) ?g) \<le> usable" using own(2) pager_heap_sizes(2) [OF hp] by simp
  have okg: "list_all (leaf_cell_ok usable) ?g" using ok page_cells_subset [of xs cs i] by (auto simp: list_all_iff)
  obtain buf where buf: "serialize_leaf ps usable 0 ?g None = Ok buf" "length buf = ps" "leaf_page usable (h(ns ! i \<mapsto> buf)) (ns ! i) ?g"
    using store_leaf [OF hp b0, of None ?g] okg fits own(2) by (auto simp: prefix_bytes_def)
  have ne: "?g \<noteq> []" by (rule page_cells_nonempty [OF c i(1)])
  have "write_leaf_slice ps usable xs cs ns i s =
      bindA (write_page (ns ! i) buf) (\<lambda>_. retA (if i < length cs - 1 then [fst (last ?g)] else [])) s"
    using i ne by (simp add: write_leaf_slice_def st sl buf(1) idx_def last_of_def retA_def del: One_nat_def)
  then show ?thesis by (rule runs_eq) (rule runs_seq [OF ph.heap_wr [OF hp own(1) buf(2)]], use buf(3) in auto)
qed

lemma write_slices_run:
  assumes "pager_heap usable ps k h s" and c: "cuts xs cs" and len: "length ns = length cs" and d: "distinct ns" and "set ns \<subseteq> dom h" and one: "1 \<notin> set ns"
    and ok: "list_all (leaf_cell_ok usable) xs"
    and fit: "\<And>i. i < length cs \<Longrightarrow> page_sum (map (\<lambda>(_, c). length c) xs) 1 cs i \<le> usable_space True usable" and "j \<le> length cs"
  shows "runs (mapA (write_leaf_slice ps usable xs cs ns) [j..<length cs]) s
    (\<lambda>ds s'. concat ds = map (\<lambda>i. fst (last (page_cells xs cs i))) [j..<length cs - 1] \<and>
      (\<exists>h'. pager_heap usable ps k h' s' \<and> dom h' = dom h \<and> (\<forall>m. m \<notin> set (drop j ns) \<longrightarrow> h' m = h m) \<and>
        (\<forall>i. j \<le> i \<and> i < length cs \<longrightarrow> leaf_page usable h' (ns ! i) (page_cells xs cs i))))"
  using assms(9,1,5)
proof (induction j arbitrary: h s rule: inc_induct)
  case base
  then show ?case by auto
next
  case (step j)
  let ?g = "page_cells xs cs j"
  have "ns ! j \<in> set ns" using step.hyps len by simp
  then have j: "ns ! j \<in> dom h" "ns ! j \<noteq> 1" using step.prems(2) one by (blast, metis)
  have dr: "drop j ns = ns ! j # drop (Suc j) ns" using step.hyps len by (simp add: Cons_nth_drop_Suc)
  have nj: "ns ! j \<notin> set (drop (Suc j) ns)" using d dr by (metis distinct.simps(2) distinct_drop)
  have rest: "runs (mapA (write_leaf_slice ps usable xs cs ns) [Suc j..<length cs]) s'
      (\<lambda>ds s'. concat (d # ds) = map (\<lambda>i. fst (last (page_cells xs cs i))) [j..<length cs - 1] \<and>
      (\<exists>h'. pager_heap usable ps k h' s' \<and> dom h' = dom h \<and> (\<forall>m. m \<notin> set (drop j ns) \<longrightarrow> h' m = h m) \<and>
        (\<forall>i. j \<le> i \<and> i < length cs \<longrightarrow> leaf_page usable h' (ns ! i) (page_cells xs cs i))))"
    if a: "d = (if j < length cs - 1 then [fst (last ?g)] else [])" "pager_heap usable ps k (h(ns ! j \<mapsto> b)) s'"
      "leaf_page usable (h(ns ! j \<mapsto> b)) (ns ! j) ?g" for d s' b
  proof (rule runs_conseq [OF step.IH [OF a(2)]])
    show "set ns \<subseteq> dom (h(ns ! j \<mapsto> b))" using step.prems(2) by auto
    fix ds s''
    assume "concat ds = map (\<lambda>i. fst (last (page_cells xs cs i))) [Suc j..<length cs - 1] \<and>
      (\<exists>h'. pager_heap usable ps k h' s'' \<and> dom h' = dom (h(ns ! j \<mapsto> b)) \<and> (\<forall>m. m \<notin> set (drop (Suc j) ns) \<longrightarrow> h' m = (h(ns ! j \<mapsto> b)) m) \<and>
        (\<forall>i. Suc j \<le> i \<and> i < length cs \<longrightarrow> leaf_page usable h' (ns ! i) (page_cells xs cs i)))"
    then obtain h' where h': "concat ds = map (\<lambda>i. fst (last (page_cells xs cs i))) [Suc j..<length cs - 1]" "pager_heap usable ps k h' s''"
      "dom h' = dom (h(ns ! j \<mapsto> b))" "\<And>m. m \<notin> set (drop (Suc j) ns) \<Longrightarrow> h' m = (h(ns ! j \<mapsto> b)) m"
      "\<And>i. Suc j \<le> i \<Longrightarrow> i < length cs \<Longrightarrow> leaf_page usable h' (ns ! i) (page_cells xs cs i)" by auto
    have "leaf_page usable h' (ns ! j) ?g" using a(3) h'(4) [OF nj] by (simp add: leaf_page_def)
    then have "leaf_page usable h' (ns ! i) (page_cells xs cs i)" if "j \<le> i" "i < length cs" for i
      using that h'(5) by (cases "i = j") auto
    moreover have "h' m = h m" if "m \<notin> set (drop j ns)" for m using h'(4) [of m] that unfolding dr by auto
    moreover have "dom h' = dom h" using h'(3) j(1) by auto
    moreover have "concat (d # ds) = map (\<lambda>i. fst (last (page_cells xs cs i))) [j..<length cs - 1]"
      using a(1) h'(1) by (auto simp: upt_conv_Cons)
    ultimately show "concat (d # ds) = map (\<lambda>i. fst (last (page_cells xs cs i))) [j..<length cs - 1] \<and>
      (\<exists>h'. pager_heap usable ps k h' s'' \<and> dom h' = dom h \<and> (\<forall>m. m \<notin> set (drop j ns) \<longrightarrow> h' m = h m) \<and>
        (\<forall>i. j \<le> i \<and> i < length cs \<longrightarrow> leaf_page usable h' (ns ! i) (page_cells xs cs i)))" using h'(2) by blast
  qed
  have u: "[j..<length cs] = j # [Suc j..<length cs]" using step.hyps by (simp add: upt_conv_Cons)
  show ?case unfolding u mapA.simps
  proof (rule runs_seq [OF write_leaf_slice_runs [OF step.prems(1) c step.hyps(2) len j ok fit [OF step.hyps(2)]]])
    fix d s'
    assume "d = (if j < length cs - 1 then [fst (last ?g)] else []) \<and>
      (\<exists>b. pager_heap usable ps k (h(ns ! j \<mapsto> b)) s' \<and> leaf_page usable (h(ns ! j \<mapsto> b)) (ns ! j) ?g)"
    then obtain b where "d = (if j < length cs - 1 then [fst (last ?g)] else [])" "pager_heap usable ps k (h(ns ! j \<mapsto> b)) s'"
      "leaf_page usable (h(ns ! j \<mapsto> b)) (ns ! j) ?g" by blast
    note r = rest [OF this]
    show "runs (bindA (mapA (write_leaf_slice ps usable xs cs ns) [Suc j..<length cs]) (\<lambda>ys. retA (d # ys))) s'
      (\<lambda>ds s'. concat ds = map (\<lambda>i. fst (last (page_cells xs cs i))) [j..<length cs - 1] \<and>
      (\<exists>h'. pager_heap usable ps k h' s' \<and> dom h' = dom h \<and> (\<forall>m. m \<notin> set (drop j ns) \<longrightarrow> h' m = h m) \<and>
        (\<forall>i. j \<le> i \<and> i < length cs \<longrightarrow> leaf_page usable h' (ns ! i) (page_cells xs cs i))))"
      by (rule runs_seq [OF r], rule runs_ret)
  qed
qed

lemma distribute_cuts:
  fixes xs :: "leaf_cell list"
  assumes "xs \<noteq> []" and "seeds_ok (map (\<lambda>(_, c). length c) xs) 1 cnt_old" and "list_all (leaf_cell_ok usable) xs" and "35 \<le> usable"
  shows "\<exists>cs. distribute (map (\<lambda>(_, c). length c) xs) cnt_old True True usable = Ok cs \<and> cuts xs cs \<and>
    (\<forall>i < length cs. page_sum (map (\<lambda>(_, c). length c) xs) 1 cs i \<le> usable_space True usable) \<and>
    (length cs div 2) * (usable - 8) \<le> cell_sum xs"
proof -
  let ?sz = "map (\<lambda>(_, c). length c) xs"
  have "int (length (snd c)) + 2 \<le> usable_space True usable" if "c \<in> set xs" for c
    using leaf_cell_len [of usable c] assms(3,4) that by (simp add: usable_space_def list_all_iff of_nat_diff)
  then have "cells_fit ?sz 1 (usable_space True usable)" by (auto simp: cells_fit_def list_all_iff)
  then obtain cs where cs: "distribute ?sz cnt_old True True usable = Ok cs" "cs \<noteq> []" "last cs = length ?sz"
    "\<forall>j < length cs. good_page ?sz 1 (usable_space True usable) cs j \<and> cs ! j \<le> length ?sz"
    "int (length cs div 2) * usable_space True usable \<le> psum ?sz (length ?sz)"
    using distribute_Ok [of ?sz True cnt_old True usable] assms(1,2) by auto
  note cs(5)
  moreover have "psum ?sz (length ?sz) = int (cell_sum xs)" by (simp add: psum_def) (induction xs; auto)
  moreover have "int (length cs div 2) * usable_space True usable = int ((length cs div 2) * (usable - 8))"
    using assms(4) by (simp add: usable_space_def of_nat_diff)
  ultimately have "int ((length cs div 2) * (usable - 8)) \<le> int (cell_sum xs)" by argo
  then have "(length cs div 2) * (usable - 8) \<le> cell_sum xs" by (simp only: of_nat_le_iff)
  then show ?thesis using cs by (intro exI [of _ cs] conjI) (auto simp: cuts_def good_page_def)
qed

lemma same_dom_replaces:
  assumes "dom h' = dom h" and "\<And>m. m \<notin> P \<Longrightarrow> h' m = h m" and "P \<subseteq> dom h" and "1 \<notin> P"
  shows "replaces h P h' P"
  using assms by (auto simp: replaces_def header_kept_def)

text \<open>The pages kept, the fresh ones and those freed.\<close>

lemma kept_pages:
  assumes old: "distinct old" "set old \<subseteq> dom h" "1 \<notin> set old" and fresh: "length fresh = length [length old..<nn]" "distinct fresh" "1 \<notin> set fresh"
    and r: "replaces h {} h1 (set fresh)" "replaces h1 (set (drop (min nn (length old)) old)) h2 {}" and kept: "kept = sort (take nn old @ fresh)"
  shows "replaces h (set old) h2 (set kept)" and "distinct kept" and "length kept = nn" and "set kept \<subseteq> dom h2" and "1 \<notin> set kept"
proof -
  let ?drop = "drop (min nn (length old)) old"
  have "take nn old = take (min nn (length old)) old" by (simp add: min_def)
  then have td: "set old = set (take nn old) \<union> set ?drop" by (metis append_take_drop_id set_append)
  have dj: "set (take nn old) \<inter> set ?drop = {}" using old(1) set_take_disj_set_drop_if_distinct [of old nn nn] by (simp add: min_def)
  have r1: "replaces h (set old) h1 (set fresh \<union> set old)" "set fresh \<inter> set old = {}"
    using replaces_frame [OF r(1), of "set old"] old(2) by simp_all
  have sk: "set kept = set (take nn old) \<union> set fresh" by (simp add: kept)
  have "set kept \<subseteq> dom h1" using r1(1) td sk by (auto simp: replaces_def)
  moreover have "set kept \<inter> set ?drop = {}" using td dj r1(2) sk by auto
  ultimately have r2: "replaces h1 (set ?drop \<union> set kept) h2 (set kept)" using replaces_frame(1) [OF r(2), of "set kept"] by simp
  have "set ?drop \<union> set kept = set fresh \<union> set old" using td sk by auto
  then show rr: "replaces h (set old) h2 (set kept)" using replaces_trans [OF r1(1)] r2 by metis
  show "distinct kept" unfolding kept using old(1) fresh(2) r1(2) by (auto dest: in_set_takeD)
  show "length kept = nn" unfolding kept using fresh(1) by (auto simp: min_def)
  show "set kept \<subseteq> dom h2" using rr by (auto simp: replaces_def)
  show "1 \<notin> set kept" unfolding sk using old(3) fresh(3) by (auto dest: in_set_takeD)
qed

lemma write_kept_runs:
  assumes hp: "pager_heap usable ps k h s" and cs: "cuts xs cs" and fit: "\<And>i. i < length cs \<Longrightarrow> page_sum (map (\<lambda>(_, c). length c) xs) 1 cs i \<le> usable_space True usable"
    and xs: "list_all (leaf_cell_ok usable) xs" "between lo hi xs"
    and kept: "distinct kept" "length kept = length cs" "set kept \<subseteq> dom h" "1 \<notin> set kept"
  shows "runs (mapA (write_leaf_slice ps usable xs cs kept) [0..<length cs]) s (\<lambda>divs s'. \<exists>h'. pager_heap usable ps k h' s' \<and>
    replaces h (set kept) h' (set kept) \<and> forest (table_tree usable h' 0) lo hi kept (concat divs) xs (set kept))"
proof (rule runs_conseq [OF write_slices_run [OF hp cs kept(2,1,3,4) xs(1) fit le0]], assumption)
  fix ds s'
  assume "concat ds = map (\<lambda>i. fst (last (page_cells xs cs i))) [0..<length cs - 1] \<and>
    (\<exists>h'. pager_heap usable ps k h' s' \<and> dom h' = dom h \<and> (\<forall>m. m \<notin> set (drop 0 kept) \<longrightarrow> h' m = h m) \<and>
      (\<forall>i. 0 \<le> i \<and> i < length cs \<longrightarrow> leaf_page usable h' (kept ! i) (page_cells xs cs i)))"
  then obtain h' where h': "concat ds = map (\<lambda>i. fst (last (page_cells xs cs i))) [0..<length cs - 1]" "pager_heap usable ps k h' s'" "dom h' = dom h"
    "\<And>m. m \<notin> set kept \<Longrightarrow> h' m = h m" "\<And>i. i < length cs \<Longrightarrow> leaf_page usable h' (kept ! i) (page_cells xs cs i)"
    by (simp only: drop_0 le0 simp_thms) (elim exE conjE; blast)
  let ?gs = "map (page_cells xs cs) [0..<length cs]"
  have rr: "replaces h (set kept) h' (set kept)" by (rule same_dom_replaces [OF h'(3,4) kept(3,4)])
  have l2: "list_all2 (\<lambda>n g. leaf_page usable h' n g \<and> g \<noteq> []) kept ?gs"
    using h'(5) kept(2) page_cells_nonempty [OF cs] by (simp add: list_all2_conv_all_nth)
  have ne: "kept \<noteq> []" using kept(2) cs by (auto simp: cuts_def)
  have "map (\<lambda>g. fst (last g)) (butlast ?gs) = concat ds" unfolding h'(1) by (cases cs rule: rev_cases) (simp_all add: butlast_append)
  then have "forest (table_tree usable h' 0) lo hi kept (concat ds) xs (set kept)"
    using forest_of_leaves [OF l2 kept(1) ne] xs(2) concat_page_cells [OF cs] by simp
  then show "\<exists>h'. pager_heap usable ps k h' s' \<and> replaces h (set kept) h' (set kept) \<and> forest (table_tree usable h' 0) lo hi kept (concat ds) xs (set kept)"
    using h'(2) rr by blast
qed

text \<open>Four pages full of cells need at most nine pages.\<close>

lemma nine_pages:
  assumes "(c div 2) * u \<le> x" and "x \<le> q * u" and "0 < u"
  shows "c \<le> 2 * q + (1 :: nat)"
proof -
  have "c div 2 \<le> q" using assms by (meson mult_le_cancel2 order_trans)
  then show ?thesis by simp
qed

lemma balance_leaf_pooled_runs:
  assumes hp: "pager_heap usable ps (k + (2 * q + 1)) h s" and old: "distinct old" "set old \<subseteq> dom h" "1 \<notin> set old"
    and xs: "xs \<noteq> []" "list_all (leaf_cell_ok usable) xs" "between lo hi xs" and cnt: "seeds_ok (map (\<lambda>(_, c). length c) xs) 1 cnt_old"
    and sum: "cell_sum xs \<le> q * (usable - 8)"
  shows "runs (balance_leaf_pooled old xs cnt_old) s (\<lambda>(kept, divs) s'. \<exists>h'. pager_heap usable ps k h' s' \<and> replaces h (set old) h' (set kept) \<and>
    1 \<notin> set kept \<and> length kept \<le> 2 * q + 1 \<and> forest (table_tree usable h' 0) lo hi kept divs xs (set kept))" (is "runs _ _ (\<lambda>(kept, divs). ?post kept divs)")
proof -
  note sz = pager_heap_sizes [OF hp]
  obtain cs where cs: "distribute (map (\<lambda>(_, c). length c) xs) cnt_old True True usable = Ok cs" "cuts xs cs"
    "\<And>i. i < length cs \<Longrightarrow> page_sum (map (\<lambda>(_, c). length c) xs) 1 cs i \<le> usable_space True usable"
    "(length cs div 2) * (usable - 8) \<le> cell_sum xs"
    using distribute_cuts [OF xs(1) cnt xs(2)] sz(2) by auto
  have nine: "length cs \<le> 2 * q + 1" by (rule nine_pages [OF cs(4) sum]) (use sz(2) in simp)
  let ?nn = "length cs" let ?no = "length old" let ?drop = "drop (min ?nn ?no) old"
  let ?kept = "\<lambda>fresh. sort (take ?nn old @ fresh)"
  have hp1: "pager_heap usable ps (k + length [?no..<?nn]) h s" using pager_heap_less [OF hp] nine by simp
  have last: "runs (bindA (mapA (write_leaf_slice ps usable xs cs (?kept fresh)) [0..<?nn]) (\<lambda>divs. retA (?kept fresh, concat divs))) s2
      (\<lambda>(kept, divs). ?post kept divs)"
    if a: "length fresh = length [?no..<?nn]" "distinct fresh" "1 \<notin> set fresh" "replaces h {} h1 (set fresh)"
      and b: "pager_heap usable ps k h2 s2" "replaces h1 (set ?drop) h2 {}" for fresh h1 h2 s2
  proof -
    note kp = kept_pages [OF old a b(2) refl]
    show ?thesis
      by (rule runs_seq [OF write_kept_runs [OF b(1) cs(2,3) xs(2,3) kp(2-5)]], assumption)
         (use kp(3,5) replaces_trans [OF kp(1)] nine in auto)
  qed
  show ?thesis unfolding balance_leaf_pooled_def runs_sizes [OF hp] prod.case cs(1) bindA_lift_Ok Let_def
  proof (rule runs_seq [OF ph.alloc_many [OF hp1]])
    fix fresh s1
    assume "length fresh = length [?no..<?nn] \<and> distinct fresh \<and> 1 \<notin> set fresh \<and> (\<exists>h'. pager_heap usable ps k h' s1 \<and> replaces h {} h' (set fresh))"
    then obtain h1 where h1: "length fresh = length [?no..<?nn]" "distinct fresh" "1 \<notin> set fresh" "replaces h {} h1 (set fresh)" "pager_heap usable ps k h1 s1"
      by blast
    have dr: "set ?drop \<subseteq> dom h1" "distinct ?drop" "1 \<notin> set ?drop"
      using old h1(4) by (auto simp: replaces_def dest: in_set_dropD)
    show "runs (bindA (foldA free_page ?drop) (\<lambda>_. bindA (mapA (write_leaf_slice ps usable xs cs (?kept fresh)) [0..<?nn]) (\<lambda>divs. retA (?kept fresh, concat divs)))) s1
      (\<lambda>(kept, divs). ?post kept divs)"
      by (rule runs_seq [OF ph.free_many [OF h1(5) dr]]) (use last [OF h1(1-4)] in blast)
  qed
qed

text \<open>The page decides the cells.\<close>

lemma leaf_page_unique:
  assumes "leaf_page usable h n xs" and "leaf_page usable h n ys"
  shows "xs = ys"
proof -
  obtain b where b: "h n = Some b" "page_image b (root_body n) LeafTable (map snd xs)" "list_all (leaf_cell_ok usable) xs"
    "page_image b (root_body n) LeafTable (map snd ys)" "list_all (leaf_cell_ok usable) ys"
    using assms by (auto simp: leaf_page_def)
  obtain bt where bt: "btree_page_parse (page_from_bytes n b) = Ok bt" "bt_type bt = LeafTable" "num_cells bt = length xs" "bt_data bt = b" "bt_body bt = root_body n"
    using page_image_parse [OF b(2) body_offset_root] by (auto simp: page_from_bytes_def)
  have "num_cells bt = length ys" using page_image_parse [OF b(4) body_offset_root] bt(1) by auto
  then have "read_leaf_cells bt usable = Ok ys" using read_leaf_cells_Ok [of bt ys usable] b(4,5) bt by simp
  moreover have "read_leaf_cells bt usable = Ok xs" using read_leaf_cells_Ok [of bt xs usable] b(2,3) bt by simp
  ultimately show ?thesis by simp
qed

lemma list_all2_right: "list_all2 R xs ys \<Longrightarrow> y \<in> set ys \<Longrightarrow> \<exists>x \<in> set xs. R x y"
  by (induction rule: list_all2_induct) auto

lemma leaf_page_length: "leaf_page usable h n xs \<Longrightarrow> length xs < 65536"
  by (auto simp: leaf_page_def page_image_def)

lemma sibling_cells_runs:
  assumes gs: "list_all2 (leaf_page usable h) old gs" and p: "w0 \<le> p" and hp: "pager_heap usable ps k h s"
  shows "runs (mapA (sibling_cells usable w0 p cc old) [0..<length old]) s (\<lambda>groups s'. groups = gs[p - w0 := cc] \<and> pager_heap usable ps k h s')"
proof -
  have len: "length old = length gs" using gs by (rule list_all2_lengthD)
  have "runs (sibling_cells usable w0 p cc old i) s (\<lambda>x s'. x = gs[p - w0 := cc] ! i \<and> pager_heap usable ps k h s')"
    if i: "i \<in> set [0..<length old]" and s: "pager_heap usable ps k h s" for i s
  proof (cases "w0 + i = p")
    case True
    then show ?thesis using s i len by (auto simp: sibling_cells_def)
  next
    case False
    have lp: "leaf_page usable h (old ! i) (gs ! i)" using gs i by (auto simp: list_all2_conv_all_nth)
    have "p - w0 \<noteq> i" using False p by auto
    then show ?thesis using False i
      by (simp add: sibling_cells_def idx_def) (rule runs_seq [OF load_leaf [OF s lp]], simp)
  qed
  from runs_mapA [of "[0..<length old]" "pager_heap usable ps k h", OF this hp]
  have "runs (mapA (sibling_cells usable w0 p cc old) [0..<length old]) s (\<lambda>xs s'. xs = map ((!) (gs[p - w0 := cc])) [0..<length old] \<and> pager_heap usable ps k h s')" .
  moreover have "map ((!) (gs[p - w0 := cc])) [0..<length old] = gs[p - w0 := cc]" using map_nth [of "gs[p - w0 := cc]"] len by simp
  ultimately show ?thesis by simp
qed

lemma running_counts_seeds:
  assumes "length gs \<le> length (concat gs) + 2" and "gs \<noteq> []"
  shows "seeds_ok (map f (concat gs)) 1 (running_counts gs)"
proof -
  have c: "running_counts gs ! i = length (concat (take (i + 1) gs))" if "i < length gs" for i using that by (simp add: running_counts_def)
  have mono: "length (concat (take i gs)) \<le> length (concat (take j gs))" if "i \<le> j" for i j
  proof -
    have "take j gs = take i gs @ take (j - i) (drop i gs)" using that take_add [of i "j - i" gs] by simp
    then show ?thesis by simp
  qed
  have "last (running_counts gs) = length (concat gs)" using assms(2) by (simp add: running_counts_def last_conv_nth)
  moreover have "start_of 1 (running_counts gs) i \<le> running_counts gs ! i \<and> running_counts gs ! i \<le> length (concat gs)" if "i < length gs" for i
    using that c [of i] c [of "i - 1"] mono [of i "i + 1"] mono [of "i + 1" "length gs"] by (auto simp: start_of_def)
  ultimately show ?thesis using assms by (auto simp: seeds_ok_def running_counts_def)
qed

lemma cell_sum_update:
  assumes "i < length gs" and "cell_sum g \<le> cell_sum (gs ! i) + e"
  shows "cell_sum (concat (gs[i := g])) \<le> cell_sum (concat gs) + e"
proof -
  have "gs = take i gs @ gs ! i # drop (Suc i) gs" using assms(1) by (rule id_take_nth_drop)
  from arg_cong [OF this, of "\<lambda>l. cell_sum (concat l)"]
  have "cell_sum (concat gs) = cell_sum (concat (take i gs)) + (cell_sum (gs ! i) + cell_sum (concat (drop (Suc i) gs)))" by simp
  then show ?thesis using assms by (simp add: upd_conv_take_nth_drop)
qed

lemma cell_sum_concat:
  assumes "\<And>g. g \<in> set gs \<Longrightarrow> cell_sum g \<le> u"
  shows "cell_sum (concat gs) \<le> length gs * u"
  using assms by (induction gs) (auto simp: add_mono)

text \<open>The window of siblings around a leaf, with the update made in it.\<close>

lemma leaf_window:
  assumes f: "forest (table_tree usable h 0) lo hi kids divs xs P"
    and r: "slot_of r divs p" "lo < sint r" "sint r \<le> hi" and c: "leaf_cell_ok usable (r, c)"
    and u: "35 \<le> usable" and cc: "leaf_page usable h (kids ! p) xc" "cc = upd_row r c xc" and w: "w0 \<le> p" "p < w0 + m" "w0 + m \<le> length kids" "m \<le> 3"
    and defs: "old = take m (drop w0 kids)" "lo' = window_lo lo divs w0" "hi' = window_hi hi divs (w0 + m)"
  obtains gs pool R where "list_all2 (leaf_page usable h) old gs" and "pool = concat (gs[p - w0 := cc])" and "pool \<noteq> []"
    and "list_all (leaf_cell_ok usable) pool" and "between lo' hi' pool" and "cell_sum pool \<le> 4 * (usable - 8)" and "P = R \<union> set old" and "R \<inter> set old = {}"
    and "distinct old"
    and "\<And>h' ks' vs' P'. forest (table_tree usable h' 0) lo' hi' ks' vs' pool P' \<Longrightarrow> R \<inter> P' = {} \<Longrightarrow> (\<And>n. n \<in> R \<Longrightarrow> h' n = h n) \<Longrightarrow>
      forest (table_tree usable h' 0) lo hi (take w0 kids @ ks' @ drop (w0 + m) kids) (take w0 divs @ vs' @ drop (w0 + m - 1) divs) (upd_row r c xs) (R \<union> P')"
proof -
  have len: "length kids = length divs + 1" using f by (rule forest_length)
  have m: "0 < m" using w by simp
  have so: "slot_of r (take (m - 1) (drop w0 divs)) (p - w0)" using slot_window [OF r(1) w(1,2)] w(3) len by simp
  obtain xsA xsW xsC R PW where win: "forest (table_tree usable h 0) lo' hi' old (take (m - 1) (drop w0 divs)) xsW PW" "xs = xsA @ xsW @ xsC"
    "P = R \<union> PW" "R \<inter> PW = {}" "between lo lo' xsA" "between hi' hi xsC"
    and join: "\<And>h' ks' vs' xs' P'. forest (table_tree usable h' 0) lo' hi' ks' vs' xs' P' \<Longrightarrow> R \<inter> P' = {} \<Longrightarrow> (\<And>m. m \<in> R \<Longrightarrow> h' m = h m) \<Longrightarrow>
      forest (table_tree usable h' 0) lo hi (take w0 kids @ ks' @ drop (w0 + m) kids) (take w0 divs @ vs' @ drop (w0 + m - 1) divs) (xsA @ xs' @ xsC) (R \<union> P')"
    using forest_window [OF f m w(3)] unfolding defs by metis
  have fl: "PW = set old" "distinct old" using forest_leaves [OF win(1)] by simp_all
  obtain gs where gs: "list_all2 (leaf_page usable h) old gs" "concat gs = xsW"
    "concat (gs[p - w0 := upd_row r c (gs ! (p - w0))]) = upd_row r c xsW" using forest_leaves [OF win(1)] so by blast
  have lo_old: "length old = m" using w(3) by (simp add: defs)
  then have "leaf_page usable h (old ! (p - w0)) (gs ! (p - w0))" using w(1,2) by (intro list_all2_nthD [OF gs(1)]) linarith
  moreover have "old ! (p - w0) = kids ! p" using w(1,2,3) by (simp add: defs)
  ultimately have gp: "gs ! (p - w0) = xc" using leaf_page_unique cc(1) by metis
  define pool where "pool = concat (gs[p - w0 := cc])"
  have pool: "pool = upd_row r c xsW" using gs(3) gp cc(2) by (simp add: pool_def)
  have lr: "lo' < sint r" "sint r \<le> hi'" using slot_window_bounds [OF r(1) _ w(1,2) _ r(2,3)] forest_divs [OF f] w(3) len by (auto simp: defs)
  have e: "upd_row r c xs = xsA @ pool @ xsC"
    unfolding win(2) upd_row_right [OF win(5) lr(1)] upd_row_left [OF win(6) lr(2)] pool ..
  have okg: "list_all (leaf_cell_ok usable) g \<and> cell_sum g \<le> usable - 8" if "g \<in> set gs" for g
    using list_all2_right [OF gs(1) that] by (fastforce simp: leaf_page_def)
  then have "list_all (leaf_cell_ok usable) xsW" using gs(2) by (auto simp: list_all_iff)
  then have ok: "list_all (leaf_cell_ok usable) pool" unfolding pool using upd_row_cells(1) [of r c xsW] c by (auto simp: list_all_iff)
  have lg: "length gs = m" using list_all2_lengthD [OF gs(1)] lo_old by simp
  have "cell_sum pool \<le> cell_sum (concat gs) + (length c + 2)" unfolding pool_def
    by (rule cell_sum_update) (use lg w(1,2) cell_sum_upd [of r c xc] gp cc(2) in auto)
  moreover have "cell_sum (concat gs) \<le> 3 * (usable - 8)"
    using cell_sum_concat [of gs "usable - 8"] okg lg mult_le_mono1 [OF w(4), of "usable - 8"] by (meson order_trans order_eq_refl)
  moreover have "length c + 2 \<le> usable - 8" using leaf_cell_len [OF c u] by simp
  ultimately have bud: "cell_sum pool \<le> 4 * (usable - 8)" by linarith
  have "between lo' hi' xsW" by (rule forest_between [OF win(1)]) (rule table_tree_between)
  then have bt: "between lo' hi' pool" unfolding pool using lr by (rule between_upd)
  have ne: "pool \<noteq> []" unfolding pool by (rule upd_row_cells)
  show thesis by (rule that [OF gs(1) pool_def ne ok bt bud _ _ fl(2), of R]) (use win(3,4) fl(1) join e in auto)
qed

lemma balance_leaf_into_runs:
  assumes hp: "pager_heap usable ps (k + 9) h s" and f: "forest (table_tree usable h 0) lo hi kids divs xs P" and P: "1 \<notin> P"
    and r: "slot_of r divs p" "lo < sint r" "sint r \<le> hi" and c: "leaf_cell_ok usable (r, c)"
    and cc: "leaf_page usable h (kids ! p) xc" "cc = upd_row r c xc"
  shows "runs (balance_leaf_into kids divs p cc) s (\<lambda>(kids', divs') s'. key_sum divs' \<le> key_sum divs + 120 \<and>
    (\<exists>h' P'. pager_heap usable ps k h' s' \<and> replaces h P h' P' \<and> 1 \<notin> P' \<and> forest (table_tree usable h' 0) lo hi kids' divs' (upd_row r c xs) P'))"
    (is "runs _ _ ?post")
proof -
  have len: "length kids = length divs + 1" using f by (rule forest_length)
  have pk: "p < length kids" using r(1) len by (simp add: slot_of_def)
  obtain w0 m where w: "sibling_window p (length kids) = Ok (w0, m)" "w0 \<le> p" "p < w0 + m" "w0 + m \<le> length kids" "m = min (length kids) 3"
    using sibling_window_Ok [OF _ pk] pk by (metis gr_implies_not0 neq0_conv)
  have m: "0 < m" "m \<le> 3" using w(2,3,5) pk by auto
  have u: "35 \<le> usable" using pager_heap_sizes(2) [OF hp] by simp
  let ?old = "take m (drop w0 kids)" let ?lo = "window_lo lo divs w0" let ?hi = "window_hi hi divs (w0 + m)"
  let ?kids = "\<lambda>kept. take w0 kids @ kept @ drop (w0 + m) kids" let ?divs = "\<lambda>nd. take w0 divs @ nd @ drop (w0 + m - 1) divs"
  obtain gs pool R where g: "list_all2 (leaf_page usable h) ?old gs" "pool = concat (gs[p - w0 := cc])" "pool \<noteq> []"
    "list_all (leaf_cell_ok usable) pool" "between ?lo ?hi pool" "cell_sum pool \<le> 4 * (usable - 8)" "P = R \<union> set ?old" "R \<inter> set ?old = {}" "distinct ?old"
    and join: "\<And>h' ks' vs' P'. forest (table_tree usable h' 0) ?lo ?hi ks' vs' pool P' \<Longrightarrow> R \<inter> P' = {} \<Longrightarrow> (\<And>n. n \<in> R \<Longrightarrow> h' n = h n) \<Longrightarrow>
      forest (table_tree usable h' 0) lo hi (?kids ks') (?divs vs') (upd_row r c xs) (R \<union> P')"
    using leaf_window [OF f r c u cc w(2-4) m(2) refl refl refl] by metis
  have lo_old: "length ?old = m" using w(4) by simp
  have sd: "seeds_ok (map (\<lambda>(_, c). length c) pool) 1 (running_counts (gs[p - w0 := cc]))" unfolding g(2)
  proof (rule running_counts_seeds)
    have "0 < length (concat (gs[p - w0 := cc]))" using g(2,3) length_greater_0_conv by metis
    moreover have lm: "length gs = m" using list_all2_lengthD [OF g(1)] lo_old by simp
    then have "length (gs[p - w0 := cc]) \<le> 3" using m by simp
    ultimately show "length (gs[p - w0 := cc]) \<le> length (concat (gs[p - w0 := cc])) + 2" by linarith
    show "gs[p - w0 := cc] \<noteq> []" using lm m(1) by auto
  qed
  have ow: "P \<subseteq> dom h" using forest_owned [OF f] by blast
  have old: "set ?old \<subseteq> dom h" "1 \<notin> set ?old" using ow g(7) P by auto
  have sp: "splice kids w0 (w0 + m) pg = Ok (?kids pg)" "splice divs w0 (w0 + m - 1) nd = Ok (?divs nd)" for pg nd
    using w(4) len m(1) by (auto simp: splice_def)
  have sl: "slice kids w0 (w0 + m) = Ok ?old" using w(4) by (simp add: slice_def)
  have fin: "?post (?kids kept, ?divs nd) s2"
    if a: "pager_heap usable ps k h' s2" "replaces h (set ?old) h' (set kept)" "1 \<notin> set kept" "length kept \<le> 2 * 4 + 1" "forest (table_tree usable h' 0) ?lo ?hi kept nd pool (set kept)"
    for kept nd h' s2
  proof -
    have R: "R \<subseteq> dom h" "R \<inter> set ?old = {}" using ow g(7,8) by auto
    note fr = replaces_frame [OF a(2) R]
    have fo: "forest (table_tree usable h' 0) lo hi (?kids kept) (?divs nd) (upd_row r c xs) (R \<union> set kept)" by (rule join [OF a(5)]) (use fr in auto)
    have rp: "replaces h P h' (R \<union> set kept)" using fr(1) g(7) by (simp add: Un_commute)
    have "1 \<notin> R \<union> set kept" using a(3) P g(7) by simp
    moreover have "key_sum (?divs nd) \<le> key_sum divs + 120"
      using key_sum_splice [of w0 "w0 + m - 1" divs nd] m(1) key_sum_le [of nd] forest_length [OF a(5)] a(4) by linarith
    ultimately show ?thesis using a(1) fo rp by (simp only: prod.case) blast
  qed
  note sc = sibling_cells_runs [OF g(1) w(2) hp, unfolded lo_old]
  show ?thesis unfolding balance_leaf_into_def w(1) bindA_lift_Ok prod.case runs_sizes [OF hp] sl sp
  proof (rule runs_seq [OF sc])
    fix gr s1
    assume gr: "gr = gs[p - w0 := cc] \<and> pager_heap usable ps (k + 9) h s1"
    then have hp1: "pager_heap usable ps (k + (2 * 4 + 1)) h s1" by simp
    show "runs (bindA (balance_leaf_pooled ?old (concat gr) (running_counts gr)) (\<lambda>(pages, new_dividers). retA (?kids pages, ?divs new_dividers))) s1 ?post"
      unfolding conjunct1 [OF gr] g(2) [symmetric]
    proof (rule runs_seq [OF balance_leaf_pooled_runs [OF hp1 g(9) old g(3-5) sd g(6)]])
      show "runs (case x of (pages, nd) \<Rightarrow> retA (?kids pages, ?divs nd)) s2 ?post"
        if "(case x of (kept, divs) \<Rightarrow> \<lambda>s'. \<exists>h'. pager_heap usable ps k h' s' \<and> replaces h (set ?old) h' (set kept) \<and> 1 \<notin> set kept \<and> length kept \<le> 2 * 4 + 1 \<and>
          forest (table_tree usable h' 0) ?lo ?hi kept divs pool (set kept)) s2" for x s2
        using that fin by (cases x) (simp only: prod.case, blast intro: runs_ret)
    qed
  qed
qed

end
