(* ===== verification/TableSplit.thy ===== *)
theory TableSplit
  imports TableInsert
begin

text \<open>
  Splitting interior pages (\<open>pack_interior\<close> and \<open>finish_interior\<close> of \<open>src/btree/writer.rs\<close>): the parts
  hold the cells of the page in order, with one key promoted between two parts, and each part fits
  its page. The pages that are written for them are a forest one level higher.
\<close>

section \<open>The greedy packing\<close>

lemma need_of_Cons: "need_of len (c # cs) = len (snd c) + 2 + need_of len cs"
  by (cases c) simp

lemma pack_scan_fits:
  assumes "used \<le> cap" and "b = i \<Longrightarrow> used = 0" and "i \<le> b" and "\<forall>c \<in> set cells. len (snd c) + 2 \<le> cap" and "b \<le> length cells"
  shows "pack_scan len cells cap i b used \<le> length cells \<and> used + need_of len (take (pack_scan len cells cap i b used - b) (drop b cells)) \<le> cap"
  using assms
proof (induction len cells cap i b used rule: pack_scan.induct)
  case (1 len cells cap i b used)
  let ?need = "len (snd (cells ! b)) + 2"
  show ?case
  proof (cases "b < length cells \<and> (b = i \<or> used + ?need \<le> cap)")
    case True
    have e: "pack_scan len cells cap i b used = pack_scan len cells cap i (b + 1) (used + ?need)" using True by (subst pack_scan.simps) (simp add: Let_def)
    let ?r = "pack_scan len cells cap i (b + 1) (used + ?need)"
    have le: "used + ?need \<le> cap" using True "1.prems"(2,4) by auto
    have ih: "?r \<le> length cells \<and> used + ?need + need_of len (take (?r - (b + 1)) (drop (b + 1) cells)) \<le> cap"
      using "1.IH" [OF _ refl] True le "1.prems" by auto
    have "b + 1 \<le> ?r" by (rule pack_scan_ge)
    then have "take (?r - b) (drop b cells) = cells ! b # take (?r - (b + 1)) (drop (b + 1) cells)"
      using True by (simp add: Cons_nth_drop_Suc [symmetric] take_Cons' Suc_diff_le)
    then show ?thesis unfolding e using ih by (simp only: need_of_Cons add.assoc)
  next
    case False
    then have "pack_scan len cells cap i b used = b" by (subst pack_scan.simps) (auto simp: Let_def)
    then show ?thesis using "1.prems" by simp
  qed
qed

lemma pack_scan_step:
  assumes "b < length cells" and "b = i \<or> used + (len (snd (cells ! b)) + 2) \<le> cap"
  shows "pack_scan len cells cap i b used = pack_scan len cells cap i (b + 1) (used + (len (snd (cells ! b)) + 2))"
  using assms by (subst pack_scan.simps) (simp add: Let_def)

lemma pack_scan_all:
  assumes "b \<le> length cells" and "used + need_of len (drop b cells) \<le> cap"
  shows "pack_scan len cells cap i b used = length cells"
  using assms
proof (induction b arbitrary: used rule: inc_induct)
  case base
  then show ?case by (subst pack_scan.simps) simp
next
  case (step b)
  have "need_of len (drop b cells) = len (snd (cells ! b)) + 2 + need_of len (drop (Suc b) cells)"
    using step.hyps by (simp add: Cons_nth_drop_Suc [symmetric] case_prod_unfold)
  then have le: "used + (len (snd (cells ! b)) + 2) + need_of len (drop (Suc b) cells) \<le> cap" using step.prems by linarith
  then have "pack_scan len cells cap i b used = pack_scan len cells cap i (b + 1) (used + (len (snd (cells ! b)) + 2))"
    using step.hyps by (intro pack_scan_step) auto
  then show ?case using step.IH [OF le] by simp
qed

lemma pack_scan_stop:
  assumes "b \<le> length cells" and "pack_scan len cells cap i b used = e" and "e < length cells"
  shows "cap < used + need_of len (take (Suc e - b) (drop b cells))"
  using assms
proof (induction b arbitrary: used rule: inc_induct)
  case base
  then show ?case by (subst (asm) pack_scan.simps) simp
next
  case (step b)
  let ?need = "len (snd (cells ! b)) + 2"
  have d: "drop b cells = cells ! b # drop (Suc b) cells" using step.hyps by (simp add: Cons_nth_drop_Suc)
  show ?case
  proof (cases "b = i \<or> used + ?need \<le> cap")
    case True
    then have e: "pack_scan len cells cap i (Suc b) (used + ?need) = e" using step.prems(1) pack_scan_step [OF step.hyps(2), of i used len cap] by simp
    then have "Suc b \<le> e" using pack_scan_ge [of "Suc b" len cells cap i "used + ?need"] by simp
    then have "take (Suc e - b) (drop b cells) = cells ! b # take (Suc e - Suc b) (drop (Suc b) cells)" unfolding d by (simp add: Suc_diff_le)
    then show ?thesis using step.IH [OF e step.prems(2)] by (simp only: need_of_Cons add.assoc)
  next
    case False
    then have "e = b" using step.prems(1) step.hyps by (subst (asm) pack_scan.simps) (auto simp: Let_def)
    then show ?thesis unfolding d using False by (simp add: case_prod_unfold)
  qed
qed

text \<open>A page that overflows by less than a page is cut in two.\<close>

lemma pack_interior_two:
  assumes "need_sum cells \<le> usable - (body0 + 12) + 120" and "132 \<le> usable"
  shows "length (snd (pack_interior cells right body0 usable)) \<le> 1"
proof -
  let ?n = "length cells" let ?cap = "usable - (body0 + 12)"
  define b where "b = pack_scan interior_cell_len cells ?cap 0 0 0"
  have e: "pack_interior cells right body0 usable = (if ?n \<le> b then ([(cells, right)], [])
      else pack_parts interior_cell_len cells right body0 usable (cut_at ?n 0 b + 1) [(take (cut_at ?n 0 b) cells, fst (cells ! cut_at ?n 0 b))] [snd (cells ! cut_at ?n 0 b)])"
    unfolding pack_interior_def by (subst pack_parts.simps) (simp add: Let_def b_def)
  show ?thesis
  proof (cases "?n \<le> b")
    case False
    define bb where "bb = cut_at ?n 0 b"
    have bb: "bb < ?n" "bb = b \<or> bb + 2 = ?n" using False by (auto simp: bb_def cut_at_def)
    have "need_sum (drop (bb + 1) cells) \<le> 120"
      using bb(2)
    proof
      assume "bb = b"
      moreover have "?cap < 0 + need_sum (take (Suc b - 0) (drop 0 cells))" by (rule pack_scan_stop) (use False in \<open>auto simp: b_def\<close>)
      moreover have "need_sum cells = need_sum (take (Suc b) cells) + need_sum (drop (Suc b) cells)"
        unfolding sum_list_append [symmetric] map_append [symmetric] append_take_drop_id ..
      ultimately show ?thesis using assms(1) by simp
    next
      assume "bb + 2 = ?n"
      then have "length (map snd (drop (bb + 1) cells)) = 1" by simp
      then show ?thesis using key_sum_le [of "map snd (drop (bb + 1) cells)"] unfolding need_sum_keys by linarith
    qed
    then have "pack_scan interior_cell_len cells (usable - 12) (bb + 1) (bb + 1) 0 = ?n" using bb(1) assms(2) by (intro pack_scan_all) auto
    then show ?thesis unfolding e bb_def [symmetric] using False by (subst pack_parts.simps) (simp add: Let_def)
  qed (simp add: e)
qed

text \<open>Parts and promoted keys put together again.\<close>

fun unpack_parts :: "'k part list \<Rightarrow> 'k list \<Rightarrow> u32 list \<times> 'k list" where
  "unpack_parts ((pc, pr) # ps) (v # vs) = (map fst pc @ pr # fst (unpack_parts ps vs), map snd pc @ v # snd (unpack_parts ps vs))"
| "unpack_parts ((pc, pr) # ps) [] = (map fst pc @ [pr], map snd pc)"
| "unpack_parts [] vs = ([], [])"

definition part_fits :: "('k \<Rightarrow> nat) \<Rightarrow> nat \<Rightarrow> nat \<Rightarrow> 'k part \<Rightarrow> bool" where
  "part_fits len usable body part \<longleftrightarrow> body + 12 + need_of len (fst part) \<le> usable"

lemma take_in_two: "m \<le> n \<Longrightarrow> n < length xs \<Longrightarrow> drop m xs = take (n - m) (drop m xs) @ xs ! n # drop (n + 1) xs"
  by (metis (no_types, lifting) Cons_nth_drop_Suc Suc_eq_plus1 append_take_drop_id drop_drop le_add_diff_inverse2)

lemma pack_parts_Ok:
  assumes "i \<le> length cells" and "\<forall>c \<in> set cells. body0 + 12 + (len (snd c) + 2) \<le> usable" and "body0 + 12 \<le> usable"
  shows "\<exists>ps vs. pack_parts len cells right body0 usable i parts seps = (parts @ ps, seps @ vs) \<and> length ps = length vs + 1 \<and>
    unpack_parts ps vs = (map fst (drop i cells) @ [right], map snd (drop i cells)) \<and>
    part_fits len usable (if parts = [] then body0 else 0) (hd ps) \<and> list_all (part_fits len usable 0) (tl ps)"
  using assms
proof (induction len cells right body0 usable i parts seps rule: pack_parts.induct)
  case (1 len cells right body0 usable i parts seps)
  define body where "body = (if parts = [] then body0 else 0)"
  define cap where "cap = usable - (body + 12)"
  define b where "b = pack_scan len cells cap i i 0"
  have cap: "\<forall>c \<in> set cells. len (snd c) + 2 \<le> cap" "body + 12 + cap = usable" using "1.prems"(2,3) by (auto simp: cap_def body_def)
  have sc: "b \<le> length cells" "need_of len (take (b - i) (drop i cells)) \<le> cap" "i \<le> b"
    using pack_scan_fits [of 0 cap i i cells len] cap "1.prems"(1) pack_scan_ge [of i len cells cap i 0] by (simp_all add: b_def)
  have e: "pack_parts len cells right body0 usable i parts seps = (if length cells \<le> b then (parts @ [(drop i cells, right)], seps)
      else pack_parts len cells right body0 usable (cut_at (length cells) i b + 1)
        (parts @ [(take (cut_at (length cells) i b - i) (drop i cells), fst (cells ! cut_at (length cells) i b))]) (seps @ [snd (cells ! cut_at (length cells) i b)]))"
    by (subst pack_parts.simps) (simp add: Let_def body_def cap_def b_def)
  show ?case
  proof (cases "length cells \<le> b")
    case True
    then have "take (b - i) (drop i cells) = drop i cells" by simp
    then show ?thesis using e True sc cap by (intro exI [of _ "[(drop i cells, right)]"] exI [of _ "[]"]) (simp add: part_fits_def body_def)
  next
    case False
    define bb where "bb = cut_at (length cells) i b"
    have bb: "i \<le> bb" "bb \<le> b" "bb < length cells" using False sc by (auto simp: bb_def cut_at_def)
    let ?part = "(take (bb - i) (drop i cells), fst (cells ! bb))"
    have "\<exists>ps vs. pack_parts len cells right body0 usable (bb + 1) (parts @ [?part]) (seps @ [snd (cells ! bb)]) = ((parts @ [?part]) @ ps, (seps @ [snd (cells ! bb)]) @ vs) \<and>
      length ps = length vs + 1 \<and> unpack_parts ps vs = (map fst (drop (bb + 1) cells) @ [right], map snd (drop (bb + 1) cells)) \<and>
      part_fits len usable (if parts @ [?part] = [] then body0 else 0) (hd ps) \<and> list_all (part_fits len usable 0) (tl ps)"
      unfolding bb_def by (rule "1.IH" [OF body_def cap_def b_def]) (use False bb "1.prems" in \<open>auto simp: bb_def\<close>)
    then obtain ps vs where r: "pack_parts len cells right body0 usable (bb + 1) (parts @ [?part]) (seps @ [snd (cells ! bb)]) = (parts @ ?part # ps, seps @ snd (cells ! bb) # vs)"
      "length ps = length vs + 1" "unpack_parts ps vs = (map fst (drop (bb + 1) cells) @ [right], map snd (drop (bb + 1) cells))"
      "part_fits len usable 0 (hd ps)" "list_all (part_fits len usable 0) (tl ps)" by auto
    have ne: "ps \<noteq> []" using r(2) by auto
    have dr: "drop i cells = take (bb - i) (drop i cells) @ cells ! bb # drop (bb + 1) cells" using bb(1,3) by (rule take_in_two)
    have "take (b - i) (drop i cells) = take (bb - i) (drop i cells) @ take (b - bb) (drop bb cells)"
      using bb take_add [of "bb - i" "b - bb" "drop i cells"] by simp
    then have "need_of len (take (bb - i) (drop i cells)) \<le> cap" using sc(2) by simp
    then have "part_fits len usable body ?part" using cap(2) by (simp add: part_fits_def)
    moreover have "list_all (part_fits len usable 0) ps" using r(4,5) ne by (cases ps) auto
    moreover have "unpack_parts (?part # ps) (snd (cells ! bb) # vs) = (map fst (drop i cells) @ [right], map snd (drop i cells))"
      using r(3) arg_cong [OF dr, of "map fst"] arg_cong [OF dr, of "map snd"] by simp
    ultimately show ?thesis using e r(1,2) False
      by (intro exI [of _ "?part # ps"] exI [of _ "snd (cells ! bb) # vs"]) (simp add: bb_def body_def)
  qed
qed

section \<open>Pages for the parts\<close>

definition part_page :: "nat \<Rightarrow> pages \<Rightarrow> u32 \<Rightarrow> interior_part \<Rightarrow> bool" where
  "part_page usable h n part \<longleftrightarrow> node_page usable h n (map fst (fst part) @ [snd part]) (map snd (fst part))"

lemma forest_of_parts:
  assumes "forest (table_tree usable h d) lo hi (fst (unpack_parts ps vs)) (snd (unpack_parts ps vs)) xs P" and "length ps = length vs + 1"
    and "list_all2 (part_page usable h) ns ps" and "distinct ns" and "set ns \<inter> P = {}" and "1 \<notin> P"
  shows "forest (table_tree usable h (Suc d)) lo hi ns vs xs (P \<union> set ns)"
  using assms
proof (induction ps vs arbitrary: lo ns xs P rule: unpack_parts.induct)
  case (1 pc pr ps v vs)
  obtain n ns' where ns: "ns = n # ns'" "part_page usable h n (pc, pr)" "list_all2 (part_page usable h) ns' ps" using "1.prems"(3) by (auto simp: list_all2_Cons2)
  have l: "length (map snd pc) + 1 = length (map fst pc @ [pr])" by simp
  obtain xs1 xs2 P1 P2 where p: "forest (table_tree usable h d) lo (sint v) (map fst pc @ [pr]) (map snd pc) xs1 P1"
    "forest (table_tree usable h d) (sint v) hi (fst (unpack_parts ps vs)) (snd (unpack_parts ps vs)) xs2 P2" "lo < sint v" "sint v < hi"
    "xs = xs1 @ xs2" "P = P1 \<union> P2" "P1 \<inter> P2 = {}" using "1.prems"(1) forest_append [OF l, of _ lo hi] by auto
  have "forest (table_tree usable h (Suc d)) (sint v) hi ns' vs xs2 (P2 \<union> set ns')"
    by (rule "1.IH" [OF p(2)]) (use "1.prems" ns p(6) in auto)
  moreover have "table_tree usable h (Suc d) lo (sint v) n xs1 (insert n P1)"
    using p(1) ns(1,2) "1.prems"(5,6) p(6) by (auto simp: part_page_def)
  moreover have "insert n P1 \<inter> (P2 \<union> set ns') = {}" using "1.prems"(4,5) ns(1) p(6,7) by auto
  ultimately have "forest (table_tree usable h (Suc d)) lo hi (n # ns') (v # vs) (xs1 @ xs2) (insert n P1 \<union> (P2 \<union> set ns'))"
    using p(3,4) by (intro forest_ConsI)
  moreover have "insert n P1 \<union> (P2 \<union> set ns') = P \<union> set ns" using p(6) ns(1) by auto
  ultimately show ?case using p(5) ns(1) by simp
next
  case (2 pc pr ps)
  then obtain n where "ns = [n]" "part_page usable h n (pc, pr)" by (auto simp: list_all2_Cons2)
  then show ?case using 2 by (auto simp: part_page_def)
qed simp

definition pick_key :: "'k \<Rightarrow> 'k list \<Rightarrow> nat \<Rightarrow> 'k" where
  "pick_key dflt seps k = (if k < length seps then seps ! k else dflt)"

abbreviation sib_key :: "i64 list \<Rightarrow> nat \<Rightarrow> i64" where
  "sib_key \<equiv> pick_key 0x7FFFFFFFFFFFFFFF"

lemma part_page_cong: "part_page usable h n p \<Longrightarrow> h' n = h n \<Longrightarrow> part_page usable h' n p"
  by (simp add: part_page_def node_page_def)

lemma write_sibling_runs:
  assumes hp: "pager_heap usable ps (Suc k) h s" and j: "j < length parts" and fit: "part_fits interior_cell_len usable 0 (parts ! j)"
  shows "runs (write_sibling ps usable parts seps j) s (\<lambda>(key, n) s'. key = sib_key seps j \<and> n \<noteq> 1 \<and> n \<notin> dom h \<and>
    (\<exists>b. pager_heap usable ps k (h(n \<mapsto> b)) s' \<and> part_page usable (h(n \<mapsto> b)) n (parts ! j)))"
proof -
  obtain pc pr where pj: "parts ! j = (pc, pr)" by (cases "parts ! j")
  have step: "runs (bindA (liftA (serialize_interior ps usable 0 pc pr None)) (\<lambda>buf. bindA (write_page n buf) (\<lambda>_. retA (sib_key seps j, n)))) s'
      (\<lambda>(key, n) s'. key = sib_key seps j \<and> n \<noteq> 1 \<and> n \<notin> dom h \<and> (\<exists>b. pager_heap usable ps k (h(n \<mapsto> b)) s' \<and> part_page usable (h(n \<mapsto> b)) n (parts ! j)))"
    if n: "n \<notin> dom h \<and> 1 < n \<and> pager_heap usable ps k (h(n \<mapsto> replicate ps 0)) s'" for n s'
  proof -
    have n1: "n \<noteq> 1" using n by auto
    obtain buf where buf: "serialize_interior ps usable 0 pc pr None = Ok buf" "length buf = ps"
      "node_page usable (h(n \<mapsto> buf)) n (map fst pc @ [pr]) (map snd pc)"
      using store_node [where right = pr and pre = None and cells = pc, OF conjunct2 [OF conjunct2 [OF n]], of n "replicate ps 0"] fit pj n1
      by (auto simp: part_fits_def prefix_bytes_def)
    show ?thesis unfolding buf(1) bindA_lift_Ok
      by (rule runs_seq [OF ph.heap_wr [of usable ps k "h(n \<mapsto> replicate ps 0)"]])
         (use n n1 buf pj in \<open>auto simp: part_page_def fun_upd_idem_iff\<close>)
  qed
  have ix: "idx parts j = Ok (pc, pr)" using j pj by (simp add: idx_def)
  show ?thesis unfolding write_sibling_def ix bindA_lift_Ok prod.case pick_key_def [symmetric]
    by (rule runs_seq [OF ph.heap_alloc [OF hp]]) (rule step)
qed

text \<open>A loop that allocates and writes one page in each turn.\<close>

lemma alloc_pages_run:
  assumes "j \<le> n" and "pager_heap usable ps (k + (n - j)) h s"
    and turn: "\<And>i k h s. j \<le> i \<Longrightarrow> i < n \<Longrightarrow> pager_heap usable ps (Suc k) h s \<Longrightarrow>
      runs (f i) s (\<lambda>(key, m) s'. key = g i \<and> m \<noteq> 1 \<and> m \<notin> dom h \<and> (\<exists>b. pager_heap usable ps k (h(m \<mapsto> b)) s' \<and> Pg (h(m \<mapsto> b)) m i))"
    and cong: "\<And>h h' m i. Pg h m i \<Longrightarrow> h' m = h m \<Longrightarrow> Pg h' m i"
  shows "runs (mapA f [j..<n]) s (\<lambda>sibs s'. map fst sibs = map g [j..<n] \<and> distinct (map snd sibs) \<and> 1 \<notin> set (map snd sibs) \<and>
    (\<exists>h'. pager_heap usable ps k h' s' \<and> replaces h {} h' (set (map snd sibs)) \<and> list_all2 (Pg h') (map snd sibs) [j..<n]))"
  using assms(1-3)
proof (induction j arbitrary: h s rule: inc_induct)
  case base
  then show ?case by (auto intro!: exI [of _ h] replaces_refl)
next
  case (step j)
  let ?post = "\<lambda>sibs s'. map fst sibs = map g (j # [Suc j..<n]) \<and> distinct (map snd sibs) \<and> 1 \<notin> set (map snd sibs) \<and>
    (\<exists>h'. pager_heap usable ps k h' s' \<and> replaces h {} h' (set (map snd sibs)) \<and> list_all2 (Pg h') (map snd sibs) (j # [Suc j..<n]))"
  have u: "[j..<n] = j # [Suc j..<n]" using step.hyps by (simp add: upt_conv_Cons)
  have hp: "pager_heap usable ps (Suc (k + (n - Suc j))) h s" using step.prems(1) step.hyps by (simp add: Suc_diff_Suc)
  have rest: "runs (bindA (mapA f [Suc j..<n]) (\<lambda>ys. retA ((g j, m) # ys))) s' ?post"
    if m: "m \<noteq> 1" "m \<notin> dom h" "pager_heap usable ps (k + (n - Suc j)) (h(m \<mapsto> b)) s'" "Pg (h(m \<mapsto> b)) m j" for m b s'
  proof (rule runs_seq [OF step.IH [OF m(3)]], rule step.prems(2))
    fix sibs s''
    assume "map fst sibs = map g [Suc j..<n] \<and> distinct (map snd sibs) \<and> 1 \<notin> set (map snd sibs) \<and>
      (\<exists>h'. pager_heap usable ps k h' s'' \<and> replaces (h(m \<mapsto> b)) {} h' (set (map snd sibs)) \<and> list_all2 (Pg h') (map snd sibs) [Suc j..<n])"
    then obtain h' where h': "map fst sibs = map g [Suc j..<n]" "distinct (map snd sibs)" "1 \<notin> set (map snd sibs)"
      "pager_heap usable ps k h' s''" "replaces (h(m \<mapsto> b)) {} h' (set (map snd sibs))" "list_all2 (Pg h') (map snd sibs) [Suc j..<n]" by blast
    have "{m} \<subseteq> dom (h(m \<mapsto> b))" "{m} \<inter> {} = {}" by auto
    note fr = replaces_frame [OF h'(5) this]
    have "replaces h {} h' (insert m (set (map snd sibs)))" using replaces_trans [OF replaces_new [OF m(2,1)], of b] fr(1) by simp
    moreover have "Pg h' m j" using cong [OF m(4)] fr(2) by simp
    moreover have "m \<notin> set (map snd sibs)" using fr(3) by auto
    ultimately show "runs (retA ((g j, m) # sibs)) s'' ?post" using h' m(1) by (intro runs_ret) auto
  qed (use step.prems in auto)
  show ?case unfolding u mapA.simps
  proof (rule runs_seq [OF step.prems(2) [OF _ step.hyps(2) hp]])
    fix x s'
    assume x: "(case x of (key, m) \<Rightarrow> \<lambda>s'. key = g j \<and> m \<noteq> 1 \<and> m \<notin> dom h \<and>
      (\<exists>b. pager_heap usable ps (k + (n - Suc j)) (h(m \<mapsto> b)) s' \<and> Pg (h(m \<mapsto> b)) m j)) s'"
    then obtain m b where m: "x = (g j, m)" "m \<noteq> 1" "m \<notin> dom h" "pager_heap usable ps (k + (n - Suc j)) (h(m \<mapsto> b)) s'" "Pg (h(m \<mapsto> b)) m j"
      by (cases x) blast
    show "runs (bindA (mapA f [Suc j..<n]) (\<lambda>ys. retA (x # ys))) s' ?post" unfolding m(1) by (rule rest [OF m(2-5)])
  qed simp
qed

lemma write_siblings_run:
  assumes j: "j \<le> length parts" and hp: "pager_heap usable ps (k + (length parts - j)) h s"
    and fit: "\<And>i. j \<le> i \<Longrightarrow> i < length parts \<Longrightarrow> part_fits interior_cell_len usable 0 (parts ! i)"
  shows "runs (mapA (write_sibling ps usable parts seps) [j..<length parts]) s (\<lambda>sibs s'. map fst sibs = map (sib_key seps) [j..<length parts] \<and>
    distinct (map snd sibs) \<and> 1 \<notin> set (map snd sibs) \<and>
    (\<exists>h'. pager_heap usable ps k h' s' \<and> replaces h {} h' (set (map snd sibs)) \<and> list_all2 (part_page usable h') (map snd sibs) (drop j parts)))"
proof -
  have l2: "list_all2 (part_page usable h') ms (drop j parts)" if "list_all2 (\<lambda>m i. part_page usable h' m (parts ! i)) ms [j..<length parts]" for h' ms
    using that by (auto simp: list_all2_conv_all_nth)
  show ?thesis
  proof (rule runs_conseq [OF alloc_pages_run [where Pg = "\<lambda>h m i. part_page usable h m (parts ! i)" and f = "write_sibling ps usable parts seps" and g = "sib_key seps", OF j hp]])
    show "runs (write_sibling ps usable parts seps i) s (\<lambda>(key, m) s'. key = sib_key seps i \<and> m \<noteq> 1 \<and> m \<notin> dom h \<and>
      (\<exists>b. pager_heap usable ps k (h(m \<mapsto> b)) s' \<and> part_page usable (h(m \<mapsto> b)) m (parts ! i)))"
      if "j \<le> i" "i < length parts" "pager_heap usable ps (Suc k) h s" for i k h s
      by (rule write_sibling_runs [OF that(3,2) fit [OF that(1,2)]])
    show "part_page usable h' m (parts ! i)" if "part_page usable h m (parts ! i)" "h' m = h m" for h h' m i using that by (rule part_page_cong)
  qed (use l2 in blast)
qed

section \<open>Finishing an interior page\<close>

text \<open>What a level reports to its caller: a tree in place, or a forest that starts at the page.\<close>

fun grown :: "nat \<Rightarrow> pages \<Rightarrow> nat \<Rightarrow> int \<Rightarrow> int \<Rightarrow> u32 \<Rightarrow> leaf_cell list \<Rightarrow> u32 set \<Rightarrow> table_up \<Rightarrow> bool" where
  "grown usable h d lo hi n xs P Fit \<longleftrightarrow> table_tree usable h d lo hi n xs P"
| "grown usable h d lo hi n xs P (SplitUp sp) \<longleftrightarrow> siblings sp \<noteq> [] \<and>
    forest (table_tree usable h d) lo hi (n # map snd (siblings sp)) (first_key sp # map fst (butlast (siblings sp))) xs P"
| "grown usable h d lo hi n xs P (LeafOverfull cells) \<longleftrightarrow> False"

lemma interior_cells_Ok:
  assumes "length kids = length divs + 1"
  shows "mapR (\<lambda>i. bindR (idx kids i) (\<lambda>c. bindR (idx divs i) (\<lambda>k. Ok (c, k)))) [0..<length divs] = Ok (zip kids divs)"
    and "last_of kids = Ok (last kids)"
proof -
  have "mapR (\<lambda>i. bindR (idx kids i) (\<lambda>c. bindR (idx divs i) (\<lambda>k. Ok (c, k)))) [0..<length (zip kids divs)] = Ok (zip kids divs)"
    by (rule mapR_nth) (use assms in \<open>simp add: idx_def\<close>)
  then show "mapR (\<lambda>i. bindR (idx kids i) (\<lambda>c. bindR (idx divs i) (\<lambda>k. Ok (c, k)))) [0..<length divs] = Ok (zip kids divs)" using assms by simp
  show "last_of kids = Ok (last kids)" using assms by (auto simp: last_of_def)
qed

lemma write_one_page:
  assumes hp: "pager_heap usable ps k h s" and n: "h n = Some b" and pre: "prefix_bytes pre = take (root_body n) b" "length (prefix_bytes pre) = root_body n"
    and fit: "part_fits interior_cell_len usable (root_body n) (pc, pr)"
    and cont: "\<And>buf s'. pager_heap usable ps k (h(n \<mapsto> buf)) s' \<Longrightarrow> part_page usable (h(n \<mapsto> buf)) n (pc, pr) \<Longrightarrow> replaces h {n} (h(n \<mapsto> buf)) {n} \<Longrightarrow> runs (f ()) s' Q"
  shows "runs (bindA (liftA (serialize_interior ps usable (root_body n) pc pr pre)) (\<lambda>buf. bindA (write_page n buf) f)) s Q"
proof -
  obtain buf where buf: "serialize_interior ps usable (root_body n) pc pr pre = Ok buf" "length buf = ps"
    "node_page usable (h(n \<mapsto> buf)) n (map fst pc @ [pr]) (map snd pc)" "replaces h {n} (h(n \<mapsto> buf)) {n}"
    using store_node [OF hp n pre, of pc pr] fit by (auto simp: part_fits_def)
  have "n \<in> dom h" using n by auto
  show ?thesis unfolding buf(1) bindA_lift_Ok
    by (rule runs_seq [OF ph.heap_wr [OF hp \<open>n \<in> dom h\<close> buf(2)]]) (use cont buf(3,4) in \<open>auto simp: part_page_def\<close>)
qed

lemma one_part_tree:
  assumes "part_page usable h' n (zip kids divs, last kids)" and "length kids = length divs + 1"
    and "forest (table_tree usable h d) lo hi kids divs xs P" and "n \<notin> P" "1 \<notin> P" and "\<And>m. m \<in> P \<Longrightarrow> h' m = h m"
  shows "table_tree usable h' (Suc d) lo hi n xs (insert n P)"
  using assms(1,4,5) zip_last [OF assms(2)] forest_cong [OF assms(3,6)] by (auto simp: part_page_def)

text \<open>The postcondition of a level above the leaves.\<close>

definition level_post :: "nat \<Rightarrow> nat \<Rightarrow> nat \<Rightarrow> pages \<Rightarrow> nat \<Rightarrow> int \<Rightarrow> int \<Rightarrow> u32 \<Rightarrow> leaf_cell list \<Rightarrow> u32 set \<Rightarrow> nat \<Rightarrow> table_up \<Rightarrow> pst \<Rightarrow> bool" where
  "level_post usable ps k h d lo hi n xs P c up s' \<longleftrightarrow> (\<exists>h' P'. pager_heap usable ps k h' s' \<and> replaces h P h' P' \<and> (1 \<in> P' \<longrightarrow> 1 \<in> P) \<and>
    grown usable h' d lo hi n xs P' up \<and> (case up of SplitUp sp \<Rightarrow> length (siblings sp) \<le> c | _ \<Rightarrow> True))"

lemma level_postI:
  "pager_heap usable ps k h' s' \<Longrightarrow> replaces h P h' P' \<Longrightarrow> (1 \<in> P' \<Longrightarrow> 1 \<in> P) \<Longrightarrow> grown usable h' d lo hi n xs P' up \<Longrightarrow>
    (\<And>sp. up = SplitUp sp \<Longrightarrow> length (siblings sp) \<le> c) \<Longrightarrow> level_post usable ps k h d lo hi n xs P c up s'"
  unfolding level_post_def by (intro exI [of _ h'] exI [of _ P'] conjI impI) (simp_all split: up.split)

lemma level_post_mono:
  assumes "level_post usable ps k h d lo hi n xs P c up s'" and "c \<le> c'"
  shows "level_post usable ps k h d lo hi n xs P c' up s'"
proof -
  obtain h' P' where p: "pager_heap usable ps k h' s'" "replaces h P h' P'" "1 \<in> P' \<longrightarrow> 1 \<in> P" "grown usable h' d lo hi n xs P' up"
    "case up of SplitUp sp \<Rightarrow> length (siblings sp) \<le> c | _ \<Rightarrow> True" using assms(1) unfolding level_post_def by blast
  show ?thesis by (rule level_postI [OF p(1,2) _ p(4)]) (use p(3,5) assms(2) in auto)
qed

lemma sib_keys:
  assumes "length parts = length seps + 1" and "seps \<noteq> []" and "map fst sibs = map (pick_key dflt seps) [1..<length parts]"
  shows "seps ! 0 # map fst (butlast sibs) = seps" and "sibs \<noteq> []" and "length sibs = length seps"
proof -
  have "map fst (butlast sibs) = butlast (map fst sibs)" by (rule map_butlast)
  also have "\<dots> = map (pick_key dflt seps) [1..<length seps]" unfolding assms(3) using assms(1,2) by (cases seps) (simp_all add: butlast_append map_butlast [symmetric])
  also have "\<dots> = map ((!) seps) [1..<length seps]" by (simp add: pick_key_def)
  finally have e: "map fst (butlast sibs) = map ((!) seps) [1..<length seps]" .
  have "seps = map ((!) seps) [0..<length seps]" by (rule map_nth [symmetric])
  also have "[0..<length seps] = 0 # [1..<length seps]" using assms(2) by (simp add: upt_conv_Cons)
  finally show "seps ! 0 # map fst (butlast sibs) = seps" using e by simp
  show l: "length sibs = length seps" using arg_cong [OF assms(3), of length] assms(1) by (simp del: upt_Suc)
  show "sibs \<noteq> []" using l assms(2) by auto
qed

lemma split_siblings_run:
  assumes hp: "pager_heap usable ps (k + length seps) h1 s1" and h1: "h1 = h(n \<mapsto> buf)" and r0: "replaces h {n} h1 {n}"
    and pp: "part_page usable h1 n p0" and len: "length (p0 # parts) = length seps + 1" and ne: "seps \<noteq> []"
    and f: "forest (table_tree usable h d) lo hi (fst (unpack_parts (p0 # parts) seps)) (snd (unpack_parts (p0 # parts) seps)) xs P"
    and P: "n \<notin> P" "1 \<notin> P" and fit: "list_all (part_fits interior_cell_len usable 0) parts"
  shows "runs (bindA (mapA (write_sibling ps usable (p0 # parts) seps) [1..<length (p0 # parts)]) (\<lambda>sibs. retA (SplitUp (Split (seps ! 0) sibs)))) s1
    (level_post usable ps k h (Suc d) lo hi n xs (insert n P) (length seps))"
proof -
  let ?ps = "p0 # parts"
  have own: "P \<subseteq> dom h" using forest_owned [OF f] by blast
  have hp': "pager_heap usable ps (k + (length ?ps - 1)) h1 s1" using hp len by simp
  have fit': "part_fits interior_cell_len usable 0 (?ps ! i)" if "1 \<le> i" "i < length ?ps" for i using that fit by (auto simp: list_all_length nth_Cons')
  show ?thesis
  proof (rule runs_seq [OF write_siblings_run [OF _ hp' fit']])
    fix sibs s'
    assume "map fst sibs = map (sib_key seps) [1..<length ?ps] \<and> distinct (map snd sibs) \<and> 1 \<notin> set (map snd sibs) \<and>
      (\<exists>h'. pager_heap usable ps k h' s' \<and> replaces h1 {} h' (set (map snd sibs)) \<and> list_all2 (part_page usable h') (map snd sibs) (drop 1 ?ps))"
    then obtain h' where h': "map fst sibs = map (sib_key seps) [1..<length ?ps]" "distinct (map snd sibs)" "1 \<notin> set (map snd sibs)"
      "pager_heap usable ps k h' s'" "replaces h1 {} h' (set (map snd sibs))" "list_all2 (part_page usable h') (map snd sibs) parts" by auto
    let ?S = "set (map snd sibs)" let ?R = "insert n P"
    have "?R \<subseteq> dom h1" using own r0 h1 by auto
    note fr = replaces_frame [OF h'(5) this, simplified Int_empty_right, OF refl]
    have "P \<inter> {n} = {}" using P(1) by auto
    then have "replaces h ({n} \<union> P) h1 ({n} \<union> P)" using replaces_frame(1) [OF r0 own] by auto
    then have rr: "replaces h ?R h' (?S \<union> ?R)" using replaces_trans [OF _ fr(1)] by simp
    have keep: "h' m = h m" if "m \<in> P" for m using fr(2) [of m] that P(1) h1 by auto
    have "forest (table_tree usable h' d) lo hi (fst (unpack_parts ?ps seps)) (snd (unpack_parts ?ps seps)) xs P" by (rule forest_cong [OF f keep])
    moreover have "list_all2 (part_page usable h') (n # map snd sibs) ?ps" using h'(6) part_page_cong [OF pp] fr(2) [of n] by simp
    moreover have "set (n # map snd sibs) \<inter> P = {}" "distinct (n # map snd sibs)" using P(1) fr(3) h'(2) by auto
    ultimately have "forest (table_tree usable h' (Suc d)) lo hi (n # map snd sibs) seps xs (P \<union> set (n # map snd sibs))"
      using forest_of_parts [OF _ len] P(2) by blast
    moreover have "P \<union> set (n # map snd sibs) = ?S \<union> ?R" by auto
    ultimately have "grown usable h' (Suc d) lo hi n xs (?S \<union> ?R) (SplitUp (Split (seps ! 0) sibs))"
      using sib_keys [OF len ne h'(1)] by simp
    then show "runs (retA (SplitUp (Split (seps ! 0) sibs))) s' (level_post usable ps k h (Suc d) lo hi n xs ?R (length seps))"
      using sib_keys(3) [OF len ne h'(1)] h'(3) by (intro runs_ret level_postI [OF h'(4) rr]) auto
  qed simp_all
qed

lemma finish_interior_runs:
  assumes hp: "pager_heap usable ps (k + 1) h s" and n: "h n = Some b" and pre: "prefix_bytes pre = take (root_body n) b" "length (prefix_bytes pre) = root_body n"
    and f: "forest (table_tree usable h d) lo hi kids divs xs P" and P: "n \<notin> P" "1 \<notin> P" and ks: "key_sum divs \<le> usable - (root_body n + 12) + 120"
  shows "runs (finish_interior n (root_body n) ps usable kids divs pre) s (level_post usable ps k h (Suc d) lo hi n xs (insert n P) 1)"
proof -
  have len: "length kids = length divs + 1" using f by (rule forest_length)
  note sz = pager_heap_sizes [OF hp]
  have own: "P \<subseteq> dom h" using forest_owned [OF f] by blast
  have body: "root_body n + 27 \<le> usable" using sz(2) by (simp add: root_body_def HEADER_LEN_def)
  let ?cells = "zip kids divs"
  have small: "\<forall>c \<in> set ?cells. root_body n + 12 + (interior_cell_len (snd c) + 2) \<le> usable"
  proof
    show "root_body n + 12 + (interior_cell_len (snd c) + 2) \<le> usable" for c :: interior_cell using body interior_need [of "snd c"] by linarith
  qed
  have z: "map fst ?cells @ [last kids] = kids" "map snd ?cells = divs" using zip_last [OF len] .
  have ft: "interior_fits ?cells (root_body n) usable = Ok (part_fits interior_cell_len usable (root_body n) (?cells, last kids))"
    using body by (auto simp: interior_fits_def usub_def part_fits_def)
  have whole: "runs (retA Fit) s' (level_post usable ps k h (Suc d) lo hi n xs (insert n P) c)"
    if a: "pager_heap usable ps k' (h(n \<mapsto> buf)) s'" "k \<le> k'" "part_page usable (h(n \<mapsto> buf)) n (?cells, last kids)" "replaces h {n} (h(n \<mapsto> buf)) {n}" for s' buf c k'
  proof -
    have "table_tree usable (h(n \<mapsto> buf)) (Suc d) lo hi n xs (insert n P)" by (rule one_part_tree [OF a(3) len f P]) (use P(1) in auto)
    moreover have "replaces h (insert n P) (h(n \<mapsto> buf)) (insert n P)" using replaces_frame(1) [OF a(4) own] P(1) by auto
    ultimately show ?thesis using pager_heap_less [OF a(1,2)] by (intro runs_ret level_postI [where h' = "h(n \<mapsto> buf)" and P' = "insert n P"]) simp_all
  qed
  show ?thesis
  proof (cases "part_fits interior_cell_len usable (root_body n) (?cells, last kids)")
    case True
    show ?thesis unfolding finish_interior_def interior_cells_Ok [OF len] bindA_lift_Ok ft if_P [OF True]
      by (rule write_one_page [OF hp n pre True]) (rule whole, assumption, simp, assumption+)
  next
    case False
    obtain ps' vs where pk: "pack_interior ?cells (last kids) (root_body n) usable = (ps', vs)" "length ps' = length vs + 1"
      "unpack_parts ps' vs = (kids, divs)" "part_fits interior_cell_len usable (root_body n) (hd ps')" "list_all (part_fits interior_cell_len usable 0) (tl ps')"
      using pack_parts_Ok [OF le0 small, of "last kids" "[]" "[]"] body z by (auto simp: pack_interior_def)
    obtain pc pr parts where p: "ps' = (pc, pr) # parts" using pk(2) by (cases ps') auto
    have vl: "length vs \<le> 1" using pack_interior_two [of ?cells usable "root_body n" "last kids", unfolded need_sum_keys z(2)] ks sz(2) pk(1) by simp
    have e: "finish_interior n (root_body n) ps usable kids divs pre =
      bindA (if vs = [] then retA 0 else liftA (Ok (vs ! 0))) (\<lambda>first. bindA (liftA (serialize_interior ps usable (root_body n) pc pr pre)) (\<lambda>buf.
      bindA (write_page n buf) (\<lambda>_. if vs = [] then retA Fit
        else bindA (mapA (write_sibling ps usable ps' vs) [1..<length ps']) (\<lambda>sibs. retA (SplitUp (Split first sibs))))))"
      unfolding finish_interior_def interior_cells_Ok [OF len] bindA_lift_Ok ft if_not_P [OF False] pk(1) Let_def prod.case
      using pk(2) p by (auto simp: idx_def)
    have fits: "part_fits interior_cell_len usable (root_body n) (pc, pr)" using pk(4) p by simp
    show ?thesis
    proof (cases "vs = []")
      case True
      then have "map fst pc @ [pr] = kids" "map snd pc = divs" using pk(2,3) p by simp_all
      then have "pc = ?cells" "pr = last kids" by (auto simp: zip_append1 zip_map_fst_snd)
      then show ?thesis unfolding e using True whole [of "k + 1"]
        by simp (rule write_one_page [OF hp n pre], use fits in simp, simp)
    next
      case vs: False
      have f': "forest (table_tree usable h d) lo hi (fst (unpack_parts ((pc, pr) # parts) vs)) (snd (unpack_parts ((pc, pr) # parts) vs)) xs P"
        using f pk(3) p by simp
      have "runs (bindA (mapA (write_sibling ps usable ps' vs) [1..<length ps']) (\<lambda>sibs. retA (SplitUp (Split (vs ! 0) sibs)))) s'
          (level_post usable ps k h (Suc d) lo hi n xs (insert n P) 1)"
        if a: "pager_heap usable ps (k + 1) (h(n \<mapsto> buf)) s'" "part_page usable (h(n \<mapsto> buf)) n (pc, pr)" "replaces h {n} (h(n \<mapsto> buf)) {n}" for s' buf
        unfolding p
      proof (rule runs_conseq [OF split_siblings_run [OF pager_heap_less [OF a(1)] refl a(3,2) _ vs f' P]])
        show "level_post usable ps k h (Suc d) lo hi n xs (insert n P) 1 up s''"
          if "level_post usable ps k h (Suc d) lo hi n xs (insert n P) (length vs) up s''" for up s''
          using that vl by (rule level_post_mono)
      qed (use pk(2,5) p vl in auto)
      then show ?thesis unfolding e using vs by simp (rule write_one_page [OF hp n pre fits], simp)
    qed
  qed
qed

end
