(* ===== verification/TableRefine.thy ===== *)
theory TableRefine
  imports TableSplit
begin

text \<open>
  The whole insertion: on a page that is the root of a table tree, \<open>insert_table\<close> leaves a table tree at
  the same page whose cells are those of before with the row put in its place (\<open>upd_row\<close>). The proof
  follows the recursion of \<open>insert_rec\<close> (\<open>src/btree/writer.rs\<close>) by induction on the depth.
\<close>

section \<open>Room\<close>

text \<open>
  The pages that an insertion into a tree of a given depth can allocate: at each interior level,
  nine pages for the leaves below and one for the level itself.
\<close>

definition ins_room :: "nat \<Rightarrow> nat" where
  "ins_room d = 10 * d"

section \<open>One level\<close>

lemma level_post_trans:
  assumes "replaces h P h1 P1" and "1 \<in> P1 \<Longrightarrow> 1 \<in> P" and "level_post usable ps k h1 d lo hi n xs P1 c up s'"
  shows "level_post usable ps k h d lo hi n xs P c up s'"
proof -
  obtain h' P' where p: "pager_heap usable ps k h' s'" "replaces h1 P1 h' P'" "1 \<in> P' \<longrightarrow> 1 \<in> P1" "grown usable h' d lo hi n xs P' up"
    "case up of SplitUp sp \<Rightarrow> length (siblings sp) \<le> c | _ \<Rightarrow> True" using assms(3) unfolding level_post_def by blast
  show ?thesis by (rule level_postI [OF p(1) replaces_trans [OF assms(1) p(2)] _ p(4)]) (use p(3,5) assms(2) in auto)
qed

lemma node_page_cong: "node_page usable h n kids divs \<Longrightarrow> h' n = h n \<Longrightarrow> node_page usable h' n kids divs"
  by (simp add: node_page_def)

text \<open>The postcondition of the recursion: at a leaf, the overfull list of cells is a third outcome.\<close>

definition insert_post :: "nat \<Rightarrow> nat \<Rightarrow> nat \<Rightarrow> pages \<Rightarrow> nat \<Rightarrow> int \<Rightarrow> int \<Rightarrow> u32 \<Rightarrow> leaf_cell list \<Rightarrow> u32 set \<Rightarrow> table_up \<Rightarrow> pst \<Rightarrow> bool" where
  "insert_post usable ps k h d lo hi n xs P up s' \<longleftrightarrow>
    (case up of LeafOverfull cells \<Rightarrow> d = 0 \<and> cells = xs \<and> pager_heap usable ps k h s' \<and> \<not> root_body n + 8 + sum_list (map (\<lambda>(_, c). length c + 2) xs) \<le> usable
     | _ \<Rightarrow> level_post usable ps k h d lo hi n xs P 1 up s' \<and> (d = 0 \<longrightarrow> up = Fit))"

lemma insert_leaf_runs:
  assumes hp: "pager_heap usable ps k h s" and t: "table_tree usable h 0 lo hi n xs P" and r: "lo < sint r" "sint r \<le> hi" and c: "leaf_cell_ok usable (r, c)"
  shows "runs (insert_rec (Suc lev) n r c) s (insert_post usable ps k h 0 lo hi n (upd_row r c xs) P)"
proof -
  have l: "leaf_page usable h n xs" "between lo hi xs" "P = {n}" using t by auto
  let ?xs = "upd_row r c xs"
  have ok: "list_all (leaf_cell_ok usable) ?xs" using l(1) upd_row_cells(1) [of r c xs] c by (auto simp: leaf_page_def list_all_iff)
  have up: "between lo hi ?xs" by (rule between_upd [OF l(2) r])
  have "runs (let body = body_offset (bt_page bt) in bindA wp_page_sizes (\<lambda>(usable, psize).
      if bt_type bt = LeafTable then
        bindA (liftA (read_leaf_cells bt usable)) (\<lambda>cells. bindA (liftA (put_cell cells r c)) (\<lambda>cells. bindA (liftA (leaf_fits cells body usable)) (\<lambda>fits.
        if fits then bindA (liftA (page_one_prefix n bt)) (\<lambda>prefix. bindA (liftA (serialize_leaf psize usable body cells prefix)) (\<lambda>buf.
          bindA (write_page n buf) (\<lambda>_. retA Fit))) else retA (LeafOverfull cells)))) else f body usable psize)) s' (insert_post usable ps k h 0 lo hi n ?xs P)"
    if a: "pager_heap usable ps k h s'" "loaded h n bt" "bt_type bt = LeafTable" "read_leaf_cells bt usable = Ok xs" for bt s' f
  proof -
    note sz = pager_heap_sizes [OF a(1)]
    obtain pre where pre: "page_one_prefix n bt = Ok pre" "prefix_bytes pre = take (root_body n) (bt_data bt)" "length (prefix_bytes pre) = root_body n"
      and b: "h n = Some (bt_data bt)" "body_offset (bt_page bt) = root_body n" using a(2) by (auto simp: loaded_def)
    have "root_body n + 8 \<le> usable" using sz(2) by (simp add: root_body_def HEADER_LEN_def)
    then have ft: "leaf_fits ?xs (root_body n) usable = Ok (root_body n + 8 + sum_list (map (\<lambda>(_, c). length c + 2) ?xs) \<le> usable)"
      by (auto simp: leaf_fits_def usub_def)
    show ?thesis
    proof (cases "root_body n + 8 + sum_list (map (\<lambda>(_, c). length c + 2) ?xs) \<le> usable")
      case False
      then show ?thesis using a b ft by (simp add: Let_def runs_sizes [OF a(1)] put_cell_Ok [OF l(2)] insert_post_def)
    next
      case True
      obtain buf where buf: "serialize_leaf ps usable (root_body n) ?xs pre = Ok buf" "length buf = ps" "leaf_page usable (h(n \<mapsto> buf)) n ?xs" "replaces h {n} (h(n \<mapsto> buf)) {n}"
        using store_leaf [OF a(1) b(1) pre(2,3) ok True] by blast
      have "n \<in> dom h" using b by auto
      have "runs (bindA (write_page n buf) (\<lambda>_. retA Fit)) s' (insert_post usable ps k h 0 lo hi n ?xs P)"
        by (rule runs_seq [OF ph.heap_wr [OF a(1) \<open>n \<in> dom h\<close> buf(2)]])
           (use buf(3,4) up l(3) in \<open>auto simp: insert_post_def intro: level_postI\<close>)
      then show ?thesis using a b ft True pre(1) buf(1) by (simp add: Let_def runs_sizes [OF a(1)] put_cell_Ok [OF l(2)])
    qed
  qed
  note step = this
  show ?thesis unfolding insert_rec.simps by (rule runs_seq [OF load_leaf [OF hp l(1)]]) (rule step; simp)
qed

section \<open>Descending\<close>

text \<open>A child of a node, replaced by what its insertion left.\<close>

lemma child_window:
  assumes f: "forest (table_tree usable h d) lo hi kids divs xs P" and r: "slot_of r divs p" "lo < sint r" "sint r \<le> hi"
  obtains xc R PW lo' hi' where "table_tree usable h d lo' hi' (kids ! p) xc PW" and "lo' < sint r" and "sint r \<le> hi'"
    and "P = R \<union> PW" and "R \<inter> PW = {}"
    and "\<And>h' ks' vs' P'. forest (table_tree usable h' d) lo' hi' ks' vs' (upd_row r c xc) P' \<Longrightarrow> R \<inter> P' = {} \<Longrightarrow> (\<And>m. m \<in> R \<Longrightarrow> h' m = h m) \<Longrightarrow>
      forest (table_tree usable h' d) lo hi (take p kids @ ks' @ drop (p + 1) kids) (take p divs @ vs' @ drop p divs) (upd_row r c xs) (R \<union> P')"
proof -
  have len: "length kids = length divs + 1" using f by (rule forest_length)
  have pk: "p + 1 \<le> length kids" using r(1) len by (simp add: slot_of_def)
  obtain xsA xc xsC R PW where w: "forest (table_tree usable h d) (window_lo lo divs p) (window_hi hi divs (p + 1)) (take 1 (drop p kids)) (take (1 - 1) (drop p divs)) xc PW"
    "xs = xsA @ xc @ xsC" "P = R \<union> PW" "R \<inter> PW = {}" "between lo (window_lo lo divs p) xsA" "between (window_hi hi divs (p + 1)) hi xsC"
    and join: "\<And>h' ks' vs' xs' P'. forest (table_tree usable h' d) (window_lo lo divs p) (window_hi hi divs (p + 1)) ks' vs' xs' P' \<Longrightarrow> R \<inter> P' = {} \<Longrightarrow>
      (\<And>m. m \<in> R \<Longrightarrow> h' m = h m) \<Longrightarrow>
      forest (table_tree usable h' d) lo hi (take p kids @ ks' @ drop (p + 1) kids) (take p divs @ vs' @ drop (p + 1 - 1) divs) (xsA @ xs' @ xsC) (R \<union> P')"
    using forest_window [OF f zero_less_one pk] by metis
  have one: "take 1 (drop p kids) = [kids ! p]" using pk by (intro slice_one) simp
  note lr = slot_bounds(1) [OF r(1,2)] slot_bounds(2) [OF r(1,3)]
  have e: "upd_row r c xs = xsA @ upd_row r c xc @ xsC"
    unfolding w(2) upd_row_right [OF w(5) lr(1)] upd_row_left [OF w(6) lr(2)] ..
  show thesis
  proof (rule that [of "window_lo lo divs p" "window_hi hi divs (p + 1)" xc PW R])
    show "forest (table_tree usable h' d) lo hi (take p kids @ ks' @ drop (p + 1) kids) (take p divs @ vs' @ drop p divs) (upd_row r c xs) (R \<union> P')"
      if "forest (table_tree usable h' d) (window_lo lo divs p) (window_hi hi divs (p + 1)) ks' vs' (upd_row r c xc) P'" "R \<inter> P' = {}" "\<And>m. m \<in> R \<Longrightarrow> h' m = h m" for h' ks' vs' P'
      using join [OF that] e by simp
  qed (use w one lr in simp_all)
qed

lemma adopt_split_Ok:
  assumes "length kids = length divs + 1" and "p \<le> length divs" and "siblings sp \<noteq> []"
  shows "adopt_split kids divs p sp = Ok (take p kids @ (kids ! p # map snd (siblings sp)) @ drop (p + 1) kids,
    take p divs @ (first_key sp # map fst (butlast (siblings sp))) @ drop p divs)"
proof (cases "p < length divs")
  case True
  have "drop p divs = divs ! p # drop (p + 1) divs" "take (p + 1) kids = take p kids @ [kids ! p]"
    using True assms(1) by (simp_all add: Cons_nth_drop_Suc take_Suc_conv_app_nth)
  then show ?thesis using True assms by (simp add: adopt_split_def Let_def splice_def)
next
  case False
  then have "take p kids @ [kids ! p] = kids" "drop (p + 1) kids = []" "take p divs = divs" "drop p divs = []"
    using assms(1,2) by (simp_all flip: take_Suc_conv_app_nth)
  then show ?thesis using False assms(3) by (simp add: adopt_split_def Let_def)
qed

lemma child_replaced:
  assumes "replaces h PW h' PW'" and "1 \<in> PW' \<Longrightarrow> 1 \<in> PW" and "P = R \<union> PW" and "R \<inter> PW = {}" and "n \<notin> P" and "1 \<notin> P" and "insert n P \<subseteq> dom h"
  shows "replaces h (insert n P) h' (insert n (R \<union> PW'))" and "R \<inter> PW' = {}" and "n \<notin> R \<union> PW'" and "1 \<notin> R \<union> PW'" and "h' n = h n"
    and "\<And>m. m \<in> R \<Longrightarrow> h' m = h m"
proof -
  have "insert n R \<subseteq> dom h" "insert n R \<inter> PW = {}" using assms(3-7) by auto
  note fr = replaces_frame [OF assms(1) this]
  have "PW \<union> insert n R = insert n P" "PW' \<union> insert n R = insert n (R \<union> PW')" using assms(3) by auto
  then show "replaces h (insert n P) h' (insert n (R \<union> PW'))" using fr(1) by simp
  show "R \<inter> PW' = {}" "n \<notin> R \<union> PW'" "h' n = h n" "\<And>m. m \<in> R \<Longrightarrow> h' m = h m" using fr(2,3) assms(3,5) by auto
  show "1 \<notin> R \<union> PW'" using assms(2,3,6) by auto
qed

text \<open>The node on the way down: its page and the forest below.\<close>

definition at_node :: "nat \<Rightarrow> pages \<Rightarrow> nat \<Rightarrow> int \<Rightarrow> int \<Rightarrow> u32 \<Rightarrow> u32 list \<Rightarrow> i64 list \<Rightarrow> leaf_cell list \<Rightarrow> u32 set \<Rightarrow> bool" where
  "at_node usable h d lo hi n kids divs xs P \<longleftrightarrow> node_page usable h n kids divs \<and> forest (table_tree usable h d) lo hi kids divs xs P \<and> n \<notin> P \<and> 1 \<notin> P"

lemma at_nodeD:
  assumes "at_node usable h d lo hi n kids divs xs P"
  shows "node_page usable h n kids divs" and "forest (table_tree usable h d) lo hi kids divs xs P" and "n \<notin> P" and "1 \<notin> P" and "insert n P \<subseteq> dom h"
    and "length kids = length divs + 1" and "key_sum divs \<le> usable - (root_body n + 12)"
  using assms forest_owned by (fastforce simp: at_node_def node_page_def)+

definition prefix_of :: "pages \<Rightarrow> u32 \<Rightarrow> bytes option \<Rightarrow> bool" where
  "prefix_of h n pre \<longleftrightarrow> (\<exists>b. h n = Some b \<and> prefix_bytes pre = take (root_body n) b) \<and> length (prefix_bytes pre) = root_body n"

lemma finish_after:
  assumes hp: "pager_heap usable ps (k + 1) h' s" and pre: "prefix_of h n pre" "h' n = h n"
    and f: "forest (table_tree usable h' d) lo hi kids divs xs P'" and P: "n \<notin> P'" "1 \<notin> P'" and r: "replaces h (insert n P) h' (insert n P')" and ks: "key_sum divs \<le> usable - (root_body n + 12) + 120"
  shows "runs (finish_interior n (root_body n) ps usable kids divs pre) s (level_post usable ps k h (Suc d) lo hi n xs (insert n P) 1)"
proof -
  obtain b where b: "h' n = Some b" "prefix_bytes pre = take (root_body n) b" "length (prefix_bytes pre) = root_body n" using pre by (auto simp: prefix_of_def)
  show ?thesis
    by (rule runs_conseq [OF finish_interior_runs [OF hp b f P ks]])
       (rule level_post_trans [OF r], use P(2) in auto)
qed

lemma child_fit:
  assumes nd: "at_node usable h d lo hi n kids divs xs P" and r: "slot_of r divs p" "lo < sint r" "sint r \<le> hi"
    and w: "P = R \<union> PW" "R \<inter> PW = {}"
    and join: "\<And>h' ks' vs' P'. forest (table_tree usable h' d) lo' hi' ks' vs' (upd_row r c xc) P' \<Longrightarrow> R \<inter> P' = {} \<Longrightarrow> (\<And>m. m \<in> R \<Longrightarrow> h' m = h m) \<Longrightarrow>
      forest (table_tree usable h' d) lo hi (take p kids @ ks' @ drop (p + 1) kids) (take p divs @ vs' @ drop p divs) (upd_row r c xs) (R \<union> P')"
    and ch: "level_post usable ps k h d lo' hi' (kids ! p) (upd_row r c xc) PW b Fit s1"
  shows "level_post usable ps k h (Suc d) lo hi n (upd_row r c xs) (insert n P) c' Fit s1"
proof -
  note N = at_nodeD [OF nd]
  obtain h' PW' where h': "pager_heap usable ps k h' s1" "replaces h PW h' PW'" "1 \<in> PW' \<longrightarrow> 1 \<in> PW" "table_tree usable h' d lo' hi' (kids ! p) (upd_row r c xc) PW'"
    using ch unfolding level_post_def by auto
  note rp = child_replaced [OF h'(2) _ w N(3,4,5)]
  have "forest (table_tree usable h' d) lo' hi' [kids ! p] [] (upd_row r c xc) PW'" using h'(4) by simp
  note f = join [OF this]
  have pk: "p < length kids" using r(1) N(6) by (simp add: slot_of_def)
  have "take p kids @ [kids ! p] @ drop (p + 1) kids = kids" using pk by (simp add: id_take_nth_drop [symmetric])
  then have "forest (table_tree usable h' d) lo hi kids divs (upd_row r c xs) (R \<union> PW')" using f rp(2,6) h'(3) by simp
  moreover have "node_page usable h' n kids divs" by (rule node_page_cong [OF N(1)]) (use rp(5) h'(3) in simp)
  ultimately have "table_tree usable h' (Suc d) lo hi n (upd_row r c xs) (insert n (R \<union> PW'))" using rp(3,4) h'(3) by auto
  then show ?thesis using rp(1,4) h'(3) by (intro level_postI [OF h'(1), where P' = "insert n (R \<union> PW')"]) auto
qed

lemma child_split:
  assumes nd: "at_node usable h d lo hi n kids divs xs P" and pre: "prefix_of h n pre" and r: "slot_of r divs p" "lo < sint r" "sint r \<le> hi"
    and w: "P = R \<union> PW" "R \<inter> PW = {}"
    and join: "\<And>h' ks' vs' P'. forest (table_tree usable h' d) lo' hi' ks' vs' (upd_row r c xc) P' \<Longrightarrow> R \<inter> P' = {} \<Longrightarrow> (\<And>m. m \<in> R \<Longrightarrow> h' m = h m) \<Longrightarrow>
      forest (table_tree usable h' d) lo hi (take p kids @ ks' @ drop (p + 1) kids) (take p divs @ vs' @ drop p divs) (upd_row r c xs) (R \<union> P')"
    and ch: "level_post usable ps (k + 1) h d lo' hi' (kids ! p) (upd_row r c xc) PW 1 (SplitUp sp) s1"
  shows "runs (bindA (liftA (adopt_split kids divs p sp)) (\<lambda>(kids, divs). finish_interior n (root_body n) ps usable kids divs pre)) s1
    (level_post usable ps k h (Suc d) lo hi n (upd_row r c xs) (insert n P) 1)"
proof -
  note N = at_nodeD [OF nd]
  let ?ks = "kids ! p # map snd (siblings sp)" let ?vs = "first_key sp # map fst (butlast (siblings sp))"
  obtain h' PW' where h': "pager_heap usable ps (k + 1) h' s1" "replaces h PW h' PW'" "1 \<in> PW' \<longrightarrow> 1 \<in> PW" "siblings sp \<noteq> []"
    "forest (table_tree usable h' d) lo' hi' ?ks ?vs (upd_row r c xc) PW'" "length (siblings sp) \<le> 1"
    using ch unfolding level_post_def grown.simps up.case by blast
  note rp = child_replaced [OF h'(2) _ w N(3,4,5)]
  have p: "p \<le> length divs" using r(1) by (simp add: slot_of_def)
  let ?kids = "take p kids @ ?ks @ drop (p + 1) kids" let ?divs = "take p divs @ ?vs @ drop p divs"
  have f: "forest (table_tree usable h' d) lo hi ?kids ?divs (upd_row r c xs) (R \<union> PW')" by (rule join [OF h'(5)]) (use rp(2,6) h'(3) in auto)
  have "length ?vs = 1" using h'(4,6) by (cases "siblings sp") auto
  then have ks: "key_sum ?divs \<le> usable - (root_body n + 12) + 120"
    using key_sum_splice [of p p divs ?vs] key_sum_le [of ?vs] N(7) by linarith
  show ?thesis unfolding adopt_split_Ok [OF N(6) p h'(4)] bindA_lift_Ok prod.case
    by (rule finish_after [OF h'(1) pre _ f _ _ rp(1) ks]) (use rp(3,4,5) h'(3) in auto)
qed

lemma child_overfull:
  assumes nd: "at_node usable h 0 lo hi n kids divs xs P" and pre: "prefix_of h n pre" and r: "slot_of r divs p" "lo < sint r" "sint r \<le> hi"
    and c: "leaf_cell_ok usable (r, c)" and lp: "leaf_page usable h (kids ! p) xc" and hp: "pager_heap usable ps (k + 9 + 1) h s1"
  shows "runs (bindA (balance_leaf_into kids divs p (upd_row r c xc)) (\<lambda>(kids, divs). finish_interior n (root_body n) ps usable kids divs pre)) s1
    (level_post usable ps k h 1 lo hi n (upd_row r c xs) (insert n P) 1)"
proof -
  note N = at_nodeD [OF nd]
  have hp': "pager_heap usable ps (k + 1 + 9) h s1" using hp by (simp add: ac_simps)
  show ?thesis
  proof (rule runs_seq [OF balance_leaf_into_runs [OF hp' N(2,4) r c lp refl]])
    fix x s2
    assume "(case x of (kids', divs') \<Rightarrow> \<lambda>s'. key_sum divs' \<le> key_sum divs + 120 \<and> (\<exists>h' P'. pager_heap usable ps (k + 1) h' s' \<and>
      replaces h P h' P' \<and> 1 \<notin> P' \<and> forest (table_tree usable h' 0) lo hi kids' divs' (upd_row r c xs) P')) s2"
    then obtain kids' divs' h' P' where x: "x = (kids', divs')" "key_sum divs' \<le> key_sum divs + 120" "pager_heap usable ps (k + 1) h' s2"
      "replaces h P h' P'" "1 \<notin> P'" "forest (table_tree usable h' 0) lo hi kids' divs' (upd_row r c xs) P'" by (cases x) blast
    note rp = child_replaced [OF x(4) _ _ _ N(3,4,5), of "{}"]
    have ks: "key_sum divs' \<le> usable - (root_body n + 12) + 120" using x(2) N(7) by linarith
    have "runs (finish_interior n (root_body n) ps usable kids' divs' pre) s2 (level_post usable ps k h (Suc 0) lo hi n (upd_row r c xs) (insert n P) 1)"
      by (rule finish_after [OF x(3) pre _ x(6) _ x(5) _ ks]) (use rp(1,3,5) x(5) in auto)
    then show "runs (case x of (kids, divs) \<Rightarrow> finish_interior n (root_body n) ps usable kids divs pre) s2 (level_post usable ps k h 1 lo hi n (upd_row r c xs) (insert n P) 1)"
      using x(1) by simp
  qed
qed

section \<open>The recursion\<close>

lemma insert_child_done:
  assumes nd: "at_node usable h d lo hi n kids divs xs P" and pre: "prefix_of h n pre" and r: "slot_of r divs p" "lo < sint r" "sint r \<le> hi"
    and c: "leaf_cell_ok usable (r, c)" and t: "table_tree usable h d lo' hi' (kids ! p) xc PW" and w: "P = R \<union> PW" "R \<inter> PW = {}"
    and join: "\<And>h' ks' vs' P'. forest (table_tree usable h' d) lo' hi' ks' vs' (upd_row r c xc) P' \<Longrightarrow> R \<inter> P' = {} \<Longrightarrow> (\<And>m. m \<in> R \<Longrightarrow> h' m = h m) \<Longrightarrow>
      forest (table_tree usable h' d) lo hi (take p kids @ ks' @ drop (p + 1) kids) (take p divs @ vs' @ drop p divs) (upd_row r c xs) (R \<union> P')"
    and ch: "insert_post usable ps (k + 9 + 1) h d lo' hi' (kids ! p) (upd_row r c xc) PW up s1"
  shows "runs (case up of
        Fit \<Rightarrow> retA Fit
      | LeafOverfull child_cells \<Rightarrow> bindA (balance_leaf_into kids divs p child_cells) (\<lambda>(kids, divs). finish_interior n (root_body n) ps usable kids divs pre)
      | SplitUp sp \<Rightarrow> bindA (liftA (adopt_split kids divs p sp)) (\<lambda>(kids, divs). finish_interior n (root_body n) ps usable kids divs pre)) s1
    (insert_post usable ps k h (Suc d) lo hi n (upd_row r c xs) (insert n P))"
proof -
  have ip: "insert_post usable ps k h (Suc d) lo hi n (upd_row r c xs) (insert n P) up' s'"
    if "level_post usable ps k h (Suc d) lo hi n (upd_row r c xs) (insert n P) 1 up' s'" for up' s'
    using that by (cases up') (auto simp: insert_post_def level_post_def)
  have less: "level_post usable ps j h d lo' hi' (kids ! p) (upd_row r c xc) PW 1 up s1"
    if a: "level_post usable ps (k + 9 + 1) h d lo' hi' (kids ! p) (upd_row r c xc) PW 1 up s1"
      "j \<le> k + 9 + 1" for j
  proof -
    obtain h' P' where l: "pager_heap usable ps (k + 9 + 1) h' s1" "replaces h PW h' P'" "1 \<in> P' \<longrightarrow> 1 \<in> PW"
      "grown usable h' d lo' hi' (kids ! p) (upd_row r c xc) P' up" "case up of SplitUp sp \<Rightarrow> length (siblings sp) \<le> 1 | _ \<Rightarrow> True"
      using a(1) unfolding level_post_def by blast
    show ?thesis by (rule level_postI [OF pager_heap_less [OF l(1) a(2)] l(2) _ l(4)]) (use l(3,5) in auto)
  qed
  show ?thesis
  proof (cases up)
    case Fit
    have "level_post usable ps k h d lo' hi' (kids ! p) (upd_row r c xc) PW 1 Fit s1" using less [of k] ch Fit by (simp add: insert_post_def)
    from child_fit [OF nd r w join this] have "level_post usable ps k h (Suc d) lo hi n (upd_row r c xs) (insert n P) 1 Fit s1" .
    then show ?thesis unfolding Fit up.case by (intro runs_ret ip)
  next
    case (LeafOverfull cells)
    then have d: "d = 0" "cells = upd_row r c xc" "pager_heap usable ps (k + 9 + 1) h s1" using ch by (auto simp: insert_post_def)
    have lp: "leaf_page usable h (kids ! p) xc" using t d(1) by simp
    have "runs (bindA (balance_leaf_into kids divs p cells) (\<lambda>(kids, divs). finish_interior n (root_body n) ps usable kids divs pre)) s1
        (level_post usable ps k h 1 lo hi n (upd_row r c xs) (insert n P) 1)"
      unfolding d(2) by (rule child_overfull [OF nd [unfolded d(1)] pre r c lp d(3)])
    then have "runs (bindA (balance_leaf_into kids divs p cells) (\<lambda>(kids, divs). finish_interior n (root_body n) ps usable kids divs pre)) s1
        (level_post usable ps k h (Suc d) lo hi n (upd_row r c xs) (insert n P) 1)" using d(1) by simp
    then show ?thesis unfolding LeafOverfull up.case by (rule runs_conseq) (rule ip)
  next
    case (SplitUp sp)
    have "level_post usable ps (k + 1) h d lo' hi' (kids ! p) (upd_row r c xc) PW 1 (SplitUp sp) s1"
      using less [of "k + 1"] ch SplitUp by (simp add: insert_post_def)
    note sl = this
    have "runs (bindA (liftA (adopt_split kids divs p sp)) (\<lambda>(kids, divs). finish_interior n (root_body n) ps usable kids divs pre)) s1
        (level_post usable ps k h (Suc d) lo hi n (upd_row r c xs) (insert n P) 1)" by (rule child_split [OF nd pre r w join sl])
    then show ?thesis unfolding SplitUp up.case by (rule runs_conseq) (rule ip)
  qed
qed

lemma insert_rec_runs:
  assumes "pager_heap usable ps (k + ins_room d) h s" and "table_tree usable h d lo hi n xs P" and "lo < sint r" and "sint r \<le> hi"
    and c: "leaf_cell_ok usable (r, c)" and "d < lev"
  shows "runs (insert_rec lev n r c) s (insert_post usable ps k h d lo hi n (upd_row r c xs) P)"
  using assms(1-4,6)
proof (induction d arbitrary: k h s lo hi n xs P lev)
  case 0
  then obtain l where l: "lev = Suc l" by (cases lev) auto
  show ?case unfolding l by (rule insert_leaf_runs) (use 0 c in \<open>auto simp: ins_room_def\<close>)
next
  case (Suc d)
  obtain l where l: "lev = Suc l" "d < l" using Suc.prems(5) by (cases lev) auto
  obtain kids divs P0 where nd: "at_node usable h d lo hi n kids divs xs P0" "P = insert n P0"
    using Suc.prems(2) by (auto simp: at_node_def)
  note N = at_nodeD [OF nd(1)]
  let ?p = "child_slot r divs" let ?k = "k + 9 + 1"
  have so: "slot_of r divs ?p" by (rule child_slot_of)
  obtain lo' hi' xc PW R where w: "table_tree usable h d lo' hi' (kids ! ?p) xc PW" "lo' < sint r" "sint r \<le> hi'" "P0 = R \<union> PW" "R \<inter> PW = {}"
    and join: "\<And>h' ks' vs' P'. forest (table_tree usable h' d) lo' hi' ks' vs' (upd_row r c xc) P' \<Longrightarrow> R \<inter> P' = {} \<Longrightarrow> (\<And>m. m \<in> R \<Longrightarrow> h' m = h m) \<Longrightarrow>
      forest (table_tree usable h' d) lo hi (take ?p kids @ ks' @ drop (?p + 1) kids) (take ?p divs @ vs' @ drop ?p divs) (upd_row r c xs) (R \<union> P')"
    using child_window [OF N(2) so Suc.prems(3,4), where c = c] by metis
  have pk: "idx kids ?p = Ok (kids ! ?p)" using so N(6) by (simp add: slot_of_def idx_def)
  have IH: "runs (insert_rec l (kids ! ?p) r c) s' (insert_post usable ps ?k h d lo' hi' (kids ! ?p) (upd_row r c xc) PW)"
    if "pager_heap usable ps (k + ins_room (Suc d)) h s'" for s'
    by (rule Suc.IH [OF _ w(1-3) l(2)]) (use that in \<open>simp add: ins_room_def ac_simps\<close>)
  show ?case unfolding l(1) insert_rec.simps
  proof (rule runs_seq [OF load_node [OF Suc.prems(1) N(1)]])
    fix bt s'
    assume a: "pager_heap usable ps (k + ins_room (Suc d)) h s' \<and> loaded h n bt \<and> bt_type bt = InteriorTable \<and> read_node bt = Ok (kids, divs) \<and>
      right_pointer bt = last kids \<and> mapR (\<lambda>i. bindR (child_pointer bt i) (\<lambda>c. bindR (table_interior_key bt i) (\<lambda>k. Ok (c, k)))) [0..<num_cells bt] = Ok (zip kids divs)"
    then obtain pre where pre: "page_one_prefix n bt = Ok pre" "prefix_of h n pre" "body_offset (bt_page bt) = root_body n" by (auto simp: loaded_def prefix_of_def)
    have hp: "pager_heap usable ps (k + ins_room (Suc d)) h s'" and t: "bt_type bt = InteriorTable" "read_node bt = Ok (kids, divs)" using a by simp_all
    show "runs (let body = body_offset (bt_page bt) in bindA wp_page_sizes (\<lambda>(usable, psize).
        if bt_type bt = LeafTable then bindA (liftA (read_leaf_cells bt usable)) (\<lambda>cells. bindA (liftA (put_cell cells r c)) (\<lambda>cells.
          bindA (liftA (leaf_fits cells body usable)) (\<lambda>fits. if fits then bindA (liftA (page_one_prefix n bt)) (\<lambda>prefix.
            bindA (liftA (serialize_leaf psize usable body cells prefix)) (\<lambda>buf. bindA (write_page n buf) (\<lambda>_. retA Fit))) else retA (LeafOverfull cells))))
        else if bt_type bt = InteriorTable then bindA (liftA (read_node bt)) (\<lambda>(kids, dividers). bindA (liftA (page_one_prefix n bt)) (\<lambda>prefix.
          let p = child_slot r dividers in bindA (liftA (idx kids p)) (\<lambda>child. bindA (insert_rec l child r c) (\<lambda>up. case up of Fit \<Rightarrow> retA Fit
            | LeafOverfull child_cells \<Rightarrow> bindA (balance_leaf_into kids dividers p child_cells) (\<lambda>(kids, dividers). finish_interior n body psize usable kids dividers prefix)
            | SplitUp s \<Rightarrow> bindA (liftA (adopt_split kids dividers p s)) (\<lambda>(kids, dividers). finish_interior n body psize usable kids dividers prefix)))))
        else liftA (Err (Corrupt ''insert into a non-table b-tree'')))) s' (insert_post usable ps k h (Suc d) lo hi n (upd_row r c xs) P)"
      unfolding nd(2) by (simp only: Let_def pre(1,3) runs_sizes [OF hp] prod.case t page_type.distinct simp_thms if_False if_True bindA_lift_Ok pk)
        (rule runs_seq [OF IH [OF hp]], rule insert_child_done [OF nd(1) pre(2) so Suc.prems(3,4) c w(1,4,5) join])
  qed
qed

end
