(* ===== verification/TableRoot.thy ===== *)
theory TableRoot
  imports TableRefine
begin

text \<open>
  The root of a table keeps its page number when the tree grows: \<open>grow_root\<close> moves the content of a root
  that split to a fresh page, \<open>deepen_leaf_root\<close> spreads the cells of an overfull leaf root over fresh
  leaves, and both turn the root into an interior page over them (\<open>src/btree/writer.rs\<close>).
\<close>

lemma bindA_retA: "bindA m retA = m"
  by (rule ext) (simp add: bindA_def retA_def split: prod.split res.split)

section \<open>An interior root that split\<close>

lemma split_root:
  assumes g: "grown usable h (Suc d) lo hi n xs P (SplitUp sp)" and one: "length (siblings sp) \<le> 1" "1 \<in> P \<Longrightarrow> n = 1"
  obtains k0 pg kids divs P0 P2 xs1 xs2 where "siblings sp = [(k0, pg)]" and "node_page usable h n kids divs"
    and "forest (table_tree usable h d) lo (sint (first_key sp)) kids divs xs1 P0" and "table_tree usable h (Suc d) (sint (first_key sp)) hi pg xs2 P2"
    and "lo < sint (first_key sp)" and "sint (first_key sp) < hi" and "xs = xs1 @ xs2" and "P = insert n (P0 \<union> P2)" and "n \<notin> P0 \<union> P2" and "P0 \<inter> P2 = {}"
    and "1 \<notin> P0 \<union> P2"
proof -
  obtain k0 pg where s: "siblings sp = [(k0, pg)]" using g one(1) by (cases "siblings sp") auto
  obtain xs1 xs2 P1 P2 where p: "table_tree usable h (Suc d) lo (sint (first_key sp)) n xs1 P1" "table_tree usable h (Suc d) (sint (first_key sp)) hi pg xs2 P2"
    "lo < sint (first_key sp)" "sint (first_key sp) < hi" "xs = xs1 @ xs2" "P = P1 \<union> P2" "P1 \<inter> P2 = {}"
    using g s by (simp del: table_tree.simps) blast
  obtain kids divs P0 where k: "node_page usable h n kids divs" "forest (table_tree usable h d) lo (sint (first_key sp)) kids divs xs1 P0" "n \<notin> P0" "1 \<notin> P0"
    "P1 = insert n P0" using p(1) by auto
  have "n \<notin> P2" "P0 \<inter> P2 = {}" using p(7) k(5) by auto
  moreover have "1 \<notin> P2" using one(2) p(6) \<open>n \<notin> P2\<close> by auto
  ultimately show thesis using p(6) k(3-5) by (intro that [OF s k(1,2) p(2-5)]) auto
qed

lemma grown_root_tree:
  assumes nd: "node_page usable h' n [m, pg] [v]" and nl: "node_page usable h' m kids divs"
    and f: "forest (table_tree usable h d) lo (sint v) kids divs xs1 P0" and t: "table_tree usable h (Suc d) (sint v) hi pg xs2 P2"
    and v: "lo < sint v" "sint v < hi" and P: "n \<notin> P0 \<union> P2" "P0 \<inter> P2 = {}" "1 \<notin> P0 \<union> P2" and m: "m \<notin> insert n (P0 \<union> P2)" "m \<noteq> 1"
    and keep: "\<And>p. p \<in> P0 \<union> P2 \<Longrightarrow> h' p = h p"
  shows "table_tree usable h' (Suc (Suc d)) lo hi n (xs1 @ xs2) (insert n (insert m (P0 \<union> P2)))"
proof -
  have "forest (table_tree usable h' d) lo (sint v) kids divs xs1 P0" by (rule forest_cong [OF f]) (use keep in auto)
  then have "table_tree usable h' (Suc d) lo (sint v) m xs1 (insert m P0)" using nl P(3) m by auto
  moreover have "table_tree usable h' (Suc d) (sint v) hi pg xs2 P2" by (rule table_tree_cong [OF t]) (use keep in auto)
  ultimately have "forest (table_tree usable h' (Suc d)) lo hi [m, pg] [v] (xs1 @ xs2) (insert m P0 \<union> P2)"
    using v P(2) m(1) by (intro forest_ConsI) (auto simp del: table_tree.simps)
  moreover have "n \<notin> insert m P0 \<union> P2" "1 \<notin> insert m P0 \<union> P2" using P m by auto
  ultimately show ?thesis unfolding table_tree.simps(2) [of usable h' "Suc d"] using nd
    by (intro exI [of _ "[m, pg]"] exI [of _ "[v]"] exI [of _ "insert m P0 \<union> P2"]) (simp del: table_tree.simps)
qed

lemma grow_root_runs:
  assumes hp: "pager_heap usable ps (k + 1) h s" and g: "grown usable h (Suc d) lo hi n xs P (SplitUp sp)"
    and one: "length (siblings sp) \<le> 1" "1 \<in> P \<Longrightarrow> n = 1" and own: "P \<subseteq> dom h"
  shows "runs (grow_root n sp) s (\<lambda>_ s'. \<exists>h' P'. pager_heap usable ps k h' s' \<and> replaces h P h' P' \<and> (1 \<in> P' \<longrightarrow> n = 1) \<and>
    table_tree usable h' (Suc (Suc d)) lo hi n xs P')" (is "runs _ _ ?post")
proof -
  obtain k0 pg kids divs P0 P2 xs1 xs2 where sr: "siblings sp = [(k0, pg)]" "node_page usable h n kids divs"
    "forest (table_tree usable h d) lo (sint (first_key sp)) kids divs xs1 P0" "table_tree usable h (Suc d) (sint (first_key sp)) hi pg xs2 P2"
    "lo < sint (first_key sp)" "sint (first_key sp) < hi" "xs = xs1 @ xs2" "P = insert n (P0 \<union> P2)" "n \<notin> P0 \<union> P2" "P0 \<inter> P2 = {}" "1 \<notin> P0 \<union> P2"
    using split_root [OF g one] by metis
  note sz = pager_heap_sizes [OF hp]
  have len: "length kids = length divs + 1" using sr(2) by (simp add: node_page_def)
  note z = zip_last [OF len]
  have root: "runs (bindA (liftA (serialize_interior ps usable (root_body n) [(m, first_key sp)] pg pre)) (\<lambda>buf. write_page n buf)) s2 ?post"
    if m: "m \<notin> dom h" "m \<noteq> 1" and h2: "pager_heap usable ps k (h(m \<mapsto> b1)) s2" "node_page usable (h(m \<mapsto> b1)) m kids divs" and pre: "prefix_of h n pre" for m b1 s2 pre
  proof -
    let ?h = "h(m \<mapsto> b1)"
    obtain b where b: "h n = Some b" "prefix_bytes pre = take (root_body n) b" "length (prefix_bytes pre) = root_body n" using pre by (auto simp: prefix_of_def)
    have mn: "m \<noteq> n" "m \<notin> P" using m(1) b(1) own by auto
    have hn: "?h n = Some b" using b(1) mn by simp
    have "root_body n + 12 + 15 \<le> usable" using sz(2) by (simp add: root_body_def HEADER_LEN_def)
    then have fit: "part_fits interior_cell_len usable (root_body n) ([(m, first_key sp)], pg)" using interior_need [of "first_key sp"] by (simp add: part_fits_def)
    have fin: "runs (retA ()) s3 ?post" if a: "pager_heap usable ps k (?h(n \<mapsto> buf)) s3" "part_page usable (?h(n \<mapsto> buf)) n ([(m, first_key sp)], pg)"
      "replaces ?h {n} (?h(n \<mapsto> buf)) {n}" for buf s3
    proof -
      let ?h3 = "?h(n \<mapsto> buf)"
      have nl: "node_page usable ?h3 m kids divs" by (rule node_page_cong [OF h2(2)]) (use mn in simp)
      have "table_tree usable ?h3 (Suc (Suc d)) lo hi n (xs1 @ xs2) (insert n (insert m (P0 \<union> P2)))"
        by (rule grown_root_tree [OF _ nl sr(3-6,9-11)]) (use a(2) mn m sr(8,9) in \<open>auto simp: part_page_def\<close>)
      then have tr: "table_tree usable ?h3 (Suc (Suc d)) lo hi n xs (insert m P)" unfolding sr(7,8) by (simp add: insert_commute del: table_tree.simps)
      have r1: "replaces h P ?h (insert m P)" using replaces_frame(1) [OF replaces_new [OF m], of P b1] own by simp
      have "insert m (P - {n}) \<subseteq> dom ?h" "insert m (P - {n}) \<inter> {n} = {}" using own mn(1) by auto
      from replaces_frame(1) [OF a(3) this] have "replaces ?h (insert m P) ?h3 (insert m P)"
        using sr(8) by (simp add: insert_commute insert_absorb Un_commute)
      then have "replaces h P ?h3 (insert m P)" by (rule replaces_trans [OF r1])
      moreover have "1 \<in> insert m P \<longrightarrow> n = 1" using one(2) m(2) by auto
      ultimately show ?thesis using a(1) tr by (intro runs_ret exI [of _ ?h3] exI [of _ "insert m P"] conjI)
    qed
    have "runs (bindA (liftA (serialize_interior ps usable (root_body n) [(m, first_key sp)] pg pre)) (\<lambda>buf. bindA (write_page n buf) retA)) s2 ?post"
      by (rule write_one_page [OF h2(1) hn b(2,3) fit]) (simp only: fin)
    then show ?thesis unfolding bindA_retA .
  qed
  show ?thesis unfolding grow_root_def runs_sizes [OF hp] prod.case
  proof (rule runs_seq [OF load_node [OF hp sr(2)]])
    fix bt s1
    assume a: "pager_heap usable ps (k + 1) h s1 \<and> loaded h n bt \<and> bt_type bt = InteriorTable \<and> read_node bt = Ok (kids, divs) \<and> right_pointer bt = last kids \<and>
      mapR (\<lambda>i. bindR (child_pointer bt i) (\<lambda>c. bindR (table_interior_key bt i) (\<lambda>k. Ok (c, k)))) [0..<num_cells bt] = Ok (zip kids divs)"
    then obtain pre where pre: "page_one_prefix n bt = Ok pre" "prefix_of h n pre" "body_offset (bt_page bt) = root_body n" by (auto simp: loaded_def prefix_of_def)
    have hp1: "pager_heap usable ps (Suc k) h s1" using a by simp
    have fit: "12 + need_sum (zip kids divs) \<le> usable" unfolding need_sum_keys z(2) using sr(2) by (simp add: node_page_def)
    have re: "reserialize bt usable ps = serialize_interior ps usable 0 (zip kids divs) (last kids) None" using a by (simp add: reserialize_def)
    show "runs (bindA (liftA (page_one_prefix n bt)) (\<lambda>prefix. bindA allocate_page (\<lambda>new_left. bindA (liftA (reserialize bt usable ps)) (\<lambda>relocated.
        bindA (write_page new_left relocated) (\<lambda>_. bindA (liftA (last_of (siblings sp))) (\<lambda>last.
        let cells = (new_left, first_key sp) # map (\<lambda>(k, pg). (pg, k)) (butlast (siblings sp)) in
        bindA (liftA (serialize_interior ps usable (body_offset (bt_page bt)) cells (snd last) prefix)) (\<lambda>buf. write_page n buf))))))) s1 ?post"
      unfolding pre(1,3) bindA_lift_Ok re sr(1)
    proof (rule runs_seq [OF ph.heap_alloc [OF hp1]])
      fix m s2
      assume m: "m \<notin> dom h \<and> 1 < m \<and> pager_heap usable ps k (h(m \<mapsto> replicate ps 0)) s2"
      then have m1: "m \<noteq> 1" and hp2: "pager_heap usable ps k (h(m \<mapsto> replicate ps 0)) s2" by auto
      let ?k = "\<lambda>_. bindA (liftA (serialize_interior ps usable (root_body n) [(m, first_key sp)] pg pre)) (\<lambda>buf. write_page n buf)"
      have "runs (bindA (liftA (serialize_interior ps usable (root_body m) (zip kids divs) (last kids) None)) (\<lambda>buf. bindA (write_page m buf) ?k)) s2 ?post"
      proof (rule write_one_page [OF hp2])
        show "(h(m \<mapsto> replicate ps 0)) m = Some (replicate ps 0)" by simp
        show "part_fits interior_cell_len usable (root_body m) (zip kids divs, last kids)" using fit m1 by (simp add: part_fits_def)
        fix buf s3
        assume p: "pager_heap usable ps k (h(m \<mapsto> replicate ps 0, m \<mapsto> buf)) s3" "part_page usable (h(m \<mapsto> replicate ps 0, m \<mapsto> buf)) m (zip kids divs, last kids)"
        then have "node_page usable (h(m \<mapsto> buf)) m kids divs" using z by (simp add: part_page_def)
        then show "runs (?k ()) s3 ?post" using root [OF _ m1 _ _ pre(2), of buf s3] p(1) m by simp
      qed (use m1 in \<open>simp_all add: prefix_bytes_def\<close>)
      then show "runs (bindA (liftA (serialize_interior ps usable 0 (zip kids divs) (last kids) None)) (\<lambda>relocated. bindA (write_page m relocated) (\<lambda>_.
          bindA (liftA (last_of [(k0, pg)])) (\<lambda>last. let cells = (m, first_key sp) # map (\<lambda>(k, pg). (pg, k)) (butlast [(k0, pg)]) in
          bindA (liftA (serialize_interior ps usable (root_body n) cells (snd last) pre)) (\<lambda>buf. write_page n buf))))) s2 ?post"
        using m1 by (simp add: last_of_def)
    qed
  qed
qed

section \<open>A leaf root that overflowed\<close>

lemma whole_seed: "xs \<noteq> [] \<Longrightarrow> seeds_ok (map f xs) 1 [length xs]"
  by (simp add: seeds_ok_def start_of_def)

lemma deepen_leaf_root_runs:
  assumes hp: "pager_heap usable ps (k + 6) h s" and old: "leaf_page usable h n ys"
    and xs: "xs \<noteq> []" "list_all (leaf_cell_ok usable) xs" "between lo hi xs" "cell_sum xs \<le> 2 * (usable - 8)"
  shows "runs (deepen_leaf_root n xs) s (\<lambda>_ s'. \<exists>h' P'. pager_heap usable ps k h' s' \<and> replaces h {n} h' P' \<and> (1 \<in> P' \<longrightarrow> n = 1) \<and>
    table_tree usable h' 1 lo hi n xs P')" (is "runs _ _ ?post")
proof -
  note sz = pager_heap_sizes [OF hp]
  have root: "runs (bindA (liftA (serialize_interior ps usable (root_body n) (zip kept divs) (last kept) pre)) (\<lambda>buf. write_page n buf)) s2 ?post"
    if r: "replaces h {} h2 (set kept)" and h2: "pager_heap usable ps k h2 s2" "1 \<notin> set kept" "length kept \<le> 5"
      "forest (table_tree usable h2 0) lo hi kept divs xs (set kept)" and pre: "prefix_of h n pre" for h2 s2 kept divs pre
  proof -
    obtain b where b: "h n = Some b" "prefix_bytes pre = take (root_body n) b" "length (prefix_bytes pre) = root_body n" using pre by (auto simp: prefix_of_def)
    have len: "length kept = length divs + 1" using h2(4) by (rule forest_length)
    have "{n} \<subseteq> dom h" "{n} \<inter> {} = {}" using b(1) by auto
    note fr = replaces_frame [OF r this]
    have hn: "h2 n = Some b" and nk: "n \<notin> set kept" using fr(2,3) b(1) by auto
    have "key_sum divs \<le> 60" using key_sum_le [of divs] len h2(3) by simp
    moreover have "need_sum (zip kept divs) = key_sum divs" unfolding need_sum_keys zip_last(2) [OF len] ..
    moreover have "root_body n + 12 + 60 \<le> usable" using sz(2) by (simp add: root_body_def HEADER_LEN_def)
    ultimately have fit: "part_fits interior_cell_len usable (root_body n) (zip kept divs, last kept)" unfolding part_fits_def fst_conv by linarith
    have "runs (bindA (liftA (serialize_interior ps usable (root_body n) (zip kept divs) (last kept) pre)) (\<lambda>buf. bindA (write_page n buf) retA)) s2 ?post"
    proof (rule write_one_page [OF h2(1) hn b(2,3) fit])
      fix buf s3
      let ?h3 = "h2(n \<mapsto> buf)"
      assume a: "pager_heap usable ps k ?h3 s3" "part_page usable ?h3 n (zip kept divs, last kept)" "replaces h2 {n} ?h3 {n}"
      have "table_tree usable ?h3 (Suc 0) lo hi n xs (insert n (set kept))"
        by (rule one_part_tree [OF a(2) len h2(4) nk h2(2)]) (use nk in auto)
      moreover have "set kept \<subseteq> dom h2" "set kept \<inter> {n} = {}" using r nk by (auto simp: replaces_def)
      from replaces_trans [OF _ replaces_frame(1) [OF a(3) this], of h "{n}"] have "replaces h {n} ?h3 (insert n (set kept))" using fr(1) by (simp add: Un_commute)
      ultimately show "runs (retA ()) s3 ?post" using a(1) h2(2)
        by (intro runs_ret exI [of _ ?h3] exI [of _ "insert n (set kept)"] conjI) (simp_all del: table_tree.simps)
    qed
    then show ?thesis unfolding bindA_retA .
  qed
  show ?thesis unfolding deepen_leaf_root_def runs_sizes [OF hp] prod.case
  proof (rule runs_seq [OF load_leaf [OF hp old]])
    fix bt s1
    assume a: "pager_heap usable ps (k + 6) h s1 \<and> loaded h n bt \<and> bt_type bt = LeafTable \<and> read_leaf_cells bt usable = Ok ys"
    then obtain pre where pre: "page_one_prefix n bt = Ok pre" "prefix_of h n pre" by (auto simp: loaded_def prefix_of_def)
    have hp1: "pager_heap usable ps (Suc (k + (2 * 2 + 1))) h s1" using a by (simp add: ac_simps)
    show "runs (bindA (liftA (page_one_prefix n bt)) (\<lambda>prefix. bindA allocate_page (\<lambda>child0. bindA (balance_leaf_pooled [child0] xs [length xs]) (\<lambda>(pages, dividers).
        bindA (liftA (mapR (\<lambda>i. bindR (idx pages i) (\<lambda>c. bindR (idx dividers i) (\<lambda>k. Ok (c, k)))) [0..<length dividers])) (\<lambda>icells.
        bindA (liftA (last_of pages)) (\<lambda>right. bindA (liftA (serialize_interior ps usable (root_body n) icells right prefix)) (\<lambda>buf. write_page n buf))))))) s1 ?post"
      unfolding pre(1) bindA_lift_Ok
    proof (rule runs_seq [OF ph.heap_alloc [OF hp1]])
      fix m s2
      assume m: "m \<notin> dom h \<and> 1 < m \<and> pager_heap usable ps (k + (2 * 2 + 1)) (h(m \<mapsto> replicate ps 0)) s2"
      let ?h = "h(m \<mapsto> replicate ps 0)"
      have m1: "m \<notin> dom h" "m \<noteq> 1" using m by auto
      have o: "distinct [m]" "set [m] \<subseteq> dom ?h" "1 \<notin> set [m]" using m1 by auto
      show "runs (bindA (balance_leaf_pooled [m] xs [length xs]) (\<lambda>(pages, dividers).
        bindA (liftA (mapR (\<lambda>i. bindR (idx pages i) (\<lambda>c. bindR (idx dividers i) (\<lambda>k. Ok (c, k)))) [0..<length dividers])) (\<lambda>icells.
        bindA (liftA (last_of pages)) (\<lambda>right. bindA (liftA (serialize_interior ps usable (root_body n) icells right pre)) (\<lambda>buf. write_page n buf))))) s2 ?post"
      proof (rule runs_seq [OF balance_leaf_pooled_runs [OF conjunct2 [OF conjunct2 [OF m]] o xs(1-3) whole_seed [OF xs(1)] xs(4)]])
        fix x s3
        assume "(case x of (kept, divs) \<Rightarrow> \<lambda>s'. \<exists>h'. pager_heap usable ps k h' s' \<and> replaces ?h (set [m]) h' (set kept) \<and> 1 \<notin> set kept \<and> length kept \<le> 2 * 2 + 1 \<and>
          forest (table_tree usable h' 0) lo hi kept divs xs (set kept)) s3"
        then obtain kept divs h2 where x: "x = (kept, divs)" "pager_heap usable ps k h2 s3" "replaces ?h {m} h2 (set kept)" "1 \<notin> set kept" "length kept \<le> 5"
          "forest (table_tree usable h2 0) lo hi kept divs xs (set kept)" by (cases x) auto
        have "replaces h {} h2 (set kept)" by (rule replaces_trans [OF replaces_new [OF m1] x(3)])
        then show "runs (case x of (pages, dividers) \<Rightarrow>
            bindA (liftA (mapR (\<lambda>i. bindR (idx pages i) (\<lambda>c. bindR (idx dividers i) (\<lambda>k. Ok (c, k)))) [0..<length dividers])) (\<lambda>icells.
            bindA (liftA (last_of pages)) (\<lambda>right. bindA (liftA (serialize_interior ps usable (root_body n) icells right pre)) (\<lambda>buf. write_page n buf)))) s3 ?post"
          unfolding x(1) prod.case interior_cells_Ok [OF forest_length [OF x(6)]] bindA_lift_Ok using root x(2,4-6) pre(2) by blast
      qed
    qed
  qed
qed

end
