(* ===== verification/TableRows.thy ===== *)
theory TableRows
  imports TableRoot CursorScan
begin

text \<open>
  Rows of a table. A cell holds a payload when its local part and its chain of overflow pages
  give the payload back; \<open>build_leaf_cell\<close> writes such a cell. \<open>table_rows\<close> is the table as a map from rowids
  to payloads, and \<open>insert_table\<close> (\<open>src/btree/writer.rs\<close>) implements the update of that map.
\<close>

section \<open>Overflow chains\<close>

definition store_of :: "pages \<Rightarrow> u32 \<Rightarrow> page option" where
  "store_of h n = map_option (page_from_bytes n) (h n)"

lemma chain_bytes_mono:
  "chain_bytes st usable tot nxt out res \<Longrightarrow> (\<And>n p. st n = Some p \<Longrightarrow> st' n = Some p) \<Longrightarrow> chain_bytes st' usable tot nxt out res"
  by (induction rule: chain_bytes.induct) (blast intro: chain_bytes.intros)+

text \<open>The image of the page \<open>i\<close> of a chain.\<close>

definition chain_next :: "u32 list \<Rightarrow> nat \<Rightarrow> u32" where
  "chain_next pages i = (if i + 1 < length pages then pages ! (i + 1) else 0)"

definition chunk_of :: "nat \<Rightarrow> bytes \<Rightarrow> nat \<Rightarrow> bytes" where
  "chunk_of cap dat i = take cap (drop (i * cap) dat)"

definition chain_image :: "nat \<Rightarrow> nat \<Rightarrow> bytes \<Rightarrow> u32 list \<Rightarrow> nat \<Rightarrow> bytes" where
  "chain_image ps cap dat pages i = overwrite (overwrite (replicate ps 0) 0 (to_be32 (chain_next pages i))) 4 (chunk_of cap dat i)"

lemma length_chain_image: "4 + cap \<le> ps \<Longrightarrow> length (chain_image ps cap dat pages i) = ps"
  by (simp add: chain_image_def chunk_of_def)

lemma chain_image_parts:
  assumes "4 + cap \<le> ps"
  shows "be_u32 (chain_image ps cap dat pages i) 0 = Ok (chain_next pages i)"
    and "k \<le> length (chunk_of cap dat i) \<Longrightarrow> take k (drop 4 (chain_image ps cap dat pages i)) = take k (chunk_of cap dat i)"
proof -
  let ?c = "chunk_of cap dat i" let ?b = "overwrite (replicate ps 0) 0 (to_be32 (chain_next pages i))"
  have c: "length ?c \<le> cap" by (simp add: chunk_of_def)
  have "take 4 (drop 0 (chain_image ps cap dat pages i)) = take 4 (drop 0 ?b)" unfolding chain_image_def
    using c assms by (intro slice_overwrite_other) auto
  also have "\<dots> = to_be32 (chain_next pages i)" using slice_overwrite_same [of 0 "to_be32 (chain_next pages i)" "replicate ps (0 :: u8)"] assms by simp
  finally show "be_u32 (chain_image ps cap dat pages i) 0 = Ok (chain_next pages i)"
    using length_chain_image [OF assms, of dat pages i] assms by simp
  have "take (length ?c) (drop 4 (chain_image ps cap dat pages i)) = ?c" unfolding chain_image_def
    using c assms by (intro slice_overwrite_same) simp_all
  then show "take k (drop 4 (chain_image ps cap dat pages i)) = take k ?c" if "k \<le> length ?c"
    using that by (metis min.absorb1 take_take)
qed

lemma chain_write_Ok:
  assumes i: "i < length pages" and cap: "4 + cap \<le> ps" and d: "i * cap \<le> length dat"
  shows "write_chain_page ps cap dat pages i s = write_page (pages ! i) (chain_image ps cap dat pages i) s"
proof -
  have n: "(if i + 1 < length pages then idx pages (i + 1) else Ok 0) = Ok (chain_next pages i)" by (simp add: chain_next_def idx_def)
  have "slice dat (i * cap) (min (i * cap + cap) (length dat)) = Ok (chunk_of cap dat i)"
    using d by (auto simp: slice_def chunk_of_def min_def take_all)
  moreover have "4 + length (chunk_of cap dat i) \<le> ps" using cap by (simp add: chunk_of_def)
  ultimately show ?thesis using i cap unfolding write_chain_page_def n
    by (simp add: idx_def Let_def put_slice_def chain_image_def)
qed

lemma write_chain_runs:
  assumes "pager_heap usable ps k h s" and d: "distinct pages" and "set pages \<subseteq> dom h" and cap: "4 + cap \<le> ps"
    and dat: "\<And>i. i < length pages \<Longrightarrow> i * cap \<le> length dat" and "j \<le> length pages"
  shows "runs (foldA (write_chain_page ps cap dat pages) [j..<length pages]) s (\<lambda>_ s'. \<exists>h'. pager_heap usable ps k h' s' \<and> dom h' = dom h \<and>
    (\<forall>m. m \<notin> set (drop j pages) \<longrightarrow> h' m = h m) \<and> (\<forall>i. j \<le> i \<and> i < length pages \<longrightarrow> h' (pages ! i) = Some (chain_image ps cap dat pages i)))"
  using assms(6,1,3)
proof (induction j arbitrary: h s rule: inc_induct)
  case base
  then show ?case by auto
next
  case (step j)
  have u: "[j..<length pages] = j # [Suc j..<length pages]" "drop j pages = pages ! j # drop (Suc j) pages"
    using step.hyps by (simp_all add: upt_conv_Cons Cons_nth_drop_Suc)
  have nj: "pages ! j \<notin> set (drop (Suc j) pages)" using d u(2) by (metis distinct.simps(2) distinct_drop)
  have own: "pages ! j \<in> dom h" using step.hyps step.prems(2) nth_mem by blast
  let ?img = "chain_image ps cap dat pages j"
  note wr = ph.heap_wr [OF step.prems(1) own length_chain_image [OF cap, of dat pages j]]
  have w: "runs (write_chain_page ps cap dat pages j) s (\<lambda>_ s'. pager_heap usable ps k (h(pages ! j \<mapsto> ?img)) s')"
    by (rule runs_eq [of "write_chain_page ps cap dat pages j" s, OF chain_write_Ok [OF step.hyps(2) cap dat [OF step.hyps(2)]] wr])
  show ?case unfolding u(1) foldA.simps
  proof (rule runs_seq [OF w])
    fix x s'
    let ?h = "h(pages ! j \<mapsto> ?img)"
    assume hp: "pager_heap usable ps k ?h s'"
    show "runs (foldA (write_chain_page ps cap dat pages) [Suc j..<length pages]) s' (\<lambda>_ s'. \<exists>h'. pager_heap usable ps k h' s' \<and> dom h' = dom h \<and>
      (\<forall>m. m \<notin> set (drop j pages) \<longrightarrow> h' m = h m) \<and> (\<forall>i. j \<le> i \<and> i < length pages \<longrightarrow> h' (pages ! i) = Some (chain_image ps cap dat pages i)))"
    proof (rule runs_conseq [OF step.IH [OF hp]])
      show "set pages \<subseteq> dom ?h" using step.prems(2) by auto
      fix y s''
      assume "\<exists>h'. pager_heap usable ps k h' s'' \<and> dom h' = dom ?h \<and> (\<forall>m. m \<notin> set (drop (Suc j) pages) \<longrightarrow> h' m = ?h m) \<and>
        (\<forall>i. Suc j \<le> i \<and> i < length pages \<longrightarrow> h' (pages ! i) = Some (chain_image ps cap dat pages i))"
      then obtain h' where h': "pager_heap usable ps k h' s''" "dom h' = dom ?h" "\<And>m. m \<notin> set (drop (Suc j) pages) \<Longrightarrow> h' m = ?h m"
        "\<And>i. Suc j \<le> i \<Longrightarrow> i < length pages \<Longrightarrow> h' (pages ! i) = Some (chain_image ps cap dat pages i)" by blast
      have "h' (pages ! i) = Some (chain_image ps cap dat pages i)" if "j \<le> i" "i < length pages" for i
        using that h'(4) h'(3) [OF nj] by (cases "i = j") auto
      moreover have "h' m = h m" if "m \<notin> set (drop j pages)" for m using h'(3) [of m] that unfolding u(2) by auto
      moreover have "dom h' = dom h" using h'(2) own by auto
      ultimately show "\<exists>h'. pager_heap usable ps k h' s'' \<and> dom h' = dom h \<and> (\<forall>m. m \<notin> set (drop j pages) \<longrightarrow> h' m = h m) \<and>
        (\<forall>i. j \<le> i \<and> i < length pages \<longrightarrow> h' (pages ! i) = Some (chain_image ps cap dat pages i))" using h'(1) by blast
    qed
  qed
qed

text \<open>The chain gives the bytes back.\<close>

lemma chain_images_bytes:
  assumes img: "\<And>i. i < length pages \<Longrightarrow> h (pages ! i) = Some (chain_image ps (usable - 4) dat pages i)" and z: "0 \<notin> set pages"
    and u: "4 < usable" "usable \<le> ps" and len: "(length pages - 1) * (usable - 4) < length dat" "length dat \<le> length pages * (usable - 4)"
    and j: "j < length pages"
  shows "chain_bytes (store_of (h |` set pages)) usable (length pre + length dat) (pages ! j) (pre @ take (j * (usable - 4)) dat) (pre @ dat)"
proof -
  let ?cap = "usable - 4" let ?st = "store_of (h |` set pages)"
  have "j < length pages \<Longrightarrow> chain_bytes ?st usable (length pre + length dat) (pages ! j) (pre @ take (j * ?cap) dat) (pre @ dat)" for j
  proof (induction "length pages - j" arbitrary: j)
    case (Suc x)
    let ?out = "pre @ take (j * ?cap) dat" let ?img = "chain_image ps ?cap dat pages j"
    have j: "j < length pages" by (rule Suc.prems)
    have "j * ?cap \<le> (length pages - 1) * ?cap" using j by (intro mult_le_mono1) simp
    then have lt: "j * ?cap < length dat" using len(1) by (rule le_less_trans)
    have lo: "length ?out = length pre + j * ?cap" using lt by simp
    have nz: "pages ! j \<noteq> 0" using z j nth_mem by metis
    have st: "?st (pages ! j) = Some (page_from_bytes (pages ! j) ?img)" using img [OF j] j by (simp add: store_of_def restrict_map_def)
    have cap: "4 + ?cap \<le> ps" using u by simp
    let ?tk = "min (length pre + length dat - length ?out) ?cap"
    have tk: "?tk = length (chunk_of ?cap dat j)" using lo by (simp add: chunk_of_def)
    have dt: "page_data (page_from_bytes (pages ! j) ?img) = ?img" by (simp add: page_from_bytes_def)
    have "take ?tk (drop 4 ?img) = chunk_of ?cap dat j" using chain_image_parts(2) [OF cap order.refl, of dat j pages] tk by simp
    then have e: "?out @ take ?tk (drop 4 ?img) = pre @ take ((j + 1) * ?cap) dat"
      by (simp add: chunk_of_def take_add [symmetric] add.commute)
    have rest: "chain_bytes ?st usable (length pre + length dat) (chain_next pages j) (pre @ take ((j + 1) * ?cap) dat) (pre @ dat)"
    proof (cases "j + 1 < length pages")
      case True
      then show ?thesis using Suc.hyps(1) [of "j + 1"] Suc.hyps(2) by (simp add: chain_next_def)
    next
      case False
      then have "length pages = j + 1" using j by simp
      then have "take ((j + 1) * ?cap) dat = dat" using len(2) by (intro take_all) metis
      then show ?thesis using False by (simp add: chain_next_def chain_bytes.Done)
    qed
    show ?case
    proof (rule chain_bytes.Step [where pg = "page_from_bytes (pages ! j) ?img" and np = "chain_next pages j"])
      show "length ?out < length pre + length dat" using lt lo by linarith
      show "4 + ?tk \<le> length (page_data (page_from_bytes (pages ! j) ?img))" unfolding dt length_chain_image [OF cap] using cap by linarith
      show "be_u32 (page_data (page_from_bytes (pages ! j) ?img)) 0 = Ok (chain_next pages j)" unfolding dt by (rule chain_image_parts(1) [OF cap])
      show "chain_bytes ?st usable (length pre + length dat) (chain_next pages j)
        (?out @ take ?tk (drop 4 (page_data (page_from_bytes (pages ! j) ?img)))) (pre @ dat)" unfolding dt e by (rule rest)
    qed (fact nz st)+
  qed simp
  then show ?thesis using j .
qed

text \<open>The number of pages of the chain for some bytes.\<close>

definition chain_len :: "nat \<Rightarrow> nat \<Rightarrow> nat" where
  "chain_len usable n = (n + (usable - 4) - 1) div (usable - 4)"

lemma chain_len_bounds:
  assumes "4 < usable" and "0 < n"
  shows "0 < chain_len usable n" and "(chain_len usable n - 1) * (usable - 4) < n" and "n \<le> chain_len usable n * (usable - 4)"
    and "i < chain_len usable n \<Longrightarrow> i * (usable - 4) \<le> n"
proof -
  let ?c = "usable - 4" let ?l = "chain_len usable n"
  have e: "n + ?c - 1 = (n - 1) + ?c" using assms by simp
  have l: "?l = (n - 1) div ?c + 1" unfolding chain_len_def e by (rule div_add_self2) (use assms in simp)
  then show "0 < ?l" by simp
  have le: "(n - 1) div ?c * ?c \<le> n - 1" by (rule div_times_less_eq_dividend)
  have e': "?l - 1 = (n - 1) div ?c" using l by simp
  show b: "(?l - 1) * ?c < n" unfolding e' using le assms(2) by linarith
  have "n - 1 < ((n - 1) div ?c + 1) * ?c" using assms(1) dividend_less_div_times [of ?c "n - 1"] by simp
  then show "n \<le> ?l * ?c" unfolding l by linarith
  show "i * ?c \<le> n" if "i < ?l"
  proof -
    have "i * ?c \<le> (?l - 1) * ?c" using that by (intro mult_le_mono1) simp
    then show ?thesis using b by linarith
  qed
qed

lemma write_overflow_chain_runs:
  assumes hp: "pager_heap usable ps (k + chain_len usable (length dat)) h s" and dat: "dat \<noteq> []"
  shows "runs (write_overflow_chain dat) s (\<lambda>first s'. \<exists>h' S. pager_heap usable ps k h' s' \<and> replaces h {} h' S \<and> 1 \<notin> S \<and>
    (\<forall>pre. chain_bytes (store_of (h' |` S)) usable (length pre + length dat) first pre (pre @ dat)))" (is "runs _ _ ?post")
proof -
  note sz = pager_heap_sizes [OF hp]
  let ?cap = "usable - 4" let ?np = "chain_len usable (length dat)"
  have u: "4 < usable" "usable \<le> ps" "4 + ?cap \<le> ps" using sz by auto
  have np: "(length dat + ?cap - 1) div ?cap = ?np" by (simp add: chain_len_def)
  note cl = chain_len_bounds [OF u(1), of "length dat"]
  have fin: "runs (bindA (foldA (write_chain_page ps ?cap dat pages) [0..<length pages]) (\<lambda>_. liftA (idx pages 0))) s1 ?post"
    if a: "length pages = ?np" "distinct pages" "1 \<notin> set pages" "pager_heap usable ps k h1 s1" "replaces h {} h1 (set pages)" for pages s1 h1
  proof -
    have own: "set pages \<subseteq> dom h1" using a(5) by (auto simp: replaces_def)
    have z: "0 \<notin> set pages" using own a(4) by (auto simp: pager_heap_def)
    have d: "i * ?cap \<le> length dat" if "i < length pages" for i using cl(4) that a(1) dat by simp
    show ?thesis
    proof (rule runs_seq [OF write_chain_runs [OF a(4,2) own u(3) d le0]], assumption)
      fix x s2
      assume "\<exists>h'. pager_heap usable ps k h' s2 \<and> dom h' = dom h1 \<and> (\<forall>m. m \<notin> set (drop 0 pages) \<longrightarrow> h' m = h1 m) \<and>
        (\<forall>i. 0 \<le> i \<and> i < length pages \<longrightarrow> h' (pages ! i) = Some (chain_image ps ?cap dat pages i))"
      then obtain h2 where h2: "pager_heap usable ps k h2 s2" "dom h2 = dom h1" "\<And>m. m \<notin> set pages \<Longrightarrow> h2 m = h1 m"
        "\<And>i. i < length pages \<Longrightarrow> h2 (pages ! i) = Some (chain_image ps ?cap dat pages i)" by auto
      have np0: "0 < length pages" using cl(1) dat a(1) by simp
      have cb: "chain_bytes (store_of (h2 |` set pages)) usable (length pre + length dat) (pages ! 0) pre (pre @ dat)" for pre
        using chain_images_bytes [OF h2(4) z u(1,2) _ _ np0, where pre = pre] cl(2,3) a(1) dat by simp
      have "replaces h {} h2 (set pages)" by (rule replaces_trans [OF a(5) same_dom_replaces [OF h2(2,3) own a(3)]])
      then show "runs (liftA (idx pages 0)) s2 ?post" using h2(1) a(3) cb np0
        by (intro runs_lift [where x = "pages ! 0"]) (auto simp: idx_def)
    qed
  qed
  have us: "usub usable 4 = Ok ?cap" "(if ?cap = 0 then Panic else Ok ((length dat + ?cap - 1) div ?cap)) = Ok ?np" using u(1) np by (auto simp: usub_def)
  have hp1: "pager_heap usable ps (k + length [0..<?np]) h s" using hp by simp
  show ?thesis unfolding write_overflow_chain_def runs_sizes [OF hp] us bindA_lift_Ok
  proof (rule runs_seq [OF ph.alloc_many [OF hp1]])
    fix pages s1
    assume "length pages = length [0..<?np] \<and> distinct pages \<and> 1 \<notin> set pages \<and> (\<exists>h'. pager_heap usable ps k h' s1 \<and> replaces h {} h' (set pages))"
    then obtain h1 where h1: "length pages = ?np" "distinct pages" "1 \<notin> set pages" "pager_heap usable ps k h1 s1" "replaces h {} h1 (set pages)" by auto
    show "runs (bindA wp_page_sizes (\<lambda>(_, psize). bindA (foldA (write_chain_page psize ?cap dat pages) [0..<length pages]) (\<lambda>_. liftA (idx pages 0)))) s1 ?post"
      unfolding runs_sizes [OF h1(4)] prod.case by (rule fin [OF h1])
  qed
qed

section \<open>Cells\<close>

text \<open>A cell holds a payload: its local part and its overflow chain in the pages \<open>h\<close>.\<close>

definition cell_holds :: "nat \<Rightarrow> pages \<Rightarrow> leaf_cell \<Rightarrow> bytes \<Rightarrow> bool" where
  "cell_holds usable h c payload \<longleftrightarrow> (\<exists>loc ov. leaf_parts usable (snd c) = Some (fst c, length payload, loc, ov) \<and>
    chain_bytes (store_of h) usable (length payload) ov loc payload)"

lemma cell_holds_ok: "cell_holds usable h c payload \<Longrightarrow> leaf_cell_ok usable c"
  by (auto simp: cell_holds_def leaf_cell_ok_def)

lemma cell_holds_mono:
  assumes "cell_holds usable h c payload" and "h \<subseteq>\<^sub>m h'"
  shows "cell_holds usable h' c payload"
proof -
  have "store_of h' n = Some p" if "store_of h n = Some p" for n p
    using that assms(2) by (auto simp: store_of_def map_le_def dom_def)
  then show ?thesis using assms(1) chain_bytes_mono unfolding cell_holds_def by blast
qed

lemma leaf_parts_built:
  assumes "payload_split LeafTable usable n = (llen, ov)" and "n < 2 ^ 64" and "length loc = llen" and "length tail = (if ov then 4 else 0)"
  shows "leaf_parts usable (varint_encode (of_nat n) @ varint_encode_i64 r @ loc @ tail) = Some (r, n, loc, if ov then from_be32 tail else 0)"
proof -
  have u: "unat (of_nat n :: u64) = n" using assms(2) by (simp add: unat_of_nat take_bit_nat_eq_self)
  have i: "length (varint_encode_i64 r) = varint_len (ucast r)" by (simp add: varint_encode_i64_def)
  show ?thesis unfolding leaf_parts_def using assms(1,3,4) varint_decode_encode_i64 [of r "loc @ tail"]
    by (simp add: varint_decode_encode u i)
qed

definition spill_pages :: "nat \<Rightarrow> nat \<Rightarrow> nat" where
  "spill_pages usable n = (case payload_split LeafTable usable n of (llen, ov) \<Rightarrow> if ov then chain_len usable (n - llen) else 0)"

lemma build_leaf_cell_runs:
  assumes hp: "pager_heap usable ps (k + spill_pages usable (length payload)) h s" and len: "length payload < 2 ^ 64"
  shows "runs (build_leaf_cell r payload) s (\<lambda>c s'. \<exists>h' S. pager_heap usable ps k h' s' \<and> replaces h {} h' S \<and> 1 \<notin> S \<and>
    cell_holds usable (h' |` S) (r, c) payload)" (is "runs _ _ ?post")
proof -
  note sz = pager_heap_sizes [OF hp]
  obtain llen ov where sp: "payload_split LeafTable usable (length payload) = (llen, ov)" by (cases "payload_split LeafTable usable (length payload)")
  note b = payload_split_bounds [OF sp]
  have ll: "llen \<le> length payload" "\<not> ov \<Longrightarrow> llen = length payload" using b(1,3) by auto
  have sl: "slice payload 0 llen = Ok (take llen payload)" "slice_from payload llen = Ok (drop llen payload)" using ll(1) by (auto simp: slice_def slice_from_def)
  show ?thesis
  proof (cases ov)
    case False
    let ?c = "varint_encode (of_nat (length payload)) @ varint_encode_i64 r @ payload"
    have "leaf_parts usable ?c = Some (r, length payload, payload, 0)"
      using leaf_parts_built [OF sp len, of payload "[]" r] False ll by simp
    then have "cell_holds usable (h |` {}) (r, ?c) payload" unfolding cell_holds_def by (auto intro: chain_bytes.Done)
    then show ?thesis unfolding build_leaf_cell_def runs_sizes [OF hp] Let_def sp prod.case sl bindA_lift_Ok using False ll hp sp
      by (auto simp: spill_pages_def intro!: exI [of _ h] exI [of _ "{}"] replaces_refl)
  next
    case True
    let ?c = "varint_encode (of_nat (length payload)) @ varint_encode_i64 r @ take llen payload"
    have "llen < length payload"
      using b(1,2,4) True sz(2) by simp
    then have ne: "drop llen payload \<noteq> []" by simp
    have hp': "pager_heap usable ps (k + chain_len usable (length (drop llen payload))) h s" using hp sp True by (simp add: spill_pages_def)
    have fin: "?post (?c @ to_be32 first) s'" if st: "\<exists>h' S. pager_heap usable ps k h' s' \<and> replaces h {} h' S \<and> 1 \<notin> S \<and>
        (\<forall>pre. chain_bytes (store_of (h' |` S)) usable (length pre + length (drop llen payload)) first pre (pre @ drop llen payload))" for first s'
    proof -
      obtain h' S where h': "pager_heap usable ps k h' s'" "replaces h {} h' S" "1 \<notin> S"
        "\<And>pre. chain_bytes (store_of (h' |` S)) usable (length pre + length (drop llen payload)) first pre (pre @ drop llen payload)" using st by blast
      have "leaf_parts usable (?c @ to_be32 first) = Some (r, length payload, take llen payload, first)"
        using leaf_parts_built [OF sp len, of "take llen payload" "to_be32 first" r] True ll(1) by simp
      moreover have "chain_bytes (store_of (h' |` S)) usable (length payload) first (take llen payload) payload"
        using h'(4) [of "take llen payload"] ll(1) by simp
      ultimately have "cell_holds usable (h' |` S) (r, ?c @ to_be32 first) payload" unfolding cell_holds_def by auto
      then show ?thesis using h'(1-3) by blast
    qed
    show ?thesis unfolding build_leaf_cell_def runs_sizes [OF hp] Let_def sp prod.case sl bindA_lift_Ok if_P [OF True]
      by (rule runs_seq [OF write_overflow_chain_runs [OF hp' ne]]) (rule runs_ret, rule fin)
  qed
qed

section \<open>The table as a map\<close>

text \<open>
  The table at a root: the pages \<open>T\<close> of its tree and the pages \<open>S\<close> that hold the overflow chains of its
  rows. The bounds of the root are outside the range of rowids.
\<close>

definition table_rows :: "nat \<Rightarrow> pages \<Rightarrow> nat \<Rightarrow> u32 \<Rightarrow> (i64 \<rightharpoonup> bytes) \<Rightarrow> u32 set \<Rightarrow> u32 set \<Rightarrow> bool" where
  "table_rows usable h d root M T S \<longleftrightarrow> (\<exists>xs. table_tree usable h d (- (2 ^ 63) - 1) (2 ^ 63) root xs T \<and> (1 \<in> T \<longrightarrow> root = 1) \<and>
    S \<subseteq> dom h \<and> S \<inter> T = {} \<and> 1 \<notin> S \<and> dom M = fst ` set xs \<and> (\<forall>c \<in> set xs. \<exists>p. M (fst c) = Some p \<and> cell_holds usable (h |` S) c p))"

lemma ckey_eq: "ckey c = sint r \<longleftrightarrow> fst c = r"
  unfolding ckey_def by (auto intro: signed_word_eqI)

lemma upd_row_keys: "fst ` set (upd_row r c xs) = insert r (fst ` set xs)"
proof -
  have o: "x \<in> set (upd_row r c xs)" if "x \<in> set xs" "fst x \<noteq> r" for x
    using that ckey_eq [of x r] by (auto simp: upd_row_def)
  have "(r, c) \<in> set (upd_row r c xs)" by (simp add: upd_row_def)
  then have k: "r \<in> fst ` set (upd_row r c xs)" using imageI [of "(r, c)" _ fst] by simp
  have "fst x \<in> fst ` set (upd_row r c xs)" if "x \<in> set xs" for x using o [OF that] k by (cases "fst x = r") auto
  then have "insert r (fst ` set xs) \<subseteq> fst ` set (upd_row r c xs)" using k by blast
  moreover have "fst ` set (upd_row r c xs) \<subseteq> insert r (fst ` set xs)" using image_mono [OF upd_row_cells(1) [of r c xs], of fst] by simp
  ultimately show ?thesis by blast
qed

lemma upd_row_other: "x \<in> set (upd_row r c xs) \<Longrightarrow> x = (r, c) \<or> x \<in> set xs \<and> fst x \<noteq> r"
  using ckey_eq [of x r] by (auto simp: upd_row_def)

lemma restrict_le: "S \<subseteq> S' \<Longrightarrow> (\<And>m. m \<in> S \<Longrightarrow> h' m = h m) \<Longrightarrow> h |` S \<subseteq>\<^sub>m h' |` S'"
  by (auto simp: map_le_def restrict_map_def dom_def split: if_splits)

lemma rows_updated:
  assumes t: "table_tree usable h d lo hi root xs T" and S: "S \<subseteq> dom h" "S \<inter> T = {}" "1 \<notin> S" "dom M = fst ` set xs"
    and cells: "\<And>c. c \<in> set xs \<Longrightarrow> \<exists>p. M (fst c) = Some p \<and> cell_holds usable (h |` S) c p"
    and r1: "replaces h {} h1 S1" "1 \<notin> S1" "cell_holds usable (h1 |` S1) (r, c) payload"
    and r2: "replaces h1 T h2 T2" "1 \<in> T2 \<Longrightarrow> root = 1" "table_tree usable h2 d2 (- (2 ^ 63) - 1) (2 ^ 63) root (upd_row r c xs) T2"
  shows "table_rows usable h2 d2 root (M(r \<mapsto> payload)) T2 (S \<union> S1)" and "replaces h (T \<union> S) h2 (T2 \<union> (S \<union> S1))"
proof -
  have own: "T \<union> S \<subseteq> dom h" using table_tree_pages [OF t] S(1) by blast
  note f1 = replaces_frame [OF r1(1) own, simplified]
  have d1: "S \<union> S1 \<subseteq> dom h1" "(S \<union> S1) \<inter> T = {}" using f1 S(2) by (auto simp: replaces_def)
  note f2 = replaces_frame [OF r2(1) d1]
  have "S1 \<union> (T \<union> S) = T \<union> (S \<union> S1)" by auto
  then show "replaces h (T \<union> S) h2 (T2 \<union> (S \<union> S1))" using replaces_trans [OF f1(1)] f2(1) by simp
  have le: "h |` S \<subseteq>\<^sub>m h2 |` (S \<union> S1)" "h1 |` S1 \<subseteq>\<^sub>m h2 |` (S \<union> S1)" using f1(2) f2(2) by (intro restrict_le; simp)+
  have "\<exists>p. (M(r \<mapsto> payload)) (fst x) = Some p \<and> cell_holds usable (h2 |` (S \<union> S1)) x p" if "x \<in> set (upd_row r c xs)" for x
    using upd_row_other [OF that]
  proof
    assume "x = (r, c)"
    then show ?thesis using cell_holds_mono [OF r1(3) le(2)] by simp
  next
    assume "x \<in> set xs \<and> fst x \<noteq> r"
    then obtain p where "M (fst x) = Some p" "cell_holds usable (h |` S) x p" "fst x \<noteq> r" using cells [of x] by blast
    then show ?thesis using cell_holds_mono [OF _ le(1), of usable x p] by (intro exI [of _ p]) simp
  qed
  moreover have "dom (M(r \<mapsto> payload)) = fst ` set (upd_row r c xs)" unfolding upd_row_keys using S(4) by simp
  moreover have "S \<union> S1 \<subseteq> dom h2" "(S \<union> S1) \<inter> T2 = {}" using f2(1,3) by (auto simp: replaces_def)
  ultimately show "table_rows usable h2 d2 root (M(r \<mapsto> payload)) T2 (S \<union> S1)" unfolding table_rows_def
    using r2(2,3) S(3) r1(2) by (intro exI [of _ "upd_row r c xs"] conjI impI ballI) (simp_all del: table_tree.simps fun_upd_apply)
qed

section \<open>Insertion\<close>

lemma insert_root_runs:
  assumes hp: "pager_heap usable ps (k + (6 + ins_room d)) h s" and t: "table_tree usable h d lo hi n xs T" and one: "1 \<in> T \<Longrightarrow> n = 1"
    and r: "lo < sint r" "sint r \<le> hi" and c: "leaf_cell_ok usable (r, c)" and d: "d < MAX_DEPTH"
  shows "runs (bindA (insert_rec MAX_DEPTH n r c) (\<lambda>up. case up of Fit \<Rightarrow> retA () | SplitUp sp \<Rightarrow> grow_root n sp | LeafOverfull cells \<Rightarrow> deepen_leaf_root n cells)) s
    (\<lambda>_ s'. \<exists>h' d' T'. pager_heap usable ps k h' s' \<and> replaces h T h' T' \<and> (1 \<in> T' \<longrightarrow> n = 1) \<and> d' \<le> Suc d \<and>
      table_tree usable h' d' lo hi n (upd_row r c xs) T')" (is "runs _ _ ?post")
proof -
  have hp': "pager_heap usable ps ((k + 6) + ins_room d) h s" using hp by (simp add: ac_simps)
  show ?thesis
  proof (rule runs_seq [OF insert_rec_runs [OF hp' t r c d]])
    fix up s1
    assume ip: "insert_post usable ps (k + 6) h d lo hi n (upd_row r c xs) T up s1"
    show "runs (case up of Fit \<Rightarrow> retA () | SplitUp sp \<Rightarrow> grow_root n sp | LeafOverfull cells \<Rightarrow> deepen_leaf_root n cells) s1 ?post"
    proof (cases up)
      case Fit
      then obtain h' P' where h': "pager_heap usable ps (k + 6) h' s1" "replaces h T h' P'" "1 \<in> P' \<longrightarrow> 1 \<in> T" "table_tree usable h' d lo hi n (upd_row r c xs) P'"
        using ip by (auto simp: insert_post_def level_post_def simp del: table_tree.simps)
      then have "?post () s1" using one by (intro exI [of _ h'] exI [of _ d] exI [of _ P'] conjI) (auto intro: pager_heap_less simp del: table_tree.simps)
      then show ?thesis unfolding Fit up.case by (rule runs_ret)
    next
      case (LeafOverfull cells)
      then have o: "d = 0" "cells = upd_row r c xs" "pager_heap usable ps (k + 6) h s1" using ip by (auto simp: insert_post_def)
      have l: "leaf_page usable h n xs" "between lo hi xs" "T = {n}" using t o(1) by auto
      have u: "35 \<le> usable" using pager_heap_sizes(2) [OF o(3)] by simp
      have "cell_sum xs \<le> usable - 8" using l(1) by (auto simp: leaf_page_def)
      then have "cell_sum (upd_row r c xs) \<le> 2 * (usable - 8)" using cell_sum_upd [of r c xs] leaf_cell_len [OF c u] by simp
      moreover have "list_all (leaf_cell_ok usable) (upd_row r c xs)" using l(1) upd_row_cells(1) [of r c xs] c by (auto simp: leaf_page_def list_all_iff)
      ultimately have "runs (deepen_leaf_root n cells) s1 (\<lambda>_ s'. \<exists>h' P'. pager_heap usable ps k h' s' \<and> replaces h {n} h' P' \<and> (1 \<in> P' \<longrightarrow> n = 1) \<and>
          table_tree usable h' 1 lo hi n (upd_row r c xs) P')"
        unfolding o(2) using between_upd [OF l(2) r] upd_row_cells(2) by (intro deepen_leaf_root_runs [OF o(3) l(1)])
      then have "runs (deepen_leaf_root n cells) s1 ?post" unfolding l(3) o(1) One_nat_def by (rule runs_conseq) blast
      then show ?thesis unfolding LeafOverfull up.case .
    next
      case (SplitUp sp)
      then have lp: "level_post usable ps (k + 6) h d lo hi n (upd_row r c xs) T 1 (SplitUp sp) s1" "d \<noteq> 0" using ip by (auto simp: insert_post_def)
      then obtain e where e: "d = Suc e" by (cases d) auto
      obtain h' P' where h': "pager_heap usable ps (k + 6) h' s1" "replaces h T h' P'" "1 \<in> P' \<longrightarrow> 1 \<in> T" "grown usable h' (Suc e) lo hi n (upd_row r c xs) P' (SplitUp sp)"
        "length (siblings sp) \<le> 1" using lp(1) unfolding level_post_def up.case e by blast
      have own: "P' \<subseteq> dom h'" using h'(2) by (auto simp: replaces_def)
      have hp2: "pager_heap usable ps (k + 1) h' s1" by (rule pager_heap_less [OF h'(1)]) simp
      have "runs (grow_root n sp) s1 (\<lambda>_ s'. \<exists>h2 P2. pager_heap usable ps k h2 s' \<and> replaces h' P' h2 P2 \<and> (1 \<in> P2 \<longrightarrow> n = 1) \<and>
          table_tree usable h2 (Suc d) lo hi n (upd_row r c xs) P2)"
        unfolding e by (rule grow_root_runs [OF hp2 h'(4,5) _ own]) (use one h'(3) in auto)
      then have "runs (grow_root n sp) s1 ?post"
        by (rule runs_conseq) (elim exE conjE, intro exI conjI, assumption, rule replaces_trans [OF h'(2)], assumption+, rule order.refl, assumption)
      then show ?thesis unfolding SplitUp up.case .
    qed
  qed
qed

text \<open>The pages that an insertion may take.\<close>

definition insert_room :: "nat \<Rightarrow> nat \<Rightarrow> nat \<Rightarrow> nat" where
  "insert_room usable d n = spill_pages usable n + (6 + ins_room d)"

lemma rowid_range: "- (2 ^ 63) - 1 < sint (r :: i64)" "sint r \<le> 2 ^ 63"
  using sint_64_range [of r] by linarith+

lemma insert_table_runs:
  assumes hp: "pager_heap usable ps (k + insert_room usable d (length payload)) h s" and rows: "table_rows usable h d root M T S"
    and d: "d < MAX_DEPTH" and len: "length payload < 2 ^ 64"
  shows "runs (insert_table root r payload) s (\<lambda>_ s'. \<exists>h' d' T' S'. pager_heap usable ps k h' s' \<and> d' \<le> Suc d \<and>
    table_rows usable h' d' root (M(r \<mapsto> payload)) T' S' \<and> replaces h (T \<union> S) h' (T' \<union> S'))" (is "runs _ _ ?post")
proof -
  obtain xs where x: "table_tree usable h d (- (2 ^ 63) - 1) (2 ^ 63) root xs T" "1 \<in> T \<longrightarrow> root = 1" "S \<subseteq> dom h" "S \<inter> T = {}" "1 \<notin> S"
    "dom M = fst ` set xs" "\<forall>c \<in> set xs. \<exists>p. M (fst c) = Some p \<and> cell_holds usable (h |` S) c p"
    using rows unfolding table_rows_def by (elim exE conjE)
  have hp': "pager_heap usable ps ((k + (6 + ins_room d)) + spill_pages usable (length payload)) h s"
    using hp by (simp add: insert_room_def ac_simps)
  show ?thesis unfolding insert_table_def
  proof (rule runs_seq [OF build_leaf_cell_runs [OF hp' len]])
    fix c s1
    assume "\<exists>h' S. pager_heap usable ps (k + (6 + ins_room d)) h' s1 \<and> replaces h {} h' S \<and> 1 \<notin> S \<and> cell_holds usable (h' |` S) (r, c) payload"
    then obtain h1 S1 where h1: "pager_heap usable ps (k + (6 + ins_room d)) h1 s1" "replaces h {} h1 S1" "1 \<notin> S1" "cell_holds usable (h1 |` S1) (r, c) payload" by blast
    have T: "T \<subseteq> dom h" using table_tree_pages [OF x(1)] by blast
    have t1: "table_tree usable h1 d (- (2 ^ 63) - 1) (2 ^ 63) root xs T"
      by (rule table_tree_cong [OF x(1)]) (use replaces_frame(2) [OF h1(2) T] in simp)
    show "runs (bindA (insert_rec MAX_DEPTH root r c) (\<lambda>up. case up of Fit \<Rightarrow> retA () | SplitUp sp \<Rightarrow> grow_root root sp
        | LeafOverfull cells \<Rightarrow> deepen_leaf_root root cells)) s1 ?post"
    proof (rule runs_conseq [OF insert_root_runs [OF h1(1) t1 _ rowid_range cell_holds_ok [OF h1(4)] d]])
      show "1 \<in> T \<Longrightarrow> root = 1" using x(2) by simp
      fix y s2
      assume "\<exists>h' d' T'. pager_heap usable ps k h' s2 \<and> replaces h1 T h' T' \<and> (1 \<in> T' \<longrightarrow> root = 1) \<and> d' \<le> Suc d \<and>
        table_tree usable h' d' (- (2 ^ 63) - 1) (2 ^ 63) root (upd_row r c xs) T'"
      then obtain h2 d2 T2 where h2: "pager_heap usable ps k h2 s2" "replaces h1 T h2 T2" "1 \<in> T2 \<Longrightarrow> root = 1" "d2 \<le> Suc d"
        "table_tree usable h2 d2 (- (2 ^ 63) - 1) (2 ^ 63) root (upd_row r c xs) T2" by blast
      show "?post y s2" using rows_updated [OF x(1,3-6) bspec [OF x(7)] h1(2-4) h2(2,3,5)] h2(1,4) by blast
    qed
  qed
qed

end
