(* ===== verification/TableCycle.thy ===== *)
theory TableCycle
  imports TableRows
begin

text \<open>
  Corrupt tables. When every page reachable from the root is an interior page (a cycle of child
  pointers), the descent of \<open>insert_rec\<close> (\<open>src/btree/writer.rs\<close>) never meets a leaf; the depth limit
  turns that into an error, before any page of the tree is written.
\<close>

definition no_way_down :: "nat \<Rightarrow> pages \<Rightarrow> u32 set \<Rightarrow> bool" where
  "no_way_down usable h C \<longleftrightarrow> (\<forall>n \<in> C. \<exists>kids divs. node_page usable h n kids divs \<and> set kids \<subseteq> C)"

lemma insert_rec_cycle:
  assumes "pager_heap usable ps k h s" and C: "no_way_down usable h C" and "n \<in> C"
  shows "\<exists>s'. insert_rec lev n r c s = (Err (Corrupt ''b-tree depth limit exceeded''), s') \<and> pager_heap usable ps k h s'"
  using assms(1,3)
proof (induction lev arbitrary: n s)
  case (Suc lev)
  obtain kids divs where nd: "node_page usable h n kids divs" "set kids \<subseteq> C" using C Suc.prems(2) by (auto simp: no_way_down_def)
  obtain bt s1 where bt: "load_bt n s = (Ok bt, s1)" "pager_heap usable ps k h s1" "loaded h n bt" "bt_type bt = InteriorTable" "read_node bt = Ok (kids, divs)"
    using load_node [OF Suc.prems(1) nd(1)] by (auto simp: runs_def)
  obtain pre where pre: "page_one_prefix n bt = Ok pre" using bt(3) by (auto simp: loaded_def prefix_of_def)
  have p: "child_slot r divs < length kids" using child_slot_of [of r divs] nd(1) by (simp add: slot_of_def node_page_def)
  then have "kids ! child_slot r divs \<in> C" using nd(2) nth_mem by blast
  from Suc.IH [OF bt(2) this] obtain s2 where s2: "insert_rec lev (kids ! child_slot r divs) r c s1 = (Err (Corrupt ''b-tree depth limit exceeded''), s2)"
    "pager_heap usable ps k h s2" by blast
  have "idx kids (child_slot r divs) = Ok (kids ! child_slot r divs)" using p by (simp add: idx_def)
  then have "insert_rec (Suc lev) n r c s = (Err (Corrupt ''b-tree depth limit exceeded''), s2)"
    unfolding insert_rec.simps bindA_OkI [where m = "load_bt n", OF bt(1)] Let_def
      bindA_OkI [where m = wp_page_sizes, OF pager_heap_sizes(7) [OF bt(2)]] prod.case
    using bt(4,5) pre bindA_ErrI [where m = "insert_rec lev (kids ! child_slot r divs) r c", OF s2(1)] by simp
  then show ?case using s2(2) by blast
qed simp

lemma insert_table_cycle:
  assumes hp: "pager_heap usable ps (k + spill_pages usable (length payload)) h s" and len: "length payload < 2 ^ 64"
    and C: "no_way_down usable h C" and root: "root \<in> C"
  shows "\<exists>s' h' S. insert_table root r payload s = (Err (Corrupt ''b-tree depth limit exceeded''), s') \<and> pager_heap usable ps k h' s' \<and> replaces h {} h' S"
proof -
  obtain c s1 h1 S where b: "build_leaf_cell r payload s = (Ok c, s1)" "pager_heap usable ps k h1 s1" "replaces h {} h1 S"
    using build_leaf_cell_runs [OF hp len, of r] by (auto simp: runs_def)
  have "node_page usable h1 n kids divs" if "n \<in> C" "node_page usable h n kids divs" for n kids divs
  proof -
    have "n \<in> dom h" using that(2) by (auto simp: node_page_def)
    then have "h1 n = h n" using b(3) by (auto simp: replaces_def)
    then show ?thesis using that(2) by (simp add: node_page_def)
  qed
  then have "no_way_down usable h1 C" using C unfolding no_way_down_def by meson
  from insert_rec_cycle [OF b(2) this root] obtain s2 where
    "insert_rec MAX_DEPTH root r c s1 = (Err (Corrupt ''b-tree depth limit exceeded''), s2)" "pager_heap usable ps k h1 s2" by blast
  then show ?thesis using b(1,3) by (intro exI [of _ s2] exI [of _ h1] exI [of _ S]) (simp add: insert_table_def bindA_def)
qed

end
