(* ===== verification/IndexSeek.thy ===== *)
theory IndexSeek
  imports CursorScan RecordFormat
begin

text \<open>
  Looking entries up in index b-trees (the reading half of \<open>src/btree/index_writer.rs\<close>). An index entry
  is a record, and interior pages hold entries of their own, so the entries of a tree are its leaf
  cells interleaved with the cells of its nodes. The equality seek and the range scan are shown to
  return what their specifications on the list of entries say.
\<close>

section \<open>Comparing records\<close>

definition coll_at :: "collation list \<Rightarrow> nat \<Rightarrow> collation" where
  "coll_at colls i = (if i < length colls then colls ! i else Binary)"

definition desc_at :: "bool list \<Rightarrow> nat \<Rightarrow> bool" where
  "desc_at descs i = (if i < length descs then descs ! i else False)"

fun cmp_columns :: "registry \<Rightarrow> collation list \<Rightarrow> bool list \<Rightarrow> nat \<Rightarrow> sqlvalue list \<Rightarrow> sqlvalue list \<Rightarrow> ordering" where
  "cmp_columns reg colls descs i (k # ks) (r # rs) =
    (let c = cmp_values_coll reg k r (coll_at colls i);
         c = (if desc_at descs i then reverse_ordering c else c)
     in if c \<noteq> Equal then c else cmp_columns reg colls descs (i + 1) ks rs)"
| "cmp_columns reg colls descs i ks rs = Equal"

definition prefix_cmp :: "registry \<Rightarrow> sqlvalue list \<Rightarrow> sqlvalue list \<Rightarrow> collation list \<Rightarrow> bool list \<Rightarrow> ordering" where
  "prefix_cmp reg key rec colls descs = cmp_columns reg colls descs 0 key rec"

definition cmp_records :: "registry \<Rightarrow> bytes \<Rightarrow> bytes \<Rightarrow> text_encoding \<Rightarrow> collation list \<Rightarrow> bool list \<Rightarrow> ordering res" where
  "cmp_records reg a b enc colls descs =
    bindR (decode_record a enc) (\<lambda>va.
    bindR (decode_record b enc) (\<lambda>vb.
    let c = cmp_columns reg colls descs 0 va vb in
    if c \<noteq> Equal then Ok c else Ok (cmp_lin (length va) (length vb))))"

definition rowid_of :: "sqlvalue list \<Rightarrow> i64" where
  "rowid_of rec = (if rec = [] then 0 else case last rec of Integer i \<Rightarrow> i | _ \<Rightarrow> 0)"

type_synonym bound = "(sqlvalue list \<times> bool) option"

definition passes_lower :: "registry \<Rightarrow> bound \<Rightarrow> sqlvalue list \<Rightarrow> collation list \<Rightarrow> bool list \<Rightarrow> bool" where
  "passes_lower reg lower rec colls descs =
    (case lower of
       None \<Rightarrow> True
     | Some (lk, inc) \<Rightarrow> (case prefix_cmp reg lk rec colls descs of Greater \<Rightarrow> False | Equal \<Rightarrow> inc | Less \<Rightarrow> True))"

definition beyond_upper :: "registry \<Rightarrow> bound \<Rightarrow> sqlvalue list \<Rightarrow> collation list \<Rightarrow> bool list \<Rightarrow> bool" where
  "beyond_upper reg upper rec colls descs =
    (case upper of
       None \<Rightarrow> False
     | Some (uk, inc) \<Rightarrow> (case prefix_cmp reg uk rec colls descs of Less \<Rightarrow> True | Equal \<Rightarrow> \<not> inc | Greater \<Rightarrow> False))"

section \<open>The walks\<close>

definition parse_page :: "'s page_source \<Rightarrow> u32 \<Rightarrow> ('s, btree_page) act" where
  "parse_page rd n = bindA (rd n) (\<lambda>pg. liftA (btree_page_parse pg))"

definition index_record :: "nat \<Rightarrow> 's page_source \<Rightarrow> text_encoding \<Rightarrow> nat \<Rightarrow> btree_page \<Rightarrow> nat \<Rightarrow> ('s, sqlvalue list) lact" where
  "index_record pf rd enc usable bt i =
    bindL (runL (liftA (index_cell bt i usable))) (\<lambda>cell.
    bindL (read_payload pf rd usable (bt_data bt) (index_payload cell)) (\<lambda>full.
    runL (liftA (decode_record full enc))))"

text \<open>
  The seek appends \<open>emit rec\<close> for every match: the trailing rowid (\<open>seek_prefix\<close>) or the record itself
  (\<open>seek_prefix_records\<close>). \<open>cmp\<close> compares the key with a record.
\<close>

fun seek_leaf :: "('s, sqlvalue list) lact list \<Rightarrow> (sqlvalue list \<Rightarrow> ordering) \<Rightarrow> (sqlvalue list \<Rightarrow> 'a) \<Rightarrow> 'a list \<Rightarrow> ('s, 'a list) lact" where
  "seek_leaf [] cmp emit out = runL (retA out)"
| "seek_leaf (rec # recs) cmp emit out =
    bindL rec (\<lambda>r.
    case cmp r of
      Greater \<Rightarrow> seek_leaf recs cmp emit out
    | Equal \<Rightarrow> seek_leaf recs cmp emit (out @ [emit r])
    | Less \<Rightarrow> runL (retA out))"

fun seek_skip :: "('s, sqlvalue list) lact list \<Rightarrow> (sqlvalue list \<Rightarrow> ordering) \<Rightarrow> nat \<Rightarrow> ('s, nat) lact" where
  "seek_skip [] cmp i = runL (retA i)"
| "seek_skip (rec # recs) cmp i =
    bindL rec (\<lambda>r. if cmp r = Greater then seek_skip recs cmp (i + 1) else runL (retA i))"

fun seek_equal :: "('s, sqlvalue list) lact list \<Rightarrow> (nat \<Rightarrow> 'a list \<Rightarrow> ('s, 'a list) lact) \<Rightarrow> (sqlvalue list \<Rightarrow> ordering) \<Rightarrow>
    (sqlvalue list \<Rightarrow> 'a) \<Rightarrow> nat \<Rightarrow> 'a list \<Rightarrow> ('s, 'a list) lact" where
  "seek_equal [] down cmp emit i out = runL (retA out)"
| "seek_equal (rec # recs) down cmp emit i out =
    bindL rec (\<lambda>r.
    if cmp r = Equal then
      bindL rec (\<lambda>r'.
      bindL (down (i + 1) (out @ [emit r'])) (\<lambda>out.
      seek_equal recs down cmp emit (i + 1) out))
    else runL (retA out))"

primrec seek_tree :: "nat \<Rightarrow> nat \<Rightarrow> 's page_source \<Rightarrow> text_encoding \<Rightarrow> nat \<Rightarrow> (sqlvalue list \<Rightarrow> ordering) \<Rightarrow> (sqlvalue list \<Rightarrow> 'a) \<Rightarrow>
    u32 \<Rightarrow> 'a list \<Rightarrow> ('s, 'a list) lact" where
  "seek_tree 0 pf rd enc usable cmp emit page_no out = (\<lambda>s. None)"
| "seek_tree (Suc fuel) pf rd enc usable cmp emit page_no out =
    bindL (runL (parse_page rd page_no)) (\<lambda>bt.
    let recs = map (index_record pf rd enc usable bt) [0..<num_cells bt];
        down = (\<lambda>i out. bindL (runL (liftA (child_pointer bt i))) (\<lambda>c. seek_tree fuel pf rd enc usable cmp emit c out)) in
    case bt_type bt of
      LeafIndex \<Rightarrow> seek_leaf recs cmp emit out
    | InteriorIndex \<Rightarrow>
        bindL (seek_skip recs cmp 0) (\<lambda>i.
        bindL (down i out) (\<lambda>out.
        seek_equal (drop i recs) down cmp emit i out))
    | _ \<Rightarrow> runL (liftA (Err (Corrupt ''index seek on a non-index b-tree''))))"

definition seek_prefix :: "nat \<Rightarrow> nat \<Rightarrow> registry \<Rightarrow> 's page_source \<Rightarrow> u32 \<Rightarrow> sqlvalue list \<Rightarrow> text_encoding \<Rightarrow> nat \<Rightarrow> collation list \<Rightarrow>
    bool list \<Rightarrow> i64 list \<Rightarrow> ('s, i64 list) lact" where
  "seek_prefix fuel pf reg rd page_no key enc usable colls descs out =
    seek_tree fuel pf rd enc usable (\<lambda>rec. prefix_cmp reg key rec colls descs) rowid_of page_no out"

definition seek_prefix_records :: "nat \<Rightarrow> nat \<Rightarrow> registry \<Rightarrow> 's page_source \<Rightarrow> u32 \<Rightarrow> sqlvalue list \<Rightarrow> text_encoding \<Rightarrow> nat \<Rightarrow> collation list \<Rightarrow>
    bool list \<Rightarrow> sqlvalue list list \<Rightarrow> ('s, sqlvalue list list) lact" where
  "seek_prefix_records fuel pf reg rd page_no key enc usable colls descs out =
    seek_tree fuel pf rd enc usable (\<lambda>rec. prefix_cmp reg key rec colls descs) (\<lambda>rec. rec) page_no out"

definition index_seek_rowids :: "nat \<Rightarrow> nat \<Rightarrow> registry \<Rightarrow> 's page_source \<Rightarrow> text_encoding \<Rightarrow> nat \<Rightarrow> u32 \<Rightarrow> sqlvalue list \<Rightarrow> collation list \<Rightarrow>
    bool list \<Rightarrow> ('s, i64 list) lact" where
  "index_seek_rowids fuel pf reg rd enc usable root key colls descs = seek_prefix fuel pf reg rd root key enc usable colls descs []"

definition index_seek_records :: "nat \<Rightarrow> nat \<Rightarrow> registry \<Rightarrow> 's page_source \<Rightarrow> text_encoding \<Rightarrow> nat \<Rightarrow> u32 \<Rightarrow> sqlvalue list \<Rightarrow> collation list \<Rightarrow>
    bool list \<Rightarrow> ('s, sqlvalue list list) lact" where
  "index_seek_records fuel pf reg rd enc usable root key colls descs = seek_prefix_records fuel pf reg rd root key enc usable colls descs []"

text \<open>
  The range scan hands every record within the bounds to \<open>collect\<close>; the result says whether the walk
  goes on and what was collected.
\<close>

definition scan_record :: "(sqlvalue list \<Rightarrow> bool) \<Rightarrow> (sqlvalue list \<Rightarrow> bool) \<Rightarrow> sqlvalue list \<Rightarrow> sqlvalue list list \<Rightarrow> bool \<times> sqlvalue list list" where
  "scan_record beyond passes rec out = (if beyond rec then (False, out) else if passes rec then (True, out @ [rec]) else (True, out))"

fun scan_leaf :: "('s, sqlvalue list) lact list \<Rightarrow> (sqlvalue list \<Rightarrow> bool) \<Rightarrow> (sqlvalue list \<Rightarrow> bool) \<Rightarrow> sqlvalue list list \<Rightarrow>
    ('s, bool \<times> sqlvalue list list) lact" where
  "scan_leaf [] beyond passes out = runL (retA (True, out))"
| "scan_leaf (rec # recs) beyond passes out =
    bindL rec (\<lambda>r. case scan_record beyond passes r out of
      (go, out) \<Rightarrow> if go then scan_leaf recs beyond passes out else runL (retA (False, out)))"

fun scan_node :: "('s, sqlvalue list) lact list \<Rightarrow> (nat \<Rightarrow> sqlvalue list list \<Rightarrow> ('s, bool \<times> sqlvalue list list) lact) \<Rightarrow>
    (sqlvalue list \<Rightarrow> bool) \<Rightarrow> (sqlvalue list \<Rightarrow> bool) \<Rightarrow> nat \<Rightarrow> sqlvalue list list \<Rightarrow> ('s, bool \<times> sqlvalue list list) lact" where
  "scan_node [] down beyond passes k out = down k out"
| "scan_node (rec # recs) down beyond passes k out =
    bindL (down k out) (\<lambda>(go, out).
    if \<not> go then runL (retA (False, out))
    else
      bindL rec (\<lambda>r. case scan_record beyond passes r out of
        (go, out) \<Rightarrow> if go then scan_node recs down beyond passes (k + 1) out else runL (retA (False, out))))"

primrec range_scan :: "nat \<Rightarrow> nat \<Rightarrow> 's page_source \<Rightarrow> text_encoding \<Rightarrow> nat \<Rightarrow> (sqlvalue list \<Rightarrow> bool) \<Rightarrow> (sqlvalue list \<Rightarrow> bool) \<Rightarrow>
    u32 \<Rightarrow> sqlvalue list list \<Rightarrow> ('s, bool \<times> sqlvalue list list) lact" where
  "range_scan 0 pf rd enc usable beyond passes page_no out = (\<lambda>s. None)"
| "range_scan (Suc fuel) pf rd enc usable beyond passes page_no out =
    bindL (runL (parse_page rd page_no)) (\<lambda>bt.
    let recs = map (index_record pf rd enc usable bt) [0..<num_cells bt];
        down = (\<lambda>i out. bindL (runL (liftA (child_pointer bt i))) (\<lambda>c. range_scan fuel pf rd enc usable beyond passes c out)) in
    case bt_type bt of
      LeafIndex \<Rightarrow> scan_leaf recs beyond passes out
    | InteriorIndex \<Rightarrow> scan_node recs down beyond passes 0 out
    | _ \<Rightarrow> runL (liftA (Err (Corrupt ''index range scan on a non-index b-tree''))))"

definition index_range_records :: "nat \<Rightarrow> nat \<Rightarrow> registry \<Rightarrow> 's page_source \<Rightarrow> text_encoding \<Rightarrow> nat \<Rightarrow> u32 \<Rightarrow> bound \<Rightarrow> bound \<Rightarrow>
    collation list \<Rightarrow> bool list \<Rightarrow> ('s, sqlvalue list list) lact" where
  "index_range_records fuel pf reg rd enc usable root lower upper colls descs =
    bindL (range_scan fuel pf rd enc usable (\<lambda>rec. beyond_upper reg upper rec colls descs) (\<lambda>rec. passes_lower reg lower rec colls descs) root [])
      (\<lambda>(_, out). runL (retA out))"

definition index_range_rowids :: "nat \<Rightarrow> nat \<Rightarrow> registry \<Rightarrow> 's page_source \<Rightarrow> text_encoding \<Rightarrow> nat \<Rightarrow> u32 \<Rightarrow> bound \<Rightarrow> bound \<Rightarrow>
    collation list \<Rightarrow> bool list \<Rightarrow> ('s, i64 list) lact" where
  "index_range_rowids fuel pf reg rd enc usable root lower upper colls descs =
    bindL (range_scan fuel pf rd enc usable (\<lambda>rec. beyond_upper reg upper rec colls descs) (\<lambda>rec. passes_lower reg lower rec colls descs) root [])
      (\<lambda>(_, out). runL (retA (map rowid_of out)))"

section \<open>Entries of a tree\<close>

fun interleave :: "'a list list \<Rightarrow> 'a list \<Rightarrow> 'a list" where
  "interleave (c # cs) (n # ns) = c @ n # interleave cs ns"
| "interleave cs [] = concat cs"
| "interleave [] ns = ns"

fun islots :: "ptree \<Rightarrow> frame list" where
  "islots (Leaf pg) = map (\<lambda>i. (pg, i)) [0..<num_cells pg]"
| "islots (Node pg ts) = interleave (map islots ts) (map (\<lambda>i. (pg, i)) [0..<num_cells pg])"

fun index_pages :: "ptree \<Rightarrow> bool" where
  "index_pages (Leaf pg) \<longleftrightarrow> bt_type pg = LeafIndex"
| "index_pages (Node pg ts) \<longleftrightarrow> bt_type pg = InteriorIndex \<and> list_all index_pages ts"

text \<open>A slot whose cell is readable and holds a record.\<close>

definition entry :: "(u32 \<Rightarrow> page option) \<Rightarrow> nat \<Rightarrow> text_encoding \<Rightarrow> nat \<Rightarrow> frame \<Rightarrow> sqlvalue list \<Rightarrow> bool" where
  "entry store usable enc pf x rec \<longleftrightarrow> (\<exists>cell loc full. index_cell (fst x) (snd x) usable = Ok cell \<and>
    slice (bt_data (fst x)) (local_offset (index_payload cell)) (local_offset (index_payload cell) + local_len (index_payload cell)) = Ok loc \<and>
    chain_bytes store usable (total_len (index_payload cell)) (overflow (index_payload cell)) loc full \<and>
    length full = total_len (index_payload cell) \<and> total_len (index_payload cell) < pf \<and> decode_record full enc = Ok rec)"

text \<open>Along the entries the key is first greater, then equal, then less.\<close>

fun rank :: "ordering \<Rightarrow> nat" where
  "rank Greater = 0"
| "rank Equal = 1"
| "rank Less = 2"

definition ranked :: "('a \<Rightarrow> ordering) \<Rightarrow> 'a list \<Rightarrow> bool" where
  "ranked cmp xs \<longleftrightarrow> sorted_wrt (\<lambda>a b. rank (cmp a) \<le> rank (cmp b)) xs"

lemma rank_inj: "rank a \<le> rank b \<Longrightarrow> a = Less \<Longrightarrow> b = Less" "rank a \<le> rank b \<Longrightarrow> b = Greater \<Longrightarrow> a = Greater"
  by (cases a; cases b; simp)+

lemma ranked_append: "ranked cmp (xs @ ys) \<longleftrightarrow> ranked cmp xs \<and> ranked cmp ys \<and> (\<forall>x \<in> set xs. \<forall>y \<in> set ys. rank (cmp x) \<le> rank (cmp y))"
  by (simp add: ranked_def sorted_wrt_append)

lemma ranked_Cons: "ranked cmp (x # ys) \<longleftrightarrow> (\<forall>y \<in> set ys. rank (cmp x) \<le> rank (cmp y)) \<and> ranked cmp ys"
  by (simp add: ranked_def)

text \<open>A computation that gives a value from every state of an invariant.\<close>

definition gives :: "('s \<Rightarrow> bool) \<Rightarrow> ('s, 'a) lact \<Rightarrow> 'a \<Rightarrow> bool" where
  "gives I m x \<longleftrightarrow> (\<forall>s. I s \<longrightarrow> (\<exists>s'. m s = Some (Ok x, s') \<and> I s'))"

lemma gives_ret [simp]: "gives I (runL (retA x)) x"
  by (simp add: gives_def)

lemma gives_lift [intro]: "r = Ok x \<Longrightarrow> gives I (runL (liftA r)) x"
  by (simp add: gives_def)

lemma gives_bind: "gives I m x \<Longrightarrow> gives I (f x) y \<Longrightarrow> gives I (bindL m f) y"
  unfolding gives_def bindL_def by fastforce

lemma gives_seek_leaf:
  assumes "list_all2 (gives I) ms rs" and "ranked cmp rs"
  shows "gives I (seek_leaf ms cmp emit out) (out @ map emit (filter (\<lambda>r. cmp r = Equal) rs))"
  using assms
proof (induction arbitrary: out rule: list_all2_induct)
  case (Cons m ms r rs)
  have IH: "gives I (seek_leaf ms cmp emit out') (out' @ map emit (filter (\<lambda>r. cmp r = Equal) rs))" for out'
    using Cons.IH Cons.prems by (simp add: ranked_Cons)
  show ?case unfolding seek_leaf.simps
  proof (rule gives_bind [OF Cons.hyps(1)])
    show "gives I (case cmp r of Greater \<Rightarrow> seek_leaf ms cmp emit out | Equal \<Rightarrow> seek_leaf ms cmp emit (out @ [emit r]) | Less \<Rightarrow> runL (retA out))
      (out @ map emit (filter (\<lambda>r. cmp r = Equal) (r # rs)))"
    proof (cases "cmp r")
      case Less
      then have "\<forall>y \<in> set rs. cmp y = Less" using Cons.prems rank_inj(1) by (auto simp: ranked_Cons)
      then show ?thesis using Less by (simp add: filter_empty_conv)
    next
      case Equal
      then show ?thesis using IH [of "out @ [emit r]"] by simp
    next
      case Greater
      then show ?thesis using IH [of out] by simp
    qed
  qed
qed simp

lemma gives_seek_skip:
  assumes "list_all2 (gives I) ms rs"
  shows "gives I (seek_skip ms cmp i) (i + length (takeWhile (\<lambda>r. cmp r = Greater) rs))"
  using assms
proof (induction arbitrary: i rule: list_all2_induct)
  case (Cons m ms r rs)
  show ?case unfolding seek_skip.simps
    by (rule gives_bind [OF Cons.hyps(1)]) (use Cons.IH [of "i + 1"] in auto)
qed simp

definition tails :: "'a list \<Rightarrow> 'a list list \<Rightarrow> 'a list" where
  "tails ns cs = concat (map2 (#) ns cs)"

lemma interleave_at:
  assumes "length cs = length ns + 1" and "k \<le> length ns"
  shows "interleave cs ns = concat (map2 (\<lambda>c n. c @ [n]) (take k cs) (take k ns)) @ cs ! k @ tails (drop k ns) (drop (k + 1) cs)"
  using assms
proof (induction cs ns arbitrary: k rule: interleave.induct)
  case (1 c cs n ns)
  show ?case
  proof (cases k)
    case 0
    then show ?thesis using "1.IH" [of 0] "1.prems" by (cases cs) (auto simp: tails_def)
  next
    case (Suc j)
    then show ?thesis using 1 by simp
  qed
next
  case (2 cs)
  then show ?case by (cases cs) (auto simp: tails_def)
qed simp

lemma gives_seek_equal:
  assumes "list_all2 (gives I) ms ns" and "length cs = length ns"
    and "\<And>j out. j < length ns \<Longrightarrow> gives I (down (i + 1 + j) out) (out @ map emit (filter (\<lambda>r. cmp r = Equal) (cs ! j)))"
    and "ranked cmp (tails ns cs)" and "\<And>x. x \<in> set (tails ns cs) \<Longrightarrow> cmp x \<noteq> Greater"
  shows "gives I (seek_equal ms down cmp emit i out) (out @ map emit (filter (\<lambda>r. cmp r = Equal) (tails ns cs)))"
  using assms
proof (induction arbitrary: i out cs rule: list_all2_induct)
  case Nil
  then show ?case by (simp add: tails_def gives_def)
next
  case (Cons m ms n ns)
  obtain c cs' where cs: "cs = c # cs'" using Cons.prems(1) by (cases cs) auto
  have t: "tails (n # ns) cs = n # c @ tails ns cs'" by (simp add: tails_def cs)
  show ?case unfolding seek_equal.simps
  proof (rule gives_bind [OF Cons.hyps(1)])
    show "gives I (if cmp n = Equal then bindL m (\<lambda>r'. bindL (down (i + 1) (out @ [emit r'])) (\<lambda>out. seek_equal ms down cmp emit (i + 1) out))
        else runL (retA out)) (out @ map emit (filter (\<lambda>r. cmp r = Equal) (tails (n # ns) cs)))"
    proof (cases "cmp n = Equal")
      case True
      have d: "gives I (down (i + 1) (out @ [emit n])) (out @ [emit n] @ map emit (filter (\<lambda>r. cmp r = Equal) c))"
        using Cons.prems(2) [of 0 "out @ [emit n]"] cs by simp
      have r: "gives I (seek_equal ms down cmp emit (i + 1) out') (out' @ map emit (filter (\<lambda>r. cmp r = Equal) (tails ns cs')))" for out'
      proof (rule Cons.IH)
        show "gives I (down (i + 1 + 1 + j) out) (out @ map emit (filter (\<lambda>r. cmp r = Equal) (cs' ! j)))" if "j < length ns" for j out
          using Cons.prems(2) [of "Suc j" out] that cs by simp
      qed (use Cons.prems t cs in \<open>auto simp: ranked_Cons ranked_append\<close>)
      show ?thesis unfolding if_P [OF True]
        by (rule gives_bind [OF Cons.hyps(1)], rule gives_bind [OF d])
           (use r [of "out @ [emit n] @ map emit (filter (\<lambda>r. cmp r = Equal) c)"] True t in simp)
    next
      case False
      then have "cmp n = Less" using Cons.prems(4) [of n] t by (cases "cmp n") auto
      then have "\<forall>y \<in> set (tails (n # ns) cs). cmp y = Less" using Cons.prems(3) rank_inj(1) unfolding t ranked_Cons by auto
      then show ?thesis using False by (simp add: filter_empty_conv)
    qed
  qed
qed

lemma interleave_split:
  assumes "list_all2 R (interleave fs gs) rs" and "length fs = length gs + 1"
  obtains cs ns where "rs = interleave cs ns" and "list_all2 (list_all2 R) fs cs" and "list_all2 R gs ns"
proof -
  have "\<exists>cs ns. rs = interleave cs ns \<and> list_all2 (list_all2 R) fs cs \<and> list_all2 R gs ns" using assms
  proof (induction fs gs arbitrary: rs rule: interleave.induct)
    case (1 c cs n ns)
    obtain r1 x r2 where r: "rs = r1 @ x # r2" "list_all2 R c r1" "R n x" "list_all2 R (interleave cs ns) r2"
      using "1.prems"(1) by (auto simp: list_all2_append1 list_all2_Cons1)
    obtain cs' ns' where "r2 = interleave cs' ns'" "list_all2 (list_all2 R) cs cs'" "list_all2 R ns ns'" using "1.IH" [OF r(4)] "1.prems"(2) by auto
    then show ?case using r by (intro exI [of _ "r1 # cs'"] exI [of _ "x # ns'"]) simp
  next
    case (2 cs)
    then obtain c where "cs = [c]" by (cases cs) auto
    then show ?case using 2 by (intro exI [of _ "[rs]"] exI [of _ "[]"]) simp
  qed simp
  then show thesis using that by blast
qed

text \<open>A node: the entries before the child that the scan picks are too small, those after it are found one by one.\<close>

lemma gives_seek_node:
  assumes ms: "list_all2 (gives I) ms ns" and len: "length cs = length ns + 1"
    and down: "\<And>j out. j \<le> length ns \<Longrightarrow> gives I (down j out) (out @ map emit (filter (\<lambda>r. cmp r = Equal) (cs ! j)))"
    and rk: "ranked cmp (interleave cs ns)"
  shows "gives I (bindL (seek_skip ms cmp 0) (\<lambda>i. bindL (down i out) (\<lambda>out. seek_equal (drop i ms) down cmp emit i out)))
    (out @ map emit (filter (\<lambda>r. cmp r = Equal) (interleave cs ns)))"
proof -
  define k where "k = length (takeWhile (\<lambda>r. cmp r = Greater) ns)"
  have k: "k \<le> length ns" by (simp add: k_def length_takeWhile_le)
  let ?pre = "concat (map2 (\<lambda>c n. c @ [n]) (take k cs) (take k ns))" let ?post = "tails (drop k ns) (drop (k + 1) cs)"
  have e: "interleave cs ns = ?pre @ cs ! k @ ?post" by (rule interleave_at [OF len k])
  have tk: "take k ns = takeWhile (\<lambda>r. cmp r = Greater) ns" by (simp add: k_def takeWhile_eq_take [symmetric])
  have "cmp x = Greater" if px: "x \<in> set ?pre" for x
  proof -
    obtain q where q: "q \<in> set (zip (take k cs) (take k ns))" "x \<in> set (fst q @ [snd q])" using px by auto
    obtain j where j': "j < length (zip (take k cs) (take k ns))" "q = zip (take k cs) (take k ns) ! j" using q(1) by (metis in_set_conv_nth)
    then have j: "j < k" "x \<in> set (cs ! j) \<or> x = ns ! j" using q(2) by auto
    have "ns ! j \<in> set (take k ns)" using nth_mem [of j "take k ns"] j(1) k by simp
    then have g: "cmp (ns ! j) = Greater" unfolding tk by (blast dest: set_takeWhileD)
    have "interleave cs ns = concat (map2 (\<lambda>c n. c @ [n]) (take j cs) (take j ns)) @ cs ! j @ tails (drop j ns) (drop (j + 1) cs)"
      by (rule interleave_at [OF len]) (use j(1) k in simp)
    moreover have "drop j ns = ns ! j # drop (Suc j) ns" "drop (j + 1) cs = cs ! (j + 1) # drop (j + 2) cs" using j(1) k len by (simp_all add: Cons_nth_drop_Suc)
    then have "ns ! j \<in> set (tails (drop j ns) (drop (j + 1) cs))" by (simp add: tails_def)
    ultimately have "x \<in> set (cs ! j) \<Longrightarrow> rank (cmp x) \<le> rank (cmp (ns ! j))" using rk by (simp add: ranked_append)
    then show ?thesis using j(2) g rank_inj(2) by blast
  qed
  then have f: "filter (\<lambda>r. cmp r = Equal) ?pre = []" by (auto simp: filter_empty_conv)
  have ng: "cmp x \<noteq> Greater" if "x \<in> set ?post" for x
  proof (cases "k = length ns")
    case False
    then have d: "drop k ns = ns ! k # drop (Suc k) ns" "drop (k + 1) cs = cs ! (k + 1) # drop (k + 2) cs" using k len by (simp_all add: Cons_nth_drop_Suc)
    then have t: "?post = ns ! k # cs ! (k + 1) @ tails (drop (Suc k) ns) (drop (k + 2) cs)" by (simp add: tails_def)
    have "cmp (ns ! k) \<noteq> Greater" using False k unfolding k_def by (intro nth_length_takeWhile) simp
    moreover have "ranked cmp ?post" using rk e by (simp add: ranked_append)
    then have "x = ns ! k \<or> rank (cmp (ns ! k)) \<le> rank (cmp x)" using that unfolding t ranked_Cons by auto
    ultimately show ?thesis using rank_inj(2) by metis
  qed (use that in \<open>simp add: tails_def\<close>)
  have sk: "gives I (seek_skip ms cmp 0) k" using gives_seek_skip [OF ms, of cmp 0] by (simp add: k_def)
  have eq: "gives I (seek_equal (drop k ms) down cmp emit k out') (out' @ map emit (filter (\<lambda>r. cmp r = Equal) ?post))" for out'
  proof (rule gives_seek_equal [OF list_all2_dropI [OF ms]])
    show "gives I (down (k + 1 + j) out) (out @ map emit (filter (\<lambda>r. cmp r = Equal) (drop (k + 1) cs ! j)))" if "j < length (drop k ns)" for j out
      using down [of "k + 1 + j" out] that len by simp
  qed (use len k rk e ng in \<open>auto simp: ranked_append\<close>)
  show ?thesis unfolding e filter_append f map_append append_Nil list.map(1)
    by (rule gives_bind [OF sk], rule gives_bind [OF down [OF k]]) (use eq [of "out @ map emit (filter (\<lambda>r. cmp r = Equal) (cs ! k))"] in simp)
qed

text \<open>The range scan, with no assumption on the order of the entries.\<close>

definition scanned :: "(sqlvalue list \<Rightarrow> bool) \<Rightarrow> (sqlvalue list \<Rightarrow> bool) \<Rightarrow> sqlvalue list list \<Rightarrow> sqlvalue list list \<Rightarrow> bool \<times> sqlvalue list list" where
  "scanned beyond passes out rs = (list_all (\<lambda>r. \<not> beyond r) rs, out @ filter passes (takeWhile (\<lambda>r. \<not> beyond r) rs))"

lemma scanned_Nil [simp]: "scanned beyond passes out [] = (True, out)"
  by (simp add: scanned_def)

lemma scanned_append:
  "scanned beyond passes out (xs @ ys) =
    (case scanned beyond passes out xs of (go, out') \<Rightarrow> if go then scanned beyond passes out' ys else (False, out'))"
proof (cases "list_all (\<lambda>r. \<not> beyond r) xs")
  case True
  then have "\<forall>x\<in>set xs. \<not> beyond x" by (simp add: list_all_iff)
  then have t: "takeWhile (\<lambda>r. \<not> beyond r) xs = xs" by (simp add: takeWhile_eq_all_conv)
  from True show ?thesis by (auto simp: scanned_def t takeWhile_append list_all_iff)
next
  case False
  then obtain x where "x \<in> set xs" "beyond x" by (auto simp: list_all_iff)
  then have "takeWhile (\<lambda>r. \<not> beyond r) (xs @ ys) = takeWhile (\<lambda>r. \<not> beyond r) xs" by (intro takeWhile_append1) auto
  then show ?thesis using False by (simp add: scanned_def)
qed

lemma scanned_Cons: "scanned beyond passes out (r # rs) =
    (case scan_record beyond passes r out of (go, out') \<Rightarrow> if go then scanned beyond passes out' rs else (False, out'))"
  by (simp add: scanned_def scan_record_def)

lemma gives_scan_leaf:
  assumes "list_all2 (gives I) ms rs"
  shows "gives I (scan_leaf ms beyond passes out) (scanned beyond passes out rs)"
  using assms
proof (induction arbitrary: out rule: list_all2_induct)
  case (Cons m ms r rs)
  show ?case unfolding scan_leaf.simps scanned_Cons
    by (rule gives_bind [OF Cons.hyps(1)]) (use Cons.IH in \<open>auto split: prod.split\<close>)
qed (simp add: gives_def)

lemma gives_scan_node:
  assumes "list_all2 (gives I) ms ns" and "length cs = length ns + 1"
    and "\<And>j out. j \<le> length ns \<Longrightarrow> gives I (down (k + j) out) (scanned beyond passes out (cs ! j))"
  shows "gives I (scan_node ms down beyond passes k out) (scanned beyond passes out (interleave cs ns))"
  using assms
proof (induction arbitrary: k out cs rule: list_all2_induct)
  case Nil
  then obtain c where "cs = [c]" by (cases cs) auto
  then show ?case using Nil.prems(2) [of 0 out] by simp
next
  case (Cons m ms n ns)
  obtain c cs' where cs: "cs = c # cs'" using Cons.prems(1) by (cases cs) auto
  have d: "gives I (down k out) (scanned beyond passes out c)" using Cons.prems(2) [of 0 out] cs by simp
  have r: "gives I (scan_node ms down beyond passes (k + 1) out') (scanned beyond passes out' (interleave cs' ns))" for out'
  proof (rule Cons.IH)
    show "gives I (down (k + 1 + j) out) (scanned beyond passes out (cs' ! j))" if "j \<le> length ns" for j out
      using Cons.prems(2) [of "Suc j" out] that cs by simp
  qed (use Cons.prems(1) cs in simp)
  obtain go out1 where g: "scanned beyond passes out c = (go, out1)" by (cases "scanned beyond passes out c")
  have e: "scanned beyond passes out (interleave cs (n # ns)) = (if go then scanned beyond passes out1 (n # interleave cs' ns) else (False, out1))"
    unfolding cs interleave.simps scanned_append g by simp
  show ?case unfolding scan_node.simps e
  proof (rule gives_bind [OF d], unfold g prod.case)
    show "gives I (if \<not> go then runL (retA (False, out1)) else bindL m (\<lambda>r. case scan_record beyond passes r out1 of
        (go, out) \<Rightarrow> if go then scan_node ms down beyond passes (k + 1) out else runL (retA (False, out))))
      (if go then scanned beyond passes out1 (n # interleave cs' ns) else (False, out1))"
    proof (cases go)
      case True
      show ?thesis unfolding scanned_Cons using True r
        by simp (rule gives_bind [OF Cons.hyps(1)], auto split: prod.split simp: gives_def)
    qed (simp add: gives_def)
  qed
qed

section \<open>Sorted entries are ranked\<close>

definition col_cmp :: "registry \<Rightarrow> collation list \<Rightarrow> bool list \<Rightarrow> nat \<Rightarrow> sqlvalue \<Rightarrow> sqlvalue \<Rightarrow> ordering" where
  "col_cmp reg colls descs i a b =
    (if desc_at descs i then reverse_ordering (cmp_values_coll reg a b (coll_at colls i)) else cmp_values_coll reg a b (coll_at colls i))"

lemma cmp_columns_Cons:
  "cmp_columns reg colls descs i (k # ks) (r # rs) =
    (if col_cmp reg colls descs i k r \<noteq> Equal then col_cmp reg colls descs i k r else cmp_columns reg colls descs (i + 1) ks rs)"
  by (simp add: col_cmp_def Let_def)

text \<open>Records whose columns have a comparison decided by a key: built-in collations and no NaN.\<close>

definition no_nan :: "sqlvalue list \<Rightarrow> bool" where
  "no_nan vs \<longleftrightarrow> list_all (\<lambda>v. \<not> is_nan_value v) vs"

lemma coll_at_builtin: "list_all builtin_collation colls \<Longrightarrow> builtin_collation (coll_at colls i)"
  by (simp add: coll_at_def list_all_length)

lemma col_cmp_trans:
  assumes "list_all builtin_collation colls" and "\<not> is_nan_value k" and "\<not> is_nan_value x" and "\<not> is_nan_value y"
  shows "col_cmp reg colls descs i x y = Less \<Longrightarrow> col_cmp reg colls descs i k x \<noteq> Greater \<Longrightarrow> col_cmp reg colls descs i k y = Less"
    and "col_cmp reg colls descs i x y = Equal \<Longrightarrow> col_cmp reg colls descs i k y = col_cmp reg colls descs i k x"
  using assms coll_at_builtin [OF assms(1), of i]
  by (auto simp: col_cmp_def cmp_values_coll_key cmp_lin_def split: if_splits)

lemma cmp_columns_mono:
  assumes "cmp_columns reg colls descs i a b \<noteq> Greater" and "length key \<le> length a" and "length key \<le> length b"
    and "no_nan key" and "no_nan a" and "no_nan b" and c: "list_all builtin_collation colls"
  shows "rank (cmp_columns reg colls descs i key a) \<le> rank (cmp_columns reg colls descs i key b)"
  using assms(1-6)
proof (induction key arbitrary: i a b)
  case (Cons k ks)
  obtain x xs y ys where ab: "a = x # xs" "b = y # ys" using Cons.prems(2,3) by (cases a; cases b) auto
  have n: "\<not> is_nan_value k" "\<not> is_nan_value x" "\<not> is_nan_value y" using Cons.prems(4-6) ab by (auto simp: no_nan_def)
  note tr = col_cmp_trans [OF c n, of reg descs i]
  show ?case
  proof (cases "col_cmp reg colls descs i x y")
    case Less
    have "rank o1 \<le> 2" for o1 by (cases o1) auto
    then show ?thesis unfolding ab cmp_columns_Cons using tr(1) [OF Less] by (cases "col_cmp reg colls descs i k x") auto
  next
    case Equal
    have "cmp_columns reg colls descs (i + 1) xs ys \<noteq> Greater" using Cons.prems(1) Equal unfolding ab cmp_columns_Cons by simp
    then have "rank (cmp_columns reg colls descs (i + 1) ks xs) \<le> rank (cmp_columns reg colls descs (i + 1) ks ys)"
      using Cons.prems ab by (intro Cons.IH) (auto simp: no_nan_def)
    then show ?thesis unfolding ab cmp_columns_Cons tr(2) [OF Equal] by simp
  next
    case Greater
    then show ?thesis using Cons.prems(1) unfolding ab cmp_columns_Cons by simp
  qed
qed simp

definition index_sorted :: "registry \<Rightarrow> collation list \<Rightarrow> bool list \<Rightarrow> sqlvalue list list \<Rightarrow> bool" where
  "index_sorted reg colls descs recs \<longleftrightarrow> sorted_wrt (\<lambda>a b. cmp_columns reg colls descs 0 a b \<noteq> Greater) recs"

lemma index_sorted_ranked:
  assumes "index_sorted reg colls descs recs" and "list_all builtin_collation colls" and "no_nan key"
    and "list_all (\<lambda>r. no_nan r \<and> length key \<le> length r) recs"
  shows "ranked (\<lambda>rec. prefix_cmp reg key rec colls descs) recs"
  unfolding ranked_def prefix_cmp_def
  by (rule sorted_wrt_mono_rel [OF _ assms(1) [unfolded index_sorted_def]])
     (use assms in \<open>auto simp: list_all_iff intro!: cmp_columns_mono\<close>)

section \<open>Searching a tree of a page source\<close>

context page_reader
begin

lemma index_record_Ok:
  assumes e: "entry store usable enc pf x rec" and u: "4 < usable"
  shows "gives inv (index_record pf rd enc usable (fst x) (snd x)) rec"
  unfolding gives_def
proof (intro allI impI)
  fix s
  assume s: "inv s"
  obtain cell loc full where c: "index_cell (fst x) (snd x) usable = Ok cell"
    "slice (bt_data (fst x)) (local_offset (index_payload cell)) (local_offset (index_payload cell) + local_len (index_payload cell)) = Ok loc"
    "chain_bytes store usable (total_len (index_payload cell)) (overflow (index_payload cell)) loc full"
    "length full = total_len (index_payload cell)" "total_len (index_payload cell) < pf" "decode_record full enc = Ok rec"
    using e by (auto simp: entry_def)
  have "total_len (index_payload cell) - length loc < pf" using c(5) by linarith
  then obtain s' where "overflow_loop pf rd usable (total_len (index_payload cell)) (overflow (index_payload cell)) loc s = Some (Ok full, s')" "inv s'"
    using overflow_loop_Ok [OF c(3) u _ s] by blast
  then show "\<exists>s'. index_record pf rd enc usable (fst x) (snd x) s = Some (Ok rec, s') \<and> inv s'"
    using c(1,2,4,6) by (simp add: index_record_def read_payload_def bindL_def)
qed

lemma parse_page_Ok: "page_is store n pg \<Longrightarrow> gives inv (runL (parse_page rd n)) pg"
  unfolding gives_def
proof (intro allI impI)
  fix s
  assume p: "page_is store n pg" and s: "inv s"
  obtain b where b: "store n = Some b" "btree_page_parse b = Ok pg" using p by (auto simp: page_is_def split: option.splits)
  then show "\<exists>s'. runL (parse_page rd n) s = Some (Ok pg, s') \<and> inv s'" using reads [OF s b(1)] by (auto simp: parse_page_def bindA_def)
qed

lemma page_records:
  assumes "list_all2 (entry store usable enc pf) (map (\<lambda>i. (pg, i)) [0..<num_cells pg]) rs" and "4 < usable"
  shows "list_all2 (gives inv) (map (index_record pf rd enc usable pg) [0..<num_cells pg]) rs"
  using assms index_record_Ok [OF _ assms(2)] by (fastforce simp: list_all2_conv_all_nth)

lemma seek_tree_Ok:
  assumes "tree_at store n t" and "index_pages t" and "list_all2 (entry store usable enc pf) (islots t) recs" and "ranked cmp recs"
    and "height t < fuel" and u: "4 < usable"
  shows "gives inv (seek_tree fuel pf rd enc usable cmp emit n out) (out @ map emit (filter (\<lambda>r. cmp r = Equal) recs))"
  using assms(1-5)
proof (induction fuel arbitrary: n t recs out)
  case (Suc fuel)
  show ?case
  proof (cases t)
    case (Leaf pg)
    have p: "page_is store n pg" "bt_type pg = LeafIndex" using Suc.prems(1,2) Leaf by auto
    have "list_all2 (gives inv) (map (index_record pf rd enc usable pg) [0..<num_cells pg]) recs" using page_records [OF _ u] Suc.prems(3) Leaf by simp
    from gives_seek_leaf [OF this Suc.prems(4)] show ?thesis unfolding seek_tree.simps using p(2)
      by (intro gives_bind [OF parse_page_Ok [OF p(1)]]) (simp add: Let_def)
  next
    case (Node pg ts)
    have p: "page_is store n pg" "bt_type pg = InteriorIndex" "length ts = num_cells pg + 1" using Suc.prems(1,2) Node by auto
    obtain cs ns where r: "recs = interleave cs ns" "list_all2 (list_all2 (entry store usable enc pf)) (map islots ts) cs"
      "list_all2 (entry store usable enc pf) (map (\<lambda>i. (pg, i)) [0..<num_cells pg]) ns"
      using interleave_split [of "entry store usable enc pf" "map islots ts" "map (\<lambda>i. (pg, i)) [0..<num_cells pg]" recs] Suc.prems(3) Node p(3) by auto
    have len: "length cs = length ns + 1" "length ns = num_cells pg" using list_all2_lengthD [OF r(2)] list_all2_lengthD [OF r(3)] p(3) by simp_all
    have down: "gives inv (bindL (runL (liftA (child_pointer pg j))) (\<lambda>c. seek_tree fuel pf rd enc usable cmp emit c out))
        (out @ map emit (filter (\<lambda>r. cmp r = Equal) (cs ! j)))" if j: "j \<le> length ns" for j out
    proof -
      obtain c where c: "child_pointer pg j = Ok c" "tree_at store c (ts ! j)" "ts ! j \<in> set ts"
        using tree_at_child [OF Suc.prems(1) [unfolded Node], of j] j len p(3) by (metis Suc_eq_plus1 le_imp_less_Suc nth_mem)
      have "list_all2 (entry store usable enc pf) (islots (ts ! j)) (cs ! j)" using list_all2_nthD2 [OF r(2), of j] j len p(3) by simp
      moreover have "ranked cmp (cs ! j)" using Suc.prems(4) interleave_at [OF len(1) j] r(1) by (simp add: ranked_append)
      moreover have "index_pages (ts ! j)" "height (ts ! j) < fuel" using Suc.prems(2,5) Node c(3) height_child [OF c(3), of pg] by (auto simp: list_all_iff)
      ultimately show ?thesis using c by (intro gives_bind [OF gives_lift [OF c(1)]] Suc.IH)
    qed
    have "gives inv (bindL (seek_skip (map (index_record pf rd enc usable pg) [0..<num_cells pg]) cmp 0) (\<lambda>i.
        bindL (bindL (runL (liftA (child_pointer pg i))) (\<lambda>c. seek_tree fuel pf rd enc usable cmp emit c out)) (\<lambda>out.
        seek_equal (drop i (map (index_record pf rd enc usable pg) [0..<num_cells pg]))
          (\<lambda>i out. bindL (runL (liftA (child_pointer pg i))) (\<lambda>c. seek_tree fuel pf rd enc usable cmp emit c out)) cmp emit i out)))
      (out @ map emit (filter (\<lambda>r. cmp r = Equal) recs))"
      using gives_seek_node [OF page_records [OF r(3) u] len(1), of "\<lambda>i out. bindL (runL (liftA (child_pointer pg i))) (\<lambda>c. seek_tree fuel pf rd enc usable cmp emit c out)"]
        down Suc.prems(4) unfolding r(1) by blast
    then show ?thesis unfolding seek_tree.simps using p(2)
      by (intro gives_bind [OF parse_page_Ok [OF p(1)]]) (simp add: Let_def)
  qed
qed simp

lemma range_scan_Ok:
  assumes "tree_at store n t" and "index_pages t" and "list_all2 (entry store usable enc pf) (islots t) recs"
    and "height t < fuel" and u: "4 < usable"
  shows "gives inv (range_scan fuel pf rd enc usable beyond passes n out) (scanned beyond passes out recs)"
  using assms(1-4)
proof (induction fuel arbitrary: n t recs out)
  case (Suc fuel)
  show ?case
  proof (cases t)
    case (Leaf pg)
    have p: "page_is store n pg" "bt_type pg = LeafIndex" using Suc.prems(1,2) Leaf by auto
    have "list_all2 (gives inv) (map (index_record pf rd enc usable pg) [0..<num_cells pg]) recs" using page_records [OF _ u] Suc.prems(3) Leaf by simp
    from gives_scan_leaf [OF this] show ?thesis unfolding range_scan.simps using p(2)
      by (intro gives_bind [OF parse_page_Ok [OF p(1)]]) (simp add: Let_def)
  next
    case (Node pg ts)
    have p: "page_is store n pg" "bt_type pg = InteriorIndex" "length ts = num_cells pg + 1" using Suc.prems(1,2) Node by auto
    obtain cs ns where r: "recs = interleave cs ns" "list_all2 (list_all2 (entry store usable enc pf)) (map islots ts) cs"
      "list_all2 (entry store usable enc pf) (map (\<lambda>i. (pg, i)) [0..<num_cells pg]) ns"
      using interleave_split [of "entry store usable enc pf" "map islots ts" "map (\<lambda>i. (pg, i)) [0..<num_cells pg]" recs] Suc.prems(3) Node p(3) by auto
    have len: "length cs = length ns + 1" "length ns = num_cells pg" using list_all2_lengthD [OF r(2)] list_all2_lengthD [OF r(3)] p(3) by simp_all
    have down: "gives inv (bindL (runL (liftA (child_pointer pg (0 + j)))) (\<lambda>c. range_scan fuel pf rd enc usable beyond passes c out))
        (scanned beyond passes out (cs ! j))" if j: "j \<le> length ns" for j out
    proof -
      obtain c where c: "child_pointer pg j = Ok c" "tree_at store c (ts ! j)" "ts ! j \<in> set ts"
        using tree_at_child [OF Suc.prems(1) [unfolded Node], of j] j len p(3) by (metis Suc_eq_plus1 le_imp_less_Suc nth_mem)
      have "list_all2 (entry store usable enc pf) (islots (ts ! j)) (cs ! j)" using list_all2_nthD2 [OF r(2), of j] j len p(3) by simp
      moreover have "index_pages (ts ! j)" "height (ts ! j) < fuel" using Suc.prems(2,4) Node c(3) height_child [OF c(3), of pg] by (auto simp: list_all_iff)
      ultimately show ?thesis unfolding add_0 using c by (intro gives_bind [OF gives_lift [OF c(1)]] Suc.IH)
    qed
    from gives_scan_node [OF page_records [OF r(3) u] len(1), of "\<lambda>i out. bindL (runL (liftA (child_pointer pg i))) (\<lambda>c. range_scan fuel pf rd enc usable beyond passes c out)" 0, OF down]
    show ?thesis unfolding range_scan.simps r(1) using p(2)
      by (intro gives_bind [OF parse_page_Ok [OF p(1)]]) (simp add: Let_def)
  qed
qed simp

end

end
