(* ===== verification/IndexWriter.thy ===== *)
theory IndexWriter
  imports TableWriter IndexSeek
begin

text \<open>
  Writing to index b-trees (the writing half of \<open>src/btree/index_writer.rs\<close>). An entry is a record with
  the bytes of its cell; a page is changed by reading its entries, changing the list and writing the
  page anew. A split promotes an entry, which then lives in the parent only, so the entries between
  siblings are pooled with the leaves when they are redistributed.
\<close>

section \<open>Page images\<close>

type_synonym idx_key = "bytes \<times> bytes"
type_synonym idx_cell = "u32 \<times> idx_key"
type_synonym idx_up = "(idx_key, idx_key) up"

definition put16 :: "bytes \<Rightarrow> nat \<Rightarrow> u16 \<Rightarrow> bytes res" where
  "put16 buf at v = bindR (put_idx buf at (ucast (drop_bit 8 v))) (\<lambda>buf. put_idx buf (at + 1) (ucast v))"

definition put_ccs :: "bytes \<Rightarrow> nat \<Rightarrow> nat \<Rightarrow> bytes res" where
  "put_ccs buf at content = put16 buf at (if 65536 \<le> content then 0 else of_nat content)"

definition serialize_index_leaf :: "nat \<Rightarrow> nat \<Rightarrow> nat \<Rightarrow> bytes list \<Rightarrow> bytes option \<Rightarrow> bytes res" where
  "serialize_index_leaf psize usable body rcells prefix =
    bindR (blank_page psize prefix) (\<lambda>buf.
    let ptr_base = body + 8; ptr_end = ptr_base + 2 * length rcells in
    bindR (place_cells ''index leaf page overflow while serializing'' ptr_base ptr_end 0 rcells usable buf) (\<lambda>(content, buf).
    bindR (put_idx buf body 0x0a) (\<lambda>buf.
    bindR (put16 buf (body + 3) (of_nat (length rcells))) (\<lambda>buf.
    put_ccs buf (body + 5) content))))"

definition idx_cell_bytes :: "idx_cell \<Rightarrow> bytes" where
  "idx_cell_bytes = (\<lambda>(child, full, rcell). to_be32 child @ rcell)"

definition serialize_index_interior :: "nat \<Rightarrow> nat \<Rightarrow> nat \<Rightarrow> idx_cell list \<Rightarrow> u32 \<Rightarrow> bytes option \<Rightarrow> bytes res" where
  "serialize_index_interior psize usable body cells right prefix =
    bindR (blank_page psize prefix) (\<lambda>buf.
    let ptr_base = body + 12; ptr_end = ptr_base + 2 * length cells in
    bindR (place_cells ''index interior page overflow while serializing'' ptr_base ptr_end 0 (map idx_cell_bytes cells) usable buf)
      (\<lambda>(content, buf).
    bindR (put_idx buf body 0x02) (\<lambda>buf.
    bindR (put16 buf (body + 3) (of_nat (length cells))) (\<lambda>buf.
    bindR (put_ccs buf (body + 5) content) (\<lambda>buf.
    put_slice buf (body + 8) (to_be32 right))))))"

definition rcells :: "idx_key list \<Rightarrow> bytes list" where
  "rcells entries = map snd entries"

definition idx_leaf_fits :: "idx_key list \<Rightarrow> nat \<Rightarrow> nat \<Rightarrow> bool res" where
  "idx_leaf_fits entries body usable =
    bindR (usub usable body) (\<lambda>a. bindR (usub a 8) (\<lambda>cap. Ok (sum_list (map (\<lambda>(_, c). length c + 2) entries) \<le> cap)))"

definition idx_cell_len :: "idx_key \<Rightarrow> nat" where
  "idx_cell_len k = 4 + length (snd k)"

definition idx_interior_fits :: "idx_cell list \<Rightarrow> nat \<Rightarrow> nat \<Rightarrow> bool res" where
  "idx_interior_fits cells body usable =
    bindR (usub usable body) (\<lambda>a. bindR (usub a 12) (\<lambda>cap. Ok (sum_list (map (\<lambda>(_, k). idx_cell_len k + 2) cells) \<le> cap)))"

definition pack_index_interior :: "idx_cell list \<Rightarrow> u32 \<Rightarrow> nat \<Rightarrow> nat \<Rightarrow> idx_key part list \<times> idx_key list" where
  "pack_index_interior cells right body0 usable = pack_parts idx_cell_len cells right body0 usable 0 [] []"

section \<open>Reading pages\<close>

text \<open>
  The loop that reassembles a payload ends within as many steps as the payload has bytes
  (\<open>read_payload_ends\<close>), so it is run with that much fuel.
\<close>

definition full_payload :: "nat \<Rightarrow> bytes \<Rightarrow> payload \<Rightarrow> (pst, bytes) act" where
  "full_payload usable page_bytes pl =
    (\<lambda>s. case read_payload (total_len pl + 1) source_page usable page_bytes pl s of Some r \<Rightarrow> r | None \<Rightarrow> (Panic, s))"

lemma full_payload_ends: "4 < usable \<Longrightarrow> read_payload (total_len pl + 1) source_page usable bs pl s = Some (full_payload usable bs pl s)"
  using read_payload_ends [of usable pl "total_len pl + 1" source_page bs s] by (auto simp: full_payload_def)

definition read_entry :: "btree_page \<Rightarrow> nat \<Rightarrow> nat \<Rightarrow> (pst, idx_cell) act" where
  "read_entry bt usable i =
    bindA (liftA (index_cell bt i usable)) (\<lambda>cell.
    bindA (full_payload usable (bt_data bt) (index_payload cell)) (\<lambda>full.
    bindA (liftA (raw_index_record_cell bt i usable)) (\<lambda>rcell.
    retA (left_child cell, full, rcell))))"

definition read_leaf :: "btree_page \<Rightarrow> nat \<Rightarrow> (pst, idx_key list) act" where
  "read_leaf bt usable = bindA (mapA (read_entry bt usable) [0..<num_cells bt]) (\<lambda>cells. retA (map snd cells))"

definition read_interior :: "btree_page \<Rightarrow> nat \<Rightarrow> (pst, idx_cell list \<times> u32) act" where
  "read_interior bt usable = bindA (mapA (read_entry bt usable) [0..<num_cells bt]) (\<lambda>cells. retA (cells, right_pointer bt))"

definition build_index_rcell :: "bytes \<Rightarrow> (pst, bytes) act" where
  "build_index_rcell record =
    bindA wp_usable (\<lambda>usable.
    let (llen, has_overflow) = payload_split LeafIndex usable (length record) in
    bindA (liftA (slice record 0 llen)) (\<lambda>loc.
    let cell = varint_encode (of_nat (length record)) @ loc in
    if has_overflow then
      bindA (liftA (slice_from record llen)) (\<lambda>rest.
      bindA (write_overflow_chain rest) (\<lambda>first. retA (cell @ to_be32 first)))
    else retA cell))"

section \<open>Redistribution\<close>

definition write_index_slice :: "nat \<Rightarrow> nat \<Rightarrow> idx_key list \<Rightarrow> nat list \<Rightarrow> u32 list \<Rightarrow> nat \<Rightarrow> (pst, idx_key list) act" where
  "write_index_slice psize usable pooled cnt_new kept i =
    bindA (liftA (if i = 0 then Ok 0 else bindR (idx cnt_new (i - 1)) (\<lambda>e. Ok (e + 1)))) (\<lambda>start.
    bindA (liftA (idx cnt_new i)) (\<lambda>end'.
    bindA (liftA (slice pooled start end')) (\<lambda>entries.
    bindA (liftA (serialize_index_leaf psize usable 0 (rcells entries) None)) (\<lambda>buf.
    bindA (liftA (idx kept i)) (\<lambda>pg.
    bindA (write_page pg buf) (\<lambda>_.
    if i < length cnt_new - 1 then bindA (liftA (idx pooled end')) (\<lambda>e. retA [e]) else retA []))))))"

definition balance_index_pooled :: "u32 list \<Rightarrow> idx_key list \<Rightarrow> nat list \<Rightarrow> (pst, u32 list \<times> idx_key list) act" where
  "balance_index_pooled old_pages pooled cnt_old =
    bindA wp_page_sizes (\<lambda>(usable, psize).
    bindA (liftA (distribute (map (\<lambda>(_, c). length c) pooled) cnt_old True False usable)) (\<lambda>cnt_new.
    let n_new = length cnt_new; n_old = length old_pages in
    bindA (mapA (\<lambda>_. allocate_page) [n_old..<n_new]) (\<lambda>fresh.
    bindA (foldA free_page (drop (min n_new n_old) old_pages)) (\<lambda>_.
    let kept = sort (take n_new old_pages @ fresh) in
    bindA (mapA (write_index_slice psize usable pooled cnt_new kept) [0..<n_new]) (\<lambda>divs.
    retA (kept, concat divs))))))"

definition sibling_entries :: "nat \<Rightarrow> nat \<Rightarrow> nat \<Rightarrow> idx_key list \<Rightarrow> u32 list \<Rightarrow> nat \<Rightarrow> (pst, idx_key list) act" where
  "sibling_entries usable w0 p child_entries old_pages offset =
    (if w0 + offset = p then retA child_entries
     else
       bindA (liftA (idx old_pages offset)) (\<lambda>pg.
       bindA (load_bt pg) (\<lambda>bt. read_leaf bt usable)))"

text \<open>The pool: after each sibling its running count, then the entry that separates it from the next one.\<close>

fun pool_entries :: "idx_key list list \<Rightarrow> idx_key list \<Rightarrow> idx_key list \<Rightarrow> nat list \<Rightarrow> idx_key list \<times> nat list" where
  "pool_entries [] seps pooled counts = (pooled, counts)"
| "pool_entries (g # gs) seps pooled counts =
    (case seps of
       [] \<Rightarrow> pool_entries gs [] (pooled @ g) (counts @ [length (pooled @ g)])
     | e # es \<Rightarrow> pool_entries gs es ((pooled @ g) @ [e]) (counts @ [length (pooled @ g)]))"

definition balance_index_into :: "u32 list \<Rightarrow> idx_key list \<Rightarrow> nat \<Rightarrow> idx_key list \<Rightarrow> (pst, u32 list \<times> idx_key list) act" where
  "balance_index_into kids dividers p child_entries =
    bindA (liftA (sibling_window p (length kids))) (\<lambda>(w0, n_old).
    bindA wp_usable (\<lambda>usable.
    bindA (liftA (slice kids w0 (w0 + n_old))) (\<lambda>old_pages.
    bindA (mapA (sibling_entries usable w0 p child_entries old_pages) [0..<n_old]) (\<lambda>groups.
    bindA (liftA (slice dividers w0 (w0 + n_old - 1))) (\<lambda>seps.
    let (pooled, cnt_old) = pool_entries groups seps [] [] in
    bindA (balance_index_pooled old_pages pooled cnt_old) (\<lambda>(pages, new_dividers).
    bindA (liftA (splice kids w0 (w0 + n_old) pages)) (\<lambda>kids.
    bindA (liftA (splice dividers w0 (w0 + n_old - 1) new_dividers)) (\<lambda>dividers.
    retA (kids, dividers)))))))))"

definition adopt_idx_split :: "u32 list \<Rightarrow> idx_key list \<Rightarrow> nat \<Rightarrow> idx_key split_up \<Rightarrow> (u32 list \<times> idx_key list) res" where
  "adopt_idx_split kids dividers p s = adopt_split kids dividers p s"

definition write_idx_sibling :: "nat \<Rightarrow> nat \<Rightarrow> idx_key part list \<Rightarrow> idx_key list \<Rightarrow> nat \<Rightarrow> (pst, idx_key \<times> u32) act" where
  "write_idx_sibling psize usable parts seps k =
    bindA (liftA (idx parts k)) (\<lambda>(pc, pr).
    bindA allocate_page (\<lambda>pg.
    bindA (liftA (serialize_index_interior psize usable 0 pc pr None)) (\<lambda>buf.
    bindA (write_page pg buf) (\<lambda>_.
    retA (if k < length seps then seps ! k else ([], []), pg)))))"

definition finish_idx_interior :: "u32 \<Rightarrow> nat \<Rightarrow> nat \<Rightarrow> nat \<Rightarrow> u32 list \<Rightarrow> idx_key list \<Rightarrow> bytes option \<Rightarrow> (pst, idx_up) act" where
  "finish_idx_interior page_no body psize usable kids dividers prefix =
    bindA (liftA (mapR (\<lambda>i. bindR (idx kids i) (\<lambda>c. bindR (idx dividers i) (\<lambda>k. Ok (c, k)))) [0..<length dividers])) (\<lambda>cells.
    bindA (liftA (last_of kids)) (\<lambda>right.
    bindA (liftA (idx_interior_fits cells body usable)) (\<lambda>fits.
    if fits then
      bindA (liftA (serialize_index_interior psize usable body cells right prefix)) (\<lambda>buf.
      bindA (write_page page_no buf) (\<lambda>_. retA Fit))
    else
      let (parts, seps) = pack_index_interior cells right body usable in
      bindA (liftA (idx parts 0)) (\<lambda>(pc, pr).
      bindA (if length parts = 1 then retA ([], []) else liftA (idx seps 0)) (\<lambda>first.
      bindA (liftA (serialize_index_interior psize usable body pc pr prefix)) (\<lambda>buf.
      bindA (write_page page_no buf) (\<lambda>_.
      if length parts = 1 then retA Fit
      else
        bindA (mapA (write_idx_sibling psize usable parts seps) [1..<length parts]) (\<lambda>sibs.
        retA (SplitUp (Split first sibs))))))))))"

section \<open>Insertion\<close>

text \<open>The first entry that the record precedes; \<open>None\<close> when the record is there already.\<close>

fun find_slot :: "registry \<Rightarrow> bytes \<Rightarrow> text_encoding \<Rightarrow> collation list \<Rightarrow> bool list \<Rightarrow> nat \<Rightarrow> idx_key list \<Rightarrow> nat option res" where
  "find_slot reg target enc colls descs i [] = Ok (Some i)"
| "find_slot reg target enc colls descs i ((full, rc) # es) =
    bindR (cmp_records reg target full enc colls descs) (\<lambda>c.
    case c of Less \<Rightarrow> Ok (Some i) | Equal \<Rightarrow> Ok None | Greater \<Rightarrow> find_slot reg target enc colls descs (i + 1) es)"

primrec insert_index_rec :: "nat \<Rightarrow> registry \<Rightarrow> collation list \<Rightarrow> bool list \<Rightarrow> u32 \<Rightarrow> bytes \<Rightarrow> bytes \<Rightarrow> (pst, idx_up) act" where
  "insert_index_rec 0 reg colls descs page_no target rcell = liftA (Err (Corrupt ''b-tree depth limit exceeded''))"
| "insert_index_rec (Suc d) reg colls descs page_no target rcell =
    bindA getA (\<lambda>(_, p0).
    let enc = header_text_encoding (wp_header p0) in
    bindA (load_bt page_no) (\<lambda>bt.
    let body = body_offset (bt_page bt) in
    bindA wp_page_sizes (\<lambda>(usable, psize).
    if bt_type bt = LeafIndex then
      bindA (read_leaf bt usable) (\<lambda>entries.
      bindA (liftA (find_slot reg target enc colls descs 0 entries)) (\<lambda>slot.
      case slot of
        None \<Rightarrow> retA Fit
      | Some pos \<Rightarrow>
          bindA (liftA (insert_at entries pos (target, rcell))) (\<lambda>entries.
          bindA (liftA (idx_leaf_fits entries body usable)) (\<lambda>fits.
          if fits then
            bindA (liftA (page_one_prefix page_no bt)) (\<lambda>prefix.
            bindA (liftA (serialize_index_leaf psize usable body (rcells entries) prefix)) (\<lambda>buf.
            bindA (write_page page_no buf) (\<lambda>_. retA Fit)))
          else retA (LeafOverfull entries)))))
    else if bt_type bt = InteriorIndex then
      bindA (read_interior bt usable) (\<lambda>(cells, right).
      let kids = map fst cells @ [right]; dividers = map snd cells in
      bindA (liftA (page_one_prefix page_no bt)) (\<lambda>prefix.
      bindA (liftA (find_slot reg target enc colls descs 0 dividers)) (\<lambda>slot.
      case slot of
        None \<Rightarrow> retA Fit
      | Some p \<Rightarrow>
          bindA (liftA (idx kids p)) (\<lambda>child.
          bindA (insert_index_rec d reg colls descs child target rcell) (\<lambda>up.
          case up of
            Fit \<Rightarrow> retA Fit
          | LeafOverfull child_entries \<Rightarrow>
              bindA (balance_index_into kids dividers p child_entries) (\<lambda>(kids, dividers).
              finish_idx_interior page_no body psize usable kids dividers prefix)
          | SplitUp s \<Rightarrow>
              bindA (liftA (adopt_idx_split kids dividers p s)) (\<lambda>(kids, dividers).
              finish_idx_interior page_no body psize usable kids dividers prefix))))))
    else liftA (Err (Corrupt ''insert into a non-index b-tree'')))))"

definition deepen_index_root :: "u32 \<Rightarrow> idx_key list \<Rightarrow> (pst, unit) act" where
  "deepen_index_root root entries =
    bindA wp_page_sizes (\<lambda>(usable, psize).
    bindA allocate_page (\<lambda>child0.
    bindA (balance_index_pooled [child0] entries [length entries]) (\<lambda>(pages, dividers).
    bindA (liftA (mapR (\<lambda>i. bindR (idx pages i) (\<lambda>c. bindR (idx dividers i) (\<lambda>k. Ok (c, k)))) [0..<length dividers])) (\<lambda>icells.
    bindA (liftA (last_of pages)) (\<lambda>right.
    bindA (liftA (serialize_index_interior psize usable 0 icells right None)) (\<lambda>buf.
    write_page root buf))))))"

definition grow_index_root :: "u32 \<Rightarrow> idx_key split_up \<Rightarrow> (pst, unit) act" where
  "grow_index_root root s =
    bindA wp_page_sizes (\<lambda>(usable, psize).
    bindA (read_page root) (\<lambda>left_bytes.
    bindA allocate_page (\<lambda>new_left.
    bindA (write_page new_left left_bytes) (\<lambda>_.
    bindA (liftA (last_of (siblings s))) (\<lambda>last.
    let cells = (new_left, first_key s) # map (\<lambda>(k, pg). (pg, k)) (butlast (siblings s)) in
    bindA (liftA (serialize_index_interior psize usable 0 cells (snd last) None)) (\<lambda>buf.
    write_page root buf))))))"

definition insert_index :: "registry \<Rightarrow> u32 \<Rightarrow> bytes \<Rightarrow> collation list \<Rightarrow> bool list \<Rightarrow> (pst, unit) act" where
  "insert_index reg root record colls descs =
    bindA (build_index_rcell record) (\<lambda>rcell.
    bindA (insert_index_rec MAX_DEPTH reg colls descs root record rcell) (\<lambda>up.
    case up of
      Fit \<Rightarrow> retA ()
    | SplitUp s \<Rightarrow> grow_index_root root s
    | LeafOverfull entries \<Rightarrow> deepen_index_root root entries))"

definition create_index_root :: "(pst, u32) act" where
  "create_index_root =
    bindA wp_page_sizes (\<lambda>(usable, psize).
    bindA allocate_page (\<lambda>root.
    bindA (liftA (serialize_index_leaf psize usable 0 [] None)) (\<lambda>buf.
    bindA (write_page root buf) (\<lambda>_. retA root))))"

definition clear_index :: "nat \<Rightarrow> u32 \<Rightarrow> (pst, unit) lact" where
  "clear_index fuel root =
    bindL (runL wp_page_sizes) (\<lambda>(usable, psize).
    bindL (runL (load_bt root)) (\<lambda>bt.
    bindL
      (if bt_type bt = LeafIndex then
         foldL (\<lambda>i _. bindL (runL (liftA (index_cell bt i usable))) (\<lambda>cell.
           free_overflow_chain fuel (overflow (index_payload cell)))) [0..<num_cells bt] ()
       else if bt_type bt = InteriorIndex then
         bindL (foldL (\<lambda>i _.
           bindL (runL (liftA (index_cell bt i usable))) (\<lambda>cell.
           bindL (free_overflow_chain fuel (overflow (index_payload cell))) (\<lambda>_.
           bindL (runL (liftA (child_pointer bt i))) (\<lambda>c. free_tree fuel c)))) [0..<num_cells bt] ()) (\<lambda>_.
         free_tree fuel (right_pointer bt))
       else runL (liftA (Err (Corrupt ''clear of a non-index b-tree'')))) (\<lambda>_.
    bindL (runL (liftA (serialize_index_leaf psize usable 0 [] None))) (\<lambda>empty.
    runL (write_page root empty)))))"

end
