(* ===== verification/IndexImages.thy ===== *)
theory IndexImages
  imports PageImages IndexWriter TableRows
begin

text \<open>
  The page images of index b-trees: what \<open>serialize_index_leaf\<close> and \<open>serialize_index_interior\<close> (\<open>src/btree/index_writer.rs\<close>)
  write is what the accessors of \<open>src/btree/page.rs\<close> read, and an entry whose record spills to overflow
  pages is read back whole.
\<close>

section \<open>Writing\<close>

lemma put16_eq: "put16 = write_u16" and put_ccs_eq: "put_ccs = write_cell_content_start"
  by (auto simp: fun_eq_iff put16_def write_u16_def put_ccs_def write_cell_content_start_def)

abbreviation rsum :: "idx_key list \<Rightarrow> nat" where
  "rsum es \<equiv> sum_list (map (\<lambda>(_, c). length c + 2) es)"

abbreviation nsum :: "idx_key list \<Rightarrow> nat" where
  "nsum es \<equiv> sum_list (map (\<lambda>k. idx_cell_len k + 2) es)"

lemma need_of_idx: "need_of idx_cell_len cells = nsum (map snd cells)"
  by (induction cells) auto

lemma serialize_index_leaf_Ok:
  assumes fits: "8 + rsum es \<le> usable" and sz: "usable \<le> psize" "psize \<le> 65536" and ne: "list_all (\<lambda>e. snd e \<noteq> []) es"
  shows "\<exists>buf. serialize_index_leaf psize usable 0 (rcells es) None = Ok buf \<and> length buf = psize \<and> page_image buf 0 LeafIndex (map snd es)"
proof -
  let ?msg = "''index leaf page overflow while serializing''"
  have sum: "rsum es = sum_list (map length (map snd es)) + 2 * length (map snd es)" by (induction es) auto
  have n: "list_all (\<lambda>c. c \<noteq> []) (map snd es)" using ne by (simp add: list_all_iff)
  have t: "page_type_from_byte 0x0a = Ok LeafIndex" "8 = page_header_len LeafIndex" "length ([] :: bytes) = 8 - 8" "length (prefix_bytes None) = 0"
    by (simp_all add: page_type_from_byte_def page_header_len_def prefix_bytes_def)
  have f: "0 + 8 + 2 * length (map snd es) + sum_list (map length (map snd es)) \<le> usable" using fits sum by linarith
  from image_written [OF t(1,2) f sz t(4) n t(3), of ?msg, unfolded length_map]
  obtain b0 b1 content buf where b: "blank_page psize None = Ok b0" "length b1 = psize"
    "place_cells ?msg (0 + 8) (0 + 8 + 2 * length es) 0 (map snd es) usable b0 = Ok (content, b1)"
    "buf = overwrite (overwrite (overwrite (overwrite b1 0 [0x0a]) (0 + 3) (to_be16 (of_nat (length es)))) (0 + 5)
      (to_be16 (if 65536 \<le> content then 0 else of_nat content))) (0 + 8) []"
    "length buf = psize" "page_image buf 0 LeafIndex (map snd es)"
    by (elim exE conjE)
  have "8 \<le> length b1" "b1 \<noteq> []" using fits sz b(2) by auto
  then have "serialize_index_leaf psize usable 0 (rcells es) None = Ok buf"
    using b(1,3,4) by (simp add: serialize_index_leaf_def rcells_def put16_eq put_ccs_eq Let_def write_u16_Ok write_cell_content_start_def put_idx_def update_one)
  then show ?thesis using b(5,6) by blast
qed

lemma serialize_index_interior_Ok:
  assumes fits: "12 + nsum (map snd cells) \<le> usable" and sz: "usable \<le> psize" "psize \<le> 65536"
  shows "\<exists>buf. serialize_index_interior psize usable 0 cells right None = Ok buf \<and> length buf = psize \<and>
    page_image buf 0 InteriorIndex (map idx_cell_bytes cells) \<and> take 4 (drop 8 buf) = to_be32 right"
proof -
  let ?cs = "map idx_cell_bytes cells" let ?msg = "''index interior page overflow while serializing''"
  have sum: "nsum (map snd cells) = sum_list (map length ?cs) + 2 * length ?cs"
    by (induction cells) (auto simp: idx_cell_bytes_def idx_cell_len_def)
  have n: "list_all (\<lambda>c. c \<noteq> []) ?cs"
  proof -
    have "idx_cell_bytes c \<noteq> []" for c by (cases c) (auto simp: idx_cell_bytes_def dest: arg_cong [of _ "[]" length])
    then show ?thesis by (simp add: list_all_iff)
  qed
  have t: "page_type_from_byte 0x02 = Ok InteriorIndex" "12 = page_header_len InteriorIndex" "length (to_be32 right) = 12 - 8" "length (prefix_bytes None) = 0"
    by (simp_all add: page_type_from_byte_def page_header_len_def prefix_bytes_def)
  have f: "0 + 12 + 2 * length ?cs + sum_list (map length ?cs) \<le> usable" using fits sum by linarith
  from image_written [OF t(1,2) f sz t(4) n t(3), of ?msg, unfolded length_map length_to_be]
  obtain b0 b1 content buf where b: "blank_page psize None = Ok b0" "length b1 = psize"
    "place_cells ?msg (0 + 12) (0 + 12 + 2 * length cells) 0 ?cs usable b0 = Ok (content, b1)"
    "buf = overwrite (overwrite (overwrite (overwrite b1 0 [0x02]) (0 + 3) (to_be16 (of_nat (length cells)))) (0 + 5)
      (to_be16 (if 65536 \<le> content then 0 else of_nat content))) (0 + 8) (to_be32 right)"
    "length buf = psize" "page_image buf 0 InteriorIndex ?cs" "take 4 (drop (0 + 8) buf) = to_be32 right"
    by (elim exE conjE)
  have "12 \<le> length b1" "b1 \<noteq> []" using fits sz b(2) by auto
  then have "serialize_index_interior psize usable 0 cells right None = Ok buf"
    using b(1,3,4) by (simp add: serialize_index_interior_def put16_eq put_ccs_eq Let_def write_u16_Ok write_cell_content_start_def put_idx_def update_one put_slice_def)
  then show ?thesis using b(5-7) by auto
qed

section \<open>The bytes of an entry\<close>

definition index_parts :: "nat \<Rightarrow> bytes \<Rightarrow> (nat \<times> bytes \<times> u32) option" where
  "index_parts usable raw =
    (case varint_decode raw of
       None \<Rightarrow> None
     | Some (plen, n1) \<Rightarrow>
         (case payload_split LeafIndex usable (unat plen) of
            (llen, ov) \<Rightarrow>
              if length raw = n1 + llen + (if ov then 4 else 0)
              then Some (unat plen, take llen (drop n1 raw), if ov then from_be32 (drop (n1 + llen) raw) else 0)
              else None))"

definition idx_ok :: "nat \<Rightarrow> idx_key \<Rightarrow> bool" where
  "idx_ok usable e \<longleftrightarrow> (\<exists>loc ov. index_parts usable (snd e) = Some (length (fst e), loc, ov))"

lemma idx_ok_nonempty: "idx_ok usable e \<Longrightarrow> snd e \<noteq> []"
  by (auto simp: idx_ok_def index_parts_def varint_decode_def varint_decode_loop.simps)

text \<open>At least three entries fit on an interior page.\<close>

lemma idx_ok_len:
  assumes "idx_ok usable e" and "257 \<le> usable"
  shows "3 * (idx_cell_len e + 2) < usable - 12"
proof -
  obtain plen n1 llen ov where p: "varint_decode (snd e) = Some (plen, n1)" "payload_split LeafIndex usable (unat plen) = (llen, ov)"
    "length (snd e) = n1 + llen + (if ov then 4 else 0)"
    using assms(1) by (auto simp: idx_ok_def index_parts_def split: option.splits prod.splits if_splits)
  have "llen \<le> (usable - 12) * 64 div 255 - 23" using payload_split_bounds(4) [OF p(2)] assms(2) by (simp add: payload_max_local_def)
  moreover have "n1 \<le> 9" using varint_decode_bounds [OF p(1)] by (simp add: MAX_LEN_def)
  moreover have "61 \<le> (usable - 12) * 64 div 255" using div_le_mono [of "245 * 64" "(usable - 12) * 64" 255] assms(2) by simp
  ultimately have "length (snd e) + 10 \<le> (usable - 12) * 64 div 255" using p(3) by (auto split: if_splits)
  then have "255 * (length (snd e) + 10) \<le> (usable - 12) * 64" by (simp add: less_eq_div_iff_mult_less_eq mult.commute)
  then show ?thesis by (simp add: idx_cell_len_def)
qed

text \<open>One slot of an index page.\<close>

lemma index_image_cell:
  assumes img: "page_image (bt_data bt) (bt_body bt) (bt_type bt) cells" and n: "num_cells bt = length cells" "k < length cells"
    and t: "bt_type bt = LeafIndex \<and> cells ! k = raw \<or> bt_type bt = InteriorIndex \<and> cells ! k = to_be32 child @ raw"
    and parts: "index_parts usable raw = Some (tot, loc, ov)"
  shows "\<exists>cell. index_cell bt k usable = Ok cell \<and> total_len (index_payload cell) = tot \<and> overflow (index_payload cell) = ov \<and>
    slice (bt_data bt) (local_offset (index_payload cell)) (local_offset (index_payload cell) + local_len (index_payload cell)) = Ok loc \<and>
    raw_index_record_cell bt k usable = Ok raw \<and> (bt_type bt = InteriorIndex \<longrightarrow> left_child cell = child \<and> child_pointer bt k = Ok child)"
proof -
  let ?d = "bt_data bt" let ?c = "cells ! k"
  define h where "h = (if bt_type bt = InteriorIndex then 4 else 0 :: nat)"
  have rne: "raw \<noteq> []" using parts by (auto simp: index_parts_def varint_decode_def varint_decode_loop.simps)
  then have ne: "?c \<noteq> []" using t by auto
  obtain off where off: "cell_offset bt k = Ok off" "off + length ?c \<le> length ?d" "drop off ?d = ?c @ drop (off + length ?c) ?d"
    using page_image_cell [OF img n ne] by blast
  have hc: "drop h ?c = raw" "length ?c = h + length raw" using t by (auto simp: h_def)
  obtain plen n1 llen b where p: "varint_decode raw = Some (plen, n1)" "payload_split LeafIndex usable (unat plen) = (llen, b)"
    "length raw = n1 + llen + (if b then 4 else 0)" "tot = unat plen" "loc = take llen (drop n1 raw)" "ov = (if b then from_be32 (drop (n1 + llen) raw) else 0)"
    using parts by (auto simp: index_parts_def split: option.splits prod.splits if_splits)
  let ?k = "off + h"
  have dk: "drop ?k ?d = raw @ drop (?k + length raw) ?d"
  proof -
    have "drop ?k ?d = drop h (drop off ?d)" by (simp add: add.commute)
    also have "\<dots> = raw @ drop (off + length ?c) ?d" unfolding off(3) using hc by simp
    finally show ?thesis using hc(2) by (simp add: add.assoc)
  qed
  have le: "?k + length raw \<le> length ?d" using off(2) hc(2) by simp
  have sub: "take m (drop (?k + j) ?d) = take m (drop j raw)" if "j + m \<le> length raw" for j m
  proof -
    have "drop (?k + j) ?d = drop j (drop ?k ?d)" by (simp add: add.commute)
    also have "\<dots> = drop j raw @ drop (?k + length raw) ?d" unfolding dk using that by simp
    finally show ?thesis using that by simp
  qed
  have d1: "varint_decode (drop ?k ?d) = Some (plen, n1)" unfolding dk by (rule varint_decode_append [OF p(1)])
  have ps: "payload_split (bt_type bt) usable (unat plen) = (llen, b)" using p(2) t by (auto simp: payload_split_def payload_max_local_def)
  have at: "payload_at bt (?k + n1) (unat plen) usable = Ok \<lparr>total_len = tot, local_offset = ?k + n1, local_len = llen, overflow = ov\<rparr>"
  proof -
    have "?k + (n1 + llen) + 4 \<le> length ?d" "be_u32 ?d (?k + n1 + llen) = Ok ov" if b
    proof -
      show l: "?k + (n1 + llen) + 4 \<le> length ?d" using le p(3) that by simp
      have "take 4 (drop (?k + (n1 + llen)) ?d) = drop (n1 + llen) raw" using sub [of "n1 + llen" 4] p(3) that by simp
      then show "be_u32 ?d (?k + n1 + llen) = Ok ov" using l p(6) that by (simp add: be_u32_def slice_def add.assoc)
    qed
    then show ?thesis using p le ps by (auto simp: payload_at_def Let_def add.assoc)
  qed
  have loc: "slice ?d (?k + n1) (?k + n1 + llen) = Ok loc" using sub [of n1 llen] le p(3,5) by (simp add: slice_def add.assoc)
  have gf: "get_from ?d ?k = Some (drop ?k ?d)" using le by (simp add: get_from_def)
  have "slice ?d ?k (?k + length raw) = Ok raw" using le dk by (simp add: slice_def)
  then have raw: "raw_index_record_cell bt k usable = Ok raw"
    using t off(1) d1 gf le p(3) ps unfolding raw_index_record_cell_def h_def
    by (auto simp: Let_def ok_or_def add.assoc split: if_splits)
  have lc: "be_u32_checked ?d off = Ok child" if "bt_type bt = InteriorIndex"
  proof -
    have c: "?c = to_be32 child @ raw" using t that by auto
    then have "take 4 (drop off ?d) = to_be32 child" unfolding off(3) by simp
    then show ?thesis using off(2) c by (simp add: be_u32_checked_def get_slice_def ok_or_def)
  qed
  have "index_cell bt k usable = Ok \<lparr>left_child = (if bt_type bt = InteriorIndex then child else 0),
      index_payload = \<lparr>total_len = tot, local_offset = ?k + n1, local_len = llen, overflow = ov\<rparr>\<rparr>"
    using t off(1) d1 gf at lc unfolding index_cell_def h_def by (auto simp: Let_def ok_or_def)
  moreover have "child_pointer bt k = Ok child" if "bt_type bt = InteriorIndex" using that lc off(1) n by (simp add: child_pointer_def)
  ultimately show ?thesis using loc raw by auto
qed

section \<open>Entries that hold their record\<close>

definition idx_holds :: "nat \<Rightarrow> pages \<Rightarrow> idx_key \<Rightarrow> bool" where
  "idx_holds usable h e \<longleftrightarrow> (\<exists>loc ov. index_parts usable (snd e) = Some (length (fst e), loc, ov) \<and>
    chain_bytes (store_of h) usable (length (fst e)) ov loc (fst e))"

lemma idx_holds_ok: "idx_holds usable h e \<Longrightarrow> idx_ok usable e"
  by (auto simp: idx_holds_def idx_ok_def)

lemma idx_holds_mono:
  assumes "idx_holds usable h e" and "h \<subseteq>\<^sub>m h'"
  shows "idx_holds usable h' e"
proof -
  have "store_of h' n = Some p" if "store_of h n = Some p" for n p
    using that assms(2) by (auto simp: store_of_def map_le_def dom_def)
  then show ?thesis using assms(1) chain_bytes_mono unfolding idx_holds_def by blast
qed

lemma index_parts_built:
  assumes "payload_split LeafIndex usable n = (llen, ov)" and "n < 2 ^ 64" and "length loc = llen" and "length tail = (if ov then 4 else 0)"
  shows "index_parts usable (varint_encode (of_nat n) @ loc @ tail) = Some (n, loc, if ov then from_be32 tail else 0)"
proof -
  have u: "unat (of_nat n :: u64) = n" using assms(2) by (simp add: unat_of_nat take_bit_nat_eq_self)
  show ?thesis unfolding index_parts_def using assms(1,3,4) by (simp add: varint_decode_encode u)
qed

definition idx_spill :: "nat \<Rightarrow> nat \<Rightarrow> nat" where
  "idx_spill usable n = (case payload_split LeafIndex usable n of (llen, ov) \<Rightarrow> if ov then chain_len usable (n - llen) else 0)"

lemma build_index_rcell_runs:
  assumes hp: "pager_heap usable ps (k + idx_spill usable (length record)) h s" and len: "length record < 2 ^ 64"
  shows "runs (build_index_rcell record) s (\<lambda>c s'. \<exists>h' S. pager_heap usable ps k h' s' \<and> replaces h {} h' S \<and> 1 \<notin> S \<and>
    idx_holds usable (h' |` S) (record, c))" (is "runs _ _ ?post")
proof -
  note sz = pager_heap_sizes [OF hp]
  obtain llen ov where sp: "payload_split LeafIndex usable (length record) = (llen, ov)" by (cases "payload_split LeafIndex usable (length record)")
  note pb = payload_split_bounds [OF sp]
  have ll: "llen \<le> length record" "\<not> ov \<Longrightarrow> llen = length record" using pb(1,3) by auto
  have sl: "slice record 0 llen = Ok (take llen record)" "slice_from record llen = Ok (drop llen record)" using ll(1) by (auto simp: slice_def slice_from_def)
  show ?thesis
  proof (cases ov)
    case False
    let ?c = "varint_encode (of_nat (length record)) @ record"
    have "index_parts usable ?c = Some (length record, record, 0)"
      using index_parts_built [OF sp len, of "record" "[]"] False ll by simp
    then have "idx_holds usable (h |` {}) (record, ?c)" unfolding idx_holds_def by (auto intro: chain_bytes.Done)
    then show ?thesis unfolding build_index_rcell_def runs_sizes [OF hp] Let_def sp prod.case sl bindA_lift_Ok using False ll hp sp
      by (auto simp: idx_spill_def intro!: exI [of _ h] exI [of _ "{}"] replaces_refl)
  next
    case True
    let ?c = "varint_encode (of_nat (length record)) @ take llen record"
    have "llen < length record" using pb(1,2,4) True sz(2) by simp
    then have ne: "drop llen record \<noteq> []" by simp
    have hp': "pager_heap usable ps (k + chain_len usable (length (drop llen record))) h s" using hp sp True by (simp add: idx_spill_def)
    have fin: "?post (?c @ to_be32 first) s'" if st: "\<exists>h' S. pager_heap usable ps k h' s' \<and> replaces h {} h' S \<and> 1 \<notin> S \<and>
        (\<forall>pre. chain_bytes (store_of (h' |` S)) usable (length pre + length (drop llen record)) first pre (pre @ drop llen record))" for first s'
    proof -
      obtain h' S where h': "pager_heap usable ps k h' s'" "replaces h {} h' S" "1 \<notin> S"
        "\<And>pre. chain_bytes (store_of (h' |` S)) usable (length pre + length (drop llen record)) first pre (pre @ drop llen record)" using st by blast
      have "index_parts usable (?c @ to_be32 first) = Some (length record, take llen record, first)"
        using index_parts_built [OF sp len, of "take llen record" "to_be32 first"] True ll(1) by simp
      moreover have "chain_bytes (store_of (h' |` S)) usable (length record) first (take llen record) record"
        using h'(4) [of "take llen record"] ll(1) by simp
      ultimately have "idx_holds usable (h' |` S) (record, ?c @ to_be32 first)" unfolding idx_holds_def by auto
      then show ?thesis using h'(1-3) by blast
    qed
    show ?thesis unfolding build_index_rcell_def runs_sizes [OF hp] Let_def sp prod.case sl bindA_lift_Ok if_P [OF True]
      by (rule runs_seq [OF write_overflow_chain_runs [OF hp' ne]]) (rule runs_ret, rule fin)
  qed
qed

end
