(* ===== verification/IndexTree.thy ===== *)
theory IndexTree
  imports IndexImages
begin

text \<open>
  Index b-trees as lists of entries. The entries of a tree in order are the entries of its leaves
  interleaved with those of its interior pages (\<open>itree\<close>); the pages it owns come with it. Everything
  here is independent of the order of the records.
\<close>

section \<open>The heap as a page source\<close>

interpretation heap_reader: page_reader source_page "pager_heap usable ps k h" "store_of h" for usable ps k h
proof
  fix s n pg
  assume a: "pager_heap usable ps k h s" "store_of h n = Some pg"
  then obtain b where b: "h n = Some b" "pg = page_from_bytes n b" by (auto simp: store_of_def)
  then show "\<exists>s'. source_page n s = (Ok pg, s') \<and> pager_heap usable ps k h s'"
    using ph.heap_rd [OF a(1) b(1)] by (auto simp: runs_def source_page_def bindA_def)
qed

section \<open>Pages\<close>

definition idx_leaf :: "nat \<Rightarrow> pages \<Rightarrow> u32 \<Rightarrow> idx_key list \<Rightarrow> bool" where
  "idx_leaf usable h n es \<longleftrightarrow> n \<noteq> 1 \<and> (\<exists>b. h n = Some b \<and> page_image b 0 LeafIndex (map snd es)) \<and> list_all (idx_ok usable) es \<and>
    8 + rsum es \<le> usable"

definition idx_node :: "nat \<Rightarrow> pages \<Rightarrow> u32 \<Rightarrow> u32 list \<Rightarrow> idx_key list \<Rightarrow> bool" where
  "idx_node usable h n kids es \<longleftrightarrow> n \<noteq> 1 \<and> length kids = length es + 1 \<and> list_all (idx_ok usable) es \<and> 12 + nsum es \<le> usable \<and>
    (\<exists>b. h n = Some b \<and> page_image b 0 InteriorIndex (map idx_cell_bytes (zip kids es)) \<and> take 4 (drop 8 b) = to_be32 (last kids))"

lemma idx_page_cong:
  "idx_leaf usable h n es \<Longrightarrow> h' n = h n \<Longrightarrow> idx_leaf usable h' n es"
  "idx_node usable h n kids es \<Longrightarrow> h' n = h n \<Longrightarrow> idx_node usable h' n kids es"
  by (simp_all add: idx_leaf_def idx_node_def)

type_synonym itree_pred = "u32 \<Rightarrow> idx_key list \<Rightarrow> u32 set \<Rightarrow> bool"

fun iforest :: "itree_pred \<Rightarrow> u32 list \<Rightarrow> idx_key list \<Rightarrow> idx_key list \<Rightarrow> u32 set \<Rightarrow> bool" where
  "iforest Q [k] [] xs P \<longleftrightarrow> Q k xs P"
| "iforest Q (k # ks) (e # es) xs P \<longleftrightarrow>
    (\<exists>x1 x2 P1 P2. xs = x1 @ e # x2 \<and> P = P1 \<union> P2 \<and> P1 \<inter> P2 = {} \<and> Q k x1 P1 \<and> iforest Q ks es x2 P2)"
| "iforest Q ks es xs P \<longleftrightarrow> False"

primrec itree :: "nat \<Rightarrow> pages \<Rightarrow> nat \<Rightarrow> itree_pred" where
  "itree usable h 0 = (\<lambda>n xs P. idx_leaf usable h n xs \<and> P = {n})"
| "itree usable h (Suc d) = (\<lambda>n xs P. \<exists>kids es P'. idx_node usable h n kids es \<and> iforest (itree usable h d) kids es xs P' \<and>
    n \<notin> P' \<and> P = insert n P')"

lemma iforest_ConsI:
  "Q k x1 P1 \<Longrightarrow> iforest Q ks es x2 P2 \<Longrightarrow> P1 \<inter> P2 = {} \<Longrightarrow> iforest Q (k # ks) (e # es) (x1 @ e # x2) (P1 \<union> P2)"
  by auto

lemma iforest_length: "iforest Q ks es xs P \<Longrightarrow> length ks = length es + 1"
  by (induction Q ks es xs P rule: iforest.induct) auto

lemma iforest_mono:
  "iforest Q ks es xs P \<Longrightarrow> (\<And>k x R. R \<subseteq> P \<Longrightarrow> Q k x R \<Longrightarrow> Q' k x R) \<Longrightarrow> iforest Q' ks es xs P"
proof (induction Q ks es xs P rule: iforest.induct)
  case (2 Q k ks e es xs P)
  obtain x1 x2 P1 P2 where p: "xs = x1 @ e # x2" "P = P1 \<union> P2" "P1 \<inter> P2 = {}" "Q k x1 P1" "iforest Q ks es x2 P2" using "2.prems"(1) by auto
  have "iforest Q' ks es x2 P2" by (rule "2.IH" [OF p(5)]) (use "2.prems"(2) p(2) in blast)
  moreover have "Q' k x1 P1" using "2.prems"(2) p(2,4) by blast
  ultimately show ?case unfolding p(1,2) using p(3) by (intro iforest_ConsI)
qed auto

lemma itree_cong: "itree usable h d n xs P \<Longrightarrow> (\<And>m. m \<in> P \<Longrightarrow> h' m = h m) \<Longrightarrow> itree usable h' d n xs P"
proof (induction d arbitrary: n xs P)
  case 0
  then show ?case using idx_page_cong(1) [of usable h n xs h'] by simp
next
  case (Suc d)
  obtain kids es P' where k: "idx_node usable h n kids es" "iforest (itree usable h d) kids es xs P'" "n \<notin> P'" "P = insert n P'"
    using Suc.prems(1) by auto
  have "iforest (itree usable h' d) kids es xs P'"
  proof (rule iforest_mono [OF k(2)])
    fix c x R
    assume r: "R \<subseteq> P'" "itree usable h d c x R"
    from r(2) show "itree usable h' d c x R" by (rule Suc.IH) (use r(1) Suc.prems(2) k(4) in blast)
  qed
  moreover have "idx_node usable h' n kids es" using idx_page_cong(2) [OF k(1)] Suc.prems(2) k(4) by blast
  ultimately show ?case using k by auto
qed

lemma iforest_cong:
  assumes "iforest (itree usable h d) ks es xs P" and "\<And>m. m \<in> P \<Longrightarrow> h' m = h m"
  shows "iforest (itree usable h' d) ks es xs P"
  by (rule iforest_mono [OF assms(1)]) (use assms(2) itree_cong in blast)

lemma iforest_pages:
  "iforest Q ks es xs P \<Longrightarrow> (\<And>k x R. Q k x R \<Longrightarrow> k \<in> R \<and> R \<subseteq> U) \<Longrightarrow> set ks \<subseteq> P \<and> P \<subseteq> U \<and> distinct ks"
proof (induction Q ks es xs P rule: iforest.induct)
  case (2 Q k ks e es xs P)
  then show ?case by (fastforce simp: disjoint_iff)
qed auto

lemma itree_pages: "itree usable h d n xs P \<Longrightarrow> n \<in> P \<and> P \<subseteq> dom h - {1}"
proof (induction d arbitrary: n xs P)
  case (Suc d)
  then obtain kids es P' where k: "idx_node usable h n kids es" "iforest (itree usable h d) kids es xs P'" "P = insert n P'" by auto
  have "P' \<subseteq> dom h - {1}" using iforest_pages [OF k(2)] Suc.IH by blast
  then show ?case using k by (auto simp: idx_node_def)
qed (auto simp: idx_leaf_def)

lemma iforest_owned: "iforest (itree usable h d) ks es xs P \<Longrightarrow> set ks \<subseteq> P \<and> P \<subseteq> dom h - {1} \<and> distinct ks"
  by (erule iforest_pages) (rule itree_pages)

lemma iforest_entries: "iforest Q ks es xs P \<Longrightarrow> set es \<subseteq> set xs"
proof (induction Q ks es xs P rule: iforest.induct)
  case (2 Q k ks e es xs P)
  obtain x1 x2 P1 P2 where p: "xs = x1 @ e # x2" "iforest Q ks es x2 P2" using "2.prems" by auto
  show ?case using "2.IH" [OF p(2)] p(1) by auto
qed auto

lemma itree_ok: "itree usable h d n xs P \<Longrightarrow> list_all (idx_ok usable) xs"
proof (induction d arbitrary: n xs P)
  case (Suc d)
  then obtain kids es P' where k: "idx_node usable h n kids es" "iforest (itree usable h d) kids es xs P'" by auto
  have "iforest Q kids es xs P' \<Longrightarrow> (\<And>k x R. Q k x R \<Longrightarrow> list_all (idx_ok usable) x) \<Longrightarrow> list_all (idx_ok usable) es \<Longrightarrow> list_all (idx_ok usable) xs" for Q
    by (induction Q kids es xs P' rule: iforest.induct) fastforce+
  then show ?case using k Suc.IH by (auto simp: idx_node_def)
qed (simp add: idx_leaf_def)

section \<open>Splitting and joining forests\<close>

lemma iforest_append:
  assumes "length ks = length es + 1"
  shows "iforest Q (ks @ ks') (es @ e # es') xs P \<longleftrightarrow>
    (\<exists>x1 x2 P1 P2. xs = x1 @ e # x2 \<and> P = P1 \<union> P2 \<and> P1 \<inter> P2 = {} \<and> iforest Q ks es x1 P1 \<and> iforest Q ks' es' x2 P2)"
  using assms
proof (induction ks es arbitrary: xs P rule: list_induct2')
  case (2 k ks)
  then show ?case by simp
next
  case (4 k ks v vs)
  have len: "length ks = length vs + 1" using "4.prems" by simp
  show ?case (is "?L \<longleftrightarrow> ?R")
  proof
    assume ?L
    then obtain x1 x2 P1 P2 where a: "xs = x1 @ v # x2" "P = P1 \<union> P2" "P1 \<inter> P2 = {}" "Q k x1 P1" "iforest Q (ks @ ks') (vs @ e # es') x2 P2" by auto
    obtain y1 y2 R1 R2 where b: "x2 = y1 @ e # y2" "P2 = R1 \<union> R2" "R1 \<inter> R2 = {}" "iforest Q ks vs y1 R1" "iforest Q ks' es' y2 R2"
      using a(5) "4.IH" [OF len] by auto
    have "iforest Q (k # ks) (v # vs) (x1 @ v # y1) (P1 \<union> R1)" using a(3,4) b(2,4) by (intro iforest_ConsI) auto
    then show ?R using a(1-3) b(1-3,5)
      by (intro exI [of _ "x1 @ v # y1"] exI [of _ y2] exI [of _ "P1 \<union> R1"] exI [of _ R2]) auto
  next
    assume ?R
    then obtain z1 z2 P1 P2 where a: "xs = z1 @ e # z2" "P = P1 \<union> P2" "P1 \<inter> P2 = {}" "iforest Q (k # ks) (v # vs) z1 P1" "iforest Q ks' es' z2 P2" by blast
    obtain x1 x2 R1 R2 where b: "z1 = x1 @ v # x2" "P1 = R1 \<union> R2" "R1 \<inter> R2 = {}" "Q k x1 R1" "iforest Q ks vs x2 R2" using a(4) by auto
    have "iforest Q (ks @ ks') (vs @ e # es') (x2 @ e # z2) (R2 \<union> P2)" unfolding "4.IH" [OF len]
      using a(3,5) b(2,5) by (intro exI [of _ x2] exI [of _ z2] exI [of _ R2] exI [of _ P2]) auto
    then have "iforest Q (k # ks @ ks') (v # vs @ e # es') (x1 @ v # x2 @ e # z2) (R1 \<union> (R2 \<union> P2))" using a(3) b(2-4) by (intro iforest_ConsI) auto
    then show ?L using a(1,2) b(1,2) by (simp add: Un_assoc)
  qed
qed simp_all

text \<open>
  A window of a forest: what is left and right of it, and that another forest can take its place. The
  entries next to the window are the ends of what is left and right.
\<close>

definition window_ends :: "idx_key list \<Rightarrow> nat \<Rightarrow> nat \<Rightarrow> idx_key list \<Rightarrow> idx_key list \<Rightarrow> bool" where
  "window_ends es w m xa xc \<longleftrightarrow> (if w = 0 then xa = [] else xa \<noteq> [] \<and> last xa = es ! (w - 1)) \<and>
    (if w + m = length es + 1 then xc = [] else xc \<noteq> [] \<and> hd xc = es ! (w + m - 1))"

definition window_join :: "itree_pred \<Rightarrow> u32 list \<Rightarrow> idx_key list \<Rightarrow> nat \<Rightarrow> nat \<Rightarrow> idx_key list \<Rightarrow> idx_key list \<Rightarrow> u32 set \<Rightarrow> bool" where
  "window_join Q ks es w m xa xc R \<longleftrightarrow> (\<forall>Q' ks' es' x P'. iforest Q' ks' es' x P' \<and> R \<inter> P' = {} \<and> (\<forall>k y B. B \<subseteq> R \<and> Q k y B \<longrightarrow> Q' k y B) \<longrightarrow>
    iforest Q' (take w ks @ ks' @ drop (w + m) ks) (take w es @ es' @ drop (w + m - 1) es) (xa @ x @ xc) (R \<union> P'))"

lemma window_joinD:
  assumes "window_join Q ks es w m xa xc R" and "iforest Q' ks' es' x P'" and "R \<inter> P' = {}" and "\<And>k y B. B \<subseteq> R \<Longrightarrow> Q k y B \<Longrightarrow> Q' k y B"
  shows "iforest Q' (take w ks @ ks' @ drop (w + m) ks) (take w es @ es' @ drop (w + m - 1) es) (xa @ x @ xc) (R \<union> P')"
proof -
  have "\<forall>k y B. B \<subseteq> R \<and> Q k y B \<longrightarrow> Q' k y B" using assms(4) by blast
  then show ?thesis using assms(1) [unfolded window_join_def, THEN spec, THEN spec, THEN spec, THEN spec, THEN spec, of Q' ks' es' x P'] assms(2,3) by (elim mp) (intro conjI)
qed

lemma iforest_window_left:
  assumes "iforest Q ks es xs P" and "0 < m" and "m \<le> length ks"
  shows "\<exists>xw xc R PW. iforest Q (take m ks) (take (m - 1) es) xw PW \<and> xs = xw @ xc \<and> P = R \<union> PW \<and> R \<inter> PW = {} \<and>
    window_ends es 0 m [] xc \<and> window_join Q ks es 0 m [] xc R"
proof (cases "m = length ks")
  case True
  then show ?thesis using assms iforest_length [OF assms(1)]
    by (intro exI [of _ xs] exI [of _ "[]"] exI [of _ "{}"] exI [of _ P]) (auto simp: window_ends_def window_join_def)
next
  case False
  have len: "length ks = length es + 1" by (rule iforest_length [OF assms(1)])
  have s: "ks = take m ks @ drop m ks" "es = take (m - 1) es @ es ! (m - 1) # drop m es"
    using False assms(2,3) len id_take_nth_drop [of "m - 1" es] by auto
  have l: "length (take m ks) = length (take (m - 1) es) + 1" using assms(2,3) len by simp
  obtain x1 x2 P1 P2 where a: "xs = x1 @ es ! (m - 1) # x2" "P = P1 \<union> P2" "P1 \<inter> P2 = {}" "iforest Q (take m ks) (take (m - 1) es) x1 P1"
    "iforest Q (drop m ks) (drop m es) x2 P2" using assms(1) iforest_append [OF l, of Q "drop m ks" "es ! (m - 1)" "drop m es" xs P] s by metis
  have d: "drop (m - 1) es = es ! (m - 1) # drop m es" using False assms(2,3) len Cons_nth_drop_Suc [of "m - 1" es] by simp
  have "window_join Q ks es 0 m [] (es ! (m - 1) # x2) P2" unfolding window_join_def
  proof (intro allI impI, elim conjE)
    fix Q' ks' es' x P'
    assume b: "iforest Q' ks' es' x P'" "P2 \<inter> P' = {}" "\<forall>k y B. B \<subseteq> P2 \<and> Q k y B \<longrightarrow> Q' k y B"
    have "iforest Q' (drop m ks) (drop m es) x2 P2" by (rule iforest_mono [OF a(5)]) (use b(3) in blast)
    then have "iforest Q' (ks' @ drop m ks) (es' @ es ! (m - 1) # drop m es) (x @ es ! (m - 1) # x2) (P' \<union> P2)"
      unfolding iforest_append [OF iforest_length [OF b(1)]] using b(1,2) by blast
    then show "iforest Q' (take 0 ks @ ks' @ drop (0 + m) ks) (take 0 es @ es' @ drop (0 + m - 1) es) ([] @ x @ es ! (m - 1) # x2) (P2 \<union> P')"
      using d by (simp add: Un_commute)
  qed
  moreover have "window_ends es 0 m [] (es ! (m - 1) # x2)" using False len by (simp add: window_ends_def)
  ultimately show ?thesis using a by (intro exI [of _ x1] exI [of _ "es ! (m - 1) # x2"] exI [of _ P2] exI [of _ P1]) auto
qed

lemma iforest_window:
  assumes "iforest Q ks es xs P" and "0 < m" and "w + m \<le> length ks"
  obtains xa xw xc R PW where "iforest Q (take m (drop w ks)) (take (m - 1) (drop w es)) xw PW" and "xs = xa @ xw @ xc" and "P = R \<union> PW" and "R \<inter> PW = {}"
    and "window_ends es w m xa xc" and "window_join Q ks es w m xa xc R"
proof -
  have "\<exists>xa xw xc R PW. iforest Q (take m (drop w ks)) (take (m - 1) (drop w es)) xw PW \<and> xs = xa @ xw @ xc \<and> P = R \<union> PW \<and> R \<inter> PW = {} \<and>
    window_ends es w m xa xc \<and> window_join Q ks es w m xa xc R" using assms(1,3)
  proof (induction w arbitrary: ks es xs P)
    case 0
    from iforest_window_left [OF 0(1) assms(2)] 0(2) obtain xw xc R PW where
      "iforest Q (take m ks) (take (m - 1) es) xw PW" "xs = xw @ xc" "P = R \<union> PW" "R \<inter> PW = {}" "window_ends es 0 m [] xc" "window_join Q ks es 0 m [] xc R" by auto
    then show ?case unfolding drop_0 by (intro exI [of _ "[]"] exI [of _ xw] exI [of _ xc] exI [of _ R] exI [of _ PW]) simp
  next
    case (Suc w)
    obtain k ks1 where ks: "ks = k # ks1" using Suc.prems(2) by (cases ks) auto
    have len: "length ks = length es + 1" by (rule iforest_length [OF Suc.prems(1)])
    obtain e es1 where es: "es = e # es1" using Suc.prems(2) assms(2) len by (cases es) auto
    obtain x1 x2 P1 P2 where a: "xs = x1 @ e # x2" "P = P1 \<union> P2" "P1 \<inter> P2 = {}" "Q k x1 P1" "iforest Q ks1 es1 x2 P2" using Suc.prems(1) ks es by auto
    obtain xa xw xc R PW where b: "iforest Q (take m (drop w ks1)) (take (m - 1) (drop w es1)) xw PW" "x2 = xa @ xw @ xc" "P2 = R \<union> PW" "R \<inter> PW = {}"
      "window_ends es1 w m xa xc" "window_join Q ks1 es1 w m xa xc R" using Suc.IH [OF a(5)] Suc.prems(2) ks by auto
    have "window_join Q ks es (Suc w) m (x1 @ e # xa) xc (P1 \<union> R)" unfolding window_join_def
    proof (intro allI impI, elim conjE)
      fix Q' ks' es' x P'
      assume c: "iforest Q' ks' es' x P'" "(P1 \<union> R) \<inter> P' = {}" "\<forall>k y B. B \<subseteq> P1 \<union> R \<and> Q k y B \<longrightarrow> Q' k y B"
      have "iforest Q' (take w ks1 @ ks' @ drop (w + m) ks1) (take w es1 @ es' @ drop (w + m - 1) es1) (xa @ x @ xc) (R \<union> P')"
        by (rule window_joinD [OF b(6) c(1)]) (use c(2,3) in blast)+
      moreover have "Q' k x1 P1" using c(3) a(4) by blast
      ultimately have "iforest Q' (k # take w ks1 @ ks' @ drop (w + m) ks1) (e # take w es1 @ es' @ drop (w + m - 1) es1) (x1 @ e # xa @ x @ xc) (P1 \<union> (R \<union> P'))"
        using a(3) b(3) c(2) by (intro iforest_ConsI) auto
      moreover have "drop (Suc w + m - 1) es = drop (w + m - 1) es1" using es assms(2) by (cases m) auto
      ultimately show "iforest Q' (take (Suc w) ks @ ks' @ drop (Suc w + m) ks) (take (Suc w) es @ es' @ drop (Suc w + m - 1) es) ((x1 @ e # xa) @ x @ xc) ((P1 \<union> R) \<union> P')"
        using ks es by (simp add: Un_assoc)
    qed
    moreover have "window_ends es (Suc w) m (x1 @ e # xa) xc"
    proof -
      have "last (x1 @ e # xa) = es ! w" using b(5) by (cases w) (simp_all add: window_ends_def es)
      moreover have "es ! (Suc w + m - 1) = es1 ! (w + m - 1)" using assms(2) by (cases m) (simp_all add: es)
      ultimately show ?thesis using b(5) by (simp add: window_ends_def es)
    qed
    moreover have "xs = (x1 @ e # xa) @ xw @ xc" "P = (P1 \<union> R) \<union> PW" "(P1 \<union> R) \<inter> PW = {}" using a(1-3) b(2-4) by auto
    ultimately show ?case using b(1) ks es by (simp only: drop_Suc_Cons) blast
  qed
  then show thesis using that by blast
qed

end
