(* ===== verification/IndexInsert.thy ===== *)
theory IndexInsert
  imports IndexTree
begin

text \<open>
  The steps of an insertion into an index b-tree (\<open>src/btree/index_writer.rs\<close>): reading and writing
  pages of entries, and redistributing a leaf with its siblings, where entries between pages are
  promoted to the parent. Each step keeps the list of entries of the tree.
\<close>

section \<open>Loading pages\<close>

definition leaf_bt :: "btree_page \<Rightarrow> idx_key list \<Rightarrow> bool" where
  "leaf_bt bt es \<longleftrightarrow> bt_type bt = LeafIndex \<and> num_cells bt = length es \<and> page_image (bt_data bt) (bt_body bt) LeafIndex (map snd es)"

definition node_bt :: "btree_page \<Rightarrow> u32 list \<Rightarrow> idx_key list \<Rightarrow> bool" where
  "node_bt bt kids es \<longleftrightarrow> bt_type bt = InteriorIndex \<and> num_cells bt = length es \<and>
    page_image (bt_data bt) (bt_body bt) InteriorIndex (map idx_cell_bytes (zip kids es)) \<and> right_pointer bt = last kids"

definition other_page :: "u32 \<Rightarrow> btree_page \<Rightarrow> bool" where
  "other_page n bt \<longleftrightarrow> body_offset (bt_page bt) = 0 \<and> page_one_prefix n bt = Ok None"

lemma loaded_other: "loaded h n bt \<Longrightarrow> n \<noteq> 1 \<Longrightarrow> other_page n bt"
  by (auto simp: loaded_def other_page_def page_one_prefix_def)

lemma load_idx_leaf:
  assumes hp: "pager_heap usable ps k h s" and l: "idx_leaf usable h n es"
  shows "runs (load_bt n) s (\<lambda>bt s'. pager_heap usable ps k h s' \<and> other_page n bt \<and> leaf_bt bt es)"
proof -
  obtain b where b: "h n = Some b" "page_image b (root_body n) LeafIndex (map snd es)" "n \<noteq> 1" using l by (auto simp: idx_leaf_def)
  show ?thesis by (rule runs_conseq [OF load_image [OF hp b(1,2)]]) (use b(3) loaded_other in \<open>auto simp: leaf_bt_def\<close>)
qed

lemma load_idx_node:
  assumes hp: "pager_heap usable ps k h s" and l: "idx_node usable h n kids es"
  shows "runs (load_bt n) s (\<lambda>bt s'. pager_heap usable ps k h s' \<and> other_page n bt \<and> node_bt bt kids es)"
proof -
  obtain b where b: "h n = Some b" "page_image b (root_body n) InteriorIndex (map idx_cell_bytes (zip kids es))" "n \<noteq> 1"
    "take 4 (drop 8 b) = to_be32 (last kids)" "length kids = length es + 1" using l by (auto simp: idx_node_def)
  show ?thesis by (rule runs_conseq [OF load_image [OF hp b(1,2)]]) (use b(3-5) loaded_other in \<open>auto simp: node_bt_def\<close>)
qed

section \<open>Reading entries\<close>

lemma full_payload_runs:
  assumes hp: "pager_heap usable ps k h s"
    and sl: "slice bs (local_offset pl) (local_offset pl + local_len pl) = Ok loc" and ch: "chain_bytes (store_of h) usable (total_len pl) (overflow pl) loc full"
    and len: "length full = total_len pl"
  shows "runs (full_payload usable bs pl) s (\<lambda>x s'. x = full \<and> pager_heap usable ps k h s')"
proof -
  have u: "4 < usable" using pager_heap_sizes(2) [OF hp] by simp
  have "\<exists>s'. overflow_loop (total_len pl + 1) source_page usable (total_len pl) (overflow pl) loc s = Some (Ok full, s') \<and> pager_heap usable ps k h s'"
    by (rule heap_reader.overflow_loop_Ok [OF ch u _ hp]) simp
  then obtain s' where s': "overflow_loop (total_len pl + 1) source_page usable (total_len pl) (overflow pl) loc s = Some (Ok full, s')" "pager_heap usable ps k h s'" by blast
  then have "read_payload (total_len pl + 1) source_page usable bs pl s = Some (Ok full, s')" using sl len by (simp add: read_payload_def bindL_def)
  then show ?thesis using s'(2) by (intro runsI [where x = full and s' = s']) (simp_all add: full_payload_def)
qed

lemma read_entry_runs:
  assumes hp: "pager_heap usable ps k h s" and img: "page_image (bt_data bt) (bt_body bt) (bt_type bt) cells" and n: "num_cells bt = length cells" "i < length cells"
    and t: "bt_type bt = LeafIndex \<and> cells ! i = snd e \<or> bt_type bt = InteriorIndex \<and> cells ! i = to_be32 c @ snd e" and e: "idx_holds usable h e"
  shows "runs (read_entry bt usable i) s (\<lambda>x s'. snd x = e \<and> (bt_type bt = InteriorIndex \<longrightarrow> fst x = c) \<and> pager_heap usable ps k h s')"
proof -
  obtain loc ov where p: "index_parts usable (snd e) = Some (length (fst e), loc, ov)" "chain_bytes (store_of h) usable (length (fst e)) ov loc (fst e)"
    using e by (auto simp: idx_holds_def)
  obtain cell where c: "index_cell bt i usable = Ok cell" "total_len (index_payload cell) = length (fst e)" "overflow (index_payload cell) = ov"
    "slice (bt_data bt) (local_offset (index_payload cell)) (local_offset (index_payload cell) + local_len (index_payload cell)) = Ok loc"
    "raw_index_record_cell bt i usable = Ok (snd e)" "bt_type bt = InteriorIndex \<longrightarrow> left_child cell = c"
    using index_image_cell [OF img n t p(1)] by blast
  have f: "runs (full_payload usable (bt_data bt) (index_payload cell)) s (\<lambda>x s'. x = fst e \<and> pager_heap usable ps k h s')"
    by (rule full_payload_runs [OF hp c(4)]) (use p(2) c(2,3) in auto)
  show ?thesis unfolding read_entry_def c(1) bindA_lift_Ok
    by (rule runs_seq [OF f]) (use c(5,6) in auto)
qed

text \<open>Reading is a loop over the slots.\<close>

lemma runs_mapA_nth:
  assumes "\<And>i s. i < length ys \<Longrightarrow> I s \<Longrightarrow> runs (f i) s (\<lambda>x s'. x = ys ! i \<and> I s')" and "I s"
  shows "runs (mapA f [0..<length ys]) s (\<lambda>xs s'. xs = ys \<and> I s')"
proof -
  have "runs (mapA f [0..<length ys]) s (\<lambda>xs s'. xs = map ((!) ys) [0..<length ys] \<and> I s')"
    by (rule runs_mapA [of "[0..<length ys]" I]) (use assms in auto)
  then show ?thesis by (simp add: map_nth)
qed

lemma read_leaf_runs:
  assumes hp: "pager_heap usable ps k h s" and bt: "leaf_bt bt es" and e: "\<And>e. e \<in> set es \<Longrightarrow> idx_holds usable h e"
  shows "runs (read_leaf bt usable) s (\<lambda>x s'. x = es \<and> pager_heap usable ps k h s')"
proof -
  have i: "runs (bindA (read_entry bt usable i) (\<lambda>c. retA (snd c))) s (\<lambda>x s'. x = es ! i \<and> pager_heap usable ps k h s')"
    if "i < length es" "pager_heap usable ps k h s" for i s
    by (rule runs_seq [OF read_entry_runs [where e = "es ! i" and c = 0 and cells = "map snd es", OF that(2)]])
       (use bt that(1) e in \<open>auto simp: leaf_bt_def\<close>)
  have eq: "bindA (mapA (read_entry bt usable) is) (\<lambda>cells. retA (map snd cells)) = mapA (\<lambda>i. bindA (read_entry bt usable i) (\<lambda>c. retA (snd c))) is" for "is"
  proof (induction "is")
    case (Cons i "is")
    show ?case unfolding mapA.simps Cons.IH [symmetric] by (simp add: bindA_assoc)
  qed (simp add: bindA_def)
  show ?thesis unfolding read_leaf_def eq using runs_mapA_nth [where ys = es, OF i hp] bt by (simp add: leaf_bt_def)
qed

lemma read_interior_runs:
  assumes hp: "pager_heap usable ps k h s" and bt: "node_bt bt kids es" and len: "length kids = length es + 1" and e: "\<And>e. e \<in> set es \<Longrightarrow> idx_holds usable h e"
  shows "runs (read_interior bt usable) s (\<lambda>x s'. x = (zip kids es, last kids) \<and> pager_heap usable ps k h s')"
proof -
  let ?z = "zip kids es"
  have i: "runs (read_entry bt usable i) s (\<lambda>x s'. x = ?z ! i \<and> pager_heap usable ps k h s')" if "i < length ?z" "pager_heap usable ps k h s" for i s
    by (rule runs_conseq [OF read_entry_runs [where e = "es ! i" and c = "kids ! i" and cells = "map idx_cell_bytes ?z", OF that(2)]])
       (use bt that(1) e len in \<open>auto simp: node_bt_def idx_cell_bytes_def prod_eq_iff case_prod_unfold\<close>)
  have n: "num_cells bt = length ?z" "right_pointer bt = last kids" using bt len by (auto simp: node_bt_def)
  show ?thesis unfolding read_interior_def n by (rule runs_seq [OF runs_mapA_nth [where ys = ?z, OF i hp]]) auto
qed

section \<open>Storing pages\<close>

lemma nonempty_cells: "list_all (idx_ok usable) es \<Longrightarrow> list_all (\<lambda>e. snd e \<noteq> []) es"
  using idx_ok_nonempty by (fastforce simp: list_all_iff)

lemma store_idx_leaf:
  assumes hp: "pager_heap usable ps k h s" and n: "n \<in> dom h" "n \<noteq> 1" and ok: "list_all (idx_ok usable) es" and fits: "8 + rsum es \<le> usable"
    and cont: "\<And>b s'. pager_heap usable ps k (h(n \<mapsto> b)) s' \<Longrightarrow> idx_leaf usable (h(n \<mapsto> b)) n es \<Longrightarrow> runs (f ()) s' Q"
  shows "runs (bindA (liftA (serialize_index_leaf ps usable 0 (rcells es) None)) (\<lambda>buf. bindA (write_page n buf) f)) s Q"
proof -
  obtain buf where b: "serialize_index_leaf ps usable 0 (rcells es) None = Ok buf" "length buf = ps" "page_image buf 0 LeafIndex (map snd es)"
    using serialize_index_leaf_Ok [OF fits pager_heap_sizes(3,5) [OF hp] nonempty_cells [OF ok]] by blast
  have l: "idx_leaf usable (h(n \<mapsto> buf)) n es" using n(2) b(3) ok fits by (simp add: idx_leaf_def)
  show ?thesis unfolding b(1) bindA_lift_Ok by (rule runs_seq [OF ph.heap_wr [OF hp n(1) b(2)]]) (use cont [OF _ l] in auto)
qed

lemma store_idx_node:
  assumes hp: "pager_heap usable ps k h s" and n: "n \<in> dom h" "n \<noteq> 1" and ok: "list_all (idx_ok usable) (map snd cells)" and fits: "12 + nsum (map snd cells) \<le> usable"
    and cont: "\<And>b s'. pager_heap usable ps k (h(n \<mapsto> b)) s' \<Longrightarrow> idx_node usable (h(n \<mapsto> b)) n (map fst cells @ [right]) (map snd cells) \<Longrightarrow> runs (f ()) s' Q"
  shows "runs (bindA (liftA (serialize_index_interior ps usable 0 cells right None)) (\<lambda>buf. bindA (write_page n buf) f)) s Q"
proof -
  obtain buf where b: "serialize_index_interior ps usable 0 cells right None = Ok buf" "length buf = ps"
    "page_image buf 0 InteriorIndex (map idx_cell_bytes cells)" "take 4 (drop 8 buf) = to_be32 right"
    using serialize_index_interior_Ok [OF fits pager_heap_sizes(3,5) [OF hp]] by blast
  have "zip (map fst cells @ [right]) (map snd cells) = cells" by (simp add: zip_append1 zip_map_fst_snd)
  then have l: "idx_node usable (h(n \<mapsto> buf)) n (map fst cells @ [right]) (map snd cells)" using n(2) b(3,4) ok fits by (simp add: idx_node_def)
  show ?thesis unfolding b(1) bindA_lift_Ok by (rule runs_seq [OF ph.heap_wr [OF hp n(1) b(2)]]) (use cont [OF _ l] in auto)
qed

section \<open>Redistribution\<close>

text \<open>The entries of one page of a distribution, and the entry promoted after it.\<close>

definition page_slice :: "'a list \<Rightarrow> nat list \<Rightarrow> nat \<Rightarrow> 'a list" where
  "page_slice xs cs i = take (cs ! i - start_of 0 cs i) (drop (start_of 0 cs i) xs)"

definition icuts :: "'a list \<Rightarrow> nat list \<Rightarrow> bool" where
  "icuts xs cs \<longleftrightarrow> cs \<noteq> [] \<and> last cs = length xs \<and> (\<forall>j < length cs. start_of 0 cs j < cs ! j \<and> cs ! j \<le> length xs)"

abbreviation promoted :: "'a list \<Rightarrow> nat list \<Rightarrow> nat \<Rightarrow> 'a" where
  "promoted xs cs i \<equiv> xs ! (cs ! i)"

lemma page_slice_subset: "set (page_slice xs cs j) \<subseteq> set xs"
  unfolding page_slice_def by (meson order_trans set_take_subset set_drop_subset)

lemma icuts_between: "icuts xs cs \<Longrightarrow> Suc j < length cs \<Longrightarrow> cs ! j < length xs"
proof -
  assume c: "icuts xs cs" "Suc j < length cs"
  then have "start_of 0 cs (Suc j) < cs ! Suc j" "cs ! Suc j \<le> length xs" by (auto simp: icuts_def)
  then show ?thesis by (simp add: start_of_def)
qed

lemma interleave_slices:
  assumes c: "icuts xs cs" and "j < length cs"
  shows "interleave (map (page_slice xs cs) [j..<length cs]) (map (promoted xs cs) [j..<length cs - 1]) = drop (start_of 0 cs j) xs"
  using assms(2)
proof (induction "length cs - j" arbitrary: j)
  case (Suc x)
  have j: "start_of 0 cs j < cs ! j" "cs ! j \<le> length xs" using c Suc.prems by (auto simp: icuts_def)
  have u: "[j..<length cs] = j # [Suc j..<length cs]" using Suc.prems by (simp add: upt_conv_Cons)
  show ?case
  proof (cases "Suc j < length cs")
    case True
    have "interleave (map (page_slice xs cs) [Suc j..<length cs]) (map (promoted xs cs) [Suc j..<length cs - 1]) = drop (start_of 0 cs (Suc j)) xs"
      by (rule Suc.hyps(1)) (use Suc.hyps(2) True in auto)
    moreover have "[j..<length cs - 1] = j # [Suc j..<length cs - 1]" using True by (simp add: upt_conv_Cons)
    moreover have "start_of 0 cs (Suc j) = Suc (cs ! j)" by (simp add: start_of_def)
    moreover have "drop (start_of 0 cs j) xs = page_slice xs cs j @ promoted xs cs j # drop (Suc (cs ! j)) xs"
      using take_in_two [of "start_of 0 cs j" "cs ! j" xs] j icuts_between [OF c True] by (simp add: page_slice_def)
    ultimately show ?thesis unfolding u by simp
  next
    case False
    then have l: "length cs = Suc j" using Suc.prems by simp
    then have "cs ! j = length xs" using c by (auto simp: icuts_def last_conv_nth)
    then show ?thesis using l by (simp add: page_slice_def)
  qed
qed simp

lemma slice_sum:
  assumes "start_of 0 cs j \<le> cs ! j"
  shows "int (rsum (page_slice xs cs j)) = page_sum (map (\<lambda>(_, c). length c) xs) 0 cs j"
proof -
  let ?sz = "map (\<lambda>(_, c). length c) xs" let ?a = "start_of 0 cs j"
  have s: "int (rsum ys) = sum_list (map (\<lambda>c. int c + 2) (map (\<lambda>(_, c). length c) ys))" for ys by (induction ys) auto
  have "take (cs ! j) xs = take ?a xs @ page_slice xs cs j"
    using assms take_add [of ?a "cs ! j - ?a" xs] by (simp add: page_slice_def)
  from arg_cong [OF this, of "\<lambda>l. sum_list (map (\<lambda>c. int c + 2) (map (\<lambda>(_, c). length c) l))"]
  have "psum ?sz (cs ! j) = psum ?sz ?a + int (rsum (page_slice xs cs j))"
    unfolding psum_def s take_map map_append sum_list_append .
  then show ?thesis by (simp add: page_sum_def)
qed

text \<open>A row of leaves with entries between them is a forest.\<close>

lemma iforest_leaves:
  assumes "list_all2 (idx_leaf usable h) ks xss" and "distinct ks" and "length ks = length es + 1"
  shows "iforest (itree usable h 0) ks es (interleave xss es) (set ks)"
  using assms
proof (induction ks arbitrary: xss es)
  case (Cons k ks)
  obtain x xs' where x: "xss = x # xs'" "idx_leaf usable h k x" "list_all2 (idx_leaf usable h) ks xs'" using Cons.prems(1) by (auto simp: list_all2_Cons1)
  show ?case
  proof (cases es)
    case Nil
    then show ?thesis using Cons.prems(3) x by simp
  next
    case (Cons e es')
    have "iforest (itree usable h 0) ks es' (interleave xs' es') (set ks)" by (rule Cons.IH [OF x(3)]) (use Cons.prems(2,3) Cons in auto)
    then have "iforest (itree usable h 0) (k # ks) (e # es') (x @ e # interleave xs' es') ({k} \<union> set ks)"
      using x(2) Cons.prems(2) by (intro iforest_ConsI) auto
    then show ?thesis using Cons x(1) by simp
  qed
qed simp

lemma distribute_icuts:
  assumes "xs \<noteq> []" and "seeds_ok (map (\<lambda>(_, c). length c) xs) 0 cnt_old" and "list_all (idx_ok usable) xs" and u: "257 \<le> usable"
  shows "\<exists>cs. distribute (map (\<lambda>(_, c). length c) xs) cnt_old True False usable = Ok cs \<and> icuts xs cs \<and>
    (\<forall>i < length cs. 8 + rsum (page_slice xs cs i) \<le> usable) \<and> (length cs div 2) * (usable - 8) \<le> rsum xs"
proof -
  let ?sz = "map (\<lambda>(_, c). length c) xs"
  have us: "usable_space True usable = int (usable - 8)" using u by (simp add: usable_space_def)
  have "2 * (int (length (snd c)) + 2) \<le> int (usable - 8)" if "c \<in> set xs" for c
    using idx_ok_len [of usable c] assms(3) u that by (simp add: idx_cell_len_def list_all_iff)
  then have "cells_fit ?sz 0 (usable_space True usable)" unfolding us by (auto simp: cells_fit_def list_all_iff)
  then obtain cs where cs: "distribute ?sz cnt_old True False usable = Ok cs" "cs \<noteq> []" "last cs = length ?sz"
    "\<And>j. j < length cs \<Longrightarrow> good_page ?sz 0 (usable_space True usable) cs j \<and> cs ! j \<le> length ?sz"
    "int (length cs div 2) * usable_space True usable \<le> psum ?sz (length ?sz)"
    using distribute_Ok [of ?sz False cnt_old True usable] assms(1,2) by auto
  have "psum ?sz (length ?sz) = int (rsum xs)" by (simp add: psum_def) (induction xs; auto)
  then have "int ((length cs div 2) * (usable - 8)) \<le> int (rsum xs)" using cs(5) unfolding us by simp
  then have n: "(length cs div 2) * (usable - 8) \<le> rsum xs" by (simp only: of_nat_le_iff)
  have "8 + rsum (page_slice xs cs i) \<le> usable" if "i < length cs" for i
    using cs(4) [OF that] slice_sum [of cs i xs] u unfolding us good_page_def by simp
  then show ?thesis using cs(1-4) n by (intro exI [of _ cs] conjI) (auto simp: icuts_def good_page_def)
qed

text \<open>A loop that writes one owned page in each turn.\<close>

lemma write_pages_run:
  assumes "pager_heap usable ps k h s" and d: "distinct ns" and "set ns \<subseteq> dom h" and "j \<le> length ns"
    and step: "\<And>i h s. i < length ns \<Longrightarrow> pager_heap usable ps k h s \<Longrightarrow> ns ! i \<in> dom h \<Longrightarrow>
      runs (f i) s (\<lambda>x s'. x = g i \<and> (\<exists>b. pager_heap usable ps k (h(ns ! i \<mapsto> b)) s' \<and> Pg i b))"
  shows "runs (mapA f [j..<length ns]) s (\<lambda>xs s'. xs = map g [j..<length ns] \<and> (\<exists>h'. pager_heap usable ps k h' s' \<and> dom h' = dom h \<and>
    (\<forall>m. m \<notin> set (drop j ns) \<longrightarrow> h' m = h m) \<and> (\<forall>i. j \<le> i \<and> i < length ns \<longrightarrow> (\<exists>b. h' (ns ! i) = Some b \<and> Pg i b))))"
  using assms(4,1,3)
proof (induction j arbitrary: h s rule: inc_induct)
  case base
  then show ?case by auto
next
  case (step j)
  have dr: "drop j ns = ns ! j # drop (Suc j) ns" "[j..<length ns] = j # [Suc j..<length ns]" using step.hyps by (simp_all add: Cons_nth_drop_Suc upt_conv_Cons)
  have nj: "ns ! j \<notin> set (drop (Suc j) ns)" using d dr(1) by (metis distinct.simps(2) distinct_drop)
  have own: "ns ! j \<in> dom h" using step.hyps step.prems(2) nth_mem by blast
  show ?case unfolding dr(2) mapA.simps
  proof (rule runs_seq [OF assms(5) [OF step.hyps(2) step.prems(1) own]])
    fix x s'
    assume "x = g j \<and> (\<exists>b. pager_heap usable ps k (h(ns ! j \<mapsto> b)) s' \<and> Pg j b)"
    then obtain b where b: "x = g j" "pager_heap usable ps k (h(ns ! j \<mapsto> b)) s'" "Pg j b" by blast
    let ?h = "h(ns ! j \<mapsto> b)"
    show "runs (bindA (mapA f [Suc j..<length ns]) (\<lambda>ys. retA (x # ys))) s' (\<lambda>xs s'. xs = map g (j # [Suc j..<length ns]) \<and> (\<exists>h'. pager_heap usable ps k h' s' \<and> dom h' = dom h \<and>
      (\<forall>m. m \<notin> set (drop j ns) \<longrightarrow> h' m = h m) \<and> (\<forall>i. j \<le> i \<and> i < length ns \<longrightarrow> (\<exists>b. h' (ns ! i) = Some b \<and> Pg i b))))"
    proof (rule runs_seq [OF step.IH [OF b(2)]])
      show "set ns \<subseteq> dom ?h" using step.prems(2) by auto
      fix ys s''
      assume "ys = map g [Suc j..<length ns] \<and> (\<exists>h'. pager_heap usable ps k h' s'' \<and> dom h' = dom ?h \<and> (\<forall>m. m \<notin> set (drop (Suc j) ns) \<longrightarrow> h' m = ?h m) \<and>
        (\<forall>i. Suc j \<le> i \<and> i < length ns \<longrightarrow> (\<exists>b. h' (ns ! i) = Some b \<and> Pg i b)))"
      then obtain h' where h': "ys = map g [Suc j..<length ns]" "pager_heap usable ps k h' s''" "dom h' = dom ?h" "\<And>m. m \<notin> set (drop (Suc j) ns) \<Longrightarrow> h' m = ?h m"
        "\<And>i. Suc j \<le> i \<Longrightarrow> i < length ns \<Longrightarrow> \<exists>b. h' (ns ! i) = Some b \<and> Pg i b" by auto
      have "\<exists>b. h' (ns ! i) = Some b \<and> Pg i b" if "j \<le> i" "i < length ns" for i
        using that h'(5) h'(4) [OF nj] b(3) by (cases "i = j") auto
      moreover have "h' m = h m" if "m \<notin> set (drop j ns)" for m using h'(4) [of m] that unfolding dr(1) by auto
      moreover have "dom h' = dom h" using h'(3) own by auto
      ultimately show "runs (retA (x # ys)) s'' (\<lambda>xs s'. xs = map g (j # [Suc j..<length ns]) \<and> (\<exists>h'. pager_heap usable ps k h' s' \<and> dom h' = dom h \<and>
        (\<forall>m. m \<notin> set (drop j ns) \<longrightarrow> h' m = h m) \<and> (\<forall>i. j \<le> i \<and> i < length ns \<longrightarrow> (\<exists>b. h' (ns ! i) = Some b \<and> Pg i b))))"
        using h'(1,2) b(1) by (intro runs_ret conjI exI [of _ h']) auto
    qed
  qed
qed

end
