(* ===== verification/IndexBalance.thy ===== *)
theory IndexBalance
  imports IndexInsert
begin

text \<open>
  Redistributing an overfull index leaf with its siblings (\<open>balance_leaf_into\<close> and \<open>balance_leaf_pooled\<close> of
  \<open>src/btree/index_writer.rs\<close>): the entries of the siblings and those between them are pooled, cut
  anew, and the boundary entries are promoted; the forest keeps its entries, with the new ones of
  the leaf in their place.
\<close>

section \<open>Writing a distribution\<close>

lemma write_index_slice_runs:
  assumes hp: "pager_heap usable ps k h s" and c: "icuts xs cs" and i: "i < length cs" "length ns = length cs" and own: "ns ! i \<in> dom h" "ns ! i \<noteq> 1"
    and ok: "list_all (idx_ok usable) xs" and fit: "8 + rsum (page_slice xs cs i) \<le> usable"
  shows "runs (write_index_slice ps usable xs cs ns i) s (\<lambda>x s'. x = (if i < length cs - 1 then [promoted xs cs i] else []) \<and>
    (\<exists>b. pager_heap usable ps k (h(ns ! i \<mapsto> b)) s' \<and> idx_leaf usable [ns ! i \<mapsto> b] (ns ! i) (page_slice xs cs i)))"
proof -
  let ?g = "page_slice xs cs i"
  have st: "(if i = 0 then Ok 0 else bindR (idx cs (i - 1)) (\<lambda>e. Ok (e + 1))) = Ok (start_of 0 cs i)" using i by (auto simp: idx_def start_of_def)
  have le: "start_of 0 cs i < cs ! i" "cs ! i \<le> length xs" using c i by (auto simp: icuts_def)
  have sl: "slice xs (start_of 0 cs i) (cs ! i) = Ok ?g" using le by (simp add: slice_def page_slice_def)
  have okg: "list_all (idx_ok usable) ?g" using ok page_slice_subset [of xs cs i] by (auto simp: list_all_iff)
  have pr: "idx xs (cs ! i) = Ok (promoted xs cs i)" if "i < length cs - 1" using icuts_between [OF c, of i] that by (simp add: idx_def)
  have ix: "idx cs i = Ok (cs ! i)" "idx ns i = Ok (ns ! i)" using i by (simp_all add: idx_def)
  show ?thesis unfolding write_index_slice_def st ix sl bindA_lift_Ok
  proof (rule store_idx_leaf [OF hp own okg fit])
    fix b s'
    assume b: "pager_heap usable ps k (h(ns ! i \<mapsto> b)) s'" "idx_leaf usable (h(ns ! i \<mapsto> b)) (ns ! i) ?g"
    have "idx_leaf usable [ns ! i \<mapsto> b] (ns ! i) ?g" using idx_page_cong(1) [OF b(2)] by simp
    then show "runs (if i < length cs - 1 then bindA (liftA (idx xs (cs ! i))) (\<lambda>e. retA [e]) else retA []) s' (\<lambda>x s'. x = (if i < length cs - 1 then [promoted xs cs i] else []) \<and>
      (\<exists>b. pager_heap usable ps k (h(ns ! i \<mapsto> b)) s' \<and> idx_leaf usable [ns ! i \<mapsto> b] (ns ! i) ?g))"
      using b(1) pr by (cases "i < length cs - 1") (simp_all del: One_nat_def, blast+)
  qed
qed

lemma write_idx_kept_runs:
  assumes hp: "pager_heap usable ps k h s" and cs: "icuts xs cs" and fit: "\<And>i. i < length cs \<Longrightarrow> 8 + rsum (page_slice xs cs i) \<le> usable"
    and ok: "list_all (idx_ok usable) xs" and kept: "distinct kept" "length kept = length cs" "set kept \<subseteq> dom h" "1 \<notin> set kept"
  shows "runs (mapA (write_index_slice ps usable xs cs kept) [0..<length cs]) s (\<lambda>divs s'. \<exists>h'. pager_heap usable ps k h' s' \<and>
    replaces h (set kept) h' (set kept) \<and> iforest (itree usable h' 0) kept (concat divs) xs (set kept))"
proof -
  let ?g = "\<lambda>i. if i < length cs - 1 then [promoted xs cs i] else []"
  have one: "kept ! i \<noteq> 1" if "i < length kept" for i using kept(4) that nth_mem by metis
  have st: "runs (write_index_slice ps usable xs cs kept i) s (\<lambda>x s'. x = ?g i \<and> (\<exists>b. pager_heap usable ps k (h(kept ! i \<mapsto> b)) s' \<and> idx_leaf usable [kept ! i \<mapsto> b] (kept ! i) (page_slice xs cs i)))"
    if "i < length kept" "pager_heap usable ps k h s" "kept ! i \<in> dom h" for i h s
    by (rule write_index_slice_runs [OF that(2) cs _ kept(2) that(3) one [OF that(1)] ok]) (use that(1) kept(2) fit in auto)
  show ?thesis unfolding kept(2) [symmetric]
  proof (rule runs_conseq [OF write_pages_run [OF hp kept(1,3) le0 st]], assumption+)
    fix ds s'
    assume "ds = map ?g [0..<length kept] \<and> (\<exists>h'. pager_heap usable ps k h' s' \<and> dom h' = dom h \<and> (\<forall>m. m \<notin> set (drop 0 kept) \<longrightarrow> h' m = h m) \<and>
      (\<forall>i. 0 \<le> i \<and> i < length kept \<longrightarrow> (\<exists>b. h' (kept ! i) = Some b \<and> idx_leaf usable [kept ! i \<mapsto> b] (kept ! i) (page_slice xs cs i))))"
    then obtain h' where h': "ds = map ?g [0..<length kept]" "pager_heap usable ps k h' s'" "dom h' = dom h" "\<And>m. m \<notin> set kept \<Longrightarrow> h' m = h m"
      "\<And>i. i < length kept \<Longrightarrow> \<exists>b. h' (kept ! i) = Some b \<and> idx_leaf usable [kept ! i \<mapsto> b] (kept ! i) (page_slice xs cs i)" by auto
    have rr: "replaces h (set kept) h' (set kept)" by (rule same_dom_replaces [OF h'(3,4) kept(3,4)])
    have "idx_leaf usable h' (kept ! i) (page_slice xs cs i)" if "i < length kept" for i
      using h'(5) [OF that] idx_page_cong(1) [of usable _ "kept ! i" "page_slice xs cs i" h'] by auto
    then have l2: "list_all2 (idx_leaf usable h') kept (map (page_slice xs cs) [0..<length cs])" using kept(2) by (simp add: list_all2_conv_all_nth)
    have cn: "cs \<noteq> []" using cs by (simp add: icuts_def)
    have cg: "concat (map ?g [0..<length cs]) = map (promoted xs cs) [0..<length cs - 1]"
    proof -
      have "map ?g [0..<length cs - 1] = map (\<lambda>i. [promoted xs cs i]) [0..<length cs - 1]" by (rule map_cong [OF refl]) simp
      then have "concat (map ?g [0..<length cs - 1]) = map (promoted xs cs) [0..<length cs - 1]" by (simp only: concat_map_singleton)
      moreover have "[0..<length cs] = [0..<length cs - 1] @ [length cs - 1]" using cn by (simp add: upt_Suc_append [symmetric])
      ultimately show ?thesis by simp
    qed
    have il: "interleave (map (page_slice xs cs) [0..<length cs]) (map (promoted xs cs) [0..<length cs - 1]) = xs"
      using interleave_slices [OF cs, of 0] cn by (simp add: start_of_def)
    have "length kept = length (map (promoted xs cs) [0..<length cs - 1]) + 1" using kept(2) cn by simp
    from iforest_leaves [OF l2 kept(1) this] have "iforest (itree usable h' 0) kept (concat ds) xs (set kept)" unfolding il h'(1) kept(2) cg .
    then show "\<exists>h'. pager_heap usable ps k h' s' \<and> replaces h (set kept) h' (set kept) \<and> iforest (itree usable h' 0) kept (concat ds) xs (set kept)"
      using h'(2) rr by blast
  qed
qed

lemma few_pages: "(c div 2) * u \<le> x \<Longrightarrow> x < (q + 1) * u \<Longrightarrow> c \<le> 2 * q + (1 :: nat)"
proof -
  assume a: "(c div 2) * u \<le> x" "x < (q + 1) * u"
  then have "(c div 2) * u < (q + 1) * u" by linarith
  then have "c div 2 < q + 1" by (rule mult_less_cancel2 [THEN iffD1, THEN conjunct2])
  then show ?thesis by simp
qed

lemma balance_index_pooled_runs:
  assumes hp: "pager_heap usable ps (k + (2 * q + 1)) h s" and old: "distinct old" "set old \<subseteq> dom h" "1 \<notin> set old"
    and xs: "xs \<noteq> []" "list_all (idx_ok usable) xs" and cnt: "seeds_ok (map (\<lambda>(_, c). length c) xs) 0 cnt_old"
    and sum: "rsum xs < (q + 1) * (usable - 8)"
  shows "runs (balance_index_pooled old xs cnt_old) s (\<lambda>(kept, divs) s'. \<exists>h'. pager_heap usable ps k h' s' \<and> replaces h (set old) h' (set kept) \<and>
    1 \<notin> set kept \<and> length kept \<le> 2 * q + 1 \<and> iforest (itree usable h' 0) kept divs xs (set kept))" (is "runs _ _ (\<lambda>(kept, divs). ?post kept divs)")
proof -
  note sz = pager_heap_sizes [OF hp]
  obtain cs where cs: "distribute (map (\<lambda>(_, c). length c) xs) cnt_old True False usable = Ok cs" "icuts xs cs"
    "\<And>i. i < length cs \<Longrightarrow> 8 + rsum (page_slice xs cs i) \<le> usable" "(length cs div 2) * (usable - 8) \<le> rsum xs"
    using distribute_icuts [OF xs(1) cnt xs(2) sz(2)] by auto
  have few: "length cs \<le> 2 * q + 1" by (rule few_pages [OF cs(4) sum])
  let ?nn = "length cs" let ?no = "length old" let ?drop = "drop (min ?nn ?no) old"
  let ?kept = "\<lambda>fresh. sort (take ?nn old @ fresh)"
  have hp1: "pager_heap usable ps (k + length [?no..<?nn]) h s" using pager_heap_less [OF hp] few by simp
  have last: "runs (bindA (mapA (write_index_slice ps usable xs cs (?kept fresh)) [0..<?nn]) (\<lambda>divs. retA (?kept fresh, concat divs))) s2
      (\<lambda>(kept, divs). ?post kept divs)"
    if a: "length fresh = length [?no..<?nn]" "distinct fresh" "1 \<notin> set fresh" "replaces h {} h1 (set fresh)"
      and b: "pager_heap usable ps k h2 s2" "replaces h1 (set ?drop) h2 {}" for fresh h1 h2 s2
  proof -
    note kp = kept_pages [OF old a b(2) refl]
    show ?thesis
      by (rule runs_seq [OF write_idx_kept_runs [OF b(1) cs(2,3) xs(2) kp(2-5)]], assumption)
         (use kp(3,5) replaces_trans [OF kp(1)] few in auto)
  qed
  show ?thesis unfolding balance_index_pooled_def runs_sizes [OF hp] prod.case cs(1) bindA_lift_Ok Let_def
  proof (rule runs_seq [OF ph.alloc_many [OF hp1]])
    fix fresh s1
    assume "length fresh = length [?no..<?nn] \<and> distinct fresh \<and> 1 \<notin> set fresh \<and> (\<exists>h'. pager_heap usable ps k h' s1 \<and> replaces h {} h' (set fresh))"
    then obtain h1 where h1: "length fresh = length [?no..<?nn]" "distinct fresh" "1 \<notin> set fresh" "replaces h {} h1 (set fresh)" "pager_heap usable ps k h1 s1"
      by blast
    have dr: "set ?drop \<subseteq> dom h1" "distinct ?drop" "1 \<notin> set ?drop"
      using old h1(4) by (auto simp: replaces_def dest: in_set_dropD)
    show "runs (bindA (foldA free_page ?drop) (\<lambda>_. bindA (mapA (write_index_slice ps usable xs cs (?kept fresh)) [0..<?nn]) (\<lambda>divs. retA (?kept fresh, concat divs)))) s1
      (\<lambda>(kept, divs). ?post kept divs)"
      by (rule runs_seq [OF ph.free_many [OF h1(5) dr]]) (use last [OF h1(1-4)] in blast)
  qed
qed

section \<open>The pool\<close>

lemma pool_entries_Ok:
  assumes "length gs = length seps + 1"
  shows "\<exists>cnt. pool_entries gs seps pooled counts = (pooled @ interleave gs seps, counts @ cnt) \<and> length cnt = length gs \<and>
    last cnt = length pooled + length (interleave gs seps) \<and>
    (\<forall>i < length gs. (if i = 0 then length pooled else cnt ! (i - 1) + 1) \<le> cnt ! i \<and> cnt ! i \<le> length pooled + length (interleave gs seps))"
  using assms
proof (induction gs arbitrary: seps pooled counts)
  case (Cons g gs)
  show ?case
  proof (cases seps)
    case Nil
    then show ?thesis using Cons.prems by (intro exI [of _ "[length (pooled @ g)]"]) simp
  next
    case (Cons e es)
    have l: "length gs = length es + 1" using Cons.prems Cons by simp
    let ?p = "(pooled @ g) @ [e]" let ?c = "length (pooled @ g)"
    from Cons.IH [OF l, of ?p "counts @ [?c]"] obtain cnt where c: "pool_entries gs es ?p (counts @ [?c]) = (?p @ interleave gs es, (counts @ [?c]) @ cnt)"
      "length cnt = length gs" "last cnt = length ?p + length (interleave gs es)"
      "\<And>i. i < length gs \<Longrightarrow> (if i = 0 then length ?p else cnt ! (i - 1) + 1) \<le> cnt ! i \<and> cnt ! i \<le> length ?p + length (interleave gs es)" by auto
    have "cnt \<noteq> []" using c(2) l by auto
    moreover have "(if i = 0 then length pooled else (?c # cnt) ! (i - 1) + 1) \<le> (?c # cnt) ! i \<and> (?c # cnt) ! i \<le> length pooled + length (interleave (g # gs) (e # es))"
      if i: "i < length (g # gs)" for i
    proof (cases i)
      case (Suc j)
      then show ?thesis using c(4) [of j] i by (cases j) auto
    qed simp
    ultimately show ?thesis using c(1-3) Cons by (intro exI [of _ "?c # cnt"]) simp
  qed
qed simp

lemma pool_seeds:
  assumes "length gs = length seps + 1" and "length gs \<le> length (interleave gs seps) + 2"
  obtains cnt where "pool_entries gs seps [] [] = (interleave gs seps, cnt)" and "seeds_ok (map f (interleave gs seps)) 0 cnt"
proof -
  obtain cnt where c: "pool_entries gs seps [] [] = (interleave gs seps, cnt)" "length cnt = length gs" "last cnt = length (interleave gs seps)"
    "\<forall>i < length gs. (if i = 0 then 0 else cnt ! (i - 1) + 1) \<le> cnt ! i \<and> cnt ! i \<le> length (interleave gs seps)"
    using pool_entries_Ok [OF assms(1), of "[]" "[]", unfolded append_Nil list.size(3) add_0] by (elim exE conjE)
  have "cnt \<noteq> []" using c(2) assms(1) by auto
  moreover have "start_of 0 cnt i = (if i = 0 then 0 else cnt ! (i - 1) + 1)" for i by (simp add: start_of_def)
  ultimately have "seeds_ok (map f (interleave gs seps)) 0 cnt" using c(2-4) assms(2) by (simp add: seeds_ok_def)
  then show thesis using that c(1) by blast
qed

lemma iforest_leavesD:
  "iforest (itree usable h 0) ks es xs P \<Longrightarrow> \<exists>gs. list_all2 (idx_leaf usable h) ks gs \<and> xs = interleave gs es \<and> P = set ks"
proof (induction ks arbitrary: es xs P)
  case (Cons k ks)
  show ?case
  proof (cases es)
    case Nil
    then show ?thesis using Cons.prems by (cases ks) (auto intro!: exI [of _ "[xs]"])
  next
    case (Cons e es')
    then obtain x1 x2 P1 P2 where a: "xs = x1 @ e # x2" "P = P1 \<union> P2" "idx_leaf usable h k x1" "P1 = {k}" "iforest (itree usable h 0) ks es' x2 P2" using Cons.prems by auto
    obtain gs where "list_all2 (idx_leaf usable h) ks gs" "x2 = interleave gs es'" "P2 = set ks" using Cons.IH [OF a(5)] by blast
    then show ?thesis using a(1-4) Cons by (intro exI [of _ "x1 # gs"]) simp
  qed
qed simp

lemma sibling_entries_runs:
  assumes gs: "list_all2 (idx_leaf usable h) old gs" and holds: "\<And>e. e \<in> set (concat gs) \<Longrightarrow> idx_holds usable h e" and p: "w0 \<le> p" and hp: "pager_heap usable ps k h s"
  shows "runs (mapA (sibling_entries usable w0 p cc old) [0..<length old]) s (\<lambda>groups s'. groups = gs[p - w0 := cc] \<and> pager_heap usable ps k h s')"
proof -
  have len: "length old = length (gs[p - w0 := cc])" using gs by (simp add: list_all2_lengthD)
  have "runs (sibling_entries usable w0 p cc old i) s (\<lambda>x s'. x = gs[p - w0 := cc] ! i \<and> pager_heap usable ps k h s')"
    if i: "i < length (gs[p - w0 := cc])" and s: "pager_heap usable ps k h s" for i s
  proof (cases "w0 + i = p")
    case True
    then show ?thesis using s i by (auto simp: sibling_entries_def)
  next
    case False
    have lp: "idx_leaf usable h (old ! i) (gs ! i)" using gs i len by (auto simp: list_all2_conv_all_nth)
    have "gs ! i \<in> set gs" using i by simp
    then have hold: "\<And>e. e \<in> set (gs ! i) \<Longrightarrow> idx_holds usable h e" using holds by auto
    have ix: "idx old i = Ok (old ! i)" using i len by (simp add: idx_def)
    have ne: "p - w0 \<noteq> i" using False p by auto
    show ?thesis unfolding sibling_entries_def if_not_P [OF False] ix bindA_lift_Ok
      by (rule runs_seq [OF load_idx_leaf [OF s lp]]) (rule runs_conseq [OF read_leaf_runs], use hold ne in auto)
  qed
  then show ?thesis unfolding len by (rule runs_mapA_nth [where I = "pager_heap usable ps k h"]) (assumption | rule hp)+
qed

text \<open>The page and the chains decide the entries.\<close>

lemma idx_leaf_unique:
  assumes hp: "pager_heap usable ps k h s" and l: "idx_leaf usable h n xs" "idx_leaf usable h n ys" and holds: "\<And>e. e \<in> set xs \<union> set ys \<Longrightarrow> idx_holds usable h e"
  shows "xs = ys"
proof -
  obtain bt s' where b: "load_bt n s = (Ok bt, s')" "pager_heap usable ps k h s'" "leaf_bt bt xs" using load_idx_leaf [OF hp l(1)] by (auto simp: runs_def)
  have "leaf_bt bt ys" using load_idx_leaf [OF hp l(2)] b(1) by (auto simp: runs_def)
  then show ?thesis using read_leaf_runs [OF b(2,3)] read_leaf_runs [OF b(2), of bt ys] holds by (auto simp: runs_def)
qed

lemma rsum_interleave: "length gs = length es + 1 \<Longrightarrow> rsum (interleave gs es) = sum_list (map rsum gs) + rsum es"
proof (induction gs es rule: interleave.induct)
  case (2 cs)
  then obtain c where "cs = [c]" by (cases cs) auto
  then show ?case by simp
qed auto

lemma set_interleave: "length gs = length es + 1 \<Longrightarrow> set (interleave gs es) = set (concat gs) \<union> set es"
proof (induction gs es rule: interleave.induct)
  case (2 cs)
  then obtain c where "cs = [c]" by (cases cs) auto
  then show ?case by simp
qed auto

lemma interleave_hole:
  assumes "length gs = length es + 1" and "i < length gs"
  shows "\<exists>A C. (\<forall>g. interleave (gs[i := g]) es = A @ g @ C) \<and> window_ends es i 1 A C"
  using assms
proof (induction gs es arbitrary: i rule: interleave.induct)
  case (1 c cs n ns)
  show ?case
  proof (cases i)
    case 0
    then show ?thesis by (intro exI [of _ "[]"] exI [of _ "n # interleave cs ns"]) (simp add: window_ends_def)
  next
    case (Suc j)
    obtain A C where a: "\<And>g. interleave (cs[j := g]) ns = A @ g @ C" "window_ends ns j 1 A C" using "1.IH" [of j] "1.prems" Suc by auto
    have "last (c @ n # A) = (n # ns) ! j" using a(2) by (cases j) (simp_all add: window_ends_def)
    then show ?thesis using a Suc by (intro exI [of _ "c @ n # A"] exI [of _ C]) (simp add: window_ends_def)
  qed
next
  case (2 cs)
  then obtain c where "cs = [c]" by (cases cs) auto
  then show ?case using 2 by (intro exI [of _ "[]"] exI [of _ "[]"]) (simp add: window_ends_def)
qed simp

lemma window_ends_within:
  assumes "window_ends es w m xa xc" and "window_ends (take (m - 1) (drop w es)) i 1 A C" and "i < m" and "w + m \<le> length es + 1"
  shows "window_ends es (w + i) 1 (xa @ A) (C @ xc)"
proof -
  have l: "length (take (m - 1) (drop w es)) = m - 1" using assms(3,4) by simp
  have n: "take (m - 1) (drop w es) ! j = es ! (w + j)" if "j < m - 1" for j using that assms(4) by simp
  have "if w + i = 0 then xa @ A = [] else xa @ A \<noteq> [] \<and> last (xa @ A) = es ! (w + i - 1)"
    using assms(1-3) n [of "i - 1"] by (cases i) (auto simp: window_ends_def split: if_splits)
  moreover have "if w + i + 1 = length es + 1 then C @ xc = [] else C @ xc \<noteq> [] \<and> hd (C @ xc) = es ! (w + i)"
  proof (cases "i = m - 1")
    case True
    then have "C = []" "w + m = w + i + 1" using assms(2,3) l by (auto simp: window_ends_def)
    then show ?thesis using assms(1) by (simp add: window_ends_def)
  next
    case False
    then have "C \<noteq> []" "hd C = es ! (w + i)" using assms(2,3) l n [of i] by (auto simp: window_ends_def)
    then show ?thesis using False assms(3,4) by auto
  qed
  ultimately show ?thesis unfolding window_ends_def add_diff_cancel_right' by (rule conjI)
qed

text \<open>Bounds on the bytes of entries.\<close>

lemma nsum_bound: "list_all (idx_ok usable) es \<Longrightarrow> 257 \<le> usable \<Longrightarrow> 3 * nsum es \<le> length es * (usable - 13)"
proof (induction es)
  case (Cons e es)
  then have "3 * (idx_cell_len e + 2) \<le> usable - 13" using idx_ok_len [of usable e] by simp
  then show ?case using Cons by simp
qed simp

lemma rsum_le_nsum: "rsum es \<le> nsum es"
  by (induction es) (auto simp: idx_cell_len_def)

lemma sum_update: "i < length gs \<Longrightarrow> f g \<le> f (gs ! i) + (b :: nat) \<Longrightarrow> sum_list (map f (gs[i := g])) \<le> sum_list (map f gs) + b"
  by (induction gs arbitrary: i) (auto split: nat.split)

lemma sum_bound: "(\<And>g. g \<in> set gs \<Longrightarrow> f g \<le> (u :: nat)) \<Longrightarrow> sum_list (map f gs) \<le> length gs * u"
  by (induction gs) (auto simp: add_mono)

lemma pool_room:
  "g \<le> 3 * (u - 8) \<Longrightarrow> g' \<le> g + b \<Longrightarrow> 3 * r \<le> 2 * (u - 13) \<Longrightarrow> 3 * b < u - 12 \<Longrightarrow> 257 \<le> u \<Longrightarrow> g' + r < (3 + 1) * (u - (8 :: nat))"
  by simp

section \<open>A leaf and its siblings\<close>

lemma balance_index_into_runs:
  assumes hp: "pager_heap usable ps (k + 7) h s" and f: "iforest (itree usable h 0) kids es xs P" and holds: "\<And>e. e \<in> set xs \<Longrightarrow> idx_holds usable h e"
    and p: "p < length kids" and x: "idx_leaf usable h (kids ! p) x" "set x \<subseteq> set xs" and ok: "list_all (idx_ok usable) es"
    and cc: "list_all (idx_ok usable) cc" "cc \<noteq> []" "rsum cc \<le> rsum x + b" "3 * b < usable - 12"
  shows "runs (balance_index_into kids es p cc) s (\<lambda>(kids', es') s'. \<exists>h' P' A C. pager_heap usable ps k h' s' \<and> replaces h P h' P' \<and>
    xs = A @ x @ C \<and> window_ends es p 1 A C \<and> iforest (itree usable h' 0) kids' es' (A @ cc @ C) P' \<and> list_all (idx_ok usable) es' \<and>
    nsum es' < nsum es + 2 * (usable - 12))" (is "runs _ _ ?post")
proof -
  have len: "length kids = length es + 1" using f by (rule iforest_length)
  note sz = pager_heap_sizes [OF hp]
  obtain w0 m where w: "sibling_window p (length kids) = Ok (w0, m)" "w0 \<le> p" "p < w0 + m" "w0 + m \<le> length kids" "m = min (length kids) 3"
    using sibling_window_Ok [OF _ p] p by (metis gr_implies_not0 neq0_conv)
  have m: "0 < m" "m \<le> 3" using w(2,3,5) p by auto
  let ?old = "take m (drop w0 kids)" let ?wes = "take (m - 1) (drop w0 es)"
  let ?kids = "\<lambda>kept. take w0 kids @ kept @ drop (w0 + m) kids" let ?es = "\<lambda>nd. take w0 es @ nd @ drop (w0 + m - 1) es"
  obtain xa xw xc R PW where win: "iforest (itree usable h 0) ?old ?wes xw PW" "xs = xa @ xw @ xc" "P = R \<union> PW" "R \<inter> PW = {}"
    "window_ends es w0 m xa xc" "window_join (itree usable h 0) kids es w0 m xa xc R"
    by (rule iforest_window [OF f m(1) w(4)])
  obtain gs where gs: "list_all2 (idx_leaf usable h) ?old gs" "xw = interleave gs ?wes" "PW = set ?old" using iforest_leavesD [OF win(1)] by blast
  let ?i = "p - w0"
  have lo: "length ?old = m" "length gs = m" "length ?wes = m - 1" using w(4) len list_all2_lengthD [OF gs(1)] m by auto
  have lg: "length gs = length ?wes + 1" using lo m by simp
  have i: "?i < length gs" using w(2,3) lo by simp
  have sg: "set (concat gs) \<subseteq> set xs" unfolding win(2) gs(2) set_append set_interleave [OF lg] by blast
  have oi: "?old ! ?i = kids ! p" using w(2-4) by simp
  have li: "idx_leaf usable h (kids ! p) (gs ! ?i)" using list_all2_nthD2 [OF gs(1) i] unfolding oi .
  have "set (gs ! ?i) \<subseteq> set (concat gs)" using nth_mem [OF i] unfolding set_concat by blast
  then have si: "set (gs ! ?i) \<union> set x \<subseteq> set xs" using sg x(2) by blast
  have gi: "gs ! ?i = x" by (rule idx_leaf_unique [OF hp li x(1)]) (use si holds in blast)
  obtain A C where hole: "\<And>g. interleave (gs[?i := g]) ?wes = A @ g @ C" "window_ends ?wes ?i 1 A C" using interleave_hole [OF lg i] by blast
  have xw: "xw = A @ x @ C" using hole(1) [of x] gi gs(2) by (metis list_update_id)
  let ?pool = "interleave (gs[?i := cc]) ?wes"
  have pl: "?pool = A @ cc @ C" by (rule hole(1))
  have okx: "list_all (idx_ok usable) xw" using idx_holds_ok [OF holds] unfolding win(2) by (auto simp: list_all_iff)
  have pool: "?pool \<noteq> []" "list_all (idx_ok usable) ?pool" unfolding pl using cc(1,2) okx xw by auto
  have lgu: "length (gs[?i := cc]) = length ?wes + 1" using lg by simp
  obtain cnt where cnt: "pool_entries (gs[?i := cc]) ?wes [] [] = (?pool, cnt)" "seeds_ok (map (\<lambda>(_, c). length c) ?pool) 0 cnt"
  proof (rule pool_seeds [OF lgu])
    have "0 < length ?pool" using pool(1) length_greater_0_conv by blast
    moreover have "length (gs[?i := cc]) \<le> 3" using lo m by simp
    ultimately show "length (gs[?i := cc]) \<le> length ?pool + 2" by linarith
  qed (use that in blast)
  have okw: "list_all (idx_ok usable) ?wes" using ok by (auto simp: list_all_iff dest: in_set_takeD in_set_dropD)
  have sum: "rsum ?pool < (3 + 1) * (usable - 8)"
  proof -
    have "rsum g \<le> usable - 8" if "g \<in> set gs" for g using list_all2_right [OF gs(1) that] by (auto simp: idx_leaf_def)
    then have "sum_list (map rsum gs) \<le> length gs * (usable - 8)" by (rule sum_bound)
    also have "\<dots> \<le> 3 * (usable - 8)" using lo m by (intro mult_le_mono1) simp
    finally have "sum_list (map rsum gs) \<le> 3 * (usable - 8)" .
    moreover have "sum_list (map rsum (gs[?i := cc])) \<le> sum_list (map rsum gs) + b" using sum_update [OF i, of rsum cc b] cc(3) gi by simp
    moreover have "3 * rsum ?wes \<le> 2 * (usable - 13)"
    proof -
      have "3 * rsum ?wes \<le> 3 * nsum ?wes" using rsum_le_nsum by simp
      also have "\<dots> \<le> length ?wes * (usable - 13)" by (rule nsum_bound [OF okw sz(2)])
      also have "\<dots> \<le> 2 * (usable - 13)" using lo m by (intro mult_le_mono1) simp
      finally show ?thesis .
    qed
    moreover have "rsum ?pool = sum_list (map rsum (gs[?i := cc])) + rsum ?wes" by (rule rsum_interleave [OF lgu])
    ultimately show ?thesis using pool_room [OF _ _ _ cc(4) sz(2)] by presburger
  qed
  have own: "P \<subseteq> dom h - {1}" "distinct ?old" using iforest_owned [OF f] iforest_owned [OF win(1)] by blast+
  have old: "set ?old \<subseteq> dom h" "1 \<notin> set ?old" using own(1) win(3) gs(3) by auto
  have sp: "splice kids w0 (w0 + m) pg = Ok (?kids pg)" "splice es w0 (w0 + m - 1) nd = Ok (?es nd)" for pg nd
    using w(4) len m(1) by (auto simp: splice_def)
  have sl: "slice kids w0 (w0 + m) = Ok ?old" "slice es w0 (w0 + m - 1) = Ok ?wes" using w(4) len m(1) by (auto simp: slice_def)
  have fin: "?post (?kids kept, ?es nd) s2"
    if a: "pager_heap usable ps k h' s2" "replaces h (set ?old) h' (set kept)" "1 \<notin> set kept" "length kept \<le> 2 * 3 + 1" "iforest (itree usable h' 0) kept nd ?pool (set kept)"
    for kept nd h' s2
  proof -
    have R: "R \<subseteq> dom h" "R \<inter> set ?old = {}" using own(1) win(3,4) gs(3) by auto
    note fr = replaces_frame [OF a(2) R]
    have "iforest (itree usable h' 0) (?kids kept) (?es nd) (xa @ ?pool @ xc) (R \<union> set kept)"
    proof (rule window_joinD [OF win(6) a(5)])
      show "R \<inter> set kept = {}" using fr(3) by auto
      show "itree usable h' 0 q y B" if "B \<subseteq> R" "itree usable h 0 q y B" for q y B using itree_cong [OF that(2)] fr(2) that(1) by blast
    qed
    then have fo: "iforest (itree usable h' 0) (?kids kept) (?es nd) ((xa @ A) @ cc @ (C @ xc)) (R \<union> set kept)" unfolding pl by simp
    have rp: "replaces h P h' (R \<union> set kept)" using fr(1) win(3) gs(3) by (simp add: Un_commute)
    have "set nd \<subseteq> set ?pool" by (rule iforest_entries [OF a(5)])
    then have okn: "list_all (idx_ok usable) nd" using pool(2) by (auto simp: list_all_iff)
    have oke: "list_all (idx_ok usable) (?es nd)" using okn ok by (auto simp: list_all_iff dest: in_set_takeD in_set_dropD)
    have "length nd \<le> 6" using iforest_length [OF a(5)] a(4) by simp
    then have "length nd * (usable - 13) \<le> 6 * (usable - 13)" by (rule mult_le_mono1)
    then have nn: "nsum nd < 2 * (usable - 12)" using nsum_bound [OF okn sz(2)] sz(2) by linarith
    have d: "drop (m - 1) (drop w0 es) = drop (w0 + m - 1) es" using m(1) by (simp add: add.commute)
    have "es = take w0 es @ ?wes @ drop (m - 1) (drop w0 es)" unfolding append_take_drop_id ..
    from arg_cong [OF this, of nsum] have "nsum es = nsum (take w0 es) + (nsum ?wes + nsum (drop (w0 + m - 1) es))" unfolding d map_append sum_list_append .
    then have "nsum (?es nd) < nsum es + 2 * (usable - 12)" using nn by simp
    moreover have "window_ends es p 1 (xa @ A) (C @ xc)"
      using window_ends_within [OF win(5) hole(2)] i lo w(2,4) len by simp
    moreover have "xs = (xa @ A) @ x @ (C @ xc)" using win(2) xw by simp
    ultimately show ?thesis using a(1) fo rp oke by (simp only: prod.case) blast
  qed
  have hg: "\<And>e. e \<in> set (concat gs) \<Longrightarrow> idx_holds usable h e" using holds sg by blast
  note sc = sibling_entries_runs [OF gs(1) hg w(2) hp, unfolded lo(1)]
  show ?thesis unfolding balance_index_into_def w(1) bindA_lift_Ok prod.case runs_sizes [OF hp] sl sp
  proof (rule runs_seq [OF sc], assumption)
    fix gr s1
    assume gr: "gr = gs[?i := cc] \<and> pager_heap usable ps (k + 7) h s1"
    then have hp1: "pager_heap usable ps (k + (2 * 3 + 1)) h s1" by simp
    show "runs (let (pooled, cnt_old) = pool_entries gr ?wes [] [] in bindA (balance_index_pooled ?old pooled cnt_old) (\<lambda>(pages, new_dividers). retA (?kids pages, ?es new_dividers))) s1 ?post"
      unfolding conjunct1 [OF gr] cnt(1) Let_def prod.case
    proof (rule runs_seq [OF balance_index_pooled_runs [OF hp1 own(2) old pool cnt(2) sum]])
      show "runs (case x of (pages, nd) \<Rightarrow> retA (?kids pages, ?es nd)) s2 ?post"
        if "(case x of (kept, divs) \<Rightarrow> \<lambda>s'. \<exists>h'. pager_heap usable ps k h' s' \<and> replaces h (set ?old) h' (set kept) \<and> 1 \<notin> set kept \<and> length kept \<le> 2 * 3 + 1 \<and>
          iforest (itree usable h' 0) kept divs ?pool (set kept)) s2" for x s2
        using that fin by (cases x) (simp only: prod.case, blast intro: runs_ret)
    qed
  qed
qed

end
