(* ===== verification/IndexSplit.thy ===== *)
theory IndexSplit
  imports IndexBalance TableSplit
begin

text \<open>
  Writing or splitting an interior index page (\<open>finish_interior\<close> of \<open>src/btree/index_writer.rs\<close>): the
  parts of a split with the entries promoted between them are the same forest one level higher.
\<close>

section \<open>The number of parts\<close>

lemma need_of_split: "i \<le> j \<Longrightarrow> need_of len (drop i cells) = need_of len (take (j - i) (drop i cells)) + need_of len (drop j cells)"
proof -
  assume "i \<le> j"
  then have "drop j cells = drop (j - i) (drop i cells)" by simp
  then have "drop i cells = take (j - i) (drop i cells) @ drop j cells" by (metis append_take_drop_id)
  from arg_cong [OF this, of "need_of len"] show ?thesis by simp
qed

lemma pack_parts_extends: "\<exists>ps vs. pack_parts len cells right body0 usable i parts seps = (ps, seps @ vs)"
proof (induction len cells right body0 usable i parts seps rule: pack_parts.induct)
  case (1 len cells right body0 usable i parts seps)
  let ?b = "pack_scan len cells (usable - ((if parts = [] then body0 else 0) + 12)) i i 0"
  show ?case
  proof (cases "length cells \<le> ?b")
    case True
    then show ?thesis by (subst pack_parts.simps) (simp add: Let_def)
  next
    case False
    from "1.IH" [OF refl refl refl False refl] obtain ps vs where
      "pack_parts len cells right body0 usable (cut_at (length cells) i ?b + 1)
        (parts @ [(take (cut_at (length cells) i ?b - i) (drop i cells), fst (cells ! cut_at (length cells) i ?b))]) (seps @ [snd (cells ! cut_at (length cells) i ?b)]) =
        (ps, (seps @ [snd (cells ! cut_at (length cells) i ?b)]) @ vs)" by blast
    then show ?thesis using False by (subst pack_parts.simps) (simp add: Let_def)
  qed
qed

lemma pack_parts_few:
  "snd (pack_parts len cells right 0 usable i parts seps) = seps @ vs \<Longrightarrow> i \<le> length cells \<Longrightarrow> (length vs - 1) * (usable - 12) \<le> need_of len (drop i cells)"
proof (induction len cells right "0 :: nat" usable i parts seps arbitrary: vs rule: pack_parts.induct)
  case (1 len cells right usable i parts seps)
  define cap where "cap = usable - 12"
  define b where "b = pack_scan len cells cap i i 0"
  define bb where "bb = cut_at (length cells) i b"
  have body: "usable - ((if parts = [] then 0 else 0) + 12) = cap" by (simp add: cap_def)
  have e: "pack_parts len cells right 0 usable i parts seps = (if length cells \<le> b then (parts @ [(drop i cells, right)], seps)
      else pack_parts len cells right 0 usable (bb + 1) (parts @ [(take (bb - i) (drop i cells), fst (cells ! bb))]) (seps @ [snd (cells ! bb)]))"
    by (subst pack_parts.simps) (simp add: Let_def cap_def b_def bb_def)
  show ?case
  proof (cases "length cells \<le> b")
    case True
    then have "vs = []" using "1.prems"(1) e by simp
    then show ?thesis by simp
  next
    case False
    let ?rest = "pack_parts len cells right 0 usable (bb + 1) (parts @ [(take (bb - i) (drop i cells), fst (cells ! bb))]) (seps @ [snd (cells ! bb)])"
    have bb: "bb < length cells" using False by (auto simp: bb_def cut_at_def)
    obtain ws where ws: "snd ?rest = (seps @ [snd (cells ! bb)]) @ ws" using pack_parts_extends by (metis snd_conv)
    have vs: "vs = snd (cells ! bb) # ws" using "1.prems"(1) e False ws by simp
    have stop: "cap < need_of len (take (Suc b - i) (drop i cells))"
      using pack_scan_stop [of i cells len cap i 0 b] False "1.prems"(2) by (simp add: b_def)
    show ?thesis
    proof (cases "bb = b")
      case True
      have ih: "(length ws - 1) * (usable - 12) \<le> need_of len (drop (bb + 1) cells)"
        by (rule "1.hyps" [OF refl body [symmetric] b_def [folded cap_def], folded bb_def]) (use False ws bb in \<open>auto simp: bb_def\<close>)
      have ib: "i \<le> Suc b" using pack_scan_ge [of i len cells cap i 0] by (simp add: b_def)
      have "need_of len (drop i cells) = need_of len (take (Suc b - i) (drop i cells)) + need_of len (drop (Suc b) cells)" by (rule need_of_split [OF ib])
      then have "cap + (length ws - 1) * cap \<le> need_of len (drop i cells)" using ih stop True by (simp add: cap_def)
      then show ?thesis unfolding vs by (cases ws) (simp_all add: cap_def)
    next
      case cut: False
      then have n: "Suc bb = b" "Suc b = length cells" using False by (auto simp: bb_def cut_at_def split: if_splits)
      have "pack_scan len cells (usable - ((if parts @ [(take (bb - i) (drop i cells), fst (cells ! bb))] = [] then 0 else 0) + 12)) (bb + 1) (bb + 1) 0 = length cells"
        using n by (subst pack_scan.simps, subst pack_scan.simps) (simp add: Let_def)
      then have "snd ?rest = seps @ [snd (cells ! bb)]" by (subst pack_parts.simps) (simp add: Let_def)
      then have "ws = []" using ws by simp
      then show ?thesis unfolding vs by simp
    qed
  qed
qed

section \<open>Pages for the parts\<close>

definition idx_part_page :: "nat \<Rightarrow> pages \<Rightarrow> u32 \<Rightarrow> idx_key part \<Rightarrow> bool" where
  "idx_part_page usable h n part \<longleftrightarrow> idx_node usable h n (map fst (fst part) @ [snd part]) (map snd (fst part))"

lemma idx_part_page_cong: "idx_part_page usable h n p \<Longrightarrow> h' n = h n \<Longrightarrow> idx_part_page usable h' n p"
  unfolding idx_part_page_def by (rule idx_page_cong)

lemma iforest_of_parts:
  assumes "iforest (itree usable h d) (fst (unpack_parts ps vs)) (snd (unpack_parts ps vs)) xs P" and "length ps = length vs + 1"
    and "list_all2 (idx_part_page usable h) ns ps" and "distinct ns" and "set ns \<inter> P = {}"
  shows "iforest (itree usable h (Suc d)) ns vs xs (P \<union> set ns)"
  using assms
proof (induction ps vs arbitrary: ns xs P rule: unpack_parts.induct)
  case (1 pc pr ps v vs)
  obtain n ns' where ns: "ns = n # ns'" "idx_part_page usable h n (pc, pr)" "list_all2 (idx_part_page usable h) ns' ps" using "1.prems"(3) by (auto simp: list_all2_Cons2)
  have l: "length (map fst pc @ [pr]) = length (map snd pc) + 1" by simp
  obtain x1 x2 P1 P2 where p: "xs = x1 @ v # x2" "P = P1 \<union> P2" "P1 \<inter> P2 = {}" "iforest (itree usable h d) (map fst pc @ [pr]) (map snd pc) x1 P1"
    "iforest (itree usable h d) (fst (unpack_parts ps vs)) (snd (unpack_parts ps vs)) x2 P2"
    using "1.prems"(1) iforest_append [OF l, of "itree usable h d" "fst (unpack_parts ps vs)" v "snd (unpack_parts ps vs)" xs P] by auto
  have "iforest (itree usable h (Suc d)) ns' vs x2 (P2 \<union> set ns')" by (rule "1.IH" [OF p(5)]) (use "1.prems" ns p(2) in auto)
  moreover have "itree usable h (Suc d) n x1 (insert n P1)" using p(2,4) ns(1,2) "1.prems"(5) by (auto simp: idx_part_page_def)
  ultimately have "iforest (itree usable h (Suc d)) (n # ns') (v # vs) (x1 @ v # x2) (insert n P1 \<union> (P2 \<union> set ns'))"
    using "1.prems"(4,5) ns(1) p(2,3) by (intro iforest_ConsI) auto
  moreover have "insert n P1 \<union> (P2 \<union> set ns') = P \<union> set ns" using p(2) ns(1) by auto
  ultimately show ?case using p(1) ns(1) by simp
next
  case (2 pc pr ps)
  then obtain n where "ns = [n]" "idx_part_page usable h n (pc, pr)" by (auto simp: list_all2_Cons2)
  then show ?case using 2 by (auto simp: idx_part_page_def)
qed simp

definition idx_part_ok :: "nat \<Rightarrow> idx_key part \<Rightarrow> bool" where
  "idx_part_ok usable part \<longleftrightarrow> part_fits idx_cell_len usable 0 part \<and> list_all (idx_ok usable) (map snd (fst part))"

lemma store_part:
  assumes hp: "pager_heap usable ps k h s" and n: "n \<in> dom h" "n \<noteq> 1" and ok: "idx_part_ok usable (pc, pr)"
    and cont: "\<And>b s'. pager_heap usable ps k (h(n \<mapsto> b)) s' \<Longrightarrow> idx_part_page usable (h(n \<mapsto> b)) n (pc, pr) \<Longrightarrow> runs (f ()) s' Q"
  shows "runs (bindA (liftA (serialize_index_interior ps usable 0 pc pr None)) (\<lambda>buf. bindA (write_page n buf) f)) s Q"
proof (rule store_idx_node [OF hp n])
  show "12 + nsum (map snd pc) \<le> usable" using ok unfolding idx_part_ok_def part_fits_def fst_conv need_of_idx by simp
qed (use ok cont in \<open>auto simp: idx_part_ok_def idx_part_page_def\<close>)

lemma write_idx_sibling_runs:
  assumes hp: "pager_heap usable ps (Suc k) h s" and j: "j < length parts" and ok: "idx_part_ok usable (parts ! j)"
  shows "runs (write_idx_sibling ps usable parts seps j) s (\<lambda>(key, m) s'. key = pick_key ([], []) seps j \<and> m \<noteq> 1 \<and> m \<notin> dom h \<and>
    (\<exists>b. pager_heap usable ps k (h(m \<mapsto> b)) s' \<and> idx_part_page usable (h(m \<mapsto> b)) m (parts ! j)))" (is "runs _ _ ?post")
proof -
  obtain pc pr where pj: "parts ! j = (pc, pr)" by (cases "parts ! j")
  have ix: "idx parts j = Ok (pc, pr)" using j pj by (simp add: idx_def)
  show ?thesis unfolding write_idx_sibling_def ix bindA_lift_Ok prod.case pick_key_def [symmetric]
  proof (rule runs_seq [OF ph.heap_alloc [OF hp]])
    fix m s'
    assume m: "m \<notin> dom h \<and> 1 < m \<and> pager_heap usable ps k (h(m \<mapsto> replicate ps 0)) s'"
    then have m': "m \<in> dom (h(m \<mapsto> replicate ps 0))" "m \<noteq> 1" "pager_heap usable ps k (h(m \<mapsto> replicate ps 0)) s'" by auto
    show "runs (bindA (liftA (serialize_index_interior ps usable 0 pc pr None)) (\<lambda>buf. bindA (write_page m buf) (\<lambda>_. retA (pick_key ([], []) seps j, m)))) s' ?post"
      by (rule store_part [OF m'(3,1,2)]) (use ok pj m m'(2) in auto)
  qed
qed

lemma write_idx_siblings_run:
  assumes j: "j \<le> length parts" and hp: "pager_heap usable ps (k + (length parts - j)) h s"
    and ok: "\<And>i. j \<le> i \<Longrightarrow> i < length parts \<Longrightarrow> idx_part_ok usable (parts ! i)"
  shows "runs (mapA (write_idx_sibling ps usable parts seps) [j..<length parts]) s (\<lambda>sibs s'. map fst sibs = map (pick_key ([], []) seps) [j..<length parts] \<and>
    distinct (map snd sibs) \<and> 1 \<notin> set (map snd sibs) \<and>
    (\<exists>h'. pager_heap usable ps k h' s' \<and> replaces h {} h' (set (map snd sibs)) \<and> list_all2 (idx_part_page usable h') (map snd sibs) (drop j parts)))"
proof -
  have l2: "list_all2 (idx_part_page usable h') ms (drop j parts)" if "list_all2 (\<lambda>m i. idx_part_page usable h' m (parts ! i)) ms [j..<length parts]" for h' ms
    using that by (auto simp: list_all2_conv_all_nth)
  show ?thesis
  proof (rule runs_conseq [OF alloc_pages_run [where Pg = "\<lambda>h m i. idx_part_page usable h m (parts ! i)" and f = "write_idx_sibling ps usable parts seps" and g = "pick_key ([], []) seps", OF j hp]])
    show "runs (write_idx_sibling ps usable parts seps i) s (\<lambda>(key, m) s'. key = pick_key ([], []) seps i \<and> m \<noteq> 1 \<and> m \<notin> dom h \<and>
      (\<exists>b. pager_heap usable ps k (h(m \<mapsto> b)) s' \<and> idx_part_page usable (h(m \<mapsto> b)) m (parts ! i)))"
      if "j \<le> i" "i < length parts" "pager_heap usable ps (Suc k) h s" for i k h s
      by (rule write_idx_sibling_runs [OF that(3,2) ok [OF that(1,2)]])
    show "idx_part_page usable h' m (parts ! i)" if "idx_part_page usable h m (parts ! i)" "h' m = h m" for h h' m i using that by (rule idx_part_page_cong)
  qed (use l2 in blast)
qed

section \<open>Finishing an interior page\<close>

fun igrown :: "nat \<Rightarrow> pages \<Rightarrow> nat \<Rightarrow> u32 \<Rightarrow> idx_key list \<Rightarrow> u32 set \<Rightarrow> idx_up \<Rightarrow> bool" where
  "igrown usable h d n xs P Fit \<longleftrightarrow> itree usable h d n xs P"
| "igrown usable h d n xs P (SplitUp sp) \<longleftrightarrow> siblings sp \<noteq> [] \<and>
    iforest (itree usable h d) (n # map snd (siblings sp)) (first_key sp # map fst (butlast (siblings sp))) xs P"
| "igrown usable h d n xs P (LeafOverfull es) \<longleftrightarrow> False"

definition ilevel_post :: "nat \<Rightarrow> nat \<Rightarrow> nat \<Rightarrow> pages \<Rightarrow> nat \<Rightarrow> u32 \<Rightarrow> idx_key list \<Rightarrow> u32 set \<Rightarrow> idx_up \<Rightarrow> pst \<Rightarrow> bool" where
  "ilevel_post usable ps k h d n xs P up s' \<longleftrightarrow> (\<exists>h' P'. pager_heap usable ps k h' s' \<and> replaces h P h' P' \<and> igrown usable h' d n xs P' up \<and>
    (case up of SplitUp sp \<Rightarrow> length (siblings sp) \<le> 3 | _ \<Rightarrow> True))"

lemma ilevel_postI:
  "pager_heap usable ps k h' s' \<Longrightarrow> replaces h P h' P' \<Longrightarrow> igrown usable h' d n xs P' up \<Longrightarrow>
    (\<And>sp. up = SplitUp sp \<Longrightarrow> length (siblings sp) \<le> 3) \<Longrightarrow> ilevel_post usable ps k h d n xs P up s'"
  unfolding ilevel_post_def by (intro exI [of _ h'] exI [of _ P'] conjI) (simp_all split: up.split)

lemma write_replaces: "n \<in> dom h \<Longrightarrow> n \<noteq> 1 \<Longrightarrow> replaces h {n} (h(n \<mapsto> b)) {n}"
  by (rule same_dom_replaces) auto

lemma split_idx_siblings_run:
  assumes hp: "pager_heap usable ps (k + length seps) h1 s1" and h1: "h1 = h(n \<mapsto> buf)" "n \<in> dom h" "n \<noteq> 1"
    and pp: "idx_part_page usable h1 n p0" and len: "length (p0 # parts) = length seps + 1" and ne: "seps \<noteq> []" "length seps \<le> 3"
    and f: "iforest (itree usable h d) (fst (unpack_parts (p0 # parts) seps)) (snd (unpack_parts (p0 # parts) seps)) xs P"
    and P: "n \<notin> P" and ok: "list_all (idx_part_ok usable) parts"
  shows "runs (bindA (mapA (write_idx_sibling ps usable (p0 # parts) seps) [1..<length (p0 # parts)]) (\<lambda>sibs. retA (SplitUp (Split (seps ! 0) sibs)))) s1
    (ilevel_post usable ps k h (Suc d) n xs (insert n P))"
proof -
  let ?ps = "p0 # parts"
  have own: "P \<subseteq> dom h" using iforest_owned [OF f] by blast
  have hp': "pager_heap usable ps (k + (length ?ps - 1)) h1 s1" using hp len by simp
  have ok': "idx_part_ok usable (?ps ! i)" if "1 \<le> i" "i < length ?ps" for i using that ok by (auto simp: list_all_length nth_Cons')
  show ?thesis
  proof (rule runs_seq [OF write_idx_siblings_run [OF _ hp' ok']])
    fix sibs s'
    assume "map fst sibs = map (pick_key ([], []) seps) [1..<length ?ps] \<and> distinct (map snd sibs) \<and> 1 \<notin> set (map snd sibs) \<and>
      (\<exists>h'. pager_heap usable ps k h' s' \<and> replaces h1 {} h' (set (map snd sibs)) \<and> list_all2 (idx_part_page usable h') (map snd sibs) (drop 1 ?ps))"
    then obtain h' where h': "map fst sibs = map (pick_key ([], []) seps) [1..<length ?ps]" "distinct (map snd sibs)"
      "pager_heap usable ps k h' s'" "replaces h1 {} h' (set (map snd sibs))" "list_all2 (idx_part_page usable h') (map snd sibs) parts" by auto
    let ?S = "set (map snd sibs)" let ?R = "insert n P"
    have R: "?R \<subseteq> dom h1" using own h1 by auto
    note fr = replaces_frame [OF h'(4) R, simplified Int_empty_right, OF refl]
    have "replaces h ({n} \<union> P) h1 ({n} \<union> P)" using replaces_frame(1) [OF write_replaces [OF h1(2,3)] own, of buf] P h1(1) by auto
    then have rr: "replaces h ?R h' (?S \<union> ?R)" using replaces_trans [OF _ fr(1)] by simp
    have keep: "h' m = h m" if "m \<in> P" for m using fr(2) [of m] that P h1 by auto
    have "iforest (itree usable h' d) (fst (unpack_parts ?ps seps)) (snd (unpack_parts ?ps seps)) xs P" by (rule iforest_cong [OF f keep])
    moreover have "list_all2 (idx_part_page usable h') (n # map snd sibs) ?ps" using h'(5) idx_part_page_cong [OF pp] fr(2) [of n] by simp
    moreover have "set (n # map snd sibs) \<inter> P = {}" "distinct (n # map snd sibs)" using P fr(3) h'(2) by auto
    ultimately have "iforest (itree usable h' (Suc d)) (n # map snd sibs) seps xs (P \<union> set (n # map snd sibs))"
      using iforest_of_parts [OF _ len] by blast
    moreover have "P \<union> set (n # map snd sibs) = ?S \<union> ?R" by auto
    ultimately have "igrown usable h' (Suc d) n xs (?S \<union> ?R) (SplitUp (Split (seps ! 0) sibs))"
      using sib_keys [OF len ne(1) h'(1)] by simp
    then show "runs (retA (SplitUp (Split (seps ! 0) sibs))) s' (ilevel_post usable ps k h (Suc d) n xs ?R)"
      using sib_keys(3) [OF len ne(1) h'(1)] ne(2) by (intro runs_ret ilevel_postI [OF h'(3) rr]) auto
  qed simp_all
qed

lemma parts_entries: "set (map snd (concat (map fst ps))) \<subseteq> set (snd (unpack_parts ps vs)) \<or> length ps \<noteq> length vs + 1"
  by (induction ps vs rule: unpack_parts.induct) auto

lemma finish_idx_interior_runs:
  assumes hp: "pager_heap usable ps (k + 3) h s" and n: "n \<in> dom h" "n \<noteq> 1" and f: "iforest (itree usable h d) kids es xs P" and P: "n \<notin> P"
    and ok: "list_all (idx_ok usable) es" and ks: "nsum es < 3 * (usable - 12)"
  shows "runs (finish_idx_interior n 0 ps usable kids es None) s (ilevel_post usable ps k h (Suc d) n xs (insert n P))"
proof -
  have len: "length kids = length es + 1" using f by (rule iforest_length)
  note sz = pager_heap_sizes [OF hp]
  have own: "P \<subseteq> dom h" using iforest_owned [OF f] by blast
  let ?cells = "zip kids es"
  have z: "map fst ?cells @ [last kids] = kids" "map snd ?cells = es" using zip_last [OF len] .
  have okc: "idx_part_ok usable (?cells, last kids) \<longleftrightarrow> part_fits idx_cell_len usable 0 (?cells, last kids)" using ok z(2) by (simp add: idx_part_ok_def)
  have ft: "idx_interior_fits ?cells 0 usable = Ok (part_fits idx_cell_len usable 0 (?cells, last kids))"
    using sz(2) by (auto simp: idx_interior_fits_def usub_def part_fits_def)
  have whole: "runs (retA Fit) s' (ilevel_post usable ps k h (Suc d) n xs (insert n P))"
    if a: "pager_heap usable ps (k + 3) (h(n \<mapsto> buf)) s'" "idx_part_page usable (h(n \<mapsto> buf)) n (?cells, last kids)" for s' buf
  proof -
    have "iforest (itree usable (h(n \<mapsto> buf)) d) kids es xs P" by (rule iforest_cong [OF f]) (use P in auto)
    then have "itree usable (h(n \<mapsto> buf)) (Suc d) n xs (insert n P)" using a(2) P z by (auto simp: idx_part_page_def)
    moreover have "replaces h (insert n P) (h(n \<mapsto> buf)) (insert n P)" using replaces_frame(1) [OF write_replaces [OF n] own] P by auto
    ultimately show ?thesis using pager_heap_less [OF a(1), of k] by (intro runs_ret ilevel_postI [where h' = "h(n \<mapsto> buf)" and P' = "insert n P"]) simp_all
  qed
  show ?thesis
  proof (cases "part_fits idx_cell_len usable 0 (?cells, last kids)")
    case True
    show ?thesis unfolding finish_idx_interior_def interior_cells_Ok [OF len] bindA_lift_Ok ft if_P [OF True]
      by (rule store_part [OF hp n]) (use True okc whole in auto)
  next
    case False
    have small: "\<forall>c \<in> set ?cells. 0 + 12 + (idx_cell_len (snd c) + 2) \<le> usable"
    proof
      fix c
      assume "c \<in> set ?cells"
      then have "idx_ok usable (snd c)" using ok set_zip_rightD [of "fst c" "snd c" kids es] by (simp add: list_all_iff)
      from idx_ok_len [OF this sz(2)] show "0 + 12 + (idx_cell_len (snd c) + 2) \<le> usable" by simp
    qed
    obtain ps' vs where pk: "pack_index_interior ?cells (last kids) 0 usable = (ps', vs)" "length ps' = length vs + 1"
      "unpack_parts ps' vs = (kids, es)" "part_fits idx_cell_len usable 0 (hd ps')" "list_all (part_fits idx_cell_len usable 0) (tl ps')"
      using pack_parts_Ok [OF le0 small, of "last kids" "[]" "[]"] sz(2) z by (auto simp: pack_index_interior_def)
    obtain pc pr parts where p: "ps' = (pc, pr) # parts" using pk(2) by (cases ps') auto
    have vl: "length vs \<le> 3"
    proof -
      have "(length vs - 1) * (usable - 12) \<le> need_of idx_cell_len (drop 0 ?cells)"
        using pack_parts_few [of idx_cell_len ?cells "last kids" usable 0 "[]" "[]" vs] pk(1) by (simp add: pack_index_interior_def)
      then have "(length vs - 1) * (usable - 12) < 3 * (usable - 12)" using ks unfolding drop_0 need_of_idx z(2) by linarith
      then have "length vs - 1 < 3" by (rule mult_less_cancel2 [THEN iffD1, THEN conjunct2])
      then show ?thesis by simp
    qed
    have oks: "list_all (idx_ok usable) (map snd (concat (map fst ps')))" using parts_entries [of ps' vs] pk(2,3) ok by (auto simp: list_all_iff)
    have okp: "idx_part_ok usable (pc, pr)" "list_all (idx_part_ok usable) parts" using oks pk(4,5) p by (auto simp: idx_part_ok_def list_all_iff)
    have e: "finish_idx_interior n 0 ps usable kids es None =
      bindA (if vs = [] then retA ([], []) else liftA (Ok (vs ! 0))) (\<lambda>first. bindA (liftA (serialize_index_interior ps usable 0 pc pr None)) (\<lambda>buf.
      bindA (write_page n buf) (\<lambda>_. if vs = [] then retA Fit
        else bindA (mapA (write_idx_sibling ps usable ps' vs) [1..<length ps']) (\<lambda>sibs. retA (SplitUp (Split first sibs))))))"
      unfolding finish_idx_interior_def interior_cells_Ok [OF len] bindA_lift_Ok ft if_not_P [OF False] pk(1) Let_def prod.case
      using pk(2) p by (auto simp: idx_def)
    show ?thesis
    proof (cases "vs = []")
      case True
      then have "map fst pc @ [pr] = kids" "map snd pc = es" using pk(2,3) p by simp_all
      then have "pc = ?cells" "pr = last kids" by (auto simp: zip_append1 zip_map_fst_snd)
      then show ?thesis using False pk(4) p by simp
    next
      case vs: False
      have f': "iforest (itree usable h d) (fst (unpack_parts ((pc, pr) # parts) vs)) (snd (unpack_parts ((pc, pr) # parts) vs)) xs P"
        using f pk(3) p by simp
      have "runs (bindA (mapA (write_idx_sibling ps usable ps' vs) [1..<length ps']) (\<lambda>sibs. retA (SplitUp (Split (vs ! 0) sibs)))) s'
          (ilevel_post usable ps k h (Suc d) n xs (insert n P))"
        if a: "pager_heap usable ps (k + 3) (h(n \<mapsto> buf)) s'" "idx_part_page usable (h(n \<mapsto> buf)) n (pc, pr)" for s' buf
        unfolding p by (rule split_idx_siblings_run [OF pager_heap_less [OF a(1)] refl n a(2) _ vs vl f' P okp(2)]) (use pk(2) p vl in auto)
      then show ?thesis unfolding e using vs by simp (rule store_part [OF hp n okp(1)], simp)
    qed
  qed
qed

end
