(* ===== verification/TextKept.thy ===== *)
theory TextKept
  imports IndexSplit
begin

text \<open>
  No operation of the index writer changes the text encoding in the database header
  (\<open>src/btree/index_writer.rs\<close> reads it again at every level of an insertion).
\<close>

definition enc_is :: "text_encoding \<Rightarrow> pst \<Rightarrow> bool" where
  "enc_is enc s \<longleftrightarrow> in_txn s \<and> header_text_encoding (wp_header (snd s)) = enc"

lemma runs_keeps: "runs m s Q \<Longrightarrow> keepsA I m \<Longrightarrow> I s \<Longrightarrow> runs m s (\<lambda>x s'. Q x s' \<and> I s')"
  unfolding runs_def keepsA_def by (metis snd_conv)

named_theorems enc_keeps

lemma enc_acquire [enc_keeps]: "keepsA (enc_is enc) acquire_write_intent"
  by (simp add: keepsA_def enc_is_def)

lemma enc_modP:
  assumes "\<And>p. header_text_encoding (wp_header (g p)) = header_text_encoding (wp_header p)" and "\<And>p. wp_held (g p) = wp_held p"
  shows "keepsA (enc_is enc) (modP g)"
  using assms by (auto simp: keepsA_def enc_is_def in_txn_def)

lemma enc_stage [enc_keeps]: "keepsA (enc_is enc) (stage n b)"
  unfolding stage_def by (rule enc_modP) simp_all

lemma enc_free_fields [enc_keeps]:
  "keepsA (enc_is enc) (modP (\<lambda>p. p\<lparr>wp_header := (wp_header p)\<lparr>freelist_count := f p\<rparr>\<rparr>))"
  "keepsA (enc_is enc) (modP (\<lambda>p. p\<lparr>wp_header := (wp_header p)\<lparr>freelist_trunk := g p\<rparr>\<rparr>))"
  "keepsA (enc_is enc) (modP (\<lambda>p. p\<lparr>wp_header := (wp_header p)\<lparr>freelist_trunk := g p, freelist_count := f p\<rparr>\<rparr>))"
  by (rule enc_modP; simp)+

lemma enc_read [enc_keeps]: "keepsA (enc_is enc) (read_page n)"
  by (auto simp: keepsA_def enc_is_def in_txn_def read_page_def split: option.split res.split prod.split)

lemma enc_write_page [enc_keeps]: "keepsA (enc_is enc) (write_page n b)"
  unfolding write_page_def by (auto intro!: txn_rules enc_keeps)

lemma enc_alloc_freelist [enc_keeps]: "keepsA (enc_is enc) alloc_from_freelist"
  unfolding alloc_from_freelist_def
  by (auto simp: Let_def simp del: bindA_ret bindA_get intro!: txn_rules enc_keeps)

lemma extend_file_header: "wp_header (snd (extend_file av usable p)) = wp_header p"
proof (induction av usable p rule: extend_file.induct)
  case (1 av usable p)
  show ?case by (subst (1) extend_file.simps) (use 1 in \<open>auto simp: Let_def\<close>)
qed

lemma enc_allocate [enc_keeps]: "keepsA (enc_is enc) allocate_page"
proof -
  have e: "keepsA (enc_is enc) (\<lambda>(w, p). case extend_file (auto_vacuum_on p) usable p of (r, p') \<Rightarrow> (r, (w, p')))" for usable
    unfolding keepsA_def
  proof (intro allI impI)
    fix s :: pst
    assume "enc_is enc s"
    then show "enc_is enc (snd ((\<lambda>(w, p). case extend_file (auto_vacuum_on p) usable p of (r, p') \<Rightarrow> (r, (w, p'))) s))"
      using extend_file_header [of "auto_vacuum_on (snd s)" usable "snd s"] extend_file_stack [of "auto_vacuum_on (snd s)" usable "snd s"]
      by (auto simp: enc_is_def in_txn_def split: prod.split)
  qed
  show ?thesis unfolding allocate_page_def by (auto intro!: txn_rules enc_keeps e)
qed

lemma enc_free_page [enc_keeps]: "keepsA (enc_is enc) (free_page pg)"
  unfolding free_page_def by (auto simp: Let_def simp del: bindA_ret bindA_get intro!: txn_rules enc_keeps)

lemma keepsA_mapA: "(\<And>x. keepsA I (f x)) \<Longrightarrow> keepsA I (mapA f xs)"
  by (induction xs) auto

lemma keepsA_pair: "(\<And>a b. keepsA I (f a b)) \<Longrightarrow> keepsA I (case x of (a, b) \<Rightarrow> f a b)"
  by (cases x) simp

lemma keepsA_if: "keepsA I a \<Longrightarrow> keepsA I b \<Longrightarrow> keepsA I (if t then a else b)"
  by simp

lemma keepsA_option: "keepsA I a \<Longrightarrow> (\<And>y. keepsA I (f y)) \<Longrightarrow> keepsA I (case x of None \<Rightarrow> a | Some y \<Rightarrow> f y)"
  by (simp split: option.split)

lemma keepsA_up:
  "keepsA I a \<Longrightarrow> (\<And>y. keepsA I (g y)) \<Longrightarrow> (\<And>y. keepsA I (f y)) \<Longrightarrow> keepsA I (case u of Fit \<Rightarrow> a | LeafOverfull y \<Rightarrow> g y | SplitUp y \<Rightarrow> f y)"
  by (simp split: up.split)

lemmas enc_rules = keepsA_basic keepsA_bind keepsA_let keepsA_pair keepsA_mapA keepsA_fold keepsA_if keepsA_option keepsA_up

lemma enc_load [enc_keeps]: "keepsA (enc_is enc) (load_bt n)"
  unfolding load_bt_def by (intro enc_rules enc_keeps)

lemma enc_sizes [enc_keeps]: "keepsA (enc_is enc) wp_usable" "keepsA (enc_is enc) wp_page_sizes"
  unfolding wp_page_sizes_def wp_usable_def by (intro enc_rules enc_keeps)+

section \<open>Reading\<close>

lemma overflow_loop_keeps:
  assumes "\<And>n. keepsA I (rd n)" and "I s" and "overflow_loop fuel rd usable tot nxt out s = Some (r, s')"
  shows "I s'"
  using assms(2,3)
proof (induction fuel arbitrary: nxt out s)
  case (Suc fuel)
  obtain r1 s1 where r1: "rd nxt s = (r1, s1)" by (cases "rd nxt s")
  have i: "I s1" using keepsA_D [OF assms(1), of s nxt] Suc.prems(1) r1 by simp
  show ?case using Suc.prems(2) Suc.IH [OF i] i Suc.prems(1) r1
    by (auto simp: Let_def bindL_def runL_def split: if_splits res.splits)
qed simp

lemma read_payload_keeps:
  assumes "\<And>n. keepsA I (rd n)" and "I s" and "read_payload fuel rd usable bs pl s = Some (r, s')"
  shows "I s'"
  using assms(3) overflow_loop_keeps [OF assms(1,2)] assms(2) unfolding read_payload_def
  by (auto simp: bindL_def runL_def split: option.splits res.splits prod.splits if_splits)

lemma enc_payload [enc_keeps]: "keepsA (enc_is enc) (full_payload usable bs pl)"
  unfolding keepsA_def
proof (intro allI impI)
  fix s
  assume s: "enc_is enc s"
  have sp: "keepsA (enc_is enc) (source_page n)" for n unfolding source_page_def by (intro enc_rules enc_keeps)
  show "enc_is enc (snd (full_payload usable bs pl s))"
  proof (cases "read_payload (total_len pl + 1) source_page usable bs pl s")
    case (Some x)
    obtain r s' where "x = (r, s')" by (cases x)
    then show ?thesis using Some read_payload_keeps [OF sp s] by (simp only: full_payload_def option.case snd_conv)
  qed (use s in \<open>simp only: full_payload_def option.case snd_conv\<close>)
qed

lemma enc_read_entry [enc_keeps]: "keepsA (enc_is enc) (read_entry bt usable i)"
  unfolding read_entry_def by (intro enc_rules enc_keeps)

lemma enc_read_page [enc_keeps]: "keepsA (enc_is enc) (read_leaf bt usable)" "keepsA (enc_is enc) (read_interior bt usable)"
  unfolding read_leaf_def read_interior_def by (intro enc_rules enc_keeps)+

section \<open>Writing\<close>

lemma enc_chain [enc_keeps]: "keepsA (enc_is enc) (write_chain_page ps cap dat pages i)" "keepsA (enc_is enc) (write_overflow_chain dat)"
proof -
  show 1: "keepsA (enc_is enc) (write_chain_page ps cap dat pages i)" for ps cap dat pages i
    unfolding write_chain_page_def Let_def by (intro enc_rules enc_keeps)
  show "keepsA (enc_is enc) (write_overflow_chain dat)"
    unfolding write_overflow_chain_def by (intro enc_rules enc_keeps 1)
qed

lemma enc_rcell [enc_keeps]: "keepsA (enc_is enc) (build_index_rcell rec)"
  unfolding build_index_rcell_def Let_def by (intro enc_rules enc_keeps)

lemma enc_balance [enc_keeps]: "keepsA (enc_is enc) (balance_index_into kids dividers p entries)" "keepsA (enc_is enc) (balance_index_pooled old xs cnt)"
proof -
  have w: "keepsA (enc_is enc) (write_index_slice ps usable xs cs kept i)" for ps usable xs cs kept i
    unfolding write_index_slice_def by (intro enc_rules enc_keeps)
  have s: "keepsA (enc_is enc) (sibling_entries usable w0 p entries old i)" for usable w0 old i
    unfolding sibling_entries_def by (intro enc_rules enc_keeps)
  show p: "keepsA (enc_is enc) (balance_index_pooled old xs cnt)" for old xs cnt
    unfolding balance_index_pooled_def Let_def by (intro enc_rules enc_keeps w)
  show "keepsA (enc_is enc) (balance_index_into kids dividers p entries)"
    unfolding balance_index_into_def Let_def by (intro enc_rules s p enc_keeps)
qed

lemma enc_finish [enc_keeps]: "keepsA (enc_is enc) (finish_idx_interior n body ps usable kids es pre)"
proof -
  have s: "keepsA (enc_is enc) (write_idx_sibling ps usable parts seps i)" for parts seps i
    unfolding write_idx_sibling_def by (intro enc_rules enc_keeps)
  show ?thesis unfolding finish_idx_interior_def Let_def by (intro enc_rules s enc_keeps)
qed

lemma enc_insert_rec [enc_keeps]: "keepsA (enc_is enc) (insert_index_rec d reg colls descs n target rcell)"
proof (induction d arbitrary: n)
  case (Suc d)
  show ?case unfolding insert_index_rec.simps Let_def
    by (intro enc_rules enc_keeps Suc.IH)
qed (simp add: keepsA_def)

lemma enc_root [enc_keeps]: "keepsA (enc_is enc) (deepen_index_root n es)" "keepsA (enc_is enc) (grow_index_root n sp)"
  unfolding deepen_index_root_def grow_index_root_def Let_def by (intro enc_rules enc_keeps)+

lemma enc_create: "keepsA (enc_is enc) create_index_root"
  unfolding create_index_root_def by (intro enc_rules enc_keeps)

lemma enc_insert_index: "keepsA (enc_is enc) (insert_index reg root rec colls descs)"
  unfolding insert_index_def by (intro enc_rules enc_keeps)

end
