(* ===== verification/IndexRefine.thy ===== *)
theory IndexRefine
  imports TextKept TableRefine
begin

text \<open>
  Insertion into an index b-tree refines insertion into an ordered list: on a page that is the root of
  an index tree, \<open>insert_index_rec\<close> leaves a tree whose entries are those of before with the new entry
  between the smaller and the greater ones, or those of before when the record is there already
  (\<open>src/btree/index_writer.rs\<close>, \<open>insert_rec\<close>). The proof is by induction on the depth.
\<close>

section \<open>The list\<close>

text \<open>\<open>c e\<close> compares the new record with the entry \<open>e\<close>.\<close>

definition idx_ins :: "(idx_key \<Rightarrow> ordering) \<Rightarrow> idx_key \<Rightarrow> idx_key list \<Rightarrow> idx_key list" where
  "idx_ins c new xs = (if \<exists>e \<in> set xs. c e = Equal then xs
     else takeWhile (\<lambda>e. c e = Greater) xs @ new # dropWhile (\<lambda>e. c e = Greater) xs)"

definition cmp_ok :: "registry \<Rightarrow> bytes \<Rightarrow> text_encoding \<Rightarrow> collation list \<Rightarrow> bool list \<Rightarrow> (idx_key \<Rightarrow> ordering) \<Rightarrow> idx_key list \<Rightarrow> bool" where
  "cmp_ok reg target enc colls descs c xs \<longleftrightarrow> (\<forall>e \<in> set xs. cmp_records reg target (fst e) enc colls descs = Ok (c e)) \<and> ranked c xs"

lemma ranked_below: "ranked c (x # xs) \<Longrightarrow> c x = Less \<Longrightarrow> e \<in> set xs \<Longrightarrow> c e = Less"
  using rank_inj(1) by (auto simp: ranked_Cons)

lemma ranked_sub: "ranked c (xa @ x @ xc) \<Longrightarrow> ranked c x"
  by (simp add: ranked_append)

lemma cmp_ok_sub: "cmp_ok reg target enc colls descs c (xa @ x @ xc) \<Longrightarrow> cmp_ok reg target enc colls descs c x"
  by (auto simp: cmp_ok_def ranked_append)

lemma find_slot_Ok:
  assumes "cmp_ok reg target enc colls descs c es"
  shows "find_slot reg target enc colls descs i es =
    Ok (if \<exists>e \<in> set es. c e = Equal then None else Some (i + length (takeWhile (\<lambda>e. c e = Greater) es)))"
  using assms
proof (induction es arbitrary: i)
  case (Cons e es)
  have ce: "cmp_records reg target (fst e) enc colls descs = Ok (c e)" and rk: "ranked c (e # es)" and ok: "cmp_ok reg target enc colls descs c es"
    using Cons.prems by (auto simp: cmp_ok_def ranked_Cons)
  obtain full rc where e: "e = (full, rc)" by (cases e)
  show ?case
  proof (cases "c e")
    case Less
    then have "\<not> (\<exists>e' \<in> set (e # es). c e' = Equal)" using ranked_below [OF rk Less] by auto
    then show ?thesis using ce Less e by simp
  next
    case Equal
    then show ?thesis using ce e by simp
  next
    case Greater
    then show ?thesis using ce e Cons.IH [OF ok, of "i + 1"] by simp
  qed
qed simp

lemma idx_ins_at:
  "\<not> (\<exists>e \<in> set xs. c e = Equal) \<Longrightarrow> insert_at xs (0 + length (takeWhile (\<lambda>e. c e = Greater) xs)) new = Ok (idx_ins c new xs)"
  by (simp add: idx_ins_def insert_at_def length_takeWhile_le takeWhile_eq_take [symmetric] dropWhile_eq_drop [symmetric])

lemma idx_ins_set: "set (idx_ins c new xs) \<subseteq> insert new (set xs)"
  by (auto simp: idx_ins_def dest: set_takeWhileD set_dropWhileD)

lemma idx_ins_nonempty: "idx_ins c new xs \<noteq> [] \<or> xs = []" "\<not> (\<exists>e \<in> set xs. c e = Equal) \<Longrightarrow> idx_ins c new xs \<noteq> []"
  by (auto simp: idx_ins_def)

lemma idx_ins_sum: "rsum (idx_ins c new xs) \<le> rsum xs + (length (snd new) + 2)"
proof -
  let ?P = "\<lambda>e. c e = Greater"
  have "rsum (takeWhile ?P xs) + rsum (dropWhile ?P xs) = rsum (takeWhile ?P xs @ dropWhile ?P xs)" by (simp only: map_append sum_list.append)
  also have "\<dots> = rsum xs" by (simp only: takeWhile_dropWhile_id)
  finally show ?thesis by (auto simp: idx_ins_def case_prod_unfold)
qed

text \<open>The entries before the child that the descent picks are smaller, those after it greater.\<close>

lemma window_sides:
  assumes w: "window_ends es p 1 xa xc" and p: "p = length (takeWhile (\<lambda>e. c e = Greater) es)" and ne: "\<not> (\<exists>e \<in> set es. c e = Equal)"
    and rk: "ranked c (xa @ x @ xc)"
  shows "e \<in> set xa \<Longrightarrow> c e = Greater" and "e \<in> set xc \<Longrightarrow> c e = Less"
proof -
  have pl: "p \<le> length es" using p by (simp add: length_takeWhile_le)
  show "c e = Greater" if e: "e \<in> set xa"
  proof -
    have p0: "0 < p" "xa \<noteq> []" "last xa = es ! (p - 1)" using w e by (auto simp: window_ends_def split: if_splits)
    have "es ! (p - 1) = takeWhile (\<lambda>e. c e = Greater) es ! (p - 1)" using p0(1) p by (simp add: takeWhile_nth)
    also have "\<dots> \<in> set (takeWhile (\<lambda>e. c e = Greater) es)" using p0(1) p by (intro nth_mem) simp
    finally have "c (last xa) = Greater" unfolding p0(3) by (blast dest: set_takeWhileD)
    moreover have "ranked c (butlast xa @ [last xa])" using rk p0(2) by (simp add: ranked_append)
    then have "e = last xa \<or> rank (c e) \<le> rank (c (last xa))" using e p0(2) append_butlast_last_id [OF p0(2)]
      unfolding ranked_append by (metis Un_iff empty_iff list.set(1) list.set_intros(1) set_ConsD set_append)
    ultimately show ?thesis using rank_inj(2) by metis
  qed
  show "c e = Less" if e: "e \<in> set xc"
  proof -
    have p1: "p < length es" "xc \<noteq> []" "hd xc = es ! p" using w e pl by (auto simp: window_ends_def split: if_splits)
    have "c (es ! p) \<noteq> Greater" using p1(1) unfolding p by (intro nth_length_takeWhile)
    moreover have "c (es ! p) \<noteq> Equal" using ne nth_mem [OF p1(1)] by blast
    ultimately have "c (hd xc) = Less" unfolding p1(3) by (cases "c (es ! p)") auto
    moreover have "ranked c (hd xc # tl xc)" using rk p1(2) by (simp add: ranked_append)
    ultimately show ?thesis using ranked_below [of c "hd xc" "tl xc" e] e p1(2) by (cases xc) auto
  qed
qed

lemma idx_ins_window:
  assumes "\<And>e. e \<in> set xa \<Longrightarrow> c e = Greater" and "\<And>e. e \<in> set xc \<Longrightarrow> c e = Less"
  shows "idx_ins c new (xa @ x @ xc) = xa @ idx_ins c new x @ xc"
proof -
  have "(\<exists>e \<in> set (xa @ x @ xc). c e = Equal) \<longleftrightarrow> (\<exists>e \<in> set x. c e = Equal)" using assms by fastforce
  moreover have t: "takeWhile (\<lambda>e. c e = Greater) xc = []" "dropWhile (\<lambda>e. c e = Greater) xc = xc" using assms(2) by (cases xc; simp)+
  have "takeWhile (\<lambda>e. c e = Greater) (x @ xc) = takeWhile (\<lambda>e. c e = Greater) x"
    "dropWhile (\<lambda>e. c e = Greater) (x @ xc) = dropWhile (\<lambda>e. c e = Greater) x @ xc" by (induction x) (auto simp: t)
  moreover have "takeWhile (\<lambda>e. c e = Greater) (xa @ ys) = xa @ takeWhile (\<lambda>e. c e = Greater) ys"
    "dropWhile (\<lambda>e. c e = Greater) (xa @ ys) = dropWhile (\<lambda>e. c e = Greater) ys" for ys using assms(1) by (induction xa) auto
  ultimately show ?thesis by (simp add: idx_ins_def)
qed

section \<open>A leaf\<close>

definition index_post :: "nat \<Rightarrow> nat \<Rightarrow> nat \<Rightarrow> pages \<Rightarrow> nat \<Rightarrow> u32 \<Rightarrow> idx_key list \<Rightarrow> u32 set \<Rightarrow> idx_up \<Rightarrow> pst \<Rightarrow> bool" where
  "index_post usable ps k h d n xs P up s' \<longleftrightarrow>
    (case up of LeafOverfull es \<Rightarrow> d = 0 \<and> es = xs \<and> es \<noteq> [] \<and> pager_heap usable ps k h s'
     | _ \<Rightarrow> ilevel_post usable ps k h d n xs P up s' \<and> (d = 0 \<longrightarrow> up = Fit))"

lemma index_post_same:
  assumes "pager_heap usable ps k h s'" and "itree usable h d n xs P"
  shows "index_post usable ps k h d n xs P Fit s'"
proof -
  have "P \<subseteq> dom h" using itree_pages [OF assms(2)] by blast
  then have "ilevel_post usable ps k h d n xs P Fit s'" using assms by (intro ilevel_postI [OF assms(1) replaces_refl]) simp_all
  then show ?thesis by (simp add: index_post_def)
qed

lemma runs_enc: "enc_is enc s \<Longrightarrow> runs (bindA getA (\<lambda>(_, p0). Let (header_text_encoding (wp_header p0)) F)) s Q \<longleftrightarrow> runs (F enc) s Q"
  by (cases s) (simp add: runs_def enc_is_def)

lemma insert_index_leaf_runs:
  assumes hp: "pager_heap usable ps k h s" and enc: "enc_is enc s" and t: "itree usable h 0 n xs P" and holds: "\<And>e. e \<in> set xs \<Longrightarrow> idx_holds usable h e"
    and cmp: "cmp_ok reg target enc colls descs c xs" and new: "idx_ok usable (target, rcell)"
  shows "runs (insert_index_rec (Suc lev) reg colls descs n target rcell) s (index_post usable ps k h 0 n (idx_ins c (target, rcell) xs) P)"
proof -
  let ?xs = "idx_ins c (target, rcell) xs"
  have l: "idx_leaf usable h n xs" "P = {n}" using t by auto
  have n: "n \<noteq> 1" "n \<in> dom h" "list_all (idx_ok usable) xs" using l(1) by (auto simp: idx_leaf_def)
  have ok: "list_all (idx_ok usable) ?xs" using n(3) new idx_ins_set [of c "(target, rcell)" xs] by (auto simp: list_all_iff)
  show ?thesis unfolding insert_index_rec.simps runs_enc [OF enc]
  proof (rule runs_seq [OF load_idx_leaf [OF hp l(1)]], elim conjE, goal_cases)
    case (1 bt s1)
    note hp1 = 1(1)
    have b: "body_offset (bt_page bt) = 0" "page_one_prefix n bt = Ok None" "bt_type bt = LeafIndex" using 1(2,3) by (auto simp: other_page_def leaf_bt_def)
    have rl: "runs (read_leaf bt usable) s1 (\<lambda>x s'. x = xs \<and> pager_heap usable ps k h s')" by (rule read_leaf_runs [OF hp1 1(3)]) (rule holds)
    show ?case unfolding Let_def b runs_sizes [OF hp1] prod.case if_P [OF refl]
    proof (rule runs_seq [OF rl], elim conjE, goal_cases)
      case (1 x s2)
      note hp2 = 1(2)
      have u: "8 \<le> usable" using pager_heap_sizes(2) [OF hp2] by simp
      show ?case
      proof (cases "\<exists>e \<in> set xs. c e = Equal")
        case True
        then have "?xs = xs" by (simp add: idx_ins_def)
        then show ?thesis unfolding 1(1) find_slot_Ok [OF cmp] bindA_lift_Ok if_P [OF True] option.case using index_post_same [OF hp2 t] by simp
      next
        case False
        have ft: "idx_leaf_fits ?xs 0 usable = Ok (8 + rsum ?xs \<le> usable)" using u by (auto simp: idx_leaf_fits_def usub_def)
        show ?thesis unfolding 1(1) find_slot_Ok [OF cmp] bindA_lift_Ok if_not_P [OF False] option.case idx_ins_at [OF False] ft
        proof (cases "8 + rsum ?xs \<le> usable")
          case fits: True
          show "runs (if 8 + rsum ?xs \<le> usable then bindA (liftA (serialize_index_leaf ps usable 0 (rcells ?xs) None)) (\<lambda>buf. bindA (write_page n buf) (\<lambda>_. retA Fit))
              else retA (LeafOverfull ?xs)) s2 (index_post usable ps k h 0 n ?xs P)" unfolding if_P [OF fits]
          proof (rule store_idx_leaf [OF hp2 n(2,1) ok fits], rule runs_ret)
            fix b s3
            assume a: "pager_heap usable ps k (h(n \<mapsto> b)) s3" "idx_leaf usable (h(n \<mapsto> b)) n ?xs"
            have "ilevel_post usable ps k h 0 n ?xs P Fit s3"
              by (rule ilevel_postI [OF a(1), where P' = "{n}"]) (use a(2) l(2) write_replaces [OF n(2,1)] in auto)
            then show "index_post usable ps k h 0 n ?xs P Fit s3" by (simp add: index_post_def)
          qed
        next
          case big: False
          show "runs (if 8 + rsum ?xs \<le> usable then bindA (liftA (serialize_index_leaf ps usable 0 (rcells ?xs) None)) (\<lambda>buf. bindA (write_page n buf) (\<lambda>_. retA Fit))
              else retA (LeafOverfull ?xs)) s2 (index_post usable ps k h 0 n ?xs P)"
            unfolding if_not_P [OF big] using hp2 idx_ins_nonempty(2) [OF False] by (simp add: index_post_def)
        qed
      qed
    qed
  qed
qed

section \<open>An interior page\<close>

definition at_inode :: "nat \<Rightarrow> pages \<Rightarrow> nat \<Rightarrow> u32 \<Rightarrow> u32 list \<Rightarrow> idx_key list \<Rightarrow> idx_key list \<Rightarrow> u32 set \<Rightarrow> bool" where
  "at_inode usable h d n kids es xs P \<longleftrightarrow> idx_node usable h n kids es \<and> iforest (itree usable h d) kids es xs P \<and> n \<notin> P"

lemma at_inodeD:
  assumes "at_inode usable h d n kids es xs P"
  shows "idx_node usable h n kids es" and "iforest (itree usable h d) kids es xs P" and "n \<notin> P" and "insert n P \<subseteq> dom h" and "1 \<notin> P" and "n \<noteq> 1"
    and "length kids = length es + 1" and "nsum es \<le> usable - 12" and "list_all (idx_ok usable) es"
  using assms iforest_owned by (fastforce simp: at_inode_def idx_node_def)+

lemma ichild_window:
  assumes "iforest (itree usable h d) kids es xs P" and "p < length kids"
  obtains xa xw xc R PW where "itree usable h d (kids ! p) xw PW" and "xs = xa @ xw @ xc" and "P = R \<union> PW" and "R \<inter> PW = {}" and "window_ends es p 1 xa xc"
    and "window_join (itree usable h d) kids es p 1 xa xc R"
proof -
  have "p + 1 \<le> length kids" using assms(2) by simp
  then obtain xa xw xc R PW where w: "iforest (itree usable h d) (take 1 (drop p kids)) (take (1 - 1) (drop p es)) xw PW" "xs = xa @ xw @ xc" "P = R \<union> PW" "R \<inter> PW = {}"
    "window_ends es p 1 xa xc" "window_join (itree usable h d) kids es p 1 xa xc R" using iforest_window [OF assms(1), of 1 p] by (metis zero_less_one)
  have "take 1 (drop p kids) = [kids ! p]" using assms(2) by (simp add: take_Suc_conv_app_nth)
  then show thesis using w that by simp
qed

lemma ichild_join:
  assumes "window_join (itree usable h d) kids es p 1 xa xc R" and "iforest (itree usable h' d) ks' es' x P'" and "R \<inter> P' = {}" and "\<And>m. m \<in> R \<Longrightarrow> h' m = h m"
  shows "iforest (itree usable h' d) (take p kids @ ks' @ drop (p + 1) kids) (take p es @ es' @ drop p es) (xa @ x @ xc) (R \<union> P')"
proof -
  have "itree usable h' d j y B" if "B \<subseteq> R" "itree usable h d j y B" for j y B using that(2) by (rule itree_cong) (use assms(4) that(1) in blast)
  from window_joinD [OF assms(1-3) this] show ?thesis by simp
qed

lemma ilevel_post_trans:
  assumes "replaces h P h1 P1" and "ilevel_post usable ps k h1 d n xs P1 up s'"
  shows "ilevel_post usable ps k h d n xs P up s'"
proof -
  obtain h' P' where p: "pager_heap usable ps k h' s'" "replaces h1 P1 h' P'" "igrown usable h' d n xs P' up" "case up of SplitUp sp \<Rightarrow> length (siblings sp) \<le> 3 | _ \<Rightarrow> True"
    using assms(2) unfolding ilevel_post_def by blast
  show ?thesis by (rule ilevel_postI [OF p(1) replaces_trans [OF assms(1) p(2)] p(3)]) (use p(4) in simp)
qed

lemma ilevel_post_less:
  assumes "ilevel_post usable ps k h d n xs P up s'" and "j \<le> k"
  shows "ilevel_post usable ps j h d n xs P up s'"
proof -
  obtain h' P' where p: "pager_heap usable ps k h' s'" "replaces h P h' P'" "igrown usable h' d n xs P' up" "case up of SplitUp sp \<Rightarrow> length (siblings sp) \<le> 3 | _ \<Rightarrow> True"
    using assms(1) unfolding ilevel_post_def by blast
  show ?thesis by (rule ilevel_postI [OF pager_heap_less [OF p(1) assms(2)] p(2,3)]) (use p(4) in simp)
qed

lemma finish_idx_after:
  assumes hp: "pager_heap usable ps (k + 3) h' s" and n: "n \<in> dom h'" "n \<noteq> 1" and f: "iforest (itree usable h' d) kids es xs P'" and P: "n \<notin> P'"
    and r: "replaces h (insert n P) h' (insert n P')" and ok: "list_all (idx_ok usable) xs" and ks: "nsum es < 3 * (usable - 12)"
  shows "runs (finish_idx_interior n 0 ps usable kids es None) s (ilevel_post usable ps k h (Suc d) n xs (insert n P))"
proof -
  have ok': "list_all (idx_ok usable) es" using iforest_entries [OF f] ok by (auto simp: list_all_iff)
  show ?thesis by (rule runs_conseq [OF finish_idx_interior_runs [OF hp n f P ok' ks]]) (rule ilevel_post_trans [OF r])
qed

text \<open>The child absorbed the entry.\<close>

lemma idx_child_fit:
  assumes nd: "at_inode usable h d n kids es xs P" and p: "p < length kids" and w: "P = R \<union> PW" "R \<inter> PW = {}"
    and join: "window_join (itree usable h d) kids es p 1 xa xc R"
    and ch: "ilevel_post usable ps k h d (kids ! p) x' PW Fit s1"
  shows "ilevel_post usable ps k h (Suc d) n (xa @ x' @ xc) (insert n P) Fit s1"
proof -
  note N = at_inodeD [OF nd]
  obtain h' PW' where h': "pager_heap usable ps k h' s1" "replaces h PW h' PW'" "itree usable h' d (kids ! p) x' PW'"
    using ch unfolding ilevel_post_def by auto
  have one: "1 \<in> PW' \<Longrightarrow> 1 \<in> PW" using itree_pages [OF h'(3)] by blast
  note rp = child_replaced [OF h'(2) one w N(3,5,4)]
  have "iforest (itree usable h' d) [kids ! p] [] x' PW'" using h'(3) by simp
  note f = ichild_join [OF join this rp(2,6)]
  have "take p kids @ [kids ! p] @ drop (p + 1) kids = kids" using p by (simp add: id_take_nth_drop [symmetric])
  then have "iforest (itree usable h' d) kids es (xa @ x' @ xc) (R \<union> PW')" using f by simp
  moreover have "idx_node usable h' n kids es" using N(1) rp(5) by (rule idx_page_cong(2))
  ultimately have "itree usable h' (Suc d) n (xa @ x' @ xc) (insert n (R \<union> PW'))" using rp(3) by auto
  then show ?thesis by (intro ilevel_postI [OF h'(1) rp(1)]) simp_all
qed

text \<open>The child split.\<close>

lemma nsum_three: "list_all (idx_ok usable) vs \<Longrightarrow> length vs \<le> 3 \<Longrightarrow> 257 \<le> usable \<Longrightarrow> nsum vs < usable - 12"
proof -
  assume a: "list_all (idx_ok usable) vs" "length vs \<le> 3" "257 \<le> usable"
  have "3 * nsum vs \<le> length vs * (usable - 13)" by (rule nsum_bound [OF a(1,3)])
  also have "\<dots> \<le> 3 * (usable - 13)" using a(2) by (rule mult_le_mono1)
  finally show ?thesis using a(3) by simp
qed

lemma idx_child_split:
  assumes nd: "at_inode usable h d n kids es xs P" and p: "p < length kids" and w: "P = R \<union> PW" "R \<inter> PW = {}"
    and join: "window_join (itree usable h d) kids es p 1 xa xc R"
    and ok: "list_all (idx_ok usable) (xa @ x' @ xc)" and ch: "ilevel_post usable ps (k + 3) h d (kids ! p) x' PW (SplitUp sp) s1"
  shows "runs (bindA (liftA (adopt_idx_split kids es p sp)) (\<lambda>(kids, dividers). finish_idx_interior n 0 ps usable kids dividers None)) s1
    (ilevel_post usable ps k h (Suc d) n (xa @ x' @ xc) (insert n P))"
proof -
  note N = at_inodeD [OF nd]
  let ?ks = "kids ! p # map snd (siblings sp)" let ?vs = "first_key sp # map fst (butlast (siblings sp))"
  obtain h' PW' where h': "pager_heap usable ps (k + 3) h' s1" "replaces h PW h' PW'" "siblings sp \<noteq> []" "iforest (itree usable h' d) ?ks ?vs x' PW'"
    "length (siblings sp) \<le> 3" using ch unfolding ilevel_post_def igrown.simps up.case by blast
  have one: "1 \<in> PW' \<Longrightarrow> 1 \<in> PW" using iforest_owned [OF h'(4)] by blast
  note rp = child_replaced [OF h'(2) one w N(3,5,4)]
  let ?kids = "take p kids @ ?ks @ drop (p + 1) kids" let ?es = "take p es @ ?vs @ drop p es"
  have f: "iforest (itree usable h' d) ?kids ?es (xa @ x' @ xc) (R \<union> PW')" by (rule ichild_join [OF join h'(4) rp(2,6)])
  have "list_all (idx_ok usable) ?vs" using iforest_entries [OF h'(4)] ok by (auto simp: list_all_iff)
  moreover have "length ?vs \<le> 3" using h'(3,5) by (cases "siblings sp") auto
  ultimately have v: "nsum ?vs < usable - 12" by (rule nsum_three [OF _ _ pager_heap_sizes(2) [OF h'(1)]])
  have "nsum (take p es) + nsum (drop p es) = nsum (take p es @ drop p es)" by (simp only: map_append sum_list.append)
  then have "nsum ?es = nsum es + nsum ?vs" by simp
  then have ks: "nsum ?es < 3 * (usable - 12)" using v N(8) by linarith
  have p': "p \<le> length es" using p N(7) by simp
  have nd': "n \<in> dom h'" using rp(5) N(4) by (auto simp: domIff)
  show ?thesis unfolding adopt_idx_split_def adopt_split_Ok [OF N(7) p' h'(3)] bindA_lift_Ok prod.case
    by (rule finish_idx_after [OF h'(1) nd' N(6) f rp(3,1) ok ks])
qed

text \<open>The child is a leaf that overflowed. The window may lie anywhere in the entries of the node.\<close>

lemma idx_child_overfull:
  assumes nd: "at_inode usable h 0 n kids es xs P" and holds: "\<And>e. e \<in> set xs \<Longrightarrow> idx_holds usable h e" and p: "p < length kids"
    and t: "idx_leaf usable h (kids ! p) xw" "set xw \<subseteq> set xs" and ok: "list_all (idx_ok usable) (f xs)" "list_all (idx_ok usable) (f xw)"
    and f: "\<And>xa xc. xs = xa @ xw @ xc \<Longrightarrow> window_ends es p 1 xa xc \<Longrightarrow> f xs = xa @ f xw @ xc"
    and sum: "f xw \<noteq> []" "rsum (f xw) \<le> rsum xw + b" "3 * b < usable - 12" and hp: "pager_heap usable ps (k + 10) h s1"
  shows "runs (bindA (balance_index_into kids es p (f xw)) (\<lambda>(kids, dividers). finish_idx_interior n 0 ps usable kids dividers None)) s1
    (ilevel_post usable ps k h (Suc 0) n (f xs) (insert n P))"
proof -
  note N = at_inodeD [OF nd]
  have hp': "pager_heap usable ps ((k + 3) + 7) h s1" using hp by (simp add: ac_simps)
  show ?thesis
  proof (rule runs_seq [OF balance_index_into_runs [OF hp' N(2) _ p t N(9) ok(2) sum]], goal_cases)
    case (2 x s2)
    then obtain kids' es' h' P' A C where x: "x = (kids', es')" "pager_heap usable ps (k + 3) h' s2" "replaces h P h' P'" "xs = A @ xw @ C" "window_ends es p 1 A C"
      "iforest (itree usable h' 0) kids' es' (A @ f xw @ C) P'" "nsum es' < nsum es + 2 * (usable - 12)" by (cases x) blast
    have one: "1 \<in> P' \<Longrightarrow> 1 \<in> P" using iforest_owned [OF x(6)] by blast
    note rp = child_replaced [OF x(3) one _ _ N(3,5,4), of "{}"]
    have nd': "n \<in> dom h'" using rp(5) N(4) by (auto simp: domIff)
    have ks: "nsum es' < 3 * (usable - 12)" using x(7) N(8) by linarith
    have "runs (finish_idx_interior n 0 ps usable kids' es' None) s2 (ilevel_post usable ps k h (Suc 0) n (f xs) (insert n P))"
      by (rule finish_idx_after [OF x(2) nd' N(6) x(6) [folded f [OF x(4,5)]] _ _ ok(1) ks]) (use rp(1,3) in auto)
    then show ?case using x(1) by simp
  qed (rule holds)
qed

section \<open>The recursion\<close>

lemma idx_child_done:
  assumes nd: "at_inode usable h d n kids es xs P" and holds: "\<And>e. e \<in> set xs \<Longrightarrow> idx_holds usable h e" and p: "p < length kids"
    and t: "itree usable h d (kids ! p) xw PW" and xs: "xs = xa @ xw @ xc" "window_ends es p 1 xa xc" and w: "P = R \<union> PW" "R \<inter> PW = {}"
    and join: "window_join (itree usable h d) kids es p 1 xa xc R"
    and ok: "list_all (idx_ok usable) (f xs)" and f: "\<And>xa xc. xs = xa @ xw @ xc \<Longrightarrow> window_ends es p 1 xa xc \<Longrightarrow> f xs = xa @ f xw @ xc"
    and sum: "rsum (f xw) \<le> rsum xw + b" "3 * b < usable - 12" and ch: "index_post usable ps (k + 10) h d (kids ! p) (f xw) PW up s1"
  shows "runs (case up of
        Fit \<Rightarrow> retA Fit
      | LeafOverfull child_entries \<Rightarrow> bindA (balance_index_into kids es p child_entries) (\<lambda>(kids, dividers). finish_idx_interior n 0 ps usable kids dividers None)
      | SplitUp s \<Rightarrow> bindA (liftA (adopt_idx_split kids es p s)) (\<lambda>(kids, dividers). finish_idx_interior n 0 ps usable kids dividers None)) s1
    (index_post usable ps k h (Suc d) n (f xs) (insert n P))"
proof -
  have ip: "index_post usable ps k h (Suc d) n (f xs) (insert n P) up' s'" if "ilevel_post usable ps k h (Suc d) n (f xs) (insert n P) up' s'" for up' s'
    using that by (cases up') (auto simp: index_post_def ilevel_post_def)
  note fx = f [OF xs]
  show ?thesis
  proof (cases up)
    case Fit
    have "ilevel_post usable ps k h d (kids ! p) (f xw) PW Fit s1" using ch Fit ilevel_post_less [of usable ps "k + 10"] by (auto simp: index_post_def)
    from idx_child_fit [OF nd p w join this] have "ilevel_post usable ps k h (Suc d) n (f xs) (insert n P) Fit s1" unfolding fx .
    then show ?thesis unfolding Fit up.case by (intro runs_ret ip)
  next
    case (LeafOverfull x)
    then have d: "d = 0" "x = f xw" "f xw \<noteq> []" "pager_heap usable ps (k + 10) h s1" using ch by (auto simp: index_post_def)
    have lw: "idx_leaf usable h (kids ! p) xw" "set xw \<subseteq> set xs" using t d(1) xs(1) by auto
    have okw: "list_all (idx_ok usable) (f xw)" using ok fx by (simp add: list_all_iff)
    have o: "runs (bindA (balance_index_into kids es p (f xw)) (\<lambda>(kids, dividers). finish_idx_interior n 0 ps usable kids dividers None)) s1
        (ilevel_post usable ps k h (Suc 0) n (f xs) (insert n P))"
      by (rule idx_child_overfull [where f = f, OF nd [unfolded d(1)] _ p lw ok okw _ d(3) sum d(4)]) (rule holds, assumption, rule f, assumption+)
    show ?thesis unfolding LeafOverfull up.case d(2) by (rule runs_conseq [OF o]) (rule ip, simp only: d(1))
  next
    case (SplitUp sp)
    have "ilevel_post usable ps (k + 3) h d (kids ! p) (f xw) PW (SplitUp sp) s1" using ch SplitUp ilevel_post_less [of usable ps "k + 10"] by (auto simp: index_post_def)
    from idx_child_split [OF nd p w join ok [unfolded fx] this] show ?thesis unfolding SplitUp up.case by (rule runs_conseq) (rule ip, simp only: fx)
  qed
qed

lemma iforest_ranked: "iforest Q ks es xs P \<Longrightarrow> ranked c xs \<Longrightarrow> ranked c es"
proof (induction Q ks es xs P rule: iforest.induct)
  case (2 Q k ks e es xs P)
  obtain x1 x2 P1 P2 where p: "xs = x1 @ e # x2" "iforest Q ks es x2 P2" using "2.prems"(1) by auto
  have "ranked c (e # x2)" using "2.prems"(2) p(1) by (simp add: ranked_append)
  then show ?case using "2.IH" [OF p(2)] iforest_entries [OF p(2)] by (auto simp: ranked_Cons)
qed (simp_all add: ranked_def)

lemma insert_index_rec_runs:
  assumes "pager_heap usable ps (k + ins_room d) h s" and "enc_is enc s" and "itree usable h d n xs P" and "\<And>e. e \<in> set xs \<Longrightarrow> idx_holds usable h e"
    and "cmp_ok reg target enc colls descs c xs" and new: "idx_ok usable (target, rcell)" and "d < lev"
  shows "runs (insert_index_rec lev reg colls descs n target rcell) s (index_post usable ps k h d n (idx_ins c (target, rcell) xs) P)"
  using assms(1-5,7)
proof (induction d arbitrary: k s n xs P lev)
  case 0
  then obtain l where l: "lev = Suc l" by (cases lev) auto
  show ?case unfolding l by (rule insert_index_leaf_runs [OF _ 0(2-5) new]) (use 0(1) in \<open>simp add: ins_room_def\<close>)
next
  case (Suc d)
  let ?f = "idx_ins c (target, rcell)"
  obtain l where l: "lev = Suc l" "d < l" using Suc.prems(6) by (cases lev) auto
  obtain kids es P0 where nd: "at_inode usable h d n kids es xs P0" "P = insert n P0" using Suc.prems(3) by (auto simp: at_inode_def)
  note N = at_inodeD [OF nd(1)]
  have ees: "set es \<subseteq> set xs" by (rule iforest_entries [OF N(2)])
  have ok: "list_all (idx_ok usable) (?f xs)" using itree_ok [OF Suc.prems(3)] new idx_ins_set [of c "(target, rcell)" xs] by (auto simp: list_all_iff)
  have z: "map fst (zip kids es) @ [last kids] = kids" "map snd (zip kids es) = es" using zip_last [OF N(7)] .
  have ce: "cmp_ok reg target enc colls descs c es" using Suc.prems(5) ees iforest_ranked [OF N(2)] by (auto simp: cmp_ok_def)
  have len3: "rsum (?f x) \<le> rsum x + (length rcell + 2)" for x using idx_ins_sum [of c "(target, rcell)" x] by simp
  have b3: "3 * (length rcell + 2) < usable - 12" using idx_ok_len [OF new pager_heap_sizes(2) [OF Suc.prems(1)]] by (simp add: idx_cell_len_def)
  show ?case unfolding l(1) insert_index_rec.simps runs_enc [OF Suc.prems(2)]
  proof (rule runs_seq [OF runs_keeps [OF load_idx_node [OF Suc.prems(1) N(1)] enc_load Suc.prems(2)]], elim conjE, goal_cases)
    case (1 bt s1)
    note hp1 = 1(2)
    have b: "body_offset (bt_page bt) = 0" "page_one_prefix n bt = Ok None" "bt_type bt = InteriorIndex" using 1(3,4) by (auto simp: other_page_def node_bt_def)
    have ne: "(InteriorIndex = LeafIndex) = False" by simp
    have ri: "runs (read_interior bt usable) s1 (\<lambda>x s'. x = (zip kids es, last kids) \<and> pager_heap usable ps (k + ins_room (Suc d)) h s')"
      by (rule read_interior_runs [OF hp1 1(4) N(7)]) (use ees Suc.prems(4) in blast)
    show ?case unfolding Let_def b runs_sizes [OF hp1] prod.case ne if_False if_P [OF refl]
    proof (rule runs_seq [OF runs_keeps [OF ri enc_read_page(2) 1(1)]], elim conjE, goal_cases)
      case (1 x s2)
      note hp2 = 1(3)
      show ?case
      proof (cases "\<exists>e \<in> set es. c e = Equal")
        case True
        then have "?f xs = xs" using ees by (auto simp: idx_ins_def)
        moreover have "index_post usable ps k h (Suc d) n xs P Fit s2" by (rule index_post_same [OF pager_heap_less [OF hp2] Suc.prems(3)]) simp
        ultimately show ?thesis unfolding 1(2) prod.case z bindA_lift_Ok find_slot_Ok [OF ce] if_P [OF True] option.case by simp
      next
        case False
        let ?p = "0 + length (takeWhile (\<lambda>e. c e = Greater) es)"
        have pl: "?p < length kids" using N(7) length_takeWhile_le [of "\<lambda>e. c e = Greater" es] by simp
        have ik: "idx kids ?p = Ok (kids ! ?p)" using pl by (simp only: idx_def if_True)
        obtain xa xw xc R PW where w: "itree usable h d (kids ! ?p) xw PW" "xs = xa @ xw @ xc" "P0 = R \<union> PW" "R \<inter> PW = {}" "window_ends es ?p 1 xa xc"
          and join: "window_join (itree usable h d) kids es ?p 1 xa xc R" by (rule ichild_window [OF N(2) pl])
        have f: "?f xs = A @ ?f y @ C" if a: "xs = A @ y @ C" "window_ends es ?p 1 A C" for A y C
        proof -
          have "ranked c (A @ y @ C)" using Suc.prems(5) a(1) by (simp add: cmp_ok_def)
          note ws = window_sides [OF a(2) _ False this, simplified]
          show ?thesis unfolding a(1) by (rule idx_ins_window) (use ws in auto)
        qed
        have hw: "idx_holds usable h e" if "e \<in> set xw" for e using that Suc.prems(4) w(2) by simp
        have IH: "runs (insert_index_rec l reg colls descs (kids ! ?p) target rcell) s2 (index_post usable ps (k + 10) h d (kids ! ?p) (?f xw) PW)"
          by (rule Suc.IH [OF _ 1(1) w(1) hw cmp_ok_sub [OF Suc.prems(5) [unfolded w(2)]] l(2)]) (use hp2 in \<open>simp add: ins_room_def ac_simps\<close>)
        show ?thesis unfolding 1(2) prod.case z bindA_lift_Ok find_slot_Ok [OF ce] if_not_P [OF False] option.case ik nd(2)
          by (rule runs_seq [OF IH]) (rule idx_child_done [where f = ?f, OF nd(1) Suc.prems(4) pl w(1,2,5,3,4) join ok f len3 b3], assumption+)
      qed
    qed
  qed
qed

end
