(* ===== verification/IndexRoot.thy ===== *)
theory IndexRoot
  imports IndexRefine TableRoot
begin

text \<open>
  The root of an index keeps its page number when the tree grows (\<open>grow_root\<close> and \<open>deepen_leaf_root\<close> of
  \<open>src/btree/index_writer.rs\<close>), and the whole of \<open>insert_index\<close> with the overflow pages of the records.
\<close>

section \<open>An interior root that split\<close>

lemma itree_moved:
  assumes t: "itree usable h (Suc d) n x P" and m: "m \<noteq> 1" "m \<notin> P" and h': "h' m = h n" "\<And>q. q \<in> P - {n} \<Longrightarrow> h' q = h q"
  shows "itree usable h' (Suc d) m x (insert m (P - {n}))"
proof -
  obtain kids es P0 where k: "idx_node usable h n kids es" "iforest (itree usable h d) kids es x P0" "n \<notin> P0" "P = insert n P0" using t by auto
  have P0: "P - {n} = P0" using k(3,4) by auto
  have "iforest (itree usable h' d) kids es x P0" by (rule iforest_cong [OF k(2)]) (use h'(2) P0 in auto)
  moreover have "idx_node usable h' m kids es" using k(1) m(1) h'(1) by (simp add: idx_node_def)
  ultimately show ?thesis unfolding P0 using m(2) k(4) by auto
qed

lemma grown_idx_root:
  assumes f: "iforest (itree usable h (Suc d)) (n # ks) (v # vs) xs P" and m: "m \<noteq> 1" "m \<notin> P" and h': "h' m = h n" "\<And>q. q \<in> P - {n} \<Longrightarrow> h' q = h q"
    and nd: "idx_node usable h' n (m # ks) (v # vs)" and n: "n \<noteq> m"
  shows "itree usable h' (Suc (Suc d)) n xs (insert m P)" and "n \<in> P"
proof -
  obtain x1 x2 P1 P2 where p: "xs = x1 @ v # x2" "P = P1 \<union> P2" "P1 \<inter> P2 = {}" "itree usable h (Suc d) n x1 P1" "iforest (itree usable h (Suc d)) ks vs x2 P2"
    using f by (simp del: itree.simps) blast
  have n1: "n \<in> P1" using itree_pages [OF p(4)] by blast
  then show "n \<in> P" using p(2) by blast
  have t: "itree usable h' (Suc d) m x1 (insert m (P1 - {n}))" by (rule itree_moved [where h = h and n = n, OF p(4) m(1)]) (use m(2) p(2) h' in auto)
  have "iforest (itree usable h' (Suc d)) ks vs x2 P2" by (rule iforest_cong [OF p(5)]) (use h'(2) p(2,3) n1 in auto)
  note f2 = this
  have e: "insert m (P1 - {n}) \<inter> P2 = {}" "insert m (P1 - {n}) \<union> P2 = insert m (P - {n})" using p(2,3) m(2) n1 by auto
  have "iforest (itree usable h' (Suc d)) (m # ks) (v # vs) xs (insert m (P - {n}))" unfolding p(1) e(2) [symmetric] by (rule iforest_ConsI [OF t f2 e(1)])
  moreover have "insert m P = insert n (insert m (P - {n}))" using n1 p(2) by auto
  ultimately show "itree usable h' (Suc (Suc d)) n xs (insert m P)" unfolding itree.simps(2) [of usable h' "Suc d"] using nd n
    by (intro exI [of _ "m # ks"] exI [of _ "v # vs"] exI [of _ "insert m (P - {n})"]) (simp del: itree.simps)
qed

lemma split_kids: "sibs \<noteq> [] \<Longrightarrow> map fst ((m, v) # map (\<lambda>(k, pg). (pg, k)) (butlast sibs)) @ [snd (last sibs)] = m # map snd sibs"
  "map snd ((m, v) # map (\<lambda>(k, pg). (pg, k)) (butlast sibs)) = v # map fst (butlast sibs)"
proof -
  have e: "map fst (map (\<lambda>(k, pg). (pg, k)) ys) = map snd ys" "map snd (map (\<lambda>(k, pg). (pg, k)) ys) = map fst ys" for ys :: "('c \<times> 'd) list" by (induction ys) auto
  show "map snd ((m, v) # map (\<lambda>(k, pg). (pg, k)) (butlast sibs)) = v # map fst (butlast sibs)" by (simp only: list.map e snd_conv)
  assume "sibs \<noteq> []"
  then have "map snd (butlast sibs) @ [snd (last sibs)] = map snd sibs" by (metis append_butlast_last_id list.map(1) list.map(2) map_append)
  then show "map fst ((m, v) # map (\<lambda>(k, pg). (pg, k)) (butlast sibs)) @ [snd (last sibs)] = m # map snd sibs" by (simp only: list.map e fst_conv append_Cons)
qed

lemma grow_index_root_runs:
  assumes hp: "pager_heap usable ps (k + 1) h s" and g: "igrown usable h (Suc d) n xs P (SplitUp sp)" and three: "length (siblings sp) \<le> 3"
    and ok: "list_all (idx_ok usable) xs"
  shows "runs (grow_index_root n sp) s (\<lambda>_ s'. \<exists>h' P'. pager_heap usable ps k h' s' \<and> replaces h P h' P' \<and> itree usable h' (Suc (Suc d)) n xs P')" (is "runs _ _ ?post")
proof -
  let ?ks = "map snd (siblings sp)" let ?v = "first_key sp" let ?vs = "map fst (butlast (siblings sp))"
  have f: "iforest (itree usable h (Suc d)) (n # ?ks) (?v # ?vs) xs P" and ne: "siblings sp \<noteq> []" using g by (simp_all del: itree.simps)
  note own = iforest_owned [OF f]
  have n: "n \<in> P" "n \<noteq> 1" using own by auto
  obtain b where b: "h n = Some b" using own n(1) by auto
  have okv: "list_all (idx_ok usable) (?v # ?vs)" using iforest_entries [OF f] ok by (auto simp: list_all_iff)
  have fits: "nsum (?v # ?vs) < usable - 12" using three ne by (intro nsum_three [OF okv _ pager_heap_sizes(2) [OF hp]]) (simp del: length_greater_0_conv add: Suc_leI)
  have lo: "last_of (siblings sp) = Ok (last (siblings sp))" using ne by (simp add: last_of_def)
  show ?thesis unfolding grow_index_root_def runs_sizes [OF hp] prod.case
  proof (rule runs_seq [OF ph.heap_rd [OF hp b]], elim conjE, goal_cases)
    case (1 x s1)
    have hp1: "pager_heap usable ps (Suc k) h s1" using 1(2) by simp
    have lb: "length x = ps" using 1(1,2) b by (simp add: pager_heap_def)
    show ?case
    proof (rule runs_seq [OF ph.heap_alloc [OF hp1]], elim conjE, goal_cases)
      case (1 m s2)
      have m: "m \<notin> dom h" "m \<noteq> 1" "m \<notin> P" "n \<noteq> m" using 1(1,2) own n(1) b by auto
      have md: "m \<in> dom (h(m \<mapsto> replicate ps 0))" by simp
      show ?case
      proof (rule runs_seq [OF ph.heap_wr [OF 1(3) md lb]], goal_cases)
        case (1 u s3)
        let ?h = "h(m \<mapsto> x)"
        have hp3: "pager_heap usable ps k ?h s3" using 1 by simp
        have nd: "n \<in> dom ?h" using b by auto
        let ?cells = "(m, ?v) # map (\<lambda>(k, pg). (pg, k)) (butlast (siblings sp))" let ?r = "snd (last (siblings sp))"
        have "runs (bindA (liftA (serialize_index_interior ps usable 0 ?cells ?r None)) (\<lambda>buf. bindA (write_page n buf) retA)) s3 ?post"
        proof (rule store_idx_node [OF hp3 nd n(2)], unfold split_kids(2) split_kids(1) [OF ne])
          show "list_all (idx_ok usable) (?v # ?vs)" by (rule okv)
          show "12 + nsum (?v # ?vs) \<le> usable" using fits by linarith
          fix bf s4
          assume a: "pager_heap usable ps k (?h(n \<mapsto> bf)) s4" "idx_node usable (?h(n \<mapsto> bf)) n (m # ?ks) (?v # ?vs)"
          have "(?h(n \<mapsto> bf)) m = h n" using m(4) \<open>x = b\<close> b by simp
          note hm = this
          have t: "itree usable (?h(n \<mapsto> bf)) (Suc (Suc d)) n xs (insert m P)" by (rule grown_idx_root(1) [where h = h, OF f m(2,3) hm _ a(2) m(4)]) (use m(3) in auto)
          have P: "P \<subseteq> dom h" using own by blast
          have r1: "replaces h P ?h (insert m P)" using replaces_frame(1) [OF replaces_new [OF m(1,2)] P] by simp
          have r2: "replaces ?h (insert m P) (?h(n \<mapsto> bf)) (insert m P)"
          proof -
            have "insert m (P - {n}) \<subseteq> dom ?h" "insert m (P - {n}) \<inter> {n} = {}" using P m(4) by auto
            from replaces_frame(1) [OF write_replaces [OF nd n(2)] this, of bf] show ?thesis using n(1) m(4) by (simp add: insert_commute insert_absorb)
          qed
          show "runs (retA ()) s4 ?post" using a(1) t replaces_trans [OF r1 r2] by (intro runs_ret exI [of _ "?h(n \<mapsto> bf)"] exI [of _ "insert m P"] conjI)
        qed
        then show ?case unfolding lo bindA_lift_Ok Let_def bindA_retA .
      qed
    qed
  qed
qed

section \<open>A leaf root that overflowed\<close>

lemma deepen_index_root_runs:
  assumes hp: "pager_heap usable ps (k + 4) h s" and n: "n \<in> dom h" "n \<noteq> 1" and xs: "xs \<noteq> []" "list_all (idx_ok usable) xs" "rsum xs < 2 * (usable - 8)"
  shows "runs (deepen_index_root n xs) s (\<lambda>_ s'. \<exists>h' P'. pager_heap usable ps k h' s' \<and> replaces h {n} h' P' \<and> itree usable h' 1 n xs P')" (is "runs _ _ ?post")
proof -
  have hp1: "pager_heap usable ps (Suc (k + (2 * 1 + 1))) h s" using hp by (simp add: numeral_eq_Suc)
  have seeds: "seeds_ok (map (\<lambda>(_, c). length c) xs) 0 [length xs]" by (simp add: seeds_ok_def start_of_def)
  have rs: "rsum xs < (1 + 1) * (usable - 8)" using xs(3) by simp
  show ?thesis unfolding deepen_index_root_def runs_sizes [OF hp] prod.case
  proof (rule runs_seq [OF ph.heap_alloc [OF hp1]], elim conjE, goal_cases)
    case (1 m s1)
    let ?h = "h(m \<mapsto> replicate ps 0)"
    have m: "m \<notin> dom h" "m \<noteq> 1" using 1(1,2) by auto
    have old: "distinct [m]" "set [m] \<subseteq> dom ?h" "1 \<notin> set [m]" using m by auto
    show ?case
    proof (rule runs_seq [OF balance_index_pooled_runs [OF 1(3) old xs(1,2) seeds rs]], goal_cases)
      case (1 x s2)
      then obtain kept divs h2 where x: "x = (kept, divs)" "pager_heap usable ps k h2 s2" "replaces ?h {m} h2 (set kept)" "1 \<notin> set kept" "length kept \<le> 3"
        "iforest (itree usable h2 0) kept divs xs (set kept)" by (cases x) auto
      have r: "replaces h {} h2 (set kept)" by (rule replaces_trans [OF replaces_new [OF m] x(3)])
      have "{n} \<subseteq> dom h" "{n} \<inter> {} = {}" using n by auto
      note fr = replaces_frame [OF r this]
      have nd: "n \<in> dom h2" "n \<notin> set kept" using fr(2) [of n] fr(3) n(1) by (auto simp: domIff)
      have len: "length kept = length divs + 1" by (rule iforest_length [OF x(6)])
      note z = zip_last [OF len]
      have okd: "list_all (idx_ok usable) divs" using iforest_entries [OF x(6)] xs(2) by (auto simp: list_all_iff)
      have fits: "nsum divs < usable - 12" using x(5) len by (intro nsum_three [OF okd _ pager_heap_sizes(2) [OF hp]]) simp
      have "runs (bindA (liftA (serialize_index_interior ps usable 0 (zip kept divs) (last kept) None)) (\<lambda>buf. bindA (write_page n buf) retA)) s2 ?post"
      proof (rule store_idx_node [OF x(2) nd(1) n(2)], unfold z)
        show "list_all (idx_ok usable) divs" by (rule okd)
        show "12 + nsum divs \<le> usable" using fits by linarith
        fix bf s3
        assume a: "pager_heap usable ps k (h2(n \<mapsto> bf)) s3" "idx_node usable (h2(n \<mapsto> bf)) n kept divs"
        have "iforest (itree usable (h2(n \<mapsto> bf)) 0) kept divs xs (set kept)" by (rule iforest_cong [OF x(6)]) (use nd(2) in auto)
        then have t: "itree usable (h2(n \<mapsto> bf)) 1 n xs (insert n (set kept))" unfolding One_nat_def itree.simps(2) [of usable _ 0] using a(2) nd(2) by blast
        have "set kept \<subseteq> dom h2" "set kept \<inter> {n} = {}" using r nd(2) by (auto simp: replaces_def)
        from replaces_frame(1) [OF write_replaces [OF nd(1) n(2)] this, of bf] have "replaces h2 (insert n (set kept)) (h2(n \<mapsto> bf)) (insert n (set kept))" by simp
        moreover have "replaces h {n} h2 (insert n (set kept))" using fr(1) by (simp add: Un_commute)
        ultimately have "replaces h {n} (h2(n \<mapsto> bf)) (insert n (set kept))" by (metis replaces_trans)
        then show "runs (retA ()) s3 ?post" using a(1) t by (intro runs_ret exI [of _ "h2(n \<mapsto> bf)"] exI [of _ "insert n (set kept)"] conjI)
      qed
      then show ?case unfolding x(1) prod.case interior_cells_Ok [OF len] bindA_lift_Ok bindA_retA .
    qed
  qed
qed

end
