(* ===== verification/IndexRows.thy ===== *)
theory IndexRows
  imports IndexRoot
begin

text \<open>
  An index as the list of its entries (\<open>index_rows\<close>): its tree, and the pages that hold the
  overflowing parts of its records. \<open>insert_index\<close> (\<open>src/btree/index_writer.rs\<close>) implements the insertion
  into the list.
\<close>

definition index_rows :: "nat \<Rightarrow> pages \<Rightarrow> nat \<Rightarrow> u32 \<Rightarrow> idx_key list \<Rightarrow> u32 set \<Rightarrow> u32 set \<Rightarrow> bool" where
  "index_rows usable h d root xs T S \<longleftrightarrow> itree usable h d root xs T \<and> S \<subseteq> dom h \<and> 1 \<notin> S \<and> S \<inter> T = {} \<and>
    (\<forall>e \<in> set xs. idx_holds usable (h |` S) e)"

text \<open>The pages that an insertion may take: the chain of the record, four at the root, and ten for each level.\<close>

definition index_room :: "nat \<Rightarrow> nat \<Rightarrow> nat \<Rightarrow> nat" where
  "index_room usable d n = idx_spill usable n + (4 + ins_room d)"

lemma insert_idx_root_runs:
  assumes hp: "pager_heap usable ps (k + (4 + ins_room d)) h s" and enc: "enc_is enc s" and t: "itree usable h d root xs T"
    and holds: "\<And>e. e \<in> set xs \<Longrightarrow> idx_holds usable h e" and cmp: "cmp_ok reg target enc colls descs c xs" and new: "idx_ok usable (target, rcell)" and d: "d < MAX_DEPTH"
  shows "runs (bindA (insert_index_rec MAX_DEPTH reg colls descs root target rcell) (\<lambda>up. case up of
      Fit \<Rightarrow> retA () | SplitUp s \<Rightarrow> grow_index_root root s | LeafOverfull entries \<Rightarrow> deepen_index_root root entries)) s
    (\<lambda>_ s'. \<exists>h' d' T'. pager_heap usable ps k h' s' \<and> replaces h T h' T' \<and> d' \<le> Suc d \<and> itree usable h' d' root (idx_ins c (target, rcell) xs) T')" (is "runs _ _ ?post")
proof -
  let ?xs = "idx_ins c (target, rcell) xs"
  have hp': "pager_heap usable ps ((k + 4) + ins_room d) h s" using hp by (simp add: ac_simps)
  have ok: "list_all (idx_ok usable) ?xs" using itree_ok [OF t] new idx_ins_set [of c "(target, rcell)" xs] by (auto simp: list_all_iff)
  show ?thesis
  proof (rule runs_seq [OF insert_index_rec_runs [OF hp' enc t _ cmp new d]], rule holds, assumption, goal_cases)
    case (1 up s1)
    show ?case
    proof (cases up)
      case Fit
      then obtain h' T' where h': "pager_heap usable ps (k + 4) h' s1" "replaces h T h' T'" "itree usable h' d root ?xs T'"
        using 1 by (auto simp: index_post_def ilevel_post_def)
      then show ?thesis unfolding Fit up.case using pager_heap_less [OF h'(1), of k] by (intro runs_ret exI [of _ h'] exI [of _ d] exI [of _ T'] conjI) simp_all
    next
      case (LeafOverfull es)
      then have e: "d = 0" "es = ?xs" "?xs \<noteq> []" "pager_heap usable ps (k + 4) h s1" using 1 by (auto simp: index_post_def)
      have l: "idx_leaf usable h root xs" "T = {root}" using t e(1) by auto
      have r: "root \<in> dom h" "root \<noteq> 1" "8 + rsum xs \<le> usable" using l(1) by (auto simp: idx_leaf_def)
      have "3 * (length rcell + 2) < usable - 12" using idx_ok_len [OF new pager_heap_sizes(2) [OF hp]] by (simp add: idx_cell_len_def)
      then have "rsum ?xs < 2 * (usable - 8)" using idx_ins_sum [of c "(target, rcell)" xs] r(3) by (simp add: case_prod_unfold)
      from deepen_index_root_runs [OF e(4) r(1,2) e(3) ok this]
      have "runs (deepen_index_root root ?xs) s1 ?post" by (rule runs_conseq) (use e(1) l(2) in \<open>auto simp del: itree.simps\<close>)
      then show ?thesis unfolding LeafOverfull up.case e(2) .
    next
      case (SplitUp sp)
      then obtain h' T' where h': "pager_heap usable ps (k + 4) h' s1" "replaces h T h' T'" "igrown usable h' d root ?xs T' (SplitUp sp)" "length (siblings sp) \<le> 3" "d \<noteq> 0"
        using 1 by (auto simp: index_post_def ilevel_post_def simp del: igrown.simps)
      then obtain d0 where d0: "d = Suc d0" by (cases d) auto
      have hp1: "pager_heap usable ps (k + 1) h' s1" by (rule pager_heap_less [OF h'(1)]) simp
      from grow_index_root_runs [OF hp1 h'(3) [unfolded d0] h'(4) ok]
      have "runs (grow_index_root root sp) s1 ?post"
      proof (rule runs_conseq, elim exE conjE)
        fix y s' h2 P2
        assume "pager_heap usable ps k h2 s'" "replaces h' T' h2 P2" "itree usable h2 (Suc (Suc d0)) root ?xs P2"
        then show "?post y s'" using replaces_trans [OF h'(2)] d0 by (intro exI [of _ h2] exI [of _ "Suc d"] exI [of _ P2] conjI) (simp_all del: itree.simps)
      qed
      then show ?thesis unfolding SplitUp up.case .
    qed
  qed
qed

lemma rows_inserted:
  assumes rows: "index_rows usable h d root xs T S" and r1: "replaces h {} h1 S1" "1 \<notin> S1" and new: "idx_holds usable (h1 |` S1) (target, rcell)"
    and r2: "replaces h1 T h2 T2" and t: "itree usable h2 d2 root (idx_ins c (target, rcell) xs) T2"
  shows "index_rows usable h2 d2 root (idx_ins c (target, rcell) xs) T2 (S \<union> S1)" and "replaces h (T \<union> S) h2 (T2 \<union> (S \<union> S1))"
proof -
  have R: "itree usable h d root xs T" "S \<subseteq> dom h" "1 \<notin> S" "S \<inter> T = {}" "\<And>e. e \<in> set xs \<Longrightarrow> idx_holds usable (h |` S) e" using rows by (auto simp: index_rows_def)
  have T: "T \<subseteq> dom h" using itree_pages [OF R(1)] by blast
  have TS: "T \<union> S \<subseteq> dom h" "(T \<union> S) \<inter> {} = {}" using T R(2) by auto
  note f1 = replaces_frame [OF r1(1) TS]
  have s1: "S \<union> S1 \<subseteq> dom h1" "(S \<union> S1) \<inter> T = {}" using f1(3) r1(1) R(2,4) by (auto simp: replaces_def)
  note f2 = replaces_frame [OF r2 s1]
  have m1: "h |` S \<subseteq>\<^sub>m h2 |` (S \<union> S1)" using f1(2) f2(2) by (auto simp: map_le_def restrict_map_def)
  have m2: "h1 |` S1 \<subseteq>\<^sub>m h2 |` (S \<union> S1)" using f2(2) by (auto simp: map_le_def restrict_map_def)
  have "idx_holds usable (h2 |` (S \<union> S1)) e" if "e \<in> set (idx_ins c (target, rcell) xs)" for e
    using that idx_ins_set [of c "(target, rcell)" xs] idx_holds_mono [OF R(5) m1] idx_holds_mono [OF new m2] by blast
  moreover have "S \<union> S1 \<subseteq> dom h2" using f2(1) by (auto simp: replaces_def)
  ultimately show "index_rows usable h2 d2 root (idx_ins c (target, rcell) xs) T2 (S \<union> S1)" using t f2(3) R(3) r1(2) by (auto simp: index_rows_def)
  have "replaces h1 (S1 \<union> (T \<union> S)) h2 (T2 \<union> (S \<union> S1))" using f2(1) by (simp add: ac_simps)
  with f1(1) show "replaces h (T \<union> S) h2 (T2 \<union> (S \<union> S1))" by (auto intro: replaces_trans)
qed

lemma insert_index_runs:
  assumes hp: "pager_heap usable ps (k + index_room usable d (length target)) h s" and enc: "enc_is enc s" and rows: "index_rows usable h d root xs T S"
    and cmp: "cmp_ok reg target enc colls descs c xs" and d: "d < MAX_DEPTH" and len: "length target < 2 ^ 64"
  shows "runs (insert_index reg root target colls descs) s (\<lambda>_ s'. \<exists>h' d' T' S' rc. pager_heap usable ps k h' s' \<and> enc_is enc s' \<and> d' \<le> Suc d \<and>
    index_rows usable h' d' root (idx_ins c (target, rc) xs) T' S' \<and> replaces h (T \<union> S) h' (T' \<union> S'))" (is "runs _ _ ?post")
proof -
  have R: "itree usable h d root xs T" "S \<subseteq> dom h" "\<And>e. e \<in> set xs \<Longrightarrow> idx_holds usable (h |` S) e" using rows by (auto simp: index_rows_def)
  have T: "T \<subseteq> dom h" using itree_pages [OF R(1)] by blast
  have hp': "pager_heap usable ps ((k + (4 + ins_room d)) + idx_spill usable (length target)) h s" using hp by (simp add: index_room_def ac_simps)
  have "runs (insert_index reg root target colls descs) s (\<lambda>_ s'. \<exists>h' d' T' S' rc. pager_heap usable ps k h' s' \<and> d' \<le> Suc d \<and>
    index_rows usable h' d' root (idx_ins c (target, rc) xs) T' S' \<and> replaces h (T \<union> S) h' (T' \<union> S'))" unfolding insert_index_def
  proof (rule runs_seq [OF runs_keeps [OF build_index_rcell_runs [OF hp' len] enc_rcell enc]], elim conjE exE, goal_cases)
    case (1 rc s1 h1 S1)
    have T1: "itree usable h1 d root xs T" by (rule itree_cong [OF R(1)]) (use replaces_frame(2) [OF 1(3) T] in simp)
    have "h |` S \<subseteq>\<^sub>m h1" using replaces_frame(2) [OF 1(3) R(2)] by (auto simp: map_le_def restrict_map_def)
    then have hold: "idx_holds usable h1 e" if "e \<in> set xs" for e using idx_holds_mono R(3) [OF that] by blast
    show ?case
      by (rule runs_conseq [OF insert_idx_root_runs [OF 1(2,1) T1 hold cmp idx_holds_ok [OF 1(5)] d]], assumption)
        (elim exE conjE, use rows_inserted [OF rows 1(3,4,5)] in blast)
  qed
  from runs_keeps [OF this enc_insert_index enc] show ?thesis by (rule runs_conseq) blast
qed

section \<open>A new index\<close>

lemma create_index_root_runs:
  assumes "pager_heap usable ps (Suc k) h s"
  shows "runs create_index_root s (\<lambda>root s'. \<exists>h'. pager_heap usable ps k h' s' \<and> index_rows usable h' 0 root [] {root} {} \<and> root \<notin> dom h \<and> replaces h {} h' {root})"
  unfolding create_index_root_def runs_sizes [OF assms] prod.case
proof (rule runs_seq [OF ph.heap_alloc [OF assms]], elim conjE, goal_cases)
  case (1 n s1)
  have n: "n \<in> dom (h(n \<mapsto> replicate ps 0))" "n \<noteq> 1" using 1(2) by auto
  have u: "8 + rsum [] \<le> usable" using pager_heap_sizes(2) [OF assms] by simp
  have "runs (bindA (liftA (serialize_index_leaf ps usable 0 (rcells []) None)) (\<lambda>buf. bindA (write_page n buf) (\<lambda>_. retA n))) s1
    (\<lambda>root s'. \<exists>h'. pager_heap usable ps k h' s' \<and> index_rows usable h' 0 root [] {root} {} \<and> root \<notin> dom h \<and> replaces h {} h' {root})"
  proof (rule store_idx_leaf [OF 1(3) n _ u], simp, rule runs_ret)
    fix b s'
    assume a: "pager_heap usable ps k (h(n \<mapsto> replicate ps 0, n \<mapsto> b)) s'" "idx_leaf usable (h(n \<mapsto> replicate ps 0, n \<mapsto> b)) n []"
    then show "\<exists>h'. pager_heap usable ps k h' s' \<and> index_rows usable h' 0 n [] {n} {} \<and> n \<notin> dom h \<and> replaces h {} h' {n}"
      using replaces_new [OF 1(1) n(2)] 1(1) by (intro exI [of _ "h(n \<mapsto> b)"]) (simp add: index_rows_def)
  qed
  then show ?case by (simp add: rcells_def)
qed

end
