(* ===== verification/IndexOrder.thy ===== *)
theory IndexOrder
  imports IndexRows
begin

text \<open>
  The order of index records (\<open>cmp_records\<close> of \<open>src/btree/index_writer.rs\<close>): columns from the left, each with
  its collation and direction, then the number of columns. With built-in collations and no NaN it is a
  strict order, so a sorted index stays sorted under insertion and every search key is ranked along it.
\<close>

definition row_cmp :: "registry \<Rightarrow> collation list \<Rightarrow> bool list \<Rightarrow> nat \<Rightarrow> sqlvalue list \<Rightarrow> sqlvalue list \<Rightarrow> ordering" where
  "row_cmp reg colls descs i a b =
    (if cmp_columns reg colls descs i a b \<noteq> Equal then cmp_columns reg colls descs i a b else cmp_lin (length a) (length b))"

lemma row_cmp_simps:
  "row_cmp reg colls descs i [] [] = Equal" "row_cmp reg colls descs i [] (r # rs) = Less" "row_cmp reg colls descs i (k # ks) [] = Greater"
  "row_cmp reg colls descs i (k # ks) (r # rs) =
    (if col_cmp reg colls descs i k r \<noteq> Equal then col_cmp reg colls descs i k r else row_cmp reg colls descs (i + 1) ks rs)"
  by (simp_all add: row_cmp_def cmp_lin_def col_cmp_def Let_def)

lemma cmp_records_row:
  "decode_record a enc = Ok va \<Longrightarrow> decode_record b enc = Ok vb \<Longrightarrow> cmp_records reg a b enc colls descs = Ok (row_cmp reg colls descs 0 va vb)"
  by (simp add: cmp_records_def row_cmp_def Let_def)

lemma col_cmp_flip:
  assumes "list_all builtin_collation colls" and "\<not> is_nan_value x" and "\<not> is_nan_value y"
  shows "col_cmp reg colls descs i y x = reverse_ordering (col_cmp reg colls descs i x y)"
  using assms coll_at_builtin [OF assms(1), of i] by (auto simp: col_cmp_def cmp_values_coll_key cmp_lin_def)

lemma row_cmp_flip:
  assumes "list_all builtin_collation colls" and "no_nan a" and "no_nan b"
  shows "row_cmp reg colls descs i b a = reverse_ordering (row_cmp reg colls descs i a b)"
  using assms(2,3)
proof (induction a b arbitrary: i rule: list_induct2')
  case (4 x xs y ys)
  have "col_cmp reg colls descs i y x = reverse_ordering (col_cmp reg colls descs i x y)"
    by (rule col_cmp_flip [OF assms(1)]) (use 4 in \<open>auto simp: no_nan_def\<close>)
  moreover have "row_cmp reg colls descs (i + 1) ys xs = reverse_ordering (row_cmp reg colls descs (i + 1) xs ys)" using 4 by (auto simp: no_nan_def)
  ultimately show ?case by (cases "col_cmp reg colls descs i x y") (auto simp: row_cmp_simps)
qed (simp_all add: row_cmp_simps)

lemma row_cmp_trans:
  assumes "list_all builtin_collation colls" and "no_nan t" and "no_nan a" and "no_nan b"
    and "row_cmp reg colls descs i a b = Less" and "row_cmp reg colls descs i t a \<noteq> Greater"
  shows "row_cmp reg colls descs i t b = Less"
  using assms(2-6)
proof (induction t arbitrary: i a b)
  case Nil
  then show ?case by (cases a; cases b) (auto simp: row_cmp_simps)
next
  case (Cons k ks)
  obtain x xs where a: "a = x # xs" using Cons.prems(5) by (cases a) (auto simp: row_cmp_simps)
  obtain y ys where b: "b = y # ys" using Cons.prems(4) a by (cases b) (auto simp: row_cmp_simps)
  have n: "\<not> is_nan_value k" "\<not> is_nan_value x" "\<not> is_nan_value y" "no_nan ks" "no_nan xs" "no_nan ys" using Cons.prems(1-3) a b by (auto simp: no_nan_def)
  note tr = col_cmp_trans [OF assms(1) n(1-3), of reg descs i]
  show ?case
  proof (cases "col_cmp reg colls descs i x y")
    case Less
    have "col_cmp reg colls descs i k x \<noteq> Greater" using Cons.prems(5) unfolding a row_cmp_simps by (auto split: if_splits)
    from tr(1) [OF Less this] show ?thesis unfolding b row_cmp_simps by simp
  next
    case Equal
    have ab: "row_cmp reg colls descs (i + 1) xs ys = Less" using Cons.prems(4) Equal unfolding a b row_cmp_simps by simp
    show ?thesis
    proof (cases "col_cmp reg colls descs i k x = Equal")
      case True
      then have "row_cmp reg colls descs (i + 1) ks xs \<noteq> Greater" using Cons.prems(5) unfolding a row_cmp_simps by simp
      from Cons.IH [OF n(4-6) ab this] show ?thesis using True tr(2) [OF Equal] unfolding b row_cmp_simps by simp
    next
      case False
      then have "col_cmp reg colls descs i k x = Less" using Cons.prems(5) unfolding a row_cmp_simps by (cases "col_cmp reg colls descs i k x") auto
      then show ?thesis using tr(2) [OF Equal] unfolding b row_cmp_simps by simp
    qed
  next
    case Greater
    then show ?thesis using Cons.prems(4) unfolding a b row_cmp_simps by simp
  qed
qed

section \<open>Sorted indexes\<close>

text \<open>The records of an index in order: they decode, hold no NaN, and each is less than those after it.\<close>

definition recs_sorted :: "registry \<Rightarrow> text_encoding \<Rightarrow> collation list \<Rightarrow> bool list \<Rightarrow> bytes list \<Rightarrow> bool" where
  "recs_sorted reg enc colls descs rs \<longleftrightarrow> (\<forall>r \<in> set rs. \<exists>v. decode_record r enc = Ok v \<and> no_nan v) \<and>
    sorted_wrt (\<lambda>a b. cmp_records reg a b enc colls descs = Ok Less) rs"

text \<open>Inserting a record into a sorted list of records.\<close>

definition rec_cmp :: "registry \<Rightarrow> text_encoding \<Rightarrow> collation list \<Rightarrow> bool list \<Rightarrow> bytes \<Rightarrow> bytes \<Rightarrow> ordering" where
  "rec_cmp reg enc colls descs t r = (case cmp_records reg t r enc colls descs of Ok c \<Rightarrow> c | _ \<Rightarrow> Less)"

definition rec_insert :: "registry \<Rightarrow> text_encoding \<Rightarrow> collation list \<Rightarrow> bool list \<Rightarrow> bytes \<Rightarrow> bytes list \<Rightarrow> bytes list" where
  "rec_insert reg enc colls descs t rs =
    (if \<exists>r \<in> set rs. rec_cmp reg enc colls descs t r = Equal then rs
     else filter (\<lambda>r. rec_cmp reg enc colls descs t r = Greater) rs @ t # filter (\<lambda>r. rec_cmp reg enc colls descs t r = Less) rs)"

lemma sorted_cmp_ok:
  assumes "recs_sorted reg enc colls descs (map fst xs)" and "list_all builtin_collation colls" and "decode_record t enc = Ok v" and "no_nan v"
  shows "cmp_ok reg t enc colls descs (\<lambda>e. rec_cmp reg enc colls descs t (fst e)) xs"
proof -
  have row: "cmp_records reg t r enc colls descs = Ok (rec_cmp reg enc colls descs t r) \<and> (\<exists>w. decode_record r enc = Ok w \<and> no_nan w \<and> rec_cmp reg enc colls descs t r = row_cmp reg colls descs 0 v w)"
    if r: "r \<in> set (map fst xs)" for r
  proof -
    obtain w where w: "decode_record r enc = Ok w" "no_nan w" using assms(1) r unfolding recs_sorted_def by blast
    then show ?thesis using cmp_records_row [OF assms(3) w(1), of reg colls descs] by (simp add: rec_cmp_def)
  qed
  have le: "rank (rec_cmp reg enc colls descs t a) \<le> rank (rec_cmp reg enc colls descs t b)"
    if ab: "a \<in> set (map fst xs)" "b \<in> set (map fst xs)" "cmp_records reg a b enc colls descs = Ok Less" for a b
  proof -
    obtain wa where wa: "decode_record a enc = Ok wa" "no_nan wa" "rec_cmp reg enc colls descs t a = row_cmp reg colls descs 0 v wa"
      using row [OF ab(1)] by (elim conjE exE)
    obtain wb where wb: "decode_record b enc = Ok wb" "no_nan wb" "rec_cmp reg enc colls descs t b = row_cmp reg colls descs 0 v wb"
      using row [OF ab(2)] by (elim conjE exE)
    note w = wa wb
    have "row_cmp reg colls descs 0 wa wb = Less" using ab(3) cmp_records_row [OF w(1,4), of reg colls descs] by simp
    from row_cmp_trans [OF assms(2,4) w(2,5) this] have "row_cmp reg colls descs 0 v wa \<noteq> Greater \<Longrightarrow> row_cmp reg colls descs 0 v wb = Less" .
    moreover have "rank q \<le> 2" for q by (cases q) auto
    ultimately show ?thesis unfolding w(3,6) by (cases "row_cmp reg colls descs 0 v wa") auto
  qed
  have "sorted_wrt (\<lambda>a b. rank (rec_cmp reg enc colls descs t a) \<le> rank (rec_cmp reg enc colls descs t b)) (map fst xs)"
    by (rule sorted_wrt_mono_rel [rotated, OF conjunct2 [OF assms(1) [unfolded recs_sorted_def]]]) (rule le)
  then have "ranked (\<lambda>e. rec_cmp reg enc colls descs t (fst e)) xs" by (simp add: ranked_def sorted_wrt_map)
  then show ?thesis using row by (auto simp: cmp_ok_def)
qed

text \<open>Along ranked entries, the smaller ones come first.\<close>

lemma ranked_split:
  assumes "ranked c xs" and "\<not> (\<exists>e \<in> set xs. c e = Equal)"
  shows "takeWhile (\<lambda>e. c e = Greater) xs = filter (\<lambda>e. c e = Greater) xs" and "dropWhile (\<lambda>e. c e = Greater) xs = filter (\<lambda>e. c e = Less) xs"
proof -
  have "takeWhile (\<lambda>e. c e = Greater) xs = filter (\<lambda>e. c e = Greater) xs \<and> dropWhile (\<lambda>e. c e = Greater) xs = filter (\<lambda>e. c e = Less) xs" using assms
  proof (induction xs)
    case (Cons x xs)
    show ?case
    proof (cases "c x")
      case Less
      have "\<forall>e \<in> set xs. c e = Less" using ranked_below [OF Cons.prems(1) Less] by blast
      then have "filter (\<lambda>e. c e = Less) xs = xs" "filter (\<lambda>e. c e = Greater) xs = []" by (auto simp: filter_id_conv filter_empty_conv)
      then show ?thesis using Less by simp
    qed (use Cons in \<open>auto simp: ranked_Cons\<close>)
  qed simp
  then show "takeWhile (\<lambda>e. c e = Greater) xs = filter (\<lambda>e. c e = Greater) xs" and "dropWhile (\<lambda>e. c e = Greater) xs = filter (\<lambda>e. c e = Less) xs" by auto
qed

lemma idx_ins_records:
  assumes "cmp_ok reg t enc colls descs (\<lambda>e. rec_cmp reg enc colls descs t (fst e)) xs"
  shows "map fst (idx_ins (\<lambda>e. rec_cmp reg enc colls descs t (fst e)) (t, rc) xs) = rec_insert reg enc colls descs t (map fst xs)"
proof (cases "\<exists>e \<in> set xs. rec_cmp reg enc colls descs t (fst e) = Equal")
  case True
  then have "\<exists>r \<in> set (map fst xs). rec_cmp reg enc colls descs t r = Equal" by simp
  then show ?thesis unfolding idx_ins_def rec_insert_def if_P [OF True] by simp
next
  case False
  have rk: "ranked (\<lambda>e. rec_cmp reg enc colls descs t (fst e)) xs" using assms by (simp add: cmp_ok_def)
  have "\<not> (\<exists>r \<in> set (map fst xs). rec_cmp reg enc colls descs t r = Equal)" using False by simp
  then show ?thesis unfolding idx_ins_def rec_insert_def if_not_P [OF False] ranked_split [OF rk False] by (simp add: filter_map comp_def)
qed

lemma rec_insert_sorted:
  assumes "recs_sorted reg enc colls descs rs" and "list_all builtin_collation colls" and "decode_record t enc = Ok v" and "no_nan v"
  shows "recs_sorted reg enc colls descs (rec_insert reg enc colls descs t rs)"
proof (cases "\<exists>r \<in> set rs. rec_cmp reg enc colls descs t r = Equal")
  case True
  then show ?thesis using assms(1) by (simp add: rec_insert_def)
next
  case False
  have row: "\<exists>w. decode_record r enc = Ok w \<and> no_nan w \<and> rec_cmp reg enc colls descs t r = row_cmp reg colls descs 0 v w \<and>
    cmp_records reg r t enc colls descs = Ok (reverse_ordering (rec_cmp reg enc colls descs t r)) \<and> cmp_records reg t r enc colls descs = Ok (rec_cmp reg enc colls descs t r)"
    if "r \<in> set rs" for r
  proof -
    obtain w where w: "decode_record r enc = Ok w" "no_nan w" using assms(1) \<open>r \<in> set rs\<close> unfolding recs_sorted_def by blast
    show ?thesis using cmp_records_row [OF assms(3) w(1), of reg colls descs] cmp_records_row [OF w(1) assms(3), of reg colls descs] row_cmp_flip [OF assms(2,4) w(2), of reg descs 0] w
      by (simp add: rec_cmp_def)
  qed
  let ?l = "filter (\<lambda>r. rec_cmp reg enc colls descs t r = Greater) rs" let ?g = "filter (\<lambda>r. rec_cmp reg enc colls descs t r = Less) rs"
  have s: "sorted_wrt (\<lambda>a b. cmp_records reg a b enc colls descs = Ok Less) rs" using assms(1) by (simp add: recs_sorted_def)
  have cross: "cmp_records reg a b enc colls descs = Ok Less" if ab: "a \<in> set ?l" "b \<in> set ?g" for a b
  proof -
    obtain wa wb where w: "decode_record a enc = Ok wa" "no_nan wa" "cmp_records reg a t enc colls descs = Ok Less" "decode_record b enc = Ok wb" "no_nan wb" "cmp_records reg t b enc colls descs = Ok Less"
      using row [of a] row [of b] ab by force
    have "row_cmp reg colls descs 0 wa v = Less" "row_cmp reg colls descs 0 v wb = Less"
      using w(3,6) cmp_records_row [OF w(1) assms(3), of reg colls descs] cmp_records_row [OF assms(3) w(4), of reg colls descs] by simp_all
    then have "row_cmp reg colls descs 0 wa wb = Less" using row_cmp_trans [OF assms(2) w(2) assms(4) w(5)] by simp
    then show ?thesis using cmp_records_row [OF w(1,4), of reg colls descs] by simp
  qed
  have "cmp_records reg a t enc colls descs = Ok Less" if "a \<in> set ?l" for a using row [of a] that by auto
  moreover have "cmp_records reg t b enc colls descs = Ok Less" if "b \<in> set ?g" for b using row [of b] that by auto
  ultimately have "sorted_wrt (\<lambda>a b. cmp_records reg a b enc colls descs = Ok Less) (?l @ t # ?g)"
    using cross s by (auto simp: sorted_wrt_append sorted_wrt_filter)
  moreover have "\<exists>w. decode_record r enc = Ok w \<and> no_nan w" if "r \<in> set (?l @ t # ?g)" for r using that row [of r] assms(3,4) by auto
  ultimately show ?thesis using False unfolding rec_insert_def recs_sorted_def if_not_P [OF False] by blast
qed

end
