(* ===== verification/TableRead.thy ===== *)
theory TableRead
  imports TableRows
begin

text \<open>
  Reading tables back. The pages of a table tree form a search tree in the sense of the cursors, so a
  cursor (\<open>src/btree/cursor.rs\<close>) that seeks a rowid over the write pager finds the row that \<open>insert_table\<close>
  (\<open>src/btree/writer.rs\<close>) put there, with its payload.
\<close>

section \<open>Table trees are search trees\<close>

text \<open>A slot of a leaf that parses to a cell.\<close>

definition frame_shows :: "nat \<Rightarrow> frame \<Rightarrow> leaf_cell \<Rightarrow> bool" where
  "frame_shows usable x c \<longleftrightarrow> (\<exists>cell loc. table_leaf_cell (fst x) (snd x) usable = Ok cell \<and> cell_rowid cell = fst c \<and>
    leaf_parts usable (snd c) = Some (fst c, total_len (cell_payload cell), loc, overflow (cell_payload cell)) \<and>
    slice (bt_data (fst x)) (local_offset (cell_payload cell)) (local_offset (cell_payload cell) + local_len (cell_payload cell)) = Ok loc)"

lemma frame_key: "frame_shows usable x c \<Longrightarrow> row_key usable x = ckey c" "frame_shows usable x c \<Longrightarrow> is_ok (table_leaf_cell (fst x) (snd x) usable)"
  by (auto simp: frame_shows_def row_key_def ckey_def is_ok_iff)

lemma frames_keys: "list_all2 (frame_shows usable) fs xs \<Longrightarrow> map (row_key usable) fs = map ckey xs"
  by (induction rule: list_all2_induct) (simp_all add: frame_key)

definition shows_tree :: "nat \<Rightarrow> (u32 \<Rightarrow> page option) \<Rightarrow> nat \<Rightarrow> u32 \<Rightarrow> ptree \<Rightarrow> leaf_cell list \<Rightarrow> u32 set \<Rightarrow> bool" where
  "shows_tree usable st d n t xs P \<longleftrightarrow> tree_at st n t \<and> search_tree usable t \<and> height t \<le> d \<and> list_all2 (frame_shows usable) (slots t) xs \<and>
    finite P \<and> leaves t \<le> card P"

definition holds_pages :: "(u32 \<Rightarrow> page option) \<Rightarrow> pages \<Rightarrow> bool" where
  "holds_pages st h \<longleftrightarrow> (\<forall>n b. h n = Some b \<longrightarrow> st n = Some (page_from_bytes n b))"

lemma leaf_shows:
  assumes st: "holds_pages st h" and l: "leaf_page usable h n xs" "between lo hi xs"
  shows "\<exists>t. shows_tree usable st 0 n t xs {n}"
proof -
  obtain b where b: "h n = Some b" "page_image b (root_body n) LeafTable (map snd xs)" "list_all (leaf_cell_ok usable) xs"
    using l(1) by (auto simp: leaf_page_def)
  obtain rp where rp: "btree_page_parse (page_from_bytes n b) = Ok \<lparr>bt_page = page_from_bytes n b, bt_type = LeafTable, bt_body = root_body n,
      num_cells = length xs, right_pointer = rp\<rparr>"
    using page_image_parse [OF b(2) body_offset_root] by auto
  let ?bt = "\<lparr>bt_page = page_from_bytes n b, bt_type = LeafTable, bt_body = root_body n, num_cells = length xs, right_pointer = rp\<rparr>"
  have d: "bt_data ?bt = b" by (simp add: page_from_bytes_def)
  have img: "page_image (bt_data ?bt) (bt_body ?bt) (bt_type ?bt) (map snd xs)" unfolding d using b(2) by simp
  have "frame_shows usable (?bt, i) (xs ! i)" if i: "i < length xs" for i
  proof -
    obtain tot loc ov where p: "leaf_parts usable (map snd xs ! i) = Some (fst (xs ! i), tot, loc, ov)"
      using b(3) i by (auto simp: list_all_length leaf_cell_ok_def split: option.splits prod.splits)
    from leaf_image_cell [OF img _ _ _ p] i show ?thesis using p by (auto simp: frame_shows_def)
  qed
  then have la: "list_all2 (frame_shows usable) (slots (Leaf ?bt)) xs" by (simp add: list_all2_conv_all_nth)
  have "is_ok (table_leaf_cell ?bt i usable)" if "i < length xs" for i
    using list_all2_nthD [OF la, of i] that frame_key(2) by fastforce
  moreover have "sorted_wrt (<) (map (row_key usable) (slots (Leaf ?bt)))" unfolding frames_keys [OF la] using l(2) by (simp add: between_def)
  ultimately have "search_tree usable (Leaf ?bt)" unfolding search_tree.simps by (simp add: list_all_iff)
  moreover have "tree_at st n (Leaf ?bt)" using st b(1) rp by (simp add: page_is_def holds_pages_def)
  ultimately show ?thesis using la by (intro exI [of _ "Leaf ?bt"]) (simp add: shows_tree_def)
qed

lemma shows_tree_keys:
  assumes "shows_tree usable st d n t xs P" and "between lo hi xs"
  shows "list_all (\<lambda>x. lo < row_key usable x \<and> row_key usable x \<le> hi) (slots t)"
proof -
  have la: "list_all2 (frame_shows usable) (slots t) xs" using assms(1) by (simp add: shows_tree_def)
  have "list_all (\<lambda>k. lo < k \<and> k \<le> hi) (map (row_key usable) (slots t))" unfolding frames_keys [OF la] using assms(2) by (auto simp: between_def list_all_iff)
  then show ?thesis by (simp add: list.pred_map comp_def)
qed

text \<open>The trees of a forest, with the separators between them.\<close>

definition shows_forest :: "nat \<Rightarrow> (u32 \<Rightarrow> page option) \<Rightarrow> nat \<Rightarrow> u32 list \<Rightarrow> i64 list \<Rightarrow> ptree list \<Rightarrow> leaf_cell list \<Rightarrow> u32 set \<Rightarrow> bool" where
  "shows_forest usable st d ks vs ts xs P \<longleftrightarrow> list_all2 (tree_at st) ks ts \<and> list_all (\<lambda>t. search_tree usable t \<and> height t \<le> d) ts \<and>
    list_all2 (frame_shows usable) (concat (map slots ts)) xs \<and> finite P \<and> sum_list (map leaves ts) \<le> card P \<and>
    (\<forall>i < length vs. list_all (\<lambda>x. row_key usable x \<le> sint (vs ! i)) (slots (ts ! i)) \<and>
      list_all (\<lambda>x. sint (vs ! i) < row_key usable x) (concat (map slots (drop (i + 1) ts))))"

lemma forest_shows:
  assumes IH: "\<And>lo hi n xs P. table_tree usable h d lo hi n xs P \<Longrightarrow> \<exists>t. shows_tree usable st d n t xs P"
    and "forest (table_tree usable h d) lo hi ks vs xs P"
  shows "\<exists>ts. shows_forest usable st d ks vs ts xs P"
  using assms(2)
proof (induction vs arbitrary: ks lo xs P)
  case Nil
  then obtain n where n: "ks = [n]" "table_tree usable h d lo hi n xs P" using forest_length [OF Nil] by (cases ks) auto
  then obtain t where "shows_tree usable st d n t xs P" using IH by blast
  then show ?case using n(1) by (intro exI [of _ "[t]"]) (simp add: shows_forest_def shows_tree_def)
next
  case (Cons v vs)
  then obtain n ks' where ks: "ks = n # ks'" using forest_length [OF Cons.prems] by (cases ks) auto
  obtain xs1 xs2 P1 P2 where p: "table_tree usable h d lo (sint v) n xs1 P1" "forest (table_tree usable h d) (sint v) hi ks' vs xs2 P2"
    "xs = xs1 @ xs2" "P = P1 \<union> P2" "P1 \<inter> P2 = {}" using Cons.prems ks by auto
  obtain t where t: "shows_tree usable st d n t xs1 P1" using IH [OF p(1)] by blast
  obtain ts where ts: "shows_forest usable st d ks' vs ts xs2 P2" using Cons.IH [OF p(2)] by blast
  have b1: "list_all (\<lambda>x. lo < row_key usable x \<and> row_key usable x \<le> sint v) (slots t)"
    by (rule shows_tree_keys [OF t table_tree_between [OF p(1)]])
  have "between (sint v) hi xs2" by (rule forest_between [OF p(2)]) (rule table_tree_between)
  moreover have la: "list_all2 (frame_shows usable) (concat (map slots ts)) xs2" using ts by (simp add: shows_forest_def)
  ultimately have "list_all (\<lambda>k. sint v < k) (map (row_key usable) (concat (map slots ts)))" unfolding frames_keys [OF la] by (auto simp: between_def list_all_iff)
  then have b2: "list_all (\<lambda>x. sint v < row_key usable x) (concat (map slots ts))" by (simp add: list_all_iff)
  have "list_all (\<lambda>x. row_key usable x \<le> sint ((v # vs) ! i)) (slots ((t # ts) ! i)) \<and>
      list_all (\<lambda>x. sint ((v # vs) ! i) < row_key usable x) (concat (map slots (drop (i + 1) (t # ts))))" if "i < length (v # vs)" for i
  proof (cases i)
    case 0
    then show ?thesis using b1 b2 by (auto simp: list_all_iff)
  next
    case (Suc j)
    then show ?thesis using ts that by (simp add: shows_forest_def)
  qed
  moreover have "list_all2 (frame_shows usable) (slots t @ concat (map slots ts)) (xs1 @ xs2)" using t ts by (auto simp: shows_tree_def shows_forest_def intro: list_all2_appendI)
  moreover have "leaves t + sum_list (map leaves ts) \<le> card P" "finite P"
    using t ts p(4,5) by (auto simp: shows_tree_def shows_forest_def card_Un_disjoint)
  ultimately show ?case using t ts p(3) ks by (intro exI [of _ "t # ts"]) (simp add: shows_forest_def shows_tree_def)
qed

lemma fold_max_le: "list_all (\<lambda>x. x \<le> d) xs \<Longrightarrow> a \<le> d \<Longrightarrow> fold max xs a \<le> (d :: nat)"
  by (induction xs arbitrary: a) auto

lemma node_shows:
  assumes st: "holds_pages st h" and nd: "node_page usable h n kids divs" and f: "shows_forest usable st d kids divs ts xs P" and n: "n \<notin> P"
  shows "\<exists>t. shows_tree usable st (Suc d) n t xs (insert n P)"
proof -
  obtain b where b: "h n = Some b" "page_image b (root_body n) InteriorTable (map interior_cell_bytes (zip kids divs))"
    "take 4 (drop (root_body n + 8) b) = to_be32 (last kids)" "length kids = length divs + 1" using nd by (auto simp: node_page_def)
  obtain rp where rp: "btree_page_parse (page_from_bytes n b) = Ok \<lparr>bt_page = page_from_bytes n b, bt_type = InteriorTable, bt_body = root_body n,
      num_cells = length divs, right_pointer = rp\<rparr>" "rp = last kids"
    using page_image_parse [OF b(2) body_offset_root] b(3,4) by auto
  let ?bt = "\<lparr>bt_page = page_from_bytes n b, bt_type = InteriorTable, bt_body = root_body n, num_cells = length divs, right_pointer = rp\<rparr>"
  have d: "bt_data ?bt = b" by (simp add: page_from_bytes_def)
  have img: "page_image (bt_data ?bt) (bt_body ?bt) (bt_type ?bt) (map interior_cell_bytes (zip kids divs))" unfolding d using b(2) by simp
  have cp: "child_pointer ?bt i = Ok (kids ! i)" "i < length divs \<Longrightarrow> table_interior_key ?bt i = Ok (divs ! i)" if "i \<le> length divs" for i
  proof -
    have z: "child_pointer ?bt i = Ok (kids ! i) \<and> table_interior_key ?bt i = Ok (divs ! i)" if "i < length divs"
      using interior_image_cell [OF img, of i] that b(4) by simp
    then show "i < length divs \<Longrightarrow> table_interior_key ?bt i = Ok (divs ! i)" by blast
    have "kids ! length divs = last kids" using b(4) last_conv_nth [of kids] by (cases kids) auto
    then show "child_pointer ?bt i = Ok (kids ! i)" using z that rp(2) by (cases "i < length divs") (auto simp: child_pointer_def)
  qed
  have lt: "length ts = length divs + 1" using f b(4) by (auto simp: shows_forest_def dest: list_all2_lengthD)
  have tr: "tree_at st (kids ! i) (ts ! i)" if "i < length ts" for i using f that by (auto simp: shows_forest_def list_all2_conv_all_nth)
  have "tree_at st n (Node ?bt ts)" using st b(1) rp(1) lt cp(1) tr by (simp add: page_is_def holds_pages_def list_all_iff)
  moreover have "search_tree usable (Node ?bt ts)" using f cp(2) by (auto simp: shows_forest_def list_all_iff node_key_def)
  moreover have "fold max (map height ts) 0 \<le> d" using f by (intro fold_max_le) (auto simp: shows_forest_def list_all_iff)
  ultimately show ?thesis using f n unfolding shows_tree_def
    by (intro exI [of _ "Node ?bt ts"] conjI) (simp_all add: shows_forest_def del: tree_at.simps search_tree.simps)
qed

lemma table_tree_shows:
  assumes st: "holds_pages st h" and "table_tree usable h d lo hi n xs P"
  shows "\<exists>t. shows_tree usable st d n t xs P"
  using assms(2)
proof (induction d arbitrary: lo hi n xs P)
  case 0
  then show ?case using leaf_shows [OF st] by auto
next
  case (Suc d)
  then obtain kids divs P' where k: "node_page usable h n kids divs" "forest (table_tree usable h d) lo hi kids divs xs P'" "n \<notin> P'" "P = insert n P'" by auto
  have "\<exists>t. shows_tree usable st d n t xs P" if "table_tree usable h d lo hi n xs P" for lo hi n xs P using that by (rule Suc.IH)
  then obtain ts where "shows_forest usable st d kids divs ts xs P'" using forest_shows [OF _ k(2)] by blast
  then show ?case unfolding k(4) by (rule node_shows [OF st k(1) _ k(3)])
qed

section \<open>Looking rows up\<close>

lemma pager_heap_store: "pager_heap usable ps k h s \<Longrightarrow> holds_pages (wp_store s) h \<and> cache_ok s"
  by (simp add: pager_heap_def holds_pages_def wp_store_def)

lemma restrict_store: "holds_pages st h \<Longrightarrow> chain_bytes (store_of (h |` S)) usable tot nxt out res \<Longrightarrow> chain_bytes st usable tot nxt out res"
  by (erule chain_bytes_mono) (auto simp: store_of_def holds_pages_def restrict_map_def split: if_splits)

lemma frame_payload:
  assumes st: "holds_pages (wp_store s0) h" and fr: "frame_shows usable x c" and hold: "cell_holds usable (h |` S) c p"
    and lf: "leaf_frame cur = Ok x" and u: "4 < usable" "length p < fuel" and s: "cache_ok s" "logical_page s = logical_page s0"
  shows "\<exists>s'. cursor_payload fuel source_page usable cur s = Some (Ok p, s') \<and> logical_page s' = logical_page s0"
proof -
  obtain cell loc where c: "table_leaf_cell (fst x) (snd x) usable = Ok cell"
    "leaf_parts usable (snd c) = Some (fst c, total_len (cell_payload cell), loc, overflow (cell_payload cell))"
    "slice (bt_data (fst x)) (local_offset (cell_payload cell)) (local_offset (cell_payload cell) + local_len (cell_payload cell)) = Ok loc"
    using fr by (auto simp: frame_shows_def)
  have h: "total_len (cell_payload cell) = length p" "chain_bytes (store_of (h |` S)) usable (length p) (overflow (cell_payload cell)) loc p"
    using hold c(2) by (auto simp: cell_holds_def)
  have "chain_bytes (wp_store s0) usable (length p) (overflow (cell_payload cell)) loc p" by (rule restrict_store [OF st h(2)])
  moreover have "length p - length loc < fuel" using u(2) by linarith
  ultimately have "\<exists>s'. overflow_loop fuel source_page usable (length p) (overflow (cell_payload cell)) loc s = Some (Ok p, s') \<and>
      cache_ok s' \<and> logical_page s' = logical_page s0"
    using s by (intro wp_reader.overflow_loop_Ok [OF _ u(1)]) auto
  then
  obtain s' where "overflow_loop fuel source_page usable (length p) (overflow (cell_payload cell)) loc s = Some (Ok p, s')" "logical_page s' = logical_page s0" by blast
  then show ?thesis using lf c(1,3) h(1) by (cases x) (simp add: cursor_payload_def read_payload_def bindL_def)
qed

lemma from_key_hit:
  assumes "list_all2 (frame_shows usable) fs xs" and "sorted_wrt (<) (map ckey xs)"
  shows "hits_key usable (sint r) fs \<longleftrightarrow> r \<in> fst ` set xs"
    and "c \<in> set xs \<Longrightarrow> fst c = r \<Longrightarrow> \<exists>x ys. from_key usable (sint r) fs = x # ys \<and> frame_shows usable x c"
proof -
  have main: "(case from_key usable (sint r) fs of [] \<Rightarrow> r \<notin> fst ` set xs
      | x # ys \<Rightarrow> if row_key usable x = sint r then \<exists>c \<in> set xs. fst c = r \<and> frame_shows usable x c else r \<notin> fst ` set xs)"
    using assms
  proof (induction rule: list_all2_induct)
    case (Cons x fs c xs)
    have k: "row_key usable x = ckey c" using Cons.hyps(1) by (rule frame_key)
    consider "ckey c < sint r" | "ckey c = sint r" | "sint r < ckey c" by linarith
    then show ?case
    proof cases
      case 1
      then have "from_key usable (sint r) (x # fs) = from_key usable (sint r) fs" "r \<in> fst ` set (c # xs) \<longleftrightarrow> r \<in> fst ` set xs"
        using k ckey_eq [of c r] by (auto simp: from_key_def)
      then show ?thesis using Cons.IH Cons.prems by (auto split: list.splits if_splits)
    next
      case 2
      then have "fst c = r" using ckey_eq by blast
      then show ?thesis using 2 k Cons.hyps(1) by (auto simp: from_key_def)
    next
      case 3
      have "ckey y \<noteq> sint r" if "y \<in> set (c # xs)" for y using that 3 Cons.prems by auto
      then have "r \<notin> fst ` set (c # xs)" using ckey_eq by blast
      then show ?thesis using 3 k by (simp add: from_key_def)
    qed
  qed (simp add: from_key_def)
  then show hit: "hits_key usable (sint r) fs \<longleftrightarrow> r \<in> fst ` set xs" by (auto simp: hits_key_def split: list.splits if_splits)
  assume c: "c \<in> set xs" "fst c = r"
  then have "r \<in> fst ` set xs" by blast
  then obtain x ys c' where x: "from_key usable (sint r) fs = x # ys" "c' \<in> set xs" "fst c' = r" "frame_shows usable x c'"
    using main by (auto split: list.splits if_splits)
  have "c' = c"
  proof (rule ccontr)
    assume "c' \<noteq> c"
    then obtain i j where "xs ! i = c" "xs ! j = c'" "i < length xs" "j < length xs" "i \<noteq> j" using c(1) x(2) by (metis in_set_conv_nth)
    then have "ckey c \<noteq> ckey c'" using assms(2) sorted_wrt_nth_less [OF assms(2), of i j] sorted_wrt_nth_less [OF assms(2), of j i] by (cases "i < j") auto
    then show False using c(2) x(3) by (simp add: ckey_def)
  qed
  then show "\<exists>x ys. from_key usable (sint r) fs = x # ys \<and> frame_shows usable x c" using x by blast
qed

lemma table_rows_seek:
  assumes hp: "pager_heap usable ps k h s" and rows: "table_rows usable h d root M T S" and fuel: "2 * d + card T < fuel"
  shows "\<exists>s' c'. cursor_seek fuel source_page usable r (s, cursor_new root) = Some (Ok (r \<in> dom M), (s', c')) \<and> logical_page s' = logical_page s \<and>
    (\<forall>p. M r = Some p \<and> length p < fuel \<longrightarrow> (\<exists>s''. cursor_payload fuel source_page usable c' s' = Some (Ok p, s'')))"
proof -
  have st: "holds_pages (wp_store s) h" "cache_ok s" using pager_heap_store [OF hp] by simp_all
  obtain xs where x: "table_tree usable h d (- (2 ^ 63) - 1) (2 ^ 63) root xs T" "dom M = fst ` set xs"
    "\<forall>c \<in> set xs. \<exists>p. M (fst c) = Some p \<and> cell_holds usable (h |` S) c p" using rows unfolding table_rows_def by (elim exE conjE)
  obtain t where t: "shows_tree usable (wp_store s) d root t xs T" using table_tree_shows [OF st(1) x(1)] by blast
  then have tt: "tree_at (wp_store s) (tc_root (cursor_new root)) t" "search_tree usable t" "2 * height t + leaves t < fuel" "list_all2 (frame_shows usable) (slots t) xs"
    using fuel by (auto simp: shows_tree_def cursor_new_def)
  have so: "sorted_wrt (<) (map ckey xs)" using table_tree_between [OF x(1)] by (simp add: between_def)
  obtain s' c' where sk: "cursor_seek fuel source_page usable r (s, cursor_new root) = Some (Ok (hits_key usable (sint r) (slots t)), (s', c'))"
    "cache_ok s' \<and> logical_page s' = logical_page s" "wp_reader.cursor_at s (height t) (leaves t) c' (from_key usable (sint r) (slots t))"
    using wp_reader.cursor_seek_Ok [OF tt(1-3), of s] st(2) by blast
  have "\<exists>s''. cursor_payload fuel source_page usable c' s' = Some (Ok p, s'')" if p: "M r = Some p" "length p < fuel" for p
  proof -
    have "r \<in> fst ` set xs" using p(1) x(2) by auto
    then obtain c where c: "c \<in> set xs" "fst c = r" by auto
    obtain y ys where y: "from_key usable (sint r) (slots t) = y # ys" "frame_shows usable y c" using from_key_hit(2) [OF tt(4) so c] by blast
    have "leaf_frame c' = Ok y" using wp_reader.cursor_frame sk(3) y(1) by metis
    moreover have "cell_holds usable (h |` S) c p" using bspec [OF x(3) c(1)] c(2) p(1) by auto
    ultimately show ?thesis using frame_payload [OF st(1) y(2) _ _ _ p(2)] pager_heap_sizes(2) [OF hp] sk(2) by fastforce
  qed
  then show ?thesis using sk(1,2) unfolding x(2) from_key_hit(1) [OF tt(4) so, of r] by (intro exI [of _ s'] exI [of _ c']) simp
qed

section \<open>New tables\<close>

lemma create_table_root_runs:
  assumes hp: "pager_heap usable ps (Suc k) h s"
  shows "runs create_table_root s (\<lambda>root s'. \<exists>h'. pager_heap usable ps k h' s' \<and> table_rows usable h' 0 root Map.empty {root} {} \<and> root \<notin> dom h \<and>
    replaces h {} h' {root})" (is "runs _ _ ?post")
  unfolding create_table_root_def runs_sizes [OF hp] prod.case
proof (rule runs_seq [OF ph.heap_alloc [OF hp]])
  fix n s1
  assume n: "n \<notin> dom h \<and> 1 < n \<and> pager_heap usable ps k (h(n \<mapsto> replicate ps 0)) s1"
  let ?h = "h(n \<mapsto> replicate ps 0)"
  have n1: "n \<noteq> 1" "n \<notin> dom h" and hp1: "pager_heap usable ps k ?h s1" using n by auto
  obtain buf where buf: "serialize_leaf ps usable 0 [] None = Ok buf" "length buf = ps" "leaf_page usable (?h(n \<mapsto> buf)) n []" "replaces ?h {n} (?h(n \<mapsto> buf)) {n}"
    using store_leaf [OF hp1, of n "replicate ps 0" None "[]"] n1(1) pager_heap_sizes(2) [OF hp1] by (auto simp: prefix_bytes_def)
  have "replaces h {} (?h(n \<mapsto> buf)) {n}" by (rule replaces_trans [OF replaces_new [OF n1(2,1)] buf(4)])
  moreover have "table_rows usable (?h(n \<mapsto> buf)) 0 n Map.empty {n} {}" unfolding table_rows_def using buf(3) n1(1) by (intro exI [of _ "[]"]) simp
  ultimately show "runs (bindA (liftA (serialize_leaf ps usable 0 [] None)) (\<lambda>buf. bindA (write_page n buf) (\<lambda>_. retA n))) s1 ?post"
    unfolding buf(1) bindA_lift_Ok using n1(2)
    by (intro runs_seq [OF ph.heap_wr [OF hp1 _ buf(2)]]) (auto intro!: runs_ret simp del: fun_upd_upd)
qed

end
