(* ===== verification/IndexRead.thy ===== *)
theory IndexRead
  imports IndexOrder TableRead
begin

text \<open>
  Searching an index that the writer built. The pages of an index tree form a tree in the sense of the
  walks of \<open>src/btree/index_writer.rs\<close>, with the entries of the tree as its slots, so that the
  equality seek and the range scan over the write pager return the matching records.
\<close>

section \<open>The slots of an index tree\<close>

definition slot_holds :: "nat \<Rightarrow> pages \<Rightarrow> frame \<Rightarrow> idx_key \<Rightarrow> bool" where
  "slot_holds usable h x e \<longleftrightarrow> (\<exists>cell loc. index_cell (fst x) (snd x) usable = Ok cell \<and> total_len (index_payload cell) = length (fst e) \<and>
    slice (bt_data (fst x)) (local_offset (index_payload cell)) (local_offset (index_payload cell) + local_len (index_payload cell)) = Ok loc \<and>
    chain_bytes (store_of h) usable (length (fst e)) (overflow (index_payload cell)) loc (fst e))"

lemma slot_entry:
  "slot_holds usable h x e \<Longrightarrow> decode_record (fst e) enc = Ok r \<Longrightarrow> length (fst e) < pf \<Longrightarrow> entry (store_of h) usable enc pf x r"
  by (fastforce simp: slot_holds_def entry_def)

definition holds_itree :: "nat \<Rightarrow> pages \<Rightarrow> nat \<Rightarrow> u32 \<Rightarrow> ptree \<Rightarrow> idx_key list \<Rightarrow> bool" where
  "holds_itree usable h d n t xs \<longleftrightarrow> tree_at (store_of h) n t \<and> index_pages t \<and> height t \<le> d \<and> list_all2 (slot_holds usable h) (islots t) xs"

lemma page_slot_holds:
  assumes img: "page_image (bt_data bt) (bt_body bt) (bt_type bt) cells" and n: "num_cells bt = length cells" "i < length cells"
    and t: "bt_type bt = LeafIndex \<and> cells ! i = snd e \<or> bt_type bt = InteriorIndex \<and> cells ! i = to_be32 c @ snd e" and e: "idx_holds usable h e"
  shows "slot_holds usable h (bt, i) e" and "bt_type bt = InteriorIndex \<Longrightarrow> child_pointer bt i = Ok c"
proof -
  obtain loc ov where p: "index_parts usable (snd e) = Some (length (fst e), loc, ov)" "chain_bytes (store_of h) usable (length (fst e)) ov loc (fst e)"
    using e by (auto simp: idx_holds_def)
  from index_image_cell [OF img n t p(1)] p(2) show "slot_holds usable h (bt, i) e" "bt_type bt = InteriorIndex \<Longrightarrow> child_pointer bt i = Ok c"
    by (auto simp: slot_holds_def)
qed

lemma idx_leaf_holds:
  assumes l: "idx_leaf usable h n xs" and e: "\<And>e. e \<in> set xs \<Longrightarrow> idx_holds usable h e"
  shows "\<exists>t. holds_itree usable h 0 n t xs"
proof -
  obtain b where b: "h n = Some b" "page_image b (root_body n) LeafIndex (map snd xs)" using l by (auto simp: idx_leaf_def)
  obtain rp where rp: "btree_page_parse (page_from_bytes n b) = Ok \<lparr>bt_page = page_from_bytes n b, bt_type = LeafIndex, bt_body = root_body n,
      num_cells = length xs, right_pointer = rp\<rparr>" using page_image_parse [OF b(2) body_offset_root] by auto
  let ?bt = "\<lparr>bt_page = page_from_bytes n b, bt_type = LeafIndex, bt_body = root_body n, num_cells = length xs, right_pointer = rp\<rparr>"
  have d: "bt_data ?bt = b" by (simp add: page_from_bytes_def)
  have img: "page_image (bt_data ?bt) (bt_body ?bt) (bt_type ?bt) (map snd xs)" unfolding d using b(2) by simp
  have "slot_holds usable h (?bt, i) (xs ! i)" if "i < length xs" for i by (rule page_slot_holds(1) [OF img]) (use that e in auto)
  then have "list_all2 (slot_holds usable h) (islots (Leaf ?bt)) xs" by (simp add: list_all2_conv_all_nth)
  moreover have "tree_at (store_of h) n (Leaf ?bt)" using b(1) rp by (simp add: page_is_def store_of_def)
  ultimately show ?thesis by (intro exI [of _ "Leaf ?bt"]) (simp add: holds_itree_def)
qed

lemma interleave_all2:
  "list_all2 (list_all2 R) fs cs \<Longrightarrow> list_all2 R gs ns \<Longrightarrow> length fs = length gs + 1 \<Longrightarrow> list_all2 R (interleave fs gs) (interleave cs ns)"
proof (induction fs gs arbitrary: cs ns rule: interleave.induct)
  case (1 f fs g gs)
  then obtain c cs' n ns' where "cs = c # cs'" "ns = n # ns'" "list_all2 R f c" "R g n" "list_all2 (list_all2 R) fs cs'" "list_all2 R gs ns'"
    by (auto simp: list_all2_Cons1)
  then show ?case using "1.IH" [of cs' ns'] "1.prems"(3) by (auto intro: list_all2_appendI)
next
  case (2 fs)
  then obtain f where "fs = [f]" by (cases fs) auto
  then show ?case using 2 by (auto simp: list_all2_Cons1)
qed simp

lemma iforest_holds:
  assumes IH: "\<And>n x P. itree usable h d n x P \<Longrightarrow> set x \<subseteq> U \<Longrightarrow> \<exists>t. holds_itree usable h d n t x"
    and "iforest (itree usable h d) kids es xs P" and "set xs \<subseteq> U"
  shows "\<exists>ts cs. list_all2 (tree_at (store_of h)) kids ts \<and> list_all (\<lambda>t. index_pages t \<and> height t \<le> d) ts \<and>
    list_all2 (list_all2 (slot_holds usable h)) (map islots ts) cs \<and> xs = interleave cs es"
  using assms(2,3)
proof (induction es arbitrary: kids xs P)
  case Nil
  then obtain n where n: "kids = [n]" "itree usable h d n xs P" using iforest_length [OF Nil(1)] by (cases kids) auto
  obtain t where "holds_itree usable h d n t xs" using IH [OF n(2) Nil(2)] by blast
  then show ?case using n(1) by (intro exI [of _ "[t]"] exI [of _ "[xs]"]) (simp add: holds_itree_def)
next
  case (Cons e es)
  then obtain n ks where ks: "kids = n # ks" using iforest_length [OF Cons.prems(1)] by (cases kids) auto
  obtain x1 x2 P1 P2 where p: "xs = x1 @ e # x2" "itree usable h d n x1 P1" "iforest (itree usable h d) ks es x2 P2" using Cons.prems(1) ks by auto
  obtain t where t: "holds_itree usable h d n t x1" using IH [OF p(2)] Cons.prems(2) p(1) by auto
  obtain ts cs where ts: "list_all2 (tree_at (store_of h)) ks ts" "list_all (\<lambda>t. index_pages t \<and> height t \<le> d) ts"
    "list_all2 (list_all2 (slot_holds usable h)) (map islots ts) cs" "x2 = interleave cs es" using Cons.IH [OF p(3)] Cons.prems(2) p(1) by auto
  show ?case using t ts p(1) ks by (intro exI [of _ "t # ts"] exI [of _ "x1 # cs"]) (simp add: holds_itree_def)
qed

lemma idx_node_holds:
  assumes nd: "idx_node usable h n kids es" and e: "\<And>e. e \<in> set es \<Longrightarrow> idx_holds usable h e"
    and ts: "list_all2 (tree_at (store_of h)) kids ts" "list_all (\<lambda>t. index_pages t \<and> height t \<le> d) ts"
      "list_all2 (list_all2 (slot_holds usable h)) (map islots ts) cs"
  shows "\<exists>t. holds_itree usable h (Suc d) n t (interleave cs es)"
proof -
  obtain b where b: "h n = Some b" "page_image b (root_body n) InteriorIndex (map idx_cell_bytes (zip kids es))" "length kids = length es + 1"
    "take 4 (drop (root_body n + 8) b) = to_be32 (last kids)" using nd by (auto simp: idx_node_def)
  obtain rp where rp: "btree_page_parse (page_from_bytes n b) = Ok \<lparr>bt_page = page_from_bytes n b, bt_type = InteriorIndex, bt_body = root_body n,
      num_cells = length es, right_pointer = rp\<rparr>" "rp = last kids" using page_image_parse [OF b(2) body_offset_root] b(3,4) by auto
  let ?bt = "\<lparr>bt_page = page_from_bytes n b, bt_type = InteriorIndex, bt_body = root_body n, num_cells = length es, right_pointer = rp\<rparr>"
  have d: "bt_data ?bt = b" by (simp add: page_from_bytes_def)
  have img: "page_image (bt_data ?bt) (bt_body ?bt) (bt_type ?bt) (map idx_cell_bytes (zip kids es))" unfolding d using b(2) by simp
  have sl: "slot_holds usable h (?bt, i) (es ! i)" "child_pointer ?bt i = Ok (kids ! i)" if "i < length es" for i
    using page_slot_holds [OF img, of i "es ! i" "kids ! i" usable h] that b(3) e by (auto simp: idx_cell_bytes_def case_prod_unfold)
  have "kids ! length es = last kids" using b(3) last_conv_nth [of kids] by (cases kids) auto
  then have cp: "child_pointer ?bt i = Ok (kids ! i)" if "i \<le> length es" for i
    using sl(2) [of i] that rp(2) by (cases "i < length es") (auto simp: child_pointer_def)
  have lt: "length ts = length es + 1" using list_all2_lengthD [OF ts(1)] b(3) by simp
  have tr: "tree_at (store_of h) (kids ! i) (ts ! i)" if "i < length ts" for i using ts(1) that by (auto simp: list_all2_conv_all_nth)
  have "tree_at (store_of h) n (Node ?bt ts)" using b(1) rp(1) lt cp tr by (simp add: page_is_def store_of_def list_all_iff)
  moreover have "fold max (map height ts) 0 \<le> d" using ts(2) by (intro fold_max_le) (auto simp: list_all_iff)
  moreover have "list_all2 (slot_holds usable h) (islots (Node ?bt ts)) (interleave cs es)" unfolding islots.simps
    by (rule interleave_all2 [OF ts(3)]) (use sl(1) lt in \<open>auto simp: list_all2_conv_all_nth\<close>)
  moreover have "index_pages (Node ?bt ts)" using ts(2) by (simp add: list_all_iff)
  ultimately show ?thesis unfolding holds_itree_def by (intro exI [of _ "Node ?bt ts"] conjI) (simp_all del: tree_at.simps index_pages.simps islots.simps)
qed

lemma itree_holds:
  assumes "itree usable h d n xs P" and e: "\<And>e. e \<in> set xs \<Longrightarrow> idx_holds usable h e"
  shows "\<exists>t. holds_itree usable h d n t xs"
  using assms
proof (induction d arbitrary: n xs P)
  case 0
  then show ?case using idx_leaf_holds by auto
next
  case (Suc d)
  obtain kids es P' where k: "idx_node usable h n kids es" "iforest (itree usable h d) kids es xs P'" using Suc.prems(1) by auto
  have "\<exists>t. holds_itree usable h d n t x" if "itree usable h d n x P" "set x \<subseteq> set xs" for n x P using that(1) by (rule Suc.IH) (use Suc.prems(2) that(2) in blast)
  then have "\<exists>ts cs. list_all2 (tree_at (store_of h)) kids ts \<and> list_all (\<lambda>t. index_pages t \<and> height t \<le> d) ts \<and>
    list_all2 (list_all2 (slot_holds usable h)) (map islots ts) cs \<and> xs = interleave cs es" by (rule iforest_holds [OF _ k(2) order.refl])
  then obtain ts cs where ts: "list_all2 (tree_at (store_of h)) kids ts" "list_all (\<lambda>t. index_pages t \<and> height t \<le> d) ts"
    "list_all2 (list_all2 (slot_holds usable h)) (map islots ts) cs" "xs = interleave cs es" by (elim exE conjE)
  show ?case unfolding ts(4) by (rule idx_node_holds [OF k(1) _ ts(1-3)]) (use Suc.prems(2) iforest_entries [OF k(2)] in blast)
qed

section \<open>Searching\<close>

text \<open>An index as the list of its records.\<close>

definition index_list :: "nat \<Rightarrow> pages \<Rightarrow> nat \<Rightarrow> u32 \<Rightarrow> bytes list \<Rightarrow> u32 set \<Rightarrow> u32 set \<Rightarrow> bool" where
  "index_list usable h d root rs T S \<longleftrightarrow> (\<exists>xs. map fst xs = rs \<and> index_rows usable h d root xs T S)"

lemma insert_index_list:
  assumes "pager_heap usable ps (k + index_room usable d (length rec)) h s" and "enc_is enc s" and l: "index_list usable h d root rs T S"
    and so: "recs_sorted reg enc colls descs rs" and c: "list_all builtin_collation colls" and v: "decode_record rec enc = Ok v" "no_nan v"
    and "d < MAX_DEPTH" and "length rec < 2 ^ 64"
  shows "\<exists>s' h' d' T' S'. insert_index reg root rec colls descs s = (Ok (), s') \<and> pager_heap usable ps k h' s' \<and> enc_is enc s' \<and> d' \<le> Suc d \<and>
    index_list usable h' d' root (rec_insert reg enc colls descs rec rs) T' S' \<and> replaces h (T \<union> S) h' (T' \<union> S')"
proof -
  obtain xs where x: "map fst xs = rs" "index_rows usable h d root xs T S" using l by (auto simp: index_list_def)
  have ok: "cmp_ok reg rec enc colls descs (\<lambda>e. rec_cmp reg enc colls descs rec (fst e)) xs" by (rule sorted_cmp_ok [OF so [folded x(1)] c v])
  have "index_list usable h' d' root (rec_insert reg enc colls descs rec rs) T' S'"
    if "index_rows usable h' d' root (idx_ins (\<lambda>e. rec_cmp reg enc colls descs rec (fst e)) (rec, rc) xs) T' S'" for h' d' T' S' rc
    using that idx_ins_records [OF ok, of rc] x(1) by (auto simp: index_list_def)
  note il = this
  obtain s' h' d' T' S' rc where r: "insert_index reg root rec colls descs s = (Ok (), s')" "pager_heap usable ps k h' s'" "enc_is enc s'" "d' \<le> Suc d"
    "index_rows usable h' d' root (idx_ins (\<lambda>e. rec_cmp reg enc colls descs rec (fst e)) (rec, rc) xs) T' S'" "replaces h (T \<union> S) h' (T' \<union> S')"
    using insert_index_runs [OF assms(1,2) x(2) ok assms(8,9)] unfolding runs_def by auto
  show ?thesis using r(1-4,6) il [OF r(5)] by blast
qed

lemma index_list_tree:
  assumes "index_list usable h d root rs T S" and "map (\<lambda>r. decode_record r enc) rs = map Ok recs" and "\<And>r. r \<in> set rs \<Longrightarrow> length r < pf"
  obtains t where "tree_at (store_of h) root t" and "index_pages t" and "height t \<le> d" and "list_all2 (entry (store_of h) usable enc pf) (islots t) recs"
proof -
  obtain xs where x: "map fst xs = rs" "index_rows usable h d root xs T S" using assms(1) by (auto simp: index_list_def)
  have hold: "idx_holds usable h e" if e: "e \<in> set xs" for e
  proof -
    have "idx_holds usable (h |` S) e" using x(2) e unfolding index_rows_def by blast
    then show ?thesis by (rule idx_holds_mono) (auto simp: map_le_def restrict_map_def)
  qed
  have "itree usable h d root xs T" using x(2) by (simp add: index_rows_def)
  from itree_holds [OF this hold] obtain t where t: "holds_itree usable h d root t xs" by blast
  have len: "length recs = length xs" using arg_cong [OF assms(2), of length] x(1) by auto
  have "entry (store_of h) usable enc pf (islots t ! i) (recs ! i)" if i: "i < length xs" for i
  proof (rule slot_entry)
    show "slot_holds usable h (islots t ! i) (xs ! i)" using t i by (auto simp: holds_itree_def list_all2_conv_all_nth)
    have "map (\<lambda>r. decode_record r enc) rs ! i = map Ok recs ! i" unfolding assms(2) ..
    then show "decode_record (fst (xs ! i)) enc = Ok (recs ! i)" using i len x(1) by (auto simp: nth_map)
    show "length (fst (xs ! i)) < pf" using assms(3) [of "fst (xs ! i)"] i x(1) by force
  qed
  then have "list_all2 (entry (store_of h) usable enc pf) (islots t) recs" using t len by (auto simp: holds_itree_def list_all2_conv_all_nth)
  then show thesis using t that by (auto simp: holds_itree_def)
qed

lemma recs_sorted_index:
  assumes "recs_sorted reg enc colls descs rs" and "map (\<lambda>r. decode_record r enc) rs = map Ok recs"
  shows "index_sorted reg colls descs recs" and "list_all no_nan recs"
proof -
  have len: "length recs = length rs" using arg_cong [OF assms(2), of length] by simp
  have d: "decode_record (rs ! i) enc = Ok (recs ! i)" if "i < length rs" for i
    using arg_cong [OF assms(2), of "\<lambda>l. l ! i"] that len by simp
  show "list_all no_nan recs" using assms(1) d len unfolding recs_sorted_def list_all_length by (metis nth_mem res.inject(1))
  have "cmp_columns reg colls descs 0 (recs ! i) (recs ! j) \<noteq> Greater" if ij: "i < j" "j < length rs" for i j
  proof -
    have "cmp_records reg (rs ! i) (rs ! j) enc colls descs = Ok Less" using assms(1) ij by (auto simp: recs_sorted_def sorted_wrt_iff_nth_less)
    then have "row_cmp reg colls descs 0 (recs ! i) (recs ! j) = Less" using cmp_records_row [OF d d, of i j] ij by simp
    then show ?thesis by (auto simp: row_cmp_def split: if_splits)
  qed
  then show "index_sorted reg colls descs recs" using len by (simp add: index_sorted_def sorted_wrt_iff_nth_less)
qed

lemma index_list_seek:
  assumes hp: "pager_heap usable ps k h s" and l: "index_list usable h d root rs T S" and dec: "map (\<lambda>r. decode_record r enc) rs = map Ok recs"
    and pf: "\<And>r. r \<in> set rs \<Longrightarrow> length r < pf" and so: "recs_sorted reg enc colls descs rs" and c: "list_all builtin_collation colls"
    and key: "no_nan key" "\<And>r. r \<in> set recs \<Longrightarrow> length key \<le> length r" and fuel: "d < fuel"
  shows "\<exists>s'. seek_tree fuel pf source_page enc usable (\<lambda>rec. prefix_cmp reg key rec colls descs) emit root [] s =
      Some (Ok (map emit (filter (\<lambda>r. prefix_cmp reg key r colls descs = Equal) recs)), s') \<and> pager_heap usable ps k h s'"
proof -
  obtain t where t: "tree_at (store_of h) root t" "index_pages t" "height t \<le> d" "list_all2 (entry (store_of h) usable enc pf) (islots t) recs"
    by (rule index_list_tree [OF l dec pf])
  have "ranked (\<lambda>rec. prefix_cmp reg key rec colls descs) recs"
    by (rule index_sorted_ranked [OF recs_sorted_index(1) [OF so dec] c key(1)]) (use recs_sorted_index(2) [OF so dec] key(2) in \<open>auto simp: list_all_iff\<close>)
  note rk = this
  have "height t < fuel" "4 < usable" using t(3) fuel pager_heap_sizes(2) [OF hp] by simp_all
  from heap_reader.seek_tree_Ok [OF t(1,2,4) rk this, of usable ps k emit "[]", unfolded gives_def, rule_format, OF hp]
  show ?thesis by simp
qed

lemma index_list_range:
  assumes hp: "pager_heap usable ps k h s" and l: "index_list usable h d root rs T S" and dec: "map (\<lambda>r. decode_record r enc) rs = map Ok recs"
    and pf: "\<And>r. r \<in> set rs \<Longrightarrow> length r < pf" and fuel: "d < fuel"
  shows "\<exists>s'. range_scan fuel pf source_page enc usable beyond passes root [] s = Some (Ok (scanned beyond passes [] recs), s') \<and> pager_heap usable ps k h s'"
proof -
  obtain t where t: "tree_at (store_of h) root t" "index_pages t" "height t \<le> d" "list_all2 (entry (store_of h) usable enc pf) (islots t) recs"
    by (rule index_list_tree [OF l dec pf])
  have "height t < fuel" "4 < usable" using t(3) fuel pager_heap_sizes(2) [OF hp] by simp_all
  from heap_reader.range_scan_Ok [OF t(1,2,4) this, of usable ps k beyond passes "[]", unfolded gives_def, rule_format, OF hp]
  show ?thesis .
qed

text \<open>Along sorted records, what is beyond the upper bound comes last.\<close>

lemma takeWhile_ranked:
  assumes "ranked cmp recs" and "\<And>a b. rank (cmp a) \<le> rank (cmp b) \<Longrightarrow> beyond a \<Longrightarrow> beyond b"
  shows "takeWhile (\<lambda>r. \<not> beyond r) recs = filter (\<lambda>r. \<not> beyond r) recs"
  using assms(1)
proof (induction recs)
  case (Cons r recs)
  show ?case
  proof (cases "beyond r")
    case True
    then have "\<forall>y \<in> set recs. beyond y" using Cons.prems assms(2) by (auto simp: ranked_Cons)
    then show ?thesis using True by (simp add: filter_empty_conv)
  next
    case False
    then show ?thesis using Cons by (simp add: ranked_Cons)
  qed
qed simp

lemma range_sorted:
  assumes so: "index_sorted reg colls descs recs" "list_all no_nan recs" and c: "list_all builtin_collation colls"
    and up: "case upper of None \<Rightarrow> True | Some (uk, inc) \<Rightarrow> no_nan uk \<and> (\<forall>r \<in> set recs. length uk \<le> length r)"
  shows "scanned (\<lambda>rec. beyond_upper reg upper rec colls descs) passes [] recs =
    (\<forall>r \<in> set recs. \<not> beyond_upper reg upper r colls descs, filter (\<lambda>r. \<not> beyond_upper reg upper r colls descs \<and> passes r) recs)"
proof -
  have "takeWhile (\<lambda>r. \<not> beyond_upper reg upper r colls descs) recs = filter (\<lambda>r. \<not> beyond_upper reg upper r colls descs) recs"
  proof (cases upper)
    case None
    then show ?thesis by (simp add: beyond_upper_def)
  next
    case (Some b)
    obtain uk inc where b: "b = (uk, inc)" by (cases b)
    have rk: "ranked (\<lambda>rec. prefix_cmp reg uk rec colls descs) recs"
      by (rule index_sorted_ranked [OF so(1) c]) (use so(2) up Some b in \<open>auto simp: list_all_iff\<close>)
    show ?thesis
    proof (rule takeWhile_ranked [OF rk])
      fix a b'
      assume "rank (prefix_cmp reg uk a colls descs) \<le> rank (prefix_cmp reg uk b' colls descs)" "beyond_upper reg upper a colls descs"
      then show "beyond_upper reg upper b' colls descs" unfolding beyond_upper_def Some b
        by (cases "prefix_cmp reg uk a colls descs"; cases "prefix_cmp reg uk b' colls descs") auto
    qed
  qed
  then show ?thesis by (auto simp: scanned_def list_all_iff conj_commute)
qed

section \<open>Seeking after an insertion\<close>

text \<open>Insertion into a sorted list of decoded records: nothing changes when an equal record is there.\<close>

definition row_insert :: "registry \<Rightarrow> collation list \<Rightarrow> bool list \<Rightarrow> sqlvalue list \<Rightarrow> sqlvalue list list \<Rightarrow> sqlvalue list list" where
  "row_insert reg colls descs v recs =
    (if \<exists>r \<in> set recs. row_cmp reg colls descs 0 v r = Equal then recs
     else filter (\<lambda>r. row_cmp reg colls descs 0 v r = Greater) recs @ v # filter (\<lambda>r. row_cmp reg colls descs 0 v r = Less) recs)"

lemma rec_insert_decoded:
  assumes dec: "map (\<lambda>r. decode_record r enc) rs = map Ok recs" and v: "decode_record t enc = Ok v"
  shows "map (\<lambda>r. decode_record r enc) (rec_insert reg enc colls descs t rs) = map Ok (row_insert reg colls descs v recs)"
proof -
  define f where "f r = (case decode_record r enc of Ok w \<Rightarrow> w | _ \<Rightarrow> [])" for r
  have fr: "decode_record r enc = Ok (f r)" if "r \<in> set rs" for r
  proof -
    have "decode_record r enc \<in> set (map Ok recs)" using that by (simp flip: dec)
    then show ?thesis by (auto simp: f_def)
  qed
  have recs: "recs = map f rs"
    using arg_cong [OF dec, of "map (\<lambda>x. case x of Ok w \<Rightarrow> w | _ \<Rightarrow> [])"] by (simp add: comp_def f_def [abs_def])
  have c: "rec_cmp reg enc colls descs t r = row_cmp reg colls descs 0 v (f r)" if "r \<in> set rs" for r
    using cmp_records_row [OF v fr [OF that], of reg colls descs] by (simp add: rec_cmp_def)
  have "filter (\<lambda>r. rec_cmp reg enc colls descs t r = x) rs = filter (\<lambda>r. row_cmp reg colls descs 0 v (f r) = x) rs" for x
    using c by (intro filter_cong) auto
  then show ?thesis using v fr c unfolding recs rec_insert_def row_insert_def by (auto simp: filter_map comp_def)
qed

lemma prefix_cmp_equal_rows:
  assumes c: "list_all builtin_collation colls" and nn: "no_nan key" "no_nan a" "no_nan b"
    and e: "row_cmp reg colls descs i a b = Equal"
  shows "cmp_columns reg colls descs i key b = cmp_columns reg colls descs i key a"
  using nn e
proof (induction key arbitrary: i a b)
  case (Cons x key)
  show ?case
  proof (cases a)
    case Nil
    then show ?thesis using Cons.prems(4) by (cases b) (simp_all add: row_cmp_simps)
  next
    case a: (Cons y ys)
    then obtain z zs where b: "b = z # zs" using Cons.prems(4) by (cases b) (simp_all add: row_cmp_simps)
    have yz: "col_cmp reg colls descs i y z = Equal" "row_cmp reg colls descs (i + 1) ys zs = Equal"
      using Cons.prems(4) unfolding a b row_cmp_simps by (simp_all split: if_splits)
    have n: "\<not> is_nan_value x" "\<not> is_nan_value y" "\<not> is_nan_value z" "no_nan key" "no_nan ys" "no_nan zs"
      using Cons.prems(1-3) unfolding a b by (simp_all add: no_nan_def)
    show ?thesis unfolding a b cmp_columns_Cons col_cmp_trans(2) [OF c n(1-3) yz(1)] Cons.IH [OF n(4-6) yz(2)] ..
  qed
qed simp

lemma row_insert_subset: "set (row_insert reg colls descs v recs) \<subseteq> insert v (set recs)"
  by (auto simp: row_insert_def)

lemma rec_insert_subset: "set (rec_insert reg enc colls descs t rs) \<subseteq> insert t (set rs)"
  by (auto simp: rec_insert_def)

text \<open>A key that the new record matches finds the record, or the equal one that was there.\<close>

lemma row_insert_found:
  assumes c: "list_all builtin_collation colls" and nn: "no_nan key" "no_nan v" "\<And>r. r \<in> set recs \<Longrightarrow> no_nan r"
    and k: "prefix_cmp reg key v colls descs = Equal"
  shows "\<exists>r \<in> set (row_insert reg colls descs v recs). row_cmp reg colls descs 0 v r = Equal \<and> prefix_cmp reg key r colls descs = Equal"
proof (cases "\<exists>r \<in> set recs. row_cmp reg colls descs 0 v r = Equal")
  case True
  then obtain r where r: "r \<in> set recs" "row_cmp reg colls descs 0 v r = Equal" by blast
  have "prefix_cmp reg key r colls descs = Equal"
    using prefix_cmp_equal_rows [OF c nn(1,2) nn(3) [OF r(1)] r(2)] k by (simp add: prefix_cmp_def)
  then show ?thesis using True r by (auto simp: row_insert_def)
next
  case False
  have "row_cmp reg colls descs 0 v v = Equal"
    using row_cmp_flip [OF c nn(2) nn(2), of reg descs 0] by (cases "row_cmp reg colls descs 0 v v") simp_all
  then show ?thesis using False k by (auto simp: row_insert_def)
qed

lemma insert_index_then_seek:
  assumes hp: "pager_heap usable ps (k + index_room usable d (length rec)) h s" and e: "enc_is enc s" and l: "index_list usable h d root rs T S"
    and so: "recs_sorted reg enc colls descs rs" and c: "list_all builtin_collation colls" and dec: "map (\<lambda>r. decode_record r enc) rs = map Ok recs"
    and v: "decode_record rec enc = Ok v" "no_nan v" and d: "d < MAX_DEPTH" and len: "length rec < 2 ^ 64"
    and key: "no_nan key" "\<forall>r \<in> insert v (set recs). length key \<le> length r" and pf: "\<forall>r \<in> insert rec (set rs). length r < pf" and fuel: "Suc d < fuel"
  obtains s1 where "insert_index reg root rec colls descs s = (Ok (), s1)"
    and "\<And>emit :: sqlvalue list \<Rightarrow> 'a. \<exists>s2. seek_tree fuel pf source_page enc usable (\<lambda>rec. prefix_cmp reg key rec colls descs) emit root [] s1 =
      Some (Ok (map emit (filter (\<lambda>r. prefix_cmp reg key r colls descs = Equal) (row_insert reg colls descs v recs))), s2)"
proof -
  obtain s1 h1 d1 T1 S1 where i: "insert_index reg root rec colls descs s = (Ok (), s1)" "pager_heap usable ps k h1 s1" "d1 \<le> Suc d"
    "index_list usable h1 d1 root (rec_insert reg enc colls descs rec rs) T1 S1"
    using insert_index_list [OF hp e l so c v d len] by blast
  have pf': "length r < pf" if "r \<in> set (rec_insert reg enc colls descs rec rs)" for r
    using pf subsetD [OF rec_insert_subset that] by blast
  have kl: "length key \<le> length r" if "r \<in> set (row_insert reg colls descs v recs)" for r
    using key(2) subsetD [OF row_insert_subset that] by blast
  have "d1 < fuel" using i(3) fuel by simp
  note sk = index_list_seek [OF i(2,4) rec_insert_decoded [OF dec v(1)] pf' rec_insert_sorted [OF so c v] c key(1) kl this]
  show thesis by (rule that [OF i(1)]) (use sk in blast)
qed

end
