(* ===== verification/LockedRuns.thy ===== *)
theory LockedRuns
  imports CommitEffect WalReaders
begin

text \<open>
  The two operations of the write pager that ask the lock registry for more than the transaction
  holds: \<open>commit\<close> in rollback mode takes \<open>EXCLUSIVE\<close>, and \<open>checkpoint_mode\<close> takes \<open>RESERVED\<close> for every
  mode but \<open>PASSIVE\<close>. What the registry grants depends on what the other connections of the path hold;
  both outcomes are followed to the state that is left.
\<close>

section \<open>What the registry grants\<close>

text \<open>The level of every handle but one.\<close>

definition others :: "(lock_level \<Rightarrow> bool) \<Rightarrow> nat \<Rightarrow> lock_sys \<Rightarrow> bool" where
  "others q h s \<longleftrightarrow> (\<forall>j < length (levels s). j \<noteq> h \<longrightarrow> q (levels s ! j))"

lemma held_others:
  assumes "h < length (levels s)"
  shows "held l s = (if l \<le> levels s ! h then 1 else 0) + card {j. j < length (levels s) \<and> j \<noteq> h \<and> l \<le> levels s ! j}"
proof -
  have "{j. j < length (levels s) \<and> l \<le> levels s ! j} =
      (if l \<le> levels s ! h then {h} else {}) \<union> {j. j < length (levels s) \<and> j \<noteq> h \<and> l \<le> levels s ! j}"
    using assms by auto
  then show ?thesis by (simp add: held_def length_filter_conv_card)
qed

lemma held_alone:
  assumes "h < length (levels s)"
  shows "others (\<lambda>x. x < l) h s \<longleftrightarrow> held l s = (if l \<le> levels s ! h then 1 else 0)"
proof -
  have "others (\<lambda>x. x < l) h s \<longleftrightarrow> {j. j < length (levels s) \<and> j \<noteq> h \<and> l \<le> levels s ! j} = {}"
    by (auto simp: others_def not_le)
  then show ?thesis using held_others [OF assms, of l] by simp
qed

lemma reserved_request:
  assumes r: "lock_reachable s" and h: "h < length (levels s)" and l: "levels s ! h < Reserved"
  shows "file_lock s h Reserved =
    (if others (\<lambda>x. x < Reserved) h s
     then Ok (s\<lparr>locks := (locks s)\<lparr>reserved := True\<rparr>, levels := (levels s)[h := Reserved]\<rparr>) else Err Busy)"
proof -
  have "held Reserved s = 0 \<longleftrightarrow> others (\<lambda>x. x < Reserved) h s" using held_alone [OF h, of Reserved] l [folded not_le] by simp
  moreover have "held Reserved s = 0 \<longleftrightarrow> \<not> reserved (locks s) \<and> \<not> exclusive (locks s)"
    using lock_inv_reachable [OF r] held_chain [of s] by (auto simp: lock_inv_def)
  ultimately show ?thesis using h l by (auto simp: file_lock_def acquire_def)
qed

lemma exclusive_request:
  assumes r: "lock_reachable s" and h: "h < length (levels s)" and l: "Shared \<le> levels s ! h" "levels s ! h < Exclusive"
  shows "file_lock s h Exclusive =
    (if others (\<lambda>x. x < Shared) h s
     then Ok (s\<lparr>locks := (locks s)\<lparr>pending := True, exclusive := True\<rparr>, levels := (levels s)[h := Exclusive]\<rparr>) else Err Busy)"
proof -
  have o1: "shared (locks s) \<le> 1 \<longleftrightarrow> others (\<lambda>x. x < Shared) h s"
    using held_alone [OF h, of Shared] held_others [OF h, of Shared] l(1) lock_inv_reachable [OF r] by (auto simp: lock_inv_def)
  have "\<not> others (\<lambda>x. x < Shared) h s" if "exclusive (locks s)"
  proof -
    have "others (\<lambda>x. x < Exclusive) h s" if "others (\<lambda>x. x < Shared) h s" using that by (auto simp: others_def lock_order)
    then show ?thesis using that held_alone [OF h, of Exclusive] l(2) [folded not_le] lock_inv_reachable [OF r] by (auto simp: lock_inv_def)
  qed
  then show ?thesis using o1 h l by (auto simp: file_lock_def acquire_def)
qed

section \<open>Committing under the exclusive lock\<close>

lemma acquire_exclusive_effect:
  assumes t: "in_txn (w, p)" and r: "lock_reachable (w_locks w)" and h: "handle_open (w, p)"
    and lv: "levels (w_locks w) ! wp_handle p = wp_held p"
  shows "if others (\<lambda>x. x < Shared) (wp_handle p) (w_locks w)
    then \<exists>l. acquire_exclusive (w, p) = (Ok (), (w\<lparr>w_locks := l\<rparr>, p\<lparr>wp_held := Exclusive\<rparr>)) \<and> length (levels l) = length (levels (w_locks w))
    else acquire_exclusive (w, p) = (Err Busy, (w, p))"
proof (cases "wp_held p < Exclusive")
  case True
  have "Shared \<le> wp_held p" using t by (auto simp: in_txn_def lock_order)
  then show ?thesis using exclusive_request [OF r, of "wp_handle p"] t h lv True
    by (auto simp: acquire_exclusive_def bindA_def lock_main_def set_held_def handle_open_def)
next
  case False
  then have e: "wp_held p = Exclusive" by (cases "wp_held p") (auto simp: lock_order)
  have "others (\<lambda>x. x < Shared) (wp_handle p) (w_locks w)"
    using lock_mutual_exclusion(2) [OF r, of "wp_handle p"] h lv e by (fastforce simp: others_def handle_open_def lock_order)
  moreover have "w\<lparr>w_locks := w_locks w\<rparr> = w" "p\<lparr>wp_held := Exclusive\<rparr> = p" using e by simp_all
  ultimately show ?thesis using t e
    by (auto simp: acquire_exclusive_def bindA_def [of acquire_write_intent] intro!: exI [of _ "w_locks w"])
qed

text \<open>A page reads the same whatever locks are held.\<close>

lemma logical_page_locks [simp]: "logical_page (w\<lparr>w_locks := l\<rparr>, p\<lparr>wp_held := x\<rparr>) = logical_page (w, p)"
  by (auto simp: logical_page_def committed_page_def read_main_def fun_eq_iff split: option.splits)

lemma rollback_commit_ready_locks:
  "rollback_commit_ready w p \<Longrightarrow> length (levels l) = length (levels (w_locks w)) \<Longrightarrow>
   rollback_commit_ready (w\<lparr>w_locks := l\<rparr>) (p\<lparr>wp_held := Exclusive\<rparr>)"
  unfolding rollback_commit_ready_def in_txn_def cache_ok_def handle_open_def by (elim conjE, intro conjI) (simp_all add: lock_order)

lemma commit_effect:
  assumes c: "rollback_commit_ready w p" "w_journal w = []" and ov: "wp_overlay p \<noteq> []" and av: "\<not> auto_vacuum_on p"
    and lk: "lock_reachable (w_locks w)" "levels (w_locks w) ! wp_handle p = wp_held p"
  shows "if others (\<lambda>x. x < Shared) (wp_handle p) (w_locks w)
    then \<exists>w' p' b. commit native_be fuel (w, p) = Some (Ok (), (w', p')) \<and> logical_page (w, p) 1 = Ok b \<and>
      w_journal w' = [] \<and> wp_held p' = Unlocked \<and> wp_overlay p' = [] \<and> wp_committed_header p' = new_header p \<and>
      length (w_main w') = unat (wp_page_count p) * wp_page_size p \<and>
      (\<forall>n. 0 < n \<and> n \<le> wp_page_count p \<longrightarrow>
        fst (read_page n (w', p')) = (if n = 1 then Ok (stamped_page1 p b) else logical_page (w, p) n))
    else commit native_be fuel (w, p) = Some (Err Busy, (w, p))"
proof -
  have t: "in_txn (w, p)" "handle_open (w, p)" "wp_wal p = None" using c(1) by (simp_all add: rollback_commit_ready_def)
  note x = acquire_exclusive_effect [OF t(1) lk(1) t(2) lk(2)]
  show ?thesis
  proof (cases "others (\<lambda>x. x < Shared) (wp_handle p) (w_locks w)")
    case True
    then obtain l where l: "acquire_exclusive (w, p) = (Ok (), (w\<lparr>w_locks := l\<rparr>, p\<lparr>wp_held := Exclusive\<rparr>))"
      "length (levels l) = length (levels (w_locks w))" using x by auto
    have "prepare_auto_vacuum fuel (w\<lparr>w_locks := l\<rparr>, p\<lparr>wp_held := Exclusive\<rparr>) = Some (Ok (), (w\<lparr>w_locks := l\<rparr>, p\<lparr>wp_held := Exclusive\<rparr>))"
      using av by (simp add: prepare_auto_vacuum_def auto_vacuum_on_def runL_def)
    then have e: "commit native_be fuel (w, p) = Some (commit_journaled (w\<lparr>w_locks := l\<rparr>, p\<lparr>wp_held := Exclusive\<rparr>))"
      using l(1) ov t(3) by (simp add: commit_def bindL_def runL_def)
    have n: "new_header (p\<lparr>wp_held := Exclusive\<rparr>) = new_header p" by (simp add: new_header_def bump_header_def Let_def)
    then have st: "stamped_page1 (p\<lparr>wp_held := Exclusive\<rparr>) = stamped_page1 p" by (simp add: stamped_page1_def fun_eq_iff)
    have j: "w_journal (w\<lparr>w_locks := l\<rparr>) = []" using c(2) by simp
    from commit_journaled_effect [OF rollback_commit_ready_locks [OF c(1) l(2)] j]
    show ?thesis using True unfolding e n st logical_page_locks by auto
  next
    case False
    then show ?thesis using x ov t(3) by (simp add: commit_def)
  qed
qed

section \<open>Checkpoints under the writer lock\<close>

text \<open>
  What a checkpoint of the shared state does: the backfill leaves an intermediate index with the same
  log, database and readers, caught up when no reader is pinned; the mode decides what follows.
\<close>

definition checkpoint_outcome :: "bool \<Rightarrow> nat \<Rightarrow> checkpoint_mode \<Rightarrow> wal_state \<Rightarrow> wal_state \<Rightarrow> bool \<Rightarrow> bool \<Rightarrow> bool" where
  "checkpoint_outcome native_be ps mode s s' busy trunc \<longleftrightarrow> (\<exists>ix1.
     finish_checkpoint native_be mode (ix_mx_frame (snd s)) ix1 = (snd s', busy, trunc) \<and>
     wal_inv ps (fst s', ix1) \<and> ix_readers ix1 = ix_readers (snd s) \<and> ix_log ix1 = ix_log (snd s) \<and>
     ix_mx_frame ix1 = ix_mx_frame (snd s) \<and> (ix_readers (snd s) = [] \<longrightarrow> ix_n_backfill ix1 = ix_mx_frame ix1) \<and>
     db_size ps (fst s', ix1) = db_size ps s \<and> db_view ps (fst s', ix1) = db_view ps s)"

definition after_checkpoint :: "bool \<Rightarrow> bool \<Rightarrow> bytes \<Rightarrow> wal_index \<Rightarrow> world \<Rightarrow> world" where
  "after_checkpoint has_wal trunc main ix w =
    w\<lparr>w_main := main, w_index := ix, w_wal := (if trunc \<and> has_wal then [] else w_wal w)\<rparr>"

lemma checkpoint_locked_effect:
  assumes inv: "wal_inv (wp_page_size p) (w_main w, w_index w)" and ps: "wp_page_size p \<le> 65536"
  shows "\<exists>main ix busy trunc p2. checkpoint_outcome native_be (wp_page_size p) mode (w_main w, w_index w) (main, ix) busy trunc \<and>
    checkpoint_locked native_be mode (w, p) = (Ok (busy, ix_mx_frame ix, ix_n_backfill ix),
      (after_checkpoint (wp_wal_file p) trunc main ix w, p2)) \<and>
    wp_held p2 = wp_held p \<and> wp_handle p2 = wp_handle p"
proof -
  let ?ix = "w_index w"
  note be = backfill_eq [OF inv ps]
  obtain main ix1 c wh where b: "backfill (wp_page_size p) (w_main w) ?ix = Ok (main, ix1, c, wh)"
    using be by (cases "ix_n_backfill ?ix < mx_safe_of ?ix") auto
  note bs = backfill_step [OF inv ps b, of Passive]
  obtain ix2 busy trunc where f: "finish_checkpoint native_be mode (ix_mx_frame ?ix) ix1 = (ix2, busy, trunc)"
    by (cases "finish_checkpoint native_be mode (ix_mx_frame ?ix) ix1")
  have lg: "ix_log ix1 = ix_log ?ix" using b be by (cases "ix_n_backfill ?ix < mx_safe_of ?ix") (auto simp: set_n_backfill_def)
  have nb: "ix_n_backfill ix1 = ix_mx_frame ix1" if r: "ix_readers ?ix = []"
  proof -
    have mx: "mx_safe_of ?ix = ix_mx_frame ?ix" using r by (simp add: mx_safe_of_def min_reader_mark_def)
    show ?thesis
    proof (cases "ix_n_backfill ?ix < mx_safe_of ?ix")
      case True
      then show ?thesis using b be mx by (auto simp: set_n_backfill_def)
    next
      case False
      then show ?thesis using b be mx n_backfill_le [OF inv] by auto
    qed
  qed
  have o1: "checkpoint_outcome native_be (wp_page_size p) mode (w_main w, ?ix) (main, ix2) busy trunc"
    unfolding checkpoint_outcome_def using f lg nb bs by (intro exI [of _ ix1]) (simp add: step_ok_def)
  have "file_truncate x 0 = []" for x by (simp add: file_truncate_def resize_def)
  then show ?thesis
    by (intro exI [of _ main] exI [of _ ix2] exI [of _ busy] exI [of _ trunc])
       (use o1 in \<open>simp add: checkpoint_locked_def Let_def b f after_checkpoint_def\<close>)
qed

text \<open>The writer lock of a checkpoint that has to take it.\<close>

lemma writer_lock_granted:
  assumes "lock_reachable (w_locks w)" "handle_open (w, p)" "levels (w_locks w) ! wp_handle p = wp_held p"
    and "wp_held p < Reserved" "mode \<noteq> Passive" "others (\<lambda>x. x < Reserved) (wp_handle p) (w_locks w)"
  shows "writer_lock_for mode (w, p) = (Ok (mode, True),
    (w\<lparr>w_locks := (w_locks w)\<lparr>locks := (locks (w_locks w))\<lparr>reserved := True\<rparr>, levels := (levels (w_locks w))[wp_handle p := Reserved]\<rparr>\<rparr>,
     p\<lparr>wp_held := Reserved\<rparr>))"
  using reserved_request [OF assms(1), of "wp_handle p"] assms(2-)
  by (simp add: writer_lock_for_def handle_open_def tryA_def lock_main_def set_held_def)

lemma writer_lock_refused:
  assumes "lock_reachable (w_locks w)" "handle_open (w, p)" "levels (w_locks w) ! wp_handle p = wp_held p"
    and "wp_held p < Reserved" "mode \<noteq> Passive" "\<not> others (\<lambda>x. x < Reserved) (wp_handle p) (w_locks w)"
  shows "writer_lock_for mode (w, p) = (Ok (Passive, False), (w, p))"
  using reserved_request [OF assms(1), of "wp_handle p"] assms(2-)
  by (simp add: writer_lock_for_def handle_open_def tryA_def lock_main_def)

lemma writer_lock_own: "Reserved \<le> wp_held p \<Longrightarrow> writer_lock_for mode (w, p) = (Ok (mode, False), (w, p))"
  by (auto simp: writer_lock_for_def not_less [symmetric])

text \<open>A checkpoint from the lock request to the reported triple.\<close>

lemma checkpoint_mode_run_effect:
  assumes wal: "wp_wal p \<noteq> None" and lk: "lock_reachable (w_locks w)" "handle_open (w, p)" "levels (w_locks w) ! wp_handle p = wp_held p"
    and mode: "mode \<noteq> Passive" and inv: "wal_inv (wp_page_size p) (w_main w, w_index w)" and ps: "wp_page_size p \<le> 65536"
    and mode2: "mode2 = (if others (\<lambda>x. x < Reserved) (wp_handle p) (w_locks w) then mode else Passive)"
  shows "\<exists>main ix busy trunc l p2. checkpoint_outcome native_be (wp_page_size p) mode2 (w_main w, w_index w) (main, ix) busy trunc \<and>
    checkpoint_mode_run native_be mode (w, p) = (Ok (if busy \<or> mode2 \<noteq> mode then 1 else 0, uint (ix_mx_frame ix), uint (ix_n_backfill ix)),
      ((after_checkpoint (wp_wal_file p) trunc main ix w)\<lparr>w_locks := l\<rparr>, p2)) \<and>
    wp_held p2 = wp_held p \<and>
    (wp_held p = Unlocked \<and> mode2 = mode \<longrightarrow> levels l = levels (w_locks w) \<and>
       locks l = (locks (w_locks w))\<lparr>reserved := False, shared := shared (locks (w_locks w)) - 1\<rparr>)"
proof -
  let ?h = "wp_handle p" and ?L = "w_locks w"
  consider (own) "Reserved \<le> wp_held p" | (granted) "wp_held p < Reserved" "others (\<lambda>x. x < Reserved) ?h ?L"
    | (refused) "wp_held p < Reserved" "\<not> others (\<lambda>x. x < Reserved) ?h ?L" by force
  then show ?thesis
  proof cases
    case own
    have m2: "mode2 = mode"
      using lock_mutual_exclusion(1) [OF lk(1), of ?h] lk(2,3) own by (fastforce simp: mode2 others_def handle_open_def lock_order)
    have nu: "wp_held p \<noteq> Unlocked" using own by (auto simp: lock_order)
    obtain main ix busy trunc p2 where c: "checkpoint_outcome native_be (wp_page_size p) mode (w_main w, w_index w) (main, ix) busy trunc"
      "checkpoint_locked native_be mode (w, p) = (Ok (busy, ix_mx_frame ix, ix_n_backfill ix), (after_checkpoint (wp_wal_file p) trunc main ix w, p2))"
      "wp_held p2 = wp_held p" using checkpoint_locked_effect [OF inv ps, of native_be mode] by blast
    have "checkpoint_mode_run native_be mode (w, p) = (Ok (if busy \<or> mode2 \<noteq> mode then 1 else 0, uint (ix_mx_frame ix), uint (ix_n_backfill ix)),
        ((after_checkpoint (wp_wal_file p) trunc main ix w)\<lparr>w_locks := w_locks w\<rparr>, p2))"
      using wal m2 c(2) writer_lock_own [OF own, of mode w]
      by (auto simp: checkpoint_mode_run_def bindA_def [of "writer_lock_for _"] tryA_def after_checkpoint_def)
    with c(1,3) m2 nu show ?thesis by blast
  next
    case granted
    have m2: "mode2 = mode" using granted by (simp add: mode2)
    let ?w = "w\<lparr>w_locks := ?L\<lparr>locks := (locks ?L)\<lparr>reserved := True\<rparr>, levels := (levels ?L)[?h := Reserved]\<rparr>\<rparr>"
    let ?p = "p\<lparr>wp_held := Reserved\<rparr>"
    note lf = writer_lock_granted [OF lk granted(1) mode granted(2)]
    have "wal_inv (wp_page_size ?p) (w_main ?w, w_index ?w)" "wp_page_size ?p \<le> 65536" using inv ps by simp_all
    from checkpoint_locked_effect [OF this, of native_be mode]
    obtain main ix busy trunc p2 where c: "checkpoint_outcome native_be (wp_page_size p) mode (w_main w, w_index w) (main, ix) busy trunc"
      "checkpoint_locked native_be mode (?w, ?p) = (Ok (busy, ix_mx_frame ix, ix_n_backfill ix), (after_checkpoint (wp_wal_file p) trunc main ix ?w, p2))"
      "wp_held p2 = Reserved" "wp_handle p2 = ?h" by auto
    let ?l = "?L\<lparr>locks := release ((locks ?L)\<lparr>reserved := True\<rparr>) Reserved (wp_held p), levels := levels ?L\<rparr>"
    have "(levels ?L)[?h := wp_held p] = levels ?L" using lk(3) by (metis list_update_id)
    then have u: "unlock_main (wp_held p) (after_checkpoint (wp_wal_file p) trunc main ix ?w, p2) =
        (Ok (), ((after_checkpoint (wp_wal_file p) trunc main ix w)\<lparr>w_locks := ?l\<rparr>, p2))"
      using lk(2) c(4) granted(1) by (simp add: unlock_main_def file_unlock_def handle_open_def after_checkpoint_def Let_def)
    have "checkpoint_mode_run native_be mode (w, p) = (Ok (if busy \<or> mode2 \<noteq> mode then 1 else 0, uint (ix_mx_frame ix), uint (ix_n_backfill ix)),
        ((after_checkpoint (wp_wal_file p) trunc main ix w)\<lparr>w_locks := ?l\<rparr>, p2\<lparr>wp_held := wp_held p\<rparr>))"
      using wal m2 c(2) lf u
      by (auto simp: checkpoint_mode_run_def bindA_def tryA_def set_held_def)
    moreover have "levels ?l = levels ?L \<and> locks ?l = (locks ?L)\<lparr>reserved := False, shared := shared (locks ?L) - 1\<rparr>"
      if "wp_held p = Unlocked" using that by (simp add: release_def Let_def lock_order)
    moreover have "wp_held (p2\<lparr>wp_held := wp_held p\<rparr>) = wp_held p" by simp
    ultimately show ?thesis using c(1) m2 by blast
  next
    case refused
    have m2: "mode2 = Passive" using refused by (simp add: mode2)
    obtain main ix busy trunc p2 where c: "checkpoint_outcome native_be (wp_page_size p) Passive (w_main w, w_index w) (main, ix) busy trunc"
      "checkpoint_locked native_be Passive (w, p) = (Ok (busy, ix_mx_frame ix, ix_n_backfill ix), (after_checkpoint (wp_wal_file p) trunc main ix w, p2))"
      "wp_held p2 = wp_held p" using checkpoint_locked_effect [OF inv ps, of native_be Passive] by blast
    have "checkpoint_mode_run native_be mode (w, p) = (Ok (if busy \<or> mode2 \<noteq> mode then 1 else 0, uint (ix_mx_frame ix), uint (ix_n_backfill ix)),
        ((after_checkpoint (wp_wal_file p) trunc main ix w)\<lparr>w_locks := w_locks w\<rparr>, p2))"
      using wal m2 c(2) writer_lock_refused [OF lk refused(1) mode refused(2)]
      by (auto simp: checkpoint_mode_run_def bindA_def [of "writer_lock_for _"] tryA_def after_checkpoint_def)
    with c(1,3) m2 mode show ?thesis by blast
  qed
qed

text \<open>A checkpoint in mode \<open>TRUNCATE\<close>, on both outcomes.\<close>

lemma outcome_drained:
  assumes "checkpoint_outcome native_be ps Truncate s (main, ix) busy trunc" and "ix_readers (snd s) = []"
  shows "\<not> busy \<and> trunc \<and> ix_log ix = [] \<and> ix_mx_frame ix = 0 \<and> ix_n_backfill ix = 0"
    and "0 < n \<Longrightarrow> n \<le> db_size ps s \<Longrightarrow> db_view ps s n = Some (file_page ps main (unat n))"
proof -
  obtain ix1 where ix1: "finish_checkpoint native_be Truncate (ix_mx_frame (snd s)) ix1 = (ix, busy, trunc)" "wal_inv ps (main, ix1)"
    "ix_readers ix1 = []" "ix_mx_frame ix1 = ix_mx_frame (snd s)" "ix_n_backfill ix1 = ix_mx_frame ix1"
    "db_size ps (main, ix1) = db_size ps s" "db_view ps (main, ix1) = db_view ps s"
    using assms by (auto simp: checkpoint_outcome_def)
  show "\<not> busy \<and> trunc \<and> ix_log ix = [] \<and> ix_mx_frame ix = 0 \<and> ix_n_backfill ix = 0"
    using ix1(1,3-5) by (auto simp: finish_checkpoint_def restart_hdr_def min_reader_mark_def)
  show "db_view ps s n = Some (file_page ps main (unat n))" if "0 < n" "n \<le> db_size ps s"
    using whole_backed [OF ix1(2,5) that(1)] ix1(6,7) that(2) by simp
qed

lemma outcome_kept:
  assumes "checkpoint_outcome native_be ps mode s (main, ix) busy trunc" and "mode = Passive \<or> ix_readers (snd s) \<noteq> []"
  shows "\<not> trunc \<and> (mode = Truncate \<longrightarrow> busy) \<and> ix_log ix = ix_log (snd s) \<and> db_view ps (main, ix) = db_view ps s"
  using assms by (auto simp: checkpoint_outcome_def finish_checkpoint_def min_reader_mark_def split: if_splits)

lemma checkpoint_truncate_effect:
  assumes wal: "wp_wal p \<noteq> None" and lk: "lock_reachable (w_locks w)" "handle_open (w, p)" "levels (w_locks w) ! wp_handle p = wp_held p"
    and inv: "wal_inv (wp_page_size p) (w_main w, w_index w)" and ps: "wp_page_size p \<le> 65536"
  shows "\<exists>r w' p'. checkpoint_mode_run native_be Truncate (w, p) = (Ok r, (w', p')) \<and> wp_held p' = wp_held p \<and>
    (if ix_readers (w_index w) = [] \<and> others (\<lambda>x. x < Reserved) (wp_handle p) (w_locks w)
     then r = (0, 0, 0) \<and> ix_log (w_index w') = [] \<and> (wp_wal_file p \<longrightarrow> w_wal w' = []) \<and>
       (\<forall>n. 0 < n \<and> n \<le> db_size (wp_page_size p) (w_main w, w_index w) \<longrightarrow>
         db_view (wp_page_size p) (w_main w, w_index w) n = Some (file_page (wp_page_size p) (w_main w') (unat n)))
     else fst r = 1 \<and> ix_log (w_index w') = ix_log (w_index w) \<and> w_wal w' = w_wal w \<and>
       db_view (wp_page_size p) (w_main w', w_index w') = db_view (wp_page_size p) (w_main w, w_index w))"
proof -
  have "Truncate \<noteq> Passive" by simp
  define mode2 where m: "mode2 = (if others (\<lambda>x. x < Reserved) (wp_handle p) (w_locks w) then Truncate else Passive)"
  obtain main ix busy trunc l p2 where c:
    "checkpoint_outcome native_be (wp_page_size p) mode2 (w_main w, w_index w) (main, ix) busy trunc"
    "checkpoint_mode_run native_be Truncate (w, p) = (Ok (if busy \<or> mode2 \<noteq> Truncate then 1 else 0, uint (ix_mx_frame ix), uint (ix_n_backfill ix)),
      ((after_checkpoint (wp_wal_file p) trunc main ix w)\<lparr>w_locks := l\<rparr>, p2))" "wp_held p2 = wp_held p"
    using checkpoint_mode_run_effect [OF wal lk \<open>Truncate \<noteq> Passive\<close> inv ps m, of native_be] by blast
  show ?thesis
  proof (cases "ix_readers (w_index w) = [] \<and> others (\<lambda>x. x < Reserved) (wp_handle p) (w_locks w)")
    case True
    then have o1: "checkpoint_outcome native_be (wp_page_size p) Truncate (w_main w, w_index w) (main, ix) busy trunc"
      "ix_readers (snd (w_main w, w_index w)) = []" "mode2 = Truncate" using c(1) m by simp_all
    show ?thesis using True c(2,3) o1(3) outcome_drained(1) [OF o1(1,2)] outcome_drained(2) [OF o1(1,2)]
      by (simp add: after_checkpoint_def)
  next
    case False
    then have "mode2 = Passive \<or> ix_readers (snd (w_main w, w_index w)) \<noteq> []" "mode2 = Truncate \<or> mode2 = Passive" using m by auto
    then show ?thesis using False c(2,3) outcome_kept [OF c(1)] by (auto simp: after_checkpoint_def)
  qed
qed

section \<open>A reader dropped from the count\<close>

text \<open>
  \<open>checkpoint_mode\<close> asks for \<open>RESERVED\<close> from \<open>UNLOCKED\<close>, which no other operation does, and steps back to
  \<open>UNLOCKED\<close>: the step down takes a reader off the count that the step up did not add.
\<close>

lemma checkpoint_drops_reader:
  assumes wal: "wp_wal p \<noteq> None" and lk: "lock_reachable (w_locks w)" "handle_open (w, p)" "levels (w_locks w) ! wp_handle p = Unlocked"
    and held: "wp_held p = Unlocked" and mode: "mode \<noteq> Passive"
    and inv: "wal_inv (wp_page_size p) (w_main w, w_index w)" and ps: "wp_page_size p \<le> 65536"
    and free: "held Reserved (w_locks w) = 0" and rd: "0 < held Shared (w_locks w)"
  obtains r w' p' where "checkpoint_mode_run native_be mode (w, p) = (Ok r, (w', p'))" "levels (w_locks w') = levels (w_locks w)"
    "shared (locks (w_locks w')) + 1 = held Shared (w_locks w')" "\<not> reserved (locks (w_locks w'))"
    "\<not> pending (locks (w_locks w'))" "\<not> exclusive (locks (w_locks w'))"
proof -
  have "others (\<lambda>x. x < Reserved) (wp_handle p) (w_locks w)"
    using held_alone [of "wp_handle p" "w_locks w" Reserved] lk(2,3) free by (simp add: handle_open_def lock_order)
  then have m: "mode = (if others (\<lambda>x. x < Reserved) (wp_handle p) (w_locks w) then mode else Passive)" by simp
  have lv: "levels (w_locks w) ! wp_handle p = wp_held p" using lk(3) held by simp
  obtain main ix busy trunc l p2 where
    c: "checkpoint_mode_run native_be mode (w, p) = (Ok (if busy \<or> mode \<noteq> mode then 1 else 0, uint (ix_mx_frame ix), uint (ix_n_backfill ix)),
      ((after_checkpoint (wp_wal_file p) trunc main ix w)\<lparr>w_locks := l\<rparr>, p2))" "levels l = levels (w_locks w)"
      "locks l = (locks (w_locks w))\<lparr>reserved := False, shared := shared (locks (w_locks w)) - 1\<rparr>"
    using checkpoint_mode_run_effect [OF wal lk(1,2) lv mode inv ps m, of native_be] held by blast
  have "held Shared l = held Shared (w_locks w)" using c(2) by (simp add: held_def)
  then show thesis using that [OF c(1)] c(2,3) lock_inv_reachable [OF lk(1)] rd free held_chain [of "w_locks w"]
    by (auto simp: lock_inv_def)
qed

text \<open>With the only reader off the count, another handle climbs to \<open>EXCLUSIVE\<close> beside it.\<close>

lemma climb_past_reader:
  assumes "shared (locks s) = 0" "\<not> reserved (locks s)" "\<not> pending (locks s)" "\<not> exclusive (locks s)"
    and "k < length (levels s)" "levels s ! k = Unlocked"
  shows "\<exists>s1 s2 s3. file_lock s k Shared = Ok s1 \<and> file_lock s1 k Reserved = Ok s2 \<and> file_lock s2 k Exclusive = Ok s3 \<and>
    levels s3 = (levels s)[k := Exclusive]"
  using assms by (simp add: file_lock_def acquire_def lock_order)

end
