(* ===== verification/Spec2Isabelle.thy ===== *)
theory Spec2Isabelle
  imports SchemaReader FreeList WalRecovery WalReaders CommitEffect CrashLimits TableCycle IndexRead LockedRuns
begin

text \<open>
  A verification library for graphitesql, a Rust implementation of the SQLite file format and
  engine. It covers the storage engine, from the bytes of the files up to the schema catalog. Paths
  below are those of the crate, under \<open>src/src\<close>.

  \<^bold>\<open>The program.\<close> A database is a file of pages. Page 1 starts with a 100-byte header
  (\<open>format/header.rs\<close>); tables and indexes are b-trees of pages (\<open>btree/page.rs\<close>) whose
  cells hold records (\<open>format/record.rs\<close>) made of varints (\<open>util/varint.rs\<close>) and values
  (\<open>value.rs\<close>). The read-only pager (\<open>pager/mod.rs\<close>) reads pages through an LRU cache
  (\<open>pager/pcache.rs\<close>). The write pager (\<open>pager/write.rs\<close>) stages changed pages in an
  overlay and commits them in one of two ways: in rollback mode it saves the old pages to a journal,
  writes the new ones in place and clears the journal, and an open that finds a journal plays it back;
  in WAL mode it appends frames to the \<open>-wal\<close> file and publishes them in an index shared by the
  connections (\<open>pager/wal.rs\<close>), and a checkpoint copies them to the main file later. Connections
  exclude each other with the locks of \<open>vfs/mod.rs\<close>. Cursors (\<open>btree/cursor.rs\<close>) walk
  the b-trees through either pager, and the schema reader (\<open>schema/mod.rs\<close>) is their first client.
  The b-tree writers change trees through the write pager: \<open>btree/writer.rs\<close> tables,
  \<open>btree/index_writer.rs\<close> indexes, which it also searches; both spread the cells of an
  overfull leaf over its siblings with \<open>btree/balance.rs\<close>.

  \<^bold>\<open>Conventions.\<close> Machine integers are words of their width; \<open>usize\<close> and
  \<open>u64\<close> offsets are naturals where the code cannot wrap them, with the bound as a hypothesis or
  in the invariant; \<open>usize\<close> has 64 bits, so conversions from \<open>u64\<close> keep the value. A usable page
  size is at most 65536, as the header parser guarantees; PageFormat shows that the payload rule
  cannot overflow for such sizes (\<open>payload_split_usize\<close>). Memory is unlimited: an allocation, as of a
  corrupt payload length in \<open>read_payload\<close>, does not fail. A fallible call returns \<^typ>\<open>'a res\<close> (theory Errors): a value, an error of the
  crate's enum, or \<open>Panic\<close> for an out-of-range index, slice or subtraction. Calls that change state
  are functions of type \<^typ>\<open>('s, 'a) act\<close>, which return the result and the state also when they
  fail, so what a failed call leaves behind is part of the model; loops whose end depends on the bytes
  of the file are \<^typ>\<open>('s, 'a) lact\<close>, with fuel and \<open>None\<close> for running out of it
  (theory StateResult).

  \<^bold>\<open>Theories.\<close>

  \<^item> Prelude: big-endian bytes, overwriting a slice, fold and option lemmas, the collections
    \<open>no_panic\<close> and others that the component proofs use. Errors, StateResult: results and the two
    state monads. BTreeMap: Rust's ordered map as a sorted association list.
  \<^item> Varint, Float64, Values, Header, RecordFormat, PageFormat, Ptrmap: the file format. Round trips of
    varints, headers and records, exact comparison of integers with doubles, total preorders of the
    value comparisons (locale \<open>comparator\<close>), accessors of a page that cannot panic on any bytes, the
    payload split and the layout of pointer-map entries.
  \<^item> Locks, MemoryFile: the lock state machine with its reachable states, and the byte files. PageCache,
    Pager: the cache with its bound and eviction order, behind the locale \<open>read_cache\<close>; reads of
    the read-only pager are reads of the file.
  \<^item> Journal, CrashRecovery, CrashLimits: the disk operations of a rollback-mode commit as a list, a crash
    at any operation (the last one torn at any byte), and recovery. CrashRecovery shows that what is left
    is the old or the new file; CrashLimits proves the two cases where the code does not reach that, a
    commit that shrinks the file and the first commit of a database, on the recovery of the open path.
  \<^item> Wal, WalIndex, WalSystem, WalReaders, WalRecovery: the log. Wal models the file and its reader, and
    shows that a commit cut short is invisible. WalIndex models the shared index, the commit's
    publication and the checkpoint. WalSystem is the step relation of commits, pins, unpins and
    checkpoints on the main file and the index, with the invariant and the refinement of an abstract
    database (a size and a map from page numbers to bytes). WalReaders adds the stability of a pinned
    snapshot. WalRecovery connects the bytes of the log file with the
    index: what the writer appends is what a later attachment reads, across log restarts that leave stale
    frames behind.
  \<^item> WritePager, AutoVacuum, PagerCommit, PagerOpen: \<open>pager/write.rs\<close> function by function:
    locks, reads, staged writes, allocation, free list, savepoints, rollback; the pointer-map rebuild and
    the relocation of pages; both commits, checkpoint, image replacement; opening, creation and hot-journal
    recovery.
  \<^item> Transactions, FreeList, CommitEffect, LockedRuns: what the write pager promises. A page read is the overlay's
    page or the committed one (\<open>logical_page\<close>), whatever the cache holds; rollback and savepoints
    restore; free and allocate implement a stack of page numbers (locale \<open>page_stack\<close>); a
    journaled commit makes the overlay the committed database. Some definitions are parts of an operation:
    \<open>commit_journaled\<close> of \<open>commit\<close>, \<open>append_frames\<close> of \<open>commit_wal\<close>,
    \<open>checkpoint_core\<close> of \<open>checkpoint_mode\<close>. LockedRuns treats \<open>commit\<close> and
    \<open>checkpoint_mode\<close> whole, with the lock they ask for, for what the other connections hold: granted or
    busy.
  \<^item> Cursor, CursorScan, SchemaReader: the cursors and their client. CursorScan states what a page source
    must give (locale \<open>page_reader\<close>, interpreted for both pagers), defines when pages form a tree,
    and shows that first/next enumerate its cells in order and that seek finds a key; SchemaReader
    proves that the catalog read is complete.
  \<^item> Balance: the choice of sibling pages and the distribution of cells over them, with the proof that
    every page of a distribution fits and how many pages there can be.
  \<^item> TableWriter, PageImages, PagerHeap, TableTree, TableInsert, TableSplit, TableRefine, TableRoot,
    TableRows, TableRead, TableCycle: tables. TableWriter has the definitions. PageImages proves what a
    serialized page parses to. PagerHeap states what the writers need of the pager (locale
    \<open>page_heap\<close>: a partial map from owned pages to bytes, read, written, allocated and freed) and
    interprets it for the write pager inside a transaction; \<open>runs m s Q\<close> says that an action succeeds
    with a postcondition. TableTree defines when the owned pages form a tree of rows, TableInsert and
    TableSplit treat the steps of an insertion (leaf update, redistribution, split of an interior page),
    TableRefine the recursion, TableRoot the growth of the root, TableRows the overflow chains and the
    refinement of the update of a map. TableRead connects these trees with the cursors; TableCycle
    shows that a cycle of pages ends in an error.
  \<^item> IndexSeek: searching indexes, with the equality seek and the range scan proved against lists of
    records for any page source. IndexWriter, IndexImages, IndexTree, IndexInsert, IndexBalance,
    IndexSplit, TextKept, IndexRefine, IndexRoot, IndexRows, IndexOrder, IndexRead: writing indexes, in the
    same order of steps. IndexWriter has the definitions; IndexTree defines the list of entries of a tree
    (leaf entries interleaved with those of interior pages, since a split promotes an entry);
    IndexRefine and IndexRoot prove that an insertion is one into that list; IndexOrder proves that the
    comparison of records is a strict order, so the list stays sorted; IndexRead that the searches of
    IndexSeek find what was inserted.

  \<^bold>\<open>Fuel.\<close> \<open>read_payload\<close> needs more fuel than the payload has bytes, since every
  overflow page contributes at least one byte; first and next need more than the height plus the number of
  leaves of the tree, seek twice the height plus the leaves. On pages that do not form a tree the code may
  loop forever, which the model shows as \<open>None\<close> for every fuel. The walks of AutoVacuum take fuel
  for the same reason. The loop that finds the length of a record header
  is a \<open>partial_function\<close> and is proved to end. An insertion descends at most 20 levels, the limit of
  the code, and needs no fuel; it may take 10 pages for each level of the tree, 4 or 6 at the root and the overflow
  chain of the row, and the theorems assume that the file can grow by that many (\<open>insert_room\<close>,
  \<open>index_room\<close>). The walks that delete, clear or free trees and chains have no limit in the code and
  take fuel; they are modelled, and no refinement is proved of them. The seek walks need
  more fuel than the height.

  \<^bold>\<open>Crash model.\<close> A crash keeps a prefix of the operations of a commit and any prefix of the
  bytes of the next one; writes are not reordered. Reordering between two syncs is not modelled.
  The four bytes of the journal's record count lie in one sector and are written atomically, and so is a
  truncation. The first commit of a database, with no page on disk, is outside the theorem of atomicity.

  \<^bold>\<open>Not modelled.\<close> The SQL front end (\<open>sql/\<close>), the executor (\<open>exec/\<close>), virtual
  tables, full-text search, sessions and the utility codecs: they stand above the storage engine, are far
  larger than it, and reach it through the operations above.
  The operating-system file layer, the C and WebAssembly bindings and the shell are I/O and glue. The
  rendering of a string with \<open>{:?}\<close> and the native byte order are parameters.
\<close>

section \<open>Concrete data\<close>

text \<open>Small instances of the model's states, at which the properties are applied.\<close>

definition demo_header :: database_header where
  "demo_header =
    \<lparr>page_size = 512, write_version = 1, read_version = 1, reserved_space = 0, change_counter = 7,
     size_in_pages = 1, freelist_trunk = 0, freelist_count = 0, schema_cookie = 1, schema_format = 4,
     default_cache_size = 0, largest_root_page = 0, header_text_encoding = Utf8, user_version = 0,
     incremental_vacuum = 0, application_id = 0, version_valid_for = 7, sqlite_version_number = 3045000\<rparr>"

definition demo_db :: bytes where
  "demo_db = header_bytes demo_header @ replicate 412 0"

definition demo_commit :: commit_ctx where
  "demo_commit =
    \<lparr>cx_counter = 1, cx_disk_pages = 1, cx_pages = 1, cx_psize = 512,
     cx_overlay = [(1, replicate 512 9)], cx_file = replicate 512 7\<rparr>"

definition demo_cache :: page_cache where
  "demo_cache =
    \<lparr>cache_map = [(3, \<lparr>entry_data = [1], last_used = 2\<rparr>), (8, \<lparr>entry_data = [2], last_used = 1\<rparr>)],
     capacity = 2, clock = 2, hits = 0, misses = 0\<rparr>"

lemma demo_header_wf: "header_wf demo_header"
  by (auto simp: header_wf_def demo_header_def intro!: bexI [of _ 9])

lemma demo_db_length: "length demo_db = 512"
  by (simp add: demo_db_def)

lemma demo_db_open: "\<exists>p. pager_open demo_db = Ok p \<and> p_page_size p = 512 \<and> unat (p_page_count p) = 1"
proof -
  have "header_parse (take 100 demo_db) = Ok demo_header"
    using header_parse_bytes [OF demo_header_wf, of "[]"] by (simp add: demo_db_def)
  moreover have "unat (page_size demo_header) = 512" by (simp add: demo_header_def)
  ultimately show ?thesis using demo_db_length
    by (simp add: pager_open_def file_size_def HEADER_LEN_def Let_def)
qed

lemma demo_commit_ok: "commit_ok demo_commit"
proof -
  have "is_power_of_two_nat 512" by (simp add: is_power_of_two_nat_def upt_conv_Cons)
  then show ?thesis
    by (simp add: commit_ok_def demo_commit_def bm_inv_def pages_ok_def bm_contains_def bm_get_def)
qed

lemma demo_locks_reachable: "\<exists>s. lock_reachable s \<and> levels s = [Reserved, Shared]"
proof -
  let ?L = "\<lambda>n lv. \<lparr>locks = default_locks\<lparr>shared := n\<rparr>, levels = lv\<rparr>"
  let ?R = "\<lparr>locks = default_locks\<lparr>shared := 2, reserved := True\<rparr>, levels = [Reserved, Shared]\<rparr>"
  have "lock_reachable (?L 0 [])" using lock_reachable.Start by (simp add: default_locks_def)
  moreover have "lock_step (?L 0 []) (?L 0 [Unlocked])" "lock_step (?L 0 [Unlocked]) (?L 0 [Unlocked, Unlocked])"
    using lock_step.Open [of "?L 0 []"] lock_step.Open [of "?L 0 [Unlocked]"] by (simp_all add: open_handle_def)
  moreover have "lock_step (?L 0 [Unlocked, Unlocked]) (?L 1 [Shared, Unlocked])"
    by (rule lock_step.Lock [of 0 _ Shared]) (simp_all add: file_lock_def acquire_def default_locks_def lock_order)
  moreover have "lock_step (?L 1 [Shared, Unlocked]) (?L 2 [Shared, Shared])"
    by (rule lock_step.Lock [of 1 _ Shared]) (simp_all add: file_lock_def acquire_def default_locks_def lock_order)
  moreover have "lock_step (?L 2 [Shared, Shared]) ?R"
    by (rule lock_step.Lock [of 0 _ Reserved]) (simp_all add: file_lock_def acquire_def default_locks_def lock_order)
  ultimately have "lock_reachable ?R" by (meson lock_reachable.Step)
  then show ?thesis by (intro exI [of _ ?R]) simp
qed

definition demo_pager :: write_pager where
  "demo_pager = (new_pager 0 True True demo_header 512 1 1 None)\<lparr>wp_held := Reserved\<rparr>"

definition demo_locks :: lock_sys where
  "demo_locks = \<lparr>locks = default_locks\<lparr>shared := 1, reserved := True\<rparr>, levels = [Reserved]\<rparr>"

definition demo_world :: world where
  "demo_world = \<lparr>w_main = demo_db, w_journal = [], w_wal = [], w_locks = demo_locks,
     w_index = (index_new False)\<lparr>ix_salt := replicate 8 1\<rparr>\<rparr>"

definition demo_overlay :: "(u32, bytes) btree_map" where
  "demo_overlay = [(1, replicate 512 9)]"

lemma demo_pager_sel:
  "wp_held demo_pager = Reserved" "wp_page_size demo_pager = 512" "wp_header demo_pager = demo_header"
  "wp_disk_pages demo_pager = 1" "wp_page_count demo_pager = 1" "wp_wal demo_pager = None" "wp_journal demo_pager"
  "wp_handle demo_pager = 0" "wp_overlay demo_pager = []" "wp_committed_header demo_pager = demo_header"
  "wp_savepoints demo_pager = []" "wp_wal_file demo_pager"
  by (simp_all add: demo_pager_def new_pager_def)

lemma demo_txn: "in_txn (demo_world, demo_pager)" "cache_ok (demo_world, demo_pager)" "handle_open (demo_world, demo_pager)"
  by (simp_all add: in_txn_def cache_ok_def handle_open_def demo_pager_sel demo_world_def demo_locks_def demo_db_length
      lock_order pcache.coherent_def)
    (use cache_new_inv in \<open>simp add: demo_pager_def new_pager_def cache_lookup_def cache_new_def bm_get_def\<close>)

lemma demo_pages_ok: "bm_inv demo_overlay" "pages_ok 512 demo_overlay"
  by (simp_all add: demo_overlay_def bm_inv_def pages_ok_def)

lemma demo_wal_world: "wal_world False 512 demo_world"
proof -
  have "wal_inv 512 (demo_db, (index_new False)\<lparr>ix_salt := replicate 8 1\<rparr>)"
    by (auto simp: wal_inv_def index_new_def index_wf_def boundary_def covered_def backed_def snap_size_def
        snapshot_db_size_def demo_db_length word_le_nat_alt)
  moreover have "file_inv 512 [] ((index_new False)\<lparr>ix_salt := replicate 8 1\<rparr>)"
    by (simp add: file_inv_def index_new_def stale_ok_def)
  ultimately show ?thesis by (simp add: wal_world_def demo_world_def index_new_def)
qed

lemma demo_commit_ready: "commit_ready False demo_world (demo_pager\<lparr>wp_overlay := demo_overlay\<rparr>)"
proof -
  have "maybe_restart False (w_index demo_world) = w_index demo_world"
    by (simp add: maybe_restart_def demo_world_def index_new_def)
  moreover have "db_size 512 (w_main demo_world, w_index demo_world) = 1"
    by (simp add: db_size_def snap_size_def snapshot_db_size_def demo_world_def index_new_def demo_db_length)
  ultimately show ?thesis using demo_pages_ok
    by (auto simp: commit_ready_def demo_pager_sel demo_world_def demo_overlay_def index_new_def WAL_HEADER_LEN_def)
qed

definition demo_append :: "wal_index \<Rightarrow> wal_index" where
  "demo_append ix = publish (replicate 8 1) 512 [(1, 1, replicate 512 9, 568, (0, 0))] (maybe_restart False ix)"

lemma demo_append_step:
  assumes "ix_log ix = []"
  shows "wal_step False 512 (Commit demo_overlay 1) (demo_db, ix) (demo_db, demo_append ix)"
proof -
  have "db_size 512 (demo_db, ix) = 1"
    using assms by (simp add: db_size_def snap_size_def snapshot_db_size_def demo_db_length)
  then show ?thesis unfolding demo_append_def
    using demo_pages_ok(2) assms by (intro wal_step.Commit) (auto simp: demo_overlay_def)
qed

lemma demo_append_sel: "ix_mx_frame ix = 0 \<Longrightarrow> ix_log (demo_append ix) \<noteq> [] \<and> ix_readers (demo_append ix) = ix_readers ix"
  by (simp add: demo_append_def publish_def index_append_def maybe_restart_def)

lemma demo_committed: "\<exists>ix. wal_reachable False 512 (demo_db, ix) \<and> ix_log ix \<noteq> [] \<and> ix_readers ix = []"
proof -
  have "ix_log (index_new False) = []" "ix_mx_frame (index_new False) = 0" "ix_readers (index_new False) = []"
    by (simp_all add: index_new_def)
  then show ?thesis using wal_reachable.Step [OF wal_reachable.Start demo_append_step] demo_append_sel by metis
qed

lemma demo_pinned_run:
  "\<exists>s'. pinned_run False 512 0 (demo_db, register_reader 0 (index_new False)) s' \<and> ix_log (snd s') \<noteq> []"
proof -
  let ?ix = "register_reader 0 (index_new False)"
  have ix: "ix_log ?ix = []" "0 \<in> set (ix_readers ?ix)" "ix_mx_frame ?ix = 0" by (simp_all add: register_reader_def index_new_def)
  have "pinned_run False 512 0 (demo_db, ?ix) (demo_db, demo_append ?ix)"
    using pinned_run.Move [OF pinned_run.Stay _ demo_append_step [OF ix(1)]] ix(2) by simp
  then show ?thesis using demo_append_sel [OF ix(3)] by (intro exI [of _ "(demo_db, demo_append ?ix)"]) simp
qed

lemma demo_shrink_ops: "\<exists>ops. commit_ops 1 2 1 512 [(1, replicate 512 9)] (replicate 512 7 @ replicate 512 8) = Ok ops"
  by (simp add: commit_ops_def journal_originals_def bm_keys_def)

lemma demo_first_ops: "\<exists>ops. commit_ops 0 0 1 512 demo_overlay [] = Ok ops"
  by (simp add: commit_ops_def journal_originals_def bm_keys_def demo_overlay_def)

lemma demo_logged:
  "\<exists>w :: world. file_inv 512 (w_wal w) (w_index w) \<and> ix_log (w_index w) \<noteq> [] \<and>
    if_commit_db_size (last (ix_log (w_index w))) = 1 \<and> length (w_wal w) < 2 ^ 64"
proof -
  obtain w' p' where w': "wal_world False 512 w'" "length (w_wal w') < 2 ^ 64" "ix_log (w_index w') \<noteq> []"
    "wal_step False 512 (Commit demo_overlay 1) (w_main demo_world, w_index demo_world) (w_main w', w_index w')"
    using append_frames_commits [OF _ _ _ demo_commit_ready] demo_wal_world by (auto simp: demo_pager_sel)
  from w'(4) have "if_commit_db_size (last (ix_log (w_index w'))) = 1"
    by cases (auto simp: demo_overlay_def publish_def index_append_def Let_def map_eq_Cons_conv split: prod.splits)
  then show ?thesis using w' by (intro exI [of _ w'] conjI) (simp_all add: wal_world_def)
qed

text \<open>A catalog of one table, and the leaf page that holds it.\<close>

definition demo_row :: bytes where
  "demo_row = [6, 23, 15, 15, 1, 0, 116, 97, 98, 108, 101, 116, 116, 2]"

definition demo_page1 :: bytes where
  "demo_page1 = header_bytes demo_header @ [13, 0, 0, 0, 1, 0, 0, 0, 0, 110] @ [14, 1] @ demo_row @ replicate 386 0"

definition demo_leaf :: btree_page where
  "demo_leaf = \<lparr>bt_page = page_from_bytes 1 demo_page1, bt_type = LeafTable, bt_body = 100, num_cells = 1, right_pointer = 0\<rparr>"

definition demo_catalog :: pst where
  "demo_catalog = (demo_world, demo_pager\<lparr>wp_overlay := [(1, demo_page1)]\<rparr>)"

definition demo_object :: schema_object where
  "demo_object = \<lparr>so_type = ObjTable, so_name = [116], so_tbl_name = [116], so_rootpage = 2, so_sql = None\<rparr>"

lemma demo_row_length: "length demo_row = 14"
  by (simp add: demo_row_def)

lemma demo_page1_length: "length demo_page1 = 512"
  by (simp add: demo_page1_def demo_row_length)

lemma demo_page1_drop: "100 \<le> k \<Longrightarrow> drop k demo_page1 = drop (k - 100) ([13, 0, 0, 0, 1, 0, 0, 0, 0, 110] @ [14, 1] @ demo_row @ replicate 386 0)"
  by (simp add: demo_page1_def)

lemma demo_leaf_parse: "btree_page_parse (page_from_bytes 1 demo_page1) = Ok demo_leaf"
  using demo_page1_length
  by (simp add: btree_page_parse_def page_from_bytes_def body_offset_def HEADER_LEN_def Let_def idx_def be_u16_def slice_def
      demo_page1_drop page_type_from_byte_def page_header_len_def from_be16_def demo_leaf_def)
     (simp add: demo_page1_def nth_append)

lemma demo_leaf_slice: "slice (bt_data demo_leaf) 112 126 = Ok demo_row"
  using demo_page1_length
  by (simp add: slice_def demo_leaf_def page_from_bytes_def demo_page1_drop demo_row_length)

lemma demo_leaf_offset: "cell_offset demo_leaf 0 = Ok 110"
  using demo_page1_length
  by (simp add: cell_offset_def demo_leaf_def page_from_bytes_def Let_def be_u16_def slice_def demo_page1_drop page_header_len_def from_be16_def)

lemma demo_varints: "varint_encode 14 = [14]" "varint_len 14 = 1" "varint_encode_i64 1 = [1]" "varint_len 1 = 1"
  by code_simp+

lemma demo_leaf_cell: "table_leaf_cell demo_leaf 0 512 =
    Ok \<lparr>cell_rowid = 1, cell_payload = \<lparr>total_len = 14, local_offset = 112, local_len = 14, overflow = 0\<rparr>\<rparr>"
proof -
  have "varint_decode (14 # xs) = Some (14, 1)" "varint_decode_i64 (1 # xs) = Some (1, 1)" for xs
    using varint_decode_encode [of 14 xs] varint_decode_encode_i64 [of 1 xs] by (simp_all add: demo_varints)
  then show ?thesis
  using demo_page1_length
  by (simp add: table_leaf_cell_def demo_leaf_offset Let_def slice_from_def payload_at_def payload_split_def payload_max_local_def)
   (simp add: demo_leaf_def page_from_bytes_def demo_page1_drop ok_or_def)
qed

lemma demo_row_decode: "bindR (decode_record demo_row Utf8) (parse_schema_row (\<lambda>s. ''?'')) = Ok demo_object"
  by code_simp
lemma demo_slots: "slots (Leaf demo_leaf) = [(demo_leaf, 0)]"
  by (simp add: demo_leaf_def)

lemma demo_leaf_keys: "row_key 512 (demo_leaf, 0) = 1"
  by (simp add: row_key_def demo_leaf_cell)

lemma demo_leaf_search: "search_tree 512 (Leaf demo_leaf)"
  using demo_slots by (simp add: demo_leaf_cell is_ok_def demo_leaf_def [THEN arg_cong [of _ _ num_cells]])

lemma demo_catalog_ok: "cache_ok demo_catalog" "tree_at (wp_store demo_catalog) SCHEMA_ROOT_PAGE (Leaf demo_leaf)"
proof -
  show "cache_ok demo_catalog" using demo_txn(2) by (simp add: demo_catalog_def cache_ok_def)
  have "wp_store demo_catalog 1 = Some (page_from_bytes 1 demo_page1)"
    by (simp add: wp_store_def logical_page_def demo_catalog_def bm_get_def)
  then show "tree_at (wp_store demo_catalog) SCHEMA_ROOT_PAGE (Leaf demo_leaf)"
    using demo_leaf_parse by (simp add: page_is_def SCHEMA_ROOT_PAGE_def demo_leaf_def)
qed

lemma demo_chain: "chain_bytes store 512 14 0 b0 b \<longleftrightarrow> b = b0"
  by (subst chain_bytes.simps) simp

lemma demo_row_bytes: "row_bytes store 512 (demo_leaf, 0) b \<longleftrightarrow> b = demo_row"
  by (auto simp: row_bytes_def Let_def demo_leaf_cell demo_leaf_slice demo_chain demo_row_length)

lemma demo_catalog_rows: "list_all2 (row_object (\<lambda>s. ''?'') (wp_store demo_catalog) 512 Utf8) (slots (Leaf demo_leaf)) [demo_object]"
proof -
  have "row_object (\<lambda>s. ''?'') (wp_store demo_catalog) 512 Utf8 (demo_leaf, 0) demo_object"
    using demo_row_decode by (cases "decode_record demo_row Utf8") (auto simp: row_object_def demo_row_bytes)
  then show ?thesis using demo_slots by simp
qed

text \<open>A table, an index and a cyclic page of the small database.\<close>

definition demo_entry :: bytes where
  "demo_entry = [3, 1, 1, 5, 1]"

lemma demo_heap: "k < 1000000 \<Longrightarrow> pager_heap 512 512 k Map.empty (demo_world, demo_pager)"
proof -
  assume k: "k < 1000000"
  have "unat (page_size demo_header) = 512" by (simp add: demo_header_def)
  then have "free_list_is (demo_world, demo_pager) []" 
    using demo_txn demo_header_wf
    by (simp add: free_list_is_def demo_pager_sel fl_pages_def) (simp add: demo_header_def)
  then show ?thesis using demo_txn k
    by (auto simp: pager_heap_def demo_pager_sel demo_header_def fl_pages_def intro!: exI [of _ "[]"])
qed

lemma demo_table:
  "\<exists>root s h. create_table_root (demo_world, demo_pager) = (Ok root, s) \<and> pager_heap 512 512 100 h s \<and>
    table_rows 512 h 0 root Map.empty {root} {}"
  using create_table_root_runs [OF demo_heap [of "Suc 100"]] by (auto simp: runs_def)

lemma demo_room: "insert_room 512 0 3 \<le> 100"
  by (simp add: insert_room_def ins_room_def spill_pages_def payload_split_def payload_max_local_def)

lemma demo_cycle: "\<exists>n s h. pager_heap 512 512 100 h s \<and> no_way_down 512 h {n}"
proof -
  obtain n s where a: "pager_heap 512 512 100 [n \<mapsto> replicate 512 0] s" "1 < n"
    using ph.heap_alloc [OF demo_heap [of "Suc 100"]] by (auto simp: runs_def)
  obtain buf where b: "length buf = 512" "page_image buf 0 InteriorTable []" "take 4 (drop 8 buf) = to_be32 n"
    using serialize_interior_Ok [of 0 "[]" 512 512 None n] by (auto simp: prefix_bytes_def)
  obtain s' where "pager_heap 512 512 100 [n \<mapsto> buf] s'" using ph.heap_wr [OF a(1) _ b(1)] by (auto simp: runs_def)
  moreover have "root_body n = 0" using a(2) by (auto simp: root_body_def)
  then have "node_page 512 [n \<mapsto> buf] n [n] []" using b by (simp add: node_page_def key_sum_def)
  then have "no_way_down 512 [n \<mapsto> buf] {n}" by (force simp: no_way_down_def)
  ultimately show ?thesis by blast
qed

lemma demo_entry_decode: "decode_record demo_entry Utf8 = Ok [Integer 5, Integer 1]"
  by code_simp

lemma demo_entry_values: "no_nan [Integer 5, Integer 1]" "length demo_entry < 2 ^ 64"
  by (simp_all add: no_nan_def demo_entry_def)

lemma demo_index:
  "\<exists>root s h. create_index_root (demo_world, demo_pager) = (Ok root, s) \<and> pager_heap 512 512 100 h s \<and> enc_is Utf8 s \<and> index_list 512 h 0 root [] {root} {}"
proof -
  have e: "enc_is Utf8 (demo_world, demo_pager)" using demo_txn by (simp add: enc_is_def demo_pager_sel demo_header_def)
  from runs_keeps [OF create_index_root_runs [OF demo_heap [of "Suc 100"]] enc_create e] show ?thesis
    by (fastforce simp: runs_def index_list_def)
qed

lemma demo_index_room: "index_room 512 0 (length demo_entry) \<le> 100"
  by (simp add: index_room_def ins_room_def idx_spill_def payload_split_def payload_max_local_def demo_entry_def)

lemma demo_index_one:
  "\<exists>root s h d T S. pager_heap 512 512 0 h s \<and> index_list 512 h d root [demo_entry] T S \<and> enc_is Utf8 s \<and> d \<le> 1"
proof -
  obtain root s h where i: "pager_heap 512 512 100 h s" "enc_is Utf8 s" "index_list 512 h 0 root [] {root} {}"
    using demo_index by blast
  have "pager_heap 512 512 (0 + index_room 512 0 (length demo_entry)) h s" by (rule pager_heap_less [OF i(1)]) (use demo_index_room in simp)
  from insert_index_list [OF this i(2,3) _ _ demo_entry_decode demo_entry_values(1) _ demo_entry_values(2), of empty_registry "[Binary]" "[]"]
  obtain s' h' d' T' S' where "pager_heap 512 512 0 h' s'" "enc_is Utf8 s'" "d' \<le> 1" "index_list 512 h' d' root [demo_entry] T' S'"
    by (auto simp: recs_sorted_def rec_insert_def MAX_DEPTH_def)
  then show ?thesis by blast
qed

lemma demo_one_sorted: "recs_sorted reg Utf8 colls descs [demo_entry]"
  using demo_entry_decode demo_entry_values(1) by (simp add: recs_sorted_def)

text \<open>Lock registries of one and of two connections, and a small database in WAL mode.\<close>

lemma demo_one_handle: "lock_reachable \<lparr>locks = default_locks, levels = [Unlocked]\<rparr>"
  using lock_reachable.Step [OF lock_reachable.Start lock_step.Open] by (simp add: open_handle_def)

lemma demo_locks_alone: "lock_reachable demo_locks"
proof -
  let ?S = "\<lparr>locks = default_locks\<lparr>shared := 1\<rparr>, levels = [Shared]\<rparr>"
  have "lock_step \<lparr>locks = default_locks, levels = [Unlocked]\<rparr> ?S"
    by (rule lock_step.Lock [of 0 _ Shared]) (simp_all add: file_lock_def acquire_def default_locks_def lock_order)
  moreover have "lock_step ?S demo_locks"
    by (rule lock_step.Lock [of 0 _ Reserved]) (simp_all add: file_lock_def acquire_def default_locks_def lock_order demo_locks_def)
  ultimately show ?thesis using demo_one_handle by (meson lock_reachable.Step)
qed

lemma demo_reader_beside: "lock_reachable \<lparr>locks = default_locks\<lparr>shared := 1\<rparr>, levels = [Unlocked, Shared]\<rparr>"
proof -
  have "lock_step \<lparr>locks = default_locks, levels = [Unlocked]\<rparr> \<lparr>locks = default_locks, levels = [Unlocked, Unlocked]\<rparr>"
    using lock_step.Open [of "\<lparr>locks = default_locks, levels = [Unlocked]\<rparr>"] by (simp add: open_handle_def)
  moreover have "lock_step \<lparr>locks = default_locks, levels = [Unlocked, Unlocked]\<rparr> \<lparr>locks = default_locks\<lparr>shared := 1\<rparr>, levels = [Unlocked, Shared]\<rparr>"
    by (rule lock_step.Lock [of 1 _ Shared]) (simp_all add: file_lock_def acquire_def default_locks_def lock_order)
  ultimately show ?thesis using demo_one_handle by (meson lock_reachable.Step)
qed

definition demo_runtime :: wal_runtime where
  "demo_runtime = \<lparr>rt_snapshot = index_snapshot (index_new False), rt_registered = None, rt_db_size = 1, rt_salt = replicate 8 1\<rparr>"

lemma demo_log_world:
  "\<exists>ix. wal_reachable False 512 (w_main (demo_world\<lparr>w_index := ix\<rparr>), w_index (demo_world\<lparr>w_index := ix\<rparr>)) \<and> ix_log ix \<noteq> [] \<and> ix_readers ix = []"
  using demo_committed by (simp add: demo_world_def)

section \<open>Properties\<close>

text \<open>
  C1. A crash anywhere in a rollback-journal commit that does not shrink the file, of a database
  with at least one page on disk, followed by recovery, leaves the old database file or the
  committed one.
\<close>

theorem commit_crash_atomic:
  assumes "commit_ok c" and "d_file d = cx_file c" and "d_journal d = []"
    and "commit_ops (cx_counter c) (cx_disk_pages c) (cx_pages c) (cx_psize c) (cx_overlay c) (cx_file c) = Ok ops"
  shows "\<exists>d1 d2. crash_disk ops i k d = Ok d1 \<and> recover d1 = Ok d2 \<and>
    (d_file d2 = cx_file c \<or> d_file d2 = committed_file c)"
  using crash_recovery [OF assms(1-3)] assms(4) by (simp add: the_commit_ops_def)

theorem commit_crash_atomic_witness:
  "\<exists>ops d1 d2. commit_ok demo_commit \<and>
    commit_ops 1 1 1 512 (cx_overlay demo_commit) (cx_file demo_commit) = Ok ops \<and>
    crash_disk ops 8 100 \<lparr>d_file = cx_file demo_commit, d_journal = []\<rparr> = Ok d1 \<and> recover d1 = Ok d2 \<and>
    (d_file d2 = cx_file demo_commit \<or> d_file d2 = committed_file demo_commit)"
proof -
  obtain ops where ops: "commit_ops 1 1 1 512 (cx_overlay demo_commit) (cx_file demo_commit) = Ok ops"
    using the_commit_ops_split [OF demo_commit_ok] by (auto simp: the_commit_ops_def demo_commit_def)
  then show ?thesis
    using commit_crash_atomic [of demo_commit "\<lparr>d_file = cx_file demo_commit, d_journal = []\<rparr>" ops 8 100] demo_commit_ok
    by (simp add: demo_commit_def)
qed

text \<open>
  C2. A commit to the write-ahead log succeeds, and a connection that later attaches to the file
  it left, with nothing but that file (a fresh wal-index), sees exactly the database of the
  commit: the overlay on top of the database before it.
\<close>

theorem wal_commit_durable:
  assumes "wal_world native_be (wp_page_size p) w" and "0 < wp_page_size p" and "wp_page_size p \<le> 65536"
    and "commit_ready native_be w p"
  shows "\<exists>w' p' rt ix. append_frames native_be (w, p) = (Ok (), (w', p')) \<and>
    attach_wal (w_wal w') (wp_page_size p) (index_new native_be) = Ok (Some rt, ix) \<and> rt_db_size rt = wp_page_count p \<and>
    (wp_page_count p, db_view (wp_page_size p) (w_main w', ix)) =
      db_after (Commit (wp_overlay p) (wp_page_count p))
        (db_size (wp_page_size p) (w_main w, w_index w), db_view (wp_page_size p) (w_main w, w_index w))"
  using append_frames_commits [OF assms] commit_then_reopen [OF assms] by meson

theorem wal_commit_durable_witness:
  "\<exists>w' p' rt ix. append_frames False (demo_world, demo_pager\<lparr>wp_overlay := demo_overlay\<rparr>) = (Ok (), (w', p')) \<and>
    attach_wal (w_wal w') 512 (index_new False) = Ok (Some rt, ix) \<and> rt_db_size rt = 1"
  using wal_commit_durable [of False "demo_pager\<lparr>wp_overlay := demo_overlay\<rparr>" demo_world] demo_wal_world demo_commit_ready
  by (simp add: demo_pager_sel) blast

text \<open>
  C3. Inserting a row into a table b-tree implements the update of a map from rowids to payloads:
  it succeeds when the file has room, leaves a well-formed tree at the same root that is at most
  one level deeper, holds exactly the updated map, and touches no page outside the table except
  fresh ones.
\<close>

theorem insert_table_updates_map:
  assumes "pager_heap usable ps (k + insert_room usable d (length payload)) h s" and "table_rows usable h d root M T S"
    and "d < MAX_DEPTH" and "length payload < 2 ^ 64"
  shows "\<exists>s' h' d' T' S'. insert_table root r payload s = (Ok (), s') \<and> pager_heap usable ps k h' s' \<and> d' \<le> Suc d \<and>
    table_rows usable h' d' root (M(r \<mapsto> payload)) T' S' \<and> replaces h (T \<union> S) h' (T' \<union> S')"
  using insert_table_runs [OF assms, of r] by (auto simp: runs_def)

theorem insert_table_updates_map_witness:
  "\<exists>root s h s' h' d' T' S'. create_table_root (demo_world, demo_pager) = (Ok root, s) \<and> insert_table root 7 [1, 2, 3] s = (Ok (), s') \<and>
    table_rows 512 h 0 root Map.empty {root} {} \<and> table_rows 512 h' d' root [7 \<mapsto> [1, 2, 3]] T' S'"
proof -
  obtain root s h where d: "create_table_root (demo_world, demo_pager) = (Ok root, s)" "pager_heap 512 512 100 h s"
    "table_rows 512 h 0 root Map.empty {root} {}" using demo_table by blast
  have "pager_heap 512 512 (0 + insert_room 512 0 (length [1, 2, 3 :: 8 word])) h s" by (rule pager_heap_less [OF d(2)]) (use demo_room in \<open>simp add: numeral_3_eq_3\<close>)
  from insert_table_updates_map [OF this d(3), of 7] show ?thesis using d(1,3) by (auto simp: MAX_DEPTH_def)
qed

text \<open>
  C4. Inserting a record into an index b-tree implements insertion into a sorted list of records:
  a record already there changes nothing, another one goes between the smaller and the greater
  ones, the index stays sorted at the same root, and no page outside it is touched except fresh
  ones.
\<close>

theorem insert_index_keeps_order:
  assumes "pager_heap usable ps (k + index_room usable d (length rec)) h s" and "enc_is enc s" and "index_list usable h d root rs T S"
    and "recs_sorted reg enc colls descs rs" and "list_all builtin_collation colls" and "decode_record rec enc = Ok v" and "no_nan v"
    and "d < MAX_DEPTH" and "length rec < 2 ^ 64"
  shows "\<exists>s' h' d' T' S'. insert_index reg root rec colls descs s = (Ok (), s') \<and> pager_heap usable ps k h' s' \<and> enc_is enc s' \<and> d' \<le> Suc d \<and>
    index_list usable h' d' root (rec_insert reg enc colls descs rec rs) T' S' \<and> recs_sorted reg enc colls descs (rec_insert reg enc colls descs rec rs) \<and>
    replaces h (T \<union> S) h' (T' \<union> S')"
  using insert_index_list [OF assms] rec_insert_sorted [OF assms(4-7)] by blast

theorem insert_index_keeps_order_witness:
  "\<exists>root s s' h' d' T' S'. create_index_root (demo_world, demo_pager) = (Ok root, s) \<and> insert_index empty_registry root demo_entry [Binary] [] s = (Ok (), s') \<and>
    index_list 512 h' d' root [demo_entry] T' S'"
proof -
  obtain root s h where i: "create_index_root (demo_world, demo_pager) = (Ok root, s)" "pager_heap 512 512 100 h s" "enc_is Utf8 s" "index_list 512 h 0 root [] {root} {}"
    using demo_index by blast
  have "pager_heap 512 512 (0 + index_room 512 0 (length demo_entry)) h s" by (rule pager_heap_less [OF i(2)]) (use demo_index_room in simp)
  from insert_index_keeps_order [OF this i(3,4) _ _ demo_entry_decode demo_entry_values(1) _ demo_entry_values(2), of empty_registry "[Binary]" "[]"]
  show ?thesis using i(1) by (auto simp: recs_sorted_def rec_insert_def MAX_DEPTH_def)
qed

text \<open>
  C5. In every state that commits, reader pins and checkpoints of any mode can reach, each step
  changes the database (its size and the bytes of each page, read through the log) exactly as its
  specification says: a commit replaces the pages it carries, and nothing else changes anything.
\<close>

theorem wal_refines_database:
  assumes "wal_reachable native_be psize s" and "0 < psize" and "psize \<le> 65536" and "wal_step native_be psize e s s'"
  shows "(db_size psize s', db_view psize s') = db_after e (db_size psize s, db_view psize s)"
  using wal_step_ok [OF assms(4) wal_reachable_inv [OF assms(1-3)] assms(2,3)] by (simp add: step_ok_def)

theorem wal_refines_database_witness:
  "\<exists>s. (db_size 512 s, db_view 512 s) =
     db_after (Commit demo_overlay 1) (db_size 512 (demo_db, index_new False), db_view 512 (demo_db, index_new False))"
  using wal_refines_database [OF wal_reachable.Start _ _ demo_append_step] by (auto simp: index_new_def)

text \<open>
  C6. A reader pinned at a mark of a reachable state sees the same database, size and pages, after
  any run of commits, checkpoints of any mode and pins and unpins of others, for as long as it
  stays pinned.
\<close>

theorem reader_snapshot_stable:
  assumes "wal_reachable native_be psize s" and "0 < psize" and "psize \<le> 65536" and "pinned_run native_be psize m s s'"
  shows "snap_size psize s' m = snap_size psize s m \<and> view psize s' m = view psize s m"
  using pinned_run_view [OF assms(4) wal_reachable_inv [OF assms(1-3)] assms(2,3)] by simp

theorem reader_snapshot_stable_witness:
  "\<exists>s'. view 512 s' 0 = view 512 (demo_db, register_reader 0 (index_new False)) 0 \<and> ix_log (snd s') \<noteq> []"
proof -
  have r: "wal_reachable False 512 (demo_db, register_reader 0 (index_new False))"
    using wal_reachable.Step [OF wal_reachable.Start wal_step.Pin [of False 512 demo_db "index_new False"]]
    by (simp add: index_new_def)
  obtain s' where s': "pinned_run False 512 0 (demo_db, register_reader 0 (index_new False)) s'" "ix_log (snd s') \<noteq> []"
    using demo_pinned_run by blast
  show ?thesis using reader_snapshot_stable [OF r _ _ s'(1)] s'(2) by (intro exI [of _ s']) simp
qed

text \<open>
  C7. When a crash leaves only a proper prefix of the bytes a commit appends to the log, the
  reader that overlays the log on the main file reads exactly the database of the commits before
  it.
\<close>

theorem torn_wal_commit_ignored:
  assumes "length salt = 8" and "512 \<le> psize" and "psize < 2 ^ 32" and "wal_power_of_two psize" and "log_ok psize log"
    and "list_all (\<lambda>(p, dat). length dat = psize) pgs"
    and "length (log_bytes be psize seqno salt log) + length pgs * (24 + psize) < 2 ^ 64"
    and "replay log [] [] 0 = ([], F, C)" and "n < length pgs * (24 + psize)"
    and "ck = log_ck be salt (snd (wal_header be psize seqno salt)) log"
  shows "wal_load (log_bytes be psize seqno salt log @ take n (encode_log be salt ck (commit_entries cnt pgs))) = Ok (F, C, psize)"
  by (rule wal_commit_cut [OF assms(1-5) _ assms(7-10)]) (use assms(6) in \<open>simp add: list_all_iff\<close>)

theorem torn_wal_commit_ignored_witness:
  "wal_load (log_bytes False 512 0 (replicate 8 1) [] @
     take 500 (encode_log False (replicate 8 1) (log_ck False (replicate 8 1) (snd (wal_header False 512 0 (replicate 8 1))) [])
       (commit_entries 1 demo_overlay))) = Ok ([], 0, 512)"
proof (rule torn_wal_commit_ignored)
  show "wal_power_of_two 512" by (simp add: wal_power_of_two_def upt_conv_Cons)
qed (simp_all add: log_ok_def demo_overlay_def log_bytes_def wal_header_def Let_def split: prod.split)

text \<open>
  C8. The reader that scans the log file and the shared wal-index agree: on a log file the writer
  maintains, both find the same newest committed version of every page and the same database size.
\<close>

theorem log_readers_agree:
  assumes "file_inv psize wal ix" and "ix_log ix \<noteq> []" and "if_commit_db_size (last (ix_log ix)) \<noteq> 0"
    and "512 \<le> psize" and "psize < 2 ^ 32" and "wal_power_of_two psize" and "length wal < 2 ^ 64"
  shows "\<exists>frames. wal_load wal = Ok (frames, if_commit_db_size (last (ix_log ix)), psize) \<and>
    (\<forall>p. bm_get frames p = find_frame ix p (ix_mx_frame ix))"
  using readers_agree [OF assms] .

theorem log_readers_agree_witness:
  "\<exists>wal ix frames. ix_log ix \<noteq> [] \<and> wal_load wal = Ok (frames, 1, 512) \<and>
    (\<forall>p. bm_get frames p = find_frame ix p (ix_mx_frame ix))"
proof -
  obtain w :: world where w: "file_inv 512 (w_wal w) (w_index w)" "ix_log (w_index w) \<noteq> []"
    "if_commit_db_size (last (ix_log (w_index w))) = 1" "length (w_wal w) < 2 ^ 64"
    using demo_logged by blast
  have "wal_power_of_two 512" by (simp add: wal_power_of_two_def upt_conv_Cons)
  then show ?thesis using log_readers_agree [OF w(1,2) _ _ _ _ w(4)] w(2,3) by fastforce
qed

text \<open>
  C9. A TRUNCATE checkpoint of a WAL connection always returns and leaves the lock level of the
  connection as it was. When no reader is pinned and no other connection holds the writer lock it
  reports (0, 0, 0), empties the log and the -wal file, and the main file holds every page of the
  database. Otherwise (a pinned reader, or the writer lock refused, when it runs as PASSIVE) it
  reports busy, keeps the log and the -wal file and leaves the database as it was.
\<close>

theorem checkpoint_drains_log:
  assumes "wal_reachable native_be (wp_page_size p) (w_main w, w_index w)" and "0 < wp_page_size p" and "wp_page_size p \<le> 65536"
    and "wp_wal p \<noteq> None" and "lock_reachable (w_locks w)" and "handle_open (w, p)" and "levels (w_locks w) ! wp_handle p = wp_held p"
  shows "\<exists>r w' p'. checkpoint_mode_run native_be Truncate (w, p) = (Ok r, (w', p')) \<and> wp_held p' = wp_held p \<and>
    (if ix_readers (w_index w) = [] \<and> (\<forall>j < length (levels (w_locks w)). j \<noteq> wp_handle p \<longrightarrow> levels (w_locks w) ! j < Reserved)
     then r = (0, 0, 0) \<and> ix_log (w_index w') = [] \<and> (wp_wal_file p \<longrightarrow> w_wal w' = []) \<and>
       (\<forall>n. 0 < n \<and> n \<le> db_size (wp_page_size p) (w_main w, w_index w) \<longrightarrow>
         db_view (wp_page_size p) (w_main w, w_index w) n = Some (file_page (wp_page_size p) (w_main w') (unat n)))
     else fst r = 1 \<and> ix_log (w_index w') = ix_log (w_index w) \<and> w_wal w' = w_wal w \<and>
       db_view (wp_page_size p) (w_main w', w_index w') = db_view (wp_page_size p) (w_main w, w_index w))"
  using checkpoint_truncate_effect [OF assms(4-7) wal_reachable_inv [OF assms(1-3)] assms(3), of native_be] unfolding others_def .

theorem checkpoint_drains_log_witness:
  "\<exists>w p w' p'. ix_log (w_index w) \<noteq> [] \<and> wp_wal_file p \<and>
    checkpoint_mode_run False Truncate (w, p) = (Ok (0, 0, 0), (w', p')) \<and> ix_log (w_index w') = [] \<and> w_wal w' = []"
proof -
  obtain ix where ix: "wal_reachable False 512 (w_main (demo_world\<lparr>w_index := ix\<rparr>), w_index (demo_world\<lparr>w_index := ix\<rparr>))" "ix_log ix \<noteq> []" "ix_readers ix = []"
    using demo_log_world by blast
  let ?w = "demo_world\<lparr>w_index := ix\<rparr>" and ?p = "demo_pager\<lparr>wp_wal := Some demo_runtime\<rparr>"
  have "lock_reachable (w_locks ?w)" using demo_locks_alone by (simp add: demo_world_def)
  then obtain w' p' where "checkpoint_mode_run False Truncate (?w, ?p) = (Ok (0, 0, 0), (w', p'))" "ix_log (w_index w') = []" "w_wal w' = []"
    using checkpoint_drains_log [of False ?p ?w] ix by (auto simp: demo_pager_sel handle_open_def demo_world_def demo_locks_def)
  then show ?thesis using ix(2) demo_pager_sel(12) by (intro exI [of _ ?w] exI [of _ ?p] exI [of _ w'] exI [of _ p']) simp
qed

text \<open>
  C10. Whatever a write transaction did (page writes, header changes, allocations, frees,
  savepoints, releases, partial rollbacks, failed calls included), rollback leaves the files as
  they were, the committed header and size, no lock, and every page reading as committed.
\<close>

theorem rollback_restores_database:
  assumes "in_txn s" and "cache_ok s" and "handle_open s"
  shows "\<exists>w' p'. rollback (run_ops ops s) = (Ok (), (w', p')) \<and> same_files (fst s) w' \<and>
    wp_header p' = wp_committed_header (snd s) \<and> wp_page_count p' = committed_pages (snd s) \<and>
    wp_held p' = Unlocked \<and> wp_savepoints p' = [] \<and> (\<forall>n. fst (read_page n (w', p')) = committed_page s n)"
  using rollback_restores [OF assms] .

theorem rollback_restores_database_witness:
  "\<exists>w' p'. rollback (run_ops [OpWrite 1 (replicate 512 3), OpAllocate, OpFree 1] (demo_world, demo_pager)) = (Ok (), (w', p')) \<and>
    w_main w' = demo_db \<and> wp_header p' = demo_header \<and> wp_held p' = Unlocked"
  using rollback_restores_database [OF demo_txn, of "[OpWrite 1 (replicate 512 3), OpAllocate, OpFree 1]"]
  by (auto simp: same_files_def demo_pager_sel demo_world_def)

text \<open>
  C11. Rolling back to a savepoint after any properly nested operations restores every page, the
  header and the page count to what they were when it was opened, and keeps the savepoint itself.
\<close>

theorem savepoint_rollback_restores:
  assumes "in_txn s" and "cache_ok s" and "nested name [] ops"
  shows "\<exists>w' p'. try_mod (rollback_to_savepoint name) (run_ops ops (run_op (OpSavepoint name) s)) = (Ok (), (w', p')) \<and>
    w' = fst s \<and> wp_header p' = wp_header (snd s) \<and> wp_page_count p' = wp_page_count (snd s) \<and>
    wp_savepoints p' = wp_savepoints (savepoint_open name (snd s)) \<and>
    (\<forall>n. fst (read_page n (w', p')) = fst (read_page n s))"
  using savepoint_restores [OF assms] .

theorem savepoint_rollback_restores_witness:
  "\<exists>w' p'. try_mod (rollback_to_savepoint ''a'')
      (run_ops [OpWrite 1 (replicate 512 3), OpSavepoint ''b'', OpAllocate, OpRollbackTo ''B'', OpFree 1]
        (run_op (OpSavepoint ''a'') (demo_world, demo_pager))) = (Ok (), (w', p')) \<and>
    wp_page_count p' = 1 \<and> (\<forall>n. fst (read_page n (w', p')) = fst (read_page n (demo_world, demo_pager)))"
proof -
  have "nested ''a'' [] [OpWrite 1 (replicate 512 3), OpSavepoint ''b'', OpAllocate, OpRollbackTo ''B'', OpFree 1]"
    by code_simp
  from savepoint_rollback_restores [OF demo_txn(1,2) this] show ?thesis by (auto simp: demo_pager_sel)
qed



text \<open>
  C13. After a row was inserted into a table, a cursor of the same transaction that seeks any
  rowid reports whether the table has it, and reading the payload under the cursor gives the bytes
  inserted last for that rowid, overflow pages included.
\<close>

theorem inserted_row_read_back:
  assumes "pager_heap usable ps (k + insert_room usable d (length payload)) h s" and "table_rows usable h d root M T S"
    and "d < MAX_DEPTH" and "length payload < 2 ^ 64"
  shows "\<exists>s1 n. insert_table root r payload s = (Ok (), s1) \<and>
    (\<forall>fuel > n. \<forall>q. \<exists>s2 c. cursor_seek fuel source_page usable q (s1, cursor_new root) = Some (Ok (q = r \<or> q \<in> dom M), (s2, c)) \<and>
      (\<forall>p. (M(r \<mapsto> payload)) q = Some p \<and> length p < fuel \<longrightarrow> (\<exists>s3. cursor_payload fuel source_page usable c s2 = Some (Ok p, s3))))"
proof -
  obtain s' h' d' T' S' where i: "insert_table root r payload s = (Ok (), s')" "pager_heap usable ps k h' s'"
    "table_rows usable h' d' root (M(r \<mapsto> payload)) T' S'"
    using insert_table_runs [OF assms, of r] by (auto simp: runs_def)
  have q: "(q \<in> dom (M(r \<mapsto> payload))) = (q = r \<or> q \<in> dom M)" for q by auto
  show ?thesis
  proof (rule exI [of _ s'], rule exI [of _ "2 * d' + card T'"], intro conjI i(1) allI impI)
    fix fuel q
    assume "2 * d' + card T' < fuel"
    from table_rows_seek [OF i(2,3) this, of q, unfolded q]
    show "\<exists>s2 c. cursor_seek fuel source_page usable q (s', cursor_new root) = Some (Ok (q = r \<or> q \<in> dom M), (s2, c)) \<and>
      (\<forall>p. (M(r \<mapsto> payload)) q = Some p \<and> length p < fuel \<longrightarrow> (\<exists>s3. cursor_payload fuel source_page usable c s2 = Some (Ok p, s3)))" by blast
  qed
qed

theorem inserted_row_read_back_witness:
  "\<exists>root s s1 fuel s2 c s3. create_table_root (demo_world, demo_pager) = (Ok root, s) \<and> insert_table root 7 [1, 2, 3] s = (Ok (), s1) \<and>
    cursor_seek fuel source_page 512 7 (s1, cursor_new root) = Some (Ok True, (s2, c)) \<and>
    cursor_payload fuel source_page 512 c s2 = Some (Ok [1, 2, 3], s3)"
proof -
  obtain root s h where d: "create_table_root (demo_world, demo_pager) = (Ok root, s)" "pager_heap 512 512 100 h s"
    "table_rows 512 h 0 root Map.empty {root} {}" using demo_table by blast
  have "pager_heap 512 512 (0 + insert_room 512 0 (length [1, 2, 3 :: 8 word])) h s" by (rule pager_heap_less [OF d(2)]) (use demo_room in \<open>simp add: numeral_3_eq_3\<close>)
  from inserted_row_read_back [OF this d(3) _ _, of 7] obtain s1 n where n: "insert_table root 7 [1, 2, 3] s = (Ok (), s1)"
    "\<forall>fuel > n. \<forall>q. \<exists>s2 c. cursor_seek fuel source_page 512 q (s1, cursor_new root) = Some (Ok (q = 7 \<or> q \<in> dom Map.empty), (s2, c)) \<and>
      (\<forall>p. (Map.empty(7 \<mapsto> [1, 2, 3])) q = Some p \<and> length p < fuel \<longrightarrow> (\<exists>s3. cursor_payload fuel source_page 512 c s2 = Some (Ok p, s3)))"
    unfolding MAX_DEPTH_def by auto
  have "n < n + 4" by simp
  from n(2) [rule_format, OF this, of 7] obtain s2 c where
    "cursor_seek (n + 4) source_page 512 7 (s1, cursor_new root) = Some (Ok True, (s2, c))"
    "\<exists>s3. cursor_payload (n + 4) source_page 512 c s2 = Some (Ok [1, 2, 3], s3)" by auto
  then show ?thesis using n(1) d(1) by blast
qed

text \<open>
  C14. After a record was inserted into a sorted index, an equality seek of the same transaction
  returns, in index order, exactly the matching records (or their rowids) of the index with the
  new record at its place. A record that compares equal to one already there (as 1.0 does to 1) is
  not added, so the seek returns the one that was there; either way a key that the record matches
  finds a record that compares equal to it.
\<close>

theorem inserted_entry_found:
  assumes "pager_heap usable ps (k + index_room usable d (length rec)) h s" and "enc_is enc s" and "index_list usable h d root rs T S"
    and "recs_sorted reg enc colls descs rs" and "list_all builtin_collation colls" and "map (\<lambda>r. decode_record r enc) rs = map Ok recs"
    and "decode_record rec enc = Ok v" and "no_nan v" and "d < MAX_DEPTH" and "length rec < 2 ^ 64"
    and "no_nan key" and "\<forall>r \<in> insert v (set recs). length key \<le> length r" and "\<forall>r \<in> insert rec (set rs). length r < pf" and "Suc d < fuel"
  shows "\<exists>s1 s2 s3. insert_index reg root rec colls descs s = (Ok (), s1) \<and>
    index_seek_rowids fuel pf reg source_page enc usable root key colls descs s1 =
      Some (Ok (map rowid_of (filter (\<lambda>r. prefix_cmp reg key r colls descs = Equal) (row_insert reg colls descs v recs))), s2) \<and>
    index_seek_records fuel pf reg source_page enc usable root key colls descs s1 =
      Some (Ok (filter (\<lambda>r. prefix_cmp reg key r colls descs = Equal) (row_insert reg colls descs v recs)), s3) \<and>
    (prefix_cmp reg key v colls descs = Equal \<longrightarrow>
      (\<exists>r \<in> set (filter (\<lambda>r. prefix_cmp reg key r colls descs = Equal) (row_insert reg colls descs v recs)). row_cmp reg colls descs 0 v r = Equal))"
proof -
  obtain s1 where i: "insert_index reg root rec colls descs s = (Ok (), s1)"
    and rows: "\<And>emit :: sqlvalue list \<Rightarrow> i64. \<exists>s2. seek_tree fuel pf source_page enc usable (\<lambda>rec. prefix_cmp reg key rec colls descs) emit root [] s1 =
      Some (Ok (map emit (filter (\<lambda>r. prefix_cmp reg key r colls descs = Equal) (row_insert reg colls descs v recs))), s2)"
    using insert_index_then_seek [OF assms] by blast
  obtain s1' where "insert_index reg root rec colls descs s = (Ok (), s1')"
    and recs: "\<And>emit :: sqlvalue list \<Rightarrow> sqlvalue list. \<exists>s2. seek_tree fuel pf source_page enc usable (\<lambda>rec. prefix_cmp reg key rec colls descs) emit root [] s1' =
      Some (Ok (map emit (filter (\<lambda>r. prefix_cmp reg key r colls descs = Equal) (row_insert reg colls descs v recs))), s2)"
    using insert_index_then_seek [OF assms] by blast
  then have "s1' = s1" using i by simp
  obtain s2 s3 where "index_seek_rowids fuel pf reg source_page enc usable root key colls descs s1 =
      Some (Ok (map rowid_of (filter (\<lambda>r. prefix_cmp reg key r colls descs = Equal) (row_insert reg colls descs v recs))), s2)"
    "index_seek_records fuel pf reg source_page enc usable root key colls descs s1 =
      Some (Ok (filter (\<lambda>r. prefix_cmp reg key r colls descs = Equal) (row_insert reg colls descs v recs)), s3)"
    using rows [of rowid_of] recs [of "\<lambda>r. r", unfolded \<open>s1' = s1\<close>]
    unfolding index_seek_rowids_def index_seek_records_def seek_prefix_def seek_prefix_records_def by auto
  moreover have "no_nan r" if "r \<in> set recs" for r
  proof -
    have "Ok r \<in> set (map (\<lambda>r. decode_record r enc) rs)" using that by (simp add: assms(6))
    then show ?thesis using assms(4) by (auto simp: recs_sorted_def)
  qed
  ultimately show ?thesis using i row_insert_found [OF assms(5,11,8), of recs reg descs] by auto
qed

theorem inserted_entry_found_witness:
  "\<exists>root s s1 s2 s3. create_index_root (demo_world, demo_pager) = (Ok root, s) \<and> insert_index empty_registry root demo_entry [Binary] [] s = (Ok (), s1) \<and>
    index_seek_rowids 2 10 empty_registry source_page Utf8 512 root [Integer 5] [Binary] [] s1 = Some (Ok [1], s2) \<and>
    index_seek_records 2 10 empty_registry source_page Utf8 512 root [Integer 5] [Binary] [] s1 = Some (Ok [[Integer 5, Integer 1]], s3)"
proof -
  obtain root s h where i: "create_index_root (demo_world, demo_pager) = (Ok root, s)" "pager_heap 512 512 100 h s" "enc_is Utf8 s" "index_list 512 h 0 root [] {root} {}"
    using demo_index by blast
  have "pager_heap 512 512 (0 + index_room 512 0 (length demo_entry)) h s" by (rule pager_heap_less [OF i(2)]) (use demo_index_room in simp)
  note w = inserted_entry_found [OF this i(3,4) _ _ _ demo_entry_decode demo_entry_values(1) _ demo_entry_values(2), of empty_registry "[Binary]" "[]" "[]" "[Integer 5]" 10 2]
  have "filter (\<lambda>r. prefix_cmp empty_registry [Integer 5] r [Binary] [] = Equal) (row_insert empty_registry [Binary] [] [Integer 5, Integer 1] []) = [[Integer 5, Integer 1]]"
    by code_simp
  moreover have "map rowid_of [[Integer 5, Integer 1]] = [1]" by (simp add: rowid_of_def)
  ultimately show ?thesis using w i(1) by (auto simp: recs_sorted_def MAX_DEPTH_def no_nan_def demo_entry_def)
qed

text \<open>
  C15. An equality seek on a sorted index returns the rowids, or the records, of exactly the
  entries whose leading columns equal the key, in index order.
\<close>

theorem index_seek_complete:
  assumes "pager_heap usable ps k h s" and "index_list usable h d root rs T S" and "map (\<lambda>r. decode_record r enc) rs = map Ok recs"
    and "\<And>r. r \<in> set rs \<Longrightarrow> length r < pf" and "recs_sorted reg enc colls descs rs" and "list_all builtin_collation colls"
    and "no_nan key" and "\<And>r. r \<in> set recs \<Longrightarrow> length key \<le> length r" and "d < fuel"
  shows "\<exists>s' s''. index_seek_rowids fuel pf reg source_page enc usable root key colls descs s =
      Some (Ok (map rowid_of (filter (\<lambda>r. prefix_cmp reg key r colls descs = Equal) recs)), s') \<and>
    index_seek_records fuel pf reg source_page enc usable root key colls descs s = Some (Ok (filter (\<lambda>r. prefix_cmp reg key r colls descs = Equal) recs), s'')"
  using index_list_seek [OF assms, where emit = rowid_of] index_list_seek [OF assms, where emit = "\<lambda>r. r"]
  unfolding index_seek_rowids_def index_seek_records_def seek_prefix_def seek_prefix_records_def by auto

theorem index_seek_complete_witness:
  "\<exists>root s s'. index_seek_rowids 2 10 empty_registry source_page Utf8 512 root [Integer 5] [Binary] [] s = Some (Ok [1], s')"
proof -
  obtain root s h d T S where i: "pager_heap 512 512 0 h s" "index_list 512 h d root [demo_entry] T S" "d \<le> 1" using demo_index_one by blast
  have m: "map (\<lambda>r. decode_record r Utf8) [demo_entry] = map Ok [[Integer 5, Integer 1]]" using demo_entry_decode by simp
  have "filter (\<lambda>r. prefix_cmp empty_registry [Integer 5] r [Binary] [] = Equal) [[Integer 5, Integer 1]] = [[Integer 5, Integer 1]]" by code_simp
  moreover have "map rowid_of [[Integer 5, Integer 1]] = [1]" by (simp add: rowid_of_def)
  ultimately show ?thesis
    using index_seek_complete [OF i(1,2) m, of 10 empty_registry "[Binary]" "[]" "[Integer 5]" 2] i(3) demo_one_sorted
    by (fastforce simp: no_nan_def demo_entry_def)
qed

text \<open>
  C16. A range scan of a sorted index returns exactly the records that pass the lower bound and
  are not beyond the upper one, in index order.
\<close>

theorem index_range_complete:
  assumes "pager_heap usable ps k h s" and "index_list usable h d root rs T S" and "map (\<lambda>r. decode_record r enc) rs = map Ok recs"
    and "\<And>r. r \<in> set rs \<Longrightarrow> length r < pf" and "recs_sorted reg enc colls descs rs" and "list_all builtin_collation colls"
    and "case upper of None \<Rightarrow> True | Some (uk, inc) \<Rightarrow> no_nan uk \<and> (\<forall>r \<in> set recs. length uk \<le> length r)" and "d < fuel"
  shows "\<exists>s'. index_range_records fuel pf reg source_page enc usable root lower upper colls descs s =
      Some (Ok (filter (\<lambda>r. \<not> beyond_upper reg upper r colls descs \<and> passes_lower reg lower r colls descs) recs), s')"
proof -
  obtain s' where "range_scan fuel pf source_page enc usable (\<lambda>rec. beyond_upper reg upper rec colls descs) (\<lambda>rec. passes_lower reg lower rec colls descs) root [] s =
      Some (Ok (scanned (\<lambda>rec. beyond_upper reg upper rec colls descs) (\<lambda>rec. passes_lower reg lower rec colls descs) [] recs), s')"
    using index_list_range [OF assms(1-4,8)] by blast
  then show ?thesis unfolding range_sorted [OF recs_sorted_index [OF assms(5,3)] assms(6,7)] index_range_records_def by (simp add: bindL_def runL_def)
qed

theorem index_range_complete_witness:
  "\<exists>root s s'. index_range_records 2 10 empty_registry source_page Utf8 512 root (Some ([Integer 3], True)) (Some ([Integer 5], True)) [Binary] [] s =
    Some (Ok [[Integer 5, Integer 1]], s')"
proof -
  obtain root s h d T S where i: "pager_heap 512 512 0 h s" "index_list 512 h d root [demo_entry] T S" "d \<le> 1" using demo_index_one by blast
  have m: "map (\<lambda>r. decode_record r Utf8) [demo_entry] = map Ok [[Integer 5, Integer 1]]" using demo_entry_decode by simp
  have "filter (\<lambda>r. \<not> beyond_upper empty_registry (Some ([Integer 5], True)) r [Binary] [] \<and> passes_lower empty_registry (Some ([Integer 3], True)) r [Binary] [])
    [[Integer 5, Integer 1]] = [[Integer 5, Integer 1]]" by code_simp
  then show ?thesis
    using index_range_complete [OF i(1,2) m, of 10 empty_registry "[Binary]" "[]" "Some ([Integer 5], True)" 2 "Some ([Integer 3], True)"] i(3) demo_one_sorted
    by (fastforce simp: no_nan_def demo_entry_def)
qed

text \<open>
  C17. On pages that hold a list of free pages (trunks and leaves), freeing a page pushes it and
  allocating pops the last one freed: a freed page is the next one allocated, comes back zeroed
  when it is popped, and the list is as before.
\<close>

theorem freed_pages_are_reused:
  assumes "pager_free_list s fl" and "pg \<notin> set (0 # fl_pages fl)" and "length (fl_pages fl) < 2 ^ 32 - 1"
  shows "\<exists>s' s''. free_page pg s = (Ok (), s') \<and> pager_free_list s' (fl_push (max_leaves_of (wp_header (snd s))) pg fl) \<and>
    allocate_page s' = (Ok pg, s'') \<and> pager_free_list s'' fl \<and> logical_page s'' pg = Ok (replicate (wp_page_size (snd s')) 0)"
proof -
  obtain s' where s': "free_page pg s = (Ok (), s')" "pager_free_list s' (fl_push (max_leaves_of (wp_header (snd s))) pg fl)"
    using pager_stack.free_push [OF assms] by blast
  obtain w p where w: "s' = (w, p)" by (cases s')
  obtain p' where "allocate_page (w, p) = (Ok pg, (w, p'))" "logical_page (w, p') pg = Ok (replicate (wp_page_size p) 0)"
    using allocate_page_refines [of w p, OF _ _ _ fl_pop_push [of "max_leaves_of (wp_header (snd s))" pg fl]] s'(2) w
    by (auto simp: pager_free_list_def)
  moreover have "\<exists>s''. allocate_page s' = (Ok pg, s'') \<and> pager_free_list s'' fl"
    using pager_stack.alloc_pop [OF s'(2) fl_pop_push] .
  ultimately show ?thesis using s' w by auto
qed

theorem freed_pages_are_reused_witness:
  "\<exists>s' s''. free_page 2 (demo_world, demo_pager) = (Ok (), s') \<and> allocate_page s' = (Ok 2, s'')"
proof -
  have "unat (page_size demo_header) = 512" by (simp add: demo_header_def)
  then have "pager_free_list (demo_world, demo_pager) []"
    using demo_txn demo_header_wf
    by (simp add: pager_free_list_def free_list_is_def demo_pager_sel fl_pages_def) (simp add: demo_header_def)
  from freed_pages_are_reused [OF this, of 2] show ?thesis by (auto simp: fl_pages_def)
qed

text \<open>
  C18. Decoding an encoded row gives back its values (the header-length loop ends), whatever
  follows the record.
\<close>

theorem record_round_trip:
  assumes "list_all value_fits vs" and "length vs < 2 ^ 60"
  shows "\<exists>bs. encode_record vs = Some bs \<and> decode_record (bs @ post) Utf8 = Ok vs"
  using decode_encode_record [of vs post] assms by (simp add: list_all_iff)

theorem record_round_trip_witness:
  "\<exists>bs. encode_record [Integer 300, Text [104, 105], Null, Integer (- 1), Blob [0, 255]] = Some bs \<and>
    decode_record (bs @ [1, 2, 3]) Utf8 = Ok [Integer 300, Text [104, 105], Null, Integer (- 1), Blob [0, 255]]"
  by (rule record_round_trip) simp_all

text \<open>
  C19. Seeking a rowid in a search tree of table pages ends within twice the height plus the
  number of leaves of fuel, reports whether the rowid is there, and leaves the cursor on the first
  row at or after it.
\<close>

theorem cursor_seek_finds:
  assumes "cache_ok s" and "tree_at (wp_store s) (tc_root c) t" and "search_tree usable t" and "2 * height t + leaves t < fuel"
  shows "\<exists>s' c'. cursor_seek fuel source_page usable target (s, c) =
      Some (Ok (hits_key usable (sint target) (slots t)), (s', c')) \<and> logical_page s' = logical_page s \<and>
    (case from_key usable (sint target) (slots t) of [] \<Rightarrow> tc_exhausted c' | x # _ \<Rightarrow> leaf_frame c' = Ok x)"
proof -
  obtain s' c' where r: "cursor_seek fuel source_page usable target (s, c) =
      Some (Ok (hits_key usable (sint target) (slots t)), (s', c'))" "logical_page s' = logical_page s"
      "wp_reader.cursor_at s (height t) (leaves t) c' (from_key usable (sint target) (slots t))"
    using wp_reader.cursor_seek_Ok [OF assms(2-4), of s] assms(1) by blast
  then have "case from_key usable (sint target) (slots t) of [] \<Rightarrow> tc_exhausted c' | x # _ \<Rightarrow> leaf_frame c' = Ok x"
    using wp_reader.cursor_frame [of s "height t" "leaves t" c']
    by (cases "from_key usable (sint target) (slots t)") (simp_all add: wp_reader.cursor_at_def [where xs = "[]"])
  then show ?thesis using r by blast
qed

theorem cursor_seek_finds_witness:
  "\<exists>s' c'. cursor_seek 10 source_page 512 1 (demo_catalog, cursor_new 1) = Some (Ok True, (s', c'))"
proof -
  have "hits_key 512 (sint (1 :: i64)) (slots (Leaf demo_leaf))"
    by (simp add: hits_key_def from_key_def demo_leaf_keys demo_slots del: slots.simps)
  then show ?thesis
    using cursor_seek_finds [OF demo_catalog_ok(1), of "cursor_new 1" "Leaf demo_leaf" 512 10 1] demo_catalog_ok(2) demo_leaf_search
    by (auto simp: cursor_new_def SCHEMA_ROOT_PAGE_def)
qed

text \<open>
  C20. Reading the catalog through the write pager returns, in tree order, the object of every row
  of the tree at page 1 whose rows decode, whatever the overlay and log it is read through; the
  walk ends within the fuel and leaves the transaction state unchanged.
\<close>

theorem schema_read_complete:
  assumes "cache_ok s" and "tree_at (wp_store s) SCHEMA_ROOT_PAGE t" and "4 < usable"
    and "list_all2 (row_object dbg (wp_store s) usable enc) (slots t) objs"
    and "\<And>x b. x \<in> set (slots t) \<Longrightarrow> row_bytes (wp_store s) usable x b \<Longrightarrow> length b < fuel"
    and "height t + leaves t < fuel" and "length (slots t) < fuel"
  shows "\<exists>s'. schema_read fuel dbg source_page usable enc s = Some (Ok \<lparr>sc_objects = objs\<rparr>, s') \<and>
    cache_ok s' \<and> logical_page s' = logical_page s"
  by (rule wp_reader.schema_read_Ok [OF assms(2,4,3) _ assms(6,7)]) (use assms(1,5) in auto)

theorem schema_read_complete_witness:
  "\<exists>s'. schema_read 100 (\<lambda>s. ''?'') source_page 512 Utf8 demo_catalog =
     Some (Ok \<lparr>sc_objects = [demo_object]\<rparr>, s') \<and> logical_page s' = logical_page demo_catalog"
  using schema_read_complete [OF demo_catalog_ok _ demo_catalog_rows, of 100]
  by (auto simp: demo_slots demo_row_bytes demo_row_length simp del: slots.simps)

text \<open>
  C21. Inserting into a table whose interior pages form a cycle ends with the depth-limit error,
  and changes no page that the client owns beyond the fresh overflow pages of the row.
\<close>

theorem cyclic_table_rejected:
  assumes "pager_heap usable ps (k + spill_pages usable (length payload)) h s" and "length payload < 2 ^ 64"
    and "no_way_down usable h C" and "root \<in> C"
  shows "\<exists>s' h' S. insert_table root r payload s = (Err (Corrupt ''b-tree depth limit exceeded''), s') \<and>
    pager_heap usable ps k h' s' \<and> replaces h {} h' S"
  by (rule insert_table_cycle [OF assms])

theorem cyclic_table_rejected_witness:
  "\<exists>n s s'. insert_table n 7 [1, 2, 3] s = (Err (Corrupt ''b-tree depth limit exceeded''), s')"
proof -
  obtain n s h where c: "pager_heap 512 512 100 h s" "no_way_down 512 h {n}" using demo_cycle by blast
  have "pager_heap 512 512 (0 + spill_pages 512 (length [1, 2, 3 :: 8 word])) h s"
    by (rule pager_heap_less [OF c(1)]) (use demo_room in \<open>simp add: insert_room_def numeral_3_eq_3\<close>)
  from cyclic_table_rejected [OF this _ c(2)] show ?thesis by fastforce
qed

text \<open>
  C22. Redistributing cells over sibling pages succeeds when every cell fits a page (table
  leaves), or when twice every cell does (index leaves). No page of the result is empty and each
  is within the usable space. The pages hold the cells in order: all of them for table leaves; for
  index leaves the one cell between two neighbouring pages lies on neither and goes to the parent.
  Half the number of pages times the usable space is at most the total size of the cells.
\<close>

theorem distribution_fits:
  assumes "sz \<noteq> []" and "cnt_old \<noteq> []" and "length cnt_old \<le> length sz + 2" and "last cnt_old = length sz"
    and "\<forall>i < length cnt_old. start_of (if leaf_data then 1 else 0) cnt_old i \<le> cnt_old ! i \<and> cnt_old ! i \<le> length sz"
    and "\<forall>c \<in> set sz. (if leaf_data then int c + 2 else 2 * (int c + 2)) \<le> usable_space leaf usable"
  shows "\<exists>cs. distribute sz cnt_old leaf leaf_data usable = Ok cs \<and>
    concat (map (\<lambda>j. dealt_cells sz leaf_data cs j @ divider_cells sz leaf_data cs j) [0..<length cs]) = sz \<and>
    (\<forall>j < length cs. dealt_cells sz leaf_data cs j \<noteq> [] \<and>
      int (sum_list (map (\<lambda>c. c + 2) (dealt_cells sz leaf_data cs j))) \<le> usable_space leaf usable) \<and>
    int (length cs div 2) * usable_space leaf usable \<le> int (sum_list (map (\<lambda>c. c + 2) sz))"
proof -
  let ?ld = "if leaf_data then 1 else 0 :: nat"
  have "seeds_ok sz ?ld cnt_old" using assms(2-5) unfolding seeds_ok_def by blast
  moreover have "cells_fit sz ?ld (usable_space leaf usable)" using assms(6) by (auto simp: cells_fit_def list_all_iff)
  ultimately obtain cs where d: "distribute sz cnt_old leaf leaf_data usable = Ok cs" "cs \<noteq> []" "last cs = length sz"
    and g: "\<And>j. j < length cs \<Longrightarrow> good_page sz ?ld (usable_space leaf usable) cs j \<and> cs ! j \<le> length sz"
    and b: "int (length cs div 2) * usable_space leaf usable \<le> psum sz (length sz)"
    using distribute_Ok [OF assms(1)] by blast
  have s: "start_of ?ld cs j < cs ! j \<and> cs ! j \<le> length sz" if "j < length cs" for j using g [OF that] by (simp add: good_page_def)
  have p: "dealt_cells sz leaf_data cs j \<noteq> [] \<and> int (sum_list (map (\<lambda>c. c + 2) (dealt_cells sz leaf_data cs j))) \<le> usable_space leaf usable"
    if "j < length cs" for j
    using s [OF that] g [OF that] page_sum_cells [of leaf_data cs j sz] by (auto simp: good_page_def dealt_cells_def)
  have "psum sz (length sz) = int (sum_list (map (\<lambda>c. c + 2) sz))" unfolding psum_def by (induction sz) simp_all
  then show ?thesis using d(1) pages_cover [OF d(2,3) s] p b by auto
qed

theorem distribution_fits_witness:
  "\<exists>cs. distribute [200, 200, 200] [3] True False 512 = Ok cs \<and>
    concat (map (\<lambda>j. dealt_cells [200, 200, 200] False cs j @ divider_cells [200, 200, 200] False cs j) [0..<length cs]) = [200, 200, 200]"
  using distribution_fits [of "[200, 200, 200]" "[3]" False True 512] by (auto simp: usable_space_def start_of_def)

text \<open>
  C23. A table leaf written from cells that fit its page parses as a leaf of as many cells, and
  reading them gives the same rowids and bytes.
\<close>

theorem leaf_page_round_trip:
  assumes "body_offset (page_from_bytes n []) + 8 + sum_list (map (\<lambda>(_, c). length c + 2) cells) \<le> usable" and "usable \<le> psize" and "psize \<le> 65536"
    and "length (prefix_bytes prefix) = body_offset (page_from_bytes n [])" and "list_all (leaf_cell_ok usable) cells"
  shows "\<exists>buf pg. serialize_leaf psize usable (body_offset (page_from_bytes n [])) cells prefix = Ok buf \<and> length buf = psize \<and>
    btree_page_parse (page_from_bytes n buf) = Ok pg \<and> bt_type pg = LeafTable \<and> num_cells pg = length cells \<and> read_leaf_cells pg usable = Ok cells"
proof -
  let ?b = "body_offset (page_from_bytes n [])"
  have "list_all (\<lambda>(_, c). c \<noteq> []) cells" using assms(5) leaf_cell_ok_nonempty by (fastforce simp: list_all_iff)
  then obtain buf where b: "serialize_leaf psize usable ?b cells prefix = Ok buf" "length buf = psize" "page_image buf ?b LeafTable (map snd cells)"
    using serialize_leaf_Ok [OF assms(1-4)] by blast
  have "body_offset (page_from_bytes n buf) = ?b" by (simp add: body_offset_def page_from_bytes_def)
  then obtain rp where "btree_page_parse (page_from_bytes n buf) = Ok \<lparr>bt_page = page_from_bytes n buf, bt_type = LeafTable, bt_body = ?b,
      num_cells = length cells, right_pointer = rp\<rparr>" using page_image_parse [OF b(3)] by auto
  then show ?thesis using b read_leaf_cells_Ok [of _ cells usable] assms(5) by (fastforce simp: page_from_bytes_def)
qed

theorem leaf_page_round_trip_witness:
  "\<exists>buf pg. serialize_leaf 512 512 0 [(5, [2, 5, 1, 2])] None = Ok buf \<and> btree_page_parse (page_from_bytes 3 buf) = Ok pg \<and>
    read_leaf_cells pg 512 = Ok [(5, [2, 5, 1, 2])]"
proof -
  have "leaf_cell_ok 512 (5, [2, 5, 1, 2])" by code_simp
  then show ?thesis using leaf_page_round_trip [of 3 "[(5, [2, 5, 1, 2])]" 512 512 None]
    by (auto simp: body_offset_def page_from_bytes_def prefix_bytes_def)
qed

text \<open>
  C24. Inside a write transaction a page reads back as last written, a write changes no other page
  and no file.
\<close>

theorem reads_see_own_writes:
  assumes "in_txn s" and "cache_ok s" and "length b = wp_page_size (snd s)"
  shows "fst (write_page n b s) = Ok () \<and> fst (snd (write_page n b s)) = fst s \<and>
    fst (read_page m (snd (write_page n b s))) = (if m = n then Ok b else fst (read_page m s))"
  using read_your_writes [OF assms] .

theorem reads_see_own_writes_witness:
  "fst (read_page 4 (snd (write_page 4 (replicate 512 3) (demo_world, demo_pager)))) = Ok (replicate 512 3)"
  using reads_see_own_writes [OF demo_txn(1,2), of "replicate 512 3" 4 4] by (simp add: demo_pager_sel)

text \<open>
  C25. In every state reachable by disciplined locking, a write-intent holder excludes every other
  writer and an exclusive holder excludes every other lock, and the counters are those of the
  handles.
\<close>

theorem lock_mutual_exclusion_holds:
  assumes "lock_reachable s" and "i < length (levels s)" and "j < length (levels s)" and "i \<noteq> j"
  shows "(Reserved \<le> levels s ! i \<longrightarrow> levels s ! j \<le> Shared) \<and>
    (levels s ! i = Exclusive \<longrightarrow> levels s ! j = Unlocked) \<and> shared (locks s) = held Shared s"
  using lock_mutual_exclusion [OF assms] lock_inv_reachable [OF assms(1)] by (auto simp: lock_inv_def)

theorem lock_mutual_exclusion_holds_witness:
  "\<exists>s. lock_reachable s \<and> levels s = [Reserved, Shared] \<and> levels s ! 1 \<le> Shared"
proof -
  obtain s where s: "lock_reachable s" "levels s = [Reserved, Shared]" using demo_locks_reachable by blast
  then show ?thesis using lock_mutual_exclusion_holds [of s 0 1] by (auto simp: lock_order)
qed

text \<open>
  C26. Whatever pages were read and however the cache was resized before, a read of a page in
  range returns the bytes of the file at that page.
\<close>

theorem pager_reads_the_file:
  assumes "pager_open file = Ok p" and "length file < 2 ^ 64"
    and "0 < unat n" and "unat n \<le> unat (p_page_count p)"
  shows "\<exists>p'. pager_page (foldl pager_step p ops) n =
    (p', Ok (page_from_bytes n (file_page (p_page_size p) file (unat n))))"
proof -
  let ?q = "foldl pager_step p ops"
  have inv: "pager_inv ?q" and same: "same_db p ?q"
    using pager_history pager_open_OkD(1) [OF assms(1,2)] by blast+
  have "unat n \<le> unat (p_page_count ?q)" using same assms(4) by (simp add: same_db_def)
  from pager_page_in_range [OF inv assms(3) this] show ?thesis
    using same_db_page_store [OF same] pager_open_OkD(2) [OF assms(1,2)] by (auto simp: page_store_def)
qed

theorem pager_reads_the_file_witness:
  "\<exists>p p'. pager_open demo_db = Ok p \<and>
    pager_page (foldl pager_step p [ReadPage 1, SetCacheSize 0, ReadPage 9]) 1 =
      (p', Ok (page_from_bytes 1 (file_page 512 demo_db 1)))"
proof -
  obtain p where p: "pager_open demo_db = Ok p" "p_page_size p = 512" "unat (p_page_count p) = 1"
    using demo_db_open by blast
  then have "\<exists>p'. pager_page (foldl pager_step p [ReadPage 1, SetCacheSize 0, ReadPage 9]) 1 =
      (p', Ok (page_from_bytes 1 (file_page (p_page_size p) demo_db (unat (1 :: u32)))))"
    using demo_db_length by (intro pager_reads_the_file) simp_all
  then show ?thesis using p by auto
qed

text \<open>
  C27. The record decoder returns a value or an error on any bytes and any encoding; it never
  panics.
\<close>

theorem record_decode_total: "decode_record bs enc \<noteq> Panic"
  by (rule decode_record_no_panic)

text \<open>
  C28. A varint decodes to the value encoded, using exactly its bytes, whatever follows. The
  encoding has at most nine bytes and is as short as possible: no buffer decodes to the value in
  fewer bytes.
\<close>

theorem varint_round_trip:
  "varint_decode (varint_encode v @ rest) = Some (v, length (varint_encode v)) \<and>
   varint_decode_i64 (varint_encode_i64 v @ rest) = Some (v, length (varint_encode v)) \<and>
   length (varint_encode v) = varint_len v \<and> varint_len v \<le> MAX_LEN \<and>
   (\<forall>buf n. varint_decode buf = Some (v, n) \<longrightarrow> length (varint_encode v) \<le> n)"
  using varint_decode_encode varint_decode_encode_i64 varint_len_bounds(2) varint_decode_shortest by simp

theorem varint_round_trip_witness:
  "varint_decode [0x80, 0x80, 0x05] = Some (5, 3) \<and> varint_encode 5 = [5] \<and> length (varint_encode 5) \<le> 3"
proof -
  have d: "varint_decode [0x80, 0x80, 0x05] = Some (5, 3)" "varint_encode 5 = [5]" by code_simp+
  then show ?thesis using varint_round_trip [of 5 "[]"] by blast
qed

text \<open>
  C29. Serializing a well-formed header into a page and parsing it gives the header back and
  leaves the rest of the page alone.
\<close>

theorem header_round_trip:
  assumes "header_wf h" and "HEADER_LEN \<le> length buf"
  shows "\<exists>buf'. header_write_to h buf = Ok buf' \<and> header_parse buf' = Ok h \<and>
    length buf' = length buf \<and> drop HEADER_LEN buf' = drop HEADER_LEN buf"
  using header_write_to_Ok [OF assms(2), of h] header_parse_bytes [OF assms(1)] assms(2)
  by (simp add: HEADER_LEN_def)

theorem header_round_trip_witness:
  "\<exists>buf'. header_write_to demo_header (replicate 100 0) = Ok buf' \<and> header_parse buf' = Ok demo_header \<and>
    length buf' = 100 \<and> drop HEADER_LEN buf' = []"
  using header_round_trip [of demo_header "replicate 100 0"] demo_header_wf by (simp add: HEADER_LEN_def)

text \<open>
  C30. Parsing a header never panics; what it accepts is a well-formed header: its page size is a
  power of two from 512 to 65536, with a usable size of at least 257 bytes.
\<close>

theorem header_parse_total:
  "header_parse buf \<noteq> Panic \<and>
   (header_parse buf = Ok h \<longrightarrow> header_wf h \<and> (\<exists>n. usable_size h = Ok n \<and> 257 \<le> n \<and> n \<le> 65536))"
  using header_parse_no_panic usable_size_wf header_parse_OkD(2) by blast

theorem header_parse_total_witness:
  "header_parse (header_bytes demo_header) = Ok demo_header \<and>
   (\<exists>n. usable_size demo_header = Ok n \<and> 257 \<le> n \<and> n \<le> 65536)"
  using header_parse_total [of "header_bytes demo_header" demo_header]
    header_parse_bytes [OF demo_header_wf, of "[]"] by simp

text \<open>
  C31. Reassembling a payload ends for every overflow chain, cyclic ones included, within as many
  steps as the payload has bytes, whatever the page source returns.
\<close>

theorem payload_read_ends:
  assumes "4 < usable" and "total_len pl < fuel"
  shows "read_payload fuel rd usable bs pl s \<noteq> None"
  using read_payload_ends [OF assms] .

theorem payload_read_ends_witness:
  "read_payload 101 source_page 512 [] \<lparr>total_len = 100, local_offset = 0, local_len = 0, overflow = 2\<rparr>
     (demo_world, demo_pager) \<noteq> None"
  by (rule payload_read_ends) simp_all

text \<open>
  C32. Comparing an integer with a real compares the exact mathematical values, for every 64-bit
  integer and every double that is not NaN, infinities included.
\<close>

theorem int_float_comparison_exact:
  assumes "\<not> f64_is_nan r"
  shows "int_float_cmp i r = cmp_lin (sint i * f64_unit) (f64_scaled r)"
  using int_float_cmp_key [OF assms] .

theorem int_float_comparison_exact_witness:
  "\<not> f64_is_nan 0x43E0000000000000 \<and>
   int_float_cmp 0x7FFFFFFFFFFFFFFF 0x43E0000000000000 =
     cmp_lin (sint (0x7FFFFFFFFFFFFFFF :: i64) * f64_unit) (f64_scaled 0x43E0000000000000)"
proof -
  have "\<not> f64_is_nan 0x43E0000000000000" by (simp add: f64_is_nan_def f64_exp_def f64_mant_def)
  with int_float_comparison_exact show ?thesis by blast
qed

text \<open>
  C33. The comparison of values is a total preorder on values without NaN: reflexive,
  antisymmetric up to Equal, and transitive.
\<close>

theorem value_comparison_preorder:
  assumes "\<not> is_nan_value a" and "\<not> is_nan_value b" and "\<not> is_nan_value c"
  shows "cmp_values a a = Equal \<and> cmp_values b a = reverse_ordering (cmp_values a b) \<and>
    (cmp_values a b \<noteq> Greater \<and> cmp_values b c \<noteq> Greater \<longrightarrow> cmp_values a c \<noteq> Greater) \<and>
    (cmp_values a b = Less \<and> cmp_values b c = Less \<longrightarrow> cmp_values a c = Less)"
  using assms value_order.cmp_refl value_order.cmp_reverse value_order.cmp_le_trans value_order.cmp_less_trans
  by (intro conjI impI; blast)

theorem value_comparison_preorder_witness:
  "cmp_values (Integer 1) (Text [97]) = Less \<and> cmp_values (Text [97]) (Blob []) = Less \<and>
   cmp_values (Integer 1) (Blob []) = Less"
  using value_comparison_preorder [of "Integer 1" "Text [97]" "Blob []"] by (simp add: cmp_lin_def)

text \<open>
  C34. Under every built-in collation the collated comparison is a total preorder on values
  without NaN.
\<close>

theorem collated_comparison_preorder:
  assumes "builtin_collation coll" and "\<not> is_nan_value a" and "\<not> is_nan_value b" and "\<not> is_nan_value c"
  shows "cmp_values_coll reg a a coll = Equal \<and>
    cmp_values_coll reg b a coll = reverse_ordering (cmp_values_coll reg a b coll) \<and>
    (cmp_values_coll reg a b coll \<noteq> Greater \<and> cmp_values_coll reg b c coll \<noteq> Greater \<longrightarrow>
      cmp_values_coll reg a c coll \<noteq> Greater)"
  using assms
proof (cases coll)
  case Binary
  with assms show ?thesis
    using binary_order.cmp_refl [of a reg] binary_order.cmp_reverse [of a b reg]
      binary_order.cmp_le_trans [of a b c reg] by simp
next
  case NoCase
  with assms show ?thesis
    using nocase_order.cmp_refl [of a reg] nocase_order.cmp_reverse [of a b reg]
      nocase_order.cmp_le_trans [of a b c reg] by simp
next
  case RTrim
  with assms show ?thesis
    using rtrim_order.cmp_refl [of a reg] rtrim_order.cmp_reverse [of a b reg]
      rtrim_order.cmp_le_trans [of a b c reg] by simp
qed simp

theorem collated_comparison_preorder_witness:
  "cmp_values_coll empty_registry (Text [98]) (Text [65]) NoCase =
     reverse_ordering (cmp_values_coll empty_registry (Text [65]) (Text [98]) NoCase)"
  using collated_comparison_preorder [of NoCase "Text [65]" "Text [98]" Null empty_registry] by simp

text \<open>
  C35. No accessor of a parsed b-tree page panics, whatever bytes the page holds and whatever
  index it is given, for every usable size up to 65536 (the largest a header gives); parsing
  panics on no page. For those sizes the products and sums of the payload rule stay within 64-bit
  usize and the local part of a payload is at most 65536 bytes.
\<close>

theorem page_accessors_total:
  assumes "btree_page_parse p = Ok pg" and "usable \<le> 65536"
  shows "btree_page_parse q \<noteq> Panic \<and> child_pointer pg i \<noteq> Panic \<and> table_interior_key pg i \<noteq> Panic \<and>
   table_leaf_cell pg i usable \<noteq> Panic \<and> raw_table_leaf_cell pg i usable \<noteq> Panic \<and>
   raw_index_record_cell pg i usable \<noteq> Panic \<and> index_cell pg i usable \<noteq> Panic \<and>
   child_pointer_offset pg i \<noteq> Panic \<and> cell_overflow_offset pg i usable \<noteq> Panic \<and>
   payload_split_usize (bt_type pg) usable tot = Ok (payload_split (bt_type pg) usable tot) \<and>
   fst (payload_split (bt_type pg) usable tot) \<le> 65536"
  using payload_split_usize_Ok [OF assms(2)] order_trans [OF payload_split_local assms(2)] by (simp add: no_panic)

theorem page_accessors_total_witness:
  "\<exists>pg. btree_page_parse (page_from_bytes 2 [13, 0, 0, 0, 1, 0, 0, 0, 0, 200]) = Ok pg \<and> table_leaf_cell pg 0 512 \<noteq> Panic"
proof -
  have "is_ok (btree_page_parse (page_from_bytes 2 [13, 0, 0, 0, 1, 0, 0, 0, 0, 200]))" by code_simp
  then obtain pg where pg: "btree_page_parse (page_from_bytes 2 [13, 0, 0, 0, 1, 0, 0, 0, 0, 200]) = Ok pg"
    by (cases "btree_page_parse (page_from_bytes 2 [13, 0, 0, 0, 1, 0, 0, 0, 0, 200])") auto
  then show ?thesis using page_accessors_total [OF pg, of 512] by simp
qed

text \<open>
  C36. A commit that shrinks a two-page database to one page loses the second page when it crashes
  after the truncation and before the journal is discarded: recovery restores the length but the
  page is zero, so, unless it was zero before, neither the old nor the new database is left.
\<close>

theorem shrinking_commit_not_atomic:
  assumes "length b = 512" and "length p1 = 512" and "length p2 = 512"
    and "commit_ops cc 2 1 512 [(1, b)] (p1 @ p2) = Ok ops"
  shows "\<exists>d1. crash_disk ops (length ops - 3) 0 \<lparr>d_file = p1 @ p2, d_journal = []\<rparr> = Ok d1 \<and>
    recover d1 = Ok \<lparr>d_file = p1 @ replicate 512 0, d_journal = []\<rparr>"
  using shrink_crash [OF assms] .

theorem shrinking_commit_not_atomic_witness:
  "\<exists>ops d1. commit_ops 1 2 1 512 [(1, replicate 512 9)] (replicate 512 7 @ replicate 512 8) = Ok ops \<and>
    crash_disk ops (length ops - 3) 0 \<lparr>d_file = replicate 512 7 @ replicate 512 8, d_journal = []\<rparr> = Ok d1 \<and>
    recover d1 = Ok \<lparr>d_file = replicate 512 7 @ replicate 512 0, d_journal = []\<rparr>"
proof -
  obtain ops where ops: "commit_ops 1 2 1 512 [(1, replicate 512 9)] (replicate 512 7 @ replicate 512 8) = Ok ops"
    using demo_shrink_ops by blast
  then show ?thesis using shrinking_commit_not_atomic [OF _ _ _ ops] by auto
qed

text \<open>
  C37. A crash during the first commit of a new database that leaves a non-empty file is not
  rolled back: the journal of a database of zero pages has no records, so the hot-journal recovery
  of the next open leaves the file, half a page for instance, and the journal as they are. (While
  the file is still empty the recovery discards the journal.)
\<close>

theorem first_commit_not_rolled_back:
  assumes "pages_ok psize overlay" and "commit_ops cc 0 pages psize overlay [] = Ok ops"
    and "crash_disk ops i k \<lparr>d_file = [], d_journal = []\<rparr> = Ok \<lparr>d_file = w_main w, d_journal = w_journal w\<rparr>" and "w_main w \<noteq> []"
    and "w_locks w = \<lparr>locks = default_locks, levels = [Unlocked]\<rparr>"
  shows "\<exists>w'. recover_hot_journal 0 w = (Ok (), w') \<and> w_main w' = w_main w \<and> w_journal w' = w_journal w"
proof -
  have "no_records \<lparr>d_file = w_main w, d_journal = w_journal w\<rparr>" using first_commit_crash [OF assms(1,2), of i k] assms(3) by simp
  from open_no_records [OF this assms(4,5)] show ?thesis .
qed

theorem first_commit_not_rolled_back_witness:
  "\<exists>ops w w'. commit_ops 0 0 1 512 demo_overlay [] = Ok ops \<and>
    crash_disk ops 5 100 \<lparr>d_file = [], d_journal = []\<rparr> = Ok \<lparr>d_file = w_main w, d_journal = w_journal w\<rparr> \<and>
    recover_hot_journal 0 w = (Ok (), w') \<and> w_main w' = replicate 100 9 \<and> w_journal w' \<noteq> []"
proof -
  obtain ops where ops: "commit_ops 0 0 1 512 demo_overlay [] = Ok ops" using demo_first_ops by blast
  let ?h = "journal_header (journal_nonce 0 0) 0 512"
  have o1: "ops = [JTrunc 0, JWrite ?h 0, JSync, JWrite (to_be32 0) 8, JSync] @ flush_ops 512 1 demo_overlay"
    using ops first_commit_journal [of demo_overlay 512] by (auto simp: commit_ops_def write_journal_ops_def Let_def demo_overlay_def)
  obtain d where d: "crash_disk ops 5 100 \<lparr>d_file = [], d_journal = []\<rparr> = Ok d" "d_file d = replicate 100 9" "d_journal d \<noteq> []"
    unfolding o1 crash_disk_def flush_ops_def demo_overlay_def
    by (simp add: write_at_def overwrite_def file_truncate_def resize_def)
  let ?w = "demo_world\<lparr>w_main := d_file d, w_journal := d_journal d, w_locks := \<lparr>locks = default_locks, levels = [Unlocked]\<rparr>\<rparr>"
  have "crash_disk ops 5 100 \<lparr>d_file = [], d_journal = []\<rparr> = Ok \<lparr>d_file = w_main ?w, d_journal = w_journal ?w\<rparr>" using d(1) by simp
  from first_commit_not_rolled_back [OF demo_pages_ok(2) ops this] obtain w' where
    "recover_hot_journal 0 ?w = (Ok (), w')" "w_main w' = w_main ?w" "w_journal w' = w_journal ?w" using d(2) by auto
  then show ?thesis using ops d by (intro exI [of _ ops] exI [of _ ?w] exI [of _ w']) simp
qed

text \<open>
  C38. A checkpoint other than PASSIVE that starts from an unlocked connection, beside readers and
  no writer, takes RESERVED without SHARED and unlocks: afterwards the count of readers is one
  less than the number of handles that hold SHARED. When there is one reader, every unlocked
  handle can then get EXCLUSIVE while the reader still holds SHARED.
\<close>

theorem undisciplined_reserved_drops_reader:
  assumes "wal_reachable native_be (wp_page_size p) (w_main w, w_index w)" and "0 < wp_page_size p" and "wp_page_size p \<le> 65536"
    and "wp_wal p \<noteq> None" and "lock_reachable (w_locks w)" and "handle_open (w, p)"
    and "levels (w_locks w) ! wp_handle p = Unlocked" and "wp_held p = Unlocked" and "mode \<noteq> Passive"
    and "\<forall>l \<in> set (levels (w_locks w)). l \<le> Shared" and "Shared \<in> set (levels (w_locks w))"
  shows "\<exists>r w' p'. checkpoint_mode_run native_be mode (w, p) = (Ok r, (w', p')) \<and> levels (w_locks w') = levels (w_locks w) \<and>
    shared (locks (w_locks w')) + 1 = held Shared (w_locks w') \<and>
    (held Shared (w_locks w') = 1 \<longrightarrow> (\<forall>k < length (levels (w_locks w)). levels (w_locks w) ! k = Unlocked \<longrightarrow>
      (\<exists>s1 s2 s3. file_lock (w_locks w') k Shared = Ok s1 \<and> file_lock s1 k Reserved = Ok s2 \<and> file_lock s2 k Exclusive = Ok s3 \<and>
        levels s3 = (levels (w_locks w))[k := Exclusive])))"
proof -
  have free: "held Reserved (w_locks w) = 0" using assms(10) by (force simp: held_def filter_empty_conv lock_order)
  have rd: "0 < held Shared (w_locks w)" using assms(11) by (auto simp: held_def filter_empty_conv)
  from checkpoint_drops_reader [OF assms(4-9) wal_reachable_inv [OF assms(1-3)] assms(3) free rd, of native_be] obtain r w' p' where
    c: "checkpoint_mode_run native_be mode (w, p) = (Ok r, (w', p'))" "levels (w_locks w') = levels (w_locks w)"
      "shared (locks (w_locks w')) + 1 = held Shared (w_locks w')" "\<not> reserved (locks (w_locks w'))"
      "\<not> pending (locks (w_locks w'))" "\<not> exclusive (locks (w_locks w'))" by blast
  have "shared (locks (w_locks w')) = 0" if "held Shared (w_locks w') = 1" using c(3) that by simp
  then show ?thesis using c(1-3) climb_past_reader [OF _ c(4-6), unfolded c(2)] by blast
qed

theorem undisciplined_reserved_drops_reader_witness:
  "\<exists>w p r w' p'. levels (w_locks w) = [Unlocked, Shared] \<and> checkpoint_mode_run False Full (w, p) = (Ok r, (w', p')) \<and>
    levels (w_locks w') = [Unlocked, Shared] \<and> shared (locks (w_locks w')) = 0"
proof -
  obtain ix where ix: "wal_reachable False 512 (w_main (demo_world\<lparr>w_index := ix\<rparr>), w_index (demo_world\<lparr>w_index := ix\<rparr>))"
    using demo_log_world by blast
  let ?w = "demo_world\<lparr>w_index := ix, w_locks := \<lparr>locks = default_locks\<lparr>shared := 1\<rparr>, levels = [Unlocked, Shared]\<rparr>\<rparr>"
  let ?p = "demo_pager\<lparr>wp_wal := Some demo_runtime, wp_held := Unlocked\<rparr>"
  have "\<exists>r w' p'. checkpoint_mode_run False Full (?w, ?p) = (Ok r, (w', p')) \<and> levels (w_locks w') = levels (w_locks ?w) \<and>
      shared (locks (w_locks w')) + 1 = held Shared (w_locks w')"
    using undisciplined_reserved_drops_reader [of False ?p ?w Full] ix demo_reader_beside
    by (auto simp: demo_pager_sel handle_open_def lock_order)
  then obtain r w' p' where "checkpoint_mode_run False Full (?w, ?p) = (Ok r, (w', p'))" "levels (w_locks w') = [Unlocked, Shared]"
    "shared (locks (w_locks w')) + 1 = held Shared (w_locks w')" by auto
  then show ?thesis by (intro exI [of _ ?w] exI [of _ ?p] exI [of _ r] exI [of _ w'] exI [of _ p']) (simp add: held_def lock_order)
qed

text \<open>
  C39. Allocating a page gives a zeroed page that no client owns and is not page 1, and keeps the
  content of every owned page.
\<close>

theorem allocation_keeps_owned:
  assumes "pager_heap usable ps (Suc k) h s"
  shows "\<exists>n s'. allocate_page s = (Ok n, s') \<and> n \<notin> dom h \<and> 1 < n \<and> pager_heap usable ps k (h(n \<mapsto> replicate ps 0)) s'"
  using ph.heap_alloc [OF assms] by (auto simp: runs_def)

theorem allocation_keeps_owned_witness:
  "\<exists>n s' m s''. allocate_page (demo_world, demo_pager) = (Ok n, s') \<and> allocate_page s' = (Ok m, s'') \<and> m \<noteq> n"
proof -
  obtain n s' where 1: "allocate_page (demo_world, demo_pager) = (Ok n, s')" "pager_heap 512 512 (Suc 0) (Map.empty(n \<mapsto> replicate 512 0)) s'"
    using allocation_keeps_owned [OF demo_heap [of "Suc (Suc 0)"]] by auto
  then show ?thesis using allocation_keeps_owned [OF 1(2)] by fastforce
qed

text \<open>
  C40. The collated comparison reads text through its UTF-8 view, so any two distinct texts that
  are not UTF-8 are equal under every built-in collation while the plain comparison tells them
  apart.
\<close>

theorem non_utf8_texts_collate_equal:
  assumes "\<not> utf8_valid x" and "\<not> utf8_valid y" and "x \<noteq> y" and "builtin_collation coll"
  shows "cmp_values_coll reg (Text x) (Text y) coll = Equal \<and> cmp_values (Text x) (Text y) \<noteq> Equal"
  using assms by (auto simp: as_str_def cmp_text_key cmp_bytes_lin cmp_lin_def as_bytes_def split: if_splits)

theorem non_utf8_texts_collate_equal_witness:
  "cmp_values_coll empty_registry (Text [0xff]) (Text [0xfe, 0x41]) NoCase = Equal \<and> cmp_values (Text [0xff]) (Text [0xfe, 0x41]) \<noteq> Equal"
proof -
  have "\<not> utf8_valid [0xff]" "\<not> utf8_valid [0xfe, 0x41]" "builtin_collation NoCase" by code_simp+
  then show ?thesis using non_utf8_texts_collate_equal [of "[0xff]" "[0xfe, 0x41]" NoCase empty_registry] by simp
qed

section \<open>Further properties\<close>

text \<open>
  Decoding fails exactly when the buffer ends before the varint does.
\<close>

theorem varint_truncation:
  "varint_decode buf = None \<longleftrightarrow> length buf \<le> 8 \<and> list_all (\<lambda>b. 128 \<le> unat b) buf"
  using varint_decode_None_iff by (simp add: list_all_iff)

text \<open>
  The encoded length is the least number of seven-bit groups that hold the value, and sequences of
  varints parse in one way only.
\<close>

theorem varint_shortest:
  "(unat v < 128 ^ k \<and> 0 < k \<and> k \<le> 8 \<longrightarrow> varint_len v \<le> k) \<and>
   (length vs = length ws \<and> concat (map varint_encode vs) @ r = concat (map varint_encode ws) @ s \<longrightarrow> vs = ws \<and> r = s)"
  using varint_len_least vint.enc_seq_cancel by blast

theorem varint_shortest_witness:
  "unat (300 :: u64) < 128 ^ 2 \<and> varint_len 300 \<le> 2"
  using varint_shortest [of 300 2 "[]" "[]" "[]" "[]"] by simp

text \<open>
  A parsed header is well-formed, and writing it back over the bytes it came from changes only the
  reserved bytes 72..92, which become zero.
\<close>

theorem header_reserialize:
  assumes "header_parse buf = Ok h"
  shows "header_wf h \<and> header_write_to h buf = Ok (overwrite buf 72 (replicate 20 0))"
  using header_parse_OkD(2) [OF assms] header_write_to_parse [OF assms] by simp

theorem header_reserialize_witness:
  "header_wf demo_header \<and>
   header_write_to demo_header (header_bytes demo_header) = Ok (overwrite (header_bytes demo_header) 72 (replicate 20 0))"
  using header_reserialize [of "header_bytes demo_header" demo_header]
    header_parse_bytes [OF demo_header_wf, of "[]"] by simp

text \<open>
  The payload rule keeps at most the whole payload on the page, spills exactly when the payload
  exceeds the local maximum, and what spills fills whole overflow pages unless the minimum is
  kept.
\<close>

theorem payload_split_rule:
  assumes "payload_split ptype usable p = (llen, ov)" and "ptype \<noteq> InteriorTable" and "35 \<le> usable"
  shows "llen \<le> p \<and> (ov \<longleftrightarrow> payload_max_local ptype usable < p) \<and> llen \<le> payload_max_local ptype usable \<and>
    (if ov then llen = payload_min_local usable \<or> (p - llen) mod (usable - 4) = 0 else llen = p)"
  using payload_split_bounds [OF assms(1,2)] payload_split_spill [of ptype usable p llen] assms
  by (auto simp: not_le)

theorem payload_split_rule_witness:
  "payload_split LeafTable 4096 10000 = (1816, True) \<and> 1816 \<le> (10000 :: nat)"
proof -
  have s: "payload_split LeafTable 4096 10000 = (1816, True)"
    by (simp add: payload_split_def payload_max_local_def payload_min_local_def Let_def)
  show ?thesis using s payload_split_rule [OF s] by simp
qed

text \<open>
  The pointer-map entry of every tracked page lies on a pointer-map page before it, inside the
  usable bytes of that page.
\<close>

theorem ptrmap_layout_sound:
  assumes "2 < pgno" and "\<not> is_ptrmap_page usable pgno"
  shows "\<exists>m off. ptrmap_pageno usable pgno = Ok m \<and> is_ptrmap_page usable m \<and> m < pgno \<and>
    ptrmap_entry_offset usable pgno = Ok off \<and> off + ENTRY_SIZE \<le> usable"
  using ptrmap_layout [of usable pgno] assms by (metis tracked_def)

theorem ptrmap_layout_sound_witness:
  "\<exists>m off. ptrmap_pageno 4096 823 = Ok m \<and> is_ptrmap_page 4096 m \<and> m < 823 \<and>
    ptrmap_entry_offset 4096 823 = Ok off \<and> off + ENTRY_SIZE \<le> 4096"
proof -
  have "\<not> is_ptrmap_page 4096 823"
    by (simp add: is_ptrmap_page_def ptrmap_pageno_def entries_per_page_def ENTRY_SIZE_def)
  then show ?thesis using ptrmap_layout_sound [of 823 4096] by simp
qed

text \<open>
  Storing the entry of a page reads back, and the entries that other pages have on the same
  pointer-map page are unchanged.
\<close>

theorem ptrmap_entry_store:
  assumes "tracked usable p" and "tracked usable q" and "p \<noteq> q" and "usable \<le> length buf"
    and "ptrmap_pageno usable q = ptrmap_pageno usable p"
    and "ptrmap_entry_offset usable p = Ok a" and "ptrmap_entry_offset usable q = Ok b"
  shows "decode_entry (take 5 (drop a (overwrite buf a (encode_entry k parent)))) = Some (k, parent) \<and>
    take 5 (drop b (overwrite buf a (encode_entry k parent))) = take 5 (drop b buf)"
  using ptrmap_store_entry(1) [OF assms(1,4,6), of k parent]
    ptrmap_store_entry(2) [OF assms(1,4,6,2) assms(3) [symmetric] assms(5,7), of k parent] by simp

theorem ptrmap_entry_store_witness:
  "decode_entry (take 5 (drop 5 (overwrite (replicate 512 0) 5 (encode_entry Btree 9)))) = Some (Btree, 9)"
proof -
  have "tracked 512 4" "tracked 512 3" "ptrmap_pageno 512 3 = ptrmap_pageno 512 4"
    "ptrmap_entry_offset 512 4 = Ok 5" "ptrmap_entry_offset 512 3 = Ok 0"
    by (simp_all add: tracked_def is_ptrmap_page_def ptrmap_entry_offset_def ptrmap_pageno_def
        entries_per_page_def ENTRY_SIZE_def)
  then show ?thesis using ptrmap_entry_store [of 512 4 3 "replicate 512 0" 5 0 Btree 9] by simp
qed

text \<open>
  Every operation of the page cache keeps it within its capacity of at least one page, an inserted
  page is found, and nothing else appears.
\<close>

theorem cache_bounded:
  assumes "cache_inv c"
  shows "cache_inv (fst (cache_get c n)) \<and> cache_inv (cache_insert c n d) \<and> cache_inv (cache_invalidate c n) \<and>
    cache_inv (cache_clear c) \<and> cache_inv (set_cache_size c cs ps) \<and>
    cache_len (cache_insert c n d) \<le> capacity c \<and> cache_lookup (cache_insert c n d) n = Some d \<and>
    (m = n \<or> cache_lookup (cache_insert c n d) m \<in> {None, cache_lookup c m})"
proof (intro conjI)
  show "cache_len (cache_insert c n d) \<le> capacity c"
    using cache_insert_inv [OF assms, of n d] capacity_cache_insert [OF assms] by (simp add: cache_inv_def)
  show "m = n \<or> cache_lookup (cache_insert c n d) m \<in> {None, cache_lookup c m}"
    using cache_insert_lookup(2) [OF assms, of m n d] by (cases "cache_lookup (cache_insert c n d) m"; cases "m = n") auto
qed (rule cache_get_inv cache_insert_inv cache_invalidate_props(1) cache_clear_props(1)
      set_cache_size_props(1) cache_insert_lookup(1), rule assms)+

theorem cache_bounded_witness:
  "cache_len (cache_insert (cache_new 1 512) 7 [1]) \<le> capacity (cache_new 1 512) \<and>
   cache_lookup (cache_insert (cache_new 1 512) 7 [1]) 7 = Some [1]"
  using cache_bounded [OF cache_new_inv, of 1 512 7 "[1]"] by blast

text \<open>
  Eviction removes exactly one page, and no page that stays was used earlier than it.
\<close>

theorem cache_evicts_lru:
  assumes "bm_inv (cache_map c)" and "evict_one c = (c', True)"
  shows "\<exists>n e. bm_get (cache_map c) n = Some e \<and> cache_map c' = bm_remove n (cache_map c) \<and>
    (\<forall>m f. bm_get (cache_map c') m = Some f \<longrightarrow> last_used e \<le> last_used f)"
  using evict_one_lru [OF assms] by metis

theorem cache_evicts_lru_witness:
  "\<exists>n e. bm_get (cache_map demo_cache) n = Some e \<and>
    (\<forall>m f. bm_get (bm_remove n (cache_map demo_cache)) m = Some f \<longrightarrow> last_used e \<le> last_used f)"
proof -
  have "bm_inv (cache_map demo_cache)" by (simp add: demo_cache_def bm_inv_def)
  moreover have "snd (evict_one demo_cache) = True" by (simp add: demo_cache_def evict_one_def lru_victim_def)
  ultimately show ?thesis
    using cache_evicts_lru [of demo_cache "fst (evict_one demo_cache)"] by (metis prod.collapse)
qed

text \<open>
  UTF-16 text of either byte order decodes to the UTF-8 of the same scalar values, and whatever
  decodes is valid UTF-8.
\<close>

theorem utf16_text_decoding:
  assumes "enc \<noteq> Utf8" and "list_all is_scalar cs"
  shows "decode_text (utf16_bytes enc (concat (map utf16_encode_char cs))) enc = Ok (concat (map utf8_encode cs)) \<and>
    (decode_text body enc = Ok t \<longrightarrow> utf8_valid t)"
  using decode_text_utf16 [OF assms(1)] decode_text_utf16_valid [OF assms(1)] assms(2)
  by (simp_all add: list_all_iff)

theorem utf16_text_decoding_witness:
  "decode_text (utf16_bytes Utf16Le (concat (map utf16_encode_char [0x41, 0x20ac, 0x1f600]))) Utf16Le =
     Ok (concat (map utf8_encode [0x41, 0x20ac, 0x1f600]))"
  using utf16_text_decoding [of Utf16Le "[0x41, 0x20ac, 0x1f600]"] by (simp add: is_scalar_def)

end
